(* ===== verification/V7_Prelude.thy ===== *)
theory V7_Prelude
  imports Main "HOL-Library.Word"
begin

text \<open>
  What every component shares: the widths of the PDP-11 data types, the wait channels
  the kernel sleeps on and wakes, and generic facts about options, lists and words.
  An \<open>int\<close>, a pointer, a \<open>short\<close> and an \<open>unsigned\<close> are 16 bits wide, a \<open>char\<close> 8 bits
  and a \<open>long\<close> 32 bits; the signed reading of a word is \<^const>\<open>sint\<close>, the unsigned one
  \<^const>\<open>unat\<close>.
\<close>

unbundle bit_operations_syntax

type_synonym u8 = "8 word"
type_synonym u16 = "16 word"
type_synonym u32 = "32 word"

named_theorems v7_defs \<open>definitions that the component proofs unfold\<close>

subsection \<open>Options: a read or write outside an array is None\<close>

lemma map_option_Cons_Some [simp]:
  "map_option ((#) x) r = Some ys \<longleftrightarrow> (\<exists>zs. r = Some zs \<and> ys = x # zs)"
  by (cases r) auto

lemma takeWhile_all [simp]: "takeWhile (\<lambda>x. True) xs = xs"
  by (induction xs) auto

subsection \<open>Words\<close>

lemma unat_add_no_wrap:
  fixes a b :: "'a::len word"
  assumes "unat a + unat b < 2 ^ LENGTH('a)"
  shows "unat (a + b) = unat a + unat b"
  using assms by (simp add: unat_word_ariths)

lemma unat_sub_no_wrap:
  fixes a b :: "'a::len word"
  assumes "unat b \<le> unat a"
  shows "unat (a - b) = unat a - unat b"
  using assms by (simp add: unat_sub word_le_nat_alt)

lemma sint_pos_unat:
  fixes w :: "16 word"
  assumes "0 \<le> sint w"
  shows "sint w = int (unat w)" and "unat w < 32768"
proof -
  have lt: "sint w < 32768"
    using sint_lt [of w] by simp
  then have "take_bit 16 (sint w) = sint w"
    using assms lt by (simp add: take_bit_int_eq_self)
  then show eq: "sint w = int (unat w)"
    by (simp add: uint_sint)
  show "unat w < 32768"
    using lt unfolding eq by linarith
qed

lemma sint_le_unat:
  fixes a b :: "16 word"
  assumes "0 \<le> sint a" and "sint a \<le> sint b"
  shows "unat a \<le> unat b"
proof -
  have "sint a = int (unat a)"
    using assms(1) by (rule sint_pos_unat)
  moreover have "sint b = int (unat b)"
    by (rule sint_pos_unat) (use assms in linarith)
  ultimately show ?thesis using assms(2) by linarith
qed

lemma sint_pos_unat_pos:
  fixes a :: "16 word"
  assumes "0 < sint a"
  shows "0 < unat a"
proof -
  have "sint a = int (unat a)"
    by (rule sint_pos_unat) (use assms in linarith)
  with assms show ?thesis by linarith
qed

lemma unat_small_sint:
  fixes w :: "16 word"
  assumes "unat w < 32768"
  shows "sint w = int (unat w)"
proof -
  from assms have "int (unat w) < 32768"
    by linarith
  then have "uint w < 2 ^ 15"
    by simp
  moreover have "- (2 ^ 15) \<le> uint w"
    by (rule order_trans [of _ 0]) simp_all
  ultimately have "sint w = uint w"
    by (simp add: sint_uint signed_take_bit_int_eq_self)
  then show ?thesis by simp
qed

lemma small_pos_sint:
  fixes w :: "16 word"
  assumes "0 < unat w" and "unat w < 32768"
  shows "0 < sint w" and "w \<noteq> 0"
proof -
  have "sint w = int (unat w)" using assms(2) by (rule unat_small_sint)
  with assms(1) show "0 < sint w" by linarith
  then show "w \<noteq> 0" by auto
qed

lemma sint_add_no_wrap:
  fixes a b :: "16 word"
  assumes "- 32768 \<le> sint a + sint b" and "sint a + sint b < 32768"
  shows "sint (a + b) = sint a + sint b"
  using assms by (simp add: sint_word_ariths signed_take_bit_int_eq_self)

lemma sint_sub_no_wrap:
  fixes a b :: "16 word"
  assumes "- 32768 \<le> sint a - sint b" and "sint a - sint b < 32768"
  shows "sint (a - b) = sint a - sint b"
  using assms by (simp add: sint_word_ariths signed_take_bit_int_eq_self)

lemma sint16_range:
  fixes a :: "16 word"
  shows "- 32768 \<le> sint a" and "sint a < 32768"
  using sint_ge [of a] sint_lt [of a] by simp_all

lemma even_unat_word: "even (unat n) \<longleftrightarrow> even (n :: 'a::len word)"
proof -
  have "even (unat n) = even (int (unat n))"
    by (rule even_of_nat [symmetric])
  also have "\<dots> = even (uint n)" by simp
  also have "\<dots> = even n"
    using bit_uint_iff [of n 0] by (simp add: bit_0)
  finally show ?thesis .
qed

lemma and_1_even: "n AND 1 = (0 :: 16 word) \<longleftrightarrow> even (unat n)"
  by (simp add: and_one_eq mod_2_eq_odd even_unat_word)

text \<open>A \<open>char\<close> is signed: read as an \<open>int\<close> it is \<^const>\<open>scast\<close>, masked with 0377 \<^const>\<open>ucast\<close>.\<close>

lemma ucast_scast_8 [simp]: "(ucast (scast (c :: 8 word) :: 16 word) :: 8 word) = c"
  by (rule bit_word_eqI) (auto simp: bit_simps)

lemma ucast_ucast_8 [simp]: "(ucast (ucast (c :: 8 word) :: 16 word) :: 8 word) = c"
  by (rule bit_word_eqI) (auto simp: bit_simps)

lemma bit_7_small: "(c :: 8 word) < 128 \<Longrightarrow> \<not> bit c 7"
  by (simp add: bit_iff_odd_drop_bit word_less_nat_alt drop_bit_eq_div unat_div flip: even_unat_word)

lemma scast_small:
  assumes "(c :: 8 word) < 128"
  shows "(scast c :: 16 word) = ucast c"
proof (rule bit_word_eqI)
  fix n
  have "bit c (min 7 n) = bit c n"
  proof (cases "n \<le> 7")
    case False
    then have "\<not> bit c n" using bit_imp_le_length [of c n] by auto
    with False bit_7_small [OF assms] show ?thesis by (simp add: min_def)
  qed (simp add: min_def)
  moreover assume "n < LENGTH(16)"
  ultimately show "bit (scast c :: 16 word) n = bit (ucast c :: 16 word) n"
    by (auto simp: bit_simps)
qed

lemma unat_ucast_8: "unat (ucast (c :: 8 word) :: 16 word) = unat c"
  using unsigned_less [of c, where 'a = nat] by (simp add: unsigned_ucast_eq take_bit_nat_eq_self)

end
