(* ===== verification/Res_Map.thy ===== *)
theory Res_Map
  imports V7_Prelude
begin

text \<open>
  The resource maps of \<open>usr/sys/sys/malloc.c\<close>: core is allocated in 64-byte clicks from
  \<open>coremap\<close>, swap space in 512-byte blocks from \<open>swapmap\<close>. A map is an array of
  (size, address) entries ended by an entry of size 0; the pointer \<open>bp\<close> that walks over
  it is the recursion over the list of entries, and running off the array is \<^const>\<open>None\<close>.
\<close>

section \<open>State and operations\<close>

record mapent =
  m_size :: u16
  m_addr :: u16

text \<open>
  The loop of \<open>malloc\<close> that closes the hole left by an entry that became empty: the
  slot before \<open>bp\<close> takes the contents of \<open>bp\<close>, up to and including the terminator.
\<close>

fun shift_down :: "mapent list \<Rightarrow> mapent list option" where
  "shift_down [] = None"
| "shift_down (bp # es) =
     (if m_size bp = 0 then Some (bp # bp # es)
      else map_option ((#) bp) (shift_down es))"

fun malloc :: "mapent list \<Rightarrow> u16 \<Rightarrow> (mapent list \<times> u16) option" where
  "malloc [] sz = None"
| "malloc (bp # es) sz =
     (if m_size bp = 0 then Some (bp # es, 0)
      else if sint sz \<le> sint (m_size bp) then
        (let a = m_addr bp;
             bp' = bp\<lparr>m_addr := m_addr bp + sz, m_size := m_size bp - sz\<rparr>
         in if m_size bp' = 0
            then map_option (\<lambda>es'. (es', a)) (shift_down es)
            else Some (bp' # es, a))
      else map_option (\<lambda>(es', a). (bp # es', a)) (malloc es sz))"

text \<open>
  \<open>mfree\<close>: the loop over \<open>bp\<close> stops at the first entry beyond \<open>a\<close> or at the
  terminator; the entry before it is \<open>bp-1\<close>. \<open>shift_up\<close> is the insertion loop, which
  moves every entry one slot up until the terminator has been overwritten, and
  \<open>close_gap\<close> the loop that removes the entry merged on both sides.
\<close>

fun shift_up :: "mapent list \<Rightarrow> u16 \<Rightarrow> u16 \<Rightarrow> mapent list option" where
  "shift_up [] sz a = None"
| "shift_up (bp # es) sz a =
     (let t = m_size bp; bp' = \<lparr>m_size = sz, m_addr = a\<rparr>
      in if t = 0 then Some (bp' # es)
         else map_option ((#) bp') (shift_up es t (m_addr bp)))"

fun close_gap :: "mapent list \<Rightarrow> mapent list option" where
  "close_gap [] = None"
| "close_gap (bp # es) =
     (if m_size bp = 0 then Some (bp # es)
      else (case es of [] \<Rightarrow> None | n # _ \<Rightarrow> map_option ((#) n) (close_gap es)))"

definition mfree_insert :: "mapent \<Rightarrow> mapent list \<Rightarrow> u16 \<Rightarrow> u16 \<Rightarrow> mapent list option" where
  "mfree_insert bp es sz a =
     (if a + sz = m_addr bp \<and> m_size bp \<noteq> 0
      then Some (bp\<lparr>m_addr := m_addr bp - sz, m_size := m_size bp + sz\<rparr> # es)
      else if sz \<noteq> 0 then shift_up (bp # es) sz a
      else Some (bp # es))"

definition mfree_here :: "mapent option \<Rightarrow> mapent \<Rightarrow> mapent list \<Rightarrow> u16 \<Rightarrow> u16 \<Rightarrow> mapent list option"
where
  "mfree_here prev bp es sz a =
     (case prev of
        Some p \<Rightarrow>
          if m_addr p + m_size p = a then
            (if a + sz = m_addr bp
             then map_option ((#) (p\<lparr>m_size := m_size p + sz + m_size bp\<rparr>)) (close_gap (bp # es))
             else Some (p\<lparr>m_size := m_size p + sz\<rparr> # bp # es))
          else map_option ((#) p) (mfree_insert bp es sz a)
      | None \<Rightarrow> mfree_insert bp es sz a)"

fun mfree_from :: "mapent option \<Rightarrow> mapent list \<Rightarrow> u16 \<Rightarrow> u16 \<Rightarrow> mapent list option" where
  "mfree_from prev [] sz a = None"
| "mfree_from prev (bp # es) sz a =
     (if m_addr bp \<le> a \<and> m_size bp \<noteq> 0
      then (case prev of
              None \<Rightarrow> mfree_from (Some bp) es sz a
            | Some p \<Rightarrow> map_option ((#) p) (mfree_from (Some bp) es sz a))
      else mfree_here prev bp es sz a)"

text \<open>
  The two maps, with the flag \<open>runin\<close> on which the scheduler waits for core. \<open>mfree\<close>
  on \<open>coremap\<close> clears the flag and wakes the scheduler (\<open>sched_woken\<close>); a free of
  swap space does not.
\<close>

datatype whichmap = Coremap | Swapmap

record maps =
  coremap :: "mapent list"
  swapmap :: "mapent list"
  runin :: u8
  sched_woken :: bool

definition the_map :: "whichmap \<Rightarrow> maps \<Rightarrow> mapent list" where
  "the_map mp s = (case mp of Coremap \<Rightarrow> coremap s | Swapmap \<Rightarrow> swapmap s)"

definition set_map :: "whichmap \<Rightarrow> mapent list \<Rightarrow> maps \<Rightarrow> maps" where
  "set_map mp es s = (case mp of Coremap \<Rightarrow> s\<lparr>coremap := es\<rparr> | Swapmap \<Rightarrow> s\<lparr>swapmap := es\<rparr>)"

definition kmalloc :: "whichmap \<Rightarrow> u16 \<Rightarrow> maps \<Rightarrow> (u16 \<times> maps) option" where
  "kmalloc mp sz s = map_option (\<lambda>(es, a). (a, set_map mp es s)) (malloc (the_map mp s) sz)"

definition mfree :: "whichmap \<Rightarrow> u16 \<Rightarrow> u16 \<Rightarrow> maps \<Rightarrow> maps option" where
  "mfree mp sz a s =
     (let s' = (if mp = Coremap \<and> runin s \<noteq> 0 then s\<lparr>runin := 0, sched_woken := True\<rparr> else s)
      in map_option (\<lambda>es. set_map mp es s') (mfree_from None (the_map mp s') sz a))"


section \<open>Well-formed maps and the space they hold\<close>

text \<open>
  A well-formed map has positive sizes, ascending addresses with a gap between two
  entries (neighbours are always merged), no entry at address 0 (the failure value of
  \<open>malloc\<close>), no entry that wraps around 16 bits, and only empty slots from the
  terminator on. \<open>units\<close> is the space the map stands for.
\<close>

fun wf_from :: "nat \<Rightarrow> mapent list \<Rightarrow> bool" where
  "wf_from lo [] = False"
| "wf_from lo (e # es) =
     (if m_size e = 0 then (\<forall>x \<in> set es. m_size x = 0)
      else lo < unat (m_addr e) \<and> 0 < sint (m_size e) \<and>
           unat (m_addr e) + unat (m_size e) < 65536 \<and>
           wf_from (unat (m_addr e) + unat (m_size e)) es)"

definition wf_map :: "mapent list \<Rightarrow> bool" where
  "wf_map es = wf_from 0 es"

fun units :: "mapent list \<Rightarrow> nat set" where
  "units [] = {}"
| "units (e # es) =
     (if m_size e = 0 then {}
      else {unat (m_addr e)..<unat (m_addr e) + unat (m_size e)} \<union> units es)"

fun live :: "mapent list \<Rightarrow> mapent list" where
  "live [] = []"
| "live (e # es) = (if m_size e = 0 then [] else e # live es)"

lemma wf_from_mono: "wf_from hi es \<Longrightarrow> lo \<le> hi \<Longrightarrow> wf_from lo es"
  by (cases es) (auto split: if_splits)

lemma wf_from_zeros: "es \<noteq> [] \<Longrightarrow> \<forall>x \<in> set es. m_size x = 0 \<Longrightarrow> wf_from lo es \<and> units es = {}"
  by (cases es) auto

lemma units_above: "wf_from lo es \<Longrightarrow> n \<in> units es \<Longrightarrow> lo < n"
  by (induction es arbitrary: lo) (fastforce split: if_splits)+

lemma units_bounded: "wf_from lo es \<Longrightarrow> n \<in> units es \<Longrightarrow> n < 65535"
  by (induction es arbitrary: lo) (fastforce split: if_splits)+

lemma shift_down_ok:
  assumes "wf_from lo es"
  shows "\<exists>es'. shift_down es = Some es' \<and> wf_from lo es' \<and> units es' = units es \<and>
               length es' = Suc (length es) \<and> live es' = live es"
  using assms
proof (induction es arbitrary: lo)
  case (Cons e es)
  show ?case
  proof (cases "m_size e = 0")
    case False
    with Cons.prems have "wf_from (unat (m_addr e) + unat (m_size e)) es" by simp
    from Cons.IH [OF this] False Cons.prems show ?thesis by fastforce
  qed (use Cons.prems in auto)
qed simp

text \<open>\<open>malloc\<close> never runs off a well-formed map, and it allocates exactly what it returns.\<close>

definition fits :: "mapent list \<Rightarrow> u16 \<Rightarrow> bool" where
  "fits es sz = (\<exists>e \<in> set (live es). sint sz \<le> sint (m_size e))"

lemma malloc_spec:
  assumes "wf_from lo es" and "0 < sint sz"
  shows "\<exists>es' a. malloc es sz = Some (es', a) \<and> length es' = length es \<and> wf_from lo es' \<and>
    (if a = 0 then es' = es \<and> \<not> fits es sz
     else {unat a..<unat a + unat sz} \<subseteq> units es \<and>
          units es' = units es - {unat a..<unat a + unat sz} \<and> lo < unat a)"
  using assms(1)
proof (induction es arbitrary: lo)
  case (Cons e es)
  consider (stop) "m_size e = 0" | (here) "m_size e \<noteq> 0" "sint sz \<le> sint (m_size e)"
    | (later) "m_size e \<noteq> 0" "\<not> sint sz \<le> sint (m_size e)" by blast
  then show ?case
  proof cases
    case stop
    with Cons.prems show ?thesis by (simp add: fits_def)
  next
    case here
    let ?a = "unat (m_addr e)" and ?n = "unat sz" and ?m = "unat (m_size e)"
    from here Cons.prems have wf: "lo < ?a" "?a + ?m < 65536" "wf_from (?a + ?m) es" by auto
    have nm: "0 < ?n" "?n \<le> ?m"
      using here assms(2) by (auto intro: sint_pos_unat_pos sint_le_unat)
    have sub: "unat (m_size e - sz) = ?m - ?n" using nm by (intro unat_sub_no_wrap) auto
    have add: "unat (m_addr e + sz) = ?a + ?n" using nm wf by (intro unat_add_no_wrap) auto
    have above: "\<And>x. x \<in> units es \<Longrightarrow> ?a + ?m < x" using units_above [OF wf(3)] by blast
    have ne: "m_addr e \<noteq> 0" using wf(1) by auto
    show ?thesis
    proof (cases "m_size e - sz = 0")
      case True
      then have eq: "m_size e = sz" by simp
      obtain es' where "shift_down es = Some es'" "wf_from (?a + ?m) es'" "units es' = units es"
        "length es' = Suc (length es)" using shift_down_ok [OF wf(3)] by blast
      moreover from \<open>wf_from (?a + ?m) es'\<close> have "wf_from lo es'"
        using wf(1) by (auto intro: wf_from_mono)
      moreover have "units es - {?a..<?a + ?m} = units es"
        using above by fastforce
      ultimately show ?thesis
        using here(1) ne wf(1) eq by (auto simp: Let_def Un_Diff)
    next
      case False
      have pos: "0 < sint (m_size e - sz)"
      proof -
        have "sint (m_size e) = int ?m" using here assms(2) by (intro sint_pos_unat) linarith
        then have "?m < 32768" using sint_pos_unat(2) [of "m_size e"] here assms(2) by linarith
        then have "unat (m_size e - sz) < 32768" using sub by simp
        then have "sint (m_size e - sz) = int (unat (m_size e - sz))"
          by (rule unat_small_sint)
        moreover have "0 < unat (m_size e - sz)"
          using False by (simp add: unat_gt_0)
        ultimately show ?thesis by linarith
      qed
      have nz: "m_size e \<noteq> sz" using False by simp
      have "units es - {?a..<?a + ?n} = units es"
        using above nm by fastforce
      moreover have "{?a..<?a + ?m} - {?a..<?a + ?n} = {?a + ?n..<?a + ?m}"
        by auto
      moreover have "?a + ?n + (?m - ?n) = ?a + ?m" using nm by simp
      moreover have "{?a..<?a + ?n} \<subseteq> {?a..<?a + ?m} \<union> units es" using nm by auto
      ultimately show ?thesis
        using here ne nz wf nm pos
        by (simp add: Let_def add sub Un_Diff)
    qed
  next
    case later
    with Cons.prems have "wf_from (unat (m_addr e) + unat (m_size e)) es" by simp
    from Cons.IH [OF this] obtain es' a where IH: "malloc es sz = Some (es', a)"
      "length es' = length es" "wf_from (unat (m_addr e) + unat (m_size e)) es'"
      "if a = 0 then es' = es \<and> \<not> fits es sz
       else {unat a..<unat a + unat sz} \<subseteq> units es \<and>
          units es' = units es - {unat a..<unat a + unat sz} \<and>
          unat (m_addr e) + unat (m_size e) < unat a" by blast
    then show ?thesis
      using later Cons.prems by (auto simp: fits_def split: if_splits)
  qed
qed simp


subsection \<open>Freeing\<close>

lemma close_gap_ok:
  assumes "wf_from lo (bp # es)" and "m_size bp \<noteq> 0"
  shows "\<exists>es'. close_gap (bp # es) = Some es' \<and>
    wf_from (unat (m_addr bp) + unat (m_size bp)) es' \<and> units es' = units es \<and>
    length es' = Suc (length es)"
  using assms
proof (induction es arbitrary: bp lo)
  case (Cons n es)
  let ?hi = "unat (m_addr bp) + unat (m_size bp)"
  from Cons.prems have wf: "wf_from ?hi (n # es)" by simp
  show ?case
  proof (cases "m_size n = 0")
    case True
    with wf Cons.prems(2) show ?thesis by auto
  next
    case False
    from Cons.IH [OF wf False] obtain es' where "close_gap (n # es) = Some es'"
      "wf_from (unat (m_addr n) + unat (m_size n)) es'" "units es' = units es"
      "length es' = Suc (length es)" by blast
    with False wf Cons.prems(2) show ?thesis by simp
  qed
qed simp

lemma shift_up_ok:
  assumes "wf_from lo xs" and "lo < unat a" and "0 < sint sz" and "unat a + unat sz < 65536"
    and "\<forall>e es. xs = e # es \<longrightarrow> m_size e \<noteq> 0 \<longrightarrow> unat a + unat sz < unat (m_addr e)"
    and "length (live xs) + 2 \<le> length xs"
  shows "\<exists>ys. shift_up xs sz a = Some ys \<and> wf_from lo ys \<and>
    units ys = units xs \<union> {unat a..<unat a + unat sz} \<and> length ys = length xs"
  using assms
proof (induction xs arbitrary: lo a sz)
  case (Cons e es)
  have nz: "sz \<noteq> 0" using Cons.prems(3) by auto
  show ?case
  proof (cases "m_size e = 0")
    case True
    with Cons.prems have "es \<noteq> []" "\<forall>x \<in> set es. m_size x = 0" by auto
    then have "wf_from (unat a + unat sz) es" "units es = {}" using wf_from_zeros by auto
    with True nz Cons.prems show ?thesis by (simp add: Let_def)
  next
    case False
    let ?hi = "unat (m_addr e) + unat (m_size e)"
    from False Cons.prems have e: "wf_from ?hi es" "0 < sint (m_size e)" "?hi < 65536"
      "unat a + unat sz < unat (m_addr e)" "length (live es) + 2 \<le> length es" by auto
    have next_gap: "\<forall>x xs. es = x # xs \<longrightarrow> m_size x \<noteq> 0 \<longrightarrow> ?hi < unat (m_addr x)"
      using e(1) by auto
    have "wf_from (unat a + unat sz) es" using e(1,4) by (auto intro: wf_from_mono)
    from Cons.IH [OF this e(4,2,3) next_gap e(5)] obtain ys where
      "shift_up es (m_size e) (m_addr e) = Some ys" "wf_from (unat a + unat sz) ys"
      "units ys = units es \<union> {unat (m_addr e)..<?hi}" "length ys = length es" by blast
    with False nz Cons.prems show ?thesis by (auto simp: Let_def)
  qed
qed simp

text \<open>
  The case analysis at the place where the loop over \<open>bp\<close> stopped: merge with the entry
  before, with the entry after, with both, or insert.
\<close>

definition prev_list :: "mapent option \<Rightarrow> mapent list" where
  "prev_list prev = (case prev of None \<Rightarrow> [] | Some p \<Rightarrow> [p])"

definition free_pre :: "nat \<Rightarrow> mapent option \<Rightarrow> mapent list \<Rightarrow> u16 \<Rightarrow> u16 \<Rightarrow> bool" where
  "free_pre lo prev rest sz a =
     (wf_from lo (prev_list prev @ rest) \<and> lo < unat a \<and> 0 < sint sz \<and>
      (\<forall>p. prev = Some p \<longrightarrow> m_size p \<noteq> 0 \<and> m_addr p \<le> a) \<and>
      units (prev_list prev @ rest) \<inter> {unat a..<unat a + unat sz} = {} \<and>
      units (prev_list prev @ rest) \<union> {unat a..<unat a + unat sz} \<subseteq> {..<32767} \<and>
      length (live rest) + 2 \<le> length rest)"

definition free_post :: "nat \<Rightarrow> mapent list \<Rightarrow> u16 \<Rightarrow> u16 \<Rightarrow> mapent list option \<Rightarrow> bool" where
  "free_post lo old sz a r =
     (\<exists>es. r = Some es \<and> wf_from lo es \<and> length es = length old \<and>
           units es = units old \<union> {unat a..<unat a + unat sz})"

lemma shift_up_post:
  assumes "wf_from lo xs" and "lo < unat a" and "0 < sint sz" and "unat a + unat sz < 65536"
    and "\<forall>e es. xs = e # es \<longrightarrow> m_size e \<noteq> 0 \<longrightarrow> unat a + unat sz < unat (m_addr e)"
    and "length (live xs) + 2 \<le> length xs"
  shows "free_post lo xs sz a (shift_up xs sz a)"
  using shift_up_ok [OF assms] unfolding free_post_def by blast

lemma mfree_insert_ok:
  assumes wf: "wf_from lo (bp # es)" and lo: "lo < unat a" and sz: "0 < sint sz"
    and dis: "units (bp # es) \<inter> {unat a..<unat a + unat sz} = {}"
    and small: "units (bp # es) \<union> {unat a..<unat a + unat sz} \<subseteq> {..<32767}"
    and room: "length (live (bp # es)) + 2 \<le> length (bp # es)"
    and stop: "\<not> (m_addr bp \<le> a \<and> m_size bp \<noteq> 0)"
  shows "free_post lo (bp # es) sz a (mfree_insert bp es sz a)"
proof -
  let ?A = "unat a" and ?N = "unat sz" and ?B = "unat (m_addr bp)" and ?M = "unat (m_size bp)"
  have N: "0 < ?N" using sz by (rule sint_pos_unat_pos)
  have AN: "?A + ?N \<le> 32767"
  proof -
    have "?A + ?N - 1 \<in> {?A..<?A + ?N}" using N by auto
    with small have "?A + ?N - 1 < 32767" by blast
    then show ?thesis by linarith
  qed
  have sum: "unat (a + sz) = ?A + ?N" using AN by (intro unat_add_no_wrap) simp
  show ?thesis
  proof (cases "m_size bp = 0")
    case True
    then have "free_post lo (bp # es) sz a (shift_up (bp # es) sz a)"
      using wf lo sz AN room by (intro shift_up_post) auto
    moreover have "sz \<noteq> 0" using N by auto
    ultimately show ?thesis
      using True by (simp only: mfree_insert_def simp_thms if_True if_False)
  next
    case False
    have M: "0 < ?M" using False by (simp add: unat_gt_0)
    have ord: "?A + ?N \<le> ?B"
    proof -
      have "?B \<in> units (bp # es)" using False M by simp
      with dis have "?B \<notin> {?A..<?A + ?N}" by blast
      moreover have "?A < ?B" using stop False by (simp add: word_less_nat_alt not_le)
      ultimately show ?thesis by simp
    qed
    have BM: "?B + ?M \<le> 32767"
    proof -
      have "?B + ?M - 1 \<in> units (bp # es)" using False M by auto
      with small have "?B + ?M - 1 < 32767" by blast
      then show ?thesis by linarith
    qed
    show ?thesis
    proof (cases "a + sz = m_addr bp")
      case True
      then have eq: "?A + ?N = ?B" using sum by simp
      have "unat (m_addr bp - sz) = ?A" using eq True by (simp add: unat_sub_no_wrap)
      moreover have size: "unat (m_size bp + sz) = ?M + ?N"
        using eq BM by (intro unat_add_no_wrap) simp
      moreover have "0 < sint (m_size bp + sz)" "m_size bp + sz \<noteq> 0"
        using size eq BM N small_pos_sint [of "m_size bp + sz"] by auto
      moreover have "{?A..<?A + (?M + ?N)} = {?B..<?B + ?M} \<union> {?A..<?A + ?N}" using eq by auto
      moreover have "wf_from (?A + (?M + ?N)) es"
      proof -
        have "?A + (?M + ?N) = ?B + ?M" using eq by simp
        moreover have "wf_from (?B + ?M) es" using wf False by simp
        ultimately show ?thesis by (simp only:)
      qed
      ultimately show ?thesis
        using True False lo BM eq
        by (auto simp: mfree_insert_def free_post_def)
    next
      case neq: False
      then have "?A + ?N \<noteq> ?B" using sum by (metis word_unat_eq_iff)
      then have "?A + ?N < ?B" using ord by simp
      then have "free_post lo (bp # es) sz a (shift_up (bp # es) sz a)"
        using wf lo sz AN room by (intro shift_up_post) auto
      moreover have "sz \<noteq> 0" using N by auto
      ultimately show ?thesis
        using neq by (simp only: mfree_insert_def simp_thms if_True if_False)
    qed
  qed
qed

lemma mfree_here_ok:
  assumes pre: "free_pre lo prev (bp # es) sz a"
    and stop: "\<not> (m_addr bp \<le> a \<and> m_size bp \<noteq> 0)"
  shows "free_post lo (prev_list prev @ bp # es) sz a (mfree_here prev bp es sz a)"
proof (cases prev)
  case None
  with pre stop show ?thesis
    by (auto simp: mfree_here_def prev_list_def free_pre_def intro!: mfree_insert_ok)
next
  case (Some p)
  let ?A = "unat a" and ?N = "unat sz" and ?P = "unat (m_addr p)" and ?L = "unat (m_size p)"
    and ?B = "unat (m_addr bp)" and ?M = "unat (m_size bp)"
  from pre Some have p: "m_size p \<noteq> 0" "m_addr p \<le> a" "lo < ?P" "0 < sint (m_size p)"
    and wf: "wf_from (?P + ?L) (bp # es)" and sz: "0 < sint sz"
    and dis: "units (p # bp # es) \<inter> {?A..<?A + ?N} = {}"
    and small: "units (p # bp # es) \<union> {?A..<?A + ?N} \<subseteq> {..<32767}"
    and room: "length (live (bp # es)) + 2 \<le> length (bp # es)"
    by (auto simp: free_pre_def prev_list_def)
  have N: "0 < ?N" using sz by (rule sint_pos_unat_pos)
  have L: "0 < ?L" using p(4) by (rule sint_pos_unat_pos)
  have le: "?P + ?L \<le> ?A"
  proof (rule ccontr)
    assume "\<not> ?thesis"
    moreover have "?P \<le> ?A" using p(2) by (simp add: word_le_nat_alt)
    ultimately have "?A \<in> units (p # bp # es)" using p(1) by auto
    moreover have "?A \<in> {?A..<?A + ?N}" using N by simp
    ultimately show False using dis by blast
  qed
  have AN: "?A + ?N \<le> 32767"
  proof -
    have "?A + ?N - 1 \<in> {?A..<?A + ?N}" using N by auto
    with small have "?A + ?N - 1 < 32767" by blast
    then show ?thesis by linarith
  qed
  have sumP: "unat (m_addr p + m_size p) = ?P + ?L" using le AN by (intro unat_add_no_wrap) simp
  have sum: "unat (a + sz) = ?A + ?N" using AN by (intro unat_add_no_wrap) simp
  show ?thesis
  proof (cases "m_addr p + m_size p = a")
    case False
    then have lt: "?P + ?L < ?A" using le sumP by (metis le_neq_implies_less word_unat_eq_iff)
    have "units (bp # es) \<inter> {?A..<?A + ?N} = {}"
      and "units (bp # es) \<union> {?A..<?A + ?N} \<subseteq> {..<32767}"
      using dis small p(1) by auto
    from mfree_insert_ok [OF wf lt sz this room stop]
    have "free_post (?P + ?L) (bp # es) sz a (mfree_insert bp es sz a)" .
    with Some False p le AN show ?thesis
      by (auto simp: free_post_def mfree_here_def prev_list_def)
  next
    case True
    then have eq: "?P + ?L = ?A" using sumP by simp
    have LN: "unat (m_size p + sz) = ?L + ?N" using eq AN by (intro unat_add_no_wrap) simp
    have ord: "?A + ?N \<le> ?B" "?B + ?M \<le> 32767" "0 < ?M" if nz: "m_size bp \<noteq> 0"
    proof -
      show "0 < ?M" using nz by (simp add: unat_gt_0)
      then have "?B \<in> units (p # bp # es)" "?B + ?M - 1 \<in> units (p # bp # es)"
        using nz p(1) by auto
      moreover have "?A < ?B" using stop nz by (simp add: word_less_nat_alt not_le)
      moreover have "?B + ?M - 1 < 32767" using small calculation(2) by blast
      ultimately show "?A + ?N \<le> ?B" "?B + ?M \<le> 32767" using dis by auto
    qed
    have grow: "{?P..<?P + (?L + ?N)} = {?P..<?P + ?L} \<union> {?A..<?A + ?N}" using eq by auto
    show ?thesis
    proof (cases "a + sz = m_addr bp \<and> m_size bp \<noteq> 0")
      case merge: True
      then have B: "?A + ?N = ?B" using sum by simp
      have size: "unat (m_size p + sz + m_size bp) = ?L + ?N + ?M"
        using LN B eq ord(2) merge by (subst unat_add_no_wrap) auto
      have pos: "0 < sint (m_size p + sz + m_size bp)" "m_size p + sz + m_size bp \<noteq> 0"
        using size L B eq ord(2) merge small_pos_sint [of "m_size p + sz + m_size bp"] by auto
      obtain es' where es': "close_gap (bp # es) = Some es'" "wf_from (?B + ?M) es'"
        "units es' = units es" "length es' = Suc (length es)"
        using close_gap_ok [OF wf] merge by blast
      have "?P + (?L + ?N + ?M) = ?B + ?M" using B eq by simp
      then have wf': "wf_from (?P + (?L + ?N + ?M)) es'" using es'(2) by (simp only:)
      have "{?P..<?P + (?L + ?N + ?M)} = {?P..<?P + ?L} \<union> {?A..<?A + ?N} \<union> {?B..<?B + ?M}"
        using B eq by auto
      then show ?thesis
        using Some True merge es' wf' pos size p B eq ord(2)
        by (auto simp: mfree_here_def free_post_def prev_list_def)
    next
      case nomerge: False
      have "0 < sint (m_size p + sz)" "m_size p + sz \<noteq> 0"
        using LN L eq AN small_pos_sint [of "m_size p + sz"] by auto
      moreover have "wf_from (?P + (?L + ?N)) (bp # es)"
      proof (cases "m_size bp = 0")
        case False
        with nomerge have "?A + ?N \<noteq> ?B" using sum by (metis word_unat_eq_iff)
        then have "?P + (?L + ?N) < ?B" using ord(1) [OF False] eq by simp
        with False wf show ?thesis by simp
      qed (use wf in simp)
      moreover have "mfree_here prev bp es sz a = Some (p\<lparr>m_size := m_size p + sz\<rparr> # bp # es)"
        using Some True nomerge by (auto simp: mfree_here_def)
      ultimately show ?thesis
        using Some p LN eq AN grow
        by (auto simp: free_post_def prev_list_def wf_from.simps(2) [of lo "p\<lparr>m_size := m_size p + sz\<rparr>"]
            simp del: wf_from.simps(2))
    qed
  qed
qed

lemma mfree_from_ok:
  assumes "free_pre lo prev rest sz a"
  shows "free_post lo (prev_list prev @ rest) sz a (mfree_from prev rest sz a)"
  using assms
proof (induction rest arbitrary: lo prev)
  case Nil
  then show ?case by (simp add: free_pre_def)
next
  case (Cons bp es)
  show ?case
  proof (cases "m_addr bp \<le> a \<and> m_size bp \<noteq> 0")
    case False
    then have "mfree_from prev (bp # es) sz a = mfree_here prev bp es sz a" by auto
    then show ?thesis using mfree_here_ok [OF Cons.prems False] by simp
  next
    case True
    show ?thesis
    proof (cases prev)
      case None
      with Cons.prems True have "free_pre lo (Some bp) es sz a"
        by (auto simp: free_pre_def prev_list_def)
      from Cons.IH [OF this] None True show ?thesis by (simp add: prev_list_def)
    next
      case (Some p)
      let ?lo = "unat (m_addr p) + unat (m_size p)"
      have nz: "m_size p \<noteq> 0" using Cons.prems Some by (simp add: free_pre_def)
      have "unat (m_addr bp) \<le> unat a" using True by (simp add: word_le_nat_alt)
      with Cons.prems True Some nz have "free_pre ?lo (Some bp) es sz a"
        by (auto simp: free_pre_def prev_list_def)
      from Cons.IH [OF this] have "free_post ?lo (bp # es) sz a (mfree_from (Some bp) es sz a)"
        by (simp add: prev_list_def)
      with Some True nz Cons.prems show ?thesis
        by (auto simp: free_post_def free_pre_def prev_list_def)
    qed
  qed
qed

subsection \<open>A well-formed map is determined by the space it holds\<close>

lemma units_hd: "wf_from lo (e # es) \<Longrightarrow> m_size e \<noteq> 0 \<Longrightarrow> unat (m_addr e) \<in> units (e # es)"
  by (simp add: unat_gt_0)

lemma units_empty_iff: "wf_from lo (e # es) \<Longrightarrow> units (e # es) = {} \<longleftrightarrow> m_size e = 0"
  using units_hd [of lo e es] by (cases "m_size e = 0") (simp, blast)

lemma units_ge_hd: "wf_from lo (e # es) \<Longrightarrow> n \<in> units (e # es) \<Longrightarrow> unat (m_addr e) \<le> n"
  using units_above [of "unat (m_addr e) + unat (m_size e)" es n] by (auto split: if_splits)

lemma units_end: "wf_from lo (e # es) \<Longrightarrow> m_size e \<noteq> 0 \<Longrightarrow>
    unat (m_addr e) + unat (m_size e) \<notin> units (e # es)"
  using units_above [of "unat (m_addr e) + unat (m_size e)" es] by auto

lemma units_tl: "wf_from lo (e # es) \<Longrightarrow> m_size e \<noteq> 0 \<Longrightarrow>
    units es = {n \<in> units (e # es). unat (m_addr e) + unat (m_size e) \<le> n}"
  using units_above [of "unat (m_addr e) + unat (m_size e)" es] by fastforce

lemma live_unique:
  assumes "wf_from lo es" and "wf_from lo' es'" and "units es = units es'"
  shows "live es = live es'"
  using assms
proof (induction es arbitrary: lo lo' es')
  case (Cons e es)
  from Cons.prems(2) obtain e' rest where es': "es' = e' # rest" by (cases es') auto
  note wf = Cons.prems(1) and wf' = Cons.prems(2) [unfolded es'] and eq = Cons.prems(3) [unfolded es']
  show ?case
  proof (cases "m_size e = 0 \<or> m_size e' = 0")
    case True
    with units_empty_iff [OF wf] units_empty_iff [OF wf'] eq have "m_size e = 0 \<and> m_size e' = 0"
      by metis
    with es' show ?thesis by simp
  next
    case False
    then have nz: "m_size e \<noteq> 0" "m_size e' \<noteq> 0" by auto
    have a: "unat (m_addr e) = unat (m_addr e')"
      using units_ge_hd [OF wf] units_ge_hd [OF wf'] units_hd [OF wf nz(1)] units_hd [OF wf' nz(2)] eq
      by (metis le_antisym)
    have "\<not> unat (m_size e) < unat (m_size e')" "\<not> unat (m_size e') < unat (m_size e)"
      using units_end [OF wf nz(1)] units_end [OF wf' nz(2)] eq a nz by auto
    then have s: "unat (m_size e) = unat (m_size e')" by simp
    have "m_addr e = m_addr e'" "m_size e = m_size e'"
      using a s word_unat_eq_iff by blast+
    then have "e = e'" by (cases e, cases e') simp
    moreover have "units es = units rest"
      using units_tl [OF wf nz(1)] units_tl [OF wf' nz(2)] eq a s by simp
    moreover have "wf_from (unat (m_addr e) + unat (m_size e)) es" using wf nz(1) by simp
    moreover have "wf_from (unat (m_addr e') + unat (m_size e')) rest" using wf' nz(2) by simp
    ultimately have "live es = live rest" by (intro Cons.IH)
    with \<open>e = e'\<close> nz show ?thesis by (simp add: es')
  qed
qed simp

section \<open>The contract of a space allocator\<close>

text \<open>
  What the swapper, the text-segment code and \<open>exec\<close> rely on: a request either fails and
  changes nothing, or returns space that was free and removes exactly that space; a free
  gives exactly the freed space back.
\<close>

locale space_allocator =
  fixes get :: "'s \<Rightarrow> u16 \<Rightarrow> ('s \<times> u16) option"
    and put :: "'s \<Rightarrow> u16 \<Rightarrow> u16 \<Rightarrow> 's option"
    and good :: "'s \<Rightarrow> bool"
    and room :: "'s \<Rightarrow> bool"
    and space :: "'s \<Rightarrow> nat set"
  assumes get_total: "good s \<Longrightarrow> 0 < sint n \<Longrightarrow> \<exists>t a. get s n = Some (t, a)"
    and get_fail: "good s \<Longrightarrow> 0 < sint n \<Longrightarrow> get s n = Some (t, 0) \<Longrightarrow> t = s"
    and get_space: "good s \<Longrightarrow> 0 < sint n \<Longrightarrow> get s n = Some (t, a) \<Longrightarrow> a \<noteq> 0 \<Longrightarrow>
          {unat a..<unat a + unat n} \<subseteq> space s \<and>
          space t = space s - {unat a..<unat a + unat n}"
    and get_good: "good s \<Longrightarrow> 0 < sint n \<Longrightarrow> get s n = Some (t, a) \<Longrightarrow> good t"
    and put_space: "good s \<Longrightarrow> room s \<Longrightarrow> 0 < sint n \<Longrightarrow> a \<noteq> 0 \<Longrightarrow>
          space s \<inter> {unat a..<unat a + unat n} = {} \<Longrightarrow>
          space s \<union> {unat a..<unat a + unat n} \<subseteq> {..<32767} \<Longrightarrow>
          \<exists>t. put s n a = Some t \<and> good t \<and> space t = space s \<union> {unat a..<unat a + unat n}"
begin

text \<open>Two allocations with no free in between never overlap.\<close>

lemma get_get_disjoint:
  assumes "good s" and "0 < sint n" and "0 < sint m"
    and "get s n = Some (t, a)" and "get t m = Some (u, b)" and "a \<noteq> 0" and "b \<noteq> 0"
  shows "{unat a..<unat a + unat n} \<inter> {unat b..<unat b + unat m} = {}"
  using get_space [OF assms(1,2,4,6)] get_space [OF get_good [OF assms(1,2,4)] assms(3,5,7)] by blast

text \<open>Freeing what was just allocated restores the free space.\<close>

lemma get_put:
  assumes "good s" and "0 < sint n" and "get s n = Some (t, a)" and "a \<noteq> 0" and "room t"
    and "space s \<subseteq> {..<32767}"
  shows "\<exists>u. put t n a = Some u \<and> good u \<and> space u = space s"
proof -
  from get_space [OF assms(1-4)] have sub: "{unat a..<unat a + unat n} \<subseteq> space s"
    and t: "space t = space s - {unat a..<unat a + unat n}" by auto
  have "\<exists>u. put t n a = Some u \<and> good u \<and> space u = space t \<union> {unat a..<unat a + unat n}"
    using get_good [OF assms(1-3)] assms sub t by (intro put_space) auto
  with sub t show ?thesis by (auto simp: Un_absorb2)
qed

end

definition map_room :: "mapent list \<Rightarrow> bool" where
  "map_room es = (length (live es) + 2 \<le> length es)"

lemma mfree_from_None:
  assumes "wf_map es" and "map_room es" and "0 < sint n" and "a \<noteq> 0"
    and "units es \<inter> {unat a..<unat a + unat n} = {}"
    and "units es \<union> {unat a..<unat a + unat n} \<subseteq> {..<32767}"
  shows "\<exists>es'. mfree_from None es n a = Some es' \<and> wf_map es' \<and> length es' = length es \<and>
    units es' = units es \<union> {unat a..<unat a + unat n}"
proof -
  have "free_pre 0 None es n a"
    using assms by (auto simp: free_pre_def prev_list_def wf_map_def map_room_def unat_gt_0)
  from mfree_from_ok [OF this] show ?thesis
    by (auto simp: free_post_def prev_list_def wf_map_def)
qed

interpretation rmap: space_allocator malloc "mfree_from None" wf_map map_room units
proof unfold_locales
  fix s t n a
  assume s: "wf_map s" and n: "0 < sint (n :: u16)"
  then obtain t' a' where m: "malloc s n = Some (t', a')" "wf_map t'"
    "if a' = 0 then t' = s \<and> \<not> fits s n
     else {unat a'..<unat a' + unat n} \<subseteq> units s \<and>
          units t' = units s - {unat a'..<unat a' + unat n} \<and> 0 < unat a'"
    using malloc_spec [of 0 s n] unfolding wf_map_def by blast
  show "\<exists>t a. malloc s n = Some (t, a)" using m by blast
  show "t = s" if "malloc s n = Some (t, 0)" using m that by simp
  show "{unat a..<unat a + unat n} \<subseteq> units s \<and> units t = units s - {unat a..<unat a + unat n}"
    if "malloc s n = Some (t, a)" "a \<noteq> 0" using m that by auto
  show "wf_map t" if "malloc s n = Some (t, a)" using m that by simp
next
  fix s n a
  assume "wf_map s" "map_room s" "0 < sint (n :: u16)" "a \<noteq> (0 :: u16)"
    "units s \<inter> {unat a..<unat a + unat n} = {}"
    "units s \<union> {unat a..<unat a + unat n} \<subseteq> {..<32767}"
  from mfree_from_None [OF this] show "\<exists>t. mfree_from None s n a = Some t \<and> wf_map t \<and>
      units t = units s \<union> {unat a..<unat a + unat n}" by blast
qed

definition first_fit :: "mapent list \<Rightarrow> u16 \<Rightarrow> u16" where
  "first_fit es n =
     (case find (\<lambda>e. sint n \<le> sint (m_size e)) (live es) of None \<Rightarrow> 0 | Some e \<Rightarrow> m_addr e)"

lemma malloc_first_fit: "malloc es n = Some (es', a) \<Longrightarrow> a = first_fit es n"
  by (induction es arbitrary: es') (auto simp: first_fit_def Let_def split: if_splits)

lemma shift_down_live: "shift_down es = Some es' \<Longrightarrow> live es' = live es"
  by (induction es arbitrary: es') (auto split: if_splits)

lemma malloc_live_le: "malloc es n = Some (es', a) \<Longrightarrow> length (live es') \<le> length (live es)"
  by (induction es arbitrary: es')
     (auto simp: Let_def dest!: shift_down_live split: if_splits)

lemma map_room_get: "map_room s \<Longrightarrow> wf_map s \<Longrightarrow> 0 < sint n \<Longrightarrow> malloc s n = Some (t, a) \<Longrightarrow> map_room t"
  using malloc_live_le [of s n t a] malloc_spec [of 0 s n] by (auto simp: map_room_def wf_map_def)

lemma the_set_map [simp]: "the_map mp (set_map mp es s) = es"
  by (cases mp) (simp_all add: the_map_def set_map_def)

section \<open>Properties of the kernel's entry points\<close>

lemma kmalloc_first_fit:
  assumes "wf_map (the_map mp s)" and "0 < sint n"
  shows "\<exists>a s'. kmalloc mp n s = Some (a, s') \<and> wf_map (the_map mp s') \<and>
    a = first_fit (the_map mp s) n \<and>
    (if a = 0 then s' = s \<and> \<not> fits (the_map mp s) n
     else {unat a..<unat a + unat n} \<subseteq> units (the_map mp s) \<and>
          units (the_map mp s') = units (the_map mp s) - {unat a..<unat a + unat n})"
proof -
  have set_same: "set_map mp (the_map mp s) s = s"
    by (cases mp) (simp_all add: the_map_def set_map_def)
  from malloc_spec [OF assms(1) [unfolded wf_map_def] assms(2)] obtain es a where
    "malloc (the_map mp s) n = Some (es, a)" "wf_map es"
    "if a = 0 then es = the_map mp s \<and> \<not> fits (the_map mp s) n
     else {unat a..<unat a + unat n} \<subseteq> units (the_map mp s) \<and>
          units es = units (the_map mp s) - {unat a..<unat a + unat n} \<and> 0 < unat a"
    unfolding wf_map_def by blast
  then show ?thesis
    using set_same malloc_first_fit by (auto simp: kmalloc_def split: if_splits)
qed

text \<open>
  C15. \<open>malloc(mp, size)\<close> on a well-formed map with a positive size always returns the base of
  the first entry that is large enough; it returns 0 and leaves the map alone exactly when
  there is none, and otherwise the returned run of units was free and is exactly what
  leaves the free space.
\<close>

theorem kmalloc_correct:
  assumes "wf_map (the_map mp s)" and "0 < sint n"
  shows "\<exists>a s'. kmalloc mp n s = Some (a, s') \<and> wf_map (the_map mp s') \<and>
    a = first_fit (the_map mp s) n \<and>
    (if a = 0 then s' = s \<and> \<not> fits (the_map mp s) n
     else {unat a..<unat a + unat n} \<subseteq> units (the_map mp s) \<and>
          units (the_map mp s') = units (the_map mp s) - {unat a..<unat a + unat n})"
  by (rule kmalloc_first_fit [OF assms])

definition demo_maps :: maps where
  "demo_maps = \<lparr>coremap = [\<lparr>m_size = 20, m_addr = 100\<rparr>, \<lparr>m_size = 50, m_addr = 300\<rparr>,
      \<lparr>m_size = 0, m_addr = 0\<rparr>, \<lparr>m_size = 0, m_addr = 0\<rparr>, \<lparr>m_size = 0, m_addr = 0\<rparr>],
    swapmap = [\<lparr>m_size = 0, m_addr = 0\<rparr>], runin = 1, sched_woken = False\<rparr>"

lemma demo_maps_wf: "wf_map (the_map Coremap demo_maps)"
  by (simp add: demo_maps_def the_map_def wf_map_def)

lemma demo_maps_room: "map_room (the_map Coremap demo_maps)"
  by (simp add: demo_maps_def the_map_def map_room_def)

lemma demo_maps_units: "units (the_map Coremap demo_maps) = {100..<120} \<union> {300..<350}"
  by (simp add: demo_maps_def the_map_def)

theorem kmalloc_correct_witness:
  "\<exists>a s'. kmalloc Coremap 30 demo_maps = Some (a, s') \<and> wf_map (the_map Coremap s') \<and>
    a = first_fit (the_map Coremap demo_maps) 30 \<and>
    (if a = 0 then s' = demo_maps \<and> \<not> fits (the_map Coremap demo_maps) 30
     else {unat a..<unat a + unat (30::u16)} \<subseteq> units (the_map Coremap demo_maps) \<and>
          units (the_map Coremap s') = units (the_map Coremap demo_maps) - {unat a..<unat a + unat (30::u16)})"
  by (rule kmalloc_correct [OF demo_maps_wf]) simp

text \<open>
  C16. \<open>mfree(mp, size, a)\<close> of space that is not free, on a map with a spare slot, gives back
  exactly that space, keeps the map well-formed (sorted, neighbours merged, terminated),
  leaves the other map alone, and, for \<open>coremap\<close> only, clears \<open>runin\<close> and wakes the scheduler
  if it was waiting.
\<close>

theorem mfree_correct:
  assumes "wf_map (the_map mp s)" and "map_room (the_map mp s)" and "0 < sint n" and "a \<noteq> 0"
    and "units (the_map mp s) \<inter> {unat a..<unat a + unat n} = {}"
    and "units (the_map mp s) \<union> {unat a..<unat a + unat n} \<subseteq> {..<32767}"
  shows "\<exists>s'. mfree mp n a s = Some s' \<and> wf_map (the_map mp s') \<and>
    units (the_map mp s') = units (the_map mp s) \<union> {unat a..<unat a + unat n} \<and>
    (\<forall>mq. mq \<noteq> mp \<longrightarrow> the_map mq s' = the_map mq s) \<and>
    runin s' = (if mp = Coremap then 0 else runin s) \<and>
    sched_woken s' = (sched_woken s \<or> mp = Coremap \<and> runin s \<noteq> 0)"
proof -
  from mfree_from_None [OF assms] obtain es where es: "mfree_from None (the_map mp s) n a = Some es"
    "wf_map es" "units es = units (the_map mp s) \<union> {unat a..<unat a + unat n}" by blast
  show ?thesis
    using es by (cases mp)
      (auto simp: mfree_def Let_def the_map_def set_map_def split: whichmap.splits)
qed

theorem mfree_correct_witness:
  "\<exists>s'. mfree Coremap 180 120 demo_maps = Some s' \<and> wf_map (the_map Coremap s') \<and>
    units (the_map Coremap s') = units (the_map Coremap demo_maps) \<union> {unat (120::u16)..<unat (120::u16) + unat (180::u16)} \<and>
    (\<forall>mq. mq \<noteq> Coremap \<longrightarrow> the_map mq s' = the_map mq demo_maps) \<and>
    runin s' = (if Coremap = Coremap then 0 else runin demo_maps) \<and>
    sched_woken s' = (sched_woken demo_maps \<or> Coremap = Coremap \<and> runin demo_maps \<noteq> 0)"
  by (rule mfree_correct [OF demo_maps_wf demo_maps_room]) (auto simp: demo_maps_units)

text \<open>
  Freeing what \<open>malloc\<close> just returned restores the map entry by entry: the same
  entries up to the terminator, with no fragment left behind.
\<close>

theorem kmalloc_mfree_roundtrip:
  assumes "wf_map (the_map mp s)" and "map_room (the_map mp s)" and "0 < sint n"
    and "units (the_map mp s) \<subseteq> {..<32767}"
    and "kmalloc mp n s = Some (a, t)" and "a \<noteq> 0"
  shows "\<exists>u. mfree mp n a t = Some u \<and> live (the_map mp u) = live (the_map mp s)"
proof -
  from assms(5) obtain es where es: "malloc (the_map mp s) n = Some (es, a)" "t = set_map mp es s"
    by (auto simp: kmalloc_def)
  have "map_room es" by (rule map_room_get [OF assms(2,1,3) es(1)])
  from rmap.get_put [OF assms(1,3) es(1) assms(6) this assms(4)] obtain us where
    us: "mfree_from None es n a = Some us" "wf_map us" "units us = units (the_map mp s)" by blast
  have "live us = live (the_map mp s)"
    using live_unique us(2,3) assms(1) unfolding wf_map_def by blast
  then show ?thesis
    using us es(2) by (cases mp) (auto simp: mfree_def Let_def the_map_def set_map_def)
qed

theorem kmalloc_mfree_roundtrip_witness:
  "\<exists>u. mfree Coremap 50 300 (set_map Coremap
      [\<lparr>m_size = 20, m_addr = 100\<rparr>, \<lparr>m_size = 0, m_addr = 0\<rparr>, \<lparr>m_size = 0, m_addr = 0\<rparr>,
       \<lparr>m_size = 0, m_addr = 0\<rparr>, \<lparr>m_size = 0, m_addr = 0\<rparr>] demo_maps) = Some u \<and>
    live (the_map Coremap u) = live (the_map Coremap demo_maps)"
  by (rule kmalloc_mfree_roundtrip [OF demo_maps_wf demo_maps_room])
     (auto simp: demo_maps_units, simp_all add: kmalloc_def demo_maps_def the_map_def set_map_def)

end
