(* ===== verification/Callout.thy ===== *)
theory Callout
  imports V7_Prelude
begin

text \<open>
  The callout table of \<open>usr/sys/sys/clock.c\<close> (declared in \<open>usr/sys/h/callo.h\<close>): routines
  to be called by the clock interrupt, each entry with its time in ticks after the entry
  before it. The table is an array of \<open>NCALL\<close> entries ended by one whose \<open>c_func\<close> is NULL;
  a function is its address. Reading or writing past the array is the outcome
  \<open>Out_of_array\<close>.
\<close>

section \<open>State and operations\<close>

record callo =
  c_time :: u16
  c_arg :: u16
  c_func :: u16

definition NCALL :: nat where
  "NCALL = 20"

datatype outcome = Done "callo list" | Panic string | Out_of_array

text \<open>The first loop of \<open>timeout\<close>: the slot \<open>p1\<close> and what is left of the time there.\<close>

fun co_scan :: "callo list \<Rightarrow> u16 \<Rightarrow> (nat \<times> u16) option" where
  "co_scan [] t = None"
| "co_scan (p1 # ps) t =
     (if c_func p1 \<noteq> 0 \<and> sint (c_time p1) \<le> sint t
      then map_option (\<lambda>(i, t'). (Suc i, t')) (co_scan ps (t - c_time p1))
      else Some (0, t))"

text \<open>The second loop: how far the terminator is.\<close>

fun co_end :: "callo list \<Rightarrow> nat option" where
  "co_end [] = None"
| "co_end (p2 # ps) = (if c_func p2 = 0 then Some 0 else map_option Suc (co_end ps))"

text \<open>The third loop, from \<open>p2 = p1 + n\<close> down to \<open>p1\<close>: each entry moves one slot up.\<close>

fun co_shift :: "callo list \<Rightarrow> nat \<Rightarrow> nat \<Rightarrow> callo list" where
  "co_shift tab p1 0 = tab[p1 + 1 := tab ! p1]"
| "co_shift tab p1 (Suc n) = co_shift (tab[p1 + Suc n + 1 := tab ! (p1 + Suc n)]) p1 n"

definition timeout :: "u16 \<Rightarrow> u16 \<Rightarrow> u16 \<Rightarrow> callo list \<Rightarrow> outcome" where
  "timeout fn arg tim tab =
     (case co_scan tab tim of
        None \<Rightarrow> Out_of_array
      | Some (p1, t) \<Rightarrow>
          if p1 \<ge> NCALL - 1 then Panic ''Timeout table overflow''
          else
            let tab1 = tab[p1 := (tab ! p1)\<lparr>c_time := c_time (tab ! p1) - t\<rparr>]
            in case co_end (drop p1 tab1) of
                 None \<Rightarrow> Out_of_array
               | Some n \<Rightarrow>
                   if p1 + n + 1 \<ge> length tab then Out_of_array
                   else Done ((co_shift tab1 p1 n)[p1 := \<lparr>c_time = t, c_arg = arg, c_func = fn\<rparr>]))"

text \<open>
  The callout part of \<open>clock\<close>. \<open>co_dec\<close> decrements the first entry with a positive time
  (the terminator when there is none). When the interrupted priority is not high the due
  routines are called in order: \<open>co_call\<close> walks \<open>p1\<close> over them, returns the calls made and
  the number of entries passed, where \<open>h\<close> says what a called routine does to the table;
  then \<open>co_copy\<close> moves the rest of the table down to its start, up to the terminator, of
  which only the NULL is copied.
\<close>

fun co_dec :: "callo list \<Rightarrow> callo list option" where
  "co_dec [] = None"
| "co_dec (p2 # ps) =
     (if sint (c_time p2) \<le> 0 \<and> c_func p2 \<noteq> 0 then map_option ((#) p2) (co_dec ps)
      else Some (p2\<lparr>c_time := c_time p2 - 1\<rparr> # ps))"

type_synonym handler = "u16 \<Rightarrow> u16 \<Rightarrow> callo list \<Rightarrow> callo list"

fun co_call :: "handler \<Rightarrow> nat \<Rightarrow> nat \<Rightarrow> callo list \<Rightarrow> ((u16 \<times> u16) list \<times> nat \<times> callo list) option" where
  "co_call h 0 p1 tab = None"
| "co_call h (Suc k) p1 tab =
     (if p1 \<ge> length tab then None
      else if c_func (tab ! p1) \<noteq> 0 \<and> sint (c_time (tab ! p1)) \<le> 0
      then map_option (\<lambda>(cs, r). ((c_func (tab ! p1), c_arg (tab ! p1)) # cs, r))
             (co_call h k (Suc p1) (h (c_func (tab ! p1)) (c_arg (tab ! p1)) tab))
      else Some ([], p1, tab))"

fun co_copy :: "nat \<Rightarrow> callo list \<Rightarrow> nat \<Rightarrow> nat \<Rightarrow> callo list option" where
  "co_copy 0 tab p1 p2 = None"
| "co_copy (Suc k) tab p1 p2 =
     (if p1 \<ge> length tab then None
      else let tab1 = tab[p2 := (tab ! p2)\<lparr>c_func := c_func (tab ! p1)\<rparr>]
           in if c_func (tab ! p1) = 0 then Some tab1
              else co_copy k (tab1[p2 := (tab1 ! p2)\<lparr>c_time := c_time (tab ! p1), c_arg := c_arg (tab ! p1)\<rparr>])
                     (Suc p1) (Suc p2))"

definition clock_callouts :: "handler \<Rightarrow> bool \<Rightarrow> callo list \<Rightarrow> ((u16 \<times> u16) list \<times> callo list) option" where
  "clock_callouts h basepri tab =
     (if tab = [] then None
      else if c_func (tab ! 0) = 0 then Some ([], tab)
      else case co_dec tab of
        None \<Rightarrow> None
      | Some tab1 \<Rightarrow>
          if basepri then Some ([], tab1)
          else if sint (c_time (tab1 ! 0)) \<le> 0
          then (case co_call h (Suc (length tab1)) 0 tab1 of
                  None \<Rightarrow> None
                | Some (cs, p1, tab2) \<Rightarrow>
                    map_option (\<lambda>tab3. (cs, tab3)) (co_copy (Suc (length tab2)) tab2 p1 0))
          else Some ([], tab1))"


section \<open>The agenda a table stands for\<close>

text \<open>
  The entries before the terminator with the number of ticks until each is due: the sum
  of the times up to and including its own. A table is well-formed when it has
  \<open>NCALL\<close> entries, a terminator among them, and no negative time before it.
\<close>

fun agenda :: "int \<Rightarrow> callo list \<Rightarrow> (int \<times> u16 \<times> u16) list" where
  "agenda t [] = []"
| "agenda t (e # es) =
     (if c_func e = 0 then []
      else (t + sint (c_time e), c_func e, c_arg e) # agenda (t + sint (c_time e)) es)"

definition pending :: "callo list \<Rightarrow> callo list" where
  "pending tab = takeWhile (\<lambda>e. c_func e \<noteq> 0) tab"

definition wf_callout :: "callo list \<Rightarrow> bool" where
  "wf_callout tab = (length tab = NCALL \<and> length (pending tab) < NCALL \<and>
     (\<forall>e \<in> set (pending tab). 0 \<le> sint (c_time e)))"

definition elapsed :: "callo list \<Rightarrow> int" where
  "elapsed es = sum_list (map (\<lambda>e. sint (c_time e)) es)"

lemma elapsed_simps [simp]:
  "elapsed [] = 0" "elapsed (e # es) = sint (c_time e) + elapsed es"
  by (simp_all add: elapsed_def)

lemma agenda_append:
  "\<forall>e \<in> set pre. c_func e \<noteq> 0 \<Longrightarrow> agenda t (pre @ xs) = agenda t pre @ agenda (t + elapsed pre) xs"
  by (induction pre arbitrary: t) (auto simp: add.assoc)

lemma agenda_pending: "agenda t (pending tab) = agenda t tab"
  by (induction tab arbitrary: t) (auto simp: pending_def)

lemma agenda_late:
  "\<forall>e \<in> set (pending tab). 0 \<le> sint (c_time e) \<Longrightarrow> x \<in> set (agenda t tab) \<Longrightarrow> t \<le> fst x"
proof (induction tab arbitrary: t)
  case (Cons e tab)
  show ?case
  proof (cases "c_func e = 0 \<or> x = (t + sint (c_time e), c_func e, c_arg e)")
    case False
    with Cons.prems have "x \<in> set (agenda (t + sint (c_time e)) tab)" by auto
    moreover have "\<forall>e \<in> set (pending tab). 0 \<le> sint (c_time e)" "0 \<le> sint (c_time e)"
      using Cons.prems(1) False by (auto simp: pending_def)
    ultimately show ?thesis using Cons.IH [of "t + sint (c_time e)"] by linarith
  qed (use Cons.prems in \<open>auto simp: pending_def\<close>)
qed simp

lemma agenda_sorted:
  "\<forall>e \<in> set (pending tab). 0 \<le> sint (c_time e) \<Longrightarrow> sorted (map fst (agenda t tab))"
proof (induction tab arbitrary: t)
  case (Cons e tab)
  show ?case
  proof (cases "c_func e = 0")
    case False
    with Cons.prems have wf: "\<forall>e \<in> set (pending tab). 0 \<le> sint (c_time e)"
      by (auto simp: pending_def)
    from Cons.IH [OF wf] agenda_late [OF wf] False show ?thesis by auto
  qed simp
qed simp


subsection \<open>The loops of timeout\<close>

lemma co_scan_ok:
  assumes "\<forall>e \<in> set (pending tab). 0 \<le> sint (c_time e)" and "length (pending tab) < length tab"
    and "0 \<le> sint t"
  shows "\<exists>pre p1 rest t'. co_scan tab t = Some (length pre, t') \<and> tab = pre @ p1 # rest \<and>
    (\<forall>e \<in> set pre. c_func e \<noteq> 0) \<and> 0 \<le> sint t' \<and> sint t = elapsed pre + sint t' \<and>
    (c_func p1 \<noteq> 0 \<longrightarrow> sint t' < sint (c_time p1))"
  using assms
proof (induction tab arbitrary: t)
  case (Cons e tab)
  show ?case
  proof (cases "c_func e \<noteq> 0 \<and> sint (c_time e) \<le> sint t")
    case True
    then have wf: "\<forall>e \<in> set (pending tab). 0 \<le> sint (c_time e)" "length (pending tab) < length tab"
      and pos: "0 \<le> sint (c_time e)"
      using Cons.prems by (auto simp: pending_def)
    have sub: "sint (t - c_time e) = sint t - sint (c_time e)"
      by (rule sint_sub_no_wrap) (use pos True sint16_range [of t] in linarith)+
    then have "0 \<le> sint (t - c_time e)" using True by linarith
    from Cons.IH [OF wf this] obtain pre p1 rest t' where IH:
      "co_scan tab (t - c_time e) = Some (length pre, t')" "tab = pre @ p1 # rest"
      "\<forall>e \<in> set pre. c_func e \<noteq> 0" "0 \<le> sint t'" "sint (t - c_time e) = elapsed pre + sint t'"
      "c_func p1 \<noteq> 0 \<longrightarrow> sint t' < sint (c_time p1)" by blast
    show ?thesis
      by (rule exI [of _ "e # pre"], rule exI [of _ p1], rule exI [of _ rest], rule exI [of _ t'])
         (use IH True sub in auto)
  next
    case False
    show ?thesis
      by (rule exI [of _ "[]"], rule exI [of _ e], rule exI [of _ tab], rule exI [of _ t])
         (use False Cons.prems in auto)
  qed
qed simp

lemma co_end_append:
  "\<forall>e \<in> set xs. c_func e \<noteq> 0 \<Longrightarrow> c_func z = 0 \<Longrightarrow> co_end (xs @ z # r) = Some (length xs)"
  by (induction xs) auto

lemma co_shift_length [simp]: "length (co_shift tab p1 n) = length tab"
  by (induction n arbitrary: tab) auto

lemma co_shift_nth:
  "p1 + n + 1 < length tab \<Longrightarrow> i < length tab \<Longrightarrow>
   co_shift tab p1 n ! i = (if p1 < i \<and> i \<le> p1 + n + 1 then tab ! (i - 1) else tab ! i)"
proof (induction n arbitrary: tab)
  case 0
  then show ?case by (auto simp: nth_list_update)
next
  case (Suc n)
  let ?tab = "tab[p1 + Suc n + 1 := tab ! (p1 + Suc n)]"
  have "co_shift ?tab p1 n ! i = (if p1 < i \<and> i \<le> p1 + n + 1 then ?tab ! (i - 1) else ?tab ! i)"
    using Suc.prems by (intro Suc.IH) auto
  then show ?case using Suc.prems by (auto simp: nth_list_update)
qed

lemma co_shift_insert:
  assumes "tab = pre @ xs @ z # r # rest"
  shows "(co_shift tab (length pre) (length xs))[length pre := e] = pre @ e # xs @ z # rest"
proof (rule nth_equalityI)
  show "length ((co_shift tab (length pre) (length xs))[length pre := e]) = length (pre @ e # xs @ z # rest)"
    using assms by simp
  fix i
  assume "i < length ((co_shift tab (length pre) (length xs))[length pre := e])"
  then have i: "i < length tab" by simp
  have sh: "co_shift tab (length pre) (length xs) ! i =
      (if length pre < i \<and> i \<le> length pre + length xs + 1 then tab ! (i - 1) else tab ! i)"
    using assms i by (intro co_shift_nth) auto
  show "(co_shift tab (length pre) (length xs))[length pre := e] ! i = (pre @ e # xs @ z # rest) ! i"
  proof (cases "i \<le> length pre")
    case True
    then show ?thesis using sh assms by (cases "i = length pre") (auto simp: nth_append)
  next
    case False
    then obtain k where k: "i = length pre + Suc k"
      by (metis add_Suc_right less_iff_Suc_add not_less)
    show ?thesis
    proof (cases "k \<le> length xs")
      case True
      then show ?thesis using sh assms k by (cases "k = length xs") (auto simp: nth_append)
    next
      case False
      then obtain m where "k = length xs + Suc m"
        by (metis add_Suc_right less_iff_Suc_add not_less)
      then show ?thesis using sh assms k by (auto simp: nth_append)
    qed
  qed
qed


lemma agenda_early:
  "\<forall>e \<in> set es. c_func e \<noteq> 0 \<and> 0 \<le> sint (c_time e) \<Longrightarrow> x \<in> set (agenda t es) \<Longrightarrow>
   fst x \<le> t + elapsed es \<and> 0 \<le> elapsed es"
proof (induction es arbitrary: t)
  case (Cons e es)
  from Cons.prems(1) have all: "\<forall>e \<in> set es. c_func e \<noteq> 0 \<and> 0 \<le> sint (c_time e)"
    and pos: "0 \<le> sint (c_time e)" "c_func e \<noteq> 0" by auto
  have "0 \<le> elapsed es" using all by (auto simp: elapsed_def intro!: sum_list_nonneg)
  with Cons.IH [OF all, of "t + sint (c_time e)"] Cons.prems(2) pos show ?case by auto
qed simp

lemma pending_append:
  "\<forall>e \<in> set pre. c_func e \<noteq> 0 \<Longrightarrow> pending (pre @ xs) = pre @ pending xs"
  by (induction pre) (auto simp: pending_def)

lemma pending_Cons [simp]:
  "pending (e # es) = (if c_func e = 0 then [] else e # pending es)"
  by (simp add: pending_def)

lemma pending_replicate [simp]:
  "pending (replicate n e) = (if c_func e = 0 then [] else replicate n e)"
  by (induction n) (auto simp: pending_def)

lemma agenda_replicate:
  "c_func e \<noteq> 0 \<Longrightarrow> 0 < n \<Longrightarrow> (t + sint (c_time e), c_func e, c_arg e) \<in> set (agenda t (replicate n e @ xs))"
  by (cases n) auto

lemma pending_split:
  "length (pending tab) < length tab \<Longrightarrow> \<exists>z r. tab = pending tab @ z # r \<and> c_func z = 0"
  by (induction tab) auto

lemma timeout_done:
  assumes tab: "tab = pre @ p1 # rest" and scan: "co_scan tab tim = Some (length pre, t)"
    and live: "\<forall>e \<in> set pre. c_func e \<noteq> 0" and len: "length tab = NCALL"
    and room: "length (pending tab) + 1 < NCALL"
  shows "\<exists>rest'. timeout fn arg tim tab =
      Done (pre @ \<lparr>c_time = t, c_arg = arg, c_func = fn\<rparr> # p1\<lparr>c_time := c_time p1 - t\<rparr> # rest') \<and>
    length (p1 # rest') = length rest \<and>
    (c_func p1 \<noteq> 0 \<longrightarrow> pending rest' = pending rest \<and> (\<forall>u. agenda u rest' = agenda u rest))"
proof -
  let ?p1 = "p1\<lparr>c_time := c_time p1 - t\<rparr>"
  have tab1: "tab[length pre := (tab ! length pre)\<lparr>c_time := c_time (tab ! length pre) - t\<rparr>] = pre @ ?p1 # rest"
    by (simp add: tab)
  have pend: "pending tab = pre @ pending (p1 # rest)"
    unfolding tab using live by (rule pending_append)
  then have n: "length (pending (?p1 # rest)) + 1 < length (?p1 # rest)"
    using room len tab by (auto split: if_splits)
  then obtain z r where z: "?p1 # rest = pending (?p1 # rest) @ z # r" "c_func z = 0"
    using pending_split [of "?p1 # rest"] by (auto simp del: pending_Cons)
  have "r \<noteq> []"
  proof
    assume "r = []"
    with z(1) have "length (?p1 # rest) = length (pending (?p1 # rest) @ [z])" by argo
    with n show False by (simp del: pending_Cons)
  qed
  then obtain r1 r2 where r: "r = r1 # r2" by (cases r) auto
  let ?xs = "pending (?p1 # rest)"
  have xs_live: "\<forall>e \<in> set ?xs. c_func e \<noteq> 0" by (auto simp: pending_def dest: set_takeWhileD)
  have ends: "co_end (drop (length pre) (pre @ ?p1 # rest)) = Some (length ?xs)"
    using trans [OF arg_cong [OF z(1), of co_end] co_end_append [OF xs_live z(2)]]
    by (simp del: pending_Cons)
  have len_xs: "length pre + length ?xs + 1 < length tab"
    using n tab by simp
  have sh: "(co_shift (pre @ ?p1 # rest) (length pre) (length ?xs))[length pre := e] = pre @ e # ?xs @ z # r2" for e
    by (rule co_shift_insert [where r = r1]) (rule arg_cong [OF z(1) [unfolded r], of "(@) pre"])
  have small: "\<not> NCALL - 1 \<le> length pre"
    using pend room by auto
  have "timeout fn arg tim tab = Done (pre @ \<lparr>c_time = t, c_arg = arg, c_func = fn\<rparr> # ?xs @ z # r2)"
    using scan small tab1 ends len_xs sh by (simp add: timeout_def Let_def del: pending_Cons)
  moreover have "\<exists>rest'. ?xs @ z # r2 = ?p1 # rest' \<and> length (p1 # rest') = length rest \<and>
      (c_func p1 \<noteq> 0 \<longrightarrow> pending rest' = pending rest \<and> (\<forall>u. agenda u rest' = agenda u rest))"
  proof (cases "c_func p1 = 0")
    case True
    then show ?thesis using z(1) r by auto
  next
    case False
    then have "rest = pending rest @ z # r" using z(1) by simp
    moreover from this have "length (pending rest) + 2 + length r2 = length rest"
      using r by (metis add_2_eq_Suc' add_Suc_shift length_Cons length_append)
    moreover have "pending (pending rest @ z # r2) = pending rest"
      using z(2) by (subst pending_append) (auto simp: pending_def dest: set_takeWhileD)
    moreover from this have "agenda u (pending rest @ z # r2) = agenda u rest" for u
      by (metis agenda_pending)
    ultimately show ?thesis using False
      by (intro exI [of _ "pending rest @ z # r2"]) auto
  qed
  ultimately show ?thesis by auto
qed

subsection \<open>The clock's walk over the due entries\<close>

definition due :: "callo list \<Rightarrow> (int \<times> u16 \<times> u16) list" where
  "due tab = filter (\<lambda>x. fst x \<le> 0) (agenda 0 tab)"

definition tick :: "(int \<times> u16 \<times> u16) list \<Rightarrow> (int \<times> u16 \<times> u16) list" where
  "tick ag = map (\<lambda>(t, x). (if 0 < t then t - 1 else t, x)) ag"

definition due_entries :: "callo list \<Rightarrow> callo list" where
  "due_entries tab = takeWhile (\<lambda>e. c_func e \<noteq> 0 \<and> sint (c_time e) \<le> 0) tab"

lemma agenda_all_late:
  assumes "\<forall>e \<in> set (pending tab). 0 \<le> sint (c_time e)" and "0 < t"
  shows "filter (\<lambda>x. fst x \<le> 0) (agenda t tab) = []"
proof -
  have "\<not> fst x \<le> 0" if "x \<in> set (agenda t tab)" for x
    using agenda_late [OF assms(1) that] assms(2) by linarith
  then show ?thesis by (simp add: filter_empty_conv)
qed

lemma due_entries_ok:
  "\<forall>e \<in> set (pending tab). 0 \<le> sint (c_time e) \<Longrightarrow>
   due tab = map (\<lambda>e. (0, c_func e, c_arg e)) (due_entries tab)"
proof (induction tab)
  case (Cons e tab)
  show ?case
  proof (cases "c_func e = 0")
    case False
    with Cons.prems have wf: "0 \<le> sint (c_time e)" "\<forall>e \<in> set (pending tab). 0 \<le> sint (c_time e)"
      by auto
    show ?thesis
    proof (cases "sint (c_time e) = 0")
      case True
      then show ?thesis using False Cons.IH [OF wf(2)] by (simp add: due_def due_entries_def)
    next
      case nz: False
      then show ?thesis using False wf agenda_all_late [OF wf(2)]
        by (auto simp: due_def due_entries_def)
    qed
  qed (simp add: due_def due_entries_def)
qed (simp add: due_def due_entries_def)

lemma due_then_rest:
  "\<forall>e \<in> set (pending tab). 0 \<le> sint (c_time e) \<Longrightarrow>
   agenda 0 (drop (length (due_entries tab)) tab) = filter (\<lambda>x. 0 < fst x) (agenda 0 tab)"
proof (induction tab)
  case (Cons e tab)
  show ?case
  proof (cases "c_func e \<noteq> 0 \<and> sint (c_time e) \<le> 0")
    case True
    with Cons.prems have "sint (c_time e) = 0" "\<forall>e \<in> set (pending tab). 0 \<le> sint (c_time e)" by auto
    with Cons.IH True show ?thesis by (simp add: due_entries_def)
  next
    case False
    have "0 < fst x" if "x \<in> set (agenda 0 (e # tab))" for x
    proof (cases "c_func e = 0")
      case nz: False
      then have "\<forall>e \<in> set (pending tab). 0 \<le> sint (c_time e)" using Cons.prems by auto
      from agenda_late [OF this] that False nz show ?thesis by fastforce
    qed (use that in simp)
    then have "filter (\<lambda>x. 0 < fst x) (agenda 0 (e # tab)) = agenda 0 (e # tab)"
      by (simp add: filter_id_conv del: agenda.simps)
    moreover have "due_entries (e # tab) = []" using False by (auto simp: due_entries_def)
    ultimately show ?thesis by (simp del: agenda.simps)
  qed
qed (simp add: due_entries_def)

lemma co_dec_ok:
  "\<forall>e \<in> set (pending tab). 0 \<le> sint (c_time e) \<Longrightarrow> length (pending tab) < length tab \<Longrightarrow>
   \<exists>tab1. co_dec tab = Some tab1 \<and> agenda 0 tab1 = tick (agenda 0 tab) \<and>
     map c_func tab1 = map c_func tab \<and> (\<forall>e \<in> set (pending tab1). 0 \<le> sint (c_time e))"
proof (induction tab)
  case (Cons e tab)
  consider (stop) "c_func e = 0" | (zero) "c_func e \<noteq> 0" "sint (c_time e) \<le> 0"
    | (pos) "c_func e \<noteq> 0" "0 < sint (c_time e)" by linarith
  then show ?case
  proof cases
    case stop
    then show ?thesis by (auto simp: tick_def)
  next
    case zero
    with Cons.prems have z: "sint (c_time e) = 0" by auto
    from zero(1) Cons.prems have "\<forall>e \<in> set (pending tab). 0 \<le> sint (c_time e)"
      "length (pending tab) < length tab" by auto
    from Cons.IH [OF this] obtain tab1 where "co_dec tab = Some tab1"
      "agenda 0 tab1 = tick (agenda 0 tab)" "map c_func tab1 = map c_func tab"
      "\<forall>e \<in> set (pending tab1). 0 \<le> sint (c_time e)" by blast
    then show ?thesis using zero z by (simp add: tick_def)
  next
    case pos
    have sub: "sint (c_time e - 1) = sint (c_time e) - 1"
      using sint_sub_no_wrap [of "c_time e" 1] pos sint16_range [of "c_time e"] by simp
    have wf: "\<forall>e \<in> set (pending tab). 0 \<le> sint (c_time e)" using Cons.prems(1) pos by auto
    have shift: "agenda (u - 1) xs = map (\<lambda>(t, x). (t - 1, x)) (agenda u xs)" for u xs
    proof (induction xs arbitrary: u)
      case (Cons y ys)
      from Cons.IH [of "u + sint (c_time y)"] show ?case by (simp add: algebra_simps)
    qed simp
    have "agenda (sint (c_time e) - 1) tab = tick (agenda (sint (c_time e)) tab)"
      unfolding shift tick_def
    proof (rule map_cong [OF refl])
      fix x assume "x \<in> set (agenda (sint (c_time e)) tab)"
      from agenda_late [OF wf this] pos show
        "(case x of (t, x) \<Rightarrow> (t - 1, x)) = (case x of (t, x) \<Rightarrow> (if 0 < t then t - 1 else t, x))"
        by (auto split: prod.splits)
    qed
    then show ?thesis using pos sub wf by (simp add: tick_def)
  qed
qed simp

lemma pending_funcs: "map c_func tab1 = map c_func tab \<Longrightarrow> length (pending tab1) = length (pending tab)"
proof (induction tab1 arbitrary: tab)
  case (Cons e t1)
  then show ?case by (cases tab) auto
qed simp

definition keeps_due :: "handler \<Rightarrow> bool" where
  "keeps_due h = (\<forall>f a t. wf_callout t \<longrightarrow> wf_callout (h f a t) \<and> due (h f a t) = due t)"

lemma co_call_ok:
  assumes "keeps_due h" and "wf_callout tab" and "due tab = d" and "p1 \<le> length d" and "length d < p1 + k"
  shows "\<exists>tab2. co_call h k p1 tab = Some (map snd (drop p1 d), length d, tab2) \<and>
    wf_callout tab2 \<and> due tab2 = d \<and> tab2 = fold (\<lambda>(f, a). h f a) (map snd (drop p1 d)) tab"
  using assms(2-)
proof (induction k arbitrary: p1 tab)
  case (Suc k)
  have d: "d = map (\<lambda>e. (0, c_func e, c_arg e)) (due_entries tab)"
    using due_entries_ok Suc.prems(1,2) by (simp add: wf_callout_def)
  then have len: "length d = length (due_entries tab)" by simp
  have "length (due_entries tab) \<le> length (pending tab)"
    unfolding due_entries_def pending_def by (induction tab) auto
  then have inside: "p1 < length tab" using Suc.prems(1,3) len by (simp add: wf_callout_def)
  show ?case
  proof (cases "p1 < length d")
    case True
    then have nth: "tab ! p1 = due_entries tab ! p1" unfolding len due_entries_def
      by (simp add: takeWhile_nth)
    then have live: "c_func (tab ! p1) \<noteq> 0 \<and> sint (c_time (tab ! p1)) \<le> 0"
      using set_takeWhileD [OF nth_mem [of p1 "due_entries tab", unfolded due_entries_def]] True len
      unfolding due_entries_def by simp
    have "p1 < length (due_entries tab)" using True len by simp
    then have "map (\<lambda>e. (0 :: int, c_func e, c_arg e)) (due_entries tab) ! p1 =
        (0, c_func (tab ! p1), c_arg (tab ! p1))"
      unfolding nth by simp
    then have "d ! p1 = (0, c_func (tab ! p1), c_arg (tab ! p1))" unfolding d .
    with Cons_nth_drop_Suc [OF True]
    have hd: "drop p1 d = (0, c_func (tab ! p1), c_arg (tab ! p1)) # drop (Suc p1) d" by simp
    let ?t = "h (c_func (tab ! p1)) (c_arg (tab ! p1)) tab"
    have "wf_callout ?t" "due ?t = d" using assms(1) Suc.prems(1,2) by (auto simp: keeps_due_def)
    from Suc.IH [OF this, of "Suc p1"] True Suc.prems(4) obtain tab2 where
      "co_call h k (Suc p1) ?t = Some (map snd (drop (Suc p1) d), length d, tab2)"
      "wf_callout tab2" "due tab2 = d" "tab2 = fold (\<lambda>(f, a). h f a) (map snd (drop (Suc p1) d)) ?t"
      by auto
    with live inside show ?thesis unfolding hd by simp
  next
    case False
    then have "p1 = length (due_entries tab)" using Suc.prems(3) len by simp
    moreover have "\<not> (c_func (tab ! length (due_entries tab)) \<noteq> 0 \<and>
        sint (c_time (tab ! length (due_entries tab))) \<le> 0)"
      unfolding due_entries_def
      by (rule nth_length_takeWhile) (use inside calculation in \<open>simp add: due_entries_def\<close>)
    ultimately show ?thesis using inside len Suc.prems by simp
  qed
qed simp

lemma co_copy_ok:
  "length (pending c) < length c \<Longrightarrow> length (pending c) < k \<Longrightarrow>
   \<exists>z r. co_copy k (a @ b @ c) (length a + length b) (length a) = Some (a @ pending c @ z # r) \<and>
     c_func z = 0 \<and> length (a @ pending c @ z # r) = length (a @ b @ c)"
proof (induction c arbitrary: a b k)
  case (Cons e c)
  then obtain k' where k: "k = Suc k'" by (cases k) auto
  obtain x xs where x: "b @ e # c = x # xs" by (cases b) auto
  have at: "(a @ b @ e # c) ! (length a + length b) = e" by (simp add: nth_append)
  show ?case
  proof (cases "c_func e = 0")
    case True
    from arg_cong [OF x, of length] have len: "length xs = length b + length c" by simp
    have "(a @ b @ e # c)[length a := v] = a @ v # xs" "(a @ b @ e # c) ! length a = x" for v
      unfolding x by (simp_all add: list_update_append)
    then have "co_copy k (a @ b @ e # c) (length a + length b) (length a) = Some (a @ x\<lparr>c_func := 0\<rparr> # xs)"
      unfolding k co_copy.simps Let_def at using True by simp
    then show ?thesis using True len by simp
  next
    case False
    with Cons.prems k have pc: "length (pending c) < length c" "length (pending c) < k'" by auto
    obtain b' where b': "e # xs = (e # b') @ c" "length b' = length b"
    proof (cases b)
      case Nil
      then show ?thesis using x that [of "[]"] by simp
    next
      case (Cons y ys)
      then show ?thesis using x that [of "ys @ [e]"] by simp
    qed
    have upd: "(a @ b @ e # c)[length a := v] = a @ v # xs" for v
      unfolding x by (simp add: list_update_append)
    have upd': "(a @ w # xs)[length a := v] = a @ v # xs" "(a @ w # xs) ! length a = w" for v w
      by (simp_all add: list_update_append)
    have at0: "(a @ b @ e # c) ! length a = x" unfolding x by simp
    have rec: "x\<lparr>c_func := c_func e, c_time := c_time e, c_arg := c_arg e\<rparr> = e"
      by (rule callo.equality) simp_all
    have step: "co_copy k (a @ b @ e # c) (length a + length b) (length a) =
        co_copy k' ((a @ [e]) @ b' @ c) (length (a @ [e]) + length b') (length (a @ [e]))"
      unfolding k co_copy.simps Let_def at at0 upd upd' rec using False b' by simp
    from Cons.IH [OF pc, of "a @ [e]" b'] obtain z r where
      "co_copy k' ((a @ [e]) @ b' @ c) (length (a @ [e]) + length b') (length (a @ [e])) =
         Some ((a @ [e]) @ pending c @ z # r)" "c_func z = 0"
      "length ((a @ [e]) @ pending c @ z # r) = length ((a @ [e]) @ b' @ c)" by blast
    then show ?thesis unfolding step using False b'(2)
      by (intro exI [of _ z] exI [of _ r]) simp
  qed
qed simp

lemma timeout_inserts:
  assumes "wf_callout tab" and "length (pending tab) + 1 < NCALL" and "fn \<noteq> 0" and "0 \<le> sint tim"
  shows "\<exists>tab'. timeout fn arg tim tab = Done tab' \<and> wf_callout tab' \<and>
    agenda 0 tab' = filter (\<lambda>x. fst x \<le> sint tim) (agenda 0 tab) @ (sint tim, fn, arg) #
                    filter (\<lambda>x. sint tim < fst x) (agenda 0 tab)"
proof -
  from assms(1) have wf: "\<forall>e \<in> set (pending tab). 0 \<le> sint (c_time e)" "length tab = NCALL"
    "length (pending tab) < length tab" by (auto simp: wf_callout_def)
  from co_scan_ok [OF wf(1,3) assms(4)] obtain pre p1 rest t where
    scan: "co_scan tab tim = Some (length pre, t)" and tab: "tab = pre @ p1 # rest" and
    live: "\<forall>e \<in> set pre. c_func e \<noteq> 0" and t: "0 \<le> sint t" "sint tim = elapsed pre + sint t" and
    late: "c_func p1 \<noteq> 0 \<longrightarrow> sint t < sint (c_time p1)" by blast
  let ?new = "\<lparr>c_time = t, c_arg = arg, c_func = fn\<rparr>" and ?p1 = "p1\<lparr>c_time := c_time p1 - t\<rparr>"
  from timeout_done [OF tab scan live wf(2) assms(2)] obtain rest' where
    ret: "timeout fn arg tim tab = Done (pre @ ?new # ?p1 # rest')" and
    len: "length (p1 # rest') = length rest" and
    same: "c_func p1 \<noteq> 0 \<longrightarrow> pending rest' = pending rest \<and> (\<forall>u. agenda u rest' = agenda u rest)"
    by blast
  have pend: "pending tab = pre @ pending (p1 # rest)"
    unfolding tab using live by (rule pending_append)
  have sub: "sint (c_time p1 - t) = sint (c_time p1) - sint t" if "c_func p1 \<noteq> 0"
    by (rule sint_sub_no_wrap) (use that late t(1) sint16_range [of "c_time p1"] in auto)
  have ag1: "agenda (sint tim) (?p1 # rest') = agenda (elapsed pre) (p1 # rest)"
    using sub same t(2) by simp
  have ag: "agenda 0 (pre @ ?new # ?p1 # rest') =
      agenda 0 pre @ (sint tim, fn, arg) # agenda (elapsed pre) (p1 # rest)"
    using ag1 assms(3) t(2) by (subst agenda_append [OF live]) simp
  have old: "agenda 0 tab = agenda 0 pre @ agenda (elapsed pre) (p1 # rest)"
    unfolding tab using agenda_append [OF live, of 0 "p1 # rest"] by simp
  have "\<forall>x \<in> set (agenda 0 pre). fst x \<le> sint tim"
    using agenda_early [of pre _ 0] live wf(1) pend t by fastforce
  moreover have "\<forall>x \<in> set (agenda (elapsed pre) (p1 # rest)). sint tim < fst x"
  proof (cases "c_func p1 = 0")
    case False
    then have "\<forall>e \<in> set (pending rest). 0 \<le> sint (c_time e)" using wf(1) pend by auto
    from agenda_late [OF this] False late t show ?thesis by fastforce
  qed simp
  ultimately have filt: "filter (\<lambda>x. fst x \<le> sint tim) (agenda 0 tab) = agenda 0 pre"
    "filter (\<lambda>x. sint tim < fst x) (agenda 0 tab) = agenda (elapsed pre) (p1 # rest)"
    unfolding old by (force simp: filter_empty_conv filter_id_conv)+
  have pend': "pending (pre @ ?new # ?p1 # rest') = pre @ ?new # pending (?p1 # rest')"
    using live assms(3) by (subst pending_append) auto
  have "wf_callout (pre @ ?new # ?p1 # rest')"
    unfolding wf_callout_def pend' using pend wf len assms(2) same sub late t(1) tab
    by (auto simp: NCALL_def split: if_splits)
  with ret ag filt show ?thesis by auto
qed

section \<open>Properties\<close>

text \<open>
  \<open>timeout(fun, arg, tim)\<close> on a table with a spare slot beside the terminator enters
  (\<open>fun\<close>, \<open>arg\<close>) due in \<open>tim\<close> ticks, after everything due no later and before everything
  due later; no other routine's due time changes, although the entry after it is adjusted
  and the rest is shifted.
\<close>

theorem timeout_schedules:
  assumes "wf_callout tab" and "length (pending tab) + 1 < NCALL" and "fn \<noteq> 0" and "0 \<le> sint tim"
  shows "\<exists>tab'. timeout fn arg tim tab = Done tab' \<and> wf_callout tab' \<and>
    agenda 0 tab' = filter (\<lambda>x. fst x \<le> sint tim) (agenda 0 tab) @ (sint tim, fn, arg) #
                    filter (\<lambda>x. sint tim < fst x) (agenda 0 tab)"
  by (rule timeout_inserts [OF assms])

definition demo_callout :: "callo list" where
  "demo_callout = [\<lparr>c_time = 2, c_arg = 7, c_func = 100\<rparr>, \<lparr>c_time = 3, c_arg = 8, c_func = 200\<rparr>] @
     replicate 18 \<lparr>c_time = 0, c_arg = 0, c_func = 0\<rparr>"

lemma demo_callout_wf: "wf_callout demo_callout" "length (pending demo_callout) + 1 < NCALL"
  by (simp_all add: demo_callout_def wf_callout_def NCALL_def)

theorem timeout_schedules_witness:
  "\<exists>tab'. timeout 300 9 2 demo_callout = Done tab' \<and> wf_callout tab' \<and>
    agenda 0 tab' = filter (\<lambda>x. fst x \<le> sint (2::u16)) (agenda 0 demo_callout) @ (sint (2::u16), 300, 9) #
                    filter (\<lambda>x. sint (2::u16) < fst x) (agenda 0 demo_callout)"
  by (rule timeout_schedules [OF demo_callout_wf]) simp_all


text \<open>
  C24. One clock interrupt: every routine not yet due comes one tick nearer. At high
  priority nothing is called. Otherwise exactly the routines whose time has run out are
  called, in the order of the table, each once, and leave the table; the others stay with
  their times. The called routines may enter callouts of their own (for later ticks).
\<close>

theorem clock_tick:
  assumes "wf_callout tab" and "keeps_due h"
  shows "\<exists>tab1 cs tab'. clock_callouts h basepri tab = Some (cs, tab') \<and> wf_callout tab' \<and>
    agenda 0 tab1 = tick (agenda 0 tab) \<and>
    (if basepri then cs = [] \<and> tab' = tab1
     else cs = map snd (due tab1) \<and>
          agenda 0 tab' = filter (\<lambda>x. 0 < fst x) (agenda 0 (fold (\<lambda>(f, a). h f a) cs tab1)))"
proof (cases "c_func (tab ! 0) = 0")
  case True
  have "tab \<noteq> []" using assms(1) by (auto simp: wf_callout_def NCALL_def)
  with True have "agenda 0 tab = []" "clock_callouts h basepri tab = Some ([], tab)"
    by (cases tab; simp add: clock_callouts_def)+
  then show ?thesis using assms(1)
    by (intro exI [of _ tab] exI [of _ "[]"]) (auto simp: tick_def due_def)
next
  case False
  have ne: "tab \<noteq> []" using assms(1) by (auto simp: wf_callout_def NCALL_def)
  from assms(1) have "\<forall>e \<in> set (pending tab). 0 \<le> sint (c_time e)" "length (pending tab) < length tab"
    by (auto simp: wf_callout_def)
  from co_dec_ok [OF this] obtain tab1 where dec: "co_dec tab = Some tab1"
    and ag: "agenda 0 tab1 = tick (agenda 0 tab)" and fs: "map c_func tab1 = map c_func tab"
    and pos: "\<forall>e \<in> set (pending tab1). 0 \<le> sint (c_time e)" by blast
  have len1: "length tab1 = length tab" using arg_cong [OF fs, of length] by simp
  then have wf1: "wf_callout tab1"
    using assms(1) pos pending_funcs [OF fs] by (simp add: wf_callout_def)
  show ?thesis
  proof (cases "basepri \<or> 0 < sint (c_time (tab1 ! 0))")
    case True
    then have run: "clock_callouts h basepri tab = Some ([], tab1)"
      using ne False dec by (auto simp: clock_callouts_def)
    have "due tab1 = [] \<and> filter (\<lambda>x. 0 < fst x) (agenda 0 tab1) = agenda 0 tab1" if "\<not> basepri"
    proof -
      have "due_entries tab1 = []" using that True len1 ne by (cases tab1) (auto simp: due_entries_def)
      then have "due tab1 = []" using due_entries_ok [OF pos] by simp
      moreover from this have "filter (\<lambda>x. 0 < fst x) (agenda 0 tab1) = agenda 0 tab1"
        by (auto simp: due_def filter_empty_conv filter_id_conv not_le)
      ultimately show ?thesis by simp
    qed
    with run wf1 ag show ?thesis
      by (intro exI [of _ tab1] exI [of _ "[]"]) auto
  next
    case later: False
    let ?d = "due tab1"
    have "length ?d \<le> length tab1"
      unfolding due_entries_ok [OF pos] due_entries_def by (simp add: length_takeWhile_le)
    then obtain tab2 where call: "co_call h (Suc (length tab1)) 0 tab1 = Some (map snd ?d, length ?d, tab2)"
      and wf2: "wf_callout tab2" and d2: "due tab2 = ?d"
      and fold: "tab2 = fold (\<lambda>(f, a). h f a) (map snd ?d) tab1"
      using co_call_ok [OF assms(2) wf1 refl, of 0 "Suc (length tab1)"] by auto
    from wf2 have pos2: "\<forall>e \<in> set (pending tab2). 0 \<le> sint (c_time e)" by (simp add: wf_callout_def)
    have dl: "length ?d = length (due_entries tab2)"
      using arg_cong [OF due_entries_ok [OF pos2], of length] d2 by simp
    let ?c = "drop (length ?d) tab2"
    have split: "tab2 = due_entries tab2 @ ?c"
      unfolding dl due_entries_def by (simp add: dropWhile_eq_drop [symmetric])
    have live: "\<forall>e \<in> set (due_entries tab2). c_func e \<noteq> 0 \<and> sint (c_time e) \<le> 0"
      by (auto simp: due_entries_def dest: set_takeWhileD)
    then have pend2: "pending tab2 = due_entries tab2 @ pending ?c"
      by (subst split, subst pending_append) auto
    then have pc: "length (pending ?c) < length ?c"
      using wf2 dl by (auto simp: wf_callout_def)
    then have "length (pending ?c) < Suc (length tab2)" by simp
    from co_copy_ok [OF pc this, of "[]" "due_entries tab2"] obtain z r where
      copy: "co_copy (Suc (length tab2)) tab2 (length ?d) 0 = Some (pending ?c @ z # r)"
      and z: "c_func z = 0" and len2: "length (pending ?c @ z # r) = length tab2"
      unfolding append_Nil list.size add_0 dl [symmetric] split [symmetric] by blast
    have run: "clock_callouts h basepri tab = Some (map snd ?d, pending ?c @ z # r)"
      using ne False dec later call copy by (simp add: clock_callouts_def)
    have pend': "pending (pending ?c @ z # r) = pending ?c"
      using z by (subst pending_append) (auto simp: pending_def dest: set_takeWhileD)
    have "wf_callout (pending ?c @ z # r)"
      using wf2 pend2 len2 unfolding wf_callout_def pend' by auto
    moreover have "agenda 0 (pending ?c @ z # r) = filter (\<lambda>x. 0 < fst x) (agenda 0 tab2)"
      using due_then_rest [OF pos2] pend' split dl by (metis agenda_pending append_eq_conv_conj)
    ultimately show ?thesis using run later ag
      by (intro exI [of _ tab1] exI [of _ "map snd ?d"] exI [of _ "pending ?c @ z # r"])
         (simp add: fold [symmetric])
  qed
qed


text \<open>Entering a callout for a later tick keeps what is due now: \<open>timeout\<close> is an allowed action of a called routine.\<close>

definition retimer :: "u16 \<Rightarrow> u16 \<Rightarrow> handler" where
  "retimer fn tim f a tab =
     (if length (pending tab) + 1 < NCALL
      then (case timeout fn a tim tab of Done tab' \<Rightarrow> tab' | _ \<Rightarrow> tab) else tab)"

lemma retimer_keeps_due:
  assumes "fn \<noteq> 0" and "0 < sint tim"
  shows "keeps_due (retimer fn tim)"
  unfolding keeps_due_def
proof (intro allI impI)
  fix f a tab
  assume wf: "wf_callout tab"
  show "wf_callout (retimer fn tim f a tab) \<and> due (retimer fn tim f a tab) = due tab"
  proof (cases "length (pending tab) + 1 < NCALL")
    case True
    have "0 \<le> sint tim" using assms(2) by simp
    from timeout_inserts [OF wf True assms(1) this, of a] obtain tab' where
      run: "timeout fn a tim tab = Done tab'" and "wf_callout tab'" and
      ag: "agenda 0 tab' = filter (\<lambda>x. fst x \<le> sint tim) (agenda 0 tab) @ (sint tim, fn, a) #
                    filter (\<lambda>x. sint tim < fst x) (agenda 0 tab)" by blast
    moreover have "due tab' = due tab"
      unfolding due_def ag using assms(2)
      by (auto simp: filter_empty_conv intro!: filter_cong [OF refl])
    ultimately show ?thesis using True by (simp add: retimer_def)
  qed (use wf in \<open>simp add: retimer_def\<close>)
qed

theorem clock_tick_witness:
  "\<exists>tab1 cs tab'. clock_callouts (retimer 500 2) False (demo_callout[0 := \<lparr>c_time = 1, c_arg = 7, c_func = 100\<rparr>]) = Some (cs, tab') \<and>
    wf_callout tab' \<and>
    agenda 0 tab1 = tick (agenda 0 (demo_callout[0 := \<lparr>c_time = 1, c_arg = 7, c_func = 100\<rparr>])) \<and>
    (if False then cs = [] \<and> tab' = tab1
     else cs = map snd (due tab1) \<and>
          agenda 0 tab' = filter (\<lambda>x. 0 < fst x) (agenda 0 (fold (\<lambda>(f, a). retimer 500 2 f a) cs tab1)))"
  by (rule clock_tick [OF _ retimer_keeps_due])
     (simp_all add: demo_callout_def wf_callout_def NCALL_def)

text \<open>
  On a table whose only free slot is the terminator's, a \<open>timeout\<close> that sorts before
  some entry is not stopped by the check for a full table, which looks at the insertion
  slot only: the shift writes past the end of the array.
\<close>

theorem timeout_full_overruns:
  assumes "wf_callout tab" and "length (pending tab) = NCALL - 1" and "0 \<le> sint tim"
    and "\<exists>x \<in> set (agenda 0 tab). sint tim < fst x"
  shows "timeout fn arg tim tab = Out_of_array"
proof -
  from assms(1) have wf: "\<forall>e \<in> set (pending tab). 0 \<le> sint (c_time e)" "length tab = NCALL"
    "length (pending tab) < length tab" by (auto simp: wf_callout_def)
  from co_scan_ok [OF wf(1,3) assms(3)] obtain pre p1 rest t where
    scan: "co_scan tab tim = Some (length pre, t)" and tab: "tab = pre @ p1 # rest" and
    live: "\<forall>e \<in> set pre. c_func e \<noteq> 0" and t: "0 \<le> sint t" "sint tim = elapsed pre + sint t"
    by blast
  have pend: "pending tab = pre @ pending (p1 # rest)"
    unfolding tab using live by (rule pending_append)
  have p1: "c_func p1 \<noteq> 0"
  proof
    assume "c_func p1 = 0"
    then have "agenda 0 tab = agenda 0 pre"
      unfolding tab using agenda_append [OF live] by simp
    moreover have "fst x \<le> sint tim" if "x \<in> set (agenda 0 pre)" for x
      using agenda_early [OF _ that] live wf(1) pend t by fastforce
    ultimately show False using assms(4) by fastforce
  qed
  let ?p1 = "p1\<lparr>c_time := c_time p1 - t\<rparr>"
  have n: "length (pending (?p1 # rest)) < length (?p1 # rest)"
    using wf(3) pend tab p1 by auto
  then obtain z r where z: "?p1 # rest = pending (?p1 # rest) @ z # r" "c_func z = 0"
    using pending_split [OF n] by blast
  have "\<forall>e \<in> set (pending (?p1 # rest)). c_func e \<noteq> 0"
    by (auto simp: pending_def dest: set_takeWhileD)
  from trans [OF arg_cong [OF z(1), of co_end] co_end_append [OF this z(2)]]
  have "co_end (drop (length pre) (tab[length pre := (tab ! length pre)\<lparr>c_time := c_time (tab ! length pre) - t\<rparr>]))
      = Some (length (pending (?p1 # rest)))"
    by (simp add: tab)
  moreover have "length pre + length (pending (?p1 # rest)) + 1 \<ge> length tab"
    using pend p1 assms(2) wf(2) by (auto simp: NCALL_def)
  moreover have "length pre < NCALL - 1" using pend p1 assms(2) by auto
  ultimately show ?thesis using scan by (simp add: timeout_def Let_def)
qed

theorem timeout_full_overruns_witness:
  "timeout 300 9 2 (replicate 19 \<lparr>c_time = 3, c_arg = 8, c_func = 200\<rparr> @ [\<lparr>c_time = 0, c_arg = 0, c_func = 0\<rparr>])
     = Out_of_array"
proof (rule timeout_full_overruns)
  let ?e = "\<lparr>c_time = 3, c_arg = 8, c_func = 200\<rparr> :: callo"
  let ?tab = "replicate 19 ?e @ [\<lparr>c_time = 0, c_arg = 0, c_func = 0\<rparr>]"
  have pend: "pending ?tab = replicate 19 ?e" by (subst pending_append) auto
  then show "wf_callout ?tab" "length (pending ?tab) = NCALL - 1"
    by (simp_all add: wf_callout_def NCALL_def)
  show "\<exists>x \<in> set (agenda 0 ?tab). sint (2 :: u16) < fst x"
    by (rule bexI [OF _ agenda_replicate [of ?e 19 0]]) simp_all
qed simp

end
