(* ===== verification/Clist.thy ===== *)
theory Clist
  imports V7_Prelude "HOL-Library.Multiset"
begin

text \<open>
  The character lists of \<open>usr/sys/sys/prim.c\<close>: byte queues of the terminal drivers, made of
  16-byte blocks (a 2-byte link and \<open>CBSIZE\<close> = 14 characters) that all queues share. A
  pointer is its address, NULL is 0 and the blocks lie at multiples of 16, so that the
  masks with \<open>CROUND\<close> are \<open>cround\<close> and \<open>mod 16\<close>. \<open>c_next\<close> holds the link of the block at
  an address and \<open>c_info\<close> the character at an address. \<open>spl\<close> is the processor priority.
  A queue holds at most \<open>NCLIST * CBSIZE\<close> = 1400 characters, so \<open>c_cc\<close> is an \<open>int\<close>
  far from the 16-bit bounds.
\<close>

section \<open>State and operations\<close>

record clist =
  c_cc :: int
  c_cf :: nat
  c_cl :: nat

record clmem =
  c_next :: "nat \<Rightarrow> nat"
  c_info :: "nat \<Rightarrow> u8"
  cfreelist :: nat
  cbad :: int
  spl :: nat

definition CBSIZE :: nat where "CBSIZE = 14"
definition NCLIST :: nat where "NCLIST = 100"

text \<open>\<open>(int)a & ~CROUND\<close>: the block an address lies in.\<close>

definition cround :: "nat \<Rightarrow> nat" where
  "cround a = a - a mod 16"

definition cb_info :: "nat \<Rightarrow> nat" where
  "cb_info bp = bp + 2"

text \<open>The two assignments that free a block, and the two that take one from the free list.\<close>

definition cb_free :: "nat \<Rightarrow> clmem \<Rightarrow> clmem" where
  "cb_free bp m = m\<lparr>c_next := (c_next m)(bp := cfreelist m), cfreelist := bp\<rparr>"

definition cb_alloc :: "nat \<Rightarrow> clmem \<Rightarrow> clmem" where
  "cb_alloc bp m = m\<lparr>cfreelist := c_next m bp, c_next := (c_next m)(bp := 0)\<rparr>"

text \<open>What \<open>getc\<close> and \<open>q_to_b\<close> do after they have taken a character: free the block when it is used up.\<close>

definition cb_advance :: "clist \<Rightarrow> clmem \<Rightarrow> clist \<times> clmem" where
  "cb_advance p m =
     (if c_cc p \<le> 0 then
        (let bp = cround (c_cf p - 1)
         in (p\<lparr>c_cf := 0, c_cl := 0\<rparr>, cb_free bp m))
      else if c_cf p mod 16 = 0 then
        (let bp = c_cf p - 16
         in (p\<lparr>c_cf := cb_info (c_next m bp)\<rparr>, cb_free bp m))
      else (p, m))"

definition getc :: "clist \<Rightarrow> clmem \<Rightarrow> int \<times> clist \<times> clmem" where
  "getc p m0 =
     (let s = spl m0; m = m0\<lparr>spl := 6\<rparr>
      in if c_cc p \<le> 0 then (- 1, \<lparr>c_cc = 0, c_cf = 0, c_cl = 0\<rparr>, m\<lparr>spl := s\<rparr>)
         else let c = uint (c_info m (c_cf p));
                  (p', m') = cb_advance (p\<lparr>c_cf := c_cf p + 1, c_cc := c_cc p - 1\<rparr>) m
              in (c, p', m'\<lparr>spl := s\<rparr>))"

text \<open>The loop of \<open>q_to_b\<close>: the bytes stored, up to \<open>cc\<close>; it breaks when the queue is empty.\<close>

fun q_to_b_loop :: "nat \<Rightarrow> clist \<Rightarrow> clmem \<Rightarrow> u8 list \<times> clist \<times> clmem" where
  "q_to_b_loop 0 q m = ([], q, m)"
| "q_to_b_loop (Suc cc) q m =
     (let c = c_info m (c_cf q);
          (q', m') = cb_advance (q\<lparr>c_cf := c_cf q + 1, c_cc := c_cc q - 1\<rparr>) m
      in if c_cc q' \<le> 0 then ([c], q', m')
         else let (cs, q'', m'') = q_to_b_loop cc q' m' in (c # cs, q'', m''))"

text \<open>\<open>q_to_b\<close> returns the bytes it stored, whose number is its result; the early return on an
  empty queue does not restore the priority.\<close>

definition q_to_b :: "clist \<Rightarrow> int \<Rightarrow> clmem \<Rightarrow> u8 list \<times> clist \<times> clmem" where
  "q_to_b q cc m0 =
     (if cc \<le> 0 then ([], q, m0)
      else let s = spl m0; m = m0\<lparr>spl := 6\<rparr>
      in if c_cc q \<le> 0 then ([], \<lparr>c_cc = 0, c_cf = 0, c_cl = 0\<rparr>, m)
         else let (cs, q', m') = q_to_b_loop (nat cc) q m in (cs, q', m'\<lparr>spl := s\<rparr>))"

text \<open>The scan of \<open>ndqb\<close> for a character that has one of the bits of \<open>flag\<close>, from \<open>p\<close> on.\<close>

fun nd_scan :: "(nat \<Rightarrow> u8) \<Rightarrow> u16 \<Rightarrow> nat \<Rightarrow> nat \<Rightarrow> nat" where
  "nd_scan info flag p 0 = 0"
| "nd_scan info flag p (Suc n) =
     (if (scast (info p) :: u16) AND flag \<noteq> 0 then 0 else Suc (nd_scan info flag (p + 1) n))"

definition ndqb :: "clist \<Rightarrow> u16 \<Rightarrow> clmem \<Rightarrow> int" where
  "ndqb q flag m =
     (if c_cc q \<le> 0 then - c_cc q
      else let cc = int (cround (c_cf q + CBSIZE)) - int (c_cf q);
               cc = (if c_cc q < cc then c_cc q else cc)
           in if flag \<noteq> 0 then int (nd_scan (c_info m) flag (c_cf q) (nat cc)) else cc)"

definition ndflush :: "clist \<Rightarrow> int \<Rightarrow> clmem \<Rightarrow> clist \<times> clmem" where
  "ndflush q cc m =
     (if c_cc q < 0 then
        (if c_cf q \<noteq> 0 then (q\<lparr>c_cc := c_cc q + cc, c_cf := nat (int (c_cf q) + cc)\<rparr>, m)
         else (q\<lparr>c_cc := 0\<rparr>, m))
      else if c_cc q = 0 then (q, m)
      else if cc > int CBSIZE \<or> cc \<le> 0 then (q, m\<lparr>cbad := cbad m + 1\<rparr>)
      else let q1 = q\<lparr>c_cc := c_cc q - cc, c_cf := nat (int (c_cf q) + cc)\<rparr>
      in if c_cf q1 mod 16 = 0 then
           (let bp = c_cf q1 - 16
            in (if c_next m bp \<noteq> 0 then q1\<lparr>c_cf := cb_info (c_next m bp)\<rparr>
                else q1\<lparr>c_cf := 0, c_cl := 0\<rparr>, cb_free bp m))
         else if c_cc q1 = 0 then
           (let bp = cround (c_cf q1)
            in (q1\<lparr>c_cf := 0, c_cl := 0\<rparr>, cb_free bp m))
         else (q1, m))"

definition putc :: "u8 \<Rightarrow> clist \<Rightarrow> clmem \<Rightarrow> int \<times> clist \<times> clmem" where
  "putc c p m0 =
     (let s = spl m0; m = m0\<lparr>spl := 6\<rparr>;
          store = (\<lambda>cp p m. (0, p\<lparr>c_cc := c_cc p + 1, c_cl := cp + 1\<rparr>,
                             m\<lparr>c_info := (c_info m)(cp := c), spl := s\<rparr>))
      in if c_cl p = 0 \<or> c_cc p < 0 then
           (let bp = cfreelist m
            in if bp = 0 then (- 1, p, m\<lparr>spl := s\<rparr>)
               else store (cb_info bp) (p\<lparr>c_cf := cb_info bp\<rparr>) (cb_alloc bp m))
         else if c_cl p mod 16 = 0 then
           (let bp = c_cl p - 16;
                m1 = m\<lparr>c_next := (c_next m)(bp := cfreelist m)\<rparr>
            in if cfreelist m = 0 then (- 1, p, m1\<lparr>spl := s\<rparr>)
               else let bp' = c_next m1 bp
                    in store (cb_info bp') p (cb_alloc bp' m1))
         else store (c_cl p) p m)"

text \<open>The loop of \<open>b_to_q\<close>: \<open>cq\<close> after it, the bytes not transferred, the storage.\<close>

fun b_to_q_loop :: "u8 list \<Rightarrow> nat \<Rightarrow> clmem \<Rightarrow> nat \<times> u8 list \<times> clmem" where
  "b_to_q_loop [] cq m = (cq, [], m)"
| "b_to_q_loop (c # cs) cq m =
     (let bp = cq - 16;
          m1 = m\<lparr>c_next := (c_next m)(bp := cfreelist m)\<rparr>;
          bp' = c_next m1 bp
      in if cq mod 16 = 0 \<and> cfreelist m = 0 then (cq, c # cs, m1)
         else let (cq', m2) = (if cq mod 16 = 0 then (cb_info bp', cb_alloc bp' m1) else (cq, m))
              in b_to_q_loop cs (cq' + 1) (m2\<lparr>c_info := (c_info m2)(cq' := c)\<rparr>))"

text \<open>\<open>b_to_q(cp, cc, q)\<close> on the \<open>cc\<close> bytes at \<open>cp\<close> (\<open>cs\<close>); the result is the number not transferred.\<close>

definition b_to_q :: "u8 list \<Rightarrow> clist \<Rightarrow> clmem \<Rightarrow> int \<times> clist \<times> clmem" where
  "b_to_q cs q m0 =
     (if cs = [] then (0, q, m0)
      else let s = spl m0; m = m0\<lparr>spl := 6\<rparr>;
               finish = (\<lambda>cq rest q m. (int (length rest),
                   q\<lparr>c_cl := cq, c_cc := c_cc q + (int (length cs) - int (length rest))\<rparr>, m\<lparr>spl := s\<rparr>))
      in if c_cl q = 0 \<or> c_cc q < 0 then
           (let bp = cfreelist m
            in if bp = 0 then finish (c_cl q) cs q m
               else let (cq, rest, m') = b_to_q_loop cs (cb_info bp) (cb_alloc bp m)
                    in finish cq rest (q\<lparr>c_cf := cb_info bp\<rparr>) m')
         else let (cq, rest, m') = b_to_q_loop cs (c_cl q) m in finish cq rest q m')"

text \<open>\<open>cinit\<close>: the loop that frees the blocks from \<open>cp\<close> to the last of the array at \<open>cfree\<close>;
  the count of the character devices is the number of entries of \<open>cdevsw\<close> before the NULL one.\<close>

fun cinit_loop :: "nat \<Rightarrow> nat \<Rightarrow> nat \<Rightarrow> clmem \<Rightarrow> clmem" where
  "cinit_loop 0 cp lim m = m"
| "cinit_loop (Suc k) cp lim m =
     (if cp \<le> lim then cinit_loop k (cp + 16) lim (cb_free cp m) else m)"

definition cinit :: "nat \<Rightarrow> bool list \<Rightarrow> clmem \<Rightarrow> nat \<times> clmem" where
  "cinit cfree cdevsw m =
     (length (takeWhile id cdevsw),
      cinit_loop NCLIST (cround (cfree + 15)) (cfree + 16 * (NCLIST - 1)) m)"

definition getw :: "clist \<Rightarrow> clmem \<Rightarrow> u16 \<times> clist \<times> clmem" where
  "getw p m =
     (if c_cc p \<le> 1 then (- 1, p, m)
      else let (s, p1, m1) = getc p m; (s', p2, m2) = getc p1 m1
           in (word_of_int s OR push_bit 8 (word_of_int s'), p2, m2))"

definition putw :: "u16 \<Rightarrow> clist \<Rightarrow> clmem \<Rightarrow> int \<times> clist \<times> clmem" where
  "putw c p m0 =
     (let s = spl m0; m = m0\<lparr>spl := 6\<rparr>
      in if cfreelist m = 0 then (- 1, p, m\<lparr>spl := s\<rparr>)
         else let (_, p1, m1) = putc (ucast c) p m;
                  (_, p2, m2) = putc (ucast (drop_bit 8 c)) p1 m1
              in (0, p2, m2\<lparr>spl := s\<rparr>))"


section \<open>Well-formed queues and the bytes they hold\<close>

text \<open>
  A chain of blocks linked by \<open>c_next\<close> and ended by NULL; the bytes of a queue whose
  blocks are \<open>B\<close>; a queue whose blocks are \<open>B\<close>.
\<close>

fun chain :: "(nat \<Rightarrow> nat) \<Rightarrow> nat \<Rightarrow> nat list \<Rightarrow> bool" where
  "chain nx a [] = (a = 0)"
| "chain nx a (b # bs) = (a = b \<and> b \<noteq> 0 \<and> b mod 16 = 0 \<and> chain nx (nx b) bs)"

fun qbytes :: "(nat \<Rightarrow> u8) \<Rightarrow> nat \<Rightarrow> nat list \<Rightarrow> nat \<Rightarrow> u8 list" where
  "qbytes info f [] l = []"
| "qbytes info f [b] l = map info [f..<l]"
| "qbytes info f (b # b' # bs) l = map info [f..<b + 16] @ qbytes info (b' + 2) (b' # bs) l"

fun qspan :: "nat \<Rightarrow> nat list \<Rightarrow> nat \<Rightarrow> bool" where
  "qspan f [] l = False"
| "qspan f [b] l = (b + 2 \<le> f \<and> f < l \<and> l \<le> b + 16)"
| "qspan f (b # b' # bs) l = (b + 2 \<le> f \<and> f < b + 16 \<and> qspan (b' + 2) (b' # bs) l)"

definition qwf :: "clist \<Rightarrow> nat list \<Rightarrow> clmem \<Rightarrow> bool" where
  "qwf p B m =
     (if B = [] then c_cc p = 0 \<and> c_cf p = 0 \<and> c_cl p = 0
      else chain (c_next m) (hd B) B \<and> qspan (c_cf p) B (c_cl p) \<and>
           c_cc p = int (length (qbytes (c_info m) (c_cf p) B (c_cl p))))"

definition contents :: "clist \<Rightarrow> nat list \<Rightarrow> clmem \<Rightarrow> u8 list" where
  "contents p B m = qbytes (c_info m) (c_cf p) B (c_cl p)"

text \<open>The pool: queues with their blocks, and the free blocks, all distinct.\<close>

definition pool :: "(clist \<times> nat list) list \<Rightarrow> nat list \<Rightarrow> clmem \<Rightarrow> bool" where
  "pool qs F m =
     ((\<forall>(p, B) \<in> set qs. qwf p B m) \<and> chain (c_next m) (cfreelist m) F \<and>
      distinct (concat (map snd qs) @ F))"

lemma cround_in_block: "b mod 16 = 0 \<Longrightarrow> b \<le> a \<Longrightarrow> a < b + 16 \<Longrightarrow> cround a = b"
proof -
  assume a: "b mod 16 = 0" "b \<le> a" "a < b + 16"
  have "a mod 16 = (b + (a - b)) mod 16" using a by simp
  also have "\<dots> = (b mod 16 + (a - b)) mod 16" by (rule mod_add_left_eq [symmetric])
  also have "\<dots> = a - b" using a by simp
  finally show ?thesis using a by (simp add: cround_def)
qed

lemma chain_cong: "(\<And>b. b \<in> set bs \<Longrightarrow> nx' b = nx b) \<Longrightarrow> chain nx' a bs = chain nx a bs"
  by (induction bs arbitrary: a) auto

lemma chain_upd [simp]: "b \<notin> set bs \<Longrightarrow> chain (nx(b := v)) a bs = chain nx a bs"
  by (rule chain_cong) auto

lemma chain_aligned: "chain nx a bs \<Longrightarrow> b \<in> set bs \<Longrightarrow> b mod 16 = 0 \<and> b \<noteq> 0"
  by (induction bs arbitrary: a) auto

lemma qspan_last: "qspan f B l \<Longrightarrow> B \<noteq> [] \<and> last B + 2 < l \<and> l \<le> last B + 16"
  by (induction f B l rule: qspan.induct) auto

lemma qspan_hd: "qspan f B l \<Longrightarrow> hd B + 2 \<le> f \<and> f < hd B + 16"
  by (induction f B l rule: qspan.induct) auto

lemma qbytes_ne: "qspan f B l \<Longrightarrow> qbytes info f B l \<noteq> []"
  by (induction f B l rule: qspan.induct) auto

lemma qbytes_cong:
  "qspan f B l \<Longrightarrow> (\<And>a b. b \<in> set B \<Longrightarrow> b + 2 \<le> a \<Longrightarrow> a < b + 16 \<Longrightarrow> info' a = info a) \<Longrightarrow>
   qbytes info' f B l = qbytes info f B l"
proof (induction f B l rule: qspan.induct)
  case (2 f b l)
  have "info' a = info a" if "f \<le> a" "a < l" for a
    by (rule "2.prems"(2) [of b]) (use "2.prems"(1) that in auto)
  then show ?case by simp
next
  case (3 f b b' bs l)
  have "info' a = info a" if "f \<le> a" "a < b + 16" for a
    by (rule "3.prems"(2) [of b]) (use "3.prems"(1) that in auto)
  moreover have "qbytes info' (b' + 2) (b' # bs) l = qbytes info (b' + 2) (b' # bs) l"
    by (rule "3.IH") (use "3.prems" in auto)
  ultimately show ?case by simp
qed simp

text \<open>A queue is empty exactly when it has no block, and \<open>c_cc\<close> is its length.\<close>

lemma qwf_empty: "qwf p B m \<Longrightarrow> c_cc p = int (length (contents p B m)) \<and> (B = [] \<longleftrightarrow> contents p B m = [])"
  by (cases "B = []") (auto simp: qwf_def contents_def dest: qbytes_ne)

lemma qwf_frame:
  assumes "qwf p B m" and "\<And>b. b \<in> set B \<Longrightarrow> c_next m' b = c_next m b"
    and "\<And>a b. b \<in> set B \<Longrightarrow> b + 2 \<le> a \<Longrightarrow> a < b + 16 \<Longrightarrow> c_info m' a = c_info m a"
  shows "qwf p B m' \<and> contents p B m' = contents p B m"
proof (cases "B = []")
  case False
  then have "qspan (c_cf p) B (c_cl p)" using assms(1) by (simp add: qwf_def)
  from qbytes_cong [OF this assms(3)] chain_cong [of B "c_next m'" "c_next m", OF assms(2)] assms(1) False
  show ?thesis by (simp add: qwf_def contents_def)
qed (use assms in \<open>simp add: qwf_def contents_def\<close>)

text \<open>Two aligned blocks that differ do not overlap.\<close>

lemma blocks_apart:
  "b mod 16 = 0 \<Longrightarrow> b' mod 16 = (0::nat) \<Longrightarrow> b \<noteq> b' \<Longrightarrow> b \<le> a \<Longrightarrow> a < b + 16 \<Longrightarrow> b' \<le> a \<Longrightarrow> a < b' + 16 \<Longrightarrow> False"
  using cround_in_block [of b a] cround_in_block [of b' a] by simp


lemma in_block_mod:
  assumes "b mod 16 = 0" and "b \<le> a" and "a \<le> b + 16"
  shows "a mod 16 = 0 \<longleftrightarrow> a = b \<or> a = b + (16 :: nat)"
proof (cases "a = b + 16")
  case True
  then show ?thesis using assms(1) by simp
next
  case False
  then have "cround a = b" using assms by (intro cround_in_block) auto
  then have "a - a mod 16 = b" by (simp add: cround_def)
  moreover have "a mod 16 \<le> a" by simp
  ultimately show ?thesis using False assms(1) by auto
qed

text \<open>
  A change of a queue with blocks \<open>B\<close> and free list \<open>F\<close> into one with \<open>B'\<close> and \<open>F'\<close>: no
  block is lost or shared, and nothing outside these blocks changes.
\<close>

definition frame :: "nat set \<Rightarrow> clmem \<Rightarrow> clmem \<Rightarrow> bool" where
  "frame X m m' =
     ((\<forall>b. b \<notin> X \<longrightarrow> c_next m' b = c_next m b) \<and>
      (\<forall>a. cround a \<notin> X \<longrightarrow> c_info m' a = c_info m a))"

definition qpool :: "clist \<Rightarrow> nat list \<Rightarrow> nat list \<Rightarrow> clmem \<Rightarrow> bool" where
  "qpool p B F m = (qwf p B m \<and> chain (c_next m) (cfreelist m) F \<and> distinct (B @ F))"

definition qmove :: "nat list \<Rightarrow> nat list \<Rightarrow> clmem \<Rightarrow> nat list \<Rightarrow> nat list \<Rightarrow> clmem \<Rightarrow> bool" where
  "qmove B F m B' F' m' = (mset (B' @ F') = mset (B @ F) \<and> frame (set (B @ F)) m m' \<and> spl m' = spl m)"

lemma qmove_refl: "qmove B F m B F m"
  by (simp add: qmove_def frame_def)

lemma qmove_set: "qmove B F m B' F' m' \<Longrightarrow> set (B' @ F') = set (B @ F)"
  unfolding qmove_def by (metis mset_eq_setD)

lemma frame_trans: "frame X m m' \<Longrightarrow> frame X m' m'' \<Longrightarrow> frame X m m''"
  by (simp add: frame_def)

lemma qmove_trans:
  assumes "qmove B F m B' F' m'" and "qmove B' F' m' B'' F'' m''"
  shows "qmove B F m B'' F'' m''"
proof -
  from qmove_set [OF assms(1)] assms(2) have "frame (set (B @ F)) m' m''"
    by (simp add: qmove_def)
  with assms frame_trans show ?thesis by (auto simp: qmove_def)
qed

lemma take_byteI:
  assumes "cb_advance q m = (p', m')" and "contents p B m = c # contents p' B' m'"
    and "qpool p' B' F' m'" and "qmove B F m B' F' m'"
  shows "\<exists>p' m' B' F'. cb_advance q m = (p', m') \<and> contents p B m = c # contents p' B' m' \<and>
    qpool p' B' F' m' \<and> qmove B F m B' F' m'"
  using assms by blast

lemma take_byte:
  assumes "qpool p B F m" and "B \<noteq> []"
  shows "\<exists>p' m' B' F'. cb_advance (p\<lparr>c_cf := c_cf p + 1, c_cc := c_cc p - 1\<rparr>) m = (p', m') \<and>
    contents p B m = c_info m (c_cf p) # contents p' B' m' \<and>
    qpool p' B' F' m' \<and> qmove B F m B' F' m'"
proof -
  from assms have wf: "chain (c_next m) (hd B) B" "qspan (c_cf p) B (c_cl p)"
    "c_cc p = int (length (contents p B m))" "chain (c_next m) (cfreelist m) F" "distinct (B @ F)"
    by (auto simp: qpool_def qwf_def contents_def)
  let ?f = "c_cf p" and ?l = "c_cl p"
  obtain b bs where B: "B = b # bs" using assms(2) by (cases B) auto
  from wf(1) B have b: "b mod 16 = 0" "b \<noteq> 0" by auto
  from qspan_hd [OF wf(2)] B have f: "b + 2 \<le> ?f" "?f < b + 16" by auto
  have bF: "b \<notin> set F" "b \<notin> set bs" using wf(5) B by auto
  have fchain: "chain ((c_next m)(b := cfreelist m)) b (b # F)"
    using wf(4) b bF by simp
  have md: "(?f + 1) mod 16 = 0 \<longleftrightarrow> ?f + 1 = b + 16"
    using in_block_mod [OF b(1), of "?f + 1"] f by auto
  show ?thesis
  proof (cases bs)
    case Nil
    then have span: "?f < ?l" "?l \<le> b + 16" using wf(2) B by auto
    have cs: "contents p B m = c_info m ?f # map (c_info m) [?f + 1..<?l]"
      using span B Nil by (simp add: contents_def upt_conv_Cons)
    show ?thesis
    proof (cases "?l = ?f + 1")
      case True
      have "cround ?f = b" using b f by (intro cround_in_block) auto
      then have adv: "cb_advance (p\<lparr>c_cf := ?f + 1, c_cc := c_cc p - 1\<rparr>) m =
          (p\<lparr>c_cf := 0, c_cl := 0, c_cc := c_cc p - 1\<rparr>, cb_free b m)"
        using True cs wf(3) by (simp add: cb_advance_def)
      show ?thesis
      proof (rule take_byteI [OF adv, where B' = "[]" and F' = "b # F"])
        show "qmove B F m [] (b # F) (cb_free b m)"
          using B Nil by (simp add: qmove_def frame_def cb_free_def)
      qed (use True cs wf B Nil fchain bF in \<open>auto simp: cb_free_def qpool_def qwf_def contents_def\<close>)
    next
      case False
      then have less: "?f + 1 < ?l" using span by simp
      then have adv: "cb_advance (p\<lparr>c_cf := ?f + 1, c_cc := c_cc p - 1\<rparr>) m =
          (p\<lparr>c_cf := ?f + 1, c_cc := c_cc p - 1\<rparr>, m)"
        using md cs wf(3) span by (simp add: cb_advance_def)
      show ?thesis
        by (rule take_byteI [OF adv _ _ qmove_refl])
           (use less cs wf B Nil f span in \<open>auto simp: qpool_def qwf_def contents_def\<close>)
    qed
  next
    case (Cons b' bs')
    from wf(2) B Cons have span: "qspan (b' + 2) (b' # bs') ?l" by simp
    have nx: "c_next m b = b'" using wf(1) B Cons by simp
    have rest: "0 < int (length (qbytes (c_info m) (b' + 2) (b' # bs') ?l))"
      using qbytes_ne [OF span] by simp
    have cs: "contents p B m = c_info m ?f # map (c_info m) [?f + 1..<b + 16] @ qbytes (c_info m) (b' + 2) (b' # bs') ?l"
      using f B Cons by (simp add: contents_def upt_conv_Cons)
    have "length (contents p B m) \<ge> 1 + length (qbytes (c_info m) (b' + 2) (b' # bs') ?l)"
      unfolding cs by simp
    then have more: "1 < c_cc p" using rest wf(3) by linarith
    show ?thesis
    proof (cases "?f + 1 = b + 16")
      case True
      have "chain ((c_next m)(b := cfreelist m)) b' (b' # bs')"
        using wf(1) B Cons bF by simp
      then have wf': "qpool (p\<lparr>c_cf := b' + 2, c_cc := c_cc p - 1\<rparr>) (b' # bs') (b # F) (cb_free b m)"
        using True cs span wf B Cons fchain bF by (simp add: cb_free_def qpool_def qwf_def contents_def)
      have adv: "cb_advance (p\<lparr>c_cf := ?f + 1, c_cc := c_cc p - 1\<rparr>) m =
          (p\<lparr>c_cf := b' + 2, c_cc := c_cc p - 1\<rparr>, cb_free b m)"
        using True md cs wf(3) rest nx by (simp add: cb_advance_def cb_info_def)
      show ?thesis
      proof (rule take_byteI [OF adv _ wf'])
        show "qmove B F m (b' # bs') (b # F) (cb_free b m)"
          using B Cons by (simp add: qmove_def frame_def cb_free_def)
      qed (use True cs in \<open>simp add: cb_free_def contents_def\<close>)
    next
      case False
      then have adv: "cb_advance (p\<lparr>c_cf := ?f + 1, c_cc := c_cc p - 1\<rparr>) m =
          (p\<lparr>c_cf := ?f + 1, c_cc := c_cc p - 1\<rparr>, m)"
        using md more by (simp add: cb_advance_def)
      show ?thesis
        by (rule take_byteI [OF adv _ _ qmove_refl])
           (use False cs span wf B Cons f in \<open>auto simp: qpool_def qwf_def contents_def\<close>)
    qed
  qed
qed


lemma getc_empty: "qpool p [] F m \<Longrightarrow> getc p m = (- 1, p, m)"
  by (cases p) (simp add: getc_def qpool_def qwf_def Let_def)

lemma cb_advance_spl:
  "cb_advance p (m\<lparr>spl := k\<rparr>) = (fst (cb_advance p m), (snd (cb_advance p m))\<lparr>spl := k\<rparr>)"
  by (simp add: cb_advance_def cb_free_def Let_def)

lemma qpool_spl [simp]: "qpool p B F (m\<lparr>spl := k\<rparr>) = qpool p B F m"
  by (simp add: qpool_def qwf_def)

lemma contents_spl [simp]: "contents p B (m\<lparr>spl := k\<rparr>) = contents p B m"
  by (simp add: contents_def)

lemma qmove_spl: "qmove B F m B' F' m' \<Longrightarrow> qmove B F m B' F' (m'\<lparr>spl := spl m\<rparr>)"
  by (simp add: qmove_def frame_def)

lemma qpool_empty: "qpool p B F m \<Longrightarrow> c_cc p = int (length (contents p B m)) \<and> (B = [] \<longleftrightarrow> contents p B m = [])"
  by (auto simp: qpool_def dest: qwf_empty)

lemma spl_same [simp]: "spl m = k \<Longrightarrow> m\<lparr>spl := k\<rparr> = m"
  by auto

text \<open>The outcome of an operation on the queue: it holds \<open>cs\<close> now, and no block was lost or shared.\<close>

definition qresult :: "nat list \<Rightarrow> nat list \<Rightarrow> clmem \<Rightarrow> u8 list \<Rightarrow> clist \<Rightarrow> clmem \<Rightarrow> bool" where
  "qresult B F m cs p' m' =
     (\<exists>B' F'. contents p' B' m' = cs \<and> qpool p' B' F' m' \<and> qmove B F m B' F' m')"

lemma qresultI: "contents p' B' m' = cs \<Longrightarrow> qpool p' B' F' m' \<Longrightarrow> qmove B F m B' F' m' \<Longrightarrow> qresult B F m cs p' m'"
  by (auto simp: qresult_def)

lemma qresult_refl: "qpool p B F m \<Longrightarrow> qresult B F m (contents p B m) p m"
  by (blast intro: qresultI qmove_refl)

lemma qresult_trans: "qmove B F m B' F' m' \<Longrightarrow> qresult B' F' m' cs p m'' \<Longrightarrow> qresult B F m cs p m''"
  unfolding qresult_def by (blast intro: qmove_trans)

lemma qresult_spl:
  assumes "qresult B F (m\<lparr>spl := k\<rparr>) cs p m'"
  shows "qresult B F m cs p (m'\<lparr>spl := spl m\<rparr>)"
proof -
  from assms obtain B' F' where "contents p B' m' = cs" "qpool p B' F' m'" "qmove B F (m\<lparr>spl := k\<rparr>) B' F' m'"
    by (auto simp: qresult_def)
  then show ?thesis by (intro qresultI [of p B' _ cs F']) (auto simp: qmove_def frame_def)
qed

lemma take_byte_result:
  assumes "qpool p B F m" and "B \<noteq> []"
  shows "\<exists>p' m' cs. cb_advance (p\<lparr>c_cf := c_cf p + 1, c_cc := c_cc p - 1\<rparr>) m = (p', m') \<and>
    contents p B m = c_info m (c_cf p) # cs \<and> qresult B F m cs p' m'"
  using take_byte [OF assms] by (metis qresultI)

lemma getc_ok:
  assumes "qpool p B F m" and "contents p B m = c # cs"
  shows "\<exists>p' m'. getc p m = (uint c, p', m') \<and> qresult B F m cs p' m'"
proof -
  have ne: "B \<noteq> []" "0 < c_cc p" using qpool_empty [OF assms(1)] assms(2) by auto
  have "qpool p B F (m\<lparr>spl := 6\<rparr>)" using assms(1) by simp
  from take_byte_result [OF this ne(1)] obtain p' m' where
    adv: "cb_advance (p\<lparr>c_cf := c_cf p + 1, c_cc := c_cc p - 1\<rparr>) (m\<lparr>spl := 6\<rparr>) = (p', m')"
    and c: "c = c_info m (c_cf p)" and res: "qresult B F (m\<lparr>spl := 6\<rparr>) cs p' m'"
    using assms(2) by auto
  have "getc p m = (uint c, p', m'\<lparr>spl := spl m\<rparr>)"
    using ne(2) adv c by (simp add: getc_def Let_def)
  with qresult_spl [OF res] show ?thesis by blast
qed

lemma q_to_b_loop_ok:
  assumes "qpool p B F m" and "B \<noteq> []"
  shows "\<exists>p' m'. q_to_b_loop n p m = (take n (contents p B m), p', m') \<and>
    qresult B F m (drop n (contents p B m)) p' m'"
  using assms
proof (induction n arbitrary: p B F m)
  case 0
  then show ?case using qresult_refl by simp
next
  case (Suc n)
  from take_byte [OF Suc.prems] obtain p' m' B' F' where
    adv: "cb_advance (p\<lparr>c_cf := c_cf p + 1, c_cc := c_cc p - 1\<rparr>) m = (p', m')" and
    cs: "contents p B m = c_info m (c_cf p) # contents p' B' m'" and wf: "qpool p' B' F' m'"
    and mv: "qmove B F m B' F' m'" by blast
  note e = qpool_empty [OF wf]
  show ?case
  proof (cases "B' = []")
    case True
    with e have "contents p' B' m' = []" "c_cc p' \<le> 0" by auto
    with adv cs qresultI [OF refl wf mv] show ?thesis by simp
  next
    case False
    with e have "0 < c_cc p'" by simp
    moreover from Suc.IH [OF wf False] obtain p'' m'' where
      "q_to_b_loop n p' m' = (take n (contents p' B' m'), p'', m'')"
      "qresult B' F' m' (drop n (contents p' B' m')) p'' m''" by blast
    moreover from qresult_trans [OF mv this(2)]
    have "qresult B F m (drop n (contents p' B' m')) p'' m''" .
    ultimately show ?thesis using adv cs by simp
  qed
qed

lemma q_to_b_ok:
  assumes "qpool p B F m" and "contents p B m \<noteq> []"
  shows "\<exists>p' m'. q_to_b p cc m = (take (nat cc) (contents p B m), p', m') \<and>
    qresult B F m (drop (nat cc) (contents p B m)) p' m'"
proof (cases "cc \<le> 0")
  case True
  then show ?thesis using qresult_refl [OF assms(1)] by (simp add: q_to_b_def)
next
  case False
  have ne: "B \<noteq> []" "0 < c_cc p" using qpool_empty [OF assms(1)] assms(2) by auto
  have "qpool p B F (m\<lparr>spl := 6\<rparr>)" using assms(1) by simp
  from q_to_b_loop_ok [OF this ne(1), of "nat cc"] obtain p' m' where
    run: "q_to_b_loop (nat cc) p (m\<lparr>spl := 6\<rparr>) = (take (nat cc) (contents p B m), p', m')"
    and res: "qresult B F (m\<lparr>spl := 6\<rparr>) (drop (nat cc) (contents p B m)) p' m'" by auto
  from qresult_spl [OF res] run False ne(2) show ?thesis
    by (simp add: q_to_b_def Let_def)
qed


subsection \<open>Adding bytes\<close>

lemma qspan_in_block: "qspan f B l \<Longrightarrow> l < last B + 16 \<Longrightarrow> qspan f B (l + 1)"
  by (induction f B l rule: qspan.induct) auto

lemma qbytes_snoc:
  "qspan f B l \<Longrightarrow> l < last B + 16 \<Longrightarrow> distinct B \<Longrightarrow> \<forall>b \<in> set B. b mod 16 = 0 \<Longrightarrow>
   qbytes (info(l := c)) f B (l + 1) = qbytes info f B l @ [c]"
proof (induction f B l rule: qspan.induct)
  case (3 f b b' bs l)
  have last: "last (b' # bs) + 2 < l"
    using qspan_last [of "b' + 2" "b' # bs" l] "3.prems"(1) by auto
  have last_in: "last (b' # bs) \<in> set (b' # bs)" by (rule last_in_set) simp
  have l: "l < last (b' # bs) + 16" using "3.prems"(2) by simp
  have al: "last (b' # bs) mod 16 = 0" "b mod 16 = 0" "last (b' # bs) \<noteq> b"
    using "3.prems"(3,4) last_in by (auto simp del: last.simps)
  have "info a = (info(l := c)) a" if "f \<le> a" "a < b + 16" for a
  proof -
    have "a \<noteq> l"
    proof
      assume "a = l"
      then show False
        using blocks_apart [OF al(1,2,3), of l] last l that "3.prems"(1) by auto
    qed
    then show ?thesis by simp
  qed
  then have "map (info(l := c)) [f..<b + 16] = map info [f..<b + 16]" by simp
  moreover have "qbytes (info(l := c)) (b' + 2) (b' # bs) (l + 1) = qbytes info (b' + 2) (b' # bs) l @ [c]"
    by (rule "3.IH") (use "3.prems" l in auto)
  ultimately show ?case by (simp del: fun_upd_apply)
qed auto

lemma qbytes_new_block:
  "qspan f B (last B + 16) \<Longrightarrow>
   qspan f (B @ [nb]) (nb + 3) \<and>
   qbytes info f (B @ [nb]) (nb + 3) = qbytes info f B (last B + 16) @ [info (nb + 2)]"
proof (induction B arbitrary: f)
  case (Cons b B)
  show ?case
  proof (cases B)
    case Nil
    then show ?thesis using Cons.prems by (simp add: upt_conv_Cons)
  next
    case (Cons b' bs)
    with Cons.prems Cons.IH [of "b' + 2"] show ?thesis by simp
  qed
qed simp

lemma chain_append:
  "chain nx a (xs @ [y]) \<Longrightarrow> distinct (xs @ [y]) \<Longrightarrow> nb \<notin> set (xs @ [y]) \<Longrightarrow> nb \<noteq> 0 \<Longrightarrow> nb mod 16 = 0 \<Longrightarrow>
   chain (nx(y := nb, nb := 0)) a (xs @ [y, nb])"
  by (induction xs arbitrary: a) auto

lemma chain_last: "chain nx a (xs @ [y]) \<Longrightarrow> nx y = 0"
  by (induction xs arbitrary: a) auto

definition put_full :: "clist \<Rightarrow> nat list \<Rightarrow> nat list \<Rightarrow> bool" where
  "put_full p B F = (F = [] \<and> (B = [] \<or> c_cl p = last B + 16))"

lemma cl_block_end:
  assumes "qpool p B F m" and "B \<noteq> []"
  shows "c_cl p mod 16 = 0 \<longleftrightarrow> c_cl p = last B + 16" and "c_cl p \<noteq> 0" and "c_cl p - 16 = last B \<or> c_cl p \<noteq> last B + 16"
    and "last B mod 16 = 0" and "last B + 2 < c_cl p" and "c_cl p \<le> last B + 16" and "c_next m (last B) = 0"
    and "0 < c_cc p"
proof -
  have sp: "qspan (c_cf p) B (c_cl p)" "chain (c_next m) (hd B) B"
    using assms by (auto simp: qpool_def qwf_def)
  from qspan_last [OF sp(1)] show l: "last B + 2 < c_cl p" "c_cl p \<le> last B + 16" by auto
  from chain_aligned [OF sp(2), of "last B"] assms(2) show a: "last B mod 16 = 0" by simp
  from in_block_mod [OF a, of "c_cl p"] l show "c_cl p mod 16 = 0 \<longleftrightarrow> c_cl p = last B + 16" by auto
  show "c_cl p \<noteq> 0" "c_cl p - 16 = last B \<or> c_cl p \<noteq> last B + 16" using l by auto
  show "c_next m (last B) = 0" using chain_last [of "c_next m" "hd B" "butlast B" "last B"] sp(2) assms(2) by simp
  show "0 < c_cc p" using qpool_empty [OF assms(1)] assms(2) by simp
qed

lemma putc_full:
  assumes "qpool p B F m" and "put_full p B F"
  shows "putc c p m = (- 1, p, m)"
proof -
  have F: "cfreelist m = 0" using assms by (auto simp: qpool_def put_full_def)
  show ?thesis
  proof (cases "B = []")
    case True
    then have "c_cl p = 0" using assms(1) by (simp add: qpool_def qwf_def)
    with F show ?thesis by (simp add: putc_def Let_def)
  next
    case False
    note cl = cl_block_end [OF assms(1) False]
    from assms(2) False have "c_cl p = last B + 16" by (simp add: put_full_def)
    with cl F have "(c_next m)(c_cl p - 16 := 0) = c_next m" by auto
    with F cl \<open>c_cl p = last B + 16\<close> show ?thesis by (simp add: putc_def Let_def)
  qed
qed


text \<open>The three cases of \<open>putc\<close>: in the last block, in a first block, in a block appended.\<close>

lemma put_in_block:
  assumes "qpool p B F m" and "B \<noteq> []" and "c_cl p \<noteq> last B + 16"
  shows "qresult B F m (contents p B m @ [c]) (p\<lparr>c_cc := c_cc p + 1, c_cl := c_cl p + 1\<rparr>)
           (m\<lparr>c_info := (c_info m)(c_cl p := c)\<rparr>)"
proof (rule qresultI [where B' = B and F' = F])
  note cl = cl_block_end [OF assms(1,2)]
  have wf: "qspan (c_cf p) B (c_cl p)" "chain (c_next m) (hd B) B" "distinct B"
    "chain (c_next m) (cfreelist m) F" "distinct (B @ F)"
    "c_cc p = int (length (qbytes (c_info m) (c_cf p) B (c_cl p)))"
    using assms by (auto simp: qpool_def qwf_def)
  have less: "c_cl p < last B + 16" using cl(6) assms(3) by simp
  have al: "\<forall>b \<in> set B. b mod 16 = 0" using chain_aligned [OF wf(2)] by blast
  from qbytes_snoc [OF wf(1) less wf(3) al] have
    q: "qbytes ((c_info m)(c_cl p := c)) (c_cf p) B (c_cl p + 1) = contents p B m @ [c]"
    by (simp add: contents_def)
  from qspan_in_block [OF wf(1) less] have s: "qspan (c_cf p) B (c_cl p + 1)" .
  show "contents (p\<lparr>c_cc := c_cc p + 1, c_cl := c_cl p + 1\<rparr>) B (m\<lparr>c_info := (c_info m)(c_cl p := c)\<rparr>) =
      contents p B m @ [c]"
    using q by (simp add: contents_def)
  show "qpool (p\<lparr>c_cc := c_cc p + 1, c_cl := c_cl p + 1\<rparr>) B F (m\<lparr>c_info := (c_info m)(c_cl p := c)\<rparr>)"
    using q s wf assms(2) by (simp add: qpool_def qwf_def contents_def)
  have "cround (c_cl p) = last B" using cl less by (intro cround_in_block) auto
  then have "cround (c_cl p) \<in> set (B @ F)" using assms(2) by simp
  then show "qmove B F m B F (m\<lparr>c_info := (c_info m)(c_cl p := c)\<rparr>)"
    by (auto simp: qmove_def frame_def)
qed

lemma put_first:
  assumes "qpool p [] (b # F) m"
  shows "qresult [] (b # F) m [c] (p\<lparr>c_cf := b + 2, c_cc := c_cc p + 1, c_cl := b + 3\<rparr>)
           (cb_alloc b m\<lparr>c_info := (c_info m)(b + 2 := c)\<rparr>)"
proof (rule qresultI [where B' = "[b]" and F' = F])
  have b: "b mod 16 = 0" "b \<noteq> 0" "chain (c_next m) (c_next m b) F" "b \<notin> set F" "distinct F"
    using assms by (auto simp: qpool_def)
  then show "qpool (p\<lparr>c_cf := b + 2, c_cc := c_cc p + 1, c_cl := b + 3\<rparr>) [b] F
      (cb_alloc b m\<lparr>c_info := (c_info m)(b + 2 := c)\<rparr>)"
    using assms by (simp add: qpool_def qwf_def cb_alloc_def upt_conv_Cons)
  show "contents (p\<lparr>c_cf := b + 2, c_cc := c_cc p + 1, c_cl := b + 3\<rparr>) [b]
      (cb_alloc b m\<lparr>c_info := (c_info m)(b + 2 := c)\<rparr>) = [c]"
    by (simp add: contents_def upt_conv_Cons)
  have "cround (b + 2) = b" using b by (intro cround_in_block) auto
  then show "qmove [] (b # F) m [b] F (cb_alloc b m\<lparr>c_info := (c_info m)(b + 2 := c)\<rparr>)"
    by (auto simp: qmove_def frame_def cb_alloc_def)
qed

lemma put_append:
  assumes "qpool p B (b # F) m" and "B \<noteq> []" and "c_cl p = last B + 16"
  shows "qresult B (b # F) m (contents p B m @ [c]) (p\<lparr>c_cc := c_cc p + 1, c_cl := b + 3\<rparr>)
           (cb_alloc b (m\<lparr>c_next := (c_next m)(last B := b)\<rparr>)\<lparr>c_info := (c_info m)(b + 2 := c)\<rparr>)"
    (is "qresult _ _ _ _ ?p ?m")
proof (rule qresultI [where B' = "B @ [b]" and F' = F])
  have wf: "qspan (c_cf p) B (last B + 16)" "chain (c_next m) (hd B) B" "distinct (B @ b # F)"
    "b mod 16 = 0" "b \<noteq> 0" "chain (c_next m) (c_next m b) F"
    "c_cc p = int (length (qbytes (c_info m) (c_cf p) B (last B + 16)))"
    using assms by (auto simp: qpool_def qwf_def)
  obtain xs y where B: "B = xs @ [y]" using assms(2) by (cases B rule: rev_cases) auto
  have al: "\<forall>x \<in> set B. x mod 16 = 0" using chain_aligned [OF wf(2)] by blast
  have "((c_info m)(b + 2 := c)) a = c_info m a" if "x \<in> set B" "x + 2 \<le> a" "a < x + 16" for a x
  proof -
    have "x \<noteq> b" using that wf(3) by auto
    then have "a \<noteq> b + 2" using blocks_apart [of x b a] al that wf(4) by auto
    then show ?thesis by simp
  qed
  then have "qbytes ((c_info m)(b + 2 := c)) (c_cf p) B (last B + 16) = qbytes (c_info m) (c_cf p) B (last B + 16)"
    by (intro qbytes_cong [OF wf(1)]) blast
  with qbytes_new_block [OF wf(1), of b "(c_info m)(b + 2 := c)"] have
    q: "qspan (c_cf p) (B @ [b]) (b + 3)"
       "qbytes ((c_info m)(b + 2 := c)) (c_cf p) (B @ [b]) (b + 3) =
        qbytes (c_info m) (c_cf p) B (last B + 16) @ [c]" by auto
  have c1: "chain ((c_next m)(y := b, b := 0)) (hd B) (xs @ [y, b])"
    using wf(2-5) B by (intro chain_append) auto
  have c2: "chain ((c_next m)(y := b, b := 0)) (c_next m b) F"
    using wf(3,6) B by simp
  have c3: "hd (xs @ [y, b]) = hd B" using B by (cases xs) auto
  show "contents ?p (B @ [b]) ?m = contents p B m @ [c]"
    using q assms(3) by (simp add: contents_def)
  show "qpool ?p (B @ [b]) F ?m"
    using q wf c1 c2 c3 assms(3) B by (auto simp: qpool_def qwf_def cb_alloc_def)
  have "cround (b + 2) = b" using wf(4) by (intro cround_in_block) auto
  then show "qmove B (b # F) m (B @ [b]) F ?m"
    using B by (auto simp: qmove_def frame_def cb_alloc_def)
qed

lemma putc_ok:
  assumes "qpool p B F m" and "\<not> put_full p B F"
  shows "\<exists>p' m'. putc c p m = (0, p', m') \<and> c_cl p' \<noteq> 0 \<and> qresult B F m (contents p B m @ [c]) p' m'"
proof (cases "B = []")
  case True
  with assms(2) obtain b F' where F: "F = b # F'" by (cases F) (auto simp: put_full_def)
  have p: "c_cl p = 0" "cfreelist m = b" "b \<noteq> 0" "contents p B m = []"
    using assms(1) True F by (auto simp: qpool_def qwf_def contents_def)
  from put_first [of p b F' m c] assms(1) True F p show ?thesis
    by (simp add: putc_def Let_def cb_info_def cb_alloc_def numeral_3_eq_3 add.commute)
next
  case False
  note cl = cl_block_end [OF assms(1) False]
  show ?thesis
  proof (cases "c_cl p = last B + 16")
    case True
    with assms(2) False obtain b F' where F: "F = b # F'" by (cases F) (auto simp: put_full_def)
    moreover have "last B \<in> set B" using False by simp
    ultimately have "cfreelist m = b" "b \<noteq> 0" "last B \<noteq> b"
      using assms(1) by (auto simp: qpool_def simp del: last_in_set)
    with put_append [of p B b F' m c] assms(1) False True F cl show ?thesis
      by (simp add: putc_def Let_def cb_info_def cb_alloc_def numeral_3_eq_3)
  next
    case no: False
    with put_in_block [OF assms(1) False no, of c] cl show ?thesis
      by (simp add: putc_def Let_def)
  qed
qed


subsection \<open>b_to_q is the iteration of putc\<close>

text \<open>The reference: \<open>putc\<close> on byte after byte until it fails; the bytes left.\<close>

fun put_all :: "u8 list \<Rightarrow> clist \<Rightarrow> clmem \<Rightarrow> u8 list \<times> clist \<times> clmem" where
  "put_all [] p m = ([], p, m)"
| "put_all (c # cs) p m =
     (case putc c p m of (r, p', m') \<Rightarrow> if r \<noteq> 0 then (c # cs, p', m') else put_all cs p' m')"

lemma put_all_loop:
  "c_cl p \<noteq> 0 \<Longrightarrow> 0 \<le> c_cc p \<Longrightarrow> b_to_q_loop cs (c_cl p) m = (cq, rest, m') \<Longrightarrow>
   put_all cs p m = (rest, p\<lparr>c_cl := cq, c_cc := c_cc p + (int (length cs) - int (length rest))\<rparr>, m')"
proof (induction cs arbitrary: p m)
  case (Cons c cs)
  let ?cl = "c_cl p"
  let ?m1 = "m\<lparr>c_next := (c_next m)(?cl - 16 := cfreelist m)\<rparr>"
  show ?case
  proof (cases "?cl mod 16 = 0 \<and> cfreelist m = 0")
    case True
    then show ?thesis using Cons.prems by (auto simp: putc_def Let_def)
  next
    case False
    define cq' where "cq' = (if ?cl mod 16 = 0 then cb_info (cfreelist m) else ?cl)"
    define m2 where "m2 = (if ?cl mod 16 = 0 then cb_alloc (cfreelist m) ?m1 else m)"
    let ?p = "p\<lparr>c_cc := c_cc p + 1, c_cl := cq' + 1\<rparr>" and ?m = "m2\<lparr>c_info := (c_info m2)(cq' := c)\<rparr>"
    have "spl m2 = spl m" by (simp add: m2_def cb_alloc_def)
    then have one: "putc c p m = (0, ?p, ?m)"
      using False Cons.prems(1,2) by (auto simp: putc_def Let_def cq'_def m2_def cb_alloc_def)
    have "b_to_q_loop cs (c_cl ?p) ?m = (cq, rest, m')"
      using Cons.prems(3) False by (auto simp: Let_def cq'_def m2_def cb_info_def)
    moreover have "c_cl ?p \<noteq> 0" "0 \<le> c_cc ?p" using Cons.prems(2) by simp_all
    ultimately have "put_all cs ?p ?m =
        (rest, ?p\<lparr>c_cl := cq, c_cc := c_cc ?p + (int (length cs) - int (length rest))\<rparr>, m')"
      using Cons.IH [of ?p ?m] by blast
    with one show ?thesis by (simp add: algebra_simps)
  qed
qed auto

lemma b_to_q_loop_spl:
  "b_to_q_loop cs cq (m\<lparr>spl := k\<rparr>) =
     (case b_to_q_loop cs cq m of (cq', rest, m') \<Rightarrow> (cq', rest, m'\<lparr>spl := k\<rparr>))"
proof (induction cs arbitrary: cq m)
  case (Cons c cs)
  have upd: "m\<lparr>spl := k, c_next := f\<rparr> = (m\<lparr>c_next := f\<rparr>)\<lparr>spl := k\<rparr>"
    "(m::clmem)\<lparr>spl := k, c_info := g\<rparr> = (m\<lparr>c_info := g\<rparr>)\<lparr>spl := k\<rparr>"
    "cb_alloc b (m\<lparr>spl := k\<rparr>) = (cb_alloc b m)\<lparr>spl := k\<rparr>" for m :: clmem and f g b
    by (simp_all add: cb_alloc_def)
  show ?case using Cons.IH by (simp add: Let_def upd)
qed simp

lemma putc_spl: "putc c p m = (r, p', m') \<Longrightarrow> spl m' = spl m"
  by (auto simp: putc_def Let_def split: if_splits)

lemma put_all_spl: "put_all cs p m = (rest, p', m') \<Longrightarrow> spl m' = spl m"
  by (induction cs p m rule: put_all.induct) (auto dest: putc_spl split: prod.splits if_splits)

lemma b_to_q_put_all:
  assumes "0 \<le> c_cc p" and "cfreelist m mod 16 = 0"
  shows "b_to_q cs p m = (case put_all cs p m of (rest, p', m') \<Rightarrow> (int (length rest), p', m'))"
proof (cases cs)
  case Nil
  then show ?thesis by (simp add: b_to_q_def)
next
  case (Cons c cs')
  show ?thesis
  proof (cases "c_cl p = 0")
    case False
    obtain cq rest m' where loop: "b_to_q_loop cs (c_cl p) m = (cq, rest, m')" by (cases rule: prod_cases3)
    from put_all_loop [OF False assms(1) loop] have
      all: "put_all cs p m = (rest, p\<lparr>c_cl := cq, c_cc := c_cc p + (int (length cs) - int (length rest))\<rparr>, m')" .
    from put_all_spl [OF this] have "spl m' = spl m" .
    moreover have "cs \<noteq> []" using Cons by simp
    ultimately show ?thesis using all loop assms(1) False
      by (simp add: b_to_q_def Let_def b_to_q_loop_spl)
  next
    case True
    let ?b = "cfreelist m"
    show ?thesis
    proof (cases "?b = 0")
      case True
      then show ?thesis using assms(1) Cons \<open>c_cl p = 0\<close> by (simp add: b_to_q_def putc_def Let_def)
    next
      case False
      let ?p = "p\<lparr>c_cf := ?b + 2, c_cc := c_cc p + 1, c_cl := ?b + 3\<rparr>"
      let ?m = "cb_alloc ?b m\<lparr>c_info := (c_info m)(?b + 2 := c)\<rparr>"
      have one: "putc c p m = (0, ?p, ?m)"
        using True False by (simp add: putc_def Let_def cb_info_def cb_alloc_def numeral_3_eq_3)
      obtain cq rest m' where loop: "b_to_q_loop cs' (c_cl ?p) ?m = (cq, rest, m')" by (cases rule: prod_cases3)
      have "c_cl ?p \<noteq> 0" "0 \<le> c_cc ?p" using assms(1) by simp_all
      from put_all_loop [OF this loop] one have
        all: "put_all cs p m = (rest, ?p\<lparr>c_cl := cq, c_cc := c_cc ?p + (int (length cs') - int (length rest))\<rparr>, m')"
        unfolding Cons by simp
      from put_all_spl [OF this] have sp: "spl m' = spl m" .
      have "(?b + 2) mod 16 \<noteq> 0" using assms(2) by presburger
      moreover have "cb_alloc ?b (m\<lparr>spl := 6\<rparr>) = (cb_alloc ?b m)\<lparr>spl := 6\<rparr>" by (simp add: cb_alloc_def)
      moreover have "c_info (cb_alloc ?b m) = c_info m" by (simp add: cb_alloc_def)
      ultimately have "b_to_q_loop cs (?b + 2) (cb_alloc ?b (m\<lparr>spl := 6\<rparr>)) = (cq, rest, m'\<lparr>spl := 6\<rparr>)"
        using loop Cons by (simp add: Let_def b_to_q_loop_spl numeral_3_eq_3)
      with all assms(1) True False Cons sp show ?thesis
        by (simp add: b_to_q_def Let_def cb_info_def algebra_simps)
    qed
  qed
qed


lemma put_all_ok:
  "qpool p B F m \<Longrightarrow>
   \<exists>n p' m'. n \<le> length cs \<and> put_all cs p m = (drop n cs, p', m') \<and>
     qresult B F m (contents p B m @ take n cs) p' m' \<and>
     (n < length cs \<longrightarrow> (\<forall>c. putc c p' m' = (- 1, p', m')))"
proof (induction cs arbitrary: p B F m)
  case Nil
  then show ?case using qresult_refl by auto
next
  case (Cons c cs)
  show ?case
  proof (cases "put_full p B F")
    case True
    from putc_full [OF Cons.prems True] qresult_refl [OF Cons.prems] show ?thesis
      by (intro exI [of _ 0]) simp
  next
    case False
    from putc_ok [OF Cons.prems False, of c] obtain p1 m1 where
      one: "putc c p m = (0, p1, m1)" and res: "qresult B F m (contents p B m @ [c]) p1 m1" by blast
    from res obtain B1 F1 where q1: "contents p1 B1 m1 = contents p B m @ [c]" "qpool p1 B1 F1 m1"
      "qmove B F m B1 F1 m1" by (auto simp: qresult_def)
    from Cons.IH [OF q1(2)] obtain n p' m' where IH: "n \<le> length cs" "put_all cs p1 m1 = (drop n cs, p', m')"
      "qresult B1 F1 m1 (contents p1 B1 m1 @ take n cs) p' m'"
      "n < length cs \<longrightarrow> (\<forall>c. putc c p' m' = (- 1, p', m'))" by blast
    from qresult_trans [OF q1(3) IH(3)] q1(1)
    have "qresult B F m (contents p B m @ take (Suc n) (c # cs)) p' m'" by simp
    with IH one show ?thesis by (intro exI [of _ "Suc n"]) simp
  qed
qed

subsection \<open>Runs of contiguous bytes: ndqb and ndflush\<close>

text \<open>The number of bytes of the queue that lie in its first block.\<close>

definition head_run :: "clist \<Rightarrow> nat list \<Rightarrow> nat" where
  "head_run p B = (if length B = 1 then c_cl p - c_cf p else hd B + 16 - c_cf p)"

lemma head_run_ok:
  assumes "qpool p B F m" and "B \<noteq> []"
  shows "0 < head_run p B" and "head_run p B \<le> length (contents p B m)" and "head_run p B \<le> CBSIZE"
    and "take (head_run p B) (contents p B m) = map (c_info m) [c_cf p..<c_cf p + head_run p B]"
    and "ndqb p 0 m = int (head_run p B)"
proof -
  obtain b bs where B: "B = b # bs" using assms(2) by (cases B) auto
  have wf: "qspan (c_cf p) B (c_cl p)" "c_cc p = int (length (contents p B m))" "b mod 16 = 0"
    using assms B by (auto simp: qpool_def qwf_def contents_def)
  from qspan_hd [OF wf(1)] B have f: "b + 2 \<le> c_cf p" "c_cf p < b + 16" by auto
  have r: "0 < head_run p B \<and> head_run p B \<le> length (contents p B m) \<and>
      take (head_run p B) (contents p B m) = map (c_info m) [c_cf p..<c_cf p + head_run p B] \<and>
      head_run p B = min (length (contents p B m)) (b + 16 - c_cf p)"
  proof (cases bs)
    case Nil
    then show ?thesis using wf(1) B by (auto simp: head_run_def contents_def)
  next
    case (Cons b' bs')
    then show ?thesis using f B by (auto simp: head_run_def contents_def)
  qed
  then show "0 < head_run p B" "head_run p B \<le> length (contents p B m)" "head_run p B \<le> CBSIZE"
    "take (head_run p B) (contents p B m) = map (c_info m) [c_cf p..<c_cf p + head_run p B]"
    using f by (auto simp: CBSIZE_def)
  have "cround (c_cf p + 14) = b + 16"
    using wf(3) f by (intro cround_in_block) auto
  then show "ndqb p 0 m = int (head_run p B)"
    using r wf(2) f by (auto simp: ndqb_def CBSIZE_def Let_def)
qed

lemma nd_scan_ok:
  "nd_scan info flag a n = length (takeWhile (\<lambda>c. (scast c :: u16) AND flag = 0) (map info [a..<a + n]))"
proof (induction n arbitrary: a)
  case (Suc n)
  have "[a..<a + Suc n] = a # [a + 1..<a + 1 + n]" by (simp add: upt_conv_Cons del: upt_Suc)
  with Suc [of "a + 1"] show ?case by (simp del: upt_Suc)
qed simp

lemma ndqb_flag:
  assumes "qpool p B F m" and "B \<noteq> []"
  shows "ndqb p flag m = int (length (takeWhile (\<lambda>c. (scast c :: u16) AND flag = 0)
           (take (head_run p B) (contents p B m))))"
proof -
  note h = head_run_ok [OF assms]
  have pos: "0 < c_cc p" using qpool_empty [OF assms(1)] assms(2) by simp
  show ?thesis
  proof (cases "flag = 0")
    case True
    with h show ?thesis by simp
  next
    case False
    with h(5) pos have "ndqb p flag m = int (nd_scan (c_info m) flag (c_cf p) (head_run p B))"
      by (auto simp: ndqb_def Let_def split: if_splits)
    with h(4) show ?thesis by (simp add: nd_scan_ok)
  qed
qed

lemma ndflush_ok:
  assumes "qpool p B F m" and "B \<noteq> []" and "0 < n" and "n \<le> head_run p B"
  shows "\<exists>p' m'. ndflush p (int n) m = (p', m') \<and> qresult B F m (drop n (contents p B m)) p' m' \<and> cbad m' = cbad m"
proof -
  note h = head_run_ok [OF assms(1,2)]
  obtain b bs where B: "B = b # bs" using assms(2) by (cases B) auto
  let ?f = "c_cf p" and ?l = "c_cl p"
  have wf: "qspan ?f B ?l" "c_cc p = int (length (contents p B m))" "b mod 16 = 0" "b \<noteq> 0"
    "chain (c_next m) b B" "chain (c_next m) (cfreelist m) F" "distinct (B @ F)"
    using assms B by (auto simp: qpool_def qwf_def contents_def)
  from qspan_hd [OF wf(1)] B have f: "b + 2 \<le> ?f" "?f < b + 16" by auto
  have bF: "b \<notin> set F" "b \<notin> set bs" using wf(7) B by auto
  have fchain: "chain ((c_next m)(b := cfreelist m)) b (b # F)" using wf(3,4,6) bF by simp
  have fn: "?f + n \<le> b + 16" using assms(4) wf(1) B f by (cases bs) (auto simp: head_run_def)
  have md: "(?f + n) mod 16 = 0 \<longleftrightarrow> ?f + n = b + 16"
    using in_block_mod [OF wf(3), of "?f + n"] f fn assms(3) by auto
  have mv: "qmove B F m bs (b # F) (cb_free b m)"
    using B by (simp add: qmove_def frame_def cb_free_def)
  have guard: "\<not> c_cc p < 0" "c_cc p \<noteq> 0" "\<not> (int n > int CBSIZE \<or> int n \<le> 0)"
    "nat (int ?f + int n) = ?f + n"
    using h assms(3,4) wf(2) by auto
  have cbad: "cbad (cb_free b m) = cbad m" by (simp add: cb_free_def)
  show ?thesis
  proof (cases bs)
    case Nil
    then have span: "?l \<le> b + 16" "?f + n \<le> ?l" "contents p B m = map (c_info m) [?f..<?l]"
      using wf(1) B assms(4) by (auto simp: head_run_def contents_def)
    have nx: "c_next m b = 0" using wf(5) B Nil by simp
    show ?thesis
    proof (cases "?f + n = ?l")
      case True
      have "cround (?f + n) = b" if "?f + n \<noteq> b + 16"
        by (rule cround_in_block) (use wf(3) f fn that in auto)
      then have "ndflush p (int n) m = (p\<lparr>c_cc := 0, c_cf := 0, c_cl := 0\<rparr>, cb_free b m)"
        using guard md nx True span wf(2) by (auto simp: ndflush_def Let_def)
      moreover have "qresult B F m [] (p\<lparr>c_cc := 0, c_cf := 0, c_cl := 0\<rparr>) (cb_free b m)"
        by (rule qresultI [OF _ _ mv])
           (use fchain Nil wf(7) B in \<open>auto simp: contents_def qpool_def qwf_def cb_free_def\<close>)
      ultimately show ?thesis using True span cbad by auto
    next
      case False
      then have less: "?f + n < ?l" using span by simp
      then have "ndflush p (int n) m = (p\<lparr>c_cc := c_cc p - int n, c_cf := ?f + n\<rparr>, m)"
        using guard md span wf(2) by (auto simp: ndflush_def Let_def)
      moreover have "qresult B F m (drop n (contents p B m)) (p\<lparr>c_cc := c_cc p - int n, c_cf := ?f + n\<rparr>) m"
        by (rule qresultI [OF _ _ qmove_refl])
           (use less wf B Nil f span in \<open>auto simp: qpool_def qwf_def contents_def drop_map\<close>)
      ultimately show ?thesis by simp
    qed
  next
    case (Cons b' bs')
    from wf(1) B Cons have span: "qspan (b' + 2) (b' # bs') ?l" by simp
    let ?tail = "qbytes (c_info m) (b' + 2) (b' # bs') ?l"
    have cs: "contents p B m = map (c_info m) [?f..<b + 16] @ ?tail"
      using B Cons by (simp add: contents_def)
    have rest: "0 < length ?tail" using qbytes_ne [OF span] by simp
    have nx: "c_next m b = b'" "b' \<noteq> 0" using wf(5) B Cons by auto
    show ?thesis
    proof (cases "?f + n = b + 16")
      case True
      let ?p = "p\<lparr>c_cc := c_cc p - int n, c_cf := b' + 2\<rparr>"
      have "ndflush p (int n) m = (?p, cb_free b m)"
        using guard md nx True by (simp add: ndflush_def Let_def cb_info_def)
      moreover have "qresult B F m ?tail ?p (cb_free b m)"
        by (rule qresultI [OF _ _ mv])
           (use fchain Cons wf B True cs span bF in \<open>auto simp: contents_def qpool_def qwf_def cb_free_def\<close>)
      moreover have "drop n (contents p B m) = ?tail" using True cs by simp
      ultimately show ?thesis using cbad by simp
    next
      case False
      let ?p = "p\<lparr>c_cc := c_cc p - int n, c_cf := ?f + n\<rparr>"
      have "int n < int (b + 16 - ?f) + int (length ?tail)"
        using rest fn f by linarith
      then have "int n < c_cc p" using cs wf(2) by simp
      then have "ndflush p (int n) m = (?p, m)"
        using guard md False by (simp add: ndflush_def Let_def)
      moreover have "qresult B F m (drop n (contents p B m)) ?p m"
        by (rule qresultI [OF _ _ qmove_refl])
           (use False fn wf B Cons f span in \<open>auto simp: qpool_def qwf_def contents_def drop_map\<close>)
      ultimately show ?thesis by simp
    qed
  qed
qed


subsection \<open>The whole pool\<close>

text \<open>The outcome for a pool of queues: queue \<open>p'\<close> holds \<open>cs\<close>, the other queues hold what
  they held, no block is lost or shared and the priority is what it was.\<close>

definition pool_step :: "nat list \<Rightarrow> nat list \<Rightarrow> (clist \<times> nat list) list \<Rightarrow> clmem \<Rightarrow> u8 list \<Rightarrow> clist \<Rightarrow> clmem \<Rightarrow> bool" where
  "pool_step B F qs m cs p' m' =
     (\<exists>B' F'. contents p' B' m' = cs \<and> pool ((p', B') # qs) F' m' \<and> mset (B' @ F') = mset (B @ F) \<and>
        spl m' = spl m \<and> (\<forall>(q, C) \<in> set qs. contents q C m' = contents q C m))"

lemma pool_qpool: "pool ((p, B) # qs) F m \<Longrightarrow> qpool p B F m"
  by (auto simp: pool_def qpool_def)

lemma qresult_pool:
  assumes "pool ((p, B) # qs) F m" and "qresult B F m cs p' m'"
  shows "pool_step B F qs m cs p' m'"
proof -
  from assms(2) obtain B' F' where r: "contents p' B' m' = cs" "qpool p' B' F' m'" "qmove B F m B' F' m'"
    by (auto simp: qresult_def)
  have d: "distinct (B @ concat (map snd qs) @ F)" and wf: "\<forall>(q, C) \<in> set qs. qwf q C m"
    using assms(1) by (auto simp: pool_def)
  have same: "qwf q C m' \<and> contents q C m' = contents q C m" if q: "(q, C) \<in> set qs" for q C
  proof (rule qwf_frame)
    show "qwf q C m" using wf q by auto
    have out: "b \<notin> set (B @ F)" if "b \<in> set C" for b
      using d q that by (auto simp: disjoint_iff; metis snd_conv)
    have al: "b mod 16 = 0" if "b \<in> set C" for b
    proof -
      have "C \<noteq> []" using that by auto
      then have "chain (c_next m) (hd C) C" using wf q by (auto simp: qwf_def)
      with that show ?thesis using chain_aligned by blast
    qed
    show "c_next m' b = c_next m b" if "b \<in> set C" for b
      using r(3) out [OF that] by (simp add: qmove_def frame_def)
    show "c_info m' a = c_info m a" if "b \<in> set C" "b + 2 \<le> a" "a < b + 16" for a b
    proof -
      have "cround a = b" using al [OF that(1)] that by (intro cround_in_block) auto
      with out [OF that(1)] r(3) show ?thesis by (simp add: qmove_def frame_def)
    qed
  qed
  have ms: "mset (B' @ F') = mset (B @ F)" using r(3) by (simp add: qmove_def)
  then have "mset (B' @ concat (map snd qs) @ F') = mset (B @ concat (map snd qs) @ F)" by simp
  from mset_eq_imp_distinct_iff [OF this] d have "distinct (B' @ concat (map snd qs) @ F')" by blast
  then have "pool ((p', B') # qs) F' m'"
    using r(2) same by (auto simp: pool_def qpool_def)
  with r(1) ms same show ?thesis
    using r(3) unfolding pool_step_def qmove_def by blast
qed

section \<open>The interface: a byte queue\<close>

text \<open>
  What the terminal code relies on. \<open>holds s cs\<close>: the queue in state \<open>s\<close> is well-formed and
  holds \<open>cs\<close>.
\<close>

locale byte_queue =
  fixes get :: "'s \<Rightarrow> int \<times> 's"
    and put :: "u8 \<Rightarrow> 's \<Rightarrow> int \<times> 's"
    and holds :: "'s \<Rightarrow> u8 list \<Rightarrow> bool"
  assumes get_empty: "holds s [] \<Longrightarrow> get s = (- 1, s)"
    and get_first: "holds s (c # cs) \<Longrightarrow> \<exists>t. get s = (uint c, t) \<and> holds t cs"
    and put_last: "holds s cs \<Longrightarrow> (\<exists>t. put c s = (0, t) \<and> holds t (cs @ [c])) \<or> put c s = (- 1, s)"
begin

primrec drain :: "nat \<Rightarrow> 's \<Rightarrow> int list" where
  "drain 0 s = []"
| "drain (Suc n) s = (case get s of (r, t) \<Rightarrow> if r < 0 then [] else r # drain n t)"

primrec fill :: "u8 list \<Rightarrow> 's \<Rightarrow> u8 list \<times> 's" where
  "fill [] s = ([], s)"
| "fill (c # cs) s = (case put c s of (r, t) \<Rightarrow> if r < 0 then (c # cs, t) else fill cs t)"

lemma drain_holds: "holds s cs \<Longrightarrow> drain n s = map uint (take n cs)"
proof (induction n arbitrary: s cs)
  case (Suc n)
  show ?case
  proof (cases cs)
    case Nil
    then show ?thesis using Suc.prems get_empty by simp
  next
    case (Cons c ds)
    with Suc.prems get_first obtain t where t: "get s = (uint c, t)" "holds t ds" by blast
    moreover have "\<not> uint c < 0" by simp
    ultimately show ?thesis using Suc.IH [OF t(2)] Cons by simp
  qed
qed simp

lemma fill_holds: "holds s ds \<Longrightarrow> \<exists>n t. n \<le> length cs \<and> fill cs s = (drop n cs, t) \<and> holds t (ds @ take n cs)"
proof (induction cs arbitrary: s ds)
  case (Cons c cs)
  from put_last [OF Cons.prems, of c] show ?case
  proof
    assume "\<exists>t. put c s = (0, t) \<and> holds t (ds @ [c])"
    then obtain t where t: "put c s = (0, t)" "holds t (ds @ [c])" by blast
    from Cons.IH [OF t(2)] obtain n u where "n \<le> length cs" "fill cs t = (drop n cs, u)"
      "holds u ((ds @ [c]) @ take n cs)" by blast
    with t show ?thesis by (intro exI [of _ "Suc n"]) simp
  next
    assume "put c s = (- 1, s)"
    with Cons.prems show ?thesis by (intro exI [of _ 0]) simp
  qed
qed auto

lemma fifo: "holds s [] \<Longrightarrow> fill cs s = ([], t) \<Longrightarrow> drain (length cs) t = map uint cs"
  using fill_holds [of s "[]" cs] drain_holds by fastforce

end

text \<open>One queue and the storage, as the state of the interface.\<close>

definition cl_holds :: "clist \<times> clmem \<Rightarrow> u8 list \<Rightarrow> bool" where
  "cl_holds s cs = (\<exists>B F. qpool (fst s) B F (snd s) \<and> contents (fst s) B (snd s) = cs)"

definition cl_get :: "clist \<times> clmem \<Rightarrow> int \<times> clist \<times> clmem" where
  "cl_get s = getc (fst s) (snd s)"

definition cl_put :: "u8 \<Rightarrow> clist \<times> clmem \<Rightarrow> int \<times> clist \<times> clmem" where
  "cl_put c s = putc c (fst s) (snd s)"

interpretation clq: byte_queue cl_get cl_put cl_holds
proof unfold_locales
  fix s :: "clist \<times> clmem"
  assume "cl_holds s []"
  then obtain B F where "qpool (fst s) B F (snd s)" "contents (fst s) B (snd s) = []"
    by (auto simp: cl_holds_def)
  with qpool_empty [OF this(1)] show "cl_get s = (- 1, s)"
    using getc_empty [of "fst s" F "snd s"] by (simp add: cl_get_def)
next
  fix s :: "clist \<times> clmem" and c cs
  assume "cl_holds s (c # cs)"
  then obtain B F where q: "qpool (fst s) B F (snd s)" "contents (fst s) B (snd s) = c # cs"
    by (auto simp: cl_holds_def)
  from getc_ok [OF q] show "\<exists>t. cl_get s = (uint c, t) \<and> cl_holds t cs"
    by (auto simp: cl_get_def cl_holds_def qresult_def)
next
  fix s :: "clist \<times> clmem" and c cs
  assume "cl_holds s cs"
  then obtain B F where q: "qpool (fst s) B F (snd s)" "contents (fst s) B (snd s) = cs"
    by (auto simp: cl_holds_def)
  show "(\<exists>t. cl_put c s = (0, t) \<and> cl_holds t (cs @ [c])) \<or> cl_put c s = (- 1, s)"
  proof (cases "put_full (fst s) B F")
    case True
    from putc_full [OF q(1) True] show ?thesis by (simp add: cl_put_def)
  next
    case False
    from putc_ok [OF q(1) False, of c] q(2) show ?thesis
      by (auto simp: cl_put_def cl_holds_def qresult_def)
  qed
qed


subsection \<open>Integers and initialisation\<close>

lemma two_bytes: "(ucast (ucast c :: u8) :: u16) OR push_bit 8 (ucast (ucast (drop_bit 8 c) :: u8)) = (c :: u16)"
  by (rule bit_word_eqI) (auto simp: bit_simps)

lemma getw_ok:
  assumes "qpool p B F m" and "contents p B m = a # b # cs"
  shows "\<exists>p' m'. getw p m = (ucast a OR push_bit 8 (ucast b), p', m') \<and> qresult B F m cs p' m'"
proof -
  have cc: "\<not> c_cc p \<le> 1" using qpool_empty [OF assms(1)] assms(2) by simp
  from getc_ok [OF assms] obtain p1 m1 where g1: "getc p m = (uint a, p1, m1)"
    and "qresult B F m (b # cs) p1 m1" by blast
  then obtain B1 F1 where q1: "contents p1 B1 m1 = b # cs" "qpool p1 B1 F1 m1" "qmove B F m B1 F1 m1"
    by (auto simp: qresult_def)
  from getc_ok [OF q1(2,1)] obtain p2 m2 where g2: "getc p1 m1 = (uint b, p2, m2)"
    and "qresult B1 F1 m1 cs p2 m2" by blast
  with qresult_trans [OF q1(3)] have "qresult B F m cs p2 m2" by blast
  with g1 g2 cc show ?thesis by (simp add: getw_def word_of_int_uint)
qed

lemma putc_room:
  assumes "qpool p B F m" and "F \<noteq> []" and "putc c p m = (0, p', m')"
  shows "cfreelist m' \<noteq> 0 \<or> c_cl p' mod 16 \<noteq> 0"
proof -
  obtain b F' where "F = b # F'" using assms(2) by (cases F) auto
  then have b: "cfreelist m = b" "b \<noteq> 0" "b mod 16 = 0" using assms(1) by (auto simp: qpool_def)
  have "(b + 3) mod 16 = (b mod 16 + 3) mod 16" by (rule mod_add_left_eq [symmetric])
  then have b3: "(b + 3) mod 16 = 3" using b(3) by simp
  consider "c_cl p = 0 \<or> c_cc p < 0 \<or> c_cl p mod 16 = 0" | "c_cl p \<noteq> 0" "\<not> c_cc p < 0" "c_cl p mod 16 \<noteq> 0"
    by blast
  then show ?thesis
  proof cases
    case 1
    then have "c_cl p' = b + 3"
      using b assms(3) by (auto simp: putc_def Let_def cb_info_def split: if_splits)
    with b3 show ?thesis by simp
  next
    case 2
    then have "cfreelist m' = b" using b assms(3) by (auto simp: putc_def Let_def)
    with b show ?thesis by simp
  qed
qed

lemma putw_ok:
  assumes "qpool p B F m" and "F \<noteq> []"
  shows "\<exists>p' m'. putw c p m = (0, p', m') \<and>
    qresult B F m (contents p B m @ [ucast c, ucast (drop_bit 8 c)]) p' m'"
proof -
  let ?m = "m\<lparr>spl := 6\<rparr>"
  have wf: "qpool p B F ?m" using assms(1) by simp
  have free: "cfreelist m \<noteq> 0" using assms by (cases F) (auto simp: qpool_def)
  have "\<not> put_full p B F" using assms(2) by (simp add: put_full_def)
  from putc_ok [OF wf this, of "ucast c"] obtain p1 m1 where one: "putc (ucast c) p ?m = (0, p1, m1)"
    and "qresult B F ?m (contents p B m @ [ucast c]) p1 m1" by auto
  then obtain B1 F1 where q1: "contents p1 B1 m1 = contents p B m @ [ucast c]" "qpool p1 B1 F1 m1"
    "qmove B F ?m B1 F1 m1" by (auto simp: qresult_def)
  have room: "\<not> put_full p1 B1 F1"
  proof
    assume full: "put_full p1 B1 F1"
    have ne: "B1 \<noteq> []" using qpool_empty [OF q1(2)] q1(1) by simp
    from full ne have "F1 = []" "c_cl p1 = last B1 + 16" by (auto simp: put_full_def)
    with q1(2) cl_block_end(1) [OF q1(2) ne] have "cfreelist m1 = 0" "c_cl p1 mod 16 = 0"
      by (auto simp: qpool_def)
    with putc_room [OF wf assms(2) one] show False by simp
  qed
  from putc_ok [OF q1(2) room] obtain p2 m2 where two: "putc (ucast (drop_bit 8 c)) p1 m1 = (0, p2, m2)"
    and "qresult B1 F1 m1 (contents p1 B1 m1 @ [ucast (drop_bit 8 c)]) p2 m2" by blast
  with qresult_trans [OF q1(3)] q1(1)
  have "qresult B F ?m (contents p B m @ [ucast c, ucast (drop_bit 8 c)]) p2 m2" by auto
  from qresult_spl [OF this] one two free show ?thesis
    by (simp add: putw_def Let_def)
qed


lemma cinit_loop_ok:
  "k \<le> n \<Longrightarrow> (\<forall>i < k. cp + 16 * i \<le> lim) \<Longrightarrow> lim < cp + 16 * k \<Longrightarrow> cp mod 16 = 0 \<Longrightarrow> cp \<noteq> 0 \<Longrightarrow>
   chain (c_next m) (cfreelist m) F \<Longrightarrow> \<forall>b \<in> set F. b < cp \<Longrightarrow>
   chain (c_next (cinit_loop n cp lim m)) (cfreelist (cinit_loop n cp lim m))
     (rev (map (\<lambda>i. cp + 16 * i) [0..<k]) @ F)"
proof (induction k arbitrary: n cp m F)
  case 0
  then show ?case by (cases n) auto
next
  case (Suc k)
  then obtain n' where n: "n = Suc n'" by (cases n) auto
  have le: "cp \<le> lim" using Suc.prems(2) by auto
  have ih: "k \<le> n'" "lim < (cp + 16) + 16 * k" "(cp + 16) mod 16 = 0" "cp + 16 \<noteq> 0"
    using Suc.prems n by auto
  have all: "\<forall>i < k. (cp + 16) + 16 * i \<le> lim"
  proof (intro allI impI)
    fix i assume "i < k"
    then have "Suc i < Suc k" by simp
    with Suc.prems(2) have "cp + 16 * Suc i \<le> lim" by blast
    then show "(cp + 16) + 16 * i \<le> lim" by simp
  qed
  have "chain (c_next (cb_free cp m)) (cfreelist (cb_free cp m)) (cp # F)"
    using Suc.prems by (auto simp: cb_free_def)
  moreover have "\<forall>b \<in> set (cp # F). b < cp + 16" using Suc.prems(7) by auto
  ultimately have free: "chain (c_next (cinit_loop n' (cp + 16) lim (cb_free cp m)))
      (cfreelist (cinit_loop n' (cp + 16) lim (cb_free cp m)))
      (rev (map (\<lambda>i. (cp + 16) + 16 * i) [0..<k]) @ cp # F)"
    by (rule Suc.IH [OF ih(1) all ih(2-4)])
  have split: "[0..<Suc k] = 0 # map Suc [0..<k]"
    unfolding map_Suc_upt by (rule upt_conv_Cons) simp
  have "rev (map (\<lambda>i. cp + 16 * i) [0..<Suc k]) @ F = rev (map (\<lambda>i. (cp + 16) + 16 * i) [0..<k]) @ cp # F"
    unfolding split by (simp add: comp_def del: upt_Suc)
  moreover have "cinit_loop n cp lim m = cinit_loop n' (cp + 16) lim (cb_free cp m)"
    using le n by simp
  ultimately show ?case using free by (simp only:)
qed


section \<open>Properties\<close>

definition demo_cl :: clmem where
  "demo_cl = \<lparr>c_next = (\<lambda>_. 0)(16 := 32), c_info = word_of_nat, cfreelist = 48, cbad = 0, spl = 0\<rparr>"

definition demo_q :: clist where
  "demo_q = \<lparr>c_cc = 5, c_cf = 31, c_cl = 38\<rparr>"

definition demo_q2 :: clist where
  "demo_q2 = \<lparr>c_cc = 2, c_cf = 66, c_cl = 68\<rparr>"

lemma demo_pool: "pool ((demo_q, [16, 32]) # [(demo_q2, [64])]) [48] demo_cl"
  by (simp add: pool_def qwf_def demo_cl_def demo_q_def demo_q2_def upt_rec)

lemma demo_contents: "contents demo_q [16, 32] demo_cl = [31, 34, 35, 36, 37]"
  by (simp add: contents_def demo_cl_def demo_q_def upt_rec)

text \<open>
  C25. \<open>getc\<close> returns -1 on an empty queue and changes nothing; otherwise it returns the
  first byte, as a number from 0 to 255, and removes it. Used-up blocks go back to the
  free list, no block is lost, and no other queue is affected.
\<close>

theorem getc_fifo:
  assumes "pool ((p, B) # qs) F m"
  shows "case contents p B m of [] \<Rightarrow> getc p m = (- 1, p, m)
    | c # cs \<Rightarrow> (\<exists>p' m'. getc p m = (uint c, p', m') \<and> pool_step B F qs m cs p' m')"
proof (cases "contents p B m")
  case Nil
  then show ?thesis
    using getc_empty qpool_empty pool_qpool [OF assms] by fastforce
next
  case (Cons c cs)
  then show ?thesis
    using getc_ok [OF pool_qpool [OF assms] Cons] qresult_pool [OF assms] by auto
qed

theorem getc_fifo_witness:
  "case contents demo_q [16, 32] demo_cl of [] \<Rightarrow> getc demo_q demo_cl = (- 1, demo_q, demo_cl)
    | c # cs \<Rightarrow> (\<exists>p' m'. getc demo_q demo_cl = (uint c, p', m') \<and>
                  pool_step [16, 32] [48] [(demo_q2, [64])] demo_cl cs p' m')"
  by (rule getc_fifo [OF demo_pool])

text \<open>
  \<open>putc\<close> appends its byte, or returns -1 and changes nothing; it fails exactly when
  the free list is empty and the queue has no room in its last block.
\<close>

theorem putc_fifo:
  assumes "pool ((p, B) # qs) F m"
  shows "if F = [] \<and> (B = [] \<or> c_cl p = last B + 16) then putc c p m = (- 1, p, m)
    else \<exists>p' m'. putc c p m = (0, p', m') \<and> pool_step B F qs m (contents p B m @ [c]) p' m'"
proof (cases "put_full p B F")
  case True
  with putc_full [OF pool_qpool [OF assms] True] show ?thesis by (simp add: put_full_def)
next
  case False
  from putc_ok [OF pool_qpool [OF assms] False, of c] qresult_pool [OF assms]
  have "\<exists>p' m'. putc c p m = (0, p', m') \<and> pool_step B F qs m (contents p B m @ [c]) p' m'" by blast
  with False show ?thesis by (auto simp: put_full_def)
qed

theorem putc_fifo_witness:
  "if [48] = ([]::nat list) \<and> ([16, 32] = ([]::nat list) \<or> c_cl demo_q = last [16, 32] + 16)
   then putc 65 demo_q demo_cl = (- 1, demo_q, demo_cl)
   else \<exists>p' m'. putc 65 demo_q demo_cl = (0, p', m') \<and>
     pool_step [16, 32] [48] [(demo_q2, [64])] demo_cl (contents demo_q [16, 32] demo_cl @ [65]) p' m'"
  by (rule putc_fifo [OF demo_pool])

text \<open>
  \<open>b_to_q\<close> gives exactly the result of calling \<open>putc\<close> byte after byte until it fails: it
  appends the first \<open>n\<close> bytes and returns how many are left, and when some are left the
  queue can take no further byte at all.
\<close>

theorem b_to_q_iterates_putc:
  assumes "pool ((p, B) # qs) F m"
  shows "\<exists>n p' m'. n \<le> length cs \<and> b_to_q cs p m = (int (length cs - n), p', m') \<and>
    put_all cs p m = (drop n cs, p', m') \<and>
    pool_step B F qs m (contents p B m @ take n cs) p' m' \<and>
    (n < length cs \<longrightarrow> (\<forall>c. putc c p' m' = (- 1, p', m')))"
proof -
  note q = pool_qpool [OF assms]
  have "0 \<le> c_cc p" using qpool_empty [OF q] by simp
  moreover have "cfreelist m mod 16 = 0" using q by (cases F) (auto simp: qpool_def)
  ultimately have "b_to_q cs p m = (case put_all cs p m of (rest, p', m') \<Rightarrow> (int (length rest), p', m'))"
    by (rule b_to_q_put_all)
  moreover from put_all_ok [OF q] obtain n p' m' where "n \<le> length cs" "put_all cs p m = (drop n cs, p', m')"
    "qresult B F m (contents p B m @ take n cs) p' m'" "n < length cs \<longrightarrow> (\<forall>c. putc c p' m' = (- 1, p', m'))"
    by blast
  ultimately show ?thesis using qresult_pool [OF assms] by (intro exI [of _ n]) auto
qed

theorem b_to_q_iterates_putc_witness:
  "\<exists>n p' m'. n \<le> length (replicate 30 (7::u8)) \<and>
    b_to_q (replicate 30 7) demo_q demo_cl = (int (length (replicate 30 (7::u8)) - n), p', m') \<and>
    put_all (replicate 30 7) demo_q demo_cl = (drop n (replicate 30 7), p', m') \<and>
    pool_step [16, 32] [48] [(demo_q2, [64])] demo_cl (contents demo_q [16, 32] demo_cl @ take n (replicate 30 7)) p' m' \<and>
    (n < length (replicate 30 (7::u8)) \<longrightarrow> (\<forall>c. putc c p' m' = (- 1, p', m')))"
  by (rule b_to_q_iterates_putc [OF demo_pool])

text \<open>
  \<open>q_to_b\<close> on a queue that is not empty copies out its first \<open>cc\<close> bytes (all of them when
  there are fewer) and leaves the rest.
\<close>

theorem q_to_b_takes_prefix:
  assumes "pool ((p, B) # qs) F m" and "contents p B m \<noteq> []"
  shows "\<exists>p' m'. q_to_b p cc m = (take (nat cc) (contents p B m), p', m') \<and>
    pool_step B F qs m (drop (nat cc) (contents p B m)) p' m'"
  using q_to_b_ok [OF pool_qpool [OF assms(1)] assms(2)] qresult_pool [OF assms(1)] by blast

theorem q_to_b_takes_prefix_witness:
  "\<exists>p' m'. q_to_b demo_q 3 demo_cl = (take (nat 3) (contents demo_q [16, 32] demo_cl), p', m') \<and>
    pool_step [16, 32] [48] [(demo_q2, [64])] demo_cl (drop (nat 3) (contents demo_q [16, 32] demo_cl)) p' m'"
  by (rule q_to_b_takes_prefix [OF demo_pool]) (simp add: demo_contents)

text \<open>
  \<open>q_to_b\<close> asked for characters of an empty queue returns none, but leaves the processor
  at priority 6: the early return skips the \<open>splx\<close> that every other path executes.
\<close>

theorem q_to_b_empty_keeps_priority_raised:
  assumes "pool ((p, []) # qs) F m" and "0 < cc"
  shows "q_to_b p cc m = ([], p, m\<lparr>spl := 6\<rparr>)"
  using assms by (cases p) (simp add: q_to_b_def pool_def qwf_def)

theorem q_to_b_empty_keeps_priority_raised_witness:
  "q_to_b \<lparr>c_cc = 0, c_cf = 0, c_cl = 0\<rparr> 3 demo_cl = ([], \<lparr>c_cc = 0, c_cf = 0, c_cl = 0\<rparr>, demo_cl\<lparr>spl := 6\<rparr>)"
  by (rule q_to_b_empty_keeps_priority_raised [where qs = "[]" and F = "[48]"])
     (simp_all add: pool_def qwf_def demo_cl_def)

text \<open>
  \<open>ndqb\<close> gives the length of a run of the first bytes that lie one after the other in
  memory, at most one block's worth and at least one byte; flushing any part of that run
  with \<open>ndflush\<close> removes exactly those bytes. This is how the drivers send a queue by DMA.
\<close>

theorem ndqb_ndflush_remove_run:
  assumes "pool ((p, B) # qs) F m" and "B \<noteq> []" and "1 \<le> k" and "k \<le> ndqb p 0 m"
  shows "\<exists>p' m'. ndflush p k m = (p', m') \<and> k \<le> int CBSIZE \<and> nat k \<le> length (contents p B m) \<and>
    take (nat k) (contents p B m) = map (c_info m) [c_cf p..<c_cf p + nat k] \<and>
    pool_step B F qs m (drop (nat k) (contents p B m)) p' m'"
proof -
  note q = pool_qpool [OF assms(1)]
  note h = head_run_ok [OF q assms(2)]
  have k: "0 < nat k" "nat k \<le> head_run p B" "int (nat k) = k" using assms(3,4) h(5) by auto
  from ndflush_ok [OF q assms(2) k(1,2)] k(3) obtain p' m' where
    "ndflush p k m = (p', m')" "qresult B F m (drop (nat k) (contents p B m)) p' m'" by auto
  moreover have "take (nat k) (contents p B m) = map (c_info m) [c_cf p..<c_cf p + nat k]"
    using arg_cong [OF h(4), of "take (nat k)"] k(2) by (simp add: take_map take_upt)
  moreover have "k \<le> int CBSIZE" "nat k \<le> length (contents p B m)" using k h by linarith+
  ultimately show ?thesis using qresult_pool [OF assms(1)] by blast
qed

theorem ndqb_ndflush_remove_run_witness:
  "\<exists>p' m'. ndflush demo_q 1 demo_cl = (p', m') \<and> 1 \<le> int CBSIZE \<and> nat 1 \<le> length (contents demo_q [16, 32] demo_cl) \<and>
    take (nat 1) (contents demo_q [16, 32] demo_cl) = map (c_info demo_cl) [c_cf demo_q..<c_cf demo_q + nat 1] \<and>
    pool_step [16, 32] [48] [(demo_q2, [64])] demo_cl (drop (nat 1) (contents demo_q [16, 32] demo_cl)) p' m'"
  by (rule ndqb_ndflush_remove_run [OF demo_pool])
     (simp_all add: ndqb_def demo_q_def cround_def CBSIZE_def)

text \<open>
  An integer put with \<open>putw\<close> on an empty queue is the integer \<open>getw\<close> returns, all 16
  bits of it, and the queue is empty again.
\<close>

theorem putw_getw_roundtrip:
  assumes "pool ((p, []) # qs) F m" and "F \<noteq> []"
  shows "\<exists>p1 m1 p2 m2. putw c p m = (0, p1, m1) \<and> getw p1 m1 = (c, p2, m2) \<and>
    pool_step [] F qs m [] p2 m2"
proof -
  note q = pool_qpool [OF assms(1)]
  have "contents p [] m = []" by (simp add: contents_def)
  with putw_ok [OF q assms(2), of c] obtain p1 m1 where one: "putw c p m = (0, p1, m1)"
    and "qresult [] F m [ucast c, ucast (drop_bit 8 c)] p1 m1" by auto
  then obtain B1 F1 where q1: "contents p1 B1 m1 = [ucast c, ucast (drop_bit 8 c)]" "qpool p1 B1 F1 m1"
    "qmove [] F m B1 F1 m1" by (auto simp: qresult_def)
  from getw_ok [OF q1(2,1)] obtain p2 m2 where "getw p1 m1 = (c, p2, m2)" "qresult B1 F1 m1 [] p2 m2"
    unfolding two_bytes by blast
  with one qresult_trans [OF q1(3)] qresult_pool [OF assms(1)] show ?thesis by blast
qed

theorem putw_getw_roundtrip_witness:
  "\<exists>p1 m1 p2 m2. putw 0xBEEF \<lparr>c_cc = 0, c_cf = 0, c_cl = 0\<rparr> demo_cl = (0, p1, m1) \<and>
    getw p1 m1 = (0xBEEF, p2, m2) \<and> pool_step [] [48] [] demo_cl [] p2 m2"
  by (rule putw_getw_roundtrip) (simp_all add: pool_def qwf_def demo_cl_def)

text \<open>
  \<open>cinit\<close> puts every whole 16-byte block of the array at \<open>cfree\<close> on the free list, each
  once: 100 blocks when the array is aligned, 99 otherwise.
\<close>

theorem cinit_frees_all:
  assumes "cfreelist m = 0" and "0 < cfree"
  shows "\<exists>F. pool [] F (snd (cinit cfree devs m)) \<and>
    set F = {b. b mod 16 = 0 \<and> cfree \<le> b \<and> b + 16 \<le> cfree + 16 * NCLIST}"
proof -
  let ?cp = "cround (cfree + 15)" and ?k = "if cfree mod 16 = 0 then 100 else (99 :: nat)"
  let ?F = "rev (map (\<lambda>i. ?cp + 16 * i) [0..<?k])"
  have eq: "?cp = (cfree + 15) div 16 * 16" by (simp add: cround_def minus_mod_eq_div_mult)
  have "(cfree + 15) mod 16 < 16" by simp
  with eq have "cfree \<le> ?cp" "?cp < cfree + 16"
    using div_mult_mod_eq [of "cfree + 15" 16] by linarith+
  with eq have cp1: "?cp mod 16 = 0" "cfree \<le> ?cp" "?cp < cfree + 16" by auto
  have "cfree mod 16 = 0 \<longrightarrow> ?cp = cfree"
    by (intro impI cround_in_block) auto
  moreover have "cfree mod 16 \<noteq> 0 \<longrightarrow> cfree < ?cp"
    using cp1 by (cases "cfree = ?cp") auto
  ultimately have cp: "?cp mod 16 = 0" "cfree \<le> ?cp" "?cp < cfree + 16" "cfree mod 16 = 0 \<longrightarrow> ?cp = cfree"
    "cfree mod 16 \<noteq> 0 \<longrightarrow> cfree < ?cp"
    using cp1 by blast+
  have lim: "cfree + 16 * (NCLIST - 1) < ?cp + 16 * ?k" "\<forall>i < ?k. ?cp + 16 * i \<le> cfree + 16 * (NCLIST - 1)"
    using cp by (auto simp: NCLIST_def)
  from cinit_loop_ok [of ?k NCLIST ?cp "cfree + 16 * (NCLIST - 1)" m "[]", OF _ lim(2,1) cp(1)]
  have "chain (c_next (snd (cinit cfree devs m))) (cfreelist (snd (cinit cfree devs m))) ?F"
    using assms cp(2) by (simp add: cinit_def NCLIST_def)
  moreover have "distinct ?F" by (simp add: distinct_map inj_on_def)
  moreover have "set ?F = {b. b mod 16 = 0 \<and> cfree \<le> b \<and> b + 16 \<le> cfree + 16 * NCLIST}"
  proof (intro set_eqI iffI)
    fix b assume "b \<in> set ?F"
    then obtain i where "i < ?k" "b = ?cp + 16 * i" by auto
    moreover from this have "b mod 16 = 0" using cp(1) by (simp add: mod_mult_self2)
    ultimately show "b \<in> {b. b mod 16 = 0 \<and> cfree \<le> b \<and> b + 16 \<le> cfree + 16 * NCLIST}"
      using cp lim(2) by (auto simp: NCLIST_def)
  next
    fix b assume "b \<in> {b. b mod 16 = 0 \<and> cfree \<le> b \<and> b + 16 \<le> cfree + 16 * NCLIST}"
    then have b: "b mod 16 = 0" "cfree \<le> b" "b + 16 \<le> cfree + 1600" by (auto simp: NCLIST_def)
    have le: "?cp \<le> b"
    proof (rule ccontr)
      assume "\<not> ?cp \<le> b"
      then have "cround ?cp = b" using b cp(3) by (intro cround_in_block) auto
      moreover have "cround ?cp = ?cp" using cp(1) by (intro cround_in_block) auto
      ultimately show False using \<open>\<not> ?cp \<le> b\<close> by simp
    qed
    have "16 dvd b - ?cp" using mod_eq_dvd_iff_nat [OF le, of 16] b(1) cp(1) by simp
    then obtain i where "b - ?cp = 16 * i" by (rule dvdE)
    with le have i: "b = ?cp + 16 * i" by simp
    have "i < ?k"
    proof (cases "cfree mod 16 = 0")
      case True
      then show ?thesis using b(3) i cp(4) by simp
    next
      case False
      with cp(5) b(3) i False show ?thesis by simp
    qed
    with i show "b \<in> set ?F" by auto
  qed
  ultimately show ?thesis unfolding pool_def by (intro exI [of _ ?F]) simp
qed

theorem cinit_frees_all_witness:
  "\<exists>F. pool [] F (snd (cinit 1002 [True, True, False] (demo_cl\<lparr>cfreelist := 0\<rparr>))) \<and>
    set F = {b. b mod 16 = 0 \<and> 1002 \<le> b \<and> b + 16 \<le> 1002 + 16 * NCLIST}"
  by (rule cinit_frees_all) simp_all

end
