(* ===== verification/User_IO.thy ===== *)
theory User_IO
  imports V7_Prelude
begin

text \<open>
  Moving bytes between the kernel and the user: \<open>passc\<close> and \<open>cpass\<close> of
  \<open>usr/sys/sys/subr.c\<close>, \<open>iomove\<close>, \<open>max\<close> and \<open>min\<close> of \<open>usr/sys/sys/rdwri.c\<close>. The fields are those of the
  \<open>u\<close> area. \<open>u_mem\<close> is the memory seen through each value of \<open>u_segflg\<close> (0 user data, 1
  kernel, 2 user instructions); an address without access is \<^const>\<open>None\<close>. Only the
  kernel's own space is accessed without a check.
\<close>

section \<open>State and operations\<close>

record uio =
  u_base :: u16
  u_count :: u16
  u_offset :: u32
  u_segflg :: u8
  u_error :: u8
  u_mem :: "u8 \<Rightarrow> u16 \<Rightarrow> u8 option"

definition EFAULT :: u8 where "EFAULT = 14"

definition store :: "u8 \<Rightarrow> u16 \<Rightarrow> u8 \<Rightarrow> 'a uio_scheme \<Rightarrow> 'a uio_scheme" where
  "store seg a c s = s\<lparr>u_mem := (u_mem s)(seg := (u_mem s seg)(a \<mapsto> c))\<rparr>"

text \<open>\<open>u.u_count--; u.u_offset++; u.u_base++\<close>\<close>

definition step1 :: "'a uio_scheme \<Rightarrow> 'a uio_scheme" where
  "step1 s = s\<lparr>u_count := u_count s - 1, u_offset := u_offset s + 1, u_base := u_base s + 1\<rparr>"

definition passc :: "u8 \<Rightarrow> 'a uio_scheme \<Rightarrow> int \<times> 'a uio_scheme" where
  "passc c s =
     (if u_segflg s = 1 \<or> u_mem s (u_segflg s) (u_base s) \<noteq> None
      then let s' = step1 (store (u_segflg s) (u_base s) c s)
           in (if u_count s' = 0 then - 1 else 0, s')
      else (- 1, s\<lparr>u_error := EFAULT\<rparr>))"

definition cpass :: "'a uio_scheme \<Rightarrow> int \<times> 'a uio_scheme" where
  "cpass s =
     (if u_count s = 0 then (- 1, s)
      else case u_mem s (u_segflg s) (u_base s) of
             Some c \<Rightarrow> (uint c, step1 s)
           | None \<Rightarrow> if u_segflg s = 1 then (0, step1 s) else (- 1, s\<lparr>u_error := EFAULT\<rparr>))"

definition umax :: "u16 \<Rightarrow> u16 \<Rightarrow> u16" where
  "umax a b = (if a > b then a else b)"

definition umin :: "u16 \<Rightarrow> u16 \<Rightarrow> u16" where
  "umin a b = (if a < b then a else b)"

text \<open>
  \<open>iomove\<close>. The kernel side is a buffer \<open>buf\<close> that starts at an even address; \<open>cp\<close> is the
  position in it. \<open>copyout\<close> and \<open>copyin\<close> move words until one is not accessible and then
  return -1.
\<close>

fun copyout :: "u8 \<Rightarrow> u16 \<Rightarrow> u8 list \<Rightarrow> 'a uio_scheme \<Rightarrow> int \<times> 'a uio_scheme" where
  "copyout seg a (c # d # cs) s =
     (if u_mem s seg a = None \<or> u_mem s seg (a + 1) = None then (- 1, s)
      else copyout seg (a + 2) cs (store seg (a + 1) d (store seg a c s)))"
| "copyout seg a cs s = (0, s)"

fun copyin :: "u8 \<Rightarrow> u16 \<Rightarrow> nat \<Rightarrow> nat \<Rightarrow> 'a uio_scheme \<Rightarrow> u8 list \<Rightarrow> int \<times> u8 list" where
  "copyin seg a cp (Suc (Suc n)) s buf =
     (case (u_mem s seg a, u_mem s seg (a + 1)) of
        (Some c, Some d) \<Rightarrow> copyin seg (a + 2) (cp + 2) n s (buf[cp := c, cp + 1 := d])
      | _ \<Rightarrow> (- 1, buf))"
| "copyin seg a cp n s buf = (0, buf)"

fun iomove_in :: "nat \<Rightarrow> nat \<Rightarrow> u8 list \<Rightarrow> 'a uio_scheme \<Rightarrow> u8 list \<times> 'a uio_scheme" where
  "iomove_in 0 cp buf s = (buf, s)"
| "iomove_in (Suc n) cp buf s =
     (let (t, s') = cpass s
      in if t < 0 then (buf, s') else iomove_in n (cp + 1) (buf[cp := word_of_int t]) s')"

fun iomove_out :: "nat \<Rightarrow> nat \<Rightarrow> u8 list \<Rightarrow> 'a uio_scheme \<Rightarrow> 'a uio_scheme" where
  "iomove_out 0 cp buf s = s"
| "iomove_out (Suc n) cp buf s =
     (let (t, s') = passc (buf ! cp) s in if t < 0 then s' else iomove_out n (cp + 1) buf s')"

definition iomove :: "bool \<Rightarrow> nat \<Rightarrow> u16 \<Rightarrow> u8 list \<Rightarrow> 'a uio_scheme \<Rightarrow> u8 list \<times> 'a uio_scheme" where
  "iomove b_write cp n buf s =
     (if n = 0 then (buf, s)
      else if u_segflg s \<noteq> 1 \<and> n AND 1 = 0 \<and> even cp \<and> u_base s AND 1 = 0 then
        (let (t, buf', s') =
               (if b_write then (let (t, b) = copyin (u_segflg s) (u_base s) cp (unat n) s buf in (t, b, s))
                else (let (t, s1) = copyout (u_segflg s) (u_base s) (take (unat n) (drop cp buf)) s in (t, buf, s1)))
         in if t \<noteq> 0 then (buf', s'\<lparr>u_error := EFAULT\<rparr>)
            else (buf', s'\<lparr>u_base := u_base s + n, u_offset := u_offset s + ucast n, u_count := u_count s - n\<rparr>))
      else if b_write then iomove_in (unat n) cp buf s
      else (buf, iomove_out (unat n) cp buf s))"

section \<open>The specification: a run of user memory\<close>

text \<open>The state after \<open>n\<close> bytes have been moved, the bytes \<open>bs\<close> being stored at \<open>u_base\<close>.\<close>

definition moved :: "nat \<Rightarrow> 'a uio_scheme \<Rightarrow> 'a uio_scheme" where
  "moved n s = s\<lparr>u_base := u_base s + of_nat n, u_offset := u_offset s + of_nat n, u_count := u_count s - of_nat n\<rparr>"

fun put_mem :: "u16 \<Rightarrow> u8 list \<Rightarrow> (u16 \<Rightarrow> u8 option) \<Rightarrow> u16 \<Rightarrow> u8 option" where
  "put_mem a [] f = f"
| "put_mem a (c # cs) f = put_mem (a + 1) cs (f(a \<mapsto> c))"

definition put_user :: "u8 list \<Rightarrow> 'a uio_scheme \<Rightarrow> 'a uio_scheme" where
  "put_user bs s = s\<lparr>u_mem := (u_mem s)(u_segflg s := put_mem (u_base s) bs (u_mem s (u_segflg s)))\<rparr>"

definition accessible :: "u16 \<Rightarrow> nat \<Rightarrow> 'a uio_scheme \<Rightarrow> bool" where
  "accessible a n s = (\<forall>i < n. u_mem s (u_segflg s) (a + of_nat i) \<noteq> None)"

definition user_bytes :: "u16 \<Rightarrow> nat \<Rightarrow> 'a uio_scheme \<Rightarrow> u8 list" where
  "user_bytes a n s = map (\<lambda>i. the (u_mem s (u_segflg s) (a + of_nat i))) [0..<n]"


lemma moved_0 [simp]: "moved 0 s = s"
  by (simp add: moved_def)

lemma moved_put_Suc:
  "moved (Suc n) (put_user (c # cs) s) = moved n (put_user cs (step1 (store (u_segflg s) (u_base s) c s)))"
  by (simp add: moved_def put_user_def step1_def store_def algebra_simps)

lemma accessible_store:
  "accessible a (Suc n) s \<Longrightarrow> accessible (a + 1) n (step1 (store (u_segflg s) b c s))"
  by (auto simp: accessible_def step1_def store_def add.assoc dest: spec [of _ "Suc i" for i])

lemma iomove_out_ok:
  "cp + n \<le> length buf \<Longrightarrow> n \<le> unat (u_count s) \<Longrightarrow> accessible (u_base s) n s \<Longrightarrow>
   iomove_out n cp buf s = moved n (put_user (take n (drop cp buf)) s)"
proof (induction n arbitrary: cp s)
  case 0
  then show ?case by (simp add: put_user_def)
next
  case (Suc n)
  let ?c = "buf ! cp"
  let ?s = "step1 (store (u_segflg s) (u_base s) ?c s)"
  have take: "take (Suc n) (drop cp buf) = ?c # take n (drop (cp + 1) buf)"
    using Suc.prems(1) by (simp add: take_Suc_conv_app_nth [symmetric] Cons_nth_drop_Suc [symmetric])
  have acc: "u_mem s (u_segflg s) (u_base s) \<noteq> None"
    using Suc.prems(3) by (auto simp: accessible_def dest: spec [of _ 0])
  have cnt: "u_count ?s = u_count s - 1" "u_base ?s = u_base s + 1" by (simp_all add: step1_def store_def)
  have "1 \<le> u_count s" using Suc.prems(2) by (simp add: word_le_nat_alt)
  then have uc: "unat (u_count s - 1) = unat (u_count s) - 1" by (simp add: unat_sub)
  show ?case
  proof (cases "n = 0")
    case True
    then show ?thesis using acc take moved_put_Suc [of 0 ?c "[]" s]
      by (auto simp: passc_def Let_def put_user_def)
  next
    case False
    then have "unat (u_count s - 1) \<noteq> 0" using uc Suc.prems(2) by linarith
    then have "u_count s - 1 \<noteq> 0" by (metis unat_0)
    moreover have "accessible (u_base ?s) n ?s"
      using accessible_store [OF Suc.prems(3)] cnt(2) by simp
    ultimately show ?thesis
      using Suc.IH [of "cp + 1" ?s] Suc.prems(1,2) acc cnt uc take
        moved_put_Suc [of n ?c "take n (drop (cp + 1) buf)" s]
      by (auto simp: passc_def Let_def)
  qed
qed


lemma word_add_2: "a + of_nat (i + 2) = a + 2 + (of_nat i :: u16)"
  by (simp add: algebra_simps)

lemma word_add_1: "a + of_nat (Suc i) = a + 1 + (of_nat i :: u16)"
  by (simp add: algebra_simps)

lemma accessible_nth: "accessible a n s \<Longrightarrow> i < n \<Longrightarrow> u_mem s (u_segflg s) (a + of_nat i) \<noteq> None"
  by (simp add: accessible_def)

lemma copyout_ok:
  "even (length bs) \<Longrightarrow> (\<forall>i < length bs. u_mem s seg (a + of_nat i) \<noteq> None) \<Longrightarrow>
   copyout seg a bs s = (0, s\<lparr>u_mem := (u_mem s)(seg := put_mem a bs (u_mem s seg))\<rparr>)"
proof (induction seg a bs s rule: copyout.induct)
  case (1 seg a c d cs s)
  let ?s = "store seg (a + 1) d (store seg a c s)"
  have acc: "u_mem s seg a \<noteq> None" "u_mem s seg (a + 1) \<noteq> None"
    using "1.prems"(2) by (auto dest: spec [of _ 0] spec [of _ 1])
  have "\<forall>i < length cs. u_mem ?s seg (a + 2 + of_nat i) \<noteq> None"
  proof (intro allI impI)
    fix i assume "i < length cs"
    then have "i + 2 < length (c # d # cs)" by simp
    with "1.prems"(2) have "u_mem s seg (a + of_nat (i + 2)) \<noteq> None" by blast
    then show "u_mem ?s seg (a + 2 + of_nat i) \<noteq> None" unfolding word_add_2 by (simp add: store_def)
  qed
  then have "copyout seg (a + 2) cs ?s = (0, ?s\<lparr>u_mem := (u_mem ?s)(seg := put_mem (a + 2) cs (u_mem ?s seg))\<rparr>)"
    using acc "1.prems"(1) by (intro "1.IH") simp_all
  then show ?case using acc by (simp add: store_def add.assoc, simp only: fun_upd_def)
qed auto

lemma user_bytes_Suc:
  "user_bytes a (Suc n) s = the (u_mem s (u_segflg s) a) # user_bytes (a + 1) n s"
proof -
  have "[0..<Suc n] = 0 # map Suc [0..<n]" by (subst upt_conv_Cons) (simp_all add: map_Suc_upt del: upt_Suc)
  then show ?thesis by (simp add: user_bytes_def comp_def algebra_simps del: upt_Suc)
qed

definition overlay :: "u8 list \<Rightarrow> nat \<Rightarrow> u8 list \<Rightarrow> u8 list" where
  "overlay buf cp bs = take cp buf @ bs @ drop (cp + length bs) buf"

lemma overlay_Nil [simp]: "overlay buf cp [] = buf"
  by (simp add: overlay_def)

lemma overlay_Cons: "cp < length buf \<Longrightarrow> overlay (buf[cp := c]) (cp + 1) cs = overlay buf cp (c # cs)"
  by (simp add: overlay_def take_Suc_conv_app_nth)

lemma length_user_bytes [simp]: "length (user_bytes a n s) = n"
  by (simp add: user_bytes_def)

lemma copyin_ok:
  "even n \<Longrightarrow> cp + n \<le> length buf \<Longrightarrow> seg = u_segflg s \<Longrightarrow> accessible a n s \<Longrightarrow>
   copyin seg a cp n s buf = (0, overlay buf cp (user_bytes a n s))"
proof (induction seg a cp n s buf rule: copyin.induct)
  case (1 seg a cp n s buf)
  from accessible_nth [OF "1.prems"(4), of 0] accessible_nth [OF "1.prems"(4), of 1] "1.prems"(3)
  obtain c d where acc: "u_mem s seg a = Some c" "u_mem s seg (a + 1) = Some d" by auto
  have "accessible (a + 2) n s"
    unfolding accessible_def
  proof (intro allI impI)
    fix i assume "i < n"
    then show "u_mem s (u_segflg s) (a + 2 + of_nat i) \<noteq> None"
      using accessible_nth [OF "1.prems"(4), of "i + 2"] unfolding word_add_2 by simp
  qed
  then have "copyin seg (a + 2) (cp + 2) n s (buf[cp := c, cp + 1 := d]) =
      (0, overlay (buf[cp := c, cp + 1 := d]) (cp + 2) (user_bytes (a + 2) n s))"
    using "1.IH" [OF _ refl] acc "1.prems" by simp
  moreover have "overlay (buf[cp := c, cp + 1 := d]) (cp + 2) xs = overlay buf cp (c # d # xs)" for xs
    using overlay_Cons [of "cp + 1" "buf[cp := c]" d xs] overlay_Cons [of cp buf c "d # xs"] "1.prems"(2) by simp
  moreover have "user_bytes a (Suc (Suc n)) s = c # d # user_bytes (a + 2) n s"
    using acc "1.prems"(3) by (simp add: user_bytes_Suc add.assoc)
  ultimately show ?case using acc by simp
qed (auto simp: user_bytes_def)

lemma iomove_in_ok:
  "cp + n \<le> length buf \<Longrightarrow> n \<le> unat (u_count s) \<Longrightarrow> accessible (u_base s) n s \<Longrightarrow>
   iomove_in n cp buf s = (overlay buf cp (user_bytes (u_base s) n s), moved n s)"
proof (induction n arbitrary: cp buf s)
  case 0
  then show ?case by (simp add: user_bytes_def)
next
  case (Suc n)
  from Suc.prems(3) obtain c where acc: "u_mem s (u_segflg s) (u_base s) = Some c"
    by (auto simp: accessible_def dest: spec [of _ 0])
  have cnt: "u_count s \<noteq> 0" using Suc.prems(2) by auto
  then have "1 \<le> u_count s" using Suc.prems(2) by (simp add: word_le_nat_alt)
  then have uc: "unat (u_count s - 1) = unat (u_count s) - 1" by (simp add: unat_sub)
  have one: "cpass s = (uint c, step1 s)" using cnt acc by (simp add: cpass_def)
  have "accessible (u_base s + 1) n (step1 s)"
    unfolding accessible_def
  proof (intro allI impI)
    fix i assume "i < n"
    then show "u_mem (step1 s) (u_segflg (step1 s)) (u_base s + 1 + of_nat i) \<noteq> None"
      using accessible_nth [OF Suc.prems(3), of "Suc i"] unfolding word_add_1 by (simp add: step1_def)
  qed
  then have "iomove_in n (cp + 1) (buf[cp := c]) (step1 s) =
      (overlay (buf[cp := c]) (cp + 1) (user_bytes (u_base s + 1) n (step1 s)), moved n (step1 s))"
    using Suc.IH [of "cp + 1" "buf[cp := c]" "step1 s"] Suc.prems(1,2) uc by (simp add: step1_def)
  moreover have "user_bytes (u_base s + 1) n (step1 s) = user_bytes (u_base s + 1) n s"
    by (simp add: user_bytes_def step1_def)
  moreover have "moved n (step1 s) = moved (Suc n) s" by (simp add: moved_def step1_def algebra_simps)
  ultimately show ?case
    using one acc Suc.prems(1) overlay_Cons [of cp buf c] by (simp add: user_bytes_Suc word_of_int_uint)
qed


section \<open>Properties\<close>

text \<open>
  \<open>iomove\<close> of \<open>n\<close> bytes, none more than the user asked for and all of them accessible,
  moves exactly these bytes and advances \<open>u_base\<close>, \<open>u_offset\<close> and \<open>u_count\<close> by \<open>n\<close>; whether the
  word-copy path or the byte loop is taken, which depends on alignment, makes no difference.
\<close>

theorem iomove_moves:
  assumes "cp + unat n \<le> length buf" and "unat n \<le> unat (u_count s)" and "accessible (u_base s) (unat n) s"
  shows "iomove b_write cp n buf s =
    (if b_write then (overlay buf cp (user_bytes (u_base s) (unat n) s), moved (unat n) s)
     else (buf, moved (unat n) (put_user (take (unat n) (drop cp buf)) s)))"
proof (cases "n = 0")
  case True
  then show ?thesis by (simp add: iomove_def user_bytes_def put_user_def)
next
  case False
  show ?thesis
  proof (cases "u_segflg s \<noteq> 1 \<and> n AND 1 = 0 \<and> even cp \<and> u_base s AND 1 = 0")
    case True
    then have ev: "even (unat n)" by (simp add: and_1_even)
    have n: "of_nat (unat n) = n" "of_nat (unat n) = (ucast n :: u32)" by simp_all
    have mv: "s'\<lparr>u_base := u_base s + n, u_offset := u_offset s + ucast n, u_count := u_count s - n\<rparr> = moved (unat n) s'"
      if "u_base s' = u_base s" "u_offset s' = u_offset s" "u_count s' = u_count s" for s' :: "'a uio_scheme"
      using that n by (simp add: moved_def)
    have len: "length (take (unat n) (drop cp buf)) = unat n" using assms(1) by simp
    have "copyout (u_segflg s) (u_base s) (take (unat n) (drop cp buf)) s =
        (0, put_user (take (unat n) (drop cp buf)) s)"
      using copyout_ok [of "take (unat n) (drop cp buf)" s "u_segflg s" "u_base s"] ev len assms(3)
      by (simp add: put_user_def accessible_def)
    moreover have "copyin (u_segflg s) (u_base s) cp (unat n) s buf = (0, overlay buf cp (user_bytes (u_base s) (unat n) s))"
      by (rule copyin_ok [OF ev assms(1) refl assms(3)])
    ultimately show ?thesis
      using True False mv [of s] mv [of "put_user (take (unat n) (drop cp buf)) s"]
      by (auto simp: iomove_def put_user_def)
  next
    case slow: False
    then show ?thesis
      using False iomove_in_ok [OF assms] iomove_out_ok [OF assms] by (auto simp: iomove_def)
  qed
qed

definition demo_uio :: uio where
  "demo_uio = \<lparr>u_base = 100, u_count = 4, u_offset = 0, u_segflg = 0, u_error = 0,
     u_mem = (\<lambda>seg a. if a < 200 then Some (ucast a) else None)\<rparr>"

theorem iomove_moves_witness:
  "iomove True 2 4 (replicate 8 0) demo_uio =
    (if True then (overlay (replicate 8 0) 2 (user_bytes (u_base demo_uio) (unat (4::u16)) demo_uio), moved (unat (4::u16)) demo_uio)
     else (replicate 8 0, moved (unat (4::u16)) (put_user (take (unat (4::u16)) (drop 2 (replicate 8 0))) demo_uio)))"
proof (rule iomove_moves)
  have "i = 0 \<or> i = 1 \<or> i = 2 \<or> i = 3" if "i < 4" for i :: nat
    using that by auto
  then show "accessible (u_base demo_uio) (unat (4::u16)) demo_uio"
    by (force simp: accessible_def demo_uio_def)
qed (simp_all add: demo_uio_def)

end
