(* ===== verification/Tty.thy ===== *)
theory Tty
  imports Clist User_IO
begin

text \<open>
  The terminal line discipline of \<open>usr/sys/dev/tty.c\<close>: raw and canonical input queues, erase,
  kill and escape processing, echo, output with delays and column counting, flow
  control, \<open>ttread\<close>, \<open>ttwrite\<close> and \<open>ttioccomm\<close>. The state \<open>tty\<close> holds the fields of
  \<open>struct tty\<close> with the shared character blocks (\<open>clm\<close>) and the fields of the \<open>u\<close> area
  these routines use. A driver is a parameter \<open>d\<close>: its start routine (\<open>t_oproc\<close>) and its
  \<open>d_stop\<close> entry. Calls to other components (\<open>wakeup\<close>, \<open>signal\<close>, the channel routines) are
  recorded in \<open>evs\<close>. A routine that sleeps returns \<open>TSleep\<close>; the process, when woken,
  continues by evaluating the same waiting loop again.
\<close>

section \<open>State\<close>

datatype wchan = C_rawq | C_outq

datatype event = Wakeup wchan | Signal u16 u16 | Sdata u16 | Scontrol u16 u16

record tty = uio +
  t_rawq :: clist
  t_canq :: clist
  t_outq :: clist
  t_chan :: u16
  t_dev :: u16
  t_flags :: u16
  t_state :: u16
  t_pgrp :: u16
  t_delct :: u8
  t_line :: u8
  t_col :: u8
  t_erase :: u8
  t_kill :: u8
  t_char :: u8
  t_ispeed :: u8
  t_ospeed :: u8
  t_intrc :: u8
  t_quitc :: u8
  t_startc :: u8
  t_stopc :: u8
  t_eofc :: u8
  t_brkc :: u8
  clm :: clmem
  evs :: "event list"
  p_pgrp :: u16
  p_pid :: u16
  u_ttyp :: bool
  u_ttyd :: u16
  tk_nin :: u32
  tk_nout :: u32

record driver =
  d_oproc :: "tty \<Rightarrow> tty"
  d_stop :: "tty \<Rightarrow> tty"

datatype 'a tres = TSleep wchan tty | TRet 'a tty | TFault

subsection \<open>Constants of tty.h\<close>

abbreviation "TANDEM \<equiv> 1 :: u16"
abbreviation "CBREAK \<equiv> 2 :: u16"
abbreviation "LCASE \<equiv> 4 :: u16"
abbreviation "ECHO \<equiv> 8 :: u16"
abbreviation "CRMOD \<equiv> 16 :: u16"
abbreviation "RAW \<equiv> 32 :: u16"
abbreviation "TBDELAY \<equiv> 3072 :: u16"
abbreviation "XTABS \<equiv> 3072 :: u16"
abbreviation "VTDELAY \<equiv> 16384 :: u16"
abbreviation "TIMEOUT \<equiv> 1 :: u16"
abbreviation "WOPEN \<equiv> 2 :: u16"
abbreviation "ISOPEN \<equiv> 4 :: u16"
abbreviation "CARR_ON \<equiv> 16 :: u16"
abbreviation "BUSY \<equiv> 32 :: u16"
abbreviation "ASLEEP \<equiv> 64 :: u16"
abbreviation "XCLUDE \<equiv> 128 :: u16"
abbreviation "TTSTOP \<equiv> 256 :: u16"
abbreviation "HUPCLS \<equiv> 512 :: u16"
abbreviation "TBLOCK \<equiv> 1024 :: u16"

definition TTHIWAT :: int where "TTHIWAT = 100"
definition TTYHOG :: int where "TTYHOG = 256"
definition CANBSIZ :: nat where "CANBSIZ = 256"
definition CEOT :: u16 where "CEOT = 4"
definition SIGINT :: u16 where "SIGINT = 2"
definition SIGQUIT :: u16 where "SIGQUIT = 3"

definition maptab :: "u8 list" where
  "maptab =
    [0, 0, 0, 0, 0, 0, 0, 0, 0, 0, 0, 0, 0, 0, 0, 0,
     0, 0, 0, 0, 0, 0, 0, 0, 0, 0, 0, 0, 0, 0, 0, 0,
     0, 124, 0, 0, 0, 0, 0, 96, 123, 125, 0, 0, 0, 0, 0, 0,
     0, 0, 0, 0, 0, 0, 0, 0, 0, 0, 0, 0, 0, 0, 0, 0,
     0, 0, 0, 0, 0, 0, 0, 0, 0, 0, 0, 0, 0, 0, 0, 0,
     0, 0, 0, 0, 0, 0, 0, 0, 0, 0, 0, 0, 0, 0, 126, 0,
     0, 65, 66, 67, 68, 69, 70, 71, 72, 73, 74, 75, 76, 77, 78, 79,
     80, 81, 82, 83, 84, 85, 86, 87, 88, 89, 90, 0, 0, 0, 0, 0]"

definition partab :: "u8 list" where
  "partab =
    [1, 129, 129, 1, 129, 1, 1, 129, 130, 4, 3, 129, 5, 134, 129, 1,
     129, 1, 1, 129, 1, 129, 129, 1, 1, 129, 129, 1, 129, 1, 1, 129,
     128, 0, 0, 128, 0, 128, 128, 0, 0, 128, 128, 0, 128, 0, 0, 128,
     0, 128, 128, 0, 128, 0, 0, 128, 128, 0, 0, 128, 0, 128, 128, 0,
     128, 0, 0, 128, 0, 128, 128, 0, 0, 128, 128, 0, 128, 0, 0, 128,
     0, 128, 128, 0, 128, 0, 0, 128, 128, 0, 0, 128, 0, 128, 128, 0,
     0, 128, 128, 0, 128, 0, 0, 128, 128, 0, 0, 128, 0, 128, 128, 0,
     128, 0, 0, 128, 0, 128, 128, 0, 0, 128, 128, 0, 128, 0, 0, 129]"

subsection \<open>Shorthand: flags, states, the log and the queues\<close>

definition fl :: "tty \<Rightarrow> u16 \<Rightarrow> bool" where "fl s b = (t_flags s AND b \<noteq> 0)"
definition st :: "tty \<Rightarrow> u16 \<Rightarrow> bool" where "st s b = (t_state s AND b \<noteq> 0)"
definition set_st :: "u16 \<Rightarrow> tty \<Rightarrow> tty" where "set_st b s = s\<lparr>t_state := t_state s OR b\<rparr>"
definition clr_st :: "u16 \<Rightarrow> tty \<Rightarrow> tty" where "clr_st b s = s\<lparr>t_state := t_state s AND NOT b\<rparr>"
definition log_ev :: "event \<Rightarrow> tty \<Rightarrow> tty" where "log_ev e s = s\<lparr>evs := evs s @ [e]\<rparr>"

text \<open>A character of type \<open>char\<close> compared with an \<open>int\<close> is sign-extended.\<close>

definition is_char :: "u16 \<Rightarrow> u8 \<Rightarrow> bool" where "is_char c ch = (c = scast ch)"

definition getc_raw :: "tty \<Rightarrow> int \<times> tty" where
  "getc_raw s = (let (c, q, m) = getc (t_rawq s) (clm s) in (c, s\<lparr>t_rawq := q, clm := m\<rparr>))"
definition getc_can :: "tty \<Rightarrow> int \<times> tty" where
  "getc_can s = (let (c, q, m) = getc (t_canq s) (clm s) in (c, s\<lparr>t_canq := q, clm := m\<rparr>))"
definition getc_out :: "tty \<Rightarrow> int \<times> tty" where
  "getc_out s = (let (c, q, m) = getc (t_outq s) (clm s) in (c, s\<lparr>t_outq := q, clm := m\<rparr>))"
definition putc_raw :: "u16 \<Rightarrow> tty \<Rightarrow> int \<times> tty" where
  "putc_raw c s = (let (r, q, m) = putc (ucast c) (t_rawq s) (clm s) in (r, s\<lparr>t_rawq := q, clm := m\<rparr>))"
definition putc_out :: "u16 \<Rightarrow> tty \<Rightarrow> int \<times> tty" where
  "putc_out c s = (let (r, q, m) = putc (ucast c) (t_outq s) (clm s) in (r, s\<lparr>t_outq := q, clm := m\<rparr>))"

section \<open>Operations\<close>

definition ttyopen :: "u16 \<Rightarrow> tty \<Rightarrow> tty" where
  "ttyopen dev s0 =
     (let s = s0\<lparr>t_dev := dev\<rparr>;
          s = (if p_pgrp s = 0 then
                 (let s = s\<lparr>u_ttyp := True, u_ttyd := dev\<rparr>;
                      s = (if t_pgrp s = 0 then s\<lparr>t_pgrp := p_pid s\<rparr> else s)
                  in s\<lparr>p_pgrp := t_pgrp s\<rparr>)
               else s)
      in set_st ISOPEN (clr_st WOPEN s))"

definition ttychars :: "tty \<Rightarrow> tty" where
  "ttychars s = s\<lparr>t_intrc := 127, t_quitc := 28, t_startc := 17, t_stopc := 19, t_eofc := 4, t_brkc := 255,
     t_erase := 35, t_kill := 64\<rparr>"

text \<open>\<open>while (getc(q) >= 0);\<close> with as many turns as the queue has characters, and one.\<close>

fun drain_with :: "(tty \<Rightarrow> int \<times> tty) \<Rightarrow> nat \<Rightarrow> tty \<Rightarrow> tty" where
  "drain_with g 0 s = s"
| "drain_with g (Suc n) s = (let (c, s') = g s in if c \<ge> 0 then drain_with g n s' else s')"

definition flushtty :: "driver \<Rightarrow> tty \<Rightarrow> tty" where
  "flushtty d s0 =
     (let s = drain_with getc_can (Suc (nat (c_cc (t_canq s0)))) s0;
          s = log_ev (Wakeup C_outq) (log_ev (Wakeup C_rawq) s);
          s = d_stop d (clr_st TTSTOP s);
          s = drain_with getc_out (Suc (nat (c_cc (t_outq s)))) s;
          s = drain_with getc_raw (Suc (nat (c_cc (t_rawq s)))) s
      in s\<lparr>t_delct := 0\<rparr>)"

definition wflushtty :: "driver \<Rightarrow> tty \<Rightarrow> unit tres" where
  "wflushtty d s =
     (if c_cc (t_outq s) \<noteq> 0 \<and> st s CARR_ON
      then TSleep C_outq (set_st ASLEEP (d_oproc d s))
      else TRet () (flushtty d s))"

definition ttyclose :: "driver \<Rightarrow> tty \<Rightarrow> unit tres" where
  "ttyclose d s =
     (case wflushtty d (s\<lparr>t_pgrp := 0\<rparr>) of
        TRet _ s' \<Rightarrow> TRet () (s'\<lparr>t_state := 0\<rparr>)
      | r \<Rightarrow> r)"

definition ttstart :: "driver \<Rightarrow> tty \<Rightarrow> tty" where
  "ttstart d s = (if t_state s AND (TIMEOUT OR TTSTOP OR BUSY) = 0 then d_oproc d s else s)"

definition ttrstrt :: "driver \<Rightarrow> tty \<Rightarrow> tty" where
  "ttrstrt d s = ttstart d (clr_st TIMEOUT s)"


subsection \<open>Output\<close>

text \<open>The table \<open>colp\<close> of the upper-case-only escapes, and the search for \<open>c\<close> in it.\<close>

definition lc_escape :: "u16 \<Rightarrow> u16 option" where
  "lc_escape c = map_of [(123, 40), (125, 41), (124, 33), (126, 94), (96, 39)] c"

definition lc_upper :: "u16 \<Rightarrow> u16" where
  "lc_upper c = (if 97 \<le> c \<and> c \<le> 122 then c - 32 else c)"

text \<open>The switch on \<open>partab[c] & 077\<close>: the new column and the delay.\<close>

definition out_delay :: "u16 \<Rightarrow> u16 \<Rightarrow> u8 \<Rightarrow> u8 \<times> u16" where
  "out_delay flags ctype col =
     (if ctype = 0 then (col + 1, 0)
      else if ctype = 1 then (col, 0)
      else if ctype = 2 then (if col \<noteq> 0 then col - 1 else col, 0)
      else if ctype = 3 then
        (0, if drop_bit 8 flags AND 3 = 1 then
              (if col \<noteq> 0 then umax (drop_bit 4 (scast col) + 3) 6 else 0)
            else if drop_bit 8 flags AND 3 = 2 then 6 else 0)
      else if ctype = 4 then
        ((col OR 7) + 1,
         if drop_bit 10 flags AND 3 = 1 then
           (let c = 1 - (scast col OR NOT 7) in if sint c < 5 then 0 else c)
         else 0)
      else if ctype = 5 then (col, if flags AND VTDELAY \<noteq> 0 then 127 else 0)
      else if ctype = 6 then
        (0, if drop_bit 12 flags AND 3 = 1 then 5
            else if drop_bit 12 flags AND 3 = 2 then 10 else 0)
      else (col, 0))"

text \<open>The end of \<open>ttyoutput\<close>: the character itself, then its delay as a character above 0200.\<close>

definition out_char :: "u16 \<Rightarrow> tty \<Rightarrow> tty" where
  "out_char c s0 =
     (let (_, s) = putc_out c s0;
          (col, delay) = out_delay (t_flags s) (ucast (partab ! unat c) AND 63) (t_col s);
          s = s\<lparr>t_col := col\<rparr>
      in if delay \<noteq> 0 then snd (putc_out (delay OR 128) s) else s)"

text \<open>The \<open>do ... while (--c >= 0 && tp->t_col&07)\<close> of the tab expansion, from \<open>c = k\<close> on.\<close>

fun tab_loop :: "nat \<Rightarrow> (tty \<Rightarrow> tty) \<Rightarrow> tty \<Rightarrow> tty" where
  "tab_loop 0 f s = f s"
| "tab_loop (Suc k) f s = (let s' = f s in if t_col s' AND 7 \<noteq> 0 then tab_loop k f s' else s')"

text \<open>
  \<open>ttyoutput\<close> calls itself for the blanks of a tab, the escape character and the carriage
  return before a newline; the first argument bounds the depth.
\<close>

fun ttyout :: "nat \<Rightarrow> u16 \<Rightarrow> tty \<Rightarrow> tty" where
  "ttyout 0 c s = s"
| "ttyout (Suc n) c s0 =
     (let s = s0\<lparr>tk_nout := tk_nout s0 + 1\<rparr> in
      if fl s RAW then snd (putc_out c s)
      else let c = c AND 127 in
      if c = CEOT then s
      else if c = 9 \<and> t_flags s AND TBDELAY = XTABS then tab_loop 8 (ttyout n 32) s
      else
        let (c, s) = (if fl s LCASE then
                        (case lc_escape c of
                           Some c' \<Rightarrow> (lc_upper c', ttyout n 92 s)
                         | None \<Rightarrow> (lc_upper c, s))
                      else (c, s));
            s = (if c = 10 \<and> fl s CRMOD then ttyout n 13 s else s)
        in out_char c s)"

definition ttyoutput :: "u16 \<Rightarrow> tty \<Rightarrow> tty" where
  "ttyoutput c s = ttyout 2 c s"

subsection \<open>Input\<close>

definition ttyblock :: "driver \<Rightarrow> tty \<Rightarrow> tty" where
  "ttyblock d s0 =
     (let x = c_cc (t_rawq s0) + c_cc (t_canq s0);
          s = (if c_cc (t_rawq s0) > TTYHOG then clr_st TBLOCK (flushtty d s0) else s0)
      in if x \<ge> TTYHOG div 2 then
           (let (r, s) = putc_out (scast (t_stopc s)) s
            in if r = 0 then ttstart d (let s = set_st TBLOCK s in s\<lparr>t_char := t_char s + 1\<rparr>) else s)
         else s)"

text \<open>The rest of \<open>ttyinput\<close> once \<open>c\<close> is to be entered into the raw queue.\<close>

definition enter_char :: "driver \<Rightarrow> u16 \<Rightarrow> tty \<Rightarrow> tty" where
  "enter_char d c0 s0 =
     (if c_cc (t_rawq s0) > TTYHOG then flushtty d s0
      else
        let c = (if fl s0 LCASE \<and> 65 \<le> c0 \<and> c0 \<le> 90 then c0 + 32 else c0);
            s = snd (putc_raw c s0);
            cooked = (t_flags s AND (RAW OR CBREAK) = 0);
            s = (if \<not> cooked \<or> c = 10 \<or> is_char c (t_eofc s) \<or> is_char c (t_brkc s) then
                   (let s = (if cooked then
                               (let (r, s') = putc_raw 255 s
                                in if r = 0 then s'\<lparr>t_delct := t_delct s' + 1\<rparr> else s')
                             else s)
                    in if t_chan s \<noteq> 0 then log_ev (Sdata (t_chan s)) s else log_ev (Wakeup C_rawq) s)
                 else s)
        in if fl s ECHO then
             (let s = ttyoutput c s;
                  s = (if is_char c (t_kill s) \<and> cooked then ttyoutput 10 s else s)
              in ttstart d s)
           else s)"

definition ttyinput :: "driver \<Rightarrow> u16 \<Rightarrow> tty \<Rightarrow> tty" where
  "ttyinput d c0 s0 =
     (let s = s0\<lparr>tk_nin := tk_nin s0 + 1\<rparr>;
          c = c0 AND 255;
          s = (if fl s TANDEM then ttyblock d s else s)
      in if fl s RAW then enter_char d c s
         else let c = c AND 127 in
           if st s TTSTOP \<and> is_char c (t_startc s) then ttstart d (clr_st TTSTOP s)
           else if st s TTSTOP \<and> is_char c (t_stopc s) then s
           else if \<not> st s TTSTOP \<and> is_char c (t_stopc s) then d_stop d (set_st TTSTOP s)
           else if \<not> st s TTSTOP \<and> is_char c (t_startc s) then s
           else let s = (if st s TTSTOP then ttstart d (clr_st TTSTOP s) else s) in
             if is_char c (t_quitc s) \<or> is_char c (t_intrc s) then
               (let s = flushtty d s;
                    sig = (if is_char c (t_intrc s) then SIGINT else SIGQUIT)
                in if t_chan s \<noteq> 0 then log_ev (Scontrol (t_chan s) sig) s
                   else log_ev (Signal (t_pgrp s) sig) s)
             else enter_char d (if c = 13 \<and> fl s CRMOD then 10 else c) s)"

fun input_all :: "driver \<Rightarrow> u8 list \<Rightarrow> tty \<Rightarrow> tty" where
  "input_all d [] s = s"
| "input_all d (c # cs) s = input_all d cs (ttyinput d (scast c) s)"

definition ttyrend :: "driver \<Rightarrow> u8 list \<Rightarrow> tty \<Rightarrow> tty" where
  "ttyrend d pb s0 =
     (let tandem = t_flags s0 AND TANDEM;
          s = (if fl s0 RAW then
                 (let (_, q, m) = b_to_q pb (t_rawq s0) (clm s0);
                      s = s0\<lparr>t_rawq := q, clm := m\<rparr>
                  in if t_chan s \<noteq> 0 then log_ev (Sdata (t_chan s)) s else log_ev (Wakeup C_rawq) s)
               else
                 (let s = input_all d pb (s0\<lparr>t_flags := t_flags s0 AND NOT TANDEM\<rparr>)
                  in s\<lparr>t_flags := t_flags s OR tandem\<rparr>))
      in if tandem \<noteq> 0 then ttyblock d s else s)"

text \<open>
  \<open>canon\<close>: the waiting loop, then the transfer from the raw queue to \<open>canonb\<close>, of which \<open>l\<close>
  are the characters from \<open>canonb[2]\<close> to \<open>bp\<close>, last first (\<open>canonb[0]\<close> and \<open>canonb[1]\<close> are 0).
  A character above 0177 has no entry in \<open>maptab\<close>: the read leaves the table.
\<close>

definition bp1 :: "u8 list \<Rightarrow> u8" where "bp1 l = (case l of [] \<Rightarrow> 0 | c # _ \<Rightarrow> c)"
definition bp2 :: "u8 list \<Rightarrow> u8" where "bp2 l = (case l of _ # c # _ \<Rightarrow> c | _ \<Rightarrow> 0)"

definition canon_esc :: "tty \<Rightarrow> u16 \<Rightarrow> u8 list \<Rightarrow> (u16 \<times> u8 list) option" where
  "canon_esc s c l =
     (if unat c \<ge> length maptab then None
      else let mc = (if is_char c (t_erase s) \<or> is_char c (t_kill s) then c else scast (maptab ! unat c))
      in if mc \<noteq> 0 \<and> (mc = c \<or> fl s LCASE)
         then Some (if bp2 l \<noteq> 92 then mc else c, tl l)
         else Some (c, l))"

fun canon_loop :: "nat \<Rightarrow> tty \<Rightarrow> u8 list \<Rightarrow> (u8 list \<times> tty) option" where
  "canon_loop 0 s l = None"
| "canon_loop (Suc n) s0 l =
     (let (r, s) = getc_raw s0;
          c = word_of_int r :: u16;
          put = (\<lambda>c l. let l' = ucast c # l in
                  if length l' + 2 \<ge> CANBSIZ then Some (l', s) else canon_loop n s l')
      in if r < 0 then Some (l, s)
         else if t_flags s AND (RAW OR CBREAK) = 0 then
           (if c = 255 then Some (l, s\<lparr>t_delct := t_delct s - 1\<rparr>)
            else if bp1 l \<noteq> 92 then
              (if is_char c (t_erase s) then canon_loop n s (tl l)
               else if is_char c (t_kill s) then canon_loop n s []
               else if is_char c (t_eofc s) then canon_loop n s l
               else put c l)
            else (case canon_esc s c l of None \<Rightarrow> None | Some (c', l') \<Rightarrow> put c' l'))
         else put c l)"

definition canon :: "driver \<Rightarrow> tty \<Rightarrow> nat tres" where
  "canon d s0 =
     (if (t_flags s0 AND (RAW OR CBREAK) = 0 \<and> t_delct s0 = 0) \<or>
         (t_flags s0 AND (RAW OR CBREAK) \<noteq> 0 \<and> c_cc (t_rawq s0) = 0)
      then (if \<not> st s0 CARR_ON \<or> t_chan s0 \<noteq> 0 then TRet 0 s0 else TSleep C_rawq s0)
      else case canon_loop (Suc (nat (c_cc (t_rawq s0)))) s0 [] of
        None \<Rightarrow> TFault
      | Some (l, s) \<Rightarrow>
          (let (_, q, m) = b_to_q (rev l) (t_canq s) (clm s);
               s = s\<lparr>t_canq := q, clm := m\<rparr>;
               s = (if st s TBLOCK \<and> c_cc (t_rawq s) < TTYHOG div 5 then
                      (let (r, s) = putc_out (scast (t_startc s)) s;
                           s = (if r = 0 then ttstart d (clr_st TBLOCK s) else s)
                       in s\<lparr>t_char := 0\<rparr>)
                    else s)
           in TRet (length l) s))"

subsection \<open>Reading, writing and control\<close>

fun copy_can :: "nat \<Rightarrow> tty \<Rightarrow> tty" where
  "copy_can 0 s = s"
| "copy_can (Suc n) s =
     (if c_cc (t_canq s) = 0 then s
      else let (c, s1) = getc_can s; (r, s2) = passc (word_of_int c) s1
           in if r \<ge> 0 then copy_can n s2 else s2)"

definition ttread :: "driver \<Rightarrow> tty \<Rightarrow> int tres" where
  "ttread d s =
     (let finish = (\<lambda>s. TRet (c_cc (t_rawq s) + c_cc (t_canq s)) s);
          copy = (\<lambda>s. finish (copy_can (Suc (nat (c_cc (t_canq s)))) s))
      in if \<not> st s CARR_ON then TRet 0 s
         else if c_cc (t_canq s) \<noteq> 0 then copy s
         else case canon d s of
                TRet n s' \<Rightarrow> if n \<noteq> 0 then copy s' else finish s'
              | TSleep c s' \<Rightarrow> TSleep c s'
              | TFault \<Rightarrow> TFault)"

fun ttwrite_loop :: "nat \<Rightarrow> driver \<Rightarrow> tty \<Rightarrow> wchan option tres" where
  "ttwrite_loop 0 d s = TFault"
| "ttwrite_loop (Suc n) d s =
     (if u_count s = 0 then TRet None (ttstart d s)
      else if c_cc (t_outq s) > TTHIWAT then
        (let s = set_st ASLEEP (ttstart d s)
         in if t_chan s \<noteq> 0 then TRet (Some C_outq) s else TSleep C_outq s)
      else let (c, s) = cpass s
           in if c < 0 then TRet None (ttstart d s)
              else ttwrite_loop n d (ttyoutput (word_of_int c) s))"

definition ttwrite :: "driver \<Rightarrow> tty \<Rightarrow> wchan option tres" where
  "ttwrite d s = (if \<not> st s CARR_ON then TRet None s else ttwrite_loop (Suc (unat (u_count s))) d s)"


text \<open>
  \<open>ttioccomm\<close>. The line disciplines (\<open>linesw\<close>, configured per system) are parameters. The
  argument structures are copied to and from the user's data space as their bytes; a copy
  to or from an odd address faults, as any access by words does.
\<close>

record linesw =
  nldisp :: u16
  l_open :: "u16 \<Rightarrow> u16 \<Rightarrow> tty \<Rightarrow> tty"
  l_close :: "u8 \<Rightarrow> tty \<Rightarrow> tty"
  l_ioctl :: "u8 \<Rightarrow> u16 \<Rightarrow> u16 \<Rightarrow> tty \<Rightarrow> tty"

definition user_in :: "u16 \<Rightarrow> nat \<Rightarrow> tty \<Rightarrow> u8 list option" where
  "user_in a n s =
     (if odd (unat a) then None
      else case copyin 0 a 0 n s (replicate n 0) of (t, bs) \<Rightarrow> if t = 0 then Some bs else None)"

definition user_out :: "u16 \<Rightarrow> u8 list \<Rightarrow> tty \<Rightarrow> tty" where
  "user_out a bs s =
     (if odd (unat a) then s\<lparr>u_error := EFAULT\<rparr>
      else case copyout 0 a bs s of (t, s') \<Rightarrow> if t = 0 then s' else s'\<lparr>u_error := EFAULT\<rparr>)"

definition word_bytes :: "u16 \<Rightarrow> u8 list" where
  "word_bytes w = [ucast w, ucast (drop_bit 8 w)]"

definition bytes_word :: "u8 \<Rightarrow> u8 \<Rightarrow> u16" where
  "bytes_word lo hi = ucast lo OR push_bit 8 (ucast hi)"

definition set_params :: "u16 \<Rightarrow> tty \<Rightarrow> int tres" where
  "set_params addr s =
     (case user_in addr 6 s of
        Some [isp, osp, er, ki, f0, f1] \<Rightarrow>
          TRet 1 (s\<lparr>t_ispeed := isp, t_ospeed := osp, t_erase := er, t_kill := ki, t_flags := bytes_word f0 f1\<rparr>)
      | _ \<Rightarrow> TRet 1 (s\<lparr>u_error := EFAULT\<rparr>))"

definition ttioccomm :: "driver \<Rightarrow> linesw \<Rightarrow> u16 \<Rightarrow> u16 \<Rightarrow> u16 \<Rightarrow> tty \<Rightarrow> int tres" where
  "ttioccomm d lsw com addr dev s =
     (if com = 0x7400 then TRet 1 (user_out addr (word_bytes (scast (t_line s))) s)
      else if com = 0x7401 then
        (case user_in addr 2 s of
           Some [lo, hi] \<Rightarrow>
             (let t = bytes_word lo hi in
              if t \<ge> nldisp lsw then TRet 1 (s\<lparr>u_error := 6\<rparr>)
              else let s = (if t_line s \<noteq> 0 then l_close lsw (t_line s) s else s);
                       s = (if t \<noteq> 0 then l_open lsw t addr s else s)
                   in TRet 1 (if u_error s = 0 then s\<lparr>t_line := ucast t\<rparr> else s))
         | _ \<Rightarrow> TRet 1 (s\<lparr>u_error := EFAULT\<rparr>))
      else if com = 0x740D then TRet 1 (set_st XCLUDE s)
      else if com = 0x740E then TRet 1 (clr_st XCLUDE s)
      else if com = 0x7409 then
        (case wflushtty d s of TRet _ s' \<Rightarrow> set_params addr s' | TSleep c s' \<Rightarrow> TSleep c s' | TFault \<Rightarrow> TFault)
      else if com = 0x740A then set_params addr s
      else if com = 0x7408 then
        TRet 1 (user_out addr ([t_ispeed s, t_ospeed s, t_erase s, t_kill s] @ word_bytes (t_flags s)) s)
      else if com = 0x7402 then TRet 1 (set_st HUPCLS s)
      else if com = 0x7410 then TRet 1 (flushtty d s)
      else if com = 0x6409 \<or> com = 0x6408 then TRet 1 (l_ioctl lsw (t_line s) com addr s)
      else if com = 0x7411 then
        (case user_in addr 6 s of
           Some [i, q, sa, so, e, b] \<Rightarrow>
             TRet 1 (s\<lparr>t_intrc := i, t_quitc := q, t_startc := sa, t_stopc := so, t_eofc := e, t_brkc := b\<rparr>)
         | _ \<Rightarrow> TRet 1 (s\<lparr>u_error := EFAULT\<rparr>))
      else if com = 0x7412 then
        TRet 1 (user_out addr [t_intrc s, t_quitc s, t_startc s, t_stopc s, t_eofc s, t_brkc s] s)
      else TRet 0 s)"

section \<open>The three queues and what they hold\<close>

text \<open>The queues of a terminal within the pool of all queues (\<open>qs\<close> the others).\<close>

definition holds :: "(clist \<times> nat list) list \<Rightarrow> tty \<Rightarrow> u8 list \<Rightarrow> u8 list \<Rightarrow> u8 list \<Rightarrow> bool" where
  "holds qs s raw can out =
     (\<exists>R C D F. pool ((t_rawq s, R) # (t_canq s, C) # (t_outq s, D) # qs) F (clm s) \<and>
        contents (t_rawq s) R (clm s) = raw \<and> contents (t_canq s) C (clm s) = can \<and>
        contents (t_outq s) D (clm s) = out)"


lemma pool_mset: "mset qs = mset qs' \<Longrightarrow> pool qs F m = pool qs' F m"
proof -
  assume eq: "mset qs = mset qs'"
  then have "set qs = set qs'" by (rule mset_eq_setD)
  moreover have "mset (concat (map snd qs) @ F) = mset (concat (map snd qs') @ F)"
    using arg_cong [OF eq, of "\<lambda>M. \<Sum>\<^sub># (image_mset (\<lambda>q. mset (snd q)) M)"]
    by (simp add: mset_concat comp_def flip: sum_mset_sum_list mset_map)
  from mset_eq_imp_distinct_iff [OF this]
  have "distinct (concat (map snd qs) @ F) = distinct (concat (map snd qs') @ F)" .
  ultimately show ?thesis by (simp only: pool_def)
qed

lemma holds_cc:
  "holds qs s raw can out \<Longrightarrow> c_cc (t_rawq s) = int (length raw) \<and> c_cc (t_canq s) = int (length can) \<and>
     c_cc (t_outq s) = int (length out)"
  unfolding holds_def pool_def by (auto dest!: qwf_empty)

lemma holds_upd:
  "holds qs s raw can out \<Longrightarrow> t_rawq s' = t_rawq s \<Longrightarrow> t_canq s' = t_canq s \<Longrightarrow> t_outq s' = t_outq s \<Longrightarrow>
   clm s' = clm s \<Longrightarrow> holds qs s' raw can out"
  by (simp add: holds_def)

text \<open>One queue of the three at a time, the other two among the others.\<close>

lemma holds_raw:
  assumes "holds qs s raw can out"
  obtains R C D F where "pool ((t_rawq s, R) # (t_canq s, C) # (t_outq s, D) # qs) F (clm s)"
    and "contents (t_rawq s) R (clm s) = raw"
    and "\<And>cs q m. pool_step R F ((t_canq s, C) # (t_outq s, D) # qs) (clm s) cs q m \<Longrightarrow>
           holds qs (s\<lparr>t_rawq := q, clm := m\<rparr>) cs can out"
proof -
  from assms obtain R C D F where p: "pool ((t_rawq s, R) # (t_canq s, C) # (t_outq s, D) # qs) F (clm s)"
    "contents (t_rawq s) R (clm s) = raw" "contents (t_canq s) C (clm s) = can"
    "contents (t_outq s) D (clm s) = out" by (auto simp: holds_def)
  show ?thesis
  proof (rule that [OF p(1,2)])
    fix cs q m
    assume "pool_step R F ((t_canq s, C) # (t_outq s, D) # qs) (clm s) cs q m"
    then obtain R' F' where n: "contents q R' m = cs" "pool ((q, R') # (t_canq s, C) # (t_outq s, D) # qs) F' m"
      and "\<And>q' B. (q', B) \<in> set ((t_canq s, C) # (t_outq s, D) # qs) \<Longrightarrow> contents q' B m = contents q' B (clm s)"
      unfolding pool_step_def by blast
    then have "contents (t_canq s) C m = can" "contents (t_outq s) D m = out" using p(3,4) by simp_all
    with n show "holds qs (s\<lparr>t_rawq := q, clm := m\<rparr>) cs can out" by (auto simp: holds_def)
  qed
qed

lemma holds_can:
  assumes "holds qs s raw can out"
  obtains R C D F where "pool ((t_canq s, C) # (t_rawq s, R) # (t_outq s, D) # qs) F (clm s)"
    and "contents (t_canq s) C (clm s) = can"
    and "\<And>cs q m. pool_step C F ((t_rawq s, R) # (t_outq s, D) # qs) (clm s) cs q m \<Longrightarrow>
           holds qs (s\<lparr>t_canq := q, clm := m\<rparr>) raw cs out"
proof -
  from assms obtain R C D F where p: "pool ((t_rawq s, R) # (t_canq s, C) # (t_outq s, D) # qs) F (clm s)"
    "contents (t_rawq s) R (clm s) = raw" "contents (t_canq s) C (clm s) = can"
    "contents (t_outq s) D (clm s) = out" by (auto simp: holds_def)
  have perm: "pool ((q, C) # (r, R) # w # qs) F m = pool ((r, R) # (q, C) # w # qs) F m" for q C r R w F m
    by (rule pool_mset) simp
  show ?thesis
  proof (rule that)
    show "pool ((t_canq s, C) # (t_rawq s, R) # (t_outq s, D) # qs) F (clm s)" by (rule iffD2 [OF perm p(1)])
    show "contents (t_canq s) C (clm s) = can" by (rule p(3))
    fix cs q m
    assume "pool_step C F ((t_rawq s, R) # (t_outq s, D) # qs) (clm s) cs q m"
    then obtain C' F' where n: "contents q C' m = cs" "pool ((q, C') # (t_rawq s, R) # (t_outq s, D) # qs) F' m"
      and "\<And>q' B. (q', B) \<in> set ((t_rawq s, R) # (t_outq s, D) # qs) \<Longrightarrow> contents q' B m = contents q' B (clm s)"
      unfolding pool_step_def by blast
    then have "contents (t_rawq s) R m = raw" "contents (t_outq s) D m = out" using p(2,4) by simp_all
    with n(1) iffD1 [OF perm n(2)] show "holds qs (s\<lparr>t_canq := q, clm := m\<rparr>) raw cs out"
      by (auto simp: holds_def)
  qed
qed

lemma holds_out:
  assumes "holds qs s raw can out"
  obtains R C D F where "pool ((t_outq s, D) # (t_rawq s, R) # (t_canq s, C) # qs) F (clm s)"
    and "contents (t_outq s) D (clm s) = out"
    and "\<And>cs q m. pool_step D F ((t_rawq s, R) # (t_canq s, C) # qs) (clm s) cs q m \<Longrightarrow>
           holds qs (s\<lparr>t_outq := q, clm := m\<rparr>) raw can cs"
proof -
  from assms obtain R C D F where p: "pool ((t_rawq s, R) # (t_canq s, C) # (t_outq s, D) # qs) F (clm s)"
    "contents (t_rawq s) R (clm s) = raw" "contents (t_canq s) C (clm s) = can"
    "contents (t_outq s) D (clm s) = out" by (auto simp: holds_def)
  have perm: "pool ((q, D) # r # c # qs) F m = pool (r # c # (q, D) # qs) F m" for q D r c F m
    by (rule pool_mset) (metis add_mset_commute mset.simps(2))
  show ?thesis
  proof (rule that)
    show "pool ((t_outq s, D) # (t_rawq s, R) # (t_canq s, C) # qs) F (clm s)" by (rule iffD2 [OF perm p(1)])
    show "contents (t_outq s) D (clm s) = out" by (rule p(4))
    fix cs q m
    assume "pool_step D F ((t_rawq s, R) # (t_canq s, C) # qs) (clm s) cs q m"
    then obtain D' F' where n: "contents q D' m = cs" "pool ((q, D') # (t_rawq s, R) # (t_canq s, C) # qs) F' m"
      and "\<And>q' B. (q', B) \<in> set ((t_rawq s, R) # (t_canq s, C) # qs) \<Longrightarrow> contents q' B m = contents q' B (clm s)"
      unfolding pool_step_def by blast
    then have "contents (t_rawq s) R m = raw" "contents (t_canq s) C m = can" using p(2,3) by simp_all
    with n(1) iffD1 [OF perm n(2)] show "holds qs (s\<lparr>t_outq := q, clm := m\<rparr>) raw can cs"
      by (auto simp: holds_def)
  qed
qed


lemma getc_raw_ok:
  assumes "holds qs s (c # raw) can out"
  shows "\<exists>q m. getc_raw s = (uint c, s\<lparr>t_rawq := q, clm := m\<rparr>) \<and> holds qs (s\<lparr>t_rawq := q, clm := m\<rparr>) raw can out"
proof (rule holds_raw [OF assms])
  fix R C D F
  assume p: "pool ((t_rawq s, R) # (t_canq s, C) # (t_outq s, D) # qs) F (clm s)"
    "contents (t_rawq s) R (clm s) = c # raw"
    "\<And>cs q m. pool_step R F ((t_canq s, C) # (t_outq s, D) # qs) (clm s) cs q m \<Longrightarrow>
       holds qs (s\<lparr>t_rawq := q, clm := m\<rparr>) cs can out"
  from getc_ok [OF pool_qpool [OF p(1)] p(2)] qresult_pool [OF p(1)] p(3) show ?thesis
    by (fastforce simp: getc_raw_def)
qed

lemma getc_raw_empty: "holds qs s [] can out \<Longrightarrow> getc_raw s = (- 1, s)"
proof (elim holds_raw)
  fix R C D F
  assume p: "pool ((t_rawq s, R) # (t_canq s, C) # (t_outq s, D) # qs) F (clm s)" "contents (t_rawq s) R (clm s) = []"
  have "R = []" using qpool_empty [OF pool_qpool [OF p(1)]] p(2) by simp
  then show "getc_raw s = (- 1, s)"
    using getc_empty [of "t_rawq s" F "clm s"] pool_qpool [OF p(1)] by (simp add: getc_raw_def)
qed

lemma getc_can_ok:
  assumes "holds qs s raw (c # can) out"
  shows "\<exists>q m. getc_can s = (uint c, s\<lparr>t_canq := q, clm := m\<rparr>) \<and> holds qs (s\<lparr>t_canq := q, clm := m\<rparr>) raw can out"
proof (rule holds_can [OF assms])
  fix R C D F
  assume p: "pool ((t_canq s, C) # (t_rawq s, R) # (t_outq s, D) # qs) F (clm s)"
    "contents (t_canq s) C (clm s) = c # can"
    "\<And>cs q m. pool_step C F ((t_rawq s, R) # (t_outq s, D) # qs) (clm s) cs q m \<Longrightarrow>
       holds qs (s\<lparr>t_canq := q, clm := m\<rparr>) raw cs out"
  from getc_ok [OF pool_qpool [OF p(1)] p(2)] qresult_pool [OF p(1)] p(3) show ?thesis
    by (fastforce simp: getc_can_def)
qed

lemma getc_can_empty: "holds qs s raw [] out \<Longrightarrow> getc_can s = (- 1, s)"
proof (elim holds_can)
  fix R C D F
  assume p: "pool ((t_canq s, C) # (t_rawq s, R) # (t_outq s, D) # qs) F (clm s)" "contents (t_canq s) C (clm s) = []"
  have "C = []" using qpool_empty [OF pool_qpool [OF p(1)]] p(2) by simp
  then show "getc_can s = (- 1, s)"
    using getc_empty [of "t_canq s" F "clm s"] pool_qpool [OF p(1)] by (simp add: getc_can_def)
qed

lemma getc_out_ok:
  assumes "holds qs s raw can (c # out)"
  shows "\<exists>q m. getc_out s = (uint c, s\<lparr>t_outq := q, clm := m\<rparr>) \<and> holds qs (s\<lparr>t_outq := q, clm := m\<rparr>) raw can out"
proof (rule holds_out [OF assms])
  fix R C D F
  assume p: "pool ((t_outq s, D) # (t_rawq s, R) # (t_canq s, C) # qs) F (clm s)"
    "contents (t_outq s) D (clm s) = c # out"
    "\<And>cs q m. pool_step D F ((t_rawq s, R) # (t_canq s, C) # qs) (clm s) cs q m \<Longrightarrow>
       holds qs (s\<lparr>t_outq := q, clm := m\<rparr>) raw can cs"
  from getc_ok [OF pool_qpool [OF p(1)] p(2)] qresult_pool [OF p(1)] p(3) show ?thesis
    by (fastforce simp: getc_out_def)
qed

lemma getc_out_empty: "holds qs s raw can [] \<Longrightarrow> getc_out s = (- 1, s)"
proof (elim holds_out)
  fix R C D F
  assume p: "pool ((t_outq s, D) # (t_rawq s, R) # (t_canq s, C) # qs) F (clm s)" "contents (t_outq s) D (clm s) = []"
  have "D = []" using qpool_empty [OF pool_qpool [OF p(1)]] p(2) by simp
  then show "getc_out s = (- 1, s)"
    using getc_empty [of "t_outq s" F "clm s"] pool_qpool [OF p(1)] by (simp add: getc_out_def)
qed

lemma putc_out_ok:
  assumes "holds qs s raw can out"
  shows "\<exists>r q m. putc_out c s = (r, s\<lparr>t_outq := q, clm := m\<rparr>) \<and>
    (r = 0 \<and> holds qs (s\<lparr>t_outq := q, clm := m\<rparr>) raw can (out @ [ucast c]) \<or>
     r = - 1 \<and> holds qs (s\<lparr>t_outq := q, clm := m\<rparr>) raw can out)"
proof (rule holds_out [OF assms])
  fix R C D F
  assume p: "pool ((t_outq s, D) # (t_rawq s, R) # (t_canq s, C) # qs) F (clm s)"
    "contents (t_outq s) D (clm s) = out"
    "\<And>cs q m. pool_step D F ((t_rawq s, R) # (t_canq s, C) # qs) (clm s) cs q m \<Longrightarrow>
       holds qs (s\<lparr>t_outq := q, clm := m\<rparr>) raw can cs"
  show ?thesis
  proof (cases "put_full (t_outq s) D F")
    case True
    from putc_full [OF pool_qpool [OF p(1)] True, of "ucast c"] assms show ?thesis
      by (intro exI [of _ "- 1"] exI [of _ "t_outq s"] exI [of _ "clm s"]) (simp add: putc_out_def)
  next
    case False
    from putc_ok [OF pool_qpool [OF p(1)] False, of "ucast c"] qresult_pool [OF p(1)] p(2,3) show ?thesis
      by (fastforce simp: putc_out_def)
  qed
qed

lemma putc_raw_ok:
  assumes "holds qs s raw can out"
  shows "\<exists>r q m. putc_raw c s = (r, s\<lparr>t_rawq := q, clm := m\<rparr>) \<and>
    (r = 0 \<and> holds qs (s\<lparr>t_rawq := q, clm := m\<rparr>) (raw @ [ucast c]) can out \<or>
     r = - 1 \<and> holds qs (s\<lparr>t_rawq := q, clm := m\<rparr>) raw can out)"
proof (rule holds_raw [OF assms])
  fix R C D F
  assume p: "pool ((t_rawq s, R) # (t_canq s, C) # (t_outq s, D) # qs) F (clm s)"
    "contents (t_rawq s) R (clm s) = raw"
    "\<And>cs q m. pool_step R F ((t_canq s, C) # (t_outq s, D) # qs) (clm s) cs q m \<Longrightarrow>
       holds qs (s\<lparr>t_rawq := q, clm := m\<rparr>) cs can out"
  show ?thesis
  proof (cases "put_full (t_rawq s) R F")
    case True
    from putc_full [OF pool_qpool [OF p(1)] True, of "ucast c"] assms show ?thesis
      by (intro exI [of _ "- 1"] exI [of _ "t_rawq s"] exI [of _ "clm s"]) (simp add: putc_raw_def)
  next
    case False
    from putc_ok [OF pool_qpool [OF p(1)] False, of "ucast c"] qresult_pool [OF p(1)] p(2,3) show ?thesis
      by (fastforce simp: putc_raw_def)
  qed
qed


section \<open>Canonical input\<close>

text \<open>
  What editing a line means: each key acts on the line typed so far (\<open>l\<close>, last character
  first). After a backslash the erase and kill characters, and in upper-case mode the
  characters of \<open>maptab\<close>, replace the backslash, or with two backslashes before them the
  second one.
\<close>

definition esc_char :: "u8 \<Rightarrow> u8 \<Rightarrow> bool \<Rightarrow> u8 \<Rightarrow> u8 option" where
  "esc_char er ki lc c =
     (let mc = (if c = er \<or> c = ki then c else maptab ! unat c)
      in if mc \<noteq> 0 \<and> (mc = c \<or> lc) then Some mc else None)"

definition key :: "u8 \<Rightarrow> u8 \<Rightarrow> u8 \<Rightarrow> bool \<Rightarrow> u8 list \<Rightarrow> u8 \<Rightarrow> u8 list" where
  "key er ki eof lc l c =
     (if bp1 l \<noteq> 92 then
        if c = er then tl l else if c = ki then [] else if c = eof then l else c # l
      else case esc_char er ki lc c of
             None \<Rightarrow> c # l
           | Some mc \<Rightarrow> (if bp2 l \<noteq> 92 then mc else c) # tl l)"

definition edit :: "u8 \<Rightarrow> u8 \<Rightarrow> u8 \<Rightarrow> bool \<Rightarrow> u8 list \<Rightarrow> u8 list" where
  "edit er ki eof lc line = rev (foldl (key er ki eof lc) [] line)"

lemma is_char_7bit: "c < 128 \<Longrightarrow> is_char (ucast c) ch \<longleftrightarrow> c = ch"
proof
  assume c: "c < 128" and "is_char (ucast c) ch"
  then have "(ucast c :: u16) = scast ch" by (simp add: is_char_def)
  then have "ucast (ucast c :: u16) = (ucast (scast ch :: u16) :: u8)" by simp
  then show "c = ch" by (simp only: ucast_ucast_8 ucast_scast_8)
next
  assume "c < 128" and "c = ch"
  then show "is_char (ucast c) ch" by (simp add: is_char_def scast_small)
qed

lemma foldl_key_length: "length (foldl (key er ki eof lc) l line) \<le> length l + length line"
proof (induction line arbitrary: l)
  case (Cons c line)
  have "length (key er ki eof lc l c) \<le> Suc (length l)"
    by (auto simp: key_def split: option.splits)
  with Cons.IH [of "key er ki eof lc l c"] show ?case by simp
qed simp


lemma maptab_length: "length maptab = 128"
  by (simp add: maptab_def)

lemma maptab_7bit: "n < 128 \<Longrightarrow> maptab ! n < 128"
proof -
  have "list_all (\<lambda>c. c < 128) maptab" by (simp add: maptab_def)
  then show "n < 128 \<Longrightarrow> maptab ! n < 128" by (simp add: list_all_length maptab_length)
qed

lemma ucast_eq_8: "((ucast (a :: u8) :: u16) = ucast b) = (a = b)"
  by (metis ucast_ucast_8)

lemma ucast_0_8: "((ucast (a :: u8) :: u16) = 0) = (a = 0)"
  using ucast_eq_8 [of a 0] by simp

lemma canon_esc_key:
  assumes "c < 128"
  shows "canon_esc s (ucast c) l =
    (case esc_char (t_erase s) (t_kill s) (fl s LCASE) c of
       None \<Rightarrow> Some (ucast c, l)
     | Some mc \<Rightarrow> Some (ucast (if bp2 l \<noteq> 92 then mc else c), tl l))"
proof -
  have u: "unat c < 128" using assms by (simp add: word_less_nat_alt)
  from maptab_7bit [OF u] have "(scast (maptab ! unat c) :: u16) = ucast (maptab ! unat c)" by (rule scast_small)
  with assms u show ?thesis
    by (simp add: canon_esc_def esc_char_def Let_def unat_ucast_8 maptab_length is_char_7bit ucast_eq_8 ucast_0_8)
qed

lemma canon_loop_step:
  assumes g: "getc_raw s0 = (uint c, s)" and cooked: "t_flags s AND (RAW OR CBREAK) = 0"
    and c: "c < 128" and fits: "length (key (t_erase s) (t_kill s) (t_eofc s) (fl s LCASE) l c) + 2 < CANBSIZ"
  shows "canon_loop (Suc n) s0 l = canon_loop n s (key (t_erase s) (t_kill s) (t_eofc s) (fl s LCASE) l c)"
proof -
  have wc: "word_of_int (uint c) = (ucast c :: u16)" by (rule ucast_eq [symmetric])
  from c have small: "unat c < 128" by (simp add: word_less_nat_alt)
  have ne: "(ucast c :: u16) \<noteq> 255"
  proof
    assume "(ucast c :: u16) = 255"
    then have "unat (ucast c :: u16) = 255" by simp
    with small show False by (simp add: unat_ucast_8)
  qed
  have nn: "\<not> uint c < 0" by simp
  note unf = canon_loop.simps(2) g Let_def prod.case wc nn if_False cooked simp_thms if_True if_not_P [OF ne] if_not_P [OF nn]
  show ?thesis
  proof (cases "bp1 l = 92")
    case False
    show ?thesis
      using False fits is_char_7bit [OF c] unfolding unf key_def by (simp split: if_splits)
  next
    case True
    show ?thesis
    proof (cases "esc_char (t_erase s) (t_kill s) (fl s LCASE) c")
      case None
      then show ?thesis using True fits unfolding unf key_def canon_esc_key [OF c] by simp
    next
      case (Some mc)
      then show ?thesis using True fits unfolding unf key_def canon_esc_key [OF c] by simp
    qed
  qed
qed

lemma canon_loop_line:
  "holds qs s (line @ 255 # rest) can out \<Longrightarrow> t_flags s AND (RAW OR CBREAK) = 0 \<Longrightarrow>
   \<forall>c \<in> set line. c < 128 \<Longrightarrow> length l + length line + 2 < CANBSIZ \<Longrightarrow> length line < n \<Longrightarrow>
   \<exists>q m. let s' = s\<lparr>t_rawq := q, clm := m, t_delct := t_delct s - 1\<rparr> in
     canon_loop n s l = Some (foldl (key (t_erase s) (t_kill s) (t_eofc s) (fl s LCASE)) l line, s') \<and>
     holds qs s' rest can out"
proof (induction line arbitrary: s l n)
  case Nil
  then obtain k where n: "n = Suc k" by (cases n) auto
  from getc_raw_ok [of qs s 255 rest can out] Nil.prems(1) obtain q m where
    g: "getc_raw s = (255, s\<lparr>t_rawq := q, clm := m\<rparr>)" and h: "holds qs (s\<lparr>t_rawq := q, clm := m\<rparr>) rest can out"
    by auto
  from h have "holds qs (s\<lparr>t_rawq := q, clm := m, t_delct := t_delct s - 1\<rparr>) rest can out"
    by (rule holds_upd) simp_all
  with g Nil.prems(2) n show ?case by (auto simp: Let_def intro!: exI [of _ q] exI [of _ m])
next
  case (Cons c line)
  from Cons.prems(5) obtain k where n: "n = Suc k" by (cases n) auto
  from getc_raw_ok [of qs s c "line @ 255 # rest" can out] Cons.prems(1) obtain q m where
    g: "getc_raw s = (uint c, s\<lparr>t_rawq := q, clm := m\<rparr>)"
    and h: "holds qs (s\<lparr>t_rawq := q, clm := m\<rparr>) (line @ 255 # rest) can out" by auto
  let ?s = "s\<lparr>t_rawq := q, clm := m\<rparr>"
  let ?key = "key (t_erase s) (t_kill s) (t_eofc s) (fl s LCASE)"
  have c: "c < 128" using Cons.prems(3) by simp
  have flg: "fl ?s LCASE = fl s LCASE" by (simp add: fl_def)
  have len: "length (?key l c) \<le> Suc (length l)" using foldl_key_length [of _ _ _ _ l "[c]"] by simp
  then have fits: "length (?key l c) + length line + 2 < CANBSIZ" using Cons.prems(4) by simp
  have "canon_loop n s l = canon_loop k ?s (?key l c)"
    using canon_loop_step [OF g _ c] Cons.prems(2) fits by (simp add: n flg)
  moreover have "\<exists>q' m'. let s' = ?s\<lparr>t_rawq := q', clm := m', t_delct := t_delct ?s - 1\<rparr> in
     canon_loop k ?s (?key l c) = Some (foldl (key (t_erase ?s) (t_kill ?s) (t_eofc ?s) (fl ?s LCASE)) (?key l c) line, s') \<and>
     holds qs s' rest can out"
    using h Cons.prems fits n by (intro Cons.IH) simp_all
  ultimately show ?case by (simp add: Let_def flg)
qed

lemma b_to_q_can:
  assumes "holds qs s raw can out"
  shows "\<exists>n q m r. n \<le> length cs \<and> b_to_q cs (t_canq s) (clm s) = (r, q, m) \<and>
    holds qs (s\<lparr>t_canq := q, clm := m\<rparr>) raw (can @ take n cs) out \<and>
    (n < length cs \<longrightarrow> (\<forall>c. putc c q m = (- 1, q, m)))"
proof (rule holds_can [OF assms])
  fix R C D F
  assume p: "pool ((t_canq s, C) # (t_rawq s, R) # (t_outq s, D) # qs) F (clm s)"
    "contents (t_canq s) C (clm s) = can"
    "\<And>cs q m. pool_step C F ((t_rawq s, R) # (t_outq s, D) # qs) (clm s) cs q m \<Longrightarrow>
       holds qs (s\<lparr>t_canq := q, clm := m\<rparr>) raw cs out"
  note q = pool_qpool [OF p(1)]
  have "0 \<le> c_cc (t_canq s)" using qpool_empty [OF q] by simp
  moreover have "cfreelist (clm s) mod 16 = 0" using q by (cases F) (auto simp: qpool_def)
  ultimately have "b_to_q cs (t_canq s) (clm s) =
      (case put_all cs (t_canq s) (clm s) of (rest, p', m') \<Rightarrow> (int (length rest), p', m'))"
    by (rule b_to_q_put_all)
  moreover from put_all_ok [OF q, of cs] obtain n p' m' where "n \<le> length cs"
    "put_all cs (t_canq s) (clm s) = (drop n cs, p', m')" "qresult C F (clm s) (can @ take n cs) p' m'"
    "n < length cs \<longrightarrow> (\<forall>c. putc c p' m' = (- 1, p', m'))"
    using p(2) by blast
  moreover from p(3) [OF qresult_pool [OF p(1) this(3)]]
  have "holds qs (s\<lparr>t_canq := p', clm := m'\<rparr>) raw (can @ take n cs) out" .
  ultimately show ?thesis by auto
qed


lemma canon_line:
  assumes h: "holds qs s (line @ 255 # rest) can out" and cooked: "t_flags s AND (RAW OR CBREAK) = 0"
    and dl: "t_delct s \<noteq> 0" and asc: "\<forall>c \<in> set line. c < 128" and len: "length line + 2 < CANBSIZ"
    and nb: "\<not> st s TBLOCK"
  shows "\<exists>q cq m n. let ed = edit (t_erase s) (t_kill s) (t_eofc s) (fl s LCASE) line;
        s' = s\<lparr>t_rawq := q, t_canq := cq, clm := m, t_delct := t_delct s - 1\<rparr> in
     canon d s = TRet (length ed) s' \<and> n \<le> length ed \<and> holds qs s' rest (can @ take n ed) out \<and>
     (n < length ed \<longrightarrow> (\<forall>c. putc c cq m = (- 1, cq, m)))"
proof -
  let ?l = "foldl (key (t_erase s) (t_kill s) (t_eofc s) (fl s LCASE)) [] line"
  have n: "length line < Suc (nat (c_cc (t_rawq s)))" using holds_cc [OF h] by simp
  from canon_loop_line [OF h cooked asc _ n, of "[]"] len obtain q m where
    loop: "canon_loop (Suc (nat (c_cc (t_rawq s)))) s [] = Some (?l, s\<lparr>t_rawq := q, clm := m, t_delct := t_delct s - 1\<rparr>)"
    and h1: "holds qs (s\<lparr>t_rawq := q, clm := m, t_delct := t_delct s - 1\<rparr>) rest can out"
    by (auto simp: Let_def)
  from b_to_q_can [OF h1, of "rev ?l"] obtain k q2 m2 r where
    "k \<le> length ?l" "b_to_q (rev ?l) (t_canq s) m = (r, q2, m2)" "k < length ?l \<longrightarrow> (\<forall>c. putc c q2 m2 = (- 1, q2, m2))"
    "holds qs (s\<lparr>t_rawq := q, clm := m, t_delct := t_delct s - 1, t_canq := q2, clm := m2\<rparr>) rest
       (can @ take k (rev ?l)) out" by auto
  moreover have "s\<lparr>t_rawq := q, clm := m, t_delct := t_delct s - 1, t_canq := q2, clm := m2\<rparr> =
      s\<lparr>t_rawq := q, t_canq := q2, clm := m2, t_delct := t_delct s - 1\<rparr>" by simp
  ultimately show ?thesis using loop cooked dl nb
    by (intro exI [of _ q] exI [of _ q2] exI [of _ m2] exI [of _ k])
       (simp add: canon_def edit_def Let_def st_def del: canon_loop.simps)
qed

section \<open>Echo and output\<close>

text \<open>What output may change: the output queue with the blocks, the column and the count.\<close>

definition out_only :: "tty \<Rightarrow> tty \<Rightarrow> bool" where
  "out_only s s' = (s'\<lparr>t_outq := t_outq s, clm := clm s, t_col := t_col s, tk_nout := tk_nout s\<rparr> = s)"

definition out_grows :: "(clist \<times> nat list) list \<Rightarrow> tty \<Rightarrow> tty \<Rightarrow> bool" where
  "out_grows qs s s' = (out_only s s' \<and>
     (\<forall>raw can out. holds qs s raw can out \<longrightarrow> (\<exists>xs. holds qs s' raw can (out @ xs))))"

lemma out_only_refl: "out_only s s"
  by (simp add: out_only_def)

lemma out_only_trans:
  assumes "out_only s s'" and "out_only s' s''"
  shows "out_only s s''"
proof -
  let ?to = "\<lambda>a b :: tty. b\<lparr>t_outq := t_outq a, clm := clm a, t_col := t_col a, tk_nout := tk_nout a\<rparr>"
  have "?to s s'' = ?to s (?to s' s'')" by simp
  also have "\<dots> = s" using assms by (simp only: out_only_def)
  finally show ?thesis by (simp only: out_only_def)
qed

lemma out_grows_refl: "out_grows qs s s"
  unfolding out_grows_def using out_only_refl by (metis append_Nil2)

lemma out_grows_trans: "out_grows qs s s' \<Longrightarrow> out_grows qs s' s'' \<Longrightarrow> out_grows qs s s''"
  unfolding out_grows_def using out_only_trans by (metis append.assoc)


lemma putc_out_only: "out_only s (snd (putc_out c s))"
  by (simp add: out_only_def putc_out_def case_prod_beta)

lemma out_only_col: "out_only s (s\<lparr>t_col := x, tk_nout := n\<rparr>)"
  by (simp add: out_only_def)

lemma putc_out_grows: "out_grows qs s (snd (putc_out c s))"
  unfolding out_grows_def using putc_out_only putc_out_ok
  by (metis append_Nil2 snd_conv)

lemma out_char_grows: "out_grows qs s (out_char c s)"
proof -
  let ?d = "out_delay (t_flags s) (ucast (partab ! unat c) AND 63) (t_col s)"
  have fl: "t_flags (snd (putc_out c s)) = t_flags s" "t_col (snd (putc_out c s)) = t_col s"
    "tk_nout (snd (putc_out c s)) = tk_nout s"
    by (simp_all add: putc_out_def case_prod_beta)
  let ?s = "(snd (putc_out c s))\<lparr>t_col := fst ?d\<rparr>"
  have "out_only (snd (putc_out c s)) ?s"
    by (simp add: out_only_def)
  then have "out_grows qs (snd (putc_out c s)) ?s"
    unfolding out_grows_def by (auto intro!: exI [of _ "[]"] elim!: holds_upd)
  then have "out_grows qs s ?s" using putc_out_grows out_grows_trans by blast
  moreover have "out_char c s = (if snd ?d \<noteq> 0 then snd (putc_out (snd ?d OR 128) ?s) else ?s)"
    by (simp add: out_char_def Let_def case_prod_beta fl)
  ultimately show ?thesis using putc_out_grows out_grows_trans by auto
qed

lemma tab_loop_grows: "(\<And>s. out_grows qs s (f s)) \<Longrightarrow> out_grows qs s (tab_loop k f s)"
proof (induction k arbitrary: s)
  case (Suc k)
  from Suc.IH [OF Suc.prems, of "f s"] Suc.prems [of s] out_grows_trans show ?case
    by (auto simp: Let_def)
qed simp

lemma ttyout_grows: "out_grows qs s (ttyout n c s)"
proof (induction n arbitrary: c s)
  case 0
  then show ?case by (simp add: out_grows_refl)
next
  case (Suc n)
  let ?s = "s\<lparr>tk_nout := tk_nout s + 1\<rparr>"
  have "out_only s ?s" by (simp add: out_only_def)
  then have s: "out_grows qs s ?s" unfolding out_grows_def by (auto intro!: exI [of _ "[]"] elim!: holds_upd)
  have "out_grows qs ?s (ttyout (Suc n) c s)"
    unfolding ttyout.simps Let_def case_prod_beta
    by (auto simp: putc_out_grows out_grows_refl Suc.IH split: option.splits
        intro!: out_char_grows tab_loop_grows out_grows_trans [OF Suc.IH out_char_grows]
          out_grows_trans [OF Suc.IH out_grows_trans [OF Suc.IH out_char_grows]])
  with s show ?case by (rule out_grows_trans)
qed


subsection \<open>Tabs\<close>

lemma and_7: "(c AND 7 = (0 :: u8)) \<longleftrightarrow> unat c mod 8 = 0"
proof -
  have "c AND 7 = take_bit 3 c" by (simp add: take_bit_eq_mask mask_eq_exp_minus_1)
  moreover have "unat (take_bit 3 c) = unat c mod 8"
    by (simp add: unat_mod take_bit_eq_mod)
  ultimately show ?thesis by (simp flip: unat_eq_zero)
qed

lemma blank_out:
  assumes "\<not> fl s RAW"
  shows "\<exists>s1. ttyout (Suc n) 32 s = snd (putc_out 32 s1)\<lparr>t_col := t_col s + 1\<rparr> \<and>
    s1 = s\<lparr>tk_nout := tk_nout s + 1\<rparr>"
proof -
  have p: "ucast (partab ! 32) AND (63 :: u16) = 0" by (simp add: partab_def)
  have f: "fl (s\<lparr>tk_nout := x\<rparr>) b = fl s b" for x b by (simp add: fl_def)
  have o: "out_char 32 s1 = snd (putc_out 32 s1)\<lparr>t_col := t_col s1 + 1\<rparr>" for s1
    by (simp add: out_char_def Let_def case_prod_beta out_delay_def p putc_out_def)
  have e: "lc_escape 32 = None" "lc_upper 32 = 32" by (simp_all add: lc_escape_def lc_upper_def)
  show ?thesis using assms by (simp add: Let_def f e o CEOT_def)
qed

lemma blank_holds:
  assumes "holds qs s raw can out" and "\<not> fl s RAW"
  shows "\<exists>j \<le> 1. holds qs (ttyout (Suc n) 32 s) raw can (out @ replicate j 32) \<and>
    t_col (ttyout (Suc n) 32 s) = t_col s + 1 \<and> t_flags (ttyout (Suc n) 32 s) = t_flags s"
proof -
  let ?s1 = "s\<lparr>tk_nout := tk_nout s + 1\<rparr>"
  have run: "ttyout (Suc n) 32 s = snd (putc_out 32 ?s1)\<lparr>t_col := t_col s + 1\<rparr>"
    using blank_out [OF assms(2)] by blast
  have "holds qs ?s1 raw can out" using assms(1) by (rule holds_upd) simp_all
  from putc_out_ok [OF this, of 32] obtain r q m where
    one: "putc_out 32 ?s1 = (r, ?s1\<lparr>t_outq := q, clm := m\<rparr>)" and
    "holds qs (?s1\<lparr>t_outq := q, clm := m\<rparr>) raw can (out @ [32]) \<or> holds qs (?s1\<lparr>t_outq := q, clm := m\<rparr>) raw can out"
    by auto
  then have "\<exists>j \<le> 1. holds qs (?s1\<lparr>t_outq := q, clm := m\<rparr>) raw can (out @ replicate j 32)"
    by (auto intro: exI [of _ 1] exI [of _ 0])
  then obtain j where "j \<le> 1" "holds qs (?s1\<lparr>t_outq := q, clm := m\<rparr>) raw can (out @ replicate j 32)" by blast
  moreover from this(2) have "holds qs (ttyout (Suc n) 32 s) raw can (out @ replicate j 32)"
    unfolding run one by (rule holds_upd) simp_all
  ultimately show ?thesis by (auto simp: run one simp del: ttyout.simps)
qed

lemma unat_succ_mod_8: "unat (c + 1 :: u8) mod 8 = (unat c + 1) mod 8"
  by (simp add: unat_word_ariths mod_mod_cancel)

lemma tab_loop_blanks:
  "holds qs s raw can out \<Longrightarrow> \<not> fl s RAW \<Longrightarrow> 7 - unat (t_col s) mod 8 \<le> k \<Longrightarrow>
   \<exists>j \<le> 8 - unat (t_col s) mod 8.
     holds qs (tab_loop k (ttyout (Suc n) 32) s) raw can (out @ replicate j 32) \<and>
     t_col (tab_loop k (ttyout (Suc n) 32) s) = t_col s + of_nat (8 - unat (t_col s) mod 8)"
proof (induction k arbitrary: s out)
  case 0
  from 0 have r: "unat (t_col s) mod 8 = 7" using mod_less_divisor [of 8 "unat (t_col s)"] by linarith
  from blank_holds [OF 0(1,2), of n] r show ?case by (auto simp del: ttyout.simps)
next
  case (Suc k)
  let ?s = "ttyout (Suc n) 32 s"
  from blank_holds [OF Suc.prems(1,2), of n] obtain j where
    one: "j \<le> 1" "holds qs ?s raw can (out @ replicate j 32)" "t_col ?s = t_col s + 1" "t_flags ?s = t_flags s" by blast
  show ?case
  proof (cases "t_col ?s AND 7 = 0")
    case True
    then have "(unat (t_col s) + 1) mod 8 = 0" unfolding one(3) and_7 unat_succ_mod_8 .
    then have "unat (t_col s) mod 8 = 7" by presburger
    with True one show ?thesis by (auto simp del: ttyout.simps)
  next
    case False
    then have "(unat (t_col s) + 1) mod 8 \<noteq> 0" unfolding one(3) and_7 unat_succ_mod_8 .
    then have r: "unat (t_col ?s) mod 8 = unat (t_col s) mod 8 + 1"
      unfolding one(3) unat_succ_mod_8 by presburger
    have lt: "unat (t_col s) mod 8 < 8" by simp
    have "\<not> fl ?s RAW" using Suc.prems(2) one(4) by (simp add: fl_def)
    moreover have "7 - unat (t_col ?s) mod 8 \<le> k" using Suc.prems(3) r by linarith
    ultimately obtain i where i: "i \<le> 8 - unat (t_col ?s) mod 8"
      "holds qs (tab_loop k (ttyout (Suc n) 32) ?s) raw can ((out @ replicate j 32) @ replicate i 32)"
      "t_col (tab_loop k (ttyout (Suc n) 32) ?s) = t_col ?s + of_nat (8 - unat (t_col ?s) mod 8)"
      using Suc.IH [OF one(2)] by blast
    have split: "8 - unat (t_col s) mod 8 = Suc (8 - unat (t_col ?s) mod 8)"
      using r lt mod_less_divisor [of 8 "unat (t_col ?s)"] by linarith
    have "tab_loop (Suc k) (ttyout (Suc n) 32) s = tab_loop k (ttyout (Suc n) 32) ?s"
      using False by (simp add: Let_def del: ttyout.simps)
    moreover have "j + i \<le> 8 - unat (t_col s) mod 8" using i(1) one(1) split by linarith
    moreover have "t_col ?s + of_nat (8 - unat (t_col ?s) mod 8) = t_col s + of_nat (8 - unat (t_col s) mod 8)"
      unfolding split one(3) by (simp add: algebra_simps)
    ultimately show ?thesis using i(2,3)
      by (intro exI [of _ "j + i"]) (simp add: replicate_add del: ttyout.simps)
  qed
qed

subsection \<open>Flushing\<close>

text \<open>The fields that control the terminal; a driver's routines only send characters.\<close>

definition ctl :: "tty \<Rightarrow> (u16 \<times> u16 \<times> u16 \<times> u8) \<times> u8 list" where
  "ctl s = ((t_flags s, t_pgrp s, t_chan s, t_delct s),
     [t_erase s, t_kill s, t_intrc s, t_quitc s, t_startc s, t_stopc s, t_eofc s, t_brkc s])"

definition driver_ok :: "(clist \<times> nat list) list \<Rightarrow> driver \<Rightarrow> bool" where
  "driver_ok qs d = (\<forall>f \<in> {d_oproc d, d_stop d}. \<forall>s raw can out.
     holds qs s raw can out \<longrightarrow> ctl (f s) = ctl s \<and> evs (f s) = evs s \<and> (\<exists>n. holds qs (f s) raw can (drop n out)))"

lemma drain_can:
  "holds qs s raw can out \<Longrightarrow> length can < n \<Longrightarrow>
   \<exists>q m. drain_with getc_can n s = s\<lparr>t_canq := q, clm := m\<rparr> \<and> holds qs (s\<lparr>t_canq := q, clm := m\<rparr>) raw [] out"
proof (induction can arbitrary: s n)
  case Nil
  then obtain k where n: "n = Suc k" by (cases n) auto
  from getc_can_empty [OF Nil(1)] have "drain_with getc_can n s = s" by (simp add: n)
  with Nil(1) show ?case by (intro exI [of _ "t_canq s"] exI [of _ "clm s"]) simp
next
  case (Cons c can)
  from Cons.prems obtain k where n: "n = Suc k" "length can < k" by (cases n) auto
  from getc_can_ok [OF Cons.prems(1)] obtain q m where
    g: "getc_can s = (uint c, s\<lparr>t_canq := q, clm := m\<rparr>)" "holds qs (s\<lparr>t_canq := q, clm := m\<rparr>) raw can out" by blast
  from Cons.IH [OF g(2) n(2)] g(1) n(1) show ?case by auto
qed

lemma drain_out:
  "holds qs s raw can out \<Longrightarrow> length out < n \<Longrightarrow>
   \<exists>q m. drain_with getc_out n s = s\<lparr>t_outq := q, clm := m\<rparr> \<and> holds qs (s\<lparr>t_outq := q, clm := m\<rparr>) raw can []"
proof (induction out arbitrary: s n)
  case Nil
  then obtain k where n: "n = Suc k" by (cases n) auto
  from getc_out_empty [OF Nil(1)] have "drain_with getc_out n s = s" by (simp add: n)
  with Nil(1) show ?case by (intro exI [of _ "t_outq s"] exI [of _ "clm s"]) simp
next
  case (Cons c out)
  from Cons.prems obtain k where n: "n = Suc k" "length out < k" by (cases n) auto
  from getc_out_ok [OF Cons.prems(1)] obtain q m where
    g: "getc_out s = (uint c, s\<lparr>t_outq := q, clm := m\<rparr>)" "holds qs (s\<lparr>t_outq := q, clm := m\<rparr>) raw can out" by blast
  from Cons.IH [OF g(2) n(2)] g(1) n(1) show ?case by auto
qed

lemma drain_raw:
  "holds qs s raw can out \<Longrightarrow> length raw < n \<Longrightarrow>
   \<exists>q m. drain_with getc_raw n s = s\<lparr>t_rawq := q, clm := m\<rparr> \<and> holds qs (s\<lparr>t_rawq := q, clm := m\<rparr>) [] can out"
proof (induction raw arbitrary: s n)
  case Nil
  then obtain k where n: "n = Suc k" by (cases n) auto
  from getc_raw_empty [OF Nil(1)] have "drain_with getc_raw n s = s" by (simp add: n)
  with Nil(1) show ?case by (intro exI [of _ "t_rawq s"] exI [of _ "clm s"]) simp
next
  case (Cons c raw)
  from Cons.prems obtain k where n: "n = Suc k" "length raw < k" by (cases n) auto
  from getc_raw_ok [OF Cons.prems(1)] obtain q m where
    g: "getc_raw s = (uint c, s\<lparr>t_rawq := q, clm := m\<rparr>)" "holds qs (s\<lparr>t_rawq := q, clm := m\<rparr>) raw can out" by blast
  from Cons.IH [OF g(2) n(2)] g(1) n(1) show ?case by auto
qed

lemma flushtty_ok:
  assumes "holds qs s raw can out" and "driver_ok qs d"
  shows "holds qs (flushtty d s) [] [] [] \<and> t_delct (flushtty d s) = 0 \<and>
    ctl (flushtty d s) = ctl (s\<lparr>t_delct := 0\<rparr>) \<and> evs (flushtty d s) = evs s @ [Wakeup C_rawq, Wakeup C_outq]"
proof -
  from drain_can [OF assms(1), of "Suc (nat (c_cc (t_canq s)))"] holds_cc [OF assms(1)] obtain q m where
    d1: "drain_with getc_can (Suc (nat (c_cc (t_canq s)))) s = s\<lparr>t_canq := q, clm := m\<rparr>"
    "holds qs (s\<lparr>t_canq := q, clm := m\<rparr>) raw [] out" by auto
  let ?s1 = "clr_st TTSTOP (log_ev (Wakeup C_outq) (log_ev (Wakeup C_rawq) (s\<lparr>t_canq := q, clm := m\<rparr>)))"
  have h1: "holds qs ?s1 raw [] out" using d1(2) by (rule holds_upd) (simp_all add: clr_st_def log_ev_def)
  with assms(2) obtain k where h2: "holds qs (d_stop d ?s1) raw [] (drop k out)"
    and c2: "ctl (d_stop d ?s1) = ctl ?s1" and e2: "evs (d_stop d ?s1) = evs ?s1"
    unfolding driver_ok_def by blast
  let ?s2 = "d_stop d ?s1"
  from drain_out [OF h2, of "Suc (nat (c_cc (t_outq ?s2)))"] holds_cc [OF h2] obtain q2 m2 where
    d2: "drain_with getc_out (Suc (nat (c_cc (t_outq ?s2)))) ?s2 = ?s2\<lparr>t_outq := q2, clm := m2\<rparr>"
    "holds qs (?s2\<lparr>t_outq := q2, clm := m2\<rparr>) raw [] []" by auto
  let ?s3 = "?s2\<lparr>t_outq := q2, clm := m2\<rparr>"
  from drain_raw [OF d2(2), of "Suc (nat (c_cc (t_rawq ?s3)))"] holds_cc [OF d2(2)] obtain q3 m3 where
    d3: "drain_with getc_raw (Suc (nat (c_cc (t_rawq ?s3)))) ?s3 = ?s3\<lparr>t_rawq := q3, clm := m3\<rparr>"
    "holds qs (?s3\<lparr>t_rawq := q3, clm := m3\<rparr>) [] [] []" by auto
  have run: "flushtty d s = ?s3\<lparr>t_rawq := q3, clm := m3, t_delct := 0\<rparr>"
    unfolding flushtty_def Let_def d1(1) d2(1) d3(1) by simp
  have "holds qs (?s3\<lparr>t_rawq := q3, clm := m3, t_delct := 0\<rparr>) [] [] []" using d3(2) by (rule holds_upd) simp_all
  moreover have "ctl (?s3\<lparr>t_rawq := q3, clm := m3, t_delct := 0\<rparr>) = ctl (s\<lparr>t_delct := 0\<rparr>)"
    using c2 by (simp add: ctl_def clr_st_def log_ev_def)
  ultimately show ?thesis unfolding run using e2 by (simp add: clr_st_def log_ev_def)
qed

section \<open>Input\<close>

text \<open>
  In cooked mode the raw queue holds typed characters and delimiters (0377); \<open>t_delct\<close>
  counts the delimiters, and the queue never exceeds its limit by more than two.
\<close>

definition typed_ok :: "(clist \<times> nat list) list \<Rightarrow> tty \<Rightarrow> bool" where
  "typed_ok qs s = (\<exists>raw can out. holds qs s raw can out \<and>
     t_delct s = of_nat (count_list raw 255) \<and> int (length raw) \<le> TTYHOG + 2)"

lemma typed_okI:
  "holds qs s raw can out \<Longrightarrow> t_delct s = of_nat (count_list raw 255) \<Longrightarrow> int (length raw) \<le> TTYHOG + 2 \<Longrightarrow>
   typed_ok qs s"
  unfolding typed_ok_def by blast

lemma typed_ok_upd:
  "typed_ok qs s \<Longrightarrow> t_rawq s' = t_rawq s \<Longrightarrow> t_canq s' = t_canq s \<Longrightarrow> t_outq s' = t_outq s \<Longrightarrow>
   clm s' = clm s \<Longrightarrow> t_delct s' = t_delct s \<Longrightarrow> typed_ok qs s'"
  unfolding typed_ok_def using holds_upd by metis

lemma typed_ok_st [simp]:
  "typed_ok qs s \<Longrightarrow> typed_ok qs (set_st b s)" "typed_ok qs s \<Longrightarrow> typed_ok qs (clr_st b s)"
  "typed_ok qs s \<Longrightarrow> typed_ok qs (log_ev e s)" "typed_ok qs s \<Longrightarrow> typed_ok qs (s\<lparr>tk_nin := n\<rparr>)"
  "typed_ok qs s \<Longrightarrow> typed_ok qs (s\<lparr>t_char := x\<rparr>)"
  by (erule typed_ok_upd; simp add: set_st_def clr_st_def log_ev_def)+

lemma ctl_st [simp]:
  "ctl (set_st b s) = ctl s" "ctl (clr_st b s) = ctl s" "ctl (log_ev e s) = ctl s"
  "ctl (s\<lparr>tk_nin := n\<rparr>) = ctl s" "ctl (s\<lparr>t_char := x\<rparr>) = ctl s"
  by (simp_all add: ctl_def set_st_def clr_st_def log_ev_def)

lemma flags_st [simp]:
  "t_flags (set_st b s) = t_flags s" "t_flags (clr_st b s) = t_flags s" "t_flags (log_ev e s) = t_flags s"
  by (simp_all add: set_st_def clr_st_def log_ev_def)

lemma ctl_delct: "ctl s = ctl s' \<Longrightarrow> t_delct s = t_delct s' \<and> t_flags s = t_flags s'"
  by (simp add: ctl_def)

lemma typed_ok_drv:
  assumes "driver_ok qs d" and "f \<in> {d_oproc d, d_stop d}" and "typed_ok qs s"
  shows "typed_ok qs (f s) \<and> t_flags (f s) = t_flags s"
proof -
  from assms(3) obtain raw can out where h: "holds qs s raw can out"
    "t_delct s = of_nat (count_list raw 255)" "int (length raw) \<le> TTYHOG + 2" by (auto simp: typed_ok_def)
  from assms(1,2) h(1) obtain n where c: "ctl (f s) = ctl s" and "holds qs (f s) raw can (drop n out)"
    unfolding driver_ok_def by blast
  with h ctl_delct [OF c] show ?thesis unfolding typed_ok_def by auto
qed

lemma typed_ok_start:
  "driver_ok qs d \<Longrightarrow> typed_ok qs s \<Longrightarrow> typed_ok qs (ttstart d s) \<and> t_flags (ttstart d s) = t_flags s"
  using typed_ok_drv by (simp add: ttstart_def)

lemma typed_ok_flush:
  assumes "driver_ok qs d" and "typed_ok qs s"
  shows "typed_ok qs (flushtty d s) \<and> t_flags (flushtty d s) = t_flags s"
proof -
  from assms(2) obtain raw can out where "holds qs s raw can out" by (auto simp: typed_ok_def)
  from flushtty_ok [OF this assms(1)] show ?thesis
    unfolding typed_ok_def TTYHOG_def by (auto simp: ctl_def intro!: exI [of _ "[]"])
qed

lemma out_only_fields:
  assumes "out_only s s'"
  shows "t_delct s' = t_delct s \<and> t_flags s' = t_flags s \<and> t_chan s' = t_chan s \<and> t_kill s' = t_kill s"
proof -
  let ?u = "s'\<lparr>t_outq := t_outq s, clm := clm s, t_col := t_col s, tk_nout := tk_nout s\<rparr>"
  from assms have eq: "?u = s" by (simp only: out_only_def)
  have "t_delct ?u = t_delct s' \<and> t_flags ?u = t_flags s' \<and> t_chan ?u = t_chan s' \<and> t_kill ?u = t_kill s'" by simp
  then show ?thesis unfolding eq by simp
qed

lemma typed_ok_out:
  assumes "out_grows qs s s'" and "typed_ok qs s"
  shows "typed_ok qs s' \<and> t_flags s' = t_flags s"
proof -
  have "t_delct s' = t_delct s \<and> t_flags s' = t_flags s"
    using assms(1) out_only_fields by (auto simp: out_grows_def)
  with assms show ?thesis unfolding typed_ok_def out_grows_def by metis
qed

lemma count_255: "c \<noteq> 255 \<Longrightarrow> count_list (raw @ [c]) (255 :: u8) = count_list raw 255"
  by (induction raw) auto

lemma count_255': "count_list (raw @ [255]) (255 :: u8) = Suc (count_list raw 255)"
  by (induction raw) auto

lemma enter_raw:
  assumes "int (length raw) \<le> TTYHOG" and "holds qs s raw can out"
    and "t_delct s = of_nat (count_list raw 255)" and "ucast c \<noteq> (255 :: u8)"
  shows "\<exists>raw'. holds qs (snd (putc_raw c s)) raw' can out \<and> t_delct (snd (putc_raw c s)) = of_nat (count_list raw' 255) \<and>
    int (length raw') \<le> TTYHOG + 1 \<and> t_flags (snd (putc_raw c s)) = t_flags s"
proof -
  from putc_raw_ok [OF assms(2), of c] obtain r q m where
    one: "putc_raw c s = (r, s\<lparr>t_rawq := q, clm := m\<rparr>)" and
    "holds qs (s\<lparr>t_rawq := q, clm := m\<rparr>) (raw @ [ucast c]) can out \<or> holds qs (s\<lparr>t_rawq := q, clm := m\<rparr>) raw can out"
    by auto
  then show ?thesis
  proof (elim disjE)
    assume "holds qs (s\<lparr>t_rawq := q, clm := m\<rparr>) (raw @ [ucast c]) can out"
    then show ?thesis using one assms(1,3) count_255 [OF assms(4)] by (intro exI [of _ "raw @ [ucast c]"]) simp
  next
    assume "holds qs (s\<lparr>t_rawq := q, clm := m\<rparr>) raw can out"
    then show ?thesis using one assms(1,3) by (intro exI [of _ raw]) simp
  qed
qed

lemma enter_delim:
  assumes "holds qs s raw can out" and "t_delct s = of_nat (count_list raw 255)" and "int (length raw) \<le> TTYHOG + 1"
  shows "typed_ok qs (let (r, s') = putc_raw 255 s in if r = 0 then s'\<lparr>t_delct := t_delct s' + 1\<rparr> else s')"
proof -
  from putc_raw_ok [OF assms(1), of 255] obtain r q m where
    one: "putc_raw 255 s = (r, s\<lparr>t_rawq := q, clm := m\<rparr>)" and
    res: "r = 0 \<and> holds qs (s\<lparr>t_rawq := q, clm := m\<rparr>) (raw @ [255]) can out \<or>
          r = - 1 \<and> holds qs (s\<lparr>t_rawq := q, clm := m\<rparr>) raw can out" by auto
  from res show ?thesis
  proof (elim disjE conjE)
    assume r: "r = 0" "holds qs (s\<lparr>t_rawq := q, clm := m\<rparr>) (raw @ [255]) can out"
    from r(2) have "holds qs (s\<lparr>t_rawq := q, clm := m, t_delct := t_delct s + 1\<rparr>) (raw @ [255]) can out"
      by (rule holds_upd) simp_all
    then have "typed_ok qs (s\<lparr>t_rawq := q, clm := m, t_delct := t_delct s + 1\<rparr>)"
      unfolding typed_ok_def using assms(2,3) count_255' [of raw]
      by (intro exI [of _ "raw @ [255]"] exI [of _ can] exI [of _ out]) simp
    then show ?thesis using one r(1) by simp
  next
    assume r: "r = - 1" "holds qs (s\<lparr>t_rawq := q, clm := m\<rparr>) raw can out"
    then have "typed_ok qs (s\<lparr>t_rawq := q, clm := m\<rparr>)" using assms(2,3) by (intro typed_okI [OF r(2)]) simp_all
    then show ?thesis using one r(1) by simp
  qed
qed

lemma seven_bits:
  assumes "(c :: u16) < 128"
  shows "ucast c \<noteq> (255 :: u8)" and "65 \<le> c \<and> c \<le> 90 \<Longrightarrow> ucast (c + 32) \<noteq> (255 :: u8)"
proof -
  have u: "unat (ucast x :: u8) = unat x" if "unat x < 256" for x :: u16
    using that by (simp add: unsigned_ucast_eq take_bit_nat_eq_self)
  show "ucast c \<noteq> (255 :: u8)"
    using u [of c] assms by (auto simp: word_less_nat_alt dest: arg_cong [of _ _ unat])
  assume b: "65 \<le> c \<and> c \<le> 90"
  then have "unat (c + 32) = unat c + 32" "unat c \<le> 90"
    by (auto simp: word_le_nat_alt unat_add_no_wrap)
  then show "ucast (c + 32) \<noteq> (255 :: u8)"
    using u [of "c + 32"] by (auto dest: arg_cong [of _ _ unat])
qed

lemma typed_ok_enter:
  assumes "driver_ok qs d" and "typed_ok qs s" and "t_flags s AND (RAW OR CBREAK) = 0" and "c < 128"
  shows "typed_ok qs (enter_char d c s) \<and> t_flags (enter_char d c s) = t_flags s"
proof -
  from assms(2) obtain raw can out where h: "holds qs s raw can out"
    "t_delct s = of_nat (count_list raw 255)" by (auto simp: typed_ok_def)
  show ?thesis
  proof (cases "c_cc (t_rawq s) > TTYHOG")
    case True
    then show ?thesis using typed_ok_flush [OF assms(1,2)] by (simp add: enter_char_def)
  next
    case False
    define cc where "cc = (if fl s LCASE \<and> 65 \<le> c \<and> c \<le> 90 then c + 32 else c)"
    let ?c = cc
    let ?s1 = "snd (putc_raw ?c s)"
    have "int (length raw) \<le> TTYHOG" using False holds_cc [OF h(1)] by simp
    moreover have "ucast ?c \<noteq> (255 :: u8)" using seven_bits [OF assms(4)] by (auto simp: cc_def)
    ultimately obtain raw' where r: "holds qs ?s1 raw' can out" "t_delct ?s1 = of_nat (count_list raw' 255)"
      "int (length raw') \<le> TTYHOG + 1" and f1: "t_flags ?s1 = t_flags s"
      using enter_raw [OF _ h] by blast
    have t1: "typed_ok qs ?s1" using r(3) by (intro typed_okI [OF r(1,2)]) simp
    define s2 where "s2 = (let (r, s') = putc_raw 255 ?s1 in if r = 0 then s'\<lparr>t_delct := t_delct s' + 1\<rparr> else s')"
    let ?s2 = s2
    have t2: "typed_ok qs ?s2" unfolding s2_def by (rule enter_delim [OF r])
    have f2: "t_flags ?s2 = t_flags s" using f1 by (simp add: s2_def putc_raw_def Let_def case_prod_beta)
    define s3 where "s3 = (if ?c = 10 \<or> is_char ?c (t_eofc ?s1) \<or> is_char ?c (t_brkc ?s1)
      then (if t_chan ?s2 \<noteq> 0 then log_ev (Sdata (t_chan ?s2)) ?s2 else log_ev (Wakeup C_rawq) ?s2) else ?s1)"
    have t3: "typed_ok qs s3" "t_flags s3 = t_flags s"
      using t1 t2 f1 f2 by (auto simp: s3_def)
    let ?s4 = "ttyoutput ?c s3"
    let ?s5 = "if is_char ?c (t_kill ?s4) then ttyoutput 10 ?s4 else ?s4"
    have t4: "typed_ok qs ?s4 \<and> t_flags ?s4 = t_flags s"
      using typed_ok_out [OF ttyout_grows t3(1)] t3(2) by (simp add: ttyoutput_def)
    then have t5: "typed_ok qs ?s5 \<and> t_flags ?s5 = t_flags s"
      using typed_ok_out [OF ttyout_grows, of qs ?s4 2 10] by (auto simp: ttyoutput_def)
    have "enter_char d c s = (if fl s3 ECHO then ttstart d ?s5 else s3)"
    proof -
      have ck: "(t_flags ?s1 AND (RAW OR CBREAK) = 0) = True" using f1 assms(3) by simp
      show ?thesis
        unfolding enter_char_def s3_def s2_def Let_def cc_def [symmetric] if_not_P [OF False] ck
        by (simp only: simp_thms if_True)
    qed
    then show ?thesis using t3 t5 typed_ok_start [OF assms(1)] by auto
  qed
qed

lemma typed_ok_block:
  assumes "driver_ok qs d" and "typed_ok qs s"
  shows "typed_ok qs (ttyblock d s) \<and> t_flags (ttyblock d s) = t_flags s"
proof -
  define s1 where "s1 = (if c_cc (t_rawq s) > TTYHOG then clr_st TBLOCK (flushtty d s) else s)"
  have s1: "typed_ok qs s1" "t_flags s1 = t_flags s"
    using typed_ok_flush [OF assms] assms(2) by (auto simp: s1_def)
  define s2 where "s2 = snd (putc_out (scast (t_stopc s1)) s1)"
  have s2: "typed_ok qs s2" "t_flags s2 = t_flags s"
    using typed_ok_out [OF putc_out_grows s1(1), of "scast (t_stopc s1)"] s1(2) by (auto simp: s2_def)
  let ?s3 = "(set_st TBLOCK s2)\<lparr>t_char := t_char (set_st TBLOCK s2) + 1\<rparr>"
  have "typed_ok qs ?s3" "t_flags ?s3 = t_flags s" using s2 by (simp_all add: set_st_def) (simp add: typed_ok_def holds_def)
  then have s3: "typed_ok qs (ttstart d ?s3)" "t_flags (ttstart d ?s3) = t_flags s"
    using typed_ok_start [OF assms(1)] by auto
  have "ttyblock d s = (if c_cc (t_rawq s) + c_cc (t_canq s) \<ge> TTYHOG div 2
      then (if fst (putc_out (scast (t_stopc s1)) s1) = 0 then ttstart d ?s3 else s2) else s1)"
    by (simp add: ttyblock_def Let_def s1_def [symmetric] s2_def case_prod_beta)
  then show ?thesis using s1 s2 s3 by simp
qed

lemma and_127_less: "(c AND 127 :: u16) < 128"
proof -
  have "c AND 127 = take_bit 7 c" by (simp add: take_bit_eq_mask mask_eq_exp_minus_1)
  moreover have "unat (take_bit 7 c) < 128"
    using take_bit_nat_less_exp [of 7 "unat c"] by (simp add: unsigned_take_bit_eq)
  ultimately show ?thesis by (simp add: word_less_nat_alt)
qed

lemma typed_ok_input:
  assumes "driver_ok qs d" and "typed_ok qs s" and "t_flags s AND (RAW OR CBREAK) = 0"
  shows "typed_ok qs (ttyinput d c s) \<and> t_flags (ttyinput d c s) = t_flags s"
proof -
  define s1 where "s1 = (if fl (s\<lparr>tk_nin := tk_nin s + 1\<rparr>) TANDEM then ttyblock d (s\<lparr>tk_nin := tk_nin s + 1\<rparr>)
     else s\<lparr>tk_nin := tk_nin s + 1\<rparr>)"
  have "typed_ok qs (s\<lparr>tk_nin := tk_nin s + 1\<rparr>)" using assms(2) by simp
  from typed_ok_block [OF assms(1) this] this have s1: "typed_ok qs s1" "t_flags s1 = t_flags s"
    by (auto simp: s1_def)
  have raw: "\<not> fl s1 RAW"
  proof
    assume "fl s1 RAW"
    then have "t_flags s AND RAW \<noteq> 0" using s1(2) by (simp add: fl_def)
    moreover have "t_flags s AND RAW = (t_flags s AND (RAW OR CBREAK)) AND RAW"
      by (simp add: and.assoc)
    ultimately show False using assms(3) by simp
  qed
  let ?c = "(c AND 255) AND 127"
  define s2 where "s2 = (if st s1 TTSTOP then ttstart d (clr_st TTSTOP s1) else s1)"
  have go: "typed_ok qs (ttstart d (clr_st TTSTOP s1)) \<and> t_flags (ttstart d (clr_st TTSTOP s1)) = t_flags s"
    using typed_ok_start [OF assms(1)] s1 by auto
  then have s2: "typed_ok qs s2" "t_flags s2 = t_flags s" using s1 by (auto simp: s2_def)
  have stop: "typed_ok qs (d_stop d (set_st TTSTOP s1)) \<and> t_flags (d_stop d (set_st TTSTOP s1)) = t_flags s"
    using typed_ok_drv [OF assms(1), of "d_stop d"] s1 by auto
  have flush: "typed_ok qs (log_ev e (flushtty d s2)) \<and> t_flags (log_ev e (flushtty d s2)) = t_flags s" for e
    using typed_ok_flush [OF assms(1) s2(1)] s2(2) by simp
  let ?n = "if ?c = 13 \<and> fl s2 CRMOD then 10 else ?c"
  have "?n < 128" using and_127_less [of "c AND 255"] by simp
  then have enter: "typed_ok qs (enter_char d ?n s2) \<and> t_flags (enter_char d ?n s2) = t_flags s"
    using typed_ok_enter [OF assms(1) s2(1)] s2(2) assms(3) by simp
  have "ttyinput d c s \<in> {ttstart d (clr_st TTSTOP s1), s1, d_stop d (set_st TTSTOP s1),
      log_ev (Scontrol (t_chan (flushtty d s2)) SIGINT) (flushtty d s2),
      log_ev (Scontrol (t_chan (flushtty d s2)) SIGQUIT) (flushtty d s2),
      log_ev (Signal (t_pgrp (flushtty d s2)) SIGINT) (flushtty d s2),
      log_ev (Signal (t_pgrp (flushtty d s2)) SIGQUIT) (flushtty d s2), enter_char d ?n s2}"
    using raw unfolding ttyinput_def Let_def s1_def [symmetric] s2_def [symmetric]
    by (simp only: simp_thms if_False) (auto split: if_splits)
  then show ?thesis using go s1 stop flush enter by auto
qed

section \<open>Properties\<close>

definition demo_tty :: tty where
  "demo_tty = \<lparr>u_base = 0, u_count = 0, u_offset = 0, u_segflg = 0, u_error = 0, u_mem = (\<lambda>_ _. None),
     t_rawq = \<lparr>c_cc = 6, c_cf = 18, c_cl = 24\<rparr>, t_canq = \<lparr>c_cc = 0, c_cf = 0, c_cl = 0\<rparr>,
     t_outq = \<lparr>c_cc = 0, c_cf = 0, c_cl = 0\<rparr>, t_chan = 0, t_dev = 0, t_flags = TBDELAY OR ECHO, t_state = CARR_ON,
     t_pgrp = 7, t_delct = 1, t_line = 0, t_col = 3, t_erase = 35, t_kill = 64, t_char = 0, t_ispeed = 0, t_ospeed = 0,
     t_intrc = 127, t_quitc = 28, t_startc = 17, t_stopc = 19, t_eofc = 4, t_brkc = 255,
     clm = \<lparr>c_next = (\<lambda>_. 0)(32 := 48), c_info = (\<lambda>_. 0)(18 := 97, 19 := 98, 20 := 35, 21 := 99, 22 := 10, 23 := 255),
       cfreelist = 32, cbad = 0, spl = 0\<rparr>,
     evs = [], p_pgrp = 7, p_pid = 7, u_ttyp = True, u_ttyd = 0, tk_nin = 0, tk_nout = 0\<rparr>"

lemma demo_tty_holds: "holds [] demo_tty [97, 98, 35, 99, 10, 255] [] []"
proof -
  have "pool [(t_rawq demo_tty, [16]), (t_canq demo_tty, []), (t_outq demo_tty, [])] [32, 48] (clm demo_tty)"
    by (simp add: pool_def qwf_def demo_tty_def upt_rec)
  moreover have "contents (t_rawq demo_tty) [16] (clm demo_tty) = [97, 98, 35, 99, 10, 255]"
    "contents (t_canq demo_tty) [] (clm demo_tty) = []" "contents (t_outq demo_tty) [] (clm demo_tty) = []"
    by (simp_all add: contents_def demo_tty_def upt_rec)
  ultimately show ?thesis unfolding holds_def by blast
qed

definition demo_driver :: driver where
  "demo_driver = \<lparr>d_oproc = (\<lambda>s. snd (getc_out s)), d_stop = (\<lambda>s. s)\<rparr>"

lemma demo_driver_ok: "driver_ok qs demo_driver"
  unfolding driver_ok_def
proof (intro ballI allI impI)
  fix f s raw can out
  assume f: "f \<in> {d_oproc demo_driver, d_stop demo_driver}" and h: "holds qs s raw can out"
  have same: "ctl (snd (getc_out s)) = ctl s \<and> evs (snd (getc_out s)) = evs s"
    by (simp add: getc_out_def case_prod_beta ctl_def)
  have "\<exists>n. holds qs (snd (getc_out s)) raw can (drop n out)"
  proof (cases out)
    case Nil
    with getc_out_empty [of qs s raw can] h show ?thesis by auto
  next
    case (Cons c cs)
    with getc_out_ok [of qs s raw can c cs] h show ?thesis by (auto intro!: exI [of _ 1])
  qed
  moreover have "\<exists>n. holds qs s raw can (drop n out)" using h by (intro exI [of _ 0]) simp
  ultimately show "ctl (f s) = ctl s \<and> evs (f s) = evs s \<and> (\<exists>n. holds qs (f s) raw can (drop n out))"
    using f same by (auto simp: demo_driver_def)
qed

text \<open>
  C14. \<open>canon\<close> in cooked mode, with a delimiter in the raw queue, takes one line: it removes the
  first line and its delimiter, applies the editing of \<open>edit\<close> to it and appends the result
  to the canonical queue: all of it, or, only when the character blocks run out, as much of it
  as fits, so that the queue then takes no further character; it returns the length of the edited
  line, and what was typed after the line stays in the raw queue.
\<close>

theorem canon_edits_line:
  assumes "holds qs s (line @ 255 # rest) can out" and "t_flags s AND (RAW OR CBREAK) = 0"
    and "t_delct s \<noteq> 0" and "\<forall>c \<in> set line. c < 128" and "length line + 2 < CANBSIZ" and "\<not> st s TBLOCK"
  shows "\<exists>q cq m n. let ed = edit (t_erase s) (t_kill s) (t_eofc s) (fl s LCASE) line;
        s' = s\<lparr>t_rawq := q, t_canq := cq, clm := m, t_delct := t_delct s - 1\<rparr> in
     canon d s = TRet (length ed) s' \<and> n \<le> length ed \<and> holds qs s' rest (can @ take n ed) out \<and>
     (n < length ed \<longrightarrow> (\<forall>c. putc c cq m = (- 1, cq, m)))"
  by (rule canon_line [OF assms])

theorem canon_edits_line_witness:
  "\<exists>q cq m n. let ed = edit (t_erase demo_tty) (t_kill demo_tty) (t_eofc demo_tty) (fl demo_tty LCASE) [97, 98, 35, 99, 10];
        s' = demo_tty\<lparr>t_rawq := q, t_canq := cq, clm := m, t_delct := t_delct demo_tty - 1\<rparr> in
     canon demo_driver demo_tty = TRet (length ed) s' \<and> n \<le> length ed \<and> holds [] s' [] ([] @ take n ed) [] \<and>
     (n < length ed \<longrightarrow> (\<forall>c. putc c cq m = (- 1, cq, m)))"
proof (rule canon_edits_line)
  show "holds [] demo_tty ([97, 98, 35, 99, 10] @ 255 # []) [] []" using demo_tty_holds by simp
qed (simp_all add: demo_tty_def st_def CANBSIZ_def)

text \<open>
  The editing keys. After a line that does not end in a backslash: an ordinary character
  is appended and the erase character takes it back; erase removes the last character of
  what is left; kill discards the line; a backslash before the erase or the kill character
  enters that character itself and the backslash is gone.
\<close>

theorem edit_keys:
  assumes E: "E = edit er ki eof lc xs" "E = [] \<or> last E \<noteq> 92"
    and c: "c \<notin> {er, ki, eof, 92}" and sp: "92 \<notin> {er, ki, eof}" "er \<noteq> ki" "er \<noteq> 0" "ki \<noteq> 0"
  shows "edit er ki eof lc (xs @ [c]) = E @ [c] \<and> edit er ki eof lc (xs @ [c, er]) = E \<and>
    edit er ki eof lc (xs @ [er]) = butlast E \<and> edit er ki eof lc (xs @ [ki]) = [] \<and>
    edit er ki eof lc (xs @ [92, er]) = E @ [er] \<and> edit er ki eof lc (xs @ [92, ki]) = E @ [ki]"
proof -
  let ?l = "foldl (key er ki eof lc) [] xs"
  have l: "E = rev ?l" using E(1) by (simp add: edit_def)
  have b: "bp1 ?l \<noteq> 92" using E(2) l by (cases ?l) (auto simp: bp1_def)
  have "bp2 (92 # ?l) \<noteq> 92" using b by (cases ?l) (auto simp: bp1_def bp2_def)
  moreover have "bp1 (92 # ?l) = 92" "bp1 (c # ?l) \<noteq> 92" using c by (auto simp: bp1_def)
  moreover have "butlast E = rev (tl ?l)" unfolding l by (cases ?l) auto
  ultimately show ?thesis
    using b c sp l by (auto simp: edit_def key_def esc_char_def)
qed

theorem edit_keys_witness:
  "edit 35 64 4 False ([104, 105] @ [97]) = [104, 105] @ [97] \<and> edit 35 64 4 False ([104, 105] @ [97, 35]) = [104, 105] \<and>
    edit 35 64 4 False ([104, 105] @ [35]) = butlast [104, 105] \<and> edit 35 64 4 False ([104, 105] @ [64]) = [] \<and>
    edit 35 64 4 False ([104, 105] @ [92, 35]) = [104, 105] @ [35] \<and> edit 35 64 4 False ([104, 105] @ [92, 64]) = [104, 105] @ [64]"
  by (rule edit_keys) (simp_all add: edit_def key_def bp1_def)

text \<open>
  C26. Every character that arrives in cooked mode, whatever it is, keeps the count of
  delimiters exact: \<open>t_delct\<close> is the number of 0377 bytes in the raw queue, so that \<open>canon\<close>
  waits exactly as long as no complete line is there; and the raw queue stays within
  \<open>TTYHOG\<close> + 2 characters.
\<close>

theorem ttyinput_counts_delimiters:
  assumes "driver_ok qs d" and "typed_ok qs s" and "t_flags s AND (RAW OR CBREAK) = 0"
  shows "typed_ok qs (ttyinput d c s) \<and> t_flags (ttyinput d c s) = t_flags s"
  by (rule typed_ok_input [OF assms])

theorem ttyinput_counts_delimiters_witness:
  "typed_ok [] (ttyinput demo_driver 10 demo_tty) \<and> t_flags (ttyinput demo_driver 10 demo_tty) = t_flags demo_tty"
proof (rule ttyinput_counts_delimiters [OF demo_driver_ok])
  show "typed_ok [] demo_tty"
    by (rule typed_okI [OF demo_tty_holds]) (simp_all add: demo_tty_def TTYHOG_def)
qed (simp add: demo_tty_def)

text \<open>
  The interrupt character (when it is neither the start nor the stop character) empties
  all three queues, forgets the delimiters and sends SIGINT to the process group of the
  terminal.
\<close>

theorem interrupt_flushes:
  assumes "driver_ok qs d" and "holds qs s raw can out" and "t_flags s AND (RAW OR TANDEM) = 0"
    and "t_intrc s < 128" and "t_intrc s \<notin> {t_startc s, t_stopc s}" and "t_chan s = 0" and "\<not> st s TTSTOP"
  shows "let s' = ttyinput d (ucast (t_intrc s)) s in
    holds qs s' [] [] [] \<and> t_delct s' = 0 \<and>
    evs s' = evs s @ [Wakeup C_rawq, Wakeup C_outq, Signal (t_pgrp s) SIGINT]"
proof -
  let ?s = "s\<lparr>tk_nin := tk_nin s + 1\<rparr>" and ?c = "ucast (t_intrc s) :: u16"
  have nofl: "\<not> fl s b" if "b AND (RAW OR TANDEM) = b" for b
  proof -
    have "t_flags s AND b = (t_flags s AND (RAW OR TANDEM)) AND b"
      using that by (metis and.assoc and.commute)
    then show ?thesis using assms(3) by (simp add: fl_def)
  qed
  have f: "\<not> fl ?s RAW" "\<not> fl ?s TANDEM" "\<not> st ?s TTSTOP"
    using nofl [of RAW] nofl [of TANDEM] assms(7) by (simp_all add: fl_def st_def)
  have u: "unat ?c < 128" using assms(4) by (simp add: unat_ucast_8 word_less_nat_alt)
  have c: "(?c AND 255) AND 127 = ?c"
  proof -
    have "?c AND 127 = take_bit 7 ?c" by (simp add: take_bit_eq_mask mask_eq_exp_minus_1)
    moreover have "unat (take_bit 7 ?c) = unat ?c"
      using u by (simp add: unsigned_take_bit_eq take_bit_nat_eq_self)
    ultimately have "?c AND 127 = ?c" by (simp add: word_unat_eq_iff)
    then show ?thesis by (simp add: and.assoc)
  qed
  have h: "holds qs ?s raw can out" using assms(2) by (rule holds_upd) simp_all
  from flushtty_ok [OF h assms(1)] have fl: "holds qs (flushtty d ?s) [] [] []" "t_delct (flushtty d ?s) = 0"
    "t_pgrp (flushtty d ?s) = t_pgrp s" "t_chan (flushtty d ?s) = 0" "t_intrc (flushtty d ?s) = t_intrc s"
    "evs (flushtty d ?s) = evs s @ [Wakeup C_rawq, Wakeup C_outq]"
    using assms(6) by (auto simp: ctl_def)
  have "ttyinput d ?c s = log_ev (Signal (t_pgrp (flushtty d ?s)) SIGINT) (flushtty d ?s)"
    using f fl(3-5) assms(5) c is_char_7bit [OF assms(4)] by (simp add: ttyinput_def Let_def)
  moreover have "holds qs (log_ev e (flushtty d ?s)) [] [] []" for e
    using fl(1) by (rule holds_upd) (simp_all add: log_ev_def)
  ultimately show ?thesis using fl by (simp add: log_ev_def)
qed

theorem interrupt_flushes_witness:
  "let s' = ttyinput demo_driver (ucast (t_intrc demo_tty)) demo_tty in
    holds [] s' [] [] [] \<and> t_delct s' = 0 \<and>
    evs s' = evs demo_tty @ [Wakeup C_rawq, Wakeup C_outq, Signal (t_pgrp demo_tty) SIGINT]"
  by (rule interrupt_flushes [OF demo_driver_ok demo_tty_holds]) (simp_all add: demo_tty_def st_def)

text \<open>
  With tab expansion a tab sends blanks up to the next multiple of 8 columns (fewer only
  when character blocks run out), never a tab, and the column counter is there afterwards.
\<close>

theorem tab_expands_to_blanks:
  assumes "holds qs s raw can out" and "\<not> fl s RAW" and "t_flags s AND TBDELAY = XTABS"
  shows "\<exists>j \<le> 8 - unat (t_col s) mod 8. holds qs (ttyoutput 9 s) raw can (out @ replicate j 32) \<and>
    t_col (ttyoutput 9 s) = t_col s + of_nat (8 - unat (t_col s) mod 8)"
proof -
  let ?s = "s\<lparr>tk_nout := tk_nout s + 1\<rparr>"
  have h: "holds qs ?s raw can out" using assms(1) by (rule holds_upd) simp_all
  have nr: "\<not> fl ?s RAW" using assms(2) by (simp add: fl_def)
  have le: "7 - unat (t_col ?s) mod 8 \<le> 8" by (rule le_trans [OF diff_le_self]) simp
  have tc: "t_col ?s = t_col s" by simp
  from tab_loop_blanks [OF h nr le, of 0] obtain j where "j \<le> 8 - unat (t_col s) mod 8"
    "holds qs (tab_loop 8 (ttyout (Suc 0) 32) ?s) raw can (out @ replicate j 32)"
    "t_col (tab_loop 8 (ttyout (Suc 0) 32) ?s) = t_col s + of_nat (8 - unat (t_col s) mod 8)"
    unfolding tc by blast
  moreover have "ttyoutput 9 s = tab_loop 8 (ttyout (Suc 0) 32) ?s"
    using assms(2,3) unfolding ttyoutput_def numeral_2_eq_2 ttyout.simps(2) [of "Suc 0"]
    by (simp add: Let_def fl_def CEOT_def del: ttyout.simps)
  ultimately show ?thesis by (simp only:) blast
qed

theorem tab_expands_to_blanks_witness:
  "\<exists>j \<le> 8 - unat (t_col demo_tty) mod 8. holds [] (ttyoutput 9 demo_tty) [97, 98, 35, 99, 10, 255] [] ([] @ replicate j 32) \<and>
    t_col (ttyoutput 9 demo_tty) = t_col demo_tty + of_nat (8 - unat (t_col demo_tty) mod 8)"
  by (rule tab_expands_to_blanks [OF demo_tty_holds]) (simp_all add: demo_tty_def fl_def)

end
