(* ===== verification/Sched.thy ===== *)
theory Sched
  imports V7_Prelude Res_Map
begin

text \<open>
  Processes and the processor (\<open>sys/slp.c\<close>, \<open>h/proc.h\<close>): the process table, the run queue
  and the hashed sleep queues, \<open>setrq\<close>, \<open>setrun\<close>, \<open>wakeup\<close>, the queueing part of \<open>sleep\<close>,
  \<open>setpri\<close> and the choice of \<open>swtch\<close>. The lemmas read the linked queues as lists
  (\<open>queues\<close>) and show what each operation does to these lists; the properties are that
  \<open>wakeup\<close> wakes everyone on the channel, the one situation in which it does not, and that
  \<open>swtch\<close> takes the best process.
\<close>

unbundle bit_operations_syntax

section \<open>Processes\<close>

text \<open>
  The process table. A process is its index in \<open>proc\<close>; a pointer to a process is an index or
  \<^const>\<open>None\<close>. In a zombie the exit status lies over \<open>p_addr\<close> and the user time over \<open>p_size\<close>
  and \<open>p_wchan\<close> (\<open>struct xproc\<close>), which is why \<open>wakeup\<close> and the scheduler look at the
  state before they trust \<open>p_wchan\<close>; the system time lies over two pointers and has the field
  \<open>xp_stime\<close> of its own here.
\<close>

record proc =
  p_stat :: u8
  p_flag :: u8
  p_pri :: u8
  p_time :: u8
  p_cpu :: u8
  p_nice :: u8
  p_sig :: u16
  p_uid :: u16
  p_pgrp :: u16
  p_pid :: u16
  p_ppid :: u16
  p_addr :: u16
  p_size :: u16
  p_wchan :: u16
  p_textp :: "nat option"
  p_link :: "nat option"
  p_clktim :: u16
  xp_stime :: u32

abbreviation SSLEEP :: u8 where "SSLEEP \<equiv> 1"
abbreviation SRUN :: u8 where "SRUN \<equiv> 3"
abbreviation SIDL :: u8 where "SIDL \<equiv> 4"
abbreviation SZOMB :: u8 where "SZOMB \<equiv> 5"
abbreviation SSTOP :: u8 where "SSTOP \<equiv> 6"

abbreviation SLOAD :: u8 where "SLOAD \<equiv> 1"
abbreviation SSYS :: u8 where "SSYS \<equiv> 2"
abbreviation SLOCK :: u8 where "SLOCK \<equiv> 4"
abbreviation SSWAP :: u8 where "SSWAP \<equiv> 8"
abbreviation STRC :: u8 where "STRC \<equiv> 16"
abbreviation SWTED :: u8 where "SWTED \<equiv> 32"
abbreviation SULOCK :: u8 where "SULOCK \<equiv> 64"

definition NPROC :: nat where "NPROC = 150"
definition PSWP :: int where "PSWP = 0"
definition PZERO :: int where "PZERO = 25"
definition NZERO :: int where "NZERO = 20"
definition PUSER :: int where "PUSER = 50"

text \<open>
  The scheduler's variables, with the addresses that serve as wait channels (they are fixed
  when the kernel is linked; \<open>struct proc\<close> has 28 bytes). \<open>cur\<close> is \<open>u.u_procp\<close>, \<open>console\<close> what
  the kernel prints.
\<close>

record kst = maps +
  procs :: "nat \<Rightarrow> proc"
  slpque :: "nat \<Rightarrow> nat option"
  runq :: "nat option"
  cur :: nat
  runout :: u8
  runrun :: u8
  curpri :: u8
  console :: "string list"
  a_runin :: u16
  a_runout :: u16
  a_lbolt :: u16
  a_proc :: u16

definition proc_addr :: "'z kst_scheme \<Rightarrow> nat \<Rightarrow> u16" where
  "proc_addr s i = a_proc s + 28 * of_nat i"

text \<open>
  The outcome of a kernel routine: it returns, it goes to sleep on a channel at a priority (the
  state is the one other processes find), it panics, it follows a list without end, or it
  leaves an array (what happens then the source does not say).
\<close>

datatype ('a, 's) kres = Ok 'a 's | Sleeps u16 int 's | Panic string | Stuck | Wild

fun bnd :: "('a, 's) kres \<Rightarrow> ('a \<Rightarrow> 's \<Rightarrow> ('b, 's) kres) \<Rightarrow> ('b, 's) kres" where
  "bnd (Ok a s) f = f a s"
| "bnd (Sleeps c pri s) f = Sleeps c pri s"
| "bnd (Panic m) f = Panic m"
| "bnd Stuck f = Stuck"
| "bnd Wild f = Wild"

text \<open>\<open>post r P\<close>: if the routine returns, its answer and state satisfy \<open>P\<close>.\<close>

definition post :: "('a, 's) kres \<Rightarrow> ('a \<Rightarrow> 's \<Rightarrow> bool) \<Rightarrow> bool" where
  "post r P = (\<forall>a s. r = Ok a s \<longrightarrow> P a s)"

lemma post_simps [simp]:
  "post (Ok a s) P = P a s" "post (Sleeps c pri s) P" "post (Panic m) P" "post Stuck P" "post Wild P"
  by (simp_all add: post_def)

lemma postI: "(\<And>a s. r = Ok a s \<Longrightarrow> P a s) \<Longrightarrow> post r P"
  by (simp add: post_def)

lemma post_mono: "post r Q \<Longrightarrow> (\<And>a s. Q a s \<Longrightarrow> P a s) \<Longrightarrow> post r P"
  by (simp add: post_def)

lemma post_bndI: "post r Q \<Longrightarrow> (\<And>a s. Q a s \<Longrightarrow> post (f a s) P) \<Longrightarrow> post (bnd r f) P"
  by (cases r) simp_all

definition upd_proc :: "nat \<Rightarrow> (proc \<Rightarrow> proc) \<Rightarrow> 'z kst_scheme \<Rightarrow> 'z kst_scheme" where
  "upd_proc i f s = s\<lparr>procs := (procs s)(i := f (procs s i))\<rparr>"

definition has_flag :: "u8 \<Rightarrow> proc \<Rightarrow> bool" where
  "has_flag b p = (p_flag p AND b \<noteq> 0)"


section \<open>Run queue, sleep queues, wakeup\<close>

definition hash :: "u16 \<Rightarrow> nat" where
  "hash c = unat (drop_bit 5 c AND 63)"

text \<open>
  These routines run at high processor priority (\<open>spl6\<close> ... \<open>splx\<close>), so that no interrupt
  handler sees the queues half changed; the model takes each of them as one step. The
  search of the run queue; the number bounds the links that are followed.
\<close>

fun rq_has :: "nat \<Rightarrow> nat \<Rightarrow> nat option \<Rightarrow> 'z kst_scheme \<Rightarrow> bool option" where
  "rq_has n p None s = Some False"
| "rq_has 0 p (Some q) s = None"
| "rq_has (Suc n) p (Some q) s =
     (if q = p then Some True else rq_has n p (p_link (procs s q)) s)"

definition setrq :: "nat \<Rightarrow> 'z kst_scheme \<Rightarrow> (unit, 'z kst_scheme) kres" where
  "setrq p s = (case rq_has NPROC p (runq s) s of
       None \<Rightarrow> Stuck
     | Some True \<Rightarrow> Ok () (s\<lparr>console := console s @ [''proc on q'']\<rparr>)
     | Some False \<Rightarrow> Ok () ((upd_proc p (\<lambda>x. x\<lparr>p_link := runq s\<rparr>) s)\<lparr>runq := Some p\<rparr>))"

text \<open>
  \<open>wakeup\<close> and \<open>setrun\<close> call each other: \<open>wk\<close> is the loop of \<open>wakeup\<close> at the process \<open>p\<close> with
  its predecessor \<open>q\<close> on the queue, \<open>sr\<close> is \<open>setrun\<close>. The first argument bounds the depth.
\<close>

definition unlink_slp :: "u16 \<Rightarrow> nat option \<Rightarrow> nat option \<Rightarrow> 'z kst_scheme \<Rightarrow> 'z kst_scheme" where
  "unlink_slp c q sp s = (case q of
       None \<Rightarrow> s\<lparr>slpque := (slpque s)(hash c := sp)\<rparr>
     | Some q' \<Rightarrow> upd_proc q' (\<lambda>x. x\<lparr>p_link := sp\<rparr>) s)"

definition preempt :: "nat \<Rightarrow> 'z kst_scheme \<Rightarrow> 'z kst_scheme" where
  "preempt p s = (if sint (p_pri (procs s p)) < sint (curpri s) then s\<lparr>runrun := runrun s + 1\<rparr> else s)"

fun wk :: "nat \<Rightarrow> u16 \<Rightarrow> nat option \<Rightarrow> nat option \<Rightarrow> 'z kst_scheme \<Rightarrow> (unit, 'z kst_scheme) kres"
  and sr :: "nat \<Rightarrow> nat \<Rightarrow> 'z kst_scheme \<Rightarrow> (unit, 'z kst_scheme) kres" where
  "wk n c q None s = Ok () s"
| "wk 0 c q (Some p) s = Stuck"
| "wk (Suc n) c q (Some p) s =
     (if p_wchan (procs s p) = c \<and> p_stat (procs s p) \<noteq> SZOMB
      then let sp = p_link (procs s p) in
        bnd (sr n p (upd_proc p (\<lambda>x. x\<lparr>p_wchan := 0\<rparr>) (unlink_slp c q sp s))) (\<lambda>_ s'. wk n c q sp s')
      else wk n c (Some p) (p_link (procs s p)) s)"
| "sr 0 p s = Stuck"
| "sr (Suc n) p s =
     (if p_stat (procs s p) = 0 \<or> p_stat (procs s p) = SZOMB then Panic ''Running a dead proc''
      else let w = p_wchan (procs s p) in
        if w \<noteq> 0 then wk n w None (slpque s (hash w)) s
        else bnd (setrq p (upd_proc p (\<lambda>x. x\<lparr>p_stat := SRUN\<rparr>) s)) (\<lambda>_ s1.
          let s2 = preempt p s1 in
          if runout s2 \<noteq> 0 \<and> \<not> has_flag SLOAD (procs s2 p)
          then wk n (a_runout s2) None (slpque s2 (hash (a_runout s2))) (s2\<lparr>runout := 0\<rparr>)
          else Ok () s2))"

definition wakeup :: "u16 \<Rightarrow> 'z kst_scheme \<Rightarrow> (unit, 'z kst_scheme) kres" where
  "wakeup c s = wk (2 * NPROC + 4) c None (slpque s (hash c)) s"

definition setrun :: "nat \<Rightarrow> 'z kst_scheme \<Rightarrow> (unit, 'z kst_scheme) kres" where
  "setrun p s = sr (2 * NPROC + 5) p s"

text \<open>
  The part of \<open>sleep\<close> that enters the process on its queue. What follows depends on the
  signals of the process and is modelled with them.
\<close>

definition sleep_enter :: "u16 \<Rightarrow> int \<Rightarrow> 'z kst_scheme \<Rightarrow> 'z kst_scheme" where
  "sleep_enter c pri s =
     (let p = cur s; h = hash c in
      (upd_proc p (\<lambda>x. x\<lparr>p_stat := SSLEEP, p_wchan := c, p_pri := word_of_int pri, p_link := slpque s h\<rparr>) s)
        \<lparr>slpque := (slpque s)(h := Some p)\<rparr>)"


section \<open>Priorities and the choice of the next process\<close>

definition setpri :: "nat \<Rightarrow> 'z kst_scheme \<Rightarrow> int \<times> 'z kst_scheme" where
  "setpri pp s =
     (let x = procs s pp;
          p = uint (p_cpu x) div 16 + (PUSER + sint (p_nice x) - NZERO);
          p = (if p > 127 then 127 else p);
          s = (if p < sint (curpri s) then s\<lparr>runrun := runrun s + 1\<rparr> else s)
      in (p, upd_proc pp (\<lambda>x. x\<lparr>p_pri := word_of_int p\<rparr>) s))"

fun sw_scan :: "nat \<Rightarrow> 'z kst_scheme \<Rightarrow> nat option \<Rightarrow> nat option \<Rightarrow> int \<times> (nat \<times> nat option) option
    \<Rightarrow> (int \<times> (nat \<times> nat option) option) option" where
  "sw_scan n s q None r = Some r"
| "sw_scan 0 s q (Some p) r = None"
| "sw_scan (Suc n) s q (Some p) r =
     (let x = procs s p;
          r' = (if p_stat x = SRUN \<and> has_flag SLOAD x \<and> sint (p_pri x) < fst r
                then (sint (p_pri x), Some (p, q)) else r)
      in sw_scan n s (Some p) (p_link x) r')"

text \<open>
  \<open>swtch\<close> as process 0 runs it: one search of the run queue. \<^const>\<open>None\<close> is \<open>idle\<close>, after
  which the search starts again; otherwise the process is resumed, at \<open>u_ssav\<close> if it was
  being swapped when it gave up the processor (second component) and at \<open>u_rsav\<close> otherwise.
\<close>

definition swtch :: "'z kst_scheme \<Rightarrow> ((nat \<times> bool) option, 'z kst_scheme) kres" where
  "swtch s0 =
     (let s = s0\<lparr>runrun := 0\<rparr> in
      case sw_scan NPROC s None (runq s) (128, None) of
        None \<Rightarrow> Stuck
      | Some (n, None) \<Rightarrow> Ok None s
      | Some (n, Some (p, q)) \<Rightarrow>
          let lk = p_link (procs s p);
              s1 = (case q of None \<Rightarrow> s\<lparr>runq := lk\<rparr> | Some q' \<Rightarrow> upd_proc q' (\<lambda>x. x\<lparr>p_link := lk\<rparr>) s);
              sw = has_flag SSWAP (procs s1 p);
              s2 = upd_proc p (\<lambda>x. x\<lparr>p_flag := p_flag x AND NOT SSWAP\<rparr>) (s1\<lparr>curpri := word_of_int n\<rparr>)
          in Ok (Some (p, sw)) (s2\<lparr>cur := p\<rparr>))"


section \<open>The queues as lists\<close>

text \<open>
  \<open>linked L h xs\<close>: the links lead from the head \<open>h\<close> through exactly the elements of \<open>xs\<close> to the
  end. \<open>queues rq sq s\<close> gives the run queue as the list \<open>rq\<close> and the sleep queue of each hash
  value as the list \<open>sq h\<close>.
\<close>

primrec linked :: "(nat \<Rightarrow> nat option) \<Rightarrow> nat option \<Rightarrow> nat list \<Rightarrow> bool" where
  "linked L h [] = (h = None)"
| "linked L h (x # xs) = (h = Some x \<and> linked L (L x) xs)"

definition link :: "'z kst_scheme \<Rightarrow> nat \<Rightarrow> nat option" where
  "link s i = p_link (procs s i)"

definition asleep_at :: "nat \<Rightarrow> proc \<Rightarrow> bool" where
  "asleep_at h x = (p_wchan x \<noteq> 0 \<and> hash (p_wchan x) = h \<and> p_stat x \<noteq> 0 \<and> p_stat x \<noteq> SZOMB)"

definition queues :: "nat list \<Rightarrow> (nat \<Rightarrow> nat list) \<Rightarrow> 'z kst_scheme \<Rightarrow> bool" where
  "queues rq sq s \<longleftrightarrow> linked (link s) (runq s) rq \<and> (\<forall>h. linked (link s) (slpque s h) (sq h)) \<and>
     (\<forall>p \<in> set rq. p < NPROC \<and> p_wchan (procs s p) = 0) \<and>
     (\<forall>h. \<forall>p \<in> set (sq h). p < NPROC \<and> asleep_at h (procs s p))"

lemma linked_unique: "linked L h xs \<Longrightarrow> linked L h ys \<Longrightarrow> xs = ys"
proof (induction xs arbitrary: h ys)
  case Nil
  then show ?case by (cases ys) auto
next
  case (Cons x xs)
  then show ?case by (cases ys) auto
qed

lemma linked_cong: "(\<forall>x \<in> set xs. L x = L' x) \<Longrightarrow> linked L h xs = linked L' h xs"
  by (induction xs arbitrary: h) auto

lemma linked_upd: "p \<notin> set xs \<Longrightarrow> linked (L(p := v)) h xs = linked L h xs"
  by (rule linked_cong) auto

lemma linked_split:
  "linked L h (xs @ y # ys) \<Longrightarrow> linked L (Some y) (y # ys)"
  by (induction xs arbitrary: h) auto

lemma linked_distinct: "linked L h xs \<Longrightarrow> distinct xs"
proof (induction xs arbitrary: h)
  case (Cons x xs)
  have "x \<notin> set xs"
  proof
    assume "x \<in> set xs"
    then obtain ys zs where "xs = ys @ x # zs" by (meson split_list)
    moreover from this Cons.prems have "linked L (L x) (ys @ x # zs)" by simp
    then have "linked L (Some x) (x # zs)" by (rule linked_split)
    moreover have "linked L (Some x) (x # xs)" using Cons.prems by simp
    ultimately have "x # zs = x # xs" by (metis linked_unique)
    with \<open>xs = ys @ x # zs\<close> show False by auto
  qed
  then show ?case using Cons by auto
qed simp

lemma short_queue:
  assumes "distinct xs" and "\<forall>p \<in> set xs. p < NPROC"
  shows "length xs \<le> NPROC"
proof -
  have "set xs \<subseteq> {..<NPROC}" using assms(2) by auto
  from card_mono [OF _ this] show ?thesis using distinct_card [OF assms(1)] by simp
qed

text \<open>Taking an element out of the middle, and putting one in front.\<close>

lemma linked_remove:
  assumes "linked L h (xs @ y # ys)"
  shows "linked (if xs = [] then L else L(last xs := L y)) (if xs = [] then L y else h) (xs @ ys)"
  using assms
proof (induction xs arbitrary: h)
  case (Cons x xs)
  have "distinct (x # xs @ y # ys)" using Cons.prems linked_distinct by (metis append_Cons)
  then have "linked (L(x := v)) k ys = linked L k ys" for v k using linked_upd by auto
  moreover have "xs \<noteq> [] \<Longrightarrow> (L(last xs := L y)) x = L x" using \<open>distinct _\<close> by auto
  ultimately show ?case using Cons by (cases "xs = []") (auto simp del: fun_upd_apply simp add: fun_upd_same)
qed simp

lemma rq_has_linked:
  "linked (link s) h xs \<Longrightarrow> length xs \<le> n \<Longrightarrow> rq_has n p h s = Some (p \<in> set xs)"
proof (induction xs arbitrary: h n)
  case (Cons x xs)
  then show ?case by (cases n) (auto simp: link_def)
qed simp

lemma link_upd_proc:
  "link (upd_proc p f s) = (link s)(p := p_link (f (procs s p)))"
  by (auto simp: link_def upd_proc_def)

lemma setrq_ok:
  assumes "queues rq sq s" and "p \<notin> set rq"
  shows "setrq p s = Ok () ((upd_proc p (\<lambda>x. x\<lparr>p_link := runq s\<rparr>) s)\<lparr>runq := Some p\<rparr>)"
proof -
  have l: "linked (link s) (runq s) rq" and "\<forall>p \<in> set rq. p < NPROC" using assms(1) by (auto simp: queues_def)
  then have "length rq \<le> NPROC" using linked_distinct short_queue by blast
  then show ?thesis using rq_has_linked [OF l] assms(2) by (simp add: setrq_def)
qed


section \<open>Waking processes\<close>

definition strip :: "proc \<Rightarrow> proc" where "strip x = x\<lparr>p_link := None\<rparr>"

definition awaken :: "proc \<Rightarrow> proc" where "awaken x = x\<lparr>p_wchan := 0, p_stat := SRUN\<rparr>"

definition woke :: "nat set \<Rightarrow> 'z kst_scheme \<Rightarrow> 'z kst_scheme \<Rightarrow> bool" where
  "woke A s s' \<longleftrightarrow> (\<forall>i. strip (procs s' i) = strip (if i \<in> A then awaken (procs s i) else procs s i)) \<and>
     s' = s\<lparr>procs := procs s', slpque := slpque s', runq := runq s', runrun := runrun s', runout := runout s'\<rparr>"

lemma woke_refl [intro]: "woke {} s s" by (simp add: woke_def)

lemma strip_awaken [simp]: "strip (awaken x) = awaken (strip x)" by (simp add: strip_def awaken_def)
lemma awaken_twice [simp]: "awaken (awaken x) = awaken x" by (simp add: awaken_def)

lemma woke_trans:
  assumes "woke A s s'" and "woke B s' s''"
  shows "woke (A \<union> B) s s''"
proof -
  have "strip (procs s'' i) = strip (if i \<in> A \<union> B then awaken (procs s i) else procs s i)" for i
    using assms by (auto simp: woke_def)
  moreover have "s'' = s\<lparr>procs := procs s'', slpque := slpque s'', runq := runq s'', runrun := runrun s'', runout := runout s''\<rparr>"
  proof -
    obtain P Q R a b where 1: "s' = s\<lparr>procs := P, slpque := Q, runq := R, runrun := a, runout := b\<rparr>"
      using assms(1) unfolding woke_def by blast
    obtain P' Q' R' a' b' where 2: "s'' = s'\<lparr>procs := P', slpque := Q', runq := R', runrun := a', runout := b'\<rparr>"
      using assms(2) unfolding woke_def by blast
    show ?thesis unfolding 2 1 by simp
  qed
  ultimately show ?thesis by (simp add: woke_def)
qed

lemma strip_eqD:
  assumes "strip x = strip y"
  shows "p_wchan x = p_wchan y" "p_stat x = p_stat y" "p_flag x = p_flag y" "p_pri x = p_pri y"
proof -
  have "p_wchan (strip x) = p_wchan (strip y)" "p_stat (strip x) = p_stat (strip y)"
    "p_flag (strip x) = p_flag (strip y)" "p_pri (strip x) = p_pri (strip y)" using assms by simp_all
  then show "p_wchan x = p_wchan y" "p_stat x = p_stat y" "p_flag x = p_flag y" "p_pri x = p_pri y"
    by (simp_all add: strip_def)
qed

lemma woke_procD:
  assumes "woke A s s'" and "i \<notin> A"
  shows "p_wchan (procs s' i) = p_wchan (procs s i)" "p_stat (procs s' i) = p_stat (procs s i)"
    "p_flag (procs s' i) = p_flag (procs s i)"
  using assms strip_eqD [of "procs s' i" "procs s i"] by (auto simp: woke_def)

lemma woke_addr:
  assumes "woke A s s'"
  shows "a_runout s' = a_runout s" "a_runin s' = a_runin s" "a_lbolt s' = a_lbolt s" "a_proc s' = a_proc s"
    "curpri s' = curpri s" "cur s' = cur s" "runin s' = runin s"
proof -
  obtain P Q R a b where "s' = s\<lparr>procs := P, slpque := Q, runq := R, runrun := a, runout := b\<rparr>"
    using assms unfolding woke_def by blast
  then show "a_runout s' = a_runout s" "a_runin s' = a_runin s" "a_lbolt s' = a_lbolt s" "a_proc s' = a_proc s"
    "curpri s' = curpri s" "cur s' = cur s" "runin s' = runin s" by simp_all
qed

lemma queues_same:
  "procs s' = procs s \<Longrightarrow> slpque s' = slpque s \<Longrightarrow> runq s' = runq s \<Longrightarrow> queues rq sq s' = queues rq sq s"
  by (simp add: queues_def link_def [abs_def])

lemma queues_cong:
  assumes "queues rq sq s" and "link s' = link s" "slpque s' = slpque s" "runq s' = runq s"
    and "\<And>x. x \<in> set rq \<Longrightarrow> procs s' x = procs s x" and "\<And>x k. x \<in> set (sq k) \<Longrightarrow> procs s' x = procs s x"
  shows "queues rq sq s'"
  using assms by (auto simp: queues_def)

definition lastopt :: "nat list \<Rightarrow> nat option" where
  "lastopt xs = (if xs = [] then None else Some (last xs))"

text \<open>A process is on at most one queue.\<close>

lemma queues_disjoint:
  assumes "queues rq sq s"
  shows "p \<in> set (sq h) \<Longrightarrow> p \<notin> set rq" and "p \<in> set (sq h) \<Longrightarrow> p \<in> set (sq h') \<Longrightarrow> h = h'"
proof -
  show "p \<in> set (sq h) \<Longrightarrow> p \<notin> set rq" using assms by (auto simp: queues_def asleep_at_def)
  have "hash (p_wchan (procs s p)) = k" if "p \<in> set (sq k)" for k
    using assms that by (auto simp: queues_def asleep_at_def)
  then show "p \<in> set (sq h) \<Longrightarrow> p \<in> set (sq h') \<Longrightarrow> h = h'" by blast
qed

lemma unlink_queues:
  assumes q: "queues rq (sq(h := pre @ p # rest)) s" and h: "h = hash c" and c: "p_wchan (procs s p) = c"
  defines "s' \<equiv> upd_proc p (\<lambda>x. x\<lparr>p_wchan := 0\<rparr>) (unlink_slp c (lastopt pre) (p_link (procs s p)) s)"
  shows "queues rq (sq(h := pre @ rest)) s'" and "p \<notin> set rq" and "\<forall>k. p \<notin> set ((sq(h := pre @ rest)) k)"
proof -
  let ?sq = "sq(h := pre @ p # rest)" and ?sq' = "sq(h := pre @ rest)"
  have all: "linked (link s) (slpque s k) (?sq k)" for k using q by (simp add: queues_def)
  have lk: "linked (link s) (slpque s h) (pre @ p # rest)" using all [of h] by simp
  then have d: "distinct (pre @ p # rest)" by (rule linked_distinct)
  have p: "p \<in> set (?sq h)" by simp
  show nrq: "p \<notin> set rq" using queues_disjoint(1) [OF q p] .
  have psq: "p \<notin> set (?sq' k)" for k
    using d queues_disjoint(2) [OF q p, of k] by (cases "k = h") auto
  then show "\<forall>k. p \<notin> set (?sq' k)" by blast
  have mem: "x \<in> set (?sq k)" if "x \<in> set (?sq' k)" for x k using that by (cases "k = h") auto
  have last_in: "last pre \<in> set (?sq h)" if "pre \<noteq> []" using that by simp
  have link': "link s' = (if pre = [] then link s else (link s)(last pre := link s p))"
    by (rule ext) (auto simp: s'_def unlink_slp_def lastopt_def upd_proc_def link_def)
  have "linked (link s') (slpque s' k) (?sq' k)" for k
  proof (cases "k = h")
    case True
    then show ?thesis unfolding link' using linked_remove [OF lk] h
      by (auto simp: s'_def unlink_slp_def lastopt_def upd_proc_def link_def simp del: fun_upd_apply simp add: fun_upd_same)
  next
    case False
    then have "pre \<noteq> [] \<Longrightarrow> last pre \<notin> set (sq k)"
      using queues_disjoint(2) [OF q last_in, of k] by auto
    moreover have "slpque s' k = slpque s k" using False h by (auto simp: s'_def unlink_slp_def lastopt_def upd_proc_def)
    ultimately show ?thesis unfolding link' using all [of k] False by (auto simp: linked_upd simp del: fun_upd_apply simp add: fun_upd_other)
  qed
  moreover have "linked (link s') (runq s') rq"
  proof -
    have "pre \<noteq> [] \<Longrightarrow> last pre \<notin> set rq" using queues_disjoint(1) [OF q last_in] by auto
    moreover have "runq s' = runq s" by (auto simp: s'_def unlink_slp_def lastopt_def upd_proc_def)
    ultimately show ?thesis unfolding link' using q by (auto simp: queues_def linked_upd)
  qed
  moreover have pr: "p_wchan (procs s' x) = p_wchan (procs s x)" "p_stat (procs s' x) = p_stat (procs s x)" if "x \<noteq> p" for x
    using that by (auto simp: s'_def unlink_slp_def lastopt_def upd_proc_def)
  moreover have "x < NPROC \<and> asleep_at k (procs s' x)" if "x \<in> set (?sq' k)" for x k
  proof -
    have "x \<noteq> p" using psq that by auto
    then show ?thesis using pr [of x] q mem [OF that] by (auto simp: queues_def asleep_at_def)
  qed
  moreover have "x < NPROC \<and> p_wchan (procs s' x) = 0" if "x \<in> set rq" for x
    using that nrq pr [of x] q by (auto simp: queues_def)
  ultimately show "queues rq ?sq' s'" by (simp add: queues_def)
qed

text \<open>A process that is on no queue goes to the front of the run queue.\<close>

lemma enqueue:
  assumes q: "queues rq sq s" and p: "p \<notin> set rq" "\<forall>k. p \<notin> set (sq k)" "p < NPROC" "p_wchan (procs s p) = 0"
  shows "queues (p # rq) sq ((upd_proc p (\<lambda>x. x\<lparr>p_stat := SRUN, p_link := runq s\<rparr>) s)\<lparr>runq := Some p\<rparr>)"
    (is "queues _ _ ?s")
proof -
  have l: "link ?s = (link s)(p := runq s)" by (rule ext) (auto simp: link_def upd_proc_def)
  have "linked (link ?s) (slpque ?s k) (sq k)" for k
    using q p(2) unfolding l by (simp add: queues_def linked_upd upd_proc_def)
  moreover have "linked (link ?s) (runq ?s) (p # rq)"
    using q p(1) unfolding l by (simp add: queues_def linked_upd)
  moreover have "procs ?s x = procs s x" if "x \<noteq> p" for x using that by (simp add: upd_proc_def)
  then have "x < NPROC \<and> asleep_at k (procs ?s x)" if "x \<in> set (sq k)" for x k
    using q p(2) that by (cases "x = p") (auto simp: queues_def)
  moreover have "x < NPROC \<and> p_wchan (procs ?s x) = 0" if "x \<in> set (p # rq)" for x
    using q p(3,4) that by (auto simp: queues_def upd_proc_def)
  ultimately show ?thesis by (simp add: queues_def)
qed

lemma preempt_simps [simp]:
  "procs (preempt p s) = procs s" "slpque (preempt p s) = slpque s" "runq (preempt p s) = runq s"
  "runout (preempt p s) = runout s" "a_runout (preempt p s) = a_runout s"
  by (simp_all add: preempt_def)

lemma wake_one:
  assumes q: "queues rq (sq(h := pre @ p # rest)) s" and h: "h = hash c" and c: "p_wchan (procs s p) = c"
  obtains s2 where "queues (p # rq) (sq(h := pre @ rest)) s2" "woke {p} s s2" "runout s2 = runout s"
    "\<And>n. sr (Suc n) p (upd_proc p (\<lambda>x. x\<lparr>p_wchan := 0\<rparr>) (unlink_slp c (lastopt pre) (p_link (procs s p)) s)) =
       (if runout s \<noteq> 0 \<and> \<not> has_flag SLOAD (procs s p)
        then wk n (a_runout s) None (slpque s2 (hash (a_runout s))) (s2\<lparr>runout := 0\<rparr>) else Ok () s2)"
proof -
  define s1 where "s1 = upd_proc p (\<lambda>x. x\<lparr>p_wchan := 0\<rparr>) (unlink_slp c (lastopt pre) (p_link (procs s p)) s)"
  have u: "queues rq (sq(h := pre @ rest)) s1" "p \<notin> set rq" "\<forall>k. p \<notin> set ((sq(h := pre @ rest)) k)"
    unfolding s1_def by (rule unlink_queues [OF q h c])+
  have p: "p < NPROC" "asleep_at h (procs s p)"
    using q by (auto simp: queues_def dest: spec [of _ h])
  have d: "distinct (pre @ p # rest)" using q linked_distinct by (fastforce simp: queues_def dest: spec [of _ h])
  have st: "p_wchan (procs s1 p) = 0" "p_stat (procs s1 p) = p_stat (procs s p)" "has_flag b (procs s1 p) = has_flag b (procs s p)" for b
    by (auto simp: s1_def upd_proc_def unlink_slp_def has_flag_def split: option.splits)
  define t2 where "t2 = (upd_proc p (\<lambda>x. x\<lparr>p_stat := SRUN, p_link := runq s1\<rparr>) s1)\<lparr>runq := Some p\<rparr>"
  define s2 where "s2 = preempt p t2"
  have "queues (p # rq) (sq(h := pre @ rest)) s2"
    unfolding s2_def t2_def using enqueue [OF u p(1) st(1)] queues_same [OF preempt_simps(1-3)] by blast
  moreover have same: "s2 = s\<lparr>procs := procs s2, slpque := slpque s2, runq := runq s2, runrun := runrun s2, runout := runout s2\<rparr>"
    "runout s2 = runout s"
    by (auto simp: s2_def t2_def s1_def preempt_def upd_proc_def unlink_slp_def split: option.splits)
  moreover have "woke {p} s s2"
    using same d unfolding woke_def
    by (auto simp: s2_def t2_def s1_def upd_proc_def unlink_slp_def strip_def awaken_def lastopt_def)
  moreover have "sr (Suc n) p s1 =
       (if runout s \<noteq> 0 \<and> \<not> has_flag SLOAD (procs s p)
        then wk n (a_runout s) None (slpque s2 (hash (a_runout s))) (s2\<lparr>runout := 0\<rparr>) else Ok () s2)" for n
  proof -
    let ?t = "upd_proc p (\<lambda>x. x\<lparr>p_stat := SRUN\<rparr>) s1"
    have "queues rq (sq(h := pre @ rest)) ?t"
    proof (rule queues_cong [OF u(1)])
      show "link ?t = link s1" by (rule ext) (simp add: link_def upd_proc_def)
      show "procs ?t x = procs s1 x" if "x \<in> set ((sq(h := pre @ rest)) k)" for x k
        using that u(3) by (auto simp: upd_proc_def)
    qed (use u(2) in \<open>auto simp: upd_proc_def\<close>)
    from setrq_ok [OF this u(2)] have rq: "setrq p ?t = Ok () t2"
      by (simp add: t2_def upd_proc_def)
    have ro: "a_runout s2 = a_runout s" "runout s2 = runout s"
      using arg_cong [OF same(1), of a_runout] same(2) by simp_all
    have fl: "has_flag SLOAD (procs s2 p) = has_flag SLOAD (procs s p)"
      using st(3) by (simp add: s2_def t2_def upd_proc_def has_flag_def)
    have "p_stat (procs s1 p) \<noteq> 0 \<and> p_stat (procs s1 p) \<noteq> SZOMB"
      using p(2) st(2) by (simp add: asleep_at_def)
    then show ?thesis
      using st(1) ro(2) fl by (simp add: Let_def rq s2_def [symmetric] ro(1)) (simp add: s2_def)
  qed
  ultimately show ?thesis using that unfolding s1_def by blast
qed


section \<open>wakeup\<close>

abbreviation sleeps_on :: "'z kst_scheme \<Rightarrow> u16 \<Rightarrow> nat \<Rightarrow> bool" where
  "sleeps_on s c p \<equiv> p_wchan (procs s p) = c"

lemma lastopt_snoc [simp]: "lastopt (pre @ [p]) = Some p" by (simp add: lastopt_def)

lemma queue_cursor:
  assumes "queues rq (sq(h := pre @ rest)) s"
  shows "linked (link s) (if rest = [] then None else Some (hd rest)) rest"
proof (cases rest)
  case (Cons y ys)
  have "linked (link s) (slpque s h) (pre @ y # ys)"
    using assms Cons by (auto simp: queues_def dest: spec [of _ h])
  from linked_split [OF this] show ?thesis using Cons by simp
qed simp

text \<open>
  The loop of \<open>wakeup\<close> from the middle of a queue, when no process sleeps on \<open>runout\<close> or the
  loop cannot meet it: \<open>pre\<close> has been passed, \<open>rest\<close> is still to come.
\<close>

lemma wk_quiet:
  assumes "queues rq (sq(hash c := pre @ rest)) s" and "runout s = 0" and "length rest < n"
    and "p = (if rest = [] then None else Some (hd rest))"
  shows "\<exists>s'. wk n c (lastopt pre) p s = Ok () s' \<and> runout s' = 0 \<and>
     queues (rev (filter (sleeps_on s c) rest) @ rq) (sq(hash c := pre @ filter (\<lambda>x. \<not> sleeps_on s c x) rest)) s' \<and>
     woke (set (filter (sleeps_on s c) rest)) s s'"
  using assms
proof (induction rest arbitrary: pre rq s n p)
  case Nil
  then show ?case by (auto simp: woke_def)
next
  case (Cons y ys)
  then obtain m where n: "n = Suc m" "length ys < m" by (cases n) auto
  have p: "p = Some y" using Cons.prems(4) by simp
  have "linked (link s) (Some y) (y # ys)" using queue_cursor [OF Cons.prems(1)] by simp
  then have nx: "p_link (procs s y) = (if ys = [] then None else Some (hd ys))"
    by (cases ys) (auto simp: link_def)
  have ya: "p_stat (procs s y) \<noteq> SZOMB"
    using Cons.prems(1) by (auto simp: queues_def asleep_at_def dest: spec [of _ "hash c"])
  show ?case
  proof (cases "sleeps_on s c y")
    case False
    have "queues rq (sq(hash c := (pre @ [y]) @ ys)) s"
      using Cons.prems(1) by (simp only: append_assoc append_Cons append_Nil)
    from Cons.IH [OF this Cons.prems(2) n(2) nx] False show ?thesis by (simp add: n p)
  next
    case True
    from wake_one [OF Cons.prems(1) refl True] obtain s2 where s2: "queues (y # rq) (sq(hash c := pre @ ys)) s2" "woke {y} s s2"
      "runout s2 = 0"
      "\<And>n. sr (Suc n) y (upd_proc y (\<lambda>x. x\<lparr>p_wchan := 0\<rparr>) (unlink_slp c (lastopt pre) (p_link (procs s y)) s)) = Ok () s2"
      using Cons.prems(2) by (metis (no_types, lifting))
    have "linked (link s) (Some y) (y # ys)" by fact
    then have "y \<notin> set ys" using linked_distinct by fastforce
    then have w: "p_wchan (procs s2 i) = p_wchan (procs s i)" if "i \<in> set ys" for i
      using woke_procD(1) [OF s2(2), of i] that by auto
    have same: "filter (sleeps_on s2 c) ys = filter (sleeps_on s c) ys"
      "filter (\<lambda>x. \<not> sleeps_on s2 c x) ys = filter (\<lambda>x. \<not> sleeps_on s c x) ys"
      by (auto intro!: filter_cong simp: w)
    from Cons.IH [OF s2(1,3) n(2) nx] obtain s' where s': "wk m c (lastopt pre) (p_link (procs s y)) s2 = Ok () s'" "runout s' = 0"
      "queues (rev (filter (sleeps_on s c) ys) @ y # rq) (sq(hash c := pre @ filter (\<lambda>x. \<not> sleeps_on s c x) ys)) s'"
      "woke (set (filter (sleeps_on s c) ys)) s2 s'" unfolding same nx by blast
    have "wk n c (lastopt pre) p s = Ok () s'"
      using True ya s'(1) s2(4) n(2) by (cases m) (auto simp: n(1) p Let_def)
    moreover have "woke (set (filter (sleeps_on s c) (y # ys))) s s'"
      using woke_trans [OF s2(2) s'(4)] True by simp
    ultimately show ?thesis using s'(2,3) True by (simp del: fun_upd_apply)
  qed
qed

lemma nested_wakeup:
  assumes "queues rq sq s" and "runout s = 0" and "NPROC < n"
  shows "\<exists>s'. wk n c None (slpque s (hash c)) s = Ok () s' \<and> runout s' = 0 \<and>
     queues (rev (filter (sleeps_on s c) (sq (hash c))) @ rq) (sq(hash c := filter (\<lambda>x. \<not> sleeps_on s c x) (sq (hash c)))) s' \<and>
     woke (set (filter (sleeps_on s c) (sq (hash c)))) s s'"
proof -
  have l: "linked (link s) (slpque s (hash c)) (sq (hash c))" using assms(1) by (simp add: queues_def)
  have "length (sq (hash c)) \<le> NPROC"
    using assms(1) by (intro short_queue linked_distinct [OF l]) (auto simp: queues_def)
  then have len: "length (sq (hash c)) < n" using assms(3) by simp
  have hd: "slpque s (hash c) = (if sq (hash c) = [] then None else Some (hd (sq (hash c))))"
    using l by (cases "sq (hash c)") auto
  have "queues rq (sq(hash c := [] @ sq (hash c))) s" using assms(1) by simp
  from wk_quiet [OF this assms(2) len hd] show ?thesis by (simp add: lastopt_def)
qed

text \<open>
  The whole \<open>wakeup\<close>. Waking a process that is swapped out wakes the swapping process as well,
  when it waits on \<open>runout\<close>; that nested \<open>wakeup\<close> takes processes off another queue as long as
  the two channels have different hash values.
\<close>

lemma wk_general:
  assumes "queues rq (sq(hash c := pre @ rest)) s" and "hash (a_runout s) \<noteq> hash c" and "length rest + NPROC + 2 < n"
    and "p = (if rest = [] then None else Some (hd rest))"
  shows "\<exists>s' rq' sq' B. wk n c (lastopt pre) p s = Ok () s' \<and> queues rq' sq' s' \<and>
     sq' (hash c) = pre @ filter (\<lambda>x. \<not> sleeps_on s c x) rest \<and>
     (\<forall>h. h \<noteq> hash c \<longrightarrow> sq' h = filter (\<lambda>x. x \<notin> B) (sq h)) \<and>
     set rq' = set rq \<union> set (filter (sleeps_on s c) rest) \<union> B \<and>
     woke (set (filter (sleeps_on s c) rest) \<union> B) s s' \<and>
     B \<subseteq> {x \<in> set (sq (hash (a_runout s))). runout s \<noteq> 0 \<and> sleeps_on s (a_runout s) x}"
  using assms
proof (induction rest arbitrary: pre rq s n p)
  case Nil
  then show ?case by (intro exI [of _ s] exI [of _ rq] exI [of _ "sq(hash c := pre)"] exI [of _ "{}"]) auto
next
  case (Cons y ys)
  then obtain m k where n: "n = Suc m" "m = Suc k" "length ys + NPROC + 2 < m" "length ys < m" "NPROC < k" by (cases n; cases "n - 1") auto
  have p: "p = Some y" using Cons.prems(4) by simp
  have cur: "linked (link s) (Some y) (y # ys)" using queue_cursor [OF Cons.prems(1)] by simp
  then have nx: "p_link (procs s y) = (if ys = [] then None else Some (hd ys))"
    by (cases ys) (auto simp: link_def)
  have nys: "y \<notin> set ys" using linked_distinct [OF cur] by simp
  have ya: "p_stat (procs s y) \<noteq> SZOMB"
    using Cons.prems(1) by (auto simp: queues_def asleep_at_def dest: spec [of _ "hash c"])
  show ?case
  proof (cases "sleeps_on s c y")
    case False
    have "queues rq (sq(hash c := (pre @ [y]) @ ys)) s"
      using Cons.prems(1) by (simp only: append_assoc append_Cons append_Nil)
    from Cons.IH [OF this Cons.prems(2) n(3) nx] False show ?thesis by (simp add: n(1) p)
  next
    case True
    let ?R = "{x \<in> set (sq (hash (a_runout s))). runout s \<noteq> 0 \<and> sleeps_on s (a_runout s) x}"
    let ?W = "set (filter (sleeps_on s c) ys)"
    obtain s2 where s2: "queues (y # rq) (sq(hash c := pre @ ys)) s2" "woke {y} s s2" "runout s2 = runout s"
      and sr: "\<And>n. sr (Suc n) y (upd_proc y (\<lambda>x. x\<lparr>p_wchan := 0\<rparr>) (unlink_slp c (lastopt pre) (p_link (procs s y)) s)) =
       (if runout s \<noteq> 0 \<and> \<not> has_flag SLOAD (procs s y)
        then wk n (a_runout s) None (slpque s2 (hash (a_runout s))) (s2\<lparr>runout := 0\<rparr>) else Ok () s2)"
      by (rule wake_one [OF Cons.prems(1) refl True]) (rule that, assumption+)
    have step: "wk n c (lastopt pre) p s = bnd (sr m y (upd_proc y (\<lambda>x. x\<lparr>p_wchan := 0\<rparr>) (unlink_slp c (lastopt pre) (p_link (procs s y)) s)))
        (\<lambda>_ s'. wk m c (lastopt pre) (if ys = [] then None else Some (hd ys)) s')"
      using True ya by (simp add: n(1) p Let_def nx)
    have wc: "p_wchan (procs s2 i) = p_wchan (procs s i)" if "i \<noteq> y" for i
      using woke_procD(1) [OF s2(2), of i] that by auto
    have wcy: "p_wchan (procs s2 i) = p_wchan (procs s i)" if "i \<in> set ys" for i
      using wc [of i] nys that by auto
    have same: "filter (sleeps_on s2 c) ys = filter (sleeps_on s c) ys"
      "filter (\<lambda>x. \<not> sleeps_on s2 c x) ys = filter (\<lambda>x. \<not> sleeps_on s c x) ys"
      by (auto intro!: filter_cong simp: wcy)
    have W: "set (filter (sleeps_on s c) (y # ys)) = insert y ?W" using True by auto
    have ro: "a_runout s2 = a_runout s" using woke_addr(1) [OF s2(2)] .
    have yR: "y \<notin> set (sq (hash (a_runout s)))"
      using queues_disjoint(2) [OF Cons.prems(1), of y "hash c" "hash (a_runout s)"] Cons.prems(2) by auto
    show ?thesis
    proof (cases "runout s \<noteq> 0 \<and> \<not> has_flag SLOAD (procs s y)")
      case False
      have "hash (a_runout s2) \<noteq> hash c" using Cons.prems(2) ro by simp
      from Cons.IH [OF s2(1) this n(3) refl] obtain s' rq' sq' B where *:
        "wk m c (lastopt pre) (if ys = [] then None else Some (hd ys)) s2 = Ok () s'" "queues rq' sq' s'"
        "sq' (hash c) = pre @ filter (\<lambda>x. \<not> sleeps_on s2 c x) ys"
        "\<forall>h. h \<noteq> hash c \<longrightarrow> sq' h = filter (\<lambda>x. x \<notin> B) (sq h)"
        "set rq' = set (y # rq) \<union> set (filter (sleeps_on s2 c) ys) \<union> B"
        "woke (set (filter (sleeps_on s2 c) ys) \<union> B) s2 s'"
        "B \<subseteq> {x \<in> set (sq (hash (a_runout s2))). runout s2 \<noteq> 0 \<and> sleeps_on s2 (a_runout s2) x}" by blast
      have "p_wchan (procs s2 x) = p_wchan (procs s x)" if "x \<in> set (sq (hash (a_runout s)))" for x
        using wc [of x] yR that by auto
      then have "B \<subseteq> ?R" using *(7) ro s2(3) by auto
      moreover have "woke (insert y ?W \<union> B) s s'" using woke_trans [OF s2(2) *(6)] same by simp
      moreover have "wk n c (lastopt pre) p s = Ok () s'"
        unfolding step n(2) sr if_not_P [OF False] using *(1) n(2) by simp
      ultimately show ?thesis unfolding W
        using *(2-5) same True by (intro exI [of _ s'] exI [of _ rq'] exI [of _ sq'] exI [of _ B]) simp
    next
      case noisy: True
      define r where "r = a_runout s"
      define s3 where "s3 = s2\<lparr>runout := 0\<rparr>"
      define Q where "Q = sq(hash c := pre @ ys)"
      have hr: "hash r \<noteq> hash c" using Cons.prems(2) by (simp add: r_def)
      have q3: "queues (y # rq) Q s3"
        using s2(1) queues_same [of s3 s2] by (simp add: s3_def Q_def)
      have Qr: "Q (hash r) = sq (hash r)" using hr by (simp add: Q_def)
      have "runout s3 = 0" by (simp add: s3_def)
      from nested_wakeup [OF q3 this n(5), of r] obtain s4 where s4: "wk k r None (slpque s3 (hash r)) s3 = Ok () s4" "runout s4 = 0"
        "queues (rev (filter (sleeps_on s3 r) (sq (hash r))) @ y # rq) (Q(hash r := filter (\<lambda>x. \<not> sleeps_on s3 r x) (sq (hash r)))) s4"
        "woke (set (filter (sleeps_on s3 r) (sq (hash r)))) s3 s4" unfolding Qr by blast
      define B where "B = set (filter (sleeps_on s3 r) (sq (hash r)))"
      define sqB where "sqB = (\<lambda>h. filter (\<lambda>x. x \<notin> B) (sq h))"
      have "p_wchan (procs s2 x) = p_wchan (procs s x)" if "x \<in> set (sq (hash r))" for x
        using wc [of x] yR that by (auto simp: r_def)
      then have B: "B \<subseteq> ?R" using noisy by (auto simp: B_def s3_def r_def)
      have other: "x \<notin> B" if "x \<in> set (sq h)" "h \<noteq> hash r" "h \<noteq> hash c" for x h
        using queues_disjoint(2) [OF Cons.prems(1), of x h "hash r"] that hr by (auto simp: B_def)
      have "filter (\<lambda>x. \<not> sleeps_on s3 r x) (sq (hash r)) = sqB (hash r)"
        unfolding sqB_def B_def by (rule filter_cong) auto
      moreover have "sqB h = sq h" if "h \<noteq> hash r" "h \<noteq> hash c" for h
        unfolding sqB_def using other that by (auto intro: filter_True)
      ultimately have Qs: "Q(hash r := filter (\<lambda>x. \<not> sleeps_on s3 r x) (sq (hash r))) = sqB(hash c := pre @ ys)"
        using hr by (auto simp: Q_def fun_eq_iff)
      have w24: "woke (insert y B) s s4"
      proof -
        have "woke {} s2 s3" by (simp add: woke_def s3_def)
        from woke_trans [OF woke_trans [OF s2(2) this] s4(4)] show ?thesis by (simp add: B_def)
      qed
      have "B \<inter> set ys = {}"
      proof -
        have "x \<notin> set (sq (hash r))" if "x \<in> set ys" for x
          using queues_disjoint(2) [OF Cons.prems(1), of x "hash c" "hash r"] that hr by auto
        then show ?thesis by (auto simp: B_def)
      qed
      then have wc4: "p_wchan (procs s4 i) = p_wchan (procs s i)" if "i \<in> set ys" for i
        using woke_procD(1) [OF w24, of i] that nys by auto
      have same4: "filter (sleeps_on s4 c) ys = filter (sleeps_on s c) ys"
        "filter (\<lambda>x. \<not> sleeps_on s4 c x) ys = filter (\<lambda>x. \<not> sleeps_on s c x) ys"
        by (auto intro!: filter_cong simp: wc4)
      from wk_quiet [OF s4(3) [unfolded Qs] s4(2) n(4) refl] obtain s' where s':
        "wk m c (lastopt pre) (if ys = [] then None else Some (hd ys)) s4 = Ok () s'"
        "queues (rev (filter (sleeps_on s c) ys) @ rev (filter (sleeps_on s3 r) (sq (hash r))) @ y # rq)
          (sqB(hash c := pre @ filter (\<lambda>x. \<not> sleeps_on s c x) ys)) s'"
        "woke ?W s4 s'" unfolding same4 by blast
      have "wk n c (lastopt pre) p s = Ok () s'"
        unfolding step n(2) sr if_P [OF noisy] using s4(1) s'(1) n(2) by (simp add: r_def s3_def)
      moreover have "woke (insert y ?W \<union> B) s s'"
        using woke_trans [OF w24 s'(3)] by (simp add: Un_commute)
      moreover have "set (rev (filter (sleeps_on s c) ys) @ rev (filter (sleeps_on s3 r) (sq (hash r))) @ y # rq) = set rq \<union> insert y ?W \<union> B"
        by (auto simp: B_def)
      ultimately show ?thesis unfolding W
        using s'(2) B True
        by (intro exI [of _ s'] exI [of _ B]
            exI [of _ "rev (filter (sleeps_on s c) ys) @ rev (filter (sleeps_on s3 r) (sq (hash r))) @ y # rq"]
            exI [of _ "sqB(hash c := pre @ filter (\<lambda>x. \<not> sleeps_on s c x) ys)"])
           (simp add: sqB_def fun_upd_same fun_upd_other del: fun_upd_apply)
    qed
  qed
qed

definition asleep_on :: "'z kst_scheme \<Rightarrow> u16 \<Rightarrow> nat \<Rightarrow> bool" where
  "asleep_on s c p = (p < NPROC \<and> p_wchan (procs s p) = c \<and> p_stat (procs s p) \<noteq> 0 \<and> p_stat (procs s p) \<noteq> SZOMB)"

definition on_runq :: "'z kst_scheme \<Rightarrow> nat \<Rightarrow> bool" where
  "on_runq s p = (\<exists>rq. linked (link s) (runq s) rq \<and> p \<in> set rq)"

text \<open>
  The invariant of the queues: they are lists as \<open>queues\<close> describes, and every process that
  waits on a channel is on the sleep queue of that channel.
\<close>

definition queues_ok :: "'z kst_scheme \<Rightarrow> bool" where
  "queues_ok s = (\<exists>rq sq. queues rq sq s \<and> (\<forall>c p. c \<noteq> 0 \<longrightarrow> asleep_on s c p \<longrightarrow> p \<in> set (sq (hash c))))"

lemma on_runq_queues: "queues rq sq s \<Longrightarrow> on_runq s p = (p \<in> set rq)"
  by (auto simp: on_runq_def queues_def dest: linked_unique)

text \<open>The effect of a successful \<open>wakeup\<close>: the processes of \<open>A\<close> run, the others are as before.\<close>

definition awake_after :: "nat set \<Rightarrow> 'z kst_scheme \<Rightarrow> 'z kst_scheme \<Rightarrow> bool" where
  "awake_after A s s' \<longleftrightarrow> queues_ok s' \<and> woke A s s' \<and> (\<forall>p. on_runq s' p = (on_runq s p \<or> p \<in> A))"

lemma wakeup_lists:
  assumes q: "queues rq sq s" and "runout s = 0 \<or> hash (a_runout s) \<noteq> hash c"
  obtains s' rq' sq' B where "wakeup c s = Ok () s'" "queues rq' sq' s'"
    "\<And>h. sq' h = filter (\<lambda>x. x \<notin> set (filter (sleeps_on s c) (sq (hash c))) \<union> B) (sq h)"
    "set rq' = set rq \<union> set (filter (sleeps_on s c) (sq (hash c))) \<union> B"
    "woke (set (filter (sleeps_on s c) (sq (hash c))) \<union> B) s s'"
    "B \<subseteq> {x \<in> set (sq (hash (a_runout s))). runout s \<noteq> 0 \<and> sleeps_on s (a_runout s) x}"
proof (cases "runout s = 0")
  case True
  let ?W = "set (filter (sleeps_on s c) (sq (hash c)))"
  from nested_wakeup [OF q True, of "2 * NPROC + 4" c] obtain s' where s': "wakeup c s = Ok () s'"
    "queues (rev (filter (sleeps_on s c) (sq (hash c))) @ rq) (sq(hash c := filter (\<lambda>x. \<not> sleeps_on s c x) (sq (hash c)))) s'" "woke ?W s s'"
    by (auto simp: wakeup_def)
  have sq: "(sq(hash c := filter (\<lambda>x. \<not> sleeps_on s c x) (sq (hash c)))) h = filter (\<lambda>x. x \<notin> ?W \<union> {}) (sq h)" for h
  proof (cases "h = hash c")
    case True
    then show ?thesis by (auto intro: filter_cong)
  next
    case False
    then have "x \<notin> ?W" if "x \<in> set (sq h)" for x using queues_disjoint(2) [OF q] that by auto
    then show ?thesis using False by (simp add: filter_True)
  qed
  show ?thesis by (rule that [OF s'(1,2) sq]) (use s'(3) in auto)
next
  case False
  with assms(2) have hr: "hash (a_runout s) \<noteq> hash c" by simp
  have l: "linked (link s) (slpque s (hash c)) (sq (hash c))" using q by (simp add: queues_def)
  have "length (sq (hash c)) \<le> NPROC"
    using q by (intro short_queue linked_distinct [OF l]) (auto simp: queues_def)
  then have len: "length (sq (hash c)) + NPROC + 2 < 2 * NPROC + 4" by simp
  have hd: "slpque s (hash c) = (if sq (hash c) = [] then None else Some (hd (sq (hash c))))"
    using l by (cases "sq (hash c)") auto
  have "queues rq (sq(hash c := [] @ sq (hash c))) s" using q by simp
  from wk_general [OF this hr len hd] obtain s' rq' sq' B where *: "wakeup c s = Ok () s'" "queues rq' sq' s'"
    "sq' (hash c) = filter (\<lambda>x. \<not> sleeps_on s c x) (sq (hash c))"
    "\<forall>h. h \<noteq> hash c \<longrightarrow> sq' h = filter (\<lambda>x. x \<notin> B) (sq h)"
    "set rq' = set rq \<union> set (filter (sleeps_on s c) (sq (hash c))) \<union> B"
    "woke (set (filter (sleeps_on s c) (sq (hash c))) \<union> B) s s'"
    "B \<subseteq> {x \<in> set (sq (hash (a_runout s))). runout s \<noteq> 0 \<and> sleeps_on s (a_runout s) x}"
    by (auto simp: wakeup_def lastopt_def)
  have "sq' h = filter (\<lambda>x. x \<notin> set (filter (sleeps_on s c) (sq (hash c))) \<union> B) (sq h)" for h
  proof (cases "h = hash c")
    case True
    have "x \<notin> B" if "x \<in> set (sq (hash c))" for x
      using *(7) hr queues_disjoint(2) [OF q, of x "hash c" "hash (a_runout s)"] that by auto
    then show ?thesis using *(3) True by (auto intro!: filter_cong)
  next
    case False
    then have "x \<notin> set (sq (hash c))" if "x \<in> set (sq h)" for x using queues_disjoint(2) [OF q] that by auto
    then show ?thesis using *(4) False by (auto intro!: filter_cong)
  qed
  then show ?thesis by (rule that [OF *(1,2) _ *(5-7)])
qed

lemma wakeup_ok:
  assumes "queues_ok s" and "c \<noteq> 0" and "a_runout s \<noteq> 0" and "runout s = 0 \<or> hash (a_runout s) \<noteq> hash c"
  obtains s' B where "wakeup c s = Ok () s'" "awake_after ({p. asleep_on s c p} \<union> B) s s'"
    "B \<subseteq> {p. runout s \<noteq> 0 \<and> asleep_on s (a_runout s) p}"
proof -
  obtain rq sq where q: "queues rq sq s" and all: "\<And>c p. c \<noteq> 0 \<Longrightarrow> asleep_on s c p \<Longrightarrow> p \<in> set (sq (hash c))"
    using assms(1) unfolding queues_ok_def by blast
  have mem: "p < NPROC \<and> asleep_at h (procs s p)" if "p \<in> set (sq h)" for p h
    using q that by (simp add: queues_def)
  have W: "set (filter (sleeps_on s d) (sq (hash d))) = {p. asleep_on s d p}" if "d \<noteq> 0" for d
  proof (intro set_eqI iffI)
    fix p assume "p \<in> set (filter (sleeps_on s d) (sq (hash d)))"
    then show "p \<in> {p. asleep_on s d p}" using mem by (auto simp: asleep_on_def asleep_at_def)
  next
    fix p assume p: "p \<in> {p. asleep_on s d p}"
    then have "p \<in> set (sq (hash d))" using all [OF that] by simp
    with p show "p \<in> set (filter (sleeps_on s d) (sq (hash d)))" by (simp add: asleep_on_def)
  qed
  obtain s' rq' sq' B where *: "wakeup c s = Ok () s'" "queues rq' sq' s'"
    "\<And>h. sq' h = filter (\<lambda>x. x \<notin> {p. asleep_on s c p} \<union> B) (sq h)"
    "set rq' = set rq \<union> {p. asleep_on s c p} \<union> B" "woke ({p. asleep_on s c p} \<union> B) s s'"
    "B \<subseteq> {x \<in> set (sq (hash (a_runout s))). runout s \<noteq> 0 \<and> sleeps_on s (a_runout s) x}"
    by (rule wakeup_lists [OF q assms(4), unfolded W [OF assms(2)]]) (rule that, assumption+)
  have "p \<in> set (sq' (hash d))" if "d \<noteq> 0" "asleep_on s' d p" for d p
  proof -
    have "p \<notin> {p. asleep_on s c p} \<union> B"
    proof
      assume "p \<in> {p. asleep_on s c p} \<union> B"
      then have "p \<in> set rq'" using *(4) by blast
      then show False using *(2) that by (auto simp: queues_def asleep_on_def)
    qed
    moreover from woke_procD [OF *(5) this] that(2) have "asleep_on s d p" by (simp add: asleep_on_def)
    ultimately show ?thesis using all [OF that(1)] *(3) by simp
  qed
  then have "queues_ok s'" using *(2) unfolding queues_ok_def by blast
  moreover have "on_runq s' p = (on_runq s p \<or> p \<in> {p. asleep_on s c p} \<union> B)" for p
    unfolding on_runq_queues [OF q] on_runq_queues [OF *(2)] *(4) by auto
  moreover have "B \<subseteq> {p. runout s \<noteq> 0 \<and> asleep_on s (a_runout s) p}" using *(6) W [OF assms(3)] by auto
  ultimately show ?thesis using that *(1,5) unfolding awake_after_def by blast
qed

section \<open>Going to sleep, and the choice of swtch\<close>

lemma sleep_enter_queues_ok:
  assumes "queues_ok s" and "cur s < NPROC" "\<not> on_runq s (cur s)" "p_wchan (procs s (cur s)) = 0" and "c \<noteq> 0"
  shows "queues_ok (sleep_enter c pri s)" and "asleep_on (sleep_enter c pri s) c (cur s)"
proof -
  let ?s = "sleep_enter c pri s" and ?p = "cur s"
  obtain rq sq where q: "queues rq sq s" and all: "\<And>c p. c \<noteq> 0 \<Longrightarrow> asleep_on s c p \<Longrightarrow> p \<in> set (sq (hash c))"
    using assms(1) unfolding queues_ok_def by blast
  have nrq: "?p \<notin> set rq" using assms(3) on_runq_queues [OF q] by simp
  have nsq: "?p \<notin> set (sq h)" for h using q assms(4) by (auto simp: queues_def asleep_at_def)
  have new: "procs ?s ?p = (procs s ?p)\<lparr>p_stat := SSLEEP, p_wchan := c, p_pri := word_of_int pri, p_link := slpque s (hash c)\<rparr>"
    by (simp add: sleep_enter_def upd_proc_def Let_def)
  have old: "procs ?s x = procs s x" if "x \<noteq> ?p" for x
    using that by (simp_all add: sleep_enter_def upd_proc_def Let_def)
  have l: "link ?s = (link s)(?p := slpque s (hash c))"
    by (rule ext) (simp add: link_def sleep_enter_def upd_proc_def Let_def)
  have sl: "slpque ?s = (slpque s)(hash c := Some ?p)" and rq: "runq ?s = runq s"
    by (simp_all add: sleep_enter_def upd_proc_def Let_def)
  let ?sq = "sq(hash c := ?p # sq (hash c))"
  have "linked (link ?s) (slpque ?s h) (?sq h)" for h
    using q nsq unfolding l sl by (simp add: queues_def linked_upd)
  moreover have "linked (link ?s) (runq ?s) rq" using q nrq unfolding l rq by (simp add: queues_def linked_upd)
  moreover have "x < NPROC \<and> asleep_at h (procs ?s x)" if "x \<in> set (?sq h)" for x h
  proof (cases "x = ?p")
    case True
    then have "h = hash c" using that nsq by (auto split: if_splits)
    then show ?thesis using True assms(2,5) new by (simp add: asleep_at_def)
  next
    case False
    then show ?thesis using that old [of x] q by (auto simp: queues_def split: if_splits)
  qed
  moreover have "x < NPROC \<and> p_wchan (procs ?s x) = 0" if "x \<in> set rq" for x
  proof -
    have "x \<noteq> ?p" using that nrq by auto
    then show ?thesis using that old [of x] q by (simp add: queues_def)
  qed
  ultimately have "queues rq ?sq ?s" unfolding queues_def by blast
  moreover have "x \<in> set (?sq (hash d))" if "d \<noteq> 0" "asleep_on ?s d x" for d x
  proof (cases "x = ?p")
    case True
    then show ?thesis using that(2) new by (simp add: asleep_on_def)
  next
    case False
    then have "asleep_on s d x" using that(2) old [of x] by (simp add: asleep_on_def)
    then have "x \<in> set (sq (hash d))" using all [OF that(1)] by simp
    then show ?thesis by auto
  qed
  ultimately show "queues_ok ?s" unfolding queues_ok_def by blast
  show "asleep_on ?s c ?p" using new assms(2) by (simp add: asleep_on_def)
qed

definition ready :: "'z kst_scheme \<Rightarrow> nat \<Rightarrow> bool" where
  "ready s p = (p_stat (procs s p) = SRUN \<and> has_flag SLOAD (procs s p))"

abbreviation pri_of :: "'z kst_scheme \<Rightarrow> nat \<Rightarrow> int" where
  "pri_of s p \<equiv> sint (p_pri (procs s p))"

text \<open>What the search has found in the part \<open>xs\<close> of the run queue.\<close>

definition found :: "'z kst_scheme \<Rightarrow> nat list \<Rightarrow> int \<times> (nat \<times> nat option) option \<Rightarrow> bool" where
  "found s xs r = (case r of
       (m, None) \<Rightarrow> m = 128 \<and> (\<forall>p \<in> set xs. \<not> ready s p)
     | (m, Some (p, q)) \<Rightarrow> (\<exists>as bs. xs = as @ p # bs \<and> q = lastopt as) \<and> m = pri_of s p \<and> ready s p \<and>
         (\<forall>x \<in> set xs. ready s x \<longrightarrow> m \<le> pri_of s x))"

lemma sw_scan_found:
  assumes "linked (link s) h rest" and "length rest \<le> n" and "found s pre r"
  shows "\<exists>r'. sw_scan n s (lastopt pre) h r = Some r' \<and> found s (pre @ rest) r'"
  using assms
proof (induction rest arbitrary: n h pre r)
  case (Cons p ps)
  then obtain m where n: "n = Suc m" "length ps \<le> m" by (cases n) auto
  have "h = Some p" "linked (link s) (link s p) ps" using Cons.prems(1) by auto
  then have h: "h = Some p" "linked (link s) (p_link (procs s p)) ps" by (simp_all add: link_def [of s p])
  have lt: "pri_of s p < 128" using sint_lt [of "p_pri (procs s p)"] by simp
  define r1 where "r1 = (if ready s p \<and> pri_of s p < fst r then (pri_of s p, Some (p, lastopt pre)) else r)"
  have "found s (pre @ [p]) r1"
  proof (cases "ready s p \<and> pri_of s p < fst r")
    case True
    have "\<forall>x \<in> set pre. ready s x \<longrightarrow> fst r \<le> pri_of s x"
      using Cons.prems(3) by (auto simp: found_def split: prod.splits option.splits)
    then have "\<forall>x \<in> set (pre @ [p]). ready s x \<longrightarrow> pri_of s p \<le> pri_of s x" using True by auto
    then show ?thesis using True by (auto simp: r1_def found_def)
  next
    case False
    then have "r1 = r" by (auto simp: r1_def)
    obtain m' w where r: "r = (m', w)" by (cases r)
    show ?thesis
    proof (cases w)
      case None
      then show ?thesis using False \<open>r1 = r\<close> Cons.prems(3) lt r by (auto simp: found_def)
    next
      case (Some aq)
      then obtain a q as bs where w: "w = Some (a, q)" "pre = as @ a # bs" "q = lastopt as" "m' = pri_of s a" "ready s a"
        "\<forall>x \<in> set pre. ready s x \<longrightarrow> m' \<le> pri_of s x" using Cons.prems(3) r by (cases aq) (auto simp: found_def)
      then have "pre @ [p] = as @ a # (bs @ [p])" "\<forall>x \<in> set (pre @ [p]). ready s x \<longrightarrow> m' \<le> pri_of s x"
        using False r by auto
      then show ?thesis using \<open>r1 = r\<close> r w by (simp add: found_def) blast
    qed
  qed
  from Cons.IH [OF h(2) n(2) this] show ?case
    by (simp add: n(1) h(1) Let_def r1_def ready_def conj_assoc)
qed simp

lemma swtch_cases:
  assumes q: "queues rq sq s"
  obtains (idle) "swtch s = Ok None (s\<lparr>runrun := 0\<rparr>)" "\<forall>p \<in> set rq. \<not> ready s p"
  | (switch) as p bs s' where "rq = as @ p # bs" "ready s p" "\<forall>x \<in> set rq. ready s x \<longrightarrow> pri_of s p \<le> pri_of s x"
      "swtch s = Ok (Some (p, has_flag SSWAP (procs s p))) s'" "queues (as @ bs) sq s'"
      "cur s' = p" "curpri s' = p_pri (procs s p)"
      "\<forall>x. strip (procs s' x) = strip (if x = p then (procs s x)\<lparr>p_flag := p_flag (procs s x) AND NOT SSWAP\<rparr> else procs s x)"
proof -
  let ?s = "s\<lparr>runrun := 0\<rparr>"
  have q': "queues rq sq ?s" using q queues_same [of ?s s] by simp
  then have l: "linked (link ?s) (runq ?s) rq" by (simp add: queues_def)
  have "length rq \<le> NPROC" using q' by (intro short_queue linked_distinct [OF l]) (auto simp: queues_def)
  moreover have "found ?s [] (128, None)" by (simp add: found_def)
  ultimately obtain r where r: "sw_scan NPROC ?s None (runq ?s) (128, None) = Some r" "found ?s rq r"
    using sw_scan_found [OF l] by (fastforce simp: lastopt_def)
  show ?thesis
  proof (cases "snd r")
    case None
    then have "swtch s = Ok None ?s" "\<forall>p \<in> set rq. \<not> ready s p"
      using r by (auto simp: swtch_def Let_def found_def ready_def split: prod.splits)
    then show ?thesis by (rule idle)
  next
    case (Some pq)
    then obtain m p qq where pq: "r = (m, Some (p, qq))" by (cases r; cases pq) auto
    with r(2) obtain as bs where f: "rq = as @ p # bs" "qq = lastopt as" "m = pri_of s p" "ready s p"
      "\<forall>x \<in> set rq. ready s x \<longrightarrow> m \<le> pri_of s x"
      by (auto simp: found_def ready_def)
    define s1 where "s1 = (case qq of None \<Rightarrow> ?s\<lparr>runq := p_link (procs s p)\<rparr>
       | Some q' \<Rightarrow> upd_proc q' (\<lambda>x. x\<lparr>p_link := p_link (procs s p)\<rparr>) ?s)"
    define s' where "s' = (upd_proc p (\<lambda>x. x\<lparr>p_flag := p_flag x AND NOT SSWAP\<rparr>) (s1\<lparr>curpri := word_of_int m\<rparr>))\<lparr>cur := p\<rparr>"
    have d: "distinct (as @ p # bs)" using l linked_distinct f(1) by blast
    have p1: "p_flag (procs s1 p) = p_flag (procs s p)"
      by (auto simp: s1_def upd_proc_def split: option.splits)
    have sw: "swtch s = Ok (Some (p, has_flag SSWAP (procs s p))) s'"
      using r(1) pq p1 by (simp add: swtch_def Let_def s'_def s1_def has_flag_def cong: option.case_cong)
    have lk: "linked (link s) (runq s) (as @ p # bs)" using q f(1) by (simp add: queues_def)
    have link': "link s' = (if as = [] then link s else (link s)(last as := link s p))"
      by (rule ext) (auto simp: s'_def s1_def f(2) lastopt_def upd_proc_def link_def)
    have rq': "runq s' = (if as = [] then link s p else runq s)"
      by (auto simp: s'_def s1_def f(2) lastopt_def upd_proc_def link_def)
    have sl: "slpque s' = slpque s"
      by (auto simp: s'_def s1_def f(2) lastopt_def upd_proc_def)
    have pr: "p_wchan (procs s' x) = p_wchan (procs s x)" "p_stat (procs s' x) = p_stat (procs s x)" for x
      by (auto simp: s'_def s1_def f(2) lastopt_def upd_proc_def)
    have "linked (link s') (runq s') (as @ bs)" unfolding link' rq' by (rule linked_remove [OF lk])
    moreover have "linked (link s') (slpque s' h) (sq h)" for h
    proof -
      have "last as \<notin> set (sq h)" if "as \<noteq> []"
        using queues_disjoint(1) [OF q, of "last as" h] f(1) that by auto
      then show ?thesis unfolding link' sl using q by (auto simp: queues_def linked_upd)
    qed
    ultimately have "queues (as @ bs) sq s'" using q f(1) by (auto simp: queues_def pr asleep_at_def)
    moreover have "cur s' = p" "curpri s' = p_pri (procs s p)" by (simp_all add: s'_def f(3) upd_proc_def)
    moreover have "strip (procs s' x) = strip (if x = p then (procs s x)\<lparr>p_flag := p_flag (procs s x) AND NOT SSWAP\<rparr> else procs s x)" for x
      by (auto simp: s'_def s1_def f(2) lastopt_def upd_proc_def strip_def)
    ultimately show ?thesis using switch f sw by blast
  qed
qed


section \<open>Properties\<close>

text \<open>
  A state for the witnesses: processes 2, 0 and 1 are on the sleep queue of hash value 1, process 0
  (the scheduler) waiting on \<open>runout\<close> and the other two on the channel 2080; process 3 waits
  on channel 64; process 4 is on the run queue; process 2 is swapped out.
\<close>

definition demo_proc :: "u8 \<Rightarrow> u8 \<Rightarrow> u16 \<Rightarrow> nat option \<Rightarrow> proc" where
  "demo_proc st fl ch lk = \<lparr>p_stat = st, p_flag = fl, p_pri = 50, p_time = 0, p_cpu = 0, p_nice = 20, p_sig = 0,
     p_uid = 0, p_pgrp = 0, p_pid = 0, p_ppid = 0, p_addr = 0, p_size = 0, p_wchan = ch, p_textp = None,
     p_link = lk, p_clktim = 0, xp_stime = 0\<rparr>"

definition demo_sched :: kst where
  "demo_sched = \<lparr>coremap = [], swapmap = [], runin = 0, sched_woken = False,
     procs = (\<lambda>_. demo_proc 0 0 0 None)(2 := demo_proc 1 0 2080 (Some 0), 0 := demo_proc 1 1 32 (Some 1),
       1 := demo_proc 1 1 2080 None, 3 := demo_proc 1 1 64 None, 4 := demo_proc 3 1 0 None),
     slpque = (\<lambda>_. None)(1 := Some 2, 2 := Some 3), runq = Some 4, cur = 5, runout = 1, runrun = 0, curpri = 50,
     console = [], a_runin = 34, a_runout = 32, a_lbolt = 36, a_proc = 1024\<rparr>"

definition demo_sq :: "nat \<Rightarrow> nat list" where
  "demo_sq = (\<lambda>_. [])(1 := [2, 0, 1], 2 := [3])"

lemma demo_link [simp]:
  "link demo_sched 2 = Some 0" "link demo_sched 0 = Some 1" "link demo_sched (Suc 0) = None"
  "link demo_sched 3 = None" "link demo_sched 4 = None"
  by (simp_all add: link_def demo_sched_def demo_proc_def)

lemma hash_demo [simp]: "hash 32 = 1" "hash 2080 = 1" "hash 64 = 2"
  by (simp_all add: hash_def)

lemma demo_queues: "queues [4] demo_sq demo_sched"
proof -
  have "linked (link demo_sched) (slpque demo_sched h) (demo_sq h)" for h
    by (cases "h = 1"; cases "h = 2") (simp_all add: demo_sq_def, simp_all add: demo_sched_def)
  moreover have "linked (link demo_sched) (runq demo_sched) [4]" by (simp, simp add: demo_sched_def)
  moreover have "p < NPROC \<and> asleep_at h (procs demo_sched p)" if "p \<in> set (demo_sq h)" for p h
    using that by (auto simp: demo_sq_def demo_sched_def demo_proc_def asleep_at_def NPROC_def split: if_splits)
  ultimately show ?thesis by (simp add: queues_def) (simp add: NPROC_def demo_sched_def demo_proc_def)
qed

lemma demo_queues_ok: "queues_ok demo_sched"
proof -
  have "p \<in> set (demo_sq (hash c))" if "c \<noteq> 0" "asleep_on demo_sched c p" for c p
    using that by (auto simp: asleep_on_def demo_sched_def demo_proc_def demo_sq_def split: if_splits)
  then show ?thesis using demo_queues unfolding queues_ok_def by blast
qed

text \<open>
  C11. If nobody waits on \<open>runout\<close> (the flag is 0) or the channel has another hash value than the address of
  \<open>runout\<close>, then \<open>wakeup\<close> makes every process that sleeps on the channel runnable and puts it on the run
  queue; no other process is touched, except that a process sleeping on \<open>runout\<close> (the
  swapper) may be woken too; and \<open>wakeup\<close> returns.
\<close>

theorem wakeup_wakes:
  assumes "queues_ok s" and "c \<noteq> 0" and "a_runout s \<noteq> 0" and "runout s = 0 \<or> hash (a_runout s) \<noteq> hash c"
  shows "\<exists>s'. wakeup c s = Ok () s' \<and> queues_ok s' \<and>
     (\<forall>p. asleep_on s c p \<longrightarrow> p_stat (procs s' p) = SRUN \<and> p_wchan (procs s' p) = 0 \<and> on_runq s' p) \<and>
     (\<forall>p. \<not> asleep_on s c p \<and> \<not> (runout s \<noteq> 0 \<and> asleep_on s (a_runout s) p) \<longrightarrow>
        strip (procs s' p) = strip (procs s p) \<and> on_runq s' p = on_runq s p)"
proof -
  obtain s' B where *: "wakeup c s = Ok () s'" "awake_after ({p. asleep_on s c p} \<union> B) s s'"
    "B \<subseteq> {p. runout s \<noteq> 0 \<and> asleep_on s (a_runout s) p}"
    by (rule wakeup_ok [OF assms])
  have eq: "strip (procs s' p) = strip (if p \<in> {p. asleep_on s c p} \<union> B then awaken (procs s p) else procs s p)"
    and rq: "on_runq s' p = (on_runq s p \<or> p \<in> {p. asleep_on s c p} \<union> B)" for p
    using *(2) by (auto simp: awake_after_def woke_def)
  have "p_stat (procs s' p) = SRUN \<and> p_wchan (procs s' p) = 0 \<and> on_runq s' p" if "asleep_on s c p" for p
    using strip_eqD(1,2) [of "procs s' p" "awaken (procs s p)"] eq [of p] rq [of p] that by (simp add: awaken_def)
  moreover have "strip (procs s' p) = strip (procs s p) \<and> on_runq s' p = on_runq s p"
    if "\<not> asleep_on s c p \<and> \<not> (runout s \<noteq> 0 \<and> asleep_on s (a_runout s) p)" for p
    using eq [of p] rq [of p] that *(3) by auto
  ultimately show ?thesis using * by (auto simp: awake_after_def)
qed

theorem wakeup_wakes_witness:
  "\<exists>s'. wakeup 64 demo_sched = Ok () s' \<and> queues_ok s' \<and>
     (\<forall>p. asleep_on demo_sched 64 p \<longrightarrow> p_stat (procs s' p) = SRUN \<and> p_wchan (procs s' p) = 0 \<and> on_runq s' p) \<and>
     (\<forall>p. \<not> asleep_on demo_sched 64 p \<and> \<not> (runout demo_sched \<noteq> 0 \<and> asleep_on demo_sched (a_runout demo_sched) p) \<longrightarrow>
        strip (procs s' p) = strip (procs demo_sched p) \<and> on_runq s' p = on_runq demo_sched p)"
proof (rule wakeup_wakes [OF demo_queues_ok])
  show "runout demo_sched = 0 \<or> hash (a_runout demo_sched) \<noteq> hash 64" by (simp, simp add: demo_sched_def)
qed (simp_all add: demo_sched_def)

text \<open>The loop passes over processes that do not sleep on its channel.\<close>

lemma wk_skip:
  "linked (link s) h (xs @ ys) \<Longrightarrow> \<forall>x \<in> set xs. p_wchan (procs s x) \<noteq> c \<Longrightarrow>
    \<exists>k. linked (link s) k ys \<and> wk (length xs + n) c q h s = wk n c (if xs = [] then q else Some (last xs)) k s"
proof (induction xs arbitrary: h q)
  case (Cons x xs)
  from Cons.prems have h: "h = Some x" "linked (link s) (p_link (procs s x)) (xs @ ys)"
    using link_def [of s x] by simp_all
  from Cons.IH [OF h(2), of "Some x"] Cons.prems(2) show ?case by (cases "xs = []") (simp_all add: h(1))
qed auto

text \<open>
  C33. Without that condition \<open>wakeup\<close> can leave processes asleep. Whenever the first process of a sleep queue that waits on the channel is
  swapped out, and the next one on that queue is the swapper, waiting on \<open>runout\<close>, \<open>wakeup\<close> returns and every process behind the two that waits
  on the channel as well stays asleep on it: the nested \<open>wakeup\<close> moves the swapper to the run queue; the loop goes on from the swapper's link, along the
  run queue, and never sees the rest of the sleep queue.
\<close>

theorem wakeup_can_miss:
  assumes q: "queues rq sq s" and ch: "sq (hash c) = pre @ p # x # rest" "\<forall>y \<in> set pre. p_wchan (procs s y) \<noteq> c"
    and p: "p_wchan (procs s p) = c" "\<not> has_flag SLOAD (procs s p)"
    and x: "p_wchan (procs s x) = a_runout s" "runout s \<noteq> 0" "hash (a_runout s) = hash c" "a_runout s \<noteq> c"
  shows "\<exists>s'. wakeup c s = Ok () s' \<and> p_wchan (procs s' p) = 0 \<and> p_wchan (procs s' x) = 0 \<and> runout s' = 0 \<and>
     (\<forall>r \<in> set rest. p_wchan (procs s r) = c \<longrightarrow> asleep_on s' c r \<and> \<not> on_runq s' r)"
proof -
  let ?r = "a_runout s" and ?Q = "sq(hash c := pre @ x # rest)"
  have q': "queues rq (sq(hash c := pre @ p # x # rest)) s" using q ch(1) by (metis fun_upd_triv)
  have l: "linked (link s) (slpque s (hash c)) (pre @ p # x # rest)" using q ch(1) by (metis queues_def)
  have mem: "y < NPROC \<and> asleep_at (hash c) (procs s y)" if "y \<in> set (pre @ p # x # rest)" for y using q that ch(1) by (metis queues_def)
  have d: "distinct (pre @ p # x # rest)" "length (pre @ p # x # rest) \<le> NPROC" using linked_distinct [OF l] short_queue mem by blast+
  then obtain n where n: "2 * NPROC + 4 = length pre + Suc (Suc n)" "NPROC < n"
    by (intro that [of "2 * NPROC + 2 - length pre"]) auto
  obtain k where k: "linked (link s) k (p # x # rest)" "wakeup c s = wk (Suc (Suc n)) c (lastopt pre) k s"
    using wk_skip [OF l ch(2), of "Suc (Suc n)" None] by (auto simp: wakeup_def n(1) lastopt_def)
  have kp: "k = Some p" "p_link (procs s p) = Some x" using k(1) by (simp_all add: link_def)
  have c0: "c \<noteq> 0" "p_stat (procs s p) \<noteq> SZOMB" using mem [of p] p(1) by (auto simp: asleep_at_def)
  obtain s2 where s2: "queues (p # rq) ?Q s2" "woke {p} s s2" "runout s2 = runout s"
    and sr: "\<And>n. sr (Suc n) p (upd_proc p (\<lambda>x. x\<lparr>p_wchan := 0\<rparr>) (unlink_slp c (lastopt pre) (p_link (procs s p)) s)) =
       (if runout s \<noteq> 0 \<and> \<not> has_flag SLOAD (procs s p) then wk n ?r None (slpque s2 (hash ?r)) (s2\<lparr>runout := 0\<rparr>) else Ok () s2)"
    by (rule wake_one [OF q' refl p(1)]) (rule that, assumption+)
  define s3 where "s3 = s2\<lparr>runout := 0\<rparr>"
  have q3: "queues (p # rq) ?Q s3" "runout s3 = 0" using s2(1) queues_same [of s3 s2] by (simp_all add: s3_def)
  have Qr: "?Q (hash ?r) = pre @ x # rest" by (simp add: x(3))
  let ?W = "filter (sleeps_on s3 ?r) (pre @ x # rest)"
  obtain s4 where s4: "wk n ?r None (slpque s3 (hash ?r)) s3 = Ok () s4" "runout s4 = 0"
    "queues (rev ?W @ p # rq) (?Q(hash ?r := filter (\<lambda>y. \<not> sleeps_on s3 ?r y) (pre @ x # rest))) s4" "woke (set ?W) s3 s4"
    using nested_wakeup [OF q3 n(2), of ?r] unfolding Qr by blast
  have w3: "p_wchan (procs s3 y) = p_wchan (procs s y)" "p_stat (procs s3 y) = p_stat (procs s y)" if "y \<noteq> p" for y
    using woke_procD [OF s2(2), of y] that by (simp_all add: s3_def)
  have xW: "x \<in> set ?W" using w3(1) [of x] d(1) x(1) by simp
  have rl: "linked (link s4) (runq s4) (rev ?W @ p # rq)" and rw: "\<forall>y \<in> set (rev ?W @ p # rq). y < NPROC \<and> p_wchan (procs s4 y) = 0"
    using s4(3) unfolding queues_def by blast+
  obtain A B where AB: "rev ?W @ p # rq = A @ x # B" using xW split_list [of x "rev ?W @ p # rq"] by auto
  have "length (A @ x # B) \<le> NPROC" using short_queue [OF linked_distinct [OF rl]] rw AB by metis
  then obtain j where j: "Suc n = length (x # B) + j" using n(2) by (intro that [of "n - length B"]) simp
  have "linked (link s4) (Some x) ((x # B) @ [])" using linked_split [of "link s4" "runq s4" A x B] rl AB by simp
  moreover have "\<forall>y \<in> set (x # B). p_wchan (procs s4 y) \<noteq> c" using rw c0(1) unfolding AB by simp
  ultimately have tail: "wk (Suc n) c (lastopt pre) (Some x) s4 = Ok () s4" unfolding j
    using wk_skip [of s4 "Some x" "x # B" "[]" c j "lastopt pre"] by (metis append.right_neutral linked.simps(1) wk.simps(1))
  have "wakeup c s = Ok () s4"
    unfolding k(2) kp(1) using p c0(2) sr [of n] s4(1) tail x(2) by (simp add: Let_def kp(2) s3_def)
  moreover have "p_wchan (procs s4 p) = 0" "p_wchan (procs s4 x) = 0"
  proof -
    have "p \<in> set (rev ?W @ p # rq)" "x \<in> set (rev ?W @ p # rq)" using xW unfolding set_append set_rev by (simp, blast)
    then show "p_wchan (procs s4 p) = 0" "p_wchan (procs s4 x) = 0" using rw by blast+
  qed
  moreover have "asleep_on s4 c r \<and> \<not> on_runq s4 r" if r: "r \<in> set rest" "p_wchan (procs s r) = c" for r
  proof -
    have rp: "r \<noteq> p" "r \<in> set (pre @ p # x # rest)" using d(1) r(1) by auto
    have "r \<notin> set ?W" unfolding set_filter using w3(1) [OF rp(1)] r(2) x(4) by (metis (mono_tags) mem_Collect_eq)
    then have r4: "p_wchan (procs s4 r) = c" "p_stat (procs s4 r) = p_stat (procs s r)"
      using woke_procD [OF s4(4), of r] w3 [OF rp(1)] r(2) by simp_all
    have "r \<notin> set (rev ?W @ p # rq)" using rw r4(1) c0(1) by metis
    then show ?thesis using r4 mem [OF rp(2)] on_runq_queues [OF s4(3)] by (auto simp: asleep_on_def asleep_at_def)
  qed
  ultimately show ?thesis using s4(2) by blast
qed

theorem wakeup_can_miss_witness:
  "queues_ok demo_sched \<and> asleep_on demo_sched 2080 1 \<and> (\<exists>s'. wakeup 2080 demo_sched = Ok () s' \<and> asleep_on s' 2080 1)"
proof (intro conjI)
  have "\<exists>s'. wakeup 2080 demo_sched = Ok () s' \<and> p_wchan (procs s' 2) = 0 \<and> p_wchan (procs s' 0) = 0 \<and> runout s' = 0 \<and>
     (\<forall>r \<in> set [1]. p_wchan (procs demo_sched r) = 2080 \<longrightarrow> asleep_on s' 2080 r \<and> \<not> on_runq s' r)"
  proof (rule wakeup_can_miss [OF demo_queues])
    show "demo_sq (hash 2080) = [] @ 2 # 0 # [1]" by (simp add: demo_sq_def)
  qed (simp_all add: demo_sched_def demo_proc_def has_flag_def)
  moreover have "p_wchan (procs demo_sched 1) = 2080" by (simp add: demo_sched_def demo_proc_def)
  ultimately show "\<exists>s'. wakeup 2080 demo_sched = Ok () s' \<and> asleep_on s' 2080 1" by auto
  show "asleep_on demo_sched 2080 1" by (simp add: asleep_on_def demo_sched_def demo_proc_def NPROC_def)
qed (rule demo_queues_ok)

text \<open>
  C12. \<open>swtch\<close> resumes a process that is runnable and in core and has the best (lowest) priority
  of all such processes on the run queue; it takes that process off the queue, leaves the
  others there, makes its priority the current one and clears and reports its \<open>SSWAP\<close> flag.
  It idles exactly when there is no such process.
\<close>

theorem swtch_picks_best:
  assumes "queues_ok s"
  shows "if \<forall>p. on_runq s p \<longrightarrow> \<not> ready s p then swtch s = Ok None (s\<lparr>runrun := 0\<rparr>)
    else \<exists>p s'. swtch s = Ok (Some (p, has_flag SSWAP (procs s p))) s' \<and> on_runq s p \<and> ready s p \<and>
      (\<forall>x. on_runq s x \<and> ready s x \<longrightarrow> pri_of s p \<le> pri_of s x) \<and> queues_ok s' \<and>
      (\<forall>x. on_runq s' x = (on_runq s x \<and> x \<noteq> p)) \<and> cur s' = p \<and> curpri s' = p_pri (procs s p) \<and>
      \<not> has_flag SSWAP (procs s' p)"
proof -
  obtain rq sq where q: "queues rq sq s" and all: "\<And>c p. c \<noteq> 0 \<Longrightarrow> asleep_on s c p \<Longrightarrow> p \<in> set (sq (hash c))"
    using assms(1) unfolding queues_ok_def by blast
  note on = on_runq_queues [OF q]
  from q show ?thesis
  proof (cases rule: swtch_cases)
    case idle
    then show ?thesis by (simp add: on)
  next
    case (switch as p bs s')
    have pr: "p_wchan (procs s' x) = p_wchan (procs s x)" "p_stat (procs s' x) = p_stat (procs s x)" for x
      using switch(8) strip_eqD(1,2) [of "procs s' x" "if x = p then (procs s x)\<lparr>p_flag := p_flag (procs s x) AND NOT SSWAP\<rparr> else procs s x"]
      by (auto split: if_splits)
    have "p_flag (procs s' p) = p_flag (procs s p) AND NOT SSWAP"
      using switch(8) strip_eqD(3) [of "procs s' p" "(procs s p)\<lparr>p_flag := p_flag (procs s p) AND NOT SSWAP\<rparr>"] by simp
    then have fl: "\<not> has_flag SSWAP (procs s' p)" by (simp add: has_flag_def and.assoc)
    have "asleep_on s' c x \<Longrightarrow> asleep_on s c x" for c x by (simp add: asleep_on_def pr)
    then have ok: "queues_ok s'" using switch(5) all unfolding queues_ok_def by blast
    have "distinct rq" using q linked_distinct by (auto simp: queues_def)
    then have on': "on_runq s' x = (on_runq s x \<and> x \<noteq> p)" for x
      unfolding on on_runq_queues [OF switch(5)] using switch(1) by auto
    have "on_runq s p" using switch(1) by (simp add: on)
    then show ?thesis using switch(2-4,6,7) ok on' fl by (auto simp: on)
  qed
qed

lemma demo_on_runq: "on_runq demo_sched p = (p = 4)"
  using on_runq_queues [OF demo_queues] by simp

theorem swtch_picks_best_witness:
  "if \<forall>p. on_runq demo_sched p \<longrightarrow> \<not> ready demo_sched p then swtch demo_sched = Ok None (demo_sched\<lparr>runrun := 0\<rparr>)
    else \<exists>p s'. swtch demo_sched = Ok (Some (p, has_flag SSWAP (procs demo_sched p))) s' \<and> on_runq demo_sched p \<and> ready demo_sched p \<and>
      (\<forall>x. on_runq demo_sched x \<and> ready demo_sched x \<longrightarrow> pri_of demo_sched p \<le> pri_of demo_sched x) \<and> queues_ok s' \<and>
      (\<forall>x. on_runq s' x = (on_runq demo_sched x \<and> x \<noteq> p)) \<and> cur s' = p \<and> curpri s' = p_pri (procs demo_sched p) \<and>
      \<not> has_flag SSWAP (procs s' p)"
  by (rule swtch_picks_best [OF demo_queues_ok])

text \<open>
  C32. A process that went to sleep is run again: once it has been woken on its channel, is in
  core and has a better priority than every other process that is ready then, the next
  \<open>swtch\<close> resumes it.
\<close>

theorem woken_process_runs:
  assumes "queues_ok s" and "c \<noteq> 0" and "a_runout s \<noteq> 0" and "runout s = 0 \<or> hash (a_runout s) \<noteq> hash c"
    and "asleep_on s c p" and "has_flag SLOAD (procs s p)"
    and "\<forall>x. x \<noteq> p \<and> (ready s x \<or> asleep_on s c x \<or> asleep_on s (a_runout s) x) \<longrightarrow> pri_of s p < pri_of s x"
  shows "\<exists>s1 sw s2. wakeup c s = Ok () s1 \<and> swtch s1 = Ok (Some (p, sw)) s2"
proof -
  obtain s1 B where *: "wakeup c s = Ok () s1" "awake_after ({p. asleep_on s c p} \<union> B) s s1"
    "B \<subseteq> {p. runout s \<noteq> 0 \<and> asleep_on s (a_runout s) p}"
    by (rule wakeup_ok [OF assms(1-4)])
  let ?A = "{p. asleep_on s c p} \<union> B"
  have eq: "strip (procs s1 x) = strip (if x \<in> ?A then awaken (procs s x) else procs s x)" for x
    using *(2) by (auto simp: awake_after_def woke_def)
  have pri: "pri_of s1 x = pri_of s x" for x
    using strip_eqD(4) [OF eq [of x]] by (simp add: awaken_def)
  have fl: "has_flag SLOAD (procs s1 x) = has_flag SLOAD (procs s x)" for x
    using strip_eqD(3) [OF eq [of x]] by (simp add: awaken_def has_flag_def)
  have st: "p_stat (procs s1 x) = (if x \<in> ?A then SRUN else p_stat (procs s x))" for x
    using strip_eqD(2) [OF eq [of x]] by (simp add: awaken_def)
  have p: "on_runq s1 p" "ready s1 p" using *(2) assms(5,6) st fl by (auto simp: awake_after_def ready_def)
  have best: "pri_of s1 p < pri_of s1 x" if "x \<noteq> p" "ready s1 x" for x
  proof -
    have "ready s x \<or> x \<in> ?A" using that(2) st [of x] fl by (auto simp: ready_def split: if_splits)
    then show ?thesis using assms(7) that(1) *(3) by (auto simp: pri)
  qed
  obtain rq sq where q: "queues rq sq s1" using *(2) by (auto simp: awake_after_def queues_ok_def)
  from q show ?thesis
  proof (cases rule: swtch_cases)
    case idle
    then show ?thesis using p on_runq_queues [OF q] by auto
  next
    case (switch as x bs s')
    have "p \<in> set rq" using p(1) on_runq_queues [OF q] by simp
    then have "x = p" using best [of x] switch(2,3) p(2) by force
    then show ?thesis using *(1) switch(4) by blast
  qed
qed

theorem woken_process_runs_witness:
  "\<exists>s1 sw s2. wakeup 64 (upd_proc 3 (p_pri_update (\<lambda>_. 10)) demo_sched) = Ok () s1 \<and> swtch s1 = Ok (Some (3, sw)) s2"
proof (rule woken_process_runs)
  let ?s = "upd_proc 3 (p_pri_update (\<lambda>_. 10)) demo_sched"
  have same: "p_wchan (procs ?s x) = p_wchan (procs demo_sched x)" "p_stat (procs ?s x) = p_stat (procs demo_sched x)"
    "p_flag (procs ?s x) = p_flag (procs demo_sched x)" for x by (simp_all add: upd_proc_def)
  have "link ?s = link demo_sched" by (rule ext) (simp add: link_def upd_proc_def)
  then have "queues [4] demo_sq ?s"
    using demo_queues by (simp add: queues_def asleep_at_def same) (simp add: upd_proc_def)
  moreover have "asleep_on ?s c x = asleep_on demo_sched c x" for c x by (simp add: asleep_on_def same)
  ultimately show "queues_ok ?s"
    using demo_queues_ok demo_queues unfolding queues_ok_def
    by (auto simp: asleep_on_def demo_sched_def demo_proc_def demo_sq_def intro!: exI [of _ "[4]"] exI [of _ demo_sq] split: if_splits)
  show "runout ?s = 0 \<or> hash (a_runout ?s) \<noteq> hash 64"
    by (simp add: upd_proc_def) (simp add: demo_sched_def)
  show "asleep_on ?s 64 3" by (simp add: asleep_on_def same) (simp add: demo_sched_def demo_proc_def NPROC_def)
  show "\<forall>x. x \<noteq> 3 \<and> (ready ?s x \<or> asleep_on ?s 64 x \<or> asleep_on ?s (a_runout ?s) x) \<longrightarrow> pri_of ?s 3 < pri_of ?s x"
    by (simp add: upd_proc_def demo_sched_def demo_proc_def)
qed (simp_all add: upd_proc_def demo_sched_def demo_proc_def has_flag_def)

text \<open>
  With a legal nice value (0 to 39) the user priority lies between 30 and 84, above
  \<open>PZERO\<close>: a process in user mode always loses against one that sleeps in the kernel, and its
  sleep at that priority is interruptible; a larger processor usage or nice value never
  gives a better priority.
\<close>

theorem setpri_bounds:
  assumes "0 \<le> sint (p_nice (procs s i))" and "sint (p_nice (procs s i)) < 2 * NZERO"
  shows "fst (setpri i s) = uint (p_cpu (procs s i)) div 16 + sint (p_nice (procs s i)) + 30 \<and>
    PZERO < fst (setpri i s) \<and> fst (setpri i s) \<le> 84 \<and> sint (p_pri (procs (snd (setpri i s)) i)) = fst (setpri i s) \<and>
    (runrun (snd (setpri i s)) = (if fst (setpri i s) < sint (curpri s) then runrun s + 1 else runrun s))"
proof -
  let ?x = "procs s i"
  have "uint (p_cpu ?x) < 256" using uint_lt2p [of "p_cpu ?x"] by simp
  then have d: "uint (p_cpu ?x) div 16 \<le> 15" "0 \<le> uint (p_cpu ?x) div 16" by (auto simp: pos_imp_zdiv_nonneg_iff)
  define v where "v = uint (p_cpu ?x) div 16 + (PUSER + sint (p_nice ?x) - NZERO)"
  have v: "v \<le> 84" "25 < v" using d assms by (simp_all add: v_def PUSER_def NZERO_def)
  then have f: "fst (setpri i s) = v" by (simp add: setpri_def Let_def v_def)
  have "sint (word_of_int v :: u8) = v" using v by (simp add: sint_sbintrunc' signed_take_bit_int_eq_self)
  then have "sint (p_pri (procs (snd (setpri i s)) i)) = v" "runrun (snd (setpri i s)) = (if v < sint (curpri s) then runrun s + 1 else runrun s)"
    using v by (simp_all add: setpri_def Let_def upd_proc_def flip: v_def)
  then show ?thesis using f v by (simp add: v_def PUSER_def NZERO_def PZERO_def)
qed

theorem setpri_bounds_witness:
  "fst (setpri 4 demo_sched) = uint (p_cpu (procs demo_sched 4)) div 16 + sint (p_nice (procs demo_sched 4)) + 30 \<and>
    PZERO < fst (setpri 4 demo_sched) \<and> fst (setpri 4 demo_sched) \<le> 84 \<and>
    sint (p_pri (procs (snd (setpri 4 demo_sched)) 4)) = fst (setpri 4 demo_sched) \<and>
    (runrun (snd (setpri 4 demo_sched)) = (if fst (setpri 4 demo_sched) < sint (curpri demo_sched) then runrun demo_sched + 1 else runrun demo_sched))"
  by (rule setpri_bounds) (simp_all add: demo_sched_def demo_proc_def NZERO_def)

end
