(* ===== verification/Swap.thy ===== *)
theory Swap
  imports V7_Prelude Res_Map Sched
begin

text \<open>
  Swapping and the making of processes (\<open>sched\<close>, \<open>swapin\<close>, \<open>newproc\<close>, \<open>expand\<close> of \<open>sys/slp.c\<close>,
  \<open>xswap\<close> and the locking of shared texts of \<open>sys/text.c\<close>, \<open>swap\<close> of \<open>dev/bio.c\<close>) on the maps
  of \<open>Res_Map\<close> and the queues of \<open>Sched\<close>. The routines are composed with \<open>bnd\<close> and their lemmas
  are stated with \<open>post\<close>: what each one leaves alone, where it puts an image. The properties are
  that an image survives being swapped out and in, that a child gets its parent's image
  and a new process number, and what the swapping process chooses.
\<close>

unbundle bit_operations_syntax

section \<open>Memory, shared texts and the open references of a process\<close>

text \<open>
  Core is an array of clicks (64 bytes) and the swap space one of disk blocks of 8 clicks;
  \<open>swpd\<close> gives the clicks of the swap space one after the other. The table of shared texts
  follows \<open>h/text.h\<close>. The fields from \<open>u_ofile\<close> on are what \<open>newproc\<close> copies: the open files
  and directories of the running process with the reference counts of the file and inode
  tables.
\<close>

type_synonym click = "u8 list"

record textent =
  x_daddr :: u16
  x_caddr :: u16
  x_size :: u16
  x_iptr :: "nat option"
  x_count :: u8
  x_ccount :: u8
  x_flag :: u8

abbreviation XWRIT :: u8 where "XWRIT \<equiv> 2"
abbreviation XLOAD :: u8 where "XLOAD \<equiv> 4"
abbreviation XLOCK :: u8 where "XLOCK \<equiv> 8"
abbreviation XWANT :: u8 where "XWANT \<equiv> 16"

record sst = kst +
  core :: "u16 \<Rightarrow> click"
  swpd :: "nat \<Rightarrow> click"
  texts :: "nat \<Rightarrow> textent"
  a_text :: u16
  mpid :: u16
  u_ofile :: "nat option list"
  f_count :: "nat \<Rightarrow> u8"
  u_cdir :: nat
  u_rdir :: "nat option"
  i_count :: "nat \<Rightarrow> u8"

definition upd_text :: "nat \<Rightarrow> (textent \<Rightarrow> textent) \<Rightarrow> 'z sst_scheme \<Rightarrow> 'z sst_scheme" where
  "upd_text i f s = s\<lparr>texts := (texts s)(i := f (texts s i))\<rparr>"

definition text_addr :: "'z sst_scheme \<Rightarrow> nat \<Rightarrow> u16" where
  "text_addr s i = a_text s + 12 * of_nat i"

definition x_has :: "u8 \<Rightarrow> textent \<Rightarrow> bool" where
  "x_has b x = (x_flag x AND b \<noteq> 0)"

definition ctod :: "u16 \<Rightarrow> u16" where
  "ctod x = word_of_int (sint (x + 7) div 8)"

text \<open>
  \<open>malloc\<close> and \<open>mfree\<close> on the kernel's two maps. Freeing core wakes the swapper if it waits on
  \<open>runin\<close>.
\<close>

definition alloc_map :: "whichmap \<Rightarrow> u16 \<Rightarrow> 'z kst_scheme \<Rightarrow> (u16, 'z kst_scheme) kres" where
  "alloc_map w sz s = (case kmalloc w sz (maps.truncate s) of
       None \<Rightarrow> Wild
     | Some (a, m) \<Rightarrow> Ok a (s\<lparr>coremap := coremap m, swapmap := swapmap m\<rparr>))"

definition free_map :: "whichmap \<Rightarrow> u16 \<Rightarrow> u16 \<Rightarrow> 'z kst_scheme \<Rightarrow> (unit, 'z kst_scheme) kres" where
  "free_map w sz a s =
     bnd (if w = Coremap \<and> runin s \<noteq> 0 then wakeup (a_runin s) (s\<lparr>runin := 0\<rparr>) else Ok () s) (\<lambda>_ s.
       case mfree w sz a (maps.truncate s) of
         None \<Rightarrow> Wild
       | Some m \<Rightarrow> Ok () (s\<lparr>coremap := coremap m, swapmap := swapmap m\<rparr>))"

text \<open>
  Transfers between core and the swap device in pieces of at most 960 clicks: the loop of \<open>swap\<close>. The swapper waits
  for the end of each piece; here the piece is there at once. What \<open>swap\<close> does around the loop is not modelled: the choice of
  one of the two swap buffers and the wait for it in front, the panic ''IO err in swap'' behind it. The count is taken as it is
  for sizes of processes and texts, not negative.
\<close>

definition put_clicks :: "nat \<Rightarrow> u16 \<Rightarrow> nat \<Rightarrow> 'z sst_scheme \<Rightarrow> 'z sst_scheme" where
  "put_clicks blk a n s = s\<lparr>swpd := (\<lambda>k. if 8 * blk \<le> k \<and> k < 8 * blk + n then core s (a + of_nat (k - 8 * blk)) else swpd s k)\<rparr>"

definition get_clicks :: "nat \<Rightarrow> u16 \<Rightarrow> nat \<Rightarrow> 'z sst_scheme \<Rightarrow> 'z sst_scheme" where
  "get_clicks blk a n s = s\<lparr>core := (\<lambda>x. if unat (x - a) < n then swpd s (8 * blk + unat (x - a)) else core s x)\<rparr>"

function swap_io :: "bool \<Rightarrow> nat \<Rightarrow> u16 \<Rightarrow> nat \<Rightarrow> 'z sst_scheme \<Rightarrow> 'z sst_scheme" where
  "swap_io rd blk a n s =
     (if n = 0 then s
      else let t = (if n \<ge> 960 then 960 else n) in
        swap_io rd (blk + (t + 7) div 8) (a + of_nat t) (n - t)
          ((if rd then get_clicks else put_clicks) blk a t s))"
  by pat_completeness auto
termination by (relation "measure (\<lambda>(_, _, _, n, _). n)") auto

declare swap_io.simps [simp del]

definition swap :: "u16 \<Rightarrow> u16 \<Rightarrow> u16 \<Rightarrow> bool \<Rightarrow> 'z sst_scheme \<Rightarrow> 'z sst_scheme" where
  "swap blk a n rd s = swap_io rd (unat blk) a (unat n) s"


section \<open>Shared texts\<close>

text \<open>\<open>xlock\<close> sleeps while somebody else holds the lock and tries again from the start.\<close>

definition xlock :: "nat \<Rightarrow> 'z sst_scheme \<Rightarrow> (unit, 'z sst_scheme) kres" where
  "xlock xp s =
     (if x_has XLOCK (texts s xp)
      then Sleeps (text_addr s xp) PSWP (upd_text xp (\<lambda>x. x\<lparr>x_flag := x_flag x OR XWANT\<rparr>) s)
      else Ok () (upd_text xp (\<lambda>x. x\<lparr>x_flag := x_flag x OR XLOCK\<rparr>) s))"

definition xunlock :: "nat \<Rightarrow> 'z sst_scheme \<Rightarrow> (unit, 'z sst_scheme) kres" where
  "xunlock xp s =
     bnd (if x_has XWANT (texts s xp) then wakeup (text_addr s xp) s else Ok () s) (\<lambda>_ s.
       Ok () (upd_text xp (\<lambda>x. x\<lparr>x_flag := x_flag x AND NOT (XLOCK OR XWANT)\<rparr>) s))"

definition xccdec :: "nat option \<Rightarrow> 'z sst_scheme \<Rightarrow> (unit, 'z sst_scheme) kres" where
  "xccdec xo s = (case xo of
       None \<Rightarrow> Ok () s
     | Some xp \<Rightarrow>
         if x_ccount (texts s xp) = 0 then Ok () s
         else bnd (xlock xp s) (\<lambda>_ s.
           let s = upd_text xp (\<lambda>x. x\<lparr>x_ccount := x_ccount x - 1\<rparr>) s; x = texts s xp in
           bnd (if x_ccount x = 0
                then let s = (if x_has XWRIT x
                     then swap (x_daddr x) (x_caddr x) (x_size x) False (upd_text xp (\<lambda>x. x\<lparr>x_flag := x_flag x AND NOT XWRIT\<rparr>) s)
                     else s) in free_map Coremap (x_size x) (x_caddr x) s
                else Ok () s) (\<lambda>_ s. xunlock xp s)))"


section \<open>Swapping processes\<close>

definition wake_runout :: "'z kst_scheme \<Rightarrow> (unit, 'z kst_scheme) kres" where
  "wake_runout s = (if runout s \<noteq> 0 then wakeup (a_runout s) (s\<lparr>runout := 0\<rparr>) else Ok () s)"

definition xswap :: "nat \<Rightarrow> bool \<Rightarrow> u16 \<Rightarrow> 'z sst_scheme \<Rightarrow> (unit, 'z sst_scheme) kres" where
  "xswap p ff os0 s =
     (let os = (if os0 = 0 then p_size (procs s p) else os0) in
      bnd (alloc_map Swapmap (ctod (p_size (procs s p))) s) (\<lambda>a s.
      if a = 0 then Panic ''out of swap space'' else
      bnd (xccdec (p_textp (procs s p)) (upd_proc p (\<lambda>x. x\<lparr>p_flag := p_flag x OR SLOCK\<rparr>) s)) (\<lambda>_ s.
      let s = swap a (p_addr (procs s p)) os False s in
      bnd (if ff then free_map Coremap os (p_addr (procs s p)) s else Ok () s) (\<lambda>_ s.
      wake_runout (upd_proc p (\<lambda>x. x\<lparr>p_addr := a, p_flag := p_flag x AND NOT (SLOAD OR SLOCK), p_time := 0\<rparr>) s)))))"

text \<open>
  The text of a process that is swapped in: \<^const>\<open>True\<close> if it is (or was) in core now.
\<close>

definition swapin_text :: "nat \<Rightarrow> 'z sst_scheme \<Rightarrow> (bool, 'z sst_scheme) kres" where
  "swapin_text xp s =
     bnd (xlock xp s) (\<lambda>_ s.
     bnd (if x_ccount (texts s xp) = 0
          then bnd (alloc_map Coremap (x_size (texts s xp)) s) (\<lambda>x s.
            if x = 0 then Ok False s
            else let s = upd_text xp (\<lambda>t. t\<lparr>x_caddr := x\<rparr>) s; t = texts s xp in
              Ok True (if x_has XLOAD t then s else swap (x_daddr t) x (x_size t) True s))
          else Ok True s) (\<lambda>got s.
     bnd (xunlock xp (if got then upd_text xp (\<lambda>t. t\<lparr>x_ccount := x_ccount t + 1\<rparr>) s else s)) (\<lambda>_ s.
     Ok got s)))"

definition swapin :: "nat \<Rightarrow> 'z sst_scheme \<Rightarrow> (bool, 'z sst_scheme) kres" where
  "swapin p s =
     bnd (alloc_map Coremap (p_size (procs s p)) s) (\<lambda>a s.
     if a = 0 then Ok False s else
     bnd (case p_textp (procs s p) of None \<Rightarrow> Ok True s | Some xp \<Rightarrow> swapin_text xp s) (\<lambda>got s.
     if \<not> got then bnd (free_map Coremap (p_size (procs s p)) a s) (\<lambda>_ s. Ok False s) else
     bnd (free_map Swapmap (ctod (p_size (procs s p))) (p_addr (procs s p))
            (swap (p_addr (procs s p)) a (p_size (procs s p)) True s)) (\<lambda>_ s.
     Ok True (upd_proc p (\<lambda>x. x\<lparr>p_addr := a, p_flag := p_flag x OR SLOAD, p_time := 0\<rparr>) s))))"


section \<open>The swapping process\<close>

text \<open>
  One pass of \<open>sched\<close>. Of the runnable processes that are out the one that has been out longest
  (weighted with its nice value) comes in. If there is no core for it, a victim is chosen:
  the largest of those that sleep at a bad priority or are stopped, else the one that has
  been in longest.
\<close>

definition out_age :: "proc \<Rightarrow> int" where
  "out_age x = sint (p_time x) - (sint (p_nice x) - NZERO) * 8"

definition in_age :: "proc \<Rightarrow> int" where
  "in_age x = sint (p_time x) + sint (p_nice x) - NZERO"

definition waits_outside :: "proc \<Rightarrow> bool" where
  "waits_outside x = (p_stat x = SRUN \<and> \<not> has_flag SLOAD x)"

definition pick_in_step :: "'z kst_scheme \<Rightarrow> nat option \<times> int \<Rightarrow> nat \<Rightarrow> nat option \<times> int" where
  "pick_in_step s = (\<lambda>(p, outage) rp. let x = procs s rp in
      if waits_outside x \<and> out_age x > outage then (Some rp, out_age x) else (p, outage))"

definition pick_in :: "'z kst_scheme \<Rightarrow> nat option \<times> int" where
  "pick_in s = foldl (pick_in_step s) (None, -20000) [0..<NPROC]"

definition may_go :: "'z sst_scheme \<Rightarrow> proc \<Rightarrow> bool" where
  "may_go s x = (p_stat x \<noteq> SZOMB \<and> p_flag x AND (SSYS OR SLOCK OR SULOCK OR SLOAD) = SLOAD \<and>
     (case p_textp x of None \<Rightarrow> True | Some xp \<Rightarrow> \<not> x_has XLOCK (texts s xp)))"

definition idle_in_core :: "proc \<Rightarrow> bool" where
  "idle_in_core x = (p_stat x = SSLEEP \<and> sint (p_pri x) \<ge> PZERO \<or> p_stat x = SSTOP)"

definition pick_out_step :: "'z sst_scheme \<Rightarrow> nat option \<times> int \<times> int \<Rightarrow> nat \<Rightarrow> nat option \<times> int \<times> int" where
  "pick_out_step s = (\<lambda>(p, maxsize, inage) rp. let x = procs s rp in
      if \<not> may_go s x then (p, maxsize, inage)
      else if idle_in_core x
      then (if maxsize < sint (p_size x) then (Some rp, sint (p_size x), inage) else (p, maxsize, inage))
      else if maxsize < 0 \<and> (p_stat x = SRUN \<or> p_stat x = SSLEEP)
      then (if in_age x > inage then (Some rp, maxsize, in_age x) else (p, maxsize, inage))
      else (p, maxsize, inage))"

definition pick_out :: "'z sst_scheme \<Rightarrow> nat option \<times> int \<times> int" where
  "pick_out s = foldl (pick_out_step s) (None, -1, -1) [0..<NPROC]"

definition sched_pass :: "'z sst_scheme \<Rightarrow> (unit, 'z sst_scheme) kres" where
  "sched_pass s = (case pick_in s of
       (None, outage) \<Rightarrow> Sleeps (a_runout s) PSWP (s\<lparr>runout := runout s + 1\<rparr>)
     | (Some p, outage) \<Rightarrow> bnd (swapin p s) (\<lambda>in_core s.
         if in_core then Ok () s
         else case pick_out s of (vo, maxsize, inage) \<Rightarrow>
           (case vo of
              Some v \<Rightarrow> if maxsize \<ge> 0 \<or> (outage \<ge> 3 \<and> inage \<ge> 2)
                then xswap v True 0 (upd_proc v (\<lambda>x. x\<lparr>p_flag := p_flag x AND NOT SLOAD\<rparr>) s)
                else Sleeps (a_runin s) PSWP (s\<lparr>runin := runin s + 1\<rparr>)
            | None \<Rightarrow> Sleeps (a_runin s) PSWP (s\<lparr>runin := runin s + 1\<rparr>))))"


section \<open>New processes, and processes that grow\<close>

fun pid_scan :: "nat list \<Rightarrow> u16 \<Rightarrow> nat option \<Rightarrow> 'z kst_scheme \<Rightarrow> bool \<times> nat option" where
  "pid_scan [] m p s = (True, p)"
| "pid_scan (r # rs) m p s =
     (let p' = (if p_stat (procs s r) = 0 \<and> p = None then Some r else p) in
      if p_pid (procs s r) = m \<or> p_pgrp (procs s r) = m then (False, p') else pid_scan rs m p' s)"

text \<open>The search for an unused process number (\<open>retry\<close>); the first argument bounds the tries.\<close>

fun new_pid :: "nat \<Rightarrow> u16 \<Rightarrow> nat option \<Rightarrow> 'z kst_scheme \<Rightarrow> (u16 \<times> nat option) option" where
  "new_pid 0 m p s = None"
| "new_pid (Suc n) m p s =
     (if sint (m + 1) \<ge> 30000 then new_pid n 0 p s
      else case pid_scan [0..<NPROC] (m + 1) p s of
        (True, p') \<Rightarrow> Some (m + 1, p')
      | (False, p') \<Rightarrow> new_pid n (m + 1) p' s)"

fun copy_segs :: "nat \<Rightarrow> u16 \<Rightarrow> u16 \<Rightarrow> 'z sst_scheme \<Rightarrow> 'z sst_scheme" where
  "copy_segs 0 a1 a2 s = s"
| "copy_segs (Suc n) a1 a2 s = copy_segs n (a1 + 1) (a2 + 1) (s\<lparr>core := (core s)(a2 := core s a1)\<rparr>)"

definition dup_refs :: "'z sst_scheme \<Rightarrow> 'z sst_scheme" where
  "dup_refs s =
     (let s = fold (\<lambda>fo s. case fo of None \<Rightarrow> s | Some f \<Rightarrow> s\<lparr>f_count := (f_count s)(f := f_count s f + 1)\<rparr>) (u_ofile s) s;
          s = (case p_textp (procs s (cur s)) of None \<Rightarrow> s
               | Some xp \<Rightarrow> upd_text xp (\<lambda>x. x\<lparr>x_count := x_count x + 1, x_ccount := x_ccount x + 1\<rparr>) s);
          s = s\<lparr>i_count := (i_count s)(u_cdir s := i_count s (u_cdir s) + 1)\<rparr>
      in case u_rdir s of None \<Rightarrow> s | Some r \<Rightarrow> s\<lparr>i_count := (i_count s)(r := i_count s r + 1)\<rparr>)"

text \<open>
  \<open>newproc\<close> up to its return in the parent, which gets the index of the new process; the child
  starts at \<open>u_ssav\<close> (its \<open>SSWAP\<close> flag) and returns 1 from there.
\<close>

definition newproc :: "'z sst_scheme \<Rightarrow> (nat, 'z sst_scheme) kres" where
  "newproc s = (case new_pid (2 * NPROC + 2) (mpid s) None s of
       None \<Rightarrow> Stuck
     | Some (m, None) \<Rightarrow> Panic ''no procs''
     | Some (m, Some c) \<Rightarrow>
         let rip = cur s; r = procs s rip; n = p_size r; a1 = p_addr r;
             s = upd_proc c (\<lambda>x. x\<lparr>p_stat := SRUN, p_clktim := 0, p_flag := SLOAD, p_uid := p_uid r, p_pgrp := p_pgrp r,
                   p_nice := p_nice r, p_textp := p_textp r, p_pid := m, p_ppid := p_pid r, p_time := 0, p_cpu := 0\<rparr>)
                 (s\<lparr>mpid := m\<rparr>);
             s = upd_proc c (\<lambda>x. x\<lparr>p_size := n\<rparr>) (dup_refs s)
         in bnd (alloc_map Coremap n s) (\<lambda>a2 s.
            bnd (if a2 = 0
                 then bnd (xswap c False 0 (upd_proc c (\<lambda>x. x\<lparr>p_addr := a1\<rparr>) (upd_proc rip (\<lambda>x. x\<lparr>p_stat := SIDL\<rparr>) s))) (\<lambda>_ s.
                        Ok () (upd_proc rip (\<lambda>x. x\<lparr>p_stat := SRUN\<rparr>) s))
                 else Ok () (copy_segs (unat n) a1 a2 (upd_proc c (\<lambda>x. x\<lparr>p_addr := a2\<rparr>) s))) (\<lambda>_ s.
            bnd (setrq c s) (\<lambda>_ s.
            Ok c (upd_proc c (\<lambda>x. x\<lparr>p_flag := p_flag x OR SSWAP\<rparr>) s)))))"

definition qswtch :: "'z kst_scheme \<Rightarrow> ((nat \<times> bool) option, 'z kst_scheme) kres" where
  "qswtch s = bnd (setrq (cur s) s) (\<lambda>_ s. swtch s)"

text \<open>
  \<open>expand\<close> and \<open>xexpand\<close> answer \<^const>\<open>True\<close> when they return to their caller at once and \<^const>\<open>False\<close>
  when the process had to be swapped out; it then goes on at \<open>u_ssav\<close> once it is back in core.
\<close>

definition expand :: "u16 \<Rightarrow> 'z sst_scheme \<Rightarrow> (bool, 'z sst_scheme) kres" where
  "expand newsize s =
     (let p = cur s; n = p_size (procs s p); a1 = p_addr (procs s p);
          s = upd_proc p (\<lambda>x. x\<lparr>p_size := newsize\<rparr>) s in
      if sint n \<ge> sint newsize then bnd (free_map Coremap (n - newsize) (a1 + newsize) s) (\<lambda>_ s. Ok True s)
      else bnd (alloc_map Coremap newsize s) (\<lambda>a2 s.
        if a2 = 0
        then bnd (xswap p True n s) (\<lambda>_ s.
             bnd (qswtch (upd_proc p (\<lambda>x. x\<lparr>p_flag := p_flag x OR SSWAP\<rparr>) s)) (\<lambda>_ s. Ok False s))
        else bnd (free_map Coremap n a1 (copy_segs (unat n) a1 a2 (upd_proc p (\<lambda>x. x\<lparr>p_addr := a2\<rparr>) s))) (\<lambda>_ s.
             Ok True s)))"

definition xexpand :: "nat \<Rightarrow> 'z sst_scheme \<Rightarrow> (bool, 'z sst_scheme) kres" where
  "xexpand xp s =
     bnd (alloc_map Coremap (x_size (texts s xp)) s) (\<lambda>a s.
     let s = upd_text xp (\<lambda>x. x\<lparr>x_caddr := a\<rparr>) s; x = texts s xp in
     if a \<noteq> 0
     then bnd (xunlock xp (upd_text xp (\<lambda>x. x\<lparr>x_ccount := x_ccount x + 1\<rparr>)
                (if x_has XLOAD x then s else swap (x_daddr x) a (x_size x) True s))) (\<lambda>_ s. Ok True s)
     else bnd (xswap (cur s) True 0 s) (\<lambda>_ s.
          bnd (xunlock xp s) (\<lambda>_ s.
          bnd (qswtch (upd_proc (cur s) (\<lambda>x. x\<lparr>p_flag := p_flag x OR SSWAP\<rparr>) s)) (\<lambda>_ s. Ok False s))))"


section \<open>What waking processes leaves alone\<close>

text \<open>
  \<open>wakeup\<close> and \<open>setrun\<close>, in any state, change only queues, states, channels and links: not the
  memory, the texts, or where the image of a process is.
\<close>

definition place :: "proc \<Rightarrow> proc" where "place x = x\<lparr>p_link := None, p_stat := (if p_stat x = 0 then 0 else 1), p_wchan := 0\<rparr>"

definition keeps :: "'z kst_scheme \<Rightarrow> 'z kst_scheme \<Rightarrow> bool" where
  "keeps s s' \<longleftrightarrow> (\<exists>P Q R a b c. s' = s\<lparr>procs := P, slpque := Q, runq := R, runrun := a, runout := b, console := c\<rparr>) \<and>
     (\<forall>i. place (procs s' i) = place (procs s i))"

lemma keeps_refl [simp]: "keeps s s"
  unfolding keeps_def
  by (intro conjI exI [of _ "procs s"] exI [of _ "slpque s"] exI [of _ "runq s"] exI [of _ "runrun s"]
      exI [of _ "runout s"] exI [of _ "console s"]) simp_all

lemma keeps_trans:
  assumes "keeps s t" and "keeps t u"
  shows "keeps s u"
proof -
  obtain P Q R a b c where 1: "t = s\<lparr>procs := P, slpque := Q, runq := R, runrun := a, runout := b, console := c\<rparr>"
    using assms(1) by (auto simp: keeps_def)
  obtain P' Q' R' a' b' c' where 2: "u = t\<lparr>procs := P', slpque := Q', runq := R', runrun := a', runout := b', console := c'\<rparr>"
    using assms(2) by (auto simp: keeps_def)
  have "u = s\<lparr>procs := P', slpque := Q', runq := R', runrun := a', runout := b', console := c'\<rparr>"
    unfolding 2 1 by simp
  moreover have "\<forall>i. place (procs u i) = place (procs s i)" using assms by (simp add: keeps_def)
  ultimately show ?thesis unfolding keeps_def by blast
qed

lemma keepsI:
  assumes "s' = s\<lparr>procs := P, slpque := Q, runq := R, runrun := a, runout := b, console := c\<rparr>"
    and "\<And>i. place (P i) = place (procs s i)"
  shows "keeps s s'"
  unfolding keeps_def assms(1) by (intro conjI exI allI, rule refl) (simp add: assms(2))

lemma keeps_upd_proc:
  assumes "place (f (procs s p)) = place (procs s p)"
  shows "keeps s (upd_proc p f s)"
  by (rule keepsI [where P = "(procs s)(p := f (procs s p))" and Q = "slpque s" and R = "runq s" and a = "runrun s"
      and b = "runout s" and c = "console s"]) (simp_all add: upd_proc_def assms)

lemma keeps_fields:
  "keeps s (s\<lparr>runq := r\<rparr>)" "keeps s (s\<lparr>slpque := q\<rparr>)" "keeps s (s\<lparr>runout := b\<rparr>)" "keeps s (s\<lparr>console := c\<rparr>)" "keeps s (s\<lparr>runrun := a\<rparr>)"
proof -
  show "keeps s (s\<lparr>runq := r\<rparr>)"
    by (rule keepsI [where P = "procs s" and Q = "slpque s" and R = r and a = "runrun s" and b = "runout s" and c = "console s"]) simp_all
  show "keeps s (s\<lparr>slpque := q\<rparr>)"
    by (rule keepsI [where P = "procs s" and Q = q and R = "runq s" and a = "runrun s" and b = "runout s" and c = "console s"]) simp_all
  show "keeps s (s\<lparr>runout := b\<rparr>)"
    by (rule keepsI [where P = "procs s" and Q = "slpque s" and R = "runq s" and a = "runrun s" and b = b and c = "console s"]) simp_all
  show "keeps s (s\<lparr>console := c\<rparr>)"
    by (rule keepsI [where P = "procs s" and Q = "slpque s" and R = "runq s" and a = "runrun s" and b = "runout s" and c = c]) simp_all
  show "keeps s (s\<lparr>runrun := a\<rparr>)"
    by (rule keepsI [where P = "procs s" and Q = "slpque s" and R = "runq s" and a = a and b = "runout s" and c = "console s"]) simp_all
qed

lemma keeps_preempt: "keeps s (preempt p s)" by (simp add: preempt_def keeps_fields)

lemma keeps_unlink: "keeps s (unlink_slp c q sp s)"
  by (cases q) (auto simp: unlink_slp_def place_def intro!: keeps_fields keeps_upd_proc)

lemma bnd_Ok: "bnd r f = Ok b s' \<Longrightarrow> \<exists>a t. r = Ok a t \<and> f a t = Ok b s'"
  by (cases r) auto

lemma setrq_keeps:
  assumes "setrq p s = Ok u s'"
  shows "keeps s s'"
proof -
  have "keeps s ((upd_proc p (\<lambda>x. x\<lparr>p_link := runq s\<rparr>) s)\<lparr>runq := Some p\<rparr>)"
    by (rule keeps_trans [OF keeps_upd_proc keeps_fields(1)]) (simp add: place_def)
  then show ?thesis using assms keeps_fields(4) by (auto simp: setrq_def split: option.splits bool.splits)
qed

lemma wk_sr_keeps:
  fixes s s' :: "'z kst_scheme"
  shows "wk n c q po s = Ok u s' \<Longrightarrow> keeps s s'" and "sr n p s = Ok u s' \<Longrightarrow> keeps s s'"
proof (induction n c q po s and n p s arbitrary: u s' and u s' rule: wk_sr.induct)
  case (3 n c q p s)
  show ?case
  proof (cases "p_wchan (procs s p) = c \<and> p_stat (procs s p) \<noteq> SZOMB")
    case True
    let ?s = "upd_proc p (\<lambda>x. x\<lparr>p_wchan := 0\<rparr>) (unlink_slp c q (p_link (procs s p)) s)"
    from bnd_Ok [of "sr n p ?s"] 3(4) True obtain t where t: "sr n p ?s = Ok () t" "wk n c q (p_link (procs s p)) t = Ok u s'"
      by (fastforce simp: Let_def)
    have "keeps s ?s" by (rule keeps_trans [OF keeps_unlink keeps_upd_proc]) (simp add: place_def)
    then show ?thesis using 3(1,2) [OF True refl] t keeps_trans by blast
  next
    case False
    then have "wk n c (Some p) (p_link (procs s p)) s = Ok u s'" using 3(4) by (simp only: wk.simps if_False)
    with False show ?thesis by (rule 3(3))
  qed
next
  case (5 n p s)
  have live: "p_stat (procs s p) \<noteq> 0" "p_stat (procs s p) \<noteq> SZOMB" using 5(3) by (auto split: if_splits)
  show ?case
  proof (cases "p_wchan (procs s p) = 0")
    case False
    then show ?thesis using 5(1) 5(3) live by (simp add: Let_def)
  next
    case True
    let ?s = "upd_proc p (\<lambda>x. x\<lparr>p_stat := SRUN\<rparr>) s"
    from bnd_Ok [of "setrq p ?s"] 5(3) True live obtain t where t: "setrq p ?s = Ok () t"
      "(if runout (preempt p t) \<noteq> 0 \<and> \<not> has_flag SLOAD (procs (preempt p t) p)
          then wk n (a_runout (preempt p t)) None (slpque (preempt p t) (hash (a_runout (preempt p t)))) ((preempt p t)\<lparr>runout := 0\<rparr>)
          else Ok () (preempt p t)) = Ok u s'" by (fastforce simp: Let_def)
    have st: "keeps s (preempt p t)"
    proof (rule keeps_trans [OF keeps_trans [OF keeps_upd_proc setrq_keeps [OF t(1)]] keeps_preempt])
    qed (use live in \<open>simp add: place_def\<close>)
    show ?thesis
    proof (cases "runout (preempt p t) \<noteq> 0 \<and> \<not> has_flag SLOAD (procs (preempt p t) p)")
      case run: True
      have "keeps (preempt p t) ((preempt p t)\<lparr>runout := 0\<rparr>)" by (rule keeps_fields)
      moreover have "keeps ((preempt p t)\<lparr>runout := 0\<rparr>) s'"
        by (rule 5(2) [OF _ refl _ refl]) (use t(2) run True live in simp_all)
      ultimately show ?thesis using st keeps_trans by blast
    next
      case False
      then show ?thesis using t(2) st by (simp only: if_False kres.inject)
    qed
  qed
qed auto

lemma wakeup_keeps: "post (wakeup c s) (\<lambda>_. keeps s)"
  unfolding wakeup_def by (rule postI) (rule wk_sr_keeps)


section \<open>Where images are, and what is in them\<close>

text \<open>
  What a routine leaves alone is stated as the equality of views of the state: the contents of
  core with the place of every image and the reference counts (\<open>core_view\<close>), the flags of the processes, the contents
  of the swap space and the text table.
\<close>

definition places :: "'z kst_scheme \<Rightarrow> nat \<Rightarrow> u16 \<times> u16 \<times> nat option \<times> u16 \<times> u16" where
  "places s = (\<lambda>i. (p_addr (procs s i), p_size (procs s i), p_textp (procs s i), p_pid (procs s i), p_ppid (procs s i)))"

definition core_view :: "'z sst_scheme \<Rightarrow> (u16 \<Rightarrow> click) \<times> (nat \<Rightarrow> u16 \<times> u16 \<times> nat option \<times> u16 \<times> u16) \<times> (nat \<Rightarrow> u8) \<times> (nat \<Rightarrow> u8)" where
  "core_view s = (core s, places s, f_count s, i_count s)"

definition flags :: "'z kst_scheme \<Rightarrow> nat \<Rightarrow> u8" where
  "flags s = (\<lambda>i. p_flag (procs s i))"

lemma core_viewD:
  assumes "core_view t = core_view s"
  shows "core t = core s" "p_addr (procs t i) = p_addr (procs s i)" "p_size (procs t i) = p_size (procs s i)"
    "p_textp (procs t i) = p_textp (procs s i)" "f_count t = f_count s" "i_count t = i_count s"
    "p_pid (procs t i) = p_pid (procs s i)" "p_ppid (procs t i) = p_ppid (procs s i)"
  using assms by (auto simp: core_view_def places_def fun_eq_iff)

lemma placesD:
  assumes "places t = places s"
  shows "p_addr (procs t i) = p_addr (procs s i)" "p_size (procs t i) = p_size (procs s i)" "p_textp (procs t i) = p_textp (procs s i)"
  using fun_cong [OF assms, of i] by (auto simp: places_def)

lemma view_updates [simp]:
  "core_view (upd_text i f s) = core_view s" "core_view (s\<lparr>runin := a\<rparr>) = core_view s" "core_view (s\<lparr>runout := a\<rparr>) = core_view s"
  "core_view (s\<lparr>coremap := m, swapmap := m'\<rparr>) = core_view s" "core_view (s\<lparr>swpd := d\<rparr>) = core_view s"
  "swpd (upd_text i f s) = swpd s" "procs (upd_text i f s) = procs s"
  by (simp_all add: core_view_def places_def upd_text_def)

lemma places_updates [simp]:
  "places (upd_text i f t) = places t" "places (t\<lparr>core := c\<rparr>) = places t" for t :: "'z sst_scheme"
  by (simp_all add: places_def upd_text_def)

lemma flags_cong: "procs t = procs s \<Longrightarrow> flags t = flags s"
  by (simp add: flags_def)

lemma core_view_upd_proc:
  assumes "\<And>x. p_addr (f x) = p_addr x" "\<And>x. p_size (f x) = p_size x" "\<And>x. p_textp (f x) = p_textp x"
    "\<And>x. p_pid (f x) = p_pid x" "\<And>x. p_ppid (f x) = p_ppid x"
  shows "core_view (upd_proc p f s) = core_view s"
  by (auto simp: core_view_def places_def upd_proc_def assms)

lemma wakeup_view: "post (wakeup c s) (\<lambda>_ t. core_view t = core_view s \<and> swpd t = swpd s \<and> texts t = texts s \<and> flags t = flags s)"
  for s :: "'z sst_scheme"
proof (rule post_mono [OF wakeup_keeps])
  fix s' assume k: "keeps s s'"
  obtain P Q R a b c where e: "s' = s\<lparr>procs := P, slpque := Q, runq := R, runrun := a, runout := b, console := c\<rparr>"
    using k by (auto simp: keeps_def)
  have pl: "place (procs s' i) = place (procs s i)" for i using k by (simp add: keeps_def)
  have f: "p_addr (procs s' i) = p_addr (procs s i)" "p_size (procs s' i) = p_size (procs s i)"
    "p_textp (procs s' i) = p_textp (procs s i)" "p_flag (procs s' i) = p_flag (procs s i)"
    "p_pid (procs s' i) = p_pid (procs s i)" "p_ppid (procs s' i) = p_ppid (procs s i)" for i
    using arg_cong [OF pl [of i], of p_addr] arg_cong [OF pl [of i], of p_size]
      arg_cong [OF pl [of i], of p_textp] arg_cong [OF pl [of i], of p_flag]
      arg_cong [OF pl [of i], of p_pid] arg_cong [OF pl [of i], of p_ppid] by (simp_all add: place_def)
  have "core s' = core s" "swpd s' = swpd s" "texts s' = texts s" "f_count s' = f_count s" "i_count s' = i_count s" unfolding e by simp_all
  then show "core_view s' = core_view s \<and> swpd s' = swpd s \<and> texts s' = texts s \<and> flags s' = flags s"
    by (simp add: core_view_def places_def flags_def f)
qed

lemma alloc_map_view: "post (alloc_map w n s) (\<lambda>a t. core_view t = core_view s \<and> swpd t = swpd s \<and> texts t = texts s \<and> procs t = procs s)"
  for s :: "'z sst_scheme"
  by (auto simp: alloc_map_def split: option.splits)

lemma free_map_view: "post (free_map w n a s) (\<lambda>_ t. core_view t = core_view s \<and> swpd t = swpd s \<and> texts t = texts s \<and> flags t = flags s)"
  for s :: "'z sst_scheme"
  unfolding free_map_def
proof (rule post_bndI)
  have "flags (s\<lparr>runin := 0\<rparr>) = flags s" by (simp add: flags_def)
  then show "post (if w = Coremap \<and> runin s \<noteq> 0 then wakeup (a_runin s) (s\<lparr>runin := 0\<rparr>) else Ok () s)
     (\<lambda>_ t. core_view t = core_view s \<and> swpd t = swpd s \<and> texts t = texts s \<and> flags t = flags s)"
    using wakeup_view [of "a_runin s" "s\<lparr>runin := 0\<rparr>"] by (cases "w = Coremap \<and> runin s \<noteq> 0") simp_all
qed (auto simp: flags_def split: option.splits)

lemma xlock_view: "post (xlock xp s) (\<lambda>_ t. core_view t = core_view s \<and> swpd t = swpd s \<and> procs t = procs s)"
  by (simp add: xlock_def)

lemma xunlock_view: "post (xunlock xp s) (\<lambda>_ t. core_view t = core_view s \<and> swpd t = swpd s \<and> flags t = flags s)"
  unfolding xunlock_def
proof (rule post_bndI)
  show "post (if x_has XWANT (texts s xp) then wakeup (text_addr s xp) s else Ok () s)
     (\<lambda>_ t. core_view t = core_view s \<and> swpd t = swpd s \<and> flags t = flags s)"
    by (auto intro: post_mono [OF wakeup_view])
qed (simp add: flags_def)

subsection \<open>The pieces of a transfer are one transfer\<close>

lemma put_clicks_split:
  "put_clicks (blk + 120) (a + 960) n (put_clicks blk a 960 s) = put_clicks blk a (960 + n) s"
proof -
  have "(if 8 * (blk + 120) \<le> k \<and> k < 8 * (blk + 120) + n then core s ((a + 960) + of_nat (k - 8 * (blk + 120)))
      else if 8 * blk \<le> k \<and> k < 8 * blk + 960 then core s (a + of_nat (k - 8 * blk)) else swpd s k) =
    (if 8 * blk \<le> k \<and> k < 8 * blk + (960 + n) then core s (a + of_nat (k - 8 * blk)) else swpd s k)" for k
  proof (cases "8 * (blk + 120) \<le> k")
    case True
    then obtain j where k: "k = 8 * blk + 960 + j" by (auto simp: le_iff_add algebra_simps)
    have "k - 8 * blk = 960 + j" "k - 8 * (blk + 120) = j" using k by auto
    then show ?thesis using k by (simp add: add.assoc)
  qed auto
  then have "s\<lparr>swpd := (\<lambda>k. if 8 * (blk + 120) \<le> k \<and> k < 8 * (blk + 120) + n then core s ((a + 960) + of_nat (k - 8 * (blk + 120)))
      else if 8 * blk \<le> k \<and> k < 8 * blk + 960 then core s (a + of_nat (k - 8 * blk)) else swpd s k)\<rparr> = put_clicks blk a (960 + n) s"
    unfolding put_clicks_def by (simp only:)
  then show ?thesis by (simp add: put_clicks_def cong: if_cong)
qed

lemma put_clicks_0: "put_clicks b a 0 s = s"
proof -
  have "(\<lambda>k. if 8 * b \<le> k \<and> k < 8 * b + 0 then core s (a + of_nat (k - 8 * b)) else swpd s k) = swpd s"
    by (rule ext) auto
  then show ?thesis unfolding put_clicks_def by (simp only:) simp
qed

lemma get_clicks_split:
  assumes "960 + n \<le> 65536"
  shows "get_clicks (blk + 120) (a + 960) n (get_clicks blk a 960 s) = get_clicks blk a (960 + n) s"
proof -
  have "(if unat (x - (a + 960)) < n then swpd s (8 * (blk + 120) + unat (x - (a + 960)))
      else if unat (x - a) < 960 then swpd s (8 * blk + unat (x - a)) else core s x) =
    (if unat (x - a) < 960 + n then swpd s (8 * blk + unat (x - a)) else core s x)" for x :: u16
  proof -
    define d where "d = x - a"
    have e: "x - (a + 960) = d - 960" by (simp add: d_def)
    show ?thesis
    proof (cases "960 \<le> unat d")
      case True
      then have "unat (d - 960) = unat d - 960" using unat_sub_no_wrap [of "960::u16" d] by simp
      then show ?thesis using True unfolding e d_def [symmetric] by auto
    next
      case False
      have m: "d - 960 = d + 64576" by simp
      have "unat (d - 960) = unat d + 64576"
        unfolding m using False unat_add_no_wrap [of d "64576::u16"] by simp
      then show ?thesis using False assms unfolding e d_def [symmetric] by auto
    qed
  qed
  then have "s\<lparr>core := (\<lambda>x. if unat (x - (a + 960)) < n then swpd s (8 * (blk + 120) + unat (x - (a + 960)))
      else if unat (x - a) < 960 then swpd s (8 * blk + unat (x - a)) else core s x)\<rparr> = get_clicks blk a (960 + n) s"
    unfolding get_clicks_def by (simp only:)
  then show ?thesis by (simp add: get_clicks_def cong: if_cong)
qed

lemma swap_io_once:
  assumes "n \<le> 65536"
  shows "swap_io rd blk a n s = (if rd then get_clicks else put_clicks) blk a n s"
  using assms
proof (induction rd blk a n s rule: swap_io.induct)
  case (1 rd blk a n s)
  show ?case
  proof (cases "n \<ge> 960")
    case True
    let ?X = "if rd then get_clicks else put_clicks"
    have "swap_io rd blk a n s = swap_io rd (blk + 120) (a + 960) (n - 960) (?X blk a 960 s)"
      using True by (subst swap_io.simps) (simp add: Let_def)
    also have "\<dots> = ?X (blk + 120) (a + 960) (n - 960) (?X blk a 960 s)"
      using 1(1) [of 960] True 1(2) by (simp add: Let_def)
    also have "\<dots> = ?X blk a n s"
      using True 1(2) put_clicks_split [of blk a "n - 960" s] get_clicks_split [of "n - 960" blk a s] by simp
    finally show ?thesis .
  next
    case False
    have z: "swap_io rd b c 0 t = t" for b c t by (subst swap_io.simps) simp
    show ?thesis
    proof (cases "n = 0")
      case True
      then show ?thesis by (simp add: z put_clicks_0, simp add: get_clicks_def)
    next
      case nz: False
      then show ?thesis using False by (subst swap_io.simps) (simp add: Let_def z)
    qed
  qed
qed


section \<open>Swapping out and in\<close>

definition core_image :: "'z sst_scheme \<Rightarrow> nat \<Rightarrow> click list" where
  "core_image s p = map (\<lambda>i. core s (p_addr (procs s p) + of_nat i)) [0..<unat (p_size (procs s p))]"

definition swapped_image :: "'z sst_scheme \<Rightarrow> nat \<Rightarrow> click list" where
  "swapped_image s p = map (\<lambda>i. swpd s (8 * unat (p_addr (procs s p)) + i)) [0..<unat (p_size (procs s p))]"

lemma image_view: "core_view t = core_view s \<Longrightarrow> core_image t p = core_image s p"
proof -
  assume a: "core_view t = core_view s"
  show "core_image t p = core_image s p" by (simp add: core_image_def core_viewD [OF a])
qed

lemma swap_16: "swap b a n rd s = (if rd then get_clicks else put_clicks) (unat b) a (unat n) s"
proof -
  have "unat n \<le> 65536" using unsigned_less [of n, where ?'a = nat] by simp
  then show ?thesis by (simp add: swap_def swap_io_once)
qed

lemma swap_out_view [simp]: "core_view (swap b a n False s) = core_view s" "procs (swap b a n rd s) = procs s"
  by (simp_all add: swap_16 put_clicks_def get_clicks_def)

lemma xccdec_view: "post (xccdec xo s) (\<lambda>_ t. core_view t = core_view s)"
proof (cases xo)
  case (Some xp)
  show ?thesis
  proof (cases "x_ccount (texts s xp) = 0")
    case False
    show ?thesis
      unfolding xccdec_def Some option.case if_not_P [OF False] Let_def
      by (rule post_bndI [OF xlock_view], rule post_bndI [where Q = "\<lambda>_ u. core_view u = core_view s"])
        (auto intro!: post_mono [OF free_map_view] post_mono [OF xunlock_view])
  qed (simp add: xccdec_def Some)
qed (simp add: xccdec_def)

lemma wake_runout_view: "post (wake_runout s) (\<lambda>_ t. core_view t = core_view s \<and> swpd t = swpd s \<and> flags t = flags s)"
  for s :: "'z sst_scheme"
proof -
  have "flags (s\<lparr>runout := 0\<rparr>) = flags s" by (simp add: flags_def)
  then show ?thesis
    unfolding wake_runout_def using post_mono [OF wakeup_view [of "a_runout s" "s\<lparr>runout := 0\<rparr>"]] by simp
qed

text \<open>Swapping out copies the image to its new place on the swap device; swapping in brings it back.\<close>

lemma has_flag_cleared: "b AND m = b \<Longrightarrow> \<not> has_flag b (x\<lparr>p_flag := p_flag x AND NOT m\<rparr>)" for b m :: u8
proof -
  assume m: "b AND m = b"
  have "p_flag x AND NOT m AND b = p_flag x AND (NOT m AND m) AND b" by (metis m and.assoc and.commute)
  then show ?thesis by (simp add: has_flag_def and.assoc)
qed

lemma xswap_image:
  "post (xswap p ff 0 s) (\<lambda>_ t. swapped_image t p = core_image s p \<and> core t = core s \<and>
     p_size (procs t p) = p_size (procs s p) \<and> p_textp (procs t p) = p_textp (procs s p) \<and> \<not> has_flag SLOAD (procs t p) \<and>
     f_count t = f_count s \<and> i_count t = i_count s \<and>
     p_pid (procs t p) = p_pid (procs s p) \<and> p_ppid (procs t p) = p_ppid (procs s p) \<and> (\<forall>q. q \<noteq> p \<longrightarrow> p_addr (procs t q) = p_addr (procs s q) \<and> p_size (procs t q) = p_size (procs s q)))"
  unfolding xswap_def Let_def
proof (rule post_bndI [OF alloc_map_view], goal_cases)
  case (1 a t)
  let ?n = "p_size (procs s p)"
  have nn: "(if (0::u16) = 0 then ?n else 0) = ?n" by simp
  show ?case
  proof (cases "a = 0")
    case False
    show ?thesis unfolding if_not_P [OF False] nn
    proof (rule post_bndI [OF xccdec_view], goal_cases)
      case (1 _ u)
      then have u: "core_view u = core_view s"
        using \<open>core_view t = core_view s \<and> swpd t = swpd s \<and> texts t = texts s \<and> procs t = procs s\<close>
        by (simp add: core_view_upd_proc)
      let ?v = "swap a (p_addr (procs u p)) ?n False u"
      have d: "swpd ?v (8 * unat a + i) = core s (p_addr (procs s p) + of_nat i)" if "i < unat ?n" for i
        using that by (simp add: swap_16 put_clicks_def core_viewD [OF u])
      show ?case
      proof (rule post_bndI [where Q = "\<lambda>_ w. core_view w = core_view s \<and> swpd w = swpd ?v"], goal_cases)
        case 1
        show ?case using u by (auto intro: post_mono [OF free_map_view])
      next
        case (2 _ w)
        then have w: "core_view w = core_view s" "swpd w = swpd ?v" by simp_all
        let ?w = "upd_proc p (\<lambda>x. x\<lparr>p_addr := a, p_flag := p_flag x AND NOT (SLOAD OR SLOCK), p_time := 0\<rparr>) w"
        show ?case
        proof (rule post_mono [OF wake_runout_view], elim conjE, goal_cases)
          case (1 _ z)
          have sz: "p_addr (procs z p) = a" "p_size (procs z p) = ?n" "p_textp (procs z p) = p_textp (procs s p)" "core z = core s"
            "f_count z = f_count s" "i_count z = i_count s" "p_pid (procs z p) = p_pid (procs s p)" "p_ppid (procs z p) = p_ppid (procs s p)"
            "\<forall>q. q \<noteq> p \<longrightarrow> p_addr (procs z q) = p_addr (procs s q) \<and> p_size (procs z q) = p_size (procs s q)"
            using core_viewD [OF 1(1)] core_viewD [OF w(1)] by (simp_all add: upd_proc_def)
          moreover have "swpd z = swpd ?v" using 1(2) w(2) by (simp add: upd_proc_def)
          moreover have "p_flag (procs z p) = p_flag (procs ?w p)" using fun_cong [OF 1(3), of p] by (simp add: flags_def)
          then have "\<not> has_flag SLOAD (procs z p)"
            using has_flag_cleared [of SLOAD "SLOAD OR SLOCK" "procs w p"] by (simp add: has_flag_def upd_proc_def)
          ultimately show ?case using d by (simp add: swapped_image_def core_image_def)
        qed
      qed
    qed
  qed simp
qed

lemma swapin_text_view: "post (swapin_text xp s) (\<lambda>got t. places t = places s \<and> swpd t = swpd s)"
  unfolding swapin_text_def Let_def
proof (rule post_bndI [OF xlock_view], rule post_bndI [where Q = "\<lambda>_ u. places u = places s \<and> swpd u = swpd s"])
  fix t assume "core_view t = core_view s \<and> swpd t = swpd s \<and> procs t = procs s"
  then have t: "places t = places s" "swpd t = swpd s" by (simp_all add: core_view_def)
  show "post (if x_ccount (texts t xp) = 0
     then bnd (alloc_map Coremap (x_size (texts t xp)) t) (\<lambda>x s. if x = 0 then Ok False s
        else Ok True (if x_has XLOAD (texts (upd_text xp (\<lambda>t. t\<lparr>x_caddr := x\<rparr>) s) xp) then upd_text xp (\<lambda>t. t\<lparr>x_caddr := x\<rparr>) s
          else swap (x_daddr (texts (upd_text xp (\<lambda>t. t\<lparr>x_caddr := x\<rparr>) s) xp)) x (x_size (texts (upd_text xp (\<lambda>t. t\<lparr>x_caddr := x\<rparr>) s) xp)) True
            (upd_text xp (\<lambda>t. t\<lparr>x_caddr := x\<rparr>) s)))
     else Ok True t) (\<lambda>_ u. places u = places s \<and> swpd u = swpd s)"
    using t by (auto intro!: post_bndI [OF alloc_map_view] simp: core_view_def swap_16 get_clicks_def)
next
  fix got u assume u: "places u = places s \<and> swpd u = swpd s"
  show "post (bnd (xunlock xp (if got then upd_text xp (\<lambda>t. t\<lparr>x_ccount := x_ccount t + 1\<rparr>) u else u)) (\<lambda>_ s. Ok got s))
     (\<lambda>got t. places t = places s \<and> swpd t = swpd s)"
    using u by (auto intro!: post_bndI [OF xunlock_view] simp: core_view_def)
qed

lemma swapin_image:
  "post (swapin p s) (\<lambda>got t. got \<longrightarrow> core_image t p = swapped_image s p \<and> p_size (procs t p) = p_size (procs s p) \<and> has_flag SLOAD (procs t p))"
  unfolding swapin_def
proof (rule post_bndI [OF alloc_map_view], goal_cases)
  case (1 a t)
  then have t: "places t = places s" "swpd t = swpd s" "procs t = procs s" by (simp_all add: core_view_def)
  show ?case
  proof (cases "a = 0")
    case False
    show ?thesis unfolding if_not_P [OF False]
    proof (rule post_bndI [where Q = "\<lambda>_ u. places u = places s \<and> swpd u = swpd s"], goal_cases)
      case 1
      show ?case
        using t by (cases "p_textp (procs s p)") (auto intro: post_mono [OF swapin_text_view])
    next
      case (2 got u)
      then have pl: "places u = places s" and sw: "swpd u = swpd s" by simp_all
      let ?n = "p_size (procs s p)"
      let ?v = "swap (p_addr (procs u p)) a (p_size (procs u p)) True u"
      have n: "unat ?n < 65536" using unsigned_less [of ?n, where ?'a = nat] by simp
      have v: "core ?v (a + of_nat i) = swpd s (8 * unat (p_addr (procs s p)) + i)" if "i < unat ?n" for i
      proof -
        have "unat (a + of_nat i - a) = i" using that n by (simp add: unat_of_nat take_bit_nat_eq_self)
        then show ?thesis using that by (simp add: swap_16 get_clicks_def placesD [OF pl] sw)
      qed
      have pv: "places ?v = places s" using pl by (simp add: swap_16 get_clicks_def)
      show ?case
      proof (cases got)
        case False
        show ?thesis unfolding if_P [OF False] by (rule post_bndI [OF free_map_view]) simp
      next
        case True
        then have ng: "\<not> \<not> got" by simp
        show ?thesis unfolding if_not_P [OF ng]
        proof (rule post_bndI [OF free_map_view], elim conjE, goal_cases)
          case (1 _ w)
          have "p_size (procs w p) = ?n" using core_viewD(3) [OF 1(1), of p] placesD(2) [OF pv, of p] by simp
          moreover have "(x OR SLOAD) AND SLOAD \<noteq> 0" for x :: u8 by (simp add: and.commute [of _ SLOAD])
          ultimately show ?case
            using v core_viewD(1) [OF 1(1)] by (simp add: core_image_def swapped_image_def upd_proc_def has_flag_def)
        qed
      qed
    qed
  qed simp
qed


section \<open>New process numbers\<close>

definition pid_used :: "'z kst_scheme \<Rightarrow> nat \<Rightarrow> bool" where
  "pid_used s i = (\<exists>r < NPROC. p_pid (procs s r) = of_nat i \<or> p_pgrp (procs s r) = of_nat i)"

definition first_free :: "'z kst_scheme \<Rightarrow> nat option" where
  "first_free s = find (\<lambda>r. p_stat (procs s r) = 0) [0..<NPROC]"

lemma pid_scan_spec:
  "fst (pid_scan rs m p s) = (\<forall>r \<in> set rs. p_pid (procs s r) \<noteq> m \<and> p_pgrp (procs s r) \<noteq> m) \<and>
   (fst (pid_scan rs m p s) \<longrightarrow> snd (pid_scan rs m p s) = (if p = None then find (\<lambda>r. p_stat (procs s r) = 0) rs else p)) \<and>
   (snd (pid_scan rs m p s) = p \<or> p = None \<and> snd (pid_scan rs m p s) = find (\<lambda>r. p_stat (procs s r) = 0) rs)"
proof (induction rs arbitrary: p)
  case (Cons r rs)
  show ?case using Cons [of "if p_stat (procs s r) = 0 \<and> p = None then Some r else p"]
    by (cases p) (auto simp: Let_def)
qed simp

lemma pid_next: "k < 30000 \<Longrightarrow> sint (of_nat k + 1 :: u16) = int k + 1"
proof -
  assume k: "k < 30000"
  have "sint (word_of_int (int k + 1) :: u16) = int k + 1"
    using k by (subst sint_sbintrunc') (simp add: signed_take_bit_int_eq_self)
  then show ?thesis by simp
qed

text \<open>
  The tries from \<open>m\<close> up to \<open>m + j\<close>: one of them succeeds, with the first free slot of the table,
  or all these numbers are in use.
\<close>

definition found_pid :: "'z kst_scheme \<Rightarrow> (u16 \<times> nat option) option \<Rightarrow> bool" where
  "found_pid s r = (\<exists>m. r = Some (of_nat m, first_free s) \<and> 0 < m \<and> m < 30000 \<and> \<not> pid_used s m)"

lemma pid_steps:
  assumes "m + j < 30000" and "p = None \<or> p = first_free s"
  shows "found_pid s (new_pid (j + n) (of_nat m) p s) \<or>
    (\<forall>i. m < i \<and> i \<le> m + j \<longrightarrow> pid_used s i) \<and>
    (\<exists>p'. (p' = None \<or> p' = first_free s) \<and> new_pid (j + n) (of_nat m) p s = new_pid n (of_nat (m + j)) p' s)"
  using assms
proof (induction j arbitrary: m p)
  case 0
  then show ?case by auto
next
  case (Suc j)
  have lt: "\<not> sint (of_nat m + 1 :: u16) \<ge> 30000" using pid_next [of m] Suc.prems(1) by simp
  obtain ok p' where sc: "pid_scan [0..<NPROC] (of_nat m + 1) p s = (ok, p')" by (cases "pid_scan [0..<NPROC] (of_nat m + 1) p s")
  have ok: "ok = (\<not> pid_used s (m + 1))"
    using pid_scan_spec [of "[0..<NPROC]" "of_nat m + 1" p s] sc by (auto simp: pid_used_def add.commute)
  have p': "p' = None \<or> p' = first_free s" "ok \<Longrightarrow> p' = first_free s"
    using pid_scan_spec [of "[0..<NPROC]" "of_nat m + 1" p s] sc Suc.prems(2) by (auto simp: first_free_def)
  show ?case
  proof (cases ok)
    case True
    then have "new_pid (Suc j + n) (of_nat m) p s = Some (of_nat (m + 1), first_free s)"
      using lt sc p'(2) by (simp add: add.commute)
    then have "found_pid s (new_pid (Suc j + n) (of_nat m) p s)"
      unfolding found_pid_def using True ok Suc.prems(1) by (intro exI [of _ "m + 1"]) simp
    then show ?thesis ..
  next
    case False
    then have st: "new_pid (Suc j + n) (of_nat m) p s = new_pid (j + n) (of_nat (m + 1)) p' s"
      using lt sc by (simp add: add.commute)
    have "i = m + 1 \<or> m + 1 < i" if "m < i" for i using that by auto
    then show ?thesis
      unfolding st using Suc.IH [of "m + 1" p'] Suc.prems(1) p'(1) False ok
      by (auto simp: Suc_le_eq)
  qed
qed

lemma used_bound:
  assumes "\<forall>i \<in> A. pid_used s i \<and> i < 65536" and "finite A"
  shows "card A \<le> 2 * NPROC"
proof -
  let ?f = "\<lambda>r. unat (p_pid (procs s r))" and ?g = "\<lambda>r. unat (p_pgrp (procs s r))"
  have "A \<subseteq> ?f ` {..<NPROC} \<union> ?g ` {..<NPROC}"
  proof
    fix i assume "i \<in> A"
    then have i: "pid_used s i" "unat (of_nat i :: u16) = i" using assms(1) by (auto simp: unat_of_nat take_bit_nat_eq_self)
    then obtain r where r: "r < NPROC" "p_pid (procs s r) = of_nat i \<or> p_pgrp (procs s r) = of_nat i" by (auto simp: pid_used_def)
    then have "i = ?f r \<or> i = ?g r" using i(2) by auto
    then show "i \<in> ?f ` {..<NPROC} \<union> ?g ` {..<NPROC}" using r(1) by auto
  qed
  then have "card A \<le> card (?f ` {..<NPROC} \<union> ?g ` {..<NPROC})" by (intro card_mono) auto
  also have "\<dots> \<le> card (?f ` {..<NPROC}) + card (?g ` {..<NPROC})" by (rule card_Un_le)
  also have "\<dots> \<le> NPROC + NPROC" by (intro add_mono order.trans [OF card_image_le]) auto
  finally show ?thesis by simp
qed

declare new_pid.simps(2) [simp del]

lemma new_pid_found:
  assumes "m < 30000"
  shows "found_pid s (new_pid (2 * NPROC + 2) (of_nat m) None s)"
proof (cases "m + (2 * NPROC + 1) < 30000")
  case True
  have "\<not> (\<forall>i. m < i \<and> i \<le> m + (2 * NPROC + 1) \<longrightarrow> pid_used s i)"
  proof
    assume "\<forall>i. m < i \<and> i \<le> m + (2 * NPROC + 1) \<longrightarrow> pid_used s i"
    then have "card {m<..m + (2 * NPROC + 1)} \<le> 2 * NPROC" using True by (intro used_bound) auto
    then show False by simp
  qed
  moreover have "2 * NPROC + 2 = 2 * NPROC + 1 + 1" by simp
  ultimately show ?thesis using pid_steps [OF True, of None s 1] by metis
next
  case False
  define j where "j = 29999 - m"
  define k where "k = 2 * NPROC + 1 - j"
  have j: "m + j < 30000" "m + j = 29999" "j + Suc k = 2 * NPROC + 2" "k < 30000" using assms False by (auto simp: j_def k_def NPROC_def)
  show ?thesis
  proof (rule disjE [OF pid_steps [OF j(1), of None s "Suc k"]])
    assume "found_pid s (new_pid (j + Suc k) (of_nat m) None s)"
    then show ?thesis using j(3) by simp
  next
    assume A: "(\<forall>i. m < i \<and> i \<le> m + j \<longrightarrow> pid_used s i) \<and>
      (\<exists>p'. (p' = None \<or> p' = first_free s) \<and> new_pid (j + Suc k) (of_nat m) None s = new_pid (Suc k) (of_nat (m + j)) p' s)"
    then obtain p' where p': "p' = None \<or> p' = first_free s"
      "new_pid (2 * NPROC + 2) (of_nat m) None s = new_pid (Suc k) (of_nat (m + j)) p' s" using j(3) by auto
    have "new_pid (Suc k) (of_nat 29999) p' s = new_pid k (of_nat 0) p' s" by (simp add: new_pid.simps(2))
    with p'(2) have st: "new_pid (2 * NPROC + 2) (of_nat m) None s = new_pid (k + 0) (of_nat 0) p' s" using j(2) by simp
    have "\<not> (\<forall>i. 0 < i \<and> i \<le> k \<longrightarrow> pid_used s i)"
    proof
      assume B: "\<forall>i. 0 < i \<and> i \<le> k \<longrightarrow> pid_used s i"
      have "k < m" using False assms j by (auto simp: k_def j_def NPROC_def)
      then have "card ({m<..m + j} \<union> {0<..k}) = j + k" by (subst card_Un_disjoint) auto
      moreover have "card ({m<..m + j} \<union> {0<..k}) \<le> 2 * NPROC" using A B j by (intro used_bound) auto
      ultimately show False using j(3) by simp
    qed
    then show ?thesis using pid_steps [of 0 k p' s 0] j(4) p'(1) unfolding st by auto
  qed simp
qed


section \<open>Copying an image\<close>

lemma copy_segs_core:
  assumes "\<And>i j. i < n \<Longrightarrow> j < n \<Longrightarrow> a1 + of_nat i \<noteq> a2 + of_nat j" and "n < 65536"
  shows "\<exists>c. copy_segs n a1 a2 s = s\<lparr>core := c\<rparr> \<and> (\<forall>x. c x = (if unat (x - a2) < n then core s (a1 + (x - a2)) else core s x))"
  using assms
proof (induction n arbitrary: a1 a2 s)
  case 0
  then show ?case by (intro exI [of _ "core s"]) simp
next
  case (Suc n)
  let ?s = "s\<lparr>core := (core s)(a2 := core s a1)\<rparr>"
  have "a1 + 1 + of_nat i \<noteq> a2 + 1 + of_nat j" if "i < n" "j < n" for i j
  proof -
    have "a1 + of_nat i \<noteq> a2 + of_nat j" using Suc.prems(1) [of i j] that by simp
    moreover have "a1 + 1 + of_nat i = (a1 + of_nat i) + 1" "a2 + 1 + of_nat j = (a2 + of_nat j) + 1"
      by (simp_all only: ac_simps)
    ultimately show ?thesis using add_right_cancel [of "a1 + of_nat i" 1] by simp
  qed
  from Suc.IH [OF this, of ?s] Suc.prems(2) obtain c where c: "copy_segs n (a1 + 1) (a2 + 1) ?s = ?s\<lparr>core := c\<rparr>"
    "\<And>x. c x = (if unat (x - (a2 + 1)) < n then core ?s (a1 + 1 + (x - (a2 + 1))) else core ?s x)" by auto
  have "c x = (if unat (x - a2) < Suc n then core s (a1 + (x - a2)) else core s x)" for x
  proof (cases "x = a2")
    case True
    have "a2 - (a2 + 1) = (-1 :: u16)" by simp
    moreover have "unat (-1 :: u16) = 65535" by (simp add: unsigned_minus_1_eq_mask mask_eq_exp_minus_1)
    ultimately show ?thesis unfolding c(2) using True Suc.prems(2) by simp
  next
    case False
    define d where "d = x - a2"
    have d: "x - (a2 + 1) = d - 1" "a1 + 1 + (d - 1) = a1 + d" "d \<noteq> 0" using False by (simp_all add: d_def)
    then have u: "unat (d - 1) = unat d - 1" "0 < unat d" by (simp_all add: unat_gt_0 unat_minus_one)
    show ?thesis
    proof (cases "unat d < Suc n")
      case True
      have "a1 + of_nat (unat d) \<noteq> a2 + of_nat 0" using Suc.prems(1) [of "unat d" 0] True by simp
      then have "a1 + d \<noteq> a2" by simp
      moreover have "unat d - 1 < n" using u True by linarith
      ultimately show ?thesis unfolding c(2) d d_def [symmetric] using u True by simp
    next
      case ge: False
      then show ?thesis unfolding c(2) d d_def [symmetric] using u False by auto
    qed
  qed
  moreover have "copy_segs (Suc n) a1 a2 s = s\<lparr>core := c\<rparr>" using c(1) by simp
  ultimately show ?case by blast
qed


section \<open>newproc\<close>

lemma setrq_view: "post (setrq p s) (\<lambda>_ t. core_view t = core_view s \<and> swpd t = swpd s \<and> flags t = flags s)"
  for s :: "'z sst_scheme"
  by (auto simp: setrq_def core_view_def places_def flags_def upd_proc_def split: option.split bool.split)

lemma dup_files:
  "fold (\<lambda>fo s. case fo of None \<Rightarrow> s | Some f \<Rightarrow> s\<lparr>f_count := (f_count s)(f := f_count s f + 1)\<rparr>) fs s =
    s\<lparr>f_count := \<lambda>f. f_count s f + of_nat (count_list fs (Some f))\<rparr>"
  for s :: "'z sst_scheme"
proof (induction fs arbitrary: s)
  case (Cons fo fs)
  show ?case
  proof (cases fo)
    case None
    then show ?thesis using Cons.IH by simp
  next
    case (Some g)
    have "(\<lambda>f. ((f_count s)(g := f_count s g + 1)) f + of_nat (count_list fs (Some f))) =
      (\<lambda>f. f_count s f + of_nat (count_list (fo # fs) (Some f)))"
      using Some by (auto simp: fun_eq_iff)
    then show ?thesis using Cons.IH [of "s\<lparr>f_count := (f_count s)(g := f_count s g + 1)\<rparr>"] Some by simp
  qed
qed simp

lemma dup_refs_eq:
  "\<exists>T I. dup_refs s = s\<lparr>f_count := \<lambda>f. f_count s f + of_nat (count_list (u_ofile s) (Some f)), texts := T, i_count := I\<rparr> \<and>
     (\<forall>i. I i = i_count s i + (if i = u_cdir s then 1 else 0) + (if u_rdir s = Some i then 1 else 0))"
proof -
  define c where "c = (\<lambda>f. f_count s f + of_nat (count_list (u_ofile s) (Some f)))"
  define T where "T = (case p_textp (procs s (cur s)) of None \<Rightarrow> texts s
     | Some xp \<Rightarrow> (texts s)(xp := (texts s xp)\<lparr>x_count := x_count (texts s xp) + 1, x_ccount := x_ccount (texts s xp) + 1\<rparr>))"
  define I where "I = (\<lambda>i. i_count s i + (if i = u_cdir s then 1 else 0) + (if u_rdir s = Some i then 1 else 0))"
  have "(case u_rdir s of None \<Rightarrow> (i_count s)(u_cdir s := i_count s (u_cdir s) + 1)
     | Some r \<Rightarrow> ((i_count s)(u_cdir s := i_count s (u_cdir s) + 1))(r := ((i_count s)(u_cdir s := i_count s (u_cdir s) + 1)) r + 1)) = I"
    by (auto simp: I_def fun_eq_iff split: option.split)
  then have "dup_refs s = s\<lparr>f_count := c, texts := T, i_count := I\<rparr>"
    unfolding dup_refs_def dup_files Let_def c_def [symmetric] T_def
    by (auto simp: upd_text_def split: option.split)
  then show ?thesis unfolding c_def I_def by blast
qed

lemma alloc_core_free:
  fixes s :: "'z sst_scheme"
  assumes "wf_map (coremap s)" and "0 < sint n"
  shows "post (alloc_map Coremap n s) (\<lambda>a t. core_view t = core_view s \<and> swpd t = swpd s \<and> texts t = texts s \<and> procs t = procs s \<and>
    (a \<noteq> 0 \<longrightarrow> {unat a..<unat a + unat n} \<subseteq> units (coremap s)))"
proof -
  have m: "the_map Coremap (maps.truncate s) = coremap s" by (simp add: the_map_def maps.truncate_def)
  from kmalloc_first_fit [of Coremap "maps.truncate s" n] assms obtain a m' where
    k: "kmalloc Coremap n (maps.truncate s) = Some (a, m')" "a \<noteq> 0 \<longrightarrow> {unat a..<unat a + unat n} \<subseteq> units (coremap s)"
    unfolding m by (auto split: if_splits)
  then show ?thesis using alloc_map_view [of Coremap n s] by (simp add: alloc_map_def)
qed

lemma disjoint_runs:
  fixes a b n :: u16
  assumes "{unat a..<unat a + unat n} \<subseteq> U" and "{unat b..<unat b + unat n} \<inter> U = {}" and "unat a + unat n \<le> 65536" "unat b + unat n \<le> 65536"
    and "i < unat n" "j < unat n"
  shows "b + of_nat i \<noteq> a + of_nat j"
proof
  assume e: "b + of_nat i = a + of_nat j"
  have "unat (b + of_nat i) = unat b + i" "unat (a + of_nat j) = unat a + j"
    using assms(3-6) by (simp_all add: unat_word_ariths unat_of_nat take_bit_nat_eq_self)
  then have "unat b + i = unat a + j" using e by simp
  then have "unat b + i \<in> {unat a..<unat a + unat n}" "unat b + i \<in> {unat b..<unat b + unat n}" using assms(5,6) by auto
  then show False using assms(1,2) by blast
qed

text \<open>The child of a \<open>newproc\<close>: its image, wherever it is, and what stays as it was.\<close>

lemma newproc_post:
  assumes c: "cur s < NPROC" "p_stat (procs s (cur s)) \<noteq> 0" and m: "mpid s = of_nat m" "m < 30000"
    and wf: "wf_map (coremap s)" and sz: "0 < sint (p_size (procs s (cur s)))"
    and out: "{unat (p_addr (procs s (cur s)))..<unat (p_addr (procs s (cur s))) + unat (p_size (procs s (cur s)))} \<inter> units (coremap s) = {}"
    and top: "unat (p_addr (procs s (cur s))) + unat (p_size (procs s (cur s))) \<le> 65536"
  shows "post (newproc s) (\<lambda>k t. first_free s = Some k \<and>
     (if has_flag SLOAD (procs t k) then core_image t k else swapped_image t k) = core_image s (cur s) \<and> core_image t (cur s) = core_image s (cur s) \<and>
     (\<exists>m. p_pid (procs t k) = of_nat m \<and> 0 < m \<and> m < 30000 \<and> \<not> pid_used s m) \<and> p_ppid (procs t k) = p_pid (procs s (cur s)) \<and>
     (\<forall>f. f_count t f = f_count s f + of_nat (count_list (u_ofile s) (Some f))) \<and>
     (\<forall>i. i_count t i = i_count s i + (if i = u_cdir s then 1 else 0) + (if u_rdir s = Some i then 1 else 0)))"
  (is "post _ ?P")
proof -
  from new_pid_found [OF m(2), of s] obtain pid where pid: "new_pid (2 * NPROC + 2) (mpid s) None s = Some (of_nat pid, first_free s)"
    "0 < pid" "pid < 30000" "\<not> pid_used s pid" by (auto simp: found_pid_def m(1))
  show ?thesis
  proof (cases "first_free s")
    case None
    then show ?thesis using pid(1) by (simp add: newproc_def)
  next
    case (Some k)
    have k: "p_stat (procs s k) = 0" using Some by (auto simp: first_free_def find_Some_iff)
    then have kc: "k \<noteq> cur s" using c(2) by auto
    let ?rip = "cur s" and ?r = "procs s (cur s)"
    let ?n = "p_size ?r" and ?a1 = "p_addr ?r"
    define s1 where "s1 = upd_proc k (\<lambda>x. x\<lparr>p_stat := SRUN, p_clktim := 0, p_flag := SLOAD, p_uid := p_uid ?r, p_pgrp := p_pgrp ?r,
      p_nice := p_nice ?r, p_textp := p_textp ?r, p_pid := of_nat pid, p_ppid := p_pid ?r, p_time := 0, p_cpu := 0\<rparr>) (s\<lparr>mpid := of_nat pid\<rparr>)"
    define s2 where "s2 = upd_proc k (\<lambda>x. x\<lparr>p_size := ?n\<rparr>) (dup_refs s1)"
    obtain T I where d: "dup_refs s1 = s1\<lparr>f_count := \<lambda>f. f_count s1 f + of_nat (count_list (u_ofile s1) (Some f)), texts := T, i_count := I\<rparr>"
      "\<And>i. I i = i_count s1 i + (if i = u_cdir s1 then 1 else 0) + (if u_rdir s1 = Some i then 1 else 0)"
      using dup_refs_eq [of s1] by blast
    have s2: "core s2 = core s" "coremap s2 = coremap s" "swpd s2 = swpd s" "p_size (procs s2 k) = ?n" "p_flag (procs s2 k) = SLOAD"
      "procs s2 ?rip = ?r" "f_count s2 = (\<lambda>f. f_count s f + of_nat (count_list (u_ofile s) (Some f)))"
      "i_count s2 = (\<lambda>i. i_count s i + (if i = u_cdir s then 1 else 0) + (if u_rdir s = Some i then 1 else 0))"
      "p_pid (procs s2 k) = of_nat pid" "p_ppid (procs s2 k) = p_pid ?r"
      using kc d(2) by (auto simp: s2_def d(1) upd_proc_def, auto simp: s1_def upd_proc_def)
    have eq: "newproc s = bnd (alloc_map Coremap ?n s2) (\<lambda>a2 t.
            bnd (if a2 = 0
                 then bnd (xswap k False 0 (upd_proc k (\<lambda>x. x\<lparr>p_addr := ?a1\<rparr>) (upd_proc ?rip (\<lambda>x. x\<lparr>p_stat := SIDL\<rparr>) t))) (\<lambda>_ t.
                        Ok () (upd_proc ?rip (\<lambda>x. x\<lparr>p_stat := SRUN\<rparr>) t))
                 else Ok () (copy_segs (unat ?n) ?a1 a2 (upd_proc k (\<lambda>x. x\<lparr>p_addr := a2\<rparr>) t))) (\<lambda>_ t.
            bnd (setrq k t) (\<lambda>_ t.
            Ok k (upd_proc k (\<lambda>x. x\<lparr>p_flag := p_flag x OR SSWAP\<rparr>) t))))"
      using pid(1) Some by (simp add: newproc_def Let_def s2_def s1_def)
    let ?Q = "\<lambda>t. (if has_flag SLOAD (procs t k) then core_image t k else swapped_image t k) = core_image s ?rip \<and> core_image t ?rip = core_image s ?rip \<and>
      p_pid (procs t k) = of_nat pid \<and> p_ppid (procs t k) = p_pid ?r \<and> f_count t = f_count s2 \<and> i_count t = i_count s2"
    have fin: "?Q t \<Longrightarrow> ?P k t" for t using pid(2-4) Some s2(7,8) by auto
    have wf2: "wf_map (coremap s2)" using wf s2(2) by simp
    show ?thesis unfolding eq
    proof (rule post_bndI [OF alloc_core_free [OF wf2 sz]], goal_cases)
      case (1 a t)
      then have t: "core_view t = core_view s2" "swpd t = swpd s" "procs t = procs s2"
        "a \<noteq> 0 \<Longrightarrow> {unat a..<unat a + unat ?n} \<subseteq> units (coremap s)" using s2 by auto
      have ir: "core_image t ?rip = core_image s ?rip" using core_viewD(1) [OF t(1)] s2(1,6) t(3) by (simp add: core_image_def)
      show ?case
      proof (rule post_bndI [where Q = "\<lambda>_. ?Q"], goal_cases)
        case 1
        show ?case
        proof (cases "a = 0")
          case True
          let ?t = "upd_proc k (\<lambda>x. x\<lparr>p_addr := ?a1\<rparr>) (upd_proc ?rip (\<lambda>x. x\<lparr>p_stat := SIDL\<rparr>) t)"
          have it: "core_image ?t k = core_image s ?rip" "core ?t = core s" "p_addr (procs ?t ?rip) = ?a1" "p_size (procs ?t ?rip) = ?n"
            "p_pid (procs ?t k) = of_nat pid" "p_ppid (procs ?t k) = p_pid ?r" "f_count ?t = f_count s2" "i_count ?t = i_count s2"
            using core_viewD [OF t(1)] s2 t(3) kc by (simp_all add: core_image_def upd_proc_def)
          show ?thesis unfolding if_P [OF True]
          proof (rule post_bndI [OF xswap_image], goal_cases)
            case (1 _ u)
            let ?w = "upd_proc ?rip (\<lambda>x. x\<lparr>p_stat := SRUN\<rparr>) u"
            have u: "swapped_image u k = core_image s ?rip" "core u = core s" "\<not> has_flag SLOAD (procs u k)"
              "f_count u = f_count s2" "i_count u = i_count s2" "p_pid (procs u k) = of_nat pid" "p_ppid (procs u k) = p_pid ?r"
              "p_addr (procs u ?rip) = ?a1" "p_size (procs u ?rip) = ?n"
              using 1 it kc by auto
            have "swapped_image ?w k = swapped_image u k" "has_flag SLOAD (procs ?w k) = has_flag SLOAD (procs u k)"
              "procs ?w k = procs u k" "f_count ?w = f_count u" "i_count ?w = i_count u"
              using kc by (simp_all add: swapped_image_def upd_proc_def)
            moreover have "core_image ?w ?rip = core_image s ?rip" using u(2,8,9) by (simp add: core_image_def upd_proc_def)
            ultimately show ?case using u by simp
          qed
        next
          case False
          let ?t = "upd_proc k (\<lambda>x. x\<lparr>p_addr := a\<rparr>) t"
          have "0 < unat ?n" using sz by (cases "?n = 0") (auto simp: unat_gt_0)
          then have "unat a + unat ?n - 1 \<in> units (coremap s)" using t(4) [OF False] by auto
          then have "unat a + unat ?n - 1 < 65535" using wf units_bounded unfolding wf_map_def by blast
          then have "unat a + unat ?n \<le> 65536" by simp
          then have ne: "?a1 + of_nat i \<noteq> a + of_nat j" if "i < unat ?n" "j < unat ?n" for i j
            using disjoint_runs [OF t(4) [OF False] out] top that by blast
          have n: "unat ?n < 65536" using unsigned_less [of ?n, where ?'a = nat] by simp
          from copy_segs_core [OF ne n, of ?t] obtain c where c: "copy_segs (unat ?n) ?a1 a ?t = ?t\<lparr>core := c\<rparr>"
            "\<And>x. c x = (if unat (x - a) < unat ?n then core ?t (?a1 + (x - a)) else core ?t x)" by blast
          have ct: "core ?t = core s" using core_viewD(1) [OF t(1)] s2(1) by (simp add: upd_proc_def)
          have new: "c (a + of_nat i) = core s (?a1 + of_nat i)" if "i < unat ?n" for i
          proof -
            have "unat (a + of_nat i - a) = i" using that n by (simp add: unat_of_nat take_bit_nat_eq_self)
            then show ?thesis using that by (simp add: c(2) ct)
          qed
          have old: "c (?a1 + of_nat i) = core s (?a1 + of_nat i)" if i: "i < unat ?n" for i
          proof -
            have "\<not> unat (?a1 + of_nat i - a) < unat ?n"
            proof
              assume "unat (?a1 + of_nat i - a) < unat ?n"
              from ne [OF i this] show False by simp
            qed
            then show ?thesis by (simp add: c(2) ct)
          qed
          have "p_addr (procs ?t k) = a" "p_size (procs ?t k) = ?n" "has_flag SLOAD (procs ?t k)" "p_addr (procs ?t ?rip) = ?a1" "p_size (procs ?t ?rip) = ?n"
            "p_pid (procs ?t k) = of_nat pid" "p_ppid (procs ?t k) = p_pid ?r" "f_count ?t = f_count s2" "i_count ?t = i_count s2"
            using s2 t(3) kc core_viewD(5,6) [OF t(1)] by (simp_all add: upd_proc_def has_flag_def)
          then show ?thesis unfolding if_not_P [OF False] c(1) by (simp add: core_image_def new old)
        qed
      next
        case (2 _ u)
        show ?case
        proof (rule post_bndI [OF setrq_view], elim conjE, goal_cases)
          case (1 _ v)
          let ?v = "upd_proc k (\<lambda>x. x\<lparr>p_flag := p_flag x OR SSWAP\<rparr>) v"
          have cv: "core_view ?v = core_view u" using 1(1) by (simp add: core_view_upd_proc)
          have sv: "swpd ?v = swpd u" using 1(2) by (simp add: upd_proc_def)
          have "p_flag (procs v k) = p_flag (procs u k)" using fun_cong [OF 1(3), of k] by (simp add: flags_def)
          moreover have "(x OR SSWAP) AND SLOAD = x AND SLOAD" for x :: u8
            by (simp add: bit.conj_disj_distrib2)
          ultimately have "has_flag SLOAD (procs ?v k) = has_flag SLOAD (procs u k)" by (simp add: has_flag_def upd_proc_def)
          moreover have "core_image ?v x = core_image u x" "swapped_image ?v x = swapped_image u x" for x
            using image_view [OF cv] core_viewD(2,3) [OF cv] sv by (simp_all add: swapped_image_def)
          ultimately have "?Q ?v" using 2 core_viewD(5-8) [OF cv] by (cases "has_flag SLOAD (procs u k)") simp_all
          from fin [OF this] show ?case by simp
        qed
      qed
    qed
  qed
qed


section \<open>The counts of the shared text\<close>

definition tcounts :: "'z sst_scheme \<Rightarrow> nat \<Rightarrow> u8 \<times> u8" where
  "tcounts s = (\<lambda>x. (x_count (texts s x), x_ccount (texts s x)))"

lemma tcounts_cong: "texts t = texts s \<Longrightarrow> tcounts t = tcounts s"
  by (simp add: tcounts_def)

lemma tcounts_upd [simp]:
  "tcounts (upd_text x (\<lambda>t. t\<lparr>x_flag := g t\<rparr>) s) = tcounts s" "tcounts (upd_proc p h s) = tcounts s" "tcounts (swap b a n rd s) = tcounts s"
  by (auto simp: tcounts_def upd_text_def upd_proc_def swap_16 put_clicks_def get_clicks_def)

lemma xunlock_counts: "post (xunlock xp s) (\<lambda>_ t. tcounts t = tcounts s)"
  unfolding xunlock_def
proof (rule post_bndI)
  show "post (if x_has XWANT (texts s xp) then wakeup (text_addr s xp) s else Ok () s) (\<lambda>_ t. tcounts t = tcounts s)"
    by (auto intro: post_mono [OF wakeup_view] tcounts_cong)
qed simp

definition one_less :: "nat option \<Rightarrow> (nat \<Rightarrow> u8 \<times> u8) \<Rightarrow> nat \<Rightarrow> u8 \<times> u8" where
  "one_less xo C = (\<lambda>x. if xo = Some x \<and> snd (C x) \<noteq> 0 then (fst (C x), snd (C x) - 1) else C x)"

lemma xccdec_counts: "post (xccdec xo s) (\<lambda>_ t. tcounts t = one_less xo (tcounts s))"
proof (cases xo)
  case None
  then show ?thesis by (simp add: xccdec_def one_less_def)
next
  case (Some xp)
  show ?thesis
  proof (cases "x_ccount (texts s xp) = 0")
    case True
    then show ?thesis using Some by (auto simp: xccdec_def one_less_def tcounts_def)
  next
    case False
    have dec: "tcounts (upd_text xp (\<lambda>x. x\<lparr>x_ccount := x_ccount x - 1\<rparr>) t) = one_less (Some xp) (tcounts s)" if "tcounts t = tcounts s" for t :: "'z sst_scheme"
      using False that by (auto simp: one_less_def tcounts_def upd_text_def fun_eq_iff)
    show ?thesis
      unfolding xccdec_def Some option.case if_not_P [OF False] Let_def
    proof (rule post_bndI [where Q = "\<lambda>_ t. tcounts t = tcounts s"], goal_cases)
      case 1
      show ?case by (simp add: xlock_def)
    next
      case (2 _ t)
      note d = dec [OF 2]
      show ?case
      proof (rule post_bndI [where Q = "\<lambda>_ t. tcounts t = one_less (Some xp) (tcounts s)"], goal_cases)
        case 1
        show ?case using d by (auto intro!: post_mono [OF free_map_view] dest: tcounts_cong)
      next
        case (2 _ u)
        then show ?case by (intro post_mono [OF xunlock_counts]) simp
      qed
    qed
  qed
qed

lemma wake_runout_texts: "post (wake_runout s) (\<lambda>_ t. texts t = texts s)" for s :: "'z sst_scheme"
  unfolding wake_runout_def using post_mono [OF wakeup_view [of "a_runout s" "s\<lparr>runout := 0\<rparr>"], of "\<lambda>_ t. texts t = texts s"] by simp

lemma xswap_counts: "post (xswap p ff os s) (\<lambda>_ t. tcounts t = one_less (p_textp (procs s p)) (tcounts s))"
  unfolding xswap_def Let_def
proof (rule post_bndI [OF alloc_map_view], goal_cases)
  case (1 a t)
  show ?case
  proof (cases "a = 0")
    case False
    have t: "procs t = procs s" "tcounts t = tcounts s" using 1 by (auto intro: tcounts_cong)
    show ?thesis unfolding if_not_P [OF False]
    proof (rule post_bndI [OF xccdec_counts], goal_cases)
      case (1 _ u)
      then have u: "tcounts u = one_less (p_textp (procs s p)) (tcounts s)" using t by simp
      show ?case
      proof (rule post_bndI [where Q = "\<lambda>_ w. tcounts w = one_less (p_textp (procs s p)) (tcounts s)"], goal_cases)
        case 1
        show ?case using u by (auto intro!: post_mono [OF free_map_view] dest: tcounts_cong)
      next
        case (2 _ w)
        then show ?case by (intro post_mono [OF wake_runout_texts]) (auto dest: tcounts_cong)
      qed
    qed
  qed simp
qed

lemma dup_refs_counts:
  "tcounts (dup_refs s) = (\<lambda>x. if p_textp (procs s (cur s)) = Some x then (x_count (texts s x) + 1, x_ccount (texts s x) + 1) else tcounts s x)"
proof -
  have "procs (s\<lparr>f_count := c\<rparr>) = procs s" "cur (s\<lparr>f_count := c\<rparr>) = cur s" for c by simp_all
  then show ?thesis unfolding dup_refs_def dup_files Let_def
    by (auto simp: tcounts_def upd_text_def fun_eq_iff split: option.split)
qed

text \<open>
  A new process is one more of those that use the text, and one more of those in core; swapped out at once, it gives the latter count back
  (unless the count of 8 bits has run over).
\<close>

definition text_shared :: "'z sst_scheme \<Rightarrow> nat \<Rightarrow> 'z sst_scheme \<Rightarrow> bool" where
  "text_shared s k t \<longleftrightarrow> (\<forall>x. tcounts t x = (if p_textp (procs s (cur s)) \<noteq> Some x then tcounts s x
     else (x_count (texts s x) + 1,
       if has_flag SLOAD (procs t k) \<or> x_ccount (texts s x) = 255 then x_ccount (texts s x) + 1 else x_ccount (texts s x))))"

lemma setrq_texts: "post (setrq p s) (\<lambda>_ t. texts t = texts s \<and> flags t = flags s)" for s :: "'z sst_scheme"
  by (auto simp: setrq_def flags_def upd_proc_def split: option.split bool.split)

lemma newproc_texts:
  fixes s :: "'z sst_scheme"
  shows "post (newproc s) (\<lambda>k t. text_shared s k t)"
proof -
  let ?rip = "cur s" and ?r = "procs s (cur s)"
  let ?n = "p_size ?r" and ?a1 = "p_addr ?r"
  show ?thesis
  proof (cases "new_pid (2 * NPROC + 2) (mpid s) None s")
    case (Some q)
    obtain m ko where q: "q = (m, ko)" by (cases q)
    show ?thesis
    proof (cases ko)
      case (Some k)
      note pid = \<open>new_pid (2 * NPROC + 2) (mpid s) None s = Some q\<close> [unfolded q Some]
      define s1 where "s1 = upd_proc k (\<lambda>x. x\<lparr>p_stat := SRUN, p_clktim := 0, p_flag := SLOAD, p_uid := p_uid ?r, p_pgrp := p_pgrp ?r,
        p_nice := p_nice ?r, p_textp := p_textp ?r, p_pid := m, p_ppid := p_pid ?r, p_time := 0, p_cpu := 0\<rparr>) (s\<lparr>mpid := m\<rparr>)"
      define s2 where "s2 = upd_proc k (\<lambda>x. x\<lparr>p_size := ?n\<rparr>) (dup_refs s1)"
      have eq: "newproc s = bnd (alloc_map Coremap ?n s2) (\<lambda>a2 t.
            bnd (if a2 = 0
                 then bnd (xswap k False 0 (upd_proc k (\<lambda>x. x\<lparr>p_addr := ?a1\<rparr>) (upd_proc ?rip (\<lambda>x. x\<lparr>p_stat := SIDL\<rparr>) t))) (\<lambda>_ t.
                        Ok () (upd_proc ?rip (\<lambda>x. x\<lparr>p_stat := SRUN\<rparr>) t))
                 else Ok () (copy_segs (unat ?n) ?a1 a2 (upd_proc k (\<lambda>x. x\<lparr>p_addr := a2\<rparr>) t))) (\<lambda>_ t.
            bnd (setrq k t) (\<lambda>_ t.
            Ok k (upd_proc k (\<lambda>x. x\<lparr>p_flag := p_flag x OR SSWAP\<rparr>) t))))"
        using pid by (simp add: newproc_def Let_def s2_def s1_def)
      have s1: "p_textp (procs s1 (cur s1)) = p_textp ?r" "tcounts s1 = tcounts s" "texts s1 = texts s"
        by (simp_all add: s1_def upd_proc_def tcounts_def)
      define C where "C = (\<lambda>x. if p_textp ?r = Some x then (x_count (texts s x) + 1, x_ccount (texts s x) + 1) else tcounts s x)"
      have C: "tcounts s2 = C" unfolding s2_def tcounts_upd dup_refs_counts s1 C_def ..
      obtain T I c where d: "dup_refs s1 = s1\<lparr>f_count := c, texts := T, i_count := I\<rparr>" using dup_refs_eq [of s1] by blast
      then have "procs (dup_refs s1) = procs s1" by simp
      then have k2: "p_textp (procs s2 k) = p_textp ?r" "has_flag SLOAD (procs s2 k)"
        by (simp_all add: s2_def upd_proc_def) (simp_all add: s1_def upd_proc_def has_flag_def)
      let ?Q = "\<lambda>t. tcounts t = (if has_flag SLOAD (procs t k) then C else one_less (p_textp ?r) C)"
      have fin: "text_shared s k t" if "?Q t" for t
      proof -
        have "w + 1 = 0 \<longleftrightarrow> w = - 1" for w :: u8 by (simp only: eq_neg_iff_add_eq_0)
        moreover have "(- 1 :: u8) = 255" by simp
        ultimately have "w + 1 = 0 \<longleftrightarrow> w = 255" for w :: u8 by simp
        then show ?thesis using that by (auto simp: text_shared_def one_less_def C_def)
      qed
      show ?thesis unfolding eq
      proof (rule post_bndI [OF alloc_map_view], goal_cases)
        case (1 a t)
        then have t: "procs t = procs s2" "tcounts t = C" using C by (auto dest: tcounts_cong)
        show ?case
        proof (rule post_bndI [where Q = "\<lambda>_. ?Q"], goal_cases)
          case 1
          show ?case
          proof (cases "a = 0")
            case True
            let ?t = "upd_proc k (\<lambda>x. x\<lparr>p_addr := ?a1\<rparr>) (upd_proc ?rip (\<lambda>x. x\<lparr>p_stat := SIDL\<rparr>) t)"
            have tx: "p_textp (procs ?t k) = p_textp ?r" "tcounts ?t = C" using t k2 by (cases "k = cur s"; simp add: upd_proc_def) (simp add: t)
            have "post (xswap k False 0 ?t) (\<lambda>_ u. tcounts u = one_less (p_textp ?r) C \<and> \<not> has_flag SLOAD (procs u k))"
              using xswap_counts [of k False 0 ?t] xswap_image [of k False ?t] unfolding tx post_def by blast
            then show ?thesis unfolding if_P [OF True]
              by (rule post_bndI) (auto simp: upd_proc_def has_flag_def tcounts_def)
          next
            case False
            have "\<exists>c. copy_segs n a1 a2 u = u\<lparr>core := c\<rparr>" for n a1 a2 and u :: "'z sst_scheme"
            proof (induction n arbitrary: a1 a2 u)
              case 0
              show ?case by (auto intro: exI [of _ "core u"])
            next
              case (Suc n)
              from Suc [of "a1 + 1" "a2 + 1" "u\<lparr>core := (core u)(a2 := core u a1)\<rparr>"] show ?case by auto
            qed
            then obtain c where c: "copy_segs (unat ?n) ?a1 a (upd_proc k (\<lambda>x. x\<lparr>p_addr := a\<rparr>) t) = (upd_proc k (\<lambda>x. x\<lparr>p_addr := a\<rparr>) t)\<lparr>core := c\<rparr>" by blast
            show ?thesis unfolding if_not_P [OF False] c using t k2 by (simp add: tcounts_def upd_proc_def has_flag_def)
          qed
        next
          case (2 _ u)
          show ?case
          proof (rule post_bndI [OF setrq_texts], elim conjE, goal_cases)
            case (1 _ v)
            have "p_flag (procs v k) = p_flag (procs u k)" using fun_cong [OF 1(2), of k] by (simp add: flags_def)
            moreover have "(x OR SSWAP) AND SLOAD = x AND SLOAD" for x :: u8
              by (simp add: bit.conj_disj_distrib2)
            ultimately have "has_flag SLOAD (procs (upd_proc k (\<lambda>x. x\<lparr>p_flag := p_flag x OR SSWAP\<rparr>) v) k) = has_flag SLOAD (procs u k)"
              by (simp add: has_flag_def upd_proc_def)
            then show ?case using 2 tcounts_cong [OF 1(1)] by (auto intro!: fin)
          qed
        qed
      qed
    qed (use Some q in \<open>simp add: newproc_def\<close>)
  qed (simp add: newproc_def)
qed


section \<open>The choices of the swapping process\<close>

lemma out_age_range: "-20000 < out_age x"
proof -
  have "-128 \<le> sint (p_time x)" "sint (p_nice x) < 128"
    using sint_ge [of "p_time x"] sint_lt [of "p_nice x"] by simp_all
  then show ?thesis by (simp add: out_age_def NZERO_def)
qed

definition oldest_out :: "'z kst_scheme \<Rightarrow> nat set \<Rightarrow> nat option \<times> int \<Rightarrow> bool" where
  "oldest_out s A r = (case r of
     (None, outage) \<Rightarrow> outage = -20000 \<and> (\<forall>q \<in> A. \<not> waits_outside (procs s q))
   | (Some p, outage) \<Rightarrow> p \<in> A \<and> waits_outside (procs s p) \<and> outage = out_age (procs s p) \<and>
       (\<forall>q \<in> A. waits_outside (procs s q) \<longrightarrow> out_age (procs s q) \<le> outage))"

lemma pick_in_oldest: "oldest_out s (set xs) (foldl (pick_in_step s) (None, -20000) xs)"
proof (induction xs rule: rev_induct)
  case (snoc r xs)
  obtain p outage where e: "foldl (pick_in_step s) (None, -20000) xs = (p, outage)" by fastforce
  show ?case using snoc out_age_range [of "procs s r"] unfolding foldl_append e foldl.simps
    by (cases p) (auto simp: Let_def oldest_out_def pick_in_step_def)
qed (simp add: oldest_out_def)

lemma may_goD:
  assumes "may_go s x"
  shows "p_stat x \<noteq> SZOMB" "has_flag SLOAD x" "\<not> has_flag SSYS x" "\<not> has_flag SLOCK x" "\<not> has_flag SULOCK x"
    "p_textp x = Some xp \<Longrightarrow> \<not> x_has XLOCK (texts s xp)"
proof -
  have e: "p_flag x AND (SSYS OR SLOCK OR SULOCK OR SLOAD) = SLOAD" using assms by (simp add: may_go_def)
  have sub: "p_flag x AND b = (p_flag x AND (SSYS OR SLOCK OR SULOCK OR SLOAD)) AND b"
    if "(SSYS OR SLOCK OR SULOCK OR SLOAD) AND b = b" for b using that by (simp add: and.assoc)
  have "p_flag x AND SLOAD = SLOAD AND SLOAD" "p_flag x AND SSYS = SLOAD AND SSYS" "p_flag x AND SLOCK = SLOAD AND SLOCK"
    "p_flag x AND SULOCK = SLOAD AND SULOCK" by (subst sub, simp, simp only: e)+
  then show "has_flag SLOAD x" "\<not> has_flag SSYS x" "\<not> has_flag SLOCK x" "\<not> has_flag SULOCK x" by (simp_all add: has_flag_def)
qed (use assms in \<open>auto simp: may_go_def\<close>)

text \<open>The victim found among the processes of \<open>A\<close>.\<close>

definition victim :: "'z sst_scheme \<Rightarrow> nat set \<Rightarrow> nat option \<times> int \<times> int \<Rightarrow> bool" where
  "victim s A r = (case r of (p, maxsize, inage) \<Rightarrow> -1 \<le> maxsize \<and>
     (\<forall>q \<in> A. may_go s (procs s q) \<and> idle_in_core (procs s q) \<longrightarrow> sint (p_size (procs s q)) \<le> maxsize) \<and>
     (case p of None \<Rightarrow> maxsize = -1 \<and> inage = -1
      | Some v \<Rightarrow> v \<in> A \<and> may_go s (procs s v) \<and>
         (if maxsize \<ge> 0 then idle_in_core (procs s v) \<and> maxsize = sint (p_size (procs s v))
          else inage = in_age (procs s v))))"

lemma victim_mono: "victim s A r \<Longrightarrow> A \<subseteq> B \<Longrightarrow>
    (\<And>q. q \<in> B - A \<Longrightarrow> may_go s (procs s q) \<Longrightarrow> idle_in_core (procs s q) \<Longrightarrow> sint (p_size (procs s q)) \<le> fst (snd r)) \<Longrightarrow> victim s B r"
  unfolding victim_def by (cases r; cases "fst r") (simp, blast)+

lemma pick_out_victim: "victim s (set xs) (foldl (pick_out_step s) (None, -1, -1) xs)"
proof (induction xs rule: rev_induct)
  case (snoc r xs)
  obtain p m a where e: "foldl (pick_out_step s) (None, -1, -1) xs = (p, m, a)" by (metis prod_cases3)
  let ?x = "procs s r"
  have v: "victim s (set xs) (p, m, a)" using snoc e by simp
  then have m: "-1 \<le> m" "\<forall>q \<in> set xs. may_go s (procs s q) \<and> idle_in_core (procs s q) \<longrightarrow> sint (p_size (procs s q)) \<le> m"
    by (simp_all add: victim_def)
  have "victim s (set (xs @ [r])) (pick_out_step s (p, m, a) r)"
  proof (cases "may_go s ?x \<and> idle_in_core ?x")
    case True
    show ?thesis
    proof (cases "m < sint (p_size ?x)")
      case big: True
      then have "victim s (insert r (set xs)) (Some r, sint (p_size ?x), a)"
        using True m unfolding victim_def by simp (metis le_less_trans less_imp_le order.strict_implies_order)
      then show ?thesis using True big by (simp add: pick_out_step_def)
    next
      case False
      then have "pick_out_step s (p, m, a) r = (p, m, a)" using True by (simp add: pick_out_step_def)
      moreover have "victim s (set (xs @ [r])) (p, m, a)" using False by (intro victim_mono [OF v]) auto
      ultimately show ?thesis by simp
    qed
  next
    case False
    have keep: "victim s (set (xs @ [r])) (p, m, a)" using False by (intro victim_mono [OF v]) auto
    show ?thesis
    proof (cases "may_go s ?x \<and> m < 0 \<and> (p_stat ?x = SRUN \<or> p_stat ?x = SSLEEP) \<and> in_age ?x > a")
      case True
      then have "victim s (insert r (set xs)) (Some r, m, in_age ?x)" using False m unfolding victim_def by simp
      then show ?thesis using True False by (simp add: pick_out_step_def)
    next
      case nochange: False
      then have "pick_out_step s (p, m, a) r = (p, m, a)" using False by (auto simp: pick_out_step_def Let_def)
      then show ?thesis using keep by simp
    qed
  qed
  then show ?case using e by simp
qed (simp add: victim_def)


section \<open>Properties\<close>

text \<open>
  A state for the witnesses: process 4 runs (2 clicks at 500), process 6 sleeps, process 7 is out at block
  40 of the swap space; there is core for three clicks at 100 and swap space at 8.
\<close>

definition demo_sst :: sst where
  "demo_sst = \<lparr>coremap = [\<lparr>m_size = 3, m_addr = 100\<rparr>, \<lparr>m_size = 0, m_addr = 0\<rparr>, \<lparr>m_size = 0, m_addr = 0\<rparr>],
     swapmap = [\<lparr>m_size = 20, m_addr = 8\<rparr>, \<lparr>m_size = 0, m_addr = 0\<rparr>, \<lparr>m_size = 0, m_addr = 0\<rparr>],
     runin = 0, sched_woken = False,
     procs = (\<lambda>_. demo_proc 0 0 0 None)(4 := (demo_proc 3 1 0 None)\<lparr>p_addr := 500, p_size := 2, p_pid := 12\<rparr>,
       6 := (demo_proc 1 1 64 None)\<lparr>p_addr := 600, p_size := 3\<rparr>, 7 := (demo_proc 3 0 0 None)\<lparr>p_addr := 40, p_size := 2\<rparr>),
     slpque = (\<lambda>_. None)(2 := Some 6), runq = Some 7, cur = 4, runout = 0, runrun = 0, curpri = 50,
     console = [], a_runin = 34, a_runout = 32, a_lbolt = 36, a_proc = 1024,
     core = (\<lambda>a. [ucast a]), swpd = (\<lambda>k. [of_nat k]), texts = (\<lambda>_. \<lparr>x_daddr = 0, x_caddr = 0, x_size = 0, x_iptr = None, x_count = 0, x_ccount = 0, x_flag = 0\<rparr>),
     a_text = 4096, mpid = 12, u_ofile = [Some 3, Some 3, None], f_count = (\<lambda>_. 2), u_cdir = 1, u_rdir = None, i_count = (\<lambda>_. 1)\<rparr>"

text \<open>
  C13. A process that is swapped out and later swapped in again has the image it had before, as
  long as nobody wrote on its place in the swap space in between.
\<close>

theorem swap_out_in:
  assumes "xswap p True 0 s = Ok () s1" and "swapin p s2 = Ok True s3"
    and "swapped_image s2 p = swapped_image s1 p" and "p_size (procs s2 p) = p_size (procs s1 p)"
  shows "core_image s3 p = core_image s p \<and> p_size (procs s3 p) = p_size (procs s p) \<and>
    \<not> has_flag SLOAD (procs s1 p) \<and> has_flag SLOAD (procs s3 p)"
proof -
  have "core_image s3 p = swapped_image s2 p \<and> p_size (procs s3 p) = p_size (procs s2 p) \<and> has_flag SLOAD (procs s3 p)"
    using swapin_image [of p s2] assms(2) unfolding post_def by blast
  moreover have "swapped_image s1 p = core_image s p \<and> p_size (procs s1 p) = p_size (procs s p) \<and> \<not> has_flag SLOAD (procs s1 p)"
    using xswap_image [of p True s] assms(1) unfolding post_def by blast
  ultimately show ?thesis using assms(3,4) by simp
qed

theorem swap_out_in_witness:
  "\<exists>s1 s3. xswap 4 True 0 demo_sst = Ok () s1 \<and> swapin 4 s1 = Ok True s3 \<and>
     core_image s3 4 = core_image demo_sst 4 \<and> p_size (procs s3 4) = p_size (procs demo_sst 4) \<and>
    \<not> has_flag SLOAD (procs s1 4) \<and> has_flag SLOAD (procs s3 4)"
proof -
  have "\<exists>s1 s3. xswap 4 True 0 demo_sst = Ok () s1 \<and> swapin 4 s1 = Ok True s3"
    by (simp add: demo_sst_def demo_proc_def xswap_def swapin_def alloc_map_def free_map_def kmalloc_def mfree_def the_map_def set_map_def
        maps.truncate_def xccdec_def wake_runout_def ctod_def swap_16 put_clicks_def get_clicks_def upd_proc_def Let_def
        mfree_here_def mfree_insert_def)
  then show ?thesis using swap_out_in [OF _ _ refl refl] by blast
qed

lemma new_pid_unused:
  assumes "0 \<le> sint (mpid s)" and "sint (mpid s) < 30000"
  shows "\<exists>m. new_pid (2 * NPROC + 2) (mpid s) None s = Some (m, first_free s) \<and> 0 < sint m \<and> sint m < 30000 \<and>
    (\<forall>r < NPROC. p_pid (procs s r) \<noteq> m \<and> p_pgrp (procs s r) \<noteq> m)"
proof -
  have e: "mpid s = of_nat (nat (sint (mpid s)))" using assms(1) by simp
  have "nat (sint (mpid s)) < 30000" using assms by linarith
  from new_pid_found [OF this, of s] obtain m where m: "new_pid (2 * NPROC + 2) (mpid s) None s = Some (of_nat m, first_free s)"
    "0 < m" "m < 30000" "\<not> pid_used s m" unfolding e [symmetric] found_pid_def by blast
  have "sint (word_of_int (int m) :: u16) = int m"
    using m(3) by (subst sint_sbintrunc') (simp add: signed_take_bit_int_eq_self)
  then show ?thesis using m by (intro exI [of _ "of_nat m"]) (auto simp: pid_used_def)
qed

text \<open>
  C30. The search for a process number ends (with the bound 2 * \<open>NPROC\<close> + 2 on the tries) with a
  number from 1 to 29999 that no process has as its number or its group, and with the
  first free slot of the table, if there is one.
\<close>

theorem new_pid_terminates:
  assumes "0 \<le> sint (mpid s)" and "sint (mpid s) < 30000"
  shows "\<exists>m. new_pid (2 * NPROC + 2) (mpid s) None s = Some (m, first_free s) \<and> 0 < sint m \<and> sint m < 30000 \<and>
    (\<forall>r < NPROC. p_pid (procs s r) \<noteq> m \<and> p_pgrp (procs s r) \<noteq> m)"
  by (rule new_pid_unused [OF assms])

theorem new_pid_terminates_witness:
  "\<exists>m. new_pid (2 * NPROC + 2) (mpid demo_sst) None demo_sst = Some (m, first_free demo_sst) \<and> 0 < sint m \<and> sint m < 30000 \<and>
    (\<forall>r < NPROC. p_pid (procs demo_sst r) \<noteq> m \<and> p_pgrp (procs demo_sst r) \<noteq> m)"
  by (rule new_pid_terminates) (simp_all add: demo_sst_def)

text \<open>
  C18. The child that \<open>newproc\<close> makes has a copy of its parent's image, in core if there was room and
  on the swap device otherwise; the parent's own image is untouched. The child takes the
  first free slot, has an unused process number and the parent's number as \<open>p_ppid\<close>. Every
  reference it inherits is counted: to an open file, to a directory, and to the shared text, whose \<open>x_count\<close> grows by one and whose
  \<open>x_ccount\<close> (the processes in core) by one exactly when the child is in core; no other count of any text changes.
\<close>

theorem newproc_copies_image:
  assumes "newproc s = Ok k t" and "cur s < NPROC" "p_stat (procs s (cur s)) \<noteq> 0" and "0 \<le> sint (mpid s)" "sint (mpid s) < 30000"
    and "wf_map (coremap s)" and "0 < sint (p_size (procs s (cur s)))"
    and "{unat (p_addr (procs s (cur s)))..<unat (p_addr (procs s (cur s))) + unat (p_size (procs s (cur s)))} \<inter> units (coremap s) = {}"
    and "unat (p_addr (procs s (cur s))) + unat (p_size (procs s (cur s))) \<le> 65536"
  shows "first_free s = Some k \<and>
     (if has_flag SLOAD (procs t k) then core_image t k else swapped_image t k) = core_image s (cur s) \<and>
     core_image t (cur s) = core_image s (cur s) \<and>
     (\<exists>m. p_pid (procs t k) = of_nat m \<and> 0 < m \<and> m < 30000 \<and> \<not> pid_used s m) \<and> p_ppid (procs t k) = p_pid (procs s (cur s)) \<and>
     (\<forall>f. f_count t f = f_count s f + of_nat (count_list (u_ofile s) (Some f))) \<and>
     (\<forall>i. i_count t i = i_count s i + (if i = u_cdir s then 1 else 0) + (if u_rdir s = Some i then 1 else 0)) \<and>
     (\<forall>x. (x_count (texts t x), x_ccount (texts t x)) =
       (if p_textp (procs s (cur s)) \<noteq> Some x then (x_count (texts s x), x_ccount (texts s x))
        else (x_count (texts s x) + 1,
          if has_flag SLOAD (procs t k) \<or> x_ccount (texts s x) = 255 then x_ccount (texts s x) + 1 else x_ccount (texts s x))))"
proof -
  have "mpid s = of_nat (nat (sint (mpid s)))" "nat (sint (mpid s)) < 30000" using assms(4,5) by simp_all
  note newproc_post [OF assms(2,3) this assms(6-9), unfolded assms(1) post_simps]
  moreover have "text_shared s k t" using newproc_texts [of s] unfolding assms(1) post_simps .
  ultimately show ?thesis unfolding text_shared_def tcounts_def by blast
qed

text \<open>The state with a shared text for process 4.\<close>

definition demo_share :: sst where
  "demo_share = demo_sst\<lparr>procs := (procs demo_sst)(4 := (procs demo_sst 4)\<lparr>p_textp := Some 5\<rparr>),
     texts := (\<lambda>_. \<lparr>x_daddr = 0, x_caddr = 700, x_size = 4, x_iptr = Some 1, x_count = 1, x_ccount = 1, x_flag = 0\<rparr>)\<rparr>"

theorem newproc_copies_image_witness:
  "\<exists>t. newproc demo_share = Ok 0 t \<and> has_flag SLOAD (procs t 0) \<and> core_image t 0 = core_image demo_share 4 \<and>
     f_count t 3 = 4 \<and> i_count t 1 = 2 \<and> x_count (texts t 5) = 2 \<and> x_ccount (texts t 5) = 2 \<and> x_count (texts t 6) = 1"
proof -
  have n: "[0..<NPROC] = 0 # [1..<NPROC]" by (simp add: upt_conv_Cons NPROC_def)
  have ff: "first_free demo_share = Some 0" by (simp add: first_free_def n) (simp add: demo_share_def demo_sst_def demo_proc_def)
  from new_pid_unused [of demo_share] obtain m where m: "new_pid (2 * NPROC + 2) (mpid demo_share) None demo_share = Some (m, Some 0)"
    unfolding ff by (auto simp: demo_share_def demo_sst_def)
  obtain j where j: "NPROC = Suc (Suc j)" by (rule that [of 148]) (simp add: NPROC_def)
  have two: "copy_segs 2 a b s = copy_segs 0 (a + 1 + 1) (b + 1 + 1) (s\<lparr>core := (core s)(b := core s a, b + 1 := ((core s)(b := core s a)) (a + 1))\<rparr>)" for a b and s :: sst
    by (simp add: numeral_2_eq_2)
  have "\<exists>t. newproc demo_share = Ok 0 t \<and> has_flag SLOAD (procs t 0)"
    unfolding newproc_def m
    by (simp add: Let_def, simp add: demo_share_def demo_sst_def demo_proc_def alloc_map_def kmalloc_def the_map_def set_map_def maps.truncate_def
        dup_refs_def upd_proc_def upd_text_def setrq_def j two Let_def has_flag_def)
  then obtain t where t: "newproc demo_share = Ok 0 t" "has_flag SLOAD (procs t 0)" by blast
  have "first_free demo_share = Some 0 \<and>
     (if has_flag SLOAD (procs t 0) then core_image t 0 else swapped_image t 0) = core_image demo_share (cur demo_share) \<and>
     core_image t (cur demo_share) = core_image demo_share (cur demo_share) \<and>
     (\<exists>m. p_pid (procs t 0) = of_nat m \<and> 0 < m \<and> m < 30000 \<and> \<not> pid_used demo_share m) \<and> p_ppid (procs t 0) = p_pid (procs demo_share (cur demo_share)) \<and>
     (\<forall>f. f_count t f = f_count demo_share f + of_nat (count_list (u_ofile demo_share) (Some f))) \<and>
     (\<forall>i. i_count t i = i_count demo_share i + (if i = u_cdir demo_share then 1 else 0) + (if u_rdir demo_share = Some i then 1 else 0)) \<and>
     (\<forall>x. (x_count (texts t x), x_ccount (texts t x)) =
       (if p_textp (procs demo_share (cur demo_share)) \<noteq> Some x then (x_count (texts demo_share x), x_ccount (texts demo_share x))
        else (x_count (texts demo_share x) + 1,
          if has_flag SLOAD (procs t 0) \<or> x_ccount (texts demo_share x) = 255 then x_ccount (texts demo_share x) + 1 else x_ccount (texts demo_share x))))"
    by (rule newproc_copies_image [OF t(1)]) (simp_all add: demo_share_def demo_sst_def demo_proc_def NPROC_def wf_map_def)
  then have "core_image t 0 = core_image demo_share (cur demo_share)" "f_count t 3 = 4" "i_count t 1 = 2"
    "(x_count (texts t 5), x_ccount (texts t 5)) = (2, 2)" "(x_count (texts t 6), x_ccount (texts t 6)) = (1, 1)"
    using t(2) by (simp_all add: demo_share_def demo_sst_def)
  then show ?thesis using t by (auto simp: demo_share_def demo_sst_def)
qed

text \<open>
  The swapping process brings in the process that has waited outside longest, and never
  swaps out a process that is a zombie, the swapper itself, locked in core, being swapped, or
  whose text is locked: the victim is the largest of the processes that sleep at a bad priority or
  are stopped, and only if there are none of these one that runs or sleeps at a good one.
\<close>

theorem sched_choices:
  "(case pick_in s of
     (None, outage) \<Rightarrow> \<forall>q < NPROC. \<not> waits_outside (procs s q)
   | (Some p, outage) \<Rightarrow> p < NPROC \<and> p_stat (procs s p) = SRUN \<and> \<not> has_flag SLOAD (procs s p) \<and>
       (\<forall>q < NPROC. waits_outside (procs s q) \<longrightarrow> out_age (procs s q) \<le> out_age (procs s p))) \<and>
   (case pick_out s of
     (None, _) \<Rightarrow> True
   | (Some v, maxsize, inage) \<Rightarrow> v < NPROC \<and> p_stat (procs s v) \<noteq> SZOMB \<and> has_flag SLOAD (procs s v) \<and>
       \<not> has_flag SSYS (procs s v) \<and> \<not> has_flag SLOCK (procs s v) \<and> \<not> has_flag SULOCK (procs s v) \<and>
       (\<forall>xp. p_textp (procs s v) = Some xp \<longrightarrow> \<not> x_has XLOCK (texts s xp)) \<and>
       (maxsize \<ge> 0 \<longrightarrow> idle_in_core (procs s v) \<and>
          (\<forall>q < NPROC. may_go s (procs s q) \<and> idle_in_core (procs s q) \<longrightarrow> sint (p_size (procs s q)) \<le> sint (p_size (procs s v)))) \<and>
       (maxsize < 0 \<longrightarrow> (\<forall>q < NPROC. may_go s (procs s q) \<and> idle_in_core (procs s q) \<longrightarrow> sint (p_size (procs s q)) < 0)))"
proof
  show "case pick_in s of
     (None, outage) \<Rightarrow> \<forall>q < NPROC. \<not> waits_outside (procs s q)
   | (Some p, outage) \<Rightarrow> p < NPROC \<and> p_stat (procs s p) = SRUN \<and> \<not> has_flag SLOAD (procs s p) \<and>
       (\<forall>q < NPROC. waits_outside (procs s q) \<longrightarrow> out_age (procs s q) \<le> out_age (procs s p))"
  proof -
    obtain po age where e: "pick_in s = (po, age)" by fastforce
    have o: "oldest_out s {0..<NPROC} (po, age)" using pick_in_oldest [of s "[0..<NPROC]"] e by (simp add: pick_in_def)
    show ?thesis
    proof (cases po)
      case (Some p)
      then have "p < NPROC" "waits_outside (procs s p)"
        "\<forall>q < NPROC. waits_outside (procs s q) \<longrightarrow> out_age (procs s q) \<le> out_age (procs s p)"
        using o by (auto simp: oldest_out_def)
      then show ?thesis by (simp add: e Some) (simp add: waits_outside_def)
    qed (use o e in \<open>auto simp: oldest_out_def\<close>)
  qed
  obtain vo maxsize inage where e: "pick_out s = (vo, maxsize, inage)" by (metis prod_cases3)
  have v: "victim s {0..<NPROC} (vo, maxsize, inage)"
    using pick_out_victim [of s "[0..<NPROC]"] e by (simp add: pick_out_def)
  show "case pick_out s of
     (None, _) \<Rightarrow> True
   | (Some v, maxsize, inage) \<Rightarrow> v < NPROC \<and> p_stat (procs s v) \<noteq> SZOMB \<and> has_flag SLOAD (procs s v) \<and>
       \<not> has_flag SSYS (procs s v) \<and> \<not> has_flag SLOCK (procs s v) \<and> \<not> has_flag SULOCK (procs s v) \<and>
       (\<forall>xp. p_textp (procs s v) = Some xp \<longrightarrow> \<not> x_has XLOCK (texts s xp)) \<and>
       (maxsize \<ge> 0 \<longrightarrow> idle_in_core (procs s v) \<and>
          (\<forall>q < NPROC. may_go s (procs s q) \<and> idle_in_core (procs s q) \<longrightarrow> sint (p_size (procs s q)) \<le> sint (p_size (procs s v)))) \<and>
       (maxsize < 0 \<longrightarrow> (\<forall>q < NPROC. may_go s (procs s q) \<and> idle_in_core (procs s q) \<longrightarrow> sint (p_size (procs s q)) < 0))"
  proof (cases vo)
    case (Some p)
    then have p: "p < NPROC" "may_go s (procs s p)" using v by (simp_all add: victim_def)
    then show ?thesis using may_goD [OF p(2)] v Some e by (force simp: victim_def split: if_splits)
  qed (simp add: e)
qed

theorem sched_choices_witness:
  "(case pick_in demo_sst of
     (None, outage) \<Rightarrow> \<forall>q < NPROC. \<not> waits_outside (procs demo_sst q)
   | (Some p, outage) \<Rightarrow> p < NPROC \<and> p_stat (procs demo_sst p) = SRUN \<and> \<not> has_flag SLOAD (procs demo_sst p) \<and>
       (\<forall>q < NPROC. waits_outside (procs demo_sst q) \<longrightarrow> out_age (procs demo_sst q) \<le> out_age (procs demo_sst p)))"
  by (rule sched_choices [THEN conjunct1])


end
