(* ===== verification/Sig.thy ===== *)
theory Sig
  imports V7_Prelude Res_Map User_IO Sched Swap
begin

text \<open>
  The user area of the running process, signals (\<open>sys/sig.c\<close> without core dumps and tracing requests), the whole of
  \<open>sleep\<close> (\<open>sys/slp.c\<close>) and the part of the clock interrupt that keeps the accounts and ages the processes
  (\<open>sys/clock.c\<close>, label \<open>out\<close>). The signals pending for a process are read as a set (\<open>pending\<close>); the
  properties are what \<open>issig\<close> answers, whom a signal wakes, when \<open>sleep\<close> can be interrupted, and that
  past processor usage is forgotten.
\<close>

unbundle bit_operations_syntax

section \<open>The user area of the running process\<close>

text \<open>
  The fields of \<open>struct user\<close> that signals and system calls use, for the process \<open>cur\<close>; \<open>io\<close> holds
  \<open>u_error\<close> and the user's memory. The registers are named by their number, the program counter is 7 and
  the processor status 8. \<open>time\<close>, \<open>lbolt\<close> and the counters of the clock are global.
\<close>

record ust = sst +
  io :: uio
  u_signal :: "nat \<Rightarrow> u16"
  u_uid :: u16
  u_gid :: u16
  u_ruid :: u16
  u_rgid :: u16
  r_val1 :: u16
  r_val2 :: u16
  u_tsize :: u16
  u_dsize :: u16
  u_ssize :: u16
  u_sep :: u8
  u_utime :: u32
  u_stime :: u32
  u_cutime :: u32
  u_cstime :: u32
  u_ar0 :: "nat \<Rightarrow> u16"
  u_prof :: "u16 \<times> u16 \<times> u16 \<times> u16"
  u_cmask :: u16
  u_acflag :: u8
  u_start :: u32
  a_u :: u16
  time :: u32
  lbolt :: u16
  dk_busy :: u16
  dk_time :: "nat \<Rightarrow> u32"
  maxmem :: u16
  cputype :: u16

abbreviation (input) EPERM :: u8 where "EPERM \<equiv> 1"
abbreviation (input) ESRCH :: u8 where "ESRCH \<equiv> 3"
abbreviation (input) ECHILD :: u8 where "ECHILD \<equiv> 10"
abbreviation (input) EAGAIN :: u8 where "EAGAIN \<equiv> 11"
abbreviation (input) ENOMEM :: u8 where "ENOMEM \<equiv> 12"
abbreviation (input) EINVAL :: u8 where "EINVAL \<equiv> 22"

definition NSIG :: nat where "NSIG = 17"
definition SIGKIL :: nat where "SIGKIL = 9"
definition SIGCLK :: u16 where "SIGCLK = 14"
definition SIGINS :: nat where "SIGINS = 4"
definition SIGTRC :: nat where "SIGTRC = 5"

definition set_error :: "u8 \<Rightarrow> 'z ust_scheme \<Rightarrow> 'z ust_scheme" where
  "set_error e s = s\<lparr>io := (io s)\<lparr>u_error := e\<rparr>\<rparr>"


section \<open>Signals\<close>

definition sig_bit :: "nat \<Rightarrow> u16" where
  "sig_bit n = push_bit (n - 1) 1"

definition psignal :: "nat \<Rightarrow> u16 \<Rightarrow> 'z kst_scheme \<Rightarrow> (unit, 'z kst_scheme) kres" where
  "psignal p sig s =
     (if unat sig \<ge> NSIG then Ok () s
      else let s = (if sig \<noteq> 0 then upd_proc p (\<lambda>x. x\<lparr>p_sig := p_sig x OR sig_bit (unat sig)\<rparr>) s else s);
               s = (if sint (p_pri (procs s p)) > PUSER then upd_proc p (\<lambda>x. x\<lparr>p_pri := word_of_int PUSER\<rparr>) s else s)
           in if p_stat (procs s p) = SSLEEP \<and> sint (p_pri (procs s p)) > PZERO then setrun p s else Ok () s)"

fun signal_loop :: "nat list \<Rightarrow> u16 \<Rightarrow> u16 \<Rightarrow> 'z kst_scheme \<Rightarrow> (unit, 'z kst_scheme) kres" where
  "signal_loop [] pgrp sig s = Ok () s"
| "signal_loop (p # ps) pgrp sig s =
     bnd (if p_pgrp (procs s p) = pgrp then psignal p sig s else Ok () s) (\<lambda>_ s. signal_loop ps pgrp sig s)"

definition signal :: "u16 \<Rightarrow> u16 \<Rightarrow> 'z kst_scheme \<Rightarrow> (unit, 'z kst_scheme) kres" where
  "signal pgrp sig s = (if pgrp = 0 then Ok () s else signal_loop [0..<NPROC] pgrp sig s)"

text \<open>The lowest signal in \<open>p_sig\<close>, an \<open>int\<close> that is shifted right arithmetically.\<close>

fun fsig_loop :: "nat list \<Rightarrow> int \<Rightarrow> nat" where
  "fsig_loop [] n = 0"
| "fsig_loop (i # is) n = (if n mod 2 = 1 then i else fsig_loop is (n div 2))"

definition fsig :: "proc \<Rightarrow> nat" where
  "fsig p = fsig_loop [1..<NSIG] (sint (p_sig p))"

text \<open>The loop of \<open>issig\<close>; the first argument bounds the ignored signals that are dropped.\<close>

fun issig_loop :: "nat \<Rightarrow> 'z ust_scheme \<Rightarrow> (nat, 'z ust_scheme) kres" where
  "issig_loop n s =
     (let p = cur s; x = procs s p in
      if p_sig x = 0 then Ok 0 s
      else case n of 0 \<Rightarrow> Stuck | Suc n \<Rightarrow>
        let sg = fsig x in
        if u_signal s sg AND 1 = 0 \<or> has_flag STRC x then Ok sg s
        else issig_loop n (upd_proc p (\<lambda>x. x\<lparr>p_sig := p_sig x AND NOT (sig_bit sg)\<rparr>) s))"

declare issig_loop.simps [simp del]

definition issig :: "'z ust_scheme \<Rightarrow> (nat, 'z ust_scheme) kres" where
  "issig s = issig_loop NSIG s"

text \<open>
  \<open>sleep\<close> until the process has given up the processor or has been interrupted (the jump to
  \<open>u_qsav\<close>), and what it does when it is resumed (\<^const>\<open>True\<close>: the jump).
\<close>

datatype slept = Interrupted | Gave_up "(nat \<times> bool) option"

definition sleep :: "u16 \<Rightarrow> int \<Rightarrow> 'z ust_scheme \<Rightarrow> (slept, 'z ust_scheme) kres" where
  "sleep c pri s =
     (if c = 0 then Panic ''zero wchan''
      else let p = cur s; s = sleep_enter c pri s in
        if pri > PZERO
        then bnd (issig s) (\<lambda>n s.
          if n \<noteq> 0
          then Ok Interrupted ((upd_proc p (\<lambda>x. x\<lparr>p_wchan := 0, p_stat := SRUN\<rparr>) s)
                 \<lparr>slpque := (slpque s)(hash c := p_link (procs s p))\<rparr>)
          else bnd (if runin s \<noteq> 0 then wakeup (a_runin s) (s\<lparr>runin := 0\<rparr>) else Ok () s) (\<lambda>_ s.
               bnd (swtch s) (\<lambda>r s. Ok (Gave_up r) s)))
        else bnd (swtch s) (\<lambda>r s. Ok (Gave_up r) s))"

definition sleep_resumed :: "int \<Rightarrow> 'z ust_scheme \<Rightarrow> (bool, 'z ust_scheme) kres" where
  "sleep_resumed pri s = (if pri > PZERO then bnd (issig s) (\<lambda>n s. Ok (n \<noteq> 0) s) else Ok False s)"

text \<open>
  \<open>stop\<close> up to the point where the traced process gives up the processor; without a parent to
  tell (or with \<open>init\<close> as its parent) the process exits.
\<close>

datatype stopped = Stopped "(nat \<times> bool) option" | Exits nat

definition stop :: "'z ust_scheme \<Rightarrow> (stopped, 'z ust_scheme) kres" where
  "stop s =
     (let cp = procs s (cur s) in
      case (if p_ppid cp \<noteq> 1 then find (\<lambda>i. p_pid (procs s i) = p_ppid cp) [0..<NPROC] else None) of
        None \<Rightarrow> Ok (Exits (fsig cp)) s
      | Some pp \<Rightarrow> bnd (wakeup (proc_addr s pp) s) (\<lambda>_ s.
          bnd (swtch (upd_proc (cur s) (\<lambda>x. x\<lparr>p_stat := SSTOP\<rparr>) s)) (\<lambda>r s. Ok (Stopped r) s)))"

text \<open>
  \<open>psig\<close> after the stop of a traced process: nothing is pending any more, the signal is caught
  (\<open>sendsig\<close> with the handler's address and the number), or the process exits with a status, to which 0200
  is added if a core image was written (\<open>core_ok\<close> is the answer of \<open>core\<close>).
\<close>

datatype disposition = No_signal | Caught u16 nat | Dies nat

definition psig_act :: "bool \<Rightarrow> 'z ust_scheme \<Rightarrow> disposition \<times> 'z ust_scheme" where
  "psig_act core_ok s =
     (let rp = cur s; n = fsig (procs s rp) in
      if n = 0 then (No_signal, s)
      else let s = upd_proc rp (\<lambda>x. x\<lparr>p_sig := p_sig x AND NOT (sig_bit n)\<rparr>) s; p = u_signal s n in
        if p \<noteq> 0
        then (let s = set_error 0 s;
                  s = (if n \<noteq> SIGINS \<and> n \<noteq> SIGTRC then s\<lparr>u_signal := (u_signal s)(n := 0)\<rparr> else s)
              in (Caught p n, s))
        else if n \<in> {3, 4, 5, 6, 7, 8, 10, 11, 12} \<and> core_ok then (Dies (n + 128), s)
        else (Dies n, s))"


section \<open>The clock\<close>

text \<open>
  The rest of the clock interrupt, after the callouts (label \<open>out\<close>): accounting for the running
  process (\<open>user\<close>: the processor was in user mode; \<open>idling\<close>: it was idle; profiling of the user's
  program counter is done by an assembler routine), and once a second, unless
  the interrupted priority is high, the ageing of all processes.
\<close>

definition HZ :: nat where "HZ = 60"

definition clock_account :: "bool \<Rightarrow> bool \<Rightarrow> 'z ust_scheme \<Rightarrow> 'z ust_scheme" where
  "clock_account user idling s =
     (let a0 = unat (dk_busy s AND 7); pp = cur s;
          (a, s) = (if user
            then (if sint (p_nice (procs s pp)) > NZERO then a0 + 8 else a0, s\<lparr>u_utime := u_utime s + 1\<rparr>)
            else (if idling then a0 + 24 else a0 + 16, s\<lparr>u_stime := u_stime s + 1\<rparr>));
          s = s\<lparr>dk_time := (dk_time s)(a := dk_time s a + 1)\<rparr>
      in upd_proc pp (\<lambda>x. x\<lparr>p_cpu := if p_cpu x + 1 = 0 then p_cpu x else p_cpu x + 1\<rparr>) s)"

definition decay :: "proc \<Rightarrow> u8" where
  "decay x = (let a = uint (p_cpu x) * 8 div 10 + sint (p_nice x) - NZERO in
     word_of_int (if a < 0 then 0 else if a > 255 then 255 else a))"

definition age_proc :: "nat \<Rightarrow> 'z kst_scheme \<Rightarrow> (unit, 'z kst_scheme) kres" where
  "age_proc pp s =
     (if p_stat (procs s pp) = 0 \<or> p_stat (procs s pp) \<ge> SZOMB then Ok () s
      else let s = upd_proc pp (\<lambda>x. if p_time x \<noteq> 127 then x\<lparr>p_time := p_time x + 1\<rparr> else x) s;
               alarmed = (p_clktim (procs s pp) = 1);
               s = upd_proc pp (\<lambda>x. if p_clktim x \<noteq> 0 then x\<lparr>p_clktim := p_clktim x - 1\<rparr> else x) s
           in bnd (if alarmed then psignal pp SIGCLK s else Ok () s) (\<lambda>_ s.
              let s = upd_proc pp (\<lambda>x. x\<lparr>p_cpu := decay x\<rparr>) s in
              if sint (p_pri (procs s pp)) \<ge> PUSER then Ok () (snd (setpri pp s)) else Ok () s))"

fun age_all :: "nat list \<Rightarrow> 'z kst_scheme \<Rightarrow> (unit, 'z kst_scheme) kres" where
  "age_all [] s = Ok () s"
| "age_all (p # ps) s = bnd (age_proc p s) (\<lambda>_ s. age_all ps s)"

definition clock_out :: "bool \<Rightarrow> bool \<Rightarrow> bool \<Rightarrow> 'z ust_scheme \<Rightarrow> (unit, 'z ust_scheme) kres" where
  "clock_out user idling basepri s =
     (let s = clock_account user idling s; s = s\<lparr>lbolt := lbolt s + 1\<rparr> in
      if sint (lbolt s) < int HZ \<or> basepri then Ok () s
      else bnd (wakeup (a_lbolt s) (s\<lparr>lbolt := lbolt s - of_nat HZ, time := time s + 1, runrun := runrun s + 1\<rparr>)) (\<lambda>_ s.
           bnd (age_all [0..<NPROC] s) (\<lambda>_ s.
           if runin s \<noteq> 0 then wakeup (a_runin s) (s\<lparr>runin := 0\<rparr>) else Ok () s)))"

section \<open>The pending signals as a set\<close>

definition pending :: "u16 \<Rightarrow> nat set" where
  "pending w = {k. 0 < k \<and> bit w (k - 1)}"

definition taken :: "'z ust_scheme \<Rightarrow> nat \<Rightarrow> bool" where
  "taken s k = (u_signal s k AND 1 = 0 \<or> has_flag STRC (procs s (cur s)))"

lemma bit_u16: "bit (w :: u16) j \<Longrightarrow> j < 16"
  using bit_imp_le_length [of w j] by simp

lemma pending_range: "k \<in> pending w \<Longrightarrow> 0 < k \<and> k < NSIG"
  using bit_u16 [of w "k - 1"] by (auto simp: pending_def NSIG_def)

lemma finite_pending [simp]: "finite (pending w)"
  using pending_range by (intro finite_subset [of "pending w" "{..<NSIG}"]) auto

lemma pending_0 [simp]: "pending 0 = {}" by (simp add: pending_def)

lemma pending_empty: "pending w = {} \<Longrightarrow> w = 0"
proof -
  assume e: "pending w = {}"
  show "w = 0"
  proof (rule bit_word_eqI)
    fix j show "bit w j = bit 0 j" using e by (auto simp: pending_def dest: spec [of _ "Suc j"])
  qed
qed

lemma bit_sig_bit: "bit (sig_bit k) j \<longleftrightarrow> j = k - 1 \<and> j < 16"
  by (auto simp: sig_bit_def bit_simps)

lemma pending_clear: "0 < k \<Longrightarrow> pending (w AND NOT (sig_bit k)) = pending w - {k}"
  using bit_u16 by (auto simp: pending_def bit_simps bit_sig_bit)

lemma pending_set: "0 < k \<Longrightarrow> k < NSIG \<Longrightarrow> pending (w OR sig_bit k) = insert k (pending w)"
  by (auto simp: pending_def bit_simps bit_sig_bit NSIG_def)

lemma fsig_loop_find:
  "fsig_loop [a..<b] n = (case find (\<lambda>k. bit n (k - a)) [a..<b] of None \<Rightarrow> 0 | Some k \<Rightarrow> k)"
proof (induction "b - a" arbitrary: a n)
  case 0
  then show ?case by simp
next
  case (Suc d)
  then have ab: "[a..<b] = a # [Suc a..<b]" and d: "d = b - Suc a" by (auto simp: upt_conv_Cons)
  have "find (\<lambda>k. bit (n div 2) (k - Suc a)) [Suc a..<b] = find (\<lambda>k. bit n (k - a)) [Suc a..<b]"
    by (rule find_cong) (auto simp: Suc_diff_Suc bit_Suc [symmetric] Suc_le_eq)
  then show ?case unfolding ab using Suc.hyps(1) [OF d, of "n div 2"]
    by (simp add: bit_0 odd_iff_mod_2_eq_one)
qed

lemma find_Min:
  assumes "find P [a..<b] = Some k"
  shows "k = Min {k \<in> {a..<b}. P k}"
  using assms
proof (induction "b - a" arbitrary: a)
  case 0
  then show ?case by simp
next
  case (Suc d)
  then have ab: "[a..<b] = a # [Suc a..<b]" "{a..<b} = insert a {Suc a..<b}" by (auto simp: upt_conv_Cons)
  show ?case
  proof (cases "P a")
    case True
    then show ?thesis using Suc.prems ab by (auto intro!: Min_eqI [symmetric])
  next
    case False
    then have "{k \<in> {a..<b}. P k} = {k \<in> {Suc a..<b}. P k}" using ab by auto
    then show ?thesis using Suc.hyps(1) [of "Suc a"] Suc.hyps(2) Suc.prems ab False by simp
  qed
qed

lemma fsig_Min: "fsig x = (if pending (p_sig x) = {} then 0 else Min (pending (p_sig x)))"
proof -
  let ?P = "\<lambda>k. bit (sint (p_sig x)) (k - 1)"
  have bit: "bit (sint (p_sig x)) j = bit (p_sig x) j" if "j < 16" for j
    using that by (simp add: bit_sint_iff min_def)
  have "k \<in> pending (p_sig x) \<longleftrightarrow> k \<in> {1..<NSIG} \<and> ?P k" for k
  proof (cases "k \<in> {1..<NSIG}")
    case True
    then have "?P k = bit (p_sig x) (k - 1)" by (intro bit) (auto simp: NSIG_def)
    then show ?thesis using True by (simp add: pending_def)
  next
    case False
    then show ?thesis using pending_range [of k "p_sig x"] by auto
  qed
  then have set: "{k \<in> {1..<NSIG}. ?P k} = pending (p_sig x)" by blast
  show ?thesis
  proof (cases "find ?P [1..<NSIG]")
    case None
    then have "{k \<in> {1..<NSIG}. ?P k} = {}" by (auto simp: find_None_iff)
    then have "pending (p_sig x) = {}" unfolding set .
    then show ?thesis using None by (simp add: fsig_def fsig_loop_find)
  next
    case (Some k)
    then have "k \<in> {k \<in> {1..<NSIG}. ?P k}" by (auto simp: find_Some_iff)
    then have "pending (p_sig x) \<noteq> {}" using set by auto
    then show ?thesis using Some find_Min [OF Some] set by (simp add: fsig_def fsig_loop_find)
  qed
qed

lemma card_pending: "card (pending w) \<le> 16"
proof -
  have "pending w \<subseteq> {1..16}" using pending_range by (fastforce simp: NSIG_def)
  from card_mono [OF _ this] show ?thesis by simp
qed

lemma upd_sig_same: "w = p_sig (procs s p) \<Longrightarrow> upd_proc p (\<lambda>x. x\<lparr>p_sig := w\<rparr>) s = s"
  by (simp add: upd_proc_def)

lemma issig_loop_answer:
  assumes "card (pending (p_sig (procs s (cur s)))) \<le> n"
  shows "\<exists>w. issig_loop n s = Ok (let A = {k \<in> pending (p_sig (procs s (cur s))). taken s k} in if A = {} then 0 else Min A)
      (upd_proc (cur s) (\<lambda>x. x\<lparr>p_sig := w\<rparr>) s) \<and>
    pending w = {k \<in> pending (p_sig (procs s (cur s))). \<exists>j \<in> pending (p_sig (procs s (cur s))). taken s j \<and> j \<le> k}"
  using assms
proof (induction n arbitrary: s)
  case 0
  then have "p_sig (procs s (cur s)) = 0" by (simp add: pending_empty)
  then show ?case by (intro exI [of _ 0]) (simp add: issig_loop.simps upd_sig_same)
next
  case (Suc n)
  let ?x = "procs s (cur s)" let ?P = "pending (p_sig ?x)"
  show ?case
  proof (cases "p_sig ?x = 0")
    case True
    then show ?thesis by (intro exI [of _ 0]) (simp add: issig_loop.simps upd_sig_same)
  next
    case False
    then have ne: "?P \<noteq> {}" using pending_empty by blast
    then have f: "fsig ?x = Min ?P" by (simp add: fsig_Min)
    have mem: "fsig ?x \<in> ?P" "\<forall>k \<in> ?P. fsig ?x \<le> k" using ne f Min_in [of ?P] by auto
    show ?thesis
    proof (cases "taken s (fsig ?x)")
      case True
      have "Min {k \<in> ?P. taken s k} = fsig ?x" using mem True by (intro Min_eqI) auto
      moreover have "issig_loop (Suc n) s = Ok (fsig ?x) s"
        using False True by (simp add: issig_loop.simps [of "Suc n"] taken_def Let_def)
      moreover have "{k \<in> ?P. taken s k} \<noteq> {}" using mem(1) True by blast
      moreover have "{k \<in> ?P. \<exists>j \<in> ?P. taken s j \<and> j \<le> k} = ?P" using mem True by blast
      ultimately show ?thesis by (intro exI [of _ "p_sig ?x"]) (auto simp: upd_sig_same)
    next
      case untaken: False
      let ?t = "upd_proc (cur s) (\<lambda>x. x\<lparr>p_sig := p_sig x AND NOT (sig_bit (fsig ?x))\<rparr>) s"
      have t: "cur ?t = cur s" "pending (p_sig (procs ?t (cur s))) = ?P - {fsig ?x}" "taken ?t = taken s"
        using pending_range [OF mem(1)]
        by (simp_all add: upd_proc_def pending_clear taken_def [abs_def] has_flag_def)
      have "card (?P - {fsig ?x}) \<le> n" using Suc.prems mem(1) by simp
      from Suc.IH [of ?t] this obtain w where w: "issig_loop n ?t = Ok (let A = {k \<in> ?P - {fsig ?x}. taken s k} in if A = {} then 0 else Min A)
          (upd_proc (cur s) (\<lambda>x. x\<lparr>p_sig := w\<rparr>) ?t)"
        "pending w = {k \<in> ?P - {fsig ?x}. \<exists>j \<in> ?P - {fsig ?x}. taken s j \<and> j \<le> k}" unfolding t by blast
      have A: "{k \<in> ?P - {fsig ?x}. taken s k} = {k \<in> ?P. taken s k}" using untaken by auto
      have "pending w = {k \<in> ?P. \<exists>j \<in> ?P. taken s j \<and> j \<le> k}" using w(2) untaken mem(2) le_antisym by blast
      moreover have "issig_loop (Suc n) s = issig_loop n ?t"
        using False untaken by (simp add: issig_loop.simps [of "Suc n"] taken_def Let_def)
      moreover have "upd_proc (cur s) (\<lambda>x. x\<lparr>p_sig := w\<rparr>) ?t = upd_proc (cur s) (\<lambda>x. x\<lparr>p_sig := w\<rparr>) s"
        by (simp add: upd_proc_def)
      ultimately show ?thesis using w(1) unfolding A by auto
    qed
  qed
qed

text \<open>
  \<open>issig\<close> always ends, and answers with the lowest pending signal that is not ignored
  (any pending signal when the process is traced), or with 0 if there is none. The ignored signals it has
  passed on the way are dropped, those from the answer up stay pending, and nothing else changes.
\<close>

theorem issig_answer:
  fixes s :: "'z ust_scheme"
  defines "P \<equiv> pending (p_sig (procs s (cur s)))"
  shows "\<exists>w. issig s = Ok (if {k \<in> P. taken s k} = {} then 0 else Min {k \<in> P. taken s k})
       (upd_proc (cur s) (\<lambda>x. x\<lparr>p_sig := w\<rparr>) s) \<and>
     pending w = {k \<in> P. \<exists>j \<in> P. taken s j \<and> j \<le> k}"
proof -
  have "card P \<le> NSIG" using card_pending [of "p_sig (procs s (cur s))"] by (simp add: P_def NSIG_def)
  from issig_loop_answer [OF this [unfolded P_def]] show ?thesis unfolding issig_def P_def Let_def .
qed

section \<open>Sending a signal, and sleeping through one\<close>

lemma queues_ok_cong:
  assumes "queues_ok s" and "link s' = link s" "slpque s' = slpque s" "runq s' = runq s"
    and "\<And>x. p_wchan (procs s' x) = p_wchan (procs s x)" "\<And>x. p_stat (procs s' x) = p_stat (procs s x)"
  shows "queues_ok s'" and "on_runq s' x = on_runq s x" and "asleep_on s' c x = asleep_on s c x"
proof -
  show "on_runq s' x = on_runq s x" "asleep_on s' c x = asleep_on s c x"
    using assms by (simp_all add: on_runq_def asleep_on_def)
  have "asleep_on s' c x = asleep_on s c x" for c x using assms by (simp add: asleep_on_def)
  moreover have "queues rq sq s' = queues rq sq s" for rq sq
    using assms by (simp add: queues_def asleep_at_def)
  ultimately show "queues_ok s'" using assms(1) by (simp add: queues_ok_def)
qed

lemma setrun_asleep:
  assumes "p_stat (procs s p) = SSLEEP" and "p_wchan (procs s p) \<noteq> 0"
  shows "setrun p s = wakeup (p_wchan (procs s p)) s"
proof -
  obtain m where m: "2 * NPROC + 5 = Suc m" "2 * NPROC + 4 = m" by simp
  show ?thesis unfolding setrun_def wakeup_def m using assms by (simp add: Let_def)
qed

text \<open>\<open>psignal\<close> before it looks whether the process sleeps.\<close>

definition signalled :: "nat \<Rightarrow> u16 \<Rightarrow> proc \<Rightarrow> proc" where
  "signalled p sig x = x\<lparr>p_sig := p_sig x OR sig_bit (unat sig),
     p_pri := if sint (p_pri x) > PUSER then word_of_int PUSER else p_pri x\<rparr>"

lemma psignal_eq:
  assumes "sig \<noteq> 0" and "unat sig < NSIG"
  shows "psignal p sig s = (let s' = upd_proc p (signalled p sig) s in
     if p_stat (procs s p) = SSLEEP \<and> sint (p_pri (procs s p)) > PZERO then setrun p s' else Ok () s')"
proof -
  have "sint (word_of_int PUSER :: u8) > PZERO" by (simp add: PUSER_def PZERO_def)
  moreover have "upd_proc p f (upd_proc p g s) = upd_proc p (\<lambda>x. f (g x)) s" for f g and s :: "'z kst_scheme"
    by (simp add: upd_proc_def)
  moreover have "sint (p_pri (procs s p)) > PUSER \<Longrightarrow> sint (p_pri (procs s p)) > PZERO" by (simp add: PUSER_def PZERO_def)
  ultimately show ?thesis using assms
    by (auto simp: psignal_def signalled_def Let_def upd_proc_def)
qed

text \<open>
  A signal sent to a sleeping process is pending for it afterwards, beside what was pending
  before. If it sleeps at an interruptible priority (above \<open>PZERO\<close>) it is made runnable and put on the run queue, otherwise
  it stays asleep. The condition on \<open>runout\<close> is that of \<open>wakeup\<close>.
\<close>

theorem psignal_interrupts:
  assumes "queues_ok s" and "p < NPROC" "p_stat (procs s p) = SSLEEP" "p_wchan (procs s p) \<noteq> 0"
    and "sig \<noteq> 0" "unat sig < NSIG"
    and "a_runout s \<noteq> 0" and "runout s = 0 \<or> hash (a_runout s) \<noteq> hash (p_wchan (procs s p))"
  shows "\<exists>s'. psignal p sig s = Ok () s' \<and> queues_ok s' \<and>
     pending (p_sig (procs s' p)) = insert (unat sig) (pending (p_sig (procs s p))) \<and>
     (if sint (p_pri (procs s p)) > PZERO then p_stat (procs s' p) = SRUN \<and> p_wchan (procs s' p) = 0 \<and> on_runq s' p
      else asleep_on s' (p_wchan (procs s p)) p)"
proof -
  let ?c = "p_wchan (procs s p)" and ?t = "upd_proc p (signalled p sig) s"
  have same: "link ?t = link s" "slpque ?t = slpque s" "runq ?t = runq s"
    "\<And>x. p_wchan (procs ?t x) = p_wchan (procs s x)" "\<And>x. p_stat (procs ?t x) = p_stat (procs s x)"
    "a_runout ?t = a_runout s" "runout ?t = runout s"
    by (auto simp: link_upd_proc signalled_def link_def [abs_def] fun_eq_iff upd_proc_def)
  have "asleep_on s ?c p" using assms(2,3) by (simp add: asleep_on_def)
  then have t: "queues_ok ?t" "asleep_on ?t ?c p"
    using queues_ok_cong [OF assms(1) same(1-5)] by blast+
  have pend: "pending (p_sig (procs ?t p)) = insert (unat sig) (pending (p_sig (procs s p)))"
    using assms(5,6) by (simp add: upd_proc_def signalled_def pending_set unat_gt_0)
  show ?thesis
  proof (cases "sint (p_pri (procs s p)) > PZERO")
    case False
    then show ?thesis using psignal_eq [OF assms(5,6), of p s] t pend by (intro exI [of _ ?t]) (simp add: Let_def)
  next
    case True
    from wakeup_ok [of ?t ?c] obtain s' B where *: "wakeup ?c ?t = Ok () s'" "awake_after ({x. asleep_on ?t ?c x} \<union> B) ?t s'"
      using t(1) assms(4,7,8) same by (metis (no_types, lifting))
    have "setrun p ?t = wakeup ?c ?t" using setrun_asleep [of ?t p] assms(3,4) same by simp
    then have ps: "psignal p sig s = Ok () s'" using psignal_eq [OF assms(5,6), of p s] True assms(3) *(1) by (simp add: Let_def)
    have st: "strip (procs s' p) = strip (awaken (procs ?t p))" and rq: "on_runq s' p" and ok: "queues_ok s'"
      using *(2) t(2) by (auto simp: awake_after_def woke_def)
    then have "p_sig (strip (procs s' p)) = p_sig (strip (awaken (procs ?t p)))" by simp
    then have "p_sig (procs s' p) = p_sig (procs ?t p)" by (simp add: strip_def awaken_def)
    moreover have "p_stat (procs s' p) = SRUN \<and> p_wchan (procs s' p) = 0"
      using strip_eqD(1,2) [OF st] by (simp add: awaken_def)
    ultimately show ?thesis using ps rq ok pend True by simp
  qed
qed

theorem psignal_interrupts_witness:
  "\<exists>s'. psignal 3 2 demo_sched = Ok () s' \<and> queues_ok s' \<and>
     pending (p_sig (procs s' 3)) = insert 2 (pending (p_sig (procs demo_sched 3))) \<and>
     (if sint (p_pri (procs demo_sched 3)) > PZERO then p_stat (procs s' 3) = SRUN \<and> p_wchan (procs s' 3) = 0 \<and> on_runq s' 3
      else asleep_on s' (p_wchan (procs demo_sched 3)) 3)"
proof (rule psignal_interrupts [OF demo_queues_ok, of 3 2, simplified])
  show "runout demo_sched = 0 \<or> hash (a_runout demo_sched) \<noteq> hash (p_wchan (procs demo_sched 3))"
    by (simp add: demo_sched_def demo_proc_def)
qed (simp_all add: demo_sched_def demo_proc_def NPROC_def NSIG_def)

lemma sleep_enter_same:
  "p_sig (procs (sleep_enter c pri s) x) = p_sig (procs s x)" "cur (sleep_enter c pri s) = cur s"
  "runin (sleep_enter c pri s) = runin s" "runq (sleep_enter c pri s) = runq s"
  "slpque (sleep_enter c pri s) = (slpque s)(hash c := Some (cur s))"
  by (simp_all add: sleep_enter_def upd_proc_def Let_def)

lemma taken_sleep_enter: "taken (sleep_enter c pri s) = taken s"
  by (simp add: taken_def [abs_def] has_flag_def sleep_enter_def upd_proc_def Let_def)

lemma off_queue_change:
  assumes "queues_ok s" and "\<not> on_runq s p" "p_wchan (procs s p) = 0"
    and "procs s' = (procs s)(p := x)" "p_wchan x = 0" "slpque s' = slpque s" "runq s' = runq s"
  shows "queues_ok s'"
proof -
  obtain rq sq where q: "queues rq sq s" and all: "\<And>c p. c \<noteq> 0 \<Longrightarrow> asleep_on s c p \<Longrightarrow> p \<in> set (sq (hash c))"
    using assms(1) unfolding queues_ok_def by blast
  have nrq: "p \<notin> set rq" using assms(2) on_runq_queues [OF q] by simp
  have nsq: "p \<notin> set (sq h)" for h using q assms(3) by (auto simp: queues_def asleep_at_def)
  have l: "link s' = (link s)(p := p_link x)" by (rule ext) (simp add: link_def assms(4))
  have pr: "procs s' y = procs s y" if "y \<noteq> p" for y using that assms(4) by simp
  have "linked (link s') (slpque s' h) (sq h)" for h
    using q nsq unfolding l assms(6) by (simp add: queues_def linked_upd)
  moreover have "linked (link s') (runq s') rq" using q nrq unfolding l assms(7) by (simp add: queues_def linked_upd)
  moreover have "y < NPROC \<and> asleep_at h (procs s' y)" if "y \<in> set (sq h)" for y h
    using that nsq pr [of y] q by (cases "y = p") (auto simp: queues_def)
  moreover have "y < NPROC \<and> p_wchan (procs s' y) = 0" if "y \<in> set rq" for y
    using that nrq pr [of y] q by (cases "y = p") (auto simp: queues_def)
  ultimately have "queues rq sq s'" by (simp add: queues_def)
  moreover have "y \<in> set (sq (hash c))" if "c \<noteq> 0" "asleep_on s' c y" for c y
    using that all [of c y] pr [of y] assms(4,5) by (cases "y = p") (auto simp: asleep_on_def)
  ultimately show ?thesis unfolding queues_ok_def by blast
qed

lemma swtch_sleeping:
  assumes "queues_ok s"
  shows "\<exists>r s'. swtch s = Ok r s' \<and> queues_ok s' \<and> (\<forall>c x. asleep_on s' c x = asleep_on s c x)"
proof -
  obtain rq sq where q: "queues rq sq s" and all: "\<And>c p. c \<noteq> 0 \<Longrightarrow> asleep_on s c p \<Longrightarrow> p \<in> set (sq (hash c))"
    using assms(1) unfolding queues_ok_def by blast
  from q show ?thesis
  proof (cases rule: swtch_cases)
    case idle
    let ?s = "s\<lparr>runrun := 0\<rparr>"
    have same: "link ?s = link s" "slpque ?s = slpque s" "runq ?s = runq s"
      "\<And>x. p_wchan (procs ?s x) = p_wchan (procs s x)" "\<And>x. p_stat (procs ?s x) = p_stat (procs s x)"
      by (simp_all add: link_def fun_eq_iff)
    show ?thesis using idle(1) queues_ok_cong [OF assms same] by blast
  next
    case (switch as p bs s')
    have "p_wchan (procs s' x) = p_wchan (procs s x)" "p_stat (procs s' x) = p_stat (procs s x)" for x
      using switch(8) strip_eqD(1,2) [of "procs s' x" "if x = p then (procs s x)\<lparr>p_flag := p_flag (procs s x) AND NOT SSWAP\<rparr> else procs s x"]
      by (auto split: if_splits)
    then have a: "asleep_on s' c x = asleep_on s c x" for c x by (simp add: asleep_on_def)
    then have "queues_ok s'" using switch(5) all unfolding queues_ok_def by blast
    then show ?thesis using switch(4) a by blast
  qed
qed

text \<open>
  C31. A process that goes to sleep at a priority of at most \<open>PZERO\<close> sleeps whatever signals are pending.
  Above \<open>PZERO\<close>, if a signal that is not ignored is pending, it does not: it is running and on no queue, and the queues are as
  before. Otherwise (and if the swapper does not wait for a process to go to sleep) it is on the queue of its channel.
\<close>

theorem sleep_and_signals:
  fixes s :: "'z ust_scheme"
  assumes "queues_ok s" and "cur s < NPROC" "\<not> on_runq s (cur s)" "p_wchan (procs s (cur s)) = 0" and "c \<noteq> 0"
    and "runin s = 0 \<or> pri \<le> PZERO"
  shows "if pri > PZERO \<and> (\<exists>k \<in> pending (p_sig (procs s (cur s))). taken s k)
    then \<exists>s'. sleep c pri s = Ok Interrupted s' \<and> queues_ok s' \<and> p_stat (procs s' (cur s)) = SRUN \<and> slpque s' = slpque s \<and> runq s' = runq s
    else \<exists>r s'. sleep c pri s = Ok (Gave_up r) s' \<and> queues_ok s' \<and> asleep_on s' c (cur s)"
proof -
  let ?t = "sleep_enter c pri s" and ?P = "pending (p_sig (procs s (cur s)))"
  let ?A = "{k \<in> ?P. taken s k}"
  have t: "queues_ok ?t" "asleep_on ?t c (cur s)" by (rule sleep_enter_queues_ok [OF assms(1-5)])+
  have "card (pending (p_sig (procs ?t (cur ?t)))) \<le> NSIG"
    using card_pending [of "p_sig (procs ?t (cur ?t))"] by (simp add: NSIG_def)
  from issig_loop_answer [OF this] obtain w where
    "issig_loop NSIG ?t = Ok (if ?A = {} then 0 else Min ?A) (upd_proc (cur s) (\<lambda>x. x\<lparr>p_sig := w\<rparr>) ?t)"
    unfolding sleep_enter_same taken_sleep_enter Let_def by blast
  then have sig: "issig ?t = Ok (if ?A = {} then 0 else Min ?A) (upd_proc (cur s) (\<lambda>x. x\<lparr>p_sig := w\<rparr>) ?t)"
    by (simp only: issig_def)
  let ?u = "upd_proc (cur s) (\<lambda>x. x\<lparr>p_sig := w\<rparr>) ?t"
  have same: "link ?u = link ?t" "slpque ?u = slpque ?t" "runq ?u = runq ?t"
    "\<And>x. p_wchan (procs ?u x) = p_wchan (procs ?t x)" "\<And>x. p_stat (procs ?u x) = p_stat (procs ?t x)"
    by (auto simp: link_upd_proc link_def [abs_def] fun_eq_iff, simp_all add: upd_proc_def)
  have u: "queues_ok ?u" "asleep_on ?u c (cur s)" using queues_ok_cong [OF t(1) same] t(2) by blast+
  show ?thesis
  proof (cases "pri > PZERO")
    case False
    then show ?thesis using swtch_sleeping [OF t(1)] t(2) assms(5) by (auto simp: sleep_def Let_def)
  next
    case pri: True
    show ?thesis
    proof (cases "?A = {}")
      case True
      then have "issig ?t = Ok 0 ?u" using sig by simp
      moreover have "runin ?u = 0" using pri assms(6) by (simp add: upd_proc_def sleep_enter_same)
      ultimately show ?thesis using True swtch_sleeping [OF u(1)] u(2) assms(5) pri
        by (auto simp: sleep_def Let_def)
    next
      case False
      then have "Min ?A \<in> ?A" using Min_in [of ?A] by simp
      then have "Min ?A \<noteq> 0" using pending_range by blast
      then obtain m where sig: "issig ?t = Ok m ?u" and "m \<noteq> 0" using sig False by simp
      define v where "v = (upd_proc (cur s) (\<lambda>x. x\<lparr>p_wchan := 0, p_stat := SRUN\<rparr>) ?u)
          \<lparr>slpque := (slpque ?u)(hash c := p_link (procs ?u (cur s)))\<rparr>"
      have sl: "sleep c pri s = Ok Interrupted v"
        using pri sig \<open>m \<noteq> 0\<close> assms(5) by (simp add: sleep_def Let_def v_def)
      have pl: "p_link (procs ?u (cur s)) = slpque s (hash c)"
        by (simp add: upd_proc_def sleep_enter_def Let_def)
      have v: "slpque v = slpque s" "runq v = runq s" "p_wchan (procs v (cur s)) = 0" "p_stat (procs v (cur s)) = SRUN"
        "procs v = (procs s)(cur s := procs v (cur s))"
        unfolding v_def pl by (simp_all add: upd_proc_def sleep_enter_def Let_def fun_eq_iff)
      have "queues_ok v" by (rule off_queue_change [OF assms(1,3,4) v(5,3,1,2)])
      then show ?thesis using pri False sl v by auto
    qed
  qed
qed

section \<open>The effect of ageing\<close>

text \<open>The ageing of one process over several seconds in which it does not run.\<close>

primrec age_secs :: "nat \<Rightarrow> nat \<Rightarrow> 'z kst_scheme \<Rightarrow> (unit, 'z kst_scheme) kres" where
  "age_secs 0 p s = Ok () s"
| "age_secs (Suc n) p s = bnd (age_proc p s) (\<lambda>_ s. age_secs n p s)"

definition fade :: "int \<Rightarrow> int" where "fade c = c * 8 div 10"

lemma fade_bounds: "0 \<le> c \<Longrightarrow> 0 \<le> fade c \<and> fade c \<le> c"
  by (auto simp: fade_def)

lemma fade_mono: "a \<le> b \<Longrightarrow> fade a \<le> fade b"
  unfolding fade_def by (intro zdiv_mono1) auto

lemma fade_pow:
  assumes "0 \<le> c" "c \<le> 255"
  shows "(fade ^^ 21) c = 0"
proof -
  have "0 \<le> (fade ^^ n) c \<and> (fade ^^ n) c \<le> (fade ^^ n) 255" for n
    by (induction n) (use assms fade_bounds fade_mono in auto)
  moreover have "(fade ^^ 21) 255 = 0" by (simp add: fade_def numeral_eq_Suc)
  ultimately show ?thesis by (metis order_antisym)
qed

definition resting :: "proc \<Rightarrow> bool" where
  "resting x = (p_stat x \<noteq> 0 \<and> p_stat x < SZOMB \<and> sint (p_nice x) = NZERO \<and> p_clktim x = 0 \<and> sint (p_pri x) \<ge> PUSER)"

lemma decay_fade: "sint (p_nice x) = NZERO \<Longrightarrow> uint (decay x) = fade (uint (p_cpu x))"
proof -
  assume n: "sint (p_nice x) = NZERO"
  have "0 \<le> uint (p_cpu x)" "uint (p_cpu x) < 256" using uint_lt2p [of "p_cpu x"] by simp_all
  then have "0 \<le> fade (uint (p_cpu x))" "fade (uint (p_cpu x)) < 256" using fade_bounds [of "uint (p_cpu x)"] by auto
  then show ?thesis unfolding decay_def n fade_def [symmetric] by (simp add: Let_def uint_word_of_int)
qed

lemma age_proc_resting:
  assumes "resting (procs s p)"
  shows "\<exists>s'. age_proc p s = Ok () s' \<and> resting (procs s' p) \<and> uint (p_cpu (procs s' p)) = fade (uint (p_cpu (procs s p))) \<and>
     sint (p_pri (procs s' p)) = PUSER + fade (uint (p_cpu (procs s p))) div 16"
proof -
  define t where "t = upd_proc p (\<lambda>x. (if p_time x \<noteq> 127 then x\<lparr>p_time := p_time x + 1\<rparr> else x)\<lparr>p_cpu := decay x\<rparr>) s"
  have stat: "p_stat (procs s p) \<noteq> 0" "\<not> p_stat (procs s p) \<ge> SZOMB" using assms by (auto simp: resting_def)
  have eq: "age_proc p s = Ok () (snd (setpri p t))"
    using assms stat by (cases "p_time (procs s p) = 127") (simp_all add: age_proc_def resting_def Let_def t_def upd_proc_def decay_def)
  let ?v = "PUSER + fade (uint (p_cpu (procs s p))) div 16"
  have "uint (decay (procs s p)) = fade (uint (p_cpu (procs s p)))" using assms by (intro decay_fade) (simp add: resting_def)
  moreover have "0 \<le> fade (uint (p_cpu (procs s p)))" "fade (uint (p_cpu (procs s p))) < 256"
    using fade_bounds [of "uint (p_cpu (procs s p))"] uint_lt2p [of "p_cpu (procs s p)"] by auto
  ultimately have c: "uint (p_cpu (procs t p)) = fade (uint (p_cpu (procs s p)))" "50 \<le> ?v" "?v < 66"
    by (auto simp: t_def upd_proc_def PUSER_def)
  have n: "sint (p_nice (procs t p)) = NZERO" using assms by (simp add: t_def upd_proc_def resting_def)
  have "sint (word_of_int v :: u8) = v" if "50 \<le> v" "v < 66" for v
    using that by (simp add: sint_sbintrunc' signed_take_bit_int_eq_self)
  from this [OF c(2,3)] have "sint (word_of_int ?v :: u8) = ?v" .
  moreover have "procs (snd (setpri p t)) p = (procs t p)\<lparr>p_pri := word_of_int ?v\<rparr>"
    using c n by (simp add: setpri_def Let_def upd_proc_def NZERO_def)
  moreover have "p_stat (procs t p) = p_stat (procs s p)" "p_clktim (procs t p) = p_clktim (procs s p)"
    by (simp_all add: t_def upd_proc_def)
  ultimately show ?thesis using eq c n assms by (intro exI [of _ "snd (setpri p t)"]) (simp add: resting_def PUSER_def del: of_int_add)
qed

text \<open>
  No process is starved by its past: a process of the default nice value that does not get the processor for
  21 seconds is back at the base priority \<open>PUSER\<close> with no processor usage counted, whatever it used before.
\<close>

theorem usage_is_forgotten:
  assumes "resting (procs s p)"
  shows "\<exists>s'. age_secs 21 p s = Ok () s' \<and> p_cpu (procs s' p) = 0 \<and> sint (p_pri (procs s' p)) = PUSER"
proof -
  have run: "\<exists>s'. age_secs n p s = Ok () s' \<and> resting (procs s' p) \<and> uint (p_cpu (procs s' p)) = (fade ^^ n) (uint (p_cpu (procs s p))) \<and>
      (0 < n \<longrightarrow> sint (p_pri (procs s' p)) = PUSER + (fade ^^ n) (uint (p_cpu (procs s p))) div 16)" for n
    using assms
  proof (induction n arbitrary: s)
    case 0
    then show ?case by simp
  next
    case (Suc n)
    obtain t where t: "age_proc p s = Ok () t" "resting (procs t p)" "uint (p_cpu (procs t p)) = fade (uint (p_cpu (procs s p)))"
      "sint (p_pri (procs t p)) = PUSER + fade (uint (p_cpu (procs s p))) div 16"
      using age_proc_resting [OF Suc.prems] by blast
    from Suc.IH [OF t(2)] show ?case
      by (cases n) (use t in \<open>auto simp: funpow_swap1 simp del: funpow.simps simp add: funpow_simps_right\<close>)
  qed
  have "(fade ^^ 21) (uint (p_cpu (procs s p))) = 0"
    using uint_lt2p [of "p_cpu (procs s p)"] by (intro fade_pow) auto
  then show ?thesis using run [of 21] by (auto simp: uint_0_iff)
qed

theorem usage_is_forgotten_witness:
  "\<exists>s'. age_secs 21 3 (upd_proc 3 (\<lambda>x. x\<lparr>p_cpu := 200\<rparr>) demo_sched) = Ok () s' \<and> p_cpu (procs s' 3) = 0 \<and> sint (p_pri (procs s' 3)) = PUSER"
  by (rule usage_is_forgotten) (simp add: resting_def demo_sched_def demo_proc_def upd_proc_def NZERO_def PUSER_def)

text \<open>
  A user area for the witnesses: process 5 runs, signal 2 is pending for it and 1 is ignored and pending; the queues are those of
  \<^const>\<open>demo_sched\<close>.
\<close>

definition demo_uio :: uio where
  "demo_uio = \<lparr>u_base = 0, u_count = 0, u_offset = 0, u_segflg = 0, u_error = 0, u_mem = (\<lambda>_ _. None)\<rparr>"

definition demo_ust :: ust where
  "demo_ust = \<lparr>coremap = [], swapmap = [], runin = 0, sched_woken = False,
     procs = (procs demo_sched)(5 := (demo_proc 3 1 0 None)\<lparr>p_sig := 3, p_pid := 7, p_ppid := 1\<rparr>),
     slpque = slpque demo_sched, runq = runq demo_sched, cur = 5, runout = 1, runrun = 0, curpri = 50,
     console = [], a_runin = 34, a_runout = 32, a_lbolt = 36, a_proc = 1024,
     core = (\<lambda>_. []), swpd = (\<lambda>_. []), texts = (\<lambda>_. \<lparr>x_daddr = 0, x_caddr = 0, x_size = 0, x_iptr = None, x_count = 0, x_ccount = 0, x_flag = 0\<rparr>),
     a_text = 4096, mpid = 12, u_ofile = [], f_count = (\<lambda>_. 0), u_cdir = 1, u_rdir = None, i_count = (\<lambda>_. 1),
     io = demo_uio, u_signal = (\<lambda>_. 0)(1 := 1), u_uid = 3, u_gid = 1, u_ruid = 3, u_rgid = 1, r_val1 = 0, r_val2 = 0,
     u_tsize = 1, u_dsize = 2, u_ssize = 1, u_sep = 0, u_utime = 0, u_stime = 0, u_cutime = 0, u_cstime = 0, u_ar0 = (\<lambda>_. 0),
     u_prof = (0, 0, 0, 0), u_cmask = 0, u_acflag = 0, u_start = 0, a_u = 49152, time = 0, lbolt = 0, dk_busy = 0,
     dk_time = (\<lambda>_. 0), maxmem = 100, cputype = 70\<rparr>"

lemma demo_ust_queues: "queues_ok demo_ust" "\<not> on_runq demo_ust 5"
proof -
  have l: "link demo_ust = link demo_sched"
    by (rule ext) (simp add: link_def demo_ust_def demo_sched_def demo_proc_def)
  have pr: "x \<noteq> 5 \<Longrightarrow> procs demo_ust x = procs demo_sched x" and p5: "p_wchan (procs demo_ust 5) = 0" for x
    by (simp_all add: demo_ust_def demo_proc_def)
  have sq: "x \<in> set (demo_sq h) \<Longrightarrow> x \<noteq> 5" for x h by (auto simp: demo_sq_def split: if_splits)
  have "queues [4] demo_sq demo_ust"
    using demo_queues sq pr unfolding queues_def l by (auto simp: demo_ust_def)
  moreover have "x \<in> set (demo_sq (hash c))" if "c \<noteq> 0" "asleep_on demo_ust c x" for c x
    using that p5 by (auto simp: asleep_on_def demo_ust_def demo_sched_def demo_proc_def demo_sq_def split: if_splits)
  ultimately show "queues_ok demo_ust" "\<not> on_runq demo_ust 5"
    using on_runq_queues [of "[4]" demo_sq demo_ust 5] unfolding queues_ok_def by auto
qed

theorem sleep_and_signals_witness:
  "if (30 :: int) > PZERO \<and> (\<exists>k \<in> pending (p_sig (procs demo_ust (cur demo_ust))). taken demo_ust k)
    then \<exists>s'. sleep 96 30 demo_ust = Ok Interrupted s' \<and> queues_ok s' \<and> p_stat (procs s' (cur demo_ust)) = SRUN \<and>
      slpque s' = slpque demo_ust \<and> runq s' = runq demo_ust
    else \<exists>r s'. sleep 96 30 demo_ust = Ok (Gave_up r) s' \<and> queues_ok s' \<and> asleep_on s' 96 (cur demo_ust)"
proof (rule sleep_and_signals)
  have c: "cur demo_ust = 5" by (simp add: demo_ust_def)
  show "queues_ok demo_ust" "\<not> on_runq demo_ust (cur demo_ust)" unfolding c by (fact demo_ust_queues)+
qed (simp_all add: demo_ust_def demo_proc_def NPROC_def)


end
