(* ===== verification/Seg.thy ===== *)
theory Seg
  imports V7_Prelude
begin

text \<open>
  The prototype of the segmentation registers of a process (\<open>estabur\<close> and \<open>sureg\<close> of \<open>sys/ureg.c\<close>). The
  specification is the layout of the image of a process (\<open>image_click\<close>); the lemmas say what each loop of
  \<open>estabur\<close> writes into the tables and what the memory management makes of it, and the property is that the registers
  implement the layout.
\<close>

unbundle bit_operations_syntax

section \<open>The prototype of the segmentation registers\<close>

text \<open>
  The tables \<open>u_uisa\<close> and \<open>u_uisd\<close> of 16 address and descriptor registers (0 to 7 for instructions, 8 to 15
  for data) as functions of the index. A descriptor has the length of the segment less one in its high byte, or for a
  segment that extends downwards (\<open>ED\<close>) the first click that may be used; the bits of 06 say what access there
  is. \<open>TX\<close> and \<open>ABS\<close> are for the software.
\<close>

record segtab =
  u_uisa :: "nat \<Rightarrow> u16"
  u_uisd :: "nat \<Rightarrow> u16"

abbreviation (input) SEG_RO :: u16 where "SEG_RO \<equiv> 2"
abbreviation (input) SEG_RW :: u16 where "SEG_RW \<equiv> 6"
abbreviation (input) SEG_ED :: u16 where "SEG_ED \<equiv> 8"
abbreviation (input) SEG_TX :: u16 where "SEG_TX \<equiv> 16"
abbreviation (input) SEG_ABS :: u16 where "SEG_ABS \<equiv> 32"

definition USIZE :: u16 where "USIZE = 16"

definition ctos :: "u16 \<Rightarrow> u16" where "ctos x = (x + 127) div 128"

definition put_seg :: "nat \<Rightarrow> u16 \<Rightarrow> u16 \<Rightarrow> segtab \<Rightarrow> segtab" where
  "put_seg i a d t = \<lparr>u_uisa = (u_uisa t)(i := a), u_uisd = (u_uisd t)(i := d)\<rparr>"

text \<open>
  \<open>estabur\<close>. The loops for text and data differ only in the descriptor bits; the result is the pointer,
  the address and the clicks that are left for a last, shorter segment.
\<close>

fun est_run :: "u16 \<Rightarrow> nat \<Rightarrow> u16 \<Rightarrow> nat \<Rightarrow> segtab \<Rightarrow> nat \<times> u16 \<times> nat \<times> segtab" where
  "est_run fl i a n t =
     (if n \<ge> 128 then est_run fl (i + 1) (a + 128) (n - 128) (put_seg i a (push_bit 8 127 OR fl) t) else (i, a, n, t))"

declare est_run.simps [simp del]

definition est_last :: "u16 \<Rightarrow> nat \<times> u16 \<times> nat \<times> segtab \<Rightarrow> nat \<times> u16 \<times> segtab" where
  "est_last fl r = (case r of (i, a, n, t) \<Rightarrow>
     if n \<noteq> 0 then (i + 1, a + of_nat n, put_seg i a (push_bit 8 (of_nat n - 1) OR fl) t) else (i, a, t))"

definition est_zero :: "bool \<Rightarrow> nat \<Rightarrow> nat \<Rightarrow> segtab \<Rightarrow> segtab" where
  "est_zero all i m t =
     (let z = (\<lambda>j. i \<le> j \<and> j < m \<and> (all \<or> u_uisd t j AND SEG_ABS = 0))
      in \<lparr>u_uisa = (\<lambda>j. if z j then 0 else u_uisa t j), u_uisd = (\<lambda>j. if z j then 0 else u_uisd t j)\<rparr>)"

fun est_stack :: "nat \<Rightarrow> u16 \<Rightarrow> nat \<Rightarrow> segtab \<Rightarrow> segtab" where
  "est_stack i a n t =
     (if n \<ge> 128 then est_stack (i - 1) (a - 128) (n - 128) (put_seg (i - 1) (a - 128) (push_bit 8 127 OR SEG_RW) t)
      else if n \<noteq> 0 then put_seg (i - 1) (a - 128) (push_bit 8 (of_nat (128 - n)) OR SEG_RW OR SEG_ED) t
      else t)"

declare est_stack.simps [simp del]

definition est_both :: "segtab \<Rightarrow> segtab" where
  "est_both t = \<lparr>u_uisa = (\<lambda>j. if 8 \<le> j \<and> j < 16 then u_uisa t (j - 8) else u_uisa t j),
     u_uisd = (\<lambda>j. if 8 \<le> j \<and> j < 16 then u_uisd t (j - 8) else u_uisd t j)\<rparr>"

definition est_fits :: "u16 \<Rightarrow> u16 \<Rightarrow> u16 \<Rightarrow> u16 \<Rightarrow> u16 \<Rightarrow> bool \<Rightarrow> bool" where
  "est_fits cputyp maxm nt nd ns sep =
     ((if sep then cputyp \<noteq> 40 \<and> \<not> (ctos nt > 8 \<or> ctos nd + ctos ns > 8) else \<not> ctos nt + ctos nd + ctos ns > 8)
      \<and> \<not> nt + nd + ns + USIZE > maxm)"

definition est_tab :: "u16 \<Rightarrow> u16 \<Rightarrow> u16 \<Rightarrow> bool \<Rightarrow> u16 \<Rightarrow> segtab \<Rightarrow> segtab" where
  "est_tab nt nd ns sep xrw t =
     (let (i, _, t) = est_last (xrw OR SEG_TX) (est_run (xrw OR SEG_TX) 0 0 (unat nt) t);
          (i, t) = (if sep then (max i 8, est_zero True i 8 t) else (i, t));
          (i, a, t) = est_last SEG_RW (est_run SEG_RW i USIZE (unat nd) t);
          (i, t) = (max i 8, est_zero False i 8 t);
          (i, t) = (if sep then (max i 16, est_zero False i 16 t) else (i, t));
          t = est_stack i (a + ns) (unat ns) t
      in if sep then t else est_both t)"

definition estabur :: "u16 \<Rightarrow> u16 \<Rightarrow> u16 \<Rightarrow> u16 \<Rightarrow> u16 \<Rightarrow> bool \<Rightarrow> u16 \<Rightarrow> segtab \<Rightarrow> segtab option" where
  "estabur cputyp maxm nt nd ns sep xrw t =
     (if est_fits cputyp maxm nt nd ns sep then Some (est_tab nt nd ns sep xrw t) else None)"

text \<open>
  \<open>sureg\<close>: the registers of the machine from the prototype, for a text at \<open>taddr\<close> and an image at \<open>daddr\<close>;
  on the 11/40 only the first eight are loaded.
\<close>

definition sureg :: "u16 \<Rightarrow> u16 \<Rightarrow> u16 \<Rightarrow> segtab \<Rightarrow> segtab \<Rightarrow> segtab" where
  "sureg cputyp taddr daddr t hw =
     (let lim = (if cputyp = 40 then 8 else 16)
      in \<lparr>u_uisa = (\<lambda>j. if j < lim then u_uisa t j + (if u_uisd t j AND SEG_TX \<noteq> 0 then taddr
             else if u_uisd t j AND SEG_ABS \<noteq> 0 then 0 else daddr) else u_uisa hw j),
          u_uisd = (\<lambda>j. if j < lim then u_uisd t j else u_uisd hw j)\<rparr>)"


section \<open>Translating addresses\<close>

text \<open>
  What the memory management does with click \<open>v\<close> of a space whose registers start at \<open>base\<close>: the click in core, or
  \<^const>\<open>None\<close> for a segmentation fault.
\<close>

definition plf :: "u16 \<Rightarrow> nat" where
  "plf d = unat (drop_bit 8 d AND 127)"

definition xseg :: "segtab \<Rightarrow> nat \<Rightarrow> nat \<Rightarrow> u16 option" where
  "xseg hw j b =
     (let d = u_uisd hw j
      in if d AND 6 \<noteq> 0 \<and> (if bit d 3 then plf d \<le> b else b \<le> plf d) then Some (u_uisa hw j + of_nat b) else None)"

definition xlate :: "segtab \<Rightarrow> nat \<Rightarrow> nat \<Rightarrow> u16 option" where
  "xlate hw base v = xseg hw (base + v div 128) (v mod 128)"

definition descr :: "nat \<Rightarrow> u16 \<Rightarrow> u16" where
  "descr m fl = push_bit 8 (of_nat m) OR fl"

text \<open>\<open>runs i fl a n t t'\<close>: from register \<open>i\<close> on, \<open>t'\<close> describes \<open>n\<close> clicks from \<open>a\<close>, and agrees with \<open>t\<close> elsewhere.\<close>

definition segs :: "nat \<Rightarrow> nat" where "segs n = (n + 127) div 128"

definition runs :: "nat \<Rightarrow> u16 \<Rightarrow> u16 \<Rightarrow> nat \<Rightarrow> segtab \<Rightarrow> segtab \<Rightarrow> bool" where
  "runs i fl a n t t' \<longleftrightarrow> (\<forall>j. if i \<le> j \<and> j < i + segs n
     then u_uisa t' j = a + 128 * of_nat (j - i) \<and> u_uisd t' j = descr (min 127 (n - 128 * (j - i) - 1)) fl
     else u_uisa t' j = u_uisa t j \<and> u_uisd t' j = u_uisd t j)"

lemma segs_less: "n < 128 \<Longrightarrow> segs n = (if n = 0 then 0 else 1)"
  by (auto simp: segs_def)

lemma segs_ge: "128 \<le> n \<Longrightarrow> segs n = Suc (segs (n - 128))"
proof -
  assume "128 \<le> n"
  then have "n + 127 = (n - 128 + 127) + 128" by simp
  then show ?thesis unfolding segs_def by (metis Suc_eq_plus1 div_add_self2 numeral_neq_zero zero_neq_numeral)
qed

lemma est_run_step:
  "est_run fl i a n t = (if n \<ge> 128 then est_run fl (i + 1) (a + 128) (n - 128) (put_seg i a (push_bit 8 127 OR fl) t) else (i, a, n, t))"
  by (rule est_run.simps)

lemma runs_short:
  assumes "n < 128"
  shows "\<exists>t'. est_last fl (i, a, n, t) = (i + segs n, a + of_nat n, t') \<and> runs i fl a n t t'"
proof (cases "n = 0")
  case True
  then show ?thesis by (auto simp: est_last_def runs_def segs_def)
next
  case n0: False
  then have s: "segs n = 1" using segs_less [OF assms] by simp
  have w: "of_nat n - 1 = (of_nat (n - 1) :: u16)" "min 127 (n - Suc 0) = n - 1" using n0 assms by (auto simp: of_nat_diff)
  have "runs i fl a n t (put_seg i a (push_bit 8 (of_nat n - 1) OR fl) t)"
    unfolding runs_def s w(1) descr_def put_seg_def using w(2) by auto
  then show ?thesis using n0 s by (simp add: est_last_def)
qed

lemma runs_long:
  assumes n: "128 \<le> n" and r: "runs (i + 1) fl (a + 128) (n - 128) (put_seg i a (push_bit 8 127 OR fl) t) t'"
  shows "runs i fl a n t t'"
  unfolding runs_def
proof
  fix j
  let ?t = "put_seg i a (push_bit 8 127 OR fl) t"
  have r: "if i + 1 \<le> j \<and> j < i + 1 + segs (n - 128)
     then u_uisa t' j = a + 128 + 128 * of_nat (j - (i + 1)) \<and> u_uisd t' j = descr (min 127 (n - 128 - 128 * (j - (i + 1)) - 1)) fl
     else u_uisa t' j = u_uisa ?t j \<and> u_uisd t' j = u_uisd ?t j"
    using r unfolding runs_def by blast
  note s = segs_ge [OF n]
  show "if i \<le> j \<and> j < i + segs n then u_uisa t' j = a + 128 * of_nat (j - i) \<and> u_uisd t' j = descr (min 127 (n - 128 * (j - i) - 1)) fl
     else u_uisa t' j = u_uisa t j \<and> u_uisd t' j = u_uisd t j"
  proof (cases "j = i")
    case True
    then show ?thesis using r n s by (simp add: put_seg_def descr_def)
  next
    case False
    show ?thesis
    proof (cases "i + 1 \<le> j \<and> j < i + 1 + segs (n - 128)")
      case True
      then obtain k where k: "j = i + 1 + k" by (metis le_Suc_ex)
      have "n - 128 - 128 * (j - (i + 1)) - 1 = n - 128 * (j - i) - 1" "(a :: u16) + 128 + 128 * of_nat (j - (i + 1)) = a + 128 * of_nat (j - i)"
        unfolding k by (simp_all add: algebra_simps)
      then show ?thesis using r True s by simp
    next
      case out: False
      then show ?thesis using r False s by (auto simp: put_seg_def)
    qed
  qed
qed

lemma est_run_last:
  "\<exists>t'. est_last fl (est_run fl i a n t) = (i + segs n, a + of_nat n, t') \<and> runs i fl a n t t'"
proof (induction n arbitrary: i a t rule: less_induct)
  case (less n)
  show ?case
  proof (cases "128 \<le> n")
    case False
    then have "est_run fl i a n t = (i, a, n, t)" by (subst est_run_step) simp
    then show ?thesis using runs_short [of n] False by simp
  next
    case True
    let ?t = "put_seg i a (push_bit 8 127 OR fl) t"
    have "est_run fl i a n t = est_run fl (i + 1) (a + 128) (n - 128) ?t"
      using True by (subst est_run_step) simp
    moreover have "n - 128 < n" using True by simp
    from less.IH [OF this, of "i + 1" "a + 128" ?t] obtain t' where
      "est_last fl (est_run fl (i + 1) (a + 128) (n - 128) ?t) = (i + 1 + segs (n - 128), a + 128 + of_nat (n - 128), t')"
      "runs (i + 1) fl (a + 128) (n - 128) ?t t'" by blast
    moreover have "i + 1 + segs (n - 128) = i + segs n" using segs_ge [OF True] by simp
    moreover have "a + 128 + of_nat (n - 128) = a + of_nat n" using True by (simp add: of_nat_diff)
    ultimately show ?thesis using runs_long [OF True] by metis
  qed
qed

text \<open>The stack: \<open>n\<close> clicks below the address \<open>a\<close>, in the registers below \<open>i\<close>.\<close>

definition stack_runs :: "nat \<Rightarrow> u16 \<Rightarrow> nat \<Rightarrow> segtab \<Rightarrow> segtab \<Rightarrow> bool" where
  "stack_runs i a n t t' \<longleftrightarrow> (\<forall>j. if i - segs n \<le> j \<and> j < i
     then u_uisa t' j = a - 128 * of_nat (i - j) \<and>
       u_uisd t' j = (if n \<ge> 128 * (i - j) then descr 127 SEG_RW else descr (128 * (i - j) - n) (SEG_RW OR SEG_ED))
     else u_uisa t' j = u_uisa t j \<and> u_uisd t' j = u_uisd t j)"

lemma est_stack_step:
  "est_stack i a n t =
     (if n \<ge> 128 then est_stack (i - 1) (a - 128) (n - 128) (put_seg (i - 1) (a - 128) (push_bit 8 127 OR SEG_RW) t)
      else if n \<noteq> 0 then put_seg (i - 1) (a - 128) (push_bit 8 (of_nat (128 - n)) OR SEG_RW OR SEG_ED) t
      else t)"
  by (rule est_stack.simps)

lemma stack_runs_short:
  assumes "n < 128" "segs n \<le> i"
  shows "stack_runs i a n t (est_stack i a n t)"
proof (cases "n = 0")
  case True
  then have "est_stack i a n t = t" by (subst est_stack_step) simp
  then show ?thesis using True by (auto simp: stack_runs_def segs_def)
next
  case n0: False
  then have s: "segs n = 1" using segs_less [OF assms(1)] by simp
  then have i: "0 < i" using assms(2) by simp
  have e: "est_stack i a n t = put_seg (i - 1) (a - 128) (descr (128 - n) (SEG_RW OR SEG_ED)) t"
    using n0 assms(1) by (subst est_stack_step) (simp add: descr_def)
  show ?thesis unfolding stack_runs_def e s
  proof
    fix j
    show "if i - 1 \<le> j \<and> j < i
      then u_uisa (put_seg (i - 1) (a - 128) (descr (128 - n) (SEG_RW OR SEG_ED)) t) j = a - 128 * of_nat (i - j) \<and>
         u_uisd (put_seg (i - 1) (a - 128) (descr (128 - n) (SEG_RW OR SEG_ED)) t) j =
           (if n \<ge> 128 * (i - j) then descr 127 SEG_RW else descr (128 * (i - j) - n) (SEG_RW OR SEG_ED))
      else u_uisa (put_seg (i - 1) (a - 128) (descr (128 - n) (SEG_RW OR SEG_ED)) t) j = u_uisa t j \<and>
         u_uisd (put_seg (i - 1) (a - 128) (descr (128 - n) (SEG_RW OR SEG_ED)) t) j = u_uisd t j"
    proof (cases "j = i - 1")
      case True
      then have "i - j = 1" using i by simp
      then show ?thesis using True i assms(1) by (simp add: put_seg_def)
    next
      case False
      then show ?thesis by (auto simp: put_seg_def)
    qed
  qed
qed

lemma stack_runs_long:
  assumes n: "128 \<le> n" "segs n \<le> i" and r: "stack_runs (i - 1) (a - 128) (n - 128) (put_seg (i - 1) (a - 128) (push_bit 8 127 OR SEG_RW) t) t'"
  shows "stack_runs i a n t t'"
  unfolding stack_runs_def
proof
  fix j
  let ?t = "put_seg (i - 1) (a - 128) (push_bit 8 127 OR SEG_RW) t"
  have r: "if i - 1 - segs (n - 128) \<le> j \<and> j < i - 1
     then u_uisa t' j = a - 128 - 128 * of_nat (i - 1 - j) \<and>
       u_uisd t' j = (if n - 128 \<ge> 128 * (i - 1 - j) then descr 127 SEG_RW else descr (128 * (i - 1 - j) - (n - 128)) (SEG_RW OR SEG_ED))
     else u_uisa t' j = u_uisa ?t j \<and> u_uisd t' j = u_uisd ?t j"
    using r unfolding stack_runs_def by blast
  note s = segs_ge [OF n(1)]
  have i: "0 < i" using n(2) s by simp
  have lo: "i - 1 - segs (n - 128) = i - segs n" using s by simp
  show "if i - segs n \<le> j \<and> j < i
     then u_uisa t' j = a - 128 * of_nat (i - j) \<and>
       u_uisd t' j = (if n \<ge> 128 * (i - j) then descr 127 SEG_RW else descr (128 * (i - j) - n) (SEG_RW OR SEG_ED))
     else u_uisa t' j = u_uisa t j \<and> u_uisd t' j = u_uisd t j"
  proof (cases "j = i - 1")
    case True
    then have ij: "i - j = 1" "u_uisa t' j = u_uisa ?t j \<and> u_uisd t' j = u_uisd ?t j" using i r by auto
    have "i - segs n \<le> j \<and> j < i" using True i s by simp
    then show ?thesis using ij True i n(1) by (simp add: put_seg_def descr_def)
  next
    case False
    show ?thesis
    proof (cases "i - segs n \<le> j \<and> j < i - 1")
      case True
      then obtain k where k: "i = Suc (j + k)" by (metis Suc_pred' add_Suc_right i le_add_diff_inverse less_imp_le_nat)
      have "(a :: u16) - 128 - 128 * of_nat (i - 1 - j) = a - 128 * of_nat (i - j)" unfolding k by (simp add: algebra_simps)
      moreover have "(n - 128 \<ge> 128 * (i - 1 - j)) = (n \<ge> 128 * (i - j))" "128 * (i - 1 - j) - (n - 128) = 128 * (i - j) - n"
        unfolding k using n(1) by auto
      ultimately show ?thesis using r True unfolding lo by auto
    next
      case out: False
      then show ?thesis using r False i unfolding lo by (auto simp: put_seg_def)
    qed
  qed
qed

lemma est_stack_runs: "segs n \<le> i \<Longrightarrow> stack_runs i a n t (est_stack i a n t)"
proof (induction n arbitrary: i a t rule: less_induct)
  case (less n)
  show ?case
  proof (cases "128 \<le> n")
    case False
    then show ?thesis using stack_runs_short less.prems by simp
  next
    case True
    let ?t = "put_seg (i - 1) (a - 128) (push_bit 8 127 OR SEG_RW) t"
    have e: "est_stack i a n t = est_stack (i - 1) (a - 128) (n - 128) ?t" using True by (subst est_stack_step) simp
    have "n - 128 < n" "segs (n - 128) \<le> i - 1" using True segs_ge [OF True] less.prems by auto
    from less.IH [OF this] show ?thesis unfolding e by (rule stack_runs_long [OF True less.prems])
  qed
qed

section \<open>Descriptors\<close>

lemma bits_less:
  assumes "\<forall>k \<in> set [0..<16]. bit (w :: u16) k = P k" and "\<forall>k. P k \<longrightarrow> k < 16"
  shows "bit w k = P k"
  using assms bit_imp_le_length [of w k] by auto

lemma bit_consts:
  "bit (6 :: u16) k = (k \<in> {1, 2})" "bit (14 :: u16) k = (k \<in> {1, 2, 3})" "bit (18 :: u16) k = (k \<in> {1, 4})"
  "bit (22 :: u16) k = (k \<in> {1, 2, 4})" "bit (16 :: u16) k = (k = 4)" "bit (32 :: u16) k = (k = 5)" "bit (127 :: u16) k = (k < 7)"
  by (rule bits_less; simp add: upt_rec)+

lemma descr_facts:
  assumes "m < 128"
  shows "plf (descr m 6) = m" "plf (descr m 14) = m" "plf (descr m 18) = m" "plf (descr m 22) = m"
proof -
  have "drop_bit 8 (push_bit 8 w OR f) AND 127 = w AND 127" if "f \<in> {6, 14, 18, 22}" for w f :: u16
    using that by (intro bit_word_eqI, elim insertE emptyE)
      (simp_all only: bit_push_bit_iff bit_drop_bit_eq bit_and_iff bit_or_iff bit_consts o_apply, auto)
  moreover have "unat ((of_nat m :: u16) AND 127) = m"
  proof -
    have "(of_nat m :: u16) AND 127 = of_nat m AND mask 7" by (simp add: mask_eq_exp_minus_1)
    also have "unat \<dots> = m" using assms by (simp add: take_bit_eq_mask [symmetric] unsigned_take_bit_eq unat_of_nat take_bit_nat_eq_self)
    finally show ?thesis .
  qed
  ultimately have "plf (descr m f) = m" if "f \<in> {6, 14, 18, 22}" for f
    using that by (simp only: plf_def descr_def)
  then show "plf (descr m 6) = m" "plf (descr m 14) = m" "plf (descr m 18) = m" "plf (descr m 22) = m" by blast+
qed

lemma descr_bits [simp]:
  "\<not> bit (descr m 6) 3" "bit (descr m 14) 3" "\<not> bit (descr m 18) 3" "\<not> bit (descr m 22) 3"
  by (simp_all add: descr_def bit_simps)

lemma descr_access [simp]:
  "descr m 6 AND 6 \<noteq> 0" "descr m 14 AND 6 \<noteq> 0" "descr m 18 AND 6 \<noteq> 0" "descr m 22 AND 6 \<noteq> 0"
proof -
  have "x \<noteq> 0" if "bit (x :: u16) 1" for x using that by auto
  then show "descr m 6 AND 6 \<noteq> 0" "descr m 14 AND 6 \<noteq> 0" "descr m 18 AND 6 \<noteq> 0" "descr m 22 AND 6 \<noteq> 0"
    by (simp_all add: descr_def bit_simps)
qed

lemma descr_text [simp]:
  "descr m 6 AND 16 = 0" "descr m 14 AND 16 = 0" "descr m 18 AND 16 \<noteq> 0" "descr m 22 AND 16 \<noteq> 0"
  "descr m 6 AND 32 = 0" "descr m 14 AND 32 = 0" "descr m 18 AND 32 = 0" "descr m 22 AND 32 = 0"
proof -
  have "x \<noteq> 0" if "bit (x :: u16) 4" for x using that by auto
  then show "descr m 18 AND 16 \<noteq> 0" "descr m 22 AND 16 \<noteq> 0"
    by (simp_all add: descr_def bit_simps)
  show "descr m 6 AND 16 = 0" "descr m 14 AND 16 = 0" "descr m 6 AND 32 = 0" "descr m 14 AND 32 = 0" "descr m 18 AND 32 = 0" "descr m 22 AND 32 = 0"
    by (intro bit_word_eqI, simp only: descr_def bit_push_bit_iff bit_and_iff bit_or_iff bit_consts, force)+
qed

lemma xseg_up:
  assumes "fl \<in> {6, 18, 22}" and "u_uisa T j = a" and "u_uisd T j = descr (min 127 (n - 1)) fl" and "0 < n" and "b < 128"
  shows "xseg T j b = (if b < n then Some (a + of_nat b) else None)"
proof -
  obtain m where m: "m = min 127 (n - 1)" "m < 128" by simp
  have le: "b \<le> m \<longleftrightarrow> b < n" using assms(4,5) m(1) by auto
  have d: "u_uisd T j = descr m fl" using assms(3) m(1) by simp
  from assms(1) show ?thesis unfolding xseg_def d assms(2) Let_def
    by (elim insertE emptyE) (simp_all only: descr_facts [OF m(2)] descr_bits descr_access le not_False_eq_True simp_thms if_False if_True)
qed

lemma xseg_none: "u_uisd T j = 0 \<Longrightarrow> xseg T j b = None"
  by (simp add: xseg_def)

lemma runs_xseg:
  assumes "runs i fl a n t t'" and "fl \<in> {6, 18, 22}" and "i \<le> j" "j < i + segs n" "b < 128"
  shows "xseg t' j b = (let v = 128 * (j - i) + b in if v < n then Some (a + of_nat v) else None)"
proof -
  have r: "u_uisa t' j = a + 128 * of_nat (j - i)" "u_uisd t' j = descr (min 127 (n - 128 * (j - i) - 1)) fl"
    using assms(1,3,4) unfolding runs_def by auto
  have "0 < n - 128 * (j - i)" using assms(3,4) by (auto simp: segs_def)
  moreover obtain k where k: "j - i = k" by simp
  ultimately show ?thesis using xseg_up [OF assms(2) r _ assms(5)] unfolding k by (simp add: Let_def add.assoc less_diff_conv2 less_diff_conv add.commute)
qed

lemma stack_runs_xseg:
  assumes "stack_runs i a n t t'" and "i - segs n \<le> j" "j < i" "b < 128" and "segs n \<le> i"
  shows "xseg t' j b = (let k = 128 * (i - j) - b in if k \<le> n then Some (a - of_nat k) else None)"
proof -
  have r: "u_uisa t' j = a - 128 * of_nat (i - j)"
    "u_uisd t' j = (if n \<ge> 128 * (i - j) then descr 127 6 else descr (128 * (i - j) - n) 14)"
    using assms(1-3) unfolding stack_runs_def by (auto simp: bit_or_iff)
  have le: "b \<le> 128 * (i - j)" using assms(3,4) by simp
  have k: "(a :: u16) - of_nat (128 * (i - j) - b) = a - 128 * of_nat (i - j) + of_nat b"
    using of_nat_diff [OF le, where 'a = u16] by simp
  show ?thesis
  proof (cases "n \<ge> 128 * (i - j)")
    case True
    then show ?thesis using r k descr_facts(1) [of 127] assms(4) by (simp add: xseg_def Let_def)
  next
    case False
    have "128 * (i - j) < n + 128"
    proof -
      have "128 * segs n < n + 128" by (simp add: segs_def)
      moreover have "i - j \<le> segs n" using assms(2) by simp
      ultimately show ?thesis by (meson le_less_trans mult_le_mono2)
    qed
    then have "128 * (i - j) - n < 128" using False by simp
    then show ?thesis using r k descr_facts(2) False by (auto simp: xseg_def Let_def)
  qed
qed

definition no_abs :: "segtab \<Rightarrow> bool" where
  "no_abs t = (\<forall>j. u_uisd t j AND SEG_ABS = 0)"

text \<open>The part of \<open>estabur\<close> that describes data and stack in the registers from \<open>i\<close> up to \<open>L\<close>.\<close>

lemma est_image:
  assumes "i + segs nd + segs ns \<le> L" and "no_abs t" and "est_last SEG_RW (est_run SEG_RW i USIZE nd t) = (i2, a, t2)"
  defines "T \<equiv> est_stack L (a + of_nat ns) ns (est_zero False i2 L t2)"
  shows "i2 = i + segs nd" and "j < i \<Longrightarrow> u_uisa T j = u_uisa t j \<and> u_uisd T j = u_uisd t j"
    and "i \<le> j \<Longrightarrow> j < L \<Longrightarrow> b < 128 \<Longrightarrow> xseg T j b =
      (let v = 128 * (j - i) + b; k = 128 * (L - j) - b in
       if v < nd then Some (USIZE + of_nat v) else if k \<le> ns then Some (USIZE + of_nat nd + of_nat ns - of_nat k) else None)"
    and "i \<le> j \<Longrightarrow> j < L \<Longrightarrow> u_uisd T j AND SEG_TX = 0"
    and "i \<le> j \<Longrightarrow> j < L \<Longrightarrow> u_uisd T j AND SEG_ABS = 0"
proof -
  obtain u where "est_last SEG_RW (est_run SEG_RW i USIZE nd t) = (i + segs nd, USIZE + of_nat nd, u)" "runs i SEG_RW USIZE nd t u"
    using est_run_last by blast
  then have u: "i2 = i + segs nd" "a = USIZE + of_nat nd" "runs i 6 USIZE nd t t2" using assms(3) by auto
  let ?z = "est_zero False i2 L t2"
  have st: "stack_runs L (a + of_nat ns) ns ?z T" unfolding T_def by (rule est_stack_runs) (use assms(1) in simp)
  have z: "j < i2 \<Longrightarrow> u_uisa ?z j = u_uisa t2 j \<and> u_uisd ?z j = u_uisd t2 j" for j by (simp add: est_zero_def)
  have zz: "i2 \<le> j \<Longrightarrow> j < L \<Longrightarrow> u_uisd ?z j = 0" for j
  proof -
    assume "i2 \<le> j" "j < L"
    then have "u_uisd t2 j = u_uisd t j" using u(1,3) unfolding runs_def by (auto dest: spec [of _ j])
    then show ?thesis using assms(2) \<open>i2 \<le> j\<close> \<open>j < L\<close> by (simp add: est_zero_def no_abs_def)
  qed
  have below: "u_uisa T j = u_uisa ?z j \<and> u_uisd T j = u_uisd ?z j" if "j < L - segs ns" for j
    using st that unfolding stack_runs_def by (auto dest: spec [of _ j])
  have ord: "i2 \<le> L - segs ns" using u(1) assms(1) by simp
  show "i2 = i + segs nd" by fact
  show "u_uisa T j = u_uisa t j \<and> u_uisd T j = u_uisd t j" if "j < i"
  proof -
    have "u_uisa t2 j = u_uisa t j \<and> u_uisd t2 j = u_uisd t j" using u(3) that unfolding runs_def by (auto dest: spec [of _ j])
    then show ?thesis using below [of j] z [of j] that u(1) ord by simp
  qed
  have cases: "(j < i2 \<and> xseg T j b = xseg t2 j b \<and> u_uisd T j = u_uisd t2 j) \<or> (i2 \<le> j \<and> j < L - segs ns \<and> u_uisd T j = 0) \<or> L - segs ns \<le> j"
    for j b using below [of j] z [of j] zz [of j] ord by (cases "j < i2"; cases "j < L - segs ns") (auto simp: xseg_def Let_def)
  have d: "128 * k < nd + 128 \<Longrightarrow> k \<le> segs nd" for k by (simp add: segs_def)
  have nod: "\<not> 128 * (j - i) + b < nd" if "i2 \<le> j" "i \<le> j" for j b
    using that u(1) by (auto simp: segs_def)
  have nos: "\<not> 128 * (L - j) - b \<le> ns" if "j < L - segs ns" "b < 128" for j b
    using that by (auto simp: segs_def)
  show "xseg T j b = (let v = 128 * (j - i) + b; k = 128 * (L - j) - b in
       if v < nd then Some (USIZE + of_nat v) else if k \<le> ns then Some (USIZE + of_nat nd + of_nat ns - of_nat k) else None)"
    if "i \<le> j" "j < L" "b < 128"
    using cases [of j b]
  proof (elim disjE conjE)
    assume "j < i2" "xseg T j b = xseg t2 j b"
    then show ?thesis using runs_xseg [OF u(3) _ that(1) _ that(3)] u(1) nos [of j b] ord that(3) by (simp add: Let_def)
  next
    assume "i2 \<le> j" "j < L - segs ns" "u_uisd T j = 0"
    then show ?thesis using nod [of j b] nos [of j b] that by (simp add: xseg_none Let_def)
  next
    assume hi: "L - segs ns \<le> j"
    have "segs ns \<le> L" using assms(1) by simp
    from stack_runs_xseg [OF st hi that(2,3) this] show ?thesis
      using nod [of j b] that ord hi unfolding u(2) by (simp add: Let_def)
  qed
  have stx: "u_uisd T j AND 16 = 0 \<and> u_uisd T j AND 32 = 0" if "L - segs ns \<le> j" "j < L" for j
    using st that unfolding stack_runs_def by (auto dest: spec [of _ j])
  have dtx: "u_uisd t2 j AND 16 = 0 \<and> u_uisd t2 j AND 32 = 0" if "i \<le> j" "j < i2" for j
    using u(1,3) that unfolding runs_def by (auto dest: spec [of _ j])
  show "u_uisd T j AND SEG_TX = 0" "u_uisd T j AND SEG_ABS = 0" if "i \<le> j" "j < L"
    using cases [of j 0] stx [of j] dtx [of j] that by auto
qed

section \<open>The image of a process\<close>

text \<open>
  The layout that \<open>estabur\<close> promises: the text at the bottom of the space, the data from the next multiple of
  128 clicks on, the stack below the top; in core the text is at \<open>ta\<close>, and the image of the process at \<open>da\<close> has the
  user area, the data and the stack one after the other. The numbers are in clicks.
\<close>

definition image_click :: "u16 \<Rightarrow> u16 \<Rightarrow> nat \<Rightarrow> nat \<Rightarrow> nat \<Rightarrow> nat \<Rightarrow> u16 option" where
  "image_click ta da nt nd ns v =
     (let d = 128 * segs nt in
      if v < nt then Some (ta + of_nat v)
      else if d \<le> v \<and> v < d + nd then Some (da + USIZE + of_nat (v - d))
      else if 1024 - v \<le> ns then Some (da + USIZE + of_nat nd + of_nat ns - of_nat (1024 - v))
      else None)"

lemma unat_plus_small: "unat (a :: u16) + unat b < 65536 \<Longrightarrow> unat (a + b) = unat a + unat b"
  by (simp add: unat_word_ariths)

lemma ctos_segs: "unat x \<le> 1024 \<Longrightarrow> unat (ctos x) = segs (unat x)"
  by (simp add: ctos_def segs_def unat_div unat_plus_small)

lemma segs_le: "n \<le> 1024 \<Longrightarrow> segs n \<le> 8"
  by (simp add: segs_def)

lemma est_fits_segs:
  assumes "est_fits c m nt nd ns sep" and "unat nt \<le> 1024" "unat nd \<le> 1024" "unat ns \<le> 1024"
  shows "if sep then segs (unat nt) \<le> 8 \<and> segs (unat nd) + segs (unat ns) \<le> 8
     else segs (unat nt) + segs (unat nd) + segs (unat ns) \<le> 8"
proof -
  note c = ctos_segs [OF assms(2)] ctos_segs [OF assms(3)] ctos_segs [OF assms(4)]
  note l = segs_le [OF assms(2)] segs_le [OF assms(3)] segs_le [OF assms(4)]
  have "unat (ctos nt + ctos nd) = segs (unat nt) + segs (unat nd)"
    "unat (ctos nd + ctos ns) = segs (unat nd) + segs (unat ns)"
    using c l by (simp_all add: unat_plus_small)
  moreover have "unat (ctos nt + ctos nd + ctos ns) = segs (unat nt) + segs (unat nd) + segs (unat ns)"
    using c l calculation by (simp add: unat_plus_small)
  ultimately show ?thesis using assms(1) c unfolding est_fits_def word_less_nat_alt by (auto split: if_splits)
qed

lemma sureg_xseg:
  assumes "c \<noteq> 40" "j < 16" and "u_uisd t j AND SEG_ABS = 0"
  shows "xseg (sureg c ta da t hw) j b = map_option (\<lambda>x. (if u_uisd t j AND SEG_TX \<noteq> 0 then ta else da) + x) (xseg t j b)"
  using assms by (simp add: xseg_def sureg_def Let_def add.commute add.left_commute)

text \<open>A text of \<open>n\<close> clicks in registers 0 to 7.\<close>

lemma runs_text:
  assumes "runs 0 fl 0 n t t'" and "fl \<in> {18, 22}" and "j < segs n"
  shows "b < 128 \<Longrightarrow> xseg t' j b = (if 128 * j + b < n then Some (of_nat (128 * j + b)) else None)"
    and "u_uisd t' j AND SEG_TX \<noteq> 0" and "u_uisd t' j AND SEG_ABS = 0"
proof -
  show "b < 128 \<Longrightarrow> xseg t' j b = (if 128 * j + b < n then Some (of_nat (128 * j + b)) else None)"
    using runs_xseg [OF assms(1), of j b] assms(2,3) by (auto simp: Let_def)
  have "u_uisd t' j = descr (min 127 (n - 128 * j - 1)) fl" using assms(1,3) unfolding runs_def by (auto dest: spec [of _ j])
  then show "u_uisd t' j AND SEG_TX \<noteq> 0" "u_uisd t' j AND SEG_ABS = 0" using assms(2) by auto
qed

lemma runs_no_abs:
  assumes "runs i fl a n t t'" "fl \<in> {6, 18, 22}" "no_abs t"
  shows "no_abs t'"
  unfolding no_abs_def
proof
  fix j show "u_uisd t' j AND SEG_ABS = 0"
    using assms unfolding runs_def no_abs_def by (cases "i \<le> j \<and> j < i + segs n") (auto dest!: spec [of _ j])
qed

lemma est_zero_no_abs: "no_abs t \<Longrightarrow> no_abs (est_zero al i m t)"
  by (simp add: no_abs_def est_zero_def)

lemma est_zero_none: "m \<le> i \<Longrightarrow> est_zero al i m t = t"
  by (cases t) (auto simp: est_zero_def Let_def fun_eq_iff)

lemma image_text_part:
  assumes "v < 1024" "v div 128 < segs nt" "segs nt + segs ns \<le> 8"
  shows "image_click ta da nt nd ns v = (if v < nt then Some (ta + of_nat v) else None)"
proof -
  have "v < 128 * segs nt" using assms(2) by (simp add: less_mult_imp_div_less div_less_iff_less_mult mult.commute)
  moreover have "\<not> 1024 - v \<le> ns"
  proof -
    have "ns \<le> 128 * segs ns" by (simp add: segs_def)
    moreover have "128 * segs nt + 128 * segs ns \<le> 1024" using assms(3) by simp
    ultimately show ?thesis using \<open>v < 128 * segs nt\<close> by linarith
  qed
  ultimately show ?thesis by (simp add: image_click_def Let_def)
qed

lemma image_data_part:
  assumes "v < 1024" "segs nt \<le> v div 128"
  shows "image_click ta da nt nd ns v = map_option (\<lambda>x. da + x) (let w = v - 128 * segs nt; k = 1024 - v in
       if w < nd then Some (USIZE + of_nat w) else if k \<le> ns then Some (USIZE + of_nat nd + of_nat ns - of_nat k) else None)"
proof -
  have d: "128 * segs nt \<le> v" using assms(2) by (simp add: less_eq_div_iff_mult_less_eq mult.commute)
  moreover have "nt \<le> 128 * segs nt" by (simp add: segs_def)
  ultimately show ?thesis by (auto simp: image_click_def Let_def algebra_simps)
qed

lemma div_mod_128:
  assumes "v < (1024 :: nat)"
  shows "v div 128 < 8" "v mod 128 < 128" "128 * (v div 128) + v mod 128 = v"
    "i \<le> v div 128 \<Longrightarrow> 128 * (v div 128 - i) + v mod 128 = v - 128 * i"
    "128 * (8 - v div 128) - v mod 128 = 1024 - v"
proof -
  have e: "128 * (v div 128) + v mod 128 = v" by simp
  show "v div 128 < 8" "v mod 128 < 128" "128 * (v div 128) + v mod 128 = v" using assms by auto
  show "i \<le> v div 128 \<Longrightarrow> 128 * (v div 128 - i) + v mod 128 = v - 128 * i"
    using e by (simp add: diff_mult_distrib2)
  show "128 * (8 - v div 128) - v mod 128 = 1024 - v" using e assms by (simp add: diff_mult_distrib2)
qed

lemma est_both_seg:
  "j < 8 \<Longrightarrow> u_uisa (est_both T) j = u_uisa T j \<and> u_uisd (est_both T) j = u_uisd T j"
  "j < 8 \<Longrightarrow> u_uisa (est_both T) (8 + j) = u_uisa T j \<and> u_uisd (est_both T) (8 + j) = u_uisd T j"
  by (simp_all add: est_both_def)

lemma xseg_cong: "u_uisa t j = u_uisa t' k \<Longrightarrow> u_uisd t j = u_uisd t' k \<Longrightarrow> xseg t j b = xseg t' k b"
  by (simp add: xseg_def Let_def)

lemma xlate_cong:
  assumes "c \<noteq> 40" "base = 0 \<or> base = 8" "v < 1024" "j = v div 128"
    and "u_uisa t (base + j) = u_uisa T k" "u_uisd t (base + j) = u_uisd T k" "u_uisd T k AND SEG_ABS = 0"
  shows "xlate (sureg c ta da t hw) base v = map_option (\<lambda>x. (if u_uisd T k AND SEG_TX \<noteq> 0 then ta else da) + x) (xseg T k (v mod 128))"
proof -
  have "base + j < 16" using assms(2-4) div_mod_128(1) [OF assms(3)] by auto
  then show ?thesis unfolding xlate_def assms(4) [symmetric]
    using assms(6,7) sureg_xseg [OF assms(1), of "base + j" t] xseg_cong [OF assms(5,6)] by simp
qed

lemma est_tab_joint:
  assumes fl: "xrw = 2 \<or> xrw = 6" and abs: "no_abs t" and v: "v < 1024"
    and fit: "segs (unat nt) + segs (unat nd) + segs (unat ns) \<le> 8" and c: "c \<noteq> 40" and base: "base = 0 \<or> base = 8"
  shows "xlate (sureg c ta da (est_tab nt nd ns False xrw t) hw) base v = image_click ta da (unat nt) (unat nd) (unat ns) v"
proof -
  let ?fl = "xrw OR 16" and ?i = "segs (unat nt)" and ?j = "v div 128" and ?b = "v mod 128"
  have fl: "?fl \<in> {18, 22}" using fl by auto
  obtain t1 where t1: "est_last ?fl (est_run ?fl 0 0 (unat nt) t) = (0 + ?i, 0 + of_nat (unat nt), t1)" "runs 0 ?fl 0 (unat nt) t t1"
    using est_run_last by blast
  have abs1: "no_abs t1" using runs_no_abs [OF t1(2) _ abs] fl by auto
  obtain i2 a2 t2 where t2: "est_last SEG_RW (est_run SEG_RW ?i USIZE (unat nd) t1) = (i2, a2, t2)" by (metis prod.exhaust)
  define T where "T = est_stack 8 (a2 + of_nat (unat ns)) (unat ns) (est_zero False i2 8 t2)"
  note im = est_image [OF fit abs1 t2, folded T_def]
  have "i2 \<le> 8" using im(1) fit by simp
  then have tab: "est_tab nt nd ns False xrw t = est_both T"
    using t1(1) t2 by (simp add: est_tab_def T_def max_def)
  note dm = div_mod_128 [OF v]
  have both: "u_uisa (est_both T) (base + ?j) = u_uisa T ?j" "u_uisd (est_both T) (base + ?j) = u_uisd T ?j"
    using base est_both_seg [OF dm(1)] by auto
  show ?thesis
  proof (cases "?j < ?i")
    case True
    have same: "u_uisa T ?j = u_uisa t1 ?j \<and> u_uisd T ?j = u_uisd t1 ?j" using im(2) [OF True] .
    note tx = runs_text [OF t1(2) fl True]
    have "xlate (sureg c ta da (est_both T) hw) base v = map_option (\<lambda>x. (if u_uisd t1 ?j AND SEG_TX \<noteq> 0 then ta else da) + x) (xseg t1 ?j ?b)"
      by (rule xlate_cong [OF c base v refl]) (use both same tx in auto)
    then show ?thesis unfolding tab using tx(1) [OF dm(2)] tx(2) dm(3) image_text_part [OF v True, of "unat ns"] fit by simp
  next
    case False
    then have ge: "?i \<le> ?j" by simp
    have "xlate (sureg c ta da (est_both T) hw) base v = map_option (\<lambda>x. (if u_uisd T ?j AND SEG_TX \<noteq> 0 then ta else da) + x) (xseg T ?j ?b)"
      by (rule xlate_cong [OF c base v refl both im(5) [OF ge dm(1)]])
    then show ?thesis unfolding tab im(3) [OF ge dm(1,2)] image_data_part [OF v ge] dm(4) [OF ge] dm(5)
      using im(4) [OF ge dm(1)] by simp
  qed
qed

lemma est_tab_separate:
  assumes fl: "xrw = 2 \<or> xrw = 6" and abs: "no_abs t" and v: "v < 1024"
    and fit: "segs (unat nt) \<le> 8" "segs (unat nd) + segs (unat ns) \<le> 8" and c: "c \<noteq> 40"
  shows "xlate (sureg c ta da (est_tab nt nd ns True xrw t) hw) 8 v = image_click ta da 0 (unat nd) (unat ns) v"
    and "xlate (sureg c ta da (est_tab nt nd ns True xrw t) hw) 0 v = image_click ta da (unat nt) 0 0 v"
proof -
  let ?fl = "xrw OR 16" and ?i = "segs (unat nt)" and ?j = "v div 128" and ?b = "v mod 128"
  have fl: "?fl \<in> {18, 22}" using fl by auto
  obtain t1 where t1: "est_last ?fl (est_run ?fl 0 0 (unat nt) t) = (0 + ?i, 0 + of_nat (unat nt), t1)" "runs 0 ?fl 0 (unat nt) t t1"
    using est_run_last by blast
  let ?z = "est_zero True ?i 8 t1"
  have abs1: "no_abs ?z" using runs_no_abs [OF t1(2) _ abs] fl by (intro est_zero_no_abs) auto
  obtain i2 a2 t2 where t2: "est_last SEG_RW (est_run SEG_RW 8 USIZE (unat nd) ?z) = (i2, a2, t2)" by (metis prod.exhaust)
  define T where "T = est_stack 16 (a2 + of_nat (unat ns)) (unat ns) (est_zero False i2 16 t2)"
  have fit2: "8 + segs (unat nd) + segs (unat ns) \<le> 16" using fit(2) by simp
  note im = est_image [OF fit2 abs1 t2, folded T_def]
  have "8 \<le> i2" "i2 \<le> 16" using im(1) fit by simp_all
  then have tab: "est_tab nt nd ns True xrw t = T"
    using t1(1) t2 fit(1) by (simp add: est_tab_def T_def max_def est_zero_none)
  note dm = div_mod_128 [OF v]
  have ge: "8 \<le> 8 + ?j" "8 + ?j < 16" using dm(1) by simp_all
  have "xlate (sureg c ta da T hw) 8 v = map_option (\<lambda>x. (if u_uisd T (8 + ?j) AND SEG_TX \<noteq> 0 then ta else da) + x) (xseg T (8 + ?j) ?b)"
    by (rule xlate_cong [OF c _ v refl]) (use im(5) [OF ge] in auto)
  moreover have "128 * (16 - (8 + ?j)) - ?b = 1024 - v" "128 * (8 + ?j - 8) + ?b = v - 128 * segs 0"
    using dm(3,5) by (simp_all add: segs_def)
  ultimately show "xlate (sureg c ta da (est_tab nt nd ns True xrw t) hw) 8 v = image_click ta da 0 (unat nd) (unat ns) v"
    unfolding tab im(3) [OF ge dm(2)] using im(4) [OF ge] image_data_part [OF v, of 0] by (simp add: segs_def)
  have same: "u_uisa T ?j = u_uisa ?z ?j \<and> u_uisd T ?j = u_uisd ?z ?j" using im(2) [of ?j] dm(1) by simp
  show "xlate (sureg c ta da (est_tab nt nd ns True xrw t) hw) 0 v = image_click ta da (unat nt) 0 0 v"
  proof (cases "?j < ?i")
    case True
    note tx = runs_text [OF t1(2) fl True]
    have "u_uisa ?z ?j = u_uisa t1 ?j \<and> u_uisd ?z ?j = u_uisd t1 ?j" using True by (simp add: est_zero_def)
    then have "xlate (sureg c ta da T hw) 0 v = map_option (\<lambda>x. (if u_uisd t1 ?j AND SEG_TX \<noteq> 0 then ta else da) + x) (xseg t1 ?j ?b)"
      by (intro xlate_cong [OF c _ v refl]) (use same tx in auto)
    then show ?thesis unfolding tab using tx(1) [OF dm(2)] tx(2) dm(3) image_text_part [OF v True, of 0] fit
      by (simp add: segs_def)
  next
    case False
    then have "u_uisd T ?j = 0" using same dm(1) by (simp add: est_zero_def)
    then have "xlate (sureg c ta da T hw) 0 v = None" using dm(1) c by (simp add: xlate_def xseg_def sureg_def)
    moreover have "image_click ta da (unat nt) 0 0 v = None"
    proof -
      have "?i \<le> ?j" using False by simp
      from image_data_part [OF v this] show ?thesis using v by (simp add: Let_def)
    qed
    ultimately show ?thesis unfolding tab by simp
  qed
qed

text \<open>
  C19. \<open>estabur\<close> and \<open>sureg\<close> implement the layout of the image: with the registers they load, every click of the
  user's data space, and of its instruction space, is translated to its place in the image of the process or in the
  shared text, and everything else faults. The sizes are at most the 1024 clicks of a space, and no register was set by \<open>phys\<close>.
\<close>

theorem estabur_implements_image:
  assumes "estabur c m nt nd ns sep xrw t = Some t'" and "c \<noteq> 40" and "xrw = SEG_RO \<or> xrw = SEG_RW" and "no_abs t"
    and "unat nt \<le> 1024" "unat nd \<le> 1024" "unat ns \<le> 1024" and "v < 1024"
  shows "xlate (sureg c ta da t' hw) 8 v = image_click ta da (if sep then 0 else unat nt) (unat nd) (unat ns) v \<and>
     xlate (sureg c ta da t' hw) 0 v = (if sep then image_click ta da (unat nt) 0 0 v
       else image_click ta da (unat nt) (unat nd) (unat ns) v)"
proof -
  have t: "est_fits c m nt nd ns sep" "t' = est_tab nt nd ns sep xrw t"
    using assms(1) by (auto simp: estabur_def split: if_splits)
  note fit = est_fits_segs [OF t(1) assms(5-7)]
  show ?thesis
  proof (cases sep)
    case True
    then show ?thesis using est_tab_separate [OF assms(3,4,8) _ _ assms(2), of nt nd ns] fit t(2) by simp
  next
    case False
    then show ?thesis using est_tab_joint [OF assms(3,4,8) _ assms(2), of nt nd ns] fit t(2) by simp
  qed
qed

definition demo_seg :: segtab where
  "demo_seg = \<lparr>u_uisa = (\<lambda>_. 0), u_uisd = (\<lambda>_. 0)\<rparr>"

theorem estabur_implements_image_witness:
  "xlate (sureg 70 100 500 (est_tab 130 200 20 False 2 demo_seg) demo_seg) 8 300 = image_click 100 500 130 200 20 300 \<and>
   xlate (sureg 70 100 500 (est_tab 130 200 20 False 2 demo_seg) demo_seg) 0 300 = image_click 100 500 130 200 20 300"
proof -
  have "estabur 70 2048 130 200 20 False 2 demo_seg = Some (est_tab 130 200 20 False 2 demo_seg)"
    by (simp add: estabur_def est_fits_def ctos_def USIZE_def)
  from estabur_implements_image [OF this, of 300 100 500 demo_seg] show ?thesis
    by (simp add: no_abs_def demo_seg_def)
qed


end
