(* ===== verification/Syscalls.thy ===== *)
theory Syscalls
  imports V7_Prelude Res_Map User_IO Sched Swap Sig Seg
begin

text \<open>
  The system calls on processes (\<open>sys/sys4.c\<close> without those on files, and \<open>wait\<close>, \<open>fork\<close>, \<open>sbreak\<close> of
  \<open>sys/sys1.c\<close>) and \<open>grow\<close> of \<open>sys/sig.c\<close>. The properties are who can be signalled, which children \<open>wait\<close> finds, that
  the stack survives the growth of the image, what \<open>nice\<close> does, and that no sequence of the calls gives away the privileges of the super-user.
\<close>

unbundle bit_operations_syntax

section \<open>State\<close>

text \<open>
  The user area grows by the segmentation tables: the prototype and the registers of the machine. The arguments of a system call
  (\<open>u_ap\<close>) are the arguments of its definition; the answer goes to \<open>r_val1\<close> and \<open>r_val2\<close>, a long answer
  to both with the high word first.
\<close>

record yst = ust +
  u_seg :: segtab
  hw_seg :: segtab

abbreviation (input) AFORK :: u8 where "AFORK \<equiv> 1"
abbreviation (input) ASU :: u8 where "ASU \<equiv> 2"

definition MAXMEM :: u16 where "MAXMEM = 2048"
definition MAXUPRC :: int where "MAXUPRC = 25"
definition SINCR :: u16 where "SINCR = 20"
definition PWAIT :: int where "PWAIT = 30"
definition PSLEP :: int where "PSLEP = 40"
definition TIMEZONE :: u16 where "TIMEZONE = 300"
definition DSTFLAG :: u16 where "DSTFLAG = 1"

definition suser :: "'z ust_scheme \<Rightarrow> bool \<times> 'z ust_scheme" where
  "suser s = (if u_uid s = 0 then (True, s\<lparr>u_acflag := u_acflag s OR ASU\<rparr>) else (False, set_error EPERM s))"


section \<open>Time, identity, priority\<close>

definition ret_long :: "u32 \<Rightarrow> 'z ust_scheme \<Rightarrow> 'z ust_scheme" where
  "ret_long x s = s\<lparr>r_val1 := ucast (drop_bit 16 x), r_val2 := ucast x\<rparr>"

definition int_bytes :: "u16 \<Rightarrow> u8 list" where
  "int_bytes x = [ucast x, ucast (drop_bit 8 x)]"

definition long_bytes :: "u32 \<Rightarrow> u8 list" where
  "long_bytes x = int_bytes (ucast (drop_bit 16 x)) @ int_bytes (ucast x)"

definition copyout_user :: "u16 \<Rightarrow> u8 list \<Rightarrow> 'z ust_scheme \<Rightarrow> 'z ust_scheme" where
  "copyout_user a bs s =
     (let (r, u) = copyout 0 a bs (io s); s = s\<lparr>io := u\<rparr> in if r < 0 then set_error EFAULT s else s)"

definition gtime :: "'z ust_scheme \<Rightarrow> 'z ust_scheme" where
  "gtime s = ret_long (time s) s"

definition timeb :: "'z ust_scheme \<Rightarrow> u32 \<times> u16" where
  "timeb s =
     (let ms = lbolt s; (ms, t) = (if unat ms > HZ then (ms - of_nat HZ, time s + 1) else (ms, time s))
      in (t, (1000 * ms) div of_nat HZ))"

definition ftime :: "u16 \<Rightarrow> 'z ust_scheme \<Rightarrow> 'z ust_scheme" where
  "ftime tp s = (case timeb s of (t, ms) \<Rightarrow>
     copyout_user tp (long_bytes t @ int_bytes ms @ int_bytes TIMEZONE @ int_bytes DSTFLAG) s)"

definition stime :: "u32 \<Rightarrow> 'z ust_scheme \<Rightarrow> 'z ust_scheme" where
  "stime t s = (case suser s of (ok, s) \<Rightarrow> if ok then s\<lparr>time := t\<rparr> else s)"

definition setuid :: "u16 \<Rightarrow> 'z ust_scheme \<Rightarrow> 'z ust_scheme" where
  "setuid uid s =
     (case (if u_ruid s = uid then (True, s) else suser s) of (ok, s) \<Rightarrow>
        if ok then upd_proc (cur s) (\<lambda>x. x\<lparr>p_uid := uid\<rparr>) (s\<lparr>u_uid := uid, u_ruid := uid\<rparr>) else s)"

definition getuid :: "'z ust_scheme \<Rightarrow> 'z ust_scheme" where
  "getuid s = s\<lparr>r_val1 := u_ruid s, r_val2 := u_uid s\<rparr>"

definition setgid :: "u16 \<Rightarrow> 'z ust_scheme \<Rightarrow> 'z ust_scheme" where
  "setgid gid s =
     (case (if u_rgid s = gid then (True, s) else suser s) of (ok, s) \<Rightarrow>
        if ok then s\<lparr>u_gid := gid, u_rgid := gid\<rparr> else s)"

definition getgid :: "'z ust_scheme \<Rightarrow> 'z ust_scheme" where
  "getgid s = s\<lparr>r_val1 := u_rgid s, r_val2 := u_gid s\<rparr>"

definition getpid :: "'z ust_scheme \<Rightarrow> 'z ust_scheme" where
  "getpid s = s\<lparr>r_val1 := p_pid (procs s (cur s)), r_val2 := p_ppid (procs s (cur s))\<rparr>"

definition nice :: "u16 \<Rightarrow> 'z ust_scheme \<Rightarrow> 'z ust_scheme" where
  "nice niceness s =
     (let (n, s) = (if sint niceness < 0 then (case suser s of (ok, s) \<Rightarrow> (if ok then niceness else 0, s)) else (niceness, s));
          n = n + scast (p_nice (procs s (cur s)));
          n = (if sint n \<ge> 2 * NZERO then word_of_int (2 * NZERO - 1) else n);
          n = (if sint n < 0 then 0 else n)
      in upd_proc (cur s) (\<lambda>x. x\<lparr>p_nice := ucast n\<rparr>) s)"

definition ssig :: "u16 \<Rightarrow> u16 \<Rightarrow> 'z ust_scheme \<Rightarrow> 'z ust_scheme" where
  "ssig signo fn s =
     (if sint signo \<le> 0 \<or> sint signo \<ge> int NSIG \<or> unat signo = SIGKIL then set_error EINVAL s
      else let a = unat signo;
               s = s\<lparr>r_val1 := u_signal s a\<rparr>;
               s = s\<lparr>u_signal := (u_signal s)(a := fn)\<rparr>
           in upd_proc (cur s) (\<lambda>x. x\<lparr>p_sig := p_sig x AND NOT (sig_bit a)\<rparr>) s)"




definition times :: "u16 \<Rightarrow> 'z ust_scheme \<Rightarrow> 'z ust_scheme" where
  "times tp s = copyout_user tp (long_bytes (u_utime s) @ long_bytes (u_stime s) @ long_bytes (u_cutime s) @ long_bytes (u_cstime s)) s"

definition profil :: "u16 \<Rightarrow> u16 \<Rightarrow> u16 \<Rightarrow> u16 \<Rightarrow> 'z ust_scheme \<Rightarrow> 'z ust_scheme" where
  "profil bufbase bufsize pcoffset pcscale s = s\<lparr>u_prof := (bufbase, bufsize, pcoffset, pcscale)\<rparr>"

definition alarm :: "u16 \<Rightarrow> 'z ust_scheme \<Rightarrow> 'z ust_scheme" where
  "alarm deltat s =
     (let c = p_clktim (procs s (cur s)) in (upd_proc (cur s) (\<lambda>x. x\<lparr>p_clktim := deltat\<rparr>) s)\<lparr>r_val1 := c\<rparr>)"

text \<open>One round of \<open>pause\<close>; its loop starts the next one when the process is resumed without a signal.\<close>

definition pause :: "'z ust_scheme \<Rightarrow> (slept, 'z ust_scheme) kres" where
  "pause s = sleep (a_u s) PSLEP s"

definition umask :: "u16 \<Rightarrow> 'z ust_scheme \<Rightarrow> 'z ust_scheme" where
  "umask m s = s\<lparr>r_val1 := u_cmask s, u_cmask := m AND 511\<rparr>"

section \<open>Processes\<close>

text \<open>
  \<open>wait\<close>: the search of the process table. A child that is found is a zombie, which is laid to rest, or a stopped child that was not reported yet;
  \<^const>\<open>None\<close> with the count of children means that there is none.
\<close>

datatype waited = Reaped nat | Reported nat

fun wait_scan :: "nat list \<Rightarrow> nat \<Rightarrow> 'z kst_scheme \<Rightarrow> waited option \<times> nat" where
  "wait_scan [] f s = (None, f)"
| "wait_scan (p # ps) f s =
     (if p_ppid (procs s p) = p_pid (procs s (cur s))
      then if p_stat (procs s p) = SZOMB then (Some (Reaped p), f + 1)
           else if p_stat (procs s p) = SSTOP \<and> \<not> has_flag SWTED (procs s p) then (Some (Reported p), f + 1)
           else wait_scan ps (f + 1) s
      else wait_scan ps f s)"

text \<open>In a zombie the exit status and the user time are found in \<open>p_addr\<close> and in \<open>p_size\<close> and \<open>p_wchan\<close>.\<close>

definition xp_xstat :: "proc \<Rightarrow> u16" where "xp_xstat x = p_addr x"

definition xp_utime :: "proc \<Rightarrow> u32" where
  "xp_utime x = push_bit 16 (ucast (p_size x)) OR ucast (p_wchan x)"

definition wait :: "'z ust_scheme \<Rightarrow> (unit, 'z ust_scheme) kres" where
  "wait s = (case wait_scan [0..<NPROC] 0 s of
       (Some (Reaped p), f) \<Rightarrow>
         let x = procs s p in
         Ok () (upd_proc p (\<lambda>x. x\<lparr>p_pid := 0, p_ppid := 0, p_pgrp := 0, p_sig := 0, p_flag := 0, p_wchan := 0, p_stat := 0\<rparr>)
           (s\<lparr>r_val1 := p_pid x, r_val2 := xp_xstat x, u_cutime := u_cutime s + xp_utime x, u_cstime := u_cstime s + xp_stime x\<rparr>))
     | (Some (Reported p), f) \<Rightarrow>
         let s = upd_proc p (\<lambda>x. x\<lparr>p_flag := p_flag x OR SWTED\<rparr>) s; x = procs s p in
         Ok () (s\<lparr>r_val1 := p_pid x, r_val2 := push_bit 8 (of_nat (fsig x)) OR 127\<rparr>)
     | (None, f) \<Rightarrow> if f \<noteq> 0 then Sleeps (proc_addr s (cur s)) PWAIT s else Ok () (set_error ECHILD s))"

text \<open>\<open>fork\<close>: the count of the user's processes and the first free slot.\<close>

fun fork_scan :: "nat list \<Rightarrow> int \<Rightarrow> nat option \<Rightarrow> 'z ust_scheme \<Rightarrow> int \<times> nat option" where
  "fork_scan [] a p2 s = (a, p2)"
| "fork_scan (p1 # ps) a p2 s =
     (if p_stat (procs s p1) = 0 \<and> p2 = None then fork_scan ps a (Some p1) s
      else if p_uid (procs s p1) = u_uid s \<and> p_stat (procs s p1) \<noteq> 0 then fork_scan ps (a + 1) p2 s
      else fork_scan ps a p2 s)"

definition fork_out :: "'z ust_scheme \<Rightarrow> 'z ust_scheme" where
  "fork_out s = s\<lparr>u_ar0 := (u_ar0 s)(7 := u_ar0 s 7 + 2)\<rparr>"

definition fork :: "'z ust_scheme \<Rightarrow> (nat option, 'z ust_scheme) kres" where
  "fork s =
     bnd (alloc_map Swapmap (ctod MAXMEM) s) (\<lambda>a s.
     if a = 0 then Ok None (fork_out (set_error ENOMEM s))
     else bnd (free_map Swapmap (ctod MAXMEM) a s) (\<lambda>_ s.
       case fork_scan [0..<NPROC] 0 None s of
         (n, None) \<Rightarrow> Ok None (fork_out (set_error EAGAIN s))
       | (n, Some p2) \<Rightarrow>
           if u_uid s \<noteq> 0 \<and> (p2 = NPROC - 1 \<or> n > MAXUPRC) then Ok None (fork_out (set_error EAGAIN s))
           else bnd (newproc s) (\<lambda>c s. Ok (Some c) (fork_out (s\<lparr>r_val1 := p_pid (procs s p2)\<rparr>)))))"

text \<open>What the new process does when \<open>newproc\<close> returns 1 in it; \<open>p1\<close> is its parent.\<close>

definition fork_child :: "nat \<Rightarrow> 'z ust_scheme \<Rightarrow> 'z ust_scheme" where
  "fork_child p1 s = s\<lparr>r_val1 := p_pid (procs s p1), u_start := time s, u_cstime := 0, u_stime := 0, u_cutime := 0, u_utime := 0,
     u_acflag := AFORK\<rparr>"


section \<open>Growing\<close>

definition establish :: "u16 \<Rightarrow> u16 \<Rightarrow> u16 \<Rightarrow> u16 \<Rightarrow> 'z yst_scheme \<Rightarrow> bool \<times> 'z yst_scheme" where
  "establish nt nd ns xrw s =
     (case estabur (cputype s) (maxmem s) nt nd ns (u_sep s \<noteq> 0) xrw (u_seg s) of
        None \<Rightarrow> (False, set_error ENOMEM s)
      | Some t \<Rightarrow>
          let x = procs s (cur s); ta = (case p_textp x of None \<Rightarrow> p_addr x | Some xp \<Rightarrow> x_caddr (texts s xp))
          in (True, s\<lparr>u_seg := t, hw_seg := sureg (cputype s) ta (p_addr x) t (hw_seg s)\<rparr>))"

definition copyseg :: "u16 \<Rightarrow> u16 \<Rightarrow> 'z sst_scheme \<Rightarrow> 'z sst_scheme" where
  "copyseg f t s = s\<lparr>core := (core s)(t := core s f)\<rparr>"

definition clearseg :: "u16 \<Rightarrow> 'z sst_scheme \<Rightarrow> 'z sst_scheme" where
  "clearseg a s = s\<lparr>core := (core s)(a := replicate 64 0)\<rparr>"

text \<open>\<open>n\<close> clicks below \<open>a\<close> are copied from \<open>d\<close> clicks lower, the highest first; \<open>n\<close> clicks below \<open>a\<close> are cleared; \<open>n\<close> clicks from \<open>a\<close> on are copied, the lowest first.\<close>

fun copy_down :: "nat \<Rightarrow> u16 \<Rightarrow> u16 \<Rightarrow> 'z sst_scheme \<Rightarrow> u16 \<times> 'z sst_scheme" where
  "copy_down 0 d a s = (a, s)"
| "copy_down (Suc n) d a s = copy_down n d (a - 1) (copyseg (a - 1 - d) (a - 1) s)"

fun clear_down :: "nat \<Rightarrow> u16 \<Rightarrow> 'z sst_scheme \<Rightarrow> 'z sst_scheme" where
  "clear_down 0 a s = s"
| "clear_down (Suc n) a s = clear_down n (a - 1) (clearseg (a - 1) s)"

fun copy_up :: "nat \<Rightarrow> u16 \<Rightarrow> u16 \<Rightarrow> 'z sst_scheme \<Rightarrow> 'z sst_scheme" where
  "copy_up 0 d a s = s"
| "copy_up (Suc n) d a s = copy_up n d (a + 1) (copyseg (a - d) a s)"

text \<open>What \<open>grow\<close> and \<open>sbreak\<close> do after \<open>expand\<close>: the stack moves to the new end of the image, and the gap is cleared.\<close>

definition move_stack :: "u16 \<Rightarrow> u16 \<Rightarrow> u16 \<Rightarrow> 'z sst_scheme \<Rightarrow> 'z sst_scheme" where
  "move_stack ns d a s = (case copy_down (unat ns) d a s of (a, s) \<Rightarrow> clear_down (unat d) a s)"

definition grow_rest :: "u16 \<Rightarrow> 'z ust_scheme \<Rightarrow> 'z ust_scheme" where
  "grow_rest si s =
     (let p = procs s (cur s); s = move_stack (u_ssize s) si (p_addr p + p_size p) s
      in s\<lparr>u_ssize := u_ssize s + si\<rparr>)"

text \<open>
  \<open>grow\<close> answers \<^const>\<open>None\<close> for its answer 0; \<^const>\<open>Some\<close> with \<^const>\<open>False\<close> means that the process was swapped out by \<open>expand\<close> and does
  \<open>grow_rest\<close> when it is back.
\<close>

definition grow :: "u16 \<Rightarrow> 'z yst_scheme \<Rightarrow> (bool option, 'z yst_scheme) kres" where
  "grow sp s =
     (if sp \<ge> - push_bit 6 (u_ssize s) then Ok None s
      else let si = (- sp) div 64 - u_ssize s + SINCR in
        if sint si \<le> 0 then Ok None s
        else case establish (u_tsize s) (u_dsize s) (u_ssize s + si) SEG_RO s of
          (False, s) \<Rightarrow> Ok None s
        | (True, s) \<Rightarrow> bnd (expand (p_size (procs s (cur s)) + si) s) (\<lambda>here s.
            Ok (Some here) (if here then grow_rest si s else s)))"

definition sbreak_rest :: "u16 \<Rightarrow> u16 \<Rightarrow> 'z ust_scheme \<Rightarrow> 'z ust_scheme" where
  "sbreak_rest n d s = move_stack (u_ssize s) d (p_addr (procs s (cur s)) + n) s"

definition sbreak :: "u16 \<Rightarrow> 'z yst_scheme \<Rightarrow> (bool, 'z yst_scheme) kres" where
  "sbreak nsiz s =
     (let n = drop_bit 6 (nsiz + 63);
          n = (if u_sep s = 0 then n - ctos (u_tsize s) * 128 else n);
          n = (if sint n < 0 then 0 else n);
          d = n - u_dsize s;
          n = n + (USIZE + u_ssize s)
      in case establish (u_tsize s) (u_dsize s + d) (u_ssize s) SEG_RO s of
           (False, s) \<Rightarrow> Ok True s
         | (True, s) \<Rightarrow>
             let s = s\<lparr>u_dsize := u_dsize s + d\<rparr> in
             if sint d > 0
             then bnd (expand n s) (\<lambda>here s. Ok here (if here then sbreak_rest n d s else s))
             else expand n (copy_up (unat (u_ssize s)) d (p_addr (procs s (cur s)) + n - u_ssize s) s))"

section \<open>Sending signals to many\<close>
















section \<open>Waiting for children\<close>

definition child :: "'z kst_scheme \<Rightarrow> nat \<Rightarrow> bool" where
  "child s p = (p_ppid (procs s p) = p_pid (procs s (cur s)))"

definition zombies :: "'z kst_scheme \<Rightarrow> nat list" where
  "zombies s = filter (\<lambda>p. child s p \<and> p_stat (procs s p) = SZOMB) [0..<NPROC]"

definition quiet_children :: "'z kst_scheme \<Rightarrow> bool" where
  "quiet_children s = (\<forall>p < NPROC. child s p \<longrightarrow> p_stat (procs s p) = SSTOP \<longrightarrow> has_flag SWTED (procs s p))"

primrec waits :: "nat \<Rightarrow> 'z ust_scheme \<Rightarrow> ((u16 \<times> u16) list, 'z ust_scheme) kres" where
  "waits 0 s = Ok [] s"
| "waits (Suc n) s = bnd (wait s) (\<lambda>_ t. bnd (waits n t) (\<lambda>rs u. Ok ((r_val1 t, r_val2 t) # rs) u))"

lemma wait_scan_quiet:
  assumes "\<forall>p \<in> set ps. child s p \<longrightarrow> p_stat (procs s p) = SSTOP \<longrightarrow> has_flag SWTED (procs s p)"
  shows "fst (wait_scan ps f s) = (case filter (\<lambda>p. child s p \<and> p_stat (procs s p) = SZOMB) ps of [] \<Rightarrow> None | z # _ \<Rightarrow> Some (Reaped z)) \<and>
    (filter (\<lambda>p. child s p \<and> p_stat (procs s p) = SZOMB) ps = [] \<longrightarrow> snd (wait_scan ps f s) = f + length (filter (child s) ps))"
  using assms
proof (induction ps arbitrary: f)
  case (Cons p ps)
  show ?case
  proof (cases "child s p \<and> p_stat (procs s p) = SZOMB")
    case True
    then show ?thesis by (simp add: child_def)
  next
    case False
    have "wait_scan (p # ps) f s = wait_scan ps (if child s p then f + 1 else f) s"
      using False Cons.prems by (auto simp: child_def)
    moreover have fil: "filter (\<lambda>p. child s p \<and> p_stat (procs s p) = SZOMB) (p # ps) = filter (\<lambda>p. child s p \<and> p_stat (procs s p) = SZOMB) ps"
      using False by simp
    ultimately show ?thesis using Cons.IH [of "if child s p then f + 1 else f"] Cons.prems unfolding fil by simp
  qed
qed simp

definition reap :: "nat \<Rightarrow> 'z ust_scheme \<Rightarrow> 'z ust_scheme" where
  "reap p s = upd_proc p (\<lambda>x. x\<lparr>p_pid := 0, p_ppid := 0, p_pgrp := 0, p_sig := 0, p_flag := 0, p_wchan := 0, p_stat := 0\<rparr>)
     (s\<lparr>r_val1 := p_pid (procs s p), r_val2 := xp_xstat (procs s p), u_cutime := u_cutime s + xp_utime (procs s p), u_cstime := u_cstime s + xp_stime (procs s p)\<rparr>)"

lemma wait_quiet:
  assumes "quiet_children s"
  shows "wait s = (case zombies s of z # _ \<Rightarrow> Ok () (reap z s)
     | [] \<Rightarrow> if \<exists>p < NPROC. child s p then Sleeps (proc_addr s (cur s)) PWAIT s else Ok () (set_error ECHILD s))"
proof -
  have "\<forall>p \<in> set [0..<NPROC]. child s p \<longrightarrow> p_stat (procs s p) = SSTOP \<longrightarrow> has_flag SWTED (procs s p)"
    using assms by (simp add: quiet_children_def)
  note scan = wait_scan_quiet [OF this, of 0, folded zombies_def]
  have "length (filter (child s) [0..<NPROC]) = 0 \<longleftrightarrow> \<not> (\<exists>p < NPROC. child s p)" by (auto simp: filter_empty_conv)
  moreover obtain w n where "wait_scan [0..<NPROC] 0 s = (w, n)" by (cases "wait_scan [0..<NPROC] 0 s")
  ultimately show ?thesis using scan by (cases "zombies s") (auto simp: wait_def reap_def Let_def)
qed

lemma reap_zombies:
  assumes "zombies s = z # zs" and "p_pid (procs s (cur s)) \<noteq> 0" and "p_stat (procs s (cur s)) \<noteq> SZOMB"
  shows "zombies (reap z s) = zs" "z < NPROC" "cur (reap z s) = cur s" "procs (reap z s) (cur s) = procs s (cur s)"
    "p \<noteq> z \<Longrightarrow> procs (reap z s) p = procs s p" "z \<notin> set zs" "\<not> child (reap z s) z" "child s z"
proof -
  have "z \<in> set (zombies s)" using assms(1) by simp
  then have z: "z < NPROC" "child s z" "p_stat (procs s z) = SZOMB" by (auto simp: zombies_def)
  then have ne: "cur s \<noteq> z" using assms(3) by auto
  have d: "distinct (z # zs)" unfolding assms(1) [symmetric] zombies_def by simp
  then show "z \<notin> set zs" by simp
  show "z < NPROC" "child s z" by fact+
  show c: "cur (reap z s) = cur s" "procs (reap z s) (cur s) = procs s (cur s)"
    using ne by (simp_all add: reap_def upd_proc_def)
  show o: "p \<noteq> z \<Longrightarrow> procs (reap z s) p = procs s p" for p by (simp add: reap_def upd_proc_def)
  show nz: "\<not> child (reap z s) z" using assms(2) ne by (simp add: child_def reap_def upd_proc_def)
  have "zombies (reap z s) = filter (\<lambda>p. p \<noteq> z) (zombies s)"
  proof -
    have "(child (reap z s) p \<and> p_stat (procs (reap z s) p) = SZOMB) = ((child s p \<and> p_stat (procs s p) = SZOMB) \<and> p \<noteq> z)" for p
      using c o [of p] nz by (cases "p = z") (simp_all add: child_def)
    then show ?thesis by (simp add: zombies_def conj_commute)
  qed
  then show "zombies (reap z s) = zs" using d assms(1) by (simp add: filter_id_conv) metis
qed

text \<open>
  A parent that waits as many times as it has dead children gets the number and the exit status of every one of them, each exactly
  once and in the order of the process table; their times are added to its own, and their slots are free afterwards. The next \<open>wait\<close>
  sleeps if there are other children, and fails with \<open>ECHILD\<close> otherwise. (No child is stopped without having been reported.)
\<close>

theorem wait_collects:
  assumes "quiet_children s" and "p_pid (procs s (cur s)) \<noteq> 0" and "p_stat (procs s (cur s)) \<noteq> SZOMB"
  shows "\<exists>t. waits (length (zombies s)) s = Ok (map (\<lambda>p. (p_pid (procs s p), xp_xstat (procs s p))) (zombies s)) t \<and>
     u_cutime t = u_cutime s + sum_list (map (\<lambda>p. xp_utime (procs s p)) (zombies s)) \<and>
     (\<forall>p. if p \<in> set (zombies s) then p_stat (procs t p) = 0 \<and> p_pid (procs t p) = 0 else procs t p = procs s p) \<and>
     wait t = (if \<exists>p < NPROC. child s p \<and> p_stat (procs s p) \<noteq> SZOMB then Sleeps (proc_addr s (cur s)) PWAIT t else Ok () (set_error ECHILD t))"
  using assms
proof (induction "zombies s" arbitrary: s)
  case Nil
  have "(\<exists>p < NPROC. child s p) = (\<exists>p < NPROC. child s p \<and> p_stat (procs s p) \<noteq> SZOMB)"
    using Nil.hyps [symmetric] by (auto simp: zombies_def filter_empty_conv)
  then show ?case using wait_quiet [OF Nil.prems(1)] Nil.hyps [symmetric] by simp
next
  case (Cons z zs)
  note zz = Cons.hyps(2) [symmetric]
  note r = reap_zombies [OF zz Cons.prems(2,3)]
  let ?s = "reap z s"
  have ch: "child ?s p = (child s p \<and> p \<noteq> z)" for p using r(3,4,5,7) by (cases "p = z") (simp_all add: child_def)
  have "quiet_children ?s" using Cons.prems(1) r(5) ch by (auto simp: quiet_children_def)
  moreover have "p_pid (procs ?s (cur ?s)) \<noteq> 0" "p_stat (procs ?s (cur ?s)) \<noteq> SZOMB" using Cons.prems r(3,4) by simp_all
  ultimately obtain t where t: "waits (length zs) ?s = Ok (map (\<lambda>p. (p_pid (procs ?s p), xp_xstat (procs ?s p))) zs) t"
    "u_cutime t = u_cutime ?s + sum_list (map (\<lambda>p. xp_utime (procs ?s p)) zs)"
    "\<forall>p. if p \<in> set zs then p_stat (procs t p) = 0 \<and> p_pid (procs t p) = 0 else procs t p = procs ?s p"
    "wait t = (if \<exists>p < NPROC. child ?s p \<and> p_stat (procs ?s p) \<noteq> SZOMB then Sleeps (proc_addr ?s (cur ?s)) PWAIT t else Ok () (set_error ECHILD t))"
    using Cons.hyps(1) [of ?s] r(1) by blast
  have same: "map (\<lambda>p. f (procs ?s p)) zs = map (\<lambda>p. f (procs s p)) zs" for f :: "proc \<Rightarrow> 'b"
  proof (rule map_cong [OF refl])
    fix x assume "x \<in> set zs"
    then have "x \<noteq> z" using r(6) by auto
    then show "f (procs ?s x) = f (procs s x)" using r(5) by simp
  qed
  have "wait s = Ok () ?s" using wait_quiet [OF Cons.prems(1)] zz by simp
  moreover have "r_val1 ?s = p_pid (procs s z)" "r_val2 ?s = xp_xstat (procs s z)" "u_cutime ?s = u_cutime s + xp_utime (procs s z)"
    "p_stat (procs ?s z) = 0" "p_pid (procs ?s z) = 0" "proc_addr ?s (cur ?s) = proc_addr s (cur s)"
    by (simp_all add: reap_def upd_proc_def proc_addr_def)
  moreover have "(\<exists>p < NPROC. child ?s p \<and> p_stat (procs ?s p) \<noteq> SZOMB) = (\<exists>p < NPROC. child s p \<and> p_stat (procs s p) \<noteq> SZOMB)"
  proof -
    have "p_stat (procs s z) = SZOMB" using zz by (auto simp: zombies_def dest: filter_eq_ConsD)
    then have "(child ?s p \<and> p_stat (procs ?s p) \<noteq> SZOMB) = (child s p \<and> p_stat (procs s p) \<noteq> SZOMB)" for p
      using ch [of p] r(5) [of p] by (cases "p = z") simp_all
    then show ?thesis by simp
  qed
  ultimately show ?case using t r(5,6) unfolding zz same [of "\<lambda>x. (p_pid x, xp_xstat x)"] same [of xp_utime]
    by (auto simp: add.assoc)
qed

section \<open>The stack moves with the end of the image\<close>

lemma unat_minus_1: "unat (x - 1 :: u16) = (if unat x = 0 then 65535 else unat x - 1)"
proof (cases "x = 0")
  case True
  then show ?thesis by (simp add: unsigned_minus_1_eq_mask mask_eq_exp_minus_1)
next
  case False
  then have "0 < unat x" by (simp add: unat_gt_0)
  moreover have "unat (x - 1) = unat x - 1" using False by (simp add: unat_minus_one)
  ultimately show ?thesis by simp
qed

lemma copy_down_core:
  "n + unat d < 65536 \<Longrightarrow> fst (copy_down n d a s) = a - of_nat n \<and>
     core (snd (copy_down n d a s)) = (\<lambda>x. if 0 < unat (a - x) \<and> unat (a - x) \<le> n then core s (x - d) else core s x)"
proof (induction n arbitrary: a s)
  case 0
  then show ?case by (auto simp: fun_eq_iff)
next
  case (Suc n)
  let ?t = "copyseg (a - 1 - d) (a - 1) s"
  have IH: "fst (copy_down n d (a - 1) ?t) = a - 1 - of_nat n"
    "core (snd (copy_down n d (a - 1) ?t)) = (\<lambda>x. if 0 < unat (a - 1 - x) \<and> unat (a - 1 - x) \<le> n then core ?t (x - d) else core ?t x)"
    using Suc.IH [of "a - 1" ?t] Suc.prems by auto
  have "core (snd (copy_down n d (a - 1) ?t)) x = (if 0 < unat (a - x) \<and> unat (a - x) \<le> Suc n then core s (x - d) else core s x)" for x
  proof -
    let ?u = "unat (a - x)"
    have u: "unat (a - 1 - x) = (if ?u = 0 then 65535 else ?u - 1)" using unat_minus_1 [of "a - x"] by (simp add: algebra_simps)
    have one: "x = a - 1 \<longleftrightarrow> ?u = 1"
    proof
      assume "?u = 1"
      then have "a - x = 1" by (metis unat_1 word_unat_eq_iff)
      then show "x = a - 1" by (simp add: algebra_simps)
    qed simp
    show ?thesis
    proof (cases "2 \<le> ?u \<and> ?u \<le> Suc n")
      case True
      have "x - d \<noteq> a - 1"
      proof
        assume "x - d = a - 1"
        then have e: "(a - x) + d = 1" by (simp add: algebra_simps)
        have "unat ((a - x) + d) = ?u + unat d" using True Suc.prems by (intro unat_plus_small) simp
        then have "?u + unat d = 1" unfolding e by simp
        then show False using True by simp
      qed
      moreover have "0 < unat (a - 1 - x) \<and> unat (a - 1 - x) \<le> n" using u True by auto
      then have "core (snd (copy_down n d (a - 1) ?t)) x = core ?t (x - d)" using IH(2) by simp
      ultimately show ?thesis using True by (simp add: copyseg_def)
    next
      case False
      then have "\<not> (0 < unat (a - 1 - x) \<and> unat (a - 1 - x) \<le> n)" using u Suc.prems by auto
      then have "core (snd (copy_down n d (a - 1) ?t)) x = core ?t x" unfolding IH(2) by (rule if_not_P)
      then show ?thesis using one False by (auto simp: copyseg_def)
    qed
  qed
  then show ?case using IH(1) by (auto simp: fun_eq_iff)
qed

lemma clear_down_core:
  "n < 65536 \<Longrightarrow> core (clear_down n a s) = (\<lambda>x. if 0 < unat (a - x) \<and> unat (a - x) \<le> n then replicate 64 0 else core s x)"
proof (induction n arbitrary: a s)
  case 0
  then show ?case by (auto simp: fun_eq_iff)
next
  case (Suc n)
  have IH: "core (clear_down n (a - 1) (clearseg (a - 1) s)) = (\<lambda>x. if 0 < unat (a - 1 - x) \<and> unat (a - 1 - x) \<le> n then replicate 64 0
      else core (clearseg (a - 1) s) x)" using Suc by simp
  have "core (clear_down n (a - 1) (clearseg (a - 1) s)) x = (if 0 < unat (a - x) \<and> unat (a - x) \<le> Suc n then replicate 64 0 else core s x)" for x
  proof -
    let ?u = "unat (a - x)"
    have u: "unat (a - 1 - x) = (if ?u = 0 then 65535 else ?u - 1)" using unat_minus_1 [of "a - x"] by (simp add: algebra_simps)
    have one: "x = a - 1 \<longleftrightarrow> ?u = 1"
    proof
      assume "?u = 1"
      then have "a - x = 1" by (metis unat_1 word_unat_eq_iff)
      then show "x = a - 1" by (simp add: algebra_simps)
    qed simp
    show ?thesis using IH u one Suc.prems by (auto simp: clearseg_def)
  qed
  then show ?case by (auto simp: fun_eq_iff)
qed

lemma copy_down_frame: "procs (snd (copy_down n d a s)) = procs s \<and> cur (snd (copy_down n d a s)) = cur s"
  by (induction n arbitrary: a s) (simp_all add: copyseg_def)

lemma clear_down_frame: "procs (clear_down n a s) = procs s \<and> cur (clear_down n a s) = cur s"
  by (induction n arbitrary: a s) (simp_all add: clearseg_def)

lemma unat_neg_of_nat: "0 < i \<Longrightarrow> i < 65536 \<Longrightarrow> unat (- of_nat i :: u16) = 65536 - i"
proof -
  assume i: "0 < i" "i < 65536"
  have e: "- of_nat i = (of_nat (65536 - i) :: u16)" using i by (simp add: of_nat_diff)
  show ?thesis unfolding e using i by (simp add: unat_of_nat del: of_nat_diff)
qed

lemma move_stack_clicks:
  assumes "N = m + unat d + unat ns" and "N < 65536"
  shows "map (\<lambda>j. core (move_stack ns d (b + of_nat N) s) (b + of_nat j)) [0..<N] =
     (let old = map (\<lambda>j. core s (b + of_nat j)) [0..<N]
      in take m old @ replicate (unat d) (replicate 64 0) @ take (unat ns) (drop m old))"
proof (rule nth_equalityI)
  let ?a = "b + of_nat N" and ?k = "unat ns" and ?d = "unat d"
  show "length (map (\<lambda>j. core (move_stack ns d ?a s) (b + of_nat j)) [0..<N]) =
     length (let old = map (\<lambda>j. core s (b + of_nat j)) [0..<N] in take m old @ replicate ?d (replicate 64 0) @ take ?k (drop m old))"
    using assms(1) by (simp add: Let_def)
  obtain a1 s1 where cd: "copy_down ?k d ?a s = (a1, s1)" by fastforce
  have "?k + ?d < 65536" using assms by simp
  from copy_down_core [OF this, of ?a s] have c1: "a1 = ?a - ns"
    "core s1 = (\<lambda>x. if 0 < unat (?a - x) \<and> unat (?a - x) \<le> ?k then core s (x - d) else core s x)" unfolding cd by simp_all
  have c2: "core (clear_down ?d a1 s1) = (\<lambda>x. if 0 < unat (a1 - x) \<and> unat (a1 - x) \<le> ?d then replicate 64 0 else core s1 x)"
    using assms by (intro clear_down_core) simp
  fix j assume "j < length (map (\<lambda>j. core (move_stack ns d ?a s) (b + of_nat j)) [0..<N])"
  then have j: "j < N" by simp
  have a0: "?a - (b + of_nat j) = of_nat (N - j)"
  proof -
    obtain r where r: "N = r + j" using j by (metis le_add_diff_inverse2 less_imp_le)
    show ?thesis unfolding r by simp
  qed
  then have ua: "unat (?a - (b + of_nat j)) = N - j" using assms(2) by (simp add: unat_of_nat del: of_nat_diff)
  have a1: "a1 - (b + of_nat j) = of_nat (N - j) - ns" unfolding c1(1) a0 [symmetric] by (rule diff_right_commute)
  have ub: "unat (a1 - (b + of_nat j)) = N - j - ?k" if "?k \<le> N - j"
  proof -
    define r where "r = N - j - ?k"
    have r: "N - j = r + ?k" "r < 65536" using that assms(2) by (simp_all add: r_def)
    have "a1 - (b + of_nat j) = of_nat r" unfolding a1 r(1) by simp
    then show ?thesis unfolding r_def [symmetric] using r(2) by (simp add: unat_of_nat)
  qed
  have ub': "\<not> (0 < unat (a1 - (b + of_nat j)) \<and> unat (a1 - (b + of_nat j)) \<le> ?d)" if "N - j < ?k"
  proof -
    define i where "i = ?k - (N - j)"
    have i: "?k = i + (N - j)" "0 < i" using that by (simp_all add: i_def)
    have "of_nat ?k = of_nat i + (of_nat (N - j) :: u16)" unfolding i(1) by (rule of_nat_add)
    then have "ns = of_nat i + of_nat (N - j)" by simp
    then have "a1 - (b + of_nat j) = - of_nat i" unfolding a1 by simp
    moreover have "i < 65536" using i(1) assms by linarith
    ultimately have "unat (a1 - (b + of_nat j)) = 65536 - i" using unat_neg_of_nat [OF i(2)] by simp
    then show ?thesis using assms i(1) by linarith
  qed
  have mv: "core (move_stack ns d ?a s) x = core (clear_down ?d a1 s1) x" for x by (simp add: move_stack_def cd)
  have sub: "b + of_nat j - d = b + of_nat (j - ?d)" if "?d \<le> j"
  proof -
    define r where "r = j - ?d"
    have "j = r + ?d" using that by (simp add: r_def)
    then have "(of_nat j :: u16) = of_nat r + d" by simp
    then show ?thesis unfolding r_def [symmetric] by simp
  qed
  have v1: "core s1 (b + of_nat j) = (if N - j \<le> ?k then core s (b + of_nat j - d) else core s (b + of_nat j))"
    unfolding c1(2) ua using j by simp
  have v2: "core (clear_down ?d a1 s1) (b + of_nat j) = (if ?k < N - j \<and> N - j \<le> ?k + ?d then replicate 64 0 else core s1 (b + of_nat j))"
  proof (cases "?k \<le> N - j")
    case True
    show ?thesis unfolding c2 ub [OF True] using True by (intro if_cong refl) auto
  next
    case False
    then have "N - j < ?k" by simp
    from ub' [OF this] show ?thesis unfolding c2 using False by (simp only: if_False) auto
  qed
  consider "j < m" | "m \<le> j" "j < m + ?d" | "m + ?d \<le> j" by linarith
  then show "map (\<lambda>j. core (move_stack ns d ?a s) (b + of_nat j)) [0..<N] ! j =
     (let old = map (\<lambda>j. core s (b + of_nat j)) [0..<N] in take m old @ replicate ?d (replicate 64 0) @ take ?k (drop m old)) ! j"
  proof cases
    case 1
    then have "core (clear_down ?d a1 s1) (b + of_nat j) = core s (b + of_nat j)" using assms(1) v1 v2 by auto
    then show ?thesis using 1 j by (simp add: mv Let_def nth_append)
  next
    case 2
    then have "core (clear_down ?d a1 s1) (b + of_nat j) = replicate 64 0" using assms(1) v2 by auto
    moreover have "m \<le> N" "j - m < ?d" using 2 assms(1) by linarith+
    ultimately show ?thesis using 2 j by (simp add: mv Let_def nth_append min_def)
  next
    case 3
    then have "N - j \<le> ?k" using assms(1) by simp
    then have "core (clear_down ?d a1 s1) (b + of_nat j) = core s (b + of_nat (j - ?d))"
      using v1 v2 sub 3 by simp
    moreover have "m \<le> N" "\<not> j - m < ?d" "j - m - ?d < ?k" "m + (j - m - ?d) = j - ?d" "j - ?d < N" using 3 j assms(1) by linarith+
    ultimately show ?thesis using 3 j by (simp add: mv Let_def nth_append min_def)
  qed
qed

lemma move_stack_frame: "procs (move_stack ns d a s) = procs s" "cur (move_stack ns d a s) = cur s"
  using copy_down_frame [of "unat ns" d a s] by (auto simp: move_stack_def clear_down_frame split: prod.splits)

text \<open>
  When the image of a process has been enlarged by \<open>d\<close> clicks, for its data (\<open>sbreak\<close>) or for its stack (\<open>grow\<close>), the user area and the
  old data stay, \<open>d\<close> clicks of zeros follow, and the stack is at the new end, unharmed although source and target overlap.
\<close>

theorem stack_follows_growth:
  assumes "unat (p_size (procs s (cur s))) = m + unat d + unat (u_ssize s)"
  defines "L \<equiv> take m (core_image s (cur s)) @ replicate (unat d) (replicate 64 0) @ take (unat (u_ssize s)) (drop m (core_image s (cur s)))"
  shows "core_image (sbreak_rest (p_size (procs s (cur s))) d s) (cur s) = L \<and> core_image (grow_rest d s) (cur s) = L"
proof -
  let ?N = "unat (p_size (procs s (cur s)))"
  have "?N < 65536" using unsigned_less [of "p_size (procs s (cur s))", where ?'a = nat] by simp
  note mv = move_stack_clicks [OF assms(1) this, of "p_addr (procs s (cur s))" s, simplified]
  then show ?thesis
    by (simp add: core_image_def sbreak_rest_def grow_rest_def move_stack_frame L_def Let_def)
qed

definition demo_yst :: ust where
  "demo_yst = demo_ust\<lparr>procs := (procs demo_ust)(5 := (demo_proc 3 1 0 None)\<lparr>p_pid := 7, p_addr := 100, p_size := 22\<rparr>,
     8 := (demo_proc 5 0 0 None)\<lparr>p_pid := 20, p_ppid := 7, p_addr := 256\<rparr>, 9 := (demo_proc 5 0 0 None)\<lparr>p_pid := 21, p_ppid := 7\<rparr>)\<rparr>"

theorem stack_follows_growth_witness:
  "let L = take 18 (core_image demo_yst 5) @ replicate 3 (replicate 64 0) @ take 1 (drop 18 (core_image demo_yst 5))
   in core_image (sbreak_rest 22 3 demo_yst) 5 = L \<and> core_image (grow_rest 3 demo_yst) 5 = L"
  using stack_follows_growth [of demo_yst 18 3]
  by (simp add: demo_yst_def demo_ust_def Let_def)

theorem wait_collects_witness:
  "\<exists>t. waits (length (zombies demo_yst)) demo_yst = Ok (map (\<lambda>p. (p_pid (procs demo_yst p), xp_xstat (procs demo_yst p))) (zombies demo_yst)) t \<and>
     u_cutime t = u_cutime demo_yst + sum_list (map (\<lambda>p. xp_utime (procs demo_yst p)) (zombies demo_yst)) \<and>
     (\<forall>p. if p \<in> set (zombies demo_yst) then p_stat (procs t p) = 0 \<and> p_pid (procs t p) = 0 else procs t p = procs demo_yst p) \<and>
     wait t = (if \<exists>p < NPROC. child demo_yst p \<and> p_stat (procs demo_yst p) \<noteq> SZOMB then Sleeps (proc_addr demo_yst (cur demo_yst)) PWAIT t
       else Ok () (set_error ECHILD t))"
  by (rule wait_collects) (simp_all add: quiet_children_def child_def demo_yst_def demo_ust_def demo_sched_def demo_proc_def)


section \<open>Priority and privilege\<close>

text \<open>
  \<open>nice\<close> adds its argument to the nice value and keeps the result between 0 and 39; for another user than the super-user a negative argument
  counts as 0. The addition is done in 16 bits: with a sum above 32767 the result is 0, the best nice value, and this needs no privilege.
\<close>

theorem nice_effect:
  fixes n :: u16 and s :: "'z ust_scheme"
  assumes "0 \<le> sint (p_nice (procs s (cur s)))" and "sint (p_nice (procs s (cur s))) < 2 * NZERO"
  defines "newnice \<equiv> (if sint n < 0 \<and> u_uid s \<noteq> 0 then 0 else sint n) + sint (p_nice (procs s (cur s)))"
  shows "sint (p_nice (procs (nice n s) (cur s))) = (if newnice > 32767 then 0 else max 0 (min 39 newnice))"
proof -
  define k where "k = (if sint n < 0 \<and> u_uid s \<noteq> 0 then 0 else n)"
  let ?o = "p_nice (procs s (cur s))"
  have o: "0 \<le> sint ?o" "sint ?o < 40" using assms(1,2) by (simp_all add: NZERO_def)
  have sk: "sint k = (if sint n < 0 \<and> u_uid s \<noteq> 0 then 0 else sint n)" by (simp add: k_def)
  have nw: "newnice = sint k + sint ?o" unfolding newnice_def sk ..
  define m where "m = k + scast ?o"
  define r where "r = (let m = (if sint m \<ge> 40 then 39 else m) in if sint m < 0 then 0 else m)"
  have "sint k < 32768" "-32768 \<le> sint k" using sint_lt [of k] sint_ge [of k] by simp_all
  have so: "sint (scast ?o :: u16) = sint ?o" by (simp add: sint_up_scast is_up_def source_size target_size)
  have m: "sint m = (if newnice > 32767 then newnice - 65536 else newnice)"
  proof -
    have "sint m = signed_take_bit 15 (sint k + sint ?o)" unfolding m_def by (simp add: sint_word_ariths(1) so)
    also have "sint k + sint ?o = newnice" by (simp add: nw)
    also have "signed_take_bit 15 newnice = (if newnice > 32767 then newnice - 65536 else newnice)"
    proof (cases "newnice > 32767")
      case True
      have "newnice < 65536 + (32768 :: int)" "newnice \<ge> 32768" using True \<open>sint k < 32768\<close> o by (simp_all add: nw)
      then have "signed_take_bit 15 (newnice - 65536) = newnice - 65536" by (intro signed_take_bit_int_eq_self) auto
      moreover have "signed_take_bit 15 newnice = signed_take_bit 15 (newnice - 65536)"
        by (simp add: signed_take_bit_eq_iff_take_bit_eq take_bit_eq_mod)
      ultimately show ?thesis using True by simp
    next
      case False
      then show ?thesis using \<open>-32768 \<le> sint k\<close> o by (auto intro!: signed_take_bit_int_eq_self simp: nw)
    qed
    finally show ?thesis .
  qed
  have sum_hi: "newnice < 32808" using \<open>sint k < 32768\<close> o by (simp_all add: nw)
  have r: "sint r = (if newnice > 32767 then 0 else max 0 (min 39 newnice))"
  proof (cases "sint m \<ge> 40")
    case True
    then show ?thesis using m sum_hi by (auto simp: r_def Let_def split: if_splits)
  next
    case False
    then show ?thesis using m sum_hi by (auto simp: r_def Let_def split: if_splits)
  qed
  then have rb: "0 \<le> sint r" "sint r \<le> 39" by auto
  have "p_nice (procs (nice n s) (cur s)) = ucast r"
    by (simp add: nice_def suser_def r_def m_def k_def Let_def upd_proc_def set_error_def NZERO_def)
  moreover have "sint (ucast r :: u8) = sint r"
  proof -
    have "uint r = take_bit 16 (sint r)" by (simp add: uint_sint)
    then have u: "uint r = sint r" using rb by (simp add: take_bit_int_eq_self)
    have w: "sint (word_of_int v :: u8) = v" if "0 \<le> v" "v \<le> 39" for v
      using that by (simp add: sint_sbintrunc' signed_take_bit_int_eq_self)
    have "(ucast r :: u8) = word_of_int (uint r)" by simp
    then show ?thesis unfolding u using w [OF rb] by simp
  qed
  ultimately show ?thesis using r by simp
qed

theorem nice_effect_witness:
  "sint (p_nice (procs (nice 32767 demo_ust) 5)) = 0 \<and> sint (p_nice (procs (nice 4 demo_ust) 5)) = 24"
proof -
  have "0 \<le> sint (p_nice (procs demo_ust (cur demo_ust)))" "sint (p_nice (procs demo_ust (cur demo_ust))) < 2 * NZERO"
    by (simp_all add: demo_ust_def demo_proc_def NZERO_def)
  note n = nice_effect [OF this]
  show ?thesis using n [of 32767] n [of 4] by (simp add: demo_ust_def demo_proc_def)
qed

text \<open>The calls that read or set a user's identity, priority and the like, in any order and with any arguments.\<close>

inductive id_call :: "'z ust_scheme \<Rightarrow> 'z ust_scheme \<Rightarrow> bool" where
  setuid: "id_call s (setuid u s)"
| setgid: "id_call s (setgid g s)"
| getuid: "id_call s (getuid s)"
| getgid: "id_call s (getgid s)"
| getpid: "id_call s (getpid s)"
| gtime: "id_call s (gtime s)"
| stime: "id_call s (stime t s)"
| nice: "id_call s (nice n s)"
| ssig: "id_call s (ssig sig f s)"
| alarm: "id_call s (alarm t s)"
| umask: "id_call s (umask m s)"
| profil: "id_call s (profil a b c d s)"

definition unprivileged :: "u16 \<Rightarrow> u16 \<Rightarrow> u32 \<Rightarrow> 'z ust_scheme \<Rightarrow> bool" where
  "unprivileged r e t s = (u_ruid s = r \<and> u_uid s \<in> {r, e} \<and> time s = t \<and> p_uid (procs s (cur s)) \<in> {r, e})"

lemma id_call_unprivileged:
  assumes "id_call s s'" and "r \<noteq> 0" "e \<noteq> 0" and "unprivileged r e t s"
  shows "unprivileged r e t s'"
  using assms
  by (cases rule: id_call.cases)
    (auto simp: unprivileged_def setuid_def setgid_def getuid_def getgid_def getpid_def gtime_def ret_long_def stime_def nice_def ssig_def
      alarm_def umask_def profil_def suser_def set_error_def upd_proc_def Let_def)

text \<open>
  C35. Whatever identity calls a process makes that is neither really nor effectively the super-user's, it never becomes one: its
  effective user stays the old one or its real user, also in the process table where \<open>kill\<close> looks, and the time of day is not set.
\<close>

theorem no_privilege_gained:
  assumes "id_call\<^sup>*\<^sup>* s t" and "u_uid s \<noteq> 0" "u_ruid s \<noteq> 0" and "p_uid (procs s (cur s)) \<in> {u_ruid s, u_uid s}"
  shows "u_ruid t = u_ruid s \<and> u_uid t \<in> {u_ruid s, u_uid s} \<and> p_uid (procs t (cur t)) \<in> {u_ruid s, u_uid s} \<and> time t = time s"
proof -
  have "unprivileged (u_ruid s) (u_uid s) (time s) t"
    using assms(1)
  proof (induction rule: rtranclp_induct)
    case base
    then show ?case using assms(4) by (simp add: unprivileged_def)
  next
    case (step x y)
    then show ?case using id_call_unprivileged assms(2,3) by blast
  qed
  then show ?thesis by (simp add: unprivileged_def)
qed

theorem no_privilege_gained_witness:
  "let s = upd_proc 5 (\<lambda>x. x\<lparr>p_uid := 3\<rparr>) demo_ust; t = setuid 0 (nice 5 s)
   in u_ruid t = u_ruid s \<and> u_uid t \<in> {u_ruid s, u_uid s} \<and> p_uid (procs t (cur t)) \<in> {u_ruid s, u_uid s} \<and> time t = time s"
  unfolding Let_def
proof (rule no_privilege_gained)
  let ?s = "upd_proc 5 (\<lambda>x. x\<lparr>p_uid := 3\<rparr>) demo_ust"
  have "id_call\<^sup>*\<^sup>* ?s (nice 5 ?s)" by (rule r_into_rtranclp) (rule id_call.nice)
  then show "id_call\<^sup>*\<^sup>* ?s (setuid 0 (nice 5 ?s))" by (rule rtranclp.rtrancl_into_rtrancl) (rule id_call.setuid)
qed (simp_all add: upd_proc_def demo_ust_def)


end
