(* ===== verification/Crypt.thy ===== *)
theory Crypt
  imports V7_Prelude
begin

text \<open>
  The data encryption standard and the encryption of passwords (\<open>libc/gen/crypt.c\<close>): the key schedule, \<open>encrypt\<close> in both
  directions and \<open>crypt\<close>. The static arrays (the selection table \<open>E\<close> and the key schedule) are arguments. The
  properties are that decryption undoes encryption, when it does not, and what a password entry looks like.
\<close>

unbundle bit_operations_syntax

section \<open>The tables\<close>

text \<open>
  Bits are kept one to a char, 0 or 1. The tables of the standard count from 1, except the selection functions.
\<close>

definition IP :: "nat list" where
  "IP = [58, 50, 42, 34, 26, 18, 10, 2, 60, 52, 44, 36, 28, 20, 12, 4,
    62, 54, 46, 38, 30, 22, 14, 6, 64, 56, 48, 40, 32, 24, 16, 8,
    57, 49, 41, 33, 25, 17, 9, 1, 59, 51, 43, 35, 27, 19, 11, 3,
    61, 53, 45, 37, 29, 21, 13, 5, 63, 55, 47, 39, 31, 23, 15, 7]"

definition FP :: "nat list" where
  "FP = [40, 8, 48, 16, 56, 24, 64, 32, 39, 7, 47, 15, 55, 23, 63, 31,
    38, 6, 46, 14, 54, 22, 62, 30, 37, 5, 45, 13, 53, 21, 61, 29,
    36, 4, 44, 12, 52, 20, 60, 28, 35, 3, 43, 11, 51, 19, 59, 27,
    34, 2, 42, 10, 50, 18, 58, 26, 33, 1, 41, 9, 49, 17, 57, 25]"

definition PC1_C :: "nat list" where
  "PC1_C = [57, 49, 41, 33, 25, 17, 9, 1, 58, 50, 42, 34, 26, 18, 10, 2,
    59, 51, 43, 35, 27, 19, 11, 3, 60, 52, 44, 36]"

definition PC1_D :: "nat list" where
  "PC1_D = [63, 55, 47, 39, 31, 23, 15, 7, 62, 54, 46, 38, 30, 22, 14, 6,
    61, 53, 45, 37, 29, 21, 13, 5, 28, 20, 12, 4]"

definition shifts :: "nat list" where
  "shifts = [1, 1, 2, 2, 2, 2, 2, 2, 1, 2, 2, 2, 2, 2, 2, 1]"

definition PC2_C :: "nat list" where
  "PC2_C = [14, 17, 11, 24, 1, 5, 3, 28, 15, 6, 21, 10, 23, 19, 12, 4,
    26, 8, 16, 7, 27, 20, 13, 2]"

definition PC2_D :: "nat list" where
  "PC2_D = [41, 52, 31, 37, 47, 55, 30, 40, 51, 45, 33, 48, 44, 49, 39, 56,
    34, 53, 46, 42, 50, 36, 29, 32]"

definition E_init :: "nat list" where
  "E_init = [32, 1, 2, 3, 4, 5, 4, 5, 6, 7, 8, 9, 8, 9, 10, 11,
    12, 13, 12, 13, 14, 15, 16, 17, 16, 17, 18, 19, 20, 21, 20, 21,
    22, 23, 24, 25, 24, 25, 26, 27, 28, 29, 28, 29, 30, 31, 32, 1]"

definition P_tab :: "nat list" where
  "P_tab = [16, 7, 20, 21, 29, 12, 28, 17, 1, 15, 23, 26, 5, 18, 31, 10,
    2, 8, 24, 14, 32, 27, 3, 9, 19, 13, 30, 6, 22, 11, 4, 25]"

definition S_box :: "int list list" where
  "S_box = [
   [14, 4, 13, 1, 2, 15, 11, 8, 3, 10, 6, 12, 5, 9, 0, 7,
    0, 15, 7, 4, 14, 2, 13, 1, 10, 6, 12, 11, 9, 5, 3, 8,
    4, 1, 14, 8, 13, 6, 2, 11, 15, 12, 9, 7, 3, 10, 5, 0,
    15, 12, 8, 2, 4, 9, 1, 7, 5, 11, 3, 14, 10, 0, 6, 13],
   [15, 1, 8, 14, 6, 11, 3, 4, 9, 7, 2, 13, 12, 0, 5, 10,
    3, 13, 4, 7, 15, 2, 8, 14, 12, 0, 1, 10, 6, 9, 11, 5,
    0, 14, 7, 11, 10, 4, 13, 1, 5, 8, 12, 6, 9, 3, 2, 15,
    13, 8, 10, 1, 3, 15, 4, 2, 11, 6, 7, 12, 0, 5, 14, 9],
   [10, 0, 9, 14, 6, 3, 15, 5, 1, 13, 12, 7, 11, 4, 2, 8,
    13, 7, 0, 9, 3, 4, 6, 10, 2, 8, 5, 14, 12, 11, 15, 1,
    13, 6, 4, 9, 8, 15, 3, 0, 11, 1, 2, 12, 5, 10, 14, 7,
    1, 10, 13, 0, 6, 9, 8, 7, 4, 15, 14, 3, 11, 5, 2, 12],
   [7, 13, 14, 3, 0, 6, 9, 10, 1, 2, 8, 5, 11, 12, 4, 15,
    13, 8, 11, 5, 6, 15, 0, 3, 4, 7, 2, 12, 1, 10, 14, 9,
    10, 6, 9, 0, 12, 11, 7, 13, 15, 1, 3, 14, 5, 2, 8, 4,
    3, 15, 0, 6, 10, 1, 13, 8, 9, 4, 5, 11, 12, 7, 2, 14],
   [2, 12, 4, 1, 7, 10, 11, 6, 8, 5, 3, 15, 13, 0, 14, 9,
    14, 11, 2, 12, 4, 7, 13, 1, 5, 0, 15, 10, 3, 9, 8, 6,
    4, 2, 1, 11, 10, 13, 7, 8, 15, 9, 12, 5, 6, 3, 0, 14,
    11, 8, 12, 7, 1, 14, 2, 13, 6, 15, 0, 9, 10, 4, 5, 3],
   [12, 1, 10, 15, 9, 2, 6, 8, 0, 13, 3, 4, 14, 7, 5, 11,
    10, 15, 4, 2, 7, 12, 9, 5, 6, 1, 13, 14, 0, 11, 3, 8,
    9, 14, 15, 5, 2, 8, 12, 3, 7, 0, 4, 10, 1, 13, 11, 6,
    4, 3, 2, 12, 9, 5, 15, 10, 11, 14, 1, 7, 6, 0, 8, 13],
   [4, 11, 2, 14, 15, 0, 8, 13, 3, 12, 9, 7, 5, 10, 6, 1,
    13, 0, 11, 7, 4, 9, 1, 10, 14, 3, 5, 12, 2, 15, 8, 6,
    1, 4, 11, 13, 12, 3, 7, 14, 10, 15, 6, 8, 0, 5, 9, 2,
    6, 11, 13, 8, 1, 4, 10, 7, 9, 5, 0, 15, 14, 2, 3, 12],
   [13, 2, 8, 4, 6, 15, 11, 1, 10, 9, 3, 14, 5, 0, 12, 7,
    1, 15, 13, 8, 10, 3, 7, 4, 12, 5, 6, 11, 0, 14, 9, 2,
    7, 11, 4, 1, 9, 12, 14, 2, 0, 6, 10, 13, 15, 3, 5, 8,
    2, 1, 14, 7, 4, 10, 8, 13, 15, 12, 9, 0, 3, 5, 6, 11]]"


section \<open>The key schedule\<close>

text \<open>\<open>setkey\<close>: \<open>C\<close> and \<open>D\<close> are rotated by one or two places for each of the 16 keys.\<close>

definition rotl :: "int list \<Rightarrow> int list" where
  "rotl C = (let t = C ! 0; C = fold (\<lambda>j C. C[j := C ! (j + 1)]) [0..<27] C in C[27 := t])"

definition one_key :: "int list \<Rightarrow> int list \<Rightarrow> int list" where
  "one_key C D = map (\<lambda>j. C ! (j - 1)) PC2_C @ map (\<lambda>j. D ! (j - 28 - 1)) PC2_D"

fun key_rounds :: "nat list \<Rightarrow> int list \<Rightarrow> int list \<Rightarrow> int list list" where
  "key_rounds [] C D = []"
| "key_rounds (k # ks) C D =
     (let C = (rotl ^^ k) C; D = (rotl ^^ k) D in one_key C D # key_rounds ks C D)"

definition setkey :: "int list \<Rightarrow> int list list" where
  "setkey key = key_rounds shifts (map (\<lambda>j. key ! (j - 1)) PC1_C) (map (\<lambda>j. key ! (j - 1)) PC1_D)"


section \<open>Encryption\<close>

text \<open>
  The halves \<open>L\<close> and \<open>R\<close> follow each other in memory, which the first and the last loop of \<open>encrypt\<close> use: here they are one
  list of 64, and \<open>R[k]\<close> is its element \<open>32 + k\<close> (also for \<open>k\<close> = -1, that is an \<open>E\<close> of 0). \<open>E\<close> is the
  selection table, a static array that \<open>crypt\<close> fills in and that is zero before.
\<close>

definition preS :: "nat list \<Rightarrow> int list \<Rightarrow> int list \<Rightarrow> int list" where
  "preS E LR K = map (\<lambda>j. LR ! (32 + E ! j - 1) XOR K ! j) [0..<48]"

definition select_bits :: "int list \<Rightarrow> nat \<Rightarrow> int list" where
  "select_bits p j =
     (let t = 6 * j;
          k = S_box ! j ! nat (push_bit 5 (p ! (t + 0)) + push_bit 3 (p ! (t + 1)) + push_bit 2 (p ! (t + 2)) +
            push_bit 1 (p ! (t + 3)) + push_bit 0 (p ! (t + 4)) + push_bit 4 (p ! (t + 5)))
      in [drop_bit 3 k AND 1, drop_bit 2 k AND 1, drop_bit 1 k AND 1, drop_bit 0 k AND 1])"

definition f_bits :: "nat list \<Rightarrow> int list \<Rightarrow> int list \<Rightarrow> int list" where
  "f_bits E LR K = concat (map (select_bits (preS E LR K)) [0..<8])"

definition des_round :: "nat list \<Rightarrow> int list \<Rightarrow> int list \<Rightarrow> int list" where
  "des_round E K LR =
     (let tempL = drop 32 LR; f = f_bits E LR K
      in tempL @ map (\<lambda>j. LR ! j XOR f ! (P_tab ! j - 1)) [0..<32])"

definition encrypt :: "nat list \<Rightarrow> int list list \<Rightarrow> bool \<Rightarrow> int list \<Rightarrow> int list" where
  "encrypt E KS edflag block =
     (let LR = map (\<lambda>j. block ! (j - 1)) IP;
          LR = fold (\<lambda>ii. des_round E (KS ! (if edflag then 15 - ii else ii))) [0..<16] LR;
          LR = drop 32 LR @ take 32 LR
      in map (\<lambda>j. LR ! (j - 1)) FP)"


section \<open>Passwords\<close>

text \<open>The 7 low bits of each character of the password, the highest first, followed by an unused place; at most 64 places.\<close>

fun pw_bits :: "nat \<Rightarrow> int list \<Rightarrow> int list \<Rightarrow> int list" where
  "pw_bits i [] block = block"
| "pw_bits i (c # pw) block =
     (if c = 0 \<or> i \<ge> 64 then block
      else pw_bits (i + 8) pw (fold (\<lambda>j b. b[i + j := drop_bit (6 - j) c AND 1]) [0..<7] block))"

definition unsalt :: "int \<Rightarrow> int" where
  "unsalt c = (let c = (if c > 90 then c - 6 else c); c = (if c > 57 then c - 7 else c) in c - 46)"

definition salt_swap :: "int \<Rightarrow> nat \<Rightarrow> nat list \<Rightarrow> nat list" where
  "salt_swap c i E = fold (\<lambda>j E. if drop_bit j c AND 1 \<noteq> 0
     then E[6 * i + j := E ! (6 * i + j + 24), 6 * i + j + 24 := E ! (6 * i + j)] else E) [0..<6] E"

definition out_char :: "int list \<Rightarrow> nat \<Rightarrow> int" where
  "out_char block i =
     (let c = fold (\<lambda>j c. push_bit 1 c OR block ! (6 * i + j)) [0..<6] 0;
          c = c + 46; c = (if c > 57 then c + 7 else c)
      in if c > 90 then c + 6 else c)"

text \<open>\<open>crypt\<close> with the two characters of the salt; the answer is the string in \<open>iobuf\<close> without the final 0.\<close>

definition crypt :: "int list \<Rightarrow> int \<Rightarrow> int \<Rightarrow> int list" where
  "crypt pw s0 s1 =
     (let KS = setkey (pw_bits 0 pw (replicate 66 0));
          E = salt_swap (unsalt s1) 1 (salt_swap (unsalt s0) 0 E_init);
          block = ((\<lambda>b. encrypt E KS False (take 64 b) @ drop 64 b) ^^ 25) (replicate 66 0)
      in [s0, if s1 = 0 then s0 else s1] @ map (out_char block) [0..<11])"

section \<open>A round and its inverse\<close>

definition halves_swapped :: "int list \<Rightarrow> int list" where
  "halves_swapped LR = drop 32 LR @ take 32 LR"

definition selects_R :: "nat list \<Rightarrow> bool" where
  "selects_R E = (\<forall>j < 48. 1 \<le> E ! j \<and> E ! j \<le> 32)"

lemma f_bits_R:
  assumes "selects_R E" and "drop 32 LR = drop 32 LR'" "32 \<le> length LR" "32 \<le> length LR'"
  shows "f_bits E LR K = f_bits E LR' K"
proof -
  have "LR ! (32 + E ! j - 1) = LR' ! (32 + E ! j - 1)" if "j < 48" for j
  proof -
    have "1 \<le> E ! j" using assms(1) that by (simp add: selects_R_def)
    then have e: "32 + E ! j - 1 = 32 + (E ! j - 1)" by simp
    show ?thesis unfolding e using assms(2-4) nth_drop [of 32 LR "E ! j - 1"] nth_drop [of 32 LR' "E ! j - 1"] by simp
  qed
  then have "preS E LR K = preS E LR' K" by (simp add: preS_def)
  then show ?thesis by (simp add: f_bits_def)
qed

lemma length_des_round: "length LR = 64 \<Longrightarrow> length (des_round E K LR) = 64"
  by (simp add: des_round_def Let_def)

lemma des_round_again:
  assumes "selects_R E" and "length LR = 64"
  shows "des_round E K (halves_swapped (des_round E K LR)) = halves_swapped LR"
proof -
  let ?f = "f_bits E LR K" and ?g = "\<lambda>j. P_tab ! j - 1"
  have r: "des_round E K LR = drop 32 LR @ map (\<lambda>j. LR ! j XOR ?f ! ?g j) [0..<32]" by (simp add: des_round_def Let_def)
  have h: "halves_swapped (des_round E K LR) = map (\<lambda>j. LR ! j XOR ?f ! ?g j) [0..<32] @ drop 32 LR"
    using assms(2) by (simp add: r halves_swapped_def)
  have "f_bits E (halves_swapped (des_round E K LR)) K = ?f"
    unfolding h by (rule f_bits_R [OF assms(1)]) (use assms(2) in simp_all)
  moreover have "des_round E K H = drop 32 H @ map (\<lambda>j. H ! j XOR f_bits E H K ! ?g j) [0..<32]" for H
    by (simp add: des_round_def Let_def)
  ultimately have "des_round E K (halves_swapped (des_round E K LR)) =
      drop 32 (halves_swapped (des_round E K LR)) @ map (\<lambda>j. halves_swapped (des_round E K LR) ! j XOR ?f ! ?g j) [0..<32]" by simp
  also have "drop 32 (halves_swapped (des_round E K LR)) = drop 32 LR" unfolding h by simp
  also have "map (\<lambda>j. halves_swapped (des_round E K LR) ! j XOR ?f ! ?g j) [0..<32] = take 32 LR"
    using assms(2) unfolding h by (intro nth_equalityI) (simp_all add: nth_append xor.assoc)
  finally show ?thesis by (simp add: halves_swapped_def)
qed

lemma length_rounds: "length LR = 64 \<Longrightarrow> length (fold (\<lambda>K. des_round E K) Ks LR) = 64"
  by (induction Ks arbitrary: LR) (simp_all add: length_des_round)

lemma rounds_undone:
  assumes "selects_R E" and "length LR = 64"
  shows "fold (\<lambda>K. des_round E K) (rev Ks) (halves_swapped (fold (\<lambda>K. des_round E K) Ks LR)) = halves_swapped LR"
  using assms(2)
proof (induction Ks arbitrary: LR)
  case (Cons K Ks)
  have "length (des_round E K LR) = 64" using Cons.prems by (rule length_des_round)
  then show ?case using Cons.IH des_round_again [OF assms(1) Cons.prems] by simp
qed simp

lemma halves_swapped_twice: "length LR = 64 \<Longrightarrow> halves_swapped (halves_swapped LR) = LR"
  by (simp add: halves_swapped_def)

text \<open>The initial and the final permutation.\<close>

definition permuted :: "nat list \<Rightarrow> int list \<Rightarrow> int list" where
  "permuted T b = map (\<lambda>j. b ! (j - 1)) T"

lemma IP_FP: "\<forall>k \<in> set [0..<64]. IP ! (FP ! k - 1) = k + 1" "\<forall>k \<in> set [0..<64]. FP ! (IP ! k - 1) = k + 1"
  by code_simp+

lemma table_lengths [simp]: "length IP = 64" "length FP = 64"
  by (simp_all add: IP_def FP_def)

lemma table_ranges: "\<forall>k \<in> set [0..<64]. FP ! k - 1 < 64" "\<forall>k \<in> set [0..<64]. IP ! k - 1 < 64"
  by code_simp+

lemma permuted_inverse:
  assumes "length b = 64"
  shows "permuted FP (permuted IP b) = b" "permuted IP (permuted FP b) = b"
proof -
  have "IP ! (FP ! k - 1) - 1 = k \<and> FP ! (IP ! k - 1) - 1 = k \<and> FP ! k - 1 < 64 \<and> IP ! k - 1 < 64" if "k < 64" for k
    using that IP_FP table_ranges by simp
  then show "permuted FP (permuted IP b) = b" "permuted IP (permuted FP b) = b"
    using assms by (auto intro!: nth_equalityI simp: permuted_def)
qed

lemma fold_keys: "fold (\<lambda>i. des_round E (KS ! g i)) is LR = fold (\<lambda>K. des_round E K) (map (\<lambda>i. KS ! g i) is) LR"
  by (induction "is" arbitrary: LR) simp_all

lemma encrypt_eq:
  "encrypt E KS ed b = permuted FP (halves_swapped (fold (\<lambda>K. des_round E K) (map (\<lambda>i. KS ! (if ed then 15 - i else i)) [0..<16]) (permuted IP b)))"
  unfolding encrypt_def Let_def fold_keys [of E KS "\<lambda>i. if ed then 15 - i else i", symmetric] permuted_def halves_swapped_def ..

text \<open>
  C36. \<open>encrypt\<close> with the flag set undoes \<open>encrypt\<close> without it, with the same keys, as long as the selection table takes its bits from the
  right half (as the table of the standard and every table that \<open>crypt\<close> makes do; the table of zeros that is there before the first call of \<open>crypt\<close> does not).
\<close>

theorem decrypt_encrypt:
  assumes "selects_R E" and "length b = 64"
  shows "encrypt E KS True (encrypt E KS False b) = b"
proof -
  let ?Ks = "map (\<lambda>i. KS ! i) [0..<16]" and ?r = "fold (\<lambda>K. des_round E K)"
  have rv: "map (\<lambda>i. KS ! (15 - i)) [0..<16] = rev ?Ks" by (rule nth_equalityI) (simp_all add: rev_nth)
  have len: "length (permuted IP b) = 64" by (simp add: permuted_def)
  then have len2: "length (halves_swapped (?r ?Ks (permuted IP b))) = 64"
    using length_rounds [OF len] by (simp add: halves_swapped_def)
  have "encrypt E KS True (encrypt E KS False b) = permuted FP (halves_swapped (?r (rev ?Ks) (halves_swapped (?r ?Ks (permuted IP b)))))"
    unfolding encrypt_eq using permuted_inverse(2) [OF len2] by (simp add: rv)
  also have "\<dots> = permuted FP (halves_swapped (halves_swapped (permuted IP b)))"
    using rounds_undone [OF assms(1) len] by simp
  also have "\<dots> = b" using halves_swapped_twice [OF len] permuted_inverse(1) [OF assms(2)] by simp
  finally show ?thesis .
qed

lemma E_init_selects: "selects_R E_init"
proof -
  have "\<forall>j \<in> set [0..<48]. 1 \<le> E_init ! j \<and> E_init ! j \<le> 32" by code_simp
  then show ?thesis by (simp add: selects_R_def)
qed

theorem decrypt_encrypt_witness:
  "encrypt E_init (setkey (replicate 64 1)) True (encrypt E_init (setkey (replicate 64 1)) False (replicate 64 0)) = replicate 64 0"
  by (rule decrypt_encrypt [OF E_init_selects]) simp


section \<open>The characters of a password entry\<close>

definition bits :: "int list \<Rightarrow> bool" where
  "bits xs = (\<forall>x \<in> set xs. x = 0 \<or> x = 1)"

lemma bits_simps [simp]: "bits (xs @ ys) = (bits xs \<and> bits ys)" "bits xs \<Longrightarrow> bits (drop n xs)" "bits xs \<Longrightarrow> bits (take n xs)"
  by (auto simp: bits_def dest: in_set_dropD in_set_takeD)

lemma bits_mapI: "(\<And>x. x \<in> set xs \<Longrightarrow> f x = 0 \<or> f x = 1) \<Longrightarrow> bits (map f xs)"
  by (simp add: bits_def)

lemma bits_nth: "bits xs \<Longrightarrow> i < length xs \<Longrightarrow> xs ! i = 0 \<or> xs ! i = 1"
  by (simp add: bits_def)

lemma and_1_bit: "(x :: int) AND 1 = 0 \<or> x AND 1 = 1"
  by (simp add: and_one_eq) linarith

lemma xor_bit: "x = 0 \<or> x = (1 :: int) \<Longrightarrow> y = 0 \<or> y = 1 \<Longrightarrow> x XOR y = 0 \<or> x XOR y = 1"
  by auto

lemma f_bits_bits: "bits (f_bits E LR K)" "length (f_bits E LR K) = 32"
proof -
  show "bits (f_bits E LR K)" using and_1_bit by (auto simp: bits_def f_bits_def select_bits_def Let_def)
  show "length (f_bits E LR K) = 32" by (simp add: f_bits_def select_bits_def Let_def upt_rec)
qed

lemma P_tab_range: "\<forall>j \<in> set [0..<32]. P_tab ! j - 1 < 32"
  by code_simp

lemma des_round_bits:
  assumes "bits LR" "length LR = 64"
  shows "bits (des_round E K LR)"
proof -
  have "LR ! j XOR f_bits E LR K ! (P_tab ! j - 1) = 0 \<or> LR ! j XOR f_bits E LR K ! (P_tab ! j - 1) = 1" if "j < 32" for j
  proof (rule xor_bit)
    show "LR ! j = 0 \<or> LR ! j = 1" using bits_nth [OF assms(1), of j] assms(2) that by simp
    have "P_tab ! j - 1 < 32" using P_tab_range that by simp
    then show "f_bits E LR K ! (P_tab ! j - 1) = 0 \<or> f_bits E LR K ! (P_tab ! j - 1) = 1"
      using bits_nth [OF f_bits_bits(1)] f_bits_bits(2) by simp
  qed
  then show ?thesis unfolding des_round_def Let_def using assms(1) by (intro iffD2 [OF bits_simps(1)] conjI bits_simps(2) bits_mapI) simp_all
qed

lemma rounds_bits: "bits LR \<Longrightarrow> length LR = 64 \<Longrightarrow> bits (fold (\<lambda>K. des_round E K) Ks LR)"
  by (induction Ks arbitrary: LR) (simp_all add: length_des_round des_round_bits)

lemma permuted_bits: "bits b \<Longrightarrow> length b = 64 \<Longrightarrow> (\<forall>k \<in> set [0..<64]. T ! k - 1 < 64) \<Longrightarrow> length T = 64 \<Longrightarrow> bits (permuted T b)"
  unfolding permuted_def by (rule bits_mapI, rule bits_nth) (auto simp: in_set_conv_nth)

lemma encrypt_bits:
  assumes "bits b" "length b = 64"
  shows "bits (encrypt E KS ed b)" "length (encrypt E KS ed b) = 64"
proof -
  let ?r = "fold (\<lambda>K. des_round E K) (map (\<lambda>i. KS ! (if ed then 15 - i else i)) [0..<16]) (permuted IP b)"
  have ip: "bits (permuted IP b)" "length (permuted IP b) = 64"
    using permuted_bits [OF assms table_ranges(2)] by (simp_all add: permuted_def)
  have "bits ?r" "length ?r = 64" using rounds_bits [OF ip] length_rounds [OF ip(2)] by blast+
  then have "bits (halves_swapped ?r)" "length (halves_swapped ?r) = 64"
    by (auto simp: halves_swapped_def bits_def dest: in_set_dropD in_set_takeD)
  then show "bits (encrypt E KS ed b)" "length (encrypt E KS ed b) = 64"
    unfolding encrypt_eq using permuted_bits [OF _ _ table_ranges(1)] by (simp_all add: permuted_def)
qed

lemma bits_value: "(\<forall>x \<in> set xs. x = 0 \<or> x = (1 :: int)) \<Longrightarrow> 0 \<le> c \<Longrightarrow> c < 2 ^ m \<Longrightarrow>
   0 \<le> fold (\<lambda>x c. push_bit 1 c OR x) xs c \<and> fold (\<lambda>x c. push_bit 1 c OR x) xs c < 2 ^ (m + length xs)"
proof (induction xs arbitrary: c m)
  case (Cons x xs)
  have "push_bit 1 c OR x = 2 * c + x" using Cons.prems(1) by (auto simp: push_bit_eq_mult or_one_eq)
  moreover have "2 * c + x < 2 ^ Suc m" "0 \<le> 2 * c + x" using Cons.prems by auto
  ultimately show ?case using Cons.IH [of "push_bit 1 c OR x" "Suc m"] Cons.prems(1) by simp
qed simp

text \<open>The alphabet of an entry: the dot, the slash, the digits and the letters, as character codes.\<close>

definition entry_char :: "int \<Rightarrow> bool" where
  "entry_char c = (46 \<le> c \<and> c \<le> 57 \<or> 65 \<le> c \<and> c \<le> 90 \<or> 97 \<le> c \<and> c \<le> 122)"

lemma out_char_entry:
  assumes "bits block" "length block = 66" "i < 11"
  shows "entry_char (out_char block i)"
proof -
  let ?xs = "map (\<lambda>j. block ! (6 * i + j)) [0..<6]"
  have "fold (\<lambda>j c. push_bit 1 c OR block ! (6 * i + j)) [0..<6] 0 = fold (\<lambda>x c. push_bit 1 c OR x) ?xs 0"
    by (simp add: fold_map comp_def)
  moreover have "\<forall>x \<in> set ?xs. x = 0 \<or> x = 1" using assms by (auto simp: bits_def)
  ultimately have "0 \<le> fold (\<lambda>j c. push_bit 1 c OR block ! (6 * i + j)) [0..<6] 0" "fold (\<lambda>j c. push_bit 1 c OR block ! (6 * i + j)) [0..<6] 0 < 64"
    using bits_value [of ?xs 0 0] by simp_all
  then show ?thesis unfolding out_char_def Let_def entry_char_def by (auto split: if_splits)
qed

text \<open>
  Whatever the password and the salt, the answer of \<open>crypt\<close> has 13 characters: those of the salt (the first one twice, if there is
  no second one) and eleven of the 64 characters of the password file.
\<close>

theorem crypt_entry:
  "length (crypt pw s0 s1) = 13 \<and> take 2 (crypt pw s0 s1) = [s0, if s1 = 0 then s0 else s1] \<and>
     list_all entry_char (drop 2 (crypt pw s0 s1))"
proof -
  define E where "E = salt_swap (unsalt s1) 1 (salt_swap (unsalt s0) 0 E_init)"
  define KS where "KS = setkey (pw_bits 0 pw (replicate 66 0))"
  let ?enc = "\<lambda>b. encrypt E KS False (take 64 b) @ drop 64 b"
  have "bits ((?enc ^^ n) (replicate 66 0)) \<and> length ((?enc ^^ n) (replicate 66 0)) = 66" for n
  proof (induction n)
    case 0
    then show ?case by (simp add: bits_def)
  next
    case (Suc n)
    let ?b = "(?enc ^^ n) (replicate 66 0)"
    have b: "bits (take 64 ?b)" "length (take 64 ?b) = 64" "bits (drop 64 ?b)" using Suc.IH by simp_all
    then show ?case using encrypt_bits [OF b(1,2)] Suc.IH by simp
  qed
  then have "list_all entry_char (map (out_char ((?enc ^^ 25) (replicate 66 0))) [0..<11])"
    using out_char_entry by (simp add: list_all_iff)
  then show ?thesis unfolding crypt_def Let_def E_def KS_def by simp
qed

lemma setkey_zero: "setkey (replicate 64 0) = replicate 16 (replicate 48 0)"
proof -
  have rot: "rotl (replicate 28 0) = replicate 28 0" by code_simp
  have rots: "(rotl ^^ k) (replicate 28 0) = replicate 28 0" for k by (induction k) (simp_all add: rot)
  have one: "one_key (replicate 28 0) (replicate 28 0) = replicate 48 0" by code_simp
  have "map (\<lambda>j. replicate 64 (0 :: int) ! (j - 1)) PC1_C = replicate 28 0" "map (\<lambda>j. replicate 64 (0 :: int) ! (j - 1)) PC1_D = replicate 28 0"
    by code_simp+
  then show ?thesis unfolding setkey_def
    by (simp only: shifts_def key_rounds.simps rots one Let_def) (simp add: numeral_eq_Suc)
qed

lemma unset_table:
  "encrypt (replicate 48 0) (replicate 16 (replicate 48 0)) True (encrypt (replicate 48 0) (replicate 16 (replicate 48 0)) False
    ((replicate 64 0)[7 := 1, 9 := 1, 24 := 1])) \<noteq> (replicate 64 0)[7 := 1, 9 := 1, 24 := 1]"
  by code_simp

text \<open>
  A program that calls \<open>setkey\<close> and \<open>encrypt\<close> without having called \<open>crypt\<close> does not get the cipher: the selection table is then still zero,
  \<open>encrypt\<close> reads a bit of the left half in front of \<open>R\<close>, and decryption does not give the block back.
\<close>

theorem unset_table_not_inverse:
  "let E = replicate 48 0; KS = setkey (replicate 64 0); b = (replicate 64 0)[7 := 1, 9 := 1, 24 := 1]
   in encrypt E KS True (encrypt E KS False b) \<noteq> b"
  unfolding Let_def setkey_zero by (rule unset_table)


end
