(* ===== verification/Layout.thy ===== *)
theory Layout
  imports V7_Prelude
begin

text \<open>
  How the integers of the PDP-11 lie in memory, and the fields of a block of bytes: what the programs rely on when a structure is
  read from a disk block or written to it.
\<close>

unbundle bit_operations_syntax

section \<open>Integers as bytes\<close>

text \<open>
  An \<open>int\<close> of the PDP-11 in memory has its low byte first; a \<open>long\<close> has its high word first, and each word with its low byte first.
\<close>

definition int_bytes :: "u16 \<Rightarrow> u8 list" where
  "int_bytes w = [ucast w, ucast (drop_bit 8 w)]"

definition bytes_int :: "u8 list \<Rightarrow> u16" where
  "bytes_int b = ucast (b ! 0) OR push_bit 8 (ucast (b ! 1))"

definition long_bytes :: "u32 \<Rightarrow> u8 list" where
  "long_bytes w = [ucast (drop_bit 16 w), ucast (drop_bit 24 w), ucast w, ucast (drop_bit 8 w)]"

definition bytes_long :: "u8 list \<Rightarrow> u32" where
  "bytes_long b = push_bit 16 (ucast (b ! 0)) OR push_bit 24 (ucast (b ! 1)) OR ucast (b ! 2) OR push_bit 8 (ucast (b ! 3))"

lemma length_int_bytes [simp]: "length (int_bytes w) = 2" by (simp add: int_bytes_def)
lemma length_long_bytes [simp]: "length (long_bytes w) = 4" by (simp add: long_bytes_def)

lemma bytes_int_bytes [simp]: "bytes_int (int_bytes w) = w"
  by (rule bit_word_eqI) (auto simp: bytes_int_def int_bytes_def bit_simps)

lemma bytes_long_bytes [simp]: "bytes_long (long_bytes w) = w"
proof (rule bit_word_eqI)
  fix n assume n: "n < LENGTH(32)"
  then consider "n < 8" | "8 \<le> n" "n < 16" | "16 \<le> n" "n < 24" | "24 \<le> n" "n < 32" by fastforce
  then show "bit (bytes_long (long_bytes w)) n = bit w n"
    using n by cases (auto simp: bytes_long_def long_bytes_def bit_simps)
qed

lemma long_bytes_inj: "long_bytes v = long_bytes w \<longleftrightarrow> v = w"
  by (metis bytes_long_bytes)

text \<open>An array of longs.\<close>

definition longs_bytes :: "u32 list \<Rightarrow> u8 list" where
  "longs_bytes ls = concat (map long_bytes ls)"

fun bytes_longs :: "nat \<Rightarrow> u8 list \<Rightarrow> u32 list" where
  "bytes_longs 0 b = []"
| "bytes_longs (Suc n) b = bytes_long (take 4 b) # bytes_longs n (drop 4 b)"

lemma length_longs_bytes [simp]: "length (longs_bytes ls) = 4 * length ls"
  by (induction ls) (simp_all add: longs_bytes_def)

lemma length_bytes_longs [simp]: "length (bytes_longs n b) = n"
  by (induction n b rule: bytes_longs.induct) simp_all

lemma bytes_longs_bytes: "bytes_longs (length ls) (longs_bytes ls @ r) = ls"
  by (induction ls) (simp_all add: longs_bytes_def)

lemma bytes_longs_zero: "bytes_longs n (replicate (4 * n) 0) = replicate n 0"
proof (induction n)
  case (Suc n)
  have "replicate (4 * Suc n) (0 :: u8) = replicate 4 0 @ replicate (4 * n) 0" by (simp add: replicate_add [symmetric])
  then show ?case using Suc by (simp add: bytes_long_def numeral_eq_Suc)
qed simp

text \<open>An array of ints.\<close>

definition ints_bytes :: "u16 list \<Rightarrow> u8 list" where
  "ints_bytes ls = concat (map int_bytes ls)"

fun bytes_ints :: "nat \<Rightarrow> u8 list \<Rightarrow> u16 list" where
  "bytes_ints 0 b = []"
| "bytes_ints (Suc n) b = bytes_int (take 2 b) # bytes_ints n (drop 2 b)"

lemma length_ints_bytes [simp]: "length (ints_bytes ls) = 2 * length ls"
  by (induction ls) (simp_all add: ints_bytes_def)

lemma bytes_ints_bytes: "bytes_ints (length ls) (ints_bytes ls @ r) = ls"
  by (induction ls) (simp_all add: ints_bytes_def)

section \<open>Fields of a block\<close>

definition get_bytes :: "nat \<Rightarrow> nat \<Rightarrow> u8 list \<Rightarrow> u8 list" where
  "get_bytes a n b = take n (drop a b)"

definition put_bytes :: "nat \<Rightarrow> u8 list \<Rightarrow> u8 list \<Rightarrow> u8 list" where
  "put_bytes a xs b = take a b @ xs @ drop (a + length xs) b"

lemma length_put_bytes [simp]: "a + length xs \<le> length b \<Longrightarrow> length (put_bytes a xs b) = length b"
  by (simp add: put_bytes_def)

lemma length_get_bytes [simp]: "a + n \<le> length b \<Longrightarrow> length (get_bytes a n b) = n"
  by (simp add: get_bytes_def)

lemma get_put_bytes: "a \<le> length b \<Longrightarrow> get_bytes a (length xs) (put_bytes a xs b) = xs"
  by (simp add: get_bytes_def put_bytes_def)

lemma get_put_other:
  assumes "a + length xs \<le> length b" "c + n \<le> a \<or> a + length xs \<le> c"
  shows "get_bytes c n (put_bytes a xs b) = get_bytes c n b"
  using assms(2)
proof
  assume c: "c + n \<le> a"
  then have "drop c (put_bytes a xs b) = take (a - c) (drop c b) @ xs @ drop (a + length xs) b"
    using assms(1) by (simp add: put_bytes_def drop_take)
  then show ?thesis using c assms(1) by (simp add: get_bytes_def)
next
  assume c: "a + length xs \<le> c"
  then have "drop c (put_bytes a xs b) = drop c b"
    using assms(1) by (simp add: put_bytes_def)
  then show ?thesis by (simp add: get_bytes_def)
qed

lemma put_get_bytes:
  assumes "a + n \<le> length b"
  shows "put_bytes a (get_bytes a n b) b = b"
proof -
  have "take n (drop a b) @ drop (a + n) b = drop a b"
    using append_take_drop_id [of n "drop a b"] by (simp add: add.commute)
  then show ?thesis using assms by (simp add: put_bytes_def get_bytes_def)
qed


end
