(* ===== verification/Libc.thy ===== *)
theory Libc
  imports Layout
begin

text \<open>
  Strings and numbers of the C library (\<open>libc/gen\<close>): the string routines, \<open>atoi\<close> and \<open>atol\<close>, and the three-byte disk addresses of
  \<open>l3.c\<close>. Routines that only read a string take the bytes from the pointer on; routines that store take the memory and addresses
  in it. The properties are what the copies leave in memory, what the comparisons answer, what the numbers read are, and that
  packing and unpacking addresses are inverse.
\<close>

unbundle bit_operations_syntax

section \<open>Reading strings\<close>

text \<open>
  A \<open>char *\<close> that a routine only reads is the list of the bytes from there on; \<open>*p\<close> is its first byte and \<open>p + 1\<close> its tail. The
  byte after the last one given is the terminating NUL. Chars are signed.
\<close>

definition deref :: "u8 list \<Rightarrow> u8" where
  "deref p = (case p of [] \<Rightarrow> 0 | c # cs \<Rightarrow> c)"

lemma deref_simps [simp]: "deref [] = 0" "deref (c # cs) = c"
  by (simp_all add: deref_def)

lemma deref_nonzero [termination_simp]: "deref p \<noteq> 0 \<Longrightarrow> length p - Suc 0 < length p"
  by (cases p) simp_all

lemma sint_eq: "sint a = sint b \<longleftrightarrow> a = (b :: u8)"
  using signed_word_eqI by auto

text \<open>The string at a pointer: the bytes up to the NUL.\<close>

definition cstr :: "u8 list \<Rightarrow> u8 list" where
  "cstr p = takeWhile (\<lambda>c. c \<noteq> 0) p"

lemma cstr_unfold: "cstr p = (if deref p = 0 then [] else deref p # cstr (tl p))"
  by (cases p) (simp_all add: cstr_def)

function strlen_loop :: "u16 \<Rightarrow> u8 list \<Rightarrow> u16" where
  "strlen_loop n s = (if deref s = 0 then n else strlen_loop (n + 1) (tl s))"
  by pat_completeness auto
termination by (relation "measure (length \<circ> snd)") (auto simp: deref_nonzero)

declare strlen_loop.simps [simp del]

definition strlen :: "u8 list \<Rightarrow> u16" where
  "strlen s = strlen_loop 0 s"

function strcmp :: "u8 list \<Rightarrow> u8 list \<Rightarrow> int" where
  "strcmp s1 s2 =
     (if deref s1 = deref s2
      then if deref s1 = 0 then 0 else strcmp (tl s1) (tl s2)
      else sint (deref s1) - sint (deref s2))"
  by pat_completeness auto
termination by (relation "measure (length \<circ> fst)") (auto simp: deref_nonzero)

declare strcmp.simps [simp del]

function strncmp :: "u8 list \<Rightarrow> u8 list \<Rightarrow> int \<Rightarrow> int" where
  "strncmp s1 s2 n =
     (let n = n - 1 in
      if n \<ge> 0 \<and> deref s1 = deref s2
      then if deref s1 = 0 then 0 else strncmp (tl s1) (tl s2) n
      else if n < 0 then 0 else sint (deref s1) - sint (deref s2))"
  by pat_completeness auto
termination by (relation "measure (\<lambda>(s1, s2, n). length s1)") (auto simp: deref_nonzero)

declare strncmp.simps [simp del]

text \<open>\<open>index\<close> and \<open>rindex\<close>: a pointer is the offset into the string, NULL is \<^const>\<open>None\<close>.\<close>

function index :: "nat \<Rightarrow> u8 list \<Rightarrow> u8 \<Rightarrow> nat option" where
  "index i sp c = (if deref sp = c then Some i else if deref sp \<noteq> 0 then index (i + 1) (tl sp) c else None)"
  by pat_completeness auto
termination by (relation "measure (\<lambda>(i, sp, c). length sp)") (auto simp: deref_nonzero)

declare index.simps [simp del]

function rindex :: "nat \<Rightarrow> nat option \<Rightarrow> u8 list \<Rightarrow> u8 \<Rightarrow> nat option" where
  "rindex i r sp c =
     (let r = (if deref sp = c then Some i else r) in if deref sp \<noteq> 0 then rindex (i + 1) r (tl sp) c else r)"
  by pat_completeness auto
termination by (relation "measure (\<lambda>(i, r, sp, c). length sp)") (auto simp: deref_nonzero)

declare rindex.simps [simp del]

lemma strlen_loop_cstr: "strlen_loop n s = n + of_nat (length (cstr s))"
proof (induction n s rule: strlen_loop.induct)
  case (1 n s)
  then show ?case by (subst strlen_loop.simps, subst cstr_unfold) simp
qed

lemma strlen_cstr: "strlen s = of_nat (length (cstr s))"
  by (simp add: strlen_def strlen_loop_cstr)

text \<open>The byte at an offset of a string, padded with NULs.\<close>

definition char_at :: "u8 list \<Rightarrow> nat \<Rightarrow> u8" where
  "char_at s k = (if k < length (cstr s) then cstr s ! k else 0)"

lemma char_at_0 [simp]: "char_at s 0 = deref s"
  by (cases s) (simp_all add: char_at_def cstr_def)

lemma char_at_Suc: "deref s \<noteq> 0 \<Longrightarrow> char_at s (Suc k) = char_at (tl s) k"
  by (cases s) (simp_all add: char_at_def cstr_def)

text \<open>\<open>strcmp\<close> is 0 exactly on equal strings; otherwise the first difference decides, as signed chars.\<close>

lemma strcmp_equal: "strcmp s t = 0 \<longleftrightarrow> cstr s = cstr t"
proof (induction s t rule: strcmp.induct)
  case (1 s t)
  have "sint (deref s) = sint (deref t) \<longleftrightarrow> deref s = deref t" by (simp add: sint_eq)
  then show ?case
    using 1 by (subst strcmp.simps, subst cstr_unfold [of s], subst cstr_unfold [of t]) auto
qed

lemma strcmp_difference:
  "strcmp s t \<noteq> 0 \<Longrightarrow> \<exists>k. (\<forall>j < k. char_at s j = char_at t j) \<and> char_at s k \<noteq> char_at t k \<and>
     strcmp s t = sint (char_at s k) - sint (char_at t k)"
proof (induction s t rule: strcmp.induct)
  case (1 s t)
  show ?case
  proof (cases "deref s = deref t")
    case False
    then show ?thesis by (intro exI [of _ 0]) (simp add: strcmp.simps [of s t])
  next
    case True
    with 1(2) have nz: "deref s \<noteq> 0" and nzt: "deref t \<noteq> 0" and e: "strcmp s t = strcmp (tl s) (tl t)"
      by (auto simp: strcmp.simps [of s t])
    obtain k where k: "\<forall>j < k. char_at (tl s) j = char_at (tl t) j" "char_at (tl s) k \<noteq> char_at (tl t) k"
      "strcmp s t = sint (char_at (tl s) k) - sint (char_at (tl t) k)"
      using 1(1) [OF True nz] 1(2) unfolding e by blast
    have "char_at s j = char_at t j" if "j < Suc k" for j
      using that True k(1) by (cases j) (simp_all add: char_at_Suc nz nzt)
    then show ?thesis using k by (intro exI [of _ "Suc k"]) (simp add: char_at_Suc nz nzt)
  qed
qed

lemma strcmp_sign: "strcmp t s = - strcmp s t"
proof (induction s t rule: strcmp.induct)
  case (1 s t)
  then show ?case by (subst strcmp.simps, subst strcmp.simps [of s t]) auto
qed

lemma strcmp_unfold_less: "strcmp s t < 0 \<longleftrightarrow> sint (deref s) < sint (deref t) \<or> deref s = deref t \<and> deref s \<noteq> 0 \<and> strcmp (tl s) (tl t) < 0"
  by (subst strcmp.simps) (auto simp: sint_eq)

lemma strcmp_trans: "strcmp s t \<le> 0 \<Longrightarrow> strcmp t u \<le> 0 \<Longrightarrow> strcmp s u \<le> 0"
proof (induction s t arbitrary: u rule: strcmp.induct)
  case (1 s t)
  have inj: "sint (deref a) = sint (deref b) \<longleftrightarrow> deref a = deref b" for a b :: "u8 list" by (simp add: sint_eq)
  consider "deref s = deref t" "deref t = deref u" "deref s \<noteq> 0" | "deref s = deref u" "deref s = 0" | "sint (deref s) < sint (deref t)" | "sint (deref t) < sint (deref u)"
    | "sint (deref s) > sint (deref t) \<or> sint (deref t) > sint (deref u)"
    using inj [of s t] inj [of t u] by force
  then show ?case
  proof cases
    case 1
    then show ?thesis using "1.IH" [of "tl u"] "1.prems" by (simp add: strcmp.simps [of s] strcmp.simps [of t u])
  next
    case 2
    then show ?thesis by (simp add: strcmp.simps [of s])
  next
    case 3
    then have "sint (deref t) \<le> sint (deref u)" using "1.prems"(2) inj [of t u] by (auto simp: strcmp.simps [of t u] split: if_splits)
    then show ?thesis using 3 by (subst strcmp.simps) auto
  next
    case 4
    then have "sint (deref s) \<le> sint (deref t)" using "1.prems"(1) inj [of s t] by (auto simp: strcmp.simps [of s t] split: if_splits)
    then show ?thesis using 4 by (subst strcmp.simps) auto
  next
    case 5
    then show ?thesis using "1.prems" by (auto simp: strcmp.simps [of s t] strcmp.simps [of t u] split: if_splits)
  qed
qed

text \<open>\<open>strncmp\<close> compares the strings cut off after \<open>n\<close> bytes.\<close>

lemma cstr_take: "cstr (take n s) = take n (cstr s)"
proof (induction s arbitrary: n)
  case (Cons c s)
  then show ?case by (cases n) (simp_all add: cstr_def)
qed (simp add: cstr_def)

lemma strncmp_strcmp: "strncmp s t (int n) = strcmp (take n s) (take n t)"
proof (induction n arbitrary: s t)
  case 0
  show ?case by (subst strncmp.simps, subst strcmp.simps) (simp add: Let_def)
next
  case (Suc n)
  have d: "deref (take (Suc n) u) = deref u" "tl (take (Suc n) u) = take n (tl u)" for u by (cases u; simp)+
  show ?case
    by (subst strncmp.simps, subst strcmp.simps) (simp add: Let_def d Suc.IH)
qed

lemma index_find:
  "index i s c = (if c = 0 then Some (i + length (cstr s))
     else if c \<in> set (cstr s) then Some (i + length (takeWhile (\<lambda>d. d \<noteq> c) (cstr s))) else None)"
proof (induction i s c rule: index.induct)
  case (1 i s c)
  then show ?case by (subst index.simps, subst (1 2 3) cstr_unfold) auto
qed

lemma takeWhile_shorter: "\<exists>x \<in> set xs. \<not> P x \<Longrightarrow> length (takeWhile P xs) < length xs"
  by (induction xs) auto

lemma rindex_last:
  "rindex i r s c = (if c = 0 then Some (i + length (cstr s))
     else if c \<in> set (cstr s) then Some (i + length (cstr s) - 1 - length (takeWhile (\<lambda>d. d \<noteq> c) (rev (cstr s)))) else r)"
proof (induction i r s c rule: rindex.induct)
  case (1 i r s c)
  show ?case
  proof (cases "deref s = 0")
    case True
    moreover have "cstr s = []" using True by (subst cstr_unfold) simp
    ultimately show ?thesis by (subst rindex.simps) (simp add: Let_def)
  next
    case False
    define u where "u = cstr (tl s)"
    have le: "length (takeWhile (\<lambda>d. d \<noteq> c) (rev u)) < length u" if "c \<in> set u"
      using takeWhile_shorter [of "rev u" "\<lambda>d. d \<noteq> c"] that by auto
    have tw: "takeWhile (\<lambda>d. d \<noteq> c) (rev (deref s # u)) = (if c \<in> set u then takeWhile (\<lambda>d. d \<noteq> c) (rev u)
        else if deref s = c then rev u else rev (deref s # u))"
      by (auto simp: takeWhile_append)
    have "rindex i r s c = rindex (i + 1) (if deref s = c then Some i else r) (tl s) c"
      using False by (subst rindex.simps) (simp add: Let_def)
    also have "\<dots> = (if c = 0 then Some (i + 1 + length u)
       else if c \<in> set u then Some (i + 1 + length u - 1 - length (takeWhile (\<lambda>d. d \<noteq> c) (rev u))) else if deref s = c then Some i else r)"
      using 1 [OF refl False] by (simp add: u_def)
    finally show ?thesis
      unfolding cstr_unfold [of s] if_not_P [OF False] u_def [symmetric] tw using le by auto
  qed
qed

section \<open>Copying strings\<close>

text \<open>
  A routine that stores into a string works on the memory, a list of bytes; a pointer is an address in it. An access outside the
  memory is \<^const>\<open>None\<close>.
\<close>

text \<open>\<open>while (*s1++ = *s2++) ;\<close>\<close>

function strcpy_loop :: "nat \<Rightarrow> nat \<Rightarrow> u8 list \<Rightarrow> u8 list option" where
  "strcpy_loop s1 s2 m =
     (if s1 < length m \<and> s2 < length m
      then let c = m ! s2; m = m[s1 := c] in if c = 0 then Some m else strcpy_loop (s1 + 1) (s2 + 1) m
      else None)"
  by pat_completeness auto
termination by (relation "measure (\<lambda>(s1, s2, m). length m - s1)") auto

declare strcpy_loop.simps [simp del]

definition strcpy :: "nat \<Rightarrow> nat \<Rightarrow> u8 list \<Rightarrow> (nat \<times> u8 list) option" where
  "strcpy s1 s2 m = map_option (Pair s1) (strcpy_loop s1 s2 m)"

text \<open>\<open>while (*s1++) ; --s1;\<close>\<close>

function find_end :: "nat \<Rightarrow> u8 list \<Rightarrow> nat option" where
  "find_end s1 m = (if s1 < length m then if m ! s1 = 0 then Some s1 else find_end (s1 + 1) m else None)"
  by pat_completeness auto
termination by (relation "measure (\<lambda>(s1, m). length m - s1)") auto

declare find_end.simps [simp del]

definition strcat :: "nat \<Rightarrow> nat \<Rightarrow> u8 list \<Rightarrow> (nat \<times> u8 list) option" where
  "strcat s1 s2 m = (case find_end s1 m of None \<Rightarrow> None | Some e \<Rightarrow> map_option (Pair s1) (strcpy_loop e s2 m))"

function strncat_loop :: "nat \<Rightarrow> nat \<Rightarrow> int \<Rightarrow> u8 list \<Rightarrow> u8 list option" where
  "strncat_loop s1 s2 n m =
     (if s1 < length m \<and> s2 < length m
      then let c = m ! s2; m = m[s1 := c] in
        if c = 0 then Some m
        else let n = n - 1 in if n < 0 then Some (m[s1 := 0]) else strncat_loop (s1 + 1) (s2 + 1) n m
      else None)"
  by pat_completeness auto
termination by (relation "measure (\<lambda>(s1, s2, n, m). length m - s1)") auto

declare strncat_loop.simps [simp del]

definition strncat :: "nat \<Rightarrow> nat \<Rightarrow> int \<Rightarrow> u8 list \<Rightarrow> (nat \<times> u8 list) option" where
  "strncat s1 s2 n m = (case find_end s1 m of None \<Rightarrow> None | Some e \<Rightarrow> map_option (Pair s1) (strncat_loop e s2 n m))"

text \<open>\<open>strncpy\<close>: the count that is left, first the copying, then \<open>while (++i < n) *s1++ = 0\<close>.\<close>

fun pad_loop :: "nat \<Rightarrow> nat \<Rightarrow> u8 list \<Rightarrow> u8 list option" where
  "pad_loop s1 0 m = Some m"
| "pad_loop s1 (Suc n) m = (if s1 < length m then pad_loop (s1 + 1) n (m[s1 := 0]) else None)"

fun strncpy_loop :: "nat \<Rightarrow> nat \<Rightarrow> nat \<Rightarrow> u8 list \<Rightarrow> u8 list option" where
  "strncpy_loop s1 s2 0 m = Some m"
| "strncpy_loop s1 s2 (Suc n) m =
     (if s1 < length m \<and> s2 < length m
      then let c = m ! s2; m = m[s1 := c] in if c = 0 then pad_loop (s1 + 1) n m else strncpy_loop (s1 + 1) (s2 + 1) n m
      else None)"

definition strncpy :: "nat \<Rightarrow> nat \<Rightarrow> int \<Rightarrow> u8 list \<Rightarrow> (nat \<times> u8 list) option" where
  "strncpy s1 s2 n m = map_option (Pair s1) (strncpy_loop s1 s2 (nat n) m)"

text \<open>The string \<open>s\<close> stands at \<open>p\<close>; \<open>s\<close> is written over what is at \<open>p\<close>.\<close>

definition string_at :: "u8 list \<Rightarrow> nat \<Rightarrow> u8 list \<Rightarrow> bool" where
  "string_at m p s \<longleftrightarrow> p + length s < length m \<and> (\<forall>k < length s. m ! (p + k) = s ! k) \<and> 0 \<notin> set s \<and> m ! (p + length s) = 0"

fun overwrite :: "nat \<Rightarrow> u8 list \<Rightarrow> u8 list \<Rightarrow> u8 list" where
  "overwrite p [] m = m"
| "overwrite p (c # s) m = overwrite (p + 1) s (m[p := c])"

lemma length_overwrite [simp]: "length (overwrite p s m) = length m"
  by (induction p s m rule: overwrite.induct) simp_all

lemma overwrite_nth: "p + length s \<le> length m \<Longrightarrow> overwrite p s m ! k = (if p \<le> k \<and> k < p + length s then s ! (k - p) else m ! k)"
proof (induction p s m rule: overwrite.induct)
  case (2 p c s m)
  then show ?case by (cases "k = p") (auto simp: nth_Cons')
qed auto

lemma string_at_Cons:
  "string_at m p (c # s) \<longleftrightarrow> p < length m \<and> m ! p = c \<and> c \<noteq> 0 \<and> string_at m (p + 1) s"
  by (auto simp: string_at_def All_less_Suc2)

text \<open>Copying a string to where it does not meet itself, or downwards.\<close>

lemma strcpy_loop_copies:
  "string_at m p s \<Longrightarrow> q + length s < length m \<Longrightarrow> q \<le> p \<or> p + length s < q \<Longrightarrow>
     strcpy_loop q p m = Some (overwrite q (s @ [0]) m)"
proof (induction s arbitrary: m p q)
  case Nil
  then show ?case by (subst strcpy_loop.simps) (auto simp: string_at_def Let_def)
next
  case (Cons c s)
  have s: "m ! p = c" "c \<noteq> 0" "p < length m" "string_at m (p + 1) s" using Cons.prems(1) by (simp_all add: string_at_Cons)
  have "string_at (m[q := c]) (p + 1) s"
    using s(4) Cons.prems(3) by (auto simp: string_at_def nth_list_update)
  then have "strcpy_loop (q + 1) (p + 1) (m[q := c]) = Some (overwrite (q + 1) (s @ [0]) (m[q := c]))"
    by (rule Cons.IH) (use Cons.prems in auto)
  then show ?case using s Cons.prems(2) by (subst strcpy_loop.simps) (simp add: Let_def)
qed

text \<open>Copying a string upwards into itself overwrites its NUL before it is read: the copy runs to the end of memory.\<close>

lemma strcpy_loop_runs_away:
  "p < q \<Longrightarrow> \<forall>k. p \<le> k \<and> k < q \<and> k < length m \<longrightarrow> m ! k \<noteq> 0 \<Longrightarrow> strcpy_loop q p m = None"
proof (induction q p m rule: strcpy_loop.induct)
  case (1 q p m)
  show ?case
  proof (cases "q < length m \<and> p < length m")
    case True
    then have nz: "m ! p \<noteq> 0" using "1.prems" by simp
    have "strcpy_loop (q + 1) (p + 1) (m[q := m ! p]) = None"
    proof (rule "1.IH" [OF True refl refl nz])
      show "\<forall>k. p + 1 \<le> k \<and> k < q + 1 \<and> k < length (m[q := m ! p]) \<longrightarrow> m[q := m ! p] ! k \<noteq> 0"
        using "1.prems"(2) nz by (auto simp: nth_list_update less_Suc_eq)
    qed (use "1.prems"(1) in simp)
    then show ?thesis using True nz by (subst strcpy_loop.simps) (simp add: Let_def)
  qed (subst strcpy_loop.simps, auto)
qed

lemma find_end_string: "string_at m p s \<Longrightarrow> find_end p m = Some (p + length s)"
proof (induction s arbitrary: p)
  case Nil
  then show ?case by (subst find_end.simps) (simp add: string_at_def)
next
  case (Cons c s)
  then show ?case by (subst find_end.simps) (simp add: string_at_Cons)
qed

lemma pad_loop_pads: "q + n \<le> length m \<Longrightarrow> pad_loop q n m = Some (overwrite q (replicate n 0) m)"
  by (induction q n m rule: pad_loop.induct) simp_all

lemma strncpy_loop_copies:
  "string_at m p s \<Longrightarrow> q + n \<le> length m \<Longrightarrow> p + length s < q \<or> q + n \<le> p \<Longrightarrow>
     strncpy_loop q p n m = Some (overwrite q (take n s @ replicate (n - length s) 0) m)"
proof (induction s arbitrary: m p q n)
  case Nil
  then show ?case by (cases n) (auto simp: string_at_def Let_def pad_loop_pads)
next
  case (Cons c s)
  show ?case
  proof (cases n)
    case (Suc k)
    have s: "m ! p = c" "c \<noteq> 0" "p < length m" "string_at m (p + 1) s" using Cons.prems(1) by (simp_all add: string_at_Cons)
    have "string_at (m[q := c]) (p + 1) s"
      using s(4) Cons.prems(2,3) Suc by (auto simp: string_at_def nth_list_update)
    then have "strncpy_loop (q + 1) (p + 1) k (m[q := c]) = Some (overwrite (q + 1) (take k s @ replicate (k - length s) 0) (m[q := c]))"
      by (rule Cons.IH) (use Cons.prems Suc in auto)
    then show ?thesis using s Cons.prems(2) Suc by (simp add: Let_def)
  qed simp
qed

lemma strncat_loop_appends:
  "string_at m p s \<Longrightarrow> q + min (length s) n < length m \<Longrightarrow> p + length s < q \<or> q + min (length s) n < p \<Longrightarrow>
     strncat_loop q p (int n) m = Some (overwrite q (take n s @ [0]) m)"
proof (induction s arbitrary: m p q n)
  case Nil
  then show ?case by (subst strncat_loop.simps) (auto simp: string_at_def Let_def)
next
  case (Cons c s)
  have s: "m ! p = c" "c \<noteq> 0" "p < length m" "string_at m (p + 1) s" using Cons.prems(1) by (simp_all add: string_at_Cons)
  have q: "q < length m" using Cons.prems(2) by simp
  show ?case
  proof (cases n)
    case 0
    then show ?thesis using s q by (subst strncat_loop.simps) (simp add: Let_def)
  next
    case (Suc k)
    have "string_at (m[q := c]) (p + 1) s"
      using s(4) Cons.prems(2,3) Suc by (auto simp: string_at_def nth_list_update)
    then have "strncat_loop (q + 1) (p + 1) (int k) (m[q := c]) = Some (overwrite (q + 1) (take k s @ [0]) (m[q := c]))"
      by (rule Cons.IH) (use Cons.prems Suc in auto)
    then show ?thesis using s q Suc by (subst strncat_loop.simps) (simp add: Let_def)
  qed
qed

lemma string_at_overwrite: "0 \<notin> set s \<Longrightarrow> q + length s < length m \<Longrightarrow> string_at (overwrite q (s @ [0]) m) q s"
  by (auto simp: string_at_def overwrite_nth nth_append)

text \<open>Appending at the NUL of a string leaves the longer string.\<close>

lemma string_at_append:
  assumes "string_at m q t" "0 \<notin> set s" "q + length t + length s < length m"
  shows "string_at (overwrite (q + length t) (s @ [0]) m) q (t @ s)"
  using assms by (auto simp: string_at_def overwrite_nth nth_append)

lemma strcpy_copies:
  assumes "string_at m p s" "q + length s < length m" "q \<le> p \<or> p + length s < q"
  shows "\<exists>m'. strcpy q p m = Some (q, m') \<and> string_at m' q s \<and> length m' = length m \<and> (\<forall>k. k < q \<or> q + length s < k \<longrightarrow> m' ! k = m ! k)"
proof -
  have "0 \<notin> set s" using assms(1) by (simp add: string_at_def)
  then show ?thesis
    using strcpy_loop_copies [OF assms] string_at_overwrite [of s q m] assms(2) by (auto simp: strcpy_def overwrite_nth)
qed

lemma strcpy_runs_away:
  assumes s: "string_at m p s" and "p < q" "q \<le> p + length s"
  shows "strcpy q p m = None"
proof -
  have "m ! k \<noteq> 0" if "p \<le> k" "k < p + length s" for k
  proof -
    have lt: "k - p < length s" using that by arith
    then have "m ! (p + (k - p)) = s ! (k - p)" using s unfolding string_at_def by blast
    moreover have "s ! (k - p) \<noteq> 0" using s nth_mem [OF lt] by (auto simp: string_at_def)
    ultimately show ?thesis using that by simp
  qed
  then have "strcpy_loop q p m = None" using assms by (intro strcpy_loop_runs_away) auto
  then show ?thesis by (simp add: strcpy_def)
qed

lemma strncpy_stores:
  assumes "string_at m p s" "q + n \<le> length m" "p + length s < q \<or> q + n \<le> p"
  shows "\<exists>m'. strncpy q p (int n) m = Some (q, m') \<and> length m' = length m \<and> (\<forall>k. k < q \<or> q + n \<le> k \<longrightarrow> m' ! k = m ! k) \<and>
         (\<forall>k < n. m' ! (q + k) = (if k < length s then s ! k else 0))"
  using strncpy_loop_copies [OF assms] assms(2) by (auto simp: strncpy_def overwrite_nth nth_append)

lemma strcat_appends:
  assumes s: "string_at m p s" and "string_at m q t" "q + length t + length s < length m" "p + length s < q \<or> q + length t + length s < p"
  shows "\<exists>m'. strcat q p m = Some (q, m') \<and> string_at m' q (t @ s) \<and> length m' = length m \<and>
         (\<forall>k. k < q \<or> q + length t + length s < k \<longrightarrow> m' ! k = m ! k)"
    and "\<exists>m'. strncat q p (int n) m = Some (q, m') \<and> string_at m' q (t @ take n s) \<and> length m' = length m \<and>
         (\<forall>k. k < q \<or> q + length t + length s < k \<longrightarrow> m' ! k = m ! k)"
proof -
  have z: "0 \<notin> set s" "0 \<notin> set (take n s)" using s by (auto simp: string_at_def dest: in_set_takeD)
  show "\<exists>m'. strcat q p m = Some (q, m') \<and> string_at m' q (t @ s) \<and> length m' = length m \<and>
         (\<forall>k. k < q \<or> q + length t + length s < k \<longrightarrow> m' ! k = m ! k)"
    using strcpy_loop_copies [OF s, of "q + length t"] string_at_append [OF _ z(1), of m q t] assms(2-4)
    by (auto simp: strcat_def find_end_string overwrite_nth)
  show "\<exists>m'. strncat q p (int n) m = Some (q, m') \<and> string_at m' q (t @ take n s) \<and> length m' = length m \<and>
         (\<forall>k. k < q \<or> q + length t + length s < k \<longrightarrow> m' ! k = m ! k)"
    using strncat_loop_appends [OF s, of "q + length t" n] string_at_append [OF _ z(2), of m q t] assms(2-4)
    by (auto simp: strncat_def find_end_string overwrite_nth)
qed

text \<open>
  Where the string \<open>s\<close> stands at \<open>p\<close>, \<open>strcpy\<close> to a place \<open>q\<close> with room leaves \<open>s\<close> at \<open>q\<close> and changes nothing else, when the two
  places do not meet or the copy goes downwards; a copy upwards into the string itself overwrites the NUL before it is read and
  runs out of any memory. \<open>strcat\<close> to a string \<open>t\<close> at \<open>q\<close> leaves \<open>t\<close> followed by \<open>s\<close>, and \<open>strncat\<close> \<open>t\<close> followed by the first
  \<open>n\<close> bytes of \<open>s\<close>.
\<close>

theorem string_copies:
  assumes s: "string_at m p s"
  shows "(q + length s < length m \<and> (q \<le> p \<or> p + length s < q) \<longrightarrow>
      (\<exists>m'. strcpy q p m = Some (q, m') \<and> string_at m' q s \<and> length m' = length m \<and> (\<forall>k. k < q \<or> q + length s < k \<longrightarrow> m' ! k = m ! k))) \<and>
    (p < q \<and> q \<le> p + length s \<longrightarrow> strcpy q p m = None) \<and>
    (string_at m q t \<and> q + length t + length s < length m \<and> (p + length s < q \<or> q + length t + length s < p) \<longrightarrow>
      (\<exists>m'. strcat q p m = Some (q, m') \<and> string_at m' q (t @ s) \<and> length m' = length m \<and>
         (\<forall>k. k < q \<or> q + length t + length s < k \<longrightarrow> m' ! k = m ! k)) \<and>
      (\<exists>m'. strncat q p (int n) m = Some (q, m') \<and> string_at m' q (t @ take n s) \<and> length m' = length m \<and>
         (\<forall>k. k < q \<or> q + length t + length s < k \<longrightarrow> m' ! k = m ! k)))"
  using strcpy_copies [OF s] strcpy_runs_away [OF s] strcat_appends [OF s] by blast

lemma string_at_demo: "string_at [97, 98, 99, 0, 120, 0, 0, 0, 0, 0] 0 [97, 98, 99]" "string_at [97, 98, 99, 0, 120, 0, 0, 0, 0, 0] 4 [120]"
  by (simp_all add: string_at_Cons string_at_def [of _ _ "[]"])

theorem string_copies_witness:
  "\<exists>m'. strncat 4 0 2 [97, 98, 99, 0, 120, 0, 0, 0, 0, 0] = Some (4, m') \<and> string_at m' 4 [120, 97, 98]"
  using string_copies [OF string_at_demo(1), of 4 "[120]" 2] string_at_demo(2) by auto

text \<open>
  \<open>strcmp\<close> answers 0 exactly for equal strings and otherwise the difference, as signed chars, at the first place where they differ,
  the NUL included; \<open>strncmp\<close> does so for the strings cut off after \<open>n\<close> bytes.
\<close>

theorem strcmp_first_difference:
  "(strcmp s t = 0 \<longleftrightarrow> cstr s = cstr t) \<and>
   (cstr s \<noteq> cstr t \<longrightarrow> (\<exists>k. (\<forall>j < k. char_at s j = char_at t j) \<and> char_at s k \<noteq> char_at t k \<and>
      strcmp s t = sint (char_at s k) - sint (char_at t k))) \<and>
   strncmp s t (int n) = strcmp (take n s) (take n t)"
  using strcmp_equal [of s t] strcmp_difference [of s t] strncmp_strcmp by blast

theorem strcmp_first_difference_witness: "strcmp [97, 98, 0] [97, 99, 0] = - 1 \<and> (\<exists>k. strcmp [97, 98, 0] [97, 200, 0] = sint (char_at [97, 98, 0] k) - sint (char_at [97, 200, 0] k))"
proof -
  have "cstr [97, 98, 0] \<noteq> cstr [97, 200, 0]" by (simp add: cstr_def)
  then have "\<exists>k. strcmp [97, 98, 0] [97, 200, 0] = sint (char_at [97, 98, 0] k) - sint (char_at [97, 200, 0] k)"
    using strcmp_first_difference [of "[97, 98, 0]" "[97, 200, 0]"] by blast
  moreover have "strcmp [97, 98, 0] [97, 99, 0] = - 1" by (simp add: strcmp.simps)
  ultimately show ?thesis by blast
qed

section \<open>Numbers\<close>

text \<open>
  \<open>atoi\<close> and \<open>atol\<close> are the same text with an \<open>int\<close> and a \<open>long\<close> for the number. The switch: a blank or tab continues, a minus sign
  is counted and falls into the case of the plus sign, which is passed over.
\<close>

fun ato_skip :: "u8 list \<Rightarrow> nat \<times> u8 list" where
  "ato_skip [] = (0, [])"
| "ato_skip (c # p) =
     (if c = 32 \<or> c = 9 then ato_skip p
      else if c = 45 then (1, p)
      else if c = 43 then (0, p)
      else (0, c # p))"

fun ato_digits :: "'a::len word \<Rightarrow> u8 list \<Rightarrow> 'a word" where
  "ato_digits n [] = n"
| "ato_digits n (c # p) =
     (if sint c \<ge> 48 \<and> sint c \<le> 57 then ato_digits (n * 10 + scast c - 48) p else n)"

definition atoi :: "u8 list \<Rightarrow> u16" where
  "atoi p = (let (f, p) = ato_skip p; n = ato_digits 0 p in if f \<noteq> 0 then - n else n)"

definition atol :: "u8 list \<Rightarrow> u32" where
  "atol p = (let (f, p) = ato_skip p; n = ato_digits 0 p in if f \<noteq> 0 then - n else n)"

text \<open>The number that a list of digits stands for.\<close>

definition digits_value :: "nat list \<Rightarrow> nat" where
  "digits_value ds = foldl (\<lambda>n d. 10 * n + d) 0 ds"

definition digit_char :: "nat \<Rightarrow> u8" where
  "digit_char d = of_nat (48 + d)"

lemma digit_char_range:
  assumes "d < 10"
  shows "sint (digit_char d) = int (48 + d)" "(scast (digit_char d) :: 'a::len word) = of_nat (48 + d)"
proof -
  show s: "sint (digit_char d) = int (48 + d)"
    using assms by (simp add: digit_char_def signed_of_nat signed_take_bit_int_eq_self del: of_nat_add)
  show "(scast (digit_char d) :: 'a word) = of_nat (48 + d)"
    by (rule trans [OF of_int_sint [symmetric]]) (simp only: s of_int_of_nat_eq)
qed

lemma ato_digits_value:
  assumes "\<forall>d \<in> set ds. d < 10" "sint (deref r) < 48 \<or> 57 < sint (deref r)" "n = of_nat k"
  shows "ato_digits n (map digit_char ds @ r) = of_nat (foldl (\<lambda>n d. 10 * n + d) k ds)"
  using assms
proof (induction ds arbitrary: n k)
  case Nil
  then show ?case by (cases r) auto
next
  case (Cons d ds)
  have sc: "(scast (digit_char d) :: 'a word) = of_nat (48 + d)" by (rule digit_char_range(2)) (use Cons.prems(1) in simp)
  have "ato_digits (n * 10 + scast (digit_char d) - 48) (map digit_char ds @ r) = of_nat (foldl (\<lambda>n d. 10 * n + d) (10 * k + d) ds)"
    by (rule Cons.IH) (use Cons.prems sc in auto)
  then show ?case using Cons.prems(1) digit_char_range(1) [of d] by simp
qed

lemma ato_skip_sign:
  assumes "\<forall>c \<in> set bl. c = 32 \<or> c = 9"
  shows "ato_skip (bl @ 45 # p) = (1, p)" "ato_skip (bl @ 43 # p) = (0, p)"
    "d < 10 \<Longrightarrow> ato_skip (bl @ digit_char d # p) = (0, digit_char d # p)"
proof -
  have "digit_char d \<notin> {32, 9, 45, 43}" if "d < 10"
    using digit_char_range(1) [OF that] by auto
  then show "d < 10 \<Longrightarrow> ato_skip (bl @ digit_char d # p) = (0, digit_char d # p)" using assms by (induction bl) auto
  show "ato_skip (bl @ 45 # p) = (1, p)" "ato_skip (bl @ 43 # p) = (0, p)" using assms by (induction bl) auto
qed

text \<open>
  \<open>atoi\<close> and \<open>atol\<close> read a decimal number after blanks, tabs and a sign, up to the first other character. Numbers that do not fit
  are taken modulo 2 to the 16 or 32.
\<close>

theorem ato_reads_numbers:
  assumes "\<forall>c \<in> set bl. c = 32 \<or> c = 9" and "sg \<in> {[], [43], [45]}"
    and "ds \<noteq> []" "\<forall>d \<in> set ds. d < 10" and "sint (deref r) < 48 \<or> 57 < sint (deref r)"
  shows "atoi (bl @ sg @ map digit_char ds @ r) = (if sg = [45] then - of_nat (digits_value ds) else of_nat (digits_value ds)) \<and>
    atol (bl @ sg @ map digit_char ds @ r) = (if sg = [45] then - of_nat (digits_value ds) else of_nat (digits_value ds))"
proof -
  obtain d ds' where ds: "ds = d # ds'" "d < 10" using assms(3,4) by (cases ds) auto
  have "ato_skip (bl @ sg @ map digit_char ds @ r) = (if sg = [45] then 1 else 0, map digit_char ds @ r)"
    using assms(2) ato_skip_sign [OF assms(1)] ds by auto
  moreover have "ato_digits 0 (map digit_char ds @ r) = (of_nat (digits_value ds) :: u16)"
    "ato_digits 0 (map digit_char ds @ r) = (of_nat (digits_value ds) :: u32)"
    unfolding digits_value_def by (rule ato_digits_value; use assms in auto)+
  ultimately show ?thesis by (simp add: atoi_def atol_def)
qed

theorem ato_reads_numbers_witness: "atoi [32, 45, 52, 50, 0] = - 42"
  using ato_reads_numbers [of "[32]" "[45]" "[4, 2]" "[0]"] by (simp add: digits_value_def digit_char_def)

section \<open>Three-byte disk addresses\<close>

text \<open>
  A \<open>long\<close> of the PDP-11 in memory: its high word first, each word with its low byte first. \<open>ltol3\<close> leaves out the second byte,
  the high one of the high word, and \<open>l3tol\<close> puts a zero there.
\<close>

fun ltol3 :: "nat \<Rightarrow> u8 list \<Rightarrow> u8 list" where
  "ltol3 (Suc n) (b0 # b1 # b2 # b3 # b) = b0 # b2 # b3 # ltol3 n b"
| "ltol3 n b = []"

fun l3tol :: "nat \<Rightarrow> u8 list \<Rightarrow> u8 list" where
  "l3tol (Suc n) (b0 # b1 # b2 # b) = b0 # 0 # b1 # b2 # l3tol n b"
| "l3tol n b = []"

lemma long_bytes_append: "long_bytes l @ r = ucast (drop_bit 16 l) # ucast (drop_bit 24 l) # ucast l # ucast (drop_bit 8 l) # r"
  by (simp add: long_bytes_def)

lemma long_bytes_low:
  "long_bytes (w AND 0xFFFFFF) = [ucast (drop_bit 16 w), 0, ucast w, ucast (drop_bit 8 w)]"
proof -
  have m: "(0xFFFFFF :: u32) = mask 24" by (simp add: mask_eq_exp_minus_1)
  show ?thesis unfolding m long_bytes_def by (auto intro!: bit_word_eqI simp: bit_simps)
qed

text \<open>
  Disk addresses in three bytes: \<open>l3tol\<close> gives back the longs that \<open>ltol3\<close> packed, cut down to 24 bits, so every block number
  below 2 to the 24 survives; and packing what was unpacked restores the bytes.
\<close>

theorem l3_roundtrip:
  "l3tol (length ls) (ltol3 (length ls) (concat (map long_bytes ls))) = concat (map (\<lambda>l. long_bytes (l AND 0xFFFFFF)) ls) \<and>
   (\<forall>l. l < 2 ^ 24 \<longrightarrow> l AND 0xFFFFFF = (l :: u32)) \<and>
   (length b = 3 * n \<longrightarrow> ltol3 n (l3tol n b) = b)"
proof (intro conjI impI allI)
  show "l3tol (length ls) (ltol3 (length ls) (concat (map long_bytes ls))) = concat (map (\<lambda>l. long_bytes (l AND 0xFFFFFF)) ls)"
    by (induction ls) (simp_all add: long_bytes_low long_bytes_append)
  show "l AND 0xFFFFFF = l" if "l < 2 ^ 24" for l :: u32
  proof -
    have "(0xFFFFFF :: u32) = mask 24" by (simp add: mask_eq_exp_minus_1)
    moreover have "take_bit 24 l = l"
    proof (rule word_unat_eq_iff [THEN iffD2])
      have "unat l < 2 ^ 24" using that by (simp add: word_less_nat_alt)
      then show "unat (take_bit 24 l) = unat l" by (simp add: unsigned_take_bit_eq take_bit_nat_eq_self)
    qed
    ultimately show ?thesis by (simp add: take_bit_eq_mask)
  qed
  show "ltol3 n (l3tol n b) = b" if "length b = 3 * n"
    using that
  proof (induction n arbitrary: b)
    case (Suc n)
    then obtain b0 b1 b2 c where "b = b0 # b1 # b2 # c" "length c = 3 * n" by (auto simp: length_Suc_conv numeral_3_eq_3)
    then show ?case using Suc.IH by simp
  qed simp
qed

theorem l3_roundtrip_witness: "l3tol 1 (ltol3 1 (long_bytes 70000)) = long_bytes 70000 \<and> ltol3 1 (l3tol 1 [1, 2, 3]) = [1, 2, 3]"
  using l3_roundtrip [of "[70000]" "[1, 2, 3]" 1] by simp


end
