(* ===== verification/Qsort.thy ===== *)
theory Qsort
  imports Libc "HOL-Library.Multiset"
begin

text \<open>
  \<open>qsort\<close> of the C library (\<open>libc/gen/qsort.c\<close>): a quicksort whose partition keeps the elements equal to the pivot together in the
  middle. What the routine asks of the comparison is a locale; the comparison of strings is an instance. The property is that the
  result is the sorted rearrangement of the array and that the routine ends.
\<close>

unbundle bit_operations_syntax

section \<open>The program\<close>

text \<open>
  The array is a list of elements, a pointer into it an index: \<open>es\<close> bytes of the program are one element here, and
  \<open>qsexc\<close> and \<open>qstexc\<close>, which exchange elements byte by byte, exchange list elements. The comparison
  is the caller's function.
\<close>

definition qsexc :: "nat \<Rightarrow> nat \<Rightarrow> 'e list \<Rightarrow> 'e list" where
  "qsexc i j A = (let c = A ! i; A = A[i := A ! j] in A[j := c])"

definition qstexc :: "nat \<Rightarrow> nat \<Rightarrow> nat \<Rightarrow> 'e list \<Rightarrow> 'e list" where
  "qstexc i j k A = (let c = A ! i; A = A[i := A ! k]; A = A[k := A ! j] in A[j := c])"

text \<open>
  The partition: \<open>qs_for\<close> is the head of the loop \<open>for(;;)\<close>, \<open>qs_loop\<close> the label \<open>loop\<close>. The first argument bounds
  the steps; the result has the two ends of the middle part.
\<close>

fun qs_for and qs_loop :: "nat \<Rightarrow> ('e \<Rightarrow> 'e \<Rightarrow> int) \<Rightarrow> nat \<Rightarrow> nat \<Rightarrow> nat \<Rightarrow> nat \<Rightarrow> 'e list \<Rightarrow> (nat \<times> nat \<times> 'e list) option" where
  "qs_for 0 cmp i j lp hp A = None"
| "qs_for (Suc n) cmp i j lp hp A =
     (if i < lp
      then let c = cmp (A ! i) (A ! lp) in
        if c = 0 then qs_for n cmp i j (lp - 1) hp (qsexc i (lp - 1) A)
        else if c < 0 then qs_for n cmp (i + 1) j lp hp A
        else qs_loop n cmp i j lp hp A
      else qs_loop n cmp i j lp hp A)"
| "qs_loop 0 cmp i j lp hp A = None"
| "qs_loop (Suc n) cmp i j lp hp A =
     (if j > hp
      then let c = cmp (A ! hp) (A ! j) in
        if c = 0 then qs_loop n cmp i j lp (hp + 1) (qsexc (hp + 1) j A)
        else if c > 0
        then if i = lp then qs_loop n cmp (lp + 1) j (lp + 1) (hp + 1) (qstexc i (hp + 1) j A)
             else qs_for n cmp (i + 1) (j - 1) lp hp (qsexc i j A)
        else qs_loop n cmp i (j - 1) lp hp A
      else if i = lp then Some (lp, hp, A)
      else qs_for n cmp i (hp - 1) (lp - 1) (hp - 1) (qstexc j (lp - 1) i A))"

text \<open>\<open>qs1\<close> sorts the elements from \<open>a\<close> up to \<open>l\<close>: the shorter part first, then the other by starting again.\<close>

fun qs1 :: "nat \<Rightarrow> ('e \<Rightarrow> 'e \<Rightarrow> int) \<Rightarrow> nat \<Rightarrow> nat \<Rightarrow> 'e list \<Rightarrow> 'e list option" where
  "qs1 0 cmp a l A = None"
| "qs1 (Suc m) cmp a l A =
     (if l - a \<le> 1 then Some A
      else let n = (l - a) div 2 in
        case qs_for (2 * (l - a) + 2) cmp a (l - 1) (a + n) (a + n) A of
          None \<Rightarrow> None
        | Some (lp, hp, A) \<Rightarrow>
            if lp - a \<ge> l - hp
            then (case qs1 m cmp (hp + 1) l A of None \<Rightarrow> None | Some A \<Rightarrow> qs1 m cmp a lp A)
            else (case qs1 m cmp a lp A of None \<Rightarrow> None | Some A \<Rightarrow> qs1 m cmp (hp + 1) l A))"

definition qsort :: "('e \<Rightarrow> 'e \<Rightarrow> int) \<Rightarrow> 'e list \<Rightarrow> 'e list option" where
  "qsort cmp A = qs1 (length A + 1) cmp 0 (length A) A"


section \<open>Rearranging a part of a list\<close>

definition seg :: "nat \<Rightarrow> nat \<Rightarrow> 'e list \<Rightarrow> 'e list" where
  "seg a l A = take (l - a) (drop a A)"

definition rearr :: "nat \<Rightarrow> nat \<Rightarrow> 'e list \<Rightarrow> 'e list \<Rightarrow> bool" where
  "rearr a l A B \<longleftrightarrow> length B = length A \<and> mset B = mset A \<and> take a B = take a A \<and> drop l B = drop l A"

lemma rearr_refl [simp]: "rearr a l A A" by (simp add: rearr_def)

lemma rearr_trans: "rearr a l A B \<Longrightarrow> rearr a l B C \<Longrightarrow> rearr a l A C" by (simp add: rearr_def)

lemma seg_split: "a \<le> l \<Longrightarrow> A = take a A @ seg a l A @ drop l A"
  unfolding seg_def by (metis append_take_drop_id drop_drop le_add_diff_inverse2)

lemma rearr_seg: "rearr a l A B \<Longrightarrow> a \<le> l \<Longrightarrow> mset (seg a l B) = mset (seg a l A)"
proof -
  assume r: "rearr a l A B" and al: "a \<le> l"
  have "mset A = mset (take a A) + mset (seg a l A) + mset (drop l A)" for A :: "'a list"
    using arg_cong [OF seg_split [OF al, of A], of mset] by simp
  note e = this
  have rr: "mset B = mset A" "take a B = take a A" "drop l B = drop l A" using r by (simp_all add: rearr_def)
  from trans [OF sym [OF e [of B, unfolded rr]] e [of A]] show ?thesis by simp
qed

lemma set_seg:
  assumes "l \<le> length A"
  shows "set (seg a l A) = {A ! k | k. a \<le> k \<and> k < l}"
proof (intro set_eqI iffI)
  fix x assume "x \<in> set (seg a l A)"
  then obtain k where k: "k < length (seg a l A)" "x = seg a l A ! k" by (metis in_set_conv_nth)
  then have "k < l - a" "x = A ! (a + k)" using assms by (auto simp: seg_def)
  then show "x \<in> {A ! k | k. a \<le> k \<and> k < l}" by (intro CollectI exI [of _ "a + k"]) auto
next
  fix x assume "x \<in> {A ! k | k. a \<le> k \<and> k < l}"
  then obtain k where k: "x = A ! k" "a \<le> k" "k < l" by blast
  then have "k - a < length (seg a l A)" "seg a l A ! (k - a) = x" using assms by (auto simp: seg_def)
  then show "x \<in> set (seg a l A)" using nth_mem by blast
qed

text \<open>A property of all elements of a part survives the rearrangement of the part, or of a part that it does not meet.\<close>

lemma rearr_all:
  assumes "rearr a l A B" "a \<le> l" "l \<le> length A" and "\<forall>k. a \<le> k \<and> k < l \<longrightarrow> P (A ! k)"
  shows "\<forall>k. a \<le> k \<and> k < l \<longrightarrow> P (B ! k)"
proof -
  have "set (seg a l B) = set (seg a l A)" using rearr_seg [OF assms(1,2)] by (metis set_mset_mset)
  moreover have "l \<le> length B" using assms(1,3) by (simp add: rearr_def)
  ultimately have eq: "{B ! k | k. a \<le> k \<and> k < l} = {A ! k | k. a \<le> k \<and> k < l}"
    unfolding set_seg [OF \<open>l \<le> length B\<close>] set_seg [OF assms(3)] by blast
  show ?thesis
  proof (intro allI impI)
    fix k assume "a \<le> k \<and> k < l"
    then have "B ! k \<in> {A ! k | k. a \<le> k \<and> k < l}" unfolding eq [symmetric] by blast
    then show "P (B ! k)" using assms(4) by auto
  qed
qed

lemma rearr_nth:
  assumes "rearr a l A B" and "k < a \<or> l \<le> k \<and> k < length A"
  shows "B ! k = A ! k"
  using assms(2)
proof
  assume "k < a"
  then show ?thesis using assms(1) unfolding rearr_def by (metis nth_take)
next
  assume "l \<le> k \<and> k < length A"
  then show ?thesis using assms(1) unfolding rearr_def by (metis le_add_diff_inverse nth_drop order.strict_implies_order order_trans)
qed

lemma rearr_swap: "a \<le> i \<Longrightarrow> i < l \<Longrightarrow> a \<le> j \<Longrightarrow> j < l \<Longrightarrow> l \<le> length A \<Longrightarrow> rearr a l A (qsexc i j A)"
  by (cases "i = j") (auto simp: rearr_def qsexc_def Let_def mset_swap)

lemma qstexc_swaps:
  assumes "i \<noteq> j" "i \<noteq> k" "i < length A" "j < length A" "k < length A"
  shows "qstexc i j k A = qsexc k j (qsexc i k A)"
  using assms by (auto simp: qstexc_def qsexc_def Let_def intro!: nth_equalityI simp: nth_list_update)

lemma qsexc_nth: "i < length A \<Longrightarrow> j < length A \<Longrightarrow> k < length A \<Longrightarrow>
   qsexc i j A ! k = (if k = i then A ! j else if k = j then A ! i else A ! k)"
  by (auto simp: qsexc_def Let_def nth_list_update)

lemma length_qsexc [simp]: "length (qsexc i j A) = length A"
  by (simp add: qsexc_def Let_def)

section \<open>Comparisons\<close>

text \<open>
  What the manual asks of the comparison: the sign of the answer orders the arguments.
\<close>

locale comparison =
  fixes cmp :: "'e \<Rightarrow> 'e \<Rightarrow> int"
  assumes cmp_swap: "cmp x y < 0 \<longleftrightarrow> cmp y x > 0"
    and cmp_trans: "cmp x y \<le> 0 \<Longrightarrow> cmp y z \<le> 0 \<Longrightarrow> cmp x z \<le> 0"
begin

lemma cmp_eq_sym: "cmp x y = 0 \<Longrightarrow> cmp y x = 0"
  using cmp_swap [of x y] cmp_swap [of y x] by linarith

lemma cmp_le_less: "cmp x y \<le> 0 \<Longrightarrow> cmp y z < 0 \<Longrightarrow> cmp x z < 0"
  using cmp_trans [of x y z] cmp_trans [of z x y] cmp_swap [of x z] cmp_swap [of z x] cmp_swap [of y z] cmp_swap [of z y] by linarith

lemma cmp_less_le: "cmp x y < 0 \<Longrightarrow> cmp y z \<le> 0 \<Longrightarrow> cmp x z < 0"
  using cmp_trans [of x y z] cmp_trans [of y z x] cmp_swap [of x z] cmp_swap [of z x] cmp_swap [of y x] cmp_swap [of x y] by linarith

text \<open>Elements equal to the pivot compare as the pivot does.\<close>

lemma cmp_pivot:
  assumes "cmp w v = 0"
  shows "cmp x w = 0 \<longleftrightarrow> cmp x v = 0" "cmp x w < 0 \<longleftrightarrow> cmp x v < 0" "cmp x w > 0 \<longleftrightarrow> cmp x v > 0"
proof -
  have vw: "cmp w v \<le> 0" "cmp v w \<le> 0" using assms cmp_eq_sym by force+
  show less: "cmp x w < 0 \<longleftrightarrow> cmp x v < 0" using cmp_less_le vw by blast
  have "cmp x w \<le> 0 \<longleftrightarrow> cmp x v \<le> 0" using cmp_trans vw by blast
  then show "cmp x w > 0 \<longleftrightarrow> cmp x v > 0" by linarith
  with less show "cmp x w = 0 \<longleftrightarrow> cmp x v = 0" by linarith
qed

text \<open>The invariant of the partition around the pivot value \<open>v\<close>.\<close>

definition part :: "nat \<Rightarrow> nat \<Rightarrow> 'e \<Rightarrow> nat \<Rightarrow> nat \<Rightarrow> nat \<Rightarrow> nat \<Rightarrow> 'e list \<Rightarrow> bool" where
  "part a l v i j lp hp A \<longleftrightarrow> a \<le> i \<and> i \<le> lp \<and> lp \<le> hp \<and> hp \<le> j \<and> j < l \<and> l \<le> length A \<and>
     (\<forall>k. a \<le> k \<and> k < i \<longrightarrow> cmp (A ! k) v < 0) \<and> (\<forall>k. lp \<le> k \<and> k \<le> hp \<longrightarrow> cmp (A ! k) v = 0) \<and>
     (\<forall>k. j < k \<and> k < l \<longrightarrow> cmp (A ! k) v > 0)"

lemma part_for_equal:
  assumes "part a l v i j lp hp A" "i < lp" "cmp (A ! i) v = 0"
  shows "part a l v i j (lp - 1) hp (qsexc i (lp - 1) A)"
  using assms unfolding part_def by (auto simp: qsexc_nth)

lemma part_for_less:
  "part a l v i j lp hp A \<Longrightarrow> i < lp \<Longrightarrow> cmp (A ! i) v < 0 \<Longrightarrow> part a l v (i + 1) j lp hp A"
  unfolding part_def by (auto simp: less_Suc_eq)

lemma part_loop_equal:
  assumes "part a l v i j lp hp A" "hp < j" "cmp (A ! j) v = 0"
  shows "part a l v i j lp (hp + 1) (qsexc (hp + 1) j A)"
  using assms unfolding part_def by (auto simp: qsexc_nth le_Suc_eq)

lemma part_loop_greater:
  assumes "part a l v i j lp hp A" "hp < j" "cmp (A ! j) v > 0"
  shows "part a l v i (j - 1) lp hp A"
proof -
  have "cmp (A ! k) v > 0" if "j - 1 < k" "k < l" for k
    using that assms by (cases "k = j") (auto simp: part_def)
  then show ?thesis using assms unfolding part_def by auto
qed

lemma part_exchange:
  assumes p: "part a l v i j lp hp A" and "hp < j" "i < lp" "cmp (A ! i) v > 0" "cmp (A ! j) v < 0"
  shows "part a l v (i + 1) (j - 1) lp hp (qsexc i j A)"
proof -
  have r: "a \<le> i" "i < lp" "lp \<le> hp" "hp < j" "j < l" "l \<le> length A" using assms by (auto simp: part_def)
  have "cmp (qsexc i j A ! k) v > 0" if "j - 1 < k" "k < l" for k
    using that assms(4) p r by (cases "k = j") (auto simp: part_def qsexc_nth)
  moreover have "cmp (qsexc i j A ! k) v < 0" if "a \<le> k" "k < i + 1" for k
    using that assms(5) p r by (cases "k = i") (auto simp: part_def qsexc_nth)
  moreover have "cmp (qsexc i j A ! k) v = 0" if "lp \<le> k" "k \<le> hp" for k
    using that p r by (auto simp: part_def qsexc_nth)
  ultimately show ?thesis using r by (auto simp: part_def)
qed

lemma part_left:
  assumes p: "part a l v lp j lp hp A" and "hp < j" "cmp (A ! j) v < 0"
  shows "part a l v (lp + 1) j (lp + 1) (hp + 1) (qstexc lp (hp + 1) j A)"
proof -
  have r: "a \<le> lp" "lp \<le> hp" "hp < j" "j < l" "l \<le> length A" using assms by (auto simp: part_def)
  have nth: "qstexc lp (hp + 1) j A ! k = (if k = lp then A ! j else if k = hp + 1 then A ! lp else if k = j then A ! (hp + 1) else A ! k)"
    if "k < length A" for k using r that by (auto simp: qstexc_swaps qsexc_nth)
  have len: "length (qstexc lp (hp + 1) j A) = length A" by (simp add: qstexc_def Let_def)
  have "cmp (qstexc lp (hp + 1) j A ! k) v > 0" if "j < k" "k < l" for k
    using nth [of k] that p r by (auto simp: part_def)
  moreover have "cmp (qstexc lp (hp + 1) j A ! k) v < 0" if "a \<le> k" "k < lp + 1" for k
    using nth [of k] that p r assms(3) by (auto simp: part_def)
  moreover have "cmp (qstexc lp (hp + 1) j A ! k) v = 0" if "lp + 1 \<le> k" "k \<le> hp + 1" for k
    using nth [of k] that p r by (auto simp: part_def)
  ultimately show ?thesis using r len by (auto simp: part_def)
qed

lemma part_right:
  assumes p: "part a l v i j lp hp A" and "j \<le> hp" "i < lp" "cmp (A ! i) v > 0"
  shows "part a l v i (hp - 1) (lp - 1) (hp - 1) (qstexc j (lp - 1) i A)"
proof -
  have r: "a \<le> i" "i < lp" "lp \<le> hp" "hp = j" "j < l" "l \<le> length A" using assms by (auto simp: part_def)
  have nth: "qstexc j (lp - 1) i A ! k = (if k = j then A ! i else if k = lp - 1 then A ! j else if k = i then A ! (lp - 1) else A ! k)"
    if "k < length A" for k using r that by (auto simp: qstexc_swaps qsexc_nth)
  have len: "length (qstexc j (lp - 1) i A) = length A" by (simp add: qstexc_def Let_def)
  have "cmp (qstexc j (lp - 1) i A ! k) v > 0" if "hp - 1 < k" "k < l" for k
    using nth [of k] that p r assms(4) by (auto simp: part_def)
  moreover have "cmp (qstexc j (lp - 1) i A ! k) v < 0" if "a \<le> k" "k < i" for k
    using nth [of k] that p r by (auto simp: part_def)
  moreover have "cmp (qstexc j (lp - 1) i A ! k) v = 0" if "lp - 1 \<le> k" "k \<le> hp - 1" for k
  proof (cases "k = lp - 1")
    case True
    then show ?thesis using nth [of k] p r by (auto simp: part_def)
  next
    case False
    then have "lp \<le> k" "k \<noteq> j" "k \<noteq> i" "k < length A" using that r by auto
    then show ?thesis using nth [of k] that False p r by (simp add: part_def)
  qed
  ultimately show ?thesis using r len by (auto simp: part_def)
qed

lemma rearr_qstexc:
  assumes "a \<le> i" "i < l" "a \<le> j" "j < l" "a \<le> k" "k < l" "l \<le> length A" "i \<noteq> j" "i \<noteq> k"
  shows "rearr a l A (qstexc i j k A)"
proof -
  have "rearr a l A (qsexc i k A)" using assms by (intro rearr_swap)
  moreover have "rearr a l (qsexc i k A) (qsexc k j (qsexc i k A))" using assms by (intro rearr_swap) simp_all
  ultimately show ?thesis using assms by (subst qstexc_swaps) (auto intro: rearr_trans)
qed


text \<open>A partition has ended well: with the parts in place, and the elements only rearranged.\<close>

definition parted :: "nat \<Rightarrow> nat \<Rightarrow> 'e \<Rightarrow> 'e list \<Rightarrow> (nat \<times> nat \<times> 'e list) option \<Rightarrow> bool" where
  "parted a l v A r \<longleftrightarrow> (\<exists>lp hp B. r = Some (lp, hp, B) \<and> part a l v lp hp lp hp B \<and> rearr a l A B)"

lemma parted_after: "parted a l v B r \<Longrightarrow> rearr a l A B \<Longrightarrow> parted a l v A r"
  unfolding parted_def using rearr_trans by blast

lemma qs_for_steps:
  assumes p: "part a l v i j lp hp A"
  shows "i < lp \<Longrightarrow> cmp (A ! i) v = 0 \<Longrightarrow> qs_for (Suc n) cmp i j lp hp A = qs_for n cmp i j (lp - 1) hp (qsexc i (lp - 1) A)"
    "i < lp \<Longrightarrow> cmp (A ! i) v < 0 \<Longrightarrow> qs_for (Suc n) cmp i j lp hp A = qs_for n cmp (i + 1) j lp hp A"
    "\<not> i < lp \<or> cmp (A ! i) v > 0 \<Longrightarrow> qs_for (Suc n) cmp i j lp hp A = qs_loop n cmp i j lp hp A"
proof -
  have "cmp (A ! lp) v = 0" using p by (simp add: part_def)
  note c = cmp_pivot [OF this, of "A ! i"]
  show "i < lp \<Longrightarrow> cmp (A ! i) v = 0 \<Longrightarrow> qs_for (Suc n) cmp i j lp hp A = qs_for n cmp i j (lp - 1) hp (qsexc i (lp - 1) A)"
    using c by (simp add: Let_def)
  show "i < lp \<Longrightarrow> cmp (A ! i) v < 0 \<Longrightarrow> qs_for (Suc n) cmp i j lp hp A = qs_for n cmp (i + 1) j lp hp A"
    using c by (simp add: Let_def)
  show "\<not> i < lp \<or> cmp (A ! i) v > 0 \<Longrightarrow> qs_for (Suc n) cmp i j lp hp A = qs_loop n cmp i j lp hp A"
    using c by (auto simp: Let_def)
qed

lemma qs_loop_steps:
  assumes p: "part a l v i j lp hp A"
  shows "hp < j \<Longrightarrow> cmp (A ! j) v = 0 \<Longrightarrow> qs_loop (Suc n) cmp i j lp hp A = qs_loop n cmp i j lp (hp + 1) (qsexc (hp + 1) j A)"
    "hp < j \<Longrightarrow> cmp (A ! j) v < 0 \<Longrightarrow> i = lp \<Longrightarrow>
       qs_loop (Suc n) cmp i j lp hp A = qs_loop n cmp (lp + 1) j (lp + 1) (hp + 1) (qstexc i (hp + 1) j A)"
    "hp < j \<Longrightarrow> cmp (A ! j) v < 0 \<Longrightarrow> i \<noteq> lp \<Longrightarrow> qs_loop (Suc n) cmp i j lp hp A = qs_for n cmp (i + 1) (j - 1) lp hp (qsexc i j A)"
    "hp < j \<Longrightarrow> cmp (A ! j) v > 0 \<Longrightarrow> qs_loop (Suc n) cmp i j lp hp A = qs_loop n cmp i (j - 1) lp hp A"
proof -
  have h: "cmp (A ! hp) v = 0" using p by (simp add: part_def)
  have c: "cmp (A ! hp) (A ! j) = 0 \<longleftrightarrow> cmp (A ! j) v = 0" "cmp (A ! hp) (A ! j) > 0 \<longleftrightarrow> cmp (A ! j) v < 0"
    using cmp_pivot [OF h, of "A ! j"] cmp_swap [of "A ! j" "A ! hp"] cmp_eq_sym [of "A ! j" "A ! hp"] cmp_eq_sym [of "A ! hp" "A ! j"]
    by (blast, simp)
  show "hp < j \<Longrightarrow> cmp (A ! j) v = 0 \<Longrightarrow> qs_loop (Suc n) cmp i j lp hp A = qs_loop n cmp i j lp (hp + 1) (qsexc (hp + 1) j A)"
    using c by (simp add: Let_def)
  show "hp < j \<Longrightarrow> cmp (A ! j) v < 0 \<Longrightarrow> i = lp \<Longrightarrow>
       qs_loop (Suc n) cmp i j lp hp A = qs_loop n cmp (lp + 1) j (lp + 1) (hp + 1) (qstexc i (hp + 1) j A)"
    using c by (simp add: Let_def)
  show "hp < j \<Longrightarrow> cmp (A ! j) v < 0 \<Longrightarrow> i \<noteq> lp \<Longrightarrow> qs_loop (Suc n) cmp i j lp hp A = qs_for n cmp (i + 1) (j - 1) lp hp (qsexc i j A)"
    using c by (simp add: Let_def)
  show "hp < j \<Longrightarrow> cmp (A ! j) v > 0 \<Longrightarrow> qs_loop (Suc n) cmp i j lp hp A = qs_loop n cmp i (j - 1) lp hp A"
    using c by (simp add: Let_def)
qed

lemma qs_loop_ends:
  "\<not> hp < j \<Longrightarrow> i = lp \<Longrightarrow> qs_loop (Suc n) cmp i j lp hp A = Some (lp, hp, A)"
  "\<not> hp < j \<Longrightarrow> i \<noteq> lp \<Longrightarrow> qs_loop (Suc n) cmp i j lp hp A = qs_for n cmp i (hp - 1) (lp - 1) (hp - 1) (qstexc j (lp - 1) i A)"
  by simp_all

text \<open>With enough steps the partition ends, with the elements less than the pivot on the left and the greater ones on the right.\<close>

lemma partition:
  "part a l v i j lp hp A \<Longrightarrow> 2 * (lp - i) + 2 * (j - hp) + 1 < n \<Longrightarrow> parted a l v A (qs_for n cmp i j lp hp A)"
  "part a l v i j lp hp A \<Longrightarrow> 2 * (lp - i) + 2 * (j - hp) < n \<Longrightarrow> i < lp \<longrightarrow> cmp (A ! i) v > 0 \<Longrightarrow>
     parted a l v A (qs_loop n cmp i j lp hp A)"
proof (induction n arbitrary: i j lp hp A)
  case 0
  { case 1 then show ?case by simp next case 2 then show ?case by simp }
next
  case (Suc n)
  note IH = Suc.IH
  {
    case 1
    note p = 1(1) and st = qs_for_steps [OF 1(1)]
    have r: "a \<le> i" "i \<le> lp" "lp \<le> hp" "hp \<le> j" "j < l" "l \<le> length A" using p by (simp_all add: part_def)
    consider "i < lp" "cmp (A ! i) v = 0" | "i < lp" "cmp (A ! i) v < 0" | "\<not> i < lp \<or> cmp (A ! i) v > 0" by linarith
    then show ?case
    proof cases
      case a: 1
      have m: "2 * (lp - 1 - i) + 2 * (j - hp) + 1 < n" using 1(2) a(1) by arith
      have "rearr a l A (qsexc i (lp - 1) A)" by (rule rearr_swap) (use r a(1) in arith)+
      then show ?thesis unfolding st(1) [OF a] by (rule parted_after [OF IH(1) [OF part_for_equal [OF p a] m]])
    next
      case a: 2
      have m: "2 * (lp - (i + 1)) + 2 * (j - hp) + 1 < n" using 1(2) a(1) by arith
      show ?thesis unfolding st(2) [OF a] by (rule IH(1) [OF part_for_less [OF p a] m])
    next
      case a: 3
      have m: "2 * (lp - i) + 2 * (j - hp) < n" using 1(2) by simp
      show ?thesis unfolding st(3) [OF a] by (rule IH(2) [OF p m]) (use a in blast)
    qed
  next
    case 2
    note p = 2(1) and st = qs_loop_steps [OF 2(1)]
    have r: "a \<le> i" "i \<le> lp" "lp \<le> hp" "hp \<le> j" "j < l" "l \<le> length A" using p by (simp_all add: part_def)
    consider "hp < j" "cmp (A ! j) v = 0" | "hp < j" "cmp (A ! j) v < 0" "i = lp" | "hp < j" "cmp (A ! j) v < 0" "i \<noteq> lp"
      | "hp < j" "cmp (A ! j) v > 0" | "\<not> hp < j" "i = lp" | "\<not> hp < j" "i \<noteq> lp" by linarith
    then show ?case
    proof cases
      case a: 1
      have m: "2 * (lp - i) + 2 * (j - (hp + 1)) < n" using 2(2) a(1) by arith
      have g: "i < lp \<longrightarrow> cmp (qsexc (hp + 1) j A ! i) v > 0" using 2(3) r a(1) by (simp add: qsexc_nth)
      have "rearr a l A (qsexc (hp + 1) j A)" by (rule rearr_swap) (use r a(1) in arith)+
      then show ?thesis unfolding st(1) [OF a] by (rule parted_after [OF IH(2) [OF part_loop_equal [OF p a] m g]])
    next
      case a: 2
      have m: "2 * (lp + 1 - (lp + 1)) + 2 * (j - (hp + 1)) < n" using 2(2) a(1) by arith
      have "rearr a l A (qstexc lp (hp + 1) j A)" by (rule rearr_qstexc) (use r a(1,3) in arith)+
      then show ?thesis unfolding st(2) [OF a] using parted_after [OF IH(2) [OF part_left [OF p [unfolded a(3)] a(1,2)] m]] a(3) by simp
    next
      case a: 3
      have lt: "i < lp" using a(3) r by simp
      have m: "2 * (lp - (i + 1)) + 2 * (j - 1 - hp) + 1 < n" using 2(2) a(1) lt by arith
      have "rearr a l A (qsexc i j A)" by (rule rearr_swap) (use r a(1) in arith)+
      then show ?thesis unfolding st(3) [OF a] by (rule parted_after [OF IH(1) [OF part_exchange [OF p a(1) lt mp [OF 2(3) lt] a(2)] m]])
    next
      case a: 4
      have m: "2 * (lp - i) + 2 * (j - 1 - hp) < n" using 2(2) a(1) by arith
      show ?thesis unfolding st(4) [OF a] by (rule IH(2) [OF part_loop_greater [OF p a] m 2(3)])
    next
      case a: 5
      have "hp = j" using a r by simp
      then show ?thesis unfolding qs_loop_ends(1) [OF a] using p a by (simp add: parted_def)
    next
      case a: 6
      have lt: "i < lp" and le: "j \<le> hp" using a r by simp_all
      have m: "2 * (lp - 1 - i) + 2 * (hp - 1 - (hp - 1)) + 1 < n" using 2(2) lt by arith
      have "rearr a l A (qstexc j (lp - 1) i A)" by (rule rearr_qstexc) (use r lt le in arith)+
      then show ?thesis unfolding qs_loop_ends(2) [OF a]
        by (rule parted_after [OF IH(1) [OF part_right [OF p le lt mp [OF 2(3) lt]] m]])
    qed
  }
qed

text \<open>A part of the array is in order when no element compares greater than a later one.\<close>

definition ordered :: "nat \<Rightarrow> nat \<Rightarrow> 'e list \<Rightarrow> bool" where
  "ordered a l A \<longleftrightarrow> (\<forall>i j. a \<le> i \<and> i < j \<and> j < l \<longrightarrow> cmp (A ! i) (A ! j) \<le> 0)"

lemma ordered_outside:
  assumes "ordered b m A" "rearr a l A B" "m \<le> a \<or> l \<le> b" "m \<le> length A"
  shows "ordered b m B"
  unfolding ordered_def
proof (intro allI impI)
  fix i j assume ij: "b \<le> i \<and> i < j \<and> j < m"
  have "B ! i = A ! i" "B ! j = A ! j" using assms(3,4) ij by (auto intro!: rearr_nth [OF assms(2)])
  then show "cmp (B ! i) (B ! j) \<le> 0" using assms(1) ij by (simp add: ordered_def)
qed

lemma ordered_join:
  assumes p: "part a l v lp hp lp hp A" and "ordered a lp A" "ordered (hp + 1) l A"
  shows "ordered a l A"
  unfolding ordered_def
proof (intro allI impI)
  fix i j assume ij: "a \<le> i \<and> i < j \<and> j < l"
  have le: "cmp (A ! k) v \<le> 0" if "a \<le> k" "k \<le> hp" for k
  proof (cases "k < lp")
    case True
    then show ?thesis using p that(1) by (force simp: part_def)
  next
    case False
    then show ?thesis using p that by (simp add: part_def)
  qed
  have ge: "cmp v (A ! k) \<le> 0" if "lp \<le> k" "k < l" for k
  proof (cases "k \<le> hp")
    case True
    then show ?thesis using p that cmp_eq_sym [of "A ! k" v] by (simp add: part_def)
  next
    case False
    then have "cmp (A ! k) v > 0" using p that by (simp add: part_def)
    then show ?thesis using cmp_swap [of v "A ! k"] by simp
  qed
  consider "j < lp" | "hp < i" | "i \<le> hp" "lp \<le> j" by linarith
  then show "cmp (A ! i) (A ! j) \<le> 0"
  proof cases
    case 1
    then show ?thesis using assms(2) ij by (simp add: ordered_def)
  next
    case 2
    then show ?thesis using assms(3) ij by (simp add: ordered_def)
  next
    case 3
    then show ?thesis using cmp_trans [OF le ge] ij by simp
  qed
qed

lemma rearr_wider: "rearr b m A B \<Longrightarrow> a \<le> b \<Longrightarrow> m \<le> l \<Longrightarrow> rearr a l A B"
  unfolding rearr_def by (metis drop_drop le_add_diff_inverse2 min.absorb1 take_take)

lemma part_rearr:
  assumes p: "part a l v lp hp lp hp A" and r: "rearr b m A B" and bm: "b = a \<and> m = lp \<or> b = hp + 1 \<and> m = l"
  shows "part a l v lp hp lp hp B"
proof -
  have o: "a \<le> lp" "lp \<le> hp" "hp < l" "l \<le> length A" using p by (simp_all add: part_def)
  have len: "length B = length A" using r by (simp add: rearr_def)
  have out: "B ! k = A ! k" if "k < b \<or> m \<le> k" "k < l" for k using that o(4) by (intro rearr_nth [OF r]) linarith
  from bm show ?thesis
  proof
    assume e: "b = a \<and> m = lp"
    have "\<forall>k. a \<le> k \<and> k < lp \<longrightarrow> cmp (B ! k) v < 0"
      by (rule rearr_all [OF r [unfolded conjunct1 [OF e] conjunct2 [OF e]]]) (use o p in \<open>simp_all add: part_def\<close>)
    then show ?thesis using p out o e len by (simp add: part_def)
  next
    assume e: "b = hp + 1 \<and> m = l"
    have "\<forall>k. hp + 1 \<le> k \<and> k < l \<longrightarrow> cmp (B ! k) v > 0"
      by (rule rearr_all [OF r [unfolded conjunct1 [OF e] conjunct2 [OF e]]]) (use o p in \<open>simp_all add: part_def\<close>)
    then show ?thesis using p out o e len by (simp add: part_def Suc_le_eq)
  qed
qed

text \<open>Sorting the two outer parts, in either order, sorts the whole.\<close>

lemma both_parts:
  assumes "part a l v lp hp lp hp A" "rearr b m A B" "ordered b m B" "rearr b' m' B C" "ordered b' m' C"
    and "b = a \<and> m = lp \<and> b' = hp + 1 \<and> m' = l \<or> b = hp + 1 \<and> m = l \<and> b' = a \<and> m' = lp"
  shows "rearr a l A C \<and> ordered a l C"
proof -
  have o: "a \<le> lp" "lp \<le> hp" "hp < l" "l \<le> length A" using assms(1) by (simp_all add: part_def)
  have len: "length B = length A" using assms(2) by (simp add: rearr_def)
  have p: "part a l v lp hp lp hp C" using part_rearr [OF part_rearr [OF assms(1,2)] assms(4)] assms(6) by blast
  have "ordered b m C" by (rule ordered_outside [OF assms(3,4)]) (use assms(6) o len in auto)
  then have "ordered a l C" using ordered_join [OF p] assms(5,6) by blast
  moreover have "rearr a l A B" by (rule rearr_wider [OF assms(2)]) (use assms(6) o in auto)
  moreover have "rearr a l B C" by (rule rearr_wider [OF assms(4)]) (use assms(6) o in auto)
  ultimately show ?thesis using rearr_trans by blast
qed

lemma qs1_sorts:
  "l - a < m \<Longrightarrow> l \<le> length A \<Longrightarrow> \<exists>B. qs1 m cmp a l A = Some B \<and> rearr a l A B \<and> ordered a l B"
proof (induction m arbitrary: a l A)
  case 0
  then show ?case by simp
next
  case (Suc m)
  show ?case
  proof (cases "l - a \<le> 1")
    case True
    then show ?thesis by (auto simp: ordered_def)
  next
    case False
    define n where "n = (l - a) div 2"
    define v where "v = A ! (a + n)"
    have n: "a + n \<le> l - 1" using False unfolding n_def by linarith
    have al: "a \<le> l" "0 < l" using False by simp_all
    have "cmp v v = 0" using cmp_swap [of v v] by linarith
    moreover have "k = a + n" if "a + n \<le> k" "k \<le> a + n" for k using that by simp
    moreover have "\<not> (l - 1 < k \<and> k < l)" for k by linarith
    ultimately have "part a l v a (l - 1) (a + n) (a + n) A"
      unfolding part_def using n al Suc.prems(2) unfolding v_def by (metis le_add1 linorder_not_less order_refl diff_less zero_less_one)
    moreover have "2 * (a + n - a) + 2 * (l - 1 - (a + n)) + 1 < 2 * (l - a) + 2" using n al by linarith
    ultimately obtain lp hp B where
      q: "qs_for (2 * (l - a) + 2) cmp a (l - 1) (a + n) (a + n) A = Some (lp, hp, B)" "part a l v lp hp lp hp B" "rearr a l A B"
      using partition(1) [of a l v a "l - 1" "a + n" "a + n" A "2 * (l - a) + 2"] unfolding parted_def by blast
    have o: "a \<le> lp" "lp \<le> hp" "hp < l" "l \<le> length B" using q(2) by (simp_all add: part_def)
    have right: "\<exists>D. qs1 m cmp (hp + 1) l C = Some D \<and> rearr (hp + 1) l C D \<and> ordered (hp + 1) l D" if "length C = length B" for C
      by (rule Suc.IH) (use Suc.prems(1) o that in linarith)+
    have left: "\<exists>D. qs1 m cmp a lp C = Some D \<and> rearr a lp C D \<and> ordered a lp D" if "length C = length B" for C
      by (rule Suc.IH) (use Suc.prems(1) o that in linarith)+
    have len: "length D = length C" if "rearr x y C D" for x y C D using that by (simp add: rearr_def)
    show ?thesis
    proof (cases "lp - a \<ge> l - hp")
      case True
      obtain C where C: "qs1 m cmp (hp + 1) l B = Some C" "rearr (hp + 1) l B C" "ordered (hp + 1) l C" using right [OF refl] by blast
      obtain D where D: "qs1 m cmp a lp C = Some D" "rearr a lp C D" "ordered a lp D" using left [OF len [OF C(2)]] by blast
      have "rearr a l B D \<and> ordered a l D" by (rule both_parts [OF q(2) C(2,3) D(2,3)]) simp
      moreover have "qs1 (Suc m) cmp a l A = Some D" using False True q(1) C(1) D(1) by (simp add: Let_def n_def)
      ultimately show ?thesis using rearr_trans [OF q(3)] by blast
    next
      case le: False
      obtain C where C: "qs1 m cmp a lp B = Some C" "rearr a lp B C" "ordered a lp C" using left [OF refl] by blast
      obtain D where D: "qs1 m cmp (hp + 1) l C = Some D" "rearr (hp + 1) l C D" "ordered (hp + 1) l D" using right [OF len [OF C(2)]] by blast
      have "rearr a l B D \<and> ordered a l D" by (rule both_parts [OF q(2) C(2,3) D(2,3)]) simp
      moreover have "qs1 (Suc m) cmp a l A = Some D" using False le q(1) C(1) D(1) by (simp add: Let_def n_def)
      ultimately show ?thesis using rearr_trans [OF q(3)] by blast
    qed
  qed
qed

theorem qsort_ordered: "\<exists>B. qsort cmp A = Some B \<and> mset B = mset A \<and> sorted_wrt (\<lambda>x y. cmp x y \<le> 0) B"
proof -
  obtain B where B: "qsort cmp A = Some B" "rearr 0 (length A) A B" "ordered 0 (length A) B"
    using qs1_sorts [of "length A" 0 "length A + 1" A] unfolding qsort_def by auto
  then have "length B = length A" "mset B = mset A" by (simp_all add: rearr_def)
  moreover from B(3) this have "sorted_wrt (\<lambda>x y. cmp x y \<le> 0) B" by (simp add: sorted_wrt_iff_nth_less ordered_def)
  ultimately show ?thesis using B(1) by blast
qed

end

section \<open>Sorting\<close>

interpretation str_order: comparison strcmp
proof unfold_locales
  show "strcmp x y < 0 \<longleftrightarrow> strcmp y x > 0" for x y using strcmp_sign [of x y] by linarith
  show "strcmp x y \<le> 0 \<Longrightarrow> strcmp y z \<le> 0 \<Longrightarrow> strcmp x z \<le> 0" for x y z by (rule strcmp_trans)
qed

text \<open>
  C37. With a comparison whose sign orders the elements, \<open>qsort\<close> ends and leaves the same elements in order; the partition needs at
  most 2 steps for each element and the recursion is never deeper than the number of elements, which is the fuel they have.
\<close>

theorem qsort_sorts:
  assumes "\<forall>x y. cmp x y < 0 \<longleftrightarrow> cmp y x > 0" and "\<forall>x y z. cmp x y \<le> 0 \<longrightarrow> cmp y z \<le> 0 \<longrightarrow> cmp x z \<le> 0"
  shows "\<exists>B. qsort cmp A = Some B \<and> mset B = mset A \<and> sorted_wrt (\<lambda>x y. cmp x y \<le> 0) B"
  by (rule comparison.qsort_ordered [OF comparison.intro]) (use assms in blast)+

theorem qsort_sorts_witness:
  "\<exists>B. qsort strcmp [[99, 0], [97, 98, 0], [97, 0]] = Some B \<and> mset B = mset [[99, 0], [97, 98, 0], [97, 0]] \<and> sorted_wrt (\<lambda>x y. strcmp x y \<le> 0) B"
  by (rule qsort_sorts) (use str_order.cmp_swap str_order.cmp_trans in blast)+

text \<open>Sorting strings by \<^const>\<open>strcmp\<close>, through the interpretation.\<close>

lemma qsort_strings: "\<exists>B. qsort strcmp A = Some B \<and> mset B = mset A \<and> sorted_wrt (\<lambda>x y. strcmp x y \<le> 0) B"
  by (rule str_order.qsort_ordered)


end
