(* ===== verification/Ctime.thy ===== *)
theory Ctime
  imports V7_Prelude "HOL-Library.Signed_Division"
begin

text \<open>
  Dates of the C library (\<open>libc/gen/ctime.c\<close>): \<open>gmtime\<close>, \<open>localtime\<close>, \<open>asctime\<close> and \<open>ctime\<close>. The reference is the Gregorian calendar
  in closed form. The properties are that \<open>gmtime\<close> is right for every \<open>long\<close>, when \<open>localtime\<close> adds the hour of daylight saving
  time, and that the text of a date determines the time.
\<close>

unbundle bit_operations_syntax

section \<open>Breaking a time down\<close>

text \<open>
  A time is a \<open>long\<close>; what is computed from it stays far inside the range of \<open>int\<close> and \<open>long\<close>, so the fields of the broken-down
  time are integers. Division and remainder round towards zero. The static \<open>dmsize\<close> is changed and restored within \<open>gmtime\<close>.
\<close>

record tm =
  tm_sec :: int
  tm_min :: int
  tm_hour :: int
  tm_mday :: int
  tm_mon :: int
  tm_year :: int
  tm_wday :: int
  tm_yday :: int
  tm_isdst :: int

definition dmsize :: "int list" where
  "dmsize = [31, 28, 31, 30, 31, 30, 31, 31, 30, 31, 30, 31]"

definition dysize :: "int \<Rightarrow> int" where
  "dysize y = (if y smod 4 = 0 then 366 else 365)"

lemma dysize_range: "365 \<le> dysize y" "dysize y \<le> 366"
  by (simp_all add: dysize_def)

text \<open>The two loops for the year: the first argument is \<open>d1\<close>, the second \<open>day\<close>.\<close>

function year_up :: "int \<Rightarrow> int \<Rightarrow> int \<times> int" where
  "year_up d1 day = (if day \<ge> dysize d1 then year_up (d1 + 1) (day - dysize d1) else (d1, day))"
  by pat_completeness auto
termination by (relation "measure (\<lambda>(d1, day). nat day)") (auto simp: dysize_def split: if_splits)

function year_down :: "int \<Rightarrow> int \<Rightarrow> int \<times> int" where
  "year_down d1 day = (if day < 0 then year_down (d1 - 1) (day + dysize (d1 - 1)) else (d1, day))"
  by pat_completeness auto
termination by (relation "measure (\<lambda>(d1, day). nat (- day))") (auto simp: dysize_def)

declare year_up.simps [simp del] year_down.simps [simp del]

text \<open>\<open>for(d1=0; d0 >= dmsize[d1]; d1++) d0 -= dmsize[d1];\<close>\<close>

fun month_loop :: "int list \<Rightarrow> int \<Rightarrow> int \<Rightarrow> int \<times> int" where
  "month_loop [] d1 d0 = (d1, d0)"
| "month_loop (m # ms) d1 d0 = (if d0 \<ge> m then month_loop ms (d1 + 1) (d0 - m) else (d1, d0))"

definition gmtime :: "u32 \<Rightarrow> tm" where
  "gmtime tim =
     (let hms = sint tim smod 86400;
          day = sint tim sdiv 86400;
          (hms, day) = (if hms < 0 then (hms + 86400, day - 1) else (hms, day));
          d1 = hms sdiv 60;
          (year, d0) = (if day \<ge> 0 then year_up 70 day else year_down 70 day);
          (mon, md) = month_loop (if dysize year = 366 then dmsize[1 := 29] else dmsize) 0 d0
      in \<lparr>tm_sec = hms smod 60, tm_min = d1 smod 60, tm_hour = d1 sdiv 60, tm_mday = md + 1, tm_mon = mon, tm_year = year,
          tm_wday = (day + 7340036) smod 7, tm_yday = d0, tm_isdst = 0\<rparr>)"

text \<open>Local time: the time zone in minutes west and the flag are the answer of \<open>ftime\<close>.\<close>

definition daytab :: "(int \<times> int) list" where
  "daytab = [(5, 333), (58, 303)]"

definition sunday :: "tm \<Rightarrow> int \<Rightarrow> int" where
  "sunday t d =
     (let d = (if d \<ge> 58 then d + (dysize (tm_year t) - 365) else d)
      in d - (d - tm_yday t + tm_wday t + 700) smod 7)"

definition localtime :: "u16 \<Rightarrow> bool \<Rightarrow> u32 \<Rightarrow> tm" where
  "localtime timezone dstflag tim =
     (let copyt = tim - scast timezone * 60;
          ct = gmtime copyt;
          dayno = tm_yday ct;
          (daylbegin, daylend) = (if tm_year ct = 74 \<or> tm_year ct = 75 then daytab ! nat (tm_year ct - 74) else (119, 303));
          daylbegin = sunday ct daylbegin;
          daylend = sunday ct daylend
      in if dstflag \<and> (dayno > daylbegin \<or> dayno = daylbegin \<and> tm_hour ct \<ge> 2) \<and>
            (dayno < daylend \<or> dayno = daylend \<and> tm_hour ct < 1)
         then let ct = gmtime (copyt + 1 * 60 * 60) in ct\<lparr>tm_isdst := tm_isdst ct + 1\<rparr>
         else ct)"

text \<open>The text of a date. \<open>ct_numb\<close> stores two places of a number behind \<open>cp\<close> and returns the new \<open>cp\<close>.\<close>

definition chr :: "int \<Rightarrow> char" where
  "chr n = char_of (nat n)"

definition ct_numb :: "nat \<Rightarrow> int \<Rightarrow> string \<Rightarrow> nat \<times> string" where
  "ct_numb cp n buf =
     (let cp = cp + 1;
          buf = buf[cp := if n \<ge> 10 then chr ((n sdiv 10) smod 10 + 48) else CHR '' ''];
          cp = cp + 1;
          buf = buf[cp := chr (n smod 10 + 48)];
          cp = cp + 1
      in (cp, buf))"

definition day_names :: string where
  "day_names = ''SunMonTueWedThuFriSat''"

definition month_names :: string where
  "month_names = ''JanFebMarAprMayJunJulAugSepOctNovDec''"

definition asctime :: "tm \<Rightarrow> string" where
  "asctime t =
     (let cbuf = ''Day Mon 00 00:00:00 1900'' @ [CHR 0x0A, CHR 0x00];
          ncp = drop (nat (3 * tm_wday t)) day_names;
          cbuf = cbuf[0 := ncp ! 0, 1 := ncp ! 1, 2 := ncp ! 2];
          ncp = drop (nat (tm_mon t * 3)) month_names;
          cbuf = cbuf[4 := ncp ! 0, 5 := ncp ! 1, 6 := ncp ! 2];
          (cp, cbuf) = ct_numb 7 (tm_mday t) cbuf;
          (cp, cbuf) = ct_numb cp (tm_hour t + 100) cbuf;
          (cp, cbuf) = ct_numb cp (tm_min t + 100) cbuf;
          (cp, cbuf) = ct_numb cp (tm_sec t + 100) cbuf;
          cbuf = (if tm_year t \<ge> 100 then cbuf[cp + 1 := CHR ''2'', cp + 2 := CHR ''0''] else cbuf);
          cp = cp + 2;
          (cp, cbuf) = ct_numb cp (tm_year t + 100) cbuf
      in cbuf)"

definition ctime :: "u16 \<Rightarrow> bool \<Rightarrow> u32 \<Rightarrow> string" where
  "ctime timezone dstflag t = asctime (localtime timezone dstflag t)"

section \<open>The calendar\<close>

text \<open>
  The reference: the Gregorian calendar in closed form. \<open>year_start Y\<close> is the day number of the first of January, \<open>day_number Y m d\<close>
  that of the day \<open>d\<close> of month \<open>m\<close> (from 0), both counted from the first of January 1970.
\<close>

definition leap :: "int \<Rightarrow> bool" where
  "leap Y \<longleftrightarrow> 4 dvd Y \<and> (\<not> 100 dvd Y \<or> 400 dvd Y)"

definition leaps :: "int \<Rightarrow> int" where
  "leaps Y = Y div 4 - Y div 100 + Y div 400"

definition year_start :: "int \<Rightarrow> int" where
  "year_start Y = 365 * (Y - 1970) + leaps (Y - 1) - leaps 1969"

definition month_days :: "int \<Rightarrow> int list" where
  "month_days Y = [31, if leap Y then 29 else 28, 31, 30, 31, 30, 31, 31, 30, 31, 30, 31]"

definition month_start :: "int \<Rightarrow> nat \<Rightarrow> int" where
  "month_start Y m = sum_list (take m (month_days Y))"

definition day_number :: "int \<Rightarrow> nat \<Rightarrow> int \<Rightarrow> int" where
  "day_number Y m d = year_start Y + month_start Y m + d - 1"

lemma sdiv_smod_pos: "0 \<le> a \<Longrightarrow> 0 < b \<Longrightarrow> a sdiv b = a div b" "0 \<le> a \<Longrightarrow> 0 < b \<Longrightarrow> a smod b = a mod (b :: int)"
  by (auto simp: signed_divide_int_def signed_modulo_int_def sgn_if minus_div_mult_eq_mod)

text \<open>The rule of \<^const>\<open>dysize\<close> is the right one from 1901 to 2099.\<close>

lemma dysize_leap: "1 \<le> y \<Longrightarrow> y < 200 \<Longrightarrow> dysize y = (if leap (1900 + y) then 366 else 365)"
proof -
  assume y: "1 \<le> y" "y < 200"
  have "4 dvd (1900 + y) \<longleftrightarrow> 4 dvd y" by (rule dvd_add_right_iff) simp
  moreover have "\<not> 100 dvd (1900 + y) \<or> 400 dvd (1900 + y)"
  proof (cases "100 dvd (1900 + y)")
    case True
    then have "100 dvd y" by (subst (asm) dvd_add_right_iff) simp_all
    then obtain k where "y = 100 * k" ..
    with y have "y = 100" by simp
    then show ?thesis by simp
  qed simp
  moreover have "y smod 4 = 0 \<longleftrightarrow> 4 dvd y" using sdiv_smod_pos(2) [of y 4] y(1) by (simp only: dvd_eq_mod_eq_0)
  ultimately show ?thesis unfolding dysize_def leap_def by simp
qed

lemma year_start_Suc: "year_start (Y + 1) = year_start Y + (if leap Y then 366 else 365)"
proof -
  have *: "Y div k - (Y - 1) div k = (if k dvd Y then 1 else 0)" if "0 < k" for k
  proof -
    have "Y = k * (Y div k) + Y mod k" by simp
    show ?thesis
    proof (cases "Y mod k = 0")
      case True
      then have "(Y - 1) div k = Y div k - 1"
        using that by (intro int_div_pos_eq [of _ _ _ "k - 1"]) (auto simp: algebra_simps minus_mod_eq_mult_div [symmetric])
      then show ?thesis using True by (simp add: dvd_eq_mod_eq_0)
    next
      case False
      have "0 \<le> Y mod k" "Y mod k < k" using that by simp_all
      then have "(Y - 1) div k = Y div k"
        using False by (intro int_div_pos_eq [of _ _ _ "Y mod k - 1"]) (auto simp: algebra_simps)
      then show ?thesis using False by (simp add: dvd_eq_mod_eq_0)
    qed
  qed
  have g: "(a - b + c) - (a' - b' + c') = (a - a') - (b - b') + (c - c')" for a b c a' b' c' :: int by simp
  have bool: "x = (if p \<and> (\<not> q \<or> r) then 1 else 0)"
    if "x = (if p then 1 else 0) - (if q then 1 else 0) + (if r then 1 else 0)" "q \<Longrightarrow> p" "r \<Longrightarrow> q" for p q r and x :: int
    using that by (cases p; cases q; cases r) simp_all
  have d: "(4 :: int) dvd 100" "(100 :: int) dvd 400" by simp_all
  have "leaps Y - leaps (Y - 1) = (if 4 dvd Y then 1 else 0) - (if 100 dvd Y then 1 else 0) + (if 400 dvd Y then 1 else 0)"
    by (simp only: leaps_def g * [of 4] * [of 100] * [of 400] zero_less_numeral if_True)
  moreover have "100 dvd Y \<Longrightarrow> 4 dvd Y" by (rule dvd_trans [OF d(1)])
  moreover have "400 dvd Y \<Longrightarrow> 100 dvd Y" by (rule dvd_trans [OF d(2)])
  ultimately have "leaps Y - leaps (Y - 1) = (if leap Y then 1 else 0)"
    unfolding leap_def by (rule bool)
  then show ?thesis by (cases "leap Y") (simp_all add: year_start_def)
qed

lemma year_up_calendar:
  assumes "70 \<le> d1" "0 \<le> day" "365 * (d1 - 70) + day \<le> 24855"
  shows "case year_up d1 day of (y, d) \<Rightarrow> year_start (1900 + y) + d = year_start (1900 + d1) + day \<and>
     0 \<le> d \<and> d < dysize y \<and> 70 \<le> y \<and> y \<le> 138"
  using assms
proof (induction d1 day rule: year_up.induct)
  case (1 d1 day)
  show ?case
  proof (cases "day \<ge> dysize d1")
    case True
    have "year_start (1900 + (d1 + 1)) = year_start (1900 + d1) + dysize d1"
      using 1(2,4) dysize_leap [of d1] year_start_Suc [of "1900 + d1"] 1(3) by (simp add: algebra_simps)
    then show ?thesis
      using 1(1) [OF True] 1(2-4) True dysize_range [of d1] by (subst year_up.simps) (auto simp: algebra_simps split: prod.splits)
  next
    case False
    then show ?thesis using 1(2-4) by (subst year_up.simps) simp
  qed
qed

lemma year_down_calendar:
  assumes "d1 \<le> 70" "365 * (70 - d1) - day \<le> 24856" "day < 366"
    "0 \<le> day \<Longrightarrow> 1 \<le> d1 \<and> day < dysize d1"
  shows "case year_down d1 day of (y, d) \<Rightarrow> year_start (1900 + y) + d = year_start (1900 + d1) + day \<and>
     0 \<le> d \<and> d < dysize y \<and> 1 \<le> y \<and> y \<le> 70"
  using assms
proof (induction d1 day rule: year_down.induct)
  case (1 d1 day)
  show ?case
  proof (cases "day < 0")
    case True
    have "365 * (70 - d1) \<le> 24855" using True 1(3) by simp
    then have y: "1 \<le> d1 - 1" by simp
    have "year_start (1900 + d1) = year_start (1900 + (d1 - 1)) + dysize (d1 - 1)"
      using y dysize_leap [of "d1 - 1"] year_start_Suc [of "1900 + (d1 - 1)"] 1(2) by (simp add: algebra_simps)
    moreover have "case year_down (d1 - 1) (day + dysize (d1 - 1)) of (y, d) \<Rightarrow>
        year_start (1900 + y) + d = year_start (1900 + (d1 - 1)) + (day + dysize (d1 - 1)) \<and> 0 \<le> d \<and> d < dysize y \<and> 1 \<le> y \<and> y \<le> 70"
      by (rule 1(1) [OF True]) (use 1(2-4) True y dysize_range [of "d1 - 1"] in auto)
    ultimately show ?thesis using True by (subst year_down.simps) (auto split: prod.splits)
  next
    case False
    then show ?thesis using 1(2,5) by (subst year_down.simps) simp
  qed
qed

lemma month_loop_sum:
  "0 \<le> d0 \<Longrightarrow> d0 < sum_list ms \<Longrightarrow> month_loop ms d1 d0 = (mo, r) \<Longrightarrow>
     \<exists>m. mo = d1 + int m \<and> m < length ms \<and> sum_list (take m ms) + r = d0 \<and> 0 \<le> r \<and> r < ms ! m"
proof (induction ms d1 d0 rule: month_loop.induct)
  case (2 m ms d1 d0)
  show ?case
  proof (cases "d0 \<ge> m")
    case True
    then obtain k where "mo = d1 + 1 + int k" "k < length ms" "sum_list (take k ms) + r = d0 - m" "0 \<le> r" "r < ms ! k"
      using 2 by auto
    then show ?thesis by (intro exI [of _ "Suc k"]) simp
  next
    case False
    then show ?thesis using 2(2,4) by (intro exI [of _ 0]) simp
  qed
qed simp

lemma sdiv_adjust:
  fixes t :: int
  shows "(if t smod 86400 < 0 then (t smod 86400 + 86400, t sdiv 86400 - 1) else (t smod 86400, t sdiv 86400)) = (t mod 86400, t div 86400)"
proof -
  define q r where "q = t sdiv 86400" and "r = t smod 86400"
  have e: "t = 86400 * q + r" using mult_sdiv_smod_eq [of 86400 t] by (simp add: q_def r_def)
  have b: "- 86400 < r" "r < 86400"
    using smod_int_range [of 86400 t] by (simp_all add: r_def)
  show ?thesis
  proof (cases "r < 0")
    case True
    have "t div 86400 = q - 1"
      by (rule int_div_pos_eq [of _ _ _ "r + 86400"]) (use e b True in auto)
    moreover from this have "t mod 86400 = r + 86400" using e minus_mult_div_eq_mod [of t 86400] by simp
    ultimately show ?thesis using True by (simp add: q_def r_def)
  next
    case False
    have "t div 86400 = q" by (rule int_div_pos_eq [of _ _ _ r]) (use e b False in auto)
    moreover from this have "t mod 86400 = r" using e minus_mult_div_eq_mod [of t 86400] by simp
    ultimately show ?thesis using False by (simp add: q_def r_def)
  qed
qed

lemma sum_month_days: "sum_list (month_days Y) = (if leap Y then 366 else 365)"
  by (simp add: month_days_def)

lemma dmsize_month_days:
  "1 \<le> y \<Longrightarrow> y < 200 \<Longrightarrow> (if dysize y = 366 then dmsize[1 := 29] else dmsize) = month_days (1900 + y)"
  by (simp add: dysize_leap dmsize_def month_days_def)

text \<open>The broken-down time \<open>g\<close> is that of \<open>t\<close> seconds after the epoch.\<close>

definition date_of :: "int \<Rightarrow> tm \<Rightarrow> bool" where
  "date_of t g \<longleftrightarrow>
     (let Y = 1900 + tm_year g; m = nat (tm_mon g) in
      t = 86400 * day_number Y m (tm_mday g) + 3600 * tm_hour g + 60 * tm_min g + tm_sec g \<and>
      0 \<le> tm_sec g \<and> tm_sec g < 60 \<and> 0 \<le> tm_min g \<and> tm_min g < 60 \<and> 0 \<le> tm_hour g \<and> tm_hour g < 24 \<and>
      0 \<le> tm_mon g \<and> tm_mon g < 12 \<and> 1 \<le> tm_mday g \<and> tm_mday g \<le> month_days Y ! m \<and>
      tm_yday g = month_start Y m + tm_mday g - 1 \<and> tm_wday g = (4 + t div 86400) mod 7)"

lemma gmtime_year:
  assumes "- 24856 \<le> day" "day \<le> 24855" "(if day \<ge> 0 then year_up 70 day else year_down 70 day) = (y, d)"
  shows "year_start (1900 + y) + d = day" "0 \<le> d" "d < dysize y" "1 \<le> y" "y \<le> 138"
proof -
  have s: "year_start (1900 + 70) = 0" by (simp add: year_start_def)
  have "case (y, d) of (y, d) \<Rightarrow> year_start (1900 + y) + d = day \<and> 0 \<le> d \<and> d < dysize y \<and> 1 \<le> y \<and> y \<le> 138"
  proof (cases "day \<ge> 0")
    case True
    then show ?thesis using year_up_calendar [of 70 day] assms s by auto
  next
    case False
    then show ?thesis using year_down_calendar [of 70 day] assms s by auto
  qed
  then show "year_start (1900 + y) + d = day" "0 \<le> d" "d < dysize y" "1 \<le> y" "y \<le> 138" by simp_all
qed

lemma day_range:
  fixes tim :: u32
  shows "- 24856 \<le> sint tim div 86400" "sint tim div 86400 \<le> 24855"
proof -
  have "- 2147483648 \<le> sint tim" "sint tim \<le> 2147483647" using sint_ge [of tim] sint_lt [of tim] by simp_all
  then have "- 2147483648 div 86400 \<le> sint tim div 86400" "sint tim div 86400 \<le> 2147483647 div 86400" by (simp_all add: zdiv_mono1)
  then show "- 24856 \<le> sint tim div 86400" "sint tim div 86400 \<le> 24855" by simp_all
qed

lemma gmtime_expand:
  fixes tim :: u32
  defines "t \<equiv> sint tim"
  obtains y d m r where "(if t div 86400 \<ge> 0 then year_up 70 (t div 86400) else year_down 70 (t div 86400)) = (y, d)"
    "month_loop (if dysize y = 366 then dmsize[1 := 29] else dmsize) 0 d = (m, r)"
    "gmtime tim = \<lparr>tm_sec = t mod 86400 mod 60, tm_min = t mod 86400 div 60 mod 60, tm_hour = t mod 86400 div 60 div 60, tm_mday = r + 1, tm_mon = m,
       tm_year = y, tm_wday = (t div 86400 + 7340036) mod 7, tm_yday = d, tm_isdst = 0\<rparr>"
proof -
  obtain y d where y: "(if t div 86400 \<ge> 0 then year_up 70 (t div 86400) else year_down 70 (t div 86400)) = (y, d)" by fastforce
  obtain m r where m: "month_loop (if dysize y = 366 then dmsize[1 := 29] else dmsize) 0 d = (m, r)" by fastforce
  have "- 24856 \<le> t div 86400" unfolding t_def by (rule day_range)
  then have w: "(t div 86400 + 7340036) smod 7 = (t div 86400 + 7340036) mod 7" by (intro sdiv_smod_pos(2)) simp_all
  have "0 \<le> t mod 86400" by simp
  then have s: "t mod 86400 smod 60 = t mod 86400 mod 60" "t mod 86400 sdiv 60 = t mod 86400 div 60"
    "t mod 86400 div 60 smod 60 = t mod 86400 div 60 mod 60" "t mod 86400 div 60 sdiv 60 = t mod 86400 div 60 div 60"
    by (simp_all add: sdiv_smod_pos)
  have "gmtime tim = \<lparr>tm_sec = t mod 86400 mod 60, tm_min = t mod 86400 div 60 mod 60, tm_hour = t mod 86400 div 60 div 60, tm_mday = r + 1, tm_mon = m,
       tm_year = y, tm_wday = (t div 86400 + 7340036) mod 7, tm_yday = d, tm_isdst = 0\<rparr>"
    unfolding gmtime_def Let_def t_def [symmetric] sdiv_adjust by (simp only: prod.case y m s w)
  from that [OF y m this] show ?thesis .
qed

lemma gmtime_date:
  fixes tim :: u32
  shows "date_of (sint tim) (gmtime tim)" "tm_isdst (gmtime tim) = 0" "1901 \<le> 1900 + tm_year (gmtime tim)" "1900 + tm_year (gmtime tim) \<le> 2038"
proof -
  define t where "t = sint tim"
  obtain y d m r where y: "(if t div 86400 \<ge> 0 then year_up 70 (t div 86400) else year_down 70 (t div 86400)) = (y, d)"
    and m: "month_loop (if dysize y = 366 then dmsize[1 := 29] else dmsize) 0 d = (m, r)"
    and g: "gmtime tim = \<lparr>tm_sec = t mod 86400 mod 60, tm_min = t mod 86400 div 60 mod 60, tm_hour = t mod 86400 div 60 div 60, tm_mday = r + 1, tm_mon = m,
       tm_year = y, tm_wday = (t div 86400 + 7340036) mod 7, tm_yday = d, tm_isdst = 0\<rparr>"
    using gmtime_expand [of tim] unfolding t_def by blast
  have "- 24856 \<le> t div 86400" "t div 86400 \<le> 24855" unfolding t_def by (rule day_range)+
  note Y = gmtime_year [OF this y]
  have md: "(if dysize y = 366 then dmsize[1 := 29] else dmsize) = month_days (1900 + y)" by (rule dmsize_month_days) (use Y in simp_all)
  have "d < sum_list (month_days (1900 + y))" using Y dysize_leap [of y] by (simp add: sum_month_days)
  from month_loop_sum [OF Y(2) this m [unfolded md]]
  obtain k where k: "m = int k" "k < 12" "month_start (1900 + y) k + r = d" "0 \<le> r" "r < month_days (1900 + y) ! k"
    unfolding month_start_def by (auto simp: month_days_def [of "1900 + y"])
  define q where "q = t mod 86400"
  have q: "0 \<le> q" "q < 86400" by (simp_all add: q_def)
  have t: "t = 86400 * (t div 86400) + q" by (simp add: q_def)
  obtain H M S where hms: "q div 60 div 60 = H" "q div 60 mod 60 = M" "q mod 60 = S" by blast
  have "q = 3600 * H + 60 * M + S"
  proof -
    have "e = 3600 * c + 60 * d + b" if "60 * a + b = e" "60 * c + d = a" for a b c d e :: int using that by linarith
    from this [OF mult_div_mod_eq mult_div_mod_eq] show ?thesis unfolding hms [symmetric] .
  qed
  moreover have range: "0 \<le> S" "S < 60" "0 \<le> M" "M < 60" unfolding hms [symmetric] by simp_all
  ultimately have H: "0 \<le> H" "H < 24" "q = 3600 * H + 60 * M + S" using q by simp_all
  obtain D where D: "t div 86400 = D" by blast
  have wd: "(D + 7340036) mod 7 = (4 + D) mod 7"
    by (subst mod_add_right_eq [symmetric]) (simp add: add.commute)
  have dn: "day_number (1900 + y) k (r + 1) = D" using Y(1) k(3) D by (simp add: day_number_def)
  have g': "gmtime tim = \<lparr>tm_sec = S, tm_min = M, tm_hour = H, tm_mday = r + 1, tm_mon = m,
       tm_year = y, tm_wday = (D + 7340036) mod 7, tm_yday = d, tm_isdst = 0\<rparr>"
    unfolding g q_def [symmetric] hms D ..
  show "date_of (sint tim) (gmtime tim)"
    unfolding date_of_def g' Let_def t_def [symmetric] D
    using k range H t [unfolded D] wd dn by simp
  show "tm_isdst (gmtime tim) = 0" "1901 \<le> 1900 + tm_year (gmtime tim)" "1900 + tm_year (gmtime tim) \<le> 2038"
    using Y g by simp_all
qed

text \<open>
  C38. \<open>gmtime\<close> is right for every value of a \<open>long\<close>, negative ones included: with 1900 added to its year the broken-down time is the
  Gregorian date and time of day of that many seconds after the epoch, with the day of the week and the day of the year, and the
  years are 1901 to 2038. The comment at the head of the source has \<open>year-1970\<close> for the year.
\<close>

theorem gmtime_correct:
  "date_of (sint tim) (gmtime tim) \<and> tm_isdst (gmtime tim) = 0 \<and> 1901 \<le> 1900 + tm_year (gmtime tim) \<and> 1900 + tm_year (gmtime tim) \<le> 2038"
  using gmtime_date [of tim] by blast

section \<open>Daylight saving time\<close>

text \<open>The day of the year \<open>b\<close> is the last Sunday on or before the last day of month \<open>m\<close>.\<close>

definition last_sunday :: "int \<Rightarrow> nat \<Rightarrow> int \<Rightarrow> bool" where
  "last_sunday Y m b \<longleftrightarrow> month_start Y (m + 1) - 7 \<le> b \<and> b < month_start Y (m + 1) \<and> (4 + year_start Y + b) mod 7 = 0"

text \<open>\<open>sunday\<close> returns the last Sunday on or before the day, counted in a year of 365 days; its comment says the first one on or after it.\<close>

lemma length_month_days: "length (month_days Y) = 12"
  by (simp add: month_days_def)

lemma sunday_last:
  assumes "date_of t g" "1 \<le> tm_year g" "tm_year g < 200" "0 \<le> d" "d < 365"
  defines "Y \<equiv> 1900 + tm_year g"
  defines "d' \<equiv> if d \<ge> 58 \<and> leap Y then d + 1 else d"
  shows "sunday g d \<le> d'" "d' - 7 < sunday g d" "(4 + year_start Y + sunday g d) mod 7 = 0"
proof -
  have dy: "dysize (tm_year g) - 365 = (if leap Y then 1 else 0)" using dysize_leap assms(2,3) by (simp add: Y_def)
  have y: "0 \<le> tm_yday g" "tm_yday g < 366" "t div 86400 = year_start Y + tm_yday g" "tm_wday g = (4 + t div 86400) mod 7"
  proof -
    define m where "m = nat (tm_mon g)"
    have g: "t = 86400 * day_number Y m (tm_mday g) + 3600 * tm_hour g + 60 * tm_min g + tm_sec g"
      "0 \<le> tm_sec g" "tm_sec g < 60" "0 \<le> tm_min g" "tm_min g < 60" "0 \<le> tm_hour g" "tm_hour g < 24" "m < 12"
      "1 \<le> tm_mday g" "tm_mday g \<le> month_days Y ! m" "tm_yday g = month_start Y m + tm_mday g - 1" "tm_wday g = (4 + t div 86400) mod 7"
      using assms(1) unfolding date_of_def Let_def m_def Y_def by auto
    have "t div 86400 = day_number Y m (tm_mday g)"
      by (rule int_div_pos_eq [of _ _ _ "3600 * tm_hour g + 60 * tm_min g + tm_sec g"]) (use g(1-7) in auto)
    then show "t div 86400 = year_start Y + tm_yday g" using g(11) by (simp add: day_number_def)
    have nn: "0 \<le> month_start Y m" unfolding month_start_def by (rule sum_list_nonneg) (auto dest!: in_set_takeD simp: month_days_def split: if_splits)
    then show "0 \<le> tm_yday g" using g by simp
    have "month_start Y m + month_days Y ! m = month_start Y (Suc m)"
      using g(8) by (simp add: month_start_def take_Suc_conv_app_nth length_month_days)
    also have "\<dots> \<le> sum_list (month_days Y)"
    proof -
      have "0 \<le> sum_list (drop (Suc m) (month_days Y))"
        by (rule sum_list_nonneg) (auto dest!: in_set_dropD simp: month_days_def split: if_splits)
      moreover have "sum_list (take (Suc m) (month_days Y)) + sum_list (drop (Suc m) (month_days Y)) = sum_list (month_days Y)"
        by (metis append_take_drop_id sum_list_append)
      ultimately show ?thesis by (simp add: month_start_def)
    qed
    finally show "tm_yday g < 366" using g by (simp add: sum_month_days split: if_splits)
    show "tm_wday g = (4 + t div 86400) mod 7" by (rule g)
  qed
  define x where "x = d' - tm_yday g + tm_wday g + 700"
  have "0 \<le> tm_wday g" unfolding y(4) by simp
  then have x: "0 \<le> x" using y(1,2) assms(4) by (simp add: x_def d'_def)
  have s: "sunday g d = d' - x mod 7"
  proof -
    have "sunday g d = d' - x smod 7" using dy by (simp add: sunday_def Let_def d'_def x_def)
    then show ?thesis using sdiv_smod_pos(2) [OF x, of 7] by simp
  qed
  show "sunday g d \<le> d'" "d' - 7 < sunday g d" unfolding s by (simp_all add: less_diff_eq)
  have "(4 + year_start Y + (d' - x mod 7)) mod 7 = (4 + year_start Y + d' - x) mod 7"
    by (simp only: add_diff_eq mod_diff_right_eq)
  also have "4 + year_start Y + d' - x = (4 + t div 86400) - tm_wday g - 700" using y(3) by (simp add: x_def)
  also have "((4 + t div 86400) - tm_wday g - 700) mod 7 = 0"
  proof -
    have "((4 + t div 86400) - tm_wday g) mod 7 = 0" unfolding y(4) by (simp only: mod_diff_right_eq) simp
    then have "7 dvd ((4 + t div 86400) - tm_wday g)" by (rule mod_0_imp_dvd)
    then have "7 dvd ((4 + t div 86400) - tm_wday g - 700)" by (rule dvd_diff) simp
    then show ?thesis by (rule dvd_imp_mod_0)
  qed
  finally show "(4 + year_start Y + sunday g d) mod 7 = 0" unfolding s .
qed

text \<open>
  C40. \<open>localtime\<close> gives the standard time of the zone (minutes west), and one hour more, with the flag set, when the flag of the
  system is set and the standard time lies between 2 o'clock on one Sunday and 1 o'clock on a later one: the last Sundays of April
  and October, but the first Sunday of 1974 to the last of its November and the last of February to the last of October 1975.
\<close>

theorem localtime_daylight:
  "let std = tim - scast timezone * 60; g = gmtime std; Y = 1900 + tm_year g in
   \<exists>b e. (if Y = 1974 then b = 5 \<and> last_sunday Y 10 e else if Y = 1975 then last_sunday Y 1 b \<and> last_sunday Y 9 e
        else last_sunday Y 3 b \<and> last_sunday Y 9 e) \<and>
     localtime timezone dstflag tim =
       (if dstflag \<and> 24 * b + 2 \<le> 24 * tm_yday g + tm_hour g \<and> 24 * tm_yday g + tm_hour g < 24 * e + 1
        then (gmtime (std + 3600))\<lparr>tm_isdst := 1\<rparr> else g)"
proof -
  define std where "std = tim - scast timezone * 60"
  define g where "g = gmtime std"
  define Y where "Y = 1900 + tm_year g"
  define b e where "b = sunday g (if Y = 1974 then 5 else if Y = 1975 then 58 else 119)"
    and "e = sunday g (if Y = 1974 then 333 else 303)"
  have g: "date_of (sint std) g" "1 \<le> tm_year g" "tm_year g < 200" using gmtime_date [of std] by (simp_all add: g_def)
  have h: "0 \<le> tm_hour g" "tm_hour g < 24" using g(1) by (auto simp: date_of_def Let_def)
  have ls: "last_sunday Y m (sunday g d)" if "0 \<le> d" "d < 365" "month_start Y (m + 1) = (if d \<ge> 58 \<and> leap Y then d + 1 else d) + 1" for m d
    using sunday_last [OF g that(1,2)] that(3) unfolding last_sunday_def Y_def by simp
  have r: "(if Y = 1974 then b = 5 \<and> last_sunday Y 10 e else if Y = 1975 then last_sunday Y 1 b \<and> last_sunday Y 9 e
        else last_sunday Y 3 b \<and> last_sunday Y 9 e)"
  proof -
    have st: "month_start Y 11 = (if leap Y then 335 else 334)" "month_start Y 2 = (if leap Y then 60 else 59)"
      "month_start Y 10 = (if leap Y then 305 else 304)" "month_start Y 4 = (if leap Y then 121 else 120)"
      by (simp_all add: month_start_def month_days_def)
    have nl: "\<not> leap 1975" "\<not> leap 1974" by (simp_all add: leap_def)
    have "b = 5" if "Y = 1974"
    proof -
      have "sunday g 5 \<le> 5" "- 2 < sunday g 5" "(4 + year_start 1974 + sunday g 5) mod 7 = 0"
        using sunday_last [OF g, of 5] that by (simp_all add: Y_def)
      then have "sunday g 5 = 5" unfolding year_start_def leaps_def by simp presburger
      then show ?thesis using that by (simp add: b_def)
    qed
    moreover have "last_sunday Y 10 e" if "Y = 1974" using ls [of 333 10] that nl st by (simp add: e_def)
    moreover have "last_sunday Y 1 b" if "Y = 1975" using ls [of 58 1] that nl st by (simp add: b_def numeral_2_eq_2)
    moreover have "last_sunday Y 9 e" if "Y \<noteq> 1974" using ls [of 303 9] that st by (simp add: e_def)
    moreover have "last_sunday Y 3 b" if "Y \<noteq> 1974" "Y \<noteq> 1975" using ls [of 119 3] that st by (simp add: b_def)
    ultimately show ?thesis by (cases "Y = 1974"; cases "Y = 1975") simp_all
  qed
  have y: "tm_year g = 74 \<longleftrightarrow> Y = 1974" "tm_year g = 75 \<longleftrightarrow> Y = 1975" by (auto simp: Y_def)
  have d0: "tm_isdst (gmtime t) = 0" for t by (rule gmtime_date(2))
  have pair: "(if tm_year g = 74 \<or> tm_year g = 75 then daytab ! nat (tm_year g - 74) else (119, 303)) =
      (if Y = 1974 then 5 else if Y = 1975 then 58 else 119, if Y = 1974 then 333 else 303)"
    unfolding y by (auto simp: daytab_def y [symmetric])
  have c: "(tm_yday g > b \<or> tm_yday g = b \<and> tm_hour g \<ge> 2) \<longleftrightarrow> 24 * b + 2 \<le> 24 * tm_yday g + tm_hour g"
    "(tm_yday g < e \<or> tm_yday g = e \<and> tm_hour g < 1) \<longleftrightarrow> 24 * tm_yday g + tm_hour g < 24 * e + 1"
    using h by auto
  have "localtime timezone dstflag tim =
       (if dstflag \<and> 24 * b + 2 \<le> 24 * tm_yday g + tm_hour g \<and> 24 * tm_yday g + tm_hour g < 24 * e + 1
        then (gmtime (std + 3600))\<lparr>tm_isdst := 1\<rparr> else g)"
    unfolding localtime_def Let_def std_def [symmetric] g_def [symmetric] pair prod.case b_def [symmetric] e_def [symmetric] c
    using d0 by simp
  with r show ?thesis unfolding Let_def std_def [symmetric] g_def [symmetric] Y_def [symmetric] by blast
qed

section \<open>The text of a date\<close>

text \<open>What a reader gets out of the text: two places of a number, the day and the month by their names.\<close>

definition place :: "char \<Rightarrow> int" where
  "place c = (if c = CHR '' '' then 0 else int (of_char c) - 48)"

definition read2 :: "nat \<Rightarrow> string \<Rightarrow> int" where
  "read2 i buf = 10 * place (buf ! i) + place (buf ! (i + 1))"

definition month_list :: "string list" where
  "month_list = [''Jan'', ''Feb'', ''Mar'', ''Apr'', ''May'', ''Jun'', ''Jul'', ''Aug'', ''Sep'', ''Oct'', ''Nov'', ''Dec'']"

definition day_list :: "string list" where
  "day_list = [''Sun'', ''Mon'', ''Tue'', ''Wed'', ''Thu'', ''Fri'', ''Sat'']"

definition read_month :: "string \<Rightarrow> nat" where
  "read_month buf = length (takeWhile (\<lambda>n. n \<noteq> take 3 (drop 4 buf)) month_list)"

definition read_date :: "string \<Rightarrow> int" where
  "read_date buf = 86400 * day_number (100 * read2 20 buf + read2 22 buf) (read_month buf) (read2 8 buf) +
     3600 * read2 11 buf + 60 * read2 14 buf + read2 17 buf"

lemma place_chr: "0 \<le> k \<Longrightarrow> k < 10 \<Longrightarrow> place (chr (k + 48)) = k"
proof -
  assume k: "0 \<le> k" "k < 10"
  have "chr (k + 48) \<noteq> CHR '' ''"
  proof
    assume "chr (k + 48) = CHR '' ''"
    then have "of_char (chr (k + 48)) = (of_char (CHR '' '') :: nat)" by simp
    then have "nat (k + 48) mod 256 = 32" by (simp add: chr_def)
    then show False using k by simp
  qed
  then show ?thesis using k by (simp add: place_def chr_def)
qed

lemma names:
  "0 \<le> w \<Longrightarrow> w < 7 \<Longrightarrow> [drop (nat (3 * w)) day_names ! 0, drop (nat (3 * w)) day_names ! 1, drop (nat (3 * w)) day_names ! 2] = day_list ! nat w"
  "0 \<le> m \<Longrightarrow> m < 12 \<Longrightarrow> [drop (nat (m * 3)) month_names ! 0, drop (nat (m * 3)) month_names ! 1, drop (nat (m * 3)) month_names ! 2] = month_list ! nat m"
proof -
  assume "0 \<le> w" "w < 7"
  then have "w \<in> {0, 1, 2, 3, 4, 5, 6}" by auto
  then show "[drop (nat (3 * w)) day_names ! 0, drop (nat (3 * w)) day_names ! 1, drop (nat (3 * w)) day_names ! 2] = day_list ! nat w"
    by (auto simp: day_names_def day_list_def)
next
  assume "0 \<le> m" "m < 12"
  then have "m \<in> {0, 1, 2, 3, 4, 5, 6, 7, 8, 9, 10, 11}" by (simp, arith)
  then show "[drop (nat (m * 3)) month_names ! 0, drop (nat (m * 3)) month_names ! 1, drop (nat (m * 3)) month_names ! 2] = month_list ! nat m"
    by (auto simp: month_names_def month_list_def)
qed

lemma upd_numeral: "(x # xs)[numeral k := v] = x # xs[pred_numeral k := v]" "(x # xs)[1 := v] = x # xs[0 := v]"
  by (simp_all add: numeral_eq_Suc)

lemma asctime_text:
  "\<exists>d0 d1 d2 m0 m1 m2 e. asctime t = [d0, d1, d2, CHR '' '', m0, m1, m2, CHR '' '',
      e, chr (tm_mday t smod 10 + 48), CHR '' '',
      chr ((tm_hour t + 100) sdiv 10 smod 10 + 48), chr ((tm_hour t + 100) smod 10 + 48), CHR '':'',
      chr ((tm_min t + 100) sdiv 10 smod 10 + 48), chr ((tm_min t + 100) smod 10 + 48), CHR '':'',
      chr ((tm_sec t + 100) sdiv 10 smod 10 + 48), chr ((tm_sec t + 100) smod 10 + 48), CHR '' '',
      if tm_year t \<ge> 100 then CHR ''2'' else CHR ''1'', if tm_year t \<ge> 100 then CHR ''0'' else CHR ''9'',
      chr ((tm_year t + 100) sdiv 10 smod 10 + 48), chr ((tm_year t + 100) smod 10 + 48), CHR 0x0A, CHR 0x00] \<and>
    [d0, d1, d2] = [drop (nat (3 * tm_wday t)) day_names ! 0, drop (nat (3 * tm_wday t)) day_names ! 1, drop (nat (3 * tm_wday t)) day_names ! 2] \<and>
    [m0, m1, m2] = [drop (nat (tm_mon t * 3)) month_names ! 0, drop (nat (tm_mon t * 3)) month_names ! 1, drop (nat (tm_mon t * 3)) month_names ! 2] \<and>
    e = (if tm_mday t \<ge> 10 then chr ((tm_mday t sdiv 10) smod 10 + 48) else CHR '' '')"
  if "tm_hour t \<ge> 0" "tm_min t \<ge> 0" "tm_sec t \<ge> 0" "tm_year t \<ge> 0"
proof -
  have n: "10 \<le> tm_hour t + 100" "10 \<le> tm_min t + 100" "10 \<le> tm_sec t + 100" "10 \<le> tm_year t + 100" using that by simp_all
  show ?thesis
    unfolding asctime_def ct_numb_def Let_def using n by (simp only: prod.case if_True) (simp add: upd_numeral)
qed

lemma last_places:
  assumes "0 \<le> (a :: int)"
  shows "a sdiv 10 smod 10 = a div 10 mod 10" "a smod 10 = a mod 10"
proof -
  have "0 \<le> a div 10" by (rule pos_imp_zdiv_nonneg_iff [THEN iffD2, OF _ assms]) simp
  then show "a sdiv 10 smod 10 = a div 10 mod 10" by (simp only: sdiv_smod_pos(1) [OF assms] sdiv_smod_pos(2) zero_less_numeral)
  show "a smod 10 = a mod 10" by (rule sdiv_smod_pos(2) [OF assms]) simp
qed

lemma place_range:
  assumes "0 \<le> n" "n < (100 :: int)"
  shows "0 \<le> n div 10" "n div 10 < 10" "0 \<le> n mod 10" "n mod 10 < 10"
proof -
  show "0 \<le> n div 10" by (rule pos_imp_zdiv_nonneg_iff [THEN iffD2, OF _ assms(1)]) simp
  have "n div 10 \<le> 99 div 10" by (rule zdiv_mono1) (use assms in simp_all)
  then show "n div 10 < 10" by simp
qed simp_all

lemma plus_100_places:
  assumes "0 \<le> (n :: int)"
  shows "(n + 100) sdiv 10 smod 10 = n div 10 mod 10" "(n + 100) smod 10 = n mod 10"
proof -
  have e: "n + 100 = n + 10 * 10" by simp
  have a: "0 \<le> n + 10 * 10" using assms by simp
  have "(n + 10 * 10) div 10 = 10 + n div 10" by (rule div_mult_self2) simp
  then show "(n + 100) sdiv 10 smod 10 = n div 10 mod 10" unfolding e last_places(1) [OF a] by (simp only: mod_add_self1)
  show "(n + 100) smod 10 = n mod 10" unfolding e last_places(2) [OF a] by (rule mod_mult_self2)
qed

lemma two_places:
  assumes "0 \<le> n" "n < 100"
  shows "10 * place (chr ((n + 100) sdiv 10 smod 10 + 48)) + place (chr ((n + 100) smod 10 + 48)) = n"
proof -
  note r = place_range [OF assms]
  have "n div 10 mod 10 = n div 10" by (rule mod_pos_pos_trivial [OF r(1,2)])
  then show ?thesis
    unfolding plus_100_places [OF assms(1)] by (simp only: place_chr [OF r(1,2)] place_chr [OF r(3,4)] mult_div_mod_eq)
qed

lemma day_places:
  assumes "0 \<le> n" "n < 100"
  shows "10 * place (if n \<ge> 10 then chr (n sdiv 10 smod 10 + 48) else CHR '' '') + place (chr (n smod 10 + 48)) = n"
proof -
  note r = place_range [OF assms]
  have t: "n div 10 mod 10 = n div 10" by (rule mod_pos_pos_trivial [OF r(1,2)])
  have "place (if n \<ge> 10 then chr (n sdiv 10 smod 10 + 48) else CHR '' '') = n div 10"
  proof (cases "n \<ge> 10")
    case True
    then show ?thesis by (simp only: if_True last_places [OF assms(1)] t place_chr [OF r(1,2)])
  next
    case False
    then have "n div 10 = 0" using assms(1) by (intro div_pos_pos_trivial) simp_all
    then show ?thesis using False by (simp add: place_def)
  qed
  then show ?thesis by (simp only: last_places [OF assms(1)] place_chr [OF r(3,4)] mult_div_mod_eq)
qed

lemma month_days_31: "m < 12 \<Longrightarrow> month_days Y ! m \<le> 31"
proof -
  assume "m < 12"
  then have "month_days Y ! m \<in> set (month_days Y)" by (intro nth_mem) (simp add: length_month_days)
  then show ?thesis by (auto simp: month_days_def split: if_splits)
qed

lemma read_month_list: "m < 12 \<Longrightarrow> length (takeWhile (\<lambda>n. n \<noteq> month_list ! m) month_list) = m"
proof -
  assume "m < 12"
  then have "m \<in> {0, 1, 2, 3, 4, 5, 6, 7, 8, 9, 10, 11}" by (simp, arith)
  then show ?thesis by (auto simp: month_list_def)
qed

text \<open>
  C39. The text that \<open>asctime\<close> makes of \<open>gmtime\<close> has 26 characters, the last two a newline and a NUL, starts with the name of the day,
  and tells the time: reading the name of the month and the numbers back gives exactly the seconds since the epoch, so different
  times have different texts.
\<close>

theorem asctime_tells_time:
  "let buf = asctime (gmtime tim) in
     length buf = 26 \<and> drop 24 buf = [CHR 0x0A, CHR 0x00] \<and> take 3 buf = day_list ! nat ((4 + sint tim div 86400) mod 7) \<and>
     read_date buf = sint tim"
proof -
  define g where "g = gmtime tim"
  define m where "m = nat (tm_mon g)"
  have y: "1 \<le> tm_year g" "tm_year g \<le> 138" using gmtime_date [of tim] by (simp_all add: g_def)
  have g: "sint tim = 86400 * day_number (1900 + tm_year g) m (tm_mday g) + 3600 * tm_hour g + 60 * tm_min g + tm_sec g"
      "0 \<le> tm_sec g" "tm_sec g < 60" "0 \<le> tm_min g" "tm_min g < 60" "0 \<le> tm_hour g" "tm_hour g < 24" "m < 12" "0 \<le> tm_mon g" "tm_mon g < 12"
      "1 \<le> tm_mday g" "tm_mday g \<le> month_days (1900 + tm_year g) ! m" "tm_wday g = (4 + sint tim div 86400) mod 7"
    using gmtime_date(1) [of tim] unfolding date_of_def Let_def m_def g_def by auto
  have md: "tm_mday g \<le> 31" using g(12) month_days_31 [OF g(8)] by (rule order_trans)
  have w: "0 \<le> tm_wday g" "tm_wday g < 7" unfolding g(13) by simp_all
  obtain d0 d1 d2 m0 m1 m2 e where a: "asctime g = [d0, d1, d2, CHR '' '', m0, m1, m2, CHR '' '',
      e, chr (tm_mday g smod 10 + 48), CHR '' '',
      chr ((tm_hour g + 100) sdiv 10 smod 10 + 48), chr ((tm_hour g + 100) smod 10 + 48), CHR '':'',
      chr ((tm_min g + 100) sdiv 10 smod 10 + 48), chr ((tm_min g + 100) smod 10 + 48), CHR '':'',
      chr ((tm_sec g + 100) sdiv 10 smod 10 + 48), chr ((tm_sec g + 100) smod 10 + 48), CHR '' '',
      if tm_year g \<ge> 100 then CHR ''2'' else CHR ''1'', if tm_year g \<ge> 100 then CHR ''0'' else CHR ''9'',
      chr ((tm_year g + 100) sdiv 10 smod 10 + 48), chr ((tm_year g + 100) smod 10 + 48), CHR 0x0A, CHR 0x00]"
    and dd: "[d0, d1, d2] = day_list ! nat (tm_wday g)" and mm: "[m0, m1, m2] = month_list ! m"
    and e: "e = (if tm_mday g \<ge> 10 then chr ((tm_mday g sdiv 10) smod 10 + 48) else CHR '' '')"
    using asctime_text [OF g(6,4,2) order_trans [OF zero_le_one y(1)]] unfolding names(1) [OF w] names(2) [OF g(9,10)] m_def by blast
  have r: "read2 11 (asctime g) = tm_hour g" "read2 14 (asctime g) = tm_min g" "read2 17 (asctime g) = tm_sec g" "read2 8 (asctime g) = tm_mday g"
    using two_places [of "tm_hour g"] two_places [of "tm_min g"] two_places [of "tm_sec g"] day_places [of "tm_mday g"] g md
    by (simp_all add: a read2_def e)
  have "100 * read2 20 (asctime g) + read2 22 (asctime g) = 1900 + tm_year g"
  proof (cases "tm_year g \<ge> 100")
    case True
    have c: "(tm_year g - 100 + 100) sdiv 10 smod 10 = (tm_year g + 100) sdiv 10 smod 10" "(tm_year g - 100 + 100) smod 10 = (tm_year g + 100) smod 10"
      using plus_100_places [of "tm_year g"] last_places [of "tm_year g"] True by simp_all
    have "read2 22 (asctime g) = tm_year g - 100"
      using two_places [of "tm_year g - 100"] True y unfolding c by (simp add: a read2_def)
    moreover have "read2 20 (asctime g) = 20" using True by (simp add: a read2_def place_def)
    ultimately show ?thesis by simp
  next
    case False
    have "read2 22 (asctime g) = tm_year g" using two_places [of "tm_year g"] False y by (simp add: a read2_def)
    moreover have "read2 20 (asctime g) = 19" using False by (simp add: a read2_def place_def)
    ultimately show ?thesis by simp
  qed
  moreover have "read_month (asctime g) = m"
    using read_month_list [OF g(8)] by (simp add: read_month_def a mm)
  ultimately have "read_date (asctime g) = sint tim" unfolding read_date_def r g(1) by simp
  moreover have "length (asctime g) = 26" "drop 24 (asctime g) = [CHR 0x0A, CHR 0x00]" "take 3 (asctime g) = [d0, d1, d2]"
    unfolding a by simp_all
  ultimately show ?thesis unfolding Let_def g_def [symmetric] using dd g(13) by simp
qed


end
