(* ===== verification/Bio.thy ===== *)
theory Bio
  imports User_IO
begin

text \<open>
  The buffer cache (\<open>dev/bio.c\<close>): the pool of buffers with its free list and the lists of the devices, the routines that get,
  read, write and release a buffer, and the flushing of delayed writes. The driver's strategy routine is a parameter; the
  properties are for a driver that has finished the transfer when it returns. They are the invariant of the lists, that a block is
  never in two buffers, and that reading returns what was last written; \<open>Bflush\<close> has what \<open>bflush\<close> does with a driver that only queues.
\<close>

unbundle bit_operations_syntax

section \<open>Rings\<close>

text \<open>
  Circular doubly linked lists with a head, as the kernel uses them for buffers: \<open>ring f b h xs\<close> says that from the head
  \<open>h\<close> the forward links \<open>f\<close> lead through exactly the elements of \<open>xs\<close> back to the head, and the backward links
  \<open>b\<close> through them in the reverse order.
\<close>

primrec path :: "('n \<Rightarrow> 'n) \<Rightarrow> 'n \<Rightarrow> 'n list \<Rightarrow> 'n \<Rightarrow> bool" where
  "path f h [] e = (f h = e)"
| "path f h (x # xs) e = (f h = x \<and> path f x xs e)"

definition ring :: "('n \<Rightarrow> 'n) \<Rightarrow> ('n \<Rightarrow> 'n) \<Rightarrow> 'n \<Rightarrow> 'n list \<Rightarrow> bool" where
  "ring f b h xs \<longleftrightarrow> distinct (h # xs) \<and> path f h xs h \<and> path b h (rev xs) h"

lemma path_append: "path f h (xs @ x # ys) e \<longleftrightarrow> path f h xs x \<and> path f x ys e"
  by (induction xs arbitrary: h) auto

lemma path_cong: "(\<forall>x \<in> set (h # xs). f x = g x) \<Longrightarrow> path f h xs e = path g h xs e"
  by (induction xs arbitrary: h) auto

lemma path_upd_other: "y \<notin> set (h # xs) \<Longrightarrow> path (f(y := v)) h xs e = path f h xs e"
  by (rule path_cong) auto

lemma path_snoc: "path f h (xs @ [x]) e \<longleftrightarrow> path f h xs x \<and> f x = e"
  using path_append [of f h xs x "[]" e] by simp

lemma path_end:
  "path f h xs e \<Longrightarrow> distinct (h # xs) \<Longrightarrow> path (f(last (h # xs) := v)) h xs v"
proof (induction xs arbitrary: h)
  case (Cons x xs)
  have "path (f(last (x # xs) := v)) x xs v" by (rule Cons.IH) (use Cons.prems in auto)
  moreover have "last (x # xs) \<in> set (x # xs)" by (rule last_in_set) simp
  then have "last (x # xs) \<noteq> h" using Cons.prems(2) by auto
  moreover have "last (h # x # xs) = last (x # xs)" by simp
  ultimately show ?case using Cons.prems(1) unfolding path.simps by (simp del: last.simps fun_upd_apply add: fun_upd_other)
qed simp

lemma ring_sym: "ring f b h xs \<longleftrightarrow> ring b f h (rev xs)"
  by (auto simp: ring_def)

lemma ring_frame: "y \<notin> set (h # xs) \<Longrightarrow> ring (f(y := v)) b h xs = ring f b h xs" "y \<notin> set (h # xs) \<Longrightarrow> ring f (b(y := v)) h xs = ring f b h xs"
  by (simp_all add: ring_def path_upd_other)

lemma ring_empty: "ring f b h xs \<Longrightarrow> f h = h \<longleftrightarrow> xs = []"
  by (cases xs) (auto simp: ring_def)

lemma path_last: "path f h xs e \<Longrightarrow> f (last (h # xs)) = e"
  by (induction xs arbitrary: h) auto

lemma ring_first: "ring f b h (x # xs) \<Longrightarrow> f h = x \<and> b x = h"
  using path_last [of b h "rev (x # xs)" h] by (auto simp: ring_def)

text \<open>Taking an element out, and putting one behind the head.\<close>

lemma ring_neighbours:
  assumes "ring f b h (xs @ x # ys)"
  shows "b x = last (h # xs)" and "f x = hd (ys @ [h])"
proof -
  have "path b h (rev ys @ x # rev xs) h" using assms by (simp add: ring_def)
  then have "path b x (rev xs) h" by (simp add: path_append)
  then show "b x = last (h # xs)" by (cases xs rule: rev_cases) auto
  have "path f x ys h" using assms by (simp add: ring_def path_append)
  then show "f x = hd (ys @ [h])" by (cases ys) auto
qed

lemma path_skip:
  assumes "path f h (xs @ x # ys) e" and "distinct (h # xs @ x # ys)"
  shows "path (f(last (h # xs) := f x)) h (xs @ ys) e"
proof -
  have 1: "path f h xs x" "path f x ys e" using assms(1) by (simp_all add: path_append)
  let ?f = "f(last (h # xs) := f x)"
  have p: "path ?f h xs (f x)" using path_end [OF 1(1), of "f x"] assms(2) by simp
  show ?thesis
  proof (cases ys)
    case Nil
    then show ?thesis using p 1(2) by simp
  next
    case (Cons y zs)
    have "last (h # xs) \<in> set (h # xs)" by (rule last_in_set) simp
    then have "last (h # xs) \<notin> set (y # zs)" using assms(2) Cons by auto
    then have "path ?f y zs e" using 1(2) Cons path_upd_other [of "last (h # xs)" y zs f "f x" e] by simp
    moreover have "f x = y" using 1(2) Cons by simp
    ultimately show ?thesis using p Cons by (simp add: path_append)
  qed
qed

lemma ring_remove:
  assumes r: "ring f b h (xs @ x # ys)"
  shows "ring (f(b x := f x)) (b(f x := b x)) h (xs @ ys)"
proof -
  have d: "distinct (h # xs @ x # ys)" "path f h (xs @ x # ys) h" "path b h (rev ys @ x # rev xs) h"
    using r by (simp_all add: ring_def)
  have "path (f(b x := f x)) h (xs @ ys) h" unfolding ring_neighbours(1) [OF r] by (rule path_skip [OF d(2,1)])
  moreover have "f x = last (h # rev ys)" using ring_neighbours(2) [OF r] by (cases ys) auto
  then have "path (b(f x := b x)) h (rev ys @ rev xs) h" using path_skip [OF d(3)] d(1) by (auto simp: Int_commute)
  ultimately show ?thesis using d(1) by (simp add: ring_def)
qed

lemma ring_push:
  assumes r: "ring f b h xs" and x: "x \<notin> set (h # xs)"
  shows "ring (f(x := f h, h := x)) (b(f h := x, x := h)) h (x # xs)"
proof -
  have d: "distinct (h # xs)" "path f h xs h" "path b h (rev xs) h" using r by (simp_all add: ring_def)
  have "path (f(x := f h, h := x)) x xs h"
  proof (cases xs)
    case Nil
    then show ?thesis using d(2) x by auto
  next
    case (Cons y ys)
    then have "path f y ys h" "f h = y" using d(2) by simp_all
    moreover have "path (f(x := f h, h := x)) y ys h = path f y ys h" using x d(1) Cons by (intro path_cong) auto
    ultimately show ?thesis using x Cons by auto
  qed
  moreover have "path (b(f h := x, x := h)) h (rev xs @ [x]) h"
  proof -
    have fh: "f h = last (h # rev xs)" using d(2) by (cases xs) auto
    have "path (b(f h := x)) h (rev xs) x" unfolding fh using path_end [OF d(3), of x] d(1) by simp
    then have "path (b(f h := x, x := h)) h (rev xs) x" using x by (subst path_upd_other) auto
    then show ?thesis by (simp add: path_snoc)
  qed
  ultimately show ?thesis using d(1) x by (auto simp: ring_def)
qed

lemma ring_append:
  assumes r: "ring f b h xs" and x: "x \<notin> set (h # xs)"
  shows "ring (f(b h := x, x := h)) (b(x := b h, h := x)) h (xs @ [x])"
  using ring_push [of b f h "rev xs" x] r x by (simp add: ring_sym [of f b h xs] ring_sym [of _ _ h "xs @ [x]"])

text \<open>Several rings over the same links, one for each head; removing an element and putting one in concern one of them.\<close>

definition rings :: "('n \<Rightarrow> 'n) \<Rightarrow> ('n \<Rightarrow> 'n) \<Rightarrow> 'n set \<Rightarrow> ('n \<Rightarrow> 'n list) \<Rightarrow> bool" where
  "rings f b Hd dl \<longleftrightarrow> (\<forall>h \<in> Hd. ring f b h (dl h)) \<and>
     (\<forall>h \<in> Hd. \<forall>k \<in> Hd. h \<noteq> k \<longrightarrow> set (h # dl h) \<inter> set (k # dl k) = {})"

lemma path_cong2: "path f h xs e \<Longrightarrow> (\<forall>x \<in> set (h # xs). g x = f x) \<Longrightarrow> path g h xs e"
  using path_cong by metis

lemma ring_cong: "ring f b h xs \<Longrightarrow> \<forall>x \<in> set (h # xs). f' x = f x \<and> b' x = b x \<Longrightarrow> ring f' b' h xs"
  unfolding ring_def using path_cong2 [of f h xs h f'] path_cong2 [of b h "rev xs" h b'] by auto

lemma ring_at:
  assumes "ring f b h xs" "x \<in> set (h # xs)"
  shows "f x \<in> set (h # xs)" "b x \<in> set (h # xs)"
proof -
  have fwd: "f x \<in> set (h # xs)" if r: "ring f b h xs" and x: "x \<in> set (h # xs)" for f b :: "'a \<Rightarrow> 'a" and xs
  proof (cases "x = h")
    case True
    then show ?thesis using r by (cases xs) (auto simp: ring_def)
  next
    case False
    then obtain ys zs where "xs = ys @ x # zs" using x by (auto simp: in_set_conv_decomp)
    then show ?thesis using ring_neighbours(2) [of f b h ys x zs] r by (cases zs) auto
  qed
  show "f x \<in> set (h # xs)" by (rule fwd [OF assms])
  show "b x \<in> set (h # xs)" using fwd [of b f "rev xs"] assms ring_sym [of f b h xs] by auto
qed

lemma rings_remove:
  assumes r: "rings f b Hd dl" and h: "h \<in> Hd" "dl h = xs @ x # ys"
  shows "rings (f(b x := f x)) (b(f x := b x)) Hd (dl(h := xs @ ys))"
proof -
  have "ring f b h (dl h)" using r h(1) unfolding rings_def by blast
  then have rh: "ring f b h (xs @ x # ys)" unfolding h(2) .
  have at: "f x \<in> set (h # dl h)" "b x \<in> set (h # dl h)" using ring_at [OF rh, of x] h by auto
  have "ring (f(b x := f x)) (b(f x := b x)) k (dl k)" if "k \<in> Hd" "k \<noteq> h" for k
  proof (rule ring_cong)
    show "ring f b k (dl k)" using r that by (simp add: rings_def)
    have "set (h # dl h) \<inter> set (k # dl k) = {}" using r h(1) that unfolding rings_def by blast
    then show "\<forall>y \<in> set (k # dl k). (f(b x := f x)) y = f y \<and> (b(f x := b x)) y = b y" using at by auto
  qed
  note other = this
  have sub: "set (k # (dl(h := xs @ ys)) k) \<subseteq> set (k # dl k)" for k using h(2) by auto
  show ?thesis
    unfolding rings_def
  proof (intro conjI ballI impI)
    fix k assume "k \<in> Hd"
    then show "ring (f(b x := f x)) (b(f x := b x)) k ((dl(h := xs @ ys)) k)" using other [of k] ring_remove [OF rh] by (cases "k = h") auto
  next
    fix j k assume "j \<in> Hd" "k \<in> Hd" "j \<noteq> k"
    then have "set (j # dl j) \<inter> set (k # dl k) = {}" using r unfolding rings_def by blast
    then show "set (j # (dl(h := xs @ ys)) j) \<inter> set (k # (dl(h := xs @ ys)) k) = {}" using sub [of j] sub [of k] by blast
  qed
qed

lemma rings_push:
  assumes r: "rings f b Hd dl" and h: "h \<in> Hd" and x: "\<forall>k \<in> Hd. x \<notin> set (k # dl k)"
  shows "rings (f(x := f h, h := x)) (b(x := h, f h := x)) Hd (dl(h := x # dl h))"
proof -
  have rh: "ring f b h (dl h)" using r h by (simp add: rings_def)
  have at: "f h \<in> set (h # dl h)" using ring_at [OF rh, of h] by simp
  then have "f h \<noteq> x" using x h by auto
  then have bb: "b(x := h, f h := x) = b(f h := x, x := h)" by (simp add: fun_upd_twist)
  have "ring (f(x := f h, h := x)) (b(x := h, f h := x)) k (dl k)" if "k \<in> Hd" "k \<noteq> h" for k
  proof (rule ring_cong)
    show "ring f b k (dl k)" using r that by (simp add: rings_def)
    have "set (h # dl h) \<inter> set (k # dl k) = {}" using r h that unfolding rings_def by blast
    then show "\<forall>y \<in> set (k # dl k). (f(x := f h, h := x)) y = f y \<and> (b(x := h, f h := x)) y = b y" using at x that by auto
  qed
  note other = this
  have this_ring: "ring (f(x := f h, h := x)) (b(x := h, f h := x)) h (x # dl h)" unfolding bb using ring_push [OF rh] x h by blast
  have dis: "set (j # dl j) \<inter> set (k # dl k) = {}" if "j \<in> Hd" "k \<in> Hd" "j \<noteq> k" for j k
    using r that unfolding rings_def by blast
  show ?thesis
    unfolding rings_def
  proof (intro conjI ballI impI)
    fix k assume "k \<in> Hd"
    then show "ring (f(x := f h, h := x)) (b(x := h, f h := x)) k ((dl(h := x # dl h)) k)" using other [of k] this_ring by (cases "k = h") auto
  next
    fix j k assume jk: "j \<in> Hd" "k \<in> Hd" "j \<noteq> k"
    have "x \<notin> set (j # dl j)" "x \<notin> set (k # dl k)" using x jk by blast+
    then show "set (j # (dl(h := x # dl h)) j) \<inter> set (k # (dl(h := x # dl h)) k) = {}" using dis [OF jk] jk(3) by auto
  qed
qed

section \<open>The program: buffers\<close>

text \<open>
  A node is a buffer of the pool, the head of the free list or the table of a block device; a device list and the free list are
  rings of nodes. The flags of a node are the set of the flag bits that are on. \<open>b_addr\<close> is the core of the buffer, 512 bytes.
  \<open>disk\<close> is what is on the devices: only a driver touches it. \<open>wakeups\<close> records the channels that \<open>wakeup\<close> was called with, the
  last one first. The interrupt priorities and the counters of \<open>DISKMON\<close> are left out.
\<close>

datatype bnode = Buf nat | Free_head | Dev nat

datatype bflag = B_READ | B_DONE | B_ERROR | B_BUSY | B_PHYS | B_MAP | B_WANTED | B_AGE | B_ASYNC | B_DELWRI | B_TAPE

datatype chan = Ch_buf bnode | Ch_flock u16 | Ch_ilock u16 | Ch_inode nat | Ch_pipe nat nat | Ch_text nat

record bio = uio +
  b_flags :: "bnode \<Rightarrow> bflag set"
  b_forw :: "bnode \<Rightarrow> bnode"
  b_back :: "bnode \<Rightarrow> bnode"
  av_forw :: "bnode \<Rightarrow> bnode"
  av_back :: "bnode \<Rightarrow> bnode"
  b_dev :: "bnode \<Rightarrow> u16"
  b_blkno :: "bnode \<Rightarrow> u32"
  b_bcount :: "bnode \<Rightarrow> u16"
  b_resid :: "bnode \<Rightarrow> u16"
  b_error :: "bnode \<Rightarrow> u8"
  b_addr :: "bnode \<Rightarrow> u8 list"
  nblkdev :: nat
  has_tab :: "nat \<Rightarrow> bool"
  disk :: "u16 \<Rightarrow> u32 \<Rightarrow> u8 list"
  wakeups :: "chan list"

text \<open>
  A routine returns, or puts the process to sleep on a channel with a priority, or panics. \<open>Endless\<close> is a list search that comes to
  no end, \<open>Wild\<close> an access behind the end of a table.
\<close>

datatype ('a, 's) fres = Ret 'a 's | Asleep chan int 's | Panics string | Endless | Wild

fun fbind :: "('a, 's) fres \<Rightarrow> ('a \<Rightarrow> 's \<Rightarrow> ('b, 's) fres) \<Rightarrow> ('b, 's) fres" where
  "fbind (Ret a s) f = f a s"
| "fbind (Asleep c p s) f = Asleep c p s"
| "fbind (Panics m) f = Panics m"
| "fbind Endless f = Endless"
| "fbind Wild f = Wild"

definition NBUF :: nat where "NBUF = 29"
definition BSIZE :: nat where "BSIZE = 512"
definition NODEV :: u16 where "NODEV = 0xFFFF"
definition PRIBIO :: int where "PRIBIO = 20"
definition EIO :: u8 where "EIO = 5"

definition major :: "u16 \<Rightarrow> nat" where
  "major dev = unat (drop_bit 8 dev)"

definition flag_on :: "bnode \<Rightarrow> bflag set \<Rightarrow> 'a bio_scheme \<Rightarrow> 'a bio_scheme" where
  "flag_on bp F s = s\<lparr>b_flags := (b_flags s)(bp := b_flags s bp \<union> F)\<rparr>"

definition flag_off :: "bnode \<Rightarrow> bflag set \<Rightarrow> 'a bio_scheme \<Rightarrow> 'a bio_scheme" where
  "flag_off bp F s = s\<lparr>b_flags := (b_flags s)(bp := b_flags s bp - F)\<rparr>"

definition awaken :: "chan \<Rightarrow> 'a bio_scheme \<Rightarrow> 'a bio_scheme" where
  "awaken c s = s\<lparr>wakeups := c # wakeups s\<rparr>"

definition geterror :: "bnode \<Rightarrow> 'a bio_scheme \<Rightarrow> 'a bio_scheme" where
  "geterror bp s =
     (if B_ERROR \<in> b_flags s bp then s\<lparr>u_error := if b_error s bp = 0 then EIO else b_error s bp\<rparr> else s)"

definition notavail :: "bnode \<Rightarrow> 'a bio_scheme \<Rightarrow> 'a bio_scheme" where
  "notavail bp s =
     (let s = s\<lparr>av_forw := (av_forw s)(av_back s bp := av_forw s bp)\<rparr>;
          s = s\<lparr>av_back := (av_back s)(av_forw s bp := av_back s bp)\<rparr>
      in flag_on bp {B_BUSY} s)"

definition brelse :: "bnode \<Rightarrow> 'a bio_scheme \<Rightarrow> 'a bio_scheme" where
  "brelse bp s =
     (let s = (if B_WANTED \<in> b_flags s bp then awaken (Ch_buf bp) s else s);
          s = (if B_WANTED \<in> b_flags s Free_head then awaken (Ch_buf Free_head) (flag_off Free_head {B_WANTED} s) else s);
          s = (if B_ERROR \<in> b_flags s bp then s\<lparr>b_dev := (b_dev s)(bp := NODEV)\<rparr> else s);
          s = (if B_AGE \<in> b_flags s bp
               then (let x = av_forw s Free_head;
                         s = s\<lparr>av_back := (av_back s)(x := bp)\<rparr>;
                         s = s\<lparr>av_forw := (av_forw s)(bp := x, Free_head := bp)\<rparr>
                     in s\<lparr>av_back := (av_back s)(bp := Free_head)\<rparr>)
               else (let x = av_back s Free_head;
                         s = s\<lparr>av_forw := (av_forw s)(x := bp)\<rparr>;
                         s = s\<lparr>av_back := (av_back s)(bp := x, Free_head := bp)\<rparr>
                     in s\<lparr>av_forw := (av_forw s)(bp := Free_head)\<rparr>))
      in flag_off bp {B_WANTED, B_BUSY, B_ASYNC, B_AGE} s)"

text \<open>
  \<open>iodone\<close> is called by the drivers. \<open>mapfree\<close> gives back the UNIBUS map of a physical transfer, which the buffers of the pool do not
  have.
\<close>

definition iodone :: "bnode \<Rightarrow> 'a bio_scheme \<Rightarrow> 'a bio_scheme" where
  "iodone bp s =
     (let s = flag_on bp {B_DONE} s
      in if B_ASYNC \<in> b_flags s bp then brelse bp s
         else awaken (Ch_buf bp) (flag_off bp {B_WANTED} s))"

definition iowait :: "bnode \<Rightarrow> 'a bio_scheme \<Rightarrow> (unit, 'a bio_scheme) fres" where
  "iowait bp s = (if B_DONE \<in> b_flags s bp then Ret () (geterror bp s) else Asleep (Ch_buf bp) PRIBIO s)"

text \<open>A strategy routine takes a buffer and may change everything.\<close>

type_synonym 'a strategy = "bnode \<Rightarrow> 'a bio_scheme \<Rightarrow> 'a bio_scheme"

definition bwrite :: "'a strategy \<Rightarrow> bnode \<Rightarrow> 'a bio_scheme \<Rightarrow> (unit, 'a bio_scheme) fres" where
  "bwrite strat bp s =
     (let flag = b_flags s bp;
          s = flag_off bp {B_READ, B_DONE, B_ERROR, B_DELWRI, B_AGE} s;
          s = s\<lparr>b_bcount := (b_bcount s)(bp := of_nat BSIZE)\<rparr>;
          s = strat bp s
      in if B_ASYNC \<notin> flag then fbind (iowait bp s) (\<lambda>_ s. Ret () (brelse bp s))
         else if B_DELWRI \<in> flag then Ret () (flag_on bp {B_AGE} s)
         else Ret () (geterror bp s))"

definition bawrite :: "'a strategy \<Rightarrow> bnode \<Rightarrow> 'a bio_scheme \<Rightarrow> (unit, 'a bio_scheme) fres" where
  "bawrite strat bp s = bwrite strat bp (flag_on bp {B_ASYNC} s)"

definition bdwrite :: "'a strategy \<Rightarrow> bnode \<Rightarrow> 'a bio_scheme \<Rightarrow> (unit, 'a bio_scheme) fres" where
  "bdwrite strat bp s =
     (if B_TAPE \<in> b_flags s (Dev (major (b_dev s bp))) then bawrite strat bp s
      else Ret () (brelse bp (flag_on bp {B_DELWRI, B_DONE} s)))"

text \<open>\<open>for (bp=dp->b_forw; bp != dp; bp = bp->b_forw)\<close>: the buffer found, or None; the count bounds the steps.\<close>

fun dev_search :: "nat \<Rightarrow> bnode \<Rightarrow> u16 \<Rightarrow> u32 \<Rightarrow> bnode \<Rightarrow> 'a bio_scheme \<Rightarrow> bnode option option" where
  "dev_search 0 dp dev blkno bp s = None"
| "dev_search (Suc n) dp dev blkno bp s =
     (if bp = dp then Some None
      else if b_blkno s bp = blkno \<and> b_dev s bp = dev then Some (Some bp)
      else dev_search n dp dev blkno (b_forw s bp) s)"

definition incore :: "u16 \<Rightarrow> u32 \<Rightarrow> 'a bio_scheme \<Rightarrow> (bool, 'a bio_scheme) fres" where
  "incore dev blkno s =
     (let dp = Dev (major dev)
      in case dev_search (NBUF + 1) dp dev blkno (b_forw s dp) s of None \<Rightarrow> Endless | Some r \<Rightarrow> Ret (r \<noteq> None) s)"

text \<open>Moving a buffer from its device list to the front of another.\<close>

definition relink :: "bnode \<Rightarrow> bnode \<Rightarrow> 'a bio_scheme \<Rightarrow> 'a bio_scheme" where
  "relink dp bp s =
     (let s = s\<lparr>b_forw := (b_forw s)(b_back s bp := b_forw s bp)\<rparr>;
          s = s\<lparr>b_back := (b_back s)(b_forw s bp := b_back s bp)\<rparr>;
          s = s\<lparr>b_forw := (b_forw s)(bp := b_forw s dp)\<rparr>;
          s = s\<lparr>b_back := (b_back s)(bp := dp)\<rparr>;
          s = s\<lparr>b_back := (b_back s)(b_forw s dp := bp)\<rparr>
      in s\<lparr>b_forw := (b_forw s)(dp := bp)\<rparr>)"

text \<open>The count bounds the rounds of \<open>goto loop\<close>.\<close>

fun getblk_loop :: "nat \<Rightarrow> 'a strategy \<Rightarrow> u16 \<Rightarrow> u32 \<Rightarrow> 'a bio_scheme \<Rightarrow> (bnode, 'a bio_scheme) fres" where
  "getblk_loop 0 strat dev blkno s = Endless"
| "getblk_loop (Suc n) strat dev blkno s =
     (if \<not> has_tab s (major dev) then Panics ''devtab''
      else let dp = Dev (major dev) in
        case dev_search (NBUF + 1) dp dev blkno (b_forw s dp) s of
          None \<Rightarrow> Endless
        | Some (Some bp) \<Rightarrow>
            if B_BUSY \<in> b_flags s bp then Asleep (Ch_buf bp) (PRIBIO + 1) (flag_on bp {B_WANTED} s)
            else Ret bp (notavail bp s)
        | Some None \<Rightarrow>
            if av_forw s Free_head = Free_head
            then Asleep (Ch_buf Free_head) (PRIBIO + 1) (flag_on Free_head {B_WANTED} s)
            else
              let bp = av_forw s Free_head; s = notavail bp s in
              if B_DELWRI \<in> b_flags s bp
              then fbind (bwrite strat bp (flag_on bp {B_ASYNC} s)) (\<lambda>_ s. getblk_loop n strat dev blkno s)
              else
                let s = s\<lparr>b_flags := (b_flags s)(bp := {B_BUSY})\<rparr>;
                    s = relink dp bp s
                in Ret bp (s\<lparr>b_dev := (b_dev s)(bp := dev), b_blkno := (b_blkno s)(bp := blkno)\<rparr>))"

definition getblk :: "'a strategy \<Rightarrow> u16 \<Rightarrow> u32 \<Rightarrow> 'a bio_scheme \<Rightarrow> (bnode, 'a bio_scheme) fres" where
  "getblk strat dev blkno s =
     (if major dev \<ge> nblkdev s then Panics ''blkdev'' else getblk_loop (NBUF + 1) strat dev blkno s)"

fun geteblk_loop :: "nat \<Rightarrow> 'a strategy \<Rightarrow> 'a bio_scheme \<Rightarrow> (bnode, 'a bio_scheme) fres" where
  "geteblk_loop 0 strat s = Endless"
| "geteblk_loop (Suc n) strat s =
     (if av_forw s Free_head = Free_head
      then Asleep (Ch_buf Free_head) (PRIBIO + 1) (flag_on Free_head {B_WANTED} s)
      else
        let dp = Free_head; bp = av_forw s Free_head; s = notavail bp s in
        if B_DELWRI \<in> b_flags s bp
        then fbind (bwrite strat bp (flag_on bp {B_ASYNC} s)) (\<lambda>_ s. geteblk_loop n strat s)
        else
          let s = s\<lparr>b_flags := (b_flags s)(bp := {B_BUSY})\<rparr>;
              s = relink dp bp s
          in Ret bp (s\<lparr>b_dev := (b_dev s)(bp := NODEV)\<rparr>))"

definition geteblk :: "'a strategy \<Rightarrow> 'a bio_scheme \<Rightarrow> (bnode, 'a bio_scheme) fres" where
  "geteblk strat s = geteblk_loop (NBUF + 1) strat s"

definition start_read :: "'a strategy \<Rightarrow> bflag set \<Rightarrow> bnode \<Rightarrow> 'a bio_scheme \<Rightarrow> 'a bio_scheme" where
  "start_read strat F bp s =
     (let s = flag_on bp F s; s = s\<lparr>b_bcount := (b_bcount s)(bp := of_nat BSIZE)\<rparr> in strat bp s)"

definition bread :: "'a strategy \<Rightarrow> u16 \<Rightarrow> u32 \<Rightarrow> 'a bio_scheme \<Rightarrow> (bnode, 'a bio_scheme) fres" where
  "bread strat dev blkno s =
     fbind (getblk strat dev blkno s) (\<lambda>bp s.
       if B_DONE \<in> b_flags s bp then Ret bp s
       else let s = start_read strat {B_READ} bp s in fbind (iowait bp s) (\<lambda>_ s. Ret bp s))"

definition breada :: "'a strategy \<Rightarrow> u16 \<Rightarrow> u32 \<Rightarrow> u32 \<Rightarrow> 'a bio_scheme \<Rightarrow> (bnode, 'a bio_scheme) fres" where
  "breada strat dev blkno rablkno s =
     fbind (incore dev blkno s) (\<lambda>c s.
     fbind (if c then Ret None s
            else fbind (getblk strat dev blkno s) (\<lambda>bp s.
              Ret (Some bp) (if B_DONE \<in> b_flags s bp then s else start_read strat {B_READ} bp s))) (\<lambda>bp s.
     fbind (if rablkno = 0 then Ret () s
            else fbind (incore dev rablkno s) (\<lambda>c s.
              if c then Ret () s
              else fbind (getblk strat dev rablkno s) (\<lambda>rabp s.
                Ret () (if B_DONE \<in> b_flags s rabp then brelse rabp s else start_read strat {B_READ, B_ASYNC} rabp s)))) (\<lambda>_ s.
     case bp of
       None \<Rightarrow> bread strat dev blkno s
     | Some bp \<Rightarrow> fbind (iowait bp s) (\<lambda>_ s. Ret bp s))))"

definition clrbuf :: "bnode \<Rightarrow> 'a bio_scheme \<Rightarrow> 'a bio_scheme" where
  "clrbuf bp s = s\<lparr>b_addr := (b_addr s)(bp := replicate BSIZE 0), b_resid := (b_resid s)(bp := 0)\<rparr>"

text \<open>\<open>bflush\<close>: the search along the free list from \<open>bp\<close>, and the loop, which starts again after each block written.\<close>

fun flush_search :: "nat \<Rightarrow> u16 \<Rightarrow> bnode \<Rightarrow> 'a bio_scheme \<Rightarrow> bnode option option" where
  "flush_search 0 dev bp s = None"
| "flush_search (Suc n) dev bp s =
     (if bp = Free_head then Some None
      else if B_DELWRI \<in> b_flags s bp \<and> (dev = NODEV \<or> dev = b_dev s bp) then Some (Some bp)
      else flush_search n dev (av_forw s bp) s)"

fun bflush_loop :: "nat \<Rightarrow> 'a strategy \<Rightarrow> u16 \<Rightarrow> 'a bio_scheme \<Rightarrow> (unit, 'a bio_scheme) fres" where
  "bflush_loop 0 strat dev s = Endless"
| "bflush_loop (Suc n) strat dev s =
     (case flush_search (NBUF + 1) dev (av_forw s Free_head) s of
        None \<Rightarrow> Endless
      | Some None \<Rightarrow> Ret () s
      | Some (Some bp) \<Rightarrow>
          fbind (bwrite strat bp (notavail bp (flag_on bp {B_ASYNC} s))) (\<lambda>_ s. bflush_loop n strat dev s))"

definition bflush :: "'a strategy \<Rightarrow> u16 \<Rightarrow> 'a bio_scheme \<Rightarrow> (unit, 'a bio_scheme) fres" where
  "bflush strat dev s = bflush_loop (NBUF + 1) strat dev s"

text \<open>
  \<open>binit\<close>: every buffer of the pool, with its piece of \<open>buffers\<close>, goes onto the free list and the list of unassigned buffers, and the
  lists of the devices are made empty. The number of devices is that of the entries of \<open>bdevsw\<close>, the argument.
\<close>

fun binit_loop :: "nat \<Rightarrow> nat \<Rightarrow> 'a bio_scheme \<Rightarrow> 'a bio_scheme" where
  "binit_loop i 0 s = s"
| "binit_loop i (Suc n) s =
     (let bp = Buf i;
          s = s\<lparr>b_dev := (b_dev s)(bp := NODEV), b_addr := (b_addr s)(bp := replicate BSIZE 0)\<rparr>;
          s = s\<lparr>b_back := (b_back s)(bp := Free_head), b_forw := (b_forw s)(bp := b_forw s Free_head)\<rparr>;
          s = s\<lparr>b_back := (b_back s)(b_forw s Free_head := bp)\<rparr>;
          s = s\<lparr>b_forw := (b_forw s)(Free_head := bp)\<rparr>;
          s = s\<lparr>b_flags := (b_flags s)(bp := {B_BUSY})\<rparr>
      in binit_loop (i + 1) n (brelse bp s))"

fun bdev_loop :: "nat \<Rightarrow> nat \<Rightarrow> 'a bio_scheme \<Rightarrow> 'a bio_scheme" where
  "bdev_loop m 0 s = s"
| "bdev_loop m (Suc n) s =
     (let s = (if has_tab s m then s\<lparr>b_forw := (b_forw s)(Dev m := Dev m), b_back := (b_back s)(Dev m := Dev m)\<rparr> else s)
      in bdev_loop (m + 1) n (s\<lparr>nblkdev := nblkdev s + 1\<rparr>))"

definition binit :: "nat \<Rightarrow> 'a bio_scheme \<Rightarrow> 'a bio_scheme" where
  "binit ndev s =
     (let s = s\<lparr>b_forw := (b_forw s)(Free_head := Free_head), b_back := (b_back s)(Free_head := Free_head),
          av_forw := (av_forw s)(Free_head := Free_head), av_back := (av_back s)(Free_head := Free_head)\<rparr>
      in bdev_loop 0 ndev (binit_loop 0 NBUF s))"

section \<open>What the routines keep\<close>

definition pool :: "bnode set" where
  "pool = Buf ` {..<NBUF}"

lemma pool_not_head [simp]: "Free_head \<notin> pool" "Dev m \<notin> pool"
  by (auto simp: pool_def)

lemma finite_pool [simp]: "finite pool" "card pool = NBUF"
  by (simp_all add: pool_def card_image inj_on_def)

text \<open>The devices with a table, the heads of their rings, and the ring a buffer belongs to.\<close>

definition usable :: "'a bio_scheme \<Rightarrow> u16 \<Rightarrow> bool" where
  "usable s dev \<longleftrightarrow> dev \<noteq> NODEV \<and> major dev < nblkdev s \<and> has_tab s (major dev)"

definition heads :: "'a bio_scheme \<Rightarrow> bnode set" where
  "heads s = insert Free_head (Dev ` {m. m < nblkdev s \<and> has_tab s m})"

definition home :: "'a bio_scheme \<Rightarrow> bnode \<Rightarrow> bnode" where
  "home s b = (if b_dev s b = NODEV then Free_head else Dev (major (b_dev s b)))"

definition on_lists :: "'a bio_scheme \<Rightarrow> (bnode \<Rightarrow> bnode list) \<Rightarrow> bool" where
  "on_lists s dl \<longleftrightarrow> rings (b_forw s) (b_back s) (heads s) dl \<and> (\<forall>h \<in> heads s. set (dl h) = {b \<in> pool. home s b = h})"

text \<open>
  The invariant between the calls, when \<open>H\<close> are the buffers that are held: these and no others are busy; the others are on the free
  list; every buffer is on the list of its device, with no block of a device in two buffers; a buffer that is free and done has the
  block as it is on the disk, unless it is a delayed write. Nobody waits and nothing has failed.
\<close>

definition free_ok :: "'a bio_scheme \<Rightarrow> bnode set \<Rightarrow> bool" where
  "free_ok s H \<longleftrightarrow> (\<exists>fl. ring (av_forw s) (av_back s) Free_head fl \<and> set fl = pool - H)"

definition lists_ok :: "'a bio_scheme \<Rightarrow> bool" where
  "lists_ok s \<longleftrightarrow> (\<exists>dl. on_lists s dl) \<and> (\<forall>b \<in> pool. b_dev s b \<noteq> NODEV \<longrightarrow> usable s (b_dev s b))"

definition flags_ok :: "'a bio_scheme \<Rightarrow> bnode set \<Rightarrow> bool" where
  "flags_ok s H \<longleftrightarrow> B_WANTED \<notin> b_flags s Free_head \<and> (\<forall>m. B_TAPE \<notin> b_flags s (Dev m)) \<and>
     (\<forall>b \<in> pool. (B_BUSY \<in> b_flags s b \<longleftrightarrow> b \<in> H) \<and> B_WANTED \<notin> b_flags s b \<and> B_ERROR \<notin> b_flags s b \<and> B_ASYNC \<notin> b_flags s b \<and>
        (B_DELWRI \<in> b_flags s b \<longrightarrow> B_DONE \<in> b_flags s b \<and> b_dev s b \<noteq> NODEV))"

definition unique_ok :: "'a bio_scheme \<Rightarrow> bool" where
  "unique_ok s \<longleftrightarrow> (\<forall>b \<in> pool. \<forall>c \<in> pool. b_dev s b = b_dev s c \<and> b_blkno s b = b_blkno s c \<and> b_dev s b \<noteq> NODEV \<longrightarrow> b = c)"

definition data_ok :: "'a bio_scheme \<Rightarrow> bnode set \<Rightarrow> bool" where
  "data_ok s H \<longleftrightarrow> (\<forall>b \<in> pool - H. b_dev s b \<noteq> NODEV \<and> B_DONE \<in> b_flags s b \<and> B_DELWRI \<notin> b_flags s b \<longrightarrow>
     b_addr s b = disk s (b_dev s b) (b_blkno s b))"

definition sizes_ok :: "'a bio_scheme \<Rightarrow> bool" where
  "sizes_ok s \<longleftrightarrow> (\<forall>b \<in> pool. length (b_addr s b) = BSIZE \<and> b_resid s b = 0) \<and> (\<forall>d k. length (disk s d k) = BSIZE)"

definition binv :: "'a bio_scheme \<Rightarrow> bnode set \<Rightarrow> bool" where
  "binv s H \<longleftrightarrow> H \<subseteq> pool \<and> free_ok s H \<and> lists_ok s \<and> flags_ok s H \<and> unique_ok s \<and> data_ok s H \<and> sizes_ok s"

lemma binvD:
  assumes "binv s H"
  shows "H \<subseteq> pool" "free_ok s H" "lists_ok s" "flags_ok s H" "unique_ok s" "data_ok s H" "sizes_ok s"
  using assms by (simp_all add: binv_def)

text \<open>
  The contents of a device as the routines above see them: what is on the disk, under the delayed writes.
\<close>

definition delayed_at :: "'a bio_scheme \<Rightarrow> u16 \<Rightarrow> u32 \<Rightarrow> bnode option" where
  "delayed_at s dev blkno = find (\<lambda>b. B_DELWRI \<in> b_flags s b \<and> b_dev s b = dev \<and> b_blkno s b = blkno) (map Buf [0..<NBUF])"

definition cont :: "'a bio_scheme \<Rightarrow> u16 \<Rightarrow> u32 \<Rightarrow> u8 list" where
  "cont s dev blkno = (case delayed_at s dev blkno of Some b \<Rightarrow> b_addr s b | None \<Rightarrow> disk s dev blkno)"

lemma pool_list: "set (map Buf [0..<NBUF]) = pool"
  by (auto simp: pool_def)

lemma binv_len:
  assumes "binv s H"
  shows "b \<in> pool \<Longrightarrow> length (b_addr s b) = BSIZE" "length (disk s d k) = BSIZE" "b \<in> pool \<Longrightarrow> b_resid s b = 0"
  using binvD(7) [OF assms] by (simp_all add: sizes_ok_def)

lemma delayed_at_Some:
  "delayed_at s dev blkno = Some b \<Longrightarrow> b \<in> pool \<and> B_DELWRI \<in> b_flags s b \<and> b_dev s b = dev \<and> b_blkno s b = blkno"
  unfolding delayed_at_def find_Some_iff pool_list [symmetric] by auto

lemma delayed_at_None:
  "delayed_at s dev blkno = None \<longleftrightarrow> (\<forall>b \<in> pool. \<not> (B_DELWRI \<in> b_flags s b \<and> b_dev s b = dev \<and> b_blkno s b = blkno))"
  unfolding delayed_at_def find_None_iff pool_list by blast

text \<open>What a routine leaves alone: everything outside the buffers, and the buffers held.\<close>

definition bio_only :: "'a bio_scheme \<Rightarrow> 'a bio_scheme \<Rightarrow> bool" where
  "bio_only s t \<longleftrightarrow> u_base t = u_base s \<and> u_count t = u_count s \<and> u_offset t = u_offset s \<and> u_segflg t = u_segflg s \<and>
     u_error t = u_error s \<and> u_mem t = u_mem s \<and> nblkdev t = nblkdev s \<and> has_tab t = has_tab s \<and> bio.more t = bio.more s"

definition same_buf :: "bnode \<Rightarrow> 'a bio_scheme \<Rightarrow> 'a bio_scheme \<Rightarrow> bool" where
  "same_buf b s t \<longleftrightarrow> b_dev t b = b_dev s b \<and> b_blkno t b = b_blkno s b \<and> b_addr t b = b_addr s b \<and> b_flags t b = b_flags s b"

lemma bio_only_refl [simp]: "bio_only s s" by (simp add: bio_only_def)
lemma bio_only_trans: "bio_only s t \<Longrightarrow> bio_only t u \<Longrightarrow> bio_only s u" by (simp add: bio_only_def)
lemma same_buf_refl [simp]: "same_buf b s s" by (simp add: same_buf_def)
lemma same_buf_trans: "same_buf b s t \<Longrightarrow> same_buf b t u \<Longrightarrow> same_buf b s u" by (simp add: same_buf_def)

text \<open>The assumption on the driver: it transfers the block and has finished, with \<^const>\<open>iodone\<close>, when it returns.\<close>

definition transfer :: "bnode \<Rightarrow> 'a bio_scheme \<Rightarrow> 'a bio_scheme" where
  "transfer bp s =
     (if B_READ \<in> b_flags s bp then s\<lparr>b_addr := (b_addr s)(bp := disk s (b_dev s bp) (b_blkno s bp))\<rparr>
      else s\<lparr>disk := (disk s)(b_dev s bp := (disk s (b_dev s bp))(b_blkno s bp := b_addr s bp))\<rparr>)"

definition sync_driver :: "'a strategy \<Rightarrow> bool" where
  "sync_driver strat \<longleftrightarrow> (\<forall>bp s. strat bp s = iodone bp (transfer bp s))"

definition fpost :: "('a, 's) fres \<Rightarrow> ('a \<Rightarrow> 's \<Rightarrow> bool) \<Rightarrow> bool" where
  "fpost m Q = (case m of Ret a s \<Rightarrow> Q a s | _ \<Rightarrow> False)"

lemma fpost_Ret [simp]: "fpost (Ret a s) Q = Q a s" by (simp add: fpost_def)

lemma fpost_bind: "fpost m (\<lambda>a s. fpost (f a s) Q) \<Longrightarrow> fpost (fbind m f) Q"
  by (cases m) (simp_all add: fpost_def)

lemma fpost_mono: "fpost m P \<Longrightarrow> (\<And>a s. P a s \<Longrightarrow> Q a s) \<Longrightarrow> fpost m Q"
  by (cases m) (simp_all add: fpost_def)

lemma fpostE: "fpost m Q \<Longrightarrow> (\<And>a s. m = Ret a s \<Longrightarrow> Q a s \<Longrightarrow> P) \<Longrightarrow> P"
  by (cases m) (simp_all add: fpost_def)

subsection \<open>The contents\<close>

lemma delayed_unique:
  assumes "unique_ok s" "b \<in> pool" "B_DELWRI \<in> b_flags s b" "b_dev s b \<noteq> NODEV"
  shows "delayed_at s (b_dev s b) (b_blkno s b) = Some b"
proof -
  have "delayed_at s (b_dev s b) (b_blkno s b) \<noteq> None" using assms unfolding delayed_at_None by blast
  then obtain c where c: "delayed_at s (b_dev s b) (b_blkno s b) = Some c" by blast
  then have "c \<in> pool" "b_dev s b = b_dev s c" "b_blkno s b = b_blkno s c" using delayed_at_Some [OF c] by simp_all
  then have "b = c" using assms(1,2,4) unfolding unique_ok_def by blast
  then show ?thesis using c by simp
qed

lemma cont_delayed:
  assumes "binv s H" "b \<in> pool" "B_DELWRI \<in> b_flags s b"
  shows "cont s (b_dev s b) (b_blkno s b) = b_addr s b"
proof -
  have "b_dev s b \<noteq> NODEV" using binvD(4) [OF assms(1)] assms(2,3) unfolding flags_ok_def by blast
  then show ?thesis using delayed_unique [OF binvD(5) [OF assms(1)] assms(2,3)] by (simp add: cont_def)
qed

lemma cont_disk:
  "(\<And>b. b \<in> pool \<Longrightarrow> B_DELWRI \<in> b_flags s b \<Longrightarrow> b_dev s b = dev \<Longrightarrow> b_blkno s b = blkno \<Longrightarrow> False) \<Longrightarrow> cont s dev blkno = disk s dev blkno"
  unfolding cont_def using delayed_at_None [of s dev blkno] by force

lemma cont_clean:
  assumes i: "binv s H" and b: "b \<in> pool" "b_dev s b \<noteq> NODEV" "B_DELWRI \<notin> b_flags s b"
  shows "cont s (b_dev s b) (b_blkno s b) = disk s (b_dev s b) (b_blkno s b)"
proof (rule cont_disk)
  fix c assume c: "c \<in> pool" "B_DELWRI \<in> b_flags s c" "b_dev s c = b_dev s b" "b_blkno s c = b_blkno s b"
  then have "c = b" using binvD(5) [OF i] b(1,2) unfolding unique_ok_def by metis
  with c(2) b(3) show False by simp
qed

lemma cont_free:
  assumes i: "binv s H" and b: "b \<in> pool" "b \<notin> H" "b_dev s b \<noteq> NODEV" "B_DONE \<in> b_flags s b"
  shows "cont s (b_dev s b) (b_blkno s b) = b_addr s b"
proof (cases "B_DELWRI \<in> b_flags s b")
  case True
  then show ?thesis using cont_delayed [OF i] b by simp
next
  case False
  then show ?thesis using cont_clean [OF i b(1,3)] binvD(6) [OF i] b unfolding data_ok_def by simp
qed

text \<open>The contents in two states with the same delayed writes and the same disk.\<close>

lemma cont_cong:
  assumes "disk t = disk s"
    and "\<And>b. b \<in> pool \<Longrightarrow> (B_DELWRI \<in> b_flags t b) = (B_DELWRI \<in> b_flags s b)"
    and "\<And>b. b \<in> pool \<Longrightarrow> B_DELWRI \<in> b_flags s b \<Longrightarrow> b_dev t b = b_dev s b \<and> b_blkno t b = b_blkno s b \<and> b_addr t b = b_addr s b"
  shows "cont t = cont s"
proof (intro ext)
  fix d k
  have "delayed_at t d k = delayed_at s d k"
    unfolding delayed_at_def by (rule find_cong [OF refl]) (use assms(2,3) pool_list in auto)
  moreover have "b_addr t b = b_addr s b" if "delayed_at s d k = Some b" for b using delayed_at_Some [OF that] assms(3) by blast
  ultimately show "cont t d k = cont s d k" using assms(1) by (auto simp: cont_def split: option.splits)
qed

subsection \<open>The primitive steps\<close>

lemma notavail_run:
  obtains f g where "notavail b s = s\<lparr>b_flags := (b_flags s)(b := b_flags s b \<union> {B_BUSY}), av_forw := f, av_back := g\<rparr>"
    "\<And>fl. ring (av_forw s) (av_back s) Free_head fl \<Longrightarrow> b \<in> set fl \<Longrightarrow> \<exists>fl'. ring f g Free_head fl' \<and> set fl' = set fl - {b}"
proof -
  define f where "f = (av_forw s)(av_back s b := av_forw s b)"
  define g where "g = (av_back s)(f b := av_back s b)"
  have e: "notavail b s = s\<lparr>b_flags := (b_flags s)(b := b_flags s b \<union> {B_BUSY}), av_forw := f, av_back := g\<rparr>"
    by (simp add: notavail_def flag_on_def f_def g_def Let_def)
  have r: "\<exists>fl'. ring f g Free_head fl' \<and> set fl' = set fl - {b}"
    if ring: "ring (av_forw s) (av_back s) Free_head fl" and b: "b \<in> set fl" for fl
  proof -
    obtain xs ys where fl: "fl = xs @ b # ys" using b by (auto simp: in_set_conv_decomp)
    have d: "distinct (Free_head # fl)" using ring unfolding ring_def by simp
    have "av_back s b = last (Free_head # xs)" using ring_neighbours(1) ring unfolding fl by metis
    then have "av_back s b \<noteq> b" using d fl last_in_set [of "Free_head # xs"] by fastforce
    then have "f b = av_forw s b" by (simp add: f_def)
    then have "ring f g Free_head (xs @ ys)" using ring_remove [of "av_forw s" "av_back s" Free_head xs b ys] ring
      unfolding fl f_def g_def by simp
    moreover have "set (xs @ ys) = set fl - {b}" using d fl by auto
    ultimately show ?thesis by blast
  qed
  show thesis by (rule that [OF e r])
qed

lemma brelse_run:
  assumes w: "B_WANTED \<notin> b_flags s b" "B_WANTED \<notin> b_flags s Free_head" "B_ERROR \<notin> b_flags s b"
  obtains f g where "brelse b s = s\<lparr>b_flags := (b_flags s)(b := b_flags s b - {B_WANTED, B_BUSY, B_ASYNC, B_AGE}), av_forw := f, av_back := g\<rparr>"
    "\<And>fl. ring (av_forw s) (av_back s) Free_head fl \<Longrightarrow> b \<notin> set (Free_head # fl) \<Longrightarrow> \<exists>fl'. ring f g Free_head fl' \<and> set fl' = insert b (set fl)"
proof (cases "B_AGE \<in> b_flags s b")
  case True
  define x where "x = av_forw s Free_head"
  define f g where "f = (av_forw s)(b := x, Free_head := b)" and "g = (av_back s)(x := b, b := Free_head)"
  have e: "brelse b s = s\<lparr>b_flags := (b_flags s)(b := b_flags s b - {B_WANTED, B_BUSY, B_ASYNC, B_AGE}), av_forw := f, av_back := g\<rparr>"
    using w True by (simp add: brelse_def flag_off_def f_def g_def x_def Let_def)
  have "\<exists>fl'. ring f g Free_head fl' \<and> set fl' = insert b (set fl)"
    if "ring (av_forw s) (av_back s) Free_head fl" "b \<notin> set (Free_head # fl)" for fl
    using ring_push [OF that] unfolding f_def g_def x_def by (intro exI [of _ "b # fl"]) simp
  then show thesis by (rule that [OF e])
next
  case False
  define x where "x = av_back s Free_head"
  define f g where "f = (av_forw s)(x := b, b := Free_head)" and "g = (av_back s)(b := x, Free_head := b)"
  have e: "brelse b s = s\<lparr>b_flags := (b_flags s)(b := b_flags s b - {B_WANTED, B_BUSY, B_ASYNC, B_AGE}), av_forw := f, av_back := g\<rparr>"
    using w False by (simp add: brelse_def flag_off_def f_def g_def x_def Let_def)
  have "\<exists>fl'. ring f g Free_head fl' \<and> set fl' = insert b (set fl)"
    if "ring (av_forw s) (av_back s) Free_head fl" "b \<notin> set (Free_head # fl)" for fl
    using ring_append [OF that] unfolding f_def g_def x_def by (intro exI [of _ "fl @ [b]"]) simp
  then show thesis by (rule that [OF e])
qed

lemma relink_run:
  obtains f g where "relink dp b s = s\<lparr>b_forw := f, b_back := g\<rparr>"
    "\<And>Hd dl. rings (b_forw s) (b_back s) Hd dl \<Longrightarrow> dp \<in> Hd \<Longrightarrow> b \<notin> Hd \<Longrightarrow> h \<in> Hd \<Longrightarrow> b \<in> set (dl h) \<Longrightarrow>
       \<exists>dl'. rings f g Hd dl' \<and> (\<forall>k. set (dl' k) = (if k = dp then insert b (set (dl k)) else set (dl k) - {b}))"
proof -
  define f1 where "f1 = (b_forw s)(b_back s b := b_forw s b)"
  define g1 where "g1 = (b_back s)(f1 b := b_back s b)"
  define f2 where "f2 = f1(b := f1 dp)"
  define g2 where "g2 = g1(b := dp, f2 dp := b)"
  have e: "relink dp b s = s\<lparr>b_forw := f2(dp := b), b_back := g2\<rparr>"
    by (simp add: relink_def Let_def f1_def f2_def g1_def g2_def)
  have r: "\<exists>dl'. rings (f2(dp := b)) g2 Hd dl' \<and> (\<forall>k. set (dl' k) = (if k = dp then insert b (set (dl k)) else set (dl k) - {b}))"
    if rs: "rings (b_forw s) (b_back s) Hd dl" and dp: "dp \<in> Hd" and bn: "b \<notin> Hd" and h: "h \<in> Hd" and b: "b \<in> set (dl h)" for Hd dl
  proof -
    obtain xs ys where fl: "dl h = xs @ b # ys" using b by (auto simp: in_set_conv_decomp)
    have ring: "ring (b_forw s) (b_back s) h (dl h)" using rs h unfolding rings_def by blast
    then have d: "distinct (h # dl h)" unfolding ring_def by simp
    have "b_back s b = last (h # xs)" using ring_neighbours(1) ring unfolding fl by metis
    then have "b_back s b \<noteq> b" using d fl last_in_set [of "h # xs"] by fastforce
    then have "f1 b = b_forw s b" by (simp add: f1_def)
    then have r1: "rings f1 g1 Hd (dl(h := xs @ ys))" using rings_remove [OF rs h fl] unfolding f1_def g1_def by simp
    have nin: "b \<notin> set (dl k)" if "k \<in> Hd" "k \<noteq> h" for k
    proof -
      have "set (h # dl h) \<inter> set (k # dl k) = {}" using rs h that unfolding rings_def by blast
      then show ?thesis using b by auto
    qed
    have "\<forall>k \<in> Hd. b \<notin> set (k # (dl(h := xs @ ys)) k)" using nin d bn unfolding fl by auto
    from rings_push [OF r1 dp this]
    have "rings (f1(b := f1 dp, dp := b)) (g1(b := dp, f1 dp := b)) Hd ((dl(h := xs @ ys))(dp := b # (dl(h := xs @ ys)) dp))" .
    moreover have "f2 dp = f1 dp" using dp bn by (auto simp: f2_def)
    ultimately have r2: "rings (f2(dp := b)) g2 Hd ((dl(h := xs @ ys))(dp := b # (dl(h := xs @ ys)) dp))"
      by (simp add: f2_def g2_def)
    define dl' where "dl' k = (if k \<in> Hd then ((dl(h := xs @ ys))(dp := b # (dl(h := xs @ ys)) dp)) k else removeAll b (dl k))" for k
    have "rings (f2(dp := b)) g2 Hd dl'" using r2 unfolding rings_def dl'_def by simp
    moreover have "set (dl' k) = (if k = dp then insert b (set (dl k)) else set (dl k) - {b})" for k
      using nin d dp h fl unfolding dl'_def by auto
    ultimately show ?thesis by blast
  qed
  show thesis by (rule that [OF e r])
qed

lemma iowait_done: "B_DONE \<in> b_flags s b \<Longrightarrow> B_ERROR \<notin> b_flags s b \<Longrightarrow> iowait b s = Ret () s"
  by (simp add: iowait_def geterror_def)

text \<open>A write, synchronous or not, with a driver that finishes at once.\<close>

lemma bwrite_run:
  assumes st: "sync_driver strat" and w: "B_WANTED \<notin> b_flags s b" "B_WANTED \<notin> b_flags s Free_head"
  obtains F f g bc wk where "bwrite strat b s = Ret () (s\<lparr>b_flags := (b_flags s)(b := F), av_forw := f, av_back := g, b_bcount := bc,
      disk := (disk s)(b_dev s b := (disk s (b_dev s b))(b_blkno s b := b_addr s b)), wakeups := wk\<rparr>)"
    "F \<inter> {B_BUSY, B_WANTED, B_ERROR, B_ASYNC, B_DELWRI} = {}" "B_DONE \<in> F"
    "\<And>fl. ring (av_forw s) (av_back s) Free_head fl \<Longrightarrow> b \<notin> set (Free_head # fl) \<Longrightarrow> \<exists>fl'. ring f g Free_head fl' \<and> set fl' = insert b (set fl)"
proof -
  define F0 where "F0 = b_flags s b - {B_READ, B_DONE, B_ERROR, B_DELWRI, B_AGE}"
  define t where "t = transfer b ((flag_off b {B_READ, B_DONE, B_ERROR, B_DELWRI, B_AGE} s)\<lparr>b_bcount := (b_bcount s)(b := of_nat BSIZE)\<rparr>)"
  have t: "t = s\<lparr>b_flags := (b_flags s)(b := F0), b_bcount := (b_bcount s)(b := of_nat BSIZE),
      disk := (disk s)(b_dev s b := (disk s (b_dev s b))(b_blkno s b := b_addr s b))\<rparr>"
    by (simp add: t_def transfer_def flag_off_def F0_def)
  have bw: "bwrite strat b s = (let u = iodone b t in
      if B_ASYNC \<notin> b_flags s b then fbind (iowait b u) (\<lambda>_ u. Ret () (brelse b u))
      else if B_DELWRI \<in> b_flags s b then Ret () (flag_on b {B_AGE} u) else Ret () (geterror b u))"
    using st by (simp add: bwrite_def Let_def t_def sync_driver_def flag_off_def)
  define t1 where "t1 = flag_on b {B_DONE} t"
  show thesis
  proof (cases "B_ASYNC \<in> b_flags s b")
    case True
    have nb: "B_WANTED \<notin> b_flags t1 b" "B_WANTED \<notin> b_flags t1 Free_head" "B_ERROR \<notin> b_flags t1 b"
      using w by (auto simp: t1_def t flag_on_def F0_def)
    obtain f g where r: "brelse b t1 = t1\<lparr>b_flags := (b_flags t1)(b := b_flags t1 b - {B_WANTED, B_BUSY, B_ASYNC, B_AGE}), av_forw := f, av_back := g\<rparr>"
      "\<And>fl. ring (av_forw t1) (av_back t1) Free_head fl \<Longrightarrow> b \<notin> set (Free_head # fl) \<Longrightarrow> \<exists>fl'. ring f g Free_head fl' \<and> set fl' = insert b (set fl)"
      by (rule brelse_run [OF nb]) auto
    have i: "iodone b t = brelse b t1" using True by (simp add: iodone_def t1_def Let_def t flag_on_def F0_def)
    define F where "F = (F0 \<union> {B_DONE}) - {B_WANTED, B_BUSY, B_ASYNC, B_AGE} \<union> (if B_DELWRI \<in> b_flags s b then {B_AGE} else {})"
    have "bwrite strat b s = Ret () (s\<lparr>b_flags := (b_flags s)(b := F), av_forw := f, av_back := g, b_bcount := (b_bcount s)(b := of_nat BSIZE),
      disk := (disk s)(b_dev s b := (disk s (b_dev s b))(b_blkno s b := b_addr s b)), wakeups := wakeups s\<rparr>)"
      unfolding bw i r(1) Let_def using True nb(3)
      by (simp add: geterror_def flag_on_def F_def t1_def t Un_commute)
    then show thesis
    proof (rule that)
      show "F \<inter> {B_BUSY, B_WANTED, B_ERROR, B_ASYNC, B_DELWRI} = {}" "B_DONE \<in> F" by (auto simp: F_def F0_def)
      show "\<exists>fl'. ring f g Free_head fl' \<and> set fl' = insert b (set fl)"
        if "ring (av_forw s) (av_back s) Free_head fl" "b \<notin> set (Free_head # fl)" for fl
        using r(2) [of fl] that by (simp add: t1_def t flag_on_def)
    qed
  next
    case False
    define t2 where "t2 = awaken (Ch_buf b) (flag_off b {B_WANTED} t1)"
    have i: "iodone b t = t2" using False by (simp add: iodone_def t1_def t2_def Let_def t flag_on_def F0_def)
    have t2: "t2 = s\<lparr>b_flags := (b_flags s)(b := F0 \<union> {B_DONE} - {B_WANTED}), b_bcount := (b_bcount s)(b := of_nat BSIZE),
      disk := (disk s)(b_dev s b := (disk s (b_dev s b))(b_blkno s b := b_addr s b)), wakeups := Ch_buf b # wakeups s\<rparr>"
      by (simp add: t2_def t1_def t flag_on_def flag_off_def awaken_def)
    have nb: "B_WANTED \<notin> b_flags t2 b" "B_WANTED \<notin> b_flags t2 Free_head" "B_ERROR \<notin> b_flags t2 b" "B_DONE \<in> b_flags t2 b"
      using w by (auto simp: t2 F0_def)
    obtain f g where r: "brelse b t2 = t2\<lparr>b_flags := (b_flags t2)(b := b_flags t2 b - {B_WANTED, B_BUSY, B_ASYNC, B_AGE}), av_forw := f, av_back := g\<rparr>"
      "\<And>fl. ring (av_forw t2) (av_back t2) Free_head fl \<Longrightarrow> b \<notin> set (Free_head # fl) \<Longrightarrow> \<exists>fl'. ring f g Free_head fl' \<and> set fl' = insert b (set fl)"
      by (rule brelse_run [OF nb(1-3)]) auto
    define F where "F = (F0 \<union> {B_DONE} - {B_WANTED}) - {B_WANTED, B_BUSY, B_ASYNC, B_AGE}"
    have "bwrite strat b s = Ret () (s\<lparr>b_flags := (b_flags s)(b := F), av_forw := f, av_back := g, b_bcount := (b_bcount s)(b := of_nat BSIZE),
      disk := (disk s)(b_dev s b := (disk s (b_dev s b))(b_blkno s b := b_addr s b)), wakeups := Ch_buf b # wakeups s\<rparr>)"
      unfolding bw i Let_def iowait_done [OF nb(4,3)] using False r(1) by (simp add: t2 F_def)
    then show thesis
    proof (rule that)
      show "F \<inter> {B_BUSY, B_WANTED, B_ERROR, B_ASYNC, B_DELWRI} = {}" "B_DONE \<in> F" using False by (auto simp: F_def F0_def)
      show "\<exists>fl'. ring f g Free_head fl' \<and> set fl' = insert b (set fl)"
        if "ring (av_forw s) (av_back s) Free_head fl" "b \<notin> set (Free_head # fl)" for fl
        using r(2) [of fl] that by (simp add: t2)
    qed
  qed
qed

subsection \<open>Releasing a buffer\<close>

text \<open>\<open>t\<close> is \<open>s\<close> but for the flags of \<open>b\<close>, the free list and the block of \<open>b\<close> on the disk.\<close>

definition only_block :: "bnode \<Rightarrow> bflag set \<Rightarrow> 'a bio_scheme \<Rightarrow> 'a bio_scheme \<Rightarrow> bool" where
  "only_block b F s t \<longleftrightarrow> b_flags t = (b_flags s)(b := F) \<and> b_forw t = b_forw s \<and> b_back t = b_back s \<and> b_dev t = b_dev s \<and>
     b_blkno t = b_blkno s \<and> b_addr t = b_addr s \<and> b_resid t = b_resid s \<and> nblkdev t = nblkdev s \<and> has_tab t = has_tab s \<and>
     (\<forall>d k. (d, k) \<noteq> (b_dev s b, b_blkno s b) \<or> b_dev s b = NODEV \<longrightarrow> disk t d k = disk s d k)"

lemma lists_ok_cong:
  "lists_ok s \<Longrightarrow> b_forw t = b_forw s \<Longrightarrow> b_back t = b_back s \<Longrightarrow> b_dev t = b_dev s \<Longrightarrow> nblkdev t = nblkdev s \<Longrightarrow> has_tab t = has_tab s \<Longrightarrow> lists_ok t"
proof -
  assume a: "lists_ok s" "b_forw t = b_forw s" "b_back t = b_back s" "b_dev t = b_dev s" "nblkdev t = nblkdev s" "has_tab t = has_tab s"
  have "heads t = heads s" "home t = home s" "usable t = usable s" using a by (auto simp: heads_def home_def usable_def fun_eq_iff)
  then show ?thesis using a unfolding lists_ok_def on_lists_def by simp
qed

lemma settle:
  assumes i: "binv s H" and b: "b \<in> H" and o: "only_block b F s t" and fr: "free_ok t (H - {b})"
    and F: "F \<inter> {B_BUSY, B_WANTED, B_ERROR, B_ASYNC} = {}" "B_DELWRI \<in> F \<longrightarrow> B_DONE \<in> F \<and> b_dev s b \<noteq> NODEV"
    and D: "b_dev s b \<noteq> NODEV \<and> B_DONE \<in> F \<and> B_DELWRI \<notin> F \<longrightarrow> b_addr s b = disk t (b_dev s b) (b_blkno s b)"
    and len: "length (disk t (b_dev s b) (b_blkno s b)) = BSIZE"
  shows "binv t (H - {b})"
    and "cont t d k = (if d = b_dev s b \<and> k = b_blkno s b \<and> d \<noteq> NODEV then if B_DONE \<in> F then b_addr s b else disk t d k else cont s d k)"
proof -
  have bp: "b \<in> pool" "b \<noteq> Free_head" "\<And>m. b \<noteq> Dev m" using b binvD(1) [OF i] by (auto simp: pool_def)
  have t: "b_flags t = (b_flags s)(b := F)" "b_dev t = b_dev s" "b_blkno t = b_blkno s" "b_addr t = b_addr s"
    "b_forw t = b_forw s" "b_back t = b_back s" "nblkdev t = nblkdev s" "has_tab t = has_tab s" "b_resid t = b_resid s"
    using o by (simp_all add: only_block_def)
  have dk: "disk t d k = disk s d k" if "(d, k) \<noteq> (b_dev s b, b_blkno s b) \<or> b_dev s b = NODEV" for d k
    using o that unfolding only_block_def by blast
  have other: "(b_dev s c, b_blkno s c) \<noteq> (b_dev s b, b_blkno s b) \<or> b_dev s b = NODEV" if "c \<in> pool" "c \<noteq> b" for c
    using binvD(5) [OF i] that bp(1) unfolding unique_ok_def by (metis prod.inject)
  have "lists_ok t" by (rule lists_ok_cong [OF binvD(3) [OF i] t(5,6,2,7,8)])
  moreover have "unique_ok t" using binvD(5) [OF i] by (simp add: unique_ok_def t)
  moreover have "flags_ok t (H - {b})" using binvD(4) [OF i] F bp by (auto simp: flags_ok_def t)
  moreover have "data_ok t (H - {b})"
    unfolding data_ok_def
  proof (intro ballI impI)
    fix c assume c: "c \<in> pool - (H - {b})" "b_dev t c \<noteq> NODEV \<and> B_DONE \<in> b_flags t c \<and> B_DELWRI \<notin> b_flags t c"
    show "b_addr t c = disk t (b_dev t c) (b_blkno t c)"
    proof (cases "c = b")
      case True
      then show ?thesis using c D by (simp add: t)
    next
      case False
      then have "b_addr s c = disk s (b_dev s c) (b_blkno s c)" using c binvD(6) [OF i] by (simp add: data_ok_def t)
      then show ?thesis using dk [OF other] c(1) False by (simp add: t)
    qed
  qed
  moreover have "H - {b} \<subseteq> pool" using binvD(1) [OF i] by blast
  moreover have "length (disk t d k) = BSIZE" for d k
    using len dk [of d k] binvD(7) [OF i] by (cases "(d, k) = (b_dev s b, b_blkno s b)") (simp_all add: sizes_ok_def)
  then have "sizes_ok t" using binvD(7) [OF i] by (simp add: sizes_ok_def t)
  ultimately show it: "binv t (H - {b})" using fr by (simp add: binv_def)
  show "cont t d k = (if d = b_dev s b \<and> k = b_blkno s b \<and> d \<noteq> NODEV then if B_DONE \<in> F then b_addr s b else disk t d k else cont s d k)"
  proof (cases "d = b_dev s b \<and> k = b_blkno s b \<and> d \<noteq> NODEV")
    case True
    then have dk: "d = b_dev s b" "k = b_blkno s b" "b_dev s b \<noteq> NODEV" by auto
    show ?thesis
    proof (cases "B_DONE \<in> F")
      case d: True
      have "cont t (b_dev t b) (b_blkno t b) = b_addr t b" by (rule cont_free [OF it]) (use True d bp t in auto)
      then show ?thesis using dk d by (simp add: t)
    next
      case d: False
      have "cont t (b_dev t b) (b_blkno t b) = disk t (b_dev t b) (b_blkno t b)" by (rule cont_clean [OF it]) (use True d F bp t in auto)
      then show ?thesis using dk d by (simp add: t)
    qed
  next
    case False
    then have ne: "(d, k) \<noteq> (b_dev s b, b_blkno s b) \<or> b_dev s b = NODEV" by auto
    have "delayed_at t d k = delayed_at s d k"
      unfolding delayed_at_def
    proof (rule find_cong [OF refl])
      fix c assume "c \<in> set (map Buf [0..<NBUF])"
      have "B_DELWRI \<in> b_flags s b \<longrightarrow> b_dev s b \<noteq> NODEV" using binvD(4) [OF i] bp(1) unfolding flags_ok_def by blast
      then show "(B_DELWRI \<in> b_flags t c \<and> b_dev t c = d \<and> b_blkno t c = k) = (B_DELWRI \<in> b_flags s c \<and> b_dev s c = d \<and> b_blkno s c = k)"
        using ne F(2) by (auto simp: t)
    qed
    then have "cont t d k = cont s d k" using dk [OF ne] unfolding cont_def t(4) by (simp split: option.split)
    then show ?thesis unfolding if_not_P [OF False] .
  qed
qed

lemma free_ok_release:
  assumes "free_ok s H" "b \<in> H" "H \<subseteq> pool"
    and "\<And>fl. ring (av_forw s) (av_back s) Free_head fl \<Longrightarrow> b \<notin> set (Free_head # fl) \<Longrightarrow> \<exists>fl'. ring f g Free_head fl' \<and> set fl' = insert b (set fl)"
    and "av_forw t = f" "av_back t = g"
  shows "free_ok t (H - {b})"
proof -
  obtain fl where fl: "ring (av_forw s) (av_back s) Free_head fl" "set fl = pool - H" using assms(1) by (auto simp: free_ok_def)
  have "b \<notin> set (Free_head # fl)" using fl(2) assms(2,3) by auto
  then obtain fl' where "ring f g Free_head fl'" "set fl' = insert b (pool - H)" using assms(4) [OF fl(1)] fl(2) by auto
  moreover have "insert b (pool - H) = pool - (H - {b})" using assms(2,3) by blast
  ultimately show ?thesis using assms(5,6) by (auto simp: free_ok_def)
qed

text \<open>The contracts of the routines that give a buffer back.\<close>

lemma held_flags:
  assumes "binv s H" "b \<in> H"
  shows "B_WANTED \<notin> b_flags s b" "B_WANTED \<notin> b_flags s Free_head" "B_ERROR \<notin> b_flags s b" "B_ASYNC \<notin> b_flags s b" "B_BUSY \<in> b_flags s b"
    "B_DELWRI \<in> b_flags s b \<Longrightarrow> B_DONE \<in> b_flags s b \<and> b_dev s b \<noteq> NODEV" "b \<in> pool" "b \<noteq> Free_head"
proof -
  show "b \<in> pool" using assms binvD(1) by blast
  then show "B_WANTED \<notin> b_flags s b" "B_WANTED \<notin> b_flags s Free_head" "B_ERROR \<notin> b_flags s b" "B_ASYNC \<notin> b_flags s b" "B_BUSY \<in> b_flags s b"
    "B_DELWRI \<in> b_flags s b \<Longrightarrow> B_DONE \<in> b_flags s b \<and> b_dev s b \<noteq> NODEV"
    using binvD(4) [OF assms(1)] assms(2) unfolding flags_ok_def by blast+
  show "b \<noteq> Free_head" using \<open>b \<in> pool\<close> by auto
qed

lemma brelse_keeps:
  assumes i: "binv s H" and b: "b \<in> H"
    and D: "b_dev s b \<noteq> NODEV \<Longrightarrow> B_DONE \<in> b_flags s b \<Longrightarrow> b_addr s b = cont s (b_dev s b) (b_blkno s b)"
  shows "binv (brelse b s) (H - {b})" "cont (brelse b s) = cont s" "bio_only s (brelse b s)"
    "c \<noteq> b \<Longrightarrow> same_buf c s (brelse b s)" "disk (brelse b s) = disk s"
proof -
  note h = held_flags [OF i b]
  obtain f g where e: "brelse b s = s\<lparr>b_flags := (b_flags s)(b := b_flags s b - {B_WANTED, B_BUSY, B_ASYNC, B_AGE}), av_forw := f, av_back := g\<rparr>"
    and r: "\<And>fl. ring (av_forw s) (av_back s) Free_head fl \<Longrightarrow> b \<notin> set (Free_head # fl) \<Longrightarrow> \<exists>fl'. ring f g Free_head fl' \<and> set fl' = insert b (set fl)"
    by (rule brelse_run [OF h(1-3)]) auto
  have o: "only_block b (b_flags s b - {B_WANTED, B_BUSY, B_ASYNC, B_AGE}) s (brelse b s)" unfolding e by (simp add: only_block_def)
  have fr: "free_ok (brelse b s) (H - {b})" by (rule free_ok_release [OF binvD(2) [OF i] b binvD(1) [OF i] r]) (simp_all add: e)
  have D': "b_addr s b = disk s (b_dev s b) (b_blkno s b)" if "b_dev s b \<noteq> NODEV" "B_DONE \<in> b_flags s b" "B_DELWRI \<notin> b_flags s b"
    using D [OF that(1,2)] cont_clean [OF i h(7) that(1,3)] by simp
  have L: "length (disk (brelse b s) (b_dev s b) (b_blkno s b)) = BSIZE" using binv_len(2) [OF i] by (simp add: e)
  note S = settle [OF i b o fr _ _ _ L]
  show "binv (brelse b s) (H - {b})" by (rule S(1)) (use h D' e in auto)
  show "cont (brelse b s) = cont s"
  proof (intro ext)
    fix d k
    have "cont (brelse b s) d k = (if d = b_dev s b \<and> k = b_blkno s b \<and> d \<noteq> NODEV then if B_DONE \<in> b_flags s b - {B_WANTED, B_BUSY, B_ASYNC, B_AGE} then b_addr s b
        else disk (brelse b s) d k else cont s d k)" by (rule S(2)) (use h D' e in auto)
    moreover have "cont s (b_dev s b) (b_blkno s b) = disk s (b_dev s b) (b_blkno s b)" if "b_dev s b \<noteq> NODEV" "B_DONE \<notin> b_flags s b"
      by (rule cont_clean [OF i h(7) that(1)]) (use h(6) that(2) in blast)
    ultimately show "cont (brelse b s) d k = cont s d k" using D by (auto simp: e)
  qed
  show "bio_only s (brelse b s)" "disk (brelse b s) = disk s" unfolding e by (simp_all add: bio_only_def)
  show "c \<noteq> b \<Longrightarrow> same_buf c s (brelse b s)" unfolding e by (simp add: same_buf_def)
qed

lemma bdwrite_keeps:
  assumes i: "binv s H" and b: "b \<in> H" "b_dev s b \<noteq> NODEV"
  shows "fpost (bdwrite strat b s) (\<lambda>_ t. binv t (H - {b}) \<and> cont t = (cont s)(b_dev s b := (cont s (b_dev s b))(b_blkno s b := b_addr s b)) \<and>
     bio_only s t \<and> (\<forall>c. c \<noteq> b \<longrightarrow> same_buf c s t) \<and> disk t = disk s)"
proof -
  note h = held_flags [OF i b(1)]
  define s1 where "s1 = flag_on b {B_DELWRI, B_DONE} s"
  have h1: "B_WANTED \<notin> b_flags s1 b" "B_WANTED \<notin> b_flags s1 Free_head" "B_ERROR \<notin> b_flags s1 b" using h by (simp_all add: s1_def flag_on_def)
  obtain f g where e: "brelse b s1 = s1\<lparr>b_flags := (b_flags s1)(b := b_flags s1 b - {B_WANTED, B_BUSY, B_ASYNC, B_AGE}), av_forw := f, av_back := g\<rparr>"
    and r: "\<And>fl. ring (av_forw s1) (av_back s1) Free_head fl \<Longrightarrow> b \<notin> set (Free_head # fl) \<Longrightarrow> \<exists>fl'. ring f g Free_head fl' \<and> set fl' = insert b (set fl)"
    by (rule brelse_run [OF h1]) auto
  have "B_TAPE \<notin> b_flags s (Dev (major (b_dev s b)))" using binvD(4) [OF i] unfolding flags_ok_def by blast
  then have bd: "bdwrite strat b s = Ret () (brelse b s1)" by (simp add: bdwrite_def s1_def)
  define F where "F = b_flags s b \<union> {B_DELWRI, B_DONE} - {B_WANTED, B_BUSY, B_ASYNC, B_AGE}"
  have o: "only_block b F s (brelse b s1)" unfolding e by (simp add: only_block_def s1_def flag_on_def F_def)
  have fr: "free_ok (brelse b s1) (H - {b})"
    by (rule free_ok_release [OF binvD(2) [OF i] b(1) binvD(1) [OF i] r [unfolded s1_def flag_on_def, simplified]]) (simp_all add: e)
  have F: "F \<inter> {B_BUSY, B_WANTED, B_ERROR, B_ASYNC} = {}" "B_DELWRI \<in> F \<longrightarrow> B_DONE \<in> F \<and> b_dev s b \<noteq> NODEV" "B_DONE \<in> F" "B_DELWRI \<in> F"
    using h b by (auto simp: F_def)
  have L: "length (disk (brelse b s1) (b_dev s b) (b_blkno s b)) = BSIZE" unfolding e using binv_len(2) [OF i] by (simp add: s1_def flag_on_def)
  note S = settle [OF i b(1) o fr F(1,2) _ L]
  have "binv (brelse b s1) (H - {b})" by (rule S(1)) (use F in blast)
  moreover have "cont (brelse b s1) = (cont s)(b_dev s b := (cont s (b_dev s b))(b_blkno s b := b_addr s b))"
  proof (intro ext)
    fix d k
    have "cont (brelse b s1) d k = (if d = b_dev s b \<and> k = b_blkno s b \<and> d \<noteq> NODEV then if B_DONE \<in> F then b_addr s b
        else disk (brelse b s1) d k else cont s d k)" by (rule S(2)) (use F in blast)
    then show "cont (brelse b s1) d k = ((cont s)(b_dev s b := (cont s (b_dev s b))(b_blkno s b := b_addr s b))) d k" using F b(2) by simp
  qed
  moreover have "bio_only s (brelse b s1) \<and> disk (brelse b s1) = disk s" unfolding e by (simp add: bio_only_def s1_def flag_on_def)
  moreover have "same_buf c s (brelse b s1)" if "c \<noteq> b" for c using that unfolding e by (simp add: same_buf_def s1_def flag_on_def)
  ultimately show ?thesis unfolding bd by simp
qed

lemma bwrite_keeps:
  assumes st: "sync_driver strat" and i: "binv s H" and b: "b \<in> H" "b_dev s b \<noteq> NODEV" and A: "A \<subseteq> {B_ASYNC}"
  shows "fpost (bwrite strat b (flag_on b A s)) (\<lambda>_ t. binv t (H - {b}) \<and> cont t = (cont s)(b_dev s b := (cont s (b_dev s b))(b_blkno s b := b_addr s b)) \<and>
     bio_only s t \<and> (\<forall>c. c \<noteq> b \<longrightarrow> same_buf c s t) \<and> disk t = (disk s)(b_dev s b := (disk s (b_dev s b))(b_blkno s b := b_addr s b)) \<and>
     B_DELWRI \<notin> b_flags t b \<and> b_dev t = b_dev s \<and> b_blkno t = b_blkno s)"
proof -
  note h = held_flags [OF i b(1)]
  define s1 where "s1 = flag_on b A s"
  have h1: "B_WANTED \<notin> b_flags s1 b" "B_WANTED \<notin> b_flags s1 Free_head" using h A by (auto simp: s1_def flag_on_def)
  obtain F f g bc wk where e: "bwrite strat b s1 = Ret () (s1\<lparr>b_flags := (b_flags s1)(b := F), av_forw := f, av_back := g, b_bcount := bc,
      disk := (disk s1)(b_dev s1 b := (disk s1 (b_dev s1 b))(b_blkno s1 b := b_addr s1 b)), wakeups := wk\<rparr>)"
    and F: "F \<inter> {B_BUSY, B_WANTED, B_ERROR, B_ASYNC, B_DELWRI} = {}" "B_DONE \<in> F"
    and r: "\<And>fl. ring (av_forw s1) (av_back s1) Free_head fl \<Longrightarrow> b \<notin> set (Free_head # fl) \<Longrightarrow> \<exists>fl'. ring f g Free_head fl' \<and> set fl' = insert b (set fl)"
    by (rule bwrite_run [OF st h1]) auto
  define t where "t = s\<lparr>b_flags := (b_flags s)(b := F), av_forw := f, av_back := g, b_bcount := bc,
      disk := (disk s)(b_dev s b := (disk s (b_dev s b))(b_blkno s b := b_addr s b)), wakeups := wk\<rparr>"
  have t: "bwrite strat b s1 = Ret () t" unfolding e by (simp add: t_def s1_def flag_on_def)
  have o: "only_block b F s t" by (auto simp: only_block_def t_def b(2))
  have fr: "free_ok t (H - {b})"
    by (rule free_ok_release [OF binvD(2) [OF i] b(1) binvD(1) [OF i] r [unfolded s1_def flag_on_def, simplified]]) (simp_all add: t_def)
  have F2: "F \<inter> {B_BUSY, B_WANTED, B_ERROR, B_ASYNC} = {}" "B_DELWRI \<in> F \<longrightarrow> B_DONE \<in> F \<and> b_dev s b \<noteq> NODEV" using F by auto
  have L: "length (disk t (b_dev s b) (b_blkno s b)) = BSIZE" using binv_len(1) [OF i h(7)] by (simp add: t_def)
  note S = settle [OF i b(1) o fr F2 _ L]
  have "binv t (H - {b})" by (rule S(1)) (simp add: t_def)
  moreover have "cont t = (cont s)(b_dev s b := (cont s (b_dev s b))(b_blkno s b := b_addr s b))"
  proof (intro ext)
    fix d k
    have "cont t d k = (if d = b_dev s b \<and> k = b_blkno s b \<and> d \<noteq> NODEV then if B_DONE \<in> F then b_addr s b else disk t d k else cont s d k)"
      by (rule S(2)) (simp add: t_def)
    then show "cont t d k = ((cont s)(b_dev s b := (cont s (b_dev s b))(b_blkno s b := b_addr s b))) d k" using F b(2) by simp
  qed
  moreover have "bio_only s t" "\<And>c. c \<noteq> b \<Longrightarrow> same_buf c s t" "B_DELWRI \<notin> b_flags t b" "b_dev t = b_dev s" "b_blkno t = b_blkno s"
      "disk t = (disk s)(b_dev s b := (disk s (b_dev s b))(b_blkno s b := b_addr s b))"
    using F by (auto simp: bio_only_def same_buf_def t_def)
  ultimately show ?thesis unfolding s1_def [symmetric] t fpost_Ret by blast
qed

subsection \<open>Getting a buffer\<close>

lemma notavail_keeps:
  assumes i: "binv s H" and b: "b \<in> pool" "b \<notin> H"
  shows "binv (notavail b s) (insert b H)" "cont (notavail b s) = cont s" "bio_only s (notavail b s)" "c \<noteq> b \<Longrightarrow> same_buf c s (notavail b s)"
    "b_flags (notavail b s) b = insert B_BUSY (b_flags s b)" "b_addr (notavail b s) = b_addr s" "b_dev (notavail b s) = b_dev s"
    "b_blkno (notavail b s) = b_blkno s" "disk (notavail b s) = disk s" "b_forw (notavail b s) = b_forw s" "b_back (notavail b s) = b_back s" "b_resid (notavail b s) = b_resid s"
proof -
  obtain f g where e: "notavail b s = s\<lparr>b_flags := (b_flags s)(b := b_flags s b \<union> {B_BUSY}), av_forw := f, av_back := g\<rparr>"
    and r: "\<And>fl. ring (av_forw s) (av_back s) Free_head fl \<Longrightarrow> b \<in> set fl \<Longrightarrow> \<exists>fl'. ring f g Free_head fl' \<and> set fl' = set fl - {b}"
    by (rule notavail_run) auto
  obtain fl where fl: "ring (av_forw s) (av_back s) Free_head fl" "set fl = pool - H" using binvD(2) [OF i] by (auto simp: free_ok_def)
  then obtain fl' where "ring f g Free_head fl'" "set fl' = pool - H - {b}" using r [OF fl(1)] b by auto
  moreover have "pool - H - {b} = pool - insert b H" by blast
  ultimately have "free_ok (notavail b s) (insert b H)" unfolding e free_ok_def by auto
  moreover have "lists_ok (notavail b s)" by (rule lists_ok_cong [OF binvD(3) [OF i]]) (simp_all add: e)
  moreover have "flags_ok (notavail b s) (insert b H)" using binvD(4) [OF i] b by (auto simp: flags_ok_def e)
  moreover have "unique_ok (notavail b s)" using binvD(5) [OF i] by (simp add: unique_ok_def e)
  moreover have "data_ok (notavail b s) (insert b H)" using binvD(6) [OF i] by (simp add: data_ok_def e)
  moreover have "sizes_ok (notavail b s)" using binvD(7) [OF i] by (simp add: sizes_ok_def e)
  ultimately show "binv (notavail b s) (insert b H)" using binvD(1) [OF i] b by (simp add: binv_def)
  show "cont (notavail b s) = cont s" by (rule cont_cong) (auto simp: e)
  show "bio_only s (notavail b s)" "c \<noteq> b \<Longrightarrow> same_buf c s (notavail b s)"
    "b_flags (notavail b s) b = insert B_BUSY (b_flags s b)" "b_addr (notavail b s) = b_addr s" "b_dev (notavail b s) = b_dev s"
    "b_blkno (notavail b s) = b_blkno s" "disk (notavail b s) = disk s" "b_forw (notavail b s) = b_forw s" "b_back (notavail b s) = b_back s" "b_resid (notavail b s) = b_resid s"
    by (auto simp: e bio_only_def same_buf_def)
qed

text \<open>The search of a device list is a search of the list of its buffers.\<close>

lemma dev_search_path:
  "path (b_forw s) p xs dp \<Longrightarrow> dp \<notin> set xs \<Longrightarrow> length xs < n \<Longrightarrow>
     dev_search n dp dev blkno (b_forw s p) s = Some (find (\<lambda>b. b_blkno s b = blkno \<and> b_dev s b = dev) xs)"
proof (induction xs arbitrary: p n)
  case Nil
  then show ?case by (cases n) simp_all
next
  case (Cons x xs)
  then obtain m where m: "n = Suc m" by (cases n) simp_all
  have "b_forw s p = x" "path (b_forw s) x xs dp" "x \<noteq> dp" using Cons.prems by auto
  then show ?case using Cons.IH [of x m] Cons.prems m by simp
qed

lemma dev_search_finds:
  assumes i: "binv s H" and u: "usable s dev"
  obtains r where "dev_search (NBUF + 1) (Dev (major dev)) dev blkno (b_forw s (Dev (major dev))) s = Some r"
    "\<And>b. r = Some b \<Longrightarrow> b \<in> pool \<and> b_dev s b = dev \<and> b_blkno s b = blkno"
    "r = None \<Longrightarrow> \<forall>b \<in> pool. \<not> (b_dev s b = dev \<and> b_blkno s b = blkno)"
proof -
  define h where "h = Dev (major dev)"
  obtain dl where dl: "rings (b_forw s) (b_back s) (heads s) dl" "\<forall>h \<in> heads s. set (dl h) = {b \<in> pool. home s b = h}"
    using binvD(3) [OF i] by (auto simp: lists_ok_def on_lists_def)
  have hh: "h \<in> heads s" using u by (simp add: h_def heads_def usable_def)
  then have r: "ring (b_forw s) (b_back s) h (dl h)" using dl(1) unfolding rings_def by blast
  then have d: "distinct (dl h)" "h \<notin> set (dl h)" "path (b_forw s) h (dl h) h" by (simp_all add: ring_def)
  have "card (set (dl h)) \<le> card pool" by (rule card_mono) (use dl(2) hh in auto)
  then have "length (dl h) < NBUF + 1" using d(1) by (simp add: distinct_card)
  from dev_search_path [OF d(3,2) this]
  have s: "dev_search (NBUF + 1) h dev blkno (b_forw s h) s = Some (find (\<lambda>b. b_blkno s b = blkno \<and> b_dev s b = dev) (dl h))" .
  show thesis
  proof (rule that [OF s [unfolded h_def]])
    show "b \<in> pool \<and> b_dev s b = dev \<and> b_blkno s b = blkno"
      if "find (\<lambda>b. b_blkno s b = blkno \<and> b_dev s b = dev) (dl (Dev (major dev))) = Some b" for b
    proof -
      have "b \<in> set (dl h) \<and> b_blkno s b = blkno \<and> b_dev s b = dev"
        using that unfolding h_def [symmetric] find_Some_iff by auto
      then show ?thesis using dl(2) hh by auto
    qed
    show "\<forall>b \<in> pool. \<not> (b_dev s b = dev \<and> b_blkno s b = blkno)"
      if "find (\<lambda>b. b_blkno s b = blkno \<and> b_dev s b = dev) (dl (Dev (major dev))) = None"
    proof (intro ballI notI)
      fix b assume b: "b \<in> pool" "b_dev s b = dev \<and> b_blkno s b = blkno"
      then have "home s b = h" using u by (simp add: home_def h_def usable_def)
      then have "b \<in> set (dl h)" using dl(2) hh b by auto
      then show False using that b unfolding h_def [symmetric] find_None_iff by auto
    qed
  qed
qed

text \<open>Giving a buffer that has just been taken to another block, or to none.\<close>

lemma reassign_keeps:
  assumes i: "binv s H" and b: "b \<in> pool" "b \<notin> H" "B_DELWRI \<notin> b_flags s b"
    and dv: "dev = NODEV \<and> dp = Free_head \<or> usable s dev \<and> dp = Dev (major dev) \<and> (\<forall>c \<in> pool. \<not> (b_dev s c = dev \<and> b_blkno s c = blkno))"
    and t: "t = (relink dp b ((notavail b s)\<lparr>b_flags := (b_flags (notavail b s))(b := {B_BUSY})\<rparr>))\<lparr>b_dev := (b_dev s)(b := dev), b_blkno := (b_blkno s)(b := blkno)\<rparr>"
  shows "binv t (insert b H)" "cont t = cont s" "bio_only s t" "c \<noteq> b \<Longrightarrow> same_buf c s t" "b_dev t b = dev" "b_blkno t b = blkno"
    "b_flags t b = {B_BUSY}" "b_addr t = b_addr s" "disk t = disk s"
proof -
  note n = notavail_keeps [OF i b(1,2)]
  define s1 where "s1 = (notavail b s)\<lparr>b_flags := (b_flags (notavail b s))(b := {B_BUSY})\<rparr>"
  obtain f g where e: "relink dp b s1 = s1\<lparr>b_forw := f, b_back := g\<rparr>"
    and r: "\<And>Hd dl. rings (b_forw s1) (b_back s1) Hd dl \<Longrightarrow> dp \<in> Hd \<Longrightarrow> b \<notin> Hd \<Longrightarrow> home s b \<in> Hd \<Longrightarrow> b \<in> set (dl (home s b)) \<Longrightarrow>
       \<exists>dl'. rings f g Hd dl' \<and> (\<forall>k. set (dl' k) = (if k = dp then insert b (set (dl k)) else set (dl k) - {b}))"
    by (rule relink_run [where h = "home s b"]) auto
  have t: "t = s1\<lparr>b_forw := f, b_back := g, b_dev := (b_dev s)(b := dev), b_blkno := (b_blkno s)(b := blkno)\<rparr>"
    using t e by (simp add: s1_def)
  have fields: "b_flags t = (b_flags (notavail b s))(b := {B_BUSY})" "b_addr t = b_addr s" "disk t = disk s" "av_forw t = av_forw (notavail b s)"
    "av_back t = av_back (notavail b s)" "b_dev t = (b_dev s)(b := dev)" "b_blkno t = (b_blkno s)(b := blkno)" "b_forw t = f" "b_back t = g" "b_resid t = b_resid s"
    unfolding t using n by (simp_all add: s1_def)
  have nf: "b_flags (notavail b s) c = b_flags s c" if "c \<noteq> b" for c using n(4) [OF that] by (simp add: same_buf_def)
  have env: "nblkdev t = nblkdev s" "has_tab t = has_tab s" using n(3) by (simp_all add: t s1_def bio_only_def)
  have hd: "heads t = heads s" "usable t = usable s" by (auto simp: heads_def usable_def env fun_eq_iff)
  have hm: "home t = (home s)(b := dp)" using dv by (auto simp: home_def fields usable_def fun_eq_iff)
  have nh: "b \<notin> heads s" using b(1) by (auto simp: pool_def heads_def)
  have lists: "lists_ok t"
  proof -
    obtain dl where dl: "rings (b_forw s) (b_back s) (heads s) dl" "\<forall>h \<in> heads s. set (dl h) = {c \<in> pool. home s c = h}"
      and us: "\<forall>c \<in> pool. b_dev s c \<noteq> NODEV \<longrightarrow> usable s (b_dev s c)"
      using binvD(3) [OF i] by (auto simp: lists_ok_def on_lists_def)
    have dp: "dp \<in> heads s" using dv by (auto simp: heads_def usable_def)
    have hb: "home s b \<in> heads s" using us b(1) by (auto simp: home_def heads_def usable_def)
    have "rings (b_forw s1) (b_back s1) (heads s) dl" using dl(1) n(10,11) by (simp add: s1_def)
    from r [OF this dp nh hb] obtain dl' where dl': "rings f g (heads s) dl'"
      "\<forall>k. set (dl' k) = (if k = dp then insert b (set (dl k)) else set (dl k) - {b})" using dl(2) hb b(1) by auto
    have "set (dl' h) = {c \<in> pool. home t c = h}" if "h \<in> heads s" for h
      using dl'(2) dl(2) that b(1) by (auto simp: hm)
    moreover have "b_dev t c \<noteq> NODEV \<longrightarrow> usable t (b_dev t c)" if "c \<in> pool" for c
      using us dv that unfolding hd fields by (cases "c = b") auto
    ultimately show ?thesis using dl'(1) unfolding lists_ok_def on_lists_def hd fields by blast
  qed
  have "free_ok t (insert b H)" using binvD(2) [OF n(1)] by (simp add: free_ok_def fields)
  moreover have "flags_ok t (insert b H)" using binvD(4) [OF n(1)] b(1) by (auto simp: flags_ok_def fields n(7))
  moreover have "unique_ok t"
    unfolding unique_ok_def fields
  proof (intro ballI impI)
    fix x y assume xy: "x \<in> pool" "y \<in> pool" and eq: "((b_dev s)(b := dev)) x = ((b_dev s)(b := dev)) y \<and> ((b_blkno s)(b := blkno)) x = ((b_blkno s)(b := blkno)) y \<and>
      ((b_dev s)(b := dev)) x \<noteq> NODEV"
    then show "x = y" using dv binvD(5) [OF i] by (cases "x = b"; cases "y = b") (auto simp: unique_ok_def)
  qed
  moreover have "data_ok t (insert b H)" using binvD(6) [OF n(1)] n by (auto simp: data_ok_def fields)
  moreover have "sizes_ok t" using binvD(7) [OF i] by (simp add: sizes_ok_def fields)
  ultimately show "binv t (insert b H)" using lists binvD(1) [OF n(1)] by (simp add: binv_def)
  show "cont t = cont s" by (rule cont_cong) (use b(3) nf in \<open>auto simp: fields\<close>)
  show "bio_only s t" using n(3) by (simp add: bio_only_def t s1_def)
  show "c \<noteq> b \<Longrightarrow> same_buf c s t" using nf by (simp add: same_buf_def fields)
  show "b_dev t b = dev" "b_blkno t b = blkno" "b_flags t b = {B_BUSY}" "b_addr t = b_addr s" "disk t = disk s" by (simp_all add: fields)
qed

text \<open>
  What \<open>getblk\<close> promises, from \<open>s\<close> with the buffers \<open>H\<close> held: a buffer \<open>b\<close> for the block, held too, that has its contents if it is
  done; nothing else changes.
\<close>

definition got :: "u16 \<Rightarrow> u32 \<Rightarrow> bnode set \<Rightarrow> 'a bio_scheme \<Rightarrow> bnode \<Rightarrow> 'a bio_scheme \<Rightarrow> bool" where
  "got dev blkno H s b t \<longleftrightarrow> b \<notin> H \<and> binv t (insert b H) \<and> b_dev t b = dev \<and> b_blkno t b = blkno \<and> cont t = cont s \<and> bio_only s t \<and>
     (\<forall>c \<in> H. same_buf c s t) \<and> (B_DONE \<in> b_flags t b \<longrightarrow> b_addr t b = cont s dev blkno)"

lemma usable_cong: "bio_only s t \<Longrightarrow> usable t = usable s"
  by (auto simp: bio_only_def usable_def fun_eq_iff)

definition backlog :: "'a bio_scheme \<Rightarrow> bnode set \<Rightarrow> nat" where
  "backlog s H = card {b \<in> pool - H. B_DELWRI \<in> b_flags s b}"

lemma backlog_bound: "backlog s H \<le> NBUF"
proof -
  have "card {b \<in> pool - H. B_DELWRI \<in> b_flags s b} \<le> card pool" by (rule card_mono) auto
  then show ?thesis by (simp add: backlog_def)
qed

text \<open>The first free buffer, when it is a delayed write, is written and released; one delayed write less remains.\<close>

lemma flush_first:
  assumes st: "sync_driver strat" and i: "binv s H" and b: "b \<in> pool" "b \<notin> H" "B_DELWRI \<in> b_flags s b"
  shows "fpost (bwrite strat b (flag_on b {B_ASYNC} (notavail b s))) (\<lambda>_ t. binv t H \<and> cont t = cont s \<and> bio_only s t \<and>
     (\<forall>c. c \<noteq> b \<longrightarrow> same_buf c s t) \<and> backlog t H < backlog s H \<and> B_DELWRI \<notin> b_flags t b \<and> b_dev t = b_dev s \<and> b_blkno t = b_blkno s)"
proof -
  note n = notavail_keeps [OF i b(1,2)]
  have nd: "b_dev s b \<noteq> NODEV" using binvD(4) [OF i] b unfolding flags_ok_def by blast
  have "fpost (bwrite strat b (flag_on b {B_ASYNC} (notavail b s))) (\<lambda>_ t. binv t (insert b H - {b}) \<and>
      cont t = (cont s)(b_dev s b := (cont s (b_dev s b))(b_blkno s b := b_addr s b)) \<and> bio_only (notavail b s) t \<and>
      (\<forall>c. c \<noteq> b \<longrightarrow> same_buf c (notavail b s) t) \<and> B_DELWRI \<notin> b_flags t b \<and> b_dev t = b_dev s \<and> b_blkno t = b_blkno s)"
    by (rule fpost_mono [OF bwrite_keeps [OF st n(1), of b "{B_ASYNC}"]]) (use n nd in \<open>simp_all add: n(2)\<close>)
  then show ?thesis
  proof (rule fpost_mono)
    fix a t assume t: "binv t (insert b H - {b}) \<and> cont t = (cont s)(b_dev s b := (cont s (b_dev s b))(b_blkno s b := b_addr s b)) \<and>
      bio_only (notavail b s) t \<and> (\<forall>c. c \<noteq> b \<longrightarrow> same_buf c (notavail b s) t) \<and> B_DELWRI \<notin> b_flags t b \<and> b_dev t = b_dev s \<and> b_blkno t = b_blkno s"
    have "insert b H - {b} = H" using b(2) by blast
    moreover have "cont t = cont s" using t cont_delayed [OF i b(1,3)] by (simp add: fun_eq_iff)
    moreover have sb: "same_buf c s t" if "c \<noteq> b" for c using t that n(4) [OF that] same_buf_trans by blast
    moreover have "backlog t H < backlog s H"
    proof -
      have fl: "b_flags t c = b_flags s c" if "c \<noteq> b" for c using sb [OF that] by (simp add: same_buf_def)
      have nb: "B_DELWRI \<notin> b_flags t b" using t by blast
      have "B_DELWRI \<in> b_flags s x" if "B_DELWRI \<in> b_flags t x" for x
        using that nb fl [of x] by (cases "x = b") auto
      then have "{c \<in> pool - H. B_DELWRI \<in> b_flags t c} \<subset> {c \<in> pool - H. B_DELWRI \<in> b_flags s c}"
        using b nb by blast
      then show ?thesis unfolding backlog_def by (intro psubset_card_mono) auto
    qed
    ultimately show "binv t H \<and> cont t = cont s \<and> bio_only s t \<and> (\<forall>c. c \<noteq> b \<longrightarrow> same_buf c s t) \<and> backlog t H < backlog s H \<and>
      B_DELWRI \<notin> b_flags t b \<and> b_dev t = b_dev s \<and> b_blkno t = b_blkno s"
      using t bio_only_trans [OF n(3)] by simp
  qed
qed

lemma first_free:
  assumes i: "binv s H" and "H \<noteq> pool"
  shows "av_forw s Free_head \<noteq> Free_head" "av_forw s Free_head \<in> pool" "av_forw s Free_head \<notin> H"
proof -
  obtain fl where fl: "ring (av_forw s) (av_back s) Free_head fl" "set fl = pool - H" using binvD(2) [OF i] by (auto simp: free_ok_def)
  have "fl \<noteq> []" using fl(2) assms(2) binvD(1) [OF i] by auto
  then obtain x xs where x: "fl = x # xs" by (cases fl) auto
  have "av_forw s Free_head = x" using ring_first fl(1) unfolding x by metis
  moreover have "x \<in> pool - H" using fl(2) x by auto
  ultimately show "av_forw s Free_head \<noteq> Free_head" "av_forw s Free_head \<in> pool" "av_forw s Free_head \<notin> H" by auto
qed

lemma getblk_loop_keeps:
  assumes st: "sync_driver strat" and u: "usable s dev" and H: "H \<noteq> pool"
  shows "binv s H \<Longrightarrow> \<forall>c \<in> H. \<not> (b_dev s c = dev \<and> b_blkno s c = blkno) \<Longrightarrow> usable s dev \<Longrightarrow> backlog s H < n \<Longrightarrow>
     fpost (getblk_loop n strat dev blkno s) (\<lambda>b t. got dev blkno H s b t)"
proof (induction n arbitrary: s)
  case (Suc n)
  note i = Suc.prems(1) and nh = Suc.prems(2) and u = Suc.prems(3)
  have ht: "has_tab s (major dev)" and nd: "dev \<noteq> NODEV" using u by (simp_all add: usable_def)
  obtain r where r: "dev_search (NBUF + 1) (Dev (major dev)) dev blkno (b_forw s (Dev (major dev))) s = Some r"
    "\<And>b. r = Some b \<Longrightarrow> b \<in> pool \<and> b_dev s b = dev \<and> b_blkno s b = blkno" "r = None \<Longrightarrow> \<forall>b \<in> pool. \<not> (b_dev s b = dev \<and> b_blkno s b = blkno)"
    by (rule dev_search_finds [OF i u]) auto
  show ?case
  proof (cases r)
    case (Some b)
    have b: "b \<in> pool" "b_dev s b = dev" "b_blkno s b = blkno" using r(2) [OF Some] by simp_all
    have bh: "b \<notin> H" using nh b by auto
    note n = notavail_keeps [OF i b(1) bh]
    have "B_BUSY \<notin> b_flags s b" using binvD(4) [OF i] b(1) bh unfolding flags_ok_def by blast
    then have "getblk_loop (Suc n) strat dev blkno s = Ret b (notavail b s)" using ht r(1) Some by (simp add: Let_def)
    moreover have "B_DONE \<in> b_flags (notavail b s) b \<longrightarrow> b_addr (notavail b s) b = cont s dev blkno"
      using cont_free [OF i b(1) bh] b n nd by auto
    moreover have "\<forall>c \<in> H. same_buf c s (notavail b s)" using n(4) bh by metis
    ultimately show ?thesis using n b bh by (simp add: got_def)
  next
    case None
    define b where "b = av_forw s Free_head"
    have b: "b \<noteq> Free_head" "b \<in> pool" "b \<notin> H" using first_free [OF i H] by (simp_all add: b_def)
    note n = notavail_keeps [OF i b(2,3)]
    show ?thesis
    proof (cases "B_DELWRI \<in> b_flags s b")
      case True
      have step: "getblk_loop (Suc n) strat dev blkno s =
          fbind (bwrite strat b (flag_on b {B_ASYNC} (notavail b s))) (\<lambda>_ s. getblk_loop n strat dev blkno s)"
        using ht r(1) None b(1) True n(5) by (simp add: Let_def b_def [symmetric])
      show ?thesis
        unfolding step
      proof (rule fpost_bind, rule fpost_mono [OF flush_first [OF st i b(2,3) True]])
        fix a t assume t: "binv t H \<and> cont t = cont s \<and> bio_only s t \<and> (\<forall>c. c \<noteq> b \<longrightarrow> same_buf c s t) \<and> backlog t H < backlog s H \<and>
          B_DELWRI \<notin> b_flags t b \<and> b_dev t = b_dev s \<and> b_blkno t = b_blkno s"
        have ut: "usable t dev" using usable_cong [of s t] t u by simp
        have "fpost (getblk_loop n strat dev blkno t) (\<lambda>b u. got dev blkno H t b u)"
          by (rule Suc.IH) (use t nh ut Suc.prems(4) in auto)
        then show "fpost (getblk_loop n strat dev blkno t) (\<lambda>b u. got dev blkno H s b u)"
        proof (rule fpost_mono)
          fix c v assume v: "got dev blkno H t c v"
          have "same_buf c s t" if "c \<in> H" for c using t b(3) that by metis
          then show "got dev blkno H s c v" using v t unfolding got_def by (metis bio_only_trans same_buf_trans)
        qed
      qed
    next
      case False
      define t where "t = (relink (Dev (major dev)) b ((notavail b s)\<lparr>b_flags := (b_flags (notavail b s))(b := {B_BUSY})\<rparr>))
        \<lparr>b_dev := (b_dev s)(b := dev), b_blkno := (b_blkno s)(b := blkno)\<rparr>"
      have rl: "b_dev (relink d b v) = b_dev v" "b_blkno (relink d b v) = b_blkno v" for d and v :: "'a bio_scheme"
        by (simp_all add: relink_def Let_def)
      have "getblk_loop (Suc n) strat dev blkno s = Ret b t"
        using ht r(1) None b(1) False n(5) by (simp add: Let_def b_def [symmetric] t_def rl n)
      moreover have dv: "dev = NODEV \<and> Dev (major dev) = Free_head \<or> usable s dev \<and> Dev (major dev) = Dev (major dev) \<and>
          (\<forall>c \<in> pool. \<not> (b_dev s c = dev \<and> b_blkno s c = blkno))" using u r(3) [OF None] by blast
      note k = reassign_keeps [OF i b(2,3) False dv t_def]
      have "\<forall>c \<in> H. same_buf c s t" using k(4) b(3) by metis
      ultimately show ?thesis using k b(3) by (simp add: got_def)
    qed
  qed
qed simp

lemma getblk_keeps:
  assumes "sync_driver strat" "binv s H" "H \<noteq> pool" "usable s dev" "\<forall>c \<in> H. \<not> (b_dev s c = dev \<and> b_blkno s c = blkno)"
  shows "fpost (getblk strat dev blkno s) (\<lambda>b t. got dev blkno H s b t)"
proof -
  have "backlog s H < NBUF + 1" using backlog_bound [of s H] by simp
  from getblk_loop_keeps [OF assms(1,4,3,2,5,4) this] show ?thesis using assms(4) by (simp add: getblk_def usable_def)
qed

lemma geteblk_loop_keeps:
  assumes st: "sync_driver strat" and H: "H \<noteq> pool"
  shows "binv s H \<Longrightarrow> backlog s H < n \<Longrightarrow>
     fpost (geteblk_loop n strat s) (\<lambda>b t. b \<notin> H \<and> binv t (insert b H) \<and> b_dev t b = NODEV \<and> cont t = cont s \<and> bio_only s t \<and> (\<forall>c \<in> H. same_buf c s t))"
proof (induction n arbitrary: s)
  case (Suc n)
  note i = Suc.prems(1)
  define b where "b = av_forw s Free_head"
  have b: "b \<noteq> Free_head" "b \<in> pool" "b \<notin> H" using first_free [OF i H] by (simp_all add: b_def)
  note n = notavail_keeps [OF i b(2,3)]
  show ?case
  proof (cases "B_DELWRI \<in> b_flags s b")
    case True
    have step: "geteblk_loop (Suc n) strat s = fbind (bwrite strat b (flag_on b {B_ASYNC} (notavail b s))) (\<lambda>_ s. geteblk_loop n strat s)"
      using b(1) True n(5) by (simp add: Let_def b_def [symmetric])
    show ?thesis
      unfolding step
    proof (rule fpost_bind, rule fpost_mono [OF flush_first [OF st i b(2,3) True]])
      fix a t assume t: "binv t H \<and> cont t = cont s \<and> bio_only s t \<and> (\<forall>c. c \<noteq> b \<longrightarrow> same_buf c s t) \<and> backlog t H < backlog s H \<and>
        B_DELWRI \<notin> b_flags t b \<and> b_dev t = b_dev s \<and> b_blkno t = b_blkno s"
      have "fpost (geteblk_loop n strat t) (\<lambda>b u. b \<notin> H \<and> binv u (insert b H) \<and> b_dev u b = NODEV \<and> cont u = cont t \<and> bio_only t u \<and> (\<forall>c \<in> H. same_buf c t u))"
        by (rule Suc.IH) (use t Suc.prems(2) in auto)
      moreover have "same_buf c s t" if "c \<in> H" for c using t b(3) that by metis
      ultimately show "fpost (geteblk_loop n strat t) (\<lambda>b u. b \<notin> H \<and> binv u (insert b H) \<and> b_dev u b = NODEV \<and> cont u = cont s \<and> bio_only s u \<and> (\<forall>c \<in> H. same_buf c s u))"
        using t by (elim fpost_mono) (metis bio_only_trans same_buf_trans)
    qed
  next
    case False
    define t where "t = (relink Free_head b ((notavail b s)\<lparr>b_flags := (b_flags (notavail b s))(b := {B_BUSY})\<rparr>))
      \<lparr>b_dev := (b_dev s)(b := NODEV), b_blkno := (b_blkno s)(b := b_blkno s b)\<rparr>"
    have rl: "b_dev (relink d b v) = b_dev v" "b_blkno (relink d b v) = b_blkno v" for d and v :: "'a bio_scheme"
      by (simp_all add: relink_def Let_def)
    have same: "v\<lparr>b_blkno := (b_blkno v)(b := b_blkno v b)\<rparr> = v" for v :: "'a bio_scheme" by simp
    have "geteblk_loop (Suc n) strat s = Ret b t"
      using b(1) False n(5) by (simp add: Let_def b_def [symmetric] t_def rl n(7) n(8) [symmetric])
    moreover note k = reassign_keeps [OF i b(2,3) False _ t_def]
    have "\<forall>c \<in> H. same_buf c s t" using k(4) b(3) by metis
    ultimately show ?thesis using k b(3) by simp
  qed
qed simp

subsection \<open>Reading\<close>

text \<open>Changing the contents of a held buffer, as the callers do, or its flags within bounds.\<close>

lemma held_update:
  assumes i: "binv s H" and b: "b \<in> H" "B_DELWRI \<notin> b_flags s b" "B_DELWRI \<notin> F"
    and F: "B_BUSY \<in> F" "F \<inter> {B_WANTED, B_ERROR, B_ASYNC} = {}" and v: "length v = BSIZE"
    and t: "t = s\<lparr>b_flags := (b_flags s)(b := F), b_addr := (b_addr s)(b := v), b_bcount := bc, wakeups := wk\<rparr>"
  shows "binv t H" "cont t = cont s" "bio_only s t" "c \<noteq> b \<Longrightarrow> same_buf c s t"
proof -
  have bp: "b \<in> pool" using b(1) binvD(1) [OF i] by blast
  have "lists_ok t" by (rule lists_ok_cong [OF binvD(3) [OF i]]) (simp_all add: t)
  moreover have "free_ok t H" "unique_ok t" using binvD(2,5) [OF i] by (simp_all add: free_ok_def unique_ok_def t)
  moreover have "flags_ok t H" using binvD(4) [OF i] b F bp by (auto simp: flags_ok_def t)
  moreover have "data_ok t H" using binvD(6) [OF i] b(1) by (auto simp: data_ok_def t)
  moreover have "sizes_ok t" using binvD(7) [OF i] v by (simp add: sizes_ok_def t)
  ultimately show "binv t H" using binvD(1) [OF i] by (simp add: binv_def)
  show "cont t = cont s" by (rule cont_cong) (use b in \<open>auto simp: t\<close>)
  show "bio_only s t" "c \<noteq> b \<Longrightarrow> same_buf c s t" by (simp_all add: t bio_only_def same_buf_def)
qed

lemma start_read_sync:
  assumes st: "sync_driver strat" and i: "binv s H" and b: "b \<in> H" "b_dev s b \<noteq> NODEV" "B_DONE \<notin> b_flags s b"
  defines "t \<equiv> start_read strat {B_READ} b s"
  shows "binv t H" "cont t = cont s" "bio_only s t" "c \<noteq> b \<Longrightarrow> same_buf c s t" "b_dev t b = b_dev s b" "b_blkno t b = b_blkno s b"
    "b_addr t b = cont s (b_dev s b) (b_blkno s b)" "B_DONE \<in> b_flags t b" "B_ERROR \<notin> b_flags t b"
proof -
  note h = held_flags [OF i b(1)]
  have nd: "B_DELWRI \<notin> b_flags s b" using h(6) b(3) by blast
  define F where "F = (b_flags s b \<union> {B_READ}) \<union> {B_DONE} - {B_WANTED}"
  define u where "u = s\<lparr>b_flags := (b_flags s)(b := F), b_addr := (b_addr s)(b := disk s (b_dev s b) (b_blkno s b)), b_bcount := (b_bcount s)(b := of_nat BSIZE), wakeups := Ch_buf b # wakeups s\<rparr>"
  have r: "t = u"
    using st h(4) by (simp add: t_def start_read_def sync_driver_def transfer_def iodone_def flag_on_def flag_off_def awaken_def u_def F_def Let_def)
  have F: "B_DELWRI \<notin> F" "B_BUSY \<in> F" "F \<inter> {B_WANTED, B_ERROR, B_ASYNC} = {}" using h nd by (auto simp: F_def)
  note k = held_update [OF i b(1) nd F binv_len(2) [OF i] u_def]
  show "binv t H" "cont t = cont s" "bio_only s t" "c \<noteq> b \<Longrightarrow> same_buf c s t" unfolding r using k by simp_all
  show "b_dev t b = b_dev s b" "b_blkno t b = b_blkno s b" "B_DONE \<in> b_flags t b" "B_ERROR \<notin> b_flags t b"
    using h by (simp_all add: r u_def F_def)
  show "b_addr t b = cont s (b_dev s b) (b_blkno s b)" using cont_clean [OF i h(7) b(2) nd] by (simp add: r u_def)
qed

lemma bread_keeps:
  assumes st: "sync_driver strat" and i: "binv s H" "H \<noteq> pool" "usable s dev" "\<forall>c \<in> H. \<not> (b_dev s c = dev \<and> b_blkno s c = blkno)"
  shows "fpost (bread strat dev blkno s) (\<lambda>b t. got dev blkno H s b t \<and> b_addr t b = cont s dev blkno)"
  unfolding bread_def
proof (rule fpost_bind, rule fpost_mono [OF getblk_keeps [OF st i]])
  fix b t assume g: "got dev blkno H s b t"
  then have t: "b \<notin> H" "binv t (insert b H)" "b_dev t b = dev" "b_blkno t b = blkno" "cont t = cont s" "bio_only s t" "\<And>c. c \<in> H \<Longrightarrow> same_buf c s t"
    by (simp_all add: got_def)
  show "fpost (if B_DONE \<in> b_flags t b then Ret b t else let t = start_read strat {B_READ} b t in fbind (iowait b t) (\<lambda>_ t. Ret b t))
     (\<lambda>b t. got dev blkno H s b t \<and> b_addr t b = cont s dev blkno)"
  proof (cases "B_DONE \<in> b_flags t b")
    case True
    then show ?thesis using g by (simp add: got_def)
  next
    case False
    have nd: "b_dev t b \<noteq> NODEV" using i(3) t(3) by (simp add: usable_def)
    define u where "u = start_read strat {B_READ} b t"
    note r = start_read_sync [OF st t(2) insertI1 nd False, folded u_def]
    have "same_buf d s u" if "d \<in> H" for d using same_buf_trans [OF t(7) [OF that] r(4)] that t(1) by metis
    then have "got dev blkno H s b u \<and> b_addr u b = cont s dev blkno" using t r bio_only_trans [OF t(6) r(3)] by (simp add: got_def)
    then show ?thesis using False iowait_done [OF r(8,9)] by (simp add: Let_def u_def [symmetric])
  qed
qed

text \<open>A read ahead: the buffer is read and released.\<close>

lemma start_read_async:
  assumes st: "sync_driver strat" and i: "binv s H" and b: "b \<in> H" "b_dev s b \<noteq> NODEV" "B_DONE \<notin> b_flags s b"
  shows "binv (start_read strat {B_READ, B_ASYNC} b s) (H - {b})" "cont (start_read strat {B_READ, B_ASYNC} b s) = cont s"
    "bio_only s (start_read strat {B_READ, B_ASYNC} b s)" "c \<noteq> b \<Longrightarrow> same_buf c s (start_read strat {B_READ, B_ASYNC} b s)"
proof -
  note h = held_flags [OF i b(1)]
  have nd: "B_DELWRI \<notin> b_flags s b" using h(6) b(3) by blast
  define u where "u = s\<lparr>b_flags := (b_flags s)(b := b_flags s b \<union> {B_READ, B_DONE}), b_addr := (b_addr s)(b := disk s (b_dev s b) (b_blkno s b)),
     b_bcount := (b_bcount s)(b := of_nat BSIZE), wakeups := wakeups s\<rparr>"
  have F: "B_DELWRI \<notin> b_flags s b \<union> {B_READ, B_DONE}" "B_BUSY \<in> b_flags s b \<union> {B_READ, B_DONE}" "(b_flags s b \<union> {B_READ, B_DONE}) \<inter> {B_WANTED, B_ERROR, B_ASYNC} = {}"
    using h nd by auto
  note k = held_update [OF i b(1) nd F binv_len(2) [OF i] u_def]
  define v where "v = s\<lparr>b_flags := (b_flags s)(b := b_flags s b \<union> {B_READ, B_ASYNC}), b_bcount := (b_bcount s)(b := of_nat BSIZE)\<rparr>"
  have sv: "strat b v = iodone b (transfer b v)" using st unfolding sync_driver_def by blast
  have "start_read strat {B_READ, B_ASYNC} b s = strat b v" by (simp add: start_read_def flag_on_def v_def Let_def)
  also have "\<dots> = brelse b (u\<lparr>b_flags := (b_flags u)(b := b_flags u b \<union> {B_ASYNC})\<rparr>)"
  proof -
    have "flag_on b {B_DONE} (transfer b v) = u\<lparr>b_flags := (b_flags u)(b := b_flags u b \<union> {B_ASYNC})\<rparr>"
      by (rule bio.equality) (simp_all add: transfer_def flag_on_def u_def v_def insert_commute)
    then show ?thesis unfolding sv by (simp add: iodone_def u_def Let_def)
  qed
  also have "\<dots> = brelse b u"
  proof -
    have w: "B_WANTED \<notin> b_flags u b" "B_WANTED \<notin> b_flags u Free_head" "B_ERROR \<notin> b_flags u b" using h by (auto simp: u_def)
    have e: "insert B_ASYNC X - {B_WANTED, B_BUSY, B_ASYNC, B_AGE} = X - {B_WANTED, B_BUSY, B_ASYNC, B_AGE}" for X by auto
    show ?thesis using w h(8) e by (simp add: brelse_def flag_off_def Let_def fun_upd_def cong: if_cong)
  qed
  finally have e: "start_read strat {B_READ, B_ASYNC} b s = brelse b u" .
  have "b_addr u b = cont u (b_dev u b) (b_blkno u b)" using cont_clean [OF i h(7) b(2) nd] k(2) by (simp add: u_def)
  note R = brelse_keeps [OF k(1) b(1) this]
  show "binv (start_read strat {B_READ, B_ASYNC} b s) (H - {b})" "cont (start_read strat {B_READ, B_ASYNC} b s) = cont s"
    "bio_only s (start_read strat {B_READ, B_ASYNC} b s)" "c \<noteq> b \<Longrightarrow> same_buf c s (start_read strat {B_READ, B_ASYNC} b s)"
    unfolding e using R k(2) bio_only_trans [OF k(3)] same_buf_trans [OF k(4)] by simp_all
qed

lemma incore_keeps:
  assumes "binv s H" "usable s dev"
  shows "\<exists>c. incore dev blkno s = Ret c s \<and> (c \<longleftrightarrow> (\<exists>b \<in> pool. b_dev s b = dev \<and> b_blkno s b = blkno))"
proof -
  obtain r where r: "dev_search (NBUF + 1) (Dev (major dev)) dev blkno (b_forw s (Dev (major dev))) s = Some r"
    "\<And>b. r = Some b \<Longrightarrow> b \<in> pool \<and> b_dev s b = dev \<and> b_blkno s b = blkno" "r = None \<Longrightarrow> \<forall>b \<in> pool. \<not> (b_dev s b = dev \<and> b_blkno s b = blkno)"
    by (rule dev_search_finds [OF assms]) auto
  then show ?thesis by (cases r) (auto simp: incore_def Let_def)
qed

subsection \<open>Flushing\<close>

lemma flush_search_path:
  "path (av_forw s) p xs Free_head \<Longrightarrow> Free_head \<notin> set xs \<Longrightarrow> length xs < n \<Longrightarrow>
     flush_search n dev (av_forw s p) s = Some (find (\<lambda>b. B_DELWRI \<in> b_flags s b \<and> (dev = NODEV \<or> dev = b_dev s b)) xs)"
proof (induction xs arbitrary: p n)
  case Nil
  then show ?case by (cases n) simp_all
next
  case (Cons x xs)
  then obtain m where m: "n = Suc m" by (cases n) simp_all
  have "av_forw s p = x" "path (av_forw s) x xs Free_head" "x \<noteq> Free_head" using Cons.prems by auto
  then show ?case using Cons.IH [of x m] Cons.prems m
    by (cases "B_DELWRI \<in> b_flags s x \<and> (dev = NODEV \<or> dev = b_dev s x)") auto
qed

lemma bflush_loop_keeps:
  assumes st: "sync_driver strat"
  shows "binv s H \<Longrightarrow> backlog s H < n \<Longrightarrow> fpost (bflush_loop n strat dev s) (\<lambda>_ t. binv t H \<and> cont t = cont s \<and> bio_only s t \<and> (\<forall>c \<in> H. same_buf c s t) \<and>
     (\<forall>b \<in> pool - H. B_DELWRI \<in> b_flags t b \<longrightarrow> dev \<noteq> NODEV \<and> b_dev t b \<noteq> dev))"
proof (induction n arbitrary: s)
  case (Suc n)
  note i = Suc.prems(1)
  obtain fl where fl: "ring (av_forw s) (av_back s) Free_head fl" "set fl = pool - H" using binvD(2) [OF i] by (auto simp: free_ok_def)
  have d: "distinct fl" "Free_head \<notin> set fl" "path (av_forw s) Free_head fl Free_head" using fl(1) by (simp_all add: ring_def)
  have "card (set fl) \<le> card pool" by (rule card_mono) (use fl(2) in auto)
  then have "length fl < NBUF + 1" using d(1) by (simp add: distinct_card)
  note s = flush_search_path [OF d(3,2) this, of dev]
  show ?case
  proof (cases "find (\<lambda>b. B_DELWRI \<in> b_flags s b \<and> (dev = NODEV \<or> dev = b_dev s b)) fl")
    case None
    then have "bflush_loop (Suc n) strat dev s = Ret () s" using s by simp
    moreover have "\<forall>b \<in> pool - H. B_DELWRI \<in> b_flags s b \<longrightarrow> dev \<noteq> NODEV \<and> b_dev s b \<noteq> dev" using None fl(2) unfolding find_None_iff by auto
    ultimately show ?thesis using i by simp
  next
    case (Some b)
    have b: "b \<in> pool" "b \<notin> H" "B_DELWRI \<in> b_flags s b" using Some fl(2) unfolding find_Some_iff by (auto dest: nth_mem)
    have comm: "notavail b (flag_on b {B_ASYNC} s) = flag_on b {B_ASYNC} (notavail b s)"
      by (simp add: notavail_def flag_on_def Let_def insert_commute)
    have step: "bflush_loop (Suc n) strat dev s = fbind (bwrite strat b (flag_on b {B_ASYNC} (notavail b s))) (\<lambda>_ s. bflush_loop n strat dev s)"
      using s Some comm by simp
    show ?thesis
      unfolding step
    proof (rule fpost_bind, rule fpost_mono [OF flush_first [OF st i b]])
      fix a t assume t: "binv t H \<and> cont t = cont s \<and> bio_only s t \<and> (\<forall>c. c \<noteq> b \<longrightarrow> same_buf c s t) \<and> backlog t H < backlog s H \<and>
        B_DELWRI \<notin> b_flags t b \<and> b_dev t = b_dev s \<and> b_blkno t = b_blkno s"
      have "fpost (bflush_loop n strat dev t) (\<lambda>_ u. binv u H \<and> cont u = cont t \<and> bio_only t u \<and> (\<forall>c \<in> H. same_buf c t u) \<and>
         (\<forall>b \<in> pool - H. B_DELWRI \<in> b_flags u b \<longrightarrow> dev \<noteq> NODEV \<and> b_dev u b \<noteq> dev))"
        by (rule Suc.IH) (use t Suc.prems(2) in auto)
      moreover have "same_buf c s t" if "c \<in> H" for c using t b(2) that by metis
      ultimately show "fpost (bflush_loop n strat dev t) (\<lambda>_ u. binv u H \<and> cont u = cont s \<and> bio_only s u \<and> (\<forall>c \<in> H. same_buf c s u) \<and>
         (\<forall>b \<in> pool - H. B_DELWRI \<in> b_flags u b \<longrightarrow> dev \<noteq> NODEV \<and> b_dev u b \<noteq> dev))"
        using t by (elim fpost_mono) (metis bio_only_trans same_buf_trans)
    qed
  qed
qed simp

lemma bflush_keeps:
  assumes "sync_driver strat" "binv s H"
  shows "fpost (bflush strat dev s) (\<lambda>_ t. binv t H \<and> cont t = cont s \<and> bio_only s t \<and> (\<forall>c \<in> H. same_buf c s t) \<and>
     (\<forall>b \<in> pool - H. B_DELWRI \<in> b_flags t b \<longrightarrow> dev \<noteq> NODEV \<and> b_dev t b \<noteq> dev))"
  unfolding bflush_def by (rule bflush_loop_keeps [OF assms]) (use backlog_bound [of s H] in simp)

lemma breada_keeps:
  assumes st: "sync_driver strat" and i: "binv s H" and u: "usable s dev" and nh: "\<forall>c \<in> H. \<not> (b_dev s c = dev \<and> (b_blkno s c = blkno \<or> b_blkno s c = rablkno))"
    and room: "card H + 1 < NBUF"
  shows "fpost (breada strat dev blkno rablkno s) (\<lambda>b t. got dev blkno H s b t \<and> b_addr t b = cont s dev blkno)"
proof -
  have finH: "finite H" using binvD(1) [OF i] finite_subset [OF _ finite_pool(1)] by blast
  have Hp: "H \<noteq> pool" "\<And>b. insert b H \<noteq> pool" using room finH card_insert_if [OF finH] by (metis finite_pool(2) less_irrefl Suc_lessD Suc_eq_plus1, metis finite_pool(2) less_irrefl Suc_lessD Suc_eq_plus1)
  \<comment> \<open>The second half: the read ahead, from a state where at most the block itself is held as well.\<close>
  have ahead: "fpost (if rablkno = 0 then Ret () v else fbind (incore dev rablkno v) (\<lambda>c s. if c then Ret () s
        else fbind (getblk strat dev rablkno s) (\<lambda>rabp s. Ret () (if B_DONE \<in> b_flags s rabp then brelse rabp s else start_read strat {B_READ, B_ASYNC} rabp s))))
      (\<lambda>_ w. binv w K \<and> cont w = cont v \<and> bio_only v w \<and> (\<forall>c \<in> K. same_buf c v w))"
    if v: "binv v K" "usable v dev" "K \<noteq> pool" for v K
  proof (cases "rablkno = 0")
    case False
    obtain c where c: "incore dev rablkno v = Ret c v" "c \<longleftrightarrow> (\<exists>b \<in> pool. b_dev v b = dev \<and> b_blkno v b = rablkno)"
      using incore_keeps [OF v(1,2)] by blast
    show ?thesis
    proof (cases c)
      case True
      then show ?thesis using False c(1) v by simp
    next
      case nc: False
      have "\<forall>c \<in> K. \<not> (b_dev v c = dev \<and> b_blkno v c = rablkno)" using nc c(2) binvD(1) [OF v(1)] by blast
      from getblk_keeps [OF st v(1,3,2) this]
      have "fpost (fbind (getblk strat dev rablkno v) (\<lambda>rabp s. Ret () (if B_DONE \<in> b_flags s rabp then brelse rabp s else start_read strat {B_READ, B_ASYNC} rabp s)))
        (\<lambda>_ w. binv w K \<and> cont w = cont v \<and> bio_only v w \<and> (\<forall>c \<in> K. same_buf c v w))"
      proof (rule fpost_bind [OF fpost_mono])
        fix b x assume "got dev rablkno K v b x"
        then have x: "b \<notin> K" "binv x (insert b K)" "b_dev x b = dev" "b_blkno x b = rablkno" "cont x = cont v" "bio_only v x" "\<And>c. c \<in> K \<Longrightarrow> same_buf c v x"
          "B_DONE \<in> b_flags x b \<Longrightarrow> b_addr x b = cont v dev rablkno" by (simp_all add: got_def)
        have K: "insert b K - {b} = K" using x(1) by blast
        have nd: "b_dev x b \<noteq> NODEV" using x(3) v(2) by (simp add: usable_def)
        show "fpost (Ret () (if B_DONE \<in> b_flags x b then brelse b x else start_read strat {B_READ, B_ASYNC} b x))
          (\<lambda>_ w. binv w K \<and> cont w = cont v \<and> bio_only v w \<and> (\<forall>c \<in> K. same_buf c v w))"
        proof (cases "B_DONE \<in> b_flags x b")
          case True
          note r = brelse_keeps [OF x(2) insertI1]
          have D: "b_dev x b \<noteq> NODEV \<Longrightarrow> B_DONE \<in> b_flags x b \<Longrightarrow> b_addr x b = cont x (b_dev x b) (b_blkno x b)" using x by simp
          have "same_buf c v (brelse b x)" if "c \<in> K" for c using same_buf_trans [OF x(7) [OF that] r(4) [OF D]] that x(1) by metis
          then show ?thesis using True r(1-3) [OF D] K x(5) bio_only_trans [OF x(6)] by simp
        next
          case False
          note r = start_read_async [OF st x(2) insertI1 nd False]
          have "same_buf c v (start_read strat {B_READ, B_ASYNC} b x)" if "c \<in> K" for c using same_buf_trans [OF x(7) [OF that] r(4)] that x(1) by metis
          then show ?thesis using False r(1-3) K x(5) bio_only_trans [OF x(6)] by simp
        qed
      qed
      then show ?thesis using False nc c(1) by simp
    qed
  qed (use v in simp)
  obtain c where c: "incore dev blkno s = Ret c s" using incore_keeps [OF i u] by blast
  show ?thesis
  proof (cases c)
    case True
    then have cT: "c = True" by simp
    show ?thesis
      unfolding breada_def c cT if_True fbind.simps option.case
    proof (rule fpost_bind, rule fpost_mono [OF ahead [OF i u Hp(1)]])
      fix a v assume v: "binv v H \<and> cont v = cont s \<and> bio_only s v \<and> (\<forall>c \<in> H. same_buf c s v)"
      have nh': "\<forall>c \<in> H. \<not> (b_dev v c = dev \<and> b_blkno v c = blkno)" using nh v by (simp add: same_buf_def)
      have uv: "usable v dev" using usable_cong [of s v] v u by simp
      have "fpost (bread strat dev blkno v) (\<lambda>b t. got dev blkno H v b t \<and> b_addr t b = cont v dev blkno)"
        by (rule bread_keeps [OF st _ Hp(1) uv nh']) (use v in blast)
      then show "fpost (bread strat dev blkno v) (\<lambda>b t. got dev blkno H s b t \<and> b_addr t b = cont s dev blkno)"
      proof (rule fpost_mono)
        fix b t assume "got dev blkno H v b t \<and> b_addr t b = cont v dev blkno"
        then show "got dev blkno H s b t \<and> b_addr t b = cont s dev blkno"
          using v unfolding got_def by (metis bio_only_trans same_buf_trans)
      qed
    qed
  next
    case False
    have cF: "c = False" using False by simp
    have nh1: "\<forall>c \<in> H. \<not> (b_dev s c = dev \<and> b_blkno s c = blkno)" using nh by blast
    show ?thesis
      unfolding breada_def c fbind.simps cF if_False
    proof (rule fpost_bind, rule fpost_bind, rule fpost_mono [OF getblk_keeps [OF st i Hp(1) u nh1]], unfold fpost_Ret, rule fpost_bind)
      fix b x assume g: "got dev blkno H s b x"
      then have x: "b \<notin> H" "binv x (insert b H)" "b_dev x b = dev" "b_blkno x b = blkno" "cont x = cont s" "bio_only s x" "\<And>c. c \<in> H \<Longrightarrow> same_buf c s x"
        "B_DONE \<in> b_flags x b \<Longrightarrow> b_addr x b = cont s dev blkno" by (simp_all add: got_def)
      have nd: "b_dev x b \<noteq> NODEV" using x(3) u by (simp add: usable_def)
      define y where "y = (if B_DONE \<in> b_flags x b then x else start_read strat {B_READ} b x)"
      have y: "binv y (insert b H)" "cont y = cont s" "bio_only s y" "\<And>c. c \<in> H \<Longrightarrow> same_buf c s y" "b_dev y b = dev" "b_blkno y b = blkno"
        "b_addr y b = cont s dev blkno" "B_DONE \<in> b_flags y b"
      proof -
        have "binv y (insert b H) \<and> cont y = cont s \<and> bio_only s y \<and> (\<forall>c \<in> H. same_buf c s y) \<and> b_dev y b = dev \<and> b_blkno y b = blkno \<and>
          b_addr y b = cont s dev blkno \<and> B_DONE \<in> b_flags y b"
        proof (cases "B_DONE \<in> b_flags x b")
          case True
          then show ?thesis using x by (simp add: y_def)
        next
          case nd2: False
          then have yd: "y = start_read strat {B_READ} b x" by (simp add: y_def)
          note r = start_read_sync [OF st x(2) insertI1 nd nd2, folded yd]
          have "same_buf c s y" if "c \<in> H" for c using same_buf_trans [OF x(7) [OF that] r(4)] that x(1) by metis
          then show ?thesis using r x bio_only_trans [OF x(6) r(3)] by simp
        qed
        then show "binv y (insert b H)" "cont y = cont s" "bio_only s y" "\<And>c. c \<in> H \<Longrightarrow> same_buf c s y" "b_dev y b = dev" "b_blkno y b = blkno"
          "b_addr y b = cont s dev blkno" "B_DONE \<in> b_flags y b" by blast+
      qed
      have uy: "usable y dev" using usable_cong [OF y(3)] u by simp
      show "fpost (if rablkno = 0 then Ret () (if B_DONE \<in> b_flags x b then x else start_read strat {B_READ} b x)
          else fbind (incore dev rablkno (if B_DONE \<in> b_flags x b then x else start_read strat {B_READ} b x)) (\<lambda>c s. if c then Ret () s
            else fbind (getblk strat dev rablkno s) (\<lambda>rabp s. Ret () (if B_DONE \<in> b_flags s rabp then brelse rabp s else start_read strat {B_READ, B_ASYNC} rabp s))))
        (\<lambda>a s'. fpost (case Some b of None \<Rightarrow> bread strat dev blkno s' | Some bp \<Rightarrow> fbind (iowait bp s') (\<lambda>_ s. Ret bp s))
           (\<lambda>b t. got dev blkno H s b t \<and> b_addr t b = cont s dev blkno))"
        unfolding y_def [symmetric]
      proof (rule fpost_mono [OF ahead [OF y(1) uy Hp(2)]])
        fix a v assume v: "binv v (insert b H) \<and> cont v = cont y \<and> bio_only y v \<and> (\<forall>c \<in> insert b H. same_buf c y v)"
        have "same_buf b y v" using v by blast
        then have bv: "b_flags v b = b_flags y b" "b_dev v b = dev" "b_blkno v b = blkno" "b_addr v b = cont s dev blkno"
          using y(5-8) by (simp_all add: same_buf_def)
        have "B_ERROR \<notin> b_flags v b" using held_flags(3) [of v "insert b H" b] v by blast
        then have "iowait b v = Ret () v" using bv(1) y(8) by (intro iowait_done) simp_all
        moreover have "same_buf c s v" if "c \<in> H" for c using same_buf_trans [OF y(4) [OF that]] v that by blast
        ultimately show "fpost (case Some b of None \<Rightarrow> bread strat dev blkno v | Some bp \<Rightarrow> fbind (iowait bp v) (\<lambda>_ s. Ret bp s))
           (\<lambda>b t. got dev blkno H s b t \<and> b_addr t b = cont s dev blkno)"
          using v bv y(2) bio_only_trans [OF y(3)] x(1) by (simp add: got_def)
      qed
    qed
  qed
qed

subsection \<open>Initialisation\<close>

definition initial :: "nat \<Rightarrow> 'a bio_scheme \<Rightarrow> bool" where
  "initial i s \<longleftrightarrow> (\<exists>fl. ring (av_forw s) (av_back s) Free_head fl \<and> set fl = Buf ` {..<i}) \<and>
     (\<exists>dl. ring (b_forw s) (b_back s) Free_head dl \<and> set dl = Buf ` {..<i}) \<and>
     (\<forall>j < i. b_flags s (Buf j) = {} \<and> b_dev s (Buf j) = NODEV \<and> length (b_addr s (Buf j)) = BSIZE) \<and> B_WANTED \<notin> b_flags s Free_head \<and> (\<forall>m. B_TAPE \<notin> b_flags s (Dev m)) \<and>
     (\<forall>b \<in> pool. b_resid s b = 0)"

lemma binit_step:
  assumes "initial i s"
  defines "v \<equiv> (let bp = Buf i;
          s = s\<lparr>b_dev := (b_dev s)(bp := NODEV), b_addr := (b_addr s)(bp := replicate BSIZE 0)\<rparr>;
          s = s\<lparr>b_back := (b_back s)(bp := Free_head), b_forw := (b_forw s)(bp := b_forw s Free_head)\<rparr>;
          s = s\<lparr>b_back := (b_back s)(b_forw s Free_head := bp)\<rparr>;
          s = s\<lparr>b_forw := (b_forw s)(Free_head := bp)\<rparr>
      in s\<lparr>b_flags := (b_flags s)(bp := {B_BUSY})\<rparr>)"
  shows "initial (i + 1) (brelse (Buf i) v)" "disk (brelse (Buf i) v) = disk s" "nblkdev (brelse (Buf i) v) = nblkdev s" "has_tab (brelse (Buf i) v) = has_tab s"
proof -
  have w: "B_WANTED \<notin> b_flags v (Buf i)" "B_WANTED \<notin> b_flags v Free_head" "B_ERROR \<notin> b_flags v (Buf i)"
    using assms(1) by (simp_all add: v_def Let_def initial_def)
  obtain f g where e: "brelse (Buf i) v = v\<lparr>b_flags := (b_flags v)(Buf i := b_flags v (Buf i) - {B_WANTED, B_BUSY, B_ASYNC, B_AGE}), av_forw := f, av_back := g\<rparr>"
    and r: "\<And>fl. ring (av_forw v) (av_back v) Free_head fl \<Longrightarrow> Buf i \<notin> set (Free_head # fl) \<Longrightarrow> \<exists>fl'. ring f g Free_head fl' \<and> set fl' = insert (Buf i) (set fl)"
    by (rule brelse_run [OF w]) auto
  have n: "Buf i \<notin> Buf ` {..<i}" by auto
  have I: "insert (Buf i) (Buf ` {..<i}) = Buf ` {..<i + 1}" by (auto simp: less_Suc_eq)
  obtain fl where fl: "ring (av_forw s) (av_back s) Free_head fl" "set fl = Buf ` {..<i}" using assms(1) by (auto simp: initial_def)
  have "\<exists>fl'. ring f g Free_head fl' \<and> set fl' = insert (Buf i) (set fl)" by (rule r) (use fl n in \<open>simp_all add: v_def Let_def\<close>)
  then have 1: "\<exists>fl. ring f g Free_head fl \<and> set fl = Buf ` {..<i + 1}" unfolding fl(2) I .
  obtain dl where dl: "ring (b_forw s) (b_back s) Free_head dl" "set dl = Buf ` {..<i}" using assms(1) by (auto simp: initial_def)
  have "Buf i \<notin> set (Free_head # dl)" using dl(2) n by simp
  from ring_push [OF dl(1) this] have "ring ((b_forw s)(Buf i := b_forw s Free_head, Free_head := Buf i)) ((b_back s)(b_forw s Free_head := Buf i, Buf i := Free_head)) Free_head (Buf i # dl)" .
  moreover have "b_forw s Free_head \<noteq> Buf i"
    using ring_at(1) [OF dl(1), of Free_head] dl(2) n by auto
  ultimately have "ring (b_forw v) (b_back v) Free_head (Buf i # dl)" by (simp add: v_def Let_def fun_upd_twist)
  moreover have "set (Buf i # dl) = Buf ` {..<i + 1}" using dl(2) I by simp
  ultimately have 2: "\<exists>dl. ring (b_forw v) (b_back v) Free_head dl \<and> set dl = Buf ` {..<i + 1}" by blast
  have 3: "b_flags (brelse (Buf i) v) (Buf j) = {} \<and> b_dev (brelse (Buf i) v) (Buf j) = NODEV \<and> length (b_addr (brelse (Buf i) v) (Buf j)) = BSIZE" if "j < i + 1" for j
    unfolding e using that assms(1) by (cases "j = i") (auto simp: initial_def v_def Let_def)
  show "initial (i + 1) (brelse (Buf i) v)" unfolding initial_def
    using 1 2 3 assms(1) by (simp add: e) (simp add: initial_def v_def Let_def)
  show "disk (brelse (Buf i) v) = disk s" "nblkdev (brelse (Buf i) v) = nblkdev s" "has_tab (brelse (Buf i) v) = has_tab s"
    unfolding e by (simp_all add: v_def Let_def)
qed

lemma binit_loop_initial:
  "initial i s \<Longrightarrow> initial (i + n) (binit_loop i n s) \<and> disk (binit_loop i n s) = disk s \<and> nblkdev (binit_loop i n s) = nblkdev s \<and>
     has_tab (binit_loop i n s) = has_tab s"
proof (induction n arbitrary: i s)
  case (Suc n)
  note st = binit_step [OF Suc.prems]
  show ?case using Suc.IH [OF st(1)] st(2-4) by (simp add: Let_def)
qed simp

lemma bdev_loop_run:
  "\<exists>f g. bdev_loop m n s = s\<lparr>b_forw := f, b_back := g, nblkdev := nblkdev s + n\<rparr> \<and>
     (\<forall>x. (\<forall>k. x = Dev k \<longrightarrow> \<not> (m \<le> k \<and> k < m + n \<and> has_tab s k)) \<longrightarrow> f x = b_forw s x \<and> g x = b_back s x) \<and>
     (\<forall>k. m \<le> k \<and> k < m + n \<and> has_tab s k \<longrightarrow> f (Dev k) = Dev k \<and> g (Dev k) = Dev k)"
proof (induction n arbitrary: m s)
  case 0
  show ?case by (rule exI [of _ "b_forw s"], rule exI [of _ "b_back s"]) auto
next
  case (Suc n)
  define v where "v = (if has_tab s m then s\<lparr>b_forw := (b_forw s)(Dev m := Dev m), b_back := (b_back s)(Dev m := Dev m)\<rparr> else s)\<lparr>nblkdev := nblkdev s + 1\<rparr>"
  have v: "nblkdev (if has_tab s m then s\<lparr>b_forw := (b_forw s)(Dev m := Dev m), b_back := (b_back s)(Dev m := Dev m)\<rparr> else s) = nblkdev s" by simp
  have h: "has_tab v = has_tab s" by (simp add: v_def)
  obtain f g where fg: "bdev_loop (m + 1) n v = v\<lparr>b_forw := f, b_back := g, nblkdev := nblkdev v + n\<rparr>"
    "\<forall>x. (\<forall>k. x = Dev k \<longrightarrow> \<not> (m + 1 \<le> k \<and> k < m + 1 + n \<and> has_tab v k)) \<longrightarrow> f x = b_forw v x \<and> g x = b_back v x"
    "\<forall>k. m + 1 \<le> k \<and> k < m + 1 + n \<and> has_tab v k \<longrightarrow> f (Dev k) = Dev k \<and> g (Dev k) = Dev k"
    using Suc.IH [of "m + 1" v] by blast
  have e: "bdev_loop m (Suc n) s = s\<lparr>b_forw := f, b_back := g, nblkdev := nblkdev s + Suc n\<rparr>"
  proof -
    have "bdev_loop m (Suc n) s = v\<lparr>b_forw := f, b_back := g, nblkdev := nblkdev v + n\<rparr>" using fg(1) by (simp add: Let_def v_def v)
    also have "\<dots> = s\<lparr>b_forw := f, b_back := g, nblkdev := nblkdev s + Suc n\<rparr>" by (rule bio.equality) (simp_all add: v_def)
    finally show ?thesis .
  qed
  show ?case
  proof (rule exI [of _ f], rule exI [of _ g], intro conjI allI impI)
    fix x assume "\<forall>k. x = Dev k \<longrightarrow> \<not> (m \<le> k \<and> k < m + Suc n \<and> has_tab s k)"
    moreover from this have "f x = b_forw v x \<and> g x = b_back v x" using fg(2) h by auto
    ultimately show "f x = b_forw s x" "g x = b_back s x" by (auto simp: v_def)
  next
    fix k assume k: "m \<le> k \<and> k < m + Suc n \<and> has_tab s k"
    have "f (Dev k) = Dev k \<and> g (Dev k) = Dev k"
    proof (cases "k = m")
      case True
      then have "f (Dev k) = b_forw v (Dev k) \<and> g (Dev k) = b_back v (Dev k)" using fg(2) by auto
      then show ?thesis using True k by (simp add: v_def)
    next
      case False
      then show ?thesis using fg(3) k h by auto
    qed
    then show "f (Dev k) = Dev k" "g (Dev k) = Dev k" by blast+
  qed (rule e)
qed

lemma binit_ok:
  assumes "B_WANTED \<notin> b_flags s Free_head" "\<forall>m. B_TAPE \<notin> b_flags s (Dev m)" "nblkdev s = 0" "\<forall>d k. length (disk s d k) = BSIZE" "\<forall>b \<in> pool. b_resid s b = 0"
  shows "binv (binit ndev s) {}" "cont (binit ndev s) = disk s" "nblkdev (binit ndev s) = ndev" "has_tab (binit ndev s) = has_tab s"
    "\<forall>b \<in> pool. b_dev (binit ndev s) b = NODEV \<and> b_flags (binit ndev s) b = {}"
proof -
  define s0 where "s0 = s\<lparr>b_forw := (b_forw s)(Free_head := Free_head), b_back := (b_back s)(Free_head := Free_head),
          av_forw := (av_forw s)(Free_head := Free_head), av_back := (av_back s)(Free_head := Free_head)\<rparr>"
  have "initial 0 s0" using assms(1,2,5) by (simp add: initial_def s0_def ring_def exI [of _ "[]"])
  from binit_loop_initial [OF this, of NBUF] have
    l: "initial NBUF (binit_loop 0 NBUF s0)" "disk (binit_loop 0 NBUF s0) = disk s" "nblkdev (binit_loop 0 NBUF s0) = 0" "has_tab (binit_loop 0 NBUF s0) = has_tab s"
    using assms(3) by (simp_all add: s0_def)
  define u where "u = binit_loop 0 NBUF s0"
  note l = l [folded u_def]
  obtain f g where d: "bdev_loop 0 ndev u = u\<lparr>b_forw := f, b_back := g, nblkdev := nblkdev u + ndev\<rparr>"
     "\<forall>x. (\<forall>k. x = Dev k \<longrightarrow> \<not> (0 \<le> k \<and> k < 0 + ndev \<and> has_tab u k)) \<longrightarrow> f x = b_forw u x \<and> g x = b_back u x"
     "\<forall>k. 0 \<le> k \<and> k < 0 + ndev \<and> has_tab u k \<longrightarrow> f (Dev k) = Dev k \<and> g (Dev k) = Dev k"
    using bdev_loop_run [of 0 ndev u] by blast
  define t where "t = u\<lparr>b_forw := f, b_back := g, nblkdev := ndev\<rparr>"
  have t: "binit ndev s = t" using d(1) l(3) by (simp add: binit_def Let_def s0_def u_def t_def)
  have P: "Buf ` {..<NBUF} = pool" by (simp add: pool_def)
  have fl: "\<forall>b \<in> pool. b_flags u b = {} \<and> b_dev u b = NODEV" using l(1) by (auto simp: initial_def pool_def)
  obtain al where al: "ring (b_forw u) (b_back u) Free_head al" "set al = pool" using l(1) P by (auto simp: initial_def)
  define dl where "dl h = (if h = Free_head then al else [])" for h
  have "ring f g Free_head al"
    by (rule ring_cong [OF al(1)]) (use d(2) al(2) in \<open>auto simp: pool_def\<close>)
  then have rg: "rings f g (heads t) dl"
    using d(3) l(4) al(2) by (auto simp: rings_def heads_def dl_def t_def ring_def pool_def)
  have hm: "home t b = Free_head" if "b \<in> pool" for b using fl that by (simp add: home_def t_def)
  have "\<forall>h \<in> heads t. set (dl h) = {b \<in> pool. home t b = h}" using hm al(2) by (auto simp: dl_def heads_def)
  then have "lists_ok t" using rg fl unfolding lists_ok_def on_lists_def by (auto simp: t_def)
  moreover have "free_ok t {}" using l(1) P by (auto simp: free_ok_def initial_def t_def)
  moreover have "flags_ok t {}" using l(1) fl by (auto simp: flags_ok_def initial_def t_def)
  moreover have "unique_ok t" "data_ok t {}" using fl by (auto simp: unique_ok_def data_ok_def t_def)
  moreover have "sizes_ok t" using l(1,2) assms(4) by (auto simp: sizes_ok_def initial_def pool_def t_def)
  ultimately show "binv (binit ndev s) {}" by (simp add: binv_def t)
  show "cont (binit ndev s) = disk s"
  proof (intro ext)
    fix d k
    have "cont t d k = disk t d k" by (rule cont_disk) (use fl in \<open>simp add: t_def\<close>)
    then show "cont (binit ndev s) d k = disk s d k" using l(2) by (simp add: t) (simp add: t_def)
  qed
  show "nblkdev (binit ndev s) = ndev" "has_tab (binit ndev s) = has_tab s" using l(4) by (simp_all add: t t_def)
  show "\<forall>b \<in> pool. b_dev (binit ndev s) b = NODEV \<and> b_flags (binit ndev s) b = {}" using fl by (simp add: t t_def)
qed

section \<open>The properties\<close>

text \<open>A machine with one disk, and its driver.\<close>

definition demo_driver :: "'a strategy" where
  "demo_driver bp s = iodone bp (transfer bp s)"

lemma demo_driver_sync: "sync_driver demo_driver"
  by (simp add: sync_driver_def demo_driver_def)

definition demo_bio :: bio where
  "demo_bio = binit 1 \<lparr>u_base = 0, u_count = 0, u_offset = 0, u_segflg = 0, u_error = 0, u_mem = (\<lambda>_ _. None), b_flags = (\<lambda>_. {}), b_forw = id,
     b_back = id, av_forw = id, av_back = id, b_dev = (\<lambda>_. 0), b_blkno = (\<lambda>_. 0), b_bcount = (\<lambda>_. 0), b_resid = (\<lambda>_. 0), b_error = (\<lambda>_. 0),
     b_addr = (\<lambda>_. []), nblkdev = 0, has_tab = (\<lambda>m. m = 0), disk = (\<lambda>d k. replicate BSIZE (of_nat (unat k))), wakeups = []\<rparr>"

lemma demo_bio: "binv demo_bio {}" "cont demo_bio d k = replicate BSIZE (of_nat (unat k))" "usable demo_bio 0" "{} \<noteq> pool"
proof -
  show "binv demo_bio {}" "cont demo_bio d k = replicate BSIZE (of_nat (unat k))" unfolding demo_bio_def by (subst binit_ok; simp)+
  show "usable demo_bio 0" unfolding usable_def demo_bio_def by (simp add: binit_ok NODEV_def major_def)
  have "Buf 0 \<in> pool" by (simp add: pool_def NBUF_def)
  then show "{} \<noteq> pool" by blast
qed

text \<open>
  C10. The invariant of the cache: every buffer is on the list of its device, the free list has exactly the buffers that nobody holds,
  these are the ones that are not busy, no block of a device is in two buffers, every buffer has the size of a block and nothing left over from a transfer, and a free buffer without a delayed write agrees
  with the disk. With a driver that finishes its transfers every operation returns and keeps it:
  \<open>getblk\<close>, \<open>geteblk\<close>, \<open>bread\<close> and \<open>breada\<close> add a buffer to those held, \<open>brelse\<close>, \<open>bwrite\<close>, \<open>bawrite\<close> and \<open>bdwrite\<close> take theirs
  away, \<open>bflush\<close> changes nothing about them. The searches of the lists end within as many steps as there are buffers, and \<open>goto
  loop\<close> is taken once for each delayed write at most.
\<close>

theorem cache_invariant:
  assumes st: "sync_driver strat" and i: "binv s H" and room: "card H + 1 < NBUF" and u: "usable s dev"
    and nh: "\<forall>c \<in> H. \<not> (b_dev s c = dev \<and> b_blkno s c \<in> {blkno, rablkno})"
    and b: "b \<in> H" "b_dev s b \<noteq> NODEV" "b_addr s b = cont s (b_dev s b) (b_blkno s b)"
  shows "fpost (getblk strat dev blkno s) (\<lambda>c t. c \<notin> H \<and> binv t (insert c H)) \<and>
    fpost (geteblk strat s) (\<lambda>c t. c \<notin> H \<and> binv t (insert c H)) \<and>
    fpost (bread strat dev blkno s) (\<lambda>c t. c \<notin> H \<and> binv t (insert c H)) \<and>
    fpost (breada strat dev blkno rablkno s) (\<lambda>c t. c \<notin> H \<and> binv t (insert c H)) \<and>
    binv (brelse b s) (H - {b}) \<and> fpost (bwrite strat b s) (\<lambda>_ t. binv t (H - {b})) \<and>
    fpost (bawrite strat b s) (\<lambda>_ t. binv t (H - {b})) \<and> fpost (bdwrite strat b s) (\<lambda>_ t. binv t (H - {b})) \<and>
    fpost (bflush strat dev s) (\<lambda>_ t. binv t H)"
proof -
  have Hp: "H \<noteq> pool" using room by auto
  have nh1: "\<forall>c \<in> H. \<not> (b_dev s c = dev \<and> b_blkno s c = blkno)" and nh2: "\<forall>c \<in> H. \<not> (b_dev s c = dev \<and> (b_blkno s c = blkno \<or> b_blkno s c = rablkno))"
    using nh by auto
  have off: "flag_on b {} s = s" by (simp add: flag_on_def)
  have "fpost (getblk strat dev blkno s) (\<lambda>c t. c \<notin> H \<and> binv t (insert c H))"
    by (rule fpost_mono [OF getblk_keeps [OF st i Hp u nh1]]) (simp add: got_def)
  moreover have "fpost (geteblk strat s) (\<lambda>c t. c \<notin> H \<and> binv t (insert c H))"
    unfolding geteblk_def by (rule fpost_mono [OF geteblk_loop_keeps [OF st Hp i]]) (use backlog_bound [of s H] in simp_all)
  moreover have "fpost (bread strat dev blkno s) (\<lambda>c t. c \<notin> H \<and> binv t (insert c H))"
    by (rule fpost_mono [OF bread_keeps [OF st i Hp u nh1]]) (simp add: got_def)
  moreover have "fpost (breada strat dev blkno rablkno s) (\<lambda>c t. c \<notin> H \<and> binv t (insert c H))"
    by (rule fpost_mono [OF breada_keeps [OF st i u nh2 room]]) (simp add: got_def)
  moreover have "binv (brelse b s) (H - {b})" by (rule brelse_keeps(1) [OF i b(1,3)])
  moreover have "fpost (bwrite strat b s) (\<lambda>_ t. binv t (H - {b}))"
    using fpost_mono [OF bwrite_keeps [OF st i b(1,2), of "{}"], of "\<lambda>_ t. binv t (H - {b})"] unfolding off by blast
  moreover have "fpost (bawrite strat b s) (\<lambda>_ t. binv t (H - {b}))" unfolding bawrite_def
    by (rule fpost_mono [OF bwrite_keeps [OF st i b(1,2)]]) auto
  moreover have "fpost (bdwrite strat b s) (\<lambda>_ t. binv t (H - {b}))" by (rule fpost_mono [OF bdwrite_keeps [OF i b(1,2)]]) blast
  moreover have "fpost (bflush strat dev s) (\<lambda>_ t. binv t H)" by (rule fpost_mono [OF bflush_keeps [OF st i]]) blast
  ultimately show ?thesis by blast
qed

lemma demo_held:
  obtains b s where "bread demo_driver 0 7 demo_bio = Ret b s" "binv s {b}" "b_dev s b = 0" "b_blkno s b = 7" "b_addr s b = cont s 0 7"
    "cont s = cont demo_bio" "usable s 0"
proof -
  from bread_keeps [OF demo_driver_sync demo_bio(1,4,3), of 7]
  obtain b s where r: "bread demo_driver 0 7 demo_bio = Ret b s" "got 0 7 {} demo_bio b s" "b_addr s b = cont demo_bio 0 7"
    by (auto elim: fpostE)
  moreover have "usable s 0" using usable_cong [of demo_bio s] r(2) demo_bio(3) by (simp add: got_def)
  ultimately show thesis using that [of b s] by (simp add: got_def)
qed

theorem cache_invariant_witness:
  "\<exists>b s. bread demo_driver 0 7 demo_bio = Ret b s \<and> fpost (bread demo_driver 0 8 s) (\<lambda>c t. c \<notin> {b} \<and> binv t (insert c {b}))"
proof -
  obtain b s where s: "bread demo_driver 0 7 demo_bio = Ret b s" "binv s {b}" "b_dev s b = 0" "b_blkno s b = 7" "b_addr s b = cont s 0 7"
    "cont s = cont demo_bio" "usable s 0" by (rule demo_held)
  have "card {b} + 1 < NBUF" by (simp add: NBUF_def)
  moreover have "\<forall>c \<in> {b}. \<not> (b_dev s c = 0 \<and> b_blkno s c \<in> {8, 9})" using s by simp
  moreover have "b_dev s b \<noteq> NODEV" "b_addr s b = cont s (b_dev s b) (b_blkno s b)" using s by (simp_all add: NODEV_def)
  ultimately have "fpost (bread demo_driver 0 8 s) (\<lambda>c t. c \<notin> {b} \<and> binv t (insert c {b}))"
    using cache_invariant [OF demo_driver_sync s(2) _ s(7) _ insertI1, of 8 9] by blast
  then show ?thesis using s(1) by blast
qed

text \<open>
  C1. The cache implements the devices it stands for. What a device holds is the function \<open>cont\<close>: the disk under the delayed writes.
  \<open>bread\<close> and \<open>breada\<close> return a buffer of the block asked for with exactly these contents; \<open>getblk\<close>, \<open>bread\<close>, \<open>breada\<close>, \<open>brelse\<close> of
  an unchanged buffer and \<open>bflush\<close> do not change them, although they may write blocks out and give buffers to other blocks; \<open>bwrite\<close>,
  \<open>bawrite\<close> and \<open>bdwrite\<close> change them at the block of the buffer, to what is in the buffer, and nowhere else.
\<close>

theorem cache_refines_devices:
  assumes st: "sync_driver strat" and i: "binv s H" and room: "card H + 1 < NBUF" and u: "usable s dev"
    and nh: "\<forall>c \<in> H. \<not> (b_dev s c = dev \<and> b_blkno s c \<in> {blkno, rablkno})"
    and b: "b \<in> H" "b_dev s b \<noteq> NODEV"
  defines "new \<equiv> (cont s)(b_dev s b := (cont s (b_dev s b))(b_blkno s b := b_addr s b))"
  shows "fpost (bread strat dev blkno s) (\<lambda>c t. b_dev t c = dev \<and> b_blkno t c = blkno \<and> b_addr t c = cont s dev blkno \<and> cont t = cont s) \<and>
    fpost (breada strat dev blkno rablkno s) (\<lambda>c t. b_dev t c = dev \<and> b_blkno t c = blkno \<and> b_addr t c = cont s dev blkno \<and> cont t = cont s) \<and>
    fpost (getblk strat dev blkno s) (\<lambda>c t. b_dev t c = dev \<and> b_blkno t c = blkno \<and> cont t = cont s) \<and>
    fpost (bflush strat dev s) (\<lambda>_ t. cont t = cont s) \<and>
    (b_addr s b = cont s (b_dev s b) (b_blkno s b) \<longrightarrow> cont (brelse b s) = cont s) \<and>
    fpost (bwrite strat b s) (\<lambda>_ t. cont t = new) \<and> fpost (bawrite strat b s) (\<lambda>_ t. cont t = new) \<and> fpost (bdwrite strat b s) (\<lambda>_ t. cont t = new)"
proof -
  have Hp: "H \<noteq> pool" using room by auto
  have nh1: "\<forall>c \<in> H. \<not> (b_dev s c = dev \<and> b_blkno s c = blkno)" and nh2: "\<forall>c \<in> H. \<not> (b_dev s c = dev \<and> (b_blkno s c = blkno \<or> b_blkno s c = rablkno))"
    using nh by auto
  have off: "flag_on b {} s = s" by (simp add: flag_on_def)
  have "fpost (bread strat dev blkno s) (\<lambda>c t. b_dev t c = dev \<and> b_blkno t c = blkno \<and> b_addr t c = cont s dev blkno \<and> cont t = cont s)"
    by (rule fpost_mono [OF bread_keeps [OF st i Hp u nh1]]) (simp add: got_def)
  moreover have "fpost (breada strat dev blkno rablkno s) (\<lambda>c t. b_dev t c = dev \<and> b_blkno t c = blkno \<and> b_addr t c = cont s dev blkno \<and> cont t = cont s)"
    by (rule fpost_mono [OF breada_keeps [OF st i u nh2 room]]) (simp add: got_def)
  moreover have "fpost (getblk strat dev blkno s) (\<lambda>c t. b_dev t c = dev \<and> b_blkno t c = blkno \<and> cont t = cont s)"
    by (rule fpost_mono [OF getblk_keeps [OF st i Hp u nh1]]) (simp add: got_def)
  moreover have "fpost (bflush strat dev s) (\<lambda>_ t. cont t = cont s)" by (rule fpost_mono [OF bflush_keeps [OF st i]]) blast
  moreover have "b_addr s b = cont s (b_dev s b) (b_blkno s b) \<longrightarrow> cont (brelse b s) = cont s" using brelse_keeps(2) [OF i b(1)] by blast
  moreover have "fpost (bwrite strat b s) (\<lambda>_ t. cont t = new)"
    using fpost_mono [OF bwrite_keeps [OF st i b, of "{}"], of "\<lambda>_ t. cont t = new"] unfolding off new_def by blast
  moreover have "fpost (bawrite strat b s) (\<lambda>_ t. cont t = new)" unfolding bawrite_def new_def
    by (rule fpost_mono [OF bwrite_keeps [OF st i b]]) auto
  moreover have "fpost (bdwrite strat b s) (\<lambda>_ t. cont t = new)" unfolding new_def by (rule fpost_mono [OF bdwrite_keeps [OF i b]]) blast
  ultimately show ?thesis by blast
qed

theorem cache_refines_devices_witness:
  "\<exists>b s. bread demo_driver 0 7 demo_bio = Ret b s \<and> fpost (bdwrite demo_driver b s) (\<lambda>_ t. cont t 0 7 = b_addr s b) \<and>
     fpost (bread demo_driver 0 8 s) (\<lambda>c t. b_addr t c = replicate BSIZE 8)"
proof -
  obtain b s where s: "bread demo_driver 0 7 demo_bio = Ret b s" "binv s {b}" "b_dev s b = 0" "b_blkno s b = 7" "b_addr s b = cont s 0 7"
    "cont s = cont demo_bio" "usable s 0" by (rule demo_held)
  have room: "card {b} + 1 < NBUF" by (simp add: NBUF_def)
  have nh: "\<forall>c \<in> {b}. \<not> (b_dev s c = 0 \<and> b_blkno s c \<in> {8, 9})" using s by simp
  have nd: "b_dev s b \<noteq> NODEV" using s by (simp add: NODEV_def)
  note r = cache_refines_devices [OF demo_driver_sync s(2) room s(7) nh insertI1 nd]
  have "fpost (bdwrite demo_driver b s) (\<lambda>_ t. cont t 0 7 = b_addr s b)"
    using r by (elim conjE fpost_mono) (simp add: s)
  moreover have "cont s 0 8 = replicate BSIZE 8" unfolding s(6) demo_bio(2) by simp
  then have "fpost (bread demo_driver 0 8 s) (\<lambda>c t. b_addr t c = replicate BSIZE 8)"
    using r by (elim conjE) (rule fpost_mono, assumption, simp)
  ultimately show ?thesis using s(1) by blast
qed

end
