(* ===== verification/Bflush.thy ===== *)
theory Bflush
  imports Bio
begin

text \<open>
  \<open>bflush\<close> (\<open>usr/sys/dev/bio.c\<close>) with a driver that only queues: the strategy routine returns with the transfer still to be done, as those of
  the block drivers do, and the interrupt that ends a transfer, with its \<open>iodone\<close>, comes later and in the order that suits the driver.
\<close>

section \<open>Queueing drivers\<close>

text \<open>
  The strategy routine puts the buffer into the driver's own queue, a part of the state behind the fields of the buffer cache, by a
  function \<open>enq\<close> that is the driver's; \<open>finish\<close> is the end of a transfer: the transfer itself and \<open>iodone\<close>.
\<close>

definition queueing :: "(bnode \<Rightarrow> 'a \<Rightarrow> 'a) \<Rightarrow> 'a strategy \<Rightarrow> bool" where
  "queueing enq strat \<longleftrightarrow> (\<forall>b s. strat b s = bio.more_update (enq b) s)"

definition finish :: "bnode \<Rightarrow> 'a bio_scheme \<Rightarrow> 'a bio_scheme" where
  "finish b s = iodone b (transfer b s)"

abbreviation due :: "u16 \<Rightarrow> 'a bio_scheme \<Rightarrow> bnode \<Rightarrow> bool" where
  "due dev s b \<equiv> B_DELWRI \<in> b_flags s b \<and> (dev = NODEV \<or> dev = b_dev s b)"

text \<open>The flags of a buffer that \<open>bflush\<close> has given to the driver.\<close>

definition sent :: "bflag set \<Rightarrow> bflag set" where
  "sent F = F - {B_READ, B_DONE, B_ERROR, B_DELWRI} \<union> {B_ASYNC, B_BUSY, B_AGE}"

text \<open>What has happened when the buffers of \<open>D\<close> have been given to the driver in this order.\<close>

definition handed :: "(bnode \<Rightarrow> 'a \<Rightarrow> 'a) \<Rightarrow> bnode list \<Rightarrow> 'a bio_scheme \<Rightarrow> 'a bio_scheme \<Rightarrow> bool" where
  "handed enq D s t \<longleftrightarrow> bio.more t = fold enq D (bio.more s) \<and> b_flags t = (\<lambda>b. if b \<in> set D then sent (b_flags s b) else b_flags s b) \<and>
     b_addr t = b_addr s \<and> b_dev t = b_dev s \<and> b_blkno t = b_blkno s \<and> disk t = disk s \<and> b_forw t = b_forw s \<and> b_back t = b_back s \<and>
     wakeups t = wakeups s \<and> u_error t = u_error s"

lemma handed_Nil [simp]: "handed enq [] s s" by (simp add: handed_def)

lemma handed_Cons: "handed enq [b] s t \<Longrightarrow> handed enq D t u \<Longrightarrow> b \<notin> set D \<Longrightarrow> handed enq (b # D) s u"
  by (auto simp: handed_def fun_eq_iff)

section \<open>The loop of bflush\<close>

lemma hand_over:
  assumes q: "queueing enq strat" and r: "ring (av_forw s) (av_back s) Free_head (xs @ b # ys)" and b: "B_DELWRI \<in> b_flags s b"
  obtains t where "bwrite strat b (notavail b (flag_on b {B_ASYNC} s)) = Ret () t" "handed enq [b] s t" "ring (av_forw t) (av_back t) Free_head (xs @ ys)"
proof -
  define f where "f = (av_forw s)(av_back s b := av_forw s b)"
  define g where "g = (av_back s)(av_forw s b := av_back s b)"
  have d: "distinct (Free_head # xs @ b # ys)" using r unfolding ring_def by simp
  have "av_back s b = last (Free_head # xs)" using ring_neighbours(1) [OF r] .
  then have "av_back s b \<noteq> b" using d last_in_set [of "Free_head # xs"] by fastforce
  then have fb: "f b = av_forw s b" by (simp add: f_def)
  have n: "notavail b (flag_on b {B_ASYNC} s) = s\<lparr>b_flags := (b_flags s)(b := b_flags s b \<union> {B_ASYNC, B_BUSY}), av_forw := f, av_back := g\<rparr>"
    using fb by (simp add: notavail_def flag_on_def Let_def f_def [symmetric] g_def insert_commute)
  define u where "u = s\<lparr>av_forw := f, av_back := g, b_flags := (b_flags s)(b := b_flags s b \<union> {B_ASYNC, B_BUSY} - {B_READ, B_DONE, B_ERROR, B_DELWRI, B_AGE}),
    b_bcount := (b_bcount s)(b := of_nat BSIZE)\<rparr>"
  have "bwrite strat b (notavail b (flag_on b {B_ASYNC} s)) = Ret () (flag_on b {B_AGE} (strat b u))"
    unfolding n using b by (simp add: bwrite_def flag_off_def Let_def u_def)
  moreover have "strat b u = bio.more_update (enq b) u" using q by (simp add: queueing_def)
  moreover have "handed enq [b] s (flag_on b {B_AGE} (bio.more_update (enq b) u))"
    by (auto simp: handed_def u_def flag_on_def sent_def fun_eq_iff)
  moreover have "ring f g Free_head (xs @ ys)" using ring_remove [OF r] by (simp add: f_def g_def)
  then have "ring (av_forw (flag_on b {B_AGE} (bio.more_update (enq b) u))) (av_back (flag_on b {B_AGE} (bio.more_update (enq b) u))) Free_head (xs @ ys)"
    by (simp add: flag_on_def u_def)
  ultimately show thesis by (intro that) simp_all
qed

lemma flush_loop:
  assumes q: "queueing enq strat"
  shows "ring (av_forw s) (av_back s) Free_head fl \<Longrightarrow> length fl < NBUF + 1 \<Longrightarrow> length (filter (due dev s) fl) < n \<Longrightarrow>
    \<exists>t. bflush_loop n strat dev s = Ret () t \<and> handed enq (filter (due dev s) fl) s t \<and>
      ring (av_forw t) (av_back t) Free_head (filter (\<lambda>b. \<not> due dev s b) fl)"
proof (induction n arbitrary: s fl)
  case (Suc n)
  have d: "distinct fl" "Free_head \<notin> set fl" "path (av_forw s) Free_head fl Free_head" using Suc.prems(1) by (simp_all add: ring_def)
  note fs = flush_search_path [OF d(3,2) Suc.prems(2), of dev]
  show ?case
  proof (cases "find (due dev s) fl")
    case None
    then have nd: "filter (due dev s) fl = []" "filter (\<lambda>b. \<not> due dev s b) fl = fl" unfolding find_None_iff by (auto simp: filter_empty_conv filter_id_conv)
    have "bflush_loop (Suc n) strat dev s = Ret () s" using fs None by simp
    then show ?thesis using nd Suc.prems(1) by simp
  next
    case (Some b)
    obtain xs ys where fl: "fl = xs @ b # ys" and b: "due dev s b" and xs: "\<forall>x \<in> set xs. \<not> due dev s x"
    proof -
      from Some obtain i where i: "i < length fl" "due dev s (fl ! i)" "b = fl ! i" "\<forall>j < i. \<not> due dev s (fl ! j)" unfolding find_Some_iff by blast
      have "fl = take i fl @ b # drop (Suc i) fl" using id_take_nth_drop [OF i(1)] i(3) by simp
      moreover have "\<forall>x \<in> set (take i fl). \<not> due dev s x"
      proof
        fix x assume "x \<in> set (take i fl)"
        then obtain j where "j < i" "x = fl ! j" using i(1) by (auto simp: in_set_conv_nth)
        then show "\<not> due dev s x" using i(4) by simp
      qed
      ultimately show thesis using that i(2,3) by blast
    qed
    have fx: "filter (due dev s) xs = []" "filter (\<lambda>b. \<not> due dev s b) xs = xs" using xs by (auto simp: filter_empty_conv filter_id_conv)
    obtain t where t: "bwrite strat b (notavail b (flag_on b {B_ASYNC} s)) = Ret () t" "handed enq [b] s t" "ring (av_forw t) (av_back t) Free_head (xs @ ys)"
      by (rule hand_over [OF q Suc.prems(1) [unfolded fl]]) (use b in auto)
    have nb: "b \<notin> set xs" "b \<notin> set ys" using d(1) fl by simp_all
    then have same: "due dev t c = due dev s c" if "c \<in> set (xs @ ys)" for c using t(2) that by (auto simp: handed_def)
    then have ft: "filter (due dev t) (xs @ ys) = filter (due dev s) ys" "filter (\<lambda>b. \<not> due dev t b) (xs @ ys) = xs @ filter (\<lambda>b. \<not> due dev s b) ys"
    proof -
      have "filter (due dev t) (xs @ ys) = filter (due dev s) (xs @ ys)" "filter (\<lambda>b. \<not> due dev t b) (xs @ ys) = filter (\<lambda>b. \<not> due dev s b) (xs @ ys)"
        by (rule filter_cong [OF refl], simp only: same)+
      then show "filter (due dev t) (xs @ ys) = filter (due dev s) ys" "filter (\<lambda>b. \<not> due dev t b) (xs @ ys) = xs @ filter (\<lambda>b. \<not> due dev s b) ys"
        by (simp_all only: filter_append fx append_Nil)
    qed
    have "\<exists>u. bflush_loop n strat dev t = Ret () u \<and> handed enq (filter (due dev t) (xs @ ys)) t u \<and>
      ring (av_forw u) (av_back u) Free_head (filter (\<lambda>b. \<not> due dev t b) (xs @ ys))"
      by (rule Suc.IH [OF t(3)]) (use Suc.prems(2,3) fl b fx ft(1) in simp_all)
    then obtain u where u: "bflush_loop n strat dev t = Ret () u" "handed enq (filter (due dev s) ys) t u"
      "ring (av_forw u) (av_back u) Free_head (xs @ filter (\<lambda>b. \<not> due dev s b) ys)" unfolding ft by blast
    have "bflush_loop (Suc n) strat dev s = bflush_loop n strat dev t" using fs Some t(1) by simp
    moreover have "handed enq (b # filter (due dev s) ys) s u" by (rule handed_Cons [OF t(2) u(2)]) (use nb in simp)
    moreover have "filter (due dev s) fl = b # filter (due dev s) ys" "filter (\<lambda>b. \<not> due dev s b) fl = xs @ filter (\<lambda>b. \<not> due dev s b) ys"
      unfolding fl filter_append fx using b by simp_all
    ultimately show ?thesis using u(1,3) by (intro exI [of _ u]) (simp only: simp_thms)
  qed
qed simp

section \<open>The ends of the transfers\<close>

lemma finish_run:
  assumes "B_READ \<notin> b_flags s b" "B_ASYNC \<in> b_flags s b" "B_ERROR \<notin> b_flags s b" "b \<noteq> Free_head"
  shows "disk (finish b s) = (disk s)(b_dev s b := (disk s (b_dev s b))(b_blkno s b := b_addr s b))"
    "b_dev (finish b s) = b_dev s" "b_blkno (finish b s) = b_blkno s" "b_addr (finish b s) = b_addr s"
    "c \<noteq> b \<Longrightarrow> c \<noteq> Free_head \<Longrightarrow> b_flags (finish b s) c = b_flags s c"
    "b_flags (finish b s) b = insert B_DONE (b_flags s b) - {B_WANTED, B_BUSY, B_ASYNC, B_AGE}"
  using assms by (auto simp: finish_def transfer_def iodone_def brelse_def flag_on_def flag_off_def awaken_def Let_def)

definition at_block :: "'a bio_scheme \<Rightarrow> u16 \<Rightarrow> u32 \<Rightarrow> bnode \<Rightarrow> bool" where
  "at_block s d k b \<longleftrightarrow> b_dev s b = d \<and> b_blkno s b = k"

lemma finish_all:
  "distinct es \<Longrightarrow> \<forall>b \<in> set es. B_READ \<notin> b_flags s b \<and> B_ASYNC \<in> b_flags s b \<and> B_ERROR \<notin> b_flags s b \<and> b \<noteq> Free_head \<Longrightarrow>
   \<forall>b \<in> set es. \<forall>c \<in> set es. at_block s (b_dev s b) (b_blkno s b) c \<longrightarrow> b = c \<Longrightarrow>
   (\<forall>d k. disk (fold finish es s) d k = (case find (at_block s d k) es of Some b \<Rightarrow> b_addr s b | None \<Rightarrow> disk s d k)) \<and>
   (\<forall>c. c \<noteq> Free_head \<longrightarrow> b_flags (fold finish es s) c =
      (if c \<in> set es then insert B_DONE (b_flags s c) - {B_WANTED, B_BUSY, B_ASYNC, B_AGE} else b_flags s c))"
proof (induction es arbitrary: s)
  case (Cons e es)
  have e: "B_READ \<notin> b_flags s e" "B_ASYNC \<in> b_flags s e" "B_ERROR \<notin> b_flags s e" "e \<noteq> Free_head" using Cons.prems(2) by simp_all
  note f = finish_run [OF e]
  have at: "at_block (finish e s) = at_block s" using f(2,3) by (simp add: at_block_def fun_eq_iff)
  have ne: "e \<notin> set es" using Cons.prems(1) by simp
  have IH: "(\<forall>d k. disk (fold finish es (finish e s)) d k = (case find (at_block (finish e s) d k) es of Some b \<Rightarrow> b_addr (finish e s) b | None \<Rightarrow> disk (finish e s) d k)) \<and>
   (\<forall>c. c \<noteq> Free_head \<longrightarrow> b_flags (fold finish es (finish e s)) c =
      (if c \<in> set es then insert B_DONE (b_flags (finish e s) c) - {B_WANTED, B_BUSY, B_ASYNC, B_AGE} else b_flags (finish e s) c))"
  proof (rule Cons.IH)
    show "\<forall>b \<in> set es. B_READ \<notin> b_flags (finish e s) b \<and> B_ASYNC \<in> b_flags (finish e s) b \<and> B_ERROR \<notin> b_flags (finish e s) b \<and> b \<noteq> Free_head"
    proof
      fix b assume b: "b \<in> set es"
      then have "b \<noteq> e" "b \<noteq> Free_head" using ne Cons.prems(2) by auto
      then show "B_READ \<notin> b_flags (finish e s) b \<and> B_ASYNC \<in> b_flags (finish e s) b \<and> B_ERROR \<notin> b_flags (finish e s) b \<and> b \<noteq> Free_head"
        using f(5) b Cons.prems(2) by simp
    qed
  qed (use Cons.prems f(2,3) at in simp_all)
  have none: "find (at_block s d k) es = None" if "at_block s d k e" for d k
    using Cons.prems(3) ne that unfolding find_None_iff by (auto simp: at_block_def)
  have "disk (fold finish (e # es) s) d k = (case find (at_block s d k) (e # es) of Some b \<Rightarrow> b_addr s b | None \<Rightarrow> disk s d k)" for d k
  proof (cases "at_block s d k e")
    case True
    then show ?thesis using IH none [OF True] f(1) at by (simp add: at_block_def)
  next
    case False
    then show ?thesis using IH f(1,4) at by (auto simp: at_block_def split: option.split)
  qed
  moreover have "b_flags (fold finish (e # es) s) c =
      (if c \<in> set (e # es) then insert B_DONE (b_flags s c) - {B_WANTED, B_BUSY, B_ASYNC, B_AGE} else b_flags s c)" if "c \<noteq> Free_head" for c
    using IH f(5,6) ne that by (cases "c = e") simp_all
  ultimately show ?case by blast
qed simp

section \<open>The property\<close>

text \<open>
  C28. \<open>bflush\<close> of a device, or of all devices, with a driver that only queues and with no buffer held: it ends, and every delayed write
  of the device, and no other buffer, has been given to the driver exactly once, busy, asynchronous and not delayed any more, with its contents as
  they were, and is off the free list, on which all other buffers still are; the disk is as it was. When the driver then has ended the transfers, in whatever order, the
  device on the disk has what it had in the cache and on the disk together, the other devices are unchanged, and the buffers are done and free again.
\<close>

theorem bflush_reaches_disk:
  assumes q: "queueing enq strat" and i: "binv s {}"
  shows "fpost (bflush strat dev s) (\<lambda>_ t. \<exists>ds fl. distinct ds \<and> set ds = {b \<in> pool. B_DELWRI \<in> b_flags s b \<and> (dev = NODEV \<or> dev = b_dev s b)} \<and>
    bio.more t = fold enq ds (bio.more s) \<and> disk t = disk s \<and> b_addr t = b_addr s \<and> b_dev t = b_dev s \<and> b_blkno t = b_blkno s \<and>
    (\<forall>b \<in> set ds. {B_BUSY, B_ASYNC} \<subseteq> b_flags t b \<and> b_flags t b \<inter> {B_READ, B_DONE, B_DELWRI} = {}) \<and> (\<forall>b. b \<notin> set ds \<longrightarrow> b_flags t b = b_flags s b) \<and>
    ring (av_forw t) (av_back t) Free_head fl \<and> set fl = pool - set ds \<and>
    (\<forall>es. distinct es \<and> set es = set ds \<longrightarrow>
      (\<forall>d k. disk (fold finish es t) d k = (if dev = NODEV \<or> d = dev then cont s d k else disk s d k)) \<and>
      (\<forall>b \<in> set ds. b_flags (fold finish es t) b \<inter> {B_BUSY, B_ASYNC, B_DELWRI} = {} \<and> B_DONE \<in> b_flags (fold finish es t) b)))"
proof -
  obtain fl where fl: "ring (av_forw s) (av_back s) Free_head fl" "set fl = pool" using binvD(2) [OF i] by (auto simp: free_ok_def)
  then have dl: "distinct fl" by (simp add: ring_def)
  have "length fl = NBUF" using distinct_card [OF dl] fl(2) by simp
  then have len: "length fl < NBUF + 1" "length (filter (due dev s) fl) < NBUF + 1" using length_filter_le [of "due dev s" fl] by simp_all
  define ds where "ds = filter (due dev s) fl"
  obtain t where t: "bflush strat dev s = Ret () t" "handed enq ds s t" "ring (av_forw t) (av_back t) Free_head (filter (\<lambda>b. \<not> due dev s b) fl)"
    using flush_loop [OF q fl(1) len] unfolding bflush_def ds_def by blast
  have ds: "distinct ds" "set ds = {b \<in> pool. due dev s b}" using dl fl(2) by (auto simp: ds_def)
  have h: "b_flags t = (\<lambda>b. if b \<in> set ds then sent (b_flags s b) else b_flags s b)" "b_addr t = b_addr s" "b_dev t = b_dev s" "b_blkno t = b_blkno s"
    "disk t = disk s" "bio.more t = fold enq ds (bio.more s)" using t(2) by (simp_all add: handed_def)
  have bd: "b_dev s b \<noteq> NODEV" if "b \<in> set ds" for b using binvD(4) [OF i] that ds(2) by (auto simp: flags_ok_def)
  have un: "b = c" if "b \<in> pool" "c \<in> pool" "b_dev s b = b_dev s c" "b_blkno s b = b_blkno s c" "b_dev s b \<noteq> NODEV" for b c
    using binvD(5) [OF i] that unfolding unique_ok_def by blast
  have fin: "(\<forall>d k. disk (fold finish es t) d k = (if dev = NODEV \<or> d = dev then cont s d k else disk s d k)) \<and>
      (\<forall>b \<in> set ds. b_flags (fold finish es t) b \<inter> {B_BUSY, B_ASYNC, B_DELWRI} = {} \<and> B_DONE \<in> b_flags (fold finish es t) b)"
    if es: "distinct es" "set es = set ds" for es
  proof -
    have nh: "b \<noteq> Free_head" if "b \<in> set ds" for b using that ds(2) by auto
    have F: "(\<forall>d k. disk (fold finish es t) d k = (case find (at_block t d k) es of Some b \<Rightarrow> b_addr t b | None \<Rightarrow> disk t d k)) \<and>
     (\<forall>c. c \<noteq> Free_head \<longrightarrow> b_flags (fold finish es t) c =
        (if c \<in> set es then insert B_DONE (b_flags t c) - {B_WANTED, B_BUSY, B_ASYNC, B_AGE} else b_flags t c))"
    proof (rule finish_all [OF es(1)])
      show "\<forall>b \<in> set es. B_READ \<notin> b_flags t b \<and> B_ASYNC \<in> b_flags t b \<and> B_ERROR \<notin> b_flags t b \<and> b \<noteq> Free_head"
        using es(2) nh by (auto simp: h(1) sent_def)
      show "\<forall>b \<in> set es. \<forall>c \<in> set es. at_block t (b_dev t b) (b_blkno t b) c \<longrightarrow> b = c"
        using un es(2) ds(2) bd by (auto simp: at_block_def h(3,4))
    qed
    have "disk (fold finish es t) d k = (if dev = NODEV \<or> d = dev then cont s d k else disk s d k)" for d k
    proof (cases "find (at_block t d k) es")
      case None
      then have no: "\<not> (b \<in> set ds \<and> b_dev s b = d \<and> b_blkno s b = k)" for b
        unfolding find_None_iff using es(2) by (auto simp: at_block_def h(3,4))
      have "cont s d k = disk s d k" if "dev = NODEV \<or> d = dev"
        using no ds(2) that delayed_at_None [of s d k] by (auto simp: cont_def)
      then show ?thesis using F None h(5) by simp
    next
      case (Some b)
      then have b: "b \<in> set ds" "b_dev s b = d" "b_blkno s b = k"
        unfolding find_Some_iff using es(2) by (auto simp: at_block_def h(3,4) dest: nth_mem)
      have pb: "b \<in> pool" "B_DELWRI \<in> b_flags s b" "dev = NODEV \<or> d = dev" using b ds(2) by auto
      have "delayed_at s d k = Some b"
      proof (cases "delayed_at s d k")
        case None
        then show ?thesis using pb b unfolding delayed_at_None by blast
      next
        case (Some c)
        then have "c = b" using delayed_at_Some [OF Some] un [of c b] pb(1) b bd [OF b(1)] by simp
        then show ?thesis using Some by simp
      qed
      then show ?thesis using F Some pb(3) h(2) by (simp add: cont_def)
    qed
    moreover have "b_flags (fold finish es t) b \<inter> {B_BUSY, B_ASYNC, B_DELWRI} = {} \<and> B_DONE \<in> b_flags (fold finish es t) b" if "b \<in> set ds" for b
      using F nh [OF that] that es(2) by (auto simp: h(1) sent_def)
    ultimately show ?thesis by blast
  qed
  have fl': "set (filter (\<lambda>b. \<not> due dev s b) fl) = pool - set ds" using fl(2) ds(2) by auto
  have fs: "\<forall>b \<in> set ds. {B_BUSY, B_ASYNC} \<subseteq> b_flags t b \<and> b_flags t b \<inter> {B_READ, B_DONE, B_DELWRI} = {}" "\<forall>b. b \<notin> set ds \<longrightarrow> b_flags t b = b_flags s b"
    by (auto simp: h(1) sent_def)
  have fin': "\<forall>es. distinct es \<and> set es = set ds \<longrightarrow>
      (\<forall>d k. disk (fold finish es t) d k = (if dev = NODEV \<or> d = dev then cont s d k else disk s d k)) \<and>
      (\<forall>b \<in> set ds. b_flags (fold finish es t) b \<inter> {B_BUSY, B_ASYNC, B_DELWRI} = {} \<and> B_DONE \<in> b_flags (fold finish es t) b)"
    using fin by blast
  show ?thesis unfolding t(1) fpost_Ret
    by (rule exI [of _ ds], rule exI [of _ "filter (\<lambda>b. \<not> due dev s b) fl"]) (intro conjI ds h(2-6) t(3) fl' fs fin')
qed

text \<open>A delayed write of block 7 of the demonstration device, with a driver that never touches the buffers.\<close>

theorem bflush_reaches_disk_witness:
  "\<exists>(s :: bio) b. binv s {} \<and> b \<in> pool \<and> B_DELWRI \<in> b_flags s b \<and>
     fpost (bflush (\<lambda>_ s. s) 0 s) (\<lambda>_ t. B_BUSY \<in> b_flags t b \<and> (\<exists>es. b \<in> set es \<and> disk (fold finish es t) 0 7 = replicate BSIZE 7))"
proof -
  obtain b and s :: bio where s: "binv s {b}" "b_dev s b = 0" "b_blkno s b = 7" "b_addr s b = cont s 0 7" "cont s = cont demo_bio"
    by (rule demo_held) (erule (4) that)
  have nd: "b_dev s b \<noteq> NODEV" using s(2) by (simp add: NODEV_def)
  have b: "b \<in> pool" using binvD(1) [OF s(1)] by simp
  define u where "u = brelse b (flag_on b {B_DELWRI, B_DONE} s)"
  have "B_TAPE \<notin> b_flags s (Dev (major (b_dev s b)))" using binvD(4) [OF s(1)] by (simp add: flags_ok_def)
  then have e: "bdwrite demo_driver b s = Ret () u" by (simp add: bdwrite_def u_def)
  have iu: "binv u {}" "cont u 0 7 = replicate BSIZE 7"
    using bdwrite_keeps [OF s(1) insertI1 nd, of demo_driver] unfolding e fpost_Ret by (simp_all add: s demo_bio(2))
  have du: "B_DELWRI \<in> b_flags u b" "b_dev u b = 0"
    using held_flags(3) [OF s(1) insertI1] s(2) by (auto simp: u_def brelse_def flag_on_def flag_off_def awaken_def Let_def)
  have q: "queueing (\<lambda>_ m. m) (\<lambda>_ s. s)" by (simp add: queueing_def)
  have "fpost (bflush (\<lambda>_ s. s) 0 u) (\<lambda>_ t. B_BUSY \<in> b_flags t b \<and> (\<exists>es. b \<in> set es \<and> disk (fold finish es t) 0 7 = replicate BSIZE 7))"
  proof (rule fpost_mono [OF bflush_reaches_disk [OF q iu(1), of 0]], elim exE conjE, intro conjI exI)
    fix t :: bio and ds
    assume d: "distinct ds" "set ds = {b \<in> pool. B_DELWRI \<in> b_flags u b \<and> (0 = NODEV \<or> 0 = b_dev u b)}" "\<forall>b \<in> set ds. {B_BUSY, B_ASYNC} \<subseteq> b_flags t b \<and> b_flags t b \<inter> {B_READ, B_DONE, B_DELWRI} = {}"
      and f: "\<forall>es. distinct es \<and> set es = set ds \<longrightarrow> (\<forall>d k. disk (fold finish es t) d k = (if 0 = NODEV \<or> d = 0 then cont u d k else disk u d k)) \<and>
        (\<forall>b \<in> set ds. b_flags (fold finish es t) b \<inter> {B_BUSY, B_ASYNC, B_DELWRI} = {} \<and> B_DONE \<in> b_flags (fold finish es t) b)"
    show bs: "b \<in> set ds" unfolding d(2) using b du by simp
    then show "B_BUSY \<in> b_flags t b" using d(3) by blast
    show "disk (fold finish ds t) 0 7 = replicate BSIZE 7" using f d(1) iu(2) by simp
  qed
  then show ?thesis using iu(1) b du(1) by blast
qed

end
