(* ===== verification/Alloc.thy ===== *)
theory Alloc
  imports Layout Bio
begin

text \<open>
  The allocation of disk blocks (\<open>sys/alloc.c\<close>): the super blocks in core with the chained list of free blocks, \<open>alloc\<close>, \<open>free\<close> and the
  list of free i-nodes of \<open>ifree\<close>. The properties are that the free list is a stack, across the blocks of the disk that hold parts of
  it, and that a block given out is always in the range of the file system.
\<close>

unbundle bit_operations_syntax

section \<open>The program: super blocks\<close>

text \<open>
  A super block in core is the content of a buffer that \<open>mount\<close> keeps, seen as a structure; \<open>s_rest\<close> is what follows the time.
  The messages that \<open>prdev\<close> puts on the console are kept, the last one first.
\<close>

definition NICFREE :: nat where "NICFREE = 50"
definition NICINOD :: nat where "NICINOD = 100"
definition NMOUNT :: nat where "NMOUNT = 8"
definition PINOD :: int where "PINOD = 10"
definition ENOSPC :: u8 where "ENOSPC = 28"

record filsys =
  s_isize :: u16
  s_fsize :: u32
  s_nfree :: u16
  s_free :: "u32 list"
  s_ninode :: u16
  s_inode :: "u16 list"
  s_flock :: u8
  s_ilock :: u8
  s_fmod :: u8
  s_ronly :: u8
  s_time :: u32
  s_rest :: "u8 list"

record mount =
  m_dev :: u16
  m_bufp :: "bnode option"
  m_inodp :: "nat option"

record alc = bio +
  mounts :: "nat \<Rightarrow> mount"
  b_filsys :: "bnode \<Rightarrow> filsys"
  console :: "(string \<times> u16) list"

definition prdev :: "string \<Rightarrow> u16 \<Rightarrow> 'a alc_scheme \<Rightarrow> 'a alc_scheme" where
  "prdev str dev s = s\<lparr>console := (str, dev) # console s\<rparr>"

definition fs_upd :: "bnode \<Rightarrow> (filsys \<Rightarrow> filsys) \<Rightarrow> 'a alc_scheme \<Rightarrow> 'a alc_scheme" where
  "fs_upd fp g s = s\<lparr>b_filsys := (b_filsys s)(fp := g (b_filsys s fp))\<rparr>"

definition getfs :: "u16 \<Rightarrow> 'a alc_scheme \<Rightarrow> (bnode, 'a alc_scheme) fres" where
  "getfs dev s =
     (case find (\<lambda>i. m_bufp (mounts s i) \<noteq> None \<and> m_dev (mounts s i) = dev) [0..<NMOUNT] of
        None \<Rightarrow> Panics ''no fs''
      | Some i \<Rightarrow>
          let fp = the (m_bufp (mounts s i)) in
          if sint (s_nfree (b_filsys s fp)) > int NICFREE \<or> sint (s_ninode (b_filsys s fp)) > int NICINOD
          then Ret fp (fs_upd fp (\<lambda>f. f\<lparr>s_nfree := 0, s_ninode := 0\<rparr>) (prdev ''bad count'' dev s))
          else Ret fp s)"

definition badblock :: "bnode \<Rightarrow> u32 \<Rightarrow> u16 \<Rightarrow> 'a alc_scheme \<Rightarrow> bool \<times> 'a alc_scheme" where
  "badblock fp bn dev s =
     (if sint bn < uint (s_isize (b_filsys s fp)) \<or> sint bn \<ge> sint (s_fsize (b_filsys s fp))
      then (True, prdev ''bad block'' dev s) else (False, s))"

section \<open>The program: free blocks\<close>

text \<open>A block of the free list, as it is on the disk: a count and \<open>NICFREE\<close> addresses.\<close>

definition df_nfree :: "u8 list \<Rightarrow> u16" where
  "df_nfree b = bytes_int (get_bytes 0 2 b)"

definition df_free :: "u8 list \<Rightarrow> u32 list" where
  "df_free b = bytes_longs NICFREE (get_bytes 2 (4 * NICFREE) b)"

definition fblk_bytes :: "u16 \<Rightarrow> u32 list \<Rightarrow> u8 list" where
  "fblk_bytes n fr = int_bytes n @ longs_bytes fr"

text \<open>\<open>do ... while (badblock(fp, bno, dev))\<close>: the block taken from the list in core, or None where the code goes to \<open>nospace\<close>.\<close>

function alloc_pick :: "u16 \<Rightarrow> bnode \<Rightarrow> 'a alc_scheme \<Rightarrow> u32 option \<times> 'a alc_scheme" where
  "alloc_pick dev fp s =
     (if sint (s_nfree (b_filsys s fp)) \<le> 0 then (None, s)
      else if sint (s_nfree (b_filsys s fp)) > int NICFREE then (None, prdev ''Bad free count'' dev s)
      else
        let s = fs_upd fp (\<lambda>f. f\<lparr>s_nfree := s_nfree f - 1\<rparr>) s;
            bno = s_free (b_filsys s fp) ! unat (s_nfree (b_filsys s fp))
        in if bno = 0 then (None, s)
           else if fst (badblock fp bno dev s) then alloc_pick dev fp (snd (badblock fp bno dev s)) else (Some bno, s))"
  by pat_completeness auto

lemma sint_pred: "0 < sint w \<Longrightarrow> sint (w - 1) = sint w - 1" for w :: "16 word"
  using sint_ge [of w] sint_lt [of w] by (simp add: sint_word_ariths signed_take_bit_int_eq_self)

termination alloc_pick
  by (relation "measure (\<lambda>(dev, fp, s). nat (sint (s_nfree (b_filsys s fp))))") (auto simp: fs_upd_def badblock_def prdev_def sint_pred split: if_splits)

declare alloc_pick.simps [simp del]

definition nospace :: "u16 \<Rightarrow> bnode \<Rightarrow> 'a alc_scheme \<Rightarrow> (bnode option, 'a alc_scheme) fres" where
  "nospace dev fp s = Ret None ((prdev ''no space'' dev (fs_upd fp (\<lambda>f. f\<lparr>s_nfree := 0\<rparr>) s))\<lparr>u_error := ENOSPC\<rparr>)"

definition alloc_refill :: "'a alc_ext strategy \<Rightarrow> u16 \<Rightarrow> bnode \<Rightarrow> u32 \<Rightarrow> 'a alc_scheme \<Rightarrow> (unit, 'a alc_scheme) fres" where
  "alloc_refill strat dev fp bno s =
     (let s = fs_upd fp (\<lambda>f. f\<lparr>s_flock := s_flock f + 1\<rparr>) s in
      fbind (bread strat dev bno s) (\<lambda>bp s.
        let s = (if B_ERROR \<notin> b_flags s bp
                 then fs_upd fp (\<lambda>f. f\<lparr>s_nfree := df_nfree (b_addr s bp), s_free := df_free (b_addr s bp)\<rparr>) s else s);
            s = brelse bp s;
            s = fs_upd fp (\<lambda>f. f\<lparr>s_flock := 0\<rparr>) s
        in Ret () (awaken (Ch_flock dev) s)))"

definition alloc_clear :: "'a alc_ext strategy \<Rightarrow> u16 \<Rightarrow> bnode \<Rightarrow> u32 \<Rightarrow> 'a alc_scheme \<Rightarrow> (bnode option, 'a alc_scheme) fres" where
  "alloc_clear strat dev fp bno s =
     fbind (getblk strat dev bno s) (\<lambda>bp s. Ret (Some bp) (fs_upd fp (\<lambda>f. f\<lparr>s_fmod := 1\<rparr>) (clrbuf bp s)))"

definition alloc :: "'a alc_ext strategy \<Rightarrow> u16 \<Rightarrow> 'a alc_scheme \<Rightarrow> (bnode option, 'a alc_scheme) fres" where
  "alloc strat dev s =
     fbind (getfs dev s) (\<lambda>fp s.
       if s_flock (b_filsys s fp) \<noteq> 0 then Asleep (Ch_flock dev) PINOD s
       else case alloc_pick dev fp s of
         (None, s) \<Rightarrow> nospace dev fp s
       | (Some bno, s) \<Rightarrow>
           if sint (s_nfree (b_filsys s fp)) \<le> 0
           then fbind (alloc_refill strat dev fp bno s) (\<lambda>_ s.
                  if sint (s_nfree (b_filsys s fp)) \<le> 0 then nospace dev fp s else alloc_clear strat dev fp bno s)
           else alloc_clear strat dev fp bno s)"

definition free_spill :: "'a alc_ext strategy \<Rightarrow> u16 \<Rightarrow> bnode \<Rightarrow> u32 \<Rightarrow> 'a alc_scheme \<Rightarrow> (unit, 'a alc_scheme) fres" where
  "free_spill strat dev fp bno s =
     (let s = fs_upd fp (\<lambda>f. f\<lparr>s_flock := s_flock f + 1\<rparr>) s in
      fbind (getblk strat dev bno s) (\<lambda>bp s.
        let f = b_filsys s fp;
            s = s\<lparr>b_addr := (b_addr s)(bp := put_bytes 0 (fblk_bytes (s_nfree f) (s_free f)) (b_addr s bp))\<rparr>;
            s = fs_upd fp (\<lambda>f. f\<lparr>s_nfree := 0\<rparr>) s
        in fbind (bwrite strat bp s) (\<lambda>_ s.
             Ret () (awaken (Ch_flock dev) (fs_upd fp (\<lambda>f. f\<lparr>s_flock := 0\<rparr>) s)))))"

definition free_push :: "bnode \<Rightarrow> u32 \<Rightarrow> 'a alc_scheme \<Rightarrow> 'a alc_scheme" where
  "free_push fp bno s =
     fs_upd fp (\<lambda>f. f\<lparr>s_free := (s_free f)[unat (s_nfree f) := bno], s_nfree := s_nfree f + 1, s_fmod := 1\<rparr>) s"

definition free :: "'a alc_ext strategy \<Rightarrow> u16 \<Rightarrow> u32 \<Rightarrow> 'a alc_scheme \<Rightarrow> (unit, 'a alc_scheme) fres" where
  "free strat dev bno s =
     fbind (getfs dev s) (\<lambda>fp s.
       let s = fs_upd fp (\<lambda>f. f\<lparr>s_fmod := 1\<rparr>) s in
       if s_flock (b_filsys s fp) \<noteq> 0 then Asleep (Ch_flock dev) PINOD s
       else case badblock fp bno dev s of (bad, s) \<Rightarrow>
         if bad then Ret () s
         else
           let s = (if sint (s_nfree (b_filsys s fp)) \<le> 0
                    then fs_upd fp (\<lambda>f. f\<lparr>s_nfree := 1, s_free := (s_free f)[0 := 0]\<rparr>) s else s)
           in fbind (if sint (s_nfree (b_filsys s fp)) \<ge> int NICFREE then free_spill strat dev fp bno s else Ret () s) (\<lambda>_ s.
                Ret () (free_push fp bno s)))"

section \<open>The program: free i-nodes of the super block\<close>

definition ifree :: "u16 \<Rightarrow> u16 \<Rightarrow> 'a alc_scheme \<Rightarrow> (unit, 'a alc_scheme) fres" where
  "ifree dev ino s =
     fbind (getfs dev s) (\<lambda>fp s.
       let f = b_filsys s fp in
       if s_ilock f \<noteq> 0 then Ret () s
       else if sint (s_ninode f) \<ge> int NICINOD then Ret () s
       else Ret () (fs_upd fp (\<lambda>f. f\<lparr>s_inode := (s_inode f)[unat (s_ninode f) := ino], s_ninode := s_ninode f + 1, s_fmod := 1\<rparr>) s))"

text \<open>A negative count would make the code store in front of the list; the list is then left as it is here.\<close>

section \<open>What the routines keep\<close>

text \<open>The buffer cache does not see the new fields.\<close>

lemma binv_alc [simp]:
  "binv (s\<lparr>b_filsys := x\<rparr>) H = binv s H" "binv (s\<lparr>console := y\<rparr>) H = binv s H" "binv (s\<lparr>u_error := e\<rparr>) H = binv s H" "binv (s\<lparr>wakeups := w\<rparr>) H = binv s H"
  by (simp_all add: binv_def free_ok_def lists_ok_def on_lists_def heads_def home_def usable_def flags_ok_def unique_ok_def data_ok_def sizes_ok_def)

lemma cont_alc [simp]:
  "cont (s\<lparr>b_filsys := x\<rparr>) = cont s" "cont (s\<lparr>console := y\<rparr>) = cont s" "cont (s\<lparr>u_error := e\<rparr>) = cont s" "cont (s\<lparr>wakeups := w\<rparr>) = cont s"
  by (simp_all add: cont_def delayed_at_def fun_eq_iff split: option.split)

lemma usable_alc [simp]:
  "usable (s\<lparr>b_filsys := x\<rparr>) = usable s" "usable (s\<lparr>console := y\<rparr>) = usable s" "usable (s\<lparr>u_error := e\<rparr>) = usable s" "usable (s\<lparr>wakeups := w\<rparr>) = usable s"
  by (simp_all add: usable_def fun_eq_iff)

lemma bio_only_alc:
  "bio_only s t \<Longrightarrow> mounts t = mounts s \<and> b_filsys t = b_filsys s \<and> console t = console s \<and> alc.more t = alc.more s"
  by (cases s; cases t) (simp add: bio_only_def)

text \<open>What the allocator leaves alone: everything but the blocks, the super block \<open>fp\<close>, the console and the error.\<close>

definition alc_only :: "bnode \<Rightarrow> 'a alc_scheme \<Rightarrow> 'a alc_scheme \<Rightarrow> bool" where
  "alc_only fp s t \<longleftrightarrow> u_base t = u_base s \<and> u_count t = u_count s \<and> u_offset t = u_offset s \<and> u_segflg t = u_segflg s \<and> u_mem t = u_mem s \<and>
     nblkdev t = nblkdev s \<and> has_tab t = has_tab s \<and> mounts t = mounts s \<and> (\<forall>q. q \<noteq> fp \<longrightarrow> b_filsys t q = b_filsys s q) \<and> alc.more t = alc.more s"

lemma alc_only_refl [simp]: "alc_only fp s s" by (simp add: alc_only_def)
lemma alc_only_trans: "alc_only fp s t \<Longrightarrow> alc_only fp t u \<Longrightarrow> alc_only fp s u" by (simp add: alc_only_def)

lemma alc_only_bio: "bio_only s t \<Longrightarrow> alc_only fp s t"
  using bio_only_alc [of s t] by (simp add: alc_only_def bio_only_def)

lemma alc_only_usable: "alc_only fp s t \<Longrightarrow> usable t = usable s"
  by (auto simp: alc_only_def usable_def fun_eq_iff)

text \<open>Held buffers may be changed in core; this is seen by nobody, unless they are delayed writes.\<close>

lemma cont_len: "binv s H \<Longrightarrow> length (cont s d k) = BSIZE"
  using binv_len [of s H] delayed_at_Some [of s d k] by (simp add: cont_def split: option.split)

lemma held_edit:
  assumes i: "binv s H" and b: "b \<in> H" and v: "length v = BSIZE" and rz: "\<forall>b \<in> pool. r b = 0" and t: "t = s\<lparr>b_addr := (b_addr s)(b := v), b_resid := r\<rparr>"
  shows "binv t H" "cont t d k = (if B_DELWRI \<in> b_flags s b \<and> d = b_dev s b \<and> k = b_blkno s b then v else cont s d k)" "bio_only s t"
    "c \<noteq> b \<Longrightarrow> same_buf c s t"
proof -
  have bp: "b \<in> pool" using binvD(1) [OF i] b by blast
  show "binv t H"
  proof -
    have "free_ok t H = free_ok s H" "lists_ok t = lists_ok s" "flags_ok t H = flags_ok s H" "unique_ok t = unique_ok s"
      unfolding t by (simp_all add: free_ok_def lists_ok_def on_lists_def heads_def home_def usable_def flags_ok_def unique_ok_def)
    moreover have "data_ok t H" using binvD(6) [OF i] b unfolding t data_ok_def by auto
    moreover have "sizes_ok t" using binvD(7) [OF i] v rz unfolding t by (simp add: sizes_ok_def)
    ultimately show ?thesis using binvD [OF i] by (simp add: binv_def)
  qed
  have da: "cont t d k = (case delayed_at s d k of Some c \<Rightarrow> if c = b then v else b_addr s c | None \<Rightarrow> disk s d k)"
    unfolding t by (simp add: cont_def delayed_at_def split: option.split)
  show "cont t d k = (if B_DELWRI \<in> b_flags s b \<and> d = b_dev s b \<and> k = b_blkno s b then v else cont s d k)"
  proof (cases "delayed_at s d k = Some b")
    case True
    then show ?thesis using delayed_at_Some [OF True] unfolding da by simp
  next
    case False
    have "\<not> (B_DELWRI \<in> b_flags s b \<and> d = b_dev s b \<and> k = b_blkno s b)"
    proof
      assume a: "B_DELWRI \<in> b_flags s b \<and> d = b_dev s b \<and> k = b_blkno s b"
      then have "b_dev s b \<noteq> NODEV" using binvD(4) [OF i] bp unfolding flags_ok_def by blast
      then show False using delayed_unique [OF binvD(5) [OF i] bp] a False by simp
    qed
    moreover have "cont t d k = cont s d k" using False unfolding da by (simp add: cont_def split: option.split)
    ultimately show ?thesis by (simp only: if_False)
  qed
  show "bio_only s t" "c \<noteq> b \<Longrightarrow> same_buf c s t" unfolding t by (simp_all add: bio_only_def same_buf_def)
qed

section \<open>The chain of free blocks\<close>

text \<open>
  \<open>chain c n fr L\<close>: with \<open>n\<close> addresses in the list \<open>fr\<close> and the contents \<open>c\<close> of the blocks, \<open>L\<close> are the free blocks in the order in which
  they are given out: the addresses from the last one down; the first one is the block that holds the next part of the chain, or zero.
\<close>

inductive chain :: "(u32 \<Rightarrow> u8 list) \<Rightarrow> nat \<Rightarrow> u32 list \<Rightarrow> u32 list \<Rightarrow> bool" for c :: "u32 \<Rightarrow> u8 list" where
  chain_none: "chain c 0 fr []"
| chain_end: "0 < n \<Longrightarrow> n \<le> NICFREE \<Longrightarrow> fr ! 0 = 0 \<Longrightarrow> chain c n fr (rev (tl (take n fr)))"
| chain_link: "0 < n \<Longrightarrow> n \<le> NICFREE \<Longrightarrow> fr ! 0 \<noteq> 0 \<Longrightarrow> unat (df_nfree (c (fr ! 0))) \<noteq> 0 \<Longrightarrow>
     chain c (unat (df_nfree (c (fr ! 0)))) (df_free (c (fr ! 0))) L \<Longrightarrow> chain c n fr (rev (tl (take n fr)) @ fr ! 0 # L)"

lemma length_df_free [simp]: "length (df_free b) = NICFREE"
  by (simp add: df_free_def)

lemma tl_take_1 [simp]: "tl (take (Suc 0) fr) = []"
  by (cases fr) auto

lemma rev_tl_take:
  assumes "1 < n" "n \<le> length fr"
  shows "rev (tl (take n fr)) = fr ! (n - 1) # rev (tl (take (n - 1) fr))"
proof -
  obtain m where m: "n = Suc m" "0 < m" using assms(1) by (cases n) auto
  then have "take n fr = take m fr @ [fr ! m]" using assms(2) by (simp add: take_Suc_conv_app_nth)
  moreover have "take m fr \<noteq> []" using m assms by auto
  ultimately show ?thesis using m by simp
qed

lemma chain_head:
  assumes "chain c n fr (b # L)" "length fr = NICFREE"
  shows "0 < n \<and> n \<le> NICFREE \<and> fr ! (n - 1) = b \<and> (1 < n \<longrightarrow> chain c (n - 1) fr L) \<and>
    (n = 1 \<longrightarrow> unat (df_nfree (c b)) \<noteq> 0 \<and> chain c (unat (df_nfree (c b))) (df_free (c b)) L)"
  using assms(1)
proof (cases rule: chain.cases)
  case chain_end
  then have n1: "1 < n" by (cases "n = 1") auto
  then have "b = fr ! (n - 1)" "L = rev (tl (take (n - 1) fr))" using chain_end assms(2) by (simp_all add: rev_tl_take)
  then show ?thesis using chain_end n1 chain.chain_end [of "n - 1" fr c] by simp
next
  case (chain_link L')
  show ?thesis
  proof (cases "n = 1")
    case True
    then show ?thesis using chain_link by simp
  next
    case False
    then have n1: "1 < n" using chain_link by simp
    then have "b = fr ! (n - 1)" "L = rev (tl (take (n - 1) fr)) @ fr ! 0 # L'" using chain_link assms(2) by (simp_all add: rev_tl_take)
    then show ?thesis using chain_link n1 chain.chain_link [of "n - 1" fr c L'] by simp
  qed
qed

lemma chain_nil: "chain c n fr [] \<Longrightarrow> length fr = NICFREE \<Longrightarrow> n = 0 \<or> n = 1 \<and> fr ! 0 = 0"
proof (cases rule: chain.cases, assumption)
  assume "length fr = NICFREE" "[] = rev (tl (take n fr))" "0 < n" "n \<le> NICFREE" "fr ! 0 = 0"
  then show ?thesis by (cases "1 < n") (simp_all add: rev_tl_take)
qed simp_all

lemma chain_zero: "chain c 0 fr L \<longleftrightarrow> L = []"
  by (auto elim: chain.cases intro: chain.chain_none)

lemma free_chain_cong:
  "chain c n fr L \<Longrightarrow> (\<forall>b \<in> set L. c' b = c b) \<Longrightarrow> chain c' n fr L"
proof (induction rule: chain.induct)
  case (chain_link n fr L)
  then have e: "c' (fr ! 0) = c (fr ! 0)" by simp
  show ?case by (rule chain.chain_link) (use chain_link in \<open>simp_all add: e\<close>)
qed (auto intro: chain.intros)

lemma chain_push:
  assumes "chain c n fr L" "0 < n" "n < NICFREE" "length fr = NICFREE"
  shows "chain c (n + 1) (fr[n := b]) (b # L)"
proof -
  have t: "rev (tl (take (n + 1) (fr[n := b]))) = b # rev (tl (take n fr))" using assms by (subst rev_tl_take) simp_all
  have z: "fr[n := b] ! 0 = fr ! 0" using assms(2) by simp
  show ?thesis using assms(1)
  proof (cases rule: chain.cases)
    case chain_end
    then show ?thesis using chain.chain_end [of "n + 1" "fr[n := b]" c] assms(3) unfolding t z by simp
  next
    case (chain_link L')
    then show ?thesis using chain.chain_link [of "n + 1" "fr[n := b]" c L'] assms(3) unfolding t z by simp
  qed (use assms in simp)
qed

lemma chain_spill:
  assumes "chain c NICFREE fr L" "length fr = NICFREE" "b \<noteq> 0" "df_nfree (c b) = of_nat NICFREE" "df_free (c b) = fr" "0 < length fr'"
  shows "chain c 1 (fr'[0 := b]) (b # L)"
proof -
  show ?thesis using chain.chain_link [of 1 "fr'[0 := b]" c L] assms by (simp add: NICFREE_def)
qed

lemma df_fblk:
  assumes "length fr = NICFREE"
  shows "length b = BSIZE \<Longrightarrow> length (put_bytes 0 (fblk_bytes n fr) b) = BSIZE" "df_nfree (put_bytes 0 (fblk_bytes n fr) b) = n" "df_free (put_bytes 0 (fblk_bytes n fr) b) = fr"
proof -
  show "length b = BSIZE \<Longrightarrow> length (put_bytes 0 (fblk_bytes n fr) b) = BSIZE"
    using assms by (simp add: put_bytes_def fblk_bytes_def NICFREE_def BSIZE_def)
  have "put_bytes 0 (fblk_bytes n fr) b = int_bytes n @ longs_bytes fr @ drop 202 b"
    using assms by (simp add: put_bytes_def fblk_bytes_def NICFREE_def)
  moreover have "get_bytes 0 2 (int_bytes n @ r) = int_bytes n" "get_bytes 2 k (int_bytes n @ r) = take k r" for k r
    by (simp_all add: get_bytes_def)
  ultimately show "df_nfree (put_bytes 0 (fblk_bytes n fr) b) = n" "df_free (put_bytes 0 (fblk_bytes n fr) b) = fr"
    using bytes_longs_bytes [of fr "[]"] assms by (simp_all add: df_nfree_def df_free_def)
qed

section \<open>What alloc and free do\<close>

definition counts_ok :: "filsys \<Rightarrow> bool" where
  "counts_ok f \<longleftrightarrow> unat (s_nfree f) \<le> NICFREE \<and> unat (s_ninode f) \<le> NICINOD \<and> length (s_free f) = NICFREE \<and> length (s_inode f) = NICINOD"

definition in_range :: "filsys \<Rightarrow> u32 \<Rightarrow> bool" where
  "in_range f b \<longleftrightarrow> uint (s_isize f) \<le> sint b \<and> sint b < sint (s_fsize f)"

definition fs_at :: "'a alc_scheme \<Rightarrow> u16 \<Rightarrow> bnode option" where
  "fs_at s dev = map_option (\<lambda>i. the (m_bufp (mounts s i))) (find (\<lambda>i. m_bufp (mounts s i) \<noteq> None \<and> m_dev (mounts s i) = dev) [0..<NMOUNT])"

text \<open>\<open>fs_free s dev fp L\<close>: the file system of \<open>dev\<close> has the super block \<open>fp\<close>, not locked, and the free blocks \<open>L\<close>.\<close>

definition fs_free :: "'a alc_scheme \<Rightarrow> u16 \<Rightarrow> bnode \<Rightarrow> u32 list \<Rightarrow> bool" where
  "fs_free s dev fp L \<longleftrightarrow> fs_at s dev = Some fp \<and> s_flock (b_filsys s fp) = 0 \<and> counts_ok (b_filsys s fp) \<and>
     chain (cont s dev) (unat (s_nfree (b_filsys s fp))) (s_free (b_filsys s fp)) L \<and> distinct L \<and>
     (\<forall>b \<in> set L. b \<noteq> 0 \<and> in_range (b_filsys s fp) b)"

lemma sint_unat: "unat w \<le> 1000 \<Longrightarrow> sint w = int (unat w)" for w :: "16 word"
proof -
  assume a: "unat w \<le> 1000"
  have "uint w \<le> 1000" using a unfolding unat_eq_nat_uint by linarith
  then have "uint w < 2 ^ (LENGTH(16) - 1)" by simp
  then have "sint w = uint w" unfolding sint_uint by (intro signed_take_bit_int_eq_self order_trans [OF _ uint_ge_0]) simp_all
  then show ?thesis by simp
qed

lemma sint_small:
  fixes w :: "16 word"
  assumes "unat w \<le> 1000"
  shows "sint w \<le> 0 \<longleftrightarrow> unat w = 0" "0 < sint w \<longleftrightarrow> 0 < unat w" "int n < sint w \<longleftrightarrow> n < unat w" "int n \<le> sint w \<longleftrightarrow> n \<le> unat w"
  unfolding sint_unat [OF assms] by (simp_all only: zero_less_imp_eq_int of_nat_0_less_iff of_nat_less_iff of_nat_le_iff of_nat_le_0_iff)

lemma getfs_fine:
  assumes "fs_at s dev = Some fp" "counts_ok (b_filsys s fp)"
  shows "getfs dev s = Ret fp s"
proof -
  have n: "unat (s_nfree (b_filsys s fp)) \<le> 1000" "unat (s_ninode (b_filsys s fp)) \<le> 1000"
    using assms(2) by (simp_all add: counts_ok_def NICFREE_def NICINOD_def)
  have "\<not> (int NICFREE < sint (s_nfree (b_filsys s fp)) \<or> int NICINOD < sint (s_ninode (b_filsys s fp)))"
    using assms(2) unfolding sint_small [OF n(1)] sint_small [OF n(2)] by (simp add: counts_ok_def)
  then show ?thesis using assms(1) by (auto simp: getfs_def fs_at_def Let_def)
qed

lemma badblock_fine: "in_range (b_filsys s fp) b \<Longrightarrow> badblock fp b dev s = (False, s)"
  by (simp add: badblock_def in_range_def not_less not_le)

lemma unat_pred: "0 < unat w \<Longrightarrow> unat (w - 1) = unat w - 1" for w :: "'a::len word"
  by (metis gr_implies_not0 unat_0 unat_minus_one)

lemma alloc_pick_first:
  assumes f: "counts_ok (b_filsys s fp)" "chain c (unat (s_nfree (b_filsys s fp))) (s_free (b_filsys s fp)) (b # L)"
    and b: "b \<noteq> 0" "in_range (b_filsys s fp) b"
  shows "alloc_pick dev fp s = (Some b, fs_upd fp (\<lambda>f. f\<lparr>s_nfree := s_nfree f - 1\<rparr>) s)"
proof -
  have ln: "length (s_free (b_filsys s fp)) = NICFREE" "unat (s_nfree (b_filsys s fp)) \<le> 1000" using f(1) by (simp_all add: counts_ok_def NICFREE_def)
  note h = chain_head [OF f(2) ln(1)]
  have n: "0 < sint (s_nfree (b_filsys s fp))" "sint (s_nfree (b_filsys s fp)) \<le> int NICFREE" using h unfolding not_less [symmetric] sint_small [OF ln(2)] by simp_all
  have "badblock fp b dev (fs_upd fp (\<lambda>f. f\<lparr>s_nfree := s_nfree f - 1\<rparr>) s) = (False, fs_upd fp (\<lambda>f. f\<lparr>s_nfree := s_nfree f - 1\<rparr>) s)"
    by (rule badblock_fine) (use b(2) in \<open>simp add: fs_upd_def in_range_def\<close>)
  moreover have "s_free (b_filsys s fp) ! unat (s_nfree (b_filsys s fp) - 1) = b" using h by (simp add: unat_pred)
  ultimately show ?thesis using n b(1) by (subst alloc_pick.simps) (simp add: fs_upd_def Let_def)
qed

lemma alloc_pick_none:
  assumes f: "counts_ok (b_filsys s fp)" "chain c (unat (s_nfree (b_filsys s fp))) (s_free (b_filsys s fp)) []"
  shows "\<exists>n. alloc_pick dev fp s = (None, fs_upd fp (\<lambda>f. f\<lparr>s_nfree := n\<rparr>) s)"
proof -
  have ln: "length (s_free (b_filsys s fp)) = NICFREE" "unat (s_nfree (b_filsys s fp)) \<le> 1000" using f(1) by (simp_all add: counts_ok_def NICFREE_def)
  from chain_nil [OF f(2) ln(1)] show ?thesis
  proof
    assume "unat (s_nfree (b_filsys s fp)) = 0"
    then have "alloc_pick dev fp s = (None, s)" by (subst alloc_pick.simps) (simp add: sint_small [OF ln(2)])
    moreover have "s = fs_upd fp (\<lambda>f. f\<lparr>s_nfree := s_nfree (b_filsys s fp)\<rparr>) s" by (simp add: fs_upd_def)
    ultimately show ?thesis by metis
  next
    assume a: "unat (s_nfree (b_filsys s fp)) = 1 \<and> s_free (b_filsys s fp) ! 0 = 0"
    then have "s_nfree (b_filsys s fp) = 1" using word_unat_eq_iff [of "s_nfree (b_filsys s fp)" 1] by simp
    then have "alloc_pick dev fp s = (None, fs_upd fp (\<lambda>f. f\<lparr>s_nfree := 0\<rparr>) s)"
      using a by (subst alloc_pick.simps) (simp add: fs_upd_def Let_def NICFREE_def)
    then show ?thesis by blast
  qed
qed

text \<open>
  The block \<open>b\<close> of \<open>dev\<close> has been got: a buffer \<open>bp\<close> for it is held and is all zero; no other block has changed, and of the super block
  only the free list with its lock and the flag \<open>s_fmod\<close>.
\<close>

definition sb_kept :: "filsys \<Rightarrow> filsys \<Rightarrow> bool" where
  "sb_kept f g \<longleftrightarrow> g = f\<lparr>s_nfree := s_nfree g, s_free := s_free g, s_flock := s_flock g, s_fmod := s_fmod g\<rparr>"

lemma sb_kept_refl [simp]: "sb_kept f f" by (simp add: sb_kept_def)
lemma sb_kept_trans: "sb_kept f g \<Longrightarrow> sb_kept g h \<Longrightarrow> sb_kept f h" by (cases f; cases g; cases h) (simp add: sb_kept_def)

lemma sb_kept_upd [simp]:
  "sb_kept f (f\<lparr>s_nfree := n\<rparr>)" "sb_kept f (f\<lparr>s_fmod := m\<rparr>)" "sb_kept f (f\<lparr>s_nfree := n, s_free := fr, s_flock := l\<rparr>)"
  by (cases f; simp add: sb_kept_def)+

definition allocated :: "u16 \<Rightarrow> u32 \<Rightarrow> bnode \<Rightarrow> bnode set \<Rightarrow> 'a alc_scheme \<Rightarrow> bnode \<Rightarrow> 'a alc_scheme \<Rightarrow> bool" where
  "allocated dev b fp H s bp t \<longleftrightarrow> bp \<notin> H \<and> binv t (insert bp H) \<and> b_dev t bp = dev \<and> b_blkno t bp = b \<and> b_addr t bp = replicate BSIZE 0 \<and>
     (\<forall>d k. (d, k) \<noteq> (dev, b) \<longrightarrow> cont t d k = cont s d k) \<and> (\<forall>c \<in> H. same_buf c s t) \<and> alc_only fp s t \<and> u_error t = u_error s \<and>
     sb_kept (b_filsys s fp) (b_filsys t fp) \<and> console t = console s"

definition not_held :: "'a alc_scheme \<Rightarrow> bnode set \<Rightarrow> u16 \<Rightarrow> u32 \<Rightarrow> bool" where
  "not_held s H dev b \<longleftrightarrow> (\<forall>c \<in> H. \<not> (b_dev s c = dev \<and> b_blkno s c = b))"

lemma same_buf_alc [simp]:
  "same_buf c s (t\<lparr>b_filsys := x\<rparr>) = same_buf c s t" "same_buf c (s\<lparr>b_filsys := x\<rparr>) t = same_buf c s t"
  "same_buf c s (t\<lparr>wakeups := w\<rparr>) = same_buf c s t" "same_buf c s (t\<lparr>console := y\<rparr>) = same_buf c s t" "same_buf c s (t\<lparr>u_error := e\<rparr>) = same_buf c s t"
  by (simp_all add: same_buf_def)

lemma fs_upd_simps [simp]:
  "binv (fs_upd fp g s) H = binv s H" "cont (fs_upd fp g s) = cont s" "usable (fs_upd fp g s) = usable s" "b_filsys (fs_upd fp g s) fp = g (b_filsys s fp)"
  "b_dev (fs_upd fp g s) = b_dev s" "b_blkno (fs_upd fp g s) = b_blkno s" "b_addr (fs_upd fp g s) = b_addr s" "b_flags (fs_upd fp g s) = b_flags s"
  "same_buf c (fs_upd fp g s) t = same_buf c s t" "same_buf c s (fs_upd fp g t) = same_buf c s t" "u_error (fs_upd fp g s) = u_error s"
  "alc_only fp (fs_upd fp g s) t = alc_only fp s t" "alc_only fp s (fs_upd fp g t) = alc_only fp s t" "fs_at (fs_upd fp g s) = fs_at s"
  "fs_upd fp h (fs_upd fp g s) = fs_upd fp (\<lambda>f. h (g f)) s" "mounts (fs_upd fp g s) = mounts s" "console (fs_upd fp g s) = console s"
  by (auto simp: fs_upd_def alc_only_def fs_at_def fun_eq_iff)

lemma not_held_upd [simp]: "not_held (fs_upd fp g s) H dev b = not_held s H dev b"
  by (simp add: not_held_def)

lemma alc_only_awaken [simp]: "alc_only fp s (awaken ch t) = alc_only fp s t" "binv (awaken ch t) H = binv t H" "cont (awaken ch t) = cont t"
  "same_buf c s (awaken ch t) = same_buf c s t" "u_error (awaken ch t) = u_error t" "b_filsys (awaken ch t) = b_filsys t" "console (awaken ch t) = console t"
  by (simp_all add: awaken_def alc_only_def)

lemma alloc_refill_runs:
  assumes st: "sync_driver strat" and i: "binv s H" "H \<noteq> pool" "usable s dev" "not_held s H dev b"
  shows "fpost (alloc_refill strat dev fp b s) (\<lambda>_ t. binv t H \<and> cont t = cont s \<and> (\<forall>c \<in> H. same_buf c s t) \<and> alc_only fp s t \<and> u_error t = u_error s \<and> console t = console s \<and>
     b_filsys t fp = (b_filsys s fp)\<lparr>s_nfree := df_nfree (cont s dev b), s_free := df_free (cont s dev b), s_flock := 0\<rparr>)"
  unfolding alloc_refill_def Let_def
proof (rule fpost_bind, rule fpost_mono [OF bread_keeps [OF st]])
  show "binv (fs_upd fp (\<lambda>f. f\<lparr>s_flock := s_flock f + 1\<rparr>) s) H" "H \<noteq> pool" "usable (fs_upd fp (\<lambda>f. f\<lparr>s_flock := s_flock f + 1\<rparr>) s) dev"
    using i by simp_all
  show "\<forall>c \<in> H. \<not> (b_dev (fs_upd fp (\<lambda>f. f\<lparr>s_flock := s_flock f + 1\<rparr>) s) c = dev \<and> b_blkno (fs_upd fp (\<lambda>f. f\<lparr>s_flock := s_flock f + 1\<rparr>) s) c = b)"
    using i(4) by (simp add: not_held_def)
next
  fix bp t
  assume g: "got dev b H (fs_upd fp (\<lambda>f. f\<lparr>s_flock := s_flock f + 1\<rparr>) s) bp t \<and> b_addr t bp = cont (fs_upd fp (\<lambda>f. f\<lparr>s_flock := s_flock f + 1\<rparr>) s) dev b"
  define u where "u = (if B_ERROR \<notin> b_flags t bp then fs_upd fp (\<lambda>f. f\<lparr>s_nfree := df_nfree (b_addr t bp), s_free := df_free (b_addr t bp)\<rparr>) t else t)"
  have gt: "bp \<notin> H" "binv t (insert bp H)" "b_dev t bp = dev" "b_blkno t bp = b" "cont t = cont s" "\<forall>c \<in> H. same_buf c s t" "b_addr t bp = cont s dev b"
    and o: "bio_only (fs_upd fp (\<lambda>f. f\<lparr>s_flock := s_flock f + 1\<rparr>) s) t"
    using g by (simp_all add: got_def)
  have "bp \<in> pool" using binvD(1) [OF gt(2)] by blast
  then have ne: "B_ERROR \<notin> b_flags t bp" using binvD(4) [OF gt(2)] unfolding flags_ok_def by blast
  have u: "u = fs_upd fp (\<lambda>f. f\<lparr>s_nfree := df_nfree (cont s dev b), s_free := df_free (cont s dev b)\<rparr>) t" using ne gt by (simp add: u_def)
  have bu: "binv u (insert bp H)" "b_addr u bp = cont u (b_dev u bp) (b_blkno u bp)" unfolding u using gt by simp_all
  note r = brelse_keeps [OF bu(1) insertI1 bu(2)]
  have H: "insert bp H - {bp} = H" using gt(1) by blast
  have fs: "b_filsys (brelse bp u) = b_filsys u" "alc_only fp u (brelse bp u)" using bio_only_alc [OF r(3)] alc_only_bio [OF r(3)] by simp_all
  have ue: "u_error (brelse bp u) = u_error s" "console (brelse bp u) = console s"
    subgoal using r(3) o unfolding u by (simp add: bio_only_def)
    subgoal using bio_only_alc [OF r(3)] bio_only_alc [OF o] unfolding u by simp
    done
  have "\<forall>c \<in> H. same_buf c s (brelse bp u)"
  proof
    fix c assume c: "c \<in> H"
    then have "c \<noteq> bp" using gt(1) by blast
    then have "same_buf c u (brelse bp u)" "same_buf c s u" using c gt(6) r(4) unfolding u by auto
    then show "same_buf c s (brelse bp u)" by (rule same_buf_trans [rotated])
  qed
  moreover have "alc_only fp s t" using alc_only_bio [OF o, of fp] by simp
  then have "alc_only fp s u" unfolding u by simp
  then have "alc_only fp s (brelse bp u)" using fs(2) by (rule alc_only_trans)
  moreover have "b_filsys t fp = (b_filsys s fp)\<lparr>s_flock := s_flock (b_filsys s fp) + 1\<rparr>" using bio_only_alc [OF o] by simp
  ultimately show "fpost (Ret () (awaken (Ch_flock dev) (fs_upd fp (\<lambda>f. f\<lparr>s_flock := 0\<rparr>) (brelse bp
      (if B_ERROR \<notin> b_flags t bp then fs_upd fp (\<lambda>f. f\<lparr>s_nfree := df_nfree (b_addr t bp), s_free := df_free (b_addr t bp)\<rparr>) t else t)))))
    (\<lambda>_ t. binv t H \<and> cont t = cont s \<and> (\<forall>c \<in> H. same_buf c s t) \<and> alc_only fp s t \<and> u_error t = u_error s \<and> console t = console s \<and>
     b_filsys t fp = (b_filsys s fp)\<lparr>s_nfree := df_nfree (cont s dev b), s_free := df_free (cont s dev b), s_flock := 0\<rparr>)"
    using r(1,2) gt(5) fs(1) ue unfolding u_def [symmetric] H by (simp add: u)
qed

lemma alloc_clear_runs:
  assumes st: "sync_driver strat" and i: "binv s H" "H \<noteq> pool" "usable s dev" "not_held s H dev b"
  shows "fpost (alloc_clear strat dev fp b s) (\<lambda>r t. \<exists>bp. r = Some bp \<and> allocated dev b fp H s bp t \<and> b_filsys t fp = (b_filsys s fp)\<lparr>s_fmod := 1\<rparr>)"
  unfolding alloc_clear_def
proof (rule fpost_bind, rule fpost_mono [OF getblk_keeps [OF st i(1-3)]])
  show "\<forall>c \<in> H. \<not> (b_dev s c = dev \<and> b_blkno s c = b)" using i(4) by (simp add: not_held_def)
  fix bp t assume g: "got dev b H s bp t"
  then have gt: "bp \<notin> H" "binv t (insert bp H)" "b_dev t bp = dev" "b_blkno t bp = b" "cont t = cont s" "\<forall>c \<in> H. same_buf c s t" and o: "bio_only s t"
    by (simp_all add: got_def)
  have "\<forall>b \<in> pool. ((b_resid t)(bp := 0)) b = 0" using binv_len(3) [OF gt(2)] by simp
  note e = held_edit [OF gt(2) insertI1 _ this clrbuf_def, simplified]
  have "\<forall>c \<in> H. same_buf c s (clrbuf bp t)" using gt(1,6) e(4) same_buf_trans by metis
  moreover have "alc_only fp s (clrbuf bp t)" using alc_only_bio [OF o] alc_only_bio [OF e(3)] by (rule alc_only_trans)
  moreover have "cont (clrbuf bp t) d k = cont s d k" if "(d, k) \<noteq> (dev, b)" for d k using e(2) [of d k] gt that by auto
  moreover have "b_filsys (clrbuf bp t) = b_filsys s" "u_error (clrbuf bp t) = u_error s" "console (clrbuf bp t) = console s"
    using bio_only_alc [OF o] o by (simp_all add: clrbuf_def bio_only_def)
  moreover have "b_dev (clrbuf bp t) = b_dev t" "b_blkno (clrbuf bp t) = b_blkno t" "b_addr (clrbuf bp t) bp = replicate BSIZE 0" by (simp_all add: clrbuf_def)
  ultimately show "fpost (Ret (Some bp) (fs_upd fp (\<lambda>f. f\<lparr>s_fmod := 1\<rparr>) (clrbuf bp t)))
     (\<lambda>r t. \<exists>bp. r = Some bp \<and> allocated dev b fp H s bp t \<and> b_filsys t fp = (b_filsys s fp)\<lparr>s_fmod := 1\<rparr>)"
    using e(1) gt by (simp add: allocated_def)
qed

lemma chain_le: "chain c n fr L \<Longrightarrow> n \<le> NICFREE"
  by (induction rule: chain.induct) simp_all

lemma sint_nfree: "chain c (unat w) fr L \<Longrightarrow> sint w \<le> 0 \<longleftrightarrow> unat w = 0" for w :: "16 word"
  using chain_le [of c "unat w" fr L] by (intro sint_small(1)) (simp add: NICFREE_def)

lemma allocated_fs:
  assumes a: "allocated dev b fp H s bp t" "b_filsys t fp = (b_filsys s fp)\<lparr>s_fmod := 1\<rparr>"
    and f: "fs_at s dev = Some fp" "s_flock (b_filsys s fp) = 0" "counts_ok (b_filsys s fp)"
      "chain (cont s dev) (unat (s_nfree (b_filsys s fp))) (s_free (b_filsys s fp)) L" "distinct (b # L)"
      "\<forall>b \<in> set L. b \<noteq> 0 \<and> in_range (b_filsys s fp) b"
  shows "fs_free t dev fp L"
proof -
  have "fs_at t = fs_at s" using a(1) unfolding allocated_def alc_only_def fs_at_def by simp
  moreover have "chain (cont t dev) (unat (s_nfree (b_filsys s fp))) (s_free (b_filsys s fp)) L"
  proof (rule free_chain_cong [OF f(4)], rule ballI)
    fix k assume "k \<in> set L"
    then have "(dev, k) \<noteq> (dev, b)" using f(5) by auto
    then show "cont t dev k = cont s dev k" using a(1) unfolding allocated_def by blast
  qed
  ultimately show ?thesis using f a(2) by (simp add: fs_free_def counts_ok_def in_range_def)
qed

lemma allocated_from:
  assumes "allocated dev b fp H s' bp t" "alc_only fp s s'" "cont s' = cont s" "\<forall>c \<in> H. same_buf c s s'" "u_error s' = u_error s"
    "sb_kept (b_filsys s fp) (b_filsys s' fp)" "console s' = console s"
  shows "allocated dev b fp H s bp t"
  using assms alc_only_trans same_buf_trans sb_kept_trans unfolding allocated_def by metis

lemma alloc_takes:
  assumes st: "sync_driver strat" and i: "binv s H" "H \<noteq> pool" "usable s dev" "not_held s H dev b" and f: "fs_free s dev fp (b # L)"
  shows "fpost (alloc strat dev s) (\<lambda>r t. \<exists>bp. r = Some bp \<and> allocated dev b fp H s bp t \<and> fs_free t dev fp L)"
proof -
  let ?f = "b_filsys s fp"
  let ?s = "fs_upd fp (\<lambda>f. f\<lparr>s_nfree := s_nfree f - 1\<rparr>) s"
  have fs: "fs_at s dev = Some fp" "s_flock ?f = 0" "counts_ok ?f" "chain (cont s dev) (unat (s_nfree ?f)) (s_free ?f) (b # L)" "distinct (b # L)"
    "b \<noteq> 0" "in_range ?f b" "\<forall>b \<in> set L. b \<noteq> 0 \<and> in_range ?f b"
    using f by (simp_all add: fs_free_def)
  have ln: "length (s_free ?f) = NICFREE" using fs(3) by (simp add: counts_ok_def)
  note h = chain_head [OF fs(4) ln]
  have al: "alloc strat dev s =
      (if sint (s_nfree (b_filsys ?s fp)) \<le> 0
       then fbind (alloc_refill strat dev fp b ?s) (\<lambda>_ s. if sint (s_nfree (b_filsys s fp)) \<le> 0 then nospace dev fp s else alloc_clear strat dev fp b s)
       else alloc_clear strat dev fp b ?s)"
    unfolding alloc_def getfs_fine [OF fs(1,3)] using fs(2) by (simp add: alloc_pick_first [OF fs(3,4,6,7)])
  have un: "unat (s_nfree ?f - 1) = unat (s_nfree ?f) - 1" using h by (intro unat_pred) simp
  moreover have "unat (s_nfree ?f) - 1 \<le> 1000" "0 < unat (s_nfree ?f)" using h by (auto simp: NICFREE_def)
  ultimately have "sint (s_nfree ?f - 1) \<le> 0 \<longleftrightarrow> unat (s_nfree ?f) = 1" using sint_small(1) [of "s_nfree ?f - 1"] by linarith
  then have s1: "sint (s_nfree (b_filsys ?s fp)) \<le> 0 \<longleftrightarrow> unat (s_nfree ?f) = 1" by simp
  show ?thesis
  proof (cases "unat (s_nfree ?f) = 1")
    case False
    then have ch: "chain (cont s dev) (unat (s_nfree ?f - 1)) (s_free ?f) L" using h unfolding un by simp
    have "fpost (alloc_clear strat dev fp b ?s) (\<lambda>r t. \<exists>bp. r = Some bp \<and> allocated dev b fp H s bp t \<and> fs_free t dev fp L)"
    proof (rule fpost_mono [OF alloc_clear_runs [OF st]])
      show "binv ?s H" "H \<noteq> pool" "usable ?s dev" "not_held ?s H dev b" using i by simp_all
      fix r t
      assume "\<exists>bp. r = Some bp \<and> allocated dev b fp H ?s bp t \<and> b_filsys t fp = (b_filsys ?s fp)\<lparr>s_fmod := 1\<rparr>"
      then obtain bp where bp: "r = Some bp" "allocated dev b fp H ?s bp t" "b_filsys t fp = (b_filsys ?s fp)\<lparr>s_fmod := 1\<rparr>" by blast
      have "fs_free t dev fp L"
        by (rule allocated_fs [OF bp(2,3)]) (use fs ch un in \<open>auto simp: counts_ok_def in_range_def\<close>)
      moreover have "allocated dev b fp H s bp t" by (rule allocated_from [OF bp(2)]) simp_all
      ultimately show "\<exists>bp. r = Some bp \<and> allocated dev b fp H s bp t \<and> fs_free t dev fp L" using bp(1) by blast
    qed
    then show ?thesis using False unfolding al s1 by simp
  next
    case True
    then have ch: "unat (df_nfree (cont s dev b)) \<noteq> 0" "chain (cont s dev) (unat (df_nfree (cont s dev b))) (df_free (cont s dev b)) L"
      using h by simp_all
    have "fpost (fbind (alloc_refill strat dev fp b ?s) (\<lambda>_ s. if sint (s_nfree (b_filsys s fp)) \<le> 0 then nospace dev fp s else alloc_clear strat dev fp b s))
      (\<lambda>r t. \<exists>bp. r = Some bp \<and> allocated dev b fp H s bp t \<and> fs_free t dev fp L)"
    proof (rule fpost_bind, rule fpost_mono [OF alloc_refill_runs [OF st]])
      show "binv ?s H" "H \<noteq> pool" "usable ?s dev" "not_held ?s H dev b" using i by simp_all
      fix a u
      assume "binv u H \<and> cont u = cont ?s \<and> (\<forall>c \<in> H. same_buf c ?s u) \<and> alc_only fp ?s u \<and> u_error u = u_error ?s \<and> console u = console ?s \<and>
        b_filsys u fp = (b_filsys ?s fp)\<lparr>s_nfree := df_nfree (cont ?s dev b), s_free := df_free (cont ?s dev b), s_flock := 0\<rparr>"
      then have u: "binv u H" "cont u = cont s" "\<forall>c \<in> H. same_buf c s u" "alc_only fp s u" "u_error u = u_error s" "console u = console s"
        "b_filsys u fp = ?f\<lparr>s_nfree := df_nfree (cont s dev b), s_free := df_free (cont s dev b), s_flock := 0\<rparr>" by simp_all
      have nz: "\<not> sint (s_nfree (b_filsys u fp)) \<le> 0" using sint_nfree [OF ch(2)] ch(1) u(7) by simp
      have us: "usable u dev" "not_held u H dev b" "fs_at u dev = Some fp"
        using alc_only_usable [OF u(4)] i u(3,4) fs(1) by (auto simp: not_held_def same_buf_def fs_at_def alc_only_def)
      have "fpost (alloc_clear strat dev fp b u) (\<lambda>r t. \<exists>bp. r = Some bp \<and> allocated dev b fp H s bp t \<and> fs_free t dev fp L)"
      proof (rule fpost_mono [OF alloc_clear_runs [OF st u(1) i(2) us(1,2)]])
        fix r t
        assume "\<exists>bp. r = Some bp \<and> allocated dev b fp H u bp t \<and> b_filsys t fp = (b_filsys u fp)\<lparr>s_fmod := 1\<rparr>"
        then obtain bp where bp: "r = Some bp" "allocated dev b fp H u bp t" "b_filsys t fp = (b_filsys u fp)\<lparr>s_fmod := 1\<rparr>" by blast
        have "fs_free t dev fp L"
          by (rule allocated_fs [OF bp(2,3) us(3)]) (use fs ch chain_le [OF ch(2)] u in \<open>auto simp: counts_ok_def in_range_def\<close>)
        moreover have "allocated dev b fp H s bp t" by (rule allocated_from [OF bp(2) u(4,2,3,5) _ u(6)]) (simp add: u(7))
        ultimately show "\<exists>bp. r = Some bp \<and> allocated dev b fp H s bp t \<and> fs_free t dev fp L" using bp(1) by blast
      qed
      then show "fpost (if sint (s_nfree (b_filsys u fp)) \<le> 0 then nospace dev fp u else alloc_clear strat dev fp b u)
        (\<lambda>r t. \<exists>bp. r = Some bp \<and> allocated dev b fp H s bp t \<and> fs_free t dev fp L)" using nz by simp
    qed
    then show ?thesis using True unfolding al s1 by simp
  qed
qed

lemma alloc_fails:
  assumes f: "fs_free s dev fp []" and i: "binv s H"
  shows "fpost (alloc strat dev s) (\<lambda>r t. r = None \<and> u_error t = ENOSPC \<and> fs_free t dev fp [] \<and> binv t H \<and> cont t = cont s \<and>
    (\<forall>c. same_buf c s t) \<and> alc_only fp s t)"
proof -
  let ?f = "b_filsys s fp"
  have fs: "fs_at s dev = Some fp" "s_flock ?f = 0" "counts_ok ?f" "chain (cont s dev) (unat (s_nfree ?f)) (s_free ?f) []"
    using f by (simp_all add: fs_free_def)
  obtain n where n: "alloc_pick dev fp s = (None, fs_upd fp (\<lambda>f. f\<lparr>s_nfree := n\<rparr>) s)" using alloc_pick_none [OF fs(3,4)] by blast
  have "alloc strat dev s = nospace dev fp (fs_upd fp (\<lambda>f. f\<lparr>s_nfree := n\<rparr>) s)"
    unfolding alloc_def getfs_fine [OF fs(1,3)] using fs(2) by (simp add: n)
  then show ?thesis using fs i chain_none
    by (simp add: nospace_def prdev_def fs_free_def fs_at_def counts_ok_def fs_upd_def alc_only_def)
qed

lemma free_spill_runs:
  assumes st: "sync_driver strat" and i: "binv s H" "H \<noteq> pool" "usable s dev" "not_held s H dev b" and ln: "length (s_free (b_filsys s fp)) = NICFREE"
  shows "fpost (free_spill strat dev fp b s) (\<lambda>_ t. binv t H \<and> (\<forall>d k. (d, k) \<noteq> (dev, b) \<longrightarrow> cont t d k = cont s d k) \<and>
     df_nfree (cont t dev b) = s_nfree (b_filsys s fp) \<and> df_free (cont t dev b) = s_free (b_filsys s fp) \<and>
     (\<forall>c \<in> H. same_buf c s t) \<and> alc_only fp s t \<and> u_error t = u_error s \<and> b_filsys t fp = (b_filsys s fp)\<lparr>s_nfree := 0, s_flock := 0\<rparr>)"
  unfolding free_spill_def Let_def
proof (rule fpost_bind, rule fpost_mono [OF getblk_keeps [OF st]])
  let ?s = "fs_upd fp (\<lambda>f. f\<lparr>s_flock := s_flock f + 1\<rparr>) s"
  show "binv ?s H" "H \<noteq> pool" "usable ?s dev" using i by simp_all
  show "\<forall>c \<in> H. \<not> (b_dev ?s c = dev \<and> b_blkno ?s c = b)" using i(4) by (simp add: not_held_def)
  fix bp t assume g: "got dev b H ?s bp t"
  then have gt: "bp \<notin> H" "binv t (insert bp H)" "b_dev t bp = dev" "b_blkno t bp = b" "cont t = cont s" "\<forall>c \<in> H. same_buf c s t" and o: "bio_only ?s t"
    by (simp_all add: got_def)
  have ft: "b_filsys t fp = (b_filsys s fp)\<lparr>s_flock := s_flock (b_filsys s fp) + 1\<rparr>" using bio_only_alc [OF o] by simp
  define v where "v = put_bytes 0 (fblk_bytes (s_nfree (b_filsys s fp)) (s_free (b_filsys s fp))) (b_addr t bp)"
  have "bp \<in> pool" using binvD(1) [OF gt(2)] by blast
  then have lv: "length v = BSIZE" unfolding v_def by (intro df_fblk(1) ln binv_len [OF gt(2)])
  define u where "u = t\<lparr>b_addr := (b_addr t)(bp := v), b_resid := b_resid t\<rparr>"
  have "\<forall>b \<in> pool. b_resid t b = 0" using binv_len(3) [OF gt(2)] by simp
  note e = held_edit [OF gt(2) insertI1 lv this u_def]
  define w where "w = fs_upd fp (\<lambda>f. f\<lparr>s_nfree := 0\<rparr>) u"
  have w: "binv w (insert bp H)" "b_dev w bp = dev" "b_blkno w bp = b" "b_addr w bp = v" using e(1) gt by (simp_all add: w_def u_def)
  have nd: "b_dev w bp \<noteq> NODEV" using i(3) w(2) by (simp add: usable_def)
  have off: "flag_on bp {} w = w" by (simp add: flag_on_def)
  have H: "insert bp H - {bp} = H" using gt(1) by blast
  have tu: "t\<lparr>b_addr := (b_addr t)(bp := put_bytes 0 (fblk_bytes (s_nfree (b_filsys t fp)) (s_free (b_filsys t fp))) (b_addr t bp))\<rparr> = u"
    by (simp add: u_def v_def ft)
  have "alc_only fp s t" using alc_only_bio [OF o, of fp] by simp
  from alc_only_trans [OF this alc_only_bio [OF e(3)]] have aw: "alc_only fp s w" unfolding w_def by simp
  have fw: "b_filsys w fp = (b_filsys s fp)\<lparr>s_nfree := 0, s_flock := s_flock (b_filsys s fp) + 1\<rparr>" using ft by (simp add: w_def u_def)
  have cw: "cont w d k = cont s d k" if "(d, k) \<noteq> (dev, b)" for d k using e(2) [of d k] gt that by (auto simp: w_def)
  have sw: "same_buf c s w" if "c \<in> H" for c
  proof -
    have "c \<noteq> bp" using that gt(1) by blast
    then show ?thesis using same_buf_trans [of c s t u] gt(6) e(4) that by (simp add: w_def)
  qed
  have uw: "u_error w = u_error s" using o e(3) by (simp add: w_def bio_only_def)
  have "fpost (fbind (bwrite strat bp w) (\<lambda>_ s. Ret () (awaken (Ch_flock dev) (fs_upd fp (\<lambda>f. f\<lparr>s_flock := 0\<rparr>) s)))) (\<lambda>_ t. binv t H \<and> (\<forall>d k. (d, k) \<noteq> (dev, b) \<longrightarrow> cont t d k = cont s d k) \<and>
     df_nfree (cont t dev b) = s_nfree (b_filsys s fp) \<and> df_free (cont t dev b) = s_free (b_filsys s fp) \<and>
     (\<forall>c \<in> H. same_buf c s t) \<and> alc_only fp s t \<and> u_error t = u_error s \<and> b_filsys t fp = (b_filsys s fp)\<lparr>s_nfree := 0, s_flock := 0\<rparr>)"
  proof (rule fpost_bind, rule fpost_mono [OF bwrite_keeps [OF st w(1) insertI1 nd, of "{}", unfolded off H]])
    fix a x
    assume x: "binv x H \<and> cont x = (cont w)(b_dev w bp := (cont w (b_dev w bp))(b_blkno w bp := b_addr w bp)) \<and> bio_only w x \<and> (\<forall>c. c \<noteq> bp \<longrightarrow> same_buf c w x) \<and>
      disk x = (disk w)(b_dev w bp := (disk w (b_dev w bp))(b_blkno w bp := b_addr w bp)) \<and> B_DELWRI \<notin> b_flags x bp \<and> b_dev x = b_dev w \<and> b_blkno x = b_blkno w"
    then have "\<forall>c \<in> H. same_buf c s x" using sw same_buf_trans gt(1) by metis
    moreover have "alc_only fp s x" using alc_only_trans [OF aw alc_only_bio] x by blast
    moreover have "b_filsys x = b_filsys w" "u_error x = u_error w" using x bio_only_alc [of w x] by (auto simp: bio_only_def)
    ultimately show "fpost (Ret () (awaken (Ch_flock dev) (fs_upd fp (\<lambda>f. f\<lparr>s_flock := 0\<rparr>) x))) (\<lambda>_ t. binv t H \<and> (\<forall>d k. (d, k) \<noteq> (dev, b) \<longrightarrow> cont t d k = cont s d k) \<and>
     df_nfree (cont t dev b) = s_nfree (b_filsys s fp) \<and> df_free (cont t dev b) = s_free (b_filsys s fp) \<and>
     (\<forall>c \<in> H. same_buf c s t) \<and> alc_only fp s t \<and> u_error t = u_error s \<and> b_filsys t fp = (b_filsys s fp)\<lparr>s_nfree := 0, s_flock := 0\<rparr>)"
      using x cw fw uw w(2-4) df_fblk(2,3) [OF ln] by (auto simp: v_def)
  qed (use nd in simp_all)
  then show "fpost (fbind (bwrite strat bp (fs_upd fp (\<lambda>f. f\<lparr>s_nfree := 0\<rparr>)
       (t\<lparr>b_addr := (b_addr t)(bp := put_bytes 0 (fblk_bytes (s_nfree (b_filsys t fp)) (s_free (b_filsys t fp))) (b_addr t bp))\<rparr>)))
       (\<lambda>_ s. Ret () (awaken (Ch_flock dev) (fs_upd fp (\<lambda>f. f\<lparr>s_flock := 0\<rparr>) s)))) (\<lambda>_ t. binv t H \<and> (\<forall>d k. (d, k) \<noteq> (dev, b) \<longrightarrow> cont t d k = cont s d k) \<and>
     df_nfree (cont t dev b) = s_nfree (b_filsys s fp) \<and> df_free (cont t dev b) = s_free (b_filsys s fp) \<and>
     (\<forall>c \<in> H. same_buf c s t) \<and> alc_only fp s t \<and> u_error t = u_error s \<and> b_filsys t fp = (b_filsys s fp)\<lparr>s_nfree := 0, s_flock := 0\<rparr>)"
    unfolding tu w_def [symmetric] .
qed

text \<open>What \<open>free\<close> leaves: the block's contents may have changed, nothing else has.\<close>

definition changed_at :: "u16 \<Rightarrow> u32 \<Rightarrow> bnode \<Rightarrow> bnode set \<Rightarrow> 'a alc_scheme \<Rightarrow> 'a alc_scheme \<Rightarrow> bool" where
  "changed_at dev b fp H s t \<longleftrightarrow> binv t H \<and> (\<forall>d k. (d, k) \<noteq> (dev, b) \<longrightarrow> cont t d k = cont s d k) \<and> (\<forall>c \<in> H. same_buf c s t) \<and>
     alc_only fp s t \<and> u_error t = u_error s"

lemma unat_succ: "unat w \<le> NICINOD \<Longrightarrow> unat (w + 1) = unat w + 1" for w :: "16 word"
  by (subst unat_add_lem [THEN iffD1]) (simp_all add: NICINOD_def)

lemma fs_push:
  assumes f: "fs_at s dev = Some fp" "s_flock (b_filsys s fp) = 0" "counts_ok (b_filsys s fp)" "chain c n fr L" "0 < n" "n < NICFREE"
      "n = unat (s_nfree (b_filsys s fp))" "fr = s_free (b_filsys s fp)" and c: "\<forall>b \<in> set (b # L). cont s dev b = c b"
    and b: "distinct (b # L)" "\<forall>b \<in> set (b # L). b \<noteq> 0 \<and> in_range (b_filsys s fp) b"
  shows "fs_free (free_push fp b s) dev fp (b # L)"
proof -
  have "chain c (n + 1) (fr[n := b]) (b # L)" by (rule chain_push [OF f(4-6)]) (use f in \<open>simp add: counts_ok_def\<close>)
  then have "chain (cont s dev) (n + 1) (fr[n := b]) (b # L)" by (rule free_chain_cong) (use c in simp)
  moreover have "unat (s_nfree (b_filsys s fp) + 1) = n + 1" using f(6,7) by (subst unat_succ) (simp_all add: NICFREE_def NICINOD_def)
  ultimately show ?thesis using f b by (simp add: fs_free_def free_push_def counts_ok_def in_range_def)
qed

lemma changed_at_upd [simp]: "changed_at dev b fp H s (fs_upd fp g t) = changed_at dev b fp H s t" "changed_at dev b fp H (fs_upd fp g s) t = changed_at dev b fp H s t"
  by (simp_all add: changed_at_def)

lemma free_gives:
  assumes st: "sync_driver strat" and i: "binv s H" "H \<noteq> pool" "usable s dev" "not_held s H dev b" and f: "fs_free s dev fp L"
    and b: "b \<noteq> 0" "in_range (b_filsys s fp) b" "b \<notin> set L"
  shows "fpost (free strat dev b s) (\<lambda>_ t. changed_at dev b fp H s t \<and> fs_free t dev fp (b # L))"
proof -
  let ?f = "b_filsys s fp"
  define s1 where "s1 = fs_upd fp (\<lambda>f. f\<lparr>s_fmod := 1\<rparr>) s"
  have fs: "fs_at s dev = Some fp" "s_flock ?f = 0" "counts_ok ?f" "chain (cont s dev) (unat (s_nfree ?f)) (s_free ?f) L" "distinct L"
    "\<forall>b \<in> set L. b \<noteq> 0 \<and> in_range ?f b"
    using f by (simp_all add: fs_free_def)
  have n: "unat (s_nfree ?f) \<le> NICFREE" "length (s_free ?f) = NICFREE" using fs(3) by (simp_all add: counts_ok_def)
  then have n1: "unat (s_nfree ?f) \<le> 1000" by (simp add: NICFREE_def)
  have rng: "in_range (b_filsys t fp) k" if "in_range ?f k" "s_isize (b_filsys t fp) = s_isize ?f" "s_fsize (b_filsys t fp) = s_fsize ?f" for t k
    using that by (simp add: in_range_def)
  have bb: "badblock fp b dev s1 = (False, s1)" by (rule badblock_fine) (use b(2) in \<open>simp add: s1_def in_range_def\<close>)
  define s2 where "s2 = (if sint (s_nfree (b_filsys s1 fp)) \<le> 0 then fs_upd fp (\<lambda>f. f\<lparr>s_nfree := 1, s_free := (s_free f)[0 := 0]\<rparr>) s1 else s1)"
  have fr: "free strat dev b s =
      fbind (if sint (s_nfree (b_filsys s2 fp)) \<ge> int NICFREE then free_spill strat dev fp b s2 else Ret () s2) (\<lambda>_ s. Ret () (free_push fp b s))"
    unfolding free_def getfs_fine [OF fs(1,3)] using fs(2) bb by (simp add: s2_def s1_def Let_def)
  have i2: "binv s2 H" "usable s2 dev" "not_held s2 H dev b" using i by (simp_all add: s2_def s1_def)
  have cs: "changed_at dev b fp H s s2" using i by (simp add: s2_def s1_def changed_at_def)
  have k0: "\<forall>k \<in> set (b # L). k \<noteq> 0 \<and> in_range ?f k" using b(1,2) fs(6) by simp
  have db: "distinct (b # L)" using b(3) fs(5) by simp
  show ?thesis
  proof (cases "unat (s_nfree ?f) = 0")
    case True
    then have s2: "s2 = fs_upd fp (\<lambda>f. f\<lparr>s_fmod := 1, s_nfree := 1, s_free := (s_free f)[0 := 0]\<rparr>) s"
      using sint_small(1) [OF n1] by (simp add: s2_def s1_def fs_upd_def)
    have L: "L = []" using fs(4) True by (simp add: chain_zero)
    have ch: "chain (cont s dev) 1 ((s_free ?f)[0 := 0]) []"
      using chain_end [of 1 "(s_free ?f)[0 := 0]" "cont s dev"] n(2) by (simp add: NICFREE_def)
    have "fs_free (free_push fp b s2) dev fp (b # L)"
      by (rule fs_push [of s2 dev fp "cont s dev" 1 "(s_free ?f)[0 := 0]"])
        (use fs ch L k0 db n in \<open>simp_all add: s2 counts_ok_def in_range_def NICFREE_def\<close>)
    moreover have "\<not> sint (s_nfree (b_filsys s2 fp)) \<ge> int NICFREE" by (simp add: s2 NICFREE_def)
    ultimately show ?thesis using cs unfolding fr by (simp add: free_push_def)
  next
    case nz: False
    then have s2: "s2 = s1" using sint_small(1) [OF n1] by (simp add: s2_def s1_def)
    have full: "sint (s_nfree (b_filsys s2 fp)) \<ge> int NICFREE \<longleftrightarrow> unat (s_nfree ?f) = NICFREE"
      using sint_small(4) [OF n1, of NICFREE] n(1) by (auto simp: s2 s1_def)
    show ?thesis
    proof (cases "unat (s_nfree ?f) = NICFREE")
      case False
      have "fs_free (free_push fp b s2) dev fp (b # L)"
        by (rule fs_push [of s2 dev fp "cont s dev" "unat (s_nfree ?f)" "s_free ?f"])
          (use fs nz False k0 db n in \<open>simp_all add: s2 s1_def counts_ok_def in_range_def\<close>)
      then show ?thesis using cs False unfolding fr full by (simp add: free_push_def)
    next
      case True
      have ln: "length (s_free (b_filsys s2 fp)) = NICFREE" using n(2) by (simp add: s2 s1_def)
      have nf: "s_nfree ?f = of_nat NICFREE" using True by (simp add: word_unat_eq_iff NICFREE_def)
      have "fpost (fbind (free_spill strat dev fp b s2) (\<lambda>_ s. Ret () (free_push fp b s))) (\<lambda>_ t. changed_at dev b fp H s t \<and> fs_free t dev fp (b # L))"
      proof (rule fpost_bind, rule fpost_mono [OF free_spill_runs [OF st i2(1) i(2) i2(2,3) ln]])
        fix a t
        assume "binv t H \<and> (\<forall>d k. (d, k) \<noteq> (dev, b) \<longrightarrow> cont t d k = cont s2 d k) \<and> df_nfree (cont t dev b) = s_nfree (b_filsys s2 fp) \<and>
          df_free (cont t dev b) = s_free (b_filsys s2 fp) \<and> (\<forall>c \<in> H. same_buf c s2 t) \<and> alc_only fp s2 t \<and> u_error t = u_error s2 \<and>
          b_filsys t fp = (b_filsys s2 fp)\<lparr>s_nfree := 0, s_flock := 0\<rparr>"
        then have t: "binv t H" "\<forall>d k. (d, k) \<noteq> (dev, b) \<longrightarrow> cont t d k = cont s d k" "df_nfree (cont t dev b) = of_nat NICFREE"
          "df_free (cont t dev b) = s_free ?f" "\<forall>c \<in> H. same_buf c s t" "alc_only fp s t" "u_error t = u_error s"
          "b_filsys t fp = ?f\<lparr>s_nfree := 0, s_flock := 0, s_fmod := 1\<rparr>" using nf by (simp_all add: s2 s1_def)
        have "chain (cont t dev) NICFREE (s_free ?f) L"
          by (rule free_chain_cong [OF fs(4) [unfolded True]]) (use t(2) b(3) in auto)
        moreover have "0 < length (s_free ?f)" using n(2) by (simp add: NICFREE_def)
        ultimately have "chain (cont t dev) 1 ((s_free ?f)[0 := b]) (b # L)"
          using chain_spill [of "cont t dev" "s_free ?f" L b "s_free ?f"] n(2) b(1) t(3,4) by simp
        moreover have "fs_at t dev = Some fp" using fs(1) t(6) by (simp add: fs_at_def alc_only_def)
        ultimately have "fs_free (free_push fp b t) dev fp (b # L)"
          using fs(3) k0 db t(8) by (simp add: fs_free_def free_push_def counts_ok_def in_range_def NICFREE_def)
        moreover have "changed_at dev b fp H s t" using t by (simp add: changed_at_def)
        ultimately show "fpost (Ret () (free_push fp b t)) (\<lambda>_ t. changed_at dev b fp H s t \<and> fs_free t dev fp (b # L))" by (simp add: free_push_def)
      qed
      then show ?thesis using True unfolding fr full by simp
    qed
  qed
qed

section \<open>Safety of the allocator\<close>

text \<open>Whatever is in the super block and on the disk, a block that is given out is in the range of the file system.\<close>

definition fposts :: "('a, 's) fres \<Rightarrow> ('a \<Rightarrow> 's \<Rightarrow> bool) \<Rightarrow> bool" where
  "fposts m Q = (case m of Ret a s \<Rightarrow> Q a s | _ \<Rightarrow> True)"

lemma fposts_bind: "fposts m (\<lambda>a s. fposts (f a s) Q) \<Longrightarrow> fposts (fbind m f) Q"
  by (cases m) (simp_all add: fposts_def)

lemma fposts_simps [simp]: "fposts (Ret a s) Q = Q a s" "fposts (Asleep c p s) Q" "fposts (Panics m) Q" "fposts Endless Q" "fposts Wild Q"
  by (simp_all add: fposts_def)

lemma fpost_fposts: "fpost m P \<Longrightarrow> (\<And>a s. P a s \<Longrightarrow> Q a s) \<Longrightarrow> fposts m Q"
  by (cases m) (simp_all add: fposts_def fpost_def)

text \<open>Only the super block and the console have changed, and the super block keeps its size.\<close>

definition sb_only :: "bnode \<Rightarrow> 'a alc_scheme \<Rightarrow> 'a alc_scheme \<Rightarrow> bool" where
  "sb_only fp s t \<longleftrightarrow> (\<exists>f con. t = s\<lparr>b_filsys := (b_filsys s)(fp := f), console := con\<rparr>) \<and>
     s_isize (b_filsys t fp) = s_isize (b_filsys s fp) \<and> s_fsize (b_filsys t fp) = s_fsize (b_filsys s fp)"

lemma sb_only_refl [simp]: "sb_only fp s s"
  unfolding sb_only_def by (auto intro!: exI [of _ "b_filsys s fp"] exI [of _ "console s"])

lemma sb_only_trans: "sb_only fp s t \<Longrightarrow> sb_only fp t u \<Longrightarrow> sb_only fp s u"
  unfolding sb_only_def by (elim conjE exE) (simp; blast)

lemma sb_only_prdev [simp]: "sb_only fp s (prdev m dev s)"
  unfolding sb_only_def prdev_def by (auto intro!: exI [of _ "b_filsys s fp"])

lemma sb_only_upd: "s_isize (g (b_filsys s fp)) = s_isize (b_filsys s fp) \<Longrightarrow> s_fsize (g (b_filsys s fp)) = s_fsize (b_filsys s fp) \<Longrightarrow> sb_only fp s (fs_upd fp g s)"
  unfolding sb_only_def fs_upd_def by (auto intro!: exI [of _ "g (b_filsys s fp)"] exI [of _ "console s"])

lemma sb_only_badblock [simp]: "sb_only fp s (snd (badblock fp b dev s))"
  by (simp add: badblock_def)

lemma sb_only_range: "sb_only fp s t \<Longrightarrow> in_range (b_filsys t fp) b = in_range (b_filsys s fp) b"
  by (simp add: sb_only_def in_range_def)

lemma alloc_pick_range:
  "sb_only fp s (snd (alloc_pick dev fp s)) \<and> (\<forall>b. fst (alloc_pick dev fp s) = Some b \<longrightarrow> in_range (b_filsys s fp) b \<and> b \<noteq> 0)"
proof (induction dev fp s rule: alloc_pick.induct)
  case (1 dev fp s)
  let ?n = "s_nfree (b_filsys s fp)"
  define v where "v = fs_upd fp (\<lambda>f. f\<lparr>s_nfree := s_nfree f - 1\<rparr>) s"
  define b where "b = s_free (b_filsys v fp) ! unat (s_nfree (b_filsys v fp))"
  have v: "sb_only fp s v" unfolding v_def by (rule sb_only_upd) simp_all
  consider "sint ?n \<le> 0" | "0 < sint ?n" "sint ?n > int NICFREE" | "0 < sint ?n" "sint ?n \<le> int NICFREE" by linarith
  then show ?case
  proof cases
    case 1
    then have "alloc_pick dev fp s = (None, s)" by (subst alloc_pick.simps) simp
    then show ?thesis by simp
  next
    case 2
    then have "alloc_pick dev fp s = (None, prdev ''Bad free count'' dev s)" by (subst alloc_pick.simps) simp
    then show ?thesis by simp
  next
    case 3
    then have n: "\<not> sint ?n \<le> 0" "\<not> int NICFREE < sint ?n" by simp_all
    have e: "alloc_pick dev fp s = (if b = 0 then (None, v)
         else if fst (badblock fp b dev v) then alloc_pick dev fp (snd (badblock fp b dev v)) else (Some b, v))"
      unfolding b_def v_def by (subst alloc_pick.simps) (simp only: Let_def n if_False)
    show ?thesis
    proof (cases "b \<noteq> 0 \<and> fst (badblock fp b dev v)")
      case True
      define u where "u = snd (badblock fp b dev v)"
      have u: "sb_only fp s u" using sb_only_trans [OF v] unfolding u_def by simp
      have eq: "alloc_pick dev fp s = alloc_pick dev fp u" using e True by (simp add: u_def)
      have "sb_only fp u (snd (alloc_pick dev fp u)) \<and> (\<forall>b. fst (alloc_pick dev fp u) = Some b \<longrightarrow> in_range (b_filsys u fp) b \<and> b \<noteq> 0)"
        unfolding u_def by (rule "1.IH" [of v b]) (use n True v_def b_def in simp_all)
      then show ?thesis unfolding eq using sb_only_trans [OF u] sb_only_range [OF u] by blast
    next
      case False
      then have eq: "alloc_pick dev fp s = (if b = 0 then None else Some b, v)" using e by auto
      have "in_range (b_filsys v fp) b" if "b \<noteq> 0"
        using that False by (auto simp: badblock_def in_range_def split: if_splits)
      then show ?thesis using v sb_only_range [OF v] unfolding eq by auto
    qed
  qed
qed

lemma getfs_sb:
  "fposts (getfs dev s) (\<lambda>fp t. fs_at s dev = Some fp \<and> sb_only fp s t)"
  by (auto simp: getfs_def fs_at_def Let_def split: option.split intro!: sb_only_trans [OF sb_only_prdev sb_only_upd])

lemma sb_only_bio:
  assumes "sb_only fp s t"
  shows "binv t H = binv s H" "usable t = usable s" "b_dev t = b_dev s" "b_blkno t = b_blkno s" "mounts t = mounts s"
  using assms by (auto simp: sb_only_def)

lemma alloc_range:
  assumes st: "sync_driver strat" and i: "binv s H" "H \<noteq> pool" "usable s dev" and nh: "\<forall>c \<in> H. b_dev s c \<noteq> dev"
  shows "fposts (alloc strat dev s) (\<lambda>r t. \<forall>bp. r = Some bp \<longrightarrow> bp \<notin> H \<and> b_dev t bp = dev \<and> b_addr t bp = replicate BSIZE 0 \<and>
    b_blkno t bp \<noteq> 0 \<and> in_range (b_filsys s (the (fs_at s dev))) (b_blkno t bp))"
  unfolding alloc_def
proof (rule fposts_bind, cases "getfs dev s")
  case (Ret fp t)
  let ?Q = "\<lambda>r t. \<forall>bp. r = Some bp \<longrightarrow> bp \<notin> H \<and> b_dev t bp = dev \<and> b_addr t bp = replicate BSIZE 0 \<and>
    b_blkno t bp \<noteq> 0 \<and> in_range (b_filsys s (the (fs_at s dev))) (b_blkno t bp)"
  have fp: "fs_at s dev = Some fp" "sb_only fp s t" using getfs_sb [of dev s] Ret by simp_all
  obtain r u where p: "alloc_pick dev fp t = (r, u)" by fastforce
  then have u: "sb_only fp s u" and rg: "\<And>b. r = Some b \<Longrightarrow> in_range (b_filsys s fp) b \<and> b \<noteq> 0"
    using alloc_pick_range [of fp t dev] sb_only_trans [OF fp(2)] sb_only_range [OF fp(2)] by auto
  have ns: "fposts (nospace dev fp v) ?Q" for v by (simp add: nospace_def)
  have clear: "fposts (alloc_clear strat dev fp b v) ?Q" if v: "binv v H" "usable v dev" "not_held v H dev b" and b: "r = Some b" for b v
  proof (rule fpost_fposts [OF alloc_clear_runs [OF st v(1) i(2) v(2,3)]])
    fix a w assume "\<exists>bp. a = Some bp \<and> allocated dev b fp H v bp w \<and> b_filsys w fp = (b_filsys v fp)\<lparr>s_fmod := 1\<rparr>"
    then show "?Q a w" using rg [OF b] fp(1) by (auto simp: allocated_def)
  qed
  have u2: "binv u H" "usable u dev" "\<And>b. not_held u H dev b"
    using sb_only_bio [OF u] i nh by (simp_all add: not_held_def)
  have "fposts (if s_flock (b_filsys t fp) \<noteq> 0 then Asleep (Ch_flock dev) PINOD t
       else case alloc_pick dev fp t of
         (None, s) \<Rightarrow> nospace dev fp s
       | (Some bno, s) \<Rightarrow>
           if sint (s_nfree (b_filsys s fp)) \<le> 0
           then fbind (alloc_refill strat dev fp bno s) (\<lambda>_ s.
                  if sint (s_nfree (b_filsys s fp)) \<le> 0 then nospace dev fp s else alloc_clear strat dev fp bno s)
           else alloc_clear strat dev fp bno s) ?Q"
  proof (cases r)
    case None
    then show ?thesis using ns [of u] p by simp
  next
    case (Some b)
    have "fposts (fbind (alloc_refill strat dev fp b u) (\<lambda>_ s. if sint (s_nfree (b_filsys s fp)) \<le> 0 then nospace dev fp s else alloc_clear strat dev fp b s)) ?Q"
    proof (rule fposts_bind, rule fpost_fposts [OF alloc_refill_runs [OF st u2(1) i(2) u2(2,3)]])
      fix a v
      assume v: "binv v H \<and> cont v = cont u \<and> (\<forall>c \<in> H. same_buf c u v) \<and> alc_only fp u v \<and> u_error v = u_error u \<and> console v = console u \<and>
        b_filsys v fp = (b_filsys u fp)\<lparr>s_nfree := df_nfree (cont u dev b), s_free := df_free (cont u dev b), s_flock := 0\<rparr>"
      have "not_held v H dev b" using u2(3) [of b] v by (auto simp: not_held_def same_buf_def)
      then have "fposts (alloc_clear strat dev fp b v) ?Q" using clear [of v b] v u2(2) alc_only_usable Some by metis
      then show "fposts (if sint (s_nfree (b_filsys v fp)) \<le> 0 then nospace dev fp v else alloc_clear strat dev fp b v) ?Q"
        using ns [of v] by simp
    qed
    moreover have "fposts (alloc_clear strat dev fp b u) ?Q" by (rule clear [OF u2 Some])
    ultimately show ?thesis using p Some by simp
  qed
  then show "fposts (getfs dev s) (\<lambda>fp s. fposts (if s_flock (b_filsys s fp) \<noteq> 0 then Asleep (Ch_flock dev) PINOD s
       else case alloc_pick dev fp s of
         (None, s) \<Rightarrow> nospace dev fp s
       | (Some bno, s) \<Rightarrow>
           if sint (s_nfree (b_filsys s fp)) \<le> 0
           then fbind (alloc_refill strat dev fp bno s) (\<lambda>_ s.
                  if sint (s_nfree (b_filsys s fp)) \<le> 0 then nospace dev fp s else alloc_clear strat dev fp bno s)
           else alloc_clear strat dev fp bno s) ?Q)" unfolding Ret by simp
qed simp_all

section \<open>The properties\<close>

text \<open>
  C8. The free list of a file system is a stack. When it has the free blocks \<open>b # L\<close>, in the super block and in the blocks chained
  to it, \<open>alloc\<close> returns the block \<open>b\<close>, cleared and held, and the free blocks are \<open>L\<close>; when there are none it reports \<open>ENOSPC\<close>. \<open>free\<close>
  of a block in range puts it in front of the free blocks, and \<open>alloc\<close> after \<open>free\<close> gives the same block back. No other block of any
  device changes, and the buffer cache keeps its invariant.
\<close>

theorem allocator_is_stack:
  assumes st: "sync_driver strat" and i: "binv s H" "H \<noteq> pool" "usable s dev" "\<forall>c \<in> H. b_dev s c \<noteq> dev" and f: "fs_free s dev fp L"
    and b: "b \<noteq> 0" "in_range (b_filsys s fp) b" "b \<notin> set L"
  shows "(case L of
       [] \<Rightarrow> fpost (alloc strat dev s) (\<lambda>r t. r = None \<and> u_error t = ENOSPC \<and> fs_free t dev fp [] \<and> binv t H \<and> cont t = cont s)
     | x # L' \<Rightarrow> fpost (alloc strat dev s) (\<lambda>r t. \<exists>bp. r = Some bp \<and> allocated dev x fp H s bp t \<and> fs_free t dev fp L')) \<and>
    fpost (free strat dev b s) (\<lambda>_ t. changed_at dev b fp H s t \<and> fs_free t dev fp (b # L)) \<and>
    fpost (fbind (free strat dev b s) (\<lambda>_. alloc strat dev)) (\<lambda>r t. \<exists>bp. r = Some bp \<and> b_blkno t bp = b \<and> fs_free t dev fp L)"
proof (intro conjI)
  have nh: "not_held s H dev x" for x using i(4) by (simp add: not_held_def)
  show "case L of
       [] \<Rightarrow> fpost (alloc strat dev s) (\<lambda>r t. r = None \<and> u_error t = ENOSPC \<and> fs_free t dev fp [] \<and> binv t H \<and> cont t = cont s)
     | x # L' \<Rightarrow> fpost (alloc strat dev s) (\<lambda>r t. \<exists>bp. r = Some bp \<and> allocated dev x fp H s bp t \<and> fs_free t dev fp L')"
  proof (cases L)
    case Nil
    then show ?thesis using fpost_mono [OF alloc_fails [OF f [unfolded Nil] i(1)]] by simp
  next
    case (Cons x L')
    then show ?thesis using alloc_takes [OF st i(1-3) nh f [unfolded Cons]] by simp
  qed
  show fr: "fpost (free strat dev b s) (\<lambda>_ t. changed_at dev b fp H s t \<and> fs_free t dev fp (b # L))"
    by (rule free_gives [OF st i(1-3) nh f b])
  show "fpost (fbind (free strat dev b s) (\<lambda>_. alloc strat dev)) (\<lambda>r t. \<exists>bp. r = Some bp \<and> b_blkno t bp = b \<and> fs_free t dev fp L)"
  proof (rule fpost_bind, rule fpost_mono [OF fr])
    fix a t assume t: "changed_at dev b fp H s t \<and> fs_free t dev fp (b # L)"
    then have "usable t dev" "not_held t H dev b" using i(3) alc_only_usable [of fp s t] nh [of b] by (auto simp: changed_at_def not_held_def same_buf_def)
    from alloc_takes [OF st _ i(2) this] show "fpost (alloc strat dev t) (\<lambda>r t. \<exists>bp. r = Some bp \<and> b_blkno t bp = b \<and> fs_free t dev fp L)"
      using t unfolding changed_at_def by (blast intro: fpost_mono dest: allocated_def [THEN iffD1])
  qed
qed


text \<open>A file system of ten blocks on the disk of the demonstration: two i-list blocks, and the blocks 5 and 7 free.\<close>

definition demo_sb :: filsys where
  "demo_sb = \<lparr>s_isize = 4, s_fsize = 10, s_nfree = 3, s_free = [0, 5, 7] @ replicate 47 0, s_ninode = 0, s_inode = replicate 100 0, s_flock = 0,
     s_ilock = 0, s_fmod = 0, s_ronly = 0, s_time = 0, s_rest = []\<rparr>"

definition demo_alc :: alc where
  "demo_alc = bio.extend (bio.truncate demo_bio)
     \<lparr>mounts = (\<lambda>i. if i = 0 then \<lparr>m_dev = 0, m_bufp = Some (Buf 0), m_inodp = None\<rparr> else \<lparr>m_dev = 0, m_bufp = None, m_inodp = None\<rparr>),
      b_filsys = (\<lambda>_. demo_sb), console = []\<rparr>"

lemma demo_alc_bio:
  "binv demo_alc H = binv demo_bio H" "cont demo_alc = cont demo_bio" "usable demo_alc = usable demo_bio" "b_dev demo_alc = b_dev demo_bio"
  by (simp_all add: demo_alc_def bio.extend_def bio.truncate_def binv_def free_ok_def lists_ok_def on_lists_def heads_def home_def usable_def flags_ok_def
      unique_ok_def data_ok_def sizes_ok_def cont_def delayed_at_def fun_eq_iff split: option.split)

lemma demo_alc_free: "fs_free demo_alc 0 (Buf 0) [7, 5]"
proof -
  have "chain c 3 ([0, 5, 7] @ replicate 47 0) (rev (tl (take 3 ([0, 5, 7] @ replicate 47 0))))" for c
    by (rule chain_end) (simp_all add: NICFREE_def)
  then have "chain (cont demo_alc 0) (unat (s_nfree demo_sb)) (s_free demo_sb) [7, 5]" by (simp add: demo_sb_def)
  moreover have "counts_ok demo_sb" "in_range demo_sb 7" "in_range demo_sb 5" by (simp_all add: counts_ok_def demo_sb_def NICFREE_def NICINOD_def in_range_def)
  moreover have "fs_at demo_alc 0 = Some (Buf 0)" "b_filsys demo_alc = (\<lambda>_. demo_sb)"
    by (simp_all add: fs_at_def demo_alc_def bio.extend_def bio.truncate_def NMOUNT_def upt_conv_Cons)
  ultimately show ?thesis by (simp add: fs_free_def demo_sb_def)
qed

theorem allocator_is_stack_witness:
  "fpost (alloc demo_driver 0 demo_alc) (\<lambda>r t. \<exists>bp. r = Some bp \<and> allocated 0 7 (Buf 0) {} demo_alc bp t \<and> fs_free t 0 (Buf 0) [5]) \<and>
   fpost (free demo_driver 0 6 demo_alc) (\<lambda>_ t. fs_free t 0 (Buf 0) [6, 7, 5])"
proof -
  have b: "binv demo_alc {}" "usable demo_alc 0" using demo_bio by (simp_all add: demo_alc_bio)
  have "in_range (b_filsys demo_alc (Buf 0)) 6" by (simp add: demo_alc_def bio.extend_def demo_sb_def in_range_def)
  from allocator_is_stack [OF demo_driver_sync b(1) demo_bio(4) b(2) _ demo_alc_free _ this]
  show ?thesis by (auto elim: fpost_mono)
qed

text \<open>
  C27. Whatever the super block and the disk hold, a block that \<open>alloc\<close> gives out lies behind the i-list and inside the file system,
  is not block zero and comes cleared in a buffer that nobody else holds: \<open>badblock\<close> guards every way through the loop.
\<close>

theorem alloc_stays_in_range:
  assumes "sync_driver strat" "binv s H" "H \<noteq> pool" "usable s dev" "\<forall>c \<in> H. b_dev s c \<noteq> dev" "alloc strat dev s = Ret (Some bp) t"
  shows "bp \<notin> H \<and> b_dev t bp = dev \<and> b_addr t bp = replicate BSIZE 0 \<and> b_blkno t bp \<noteq> 0 \<and>
    uint (s_isize (b_filsys s (the (fs_at s dev)))) \<le> sint (b_blkno t bp) \<and> sint (b_blkno t bp) < sint (s_fsize (b_filsys s (the (fs_at s dev))))"
  using alloc_range [OF assms(1-5)] unfolding assms(6) by (simp add: in_range_def)

theorem alloc_stays_in_range_witness:
  "\<exists>bp t. alloc demo_driver 0 demo_alc = Ret (Some bp) t \<and> 4 \<le> sint (b_blkno t bp) \<and> sint (b_blkno t bp) < 10"
proof -
  have b: "binv demo_alc {}" "usable demo_alc 0" using demo_bio by (simp_all add: demo_alc_bio)
  have "not_held demo_alc {} 0 7" by (simp add: not_held_def)
  from alloc_takes [OF demo_driver_sync b(1) demo_bio(4) b(2) this demo_alc_free]
  obtain bp t where r: "alloc demo_driver 0 demo_alc = Ret (Some bp) t" by (auto elim: fpostE)
  moreover have "b_filsys demo_alc q = demo_sb" for q by (simp add: demo_alc_def bio.extend_def)
  ultimately show ?thesis using alloc_stays_in_range [OF demo_driver_sync b(1) demo_bio(4) b(2) _ r] by (simp add: demo_sb_def)
qed

end
