(* ===== verification/Inode.thy ===== *)
theory Inode
  imports Alloc
begin

text \<open>
  I-nodes (\<open>sys/iget.c\<close>, \<open>bmap\<close> of \<open>sys/subr.c\<close>, \<open>ialloc\<close> and \<open>update\<close> of \<open>sys/alloc.c\<close>): the table of i-nodes in core, their form on
  the disk, the blocks of a file through its direct and indirect addresses, and the allocation of i-nodes. The properties are that
  \<open>bmap\<close> computes the tree of addresses and that an i-node written is read back; what \<open>update\<close> writes is in \<open>Sync\<close>.
\<close>

unbundle bit_operations_syntax

section \<open>The program: i-nodes in core\<close>

text \<open>
  The table of i-nodes. The flags of an i-node are the set of the flag bits that are on; \<open>i_addr\<close> are its 13 addresses, of which
  the first is the device of a special file. \<open>rablock\<close> is the block for the read ahead, \<open>time\<close> the time of day.
\<close>

definition NINODE :: nat where "NINODE = 200"
definition NADDR :: nat where "NADDR = 13"
definition NINDIR :: nat where "NINDIR = 128"
definition INOPB :: nat where "INOPB = 8"
definition ROOTINO :: u16 where "ROOTINO = 2"
definition SUPERB :: u32 where "SUPERB = 1"
definition ENFILE :: u8 where "ENFILE = 23"
definition EFBIG :: u8 where "EFBIG = 27"

definition IFMT :: u16 where "IFMT = 0xF000"
definition IFDIR :: u16 where "IFDIR = 0x4000"
definition IFCHR :: u16 where "IFCHR = 0x2000"
definition IFBLK :: u16 where "IFBLK = 0x6000"
definition IFREG :: u16 where "IFREG = 0x8000"
definition IFMPC :: u16 where "IFMPC = 0x3000"
definition IFMPB :: u16 where "IFMPB = 0x7000"

datatype iflag = ILOCK | IUPD | IACC | IMOUNT | IWANT | ITEXT | ICHG

record inode =
  i_flag :: "iflag set"
  i_count :: u8
  i_dev :: u16
  i_number :: u16
  i_mode :: u16
  i_nlink :: u16
  i_uid :: u16
  i_gid :: u16
  i_size :: u32
  i_addr :: "u32 list"
  i_lastr :: u32

record ino = alc +
  inodes :: "nat \<Rightarrow> inode"
  time :: u32
  updlock :: bool
  rablock :: u32

definition i_upd :: "nat \<Rightarrow> (inode \<Rightarrow> inode) \<Rightarrow> 'a ino_scheme \<Rightarrow> 'a ino_scheme" where
  "i_upd i g s = s\<lparr>inodes := (inodes s)(i := g (inodes s i))\<rparr>"

definition kprintf :: "string \<Rightarrow> 'a alc_scheme \<Rightarrow> 'a alc_scheme" where
  "kprintf str s = s\<lparr>console := (str, 0) # console s\<rparr>"

definition itod :: "u16 \<Rightarrow> u32" where
  "itod x = ucast (drop_bit 3 (x + 15))"

definition itoo :: "u16 \<Rightarrow> nat" where
  "itoo x = unat ((x + 15) AND 7)"

text \<open>\<open>prele\<close> (\<open>pipe.c\<close>) unlocks an i-node.\<close>

definition prele :: "nat \<Rightarrow> 'a ino_scheme \<Rightarrow> 'a ino_scheme" where
  "prele i s =
     (let s = i_upd i (\<lambda>ip. ip\<lparr>i_flag := i_flag ip - {ILOCK}\<rparr>) s
      in if IWANT \<in> i_flag (inodes s i) then awaken (Ch_inode i) (i_upd i (\<lambda>ip. ip\<lparr>i_flag := i_flag ip - {IWANT}\<rparr>) s) else s)"

section \<open>The program: i-nodes on the disk\<close>

text \<open>The fields of \<open>struct dinode\<close>, 64 bytes: eight integers' worth of fields, 40 bytes of addresses, and the three times.\<close>

definition addr_expand :: "u8 list \<Rightarrow> u32" where
  "addr_expand b = bytes_long [b ! 0, 0, b ! 1, b ! 2]"

definition addr_pack :: "u32 \<Rightarrow> u8 list" where
  "addr_pack a = (let b = long_bytes a in [b ! 0, b ! 2, b ! 3])"

definition iexpand :: "u8 list \<Rightarrow> inode \<Rightarrow> inode" where
  "iexpand d ip = ip\<lparr>i_mode := bytes_int (get_bytes 0 2 d), i_nlink := bytes_int (get_bytes 2 2 d), i_uid := bytes_int (get_bytes 4 2 d),
     i_gid := bytes_int (get_bytes 6 2 d), i_size := bytes_long (get_bytes 8 4 d),
     i_addr := map (\<lambda>k. addr_expand (get_bytes (12 + 3 * k) 3 d)) [0..<NADDR]\<rparr>"

definition dinode_put :: "inode \<Rightarrow> u8 list \<Rightarrow> u8 list" where
  "dinode_put ip d = put_bytes 0 (int_bytes (i_mode ip) @ int_bytes (i_nlink ip) @ int_bytes (i_uid ip) @ int_bytes (i_gid ip) @
     long_bytes (i_size ip) @ concat (map addr_pack (i_addr ip))) d"

definition dinode_times :: "iflag set \<Rightarrow> u32 \<Rightarrow> u32 \<Rightarrow> u32 \<Rightarrow> u8 list \<Rightarrow> u8 list" where
  "dinode_times F ta tm tc d =
     (let d = (if IACC \<in> F then put_bytes 52 (long_bytes ta) d else d);
          d = (if IUPD \<in> F then put_bytes 56 (long_bytes tm) d else d)
      in if ICHG \<in> F then put_bytes 60 (long_bytes tc) d else d)"

text \<open>The addresses whose second byte is not zero, each of which is complained of.\<close>

definition addr_overflows :: "inode \<Rightarrow> nat" where
  "addr_overflows ip =
     (if i_mode ip AND IFMT = IFMPC \<or> i_mode ip AND IFMT = IFMPB then 0 else length (filter (\<lambda>a. long_bytes a ! 1 \<noteq> 0) (i_addr ip)))"

definition iupdat :: "'a ino_ext alc_ext strategy \<Rightarrow> nat \<Rightarrow> u32 \<Rightarrow> u32 \<Rightarrow> 'a ino_scheme \<Rightarrow> (unit, 'a ino_scheme) fres" where
  "iupdat strat i ta tm s =
     (let ip = inodes s i in
      if i_flag ip \<inter> {IUPD, IACC, ICHG} = {} then Ret () s
      else fbind (getfs (i_dev ip) s) (\<lambda>fp s.
        if s_ronly (b_filsys s fp) \<noteq> 0 then Ret () s
        else fbind (bread strat (i_dev ip) (itod (i_number ip)) s) (\<lambda>bp s.
          if B_ERROR \<in> b_flags s bp then Ret () (brelse bp s)
          else
            let off = 64 * itoo (i_number ip); b = b_addr s bp;
                d = dinode_times (i_flag ip) ta tm (time s) (dinode_put ip (get_bytes off 64 b));
                s = (kprintf ''iaddress > 2^24'' ^^ addr_overflows ip) s;
                s = s\<lparr>b_addr := (b_addr s)(bp := put_bytes off d b)\<rparr>;
                s = i_upd i (\<lambda>ip. ip\<lparr>i_flag := i_flag ip - {IUPD, IACC, ICHG}\<rparr>) s
            in bdwrite strat bp s)))"

section \<open>The program: freeing a file\<close>

text \<open>
  \<open>tloop\<close>: the loop over the addresses of an indirect block, from the last to the first; \<open>sub\<close> is what is done with an address
  instead of \<open>free\<close>.
\<close>

fun tloop_for :: "'a ino_ext alc_ext strategy \<Rightarrow> u16 \<Rightarrow> u32 \<Rightarrow> (u32 \<Rightarrow> 'a ino_scheme \<Rightarrow> (unit, 'a ino_scheme) fres) option \<Rightarrow> nat \<Rightarrow> bnode option \<Rightarrow>
    'a ino_scheme \<Rightarrow> (unit, 'a ino_scheme) fres" where
  "tloop_for strat dev bn sub 0 bp s =
     free strat dev bn (case bp of Some bp \<Rightarrow> brelse bp s | None \<Rightarrow> s)"
| "tloop_for strat dev bn sub (Suc i) bp s =
     fbind (case bp of Some bp \<Rightarrow> Ret bp s | None \<Rightarrow> bread strat dev bn s) (\<lambda>b s.
       if bp = None \<and> B_ERROR \<in> b_flags s b then Ret () (brelse b s)
       else let nb = bytes_long (get_bytes (4 * i) 4 (b_addr s b)) in
         if nb = 0 then tloop_for strat dev bn sub i (Some b) s
         else case sub of
           Some f \<Rightarrow> fbind (f nb (brelse b s)) (\<lambda>_ s. tloop_for strat dev bn sub i None s)
         | None \<Rightarrow> fbind (free strat dev nb s) (\<lambda>_ s. tloop_for strat dev bn sub i (Some b) s))"

function tloop :: "'a ino_ext alc_ext strategy \<Rightarrow> u16 \<Rightarrow> u32 \<Rightarrow> bool \<Rightarrow> bool \<Rightarrow> 'a ino_scheme \<Rightarrow> (unit, 'a ino_scheme) fres" where
  "tloop strat dev bn f1 f2 s =
     tloop_for strat dev bn (if f1 then Some (\<lambda>nb s. tloop strat dev nb f2 False s) else None) NINDIR None s"
  by pat_completeness auto
termination
  by (relation "measure (\<lambda>(strat, dev, bn, f1, f2, s). of_bool f1 + of_bool f2)") auto

declare tloop.simps [simp del]

fun itrunc_loop :: "'a ino_ext alc_ext strategy \<Rightarrow> u16 \<Rightarrow> nat \<Rightarrow> nat \<Rightarrow> 'a ino_scheme \<Rightarrow> (unit, 'a ino_scheme) fres" where
  "itrunc_loop strat dev i 0 s = Ret () s"
| "itrunc_loop strat dev i (Suc k) s =
     (let bn = i_addr (inodes s i) ! k in
      if bn = 0 then itrunc_loop strat dev i k s
      else let s = i_upd i (\<lambda>ip. ip\<lparr>i_addr := (i_addr ip)[k := 0]\<rparr>) s in
        fbind (if k = NADDR - 3 then tloop strat dev bn False False s
               else if k = NADDR - 2 then tloop strat dev bn True False s
               else if k = NADDR - 1 then tloop strat dev bn True True s
               else free strat dev bn s) (\<lambda>_ s. itrunc_loop strat dev i k s))"

definition itrunc :: "'a ino_ext alc_ext strategy \<Rightarrow> nat \<Rightarrow> 'a ino_scheme \<Rightarrow> (unit, 'a ino_scheme) fres" where
  "itrunc strat i s =
     (let f = i_mode (inodes s i) AND IFMT in
      if f \<noteq> IFREG \<and> f \<noteq> IFDIR then Ret () s
      else fbind (itrunc_loop strat (i_dev (inodes s i)) i NADDR s) (\<lambda>_ s.
        Ret () (i_upd i (\<lambda>ip. ip\<lparr>i_size := 0, i_flag := i_flag ip \<union> {ICHG, IUPD}\<rparr>) s)))"

definition iput :: "'a ino_ext alc_ext strategy \<Rightarrow> nat \<Rightarrow> 'a ino_scheme \<Rightarrow> (unit, 'a ino_scheme) fres" where
  "iput strat i s =
     fbind (if i_count (inodes s i) = 1
            then let s = i_upd i (\<lambda>ip. ip\<lparr>i_flag := insert ILOCK (i_flag ip)\<rparr>) s in
              fbind (if sint (i_nlink (inodes s i)) \<le> 0
                     then fbind (itrunc strat i s) (\<lambda>_ s.
                       let s = i_upd i (\<lambda>ip. ip\<lparr>i_mode := 0, i_flag := i_flag ip \<union> {IUPD, ICHG}\<rparr>) s
                       in ifree (i_dev (inodes s i)) (i_number (inodes s i)) s)
                     else Ret () s) (\<lambda>_ s.
              fbind (iupdat strat i (time s) (time s) s) (\<lambda>_ s.
                Ret () (i_upd i (\<lambda>ip. ip\<lparr>i_flag := {}, i_number := 0\<rparr>) (prele i s))))
            else Ret () s) (\<lambda>_ s.
       Ret () (prele i (i_upd i (\<lambda>ip. ip\<lparr>i_count := i_count ip - 1\<rparr>) s)))"

section \<open>The program: getting an i-node\<close>

definition iget_read :: "'a ino_ext alc_ext strategy \<Rightarrow> nat \<Rightarrow> u16 \<Rightarrow> u16 \<Rightarrow> 'a ino_scheme \<Rightarrow> (nat option, 'a ino_scheme) fres" where
  "iget_read strat i dev n s =
     (let s = i_upd i (\<lambda>ip. ip\<lparr>i_dev := dev, i_number := n, i_flag := {ILOCK}, i_count := i_count ip + 1, i_lastr := 0\<rparr>) s in
      fbind (bread strat dev (itod n) s) (\<lambda>bp s.
        if B_ERROR \<in> b_flags s bp then fbind (iput strat i (brelse bp s)) (\<lambda>_ s. Ret None s)
        else Ret (Some i) (brelse bp (i_upd i (iexpand (get_bytes (64 * itoo n) 64 (b_addr s bp))) s))))"

text \<open>The count bounds the rounds of \<open>goto loop\<close>: one for each mounted file system that is crossed.\<close>

fun iget_loop :: "nat \<Rightarrow> 'a ino_ext alc_ext strategy \<Rightarrow> u16 \<Rightarrow> u16 \<Rightarrow> 'a ino_scheme \<Rightarrow> (nat option, 'a ino_scheme) fres" where
  "iget_loop 0 strat dev n s = Endless"
| "iget_loop (Suc k) strat dev n s =
     (case find (\<lambda>i. i_number (inodes s i) = n \<and> i_dev (inodes s i) = dev) [0..<NINODE] of
        Some i \<Rightarrow>
          if ILOCK \<in> i_flag (inodes s i) then Asleep (Ch_inode i) PINOD (i_upd i (\<lambda>ip. ip\<lparr>i_flag := insert IWANT (i_flag ip)\<rparr>) s)
          else if IMOUNT \<in> i_flag (inodes s i) then
            (case find (\<lambda>j. m_inodp (mounts s j) = Some i) [0..<NMOUNT] of
               Some j \<Rightarrow> iget_loop k strat (m_dev (mounts s j)) ROOTINO s
             | None \<Rightarrow> Panics ''no imt'')
          else Ret (Some i) (i_upd i (\<lambda>ip. ip\<lparr>i_count := i_count ip + 1, i_flag := insert ILOCK (i_flag ip)\<rparr>) s)
      | None \<Rightarrow>
          (case find (\<lambda>i. i_count (inodes s i) = 0) [0..<NINODE] of
             None \<Rightarrow> Ret None ((kprintf ''Inode table overflow'' s)\<lparr>u_error := ENFILE\<rparr>)
           | Some i \<Rightarrow> iget_read strat i dev n s))"

definition iget :: "'a ino_ext alc_ext strategy \<Rightarrow> u16 \<Rightarrow> u16 \<Rightarrow> 'a ino_scheme \<Rightarrow> (nat option, 'a ino_scheme) fres" where
  "iget strat dev n s = iget_loop (NMOUNT + 1) strat dev n s"

section \<open>The program: the blocks of a file\<close>

text \<open>
  \<open>bmap\<close>, with \<open>rd\<close> for \<open>rwflg == B_READ\<close>. A new block is got for an address of the i-node (\<open>bmap_inode\<close>) or of an indirect block
  (\<open>bmap_ind\<close>) that is zero; None, and -1, is that there is none. \<open>bmap_level\<close> finds how many levels of indirection there are: \<open>j\<close> counts
  down to the level that holds the block.
\<close>

definition bmap_inode :: "'a ino_ext alc_ext strategy \<Rightarrow> nat \<Rightarrow> nat \<Rightarrow> bool \<Rightarrow> 'a ino_scheme \<Rightarrow> (u32 option, 'a ino_scheme) fres" where
  "bmap_inode strat i k rd s =
     (let nb = i_addr (inodes s i) ! k in
      if nb \<noteq> 0 then Ret (Some nb) s
      else if rd then Ret None s
      else fbind (alloc strat (i_dev (inodes s i)) s) (\<lambda>r s.
        case r of
          None \<Rightarrow> Ret None s
        | Some bp \<Rightarrow>
            let nb = b_blkno s bp in
            fbind (bdwrite strat bp s) (\<lambda>_ s.
              Ret (Some nb) (i_upd i (\<lambda>ip. ip\<lparr>i_addr := (i_addr ip)[k := nb], i_flag := i_flag ip \<union> {IUPD, ICHG}\<rparr>) s))))"

fun bmap_level :: "nat \<Rightarrow> nat \<Rightarrow> u32 \<Rightarrow> u32 \<Rightarrow> nat \<times> nat \<times> u32" where
  "bmap_level 0 sh nb bn = (0, sh, bn)"
| "bmap_level (Suc j) sh nb bn =
     (let sh = sh + 7; nb = push_bit 7 nb
      in if sint bn < sint nb then (Suc j, sh, bn) else bmap_level j sh nb (bn - nb))"

fun bmap_ind :: "'a ino_ext alc_ext strategy \<Rightarrow> u16 \<Rightarrow> bool \<Rightarrow> nat \<Rightarrow> nat \<Rightarrow> u32 \<Rightarrow> u32 \<Rightarrow> nat \<times> bnode \<Rightarrow> 'a ino_scheme \<Rightarrow>
    (u32 \<times> (nat \<times> bnode) option, 'a ino_scheme) fres" where
  "bmap_ind strat dev rd 0 sh bn nb ib s = Ret (nb, Some ib) s"
| "bmap_ind strat dev rd (Suc n) sh bn nb ib s =
     fbind (bread strat dev nb s) (\<lambda>bp s.
       if B_ERROR \<in> b_flags s bp then Ret (0, None) (brelse bp s)
       else
         let sh = sh - 7; i = unat (drop_bit sh bn AND 127); nb = bytes_long (get_bytes (4 * i) 4 (b_addr s bp)) in
         if nb \<noteq> 0 then bmap_ind strat dev rd n sh bn nb (i, bp) (brelse bp s)
         else if rd then Ret (- 1, None) (brelse bp s)
         else fbind (alloc strat dev s) (\<lambda>r s.
           case r of
             None \<Rightarrow> Ret (- 1, None) (brelse bp s)
           | Some nbp \<Rightarrow>
               let nb = b_blkno s nbp in
               fbind (bdwrite strat nbp s) (\<lambda>_ s.
               fbind (bdwrite strat bp (s\<lparr>b_addr := (b_addr s)(bp := put_bytes (4 * i) (long_bytes nb) (b_addr s bp))\<rparr>)) (\<lambda>_ s.
                 bmap_ind strat dev rd n sh bn nb (i, bp) s))))"

definition bmap :: "'a ino_ext alc_ext strategy \<Rightarrow> nat \<Rightarrow> u32 \<Rightarrow> bool \<Rightarrow> 'a ino_scheme \<Rightarrow> (u32, 'a ino_scheme) fres" where
  "bmap strat i bn rd s =
     (if sint bn < 0 then Ret 0 (s\<lparr>u_error := EFBIG\<rparr>)
      else
        let dev = i_dev (inodes s i); s = s\<lparr>rablock := 0\<rparr> in
        if sint bn < int NADDR - 3 then
          fbind (bmap_inode strat i (unat bn) rd s) (\<lambda>r s.
            case r of
              None \<Rightarrow> Ret (- 1) s
            | Some nb \<Rightarrow> Ret nb (if unat bn < NADDR - 4 then s\<lparr>rablock := i_addr (inodes s i) ! (unat bn + 1)\<rparr> else s))
        else
          case bmap_level 3 0 1 (bn - of_nat (NADDR - 3)) of (j, sh, bn) \<Rightarrow>
            if j = 0 then Ret 0 (s\<lparr>u_error := EFBIG\<rparr>)
            else fbind (bmap_inode strat i (NADDR - j) rd s) (\<lambda>r s.
              case r of
                None \<Rightarrow> Ret (- 1) s
              | Some nb \<Rightarrow>
                  fbind (bmap_ind strat dev rd (4 - j) sh bn nb (0, Free_head) s) (\<lambda>(nb, ib) s.
                    case ib of
                      None \<Rightarrow> Ret nb s
                    | Some (k, bp) \<Rightarrow>
                        Ret nb (if k < NINDIR - 1 then s\<lparr>rablock := bytes_long (get_bytes (4 * (k + 1)) 4 (b_addr s bp))\<rparr> else s))))"

text \<open>The pair that goes into the loop of \<open>bmap_ind\<close> is not used: the loop runs at least once.\<close>

section \<open>The program: allocating an i-node\<close>

text \<open>One i-list block: the eight i-nodes of it, of which \<open>k\<close> are left; \<open>ino\<close> is the number of the next one.\<close>

fun ialloc_dinodes :: "u16 \<Rightarrow> bnode \<Rightarrow> u8 list \<Rightarrow> nat \<Rightarrow> u16 \<Rightarrow> 'a ino_scheme \<Rightarrow> u16 \<times> 'a ino_scheme" where
  "ialloc_dinodes dev fp b 0 n s = (n, s)"
| "ialloc_dinodes dev fp b (Suc k) n s =
     (if bytes_int (get_bytes (64 * (INOPB - Suc k)) 2 b) \<noteq> 0 \<or> (\<exists>i \<in> set [0..<NINODE]. dev = i_dev (inodes s i) \<and> n = i_number (inodes s i))
      then ialloc_dinodes dev fp b k (n + 1) s
      else let s = fs_upd fp (\<lambda>f. f\<lparr>s_inode := (s_inode f)[unat (s_ninode f) := n], s_ninode := s_ninode f + 1\<rparr>) s in
        if sint (s_ninode (b_filsys s fp)) \<ge> int NICINOD then (n, s) else ialloc_dinodes dev fp b k (n + 1) s)"

fun ialloc_blocks :: "'a ino_ext alc_ext strategy \<Rightarrow> u16 \<Rightarrow> bnode \<Rightarrow> nat \<Rightarrow> u32 \<Rightarrow> u16 \<Rightarrow> 'a ino_scheme \<Rightarrow> (unit, 'a ino_scheme) fres" where
  "ialloc_blocks strat dev fp 0 adr n s = Ret () s"
| "ialloc_blocks strat dev fp (Suc k) adr n s =
     fbind (bread strat dev adr s) (\<lambda>bp s.
       if B_ERROR \<in> b_flags s bp then ialloc_blocks strat dev fp k (adr + 1) (n + of_nat INOPB) (brelse bp s)
       else case ialloc_dinodes dev fp (b_addr s bp) INOPB n s of (n, s) \<Rightarrow>
         let s = brelse bp s in
         if sint (s_ninode (b_filsys s fp)) \<ge> int NICINOD then Ret () s else ialloc_blocks strat dev fp k (adr + 1) n s)"

fun ialloc_loop :: "nat \<Rightarrow> 'a ino_ext alc_ext strategy \<Rightarrow> u16 \<Rightarrow> bnode \<Rightarrow> 'a ino_scheme \<Rightarrow> (nat option, 'a ino_scheme) fres" where
  "ialloc_loop 0 strat dev fp s = Endless"
| "ialloc_loop (Suc k) strat dev fp s =
     (if sint (s_ninode (b_filsys s fp)) > 0 then
        let s = fs_upd fp (\<lambda>f. f\<lparr>s_ninode := s_ninode f - 1\<rparr>) s;
            n = s_inode (b_filsys s fp) ! unat (s_ninode (b_filsys s fp))
        in if n < ROOTINO then ialloc_loop k strat dev fp s
           else fbind (iget strat dev n s) (\<lambda>r s.
             case r of
               None \<Rightarrow> Ret None s
             | Some i \<Rightarrow>
                 if i_mode (inodes s i) = 0
                 then Ret (Some i) (fs_upd fp (\<lambda>f. f\<lparr>s_fmod := 1\<rparr>) (i_upd i (\<lambda>ip. ip\<lparr>i_addr := replicate NADDR 0\<rparr>) s))
                 else fbind (iput strat i s) (\<lambda>_ s. ialloc_loop k strat dev fp s))
      else
        let s = fs_upd fp (\<lambda>f. f\<lparr>s_ilock := s_ilock f + 1\<rparr>) s in
        fbind (ialloc_blocks strat dev fp (unat (s_isize (b_filsys s fp)) - 2) (SUPERB + 1) 1 s) (\<lambda>_ s.
          let s = awaken (Ch_ilock dev) (fs_upd fp (\<lambda>f. f\<lparr>s_ilock := 0\<rparr>) s) in
          if sint (s_ninode (b_filsys s fp)) > 0 then ialloc_loop k strat dev fp s
          else Ret None ((prdev ''Out of inodes'' dev s)\<lparr>u_error := ENOSPC\<rparr>)))"

definition ialloc :: "'a ino_ext alc_ext strategy \<Rightarrow> u16 \<Rightarrow> 'a ino_scheme \<Rightarrow> (nat option, 'a ino_scheme) fres" where
  "ialloc strat dev s =
     fbind (getfs dev s) (\<lambda>fp s.
       if s_ilock (b_filsys s fp) \<noteq> 0 then Asleep (Ch_ilock dev) PINOD s
       else ialloc_loop (2 * NICINOD + 2) strat dev fp s)"

section \<open>The program: update\<close>

definition filsys_bytes :: "filsys \<Rightarrow> u8 list" where
  "filsys_bytes f = int_bytes (s_isize f) @ long_bytes (s_fsize f) @ int_bytes (s_nfree f) @ longs_bytes (s_free f) @
     int_bytes (s_ninode f) @ ints_bytes (s_inode f) @ [s_flock f, s_ilock f, s_fmod f, s_ronly f] @ long_bytes (s_time f) @ s_rest f"

fun update_supers :: "'a ino_ext alc_ext strategy \<Rightarrow> nat list \<Rightarrow> 'a ino_scheme \<Rightarrow> (unit, 'a ino_scheme) fres" where
  "update_supers strat [] s = Ret () s"
| "update_supers strat (j # js) s =
     (case m_bufp (mounts s j) of
        None \<Rightarrow> update_supers strat js s
      | Some fp \<Rightarrow>
          let f = b_filsys s fp in
          if s_fmod f = 0 \<or> s_ilock f \<noteq> 0 \<or> s_flock f \<noteq> 0 \<or> s_ronly f \<noteq> 0 then update_supers strat js s
          else fbind (getblk strat (m_dev (mounts s j)) SUPERB s) (\<lambda>bp s.
            if B_ERROR \<in> b_flags s bp then update_supers strat js s
            else
              let s = fs_upd fp (\<lambda>f. f\<lparr>s_fmod := 0, s_time := time s\<rparr>) s;
                  s = s\<lparr>b_addr := (b_addr s)(bp := put_bytes 0 (take BSIZE (filsys_bytes (b_filsys s fp))) (b_addr s bp))\<rparr>
              in fbind (bwrite strat bp s) (\<lambda>_ s. update_supers strat js s)))"

fun update_inodes :: "'a ino_ext alc_ext strategy \<Rightarrow> nat list \<Rightarrow> 'a ino_scheme \<Rightarrow> (unit, 'a ino_scheme) fres" where
  "update_inodes strat [] s = Ret () s"
| "update_inodes strat (i # is) s =
     (if ILOCK \<notin> i_flag (inodes s i) \<and> i_count (inodes s i) \<noteq> 0 then
        let s = i_upd i (\<lambda>ip. ip\<lparr>i_flag := insert ILOCK (i_flag ip), i_count := i_count ip + 1\<rparr>) s in
        fbind (iupdat strat i (time s) (time s) s) (\<lambda>_ s. fbind (iput strat i s) (\<lambda>_ s. update_inodes strat is s))
      else update_inodes strat is s)"

definition update :: "'a ino_ext alc_ext strategy \<Rightarrow> 'a ino_scheme \<Rightarrow> (unit, 'a ino_scheme) fres" where
  "update strat s =
     (if updlock s then Ret () s
      else fbind (update_supers strat [0..<NMOUNT] (s\<lparr>updlock := True\<rparr>)) (\<lambda>_ s.
           fbind (update_inodes strat [0..<NINODE] s) (\<lambda>_ s.
             bflush strat NODEV (s\<lparr>updlock := False\<rparr>))))"

section \<open>What the routines keep\<close>

lemma bio_ino [simp]:
  "binv (s\<lparr>inodes := x\<rparr>) H = binv s H" "binv (s\<lparr>rablock := y\<rparr>) H = binv s H" "cont (s\<lparr>inodes := x\<rparr>) = cont s" "cont (s\<lparr>rablock := y\<rparr>) = cont s"
  "usable (s\<lparr>inodes := x\<rparr>) = usable s" "usable (s\<lparr>rablock := y\<rparr>) = usable s"
  "same_buf c t (s\<lparr>inodes := x\<rparr>) = same_buf c t s" "same_buf c t (s\<lparr>rablock := y\<rparr>) = same_buf c t s"
  by (simp_all add: binv_def free_ok_def lists_ok_def on_lists_def heads_def home_def usable_def flags_ok_def unique_ok_def data_ok_def sizes_ok_def
      cont_def delayed_at_def same_buf_def fun_eq_iff split: option.split)

text \<open>What looking at a file leaves alone: everything but the cache and \<open>rablock\<close>.\<close>

definition look_only :: "bnode set \<Rightarrow> 'a ino_scheme \<Rightarrow> 'a ino_scheme \<Rightarrow> bool" where
  "look_only H s t \<longleftrightarrow> binv t H \<and> cont t = cont s \<and> (\<forall>c \<in> H. same_buf c s t) \<and> bio_only (s\<lparr>rablock := 0\<rparr>) (t\<lparr>rablock := 0\<rparr>)"

lemma bio_only_ino: "bio_only s t \<Longrightarrow> inodes t = inodes s \<and> time t = time s \<and> updlock t = updlock s \<and> rablock t = rablock s \<and> ino.more t = ino.more s"
  by (cases s; cases t) (simp add: bio_only_def)

lemma bio_only_rablock: "bio_only s t \<Longrightarrow> bio_only (s\<lparr>rablock := 0\<rparr>) (t\<lparr>rablock := 0\<rparr>)"
  by (cases s; cases t) (simp add: bio_only_def)

lemma look_only_refl: "binv s H \<Longrightarrow> look_only H s s" by (simp add: look_only_def)

lemma look_only_trans: "look_only H s t \<Longrightarrow> look_only H t u \<Longrightarrow> look_only H s u"
  unfolding look_only_def by (elim conjE, intro conjI ballI) (simp, simp, rule same_buf_trans, blast, blast, rule bio_only_trans)

lemma look_only_rablock [simp]: "look_only H s (t\<lparr>rablock := y\<rparr>) = look_only H s t" "look_only H (s\<lparr>rablock := y\<rparr>) t = look_only H s t"
  by (simp_all add: look_only_def same_buf_def)

lemma look_only_same:
  assumes "look_only H s t"
  shows "inodes t = inodes s" "usable t = usable s" "u_base t = u_base s" "u_count t = u_count s" "u_offset t = u_offset s" "u_segflg t = u_segflg s"
    "u_error t = u_error s" "u_mem t = u_mem s" "\<forall>c \<in> H. b_dev t c = b_dev s c" "cont t = cont s" "binv t H"
  using assms bio_only_ino [of "s\<lparr>rablock := 0\<rparr>" "t\<lparr>rablock := 0\<rparr>"] usable_cong [of "s\<lparr>rablock := 0\<rparr>" "t\<lparr>rablock := 0\<rparr>"]
  by (auto simp: look_only_def bio_only_def same_buf_def)

text \<open>Reading a block and giving it back.\<close>

lemma look_block:
  assumes st: "sync_driver strat" and i: "binv s H" "H \<noteq> pool" "usable s dev" "\<forall>c \<in> H. b_dev s c \<noteq> dev"
    and f: "\<And>bp t. B_ERROR \<notin> b_flags t bp \<Longrightarrow> b_addr t bp = cont s dev b \<Longrightarrow> look_only H s (brelse bp t) \<Longrightarrow> b_addr (brelse bp t) bp = cont s dev b \<Longrightarrow> fpost (f bp t) Q"
  shows "fpost (fbind (bread strat dev b s) f) Q"
proof (rule fpost_bind, rule fpost_mono [OF bread_keeps [OF st i(1-3)]])
  show "\<forall>c \<in> H. \<not> (b_dev s c = dev \<and> b_blkno s c = b)" using i(4) by simp
  fix bp t assume g: "got dev b H s bp t \<and> b_addr t bp = cont s dev b"
  then have t: "bp \<notin> H" "binv t (insert bp H)" "b_dev t bp = dev" "b_blkno t bp = b" "cont t = cont s" "bio_only s t" "\<forall>c \<in> H. same_buf c s t"
    "b_addr t bp = cont s dev b" by (simp_all add: got_def)
  have d: "b_addr t bp = cont t (b_dev t bp) (b_blkno t bp)" using t by simp
  note r = brelse_keeps [OF t(2) insertI1 d]
  note h = held_flags [OF t(2) insertI1]
  have "insert bp H - {bp} = H" using t(1) by blast
  moreover have "\<forall>c \<in> H. same_buf c s (brelse bp t)" using same_buf_trans t(1,7) r(4) by metis
  moreover have "bio_only s (brelse bp t)" using bio_only_trans [OF t(6) r(3)] .
  ultimately have "look_only H s (brelse bp t)" using r(1,2) t(5) bio_only_rablock unfolding look_only_def by metis
  moreover have "b_addr (brelse bp t) bp = b_addr t bp"
    by (rule brelse_run [OF h(1-3)]) simp
  ultimately show "fpost (f bp t) Q" using f [of t bp] h(3) t(8) by simp
qed

section \<open>The tree of addresses\<close>

text \<open>
  The block with the index \<open>k\<close> of a file, from its addresses \<open>a\<close> and the contents \<open>c\<close> of the device: the reference definition. \<open>0\<close> is a hole.
\<close>

fun ind_block :: "(u32 \<Rightarrow> u8 list) \<Rightarrow> nat \<Rightarrow> u32 \<Rightarrow> nat \<Rightarrow> u32" where
  "ind_block c 0 nb k = nb"
| "ind_block c (Suc d) nb k =
     (if nb = 0 then 0 else ind_block c d (bytes_long (get_bytes (4 * (k div 128 ^ d mod 128)) 4 (c nb))) k)"

definition file_block :: "(u32 \<Rightarrow> u8 list) \<Rightarrow> u32 list \<Rightarrow> nat \<Rightarrow> u32" where
  "file_block c a k =
     (if k < 10 then a ! k
      else if k < 138 then ind_block c 1 (a ! 10) (k - 10)
      else if k < 16522 then ind_block c 2 (a ! 11) (k - 138)
      else ind_block c 3 (a ! 12) (k - 16522))"

definition max_blocks :: nat where "max_blocks = 10 + 128 + 128 ^ 2 + 128 ^ 3"

lemma ind_block_0 [simp]: "ind_block c d 0 k = 0" by (cases d) simp_all

lemma sint_unat32: "unat w < 2 ^ 31 \<Longrightarrow> sint w = int (unat w)" for w :: "32 word"
proof -
  assume "unat w < 2 ^ 31"
  then have "uint w < 2 ^ 31" by (simp add: unat_eq_nat_uint nat_less_iff del: nat_uint_eq)
  then have "uint w < 2 ^ (LENGTH(32) - 1)" by simp
  then have "sint w = uint w" unfolding sint_uint by (intro signed_take_bit_int_eq_self order_trans [OF _ uint_ge_0]) simp_all
  then show ?thesis by simp
qed

lemma sint_less32: "unat v < 2 ^ 31 \<Longrightarrow> unat w < 2 ^ 31 \<Longrightarrow> sint v < sint w \<longleftrightarrow> unat v < unat w" for v w :: "32 word"
  using sint_unat32 [of v] sint_unat32 [of w] by (simp only: of_nat_less_iff)

lemma unat_minus_nat:
  fixes w :: "32 word"
  assumes "n \<le> unat w"
  shows "unat (w - of_nat n) = unat w - n"
proof -
  have "n < 2 ^ LENGTH(32)" using assms unsigned_less [of w] by (rule le_less_trans)
  then have "unat (of_nat n :: 32 word) = n" by (simp add: unat_of_nat take_bit_nat_eq_self)
  then show ?thesis using assms by (simp add: unat_sub word_le_nat_alt)
qed

lemma bmap_level_run:
  assumes "k = unat bn" "k < 2 ^ 31"
  shows "bmap_level 3 0 1 bn =
    (if k < 128 then (3, 7, bn) else if k < 128 + 128 ^ 2 then (2, 14, bn - 128)
     else if k < 128 + 128 ^ 2 + 128 ^ 3 then (1, 21, bn - 128 - 16384) else (0, 21, bn - 128 - 16384 - 2097152))"
proof -
  have u: "128 \<le> k \<Longrightarrow> unat (bn - 128) = k - 128" "128 + 16384 \<le> k \<Longrightarrow> unat (bn - 128 - 16384) = k - 128 - 16384"
    using unat_minus_nat [of 128 bn] unat_minus_nat [of 16384 "bn - 128"] assms(1) by simp_all
  have c: "sint bn < 128 \<longleftrightarrow> k < 128" using sint_less32 [of bn 128] assms by simp
  have c2: "sint (bn - 128) < 16384 \<longleftrightarrow> k < 128 + 16384" if "128 \<le> k" using sint_less32 [of "bn - 128" 16384] u(1) that assms by auto
  have c3: "sint (bn - 128 - 16384) < 2097152 \<longleftrightarrow> k < 128 + 16384 + 2097152" if "128 + 16384 \<le> k"
    using sint_less32 [of "bn - 128 - 16384" 2097152] u(2) that assms by auto
  have p: "push_bit 7 (1 :: u32) = 128" "push_bit 7 (128 :: u32) = 16384" "push_bit 7 (16384 :: u32) = 2097152" by (simp_all add: push_bit_eq_mult)
  show ?thesis using c c2 c3 by (simp add: numeral_3_eq_3 p Let_def)
qed

lemma bmap_ind_reads:
  assumes st: "sync_driver strat" and H: "H \<noteq> pool"
  shows "binv s H \<Longrightarrow> usable s dev \<Longrightarrow> \<forall>c \<in> H. b_dev s c \<noteq> dev \<Longrightarrow> nb \<noteq> 0 \<Longrightarrow> ib = (k, bp) \<Longrightarrow>
    fpost (bmap_ind strat dev True n (7 * n) bn nb ib s) (\<lambda>(r, ib) t. look_only H s t \<and>
      (if ind_block (cont s dev) n nb (unat bn) = 0 then r = - 1 \<and> ib = None else r = ind_block (cont s dev) n nb (unat bn) \<and> ib \<noteq> None))"
proof (induction n arbitrary: s nb ib k bp)
  case 0
  then show ?case using look_only_refl by simp
next
  case (Suc n)
  let ?i = "unat bn div 128 ^ n mod 128"
  let ?nb = "bytes_long (get_bytes (4 * ?i) 4 (cont s dev nb))"
  have "unat (drop_bit (7 * n) bn AND 127) = unat bn div 2 ^ (7 * n) mod 128"
  proof -
    have "drop_bit (7 * n) bn AND 127 = take_bit 7 (drop_bit (7 * n) bn)" by (simp add: take_bit_eq_mask mask_eq_exp_minus_1)
    moreover have "take_bit LENGTH(32) (unat bn) = unat bn" by (rule take_bit_nat_eq_self) (rule unsigned_less)
    then have "unat (drop_bit (7 * n) bn) = unat bn div 2 ^ (7 * n)" unfolding unsigned_drop_bit_eq by (simp only: drop_bit_eq_div)
    then have "unat (take_bit 7 (drop_bit (7 * n) bn)) = unat bn div 2 ^ (7 * n) mod 128" unfolding unsigned_take_bit_eq by (simp only: take_bit_eq_mod) simp
    ultimately show ?thesis by (simp only:)
  qed
  also have "(2 :: nat) ^ (7 * n) = 128 ^ n" by (simp add: power_mult)
  finally have ix: "unat (drop_bit (7 * n) bn AND 127) = ?i" .
  have ind: "ind_block (cont s dev) (Suc n) nb (unat bn) = ind_block (cont s dev) n ?nb (unat bn)" using Suc.prems(4) by simp
  have sh: "7 * Suc n - 7 = 7 * n" by simp
  show ?case
    unfolding bmap_ind.simps Let_def sh ix ind
  proof (rule look_block [OF st Suc.prems(1) H Suc.prems(2,3)])
    fix b t
    assume b: "B_ERROR \<notin> b_flags t b" "b_addr t b = cont s dev nb" "look_only H s (brelse b t)" "b_addr (brelse b t) b = cont s dev nb"
    note l = look_only_same [OF b(3)]
    show "fpost (if B_ERROR \<in> b_flags t b then Ret (0, None) (brelse b t)
       else if bytes_long (get_bytes (4 * ?i) 4 (b_addr t b)) \<noteq> 0
         then bmap_ind strat dev True n (7 * n) bn (bytes_long (get_bytes (4 * ?i) 4 (b_addr t b))) (?i, b) (brelse b t)
         else if True then Ret (- 1, None) (brelse b t)
         else fbind (alloc strat dev t) (\<lambda>r s. case r of None \<Rightarrow> Ret (- 1, None) (brelse b s)
           | Some nbp \<Rightarrow> fbind (bdwrite strat nbp s) (\<lambda>_ sa. fbind (bdwrite strat b (sa\<lparr>b_addr := (b_addr sa)(b := put_bytes (4 * ?i) (long_bytes (b_blkno s nbp)) (b_addr sa b))\<rparr>))
               (\<lambda>_. bmap_ind strat dev True n (7 * n) bn (b_blkno s nbp) (?i, b)))))
      (\<lambda>(r, ib) t. look_only H s t \<and>
        (if ind_block (cont s dev) n ?nb (unat bn) = 0 then r = - 1 \<and> ib = None else r = ind_block (cont s dev) n ?nb (unat bn) \<and> ib \<noteq> None))"
    proof (cases "?nb = 0")
      case True
      then show ?thesis using b by simp
    next
      case False
      have "fpost (bmap_ind strat dev True n (7 * n) bn ?nb (?i, b) (brelse b t)) (\<lambda>(r, ib) u. look_only H (brelse b t) u \<and>
        (if ind_block (cont (brelse b t) dev) n ?nb (unat bn) = 0 then r = - 1 \<and> ib = None else r = ind_block (cont (brelse b t) dev) n ?nb (unat bn) \<and> ib \<noteq> None))"
        by (rule Suc.IH [OF l(11) _ _ False refl]) (use l Suc.prems in simp_all)
      then have "fpost (bmap_ind strat dev True n (7 * n) bn ?nb (?i, b) (brelse b t)) (\<lambda>(r, ib) u. look_only H s u \<and>
        (if ind_block (cont s dev) n ?nb (unat bn) = 0 then r = - 1 \<and> ib = None else r = ind_block (cont s dev) n ?nb (unat bn) \<and> ib \<noteq> None))"
        using look_only_trans [OF b(3)] unfolding l(10) by (elim fpost_mono) (auto split: prod.splits)
      then show ?thesis using False b by simp
    qed
  qed
qed

lemma bmap_inode_reads:
  "bmap_inode strat i k True s = (if i_addr (inodes s i) ! k = 0 then Ret None s else Ret (Some (i_addr (inodes s i) ! k)) s)"
  by (simp add: bmap_inode_def Let_def)

text \<open>The rest of \<open>bmap\<close>, behind the level.\<close>

lemma bmap_rest_reads:
  assumes st: "sync_driver strat" and i: "binv s H" "H \<noteq> pool" "usable s dev" "\<forall>c \<in> H. b_dev s c \<noteq> dev"
    and d: "d = 4 - j" "1 \<le> j" "j \<le> 3" "a = i_addr (inodes s i) ! (NADDR - j)" "r = ind_block (cont s dev) d a (unat bn)"
  shows "fpost (fbind (bmap_inode strat i (NADDR - j) True s) (\<lambda>r s.
     case r of
       None \<Rightarrow> Ret (- 1) s
     | Some nb \<Rightarrow>
         fbind (bmap_ind strat dev True (4 - j) (7 * d) bn nb (0, Free_head) s) (\<lambda>(nb, ib) s.
           case ib of
             None \<Rightarrow> Ret nb s
           | Some (k, bp) \<Rightarrow>
               Ret nb (if k < NINDIR - 1 then s\<lparr>rablock := bytes_long (get_bytes (4 * (k + 1)) 4 (b_addr s bp))\<rparr> else s))))
     (\<lambda>x t. look_only H s t \<and> x = (if r = 0 then - 1 else r))"
proof (cases "a = 0")
  case True
  then show ?thesis using d look_only_refl [OF i(1)] by (simp add: bmap_inode_reads)
next
  case False
  have "fpost (bmap_ind strat dev True d (7 * d) bn a (0, Free_head) s) (\<lambda>(x, ib) t. look_only H s t \<and>
      (if r = 0 then x = - 1 \<and> ib = None else x = r \<and> ib \<noteq> None))"
    unfolding d(5) by (rule bmap_ind_reads [OF st i(2,1,3,4) False refl])
  then have "fpost (fbind (bmap_ind strat dev True d (7 * d) bn a (0, Free_head) s) (\<lambda>(nb, ib) s.
           case ib of
             None \<Rightarrow> Ret nb s
           | Some (k, bp) \<Rightarrow>
               Ret nb (if k < NINDIR - 1 then s\<lparr>rablock := bytes_long (get_bytes (4 * (k + 1)) 4 (b_addr s bp))\<rparr> else s)))
      (\<lambda>x t. look_only H s t \<and> x = (if r = 0 then - 1 else r))"
    by (intro fpost_bind, elim fpost_mono) (auto split: prod.splits option.splits if_splits)
  then show ?thesis using False d(1,4) by (simp add: bmap_inode_reads)
qed

lemma bmap_reads:
  assumes st: "sync_driver strat" and i: "binv s H" "H \<noteq> pool" "usable s (i_dev (inodes s i))" "\<forall>c \<in> H. b_dev s c \<noteq> i_dev (inodes s i)"
    and k: "k = unat bn" "k < max_blocks" and r: "r = file_block (cont s (i_dev (inodes s i))) (i_addr (inodes s i)) k"
  shows "fpost (bmap strat i bn True s) (\<lambda>x t. look_only H s t \<and> x = (if r = 0 then - 1 else r))"
proof -
  let ?dev = "i_dev (inodes s i)" and ?a = "i_addr (inodes s i)"
  define v where "v = s\<lparr>rablock := 0\<rparr>"
  have v: "binv v H" "usable v ?dev" "\<forall>c \<in> H. b_dev v c \<noteq> ?dev" "inodes v = inodes s" "cont v = cont s" using i by (simp_all add: v_def)
  have look: "look_only H v t = look_only H s t" for t by (simp add: v_def)
  have k31: "k < 2 ^ 31" using k(2) by (simp add: max_blocks_def)
  then have s0: "sint bn = int k" using sint_unat32 [of bn] k(1) by simp
  have s: "\<not> sint bn < 0" "sint bn < int NADDR - 3 \<longleftrightarrow> k < 10" unfolding s0 by (simp_all add: NADDR_def)
  show ?thesis
  proof (cases "k < 10")
    case True
    have "bmap strat i bn True s = fbind (bmap_inode strat i k True v) (\<lambda>r s.
            case r of
              None \<Rightarrow> Ret (- 1) s
            | Some nb \<Rightarrow> Ret nb (if k < NADDR - 4 then s\<lparr>rablock := i_addr (inodes s i) ! (k + 1)\<rparr> else s))"
      unfolding bmap_def Let_def k(1) [symmetric] using True s by (simp add: v_def)
    then show ?thesis using True r look_only_refl [OF i(1)] look [of v] by (simp add: bmap_inode_reads v(4) file_block_def) (simp add: v_def)
  next
    case False
    have u: "unat (bn - 10) = k - 10" using unat_minus_nat [of 10 bn] False k(1) by simp
    have lv: "bmap_level 3 0 1 (bn - 10) = (if k < 138 then (3, 7, bn - 10) else if k < 16522 then (2, 14, bn - 10 - 128) else (1, 21, bn - 10 - 128 - 16384))"
      using bmap_level_run [of "k - 10" "bn - 10"] u k31 k(2) False by (simp add: max_blocks_def) auto
    have u2: "138 \<le> k \<Longrightarrow> unat (bn - 10 - 128) = k - 138" "16522 \<le> k \<Longrightarrow> unat (bn - 10 - 128 - 16384) = k - 16522"
      using unat_minus_nat [of 128 "bn - 10"] unat_minus_nat [of 16384 "bn - 10 - 128"] u by simp_all
    define j where "j = (if k < 138 then 3 else if k < 16522 then 2 else 1 :: nat)"
    define b where "b = (if k < 138 then bn - 10 else if k < 16522 then bn - 10 - 128 else bn - 10 - 128 - 16384)"
    have j: "1 \<le> j" "j \<le> 3" "bmap_level 3 0 1 (bn - 10) = (j, 7 * (4 - j), b)" using lv by (auto simp: j_def b_def)
    have rj: "r = ind_block (cont v ?dev) (4 - j) (?a ! (NADDR - j)) (unat b)"
      using r False u u2 by (simp add: file_block_def j_def b_def NADDR_def v(5))
    have "bmap strat i bn True s = fbind (bmap_inode strat i (NADDR - j) True v) (\<lambda>r s.
              case r of
                None \<Rightarrow> Ret (- 1) s
              | Some nb \<Rightarrow>
                  fbind (bmap_ind strat ?dev True (4 - j) (7 * (4 - j)) b nb (0, Free_head) s) (\<lambda>(nb, ib) s.
                    case ib of
                      None \<Rightarrow> Ret nb s
                    | Some (k, bp) \<Rightarrow>
                        Ret nb (if k < NINDIR - 1 then s\<lparr>rablock := bytes_long (get_bytes (4 * (k + 1)) 4 (b_addr s bp))\<rparr> else s)))"
      unfolding bmap_def Let_def using False s j by (simp add: NADDR_def v_def del: bmap_level.simps)
    moreover have "fpost (fbind (bmap_inode strat i (NADDR - j) True v) (\<lambda>r s.
              case r of
                None \<Rightarrow> Ret (- 1) s
              | Some nb \<Rightarrow>
                  fbind (bmap_ind strat ?dev True (4 - j) (7 * (4 - j)) b nb (0, Free_head) s) (\<lambda>(nb, ib) s.
                    case ib of
                      None \<Rightarrow> Ret nb s
                    | Some (k, bp) \<Rightarrow>
                        Ret nb (if k < NINDIR - 1 then s\<lparr>rablock := bytes_long (get_bytes (4 * (k + 1)) 4 (b_addr s bp))\<rparr> else s))))
         (\<lambda>x t. look_only H v t \<and> x = (if r = 0 then - 1 else r))"
      by (rule bmap_rest_reads [OF st v(1) i(2) v(2,3) refl j(1,2) refl]) (use rj v(4) in simp)
    ultimately show ?thesis unfolding look by simp
  qed
qed

lemma bmap_too_large:
  assumes "max_blocks \<le> unat bn" "unat bn < 2 ^ 31"
  shows "bmap strat i bn rd s = Ret 0 (s\<lparr>rablock := 0, u_error := EFBIG\<rparr>)"
proof -
  define k where "k = unat bn"
  have s0: "sint bn = int k" using sint_unat32 [of bn] assms(2) by (simp add: k_def)
  have k: "2113674 \<le> k" "k < 2 ^ 31" using assms by (simp_all add: k_def max_blocks_def)
  then have s: "\<not> sint bn < 0" "\<not> sint bn < int NADDR - 3" unfolding s0 by (simp_all add: NADDR_def)
  have u: "unat (bn - 10) = k - 10" using unat_minus_nat [of 10 bn] k(1) by (simp add: k_def)
  have "bmap_level 3 0 1 (bn - 10) = (0, 21, bn - 10 - 128 - 16384 - 2097152)"
    using bmap_level_run [of "k - 10" "bn - 10"] u k by simp
  then show ?thesis using s by (simp add: bmap_def Let_def NADDR_def del: bmap_level.simps)
qed

section \<open>The i-node on the disk\<close>

definition dinode_at :: "(u32 \<Rightarrow> u8 list) \<Rightarrow> u16 \<Rightarrow> u8 list" where
  "dinode_at c n = get_bytes (64 * itoo n) 64 (c (itod n))"

lemma itoo_le: "itoo n \<le> 7"
proof -
  have "(n + 15) AND 7 = take_bit 3 (n + 15)" by (simp add: take_bit_eq_mask mask_eq_exp_minus_1)
  then have "itoo n = unat (n + 15) mod 8" by (simp add: itoo_def unsigned_take_bit_eq take_bit_eq_mod unat_mod)
  then show ?thesis by simp
qed

lemma length_addr_pack [simp]: "length (addr_pack a) = 3"
  by (simp add: addr_pack_def Let_def)

lemma addr_expand_pack: "long_bytes a ! 1 = 0 \<Longrightarrow> addr_expand (addr_pack a) = a"
proof -
  assume "long_bytes a ! 1 = 0"
  then have "[long_bytes a ! 0, 0, long_bytes a ! 2, long_bytes a ! 3] = long_bytes a" by (simp add: long_bytes_def)
  then show ?thesis using bytes_long_bytes [of a] by (simp add: addr_expand_def addr_pack_def Let_def)
qed

lemma packed_nth: "k < length as \<Longrightarrow> take 3 (drop (3 * k) (concat (map addr_pack as) @ r)) = addr_pack (as ! k)"
proof (induction as arbitrary: k)
  case (Cons a as)
  then show ?case by (cases k) simp_all
qed simp

lemma length_packed [simp]: "length (concat (map addr_pack as)) = 3 * length as"
  by (induction as) simp_all

text \<open>What the fields of a structure on the disk are, behind the ones in front of them.\<close>

lemma get_bytes_here: "n = length xs \<Longrightarrow> get_bytes 0 n (xs @ ys) = xs"
  by (simp add: get_bytes_def)

lemma get_bytes_skip: "length xs \<le> a \<Longrightarrow> get_bytes a n (xs @ ys) = get_bytes (a - length xs) n ys"
  by (simp add: get_bytes_def)

lemma dinode_put_fields:
  assumes "length (i_addr ip) = NADDR" "d = dinode_put ip b"
  shows "get_bytes 0 2 d = int_bytes (i_mode ip)" "get_bytes 2 2 d = int_bytes (i_nlink ip)" "get_bytes 4 2 d = int_bytes (i_uid ip)"
    "get_bytes 6 2 d = int_bytes (i_gid ip)" "get_bytes 8 4 d = long_bytes (i_size ip)"
    "k < NADDR \<Longrightarrow> get_bytes (12 + 3 * k) 3 d = addr_pack (i_addr ip ! k)" "length b = 64 \<Longrightarrow> length d = 64"
proof -
  have d: "d = int_bytes (i_mode ip) @ int_bytes (i_nlink ip) @ int_bytes (i_uid ip) @ int_bytes (i_gid ip) @ long_bytes (i_size ip) @
      concat (map addr_pack (i_addr ip)) @ drop 51 b"
    using assms by (simp add: dinode_put_def put_bytes_def NADDR_def)
  show "get_bytes 0 2 d = int_bytes (i_mode ip)" "get_bytes 2 2 d = int_bytes (i_nlink ip)" "get_bytes 4 2 d = int_bytes (i_uid ip)"
    "get_bytes 6 2 d = int_bytes (i_gid ip)" "get_bytes 8 4 d = long_bytes (i_size ip)"
    unfolding d by (simp_all add: get_bytes_skip get_bytes_here)
  show "k < NADDR \<Longrightarrow> get_bytes (12 + 3 * k) 3 d = addr_pack (i_addr ip ! k)"
    unfolding d using packed_nth [of k "i_addr ip" "drop 51 b"] assms(1) by (simp add: get_bytes_skip) (simp add: get_bytes_def)
  show "length b = 64 \<Longrightarrow> length d = 64" unfolding d using assms(1) by (simp add: NADDR_def)
qed

lemma dinode_times_other:
  assumes "length d = 64" "a + n \<le> 52"
  shows "get_bytes a n (dinode_times F ta tm tc d) = get_bytes a n d" "length (dinode_times F ta tm tc d) = 64"
proof -
  have p: "get_bytes a n (put_bytes c (long_bytes w) d') = get_bytes a n d'" "length (put_bytes c (long_bytes w) d') = 64"
    if "length d' = 64" "c \<in> {52, 56, 60}" for c w d'
    using get_put_other [of c "long_bytes w" d' a n] that assms(2) by auto
  show "get_bytes a n (dinode_times F ta tm tc d) = get_bytes a n d" "length (dinode_times F ta tm tc d) = 64"
    using assms(1) p by (simp_all add: dinode_times_def Let_def)
qed

lemma iexpand_dinode:
  assumes ip: "length (i_addr ip) = NADDR" "\<forall>a \<in> set (i_addr ip). long_bytes a ! 1 = 0" and b: "length b = 64"
  shows "iexpand (dinode_times F ta tm tc (dinode_put ip b)) jp =
    jp\<lparr>i_mode := i_mode ip, i_nlink := i_nlink ip, i_uid := i_uid ip, i_gid := i_gid ip, i_size := i_size ip, i_addr := i_addr ip\<rparr>"
proof -
  note f = dinode_put_fields [where b = b, OF ip(1) refl]
  have l: "length (dinode_put ip b) = 64" by (rule f(7)) (rule b)
  have g: "get_bytes a n (dinode_times F ta tm tc (dinode_put ip b)) = get_bytes a n (dinode_put ip b)" if "a + n \<le> 52" for a n
    by (rule dinode_times_other [OF l that])
  have "map (\<lambda>k. addr_expand (get_bytes (12 + 3 * k) 3 (dinode_times F ta tm tc (dinode_put ip b)))) [0..<NADDR] = map (\<lambda>k. i_addr ip ! k) [0..<NADDR]"
  proof (rule map_cong [OF refl])
    fix k assume "k \<in> set [0..<NADDR]"
    then have k: "k < NADDR" by simp
    then have "12 + 3 * k + 3 \<le> 52" by (simp add: NADDR_def)
    from g [OF this] show "addr_expand (get_bytes (12 + 3 * k) 3 (dinode_times F ta tm tc (dinode_put ip b))) = i_addr ip ! k"
      using f(6) [OF k] addr_expand_pack ip k by simp
  qed
  also have "\<dots> = i_addr ip" using map_nth [of "i_addr ip"] ip(1) by simp
  finally show ?thesis using f(1-5) by (simp add: iexpand_def g)
qed

lemma console_ino [simp]:
  "binv ((kprintf str ^^ n) s) H = binv s H" "cont ((kprintf str ^^ n) s) = cont s" "usable ((kprintf str ^^ n) s) = usable s"
  "b_addr ((kprintf str ^^ n) s) = b_addr s" "b_dev ((kprintf str ^^ n) s) = b_dev s" "b_blkno ((kprintf str ^^ n) s) = b_blkno s"
  "b_flags ((kprintf str ^^ n) s) = b_flags s" "inodes ((kprintf str ^^ n) s) = inodes s" "same_buf c t ((kprintf str ^^ n) s) = same_buf c t s"
  "mounts ((kprintf str ^^ n) s) = mounts s" "b_filsys ((kprintf str ^^ n) s) = b_filsys s" "time ((kprintf str ^^ n) s) = time s"
  "b_resid ((kprintf str ^^ n) s) = b_resid s" "u_error ((kprintf str ^^ n) s) = u_error s"
  by (induction n) (simp_all add: kprintf_def)

definition tables_same :: "'a ino_scheme \<Rightarrow> 'a ino_scheme \<Rightarrow> bool" where
  "tables_same s t \<longleftrightarrow> mounts t = mounts s \<and> b_filsys t = b_filsys s \<and> time t = time s \<and> updlock t = updlock s \<and> ino.more t = ino.more s"

lemma tables_same_refl [simp]: "tables_same s s" by (simp add: tables_same_def)
lemma tables_same_trans: "tables_same s t \<Longrightarrow> tables_same t u \<Longrightarrow> tables_same s u" by (simp add: tables_same_def)
lemma tables_same_bio: "bio_only s t \<Longrightarrow> tables_same s t" using bio_only_ino [of s t] bio_only_alc [of s t] by (simp add: tables_same_def)
lemma tables_same_kprintf [simp]: "tables_same s ((kprintf str ^^ n) t) = tables_same s t" by (induction n) (simp_all add: kprintf_def tables_same_def)

lemma iupdat_writes:
  assumes st: "sync_driver strat" and i: "binv s H" "H \<noteq> pool" "usable s dev" "\<forall>c \<in> H. b_dev s c \<noteq> dev"
    and ip: "ip = inodes s i" "dev = i_dev ip" "i_flag ip \<inter> {IUPD, IACC, ICHG} \<noteq> {}"
    and a: "length (i_addr ip) = NADDR"
    and fs: "fs_at s dev = Some fp" "counts_ok (b_filsys s fp)" "s_ronly (b_filsys s fp) = 0"
  shows "fpost (iupdat strat i ta tm s) (\<lambda>_ t. binv t H \<and> usable t = usable s \<and> (\<forall>c \<in> H. same_buf c s t) \<and> u_error t = u_error s \<and> tables_same s t \<and>
     inodes t = (inodes s)(i := ip\<lparr>i_flag := i_flag ip - {IUPD, IACC, ICHG}\<rparr>) \<and>
     cont t = (cont s)(dev := (cont s dev)(itod (i_number ip) :=
       put_bytes (64 * itoo (i_number ip)) (dinode_times (i_flag ip) ta tm (time s) (dinode_put ip (dinode_at (cont s dev) (i_number ip))))
         (cont s dev (itod (i_number ip))))))"
proof -
  let ?n = "i_number ip" and ?off = "64 * itoo (i_number ip)"
  have e: "iupdat strat i ta tm s = fbind (bread strat dev (itod ?n) s) (\<lambda>bp s'.
          if B_ERROR \<in> b_flags s' bp then Ret () (brelse bp s')
          else
            let d = dinode_times (i_flag ip) ta tm (time s') (dinode_put ip (get_bytes ?off 64 (b_addr s' bp)));
                b = b_addr s' bp;
                s = (kprintf ''iaddress > 2^24'' ^^ addr_overflows ip) s';
                s = s\<lparr>b_addr := (b_addr s)(bp := put_bytes ?off d b)\<rparr>;
                s = i_upd i (\<lambda>ip. ip\<lparr>i_flag := i_flag ip - {IUPD, IACC, ICHG}\<rparr>) s
            in bdwrite strat bp s)"
    unfolding iupdat_def Let_def ip(1) [symmetric] ip(2) [symmetric] using getfs_fine [OF fs(1,2)] fs(3)
    by (simp only: if_not_P [OF ip(3)] fbind.simps not_False_eq_True simp_thms if_False if_True)
  show ?thesis
    unfolding e
  proof (rule fpost_bind, rule fpost_mono [OF bread_keeps [OF st i(1-3)]])
    show "\<forall>c \<in> H. \<not> (b_dev s c = dev \<and> b_blkno s c = itod ?n)" using i(4) by simp
    fix bp t assume "got dev (itod ?n) H s bp t \<and> b_addr t bp = cont s dev (itod ?n)"
    then have t: "bp \<notin> H" "binv t (insert bp H)" "b_dev t bp = dev" "b_blkno t bp = itod ?n" "cont t = cont s" "\<forall>c \<in> H. same_buf c s t"
      "b_addr t bp = cont s dev (itod ?n)" and o: "bio_only s t" by (simp_all add: got_def)
    have it: "inodes t = inodes s" "time t = time s" "u_error t = u_error s" using bio_only_ino [OF o] o by (simp_all add: bio_only_def)
    define v where "v = put_bytes ?off (dinode_times (i_flag ip) ta tm (time s) (dinode_put ip (dinode_at (cont s dev) ?n))) (cont s dev (itod ?n))"
    define u where "u = (kprintf ''iaddress > 2^24'' ^^ addr_overflows ip) t"
    define w where "w = u\<lparr>b_addr := (b_addr u)(bp := v), b_resid := b_resid u\<rparr>"
    define x where "x = i_upd i (\<lambda>ip. ip\<lparr>i_flag := i_flag ip - {IUPD, IACC, ICHG}\<rparr>) w"
    note h = held_flags [OF t(2) insertI1]
    have cl: "length (cont s dev (itod ?n)) = 512" using cont_len [OF i(1)] by (simp add: BSIZE_def)
    have "?off + 64 \<le> 512" using itoo_le [of ?n] by simp
    moreover have "length (put_bytes (64 * itoo ?n) d (cont s dev (itod ?n))) = 512" if "length d \<le> 64" "?off + 64 \<le> 512" for d
      using that cl by simp
    ultimately have lv: "length v = BSIZE" if "length (dinode_times (i_flag ip) ta tm (time s) (dinode_put ip (dinode_at (cont s dev) ?n))) \<le> 64"
      using that by (simp add: v_def BSIZE_def)
    have "length (dinode_times (i_flag ip) ta tm (time s) (dinode_put ip (dinode_at (cont s dev) ?n))) \<le> 64"
    proof -
      have "length (dinode_at (cont s dev) ?n) = 64" using cl itoo_le [of ?n] by (simp add: dinode_at_def get_bytes_def)
      from dinode_put_fields(7) [OF a refl this] show ?thesis using dinode_times_other(2) [of _ 0 0] by simp
    qed
    note lv = lv [OF this]
    have ub: "binv u (insert bp H)" "\<forall>b \<in> pool. b_resid u b = 0" using t(2) binv_len(3) [OF t(2)] by (simp_all add: u_def)
    note E = held_edit [OF ub(1) insertI1 lv ub(2) w_def]
    have x: "binv x (insert bp H)" "b_dev x bp = dev" "b_addr x bp = v" "b_blkno x bp = itod ?n" "same_buf c s x = same_buf c s w" "cont x = cont w" for c
      using E(1) t by (simp_all add: x_def i_upd_def) (simp_all add: w_def u_def)
    have nd: "b_dev x bp \<noteq> NODEV" using i(3) x(2) by (simp add: usable_def)
    have "fpost (bdwrite strat bp x) (\<lambda>_ t. binv t H \<and> usable t = usable s \<and> (\<forall>c \<in> H. same_buf c s t) \<and> u_error t = u_error s \<and> tables_same s t \<and>
       inodes t = (inodes s)(i := ip\<lparr>i_flag := i_flag ip - {IUPD, IACC, ICHG}\<rparr>) \<and> cont t = (cont s)(dev := (cont s dev)(itod ?n := v)))"
    proof (rule fpost_mono [OF bdwrite_keeps [OF x(1) insertI1 nd]])
      fix a y
      assume y: "binv y (insert bp H - {bp}) \<and> cont y = (cont x)(b_dev x bp := (cont x (b_dev x bp))(b_blkno x bp := b_addr x bp)) \<and> bio_only x y \<and>
        (\<forall>c. c \<noteq> bp \<longrightarrow> same_buf c x y) \<and> disk y = disk x"
      have "insert bp H - {bp} = H" using t(1) by blast
      moreover have "same_buf c s y" if "c \<in> H" for c
      proof -
        have "c \<noteq> bp" using that t(1) by blast
        moreover have "same_buf c s u" using t(6) that by (simp add: u_def)
        ultimately show ?thesis using same_buf_trans [of c s x y] same_buf_trans [of c s u w] E(4) x(5) y by simp
      qed
      moreover have "cont y d k = ((cont s)(dev := (cont s dev)(itod ?n := v))) d k" for d k
        using y x(2-4,6) E(2) [of d k] E(2) [of dev k] t(3-5) by (simp add: u_def)
      moreover have "inodes y = inodes x" "u_error y = u_error x" using bio_only_ino [of x y] y by (auto simp: bio_only_def)
      moreover have "tables_same s u" using tables_same_bio [OF o] by (simp add: u_def)
      then have "tables_same s x" by (simp add: x_def i_upd_def w_def tables_same_def)
      then have "tables_same s y" using tables_same_bio [of x y] y by (blast intro: tables_same_trans)
      moreover have "usable w = usable u" by (simp add: w_def usable_def fun_eq_iff)
      then have "usable y = usable s" using usable_cong [of x y] usable_cong [OF o] y by (simp add: x_def i_upd_def u_def)
      moreover have "inodes x = (inodes s)(i := ip\<lparr>i_flag := i_flag ip - {IUPD, IACC, ICHG}\<rparr>)" "u_error x = u_error s"
        using it ip(1) by (simp_all add: x_def i_upd_def w_def) (simp_all add: u_def)
      ultimately show "binv y H \<and> usable y = usable s \<and> (\<forall>c \<in> H. same_buf c s y) \<and> u_error y = u_error s \<and> tables_same s y \<and>
         inodes y = (inodes s)(i := ip\<lparr>i_flag := i_flag ip - {IUPD, IACC, ICHG}\<rparr>) \<and> cont y = (cont s)(dev := (cont s dev)(itod ?n := v))"
        using y by (auto simp: fun_eq_iff)
    qed
    moreover have "u\<lparr>b_addr := (b_addr u)(bp := v)\<rparr> = w" by (simp add: w_def)
    ultimately show "fpost (if B_ERROR \<in> b_flags t bp then Ret () (brelse bp t)
          else
            let d = dinode_times (i_flag ip) ta tm (time t) (dinode_put ip (get_bytes ?off 64 (b_addr t bp)));
                b = b_addr t bp;
                s = (kprintf ''iaddress > 2^24'' ^^ addr_overflows ip) t;
                s = s\<lparr>b_addr := (b_addr s)(bp := put_bytes ?off d b)\<rparr>;
                s = i_upd i (\<lambda>ip. ip\<lparr>i_flag := i_flag ip - {IUPD, IACC, ICHG}\<rparr>) s
            in bdwrite strat bp s) (\<lambda>_ t. binv t H \<and> usable t = usable s \<and> (\<forall>c \<in> H. same_buf c s t) \<and> u_error t = u_error s \<and> tables_same s t \<and>
     inodes t = (inodes s)(i := ip\<lparr>i_flag := i_flag ip - {IUPD, IACC, ICHG}\<rparr>) \<and>
     cont t = (cont s)(dev := (cont s dev)(itod ?n := put_bytes ?off (dinode_times (i_flag ip) ta tm (time s) (dinode_put ip (dinode_at (cont s dev) ?n))) (cont s dev (itod ?n)))))"
      using h(3) t(7) it(2) unfolding Let_def u_def [symmetric] by (simp add: dinode_at_def [symmetric] v_def [symmetric] x_def [symmetric])
  qed
qed

lemma itod_itoo_inj: "itod m = itod n \<Longrightarrow> itoo m = itoo n \<Longrightarrow> m = n"
proof -
  assume a: "itod m = itod n" and b: "itoo m = itoo n"
  have "drop_bit 3 (m + 15) = drop_bit 3 (n + 15)"
  proof -
    have u: "ucast (ucast w :: u32) = w" for w :: u16 by (rule bit_word_eqI) (simp add: bit_simps)
    show ?thesis using arg_cong [OF a, of "ucast :: u32 \<Rightarrow> u16"] unfolding itod_def u .
  qed
  moreover have "take_bit 3 (m + 15) = take_bit 3 (n + 15)"
  proof -
    have m: "(x + 15) AND 7 = take_bit 3 (x + 15)" for x :: u16 by (simp add: take_bit_eq_mask mask_eq_exp_minus_1)
    then show ?thesis using b unfolding itoo_def m by (simp only: word_unat_eq_iff)
  qed
  ultimately have "m + 15 = n + 15" using bits_ident [of 3 "m + 15"] bits_ident [of 3 "n + 15"] by metis
  then show ?thesis by simp
qed

lemma iget_reads:
  assumes st: "sync_driver strat" and i: "binv s H" "H \<noteq> pool" "usable s dev" "\<forall>c \<in> H. b_dev s c \<noteq> dev"
  shows "fpost (iget_read strat j dev n s) (\<lambda>r t. r = Some j \<and> binv t H \<and> (\<forall>c \<in> H. same_buf c s t) \<and> cont t = cont s \<and> u_error t = u_error s \<and>
    inodes t = (inodes s)(j := iexpand (dinode_at (cont s dev) n)
      ((inodes s j)\<lparr>i_dev := dev, i_number := n, i_flag := {ILOCK}, i_count := i_count (inodes s j) + 1, i_lastr := 0\<rparr>)))"
proof -
  define v where "v = i_upd j (\<lambda>ip. ip\<lparr>i_dev := dev, i_number := n, i_flag := {ILOCK}, i_count := i_count ip + 1, i_lastr := 0\<rparr>) s"
  have v: "binv v H" "usable v dev" "cont v = cont s" "u_error v = u_error s" "b_dev v = b_dev s" "same_buf c v t = same_buf c s t" for c t
    using i by (simp_all add: v_def i_upd_def same_buf_def)
  show ?thesis
    unfolding iget_read_def v_def [symmetric] Let_def
  proof (rule fpost_bind, rule fpost_mono [OF bread_keeps [OF st v(1) i(2) v(2)]])
    show "\<forall>c \<in> H. \<not> (b_dev v c = dev \<and> b_blkno v c = itod n)" using i(4) v(5) by simp
    fix bp t assume g: "got dev (itod n) H v bp t \<and> b_addr t bp = cont v dev (itod n)"
    define w where "w = i_upd j (iexpand (get_bytes (64 * itoo n) 64 (b_addr t bp))) t"
    have t: "bp \<notin> H" "binv w (insert bp H)" "cont w = cont s" "b_addr w bp = cont w (b_dev w bp) (b_blkno w bp)"
      "\<forall>c \<in> H. same_buf c s w" "bio_only v t" "binv t (insert bp H)" "b_addr t bp = cont s dev (itod n)"
      using g v(3,6) by (simp_all add: got_def w_def i_upd_def)
    note r = brelse_keeps [OF t(2) insertI1 t(4)]
    have h: "insert bp H - {bp} = H" using t(1) by blast
    have "\<forall>c \<in> H. same_buf c s (brelse bp w)" using same_buf_trans t(1,5) r(4) by metis
    moreover have "cont (brelse bp w) = cont s" using r(2) t(3) by simp
    moreover have "inodes (brelse bp w) = inodes w" "u_error (brelse bp w) = u_error w" using bio_only_ino [OF r(3)] r(3) by (simp_all add: bio_only_def)
    moreover have "inodes t = inodes v" "u_error t = u_error s" using bio_only_ino [OF t(6)] t(6) v(4) by (simp_all add: bio_only_def)
    moreover have "b_flags t bp = b_flags w bp" by (simp add: w_def i_upd_def)
    ultimately show "fpost (if B_ERROR \<in> b_flags t bp then fbind (iput strat j (brelse bp t)) (\<lambda>_ s. Ret None s) else Ret (Some j)
       (brelse bp (i_upd j (iexpand (get_bytes (64 * itoo n) 64 (b_addr t bp))) t))) (\<lambda>r t. r = Some j \<and> binv t H \<and> (\<forall>c \<in> H. same_buf c s t) \<and> cont t = cont s \<and>
        u_error t = u_error s \<and> inodes t = (inodes s)(j := iexpand (dinode_at (cont s dev) n)
      ((inodes s j)\<lparr>i_dev := dev, i_number := n, i_flag := {ILOCK}, i_count := i_count (inodes s j) + 1, i_lastr := 0\<rparr>)))"
      using r(1) t(8) held_flags(3) [OF t(2) insertI1] unfolding w_def [symmetric] h
      by (simp add: w_def i_upd_def v_def dinode_at_def)
  qed
qed

text \<open>
  C17. Writing an i-node and reading it back. When the i-node in the slot \<open>i\<close> has a flag to be written and all its addresses fit in three
  bytes, \<open>iupdat\<close> followed by the reading of \<open>iget\<close> into any slot \<open>j\<close> yields the i-node with the mode, the link count, the owner, the
  size and all 13 addresses that it had; and of the contents of all devices, whether in the cache or on the disk, only the 64 bytes of
  this i-node have changed: every other i-node of the device, those of the same block included, and every other block are as before.
\<close>

theorem iupdat_iget_round_trip:
  assumes st: "sync_driver strat" and i: "binv s H" "H \<noteq> pool" "usable s dev" "\<forall>c \<in> H. b_dev s c \<noteq> dev"
    and ip: "ip = inodes s i" "dev = i_dev ip" "i_flag ip \<inter> {IUPD, IACC, ICHG} \<noteq> {}"
    and a: "length (i_addr ip) = NADDR" "\<forall>a \<in> set (i_addr ip). unat a < 2 ^ 24"
    and fs: "fs_at s dev = Some fp" "counts_ok (b_filsys s fp)" "s_ronly (b_filsys s fp) = 0"
  shows "fpost (fbind (iupdat strat i ta tm s) (\<lambda>_. iget_read strat j dev (i_number ip))) (\<lambda>r t.
    r = Some j \<and> binv t H \<and> u_error t = u_error s \<and>
    inodes t j = ip\<lparr>i_flag := {ILOCK}, i_count := i_count (if i = j then ip else inodes s j) + 1, i_lastr := 0\<rparr> \<and>
    (\<forall>m. m \<noteq> i_number ip \<longrightarrow> dinode_at (cont t dev) m = dinode_at (cont s dev) m) \<and>
    (\<forall>d b. (d, b) \<noteq> (dev, itod (i_number ip)) \<longrightarrow> cont t d b = cont s d b))"
proof (rule fpost_bind, rule fpost_mono [OF iupdat_writes [OF st i ip a(1) fs]])
  let ?n = "i_number ip" and ?b = "cont s dev (itod (i_number ip))"
  let ?d = "dinode_times (i_flag ip) ta tm (time s) (dinode_put ip (dinode_at (cont s dev) ?n))"
  fix x :: unit and t
  assume t: "binv t H \<and> usable t = usable s \<and> (\<forall>c \<in> H. same_buf c s t) \<and> u_error t = u_error s \<and> tables_same s t \<and>
     inodes t = (inodes s)(i := ip\<lparr>i_flag := i_flag ip - {IUPD, IACC, ICHG}\<rparr>) \<and>
     cont t = (cont s)(dev := (cont s dev)(itod ?n := put_bytes (64 * itoo ?n) ?d ?b))"
  have cl: "length ?b = 512" "64 * itoo ?n + 64 \<le> 512" using cont_len [OF i(1)] itoo_le [of ?n] by (simp_all add: BSIZE_def)
  then have b: "length (dinode_at (cont s dev) ?n) = 64" by (simp add: dinode_at_def)
  have d: "length ?d = 64" using dinode_times_other(2) [of _ 0 0] dinode_put_fields(7) [OF a(1) refl b] by simp
  have h: "\<forall>a \<in> set (i_addr ip). long_bytes a ! 1 = 0"
  proof
    fix a assume "a \<in> set (i_addr ip)"
    then have l: "unat a < 2 ^ 24" using a(2) by blast
    moreover have "take_bit LENGTH(32) (unat a) = unat a" by (rule take_bit_nat_eq_self) (rule unsigned_less)
    then have "unat (drop_bit 24 a) = unat a div 2 ^ 24" unfolding unsigned_drop_bit_eq by (simp only: drop_bit_eq_div)
    ultimately have "unat (drop_bit 24 a) = 0" by (simp only: div_less)
    then have "drop_bit 24 a = 0" by (simp add: word_unat_eq_iff)
    then show "long_bytes a ! 1 = 0" by (simp add: long_bytes_def)
  qed
  have new: "dinode_at (cont t dev) ?n = ?d" using t cl d get_put_bytes [of "64 * itoo ?n" ?b ?d] by (simp add: dinode_at_def)
  have other: "dinode_at (cont t dev) m = dinode_at (cont s dev) m" if m: "m \<noteq> ?n" for m
  proof (cases "itod m = itod ?n")
    case True
    then have "itoo m \<noteq> itoo ?n" using m itod_itoo_inj by blast
    then have "64 * itoo m + 64 \<le> 64 * itoo ?n \<or> 64 * itoo ?n + length ?d \<le> 64 * itoo m" unfolding d by arith
    then show ?thesis using True t cl d get_put_other [of "64 * itoo ?n" ?d ?b "64 * itoo m" 64] by (simp add: dinode_at_def)
  qed (use t in \<open>simp add: dinode_at_def\<close>)
  have u: "usable t dev" using i(3) t by simp
  have hd: "\<forall>c \<in> H. b_dev t c \<noteq> dev" using i(4) t by (auto simp: same_buf_def)
  note e = iexpand_dinode [OF a(1) h b, of "i_flag ip" ta tm "time s"]
  show "fpost (iget_read strat j dev ?n t) (\<lambda>r t. r = Some j \<and> binv t H \<and> u_error t = u_error s \<and>
    inodes t j = ip\<lparr>i_flag := {ILOCK}, i_count := i_count (if i = j then ip else inodes s j) + 1, i_lastr := 0\<rparr> \<and>
    (\<forall>m. m \<noteq> i_number ip \<longrightarrow> dinode_at (cont t dev) m = dinode_at (cont s dev) m) \<and>
    (\<forall>d b. (d, b) \<noteq> (dev, itod (i_number ip)) \<longrightarrow> cont t d b = cont s d b))"
    by (rule fpost_mono [OF iget_reads [OF st _ i(2) u hd]]) (use t new other e ip(2) in auto)
qed

section \<open>A file for the demonstrations\<close>

text \<open>On the file system of the allocator's demonstration: a file of 700 bytes whose first block is the block 7, the rest of it a hole.\<close>

definition demo_inode :: inode where
  "demo_inode = \<lparr>i_flag = {ILOCK}, i_count = 1, i_dev = 0, i_number = 9, i_mode = IFREG, i_nlink = 1, i_uid = 0, i_gid = 0, i_size = 700,
     i_addr = 7 # replicate 12 0, i_lastr = 0\<rparr>"

definition demo_file :: ino where
  "demo_file = alc.extend (alc.truncate (demo_alc\<lparr>u_base := 1000, u_count := 600, u_offset := 500, u_error := 0, u_mem := (\<lambda>_ _. Some 65)\<rparr>))
     \<lparr>inodes = (\<lambda>_. demo_inode), time = 0, updlock = False, rablock = 0\<rparr>"

lemma demo_file_bio:
  "binv demo_file {}" "usable demo_file 0" "cont demo_file = cont demo_bio" "b_dev demo_file = b_dev demo_bio"
  "u_offset demo_file = 500" "u_count demo_file = 600" "u_error demo_file = 0" "u_base demo_file = 1000" "inodes demo_file = (\<lambda>_. demo_inode)"
  "accessible a n demo_file"
proof -
  have b: "binv demo_alc {}" "usable demo_alc 0" "cont demo_alc = cont demo_bio" using demo_bio by (simp_all add: demo_alc_bio)
  have "binv demo_file H = binv demo_alc H" "usable demo_file = usable demo_alc" "cont demo_file = cont demo_alc" for H
    by (simp_all add: demo_file_def alc.extend_def alc.truncate_def binv_def free_ok_def lists_ok_def on_lists_def heads_def home_def usable_def flags_ok_def
      unique_ok_def data_ok_def sizes_ok_def cont_def delayed_at_def fun_eq_iff split: option.split)
  then show "binv demo_file {}" "usable demo_file 0" "cont demo_file = cont demo_bio" using b by simp_all
  show "b_dev demo_file = b_dev demo_bio" "u_offset demo_file = 500" "u_count demo_file = 600" "u_base demo_file = 1000" "inodes demo_file = (\<lambda>_. demo_inode)"
    "accessible a n demo_file" "u_error demo_file = 0"
    by (simp_all add: demo_file_def alc.extend_def alc.truncate_def demo_alc_def bio.extend_def bio.truncate_def accessible_def)
qed

lemma demo_file_block: "file_block c (i_addr demo_inode) k = (if k = 0 then 7 else 0)"
proof -
  have "(replicate 12 (0 :: u32)) ! j = 0" if "j < 12" for j using that by simp
  then show ?thesis by (cases k) (simp_all add: file_block_def demo_inode_def)
qed

lemma demo_file_sb: "fs_at demo_file 0 = Some (Buf 0)" "b_filsys demo_file fp = demo_sb" "counts_ok demo_sb" "s_ronly demo_sb = 0"
  by (simp_all add: fs_at_def demo_file_def alc.extend_def alc.truncate_def demo_alc_def bio.extend_def bio.truncate_def NMOUNT_def upt_conv_Cons
    counts_ok_def demo_sb_def NICFREE_def NICINOD_def)

text \<open>
  C9. \<open>bmap\<close> computes the tree of addresses. For reading, the physical block of the logical block \<open>bn\<close> of an i-node is the one that
  the reference definition \<open>file_block\<close> finds: one of the ten direct addresses, or the one behind one, two or three levels of indirect
  blocks, with -1 for a hole at any level; nothing but the cache and the block for the read ahead changes. For a block that no tree of this
  form can have, from \<open>10 + 128 + 128\<^sup>2 + 128\<^sup>3\<close> on, the result is 0 and the error \<open>EFBIG\<close>.
\<close>

theorem bmap_computes_tree:
  assumes "sync_driver strat" "binv s H" "H \<noteq> pool" "usable s (i_dev (inodes s i))" "\<forall>c \<in> H. b_dev s c \<noteq> i_dev (inodes s i)" "unat bn < 2 ^ 31"
    and r: "r = file_block (cont s (i_dev (inodes s i))) (i_addr (inodes s i)) (unat bn)"
  shows "fpost (bmap strat i bn True s) (\<lambda>x t. if unat bn < max_blocks then look_only H s t \<and> x = (if r = 0 then - 1 else r)
     else x = 0 \<and> t = s\<lparr>rablock := 0, u_error := EFBIG\<rparr>)"
proof (cases "unat bn < max_blocks")
  case True
  show ?thesis by (rule fpost_mono [OF bmap_reads [OF assms(1-5) refl True r]]) (use True in simp)
next
  case False
  then show ?thesis using bmap_too_large [of bn strat i True s] assms(6) by simp
qed

theorem bmap_computes_tree_witness:
  "fpost (bmap demo_driver 0 0 True demo_file) (\<lambda>x t. x = 7) \<and> fpost (bmap demo_driver 0 140 True demo_file) (\<lambda>x t. x = - 1) \<and>
   fpost (bmap demo_driver 0 2113674 True demo_file) (\<lambda>x t. u_error t = EFBIG)"
proof -
  have d: "i_dev (inodes demo_file 0) = 0" by (simp add: demo_file_bio demo_inode_def)
  have "fpost (bmap demo_driver 0 bn True demo_file) (\<lambda>x t. if unat bn < max_blocks then look_only {} demo_file t \<and>
      x = (if (if unat bn = 0 then 7 else 0 :: u32) = 0 then - 1 else (if unat bn = 0 then 7 else 0)) else x = 0 \<and> t = demo_file\<lparr>rablock := 0, u_error := EFBIG\<rparr>)"
    if "unat bn < 2 ^ 31" for bn
    by (rule bmap_computes_tree [OF demo_driver_sync demo_file_bio(1) demo_bio(4)]) (use that in \<open>simp_all add: d demo_file_bio(2), simp add: demo_file_bio demo_file_block\<close>)
  from this [of 0] this [of 140] this [of 2113674] show ?thesis by (auto simp: max_blocks_def elim: fpost_mono)
qed

theorem iupdat_iget_round_trip_witness:
  "fpost (fbind (iupdat demo_driver 0 5 6 (demo_file\<lparr>inodes := \<lambda>_. demo_inode\<lparr>i_flag := {IUPD}\<rparr>\<rparr>)) (\<lambda>_. iget_read demo_driver 1 0 9)) (\<lambda>r t. r = Some 1 \<and>
     i_size (inodes t 1) = 700 \<and> i_addr (inodes t 1) = 7 # replicate 12 0 \<and> cont t 0 0 = replicate BSIZE 0)"
proof -
  let ?s = "demo_file\<lparr>inodes := \<lambda>_. demo_inode\<lparr>i_flag := {IUPD}\<rparr>\<rparr>" and ?ip = "demo_inode\<lparr>i_flag := {IUPD}\<rparr>"
  have i: "binv ?s {}" "usable ?s 0" "cont ?s = cont demo_bio" using demo_file_bio by simp_all
  have f: "fs_at ?s 0 = Some (Buf 0)" "counts_ok (b_filsys ?s (Buf 0))" "s_ronly (b_filsys ?s (Buf 0)) = 0"
    using demo_file_sb by (simp_all add: fs_at_def)
  have a: "?ip = inodes ?s 0" "0 = i_dev ?ip" "i_flag ?ip \<inter> {IUPD, IACC, ICHG} \<noteq> {}" "length (i_addr ?ip) = NADDR" "\<forall>a \<in> set (i_addr ?ip). unat a < 2 ^ 24"
    by (simp_all add: demo_inode_def NADDR_def)
  have n: "i_number ?ip = 9" "itod 9 = 3" by (simp_all add: demo_inode_def itod_def drop_bit_eq_div)
  have "fpost (fbind (iupdat demo_driver 0 5 6 ?s) (\<lambda>_. iget_read demo_driver 1 0 (i_number ?ip))) (\<lambda>r t.
    r = Some 1 \<and> binv t {} \<and> u_error t = u_error ?s \<and>
    inodes t 1 = ?ip\<lparr>i_flag := {ILOCK}, i_count := i_count (if 0 = (1 :: nat) then ?ip else inodes ?s 1) + 1, i_lastr := 0\<rparr> \<and>
    (\<forall>m. m \<noteq> i_number ?ip \<longrightarrow> dinode_at (cont t 0) m = dinode_at (cont ?s 0) m) \<and>
    (\<forall>d b. (d, b) \<noteq> (0, itod (i_number ?ip)) \<longrightarrow> cont t d b = cont ?s d b))"
    by (rule iupdat_iget_round_trip [OF demo_driver_sync i(1) demo_bio(4) i(2) _ a f]) simp
  then show ?thesis unfolding n by (rule fpost_mono) (use demo_bio(2) [of 0 0] i(3) in \<open>auto simp: demo_inode_def n\<close>)
qed


end
