(* ===== verification/Rdwri.thy ===== *)
theory Rdwri
  imports Inode
begin

text \<open>
  Reading and writing files (\<open>sys/rdwri.c\<close>): \<open>readi\<close> and \<open>writei\<close>. The properties are that reading delivers the bytes that the tree of
  blocks of the file stands for, and what a write behind the largest possible file does.
\<close>

unbundle bit_operations_syntax

section \<open>The program\<close>

text \<open>
  \<open>drd\<close> and \<open>dwr\<close> are the read and write routines of the character devices, \<open>cdevsw[major(dev)].d_read\<close> and \<open>d_write\<close>. The first
  argument of the loops bounds their rounds: every round but the last moves a byte at least.
\<close>

definition EINVAL :: u8 where "EINVAL = 22"

type_synonym 'a dev_op = "u16 \<Rightarrow> 'a ino_scheme \<Rightarrow> (unit, 'a ino_scheme) fres"

definition i_rdev :: "inode \<Rightarrow> u16" where
  "i_rdev ip = ucast (i_addr ip ! 0)"

definition is_block_dev :: "inode \<Rightarrow> bool" where
  "is_block_dev ip \<longleftrightarrow> i_mode ip AND IFMT = IFBLK \<or> i_mode ip AND IFMT = IFMPB"

definition is_char_dev :: "inode \<Rightarrow> bool" where
  "is_char_dev ip \<longleftrightarrow> i_mode ip AND IFMT = IFCHR \<or> i_mode ip AND IFMT = IFMPC"

text \<open>The buffer that \<open>readi\<close> reads from: an empty one for a hole, with read ahead for the next block of a sequence.\<close>

definition read_buf :: "'a ino_ext alc_ext strategy \<Rightarrow> nat \<Rightarrow> u16 \<Rightarrow> u32 \<Rightarrow> u32 \<Rightarrow> 'a ino_scheme \<Rightarrow> (bnode, 'a ino_scheme) fres" where
  "read_buf strat i dev bn lbn s =
     (if sint bn < 0 then fbind (geteblk strat s) (\<lambda>bp s. Ret bp (clrbuf bp s))
      else if i_lastr (inodes s i) + 1 = lbn then breada strat dev bn (rablock s) s
      else bread strat dev bn s)"

text \<open>
  The parts of a round of \<open>readi\<close>: the number of bytes, the block and its device (None is an error), and the transfer out of the
  buffer, with the \<open>n\<close> of the test at the end of the loop.
\<close>

definition read_count :: "nat \<Rightarrow> 'a ino_scheme \<Rightarrow> u16" where
  "read_count i s =
     (let n = umin (of_nat BSIZE - ucast (u_offset s AND 0x1FF)) (u_count s); diff = i_size (inodes s i) - u_offset s
      in if \<not> is_block_dev (inodes s i) \<and> sint diff < sint n then ucast diff else n)"

definition read_where :: "'a ino_ext alc_ext strategy \<Rightarrow> nat \<Rightarrow> u16 \<Rightarrow> u32 \<Rightarrow> 'a ino_scheme \<Rightarrow> ((u32 \<times> u16) option, 'a ino_scheme) fres" where
  "read_where strat i dev lbn s =
     (if is_block_dev (inodes s i) then Ret (Some (lbn, dev)) (s\<lparr>rablock := lbn + 1\<rparr>)
      else fbind (bmap strat i lbn True s) (\<lambda>bn s.
        if u_error s \<noteq> 0 then Ret None s else Ret (Some (bn, i_dev (inodes s i))) s))"

definition read_move :: "nat \<Rightarrow> u32 \<Rightarrow> nat \<Rightarrow> u16 \<Rightarrow> bnode \<Rightarrow> 'a ino_scheme \<Rightarrow> u16 \<times> 'a ino_scheme" where
  "read_move i lbn on n bp s =
     (let s = i_upd i (\<lambda>ip. ip\<lparr>i_lastr := lbn\<rparr>) s;
          n = umin n (of_nat BSIZE - b_resid s bp);
          s = (if n \<noteq> 0 then snd (iomove False on n (b_addr s bp) s) else s)
      in (n, brelse bp s))"

text \<open>One round of the loop of \<open>readi\<close>; None is a return from \<open>readi\<close>, otherwise the \<open>n\<close> of the test at its end and \<open>dev\<close>.\<close>

definition readi_round :: "'a ino_ext alc_ext strategy \<Rightarrow> nat \<Rightarrow> u16 \<Rightarrow> 'a ino_scheme \<Rightarrow> ((u16 \<times> u16) option, 'a ino_scheme) fres" where
  "readi_round strat i dev s =
     (let lbn = signed_drop_bit 9 (u_offset s); on = unat (u_offset s AND 0x1FF); n = read_count i s in
      if \<not> is_block_dev (inodes s i) \<and> sint (i_size (inodes s i) - u_offset s) \<le> 0 then Ret None s
      else fbind (read_where strat i dev lbn s) (\<lambda>r s.
        case r of
          None \<Rightarrow> Ret None s
        | Some (bn, dev) \<Rightarrow>
            fbind (read_buf strat i dev bn lbn s) (\<lambda>bp s.
              Ret (Some (fst (read_move i lbn on n bp s), dev)) (snd (read_move i lbn on n bp s)))))"

fun readi_loop :: "nat \<Rightarrow> 'a ino_ext alc_ext strategy \<Rightarrow> nat \<Rightarrow> u16 \<Rightarrow> 'a ino_scheme \<Rightarrow> (unit, 'a ino_scheme) fres" where
  "readi_loop 0 strat i dev s = Endless"
| "readi_loop (Suc k) strat i dev s =
     fbind (readi_round strat i dev s) (\<lambda>r s.
       case r of
         None \<Rightarrow> Ret () s
       | Some (n, dev) \<Rightarrow>
           if u_error s = 0 \<and> u_count s \<noteq> 0 \<and> sint n > 0 then readi_loop k strat i dev s else Ret () s)"

definition readi :: "'a ino_ext alc_ext strategy \<Rightarrow> 'a dev_op \<Rightarrow> nat \<Rightarrow> 'a ino_scheme \<Rightarrow> (unit, 'a ino_scheme) fres" where
  "readi strat drd i s =
     (if u_count s = 0 then Ret () s
      else if sint (u_offset s) < 0 then Ret () (s\<lparr>u_error := EINVAL\<rparr>)
      else
        let s = i_upd i (\<lambda>ip. ip\<lparr>i_flag := insert IACC (i_flag ip)\<rparr>) s; dev = i_rdev (inodes s i) in
        if is_char_dev (inodes s i) then drd dev s
        else readi_loop (unat (u_count s) + 1) strat i dev s)"

text \<open>One round of the loop of \<open>writei\<close>; False is a return from \<open>writei\<close>.\<close>

definition writei_round :: "'a ino_ext alc_ext strategy \<Rightarrow> nat \<Rightarrow> u16 \<Rightarrow> 'a ino_scheme \<Rightarrow> (u16 option, 'a ino_scheme) fres" where
  "writei_round strat i dev s =
     (let bn = signed_drop_bit 9 (u_offset s); on = u_offset s AND 0x1FF; n = umin (of_nat BSIZE - ucast on) (u_count s);
          type = i_mode (inodes s i) AND IFMT in
      fbind (if is_block_dev (inodes s i) then Ret (Some (bn, dev)) s
             else fbind (bmap strat i bn False s) (\<lambda>bn s. if sint bn < 0 then Ret None s else Ret (Some (bn, i_dev (inodes s i))) s)) (\<lambda>r s.
      case r of
        None \<Rightarrow> Ret None s
      | Some (bn, dev) \<Rightarrow>
          fbind (if n = of_nat BSIZE then getblk strat dev bn s else bread strat dev bn s) (\<lambda>bp s.
            let (b, s) = iomove True (unat on) n (b_addr s bp) s;
                s = s\<lparr>b_addr := (b_addr s)(bp := b)\<rparr>
            in fbind (if u_error s \<noteq> 0 then Ret () (brelse bp s) else bdwrite strat bp s) (\<lambda>_ s.
                 let s = (if sint (i_size (inodes s i)) < sint (u_offset s) \<and> (type = IFDIR \<or> type = IFREG)
                          then i_upd i (\<lambda>ip. ip\<lparr>i_size := u_offset s\<rparr>) s else s)
                 in Ret (Some dev) (i_upd i (\<lambda>ip. ip\<lparr>i_flag := i_flag ip \<union> {IUPD, ICHG}\<rparr>) s)))))"

fun writei_loop :: "nat \<Rightarrow> 'a ino_ext alc_ext strategy \<Rightarrow> nat \<Rightarrow> u16 \<Rightarrow> 'a ino_scheme \<Rightarrow> (unit, 'a ino_scheme) fres" where
  "writei_loop 0 strat i dev s = Endless"
| "writei_loop (Suc k) strat i dev s =
     fbind (writei_round strat i dev s) (\<lambda>r s.
       case r of
         None \<Rightarrow> Ret () s
       | Some dev \<Rightarrow> if u_error s = 0 \<and> u_count s \<noteq> 0 then writei_loop k strat i dev s else Ret () s)"

definition writei :: "'a ino_ext alc_ext strategy \<Rightarrow> 'a dev_op \<Rightarrow> nat \<Rightarrow> 'a ino_scheme \<Rightarrow> (unit, 'a ino_scheme) fres" where
  "writei strat dwr i s =
     (if sint (u_offset s) < 0 then Ret () (s\<lparr>u_error := EINVAL\<rparr>)
      else
        let dev = i_rdev (inodes s i) in
        if is_char_dev (inodes s i)
        then dwr dev (i_upd i (\<lambda>ip. ip\<lparr>i_flag := i_flag ip \<union> {IUPD, ICHG}\<rparr>) s)
        else if u_count s = 0 then Ret () s
        else writei_loop (unat (u_count s) + 1) strat i dev s)"

section \<open>What reading delivers\<close>

lemma bio_uio [simp]:
  "binv (s\<lparr>u_mem := m\<rparr>) H = binv s H" "binv (s\<lparr>u_base := b\<rparr>) H = binv s H" "binv (s\<lparr>u_count := n\<rparr>) H = binv s H" "binv (s\<lparr>u_offset := off\<rparr>) H = binv s H"
  "cont (s\<lparr>u_mem := m\<rparr>) = cont s" "cont (s\<lparr>u_base := b\<rparr>) = cont s" "cont (s\<lparr>u_count := n\<rparr>) = cont s" "cont (s\<lparr>u_offset := off\<rparr>) = cont s"
  "usable (s\<lparr>u_mem := m\<rparr>) = usable s" "usable (s\<lparr>u_base := b\<rparr>) = usable s" "usable (s\<lparr>u_count := n\<rparr>) = usable s" "usable (s\<lparr>u_offset := off\<rparr>) = usable s"
  "same_buf c t (s\<lparr>u_mem := m\<rparr>) = same_buf c t s" "same_buf c t (s\<lparr>u_base := b\<rparr>) = same_buf c t s" "same_buf c t (s\<lparr>u_count := n\<rparr>) = same_buf c t s"
  "same_buf c t (s\<lparr>u_offset := off\<rparr>) = same_buf c t s"
  by (simp_all add: binv_def free_ok_def lists_ok_def on_lists_def heads_def home_def usable_def flags_ok_def unique_ok_def data_ok_def sizes_ok_def
      cont_def delayed_at_def same_buf_def fun_eq_iff split: option.split)

text \<open>The user's side: \<open>bs\<close> has been delivered.\<close>

definition delivered :: "u8 list \<Rightarrow> 'a uio_scheme \<Rightarrow> 'a uio_scheme \<Rightarrow> bool" where
  "delivered bs s t \<longleftrightarrow> u_base t = u_base s + of_nat (length bs) \<and> u_offset t = u_offset s + of_nat (length bs) \<and>
     u_count t = u_count s - of_nat (length bs) \<and> u_segflg t = u_segflg s \<and> u_error t = u_error s \<and>
     u_mem t = (u_mem s)(u_segflg s := put_mem (u_base s) bs (u_mem s (u_segflg s)))"

lemma put_mem_append: "put_mem a (xs @ ys) f = put_mem (a + of_nat (length xs)) ys (put_mem a xs f)"
  by (induction xs arbitrary: a f) (simp_all add: add.assoc)

lemma delivered_trans: "delivered xs s t \<Longrightarrow> delivered ys t u \<Longrightarrow> delivered (xs @ ys) s u"
  by (simp add: delivered_def put_mem_append add.assoc diff_diff_eq)

lemma delivered_nil: "u_base t = u_base s \<Longrightarrow> u_offset t = u_offset s \<Longrightarrow> u_count t = u_count s \<Longrightarrow> u_segflg t = u_segflg s \<Longrightarrow> u_error t = u_error s \<Longrightarrow>
    u_mem t = u_mem s \<Longrightarrow> delivered [] s t"
  by (simp add: delivered_def)

lemma put_mem_keeps: "f x \<noteq> None \<Longrightarrow> put_mem a bs f x \<noteq> None"
  by (induction bs arbitrary: a f) auto

lemma accessible_delivered:
  assumes "delivered bs s t" "accessible (u_base s) (length bs + n) s"
  shows "accessible (u_base t) n t"
proof -
  have "u_mem s (u_segflg s) (u_base s + of_nat (length bs) + of_nat j) \<noteq> None" if "j < n" for j
    using assms(2) that unfolding accessible_def by (auto simp: add.assoc dest: spec [of _ "length bs + j"])
  then show ?thesis using assms(1) put_mem_keeps by (simp add: delivered_def accessible_def)
qed

text \<open>The file's side: only the last block read is remembered.\<close>

definition kept :: "'a ino_scheme \<Rightarrow> 'a ino_scheme \<Rightarrow> bool" where
  "kept s t \<longleftrightarrow> mounts t = mounts s \<and> b_filsys t = b_filsys s \<and> ino.more t = ino.more s"

lemma kept_trans: "kept s t \<Longrightarrow> kept t u \<Longrightarrow> kept s u" by (simp add: kept_def)

lemma kept_bio: "bio_only s t \<Longrightarrow> kept s t"
  using bio_only_ino [of s t] bio_only_alc [of s t] by (simp add: kept_def)

lemma kept_look: "look_only H s t \<Longrightarrow> kept s t"
  using kept_bio [of "s\<lparr>rablock := 0\<rparr>" "t\<lparr>rablock := 0\<rparr>"] by (simp add: kept_def look_only_def)

definition read_only :: "nat \<Rightarrow> bnode set \<Rightarrow> 'a ino_scheme \<Rightarrow> 'a ino_scheme \<Rightarrow> bool" where
  "read_only i H s t \<longleftrightarrow> binv t H \<and> cont t = cont s \<and> (\<forall>c \<in> H. same_buf c s t) \<and> usable t = usable s \<and>
     kept s t \<and> (\<exists>l. inodes t = (inodes s)(i := (inodes s i)\<lparr>i_lastr := l\<rparr>))"

lemma read_only_trans: "read_only i H s t \<Longrightarrow> read_only i H t u \<Longrightarrow> read_only i H s u"
  unfolding read_only_def by (elim conjE exE, intro conjI ballI) (simp, simp, rule same_buf_trans, blast, blast, simp, rule kept_trans, auto)

lemma read_only_look: "look_only H s t \<Longrightarrow> read_only i H s t"
  using look_only_same [of H s t] kept_look [of H s t] unfolding read_only_def look_only_def
  by (auto intro: exI [of _ "i_lastr (inodes s i)"])

lemma delivered_look: "look_only H s t \<Longrightarrow> delivered [] s t"
  using look_only_same [of H s t] by (intro delivered_nil) auto

text \<open>The bytes of a file.\<close>

definition file_byte :: "(u32 \<Rightarrow> u8 list) \<Rightarrow> u32 list \<Rightarrow> nat \<Rightarrow> u8" where
  "file_byte c a p = (let b = file_block c a (p div 512) in if b = 0 then 0 else c b ! (p mod 512))"

definition file_bytes :: "(u32 \<Rightarrow> u8 list) \<Rightarrow> u32 list \<Rightarrow> nat \<Rightarrow> nat \<Rightarrow> u8 list" where
  "file_bytes c a p n = map (file_byte c a) [p..<p + n]"

lemma length_file_bytes [simp]: "length (file_bytes c a p n) = n"
  by (simp add: file_bytes_def)

lemma file_bytes_append: "file_bytes c a p (m + n) = file_bytes c a p m @ file_bytes c a (p + m) n"
  by (simp add: file_bytes_def upt_add_eq_append [of "p" "p + m" n] add.assoc [symmetric])

lemma file_bytes_block:
  assumes "p mod 512 + n \<le> 512" "length (c b) = BSIZE" "b = file_block c a (p div 512)"
  shows "file_bytes c a p n = take n (drop (p mod 512) (if b = 0 then replicate BSIZE 0 else c b))"
proof (rule nth_equalityI)
  show "length (file_bytes c a p n) = length (take n (drop (p mod 512) (if b = 0 then replicate BSIZE 0 else c b)))"
    using assms(1,2) by (simp add: BSIZE_def)
  fix j assume "j < length (file_bytes c a p n)"
  then have j: "j < n" by simp
  then have "p mod 512 + j < 512" using assms(1) by simp
  moreover have e: "512 * (p div 512) + p mod 512 = p" by simp
  ultimately have d: "(p + j) div 512 = p div 512" by (intro div_nat_eqI) (linarith, unfold mult_Suc_right, linarith)
  have "512 * ((p + j) div 512) + (p + j) mod 512 = p + j" by simp
  then have dm: "(p + j) div 512 = p div 512" "(p + j) mod 512 = p mod 512 + j" using e d by (simp, unfold d, linarith)
  have "file_bytes c a p n ! j = file_byte c a (p + j)" using j by (simp add: file_bytes_def)
  also have "\<dots> = take n (drop (p mod 512) (if b = 0 then replicate BSIZE 0 else c b)) ! j"
    using j assms \<open>p mod 512 + j < 512\<close> by (simp add: file_byte_def dm BSIZE_def)
  finally show "file_bytes c a p n ! j = take n (drop (p mod 512) (if b = 0 then replicate BSIZE 0 else c b)) ! j" .
qed

lemma read_buf_reads:
  assumes st: "sync_driver strat" and i: "binv s H" "card H + 1 < NBUF" "usable s dev" "\<forall>c \<in> H. b_dev s c \<noteq> dev"
  shows "fpost (read_buf strat i dev bn lbn s) (\<lambda>bp t. bp \<notin> H \<and> binv t (insert bp H) \<and> cont t = cont s \<and> (\<forall>c \<in> H. same_buf c s t) \<and> bio_only s t \<and>
     b_addr t bp = (if sint bn < 0 then replicate BSIZE 0 else cont s dev bn) \<and>
     (b_dev t bp \<noteq> NODEV \<longrightarrow> b_addr t bp = cont t (b_dev t bp) (b_blkno t bp)))"
proof -
  have Hp: "H \<noteq> pool" using i(2) by auto
  have nh: "\<forall>c \<in> H. \<not> (b_dev s c = dev \<and> b_blkno s c = b)" "\<forall>c \<in> H. \<not> (b_dev s c = dev \<and> (b_blkno s c = b \<or> b_blkno s c = r))" for b r
    using i(4) by simp_all
  consider "sint bn < 0" | "\<not> sint bn < 0" "i_lastr (inodes s i) + 1 = lbn" | "\<not> sint bn < 0" "i_lastr (inodes s i) + 1 \<noteq> lbn" by blast
  then show ?thesis
  proof cases
    case 1
    have "fpost (fbind (geteblk strat s) (\<lambda>bp s. Ret bp (clrbuf bp s))) (\<lambda>bp t. bp \<notin> H \<and> binv t (insert bp H) \<and> cont t = cont s \<and> (\<forall>c \<in> H. same_buf c s t) \<and>
      bio_only s t \<and> b_addr t bp = replicate BSIZE 0 \<and> b_dev t bp = NODEV)"
      unfolding geteblk_def
    proof (rule fpost_bind, rule fpost_mono [OF geteblk_loop_keeps [OF st Hp i(1)]])
      show "backlog s H < NBUF + 1" using backlog_bound [of s H] by simp
      fix bp t assume t: "bp \<notin> H \<and> binv t (insert bp H) \<and> b_dev t bp = NODEV \<and> cont t = cont s \<and> bio_only s t \<and> (\<forall>c \<in> H. same_buf c s t)"
      then have bt: "binv t (insert bp H)" by blast
      have rz: "\<forall>b \<in> pool. ((b_resid t)(bp := 0)) b = 0" using binv_len(3) [OF bt] by simp
      note e = held_edit [OF bt insertI1 _ rz clrbuf_def, simplified]
      have "B_DELWRI \<notin> b_flags t bp" using held_flags(6) [OF bt insertI1] t by blast
      then have "cont (clrbuf bp t) = cont s" using e(2) t by (simp add: fun_eq_iff)
      moreover have "\<forall>c \<in> H. same_buf c s (clrbuf bp t)" using t e(4) same_buf_trans by metis
      moreover have "bio_only s (clrbuf bp t)" using t e(3) bio_only_trans by blast
      moreover have "b_addr (clrbuf bp t) bp = replicate BSIZE 0" "b_dev (clrbuf bp t) bp = b_dev t bp" by (simp_all add: clrbuf_def)
      ultimately show "fpost (Ret bp (clrbuf bp t)) (\<lambda>bp t. bp \<notin> H \<and> binv t (insert bp H) \<and> cont t = cont s \<and> (\<forall>c \<in> H. same_buf c s t) \<and>
        bio_only s t \<and> b_addr t bp = replicate BSIZE 0 \<and> b_dev t bp = NODEV)" using t e(1) by simp
    qed
    then show ?thesis unfolding read_buf_def using 1 by (simp, elim fpost_mono) auto
  next
    case 2
    have "fpost (breada strat dev bn (rablock s) s) (\<lambda>bp t. bp \<notin> H \<and> binv t (insert bp H) \<and> cont t = cont s \<and> (\<forall>c \<in> H. same_buf c s t) \<and> bio_only s t \<and>
     b_addr t bp = cont s dev bn \<and> (b_dev t bp \<noteq> NODEV \<longrightarrow> b_addr t bp = cont t (b_dev t bp) (b_blkno t bp)))"
      by (rule fpost_mono [OF breada_keeps [OF st i(1,3) nh(2) i(2)]]) (simp add: got_def)
    then show ?thesis unfolding read_buf_def using 2 by simp
  next
    case 3
    have "fpost (bread strat dev bn s) (\<lambda>bp t. bp \<notin> H \<and> binv t (insert bp H) \<and> cont t = cont s \<and> (\<forall>c \<in> H. same_buf c s t) \<and> bio_only s t \<and>
     b_addr t bp = cont s dev bn \<and> (b_dev t bp \<noteq> NODEV \<longrightarrow> b_addr t bp = cont t (b_dev t bp) (b_blkno t bp)))"
      by (rule fpost_mono [OF bread_keeps [OF st i(1) Hp i(3) nh(1)]]) (simp add: got_def)
    then show ?thesis unfolding read_buf_def using 3 by simp
  qed
qed

text \<open>The words of a round as numbers.\<close>

lemma unat_sint: "0 \<le> sint w \<Longrightarrow> int (unat w) = sint w" for w :: "32 word"
proof -
  assume a: "0 \<le> sint w"
  have "unat w < 2 ^ 31"
  proof (rule ccontr)
    assume "\<not> unat w < 2 ^ 31"
    then have u: "2 ^ 31 \<le> uint w" by (simp add: unat_eq_nat_uint nat_less_iff del: nat_uint_eq)
    have "uint w < 2 ^ LENGTH(32)" by (rule unsigned_less)
    then have "uint w < 2 ^ 32" by simp
    moreover have "(x + 2147483648) mod 4294967296 = x - 2147483648" if "2147483648 \<le> x" "x < 4294967296" for x :: int
      using mod_pos_pos_trivial [of "x - 2147483648" 4294967296] minus_mod_self2 [of "x + 2147483648" 4294967296] that by simp
    ultimately have "signed_take_bit 31 (uint w) = uint w - 2 ^ 32" using u by (simp add: signed_take_bit_eq_take_bit_shift take_bit_eq_mod)
    then have "sint w = uint w - 2 ^ 32" by (simp add: sint_uint)
    then show False using a \<open>uint w < 2 ^ 32\<close> by simp
  qed
  then show ?thesis by (rule sint_unat32 [symmetric])
qed

lemma sint_diff: "unat v < 2 ^ 31 \<Longrightarrow> unat w < 2 ^ 31 \<Longrightarrow> sint (v - w) = int (unat v) - int (unat w)" for v w :: "32 word"
proof -
  assume a: "unat v < 2 ^ 31" "unat w < 2 ^ 31"
  have "signed_take_bit 31 (int (unat v) - int (unat w)) = int (unat v) - int (unat w)"
  proof -
    have "signed_take_bit 31 (int m - int n) = int m - int n" if "m < 2 ^ 31" "n < 2 ^ 31" for m n :: nat
      by (rule signed_take_bit_int_eq_self) (use that in simp_all)
    then show ?thesis using a by blast
  qed
  then show ?thesis using sint_unat32 [OF a(1)] sint_unat32 [OF a(2)] by (simp add: sint_word_ariths)
qed

lemma offset_parts:
  fixes w :: "32 word"
  assumes "unat w < 2 ^ 31"
  shows "unat (signed_drop_bit 9 w) = unat w div 512" "unat (w AND 0x1FF) = unat w mod 512" "unat (ucast (w AND 0x1FF) :: 16 word) = unat w mod 512"
proof -
  have "sint (signed_drop_bit 9 w) = int (unat w) div 2 ^ 9"
    using sint_unat32 [OF assms] by (simp only: sint_signed_drop_bit_eq drop_bit_eq_div)
  then have s: "sint (signed_drop_bit 9 w) = int (unat w div 512)" by (simp add: zdiv_int)
  then have "int (unat (signed_drop_bit 9 w)) = int (unat w div 512)" using unat_sint [of "signed_drop_bit 9 w"] by simp
  then show "unat (signed_drop_bit 9 w) = unat w div 512" by (simp only: of_nat_eq_iff)
  have "w AND 0x1FF = take_bit 9 w" by (simp add: take_bit_eq_mask mask_eq_exp_minus_1)
  then show m: "unat (w AND 0x1FF) = unat w mod 512" by (simp add: take_bit_eq_mod unat_mod)
  then show "unat (ucast (w AND 0x1FF) :: 16 word) = unat w mod 512"
    by (simp add: unsigned_ucast_eq take_bit_nat_eq_self)
qed

lemma unat_umin: "unat (umin a b) = min (unat a) (unat b)"
  by (simp add: umin_def word_less_nat_alt min_def)

lemma delivered_moved:
  assumes "delivered [] s u" "n = length bs"
  shows "delivered bs s (moved n (put_user bs u))"
  using assms by (simp add: delivered_def moved_def put_user_def)

lemma delivered_bio: "delivered bs s t \<Longrightarrow> bio_only t u \<Longrightarrow> delivered bs s u"
  by (simp add: delivered_def bio_only_def)

text \<open>The number of bytes of a round.\<close>

definition round_size :: "'a uio_scheme \<Rightarrow> nat \<Rightarrow> nat" where
  "round_size s sz = min (min (512 - unat (u_offset s) mod 512) (unat (u_count s))) (sz - unat (u_offset s))"

lemma read_count_size:
  assumes p: "unat (u_offset s) < 2 ^ 31" "unat (i_size (inodes s i)) < 2 ^ 31" "unat (u_offset s) < unat (i_size (inodes s i))"
    and f: "\<not> is_block_dev (inodes s i)"
  shows "unat (read_count i s) = round_size s (unat (i_size (inodes s i)))" "\<not> sint (i_size (inodes s i) - u_offset s) \<le> 0"
proof -
  let ?p = "unat (u_offset s)" and ?sz = "i_size (inodes s i)"
  define n0 where "n0 = umin (of_nat BSIZE - ucast (u_offset s AND 0x1FF)) (u_count s)"
  have d: "sint (?sz - u_offset s) = int (unat ?sz - ?p)" using sint_diff [OF p(2,1)] p(3) by (simp only: of_nat_diff less_imp_le_nat)
  show "\<not> sint (?sz - u_offset s) \<le> 0" unfolding d using p(3) by (simp only: of_nat_le_0_iff)
  have "unat (of_nat BSIZE - ucast (u_offset s AND 0x1FF) :: u16) = 512 - ?p mod 512"
  proof -
    have "(ucast (u_offset s AND 0x1FF) :: u16) \<le> 512" using offset_parts(3) [OF p(1)] by (simp add: word_le_nat_alt)
    then show ?thesis using offset_parts(3) [OF p(1)] by (simp add: BSIZE_def unat_sub)
  qed
  then have n0: "unat n0 = min (512 - ?p mod 512) (unat (u_count s))" by (simp add: n0_def unat_umin)
  then have n1: "unat n0 \<le> 1000" by simp
  then have s0: "sint n0 = int (unat n0)" by (rule sint_unat)
  have du: "unat (?sz - u_offset s) = unat ?sz - ?p" using p(3) by (simp add: unat_sub word_le_nat_alt)
  have rc: "read_count i s = (if sint (?sz - u_offset s) < sint n0 then ucast (?sz - u_offset s) else n0)"
    using f by (simp add: read_count_def n0_def Let_def)
  show "unat (read_count i s) = round_size s (unat ?sz)"
  proof (cases "unat ?sz - ?p < unat n0")
    case True
    then have "unat (ucast (?sz - u_offset s) :: u16) = unat ?sz - ?p"
      using du n1 by (simp add: unsigned_ucast_eq take_bit_nat_eq_self)
    moreover have "sint (?sz - u_offset s) < sint n0" unfolding d s0 using True by (simp only: of_nat_less_iff)
    ultimately show ?thesis using True unfolding rc round_size_def n0 [symmetric] by (simp add: min_absorb2)
  next
    case False
    then have "\<not> sint (?sz - u_offset s) < sint n0" unfolding d s0 by (simp only: of_nat_less_iff not_False_eq_True)
    then show ?thesis using False unfolding rc round_size_def n0 [symmetric] by (simp add: min_absorb1)
  qed
qed

lemma read_move_reads:
  assumes t: "bp \<notin> H" "binv t (insert bp H)" "\<And>c. c \<in> H \<Longrightarrow> same_buf c s t" "cont t = cont s" "usable t = usable s" "inodes t = inodes s" "delivered [] s t" "kept s t"
      "b_dev t bp \<noteq> NODEV \<longrightarrow> b_addr t bp = cont t (b_dev t bp) (b_blkno t bp)"
    and n: "unat n = m" "0 < m" "on + m \<le> 512" "m \<le> unat (u_count s)" "accessible (u_base s) m s"
  shows "fst (read_move i lbn on n bp t) = n" "read_only i H s (snd (read_move i lbn on n bp t))"
    "delivered (take m (drop on (b_addr t bp))) s (snd (read_move i lbn on n bp t))"
proof -
  define v where "v = i_upd i (\<lambda>ip. ip\<lparr>i_lastr := lbn\<rparr>) t"
  have bp: "bp \<in> pool" using binvD(1) [OF t(2)] by blast
  have v: "binv v (insert bp H)" "cont v = cont s" "b_addr v = b_addr t" "b_resid v bp = 0" "b_dev v = b_dev t" "b_blkno v = b_blkno t"
    "delivered [] s v" "inodes v = (inodes s)(i := (inodes s i)\<lparr>i_lastr := lbn\<rparr>)" "usable v = usable s" "\<And>c. same_buf c s v = same_buf c s t" "kept s v"
    using t binv_len(3) [OF t(2) bp] by (auto simp: v_def i_upd_def delivered_def kept_def)
  have un: "umin n (of_nat BSIZE - b_resid v bp) = n"
  proof -
    have "unat n \<le> unat (512 :: u16)" using n(1,3) by simp
    then have "n \<le> 512" by (simp only: word_le_nat_alt)
    then show ?thesis using v(4) by (simp add: umin_def BSIZE_def)
  qed
  have len: "length (b_addr v bp) = BSIZE" using binv_len(1) [OF v(1) bp] .
  define chunk where "chunk = take m (drop on (b_addr v bp))"
  have acc: "accessible (u_base v) (unat n) v" "unat n \<le> unat (u_count v)" "on + unat n \<le> length (b_addr v bp)"
    using v(7) n len by (simp_all add: delivered_def accessible_def BSIZE_def)
  have io: "iomove False on n (b_addr v bp) v = (b_addr v bp, moved m (put_user chunk v))"
    using iomove_moves [OF acc(3,2,1), of False] by (simp add: n(1) chunk_def)
  define w where "w = moved m (put_user chunk v)"
  have w: "binv w (insert bp H)" "cont w = cont s" "b_addr w = b_addr v" "b_dev w = b_dev t" "b_blkno w = b_blkno t" "inodes w = inodes v" "usable w = usable s"
      "\<And>c. same_buf c s w = same_buf c s v" "kept s w"
    using v by (simp_all add: w_def moved_def put_user_def kept_def)
  have "length chunk = m" using len n(3) by (simp add: chunk_def BSIZE_def)
  then have dw: "delivered chunk s w" unfolding w_def using delivered_moved [OF v(7), of m chunk] by simp
  have D: "b_addr w bp = cont w (b_dev w bp) (b_blkno w bp)" if "b_dev w bp \<noteq> NODEV" using t(4,9) that by (simp add: w v)
  note R = brelse_keeps [OF w(1) insertI1 D]
  have H: "insert bp H - {bp} = H" using t(1) by blast
  have "n \<noteq> 0" using n(1,2) by auto
  then have rm: "read_move i lbn on n bp t = (n, brelse bp w)"
    unfolding read_move_def Let_def v_def [symmetric] un by (simp add: io w_def)
  have "same_buf c s (brelse bp w)" if "c \<in> H" for c
  proof -
    have "c \<noteq> bp" using that t(1) by blast
    then show ?thesis using same_buf_trans [of c s w] R(4) w(8) v(10) t(3) [OF that] by simp
  qed
  moreover have "inodes (brelse bp w) = inodes v" using bio_only_ino [OF R(3)] w(6) by simp
  ultimately show "read_only i H s (snd (read_move i lbn on n bp t))"
    using R(1,2) H w(2,7) v(8) usable_cong [OF R(3)] kept_trans [OF w(9) kept_bio [OF R(3)]] unfolding read_only_def rm by auto
  show "fst (read_move i lbn on n bp t) = n" unfolding rm by simp
  show "delivered (take m (drop on (b_addr t bp))) s (snd (read_move i lbn on n bp t))"
    unfolding rm snd_conv using delivered_bio [OF dw R(3)] by (simp add: chunk_def v(3))
qed

lemma read_where_reads:
  assumes st: "sync_driver strat" and i: "binv s H" "H \<noteq> pool" "usable s (i_dev (inodes s i))" "\<forall>c \<in> H. b_dev s c \<noteq> i_dev (inodes s i)"
    and f: "\<not> is_block_dev (inodes s i)" "u_error s = 0" "unat lbn = k" "k < max_blocks" and b: "b = file_block (cont s (i_dev (inodes s i))) (i_addr (inodes s i)) k"
  shows "fpost (read_where strat i d lbn s) (\<lambda>r t. look_only H s t \<and> r = Some (if b = 0 then - 1 else b, i_dev (inodes s i)))"
proof -
  have "fpost (fbind (bmap strat i lbn True s) (\<lambda>bn s. if u_error s \<noteq> 0 then Ret None s else Ret (Some (bn, i_dev (inodes s i))) s))
      (\<lambda>r t. look_only H s t \<and> r = Some (if b = 0 then - 1 else b, i_dev (inodes s i)))"
  proof (rule fpost_bind, rule fpost_mono [OF bmap_reads [OF st i f(3) [symmetric] f(4) b]])
    fix x t assume "look_only H s t \<and> x = (if b = 0 then - 1 else b)"
    then show "fpost (if u_error t \<noteq> 0 then Ret None t else Ret (Some (x, i_dev (inodes t i))) t)
      (\<lambda>r t. look_only H s t \<and> r = Some (if b = 0 then - 1 else b, i_dev (inodes s i)))"
      using f(2) look_only_same(1,7) [of H s t] by simp
  qed
  then show ?thesis using f(1) by (simp add: read_where_def)
qed

lemma readi_round_reads:
  assumes st: "sync_driver strat" and i: "binv s H" "card H + 1 < NBUF" "usable s (i_dev (inodes s i))" "\<forall>c \<in> H. b_dev s c \<noteq> i_dev (inodes s i)"
    and f: "\<not> is_block_dev (inodes s i)" "unat (i_size (inodes s i)) \<le> 512 * max_blocks" "unat (u_offset s) < unat (i_size (inodes s i))"
    and u: "u_error s = 0" "0 < unat (u_count s)" "accessible (u_base s) m s" and m: "m = round_size s (unat (i_size (inodes s i)))"
    and b: "0 \<le> sint (file_block (cont s (i_dev (inodes s i))) (i_addr (inodes s i)) (unat (u_offset s) div 512))"
  shows "fpost (readi_round strat i d s) (\<lambda>r t. (\<exists>n e. r = Some (n, e) \<and> unat n = m) \<and> read_only i H s t \<and>
    delivered (file_bytes (cont s (i_dev (inodes s i))) (i_addr (inodes s i)) (unat (u_offset s)) m) s t)"
proof -
  let ?ip = "inodes s i" and ?p = "unat (u_offset s)"
  let ?dev = "i_dev ?ip" and ?lbn = "signed_drop_bit 9 (u_offset s)"
  define blk where "blk = file_block (cont s ?dev) (i_addr ?ip) (?p div 512)"
  have sz: "unat (i_size ?ip) < 2 ^ 31" "?p < 2 ^ 31" using f(2,3) by (simp_all add: max_blocks_def)
  note rc = read_count_size [OF sz(2,1) f(3,1), folded m]
  note on = offset_parts(2) [OF sz(2)]
  have m0: "0 < m" "m \<le> unat (u_count s)" "?p mod 512 + m \<le> 512" using u(2) f(3) by (auto simp: m round_size_def)
  have k: "unat ?lbn = ?p div 512" "?p div 512 < max_blocks" using offset_parts(1) [OF sz(2)] f(2,3) by auto
  have Hp: "H \<noteq> pool" using i(2) by auto
  have neg: "sint (if blk = 0 then - 1 else blk) < 0 \<longleftrightarrow> blk = 0" using b by (simp add: blk_def [symmetric] not_less)
  have e: "readi_round strat i d s = fbind (read_where strat i d ?lbn s) (\<lambda>r t.
        case r of
          None \<Rightarrow> Ret None t
        | Some (bn, dev) \<Rightarrow>
            fbind (read_buf strat i dev bn ?lbn t) (\<lambda>bp t.
              Ret (Some (fst (read_move i ?lbn (?p mod 512) (read_count i s) bp t), dev)) (snd (read_move i ?lbn (?p mod 512) (read_count i s) bp t))))"
    unfolding readi_round_def Let_def on using rc(2) f(1) by simp
  show ?thesis
    unfolding e
  proof (rule fpost_bind, rule fpost_mono [OF read_where_reads [OF st i(1) Hp i(3,4) f(1) u(1) k blk_def]])
    fix r t1 assume "look_only H s t1 \<and> r = Some (if blk = 0 then - 1 else blk, ?dev)"
    then have l: "look_only H s t1" and r: "r = Some (if blk = 0 then - 1 else blk, ?dev)" by auto
    note ls = look_only_same [OF l]
    have us: "usable t1 ?dev" "\<forall>c \<in> H. b_dev t1 c \<noteq> ?dev" using ls i by auto
    have "fpost (fbind (read_buf strat i ?dev (if blk = 0 then - 1 else blk) ?lbn t1) (\<lambda>bp t.
              Ret (Some (fst (read_move i ?lbn (?p mod 512) (read_count i s) bp t), ?dev)) (snd (read_move i ?lbn (?p mod 512) (read_count i s) bp t))))
         (\<lambda>r t. (\<exists>n e. r = Some (n, e) \<and> unat n = m) \<and> read_only i H s t \<and> delivered (file_bytes (cont s ?dev) (i_addr ?ip) ?p m) s t)"
    proof (rule fpost_bind, rule fpost_mono [OF read_buf_reads [OF st ls(11) i(2) us]])
      fix bp t
      assume "bp \<notin> H \<and> binv t (insert bp H) \<and> cont t = cont t1 \<and> (\<forall>c \<in> H. same_buf c t1 t) \<and> bio_only t1 t \<and>
        b_addr t bp = (if sint (if blk = 0 then - 1 else blk) < 0 then replicate BSIZE 0 else cont t1 ?dev (if blk = 0 then - 1 else blk)) \<and>
        (b_dev t bp \<noteq> NODEV \<longrightarrow> b_addr t bp = cont t (b_dev t bp) (b_blkno t bp))"
      then have t: "bp \<notin> H" "binv t (insert bp H)" "cont t = cont s" "\<forall>c \<in> H. same_buf c t1 t" "bio_only t1 t"
          "b_addr t bp = (if blk = 0 then replicate BSIZE 0 else cont s ?dev blk)" "b_dev t bp \<noteq> NODEV \<longrightarrow> b_addr t bp = cont t (b_dev t bp) (b_blkno t bp)"
        unfolding neg ls(10) by auto
      have sb: "same_buf c s t" if "c \<in> H" for c using that l t(4) same_buf_trans [of c s t1 t] by (simp add: look_only_def)
      have it: "inodes t = inodes s" "usable t = usable s" using bio_only_ino [OF t(5)] ls usable_cong [OF t(5)] by simp_all
      note M = read_move_reads [OF t(1,2) sb t(3) it(2,1) delivered_bio [OF delivered_look [OF l] t(5)] kept_trans [OF kept_look [OF l] kept_bio [OF t(5)]] t(7) rc(1) m0(1,3,2) u(3)]
      have "file_bytes (cont s ?dev) (i_addr ?ip) ?p m = take m (drop (?p mod 512) (b_addr t bp))"
        using file_bytes_block [OF m0(3), of "cont s ?dev" blk "i_addr ?ip"] cont_len [OF i(1)] by (simp add: t(6) blk_def)
      then show "fpost (Ret (Some (fst (read_move i ?lbn (?p mod 512) (read_count i s) bp t), ?dev)) (snd (read_move i ?lbn (?p mod 512) (read_count i s) bp t)))
         (\<lambda>r t. (\<exists>n e. r = Some (n, e) \<and> unat n = m) \<and> read_only i H s t \<and> delivered (file_bytes (cont s ?dev) (i_addr ?ip) ?p m) s t)"
        using M rc(1) by simp
    qed
    then show "fpost (case r of None \<Rightarrow> Ret None t1
        | Some (bn, dev) \<Rightarrow> fbind (read_buf strat i dev bn ?lbn t1) (\<lambda>bp t.
              Ret (Some (fst (read_move i ?lbn (?p mod 512) (read_count i s) bp t), dev)) (snd (read_move i ?lbn (?p mod 512) (read_count i s) bp t))))
       (\<lambda>r t. (\<exists>n e. r = Some (n, e) \<and> unat n = m) \<and> read_only i H s t \<and> delivered (file_bytes (cont s ?dev) (i_addr ?ip) ?p m) s t)"
      unfolding r by simp
  qed
qed

text \<open>What is left to be read: no more than was asked for and no more than the file has.\<close>

definition read_size :: "'a uio_scheme \<Rightarrow> nat \<Rightarrow> nat" where
  "read_size s sz = min (unat (u_count s)) (sz - unat (u_offset s))"

definition blocks_ok :: "(u32 \<Rightarrow> u8 list) \<Rightarrow> u32 list \<Rightarrow> bool" where
  "blocks_ok c a \<longleftrightarrow> (\<forall>k < max_blocks. 0 \<le> sint (file_block c a k))"

lemma readi_loop_reads:
  assumes st: "sync_driver strat" and room: "card H + 1 < NBUF"
  shows "binv s H \<Longrightarrow> usable s (i_dev (inodes s i)) \<Longrightarrow> \<forall>c \<in> H. b_dev s c \<noteq> i_dev (inodes s i) \<Longrightarrow> \<not> is_block_dev (inodes s i) \<Longrightarrow>
    unat (i_size (inodes s i)) \<le> 512 * max_blocks \<Longrightarrow> unat (u_offset s) < 2 ^ 31 \<Longrightarrow> u_error s = 0 \<Longrightarrow> 0 < unat (u_count s) \<Longrightarrow>
    N = read_size s (unat (i_size (inodes s i))) \<Longrightarrow> accessible (u_base s) N s \<Longrightarrow> blocks_ok (cont s (i_dev (inodes s i))) (i_addr (inodes s i)) \<Longrightarrow>
    unat (u_count s) < k \<Longrightarrow>
    fpost (readi_loop k strat i d s) (\<lambda>_ t. read_only i H s t \<and>
      delivered (file_bytes (cont s (i_dev (inodes s i))) (i_addr (inodes s i)) (unat (u_offset s)) N) s t)"
proof (induction k arbitrary: s N d)
  case (Suc k)
  let ?ip = "inodes s i" and ?p = "unat (u_offset s)" and ?c = "unat (u_count s)"
  let ?dev = "i_dev ?ip" and ?sz = "unat (i_size ?ip)"
  note P = Suc.prems
  show ?case
  proof (cases "?p < ?sz")
    case False
    have szl: "?sz < 2 ^ 31" using P(5) by (simp add: max_blocks_def)
    then have "sint (i_size ?ip - u_offset s) = int ?sz - int ?p" by (rule sint_diff [OF _ P(6)])
    then have "sint (i_size ?ip - u_offset s) \<le> 0" using False by (simp only: diff_le_0_iff_le of_nat_le_iff not_less)
    then have r: "readi_round strat i d s = Ret None s" using P(4) by (simp add: readi_round_def Let_def)
    have "read_only i H s s" by (rule read_only_look [OF look_only_refl [OF P(1)]])
    moreover have "N = 0" using False P(9) by (simp add: read_size_def)
    ultimately show ?thesis using delivered_nil [of s s] by (simp add: r file_bytes_def)
  next
    case True
    define m where "m = round_size s ?sz"
    have m: "0 < m" "m \<le> 512" "m \<le> ?c" "m \<le> ?sz - ?p" "m \<le> N" using P(8,9) True by (auto simp: m_def round_size_def read_size_def)
    have "?p div 512 < max_blocks" using True P(5) by auto
    then have b: "0 \<le> sint (file_block (cont s ?dev) (i_addr ?ip) (?p div 512))" using P(11) by (simp add: blocks_ok_def)
    have acc: "accessible (u_base s) m s" using P(10) m(5) by (simp add: accessible_def)
    show ?thesis
      unfolding readi_loop.simps
    proof (rule fpost_bind, rule fpost_mono [OF readi_round_reads [OF st P(1) room P(2-5) True P(7,8) acc m_def b]])
      fix r :: "(u16 \<times> u16) option" and t
      assume "(\<exists>n e. r = Some (n, e) \<and> unat n = m) \<and> read_only i H s t \<and> delivered (file_bytes (cont s ?dev) (i_addr ?ip) ?p m) s t"
      then obtain n e where r: "r = Some (n, e)" "unat n = m" and t: "read_only i H s t" "delivered (file_bytes (cont s ?dev) (i_addr ?ip) ?p m) s t" by blast
      have "sint n = int m" using sint_unat [of n] r(2) m(2) by simp
      then have n0: "0 < sint n" using m(1) by simp
      have ut: "u_error t = 0" "u_count t = u_count s - of_nat m" "u_offset t = u_offset s + of_nat m" using t(2) P(7) by (simp_all add: delivered_def)
      have "unat (of_nat m :: 16 word) = m" using m(2) by (simp add: unat_of_nat take_bit_nat_eq_self)
      then have ct: "unat (u_count t) = ?c - m" using m(3) unfolding ut(2) by (simp add: unat_sub word_le_nat_alt)
      have "?p + m < 2 ^ 31" using m(4) P(5) True by (simp add: max_blocks_def)
      then have om: "unat (of_nat m :: 32 word) = m" "unat (u_offset s) + m < 2 ^ 32" by (simp_all add: unat_of_nat take_bit_nat_eq_self)
      then have ot: "unat (u_offset t) = ?p + m" unfolding ut(3) by (subst unat_add_lem [THEN iffD1]) simp_all
      have it: "i_size (inodes t i) = i_size ?ip" "i_addr (inodes t i) = i_addr ?ip" "i_dev (inodes t i) = ?dev" "is_block_dev (inodes t i) = is_block_dev ?ip"
        using t(1) by (auto simp: read_only_def is_block_dev_def)
      have N: "N = m + read_size t ?sz" using P(9) m(3,4) by (simp add: read_size_def ct ot)
      show "fpost (case r of None \<Rightarrow> Ret () t | Some (n, dev) \<Rightarrow> if u_error t = 0 \<and> u_count t \<noteq> 0 \<and> sint n > 0 then readi_loop k strat i dev t else Ret () t)
        (\<lambda>_ t. read_only i H s t \<and> delivered (file_bytes (cont s ?dev) (i_addr ?ip) ?p N) s t)"
      proof (cases "u_count t = 0")
        case True
        then have "read_size t ?sz = 0" by (simp add: read_size_def)
        then show ?thesis using True t N r(1) by simp
      next
        case False
        then have c0: "0 < unat (u_count t)" by (simp add: unat_gt_0)
        have "fpost (readi_loop k strat i e t) (\<lambda>_ u. read_only i H t u \<and>
          delivered (file_bytes (cont t (i_dev (inodes t i))) (i_addr (inodes t i)) (unat (u_offset t)) (read_size t ?sz)) t u)"
        proof (rule Suc.IH)
          show "binv t H" "usable t (i_dev (inodes t i))" "\<forall>c \<in> H. b_dev t c \<noteq> i_dev (inodes t i)" "\<not> is_block_dev (inodes t i)"
            "unat (i_size (inodes t i)) \<le> 512 * max_blocks" "u_error t = 0" "blocks_ok (cont t (i_dev (inodes t i))) (i_addr (inodes t i))"
            using t(1) P it ut(1) by (auto simp: read_only_def same_buf_def)
          show "unat (u_offset t) < 2 ^ 31" unfolding ot by fact
          show "accessible (u_base t) (read_size t ?sz) t" by (rule accessible_delivered [OF t(2)]) (use P(10) N in simp)
          show "unat (u_count t) < k" using ct m(1) P(12) P(8) by linarith
        qed (use c0 it in simp_all)
        then have "fpost (readi_loop k strat i e t) (\<lambda>_ u. read_only i H s u \<and> delivered (file_bytes (cont s ?dev) (i_addr ?ip) ?p N) s u)"
        proof (rule fpost_mono)
          fix x u
          assume u: "read_only i H t u \<and> delivered (file_bytes (cont t (i_dev (inodes t i))) (i_addr (inodes t i)) (unat (u_offset t)) (read_size t ?sz)) t u"
          have "cont t = cont s" using t(1) by (simp add: read_only_def)
          then show "read_only i H s u \<and> delivered (file_bytes (cont s ?dev) (i_addr ?ip) ?p N) s u"
            using u read_only_trans [OF t(1)] delivered_trans [OF t(2)] unfolding N file_bytes_append it ot by auto
        qed
        then show ?thesis using False r(1) n0 ut(1) by simp
      qed
    qed
  qed
qed simp

section \<open>The properties\<close>

lemma flag_acc:
  "inodes (i_upd i (\<lambda>ip. ip\<lparr>i_flag := insert IACC (i_flag ip)\<rparr>) s) i = (inodes s i)\<lparr>i_flag := insert IACC (i_flag (inodes s i))\<rparr>"
  by (simp add: i_upd_def)

lemma read_only_acc:
  assumes "read_only i H (i_upd i (\<lambda>ip. ip\<lparr>i_flag := insert IACC (i_flag ip)\<rparr>) s) t"
  shows "binv t H \<and> cont t = cont s \<and> (\<forall>c \<in> H. same_buf c s t) \<and> (\<forall>j. j \<noteq> i \<longrightarrow> inodes t j = inodes s j) \<and>
    (\<exists>l. inodes t i = (inodes s i)\<lparr>i_flag := insert IACC (i_flag (inodes s i)), i_lastr := l\<rparr>) \<and> usable t = usable s \<and> kept s t"
  using assms by (auto simp: read_only_def i_upd_def same_buf_def kept_def usable_def fun_eq_iff)

lemma readi_reads:
  assumes st: "sync_driver strat" and i: "binv s H" "card H + 1 < NBUF" "usable s (i_dev (inodes s i))" "\<forall>c \<in> H. b_dev s c \<noteq> i_dev (inodes s i)"
    and f: "\<not> is_block_dev (inodes s i)" "\<not> is_char_dev (inodes s i)" "unat (i_size (inodes s i)) \<le> 512 * max_blocks"
      "blocks_ok (cont s (i_dev (inodes s i))) (i_addr (inodes s i))"
    and u: "0 \<le> sint (u_offset s)" "u_error s = 0" "u_count s \<noteq> 0" "accessible (u_base s) N s"
    and N: "N = min (unat (u_count s)) (unat (i_size (inodes s i)) - unat (u_offset s))"
  shows "fpost (readi strat drd i s) (\<lambda>_ t.
    delivered (file_bytes (cont s (i_dev (inodes s i))) (i_addr (inodes s i)) (unat (u_offset s)) N) s t \<and>
    binv t H \<and> cont t = cont s \<and> (\<forall>c \<in> H. same_buf c s t) \<and> (\<forall>j. j \<noteq> i \<longrightarrow> inodes t j = inodes s j) \<and>
    (\<exists>l. inodes t i = (inodes s i)\<lparr>i_flag := insert IACC (i_flag (inodes s i)), i_lastr := l\<rparr>) \<and>
    usable t = usable s \<and> kept s t)"
proof -
  define v where "v = i_upd i (\<lambda>ip. ip\<lparr>i_flag := insert IACC (i_flag ip)\<rparr>) s"
  have v: "inodes v i = (inodes s i)\<lparr>i_flag := insert IACC (i_flag (inodes s i))\<rparr>" "binv v H" "usable v = usable s" "b_dev v = b_dev s" "cont v = cont s"
    "u_offset v = u_offset s" "u_error v = u_error s" "u_count v = u_count s" "u_base v = u_base s" "accessible a n v = accessible a n s"
    "delivered bs v t = delivered bs s t" "is_block_dev (inodes v i) = is_block_dev (inodes s i)" "is_char_dev (inodes v i) = is_char_dev (inodes s i)" for a n bs t
    using i(1) by (simp_all add: v_def i_upd_def accessible_def delivered_def is_block_dev_def is_char_dev_def)
  have "int (unat (u_offset s)) < int (2 ^ 31)" unfolding unat_sint [OF u(1)] using sint_lt [of "u_offset s"] by simp
  then have p: "unat (u_offset s) < 2 ^ 31" by (simp only: of_nat_less_iff)
  have c: "0 < unat (u_count s)" using u(3) by (simp add: unat_gt_0)
  have "fpost (readi_loop (unat (u_count s) + 1) strat i (i_rdev (inodes v i)) v) (\<lambda>_ t. read_only i H v t \<and>
      delivered (file_bytes (cont v (i_dev (inodes v i))) (i_addr (inodes v i)) (unat (u_offset v)) N) v t)"
    by (rule readi_loop_reads [OF st i(2)]) (use i f u p c N v in \<open>simp_all add: read_size_def\<close>)
  moreover have "readi strat drd i s = readi_loop (unat (u_count s) + 1) strat i (i_rdev (inodes v i)) v"
  proof -
    have "\<not> is_char_dev (inodes v i)" using f(2) v by simp
    then show ?thesis using u(1,3) unfolding readi_def Let_def v_def [symmetric] by (simp add: not_less v(8) del: readi_loop.simps)
  qed
  ultimately show ?thesis using read_only_acc [of i H s] by (simp add: v del: readi_loop.simps) (elim fpost_mono, simp add: v_def)
qed

text \<open>
  C3. A read of a file or directory is a read of the sequence of bytes that the tree of its addresses stands for. \<open>readi\<close> delivers to
  the user, from \<open>u_base\<close> on, the bytes of the file from \<open>u_offset\<close> on: as many as were asked for, but none behind the end of the file;
  a block that was never written reads as zeros. \<open>u_base\<close>, \<open>u_offset\<close> and \<open>u_count\<close> advance by that number; the device, the buffers that
  others hold and the other i-nodes stay as they are, and the i-node is marked as accessed.
\<close>

theorem readi_delivers:
  assumes st: "sync_driver strat" and i: "binv s H" "card H + 1 < NBUF" "usable s (i_dev (inodes s i))" "\<forall>c \<in> H. b_dev s c \<noteq> i_dev (inodes s i)"
    and f: "\<not> is_block_dev (inodes s i)" "\<not> is_char_dev (inodes s i)" "unat (i_size (inodes s i)) \<le> 512 * max_blocks"
      "blocks_ok (cont s (i_dev (inodes s i))) (i_addr (inodes s i))"
    and u: "0 \<le> sint (u_offset s)" "u_error s = 0" "u_count s \<noteq> 0" "accessible (u_base s) N s"
    and N: "N = min (unat (u_count s)) (unat (i_size (inodes s i)) - unat (u_offset s))"
  shows "fpost (readi strat drd i s) (\<lambda>_ t.
    delivered (file_bytes (cont s (i_dev (inodes s i))) (i_addr (inodes s i)) (unat (u_offset s)) N) s t \<and>
    binv t H \<and> cont t = cont s \<and> (\<forall>c \<in> H. same_buf c s t) \<and> (\<forall>j. j \<noteq> i \<longrightarrow> inodes t j = inodes s j) \<and>
    (\<exists>l. inodes t i = (inodes s i)\<lparr>i_flag := insert IACC (i_flag (inodes s i)), i_lastr := l\<rparr>))"
  by (rule fpost_mono [OF readi_reads [OF assms]]) blast

theorem readi_delivers_witness:
  "fpost (readi demo_driver (\<lambda>_ s. Ret () s) 0 demo_file) (\<lambda>_ t. delivered (replicate 12 7 @ replicate 188 0) demo_file t)"
proof -
  have k: "\<not> is_block_dev demo_inode" "\<not> is_char_dev demo_inode" "blocks_ok c (i_addr demo_inode)" for c
    unfolding blocks_ok_def demo_file_block by (simp_all add: is_block_dev_def is_char_dev_def demo_inode_def IFMT_def IFREG_def IFBLK_def IFMPB_def IFCHR_def IFMPC_def)
  have sz: "i_size demo_inode = 700" "i_dev demo_inode = 0" by (simp_all add: demo_inode_def)
  have fb: "file_byte (cont demo_bio 0) (i_addr demo_inode) p = (if p < 512 then 7 else 0)" for p
    using demo_bio(2) [of 0 7] by (simp add: file_byte_def demo_file_block BSIZE_def div_eq_0_iff)
  have "file_bytes (cont demo_bio 0) (i_addr demo_inode) 500 200 = replicate 12 7 @ replicate 188 0"
    by (rule nth_equalityI) (simp_all add: file_bytes_def fb nth_append del: upt_rec_numeral)
  moreover have "fpost (readi demo_driver (\<lambda>_ s. Ret () s) 0 demo_file) (\<lambda>_ t. delivered (file_bytes (cont demo_bio 0) (i_addr demo_inode) 500 200) demo_file t)"
  proof -
    have "fpost (readi demo_driver (\<lambda>_ s. Ret () s) 0 demo_file) (\<lambda>_ t.
      delivered (file_bytes (cont demo_file (i_dev (inodes demo_file 0))) (i_addr (inodes demo_file 0)) (unat (u_offset demo_file)) 200) demo_file t)"
    proof (rule fpost_mono [OF readi_delivers [OF demo_driver_sync demo_file_bio(1), where i = 0 and N = 200]], goal_cases)
      case 10
      show ?case by (simp add: demo_file_bio)
    next
      case 13
      then show ?case by blast
    qed (use k sz in \<open>simp_all add: demo_file_bio NBUF_def max_blocks_def\<close>)
    then show ?thesis by (simp add: demo_file_bio sz)
  qed
  ultimately show ?thesis by (simp only:)
qed

lemma fpost_conj: "fpost m P \<Longrightarrow> fpost m Q \<Longrightarrow> fpost m (\<lambda>a s. P a s \<and> Q a s)"
  by (cases m) (simp_all add: fpost_def)

lemma bread_done:
  assumes st: "sync_driver strat" and i: "binv s H" "H \<noteq> pool" "usable s dev" "\<forall>c \<in> H. \<not> (b_dev s c = dev \<and> b_blkno s c = blkno)"
  shows "fpost (bread strat dev blkno s) (\<lambda>b t. B_DONE \<in> b_flags t b)"
  unfolding bread_def
proof (rule fpost_bind, rule fpost_mono [OF getblk_keeps [OF st i]])
  fix b t assume g: "got dev blkno H s b t"
  then have t: "binv t (insert b H)" "b_dev t b \<noteq> NODEV" using i(3) by (auto simp: got_def usable_def)
  show "fpost (if B_DONE \<in> b_flags t b then Ret b t else let t = start_read strat {B_READ} b t in fbind (iowait b t) (\<lambda>_ t. Ret b t)) (\<lambda>b t. B_DONE \<in> b_flags t b)"
  proof (cases "B_DONE \<in> b_flags t b")
    case False
    note r = start_read_sync [OF st t(1) insertI1 t(2) False]
    then show ?thesis using False iowait_done [OF r(8,9)] by (simp add: Let_def)
  qed simp
qed

text \<open>
  C29. Writing behind the largest file. For a block that no file can have, \<open>bmap\<close> sets \<open>EFBIG\<close> and returns 0, but \<open>writei\<close> only gives
  up on a negative block number: it reads block 0 of the device, the boot block, moves the user's bytes into its buffer, and releases the
  buffer, as a valid copy of block 0, because of the error. The next reader of block 0 gets the user's bytes. The size of the file is
  also set to the offset behind the limit. (Shown for a write of less than a block.)
\<close>

theorem writei_past_limit:
  assumes st: "sync_driver strat" and i: "binv s H" "H \<noteq> pool" "usable s (i_dev (inodes s i))" "\<forall>c \<in> H. b_dev s c \<noteq> i_dev (inodes s i)"
    and f: "i_mode (inodes s i) AND IFMT = IFREG" "unat (i_size (inodes s i)) < unat (u_offset s)"
    and u: "unat (u_offset s) < 2 ^ 31 - 512" "512 * max_blocks \<le> unat (u_offset s)" "accessible (u_base s) n s"
    and n: "n = unat (u_count s)" "0 < n" "unat (u_offset s) mod 512 + n < 512"
  shows "fpost (writei strat dwr i s) (\<lambda>_ t. u_error t = EFBIG \<and> i_size (inodes t i) = u_offset s + of_nat n \<and>
    (\<exists>bp. b_dev t bp = i_dev (inodes s i) \<and> b_blkno t bp = 0 \<and> B_DONE \<in> b_flags t bp \<and> B_BUSY \<notin> b_flags t bp \<and>
       b_addr t bp = overlay (cont s (i_dev (inodes s i)) 0) (unat (u_offset s) mod 512) (user_bytes (u_base s) n s)))"
proof -
  let ?dev = "i_dev (inodes s i)" and ?p = "unat (u_offset s)"
  define on where "on = ?p mod 512"
  define v where "v = s\<lparr>rablock := 0, u_error := EFBIG\<rparr>"
  have p31: "?p < 2 ^ 31" using u(1) by simp
  have k: "unat (signed_drop_bit 9 (u_offset s)) = ?p div 512" "max_blocks \<le> ?p div 512" "?p div 512 < 2 ^ 31"
    using offset_parts(1) [OF p31] u(2) p31 by auto
  have bm: "bmap strat i (signed_drop_bit 9 (u_offset s)) False s = Ret 0 v" using bmap_too_large k unfolding v_def by (metis (no_types, lifting))
  have ty: "\<not> is_block_dev (inodes s i)" "\<not> is_char_dev (inodes s i)"
    using f(1) by (simp_all add: is_block_dev_def is_char_dev_def IFREG_def IFBLK_def IFMPB_def IFCHR_def IFMPC_def)
  have o2: "unat (u_offset s AND 0x1FF) = on" "unat (ucast (u_offset s AND 0x1FF) :: u16) = on" using offset_parts(2,3) [OF p31] by (simp_all add: on_def)
  have cnt: "umin (of_nat BSIZE - ucast (u_offset s AND 0x1FF)) (u_count s) = u_count s" "u_count s \<noteq> of_nat BSIZE"
  proof -
    have "(ucast (u_offset s AND 0x1FF) :: u16) \<le> 512" using o2(2) n(3) by (simp add: word_le_nat_alt on_def)
    then have "unat (of_nat BSIZE - ucast (u_offset s AND 0x1FF) :: u16) = 512 - on" using o2(2) by (simp add: BSIZE_def unat_sub)
    then have "u_count s < of_nat BSIZE - ucast (u_offset s AND 0x1FF)" using n by (simp add: word_less_nat_alt on_def)
    then show "umin (of_nat BSIZE - ucast (u_offset s AND 0x1FF)) (u_count s) = u_count s" unfolding umin_def by (metis order.asym)
    show "u_count s \<noteq> of_nat BSIZE" using n by (auto simp: BSIZE_def)
  qed
  have iv: "binv v H" "usable v ?dev" "\<forall>c \<in> H. \<not> (b_dev v c = ?dev \<and> b_blkno v c = 0)" "cont v = cont s" using i by (simp_all add: v_def)
  have uv: "u_base v = u_base s" "u_count v = u_count s" "u_segflg v = u_segflg s" "u_mem v = u_mem s" "u_error v = EFBIG" "u_offset v = u_offset s" "inodes v = inodes s"
    by (simp_all add: v_def)
  define Q where "Q t \<longleftrightarrow> u_error t = EFBIG \<and> i_size (inodes t i) = u_offset s + of_nat n \<and>
    (\<exists>bp. b_dev t bp = ?dev \<and> b_blkno t bp = 0 \<and> B_DONE \<in> b_flags t bp \<and> B_BUSY \<notin> b_flags t bp \<and>
       b_addr t bp = overlay (cont s ?dev 0) on (user_bytes (u_base s) n s))" for t :: "'a ino_scheme"
  have "fpost (writei_round strat i d s) (\<lambda>r t. r \<noteq> None \<and> Q t)" for d
  proof -
    have "fpost (fbind (bread strat ?dev 0 v) (\<lambda>bp s'.
            let (b, s) = iomove True on (u_count s) (b_addr s' bp) s';
                s = s\<lparr>b_addr := (b_addr s)(bp := b)\<rparr>
            in fbind (if u_error s \<noteq> 0 then Ret () (brelse bp s) else bdwrite strat bp s) (\<lambda>_ s.
                 let s = (if sint (i_size (inodes s i)) < sint (u_offset s) \<and> (IFREG = IFDIR \<or> IFREG = IFREG)
                          then i_upd i (\<lambda>ip. ip\<lparr>i_size := u_offset s\<rparr>) s else s)
                 in Ret (Some ?dev) (i_upd i (\<lambda>ip. ip\<lparr>i_flag := i_flag ip \<union> {IUPD, ICHG}\<rparr>) s)))) (\<lambda>r t. r \<noteq> None \<and> Q t)"
    proof (rule fpost_bind, rule fpost_mono [OF fpost_conj [OF bread_keeps [OF st iv(1) i(2) iv(2,3)] bread_done [OF st iv(1) i(2) iv(2,3)]]])
      fix bp t
      assume "(got ?dev 0 H v bp t \<and> b_addr t bp = cont v ?dev 0) \<and> B_DONE \<in> b_flags t bp"
      then have t: "binv t (insert bp H)" "b_dev t bp = ?dev" "b_blkno t bp = 0" "bio_only v t" "b_addr t bp = cont s ?dev 0" "B_DONE \<in> b_flags t bp"
        using iv(4) by (auto simp: got_def)
      have ut: "u_base t = u_base s" "u_count t = u_count s" "u_segflg t = u_segflg s" "u_mem t = u_mem s" "u_error t = EFBIG" "u_offset t = u_offset s" "inodes t = inodes s"
        using t(4) uv bio_only_ino [OF t(4)] by (simp_all add: bio_only_def)
      note h = held_flags [OF t(1) insertI1]
      have len: "length (b_addr t bp) = BSIZE" by (rule binv_len(1) [OF t(1) h(7)])
      have "iomove True on (u_count s) (b_addr t bp) t = (overlay (b_addr t bp) on (user_bytes (u_base t) (unat (u_count s)) t), moved (unat (u_count s)) t)"
        using iomove_moves [of on "u_count s" "b_addr t bp" t True] len n u(3) ut by (simp add: on_def BSIZE_def accessible_def)
      moreover have "user_bytes (u_base t) (unat (u_count s)) t = user_bytes (u_base s) n s" using ut n(1) by (simp add: user_bytes_def)
      ultimately have io: "iomove True on (u_count s) (b_addr t bp) t = (overlay (cont s ?dev 0) on (user_bytes (u_base s) n s), moved n t)"
        using t(5) n(1) by simp
      define w where "w = (moved n t)\<lparr>b_addr := (b_addr t)(bp := overlay (cont s ?dev 0) on (user_bytes (u_base s) n s))\<rparr>"
      have w: "b_flags w = b_flags t" "b_dev w = b_dev t" "b_blkno w = b_blkno t" "u_error w = EFBIG" "inodes w = inodes s" "u_offset w = u_offset s + of_nat n"
        "b_addr w bp = overlay (cont s ?dev 0) on (user_bytes (u_base s) n s)"
        using ut by (simp_all add: w_def moved_def)
      have wf: "B_WANTED \<notin> b_flags w bp" "B_WANTED \<notin> b_flags w Free_head" "B_ERROR \<notin> b_flags w bp" using h(1-3) w by simp_all
      obtain f g where br: "brelse bp w = w\<lparr>b_flags := (b_flags w)(bp := b_flags w bp - {B_WANTED, B_BUSY, B_ASYNC, B_AGE}), av_forw := f, av_back := g\<rparr>"
        by (rule brelse_run [OF wf]) simp
      have "sint (i_size (inodes s i)) < sint (u_offset s + of_nat n)"
      proof -
        have nn: "?p + n < 2 ^ 31" using u(1) n(3) by simp
        then have "unat (of_nat n :: 32 word) = n" by (simp add: unat_of_nat take_bit_nat_eq_self)
        then have "unat (u_offset s + of_nat n) = ?p + n" using nn by (subst unat_add_lem [THEN iffD1]) simp_all
        then show ?thesis using sint_less32 [of "i_size (inodes s i)" "u_offset s + of_nat n"] f(2) nn p31 by simp
      qed
      then have "Q (i_upd i (\<lambda>ip. ip\<lparr>i_flag := i_flag ip \<union> {IUPD, ICHG}\<rparr>) (i_upd i (\<lambda>ip. ip\<lparr>i_size := u_offset (brelse bp w)\<rparr>) (brelse bp w)))"
        unfolding Q_def br using w t(2,3,6) by (auto simp: i_upd_def intro: exI [of _ bp])
      moreover have "(moved n t)\<lparr>b_addr := (b_addr (moved n t))(bp := overlay (cont s ?dev 0) on (user_bytes (u_base s) n s))\<rparr> = w" by (simp add: w_def moved_def)
      moreover have "EFBIG \<noteq> 0" by (simp add: EFBIG_def)
      moreover have "inodes (brelse bp w) = inodes s" "u_offset (brelse bp w) = u_offset s + of_nat n" unfolding br using w by simp_all
      ultimately show "fpost (let (b, s) = iomove True on (u_count s) (b_addr t bp) t;
                s = s\<lparr>b_addr := (b_addr s)(bp := b)\<rparr>
            in fbind (if u_error s \<noteq> 0 then Ret () (brelse bp s) else bdwrite strat bp s) (\<lambda>_ s.
                 let s = (if sint (i_size (inodes s i)) < sint (u_offset s) \<and> (IFREG = IFDIR \<or> IFREG = IFREG)
                          then i_upd i (\<lambda>ip. ip\<lparr>i_size := u_offset s\<rparr>) s else s)
                 in Ret (Some ?dev) (i_upd i (\<lambda>ip. ip\<lparr>i_flag := i_flag ip \<union> {IUPD, ICHG}\<rparr>) s))) (\<lambda>r t. r \<noteq> None \<and> Q t)"
        unfolding io Let_def prod.case using w(4) \<open>sint (i_size (inodes s i)) < sint (u_offset s + of_nat n)\<close> by simp
    qed
    then show ?thesis
      unfolding writei_round_def Let_def bm using ty(1) cnt f(1) o2(1) by (simp add: uv(7))
  qed
  note round = this
  have "fpost (writei_loop (unat (u_count s) + 1) strat i (i_rdev (inodes s i)) s) (\<lambda>_ t. Q t)"
    unfolding Suc_eq_plus1 [symmetric] writei_loop.simps
  proof (rule fpost_bind, rule fpost_mono [OF round])
    fix r :: "u16 option" and t assume "r \<noteq> None \<and> Q t"
    then obtain d where "r = Some d" "Q t" by auto
    moreover from this have "u_error t \<noteq> 0" by (simp add: Q_def EFBIG_def)
    ultimately show "fpost (case r of None \<Rightarrow> Ret () t | Some dev \<Rightarrow> if u_error t = 0 \<and> u_count t \<noteq> 0 then writei_loop (unat (u_count s)) strat i dev t else Ret () t) (\<lambda>_ t. Q t)"
      by simp
  qed
  moreover have "writei strat dwr i s = writei_loop (unat (u_count s) + 1) strat i (i_rdev (inodes s i)) s"
  proof -
    have "\<not> sint (u_offset s) < 0" using sint_unat32 [OF p31] by (simp only: not_less of_nat_0_le_iff)
    moreover have "u_count s \<noteq> 0" using n by auto
    ultimately show ?thesis using ty(2) by (simp add: writei_def Let_def del: writei_loop.simps)
  qed
  ultimately show ?thesis unfolding Q_def on_def by simp
qed

theorem writei_past_limit_witness:
  "fpost (writei demo_driver (\<lambda>_ s. Ret () s) 0 (demo_file\<lparr>u_offset := 1082201091, u_count := 2\<rparr>)) (\<lambda>_ t. u_error t = EFBIG \<and>
     (\<exists>bp. b_dev t bp = 0 \<and> b_blkno t bp = 0 \<and> B_DONE \<in> b_flags t bp \<and> B_BUSY \<notin> b_flags t bp \<and> b_addr t bp = overlay (replicate BSIZE 0) 3 [65, 65]))"
proof -
  define s where "s = demo_file\<lparr>u_offset := 1082201091, u_count := 2\<rparr>"
  have s: "binv s {}" "usable s 0" "cont s = cont demo_bio" "inodes s = (\<lambda>_. demo_inode)" "u_offset s = 1082201091" "u_count s = 2" "u_base s = 1000"
    "accessible a n s" "u_mem s = (\<lambda>_ _. Some 65)" for a n
    by (simp_all add: s_def demo_file_bio accessible_def) (simp_all add: demo_file_def alc.extend_def alc.truncate_def)
  have k: "i_mode demo_inode AND IFMT = IFREG" "i_size demo_inode = 700" "i_dev demo_inode = 0" by (simp_all add: demo_inode_def IFMT_def IFREG_def)
  have c0: "cont demo_bio 0 0 = replicate BSIZE 0" using demo_bio(2) [of 0 0] by simp
  have ub: "user_bytes 1000 2 s = [65, 65]" by (simp add: user_bytes_def s(9) numeral_2_eq_2)
  have "fpost (writei demo_driver (\<lambda>_ s. Ret () s) 0 s) (\<lambda>_ t. u_error t = EFBIG \<and> i_size (inodes t 0) = u_offset s + of_nat 2 \<and>
    (\<exists>bp. b_dev t bp = i_dev (inodes s 0) \<and> b_blkno t bp = 0 \<and> B_DONE \<in> b_flags t bp \<and> B_BUSY \<notin> b_flags t bp \<and>
       b_addr t bp = overlay (cont s (i_dev (inodes s 0)) 0) (unat (u_offset s) mod 512) (user_bytes (u_base s) 2 s)))"
    by (rule writei_past_limit [OF demo_driver_sync s(1) demo_bio(4)]) (simp_all add: s k max_blocks_def)
  then show ?thesis unfolding s_def [symmetric] by (rule fpost_mono) (auto simp: s k c0 ub)
qed


end
