(* ===== verification/File_Write.thy ===== *)
theory File_Write
  imports Rdwri
begin

text \<open>
  What \<open>writei\<close> (\<open>sys/rdwri.c\<close>) stores: the contents of a file after a write within its direct blocks, with \<open>bmap\<close> taking new blocks
  from the free list, and the round trip of a write and a read.
\<close>

unbundle bit_operations_syntax

section \<open>Files of direct blocks\<close>

text \<open>The first ten addresses: distinct, not negative, none of them free.\<close>

definition direct_ok :: "u32 list \<Rightarrow> u32 set \<Rightarrow> bool" where
  "direct_ok a F \<longleftrightarrow> length a = NADDR \<and>
     (\<forall>k < 10. a ! k \<noteq> 0 \<longrightarrow> 0 \<le> sint (a ! k) \<and> a ! k \<notin> F \<and> (\<forall>j < 10. j \<noteq> k \<longrightarrow> a ! j \<noteq> a ! k))"

text \<open>A regular file \<open>i\<close> of the file system on \<open>dev\<close>, whose free blocks are \<open>L\<close>.\<close>

definition wfile :: "u16 \<Rightarrow> bnode \<Rightarrow> bnode set \<Rightarrow> nat \<Rightarrow> u32 list \<Rightarrow> 'a ino_scheme \<Rightarrow> bool" where
  "wfile dev fp H i L s \<longleftrightarrow> binv s H \<and> usable s dev \<and> (\<forall>c \<in> H. b_dev s c \<noteq> dev) \<and> i_dev (inodes s i) = dev \<and>
     i_mode (inodes s i) AND IFMT = IFREG \<and> direct_ok (i_addr (inodes s i)) (set L) \<and> fs_free s dev fp L"

definition uio_same :: "'a uio_scheme \<Rightarrow> 'b uio_scheme \<Rightarrow> bool" where
  "uio_same s t \<longleftrightarrow> u_base t = u_base s \<and> u_count t = u_count s \<and> u_offset t = u_offset s \<and> u_segflg t = u_segflg s \<and> u_error t = u_error s \<and> u_mem t = u_mem s"

lemma uio_same_refl [simp]: "uio_same s s" by (simp add: uio_same_def)
lemma uio_same_trans: "uio_same s t \<Longrightarrow> uio_same t u \<Longrightarrow> uio_same s u" by (simp add: uio_same_def)

text \<open>
  What else a write leaves alone: of the i-node everything but the size, the addresses and the flags \<open>IUPD\<close> and \<open>ICHG\<close>, of the super block
  everything but the free list with its lock and \<open>s_fmod\<close>, and the rest of the state that is neither the buffer cache nor the place
  of the transfer (\<open>ino.more\<close> is the user structure and all tables of the theories that extend the state).
\<close>

definition inode_kept :: "inode \<Rightarrow> inode \<Rightarrow> bool" where
  "inode_kept p q \<longleftrightarrow> q = p\<lparr>i_flag := i_flag q, i_size := i_size q, i_addr := i_addr q\<rparr> \<and> i_flag p \<subseteq> i_flag q \<and> i_flag q \<subseteq> i_flag p \<union> {IUPD, ICHG}"

definition same_rest :: "bnode \<Rightarrow> nat \<Rightarrow> 'a ino_scheme \<Rightarrow> 'a ino_scheme \<Rightarrow> bool" where
  "same_rest fp i s t \<longleftrightarrow> ino.more t = ino.more s \<and> time t = time s \<and> updlock t = updlock s \<and> mounts t = mounts s \<and> console t = console s \<and>
     nblkdev t = nblkdev s \<and> has_tab t = has_tab s \<and> (\<forall>q. q \<noteq> fp \<longrightarrow> b_filsys t q = b_filsys s q) \<and> sb_kept (b_filsys s fp) (b_filsys t fp) \<and>
     inode_kept (inodes s i) (inodes t i)"

lemma inode_kept_refl [simp]: "inode_kept p p" by (auto simp: inode_kept_def)

lemma inode_kept_trans: "inode_kept p q \<Longrightarrow> inode_kept q r \<Longrightarrow> inode_kept p r"
  unfolding inode_kept_def by (cases p; cases q; cases r) auto

lemma inode_kept_fields:
  "inode_kept p q \<Longrightarrow> i_mode q = i_mode p \<and> i_count q = i_count p \<and> i_number q = i_number p \<and> i_dev q = i_dev p \<and> i_nlink q = i_nlink p \<and>
     i_uid q = i_uid p \<and> i_gid q = i_gid p \<and> i_lastr q = i_lastr p"
  unfolding inode_kept_def by (cases p; cases q) auto

lemma inode_kept_upd [simp]:
  "inode_kept p (p\<lparr>i_addr := a, i_flag := insert IUPD (insert ICHG (i_flag p))\<rparr>)"
  "inode_kept p (p\<lparr>i_flag := insert IUPD (insert ICHG (i_flag p))\<rparr>)"
  "inode_kept p (p\<lparr>i_size := z, i_flag := insert IUPD (insert ICHG (i_flag p))\<rparr>)"
  by (cases p; simp add: inode_kept_def, blast)+

lemma same_rest_trans: "same_rest fp i s t \<Longrightarrow> same_rest fp i t u \<Longrightarrow> same_rest fp i s u"
  unfolding same_rest_def by (elim conjE, intro conjI) (simp | blast intro: sb_kept_trans inode_kept_trans)+

lemma same_rest_fields:
  "same_rest fp i s t \<Longrightarrow> ino.more t = ino.more s \<and> i_mode (inodes t i) = i_mode (inodes s i) \<and> i_count (inodes t i) = i_count (inodes s i) \<and>
     i_number (inodes t i) = i_number (inodes s i) \<and> i_nlink (inodes t i) = i_nlink (inodes s i)"
  by (auto simp: same_rest_def dest: inode_kept_fields)

lemma same_rest_bio: "bio_only s t \<Longrightarrow> same_rest fp i s t"
  using bio_only_ino [of s t] bio_only_alc [of s t] by (simp add: same_rest_def) (simp add: bio_only_def)

lemma same_rest_moved [simp]: "same_rest fp i (moved n s) t = same_rest fp i s t"
  by (simp add: same_rest_def moved_def)

lemma same_rest_upd: "same_rest fp i s t \<Longrightarrow> inode_kept (inodes t i) (g (inodes t i)) \<Longrightarrow> same_rest fp i s (i_upd i g t)"
  unfolding same_rest_def i_upd_def by (elim conjE, intro conjI) (simp | blast intro: inode_kept_trans)+

lemma same_rest_alloc: "allocated dev x fp H s bp t \<Longrightarrow> same_rest fp i s t"
  unfolding allocated_def by (cases s; cases t) (simp add: alc_only_def same_rest_def)

lemma alc_only_rest: "alc_only fp s t \<Longrightarrow> inodes t = inodes s \<and> ino.more t = ino.more s"
  by (cases s; cases t) (simp add: alc_only_def)

lemma fs_free_cong:
  assumes "fs_free t dev fp L" "mounts u = mounts t" "b_filsys u fp = b_filsys t fp" "\<forall>b \<in> set L. cont u dev b = cont t dev b"
  shows "fs_free u dev fp L"
proof -
  have "fs_at u = fs_at t" using assms(2) by (simp add: fs_at_def fun_eq_iff)
  moreover have "chain (cont u dev) n fr L" if "chain (cont t dev) n fr L" for n fr by (rule free_chain_cong [OF that assms(4)])
  ultimately show ?thesis using assms(1,3) by (simp add: fs_free_def)
qed

text \<open>What \<open>bmap\<close> for writing has done when it returns the block \<open>x\<close> for the index \<open>k\<close>.\<close>

definition mapped :: "u16 \<Rightarrow> bnode \<Rightarrow> bnode set \<Rightarrow> nat \<Rightarrow> nat \<Rightarrow> u32 list \<Rightarrow> 'a ino_scheme \<Rightarrow> u32 \<Rightarrow> 'a ino_scheme \<Rightarrow> bool" where
  "mapped dev fp H i k L s x t \<longleftrightarrow>
     (let a = i_addr (inodes s i) in
      (\<exists>L'. wfile dev fp H i L' t \<and> L = (if a ! k = 0 then [x] else []) @ L') \<and> (a ! k \<noteq> 0 \<longrightarrow> x = a ! k) \<and> x \<noteq> 0 \<and> 0 \<le> sint x \<and>
      i_addr (inodes t i) = a[k := x] \<and> i_size (inodes t i) = i_size (inodes s i) \<and>
      cont t = (cont s)(dev := (if a ! k = 0 then (cont s dev)(x := replicate BSIZE 0) else cont s dev)) \<and>
      uio_same s t \<and> same_rest fp i s t \<and> (\<forall>j. j \<noteq> i \<longrightarrow> inodes t j = inodes s j) \<and> (\<forall>c \<in> H. same_buf c s t))"

lemma direct_ok_subset: "direct_ok a F \<Longrightarrow> G \<subseteq> F \<Longrightarrow> direct_ok a G"
  by (auto simp: direct_ok_def)

lemma direct_ok_new:
  assumes "direct_ok a F" "x \<in> F" "x \<notin> G" "G \<subseteq> F" "0 \<le> sint x" "k < 10"
  shows "direct_ok (a[k := x]) G"
proof -
  have "length a = 13" using assms(1) by (simp add: direct_ok_def NADDR_def)
  moreover have "a ! j \<noteq> x" if "j < 10" "x \<noteq> 0" for j using assms(1,2) that by (auto simp: direct_ok_def)
  ultimately show ?thesis using assms unfolding direct_ok_def by (auto simp: NADDR_def nth_list_update)
qed

lemma bmap_writes:
  assumes st: "sync_driver strat" and w: "wfile dev fp H i L s" "H \<noteq> pool" and k: "k = unat bn" "k < 10" and L: "i_addr (inodes s i) ! k = 0 \<Longrightarrow> L \<noteq> []"
  shows "fpost (bmap strat i bn False s) (\<lambda>x t. mapped dev fp H i k L s x t)"
proof -
  let ?a = "i_addr (inodes s i)"
  define v where "v = s\<lparr>rablock := 0\<rparr>"
  have wv: "wfile dev fp H i L v" "inodes v = inodes s" "cont v = cont s" "uio_same s v" "same_buf c s v" "same_rest fp i s v" for c
    using w by (simp_all add: v_def same_rest_def wfile_def uio_same_def same_buf_def fs_free_def fs_at_def)
  have ok: "direct_ok ?a (set L)" using w by (simp add: wfile_def)
  have s0: "sint bn = int k" using sint_unat32 [of bn] k by simp
  have "int k < 10" "\<not> int k < 0" using k(2) by (simp_all only: of_nat_less_numeral_iff of_nat_less_0_iff not_False_eq_True)
  then have s: "\<not> sint bn < 0" "sint bn < int NADDR - 3" unfolding s0 by (simp_all only: NADDR_def) simp
  have e: "bmap strat i bn False s = fbind (bmap_inode strat i k False v) (\<lambda>r s.
            case r of
              None \<Rightarrow> Ret (- 1) s
            | Some nb \<Rightarrow> Ret nb (if k < NADDR - 4 then s\<lparr>rablock := i_addr (inodes s i) ! (k + 1)\<rparr> else s))"
    unfolding bmap_def Let_def k(1) [symmetric] using s by (simp add: v_def)
  have ra: "mapped dev fp H i k L s x (t\<lparr>rablock := r\<rparr>) = mapped dev fp H i k L s x t" for x r t
    by (simp add: mapped_def wfile_def uio_same_def same_rest_def same_buf_def fs_free_def fs_at_def)
  have "fpost (bmap_inode strat i k False v) (\<lambda>r t. \<exists>x. r = Some x \<and> mapped dev fp H i k L s x t)"
  proof (cases "?a ! k = 0")
    case False
    then have "mapped dev fp H i k L s (?a ! k) v"
      using wv ok k(2) by (auto simp: mapped_def Let_def direct_ok_def)
    then show ?thesis using False wv(2) by (simp add: bmap_inode_def)
  next
    case True
    then obtain x L' where xl: "L = x # L'" using L by (cases L) auto
    have i: "binv v H" "usable v dev" "\<forall>c \<in> H. b_dev v c \<noteq> dev" "fs_free v dev fp (x # L')" "i_dev (inodes v i) = dev" using wv(1) by (simp_all add: wfile_def xl)
    have nh: "not_held v H dev x" using i(3) by (simp add: not_held_def)
    have x: "x \<noteq> 0" "0 \<le> sint x" "x \<notin> set L'" using i(4) order_trans [of 0 "uint (s_isize (b_filsys v fp))" "sint x"] by (simp_all add: fs_free_def in_range_def)
    show ?thesis
      unfolding bmap_inode_def Let_def wv(2)
    proof (simp add: True, fold wv(2), unfold i(5), rule fpost_bind, rule fpost_mono [OF alloc_takes [OF st i(1) w(2) i(2) nh i(4)]])
      fix r t
      assume "\<exists>bp. r = Some bp \<and> allocated dev x fp H v bp t \<and> fs_free t dev fp L'"
      then obtain bp where bp: "r = Some bp" "allocated dev x fp H v bp t" "fs_free t dev fp L'" by blast
      then have t: "bp \<notin> H" "binv t (insert bp H)" "b_dev t bp = dev" "b_blkno t bp = x" "b_addr t bp = replicate BSIZE 0"
        "\<forall>d k. (d, k) \<noteq> (dev, x) \<longrightarrow> cont t d k = cont s d k" "\<forall>c \<in> H. same_buf c v t" "alc_only fp v t" "u_error t = u_error v"
        using wv(3) by (simp_all add: allocated_def)
      have nd: "b_dev t bp \<noteq> NODEV" using t(3) i(2) by (simp add: usable_def)
      have Hb: "insert bp H - {bp} = H" using t(1) by blast
      have it: "ino.more t = ino.more s" "inodes t = inodes s" "mounts t = mounts v" "usable t dev" "uio_same s t"
        using t(8,9) i(2) alc_only_usable [OF t(8)] alc_only_rest [OF t(8)] wv(2,4,6) by (simp_all add: alc_only_def uio_same_def same_rest_def)
      have rt: "same_rest fp i s t" using wv(6) same_rest_alloc [OF bp(2)] by (rule same_rest_trans)
      have "fpost (bdwrite strat bp t) (\<lambda>_ u. mapped dev fp H i k L s x (i_upd i (\<lambda>ip. ip\<lparr>i_addr := (i_addr ip)[k := x], i_flag := i_flag ip \<union> {IUPD, ICHG}\<rparr>) u))"
      proof (rule fpost_mono [OF bdwrite_keeps [OF t(2) insertI1 nd]])
        fix y u
        assume u: "binv u (insert bp H - {bp}) \<and> cont u = (cont t)(b_dev t bp := (cont t (b_dev t bp))(b_blkno t bp := b_addr t bp)) \<and> bio_only t u \<and>
          (\<forall>c. c \<noteq> bp \<longrightarrow> same_buf c t u) \<and> disk u = disk t"
        have iu: "ino.more u = ino.more s" "inodes u = inodes s" "mounts u = mounts t" "b_filsys u = b_filsys t" "usable u dev" "uio_same s u"
          using bio_only_ino [of t u] bio_only_alc [of t u] u it usable_cong [of t u] by (auto simp: uio_same_def bio_only_def)
        have cu: "cont u = (cont s)(dev := (cont s dev)(x := replicate BSIZE 0))" using u t(3-6) by (auto simp: fun_eq_iff)
        have ru: "same_rest fp i s u" using rt same_rest_bio [of t u] u by (blast intro: same_rest_trans)
        have fu: "fs_free u dev fp L'" by (rule fs_free_cong [OF bp(3) iu(3)]) (use iu(4) u t(3,4) x(3) in auto)
        have su: "\<forall>c \<in> H. same_buf c s u" using u t(1,7) wv(5) same_buf_trans by metis
        have "direct_ok (?a[k := x]) (set L')" by (rule direct_ok_new [OF ok]) (use xl x k(2) in auto)
        moreover have "k < length ?a" using ok k(2) by (simp add: direct_ok_def NADDR_def)
        moreover have "b_dev u c \<noteq> dev" if "c \<in> H" for c using su w(1) that by (simp add: same_buf_def wfile_def)
        ultimately have "wfile dev fp H i L' (i_upd i (\<lambda>ip. ip\<lparr>i_addr := (i_addr ip)[k := x], i_flag := i_flag ip \<union> {IUPD, ICHG}\<rparr>) u)"
          using u iu fu Hb w(1) by (simp add: wfile_def i_upd_def fs_free_def fs_at_def)
        then show "mapped dev fp H i k L s x (i_upd i (\<lambda>ip. ip\<lparr>i_addr := (i_addr ip)[k := x], i_flag := i_flag ip \<union> {IUPD, ICHG}\<rparr>) u)"
          using True xl x iu cu su same_rest_upd [OF ru, of "\<lambda>ip. ip\<lparr>i_addr := (i_addr ip)[k := x], i_flag := i_flag ip \<union> {IUPD, ICHG}\<rparr>"]
          unfolding mapped_def Let_def by (simp add: i_upd_def iu(2) uio_same_def same_buf_def)
      qed
      then have "fpost (bdwrite strat bp t) (\<lambda>_ u. fpost (Ret (Some x) (i_upd i (\<lambda>ip. ip\<lparr>i_addr := (i_addr ip)[k := x], i_flag := i_flag ip \<union> {IUPD, ICHG}\<rparr>) u))
        (\<lambda>r t. \<exists>x. r = Some x \<and> mapped dev fp H i k L s x t))" by (rule fpost_mono) auto
      then show "fpost (case r of None \<Rightarrow> Ret None t | Some bp \<Rightarrow> fbind (bdwrite strat bp t) (\<lambda>_ s.
              Ret (Some (b_blkno t bp)) (i_upd i (\<lambda>ip. ip\<lparr>i_addr := (i_addr ip)[k := b_blkno t bp], i_flag := i_flag ip \<union> {IUPD, ICHG}\<rparr>) s)))
         (\<lambda>r t. \<exists>x. r = Some x \<and> mapped dev fp H i k L s x t)"
        unfolding bp(1) option.case t(4) by (rule fpost_bind)
    qed
  qed
  then show ?thesis unfolding e by (intro fpost_bind, elim fpost_mono) (auto simp: ra)
qed

section \<open>One round of a write\<close>

definition fbyte :: "'a ino_scheme \<Rightarrow> nat \<Rightarrow> nat \<Rightarrow> u8" where
  "fbyte s i p = file_byte (cont s (i_dev (inodes s i))) (i_addr (inodes s i)) p"

definition holes :: "u32 list \<Rightarrow> nat" where
  "holes a = card {k. k < 10 \<and> a ! k = 0}"

lemma holes_0: "k < 10 \<Longrightarrow> a ! k = 0 \<Longrightarrow> 0 < holes a"
  by (auto simp: holes_def card_gt_0_iff)

lemma holes_upd:
  assumes "length a = NADDR" "k < 10" "x \<noteq> 0"
  shows "holes (a[k := x]) = holes a - (if a ! k = 0 then 1 else 0)"
proof -
  have "{j. j < 10 \<and> a[k := x] ! j = 0} = {j. j < 10 \<and> a ! j = 0} - {k}"
    using assms by (auto simp: nth_list_update NADDR_def)
  then show ?thesis using assms(2) by (simp add: holes_def card_Diff_singleton_if)
qed

lemma overlay_nth:
  "cp + length bs \<le> length buf \<Longrightarrow> j < length buf \<Longrightarrow> overlay buf cp bs ! j = (if cp \<le> j \<and> j < cp + length bs then bs ! (j - cp) else buf ! j)"
  by (auto simp: overlay_def nth_append)

lemma length_overlay: "cp + length bs \<le> length buf \<Longrightarrow> length (overlay buf cp bs) = length buf"
  by (simp add: overlay_def)

lemma file_block_direct: "k < 10 \<Longrightarrow> file_block c a k = a ! k"
  by (simp add: file_block_def)

text \<open>
  A write of the \<open>n\<close> bytes from \<open>off\<close> on has put blocks \<open>L0\<close> under the addresses: all old addresses stay, a hole is filled exactly when the
  write reaches into its block, each with a block of \<open>L0\<close>, and no block of \<open>L0\<close> is left over.
\<close>

definition taken :: "nat \<Rightarrow> nat \<Rightarrow> u32 list \<Rightarrow> u32 list \<Rightarrow> u32 list \<Rightarrow> bool" where
  "taken off n a a' L0 \<longleftrightarrow> holes a' + length L0 = holes a \<and>
     (\<forall>k < 10. if a ! k \<noteq> 0 then a' ! k = a ! k else if 512 * k < off + n \<and> off < 512 * k + 512 then a' ! k \<in> set L0 else a' ! k = 0)"

lemma taken_trans:
  assumes 1: "taken off m a a' L0" and 2: "taken (off + m) n a' a'' L1" and "0 < m" "0 < n" "0 \<notin> set L0"
  shows "taken off (m + n) a a'' (L0 @ L1)"
  unfolding taken_def
proof (intro conjI allI impI)
  show "holes a'' + length (L0 @ L1) = holes a" using 1 2 by (simp add: taken_def)
  fix k :: nat assume k: "k < 10"
  note t1 = 1 [unfolded taken_def, THEN conjunct2, rule_format, OF k] and t2 = 2 [unfolded taken_def, THEN conjunct2, rule_format, OF k]
  show "if a ! k \<noteq> 0 then a'' ! k = a ! k else if 512 * k < off + (m + n) \<and> off < 512 * k + 512 then a'' ! k \<in> set (L0 @ L1) else a'' ! k = 0"
  proof (cases "a ! k = 0")
    case True
    show ?thesis
    proof (cases "512 * k < off + m \<and> off < 512 * k + 512")
      case in1: True
      then have "a' ! k \<in> set L0" using t1 True by simp
      moreover from this have "a'' ! k = a' ! k" using t2 assms(5) by (metis (full_types))
      ultimately show ?thesis using True in1 by simp
    next
      case False
      then have "a' ! k = 0" using t1 True by simp
      moreover have "(512 * k < off + m + n \<and> off + m < 512 * k + 512) = (512 * k < off + (m + n) \<and> off < 512 * k + 512)" using False assms(3,4) by auto
      ultimately show ?thesis using t2 True by (simp split: if_splits)
    qed
  qed (use t1 t2 in simp)
qed

text \<open>The bytes \<open>bs\<close> have been stored in the file \<open>i\<close> from \<open>u_offset\<close> on.\<close>

definition stored :: "u16 \<Rightarrow> bnode \<Rightarrow> bnode set \<Rightarrow> nat \<Rightarrow> u32 list \<Rightarrow> u8 list \<Rightarrow> 'a ino_scheme \<Rightarrow> 'a ino_scheme \<Rightarrow> bool" where
  "stored dev fp H i L bs s t \<longleftrightarrow>
     (\<exists>L' L0. wfile dev fp H i L' t \<and> L = L0 @ L' \<and> holes (i_addr (inodes t i)) \<le> length L' \<and>
        set (take 10 (i_addr (inodes t i))) \<subseteq> set (take 10 (i_addr (inodes s i))) \<union> set L0 \<and>
        taken (unat (u_offset s)) (length bs) (i_addr (inodes s i)) (i_addr (inodes t i)) L0) \<and>
     i_flag (inodes t i) = i_flag (inodes s i) \<union> {IUPD, ICHG} \<and>
     (\<forall>p < 5120. fbyte t i p = (if unat (u_offset s) \<le> p \<and> p < unat (u_offset s) + length bs then bs ! (p - unat (u_offset s)) else fbyte s i p)) \<and>
     uio_same (moved (length bs) s) t \<and> same_rest fp i s t \<and>
     i_size (inodes t i) = (if sint (i_size (inodes s i)) < sint (u_offset t) \<and> bs \<noteq> [] then u_offset t else i_size (inodes s i)) \<and>
     drop 10 (i_addr (inodes t i)) = drop 10 (i_addr (inodes s i)) \<and>
     (\<forall>j. j \<noteq> i \<longrightarrow> inodes t j = inodes s j) \<and> (\<forall>c \<in> H. same_buf c s t) \<and>
     (\<forall>d b. d \<noteq> dev \<or> b \<notin> set (take 10 (i_addr (inodes s i))) \<union> set L \<longrightarrow> cont t d b = cont s d b)"

lemma taken_one:
  assumes a: "length a = NADDR" "k < 10" "x \<noteq> 0" "a ! k \<noteq> 0 \<Longrightarrow> x = a ! k" and o: "512 * k \<le> off" "0 < m" "off + m \<le> 512 * k + 512"
  shows "taken off m a (a[k := x]) (if a ! k = 0 then [x] else [])"
  unfolding taken_def
proof (intro conjI allI impI)
  show "holes (a[k := x]) + length (if a ! k = 0 then [x] else []) = holes a"
    using holes_upd [OF a(1-3)] holes_0 [OF a(2)] by simp
  fix j :: nat assume j: "j < 10"
  have "(512 * j < off + m \<and> off < 512 * j + 512) = (j = k)" using o by auto
  then show "if a ! j \<noteq> 0 then a[k := x] ! j = a ! j else if 512 * j < off + m \<and> off < 512 * j + 512 then a[k := x] ! j \<in> set (if a ! k = 0 then [x] else [])
    else a[k := x] ! j = 0"
    using a j by (simp add: nth_list_update NADDR_def)
qed

lemma block_byte:
  assumes "p < 5120" "length a = NADDR" "k < 10" "x \<noteq> 0"
  shows "file_byte (c(x := v)) (a[k := x]) p =
    (if p div 512 = k then v ! (p mod 512) else if a ! (p div 512) = x then v ! (p mod 512) else file_byte c a p)"
proof -
  have "p div 512 < 10" using assms(1) by auto
  then show ?thesis using assms by (auto simp: file_byte_def file_block_direct NADDR_def nth_list_update Let_def)
qed

lemma take_upd_subset: "set (take 10 (a[k := x])) \<subseteq> insert x (set (take 10 a))"
proof -
  have "take 10 (a[k := x]) = (take 10 a)[k := x]" by (rule take_update_swap)
  then show ?thesis using set_update_subset_insert by metis
qed

lemma write_count:
  assumes p: "unat (u_offset s) < 2 ^ 31"
  shows "unat (umin (of_nat BSIZE - ucast (u_offset s AND 0x1FF)) (u_count s)) = min (512 - unat (u_offset s) mod 512) (unat (u_count s))"
proof -
  have "(ucast (u_offset s AND 0x1FF) :: u16) \<le> 512" using offset_parts(3) [OF p] by (simp add: word_le_nat_alt)
  then have "unat (of_nat BSIZE - ucast (u_offset s AND 0x1FF) :: u16) = 512 - unat (u_offset s) mod 512"
    using offset_parts(3) [OF p] by (simp add: BSIZE_def unat_sub)
  then show ?thesis by (simp add: unat_umin)
qed

text \<open>The second half of a round: the buffer, the transfer, the delayed write, the size.\<close>

lemma write_block:
  assumes st: "sync_driver strat" and i: "binv s H" "H \<noteq> pool" "usable s dev" "\<forall>c \<in> H. b_dev s c \<noteq> dev"
    and n: "unat n = m" "0 < m" "on + m \<le> 512" "m \<le> unat (u_count s)" "accessible (u_base s) m s" "u_error s = 0"
    and v: "v = overlay (cont s dev x) on (user_bytes (u_base s) m s)"
    and f: "\<And>u. binv u H \<Longrightarrow> cont u = (cont s)(dev := (cont s dev)(x := v)) \<Longrightarrow> \<forall>c \<in> H. same_buf c s u \<Longrightarrow> bio_only (moved m s) u \<Longrightarrow> fpost (f () u) Q"
  shows "fpost (fbind (if n = of_nat BSIZE then getblk strat dev x s else bread strat dev x s) (\<lambda>bp s.
            let (b, s) = iomove True on n (b_addr s bp) s;
                s = s\<lparr>b_addr := (b_addr s)(bp := b)\<rparr>
            in fbind (if u_error s \<noteq> 0 then Ret () (brelse bp s) else bdwrite strat bp s) f)) Q"
proof -
  have nh: "\<forall>c \<in> H. \<not> (b_dev s c = dev \<and> b_blkno s c = x)" using i(4) by simp
  have "fpost (if n = of_nat BSIZE then getblk strat dev x s else bread strat dev x s)
      (\<lambda>bp t. got dev x H s bp t \<and> (m \<noteq> 512 \<longrightarrow> b_addr t bp = cont s dev x))"
  proof (cases "n = of_nat BSIZE")
    case True
    then have "m = 512" using n(1) by (simp add: BSIZE_def)
    then show ?thesis using True getblk_keeps [OF st i(1-3) nh] by simp
  next
    case False
    then show ?thesis using bread_keeps [OF st i(1-3) nh] by (auto elim: fpost_mono)
  qed
  then show ?thesis
  proof (intro fpost_bind, elim fpost_mono)
    fix bp t
    assume "got dev x H s bp t \<and> (m \<noteq> 512 \<longrightarrow> b_addr t bp = cont s dev x)"
    then have t: "bp \<notin> H" "binv t (insert bp H)" "b_dev t bp = dev" "b_blkno t bp = x" "cont t = cont s" "bio_only s t" "\<forall>c \<in> H. same_buf c s t"
      "m \<noteq> 512 \<longrightarrow> b_addr t bp = cont s dev x" by (simp_all add: got_def)
    have ut: "u_base t = u_base s" "u_count t = u_count s" "u_segflg t = u_segflg s" "u_mem t = u_mem s" "u_error t = 0"
      using t(6) n(6) by (simp_all add: bio_only_def)
    have bp: "bp \<in> pool" using binvD(1) [OF t(2)] by blast
    have len: "length (b_addr t bp) = 512" using binv_len(1) [OF t(2) bp] by (simp add: BSIZE_def)
    have lc: "length (cont s dev x) = 512" using cont_len [OF i(1)] by (simp add: BSIZE_def)
    have lu: "length (user_bytes (u_base s) m s) = m" by (simp add: user_bytes_def)
    have ub: "user_bytes (u_base t) m t = user_bytes (u_base s) m s" using ut by (simp add: user_bytes_def)
    have "overlay (b_addr t bp) on (user_bytes (u_base s) m s) = v"
    proof (cases "m = 512")
      case True
      then have "on = 0" using n(3) by simp
      then show ?thesis using True len lc lu by (simp add: v overlay_def)
    next
      case False
      then show ?thesis using t(8) v by simp
    qed
    then have io: "iomove True on n (b_addr t bp) t = (v, moved m t)"
      using iomove_moves [of on n "b_addr t bp" t True] n len ub ut by (simp add: accessible_def)
    define w0 where "w0 = moved m t"
    define w where "w = w0\<lparr>b_addr := (b_addr w0)(bp := v), b_resid := b_resid w0\<rparr>"
    have w0: "binv w0 (insert bp H)" "cont w0 = cont s" "b_dev w0 bp = dev" "b_blkno w0 bp = x" "same_buf c s w0 = same_buf c s t" for c
      using t by (simp_all add: w0_def moved_def)
    have lv: "length v = BSIZE" using lc lu n(3) by (simp add: v length_overlay BSIZE_def)
    have rz: "\<forall>b \<in> pool. b_resid w0 b = 0" using binv_len(3) [OF t(2)] by (simp add: w0_def moved_def)
    note E = held_edit [OF w0(1) insertI1 lv rz w_def]
    have wd: "b_dev w bp = dev" "b_blkno w bp = x" "b_addr w bp = v" "u_error w = 0" using w0 ut by (simp_all add: w_def w0_def moved_def)
    have nd: "b_dev w bp \<noteq> NODEV" using wd i(3) by (simp add: usable_def)
    have Hb: "insert bp H - {bp} = H" using t(1) by blast
    have mv: "bio_only (moved m s) w0" using t(6) by (simp add: bio_only_def w0_def moved_def)
    have "fpost (bdwrite strat bp w) (\<lambda>_ u. binv u H \<and> cont u = (cont s)(dev := (cont s dev)(x := v)) \<and> (\<forall>c \<in> H. same_buf c s u) \<and> bio_only (moved m s) u)"
    proof (rule fpost_mono [OF bdwrite_keeps [OF E(1) insertI1 nd]])
      fix y u
      assume u: "binv u (insert bp H - {bp}) \<and> cont u = (cont w)(b_dev w bp := (cont w (b_dev w bp))(b_blkno w bp := b_addr w bp)) \<and> bio_only w u \<and>
          (\<forall>c. c \<noteq> bp \<longrightarrow> same_buf c w u) \<and> disk u = disk w"
      have "cont u d k = ((cont s)(dev := (cont s dev)(x := v))) d k" for d k using u E(2) [of d k] E(2) [of dev k] w0 wd by auto
      moreover have "same_buf c s u" if "c \<in> H" for c
      proof -
        have "c \<noteq> bp" using that t(1) by blast
        then show ?thesis using u E(4) [of c] same_buf_trans [of c s w0 w] same_buf_trans [of c s w u] w0(5) t(7) that by simp
      qed
      ultimately show "binv u H \<and> cont u = (cont s)(dev := (cont s dev)(x := v)) \<and> (\<forall>c \<in> H. same_buf c s u) \<and> bio_only (moved m s) u"
        using u Hb bio_only_trans [OF mv bio_only_trans [OF E(3)]] by (auto simp: fun_eq_iff)
    qed
    moreover have "w0\<lparr>b_addr := (b_addr w0)(bp := v)\<rparr> = w" by (simp add: w_def)
    ultimately show "fpost (let (b, s) = iomove True on n (b_addr t bp) t; s = s\<lparr>b_addr := (b_addr s)(bp := b)\<rparr>
       in fbind (if u_error s \<noteq> 0 then Ret () (brelse bp s) else bdwrite strat bp s) f) Q"
      unfolding io Let_def prod.case w0_def [symmetric] using wd(4) f
      by (simp, intro fpost_bind, elim fpost_mono) simp
  qed
qed

lemma wfile_same:
  assumes "wfile dev fp H i L s"
    and "binv t H" "usable t = usable s" "\<forall>c \<in> H. same_buf c s t" "i_dev (inodes t i) = i_dev (inodes s i)" "i_mode (inodes t i) = i_mode (inodes s i)"
      "i_addr (inodes t i) = i_addr (inodes s i)" "mounts t = mounts s" "b_filsys t = b_filsys s" "\<forall>b \<in> set L. cont t dev b = cont s dev b"
  shows "wfile dev fp H i L t"
  using assms fs_free_cong [of s dev fp L t] by (simp add: wfile_def same_buf_def)

lemma file_type: "i_mode ip AND IFMT = IFREG \<Longrightarrow> \<not> is_block_dev ip \<and> \<not> is_char_dev ip"
  by (simp add: is_block_dev_def is_char_dev_def IFREG_def IFBLK_def IFMPB_def IFCHR_def IFMPC_def)

lemma moved_offset:
  assumes "unat (u_offset s) + n < 2 ^ 31" "n \<le> unat (u_count s)"
  shows "unat (u_offset (moved n s)) = unat (u_offset s) + n" "unat (u_count (moved n s)) = unat (u_count s) - n"
proof -
  have o: "unat (of_nat n :: 32 word) = n" using assms(1) by (simp add: unat_of_nat take_bit_nat_eq_self)
  then show "unat (u_offset (moved n s)) = unat (u_offset s) + n"
    using assms(1) by (simp add: moved_def) (subst unat_add_lem [THEN iffD1], simp_all)
  have "n < 2 ^ LENGTH(16)" using assms(2) unsigned_less [of "u_count s"] by (rule le_less_trans)
  then have "unat (of_nat n :: 16 word) = n" by (simp add: unat_of_nat take_bit_nat_eq_self)
  then show "unat (u_count (moved n s)) = unat (u_count s) - n" using assms(2) by (simp add: moved_def unat_sub word_le_nat_alt)
qed

lemma writei_round_stores:
  assumes st: "sync_driver strat" and w: "wfile dev fp H i L s" "H \<noteq> pool" "holes (i_addr (inodes s i)) \<le> length L"
    and u: "u_error s = 0" "0 < unat (u_count s)" "accessible (u_base s) m s" "unat (u_offset s) + m \<le> 5120" "unat (i_size (inodes s i)) < 2 ^ 31"
    and m: "m = min (512 - unat (u_offset s) mod 512) (unat (u_count s))"
  shows "fpost (writei_round strat i d s) (\<lambda>r t. r \<noteq> None \<and> stored dev fp H i L (user_bytes (u_base s) m s) s t)"
proof -
  let ?p = "unat (u_offset s)" and ?a = "i_addr (inodes s i)"
  define k where "k = ?p div 512"
  define on where "on = ?p mod 512"
  define bs where "bs = user_bytes (u_base s) m s"
  have m0: "0 < m" "on + m \<le> 512" "m \<le> unat (u_count s)" "length bs = m" using u(2) m by (auto simp: on_def bs_def user_bytes_def)
  have p31: "?p < 2 ^ 31" using u(4) by simp
  have "?p < 5120" using u(4) m0(1) by simp
  then have k: "k = unat (signed_drop_bit 9 (u_offset s))" "k < 10" "?p = 512 * k + on" using offset_parts(1) [OF p31] by (auto simp: k_def on_def)
  have o2: "unat (u_offset s AND 0x1FF) = on" using offset_parts(2) [OF p31] by (simp add: on_def)
  define n where "n = umin (of_nat BSIZE - ucast (u_offset s AND 0x1FF)) (u_count s)"
  have n: "unat n = m" using write_count [OF p31] m by (simp add: n_def)
  have ty: "i_mode (inodes s i) AND IFMT = IFREG" "\<not> is_block_dev (inodes s i)" using w(1) file_type by (auto simp: wfile_def)
  define F where "F dev = (\<lambda>(_ :: unit) s. let s = (if sint (i_size (inodes s i)) < sint (u_offset s) \<and> (i_mode (inodes s i) AND IFMT = IFDIR \<or> True)
                          then i_upd i (\<lambda>ip. ip\<lparr>i_size := u_offset s\<rparr>) s else s)
                 in Ret (Some dev) (i_upd i (\<lambda>ip. ip\<lparr>i_flag := i_flag ip \<union> {IUPD, ICHG}\<rparr>) s) :: (u16 option, 'a ino_scheme) fres)" for dev :: u16
  have e: "writei_round strat i d s = fbind (bmap strat i (signed_drop_bit 9 (u_offset s)) False s) (\<lambda>bn t.
        if sint bn < 0 then Ret None t
        else fbind (if n = of_nat BSIZE then getblk strat (i_dev (inodes t i)) bn t else bread strat (i_dev (inodes t i)) bn t) (\<lambda>bp s.
            let (b, s) = iomove True on n (b_addr s bp) s;
                s = s\<lparr>b_addr := (b_addr s)(bp := b)\<rparr>
            in fbind (if u_error s \<noteq> 0 then Ret () (brelse bp s) else bdwrite strat bp s) (F (i_dev (inodes t i)))))"
  proof -
    have A: "fbind (fbind M (\<lambda>bn s. if sint bn < 0 then Ret None s else Ret (Some (bn, g s)) s)) (\<lambda>r s. case r of None \<Rightarrow> Ret None s | Some (bn, dev) \<Rightarrow> G bn dev s) =
       fbind M (\<lambda>bn t. if sint bn < 0 then Ret None t else G bn (g t) t)" for M :: "(u32, 'a ino_scheme) fres" and g :: "'a ino_scheme \<Rightarrow> u16" and G :: "u32 \<Rightarrow> u16 \<Rightarrow> 'a ino_scheme \<Rightarrow> (u16 option, 'a ino_scheme) fres"
      by (cases M) simp_all
    show ?thesis unfolding writei_round_def Let_def F_def o2 n_def [symmetric] if_not_P [OF ty(2)] A ty(1) by (simp only: simp_thms)
  qed
  have L0: "L \<noteq> []" if "?a ! k = 0" using holes_0 [OF k(2) that] w(3) by auto
  show ?thesis
    unfolding e bs_def [symmetric]
  proof (rule fpost_bind, rule fpost_mono [OF bmap_writes [OF st w(1,2) k(1,2) L0]])
    fix x t assume mp: "mapped dev fp H i k L s x t"
    then obtain L' where L': "wfile dev fp H i L' t" "L = (if ?a ! k = 0 then [x] else []) @ L'" by (auto simp: mapped_def Let_def)
    have x: "?a ! k \<noteq> 0 \<Longrightarrow> x = ?a ! k" "x \<noteq> 0" "0 \<le> sint x" "i_addr (inodes t i) = ?a[k := x]" "i_size (inodes t i) = i_size (inodes s i)"
      "cont t = (cont s)(dev := (if ?a ! k = 0 then (cont s dev)(x := replicate BSIZE 0) else cont s dev))" "uio_same s t"
      "\<forall>j. j \<noteq> i \<longrightarrow> inodes t j = inodes s j" "\<forall>c \<in> H. same_buf c s t" "same_rest fp i s t" using mp by (simp_all add: mapped_def Let_def)
    have wt: "binv t H" "usable t dev" "\<forall>c \<in> H. b_dev t c \<noteq> dev" "i_dev (inodes t i) = dev" "i_mode (inodes t i) AND IFMT = IFREG" using L'(1) by (simp_all add: wfile_def)
    have ut: "m \<le> unat (u_count t)" "accessible (u_base t) m t" "u_error t = 0" "user_bytes (u_base t) m t = bs"
      using x(7) m0(3) u(1,3) by (simp_all add: uio_same_def accessible_def user_bytes_def bs_def)
    define v where "v = overlay (cont t dev x) on bs"
    have lx: "length ?a = NADDR" using w(1) by (simp add: wfile_def direct_ok_def)
    have lt: "length (cont t dev x) = 512" using cont_len [OF wt(1)] by (simp add: BSIZE_def)
    have "fpost (fbind (if n = of_nat BSIZE then getblk strat dev x t else bread strat dev x t) (\<lambda>bp s.
            let (b, s) = iomove True on n (b_addr s bp) s;
                s = s\<lparr>b_addr := (b_addr s)(bp := b)\<rparr>
            in fbind (if u_error s \<noteq> 0 then Ret () (brelse bp s) else bdwrite strat bp s) (F dev))) (\<lambda>r t. r \<noteq> None \<and> stored dev fp H i L bs s t)"
    proof (rule write_block [OF st wt(1) w(2) wt(2,3) n m0(1,2) ut(1-3)])
      show "v = overlay (cont t dev x) on (user_bytes (u_base t) m t)" by (simp add: v_def ut)
      fix y
      assume y: "binv y H" "cont y = (cont t)(dev := (cont t dev)(x := v))" "\<forall>c \<in> H. same_buf c t y" "bio_only (moved m t) y"
      have ry: "same_rest fp i s y" using x(10) same_rest_bio [OF y(4)] by (simp add: same_rest_trans)
      have iy: "inodes y = inodes t" "usable y = usable t" "mounts y = mounts t" "b_filsys y = b_filsys t" "uio_same (moved m s) y"
        using bio_only_ino [OF y(4)] usable_cong [OF y(4)] bio_only_alc [OF y(4)] y(4) x(7) by (simp_all add: moved_def uio_same_def bio_only_def usable_def fun_eq_iff)
      define z where "z = i_upd i (\<lambda>ip. ip\<lparr>i_flag := i_flag ip \<union> {IUPD, ICHG}\<rparr>)
        (if sint (i_size (inodes y i)) < sint (u_offset y) then i_upd i (\<lambda>ip. ip\<lparr>i_size := u_offset y\<rparr>) y else y)"
      have Fz: "F dev () y = Ret (Some dev) z" by (simp add: F_def z_def)
      have z: "binv z H" "cont z = cont y" "usable z = usable y" "mounts z = mounts y" "b_filsys z = b_filsys y" "uio_same y z"
        "i_dev (inodes z i) = i_dev (inodes y i)" "i_mode (inodes z i) = i_mode (inodes y i)" "i_addr (inodes z i) = i_addr (inodes y i)"
        "\<And>j. j \<noteq> i \<Longrightarrow> inodes z j = inodes y j" "\<And>c q. same_buf c q z = same_buf c q y"
        "i_size (inodes z i) = (if sint (i_size (inodes y i)) < sint (u_offset y) then u_offset y else i_size (inodes y i))"
        using y(1) by (auto simp: z_def i_upd_def uio_same_def)
      have xL: "x \<notin> set L'" "x \<in> set (take 10 ?a) \<union> set L"
      proof -
        have dt: "direct_ok (?a[k := x]) (set L')" using L'(1) x(4) by (simp add: wfile_def)
        then show "x \<notin> set L'" using k(2) x(2) lx by (auto simp: direct_ok_def NADDR_def)
        have "?a ! k \<in> set (take 10 ?a)" using k(2) lx by (auto simp: in_set_conv_nth NADDR_def intro!: exI [of _ k])
        then show "x \<in> set (take 10 ?a) \<union> set L" using x(1) L'(2) by (cases "?a ! k = 0") auto
      qed
      have wz: "wfile dev fp H i L' z"
        by (rule wfile_same [OF L'(1)]) (use y z iy xL(1) in auto)
      have az: "i_addr (inodes z i) = ?a[k := x]" using z iy x(4) by simp
      have dz: "i_dev (inodes z i) = dev" "i_dev (inodes s i) = dev" using wz w(1) by (simp_all add: wfile_def)
      have rz: "same_rest fp i y z" by (simp add: same_rest_def z_def i_upd_def)
      have fz: "i_flag (inodes z i) = i_flag (inodes s i) \<union> {IUPD, ICHG}"
      proof -
        have "i_flag (inodes z i) = i_flag (inodes y i) \<union> {IUPD, ICHG}" by (simp add: z_def i_upd_def)
        moreover have "inode_kept (inodes s i) (inodes y i)" using ry by (simp add: same_rest_def)
        ultimately show ?thesis by (auto simp: inode_kept_def)
      qed
      have bytes: "fbyte z i p = (if ?p \<le> p \<and> p < ?p + length bs then bs ! (p - ?p) else fbyte s i p)" if p: "p < 5120" for p
      proof -
        define j where "j = p mod 512"
        have pj: "p = 512 * (p div 512) + j" "j < 512" "p div 512 < 10" using p by (auto simp: j_def)
        define c0 where "c0 = (if ?a ! k = 0 then (cont s dev)(x := replicate BSIZE 0) else cont s dev)"
        have "cont z dev = c0(x := v)" using z(2) y(2) x(6) by (simp add: c0_def)
        then have fz: "fbyte z i p = (if p div 512 = k then v ! j else if ?a ! (p div 512) = x then v ! j else file_byte c0 ?a p)"
          unfolding fbyte_def dz az using block_byte [OF p lx k(2) x(2), of c0 v] by (simp add: j_def)
        have c0x: "cont t dev x = c0 x" using x(6) by (simp add: c0_def)
        have vj: "v ! j = (if on \<le> j \<and> j < on + m then bs ! (j - on) else c0 x ! j)"
          unfolding v_def using overlay_nth [of on bs "cont t dev x" j] m0(2,4) lt pj(2) c0x by simp
        show ?thesis
        proof (cases "p div 512 = k")
          case True
          have "fbyte s i p = c0 x ! j"
            using True k(2) x(1) pj(2) by (simp add: fbyte_def dz file_byte_def file_block_direct j_def [symmetric] c0_def BSIZE_def Let_def)
          moreover have "(?p \<le> p \<and> p < ?p + length bs) = (on \<le> j \<and> j < on + m)" "p - ?p = j - on" using pj(1) k(3) True m0(4) by auto
          ultimately show ?thesis using fz vj True by simp
        next
          case False
          have dt: "direct_ok (?a[k := x]) (set L')" using L'(1) x(4) by (simp add: wfile_def)
          have ne: "?a ! (p div 512) \<noteq> x"
          proof
            assume "?a ! (p div 512) = x"
            moreover have "?a[k := x] ! k = x" "?a[k := x] ! (p div 512) = ?a ! (p div 512)" using k(2) lx False by (simp_all add: NADDR_def)
            ultimately show False using dt k(2) pj(3) False x(2) unfolding direct_ok_def by metis
          qed
          have "\<not> (?p \<le> p \<and> p < ?p + length bs)"
          proof (cases "p div 512 < k")
            case True
            then have "512 * (p div 512) + 512 \<le> 512 * k" by simp
            then show ?thesis using pj k(3) by linarith
          next
            case F: False
            then have "512 * k + 512 \<le> 512 * (p div 512)" using False by simp
            then show ?thesis using pj k(3) m0(2,4) by linarith
          qed
          moreover have "file_byte c0 ?a p = fbyte s i p"
            using ne by (simp add: fbyte_def dz file_byte_def file_block_direct pj(3) c0_def Let_def)
          ultimately show ?thesis using fz False ne by auto
        qed
      qed
      have "holes (?a[k := x]) \<le> length L'" using holes_upd [OF lx k(2) x(2)] w(3) L'(2) by (cases "?a ! k = 0") auto
      moreover have "set (take 10 (?a[k := x])) \<subseteq> set (take 10 ?a) \<union> set (if ?a ! k = 0 then [x] else [])"
        using take_upd_subset [of ?a k x] xL(2) x(1) k(2) lx by (cases "?a ! k = 0") (auto simp: in_set_conv_nth NADDR_def intro!: exI [of _ k])
      moreover have "taken ?p (length bs) ?a (?a[k := x]) (if ?a ! k = 0 then [x] else [])"
        unfolding m0(4) by (rule taken_one [OF lx k(2) x(2,1)]) (use k(3) m0(1,2) in auto)
      ultimately have 1: "\<exists>L' L0. wfile dev fp H i L' z \<and> L = L0 @ L' \<and> holes (i_addr (inodes z i)) \<le> length L' \<and>
        set (take 10 (i_addr (inodes z i))) \<subseteq> set (take 10 (i_addr (inodes s i))) \<union> set L0 \<and>
        taken ?p (length bs) (i_addr (inodes s i)) (i_addr (inodes z i)) L0"
        using wz L'(2) az by (intro exI [of _ L'] exI [of _ "if ?a ! k = 0 then [x] else []"]) simp
      have 2: "uio_same (moved (length bs) s) z" using uio_same_trans [OF iy(5) z(6)] m0(4) by simp
      have uo: "u_offset z = u_offset y" using z(6) by (simp add: uio_same_def)
      have 3: "cont z d' b = cont s d' b" if "d' \<noteq> dev \<or> b \<notin> set (take 10 ?a) \<union> set L" for d' b
        using that xL(2) z(2) y(2) x(6) by auto
      have 4: "\<forall>c \<in> H. same_buf c s z" using z(11) y(3) x(9) same_buf_trans by metis
      have 5: "drop 10 (i_addr (inodes z i)) = drop 10 ?a" unfolding az using k(2) by (simp add: drop_update_cancel)
      have "bs \<noteq> []" using m0(1,4) by auto
      then show "fpost (F dev () y) (\<lambda>r t. r \<noteq> None \<and> stored dev fp H i L bs s t)"
        unfolding Fz stored_def using 1 2 3 4 5 fz same_rest_trans [OF ry rz] bytes z(10,12) iy(1) x(5,8) uo by simp
    qed
    then show "fpost (if sint x < 0 then Ret None t
        else fbind (if n = of_nat BSIZE then getblk strat (i_dev (inodes t i)) x t else bread strat (i_dev (inodes t i)) x t) (\<lambda>bp s.
            let (b, s) = iomove True on n (b_addr s bp) s;
                s = s\<lparr>b_addr := (b_addr s)(bp := b)\<rparr>
            in fbind (if u_error s \<noteq> 0 then Ret () (brelse bp s) else bdwrite strat bp s) (F (i_dev (inodes t i)))))
       (\<lambda>r t. r \<noteq> None \<and> stored dev fp H i L bs s t)"
      unfolding wt(4) using x(3) by (simp only: not_less [symmetric] if_False)
  qed
qed

section \<open>The whole write\<close>

lemma storedD:
  assumes "stored dev fp H i L bs s t"
  shows "\<And>p. p < 5120 \<Longrightarrow> fbyte t i p = (if unat (u_offset s) \<le> p \<and> p < unat (u_offset s) + length bs then bs ! (p - unat (u_offset s)) else fbyte s i p)"
    "uio_same (moved (length bs) s) t" "same_rest fp i s t"
    "i_size (inodes t i) = (if sint (i_size (inodes s i)) < sint (u_offset t) \<and> bs \<noteq> [] then u_offset t else i_size (inodes s i))"
    "drop 10 (i_addr (inodes t i)) = drop 10 (i_addr (inodes s i))" "\<And>j. j \<noteq> i \<Longrightarrow> inodes t j = inodes s j" "\<And>c. c \<in> H \<Longrightarrow> same_buf c s t"
    "\<And>d b. d \<noteq> dev \<or> b \<notin> set (take 10 (i_addr (inodes s i))) \<union> set L \<Longrightarrow> cont t d b = cont s d b"
    "i_flag (inodes t i) = i_flag (inodes s i) \<union> {IUPD, ICHG}"
  using assms unfolding stored_def by blast+

lemma stored_append:
  assumes w: "wfile dev fp H i L s" and a: "stored dev fp H i L bs s t" and b: "\<And>L'. wfile dev fp H i L' t \<Longrightarrow> holes (i_addr (inodes t i)) \<le> length L' \<Longrightarrow> stored dev fp H i L' cs t u"
    and p: "unat (u_offset s) + length bs + length cs \<le> 5120" "length bs \<le> unat (u_count s)" "cs \<noteq> []" "bs \<noteq> []"
  shows "stored dev fp H i L (bs @ cs) s u"
proof -
  obtain L0 L1 where 1: "wfile dev fp H i L1 t" "L = L0 @ L1" "holes (i_addr (inodes t i)) \<le> length L1"
    "set (take 10 (i_addr (inodes t i))) \<subseteq> set (take 10 (i_addr (inodes s i))) \<union> set L0"
    "taken (unat (u_offset s)) (length bs) (i_addr (inodes s i)) (i_addr (inodes t i)) L0" using a unfolding stored_def by blast
  note B = b [OF 1(1,3)]
  obtain L2 L3 where 2: "wfile dev fp H i L3 u" "L1 = L2 @ L3" "holes (i_addr (inodes u i)) \<le> length L3"
    "set (take 10 (i_addr (inodes u i))) \<subseteq> set (take 10 (i_addr (inodes t i))) \<union> set L2"
    "taken (unat (u_offset t)) (length cs) (i_addr (inodes t i)) (i_addr (inodes u i)) L2" using B unfolding stored_def by blast
  note A = storedD [OF a] and B = storedD [OF B]
  note mt = A(2) and mu = B(2)
  have mm: "uio_same (moved (length (bs @ cs)) s) u"
    using mt mu by (simp add: uio_same_def moved_def diff_diff_eq add.assoc)
  have ot: "unat (u_offset t) = unat (u_offset s) + length bs" "unat (u_offset u) = unat (u_offset s) + length bs + length cs"
  proof -
    have "u_offset t = u_offset (moved (length bs) s)" using mt by (simp add: uio_same_def)
    then show "unat (u_offset t) = unat (u_offset s) + length bs" using moved_offset(1) [of s "length bs"] p(1,2) by simp
    have "unat (of_nat N :: 32 word) = N" if "N \<le> 5120" for N using that by (simp add: unat_of_nat take_bit_nat_eq_self)
    from this [of "length (bs @ cs)"] have o: "unat (of_nat (length (bs @ cs)) :: 32 word) = length (bs @ cs)" using p(1) by (simp del: of_nat_add)
    have "u_offset u = u_offset s + of_nat (length (bs @ cs))" using mm by (simp add: uio_same_def moved_def)
    then show "unat (u_offset u) = unat (u_offset s) + length bs + length cs"
      using o p(1) by (simp del: of_nat_add) (subst unat_add_lem [THEN iffD1], simp_all)
  qed
  have so: "sint (u_offset t) = int (unat (u_offset t))" "sint (u_offset u) = int (unat (u_offset u))" using ot p(1) by (simp_all only: sint_unat32) (simp_all add: sint_unat32)
  have "fbyte u i q = (if unat (u_offset s) \<le> q \<and> q < unat (u_offset s) + length (bs @ cs) then (bs @ cs) ! (q - unat (u_offset s)) else fbyte s i q)"
    if "q < 5120" for q
    using A(1) [OF that] B(1) [OF that] unfolding ot by (auto simp: nth_append diff_diff_eq)
  then have bytes: "\<forall>q < 5120. fbyte u i q = (if unat (u_offset s) \<le> q \<and> q < unat (u_offset s) + length (bs @ cs) then (bs @ cs) ! (q - unat (u_offset s)) else fbyte s i q)"
    by blast
  have sizes: "i_size (inodes u i) = (if sint (i_size (inodes s i)) < sint (u_offset u) \<and> bs @ cs \<noteq> [] then u_offset u else i_size (inodes s i))"
  proof -
    have "sint (u_offset t) < sint (u_offset u)" unfolding so ot using p(3) by simp
    then show ?thesis using A(4) B(4) p(3,4) by auto
  qed
  have "\<forall>d b. d \<noteq> dev \<or> b \<notin> set (take 10 (i_addr (inodes s i))) \<union> set L \<longrightarrow> cont u d b = cont s d b"
  proof (intro allI impI)
    fix d b assume that: "d \<noteq> dev \<or> b \<notin> set (take 10 (i_addr (inodes s i))) \<union> set L"
    have "d \<noteq> dev \<or> b \<notin> set (take 10 (i_addr (inodes t i))) \<union> set L1" using that 1(2,4) by auto
    then show "cont u d b = cont s d b" using A(8) [OF that] B(8) 1(2) by simp
  qed
  moreover have "\<forall>c \<in> H. same_buf c s u" using A(7) B(7) same_buf_trans by blast
  moreover have "0 \<notin> set L0" using w 1(2) by (auto simp: wfile_def fs_free_def)
  then have "taken (unat (u_offset s)) (length bs + length cs) (i_addr (inodes s i)) (i_addr (inodes u i)) (L0 @ L2)"
    using taken_trans [OF 1(5)] 2(5) p(3,4) unfolding ot(1) by simp
  then have "\<exists>L' L0. wfile dev fp H i L' u \<and> L = L0 @ L' \<and> holes (i_addr (inodes u i)) \<le> length L' \<and>
        set (take 10 (i_addr (inodes u i))) \<subseteq> set (take 10 (i_addr (inodes s i))) \<union> set L0 \<and>
        taken (unat (u_offset s)) (length (bs @ cs)) (i_addr (inodes s i)) (i_addr (inodes u i)) L0"
    using 1(1-4) 2(1-4) by (intro exI [of _ L3] exI [of _ "L0 @ L2"]) auto
  moreover have "i_flag (inodes u i) = i_flag (inodes s i) \<union> {IUPD, ICHG}" using A(9) B(9) by auto
  moreover have "\<forall>j. j \<noteq> i \<longrightarrow> inodes u j = inodes s j" using A(6) B(6) by simp
  moreover have "drop 10 (i_addr (inodes u i)) = drop 10 (i_addr (inodes s i))" using A(5) B(5) by simp
  moreover have "same_rest fp i s u" using A(3) B(3) by (rule same_rest_trans)
  ultimately show ?thesis using mm bytes sizes unfolding stored_def by (intro conjI) assumption+
qed

lemma user_bytes_add:
  "user_bytes a (m + n) s = user_bytes a m s @ user_bytes (a + of_nat m) n s"
proof (rule nth_equalityI)
  fix j assume j: "j < length (user_bytes a (m + n) s)"
  have "a + of_nat m + of_nat (j - m) = a + of_nat j" if "m \<le> j" using that by (simp add: add.assoc of_nat_add [symmetric] del: of_nat_add)
  moreover have "[0..<n] ! (j - m) = j - m" if "m \<le> j" using that j by (simp add: user_bytes_def)
  ultimately show "user_bytes a (m + n) s ! j = (user_bytes a m s @ user_bytes (a + of_nat m) n s) ! j"
    using j by (cases "j < m") (simp_all add: user_bytes_def nth_append not_less)
qed (simp add: user_bytes_def)

lemma writei_loop_stores:
  assumes st: "sync_driver strat" and H: "H \<noteq> pool"
  shows "wfile dev fp H i L s \<Longrightarrow> holes (i_addr (inodes s i)) \<le> length L \<Longrightarrow> u_error s = 0 \<Longrightarrow> 0 < unat (u_count s) \<Longrightarrow> n = unat (u_count s) \<Longrightarrow>
    accessible (u_base s) n s \<Longrightarrow> unat (u_offset s) + n \<le> 5120 \<Longrightarrow> unat (i_size (inodes s i)) < 2 ^ 31 \<Longrightarrow> n < k \<Longrightarrow>
    fpost (writei_loop k strat i d s) (\<lambda>_ t. stored dev fp H i L (user_bytes (u_base s) n s) s t)"
proof (induction k arbitrary: s n d L)
  case (Suc k)
  note P = Suc.prems
  define m where "m = min (512 - unat (u_offset s) mod 512) (unat (u_count s))"
  have m: "0 < m" "m \<le> n" using P(4,5) by (auto simp: m_def)
  have am: "accessible (u_base s) m s" "unat (u_offset s) + m \<le> 5120" using P(6,7) m(2) by (simp_all add: accessible_def)
  define bs where "bs = user_bytes (u_base s) m s"
  have lb: "length bs = m" by (simp add: bs_def user_bytes_def)
  show ?case
    unfolding writei_loop.simps
  proof (rule fpost_bind, rule fpost_mono [OF writei_round_stores [OF st P(1) H P(2-4) am P(8) m_def]])
    fix r :: "u16 option" and t
    assume "r \<noteq> None \<and> stored dev fp H i L (user_bytes (u_base s) m s) s t"
    then obtain d' where r: "r = Some d'" and t: "stored dev fp H i L bs s t" by (auto simp: bs_def)
    have mt: "uio_same (moved m s) t" using t lb by (simp add: stored_def)
    then have ut: "u_error t = 0" "u_base t = u_base s + of_nat m" "u_mem t = u_mem s" "u_segflg t = u_segflg s" "u_count t = u_count (moved m s)" "u_offset t = u_offset (moved m s)"
      using P(3) by (simp_all add: uio_same_def moved_def)
    have mo: "unat (u_offset s) + m < 2 ^ 31" "m \<le> unat (u_count s)" using P(5,7) m(2) by simp_all
    note mv = moved_offset [OF mo]
    show "fpost (case r of None \<Rightarrow> Ret () t | Some dev \<Rightarrow> if u_error t = 0 \<and> u_count t \<noteq> 0 then writei_loop k strat i dev t else Ret () t)
      (\<lambda>_ t. stored dev fp H i L (user_bytes (u_base s) n s) s t)"
    proof (cases "u_count t = 0")
      case True
      then have "m = n" using mv(2) ut(5) P(5) m(2) by simp
      then show ?thesis using True r t by (simp add: bs_def)
    next
      case False
      then have c: "unat (u_count t) = n - m" "0 < n - m" using mv(2) ut(5) P(5) unat_eq_zero [of "u_count t"] by simp_all
      define cs where "cs = user_bytes (u_base t) (n - m) t"
      have lc: "length cs = n - m" by (simp add: cs_def user_bytes_def)
      have all: "user_bytes (u_base s) n s = bs @ cs"
      proof -
        have "cs = user_bytes (u_base s + of_nat m) (n - m) s" using ut by (simp add: cs_def user_bytes_def)
        then show ?thesis using user_bytes_add [of "u_base s" m "n - m" s] m(2) by (simp add: bs_def)
      qed
      have ac: "accessible (u_base t) (n - m) t"
        unfolding accessible_def
      proof (intro allI impI)
        fix j assume "j < n - m"
        then have "u_mem s (u_segflg s) (u_base s + of_nat (m + j)) \<noteq> None" using P(6) by (simp add: accessible_def del: of_nat_add)
        then show "u_mem t (u_segflg t) (u_base t + of_nat j) \<noteq> None" using ut by (simp add: add.assoc)
      qed
      have o: "unat (u_offset t) + (n - m) \<le> 5120" using ut(6) mv(1) P(7) m(2) by simp
      have sz: "unat (i_size (inodes t i)) < 2 ^ 31"
        using t P(8) o unfolding stored_def by (auto split: if_splits)
      have step: "fpost (writei_loop k strat i d' t) (\<lambda>_ u. stored dev fp H i L' cs t u)" if "wfile dev fp H i L' t" "holes (i_addr (inodes t i)) \<le> length L'" for L'
        unfolding cs_def by (rule Suc.IH) (use that ut c ac o sz P(9) m in simp_all)
      have "fpost (writei_loop k strat i d' t) (\<lambda>_ u. stored dev fp H i L (bs @ cs) s u)"
      proof -
        obtain L' where L': "wfile dev fp H i L' t" "holes (i_addr (inodes t i)) \<le> length L'" using t unfolding stored_def by blast
        from step [OF this] obtain u where u: "writei_loop k strat i d' t = Ret () u" by (auto elim: fpostE)
        have "stored dev fp H i L (bs @ cs) s u"
          by (rule stored_append [OF P(1) t]) (use step u P(5,7) lb lc m c in auto)
        then show ?thesis by (simp add: u)
      qed
      then show ?thesis using False r ut(1) by (simp add: all)
    qed
  qed
qed simp

lemma writei_stores_all:
  assumes st: "sync_driver strat" and w: "wfile dev fp H i L s" "H \<noteq> pool" "holes (i_addr (inodes s i)) \<le> length L"
    and u: "u_error s = 0" "n = unat (u_count s)" "0 < n" "accessible (u_base s) n s" "unat (u_offset s) + n \<le> 5120" "unat (i_size (inodes s i)) < 2 ^ 31"
  shows "fpost (writei strat dwr i s) (\<lambda>_ t. stored dev fp H i L (user_bytes (u_base s) n s) s t)"
proof -
  have "sint (u_offset s) = int (unat (u_offset s))" by (rule sint_unat32) (use u(5) in simp)
  then have o: "\<not> sint (u_offset s) < 0" by (simp only: not_less of_nat_0_le_iff)
  have t: "\<not> is_char_dev (inodes s i)" using w(1) file_type by (auto simp: wfile_def)
  have c: "u_count s \<noteq> 0" using u(2,3) by auto
  have "writei strat dwr i s = writei_loop (unat (u_count s) + 1) strat i (i_rdev (inodes s i)) s"
    using o t c by (simp add: writei_def Let_def del: writei_loop.simps)
  then show ?thesis using writei_loop_stores [OF st w(2,1,3) u(1) _ u(2,4,5,6), of "unat (u_count s) + 1" "i_rdev (inodes s i)"] u(2,3)
    by (simp del: writei_loop.simps)
qed

section \<open>The properties\<close>

text \<open>
  C4. A write within the ten direct blocks (its end at most 5120) stores its bytes and nothing else. Let \<open>i\<close> be a regular file of a file system
  with enough free blocks, its direct addresses distinct and none of them free. Then \<open>writei\<close> ends without error; afterwards the file has
  the user's bytes from \<open>u_offset\<close> on and its old bytes everywhere else, its size is the larger of the old one and the end of the write, the
  flags \<open>IUPD\<close> and \<open>ICHG\<close> are set, \<open>u_base\<close>, \<open>u_offset\<close> and \<open>u_count\<close> have advanced by the number of bytes. Every old address stays and
  exactly the holes that the write reaches are filled, with blocks from the front of the free list, of which none is lost and
  which is still well formed. Nothing else changes: no other field of the i-node (links, owner, mode, count, ...), no other i-node, no block
  of another device or of this one that was neither the file's nor free, no held buffer, no other super block and no other field of this
  one, not the mount table, and nothing of the user structure and the other tables (\<open>ino.more\<close>).
\<close>

theorem writei_stores:
  assumes st: "sync_driver strat" and w: "wfile dev fp H i L s" "H \<noteq> pool" "holes (i_addr (inodes s i)) \<le> length L"
    and u: "u_error s = 0" "n = unat (u_count s)" "0 < n" "accessible (u_base s) n s" "unat (u_offset s) + n \<le> 5120" "unat (i_size (inodes s i)) < 2 ^ 31"
  shows "fpost (writei strat dwr i s) (\<lambda>_ t.
    (\<forall>p < 5120. fbyte t i p =
       (if unat (u_offset s) \<le> p \<and> p < unat (u_offset s) + n then user_bytes (u_base s) n s ! (p - unat (u_offset s)) else fbyte s i p)) \<and>
    uio_same (moved n s) t \<and>
    i_size (inodes t i) = (if sint (i_size (inodes s i)) < sint (u_offset t) then u_offset t else i_size (inodes s i)) \<and>
    drop 10 (i_addr (inodes t i)) = drop 10 (i_addr (inodes s i)) \<and>
    i_flag (inodes t i) = i_flag (inodes s i) \<union> {IUPD, ICHG} \<and>
    inodes t i = (inodes s i)\<lparr>i_flag := i_flag (inodes t i), i_size := i_size (inodes t i), i_addr := i_addr (inodes t i)\<rparr> \<and>
    (\<exists>L' L0. L = L0 @ L' \<and> wfile dev fp H i L' t \<and> taken (unat (u_offset s)) n (i_addr (inodes s i)) (i_addr (inodes t i)) L0) \<and>
    (\<forall>j. j \<noteq> i \<longrightarrow> inodes t j = inodes s j) \<and>
    (\<forall>d b. d \<noteq> dev \<or> b \<notin> set (take 10 (i_addr (inodes s i))) \<union> set L \<longrightarrow> cont t d b = cont s d b) \<and>
    (\<forall>c \<in> H. same_buf c s t) \<and> same_rest fp i s t)"
proof (rule fpost_mono [OF writei_stores_all [OF assms]])
  fix x :: unit and t
  assume t: "stored dev fp H i L (user_bytes (u_base s) n s) s t"
  have "length (user_bytes (u_base s) n s) = n" "user_bytes (u_base s) n s \<noteq> []" using u(3) by (simp_all add: user_bytes_def)
  then show "(\<forall>p < 5120. fbyte t i p =
       (if unat (u_offset s) \<le> p \<and> p < unat (u_offset s) + n then user_bytes (u_base s) n s ! (p - unat (u_offset s)) else fbyte s i p)) \<and>
    uio_same (moved n s) t \<and>
    i_size (inodes t i) = (if sint (i_size (inodes s i)) < sint (u_offset t) then u_offset t else i_size (inodes s i)) \<and>
    drop 10 (i_addr (inodes t i)) = drop 10 (i_addr (inodes s i)) \<and>
    i_flag (inodes t i) = i_flag (inodes s i) \<union> {IUPD, ICHG} \<and>
    inodes t i = (inodes s i)\<lparr>i_flag := i_flag (inodes t i), i_size := i_size (inodes t i), i_addr := i_addr (inodes t i)\<rparr> \<and>
    (\<exists>L' L0. L = L0 @ L' \<and> wfile dev fp H i L' t \<and> taken (unat (u_offset s)) n (i_addr (inodes s i)) (i_addr (inodes t i)) L0) \<and>
    (\<forall>j. j \<noteq> i \<longrightarrow> inodes t j = inodes s j) \<and>
    (\<forall>d b. d \<noteq> dev \<or> b \<notin> set (take 10 (i_addr (inodes s i))) \<union> set L \<longrightarrow> cont t d b = cont s d b) \<and>
    (\<forall>c \<in> H. same_buf c s t) \<and> same_rest fp i s t"
    using t unfolding stored_def same_rest_def inode_kept_def by auto
qed

lemma blocks_ok_small:
  assumes "direct_ok a F" "drop 10 a = [0, 0, 0]"
  shows "blocks_ok c a"
  unfolding blocks_ok_def
proof (intro allI impI)
  fix k
  have "length a = 13" using assms(1) by (simp add: direct_ok_def NADDR_def)
  then have "a ! 10 = 0" "a ! 11 = 0" "a ! 12 = 0"
    using assms(2) nth_drop [of 10 a 0] nth_drop [of 10 a 1] nth_drop [of 10 a 2] by simp_all
  then show "0 \<le> sint (file_block c a k)" using assms(1) by (cases "a ! k = 0") (auto simp: file_block_def direct_ok_def)
qed

lemma file_bytes_fbyte:
  assumes "\<And>p. off \<le> p \<Longrightarrow> p < off + length bs \<Longrightarrow> fbyte t i p = bs ! (p - off)"
  shows "file_bytes (cont t (i_dev (inodes t i))) (i_addr (inodes t i)) off (length bs) = bs"
  by (rule nth_equalityI) (use assms in \<open>simp_all add: file_bytes_def fbyte_def [symmetric]\<close>)

text \<open>
  Writing and reading back. For a file as before that has no indirect blocks: when the bytes have been written and the same place is
  read into another part of the user's memory, that part holds the bytes that were written, although they have gone through
  \<open>bmap\<close>, the allocator, the buffer cache and the moves to and from the user.
\<close>

theorem write_read_round_trip:
  assumes st: "sync_driver strat" and w: "wfile dev fp H i L s" "card H + 1 < NBUF" "holes (i_addr (inodes s i)) \<le> length L"
    and small: "drop 10 (i_addr (inodes s i)) = [0, 0, 0]"
    and u: "u_error s = 0" "n = unat (u_count s)" "0 < n" "accessible (u_base s) n s" "unat (u_offset s) + n \<le> 5120" "unat (i_size (inodes s i)) \<le> 5120"
      "accessible b n s"
  shows "fpost (fbind (writei strat dwr i s) (\<lambda>_ t. readi strat drd i (t\<lparr>u_offset := u_offset s, u_base := b, u_count := u_count s\<rparr>)))
    (\<lambda>_ t. u_mem t = (u_mem s)(u_segflg s := put_mem b (user_bytes (u_base s) n s) (u_mem s (u_segflg s))) \<and> u_error t = 0 \<and> u_count t = 0)"
proof (rule fpost_bind, rule fpost_mono [OF writei_stores_all [OF st w(1) _ w(3) u(1-5)]])
  show "H \<noteq> pool" using w(2) by auto
  show "unat (i_size (inodes s i)) < 2 ^ 31" using u(6) by simp
  fix x :: unit and t
  define bs where "bs = user_bytes (u_base s) n s"
  have lb: "length bs = n" "bs \<noteq> []" using u(3) by (simp_all add: bs_def user_bytes_def)
  assume "stored dev fp H i L (user_bytes (u_base s) n s) s t"
  then have t: "stored dev fp H i L bs s t" by (simp add: bs_def)
  let ?ip = "inodes t i"
  define v where "v = t\<lparr>u_offset := u_offset s, u_base := b, u_count := u_count s\<rparr>"
  obtain L' where wt: "wfile dev fp H i L' t" using t by (auto simp: stored_def)
  have ty: "\<not> is_block_dev ?ip" "\<not> is_char_dev ?ip" using wt file_type by (auto simp: wfile_def)
  have dt: "i_dev ?ip = dev" "direct_ok (i_addr ?ip) (set L')" "binv t H" "usable t dev" "\<forall>c \<in> H. b_dev t c \<noteq> dev" using wt by (simp_all add: wfile_def)
  have mt: "uio_same (moved n s) t" using t lb by (simp add: stored_def)
  have o: "unat (u_offset t) = unat (u_offset s) + n"
    using moved_offset(1) [of s n] u(2,5) mt by (simp add: uio_same_def)
  have os: "0 \<le> sint (u_offset s)" "sint (u_offset t) = int (unat (u_offset s) + n)"
  proof -
    have "sint (u_offset s) = int (unat (u_offset s))" by (rule sint_unat32) (use u(5) in simp)
    then show "0 \<le> sint (u_offset s)" by (simp only: of_nat_0_le_iff)
    show "sint (u_offset t) = int (unat (u_offset s) + n)" unfolding o [symmetric] by (rule sint_unat32) (use o u(5) in simp)
  qed
  have ss: "sint (i_size (inodes s i)) = int (unat (i_size (inodes s i)))" by (rule sint_unat32) (use u(6) in simp)
  have sz: "unat (i_size ?ip) = max (unat (i_size (inodes s i))) (unat (u_offset s) + n)"
  proof (cases "unat (i_size (inodes s i)) < unat (u_offset s) + n")
    case True
    then have "sint (i_size (inodes s i)) < sint (u_offset t)" unfolding ss os(2) by (simp only: of_nat_less_iff)
    then show ?thesis using t lb True o unfolding stored_def by simp
  next
    case False
    then have "\<not> sint (i_size (inodes s i)) < sint (u_offset t)" unfolding ss os(2) by (simp only: of_nat_less_iff not_False_eq_True)
    then show ?thesis using t False unfolding stored_def by simp
  qed
  have "drop 10 (i_addr ?ip) = [0, 0, 0]" using t small by (simp add: stored_def)
  note bk = blocks_ok_small [OF dt(2) this]
  have mem: "u_mem t = u_mem s" "u_segflg t = u_segflg s" "u_error t = 0" using mt u(1) by (simp_all add: uio_same_def moved_def)
  have N: "n = min (unat (u_count v)) (unat (i_size (inodes v i)) - unat (u_offset v))" using sz u(2) by (simp add: v_def)
  have fb: "file_bytes (cont t dev) (i_addr ?ip) (unat (u_offset s)) n = bs"
    using file_bytes_fbyte [of "unat (u_offset s)" bs t i] t lb(1) u(5) unfolding stored_def dt(1) by simp
  have c0: "u_count s \<noteq> 0" using u(2,3) by auto
  have cv: "cont v = cont t" "inodes v = inodes t" by (simp_all add: v_def)
  have "fpost (readi strat drd i v) (\<lambda>_ y. delivered (file_bytes (cont v (i_dev (inodes v i))) (i_addr (inodes v i)) (unat (u_offset v)) n) v y)"
  proof (rule fpost_mono [OF readi_reads [where s = v and i = i and N = n and H = H and drd = drd, OF st _ w(2)]], goal_cases)
    case (13 x y)
    then show ?case by blast
  qed (use dt ty bk sz u mem os(1) N c0 in \<open>simp_all add: v_def accessible_def max_blocks_def\<close>)
  then show "fpost (readi strat drd i v) (\<lambda>_ t. u_mem t = (u_mem s)(u_segflg s := put_mem b (user_bytes (u_base s) n s) (u_mem s (u_segflg s))) \<and> u_error t = 0 \<and> u_count t = 0)"
    using fb mem u(2) by (elim fpost_mono) (simp add: cv dt(1), simp add: v_def delivered_def bs_def lb)
qed

section \<open>Demonstration\<close>

text \<open>A file of 4600 bytes in nine blocks, to which 20 bytes are added: 8 in its last block and 12 in a new one.\<close>

definition demo_write :: ino where
  "demo_write = demo_file\<lparr>inodes := \<lambda>_. demo_inode\<lparr>i_addr := [20, 21, 22, 23, 24, 25, 26, 27, 28, 0, 0, 0, 0], i_size := 4600\<rparr>, u_offset := 4600, u_count := 20\<rparr>"

lemma less_ten: "k < 10 \<longleftrightarrow> k \<in> {0, 1, 2, 3, 4, 5, 6, 7, 8, 9}" for k :: nat
  by auto

lemma demo_write_file:
  "wfile 0 (Buf 0) {} 0 [7, 5] demo_write" "holes (i_addr (inodes demo_write 0)) \<le> 2" "u_error demo_write = 0" "unat (u_count demo_write) = 20"
  "accessible a n demo_write" "unat (u_offset demo_write) = 4600" "unat (i_size (inodes demo_write 0)) = 4600" "u_segflg demo_write = u_segflg demo_file"
  "u_mem demo_write = (\<lambda>_ _. Some 65)" "cont demo_write = cont demo_bio" "i_dev (inodes demo_write 0) = 0"
proof -
  have c: "cont demo_write = cont demo_bio" by (simp add: demo_write_def demo_file_bio)
  have b: "binv demo_write {}" "usable demo_write 0" by (simp_all add: demo_write_def demo_file_bio)
  have f: "fs_at demo_write 0 = Some (Buf 0)" "b_filsys demo_write (Buf 0) = demo_sb"
    using demo_file_sb by (simp_all add: demo_write_def fs_at_def)
  have "b_filsys demo_alc (Buf 0) = demo_sb" by (simp add: demo_alc_def bio.extend_def)
  then have fr: "fs_free demo_write 0 (Buf 0) [7, 5]" using demo_alc_free f by (simp add: fs_free_def c demo_alc_bio)
  have m: "IFREG AND IFMT = IFREG" by (simp add: IFREG_def IFMT_def)
  show "wfile 0 (Buf 0) {} 0 [7, 5] demo_write"
    unfolding wfile_def direct_ok_def using b fr m by (simp add: less_ten, simp add: demo_write_def demo_inode_def NADDR_def)
  have "{k. k < 10 \<and> i_addr (inodes demo_write 0) ! k = 0} = {9}"
    unfolding less_ten by (auto simp: demo_write_def)
  then show "holes (i_addr (inodes demo_write 0)) \<le> 2" by (simp add: holes_def)
  show "u_error demo_write = 0" "unat (u_count demo_write) = 20" "accessible a n demo_write" "unat (u_offset demo_write) = 4600"
    "unat (i_size (inodes demo_write 0)) = 4600" "u_segflg demo_write = u_segflg demo_file" "u_mem demo_write = (\<lambda>_ _. Some 65)" "i_dev (inodes demo_write 0) = 0"
    using demo_file_bio by (simp_all add: demo_write_def accessible_def demo_inode_def) (simp add: demo_file_def alc.extend_def alc.truncate_def)
  show "cont demo_write = cont demo_bio" by fact
qed

theorem writei_stores_witness:
  "fpost (writei demo_driver (\<lambda>_ s. Ret () s) 0 demo_write) (\<lambda>_ t. fbyte t 0 4610 = 65 \<and> fbyte t 0 100 = 20 \<and> unat (u_count t) = 0)"
proof -
  note d = demo_write_file
  have "user_bytes a 20 demo_write = replicate 20 65" for a
    by (rule nth_equalityI) (simp_all add: user_bytes_def d(9) del: upt_rec_numeral)
  moreover have "fbyte demo_write 0 100 = 20"
    using demo_bio(2) [of 0 20] unfolding fbyte_def d(10,11) by (simp add: demo_write_def file_byte_def file_block_def BSIZE_def)
  moreover have "unat (u_count (moved 20 demo_write)) = 0" using moved_offset(2) [of demo_write 20] d(4,6) by simp
  ultimately show ?thesis
    using fpost_mono [OF writei_stores [OF demo_driver_sync d(1) demo_bio(4) _ d(3) d(4) [symmetric] _ d(5)]] d(2,6,7)
    by (auto simp: uio_same_def)
qed

theorem write_read_round_trip_witness:
  "fpost (fbind (writei demo_driver (\<lambda>_ s. Ret () s) 0 demo_write) (\<lambda>_ t.
      readi demo_driver (\<lambda>_ s. Ret () s) 0 (t\<lparr>u_offset := u_offset demo_write, u_base := 2000, u_count := u_count demo_write\<rparr>)))
    (\<lambda>_ t. u_mem t = (u_mem demo_write)(u_segflg demo_write := put_mem 2000 (replicate 20 65) (u_mem demo_write (u_segflg demo_write))) \<and> u_error t = 0 \<and> u_count t = 0)"
proof -
  note d = demo_write_file
  have "user_bytes a 20 demo_write = replicate 20 65" for a
    by (rule nth_equalityI) (simp_all add: user_bytes_def d(9) del: upt_rec_numeral)
  moreover have "drop 10 (i_addr (inodes demo_write 0)) = [0, 0, 0]" by (simp add: demo_write_def)
  ultimately show ?thesis
    using write_read_round_trip [OF demo_driver_sync d(1) _ _ _ d(3) d(4) [symmetric] _ d(5) _ _ d(5), of "\<lambda>_ s. Ret () s" "\<lambda>_ s. Ret () s" 2000] d(2,6,7)
    by (simp add: NBUF_def)
qed


end
