(* ===== verification/Fio.thy ===== *)
theory Fio
  imports Res_Map Inode
begin

text \<open>
  Open files and permissions (\<open>sys/fio.c\<close>, \<open>plock\<close> of \<open>sys/pipe.c\<close>, the removal of unused texts of \<open>sys/text.c\<close>): the table of files, the
  descriptors of a process, the check of permissions. The property is what \<open>access\<close> grants.
  The switch of the devices, \<open>devsw\<close>, holds the routines of the drivers, parameters of all that follows.
\<close>

unbundle bit_operations_syntax

section \<open>The program: the user's files\<close>

text \<open>
  The flags of a file are the bits of \<open>f_flag\<close>; \<open>f_offset\<close> is also the channel of a multiplexed file. The fields from \<open>u_uid\<close> on are those
  of the \<open>u\<close> area; \<open>a_dent\<close> is the address of \<open>u_dent\<close> in the kernel, from which a directory entry is written. \<open>posted\<close> are the signals that
  the process has sent to itself. \<open>acctp\<close> is the i-node of the accounting file. The table of texts is that of \<open>h/text.h\<close>, as far as files are concerned.
\<close>

definition NOFILE :: nat where "NOFILE = 20"
definition NFILE :: nat where "NFILE = 175"
definition NTEXT :: nat where "NTEXT = 40"
definition DIRSIZ :: nat where "DIRSIZ = 14"
definition PSWP :: int where "PSWP = 0"

definition EPERM :: u8 where "EPERM = 1"
definition ENXIO :: u8 where "ENXIO = 6"
definition EBADF :: u8 where "EBADF = 9"
definition EACCES :: u8 where "EACCES = 13"
definition EMFILE :: u8 where "EMFILE = 24"
definition ETXTBSY :: u8 where "ETXTBSY = 26"
definition EROFS :: u8 where "EROFS = 30"

definition IREAD :: u16 where "IREAD = 0x100"
definition IWRITE :: u16 where "IWRITE = 0x80"
definition IEXEC :: u16 where "IEXEC = 0x40"
definition ISVTX :: u16 where "ISVTX = 0x200"

definition FREAD :: u8 where "FREAD = 1"
definition FWRITE :: u8 where "FWRITE = 2"
definition FPIPE :: u8 where "FPIPE = 4"
definition FMP :: u8 where "FMP = 0x18"

definition ASU :: u8 where "ASU = 2"

record ofile =
  f_flag :: u8
  f_count :: u8
  f_inode :: nat
  f_offset :: u32

record direct =
  d_ino :: u16
  d_name :: "u8 list"

datatype xflag = XTRC | XWRIT | XLOAD | XLOCK | XWANT

record xtext =
  x_daddr :: u16
  x_size :: u16
  x_iptr :: "nat option"
  x_count :: u8
  x_flag :: "xflag set"

record fil = ino +
  u_uid :: u16
  u_gid :: u16
  u_ruid :: u16
  u_rgid :: u16
  u_acflag :: u8
  u_cdir :: nat
  u_rdir :: "nat option"
  u_dbuf :: "u8 list"
  u_dirp :: u16
  u_dent :: direct
  u_pdir :: nat
  u_ofile :: "nat option list"
  u_pofile :: "u8 list"
  u_rval1 :: u16
  u_rval2 :: u16
  u_cmask :: u16
  files :: "nat \<Rightarrow> ofile"
  texts :: "nat \<Rightarrow> xtext"
  swap_map :: "mapent list"
  rootdir :: nat
  mpxip :: "nat option"
  pipedev :: u16
  nchrdev :: nat
  a_dent :: u16
  posted :: "u8 list"
  acctp :: "nat option"

text \<open>The device switches: the strategy routine, and the routines of the character and of the block devices.\<close>

type_synonym 'a strat = "'a fil_ext ino_ext alc_ext strategy"

record 'a devsw =
  d_strat :: "'a strat"
  c_open :: "u16 \<Rightarrow> u16 \<Rightarrow> 'a fil_scheme \<Rightarrow> (unit, 'a fil_scheme) fres"
  c_close :: "u16 \<Rightarrow> u8 \<Rightarrow> u32 \<Rightarrow> 'a fil_scheme \<Rightarrow> (unit, 'a fil_scheme) fres"
  c_read :: "u16 \<Rightarrow> 'a fil_scheme \<Rightarrow> (unit, 'a fil_scheme) fres"
  c_write :: "u16 \<Rightarrow> 'a fil_scheme \<Rightarrow> (unit, 'a fil_scheme) fres"
  b_open :: "u16 \<Rightarrow> u16 \<Rightarrow> 'a fil_scheme \<Rightarrow> (unit, 'a fil_scheme) fres"
  b_close :: "u16 \<Rightarrow> u8 \<Rightarrow> u32 \<Rightarrow> 'a fil_scheme \<Rightarrow> (unit, 'a fil_scheme) fres"
  c_ioctl :: "u16 \<Rightarrow> u16 \<Rightarrow> u16 \<Rightarrow> u8 \<Rightarrow> 'a fil_scheme \<Rightarrow> (unit, 'a fil_scheme) fres"

definition set_err :: "u8 \<Rightarrow> 'a fil_scheme \<Rightarrow> 'a fil_scheme" where
  "set_err e s = s\<lparr>u_error := e\<rparr>"

definition f_upd :: "nat \<Rightarrow> (ofile \<Rightarrow> ofile) \<Rightarrow> 'a fil_scheme \<Rightarrow> 'a fil_scheme" where
  "f_upd f g s = s\<lparr>files := (files s)(f := g (files s f))\<rparr>"

definition x_upd :: "nat \<Rightarrow> (xtext \<Rightarrow> xtext) \<Rightarrow> 'a fil_scheme \<Rightarrow> 'a fil_scheme" where
  "x_upd x g s = s\<lparr>texts := (texts s)(x := g (texts s x))\<rparr>"

section \<open>The program: locks of i-nodes and texts\<close>

definition plock :: "nat \<Rightarrow> 'a ino_scheme \<Rightarrow> (unit, 'a ino_scheme) fres" where
  "plock i s =
     (if ILOCK \<in> i_flag (inodes s i)
      then Asleep (Ch_inode i) PINOD (i_upd i (\<lambda>ip. ip\<lparr>i_flag := insert IWANT (i_flag ip)\<rparr>) s)
      else Ret () (i_upd i (\<lambda>ip. ip\<lparr>i_flag := insert ILOCK (i_flag ip)\<rparr>) s))"

definition xlock :: "nat \<Rightarrow> 'a fil_scheme \<Rightarrow> (unit, 'a fil_scheme) fres" where
  "xlock x s =
     (if XLOCK \<in> x_flag (texts s x)
      then Asleep (Ch_text x) PSWP (x_upd x (\<lambda>t. t\<lparr>x_flag := insert XWANT (x_flag t)\<rparr>) s)
      else Ret () (x_upd x (\<lambda>t. t\<lparr>x_flag := insert XLOCK (x_flag t)\<rparr>) s))"

definition xunlock :: "nat \<Rightarrow> 'a fil_scheme \<Rightarrow> 'a fil_scheme" where
  "xunlock x s =
     x_upd x (\<lambda>t. t\<lparr>x_flag := x_flag t - {XLOCK, XWANT}\<rparr>) (if XWANT \<in> x_flag (texts s x) then awaken (Ch_text x) s else s)"

definition ctod :: "u16 \<Rightarrow> u16" where
  "ctod x = signed_drop_bit 3 (x + 7)"

text \<open>The text is one that has an i-node: the callers look for it.\<close>

definition xuntext :: "'a strat \<Rightarrow> nat \<Rightarrow> 'a fil_scheme \<Rightarrow> (unit, 'a fil_scheme) fres" where
  "xuntext strat x s =
     fbind (xlock x s) (\<lambda>_ s.
       if x_count (texts s x) \<noteq> 0 then Ret () (xunlock x s)
       else case x_iptr (texts s x) of
         None \<Rightarrow> Wild
       | Some i \<Rightarrow>
           let s = x_upd x (\<lambda>t. t\<lparr>x_flag := x_flag t - {XLOCK}, x_iptr := None\<rparr>) s in
           case mfree_from None (swap_map s) (ctod (x_size (texts s x))) (x_daddr (texts s x)) of
             None \<Rightarrow> Wild
           | Some m \<Rightarrow>
               let s = i_upd i (\<lambda>ip. ip\<lparr>i_flag := i_flag ip - {ITEXT}\<rparr>) (s\<lparr>swap_map := m\<rparr>) in
               if ILOCK \<in> i_flag (inodes s i) then Ret () (i_upd i (\<lambda>ip. ip\<lparr>i_count := i_count ip - 1\<rparr>) s)
               else iput strat i s)"

text \<open>
  \<open>xrele\<close>: the condition of its early return, \<open>ip->i_flag&ITEXT==0\<close>, is \<open>ip->i_flag & (ITEXT==0)\<close> and never holds, so the table is always
  searched.
\<close>

fun xrele_loop :: "'a strat \<Rightarrow> nat list \<Rightarrow> nat \<Rightarrow> 'a fil_scheme \<Rightarrow> (unit, 'a fil_scheme) fres" where
  "xrele_loop strat [] i s = Ret () s"
| "xrele_loop strat (x # xs) i s =
     fbind (if x_iptr (texts s x) = Some i then xuntext strat x s else Ret () s) (\<lambda>_ s. xrele_loop strat xs i s)"

definition xrele :: "'a strat \<Rightarrow> nat \<Rightarrow> 'a fil_scheme \<Rightarrow> (unit, 'a fil_scheme) fres" where
  "xrele strat i s = xrele_loop strat [0..<NTEXT] i s"

fun xumount_loop :: "'a strat \<Rightarrow> nat list \<Rightarrow> u16 \<Rightarrow> 'a fil_scheme \<Rightarrow> (unit, 'a fil_scheme) fres" where
  "xumount_loop strat [] dev s = Ret () s"
| "xumount_loop strat (x # xs) dev s =
     fbind (case x_iptr (texts s x) of
              None \<Rightarrow> Ret () s
            | Some i \<Rightarrow> if dev = i_dev (inodes s i) then xuntext strat x s else Ret () s) (\<lambda>_ s. xumount_loop strat xs dev s)"

definition xumount :: "'a strat \<Rightarrow> u16 \<Rightarrow> 'a fil_scheme \<Rightarrow> (unit, 'a fil_scheme) fres" where
  "xumount strat dev s = xumount_loop strat [0..<NTEXT] dev s"

section \<open>The program: permissions\<close>

definition suser :: "'a fil_scheme \<Rightarrow> bool \<times> 'a fil_scheme" where
  "suser s = (if u_uid s = 0 then (True, s\<lparr>u_acflag := u_acflag s OR ASU\<rparr>) else (False, set_err EPERM s))"

text \<open>\<open>access\<close>, which returns whether the access is denied. The test for writing first: Some True is a denial there.\<close>

definition access_write :: "'a strat \<Rightarrow> nat \<Rightarrow> 'a fil_scheme \<Rightarrow> (bool, 'a fil_scheme) fres" where
  "access_write strat i s =
     fbind (getfs (i_dev (inodes s i)) s) (\<lambda>fp s.
       if s_ronly (b_filsys s fp) \<noteq> 0 then Ret True (set_err EROFS s)
       else fbind (if ITEXT \<in> i_flag (inodes s i) then xrele strat i s else Ret () s) (\<lambda>_ s.
         if ITEXT \<in> i_flag (inodes s i) then Ret True (set_err ETXTBSY s) else Ret False s))"

definition access_mode :: "u16 \<Rightarrow> u16 \<Rightarrow> inode \<Rightarrow> u16 \<Rightarrow> bool" where
  "access_mode uid gid ip m =
     (let m = (if uid \<noteq> i_uid ip then (if gid \<noteq> i_gid ip then drop_bit 3 (drop_bit 3 m) else drop_bit 3 m) else m)
      in i_mode ip AND m \<noteq> 0)"

definition access :: "'a strat \<Rightarrow> nat \<Rightarrow> u16 \<Rightarrow> 'a fil_scheme \<Rightarrow> (bool, 'a fil_scheme) fres" where
  "access strat i mode s =
     fbind (if mode = IWRITE then access_write strat i s else Ret False s) (\<lambda>d s.
       if d then Ret True s
       else if u_uid s = 0 then Ret False s
       else if access_mode (u_uid s) (u_gid s) (inodes s i) mode then Ret False s
       else Ret True (set_err EACCES s))"

section \<open>The program: descriptors and files\<close>

definition getf :: "u16 \<Rightarrow> 'a fil_scheme \<Rightarrow> nat option \<times> 'a fil_scheme" where
  "getf f s =
     (if 0 \<le> sint f \<and> sint f < int NOFILE \<and> u_ofile s ! unat f \<noteq> None then (u_ofile s ! unat f, s)
      else (None, set_err EBADF s))"

definition ufalloc :: "'a fil_scheme \<Rightarrow> nat option \<times> 'a fil_scheme" where
  "ufalloc s =
     (case find (\<lambda>i. u_ofile s ! i = None) [0..<NOFILE] of
        Some i \<Rightarrow> (Some i, s\<lparr>u_rval1 := of_nat i, u_pofile := (u_pofile s)[i := 0]\<rparr>)
      | None \<Rightarrow> (None, set_err EMFILE s))"

definition falloc :: "'a fil_scheme \<Rightarrow> nat option \<times> 'a fil_scheme" where
  "falloc s =
     (case ufalloc s of
        (None, s) \<Rightarrow> (None, s)
      | (Some i, s) \<Rightarrow>
          (case find (\<lambda>f. f_count (files s f) = 0) [0..<NFILE] of
             Some f \<Rightarrow> (Some f, f_upd f (\<lambda>fp. fp\<lparr>f_count := f_count fp + 1, f_offset := 0\<rparr>) (s\<lparr>u_ofile := (u_ofile s)[i := Some f]\<rparr>))
           | None \<Rightarrow> (None, set_err ENFILE (kprintf ''no file'' s))))"

definition closef :: "'a devsw \<Rightarrow> nat option \<Rightarrow> 'a fil_scheme \<Rightarrow> (unit, 'a fil_scheme) fres" where
  "closef sw fo s =
     (case fo of
        None \<Rightarrow> Ret () s
      | Some f \<Rightarrow>
          if sint (f_count (files s f)) > 1 then Ret () (f_upd f (\<lambda>fp. fp\<lparr>f_count := f_count fp - 1\<rparr>) s)
          else
            let i = f_inode (files s f); flag = f_flag (files s f); cp = f_offset (files s f);
                dev = ucast (i_addr (inodes s i) ! 0) :: u16; type = i_mode (inodes s i) AND IFMT
            in fbind (plock i s) (\<lambda>_ s.
                 let s = f_upd f (\<lambda>fp. fp\<lparr>f_count := 0\<rparr>) s;
                     s = (if flag AND FPIPE \<noteq> 0
                          then awaken (Ch_pipe i 2) (awaken (Ch_pipe i 1) (i_upd i (\<lambda>ip. ip\<lparr>i_mode := i_mode ip AND NOT (IREAD OR IWRITE)\<rparr>) s))
                          else s)
                 in fbind (iput (d_strat sw) i s) (\<lambda>_ s.
                      if type \<noteq> IFCHR \<and> type \<noteq> IFMPC \<and> type \<noteq> IFBLK \<and> type \<noteq> IFMPB then Ret () s
                      else if flag AND FMP = 0 \<and> (\<exists>g \<in> set [0..<NFILE]. f_count (files s g) \<noteq> 0 \<and> f_inode (files s g) = i) then Ret () s
                      else if type = IFCHR \<or> type = IFMPC then c_close sw dev flag cp s
                      else b_close sw dev flag cp s)))"

definition openi :: "'a devsw \<Rightarrow> nat \<Rightarrow> u16 \<Rightarrow> 'a fil_scheme \<Rightarrow> (unit, 'a fil_scheme) fres" where
  "openi sw i rw s =
     (let dev = ucast (i_addr (inodes s i) ! 0) :: u16; type = i_mode (inodes s i) AND IFMT in
      if type = IFCHR \<or> type = IFMPC then (if nchrdev s \<le> major dev then Ret () (set_err ENXIO s) else c_open sw dev rw s)
      else if type = IFBLK \<or> type = IFMPB then (if nblkdev s \<le> major dev then Ret () (set_err ENXIO s) else b_open sw dev rw s)
      else Ret () s)"

section \<open>What the cache does not see\<close>

lemma bio_fil [simp]:
  "binv (s\<lparr>files := x5\<rparr>) H = binv s H" "cont (s\<lparr>files := x5\<rparr>) = cont s" "usable (s\<lparr>files := x5\<rparr>) = usable s" "same_buf c t (s\<lparr>files := x5\<rparr>) = same_buf c t s" "same_buf c (s\<lparr>files := x5\<rparr>) t = same_buf c s t"
  "binv (s\<lparr>u_segflg := x6\<rparr>) H = binv s H" "cont (s\<lparr>u_segflg := x6\<rparr>) = cont s" "usable (s\<lparr>u_segflg := x6\<rparr>) = usable s" "same_buf c t (s\<lparr>u_segflg := x6\<rparr>) = same_buf c t s" "same_buf c (s\<lparr>u_segflg := x6\<rparr>) t = same_buf c s t"
  "binv (s\<lparr>u_dent := x7\<rparr>) H = binv s H" "cont (s\<lparr>u_dent := x7\<rparr>) = cont s" "usable (s\<lparr>u_dent := x7\<rparr>) = usable s" "same_buf c t (s\<lparr>u_dent := x7\<rparr>) = same_buf c t s" "same_buf c (s\<lparr>u_dent := x7\<rparr>) t = same_buf c s t"
  "binv (s\<lparr>u_dbuf := x8\<rparr>) H = binv s H" "cont (s\<lparr>u_dbuf := x8\<rparr>) = cont s" "usable (s\<lparr>u_dbuf := x8\<rparr>) = usable s" "same_buf c t (s\<lparr>u_dbuf := x8\<rparr>) = same_buf c t s" "same_buf c (s\<lparr>u_dbuf := x8\<rparr>) t = same_buf c s t"
  "binv (s\<lparr>u_dirp := x9\<rparr>) H = binv s H" "cont (s\<lparr>u_dirp := x9\<rparr>) = cont s" "usable (s\<lparr>u_dirp := x9\<rparr>) = usable s" "same_buf c t (s\<lparr>u_dirp := x9\<rparr>) = same_buf c t s" "same_buf c (s\<lparr>u_dirp := x9\<rparr>) t = same_buf c s t"
  "binv (s\<lparr>u_pdir := x10\<rparr>) H = binv s H" "cont (s\<lparr>u_pdir := x10\<rparr>) = cont s" "usable (s\<lparr>u_pdir := x10\<rparr>) = usable s" "same_buf c t (s\<lparr>u_pdir := x10\<rparr>) = same_buf c t s" "same_buf c (s\<lparr>u_pdir := x10\<rparr>) t = same_buf c s t"
  "binv (s\<lparr>u_ofile := x11\<rparr>) H = binv s H" "cont (s\<lparr>u_ofile := x11\<rparr>) = cont s" "usable (s\<lparr>u_ofile := x11\<rparr>) = usable s" "same_buf c t (s\<lparr>u_ofile := x11\<rparr>) = same_buf c t s" "same_buf c (s\<lparr>u_ofile := x11\<rparr>) t = same_buf c s t"
  "binv (s\<lparr>u_pofile := x12\<rparr>) H = binv s H" "cont (s\<lparr>u_pofile := x12\<rparr>) = cont s" "usable (s\<lparr>u_pofile := x12\<rparr>) = usable s" "same_buf c t (s\<lparr>u_pofile := x12\<rparr>) = same_buf c t s" "same_buf c (s\<lparr>u_pofile := x12\<rparr>) t = same_buf c s t"
  "binv (s\<lparr>u_rval1 := x13\<rparr>) H = binv s H" "cont (s\<lparr>u_rval1 := x13\<rparr>) = cont s" "usable (s\<lparr>u_rval1 := x13\<rparr>) = usable s" "same_buf c t (s\<lparr>u_rval1 := x13\<rparr>) = same_buf c t s" "same_buf c (s\<lparr>u_rval1 := x13\<rparr>) t = same_buf c s t"
  "binv (s\<lparr>u_rval2 := y0\<rparr>) H = binv s H" "cont (s\<lparr>u_rval2 := y0\<rparr>) = cont s" "usable (s\<lparr>u_rval2 := y0\<rparr>) = usable s" "same_buf c t (s\<lparr>u_rval2 := y0\<rparr>) = same_buf c t s" "same_buf c (s\<lparr>u_rval2 := y0\<rparr>) t = same_buf c s t"
  by (simp_all add: binv_def free_ok_def lists_ok_def on_lists_def heads_def home_def usable_def flags_ok_def unique_ok_def data_ok_def sizes_ok_def
      cont_def delayed_at_def same_buf_def fun_eq_iff split: option.split)

lemma same_buf_uio [simp]:
  "same_buf c (s\<lparr>u_offset := o1\<rparr>) t = same_buf c s t" "same_buf c (s\<lparr>rablock := o2\<rparr>) t = same_buf c s t"
  by (simp_all add: same_buf_def)

section \<open>Demonstration\<close>

text \<open>The file system of the demonstrations with a user: no open files, the ordinary user 7 of the group 3.\<close>

definition demo_fil :: fil where
  "demo_fil = ino.extend demo_file
     (fil.fields 7 3 7 3 0 0 None [] 0 \<lparr>d_ino = 0, d_name = []\<rparr> 0 (replicate 20 None) (replicate 20 0) 0 0 0
       (\<lambda>_. \<lparr>f_flag = 0, f_count = 0, f_inode = 0, f_offset = 0\<rparr>)
       (\<lambda>_. \<lparr>x_daddr = 0, x_size = 0, x_iptr = None, x_count = 0, x_flag = {}\<rparr>) [] 0 None 0 0 0 [] None)"

definition demo_sw :: "unit devsw" where
  "demo_sw = \<lparr>d_strat = demo_driver, c_open = (\<lambda>_ _ s. Ret () s), c_close = (\<lambda>_ _ _ s. Ret () s), c_read = (\<lambda>_ s. Ret () s),
     c_write = (\<lambda>_ s. Ret () s), b_open = (\<lambda>_ _ s. Ret () s), b_close = (\<lambda>_ _ _ s. Ret () s),
     c_ioctl = (\<lambda>_ _ _ _ s. Ret () s)\<rparr>"

lemma bio_extend:
  "binv (ino.extend s r) H = binv (s :: ino) H" "cont (ino.extend s r) = cont s" "usable (ino.extend s r) = usable s"
  "inodes (ino.extend s r) = inodes s" "mounts (ino.extend s r) = mounts s" "b_filsys (ino.extend s r) = b_filsys s" "u_mem (ino.extend s r) = u_mem s"
  by (simp_all add: ino.extend_def binv_def free_ok_def lists_ok_def on_lists_def heads_def home_def usable_def flags_ok_def
      unique_ok_def data_ok_def sizes_ok_def cont_def delayed_at_def fun_eq_iff split: option.split)

lemma demo_fil_bio:
  "binv demo_fil {}" "usable demo_fil 0" "cont demo_fil = cont demo_bio" "inodes demo_fil = (\<lambda>_. demo_inode)" "fs_at demo_fil 0 = Some (Buf 0)"
  "b_filsys demo_fil fp = demo_sb" "u_uid demo_fil = 7" "u_gid demo_fil = 3" "u_error demo_fil = 0" "u_ofile demo_fil = replicate 20 None"
  "f_count (files demo_fil f) = 0" "u_mem demo_fil = (\<lambda>_ _. Some 65)"
  using demo_file_sb(1) by (simp_all add: demo_fil_def bio_extend demo_file_bio demo_file_sb fs_at_def)
    (simp_all add: ino.extend_def fil.fields_def demo_file_def alc.extend_def alc.truncate_def)

section \<open>The properties\<close>

text \<open>The bit for others of a permission is \<open>b\<close>: 2 to read, 1 to write, 0 to execute; those of the group and of the owner are three and six places above.\<close>

definition permitted :: "u16 \<Rightarrow> u16 \<Rightarrow> inode \<Rightarrow> nat \<Rightarrow> bool" where
  "permitted uid gid ip b = bit (i_mode ip) (b + (if uid = i_uid ip then 6 else if gid = i_gid ip then 3 else 0))"

lemma access_mode_permitted:
  assumes "b \<le> 2"
  shows "access_mode uid gid ip (push_bit (6 + b) 1) = permitted uid gid ip b"
proof -
  have d: "drop_bit 3 (push_bit (k + 3) 1) = (push_bit k 1 :: u16)" if "k \<le> 5" for k
  proof (rule bit_word_eqI)
    fix n assume "n < LENGTH(16)"
    then show "bit (drop_bit 3 (push_bit (k + 3) 1 :: u16)) n = bit (push_bit k 1 :: u16) n" using that by (auto simp: bit_simps)
  qed
  have "drop_bit 3 (push_bit (6 + b) 1) = (push_bit (b + 3) 1 :: u16)" "drop_bit 3 (push_bit (b + 3) 1) = (push_bit b 1 :: u16)"
    using d [of "b + 3"] d [of b] assms by (simp_all add: add.commute)
  then show ?thesis by (simp add: access_mode_def permitted_def Let_def bit_iff_and_push_bit_not_eq_0 add.commute)
qed

text \<open>
  C21. What \<open>access\<close> grants. For one of the three permissions on an i-node that is not the prototype of a running text: a file system mounted for reading
  refuses every write, with \<open>EROFS\<close>, even the super-user's; otherwise the super-user is granted all; otherwise exactly one of the three
  groups of bits decides, that of the owner for the owner, that of the group for another user of the group and that of the others for everyone else,
  so that an owner may be refused what others have; a refusal leaves \<open>EACCES\<close>. Nothing else is changed.
\<close>

theorem access_grants:
  assumes "fs_at s (i_dev (inodes s i)) = Some fp" "counts_ok (b_filsys s fp)" "ITEXT \<notin> i_flag (inodes s i)" "b \<le> 2"
  shows "access strat i (push_bit (6 + b) 1) s =
    (if b = 1 \<and> s_ronly (b_filsys s fp) \<noteq> 0 then Ret True (set_err EROFS s)
     else if u_uid s = 0 \<or> permitted (u_uid s) (u_gid s) (inodes s i) b then Ret False s
     else Ret True (set_err EACCES s))"
proof -
  define M :: u16 where "M = push_bit (6 + b) 1"
  have "b \<in> {0, 1, 2}" using assms(4) by auto
  then have w: "M = IWRITE \<longleftrightarrow> b = 1" by (auto simp: M_def IWRITE_def)
  note g = getfs_fine [OF assms(1,2)] and p = access_mode_permitted [OF assms(4), folded M_def]
  show ?thesis
    unfolding M_def [symmetric] access_def access_write_def w p using assms(3) g p by (simp add: set_err_def)
qed

theorem access_grants_witness:
  "access demo_driver 0 IREAD (demo_fil\<lparr>inodes := \<lambda>_. demo_inode\<lparr>i_mode := 0x81A0, i_gid := 3\<rparr>\<rparr>) =
     Ret False (demo_fil\<lparr>inodes := \<lambda>_. demo_inode\<lparr>i_mode := 0x81A0, i_gid := 3\<rparr>\<rparr>) \<and>
   access demo_driver 0 IWRITE (demo_fil\<lparr>inodes := \<lambda>_. demo_inode\<lparr>i_mode := 0x81A0, i_gid := 3\<rparr>\<rparr>) =
     Ret True (set_err EACCES (demo_fil\<lparr>inodes := \<lambda>_. demo_inode\<lparr>i_mode := 0x81A0, i_gid := 3\<rparr>\<rparr>))"
proof -
  let ?s = "demo_fil\<lparr>inodes := \<lambda>_. demo_inode\<lparr>i_mode := 0x81A0, i_gid := 3\<rparr>\<rparr>"
  have f: "fs_at ?s (i_dev (inodes ?s 0)) = Some (Buf 0)" "counts_ok (b_filsys ?s (Buf 0))" "ITEXT \<notin> i_flag (inodes ?s 0)"
  proof -
    have "fs_at ?s = fs_at demo_fil" by (simp add: fs_at_def fun_eq_iff)
    then show "fs_at ?s (i_dev (inodes ?s 0)) = Some (Buf 0)" using demo_fil_bio(5) by (simp add: demo_inode_def)
  qed (simp_all add: demo_fil_bio demo_file_sb demo_inode_def)
  have m: "push_bit (6 + 2) 1 = IREAD" "push_bit (6 + 1) 1 = IWRITE" by (simp_all add: IREAD_def IWRITE_def)
  have b: "bit (0x81A0 :: u16) 5" "\<not> bit (0x81A0 :: u16) 4" by simp_all
  have "permitted 7 3 (inodes ?s 0) 2" "\<not> permitted 7 3 (inodes ?s 0) 1"
    using b by (simp_all add: permitted_def demo_inode_def)
  then show ?thesis
    using access_grants [OF f, of 2 demo_driver] access_grants [OF f, of 1 demo_driver] unfolding m by (simp add: demo_fil_bio demo_file_sb)
qed

end
