(* ===== verification/Nami.thy ===== *)
theory Nami
  imports Fio Rdwri
begin

text \<open>
  Path names (\<open>sys/nami.c\<close>, \<open>maknode\<close> and \<open>wdir\<close> of \<open>sys/iget.c\<close>, \<open>owner\<close> of \<open>sys/fio.c\<close>): the walk over the components of a name, the search
  of a directory, and the making of an entry.
\<close>

unbundle bit_operations_syntax

section \<open>The program: the characters of a name\<close>

definition ENOENT :: u8 where "ENOENT = 2"
definition ENOTDIR :: u8 where "ENOTDIR = 20"

type_synonym 'a getch = "'a fil_scheme \<Rightarrow> u16 \<times> 'a fil_scheme"

text \<open>The string of \<open>schar\<close> is in the kernel, whose memory is the segment 1; all of it is accessible.\<close>

definition schar :: "'a getch" where
  "schar s = ((case u_mem s 1 (u_dirp s) of Some b \<Rightarrow> ucast b | None \<Rightarrow> 0), s\<lparr>u_dirp := u_dirp s + 1\<rparr>)"

definition uchar :: "'a getch" where
  "uchar s =
     (case u_mem s 0 (u_dirp s) of
        Some b \<Rightarrow> (ucast b, s\<lparr>u_dirp := u_dirp s + 1\<rparr>)
      | None \<Rightarrow> (- 1, set_err EFAULT (s\<lparr>u_dirp := u_dirp s + 1\<rparr>)))"

text \<open>
  The loops over the characters: \<open>skip_slashes\<close> is \<open>while(c == '/') c = (*func)()\<close>, \<open>gather\<close> collects a component. The count bounds the
  characters, of which a user's memory has no more than \<open>name_fuel\<close>.
\<close>

definition name_fuel :: nat where "name_fuel = 2 ^ 16 + 1"

abbreviation slash :: u16 where "slash \<equiv> 47"
abbreviation bang :: u16 where "bang \<equiv> 33"

fun skip_slashes :: "nat \<Rightarrow> 'a getch \<Rightarrow> u16 \<Rightarrow> 'a fil_scheme \<Rightarrow> (u16, 'a fil_scheme) fres" where
  "skip_slashes 0 func c s = Endless"
| "skip_slashes (Suc n) func c s = (if c = slash then (case func s of (c, s) \<Rightarrow> skip_slashes n func c s) else Ret c s)"

fun gather :: "nat \<Rightarrow> 'a getch \<Rightarrow> u16 \<Rightarrow> u8 list \<Rightarrow> 'a fil_scheme \<Rightarrow> (u16, 'a fil_scheme) fres" where
  "gather 0 func c cs s = Endless"
| "gather (Suc n) func c cs s =
     (if c = slash \<or> c = 0 \<or> u_error s \<noteq> 0 \<or> (mpxip s \<noteq> None \<and> c = bang)
      then Ret c (s\<lparr>u_dbuf := cs @ replicate (DIRSIZ - length cs) 0\<rparr>)
      else case func s of (c', s) \<Rightarrow> gather n func c' (if length cs < DIRSIZ then cs @ [ucast c] else cs) s)"

section \<open>The program: searching a directory\<close>

text \<open>
  From \<open>eloop\<close> on: the search ends at the end of the directory (with the place behind the first empty entry, or 0), at a match, or at an
  error in reading. The count bounds the entries.
\<close>

datatype dirres = Dir_end u32 | Dir_hit | Dir_error

definition release :: "bnode option \<Rightarrow> 'a bio_scheme \<Rightarrow> 'a bio_scheme" where
  "release bo s = (case bo of Some bp \<Rightarrow> brelse bp s | None \<Rightarrow> s)"

definition dir_block :: "'a strat \<Rightarrow> nat \<Rightarrow> bnode option \<Rightarrow> 'a fil_scheme \<Rightarrow> (bnode option, 'a fil_scheme) fres" where
  "dir_block strat dp bo s =
     (if u_offset s AND 0x1FF = 0 then
        fbind (bmap strat dp (signed_drop_bit 9 (u_offset s)) True (release bo s)) (\<lambda>bn s.
        fbind (bread strat (i_dev (inodes s dp)) bn s) (\<lambda>bp s.
          if B_ERROR \<in> b_flags s bp then Ret None (brelse bp s) else Ret (Some bp) s))
      else Ret bo s)"

definition dir_entry :: "bnode \<Rightarrow> 'a fil_scheme \<Rightarrow> 'a fil_scheme" where
  "dir_entry bp s =
     (let d = get_bytes (unat (u_offset s AND 0x1FF)) 16 (b_addr s bp)
      in s\<lparr>u_dent := \<lparr>d_ino = bytes_int (get_bytes 0 2 d), d_name = get_bytes 2 DIRSIZ d\<rparr>, u_offset := u_offset s + 16\<rparr>)"

fun dir_loop :: "nat \<Rightarrow> 'a strat \<Rightarrow> nat \<Rightarrow> u32 \<Rightarrow> bnode option \<Rightarrow> 'a fil_scheme \<Rightarrow> (dirres, 'a fil_scheme) fres" where
  "dir_loop 0 strat dp eo bo s = Endless"
| "dir_loop (Suc k) strat dp eo bo s =
     (if sint (i_size (inodes s dp)) \<le> sint (u_offset s) then Ret (Dir_end eo) (release bo s)
      else fbind (dir_block strat dp bo s) (\<lambda>bo s.
        case bo of
          None \<Rightarrow> Ret Dir_error s
        | Some bp \<Rightarrow>
            let s = dir_entry bp s in
            if d_ino (u_dent s) = 0 then dir_loop k strat dp (if eo = 0 then u_offset s else eo) (Some bp) s
            else if u_dbuf s \<noteq> d_name (u_dent s) then dir_loop k strat dp eo (Some bp) s
            else Ret Dir_hit (brelse bp s)))"

definition dir_fuel :: "nat \<Rightarrow> 'a fil_scheme \<Rightarrow> nat" where
  "dir_fuel dp s = unat (i_size (inodes s dp)) div 16 + 2"

section \<open>The program: namei\<close>

text \<open>
  One component: what is behind \<open>seloop\<close>. The result is a return from \<open>namei\<close>, or one of the jumps: to \<open>cloop\<close> with the i-node that was
  found, or back to \<open>seloop\<close> with the directory a file system is mounted on.
\<close>

datatype step = Done "nat option" | To_cloop nat | To_seloop nat

definition namei_out :: "'a strat \<Rightarrow> nat \<Rightarrow> 'a fil_scheme \<Rightarrow> (step, 'a fil_scheme) fres" where
  "namei_out strat dp s = fbind (iput strat dp s) (\<lambda>_ s. Ret (Done None) s)"

definition namei_end :: "'a strat \<Rightarrow> u16 \<Rightarrow> nat \<Rightarrow> u16 \<Rightarrow> u32 \<Rightarrow> 'a fil_scheme \<Rightarrow> (step, 'a fil_scheme) fres" where
  "namei_end strat flag dp c eo s =
     (if flag = 1 \<and> c = 0 then
        fbind (access strat dp IWRITE s) (\<lambda>denied s.
          if denied then namei_out strat dp s
          else
            let s = s\<lparr>u_pdir := dp\<rparr> in
            Ret (Done None)
              (if eo \<noteq> 0 then s\<lparr>u_offset := eo - 16\<rparr> else i_upd dp (\<lambda>ip. ip\<lparr>i_flag := i_flag ip \<union> {IUPD, ICHG}\<rparr>) s))
      else namei_out strat dp (set_err ENOENT s))"

definition mounted_on :: "'a fil_scheme \<Rightarrow> u16 \<Rightarrow> nat option" where
  "mounted_on s d = find (\<lambda>j. m_bufp (mounts s j) \<noteq> None \<and> m_dev (mounts s j) = d) [1..<NMOUNT]"

definition namei_hit :: "'a strat \<Rightarrow> u16 \<Rightarrow> nat \<Rightarrow> u16 \<Rightarrow> 'a fil_scheme \<Rightarrow> (step, 'a fil_scheme) fres" where
  "namei_hit strat flag dp c s =
     (if flag = 2 \<and> c = 0 then
        fbind (access strat dp IWRITE s) (\<lambda>denied s. if denied then namei_out strat dp s else Ret (Done (Some dp)) s)
      else
        let d = i_dev (inodes s dp) in
        case (if d_ino (u_dent s) = ROOTINO \<and> i_number (inodes s dp) = ROOTINO \<and> d_name (u_dent s) ! 1 = 46 then mounted_on s d else None) of
          Some j \<Rightarrow>
            fbind (iput strat dp s) (\<lambda>_ s.
              case m_inodp (mounts s j) of
                None \<Rightarrow> Wild
              | Some mp \<Rightarrow>
                  fbind (plock mp (i_upd mp (\<lambda>ip. ip\<lparr>i_count := i_count ip + 1\<rparr>) s)) (\<lambda>_ s. Ret (To_seloop mp) s))
        | None \<Rightarrow>
            fbind (iput strat dp s) (\<lambda>_ s.
            fbind (iget strat d (d_ino (u_dent s)) s) (\<lambda>r s.
              case r of None \<Rightarrow> Ret (Done None) s | Some ip \<Rightarrow> Ret (To_cloop ip) s)))"

definition namei_comp :: "'a strat \<Rightarrow> u16 \<Rightarrow> nat \<Rightarrow> u16 \<Rightarrow> 'a fil_scheme \<Rightarrow> (step, 'a fil_scheme) fres" where
  "namei_comp strat flag dp c s =
     fbind (access strat dp IEXEC (if i_mode (inodes s dp) AND IFMT \<noteq> IFDIR then set_err ENOTDIR s else s)) (\<lambda>_ s.
       if u_error s \<noteq> 0 then namei_out strat dp s
       else fbind (dir_loop (dir_fuel dp s) strat dp 0 None (s\<lparr>u_offset := 0, u_segflg := 1\<rparr>)) (\<lambda>r s.
         case r of
           Dir_end eo \<Rightarrow> namei_end strat flag dp c eo s
         | Dir_hit \<Rightarrow> namei_hit strat flag dp c s
         | Dir_error \<Rightarrow> namei_out strat dp s))"

text \<open>The rounds from \<open>seloop\<close>: one more for each file system whose root is left through \<open>..\<close>.\<close>

fun seloop :: "nat \<Rightarrow> 'a strat \<Rightarrow> u16 \<Rightarrow> nat \<Rightarrow> u16 \<Rightarrow> 'a fil_scheme \<Rightarrow> (step, 'a fil_scheme) fres" where
  "seloop 0 strat flag dp c s = Endless"
| "seloop (Suc k) strat flag dp c s =
     fbind (namei_comp strat flag dp c s) (\<lambda>r s.
       case r of To_seloop mp \<Rightarrow> seloop k strat flag mp c s | _ \<Rightarrow> Ret r s)"

fun cloop :: "nat \<Rightarrow> 'a strat \<Rightarrow> 'a getch \<Rightarrow> u16 \<Rightarrow> nat \<Rightarrow> u16 \<Rightarrow> 'a fil_scheme \<Rightarrow> (nat option, 'a fil_scheme) fres" where
  "cloop 0 strat func flag dp c s = Endless"
| "cloop (Suc k) strat func flag dp c s =
     (if u_error s \<noteq> 0 then fbind (iput strat dp s) (\<lambda>_ s. Ret None s)
      else if c = 0 then Ret (Some dp) s
      else
        fbind (gather name_fuel func c [] s) (\<lambda>c s.
        fbind (skip_slashes name_fuel func c s) (\<lambda>c s.
          case (if c = bang then mpxip s else None) of
            Some mp \<Rightarrow>
              fbind (iput strat dp s) (\<lambda>_ s.
              fbind (plock mp s) (\<lambda>_ s. Ret (Some mp) (i_upd mp (\<lambda>ip. ip\<lparr>i_count := i_count ip + 1\<rparr>) s)))
          | None \<Rightarrow>
              fbind (seloop (NMOUNT + 1) strat flag dp c s) (\<lambda>r s.
                case r of
                  Done x \<Rightarrow> Ret x s
                | To_cloop ip \<Rightarrow> cloop k strat func flag ip c s
                | To_seloop ip \<Rightarrow> Endless))))"

definition namei :: "'a strat \<Rightarrow> 'a getch \<Rightarrow> u16 \<Rightarrow> 'a fil_scheme \<Rightarrow> (nat option, 'a fil_scheme) fres" where
  "namei strat func flag s =
     (case func s of (c, s) \<Rightarrow>
        let dp = (if c = slash then case u_rdir s of Some r \<Rightarrow> r | None \<Rightarrow> rootdir s else u_cdir s) in
        fbind (iget strat (i_dev (inodes s dp)) (i_number (inodes s dp)) s) (\<lambda>_ s.
        fbind (skip_slashes name_fuel func c s) (\<lambda>c s.
          cloop name_fuel strat func flag dp c (if c = 0 \<and> flag \<noteq> 0 then set_err ENOENT s else s))))"

text \<open>\<open>seloop\<close> has no result \<open>To_seloop\<close>: its rounds go on with it.\<close>

definition owner :: "'a strat \<Rightarrow> 'a fil_scheme \<Rightarrow> (nat option, 'a fil_scheme) fres" where
  "owner strat s =
     fbind (namei strat uchar 0 s) (\<lambda>r s.
       case r of
         None \<Rightarrow> Ret None s
       | Some i \<Rightarrow>
           if u_uid s = i_uid (inodes s i) then Ret (Some i) s
           else case suser s of (p, s) \<Rightarrow> if p then Ret (Some i) s else fbind (iput strat i s) (\<lambda>_ s. Ret None s))"

section \<open>The program: making an entry\<close>

text \<open>\<open>u_dent\<close> is in the kernel's memory at \<open>a_dent\<close>, from where \<open>writei\<close> takes it.\<close>

definition dent_bytes :: "direct \<Rightarrow> u8 list" where
  "dent_bytes d = int_bytes (d_ino d) @ d_name d"

definition dent_to_io :: "'a fil_scheme \<Rightarrow> 'a fil_scheme" where
  "dent_to_io s = s\<lparr>u_count := 16, u_base := a_dent s, u_mem := (u_mem s)(1 := put_mem (a_dent s) (dent_bytes (u_dent s)) (u_mem s 1))\<rparr>"

section \<open>Searching a directory\<close>

text \<open>The entries of a directory, read off the bytes of its file.\<close>

definition dirent :: "u8 list \<Rightarrow> direct" where
  "dirent d = \<lparr>d_ino = bytes_int (get_bytes 0 2 d), d_name = get_bytes 2 DIRSIZ d\<rparr>"

definition entry :: "'a ino_scheme \<Rightarrow> nat \<Rightarrow> nat \<Rightarrow> direct" where
  "entry s dp k = dirent (file_bytes (cont s (i_dev (inodes s dp))) (i_addr (inodes s dp)) (16 * k) 16)"

definition first_entry :: "(direct \<Rightarrow> bool) \<Rightarrow> 'a ino_scheme \<Rightarrow> nat \<Rightarrow> nat \<Rightarrow> nat \<Rightarrow> nat option" where
  "first_entry P s dp j n = find (\<lambda>k. P (entry s dp k)) [j..<n]"

lemma first_entry_simps:
  "n \<le> j \<Longrightarrow> first_entry P s dp j n = None"
  "j < n \<Longrightarrow> first_entry P s dp j n = (if P (entry s dp j) then Some j else first_entry P s dp (Suc j) n)"
  by (simp_all add: first_entry_def upt_conv_Cons)

text \<open>Up to the cache, the offset, the entry and the block of the read ahead, \<open>t\<close> is \<open>s\<close>.\<close>

definition cleared :: "'a fil_scheme \<Rightarrow> 'a fil_scheme" where
  "cleared s = s\<lparr>u_offset := 0, rablock := 0, u_dent := \<lparr>d_ino = 0, d_name = []\<rparr>\<rparr>"

definition searched :: "bnode set \<Rightarrow> 'a fil_scheme \<Rightarrow> 'a fil_scheme \<Rightarrow> bool" where
  "searched H s t \<longleftrightarrow> cont t = cont s \<and> (\<forall>c \<in> H. same_buf c s t) \<and> bio_only (cleared s) (cleared t)"

lemma searched_refl [simp]: "searched H s s" by (simp add: searched_def same_buf_def)

lemma searched_trans: "searched H s t \<Longrightarrow> searched H t u \<Longrightarrow> searched H s u"
  unfolding searched_def by (elim conjE, intro conjI ballI) (simp, rule same_buf_trans, blast, blast, rule bio_only_trans)

lemma searched_bio: "bio_only s t \<Longrightarrow> cont t = cont s \<Longrightarrow> (\<And>c. c \<in> H \<Longrightarrow> same_buf c s t) \<Longrightarrow> searched H s t"
  by (cases s; cases t) (simp add: searched_def bio_only_def cleared_def)

lemma searched_look: "look_only H s t \<Longrightarrow> searched H s t"
proof -
  assume "look_only H s t"
  then have "bio_only (s\<lparr>rablock := 0\<rparr>) (t\<lparr>rablock := 0\<rparr>)" "cont t = cont s" "\<forall>c \<in> H. same_buf c s t" by (simp_all add: look_only_def)
  then show ?thesis by (cases s; cases t) (simp add: searched_def bio_only_def cleared_def)
qed

lemma searched_entry [simp]: "searched H s (t\<lparr>u_dent := d, u_offset := x\<rparr>) = searched H s t"
  by (simp add: searched_def cleared_def)

lemma searched_same:
  assumes "searched H s t"
  shows "inodes t = inodes s" "usable t = usable s" "u_dbuf t = u_dbuf s" "u_error t = u_error s" "mounts t = mounts s" "cont t = cont s"
proof -
  have b: "bio_only (cleared s) (cleared t)" using assms by (simp add: searched_def)
  have "usable (cleared t) = usable (cleared s)" by (rule usable_cong [OF b])
  then show "usable t = usable s" by (simp add: cleared_def)
  show "cont t = cont s" using assms by (simp add: searched_def)
  show "inodes t = inodes s" "u_dbuf t = u_dbuf s" "u_error t = u_error s" "mounts t = mounts s"
    using b by (cases s; cases t; simp add: bio_only_def cleared_def)+
qed

text \<open>The buffer \<open>bp\<close> holds the block \<open>q\<close> of the directory.\<close>

definition at_block :: "bnode set \<Rightarrow> nat \<Rightarrow> nat \<Rightarrow> bnode \<Rightarrow> 'a fil_scheme \<Rightarrow> bool" where
  "at_block H dp q bp s \<longleftrightarrow>
     (let dev = i_dev (inodes s dp); b = file_block (cont s dev) (i_addr (inodes s dp)) q in
      bp \<notin> H \<and> binv s (insert bp H) \<and> b_dev s bp = dev \<and> b_blkno s bp = b \<and> b_addr s bp = cont s dev b)"

definition in_hand :: "bnode set \<Rightarrow> nat \<Rightarrow> nat \<Rightarrow> bnode option \<Rightarrow> 'a fil_scheme \<Rightarrow> bool" where
  "in_hand H dp q bo s \<longleftrightarrow> (case bo of None \<Rightarrow> binv s H | Some bp \<Rightarrow> at_block H dp q bp s)"

lemma release_keeps:
  assumes "in_hand H dp q bo s"
  shows "binv (release bo s) H" "searched H s (release bo s)" "u_offset (release bo s) = u_offset s" "u_dent (release bo s) = u_dent s"
proof -
  have "binv (release bo s) H \<and> searched H s (release bo s) \<and> bio_only s (release bo s)"
  proof (cases bo)
    case None
    then show ?thesis using assms by (simp add: in_hand_def release_def)
  next
    case (Some bp)
    then have b: "bp \<notin> H" "binv s (insert bp H)" "b_addr s bp = cont s (b_dev s bp) (b_blkno s bp)"
      using assms by (simp_all add: in_hand_def at_block_def Let_def)
    note R = brelse_keeps [OF b(2) insertI1 b(3)]
    have "insert bp H - {bp} = H" using b(1) by blast
    moreover have "same_buf c s (brelse bp s)" if "c \<in> H" for c by (rule R(4)) (use that b(1) in blast)
    ultimately show ?thesis using R(1-3) searched_bio [OF R(3,2)] Some by (simp add: release_def)
  qed
  moreover have "u_dent (release bo s) = u_dent s" if "bio_only s (release bo s)" using bio_only_ino [OF that] by (cases s; cases "release bo s") simp
  ultimately show "binv (release bo s) H" "searched H s (release bo s)" "u_offset (release bo s) = u_offset s" "u_dent (release bo s) = u_dent s"
    by (simp_all add: bio_only_def)
qed

lemma dir_block_reads:
  assumes st: "sync_driver strat" and i: "H \<noteq> pool" "usable s (i_dev (inodes s dp))" "\<forall>c \<in> H. b_dev s c \<noteq> i_dev (inodes s dp)"
    and o: "unat (u_offset s) < 2 ^ 31" "unat (u_offset s) div 512 < max_blocks"
    and nz: "file_block (cont s (i_dev (inodes s dp))) (i_addr (inodes s dp)) (unat (u_offset s) div 512) \<noteq> 0"
    and h: "in_hand H dp q bo s" "unat (u_offset s) mod 512 \<noteq> 0 \<Longrightarrow> bo \<noteq> None \<and> q = unat (u_offset s) div 512"
  shows "fpost (dir_block strat dp bo s) (\<lambda>r t. \<exists>bp. r = Some bp \<and> at_block H dp (unat (u_offset s) div 512) bp t \<and> searched H s t \<and>
    u_offset t = u_offset s)"
proof (cases "unat (u_offset s) mod 512 = 0")
  case False
  then obtain bp where bp: "bo = Some bp" "q = unat (u_offset s) div 512" using h(2) by auto
  have "u_offset s AND 0x1FF \<noteq> 0" using False offset_parts(2) [OF o(1)] by auto
  then show ?thesis using h(1) bp by (simp add: dir_block_def in_hand_def)
next
  case True
  define v where "v = release bo s"
  note R = release_keeps [OF h(1), folded v_def]
  note S = searched_same [OF R(2)]
  let ?dev = "i_dev (inodes s dp)" and ?k = "unat (u_offset s) div 512"
  let ?b = "file_block (cont s ?dev) (i_addr (inodes s dp)) ?k"
  have z: "u_offset s AND 0x1FF = 0" using True offset_parts(2) [OF o(1)] by (simp add: unat_eq_zero)
  have nd: "\<forall>c \<in> H. b_dev v c \<noteq> i_dev (inodes v dp)" using R(2) i(3) by (auto simp: S searched_def same_buf_def)
  have "fpost (bmap strat dp (signed_drop_bit 9 (u_offset s)) True v) (\<lambda>x t. look_only H v t \<and> x = ?b)"
    by (rule fpost_mono [OF bmap_reads [OF st R(1) i(1) _ nd offset_parts(1) [OF o(1), symmetric] o(2) refl]]) (use i(2) nz in \<open>simp_all add: S\<close>)
  then have "fpost (fbind (bmap strat dp (signed_drop_bit 9 (u_offset s)) True v) (\<lambda>bn s.
        fbind (bread strat (i_dev (inodes s dp)) bn s) (\<lambda>bp s.
          if B_ERROR \<in> b_flags s bp then Ret None (brelse bp s) else Ret (Some bp) s)))
      (\<lambda>r t. \<exists>bp. r = Some bp \<and> at_block H dp ?k bp t \<and> searched H s t \<and> u_offset t = u_offset s)"
  proof (intro fpost_bind, elim fpost_mono, elim conjE)
    fix x t assume t: "look_only H v t" "x = ?b"
    note L = look_only_same [OF t(1)]
    have nh: "\<forall>c \<in> H. \<not> (b_dev t c = i_dev (inodes t dp) \<and> b_blkno t c = x)" using nd L(1,9) by simp
    show "fpost (fbind (bread strat (i_dev (inodes t dp)) x t) (\<lambda>bp s.
          if B_ERROR \<in> b_flags s bp then Ret None (brelse bp s) else Ret (Some bp) s))
        (\<lambda>r t. \<exists>bp. r = Some bp \<and> at_block H dp ?k bp t \<and> searched H s t \<and> u_offset t = u_offset s)"
    proof (rule fpost_bind, rule fpost_mono [OF bread_keeps [OF st L(11) i(1) _ nh]])
      show "usable t (i_dev (inodes t dp))" using i(2) L(1,2) S by simp
      fix bp u assume u: "got (i_dev (inodes t dp)) x H t bp u \<and> b_addr u bp = cont t (i_dev (inodes t dp)) x"
      then have g: "binv u (insert bp H)" "bio_only t u" "cont u = cont t" "bp \<notin> H" "b_dev u bp = ?dev" "b_blkno u bp = x" "\<And>c. c \<in> H \<Longrightarrow> same_buf c t u"
        using L(1) S(1) by (simp_all add: got_def)
      have "B_ERROR \<notin> b_flags u bp" by (rule held_flags(3) [OF g(1) insertI1])
      moreover have iu: "inodes u = inodes s" "cont u = cont s" "u_offset u = u_offset s"
        using bio_only_ino [OF g(2)] L(1,5,10) S(1,6) g(2,3) R(3) by (simp_all add: bio_only_def)
      moreover have "at_block H dp ?k bp u" using g u t(2) iu L(1,10) S(1,6) by (simp add: at_block_def)
      moreover have "searched H t u" by (rule searched_bio [OF g(2,3,7)])
      then have "searched H s u" using R(2) searched_look [OF t(1)] searched_trans by blast
      ultimately show "fpost (if B_ERROR \<in> b_flags u bp then Ret None (brelse bp u) else Ret (Some bp) u)
        (\<lambda>r t. \<exists>bp. r = Some bp \<and> at_block H dp ?k bp t \<and> searched H s t \<and> u_offset t = u_offset s)" by simp
    qed
  qed
  then show ?thesis unfolding dir_block_def v_def z by simp
qed
lemma dir_entry_reads:
  assumes b: "at_block H dp (16 * j div 512) bp s" and o: "unat (u_offset s) = 16 * j" "16 * j < 2 ^ 31"
    and nz: "file_block (cont s (i_dev (inodes s dp))) (i_addr (inodes s dp)) (16 * j div 512) \<noteq> 0"
  shows "dir_entry bp s = s\<lparr>u_dent := entry s dp j, u_offset := u_offset s + 16\<rparr>"
proof -
  let ?c = "cont s (i_dev (inodes s dp))" and ?a = "i_addr (inodes s dp)"
  let ?b = "file_block ?c ?a (16 * j div 512)"
  have B: "binv s (insert bp H)" "b_addr s bp = ?c ?b" using b by (simp_all add: at_block_def Let_def)
  have "length (b_addr s bp) = BSIZE" by (rule binv_len(1) [OF B(1)]) (use B(1) binvD(1) in blast)
  then have l: "length (?c ?b) = BSIZE" using B(2) by simp
  have "16 * j mod 512 = 16 * (j mod 32)" using mult_mod_right [of 16 j 32] by simp
  moreover have "j mod 32 < 32" by simp
  ultimately have m: "16 * j mod 512 + 16 \<le> 512" by linarith
  have "file_bytes ?c ?a (16 * j) 16 = take 16 (drop (16 * j mod 512) (?c ?b))"
    using file_bytes_block [OF m, of ?c ?b ?a] l nz by simp
  then have "get_bytes (unat (u_offset s AND 0x1FF)) 16 (b_addr s bp) = file_bytes ?c ?a (16 * j) 16"
    using offset_parts(2) [of "u_offset s"] o B(2) by (simp add: get_bytes_def)
  then show ?thesis by (simp add: dir_entry_def Let_def entry_def dirent_def)
qed

lemma entry_searched: "searched H s t \<Longrightarrow> entry t dp = entry s dp"
  using searched_same [of H s t] by (intro ext) (simp add: entry_def)

lemma of_nat_offset: "unat w = N \<Longrightarrow> w = of_nat N" for w :: u32
  by (drule sym) simp

lemma dir_loop_finds:
  assumes st: "sync_driver strat" and i: "H \<noteq> pool" "usable s (i_dev (inodes s dp))" "\<forall>c \<in> H. b_dev s c \<noteq> i_dev (inodes s dp)"
    and n: "unat (i_size (inodes s dp)) = 16 * n" "16 * n < 2 ^ 31" "16 * n \<le> 512 * max_blocks"
    and nz: "\<And>k. k < n \<Longrightarrow> file_block (cont s (i_dev (inodes s dp))) (i_addr (inodes s dp)) (16 * k div 512) \<noteq> 0"
    and h: "in_hand H dp q bo s" "16 * j mod 512 \<noteq> 0 \<Longrightarrow> bo \<noteq> None \<and> q = 16 * j div 512"
    and j: "unat (u_offset s) = 16 * j" "j \<le> n" "n - j < k"
  shows "fpost (dir_loop k strat dp eo bo s) (\<lambda>r t. binv t H \<and> searched H s t \<and>
    (case first_entry (\<lambda>d. d_ino d \<noteq> 0 \<and> d_name d = u_dbuf s) s dp j n of
       Some m \<Rightarrow> r = Dir_hit \<and> u_dent t = entry s dp m \<and> unat (u_offset t) = 16 * m + 16
     | None \<Rightarrow> unat (u_offset t) = 16 * n \<and>
         r = Dir_end (if eo \<noteq> 0 then eo else case first_entry (\<lambda>d. d_ino d = 0) s dp j n of Some m \<Rightarrow> of_nat (16 * m + 16) | None \<Rightarrow> 0)))"
  using i n nz h j
proof (induction k arbitrary: j s bo q eo)
  case (Suc k)
  note P = Suc.prems
  have so: "sint (u_offset s) = int (16 * j)" "sint (i_size (inodes s dp)) = int (16 * n)"
    using sint_unat32 [of "u_offset s"] sint_unat32 [of "i_size (inodes s dp)"] P(4,5,10,11) by simp_all
  show ?case
  proof (cases "j < n")
    case False
    then have jn: "j = n" using P(11) by simp
    have "sint (i_size (inodes s dp)) \<le> sint (u_offset s)" unfolding so jn by simp
    then show ?thesis using release_keeps [OF P(8)] P(10) jn by (simp add: first_entry_simps)
  next
    case True
    have ne: "\<not> sint (i_size (inodes s dp)) \<le> sint (u_offset s)" unfolding so using True by simp
    have o: "unat (u_offset s) < 2 ^ 31" "unat (u_offset s) div 512 < max_blocks"
      using True P(5,6,10) by (simp_all add: less_mult_imp_div_less)
    define R where "R = (\<lambda>r t. binv t H \<and> searched H s t \<and>
      (case first_entry (\<lambda>d. d_ino d \<noteq> 0 \<and> d_name d = u_dbuf s) s dp j n of
         Some m \<Rightarrow> r = Dir_hit \<and> u_dent t = entry s dp m \<and> unat (u_offset t) = 16 * m + 16
       | None \<Rightarrow> unat (u_offset t) = 16 * n \<and>
           r = Dir_end (if eo \<noteq> 0 then eo else case first_entry (\<lambda>d. d_ino d = 0) s dp j n of Some m \<Rightarrow> of_nat (16 * m + 16) | None \<Rightarrow> 0)))"
    have "fpost (dir_block strat dp bo s) (\<lambda>r t. \<exists>bp. r = Some bp \<and> at_block H dp (16 * j div 512) bp t \<and> searched H s t \<and> u_offset t = u_offset s)"
      using dir_block_reads [OF st P(1-3) o, of q bo] P(7) [OF True] P(8,9) unfolding P(10) by blast
    then have "fpost (fbind (dir_block strat dp bo s) (\<lambda>bo s.
        case bo of
          None \<Rightarrow> Ret Dir_error s
        | Some bp \<Rightarrow>
            let s = dir_entry bp s in
            if d_ino (u_dent s) = 0 then dir_loop k strat dp (if eo = 0 then u_offset s else eo) (Some bp) s
            else if u_dbuf s \<noteq> d_name (u_dent s) then dir_loop k strat dp eo (Some bp) s
            else Ret Dir_hit (brelse bp s))) R"
    proof (intro fpost_bind, elim fpost_mono, elim exE conjE)
      fix r t bp
      assume t: "r = Some bp" "at_block H dp (16 * j div 512) bp t" "searched H s t" "u_offset t = u_offset s"
      note S = searched_same [OF t(3)]
      have de: "dir_entry bp t = t\<lparr>u_dent := entry s dp j, u_offset := u_offset s + 16\<rparr>"
        using dir_entry_reads [OF t(2)] P(5,7,10) True S(1,6) t(4) entry_searched [OF t(3)] by simp
      define v where "v = dir_entry bp t"
      have v: "searched H s v" "u_dent v = entry s dp j" "at_block H dp (16 * j div 512) bp v"
        using t(2,3) by (simp_all add: v_def de at_block_def Let_def)
      note V = searched_same [OF v(1)]
      have uv: "unat (u_offset v) = 16 * Suc j"
        using P(5,10) True unfolding v_def de by (simp add: unat_word_ariths(1))
      have st: "Suc j \<le> n" "n - Suc j < k" "in_hand H dp (16 * j div 512) (Some bp) v" using True P(12) v(3) by (simp_all add: in_hand_def)
      have hq: "16 * Suc j mod 512 \<noteq> 0 \<Longrightarrow> Some bp \<noteq> None \<and> 16 * j div 512 = 16 * Suc j div 512"
      proof -
        assume "16 * Suc j mod 512 \<noteq> 0"
        then have "Suc j mod 32 \<noteq> 0" using mult_mod_right [of 16 "Suc j" 32] by simp
        then have "Suc j div 32 = j div 32" by (simp add: div_Suc)
        then show ?thesis using div_mult_mult1 [of 16 j 32] div_mult_mult1 [of 16 "Suc j" 32] by simp
      qed
      have nd: "\<forall>c \<in> H. b_dev v c \<noteq> i_dev (inodes v dp)" using v(1) P(3) by (simp add: V searched_def same_buf_def)
      have rec: "fpost (dir_loop k strat dp eo' (Some bp) v) R"
        if no: "\<not> (d_ino (entry s dp j) \<noteq> 0 \<and> d_name (entry s dp j) = u_dbuf s)"
          and e: "eo' = (if eo \<noteq> 0 \<or> d_ino (entry s dp j) \<noteq> 0 then eo else u_offset v)" for eo'
      proof (rule fpost_mono [OF Suc.IH [where s = v and j = "Suc j" and eo = eo' and q = "16 * j div 512", OF P(1) _ nd _ P(5,6) _ st(3) hq uv st(1,2)]])
        show "usable v (i_dev (inodes v dp))" "unat (i_size (inodes v dp)) = 16 * n" using P(2,4) by (simp_all add: V)
        show "file_block (cont v (i_dev (inodes v dp))) (i_addr (inodes v dp)) (16 * k div 512) \<noteq> 0" if "k < n" for k using P(7) [OF that] by (simp add: V)
        have fv: "first_entry Q v dp (Suc j) n = first_entry Q s dp (Suc j) n" for Q using entry_searched [OF v(1)] by (simp add: first_entry_def)
        have uo: "u_offset v = of_nat (16 * j + 16)" by (rule of_nat_offset) (use uv in simp)
        have "u_offset v \<noteq> 0" using uv by auto
        moreover fix r u
        assume "binv u H \<and> searched H v u \<and>
          (case first_entry (\<lambda>d. d_ino d \<noteq> 0 \<and> d_name d = u_dbuf v) v dp (Suc j) n of
             Some m \<Rightarrow> r = Dir_hit \<and> u_dent u = entry v dp m \<and> unat (u_offset u) = 16 * m + 16
           | None \<Rightarrow> unat (u_offset u) = 16 * n \<and>
               r = Dir_end (if eo' \<noteq> 0 then eo' else case first_entry (\<lambda>d. d_ino d = 0) v dp (Suc j) n of Some m \<Rightarrow> of_nat (16 * m + 16) | None \<Rightarrow> 0))"
        ultimately show "R r u"
          using no e uo True searched_trans [OF v(1), of u] unfolding R_def fv V entry_searched [OF v(1)]
          by (cases "d_ino (entry s dp j) = 0") (simp_all add: first_entry_simps split: option.splits)
      qed
      have ub: "u_dbuf v = u_dbuf s" by (rule V)
      show "fpost (case r of
          None \<Rightarrow> Ret Dir_error t
        | Some bp \<Rightarrow>
            let s = dir_entry bp t in
            if d_ino (u_dent s) = 0 then dir_loop k strat dp (if eo = 0 then u_offset s else eo) (Some bp) s
            else if u_dbuf s \<noteq> d_name (u_dent s) then dir_loop k strat dp eo (Some bp) s
            else Ret Dir_hit (brelse bp s)) R"
      proof (cases "d_ino (entry s dp j) \<noteq> 0 \<and> d_name (entry s dp j) = u_dbuf s")
        case True
        note K = release_keeps [OF st(3)]
        have "R Dir_hit (brelse bp v)"
          using K True \<open>j < n\<close> searched_trans [OF v(1) K(2)] v(2) uv unfolding R_def by (simp add: first_entry_simps release_def)
        then show ?thesis using True unfolding t(1) by (simp add: v_def [symmetric] v(2) ub)
      next
        case False
        then show ?thesis using rec [OF False] unfolding t(1) by (auto simp: v_def [symmetric] v(2) ub Let_def)
      qed
    qed
    then show ?thesis using ne by (simp add: R_def)
  qed
qed simp
lemma search_finds:
  assumes st: "sync_driver strat" and i: "binv s H" "H \<noteq> pool" "usable s (i_dev (inodes s dp))" "\<forall>c \<in> H. b_dev s c \<noteq> i_dev (inodes s dp)"
    and n: "unat (i_size (inodes s dp)) = 16 * n" "16 * n < 2 ^ 31" "16 * n \<le> 512 * max_blocks"
    and nz: "\<And>k. k < n \<Longrightarrow> file_block (cont s (i_dev (inodes s dp))) (i_addr (inodes s dp)) (16 * k div 512) \<noteq> 0"
    and o: "u_offset s = 0"
  shows "fpost (dir_loop (dir_fuel dp s) strat dp 0 None s) (\<lambda>r t. binv t H \<and> searched H s t \<and>
    (case first_entry (\<lambda>d. d_ino d \<noteq> 0 \<and> d_name d = u_dbuf s) s dp 0 n of
       Some m \<Rightarrow> r = Dir_hit \<and> u_dent t = entry s dp m \<and> unat (u_offset t) = 16 * m + 16
     | None \<Rightarrow> unat (u_offset t) = 16 * n \<and>
         r = Dir_end (case first_entry (\<lambda>d. d_ino d = 0) s dp 0 n of Some m \<Rightarrow> of_nat (16 * m + 16) | None \<Rightarrow> 0)))"
proof -
  have "in_hand H dp 0 None s" "unat (u_offset s) = 16 * 0" "n - 0 < dir_fuel dp s" using i(1) o n(1) by (simp_all add: in_hand_def dir_fuel_def)
  note F = dir_loop_finds [OF st i(2-4) n nz this(1) _ this(2) _ this(3), of 0]
  show ?thesis by (rule fpost_mono [OF F]) (simp_all split: option.splits)
qed

section \<open>The properties\<close>

text \<open>
  C7. The search of a directory. For a directory whose size is a multiple of 16 and that has no holes, the loop of \<open>namei\<close> ends: at the first entry
  that is in use and has the name in \<open>u_dbuf\<close>, with that entry in \<open>u_dent\<close> and \<open>u_offset\<close> behind it; or, when there is none, at the end of the
  directory, with the place behind the first empty entry if there is one, where \<open>creat\<close> will put the new name. The entries are those of
  the bytes of the file, read through \<open>bmap\<close> and the buffer cache block by block; the buffer is given back, and nothing but the cache, the
  offset and the entry has changed.
\<close>

theorem directory_search:
  assumes st: "sync_driver strat" and i: "binv s H" "H \<noteq> pool" "usable s (i_dev (inodes s dp))" "\<forall>c \<in> H. b_dev s c \<noteq> i_dev (inodes s dp)"
    and n: "unat (i_size (inodes s dp)) = 16 * n" "16 * n < 2 ^ 31" "16 * n \<le> 512 * max_blocks"
    and nz: "\<And>k. k < n \<Longrightarrow> file_block (cont s (i_dev (inodes s dp))) (i_addr (inodes s dp)) (16 * k div 512) \<noteq> 0"
    and o: "u_offset s = 0"
  shows "fpost (dir_loop (dir_fuel dp s) strat dp 0 None s) (\<lambda>r t. binv t H \<and> searched H s t \<and>
    (case first_entry (\<lambda>d. d_ino d \<noteq> 0 \<and> d_name d = u_dbuf s) s dp 0 n of
       Some m \<Rightarrow> r = Dir_hit \<and> u_dent t = entry s dp m \<and> unat (u_offset t) = 16 * m + 16
     | None \<Rightarrow> unat (u_offset t) = 16 * n \<and>
         r = Dir_end (case first_entry (\<lambda>d. d_ino d = 0) s dp 0 n of Some m \<Rightarrow> of_nat (16 * m + 16) | None \<Rightarrow> 0)))"
  using search_finds [OF assms] by simp

section \<open>Demonstration\<close>

text \<open>A directory of three blocks: entries named by bytes 7, empty entries, entries named by bytes 8.\<close>

definition demo_dir :: "u8 \<Rightarrow> fil" where
  "demo_dir b = demo_fil\<lparr>inodes := \<lambda>_. demo_inode\<lparr>i_mode := IFDIR, i_size := 1536, i_addr := [7, 256, 8] @ replicate 10 0\<rparr>, u_dbuf := replicate 14 b, u_offset := 0\<rparr>"

lemma demo_dir_bio:
  "binv (demo_dir b) {}" "usable (demo_dir b) 0" "cont (demo_dir b) = cont demo_bio" "u_offset (demo_dir b) = 0" "u_dbuf (demo_dir b) = replicate 14 b"
  "i_dev (inodes (demo_dir b) dp) = 0" "i_size (inodes (demo_dir b) dp) = 1536" "i_addr (inodes (demo_dir b) dp) = [7, 256, 8] @ replicate 10 0"
  by (simp_all add: demo_dir_def demo_fil_bio demo_inode_def)

lemma demo_dir_block: "k < 96 \<Longrightarrow> file_block c (i_addr (inodes (demo_dir b) dp)) (16 * k div 512) = (if k < 32 then 7 else if k < 64 then 256 else 8)"
proof -
  assume k: "k < 96"
  have e: "16 * k div 512 = k div 32" using div_mult_mult1 [of 16 k 32] by simp
  consider "k < 32" | "32 \<le> k" "k < 64" | "64 \<le> k" by linarith
  then show ?thesis
  proof cases
    case 2
    then have "k div 32 = 1" by (intro div_nat_eqI) simp_all
    then show ?thesis using 2 unfolding e by (simp add: file_block_def demo_dir_bio)
  next
    case 3
    then have "k div 32 = 2" using k by (intro div_nat_eqI) simp_all
    then show ?thesis using 3 unfolding e by (simp add: file_block_def demo_dir_bio)
  qed (simp add: e file_block_def demo_dir_bio)
qed

lemma demo_dir_entry:
  assumes "k < 96"
  shows "entry (demo_dir b) dp k = (let c = (if k < 32 then 7 else if k < 64 then 0 else 8) in \<lparr>d_ino = bytes_int [c, c], d_name = replicate 14 c\<rparr>)"
proof -
  let ?q = "(if k < 32 then 7 else if k < 64 then 256 else 8) :: u32"
  have "16 * k mod 512 = 16 * (k mod 32)" using mult_mod_right [of 16 k 32] by simp
  moreover have "k mod 32 < 32" by simp
  ultimately have m: "16 * k mod 512 + 16 \<le> 512" by linarith
  have q: "file_block (cont demo_bio 0) (i_addr (inodes (demo_dir b) dp)) (16 * k div 512) = ?q" by (rule demo_dir_block [OF assms])
  have "file_bytes (cont demo_bio 0) (i_addr (inodes (demo_dir b) dp)) (16 * k) 16 = take 16 (drop (16 * k mod 512) (cont demo_bio 0 ?q))"
    by (subst file_bytes_block [OF m _ q [symmetric]]) (simp_all add: demo_bio(2) BSIZE_def)
  also have "\<dots> = replicate 16 (of_nat (unat ?q))" using m by (simp add: demo_bio(2) BSIZE_def)
  finally have "file_bytes (cont demo_bio 0) (i_addr (inodes (demo_dir b) dp)) (16 * k) 16 = replicate 16 (if k < 32 then 7 else if k < 64 then 0 else 8)" by auto
  then show ?thesis unfolding entry_def demo_dir_bio dirent_def by (simp add: get_bytes_def DIRSIZ_def Let_def numeral_eq_Suc)
qed

lemma find_interval: "(\<And>k. a \<le> k \<Longrightarrow> k < b \<Longrightarrow> P k = Q) \<Longrightarrow> a < b \<Longrightarrow> find P [a..<b] = (if Q then Some a else None)"
  by (cases Q) (auto simp: upt_conv_Cons find_None_iff)

lemma find_split: "find P (xs @ ys) = (case find P xs of None \<Rightarrow> find P ys | Some x \<Rightarrow> Some x)"
  by (induction xs) simp_all

lemma demo_dir_search:
  "first_entry P (demo_dir b) dp 0 96 =
     (if P \<lparr>d_ino = 0x707, d_name = replicate 14 7\<rparr> then Some 0 else if P \<lparr>d_ino = 0, d_name = replicate 14 0\<rparr> then Some 32
      else if P \<lparr>d_ino = 0x808, d_name = replicate 14 8\<rparr> then Some 64 else None)"
proof -
  have w: "bytes_int [7, 7] = 0x707" "bytes_int [0, 0] = 0" "bytes_int [8, 8] = 0x808" by code_simp+
  have u: "[0..<96] = [0..<32] @ [32..<64] @ [64..<96 :: nat]"
    using upt_add_eq_append [of 0 32 64] upt_add_eq_append [of 32 64 32] by (simp del: upt_rec_numeral)
  let ?f = "\<lambda>k. P (entry (demo_dir b) dp k)"
  have "find ?f [0..<32] = (if P \<lparr>d_ino = 0x707, d_name = replicate 14 7\<rparr> then Some 0 else None)"
    by (rule find_interval) (simp_all add: demo_dir_entry Let_def w)
  moreover have "find ?f [32..<64] = (if P \<lparr>d_ino = 0, d_name = replicate 14 0\<rparr> then Some 32 else None)"
    by (rule find_interval) (simp_all add: demo_dir_entry Let_def w)
  moreover have "find ?f [64..<96] = (if P \<lparr>d_ino = 0x808, d_name = replicate 14 8\<rparr> then Some 64 else None)"
    by (rule find_interval) (simp_all add: demo_dir_entry Let_def w)
  ultimately show ?thesis unfolding first_entry_def u by (simp add: find_split del: upt_rec_numeral)
qed

theorem directory_search_witness:
  "fpost (dir_loop 98 demo_driver 0 0 None (demo_dir 8)) (\<lambda>r t. r = Dir_hit \<and> d_ino (u_dent t) = 0x808 \<and> u_offset t = 1040) \<and>
   fpost (dir_loop 98 demo_driver 0 0 None (demo_dir 9)) (\<lambda>r t. r = Dir_end 528)"
proof -
  have f: "dir_fuel 0 (demo_dir b) = 98" for b by (simp add: dir_fuel_def demo_dir_bio)
  have nz: "file_block (cont (demo_dir b) (i_dev (inodes (demo_dir b) 0))) (i_addr (inodes (demo_dir b) 0)) (16 * k div 512) \<noteq> 0" if "k < 96" for k b
    unfolding demo_dir_block [OF that] by simp
  have s: "unat (i_size (inodes (demo_dir b) 0)) = 16 * 96" for b by (simp add: demo_dir_bio)
  note D = directory_search [where s = "demo_dir b" and dp = 0 and H = "{}" for b, OF demo_driver_sync demo_dir_bio(1) demo_bio(4) _ _ s _ _ nz demo_dir_bio(4), unfolded f demo_dir_search demo_dir_bio(5,6)]
  have "u_offset t = 1040" if "unat (u_offset t) = 1040" for t :: fil using of_nat_offset [OF that] by simp
  moreover have "entry (demo_dir 8) 0 64 = \<lparr>d_ino = bytes_int [8, 8], d_name = replicate 14 8\<rparr>" by (simp add: demo_dir_entry)
  moreover have "bytes_int [8, 8] = 0x808" by code_simp
  ultimately show ?thesis
    by (intro conjI; intro fpost_mono [OF D]) (auto simp: demo_dir_bio max_blocks_def)
qed
section \<open>The components of a name\<close>

definition name_at :: "u16 \<Rightarrow> u8 list \<Rightarrow> 'a uio_scheme \<Rightarrow> bool" where
  "name_at a cs s \<longleftrightarrow> (\<forall>k < length cs. u_mem s 0 (a + of_nat k) = Some (cs ! k))"

lemma name_at_cons: "name_at a (b # bs) s \<longleftrightarrow> u_mem s 0 a = Some b \<and> name_at (a + 1) bs s"
  unfolding name_at_def by (auto simp: less_Suc_eq_0_disj add.assoc)

lemma ucast_char: "(ucast x :: u16) = ucast y \<longleftrightarrow> x = y" for x y :: u8
proof
  assume "(ucast x :: u16) = ucast y"
  then have "ucast (ucast x :: u16) = (ucast (ucast y :: u16) :: u8)" by (rule arg_cong)
  then show "x = y" by simp
qed simp

lemma char_is [simp]: "(ucast x :: u16) = 47 \<longleftrightarrow> x = 47" "(ucast x :: u16) = 0 \<longleftrightarrow> x = 0" for x :: u8
  using ucast_char [of x 47] ucast_char [of x 0] by simp_all

lemma uchar_next: "u_mem s 0 (u_dirp s) = Some b \<Longrightarrow> uchar s = (ucast b, s\<lparr>u_dirp := u_dirp s + 1\<rparr>)"
  by (simp add: uchar_def)

definition padded :: "u8 list \<Rightarrow> u8 list" where
  "padded cs = take DIRSIZ cs @ replicate (DIRSIZ - length cs) 0"

lemma gather_run:
  assumes "name_at (u_dirp s) bs s" "x # bs = cmp @ d # rest" "0 \<notin> set cmp" "47 \<notin> set cmp" "d = 0 \<or> d = 47" "u_error s = 0" "mpxip s = None"
    "length cmp < n" "length acc \<le> DIRSIZ"
  shows "gather n uchar (ucast x) acc s = Ret (ucast d) (s\<lparr>u_dirp := u_dirp s + of_nat (length cmp), u_dbuf := padded (acc @ cmp)\<rparr>)"
  using assms
proof (induction cmp arbitrary: n x bs acc s)
  case Nil
  then obtain k where "n = Suc k" by (cases n) auto
  then show ?case using Nil by (auto simp: padded_def)
next
  case (Cons y cmp)
  then obtain k where k: "n = Suc k" by (cases n) auto
  obtain b bs' where bs: "bs = b # bs'" "b # bs' = cmp @ d # rest" using Cons.prems(2) by (cases bs) auto
  let ?s = "s\<lparr>u_dirp := u_dirp s + 1\<rparr>" and ?acc = "if length acc < DIRSIZ then acc @ [y] else acc"
  have m: "u_mem s 0 (u_dirp s) = Some b" "name_at (u_dirp ?s) bs' ?s" using Cons.prems(1) by (simp_all add: bs(1) name_at_cons) (simp add: name_at_def)
  have xy: "x = y" "y \<noteq> 0" "y \<noteq> 47" using Cons.prems(2-4) by auto
  have "gather n uchar (ucast x) acc s = gather k uchar (ucast b) ?acc ?s"
    using Cons.prems(6,7) xy by (simp add: k uchar_next [OF m(1)])
  also have "\<dots> = Ret (ucast d) (?s\<lparr>u_dirp := u_dirp ?s + of_nat (length cmp), u_dbuf := padded (?acc @ cmp)\<rparr>)"
    by (rule Cons.IH [OF m(2) bs(2)]) (use Cons.prems(3-9) k in auto)
  also have "padded (?acc @ cmp) = padded (acc @ y # cmp)"
  proof (cases "length acc < DIRSIZ")
    case True
    then obtain q where "DIRSIZ = Suc (length acc + q)" using less_imp_Suc_add by blast
    then show ?thesis by (simp add: padded_def)
  qed (use Cons.prems(9) in \<open>simp add: padded_def\<close>)
  finally show ?case by (simp add: add.assoc)
qed

lemma skip_slashes_run:
  assumes "name_at (u_dirp s) bs s" "x # bs = replicate m 47 @ e # rest" "e \<noteq> 47" "m < n"
  shows "skip_slashes n uchar (ucast x) s = Ret (ucast e) (s\<lparr>u_dirp := u_dirp s + of_nat m\<rparr>)"
  using assms
proof (induction m arbitrary: n x bs s)
  case 0
  then obtain k where "n = Suc k" by (cases n) auto
  then show ?case using 0 by simp
next
  case (Suc m)
  then obtain k where k: "n = Suc k" by (cases n) auto
  obtain b bs' where bs: "bs = b # bs'" "b # bs' = replicate m 47 @ e # rest" using Suc.prems(2) by (cases bs) auto
  let ?s = "s\<lparr>u_dirp := u_dirp s + 1\<rparr>"
  have m: "u_mem s 0 (u_dirp s) = Some b" "name_at (u_dirp ?s) bs' ?s" using Suc.prems(1) by (simp_all add: bs(1) name_at_cons) (simp add: name_at_def)
  have "skip_slashes n uchar (ucast x) s = skip_slashes k uchar (ucast b) ?s" using Suc.prems(2) by (simp add: k uchar_next [OF m(1)])
  also have "\<dots> = Ret (ucast e) (?s\<lparr>u_dirp := u_dirp ?s + of_nat m\<rparr>)" by (rule Suc.IH [OF m(2) bs(2)]) (use Suc.prems(3,4) k in simp_all)
  finally show ?case by (simp add: add.assoc)
qed

lemma name_at_suffix:
  assumes "name_at a bs s" "x # bs = pre @ d # zs"
  shows "name_at (a + of_nat (length pre)) zs s"
  unfolding name_at_def
proof (intro allI impI)
  fix k assume k: "k < length zs"
  have "bs ! (length pre + k) = (x # bs) ! (length pre + Suc k)" by simp
  then have "bs ! (length pre + k) = zs ! k" unfolding assms(2) by (simp add: nth_append)
  moreover have "length (x # bs) = length (pre @ d # zs)" using assms(2) by simp
  then have "length pre + k < length bs" using k by simp
  ultimately show "u_mem s 0 (a + of_nat (length pre) + of_nat k) = Some (zs ! k)"
    using assms(1) by (simp add: name_at_def add.assoc flip: of_nat_add)
qed

text \<open>
  The components of a path name. When the character in hand and the string at \<open>u_dirp\<close> in the user's memory begin with a component, free of
  slashes and null characters, and \<open>m\<close> slashes or the end behind it, the two loops of \<open>namei\<close> leave in \<open>u_dbuf\<close> the first 14 characters of the
  component, filled up with null characters, and in \<open>c\<close> the first character behind the slashes: a null character exactly when this was the
  last component, however many slashes follow it. Longer names are cut off without an error.
\<close>

lemma next_component:
  assumes "name_at (u_dirp s) bs s" "x # bs = cmp @ replicate m 47 @ e # rest" "0 \<notin> set cmp" "47 \<notin> set cmp" "e \<noteq> 47" "m = 0 \<longrightarrow> e = 0"
    "u_error s = 0" "mpxip s = None" "length cmp + m \<le> 2 ^ 16"
  shows "fbind (gather name_fuel uchar (ucast x) [] s) (skip_slashes name_fuel uchar) =
    Ret (ucast e) (s\<lparr>u_dirp := u_dirp s + of_nat (length cmp + m), u_dbuf := padded cmp\<rparr>)"
proof -
  obtain d more where d: "replicate m 47 @ e # rest = d # more" "d = 0 \<or> d = 47" using assms(6) by (cases m) auto
  let ?t = "s\<lparr>u_dirp := u_dirp s + of_nat (length cmp), u_dbuf := padded cmp\<rparr>"
  have g: "gather name_fuel uchar (ucast x) [] s = Ret (ucast d) ?t"
    using gather_run [OF assms(1) _ assms(3,4) d(2) assms(7,8), of x more name_fuel "[]"] assms(2,9) d(1) by (simp add: name_fuel_def)
  have "x # bs = cmp @ d # more" using assms(2) d(1) by simp
  from name_at_suffix [OF assms(1) this] have "name_at (u_dirp ?t) more ?t" by (simp add: name_at_def)
  moreover have "m < name_fuel" using assms(9) by (simp add: name_fuel_def)
  ultimately have "skip_slashes name_fuel uchar (ucast d) ?t = Ret (ucast e) (?t\<lparr>u_dirp := u_dirp ?t + of_nat m\<rparr>)"
    using skip_slashes_run [of ?t more d m e rest name_fuel] d(1) assms(5) by simp
  then show ?thesis unfolding g by (simp add: add.assoc)
qed

section \<open>Walking a path\<close>

text \<open>
  The i-node \<open>i\<close> is in core under its device and number, nobody has locked it or waits for it, nothing is mounted on it, and somebody refers to it.
\<close>

definition core :: "'a ino_scheme \<Rightarrow> u16 \<Rightarrow> u16 \<Rightarrow> nat option" where
  "core s dev n = find (\<lambda>i. i_number (inodes s i) = n \<and> i_dev (inodes s i) = dev) [0..<NINODE]"

definition resident :: "'a ino_scheme \<Rightarrow> nat \<Rightarrow> bool" where
  "resident s i \<longleftrightarrow> core s (i_dev (inodes s i)) (i_number (inodes s i)) = Some i \<and> i_flag (inodes s i) \<inter> {ILOCK, IWANT, IMOUNT} = {} \<and> i_count (inodes s i) \<noteq> 0"

text \<open>A directory without holes that the process may search and that is not the root of a file system mounted elsewhere.\<close>

definition searchable :: "'a fil_scheme \<Rightarrow> nat \<Rightarrow> bool" where
  "searchable s i \<longleftrightarrow>
     (let ip = inodes s i; n = unat (i_size ip) div 16 in
      i_mode ip AND IFMT = IFDIR \<and> usable s (i_dev ip) \<and> (u_uid s = 0 \<or> access_mode (u_uid s) (u_gid s) ip IEXEC) \<and>
      unat (i_size ip) = 16 * n \<and> 16 * n < 2 ^ 31 \<and> 16 * n \<le> 512 * max_blocks \<and>
      (\<forall>k < n. file_block (cont s (i_dev ip)) (i_addr ip) (16 * k div 512) \<noteq> 0) \<and>
      (i_number ip = ROOTINO \<longrightarrow> mounted_on s (i_dev ip) = None))"

definition named :: "'a ino_scheme \<Rightarrow> nat \<Rightarrow> u8 list \<Rightarrow> u16 option" where
  "named s i cs =
     map_option (\<lambda>m. d_ino (entry s i m)) (first_entry (\<lambda>d. d_ino d \<noteq> 0 \<and> d_name d = padded cs) s i 0 (unat (i_size (inodes s i)) div 16))"

text \<open>The reference definition of the walk over the components, and where it may go.\<close>

fun walk :: "'a ino_scheme \<Rightarrow> nat \<Rightarrow> u8 list list \<Rightarrow> nat option" where
  "walk s i [] = Some i"
| "walk s i (cs # css) =
     (case named s i cs of
        None \<Rightarrow> None
      | Some n \<Rightarrow> (case core s (i_dev (inodes s i)) n of None \<Rightarrow> None | Some j \<Rightarrow> walk s j css))"

fun walkable :: "'a fil_scheme \<Rightarrow> nat \<Rightarrow> u8 list list \<Rightarrow> bool" where
  "walkable s i [] \<longleftrightarrow> resident s i"
| "walkable s i (cs # css) \<longleftrightarrow> resident s i \<and> searchable s i \<and>
     (case named s i cs of
        None \<Rightarrow> True
      | Some n \<Rightarrow> (case core s (i_dev (inodes s i)) n of None \<Rightarrow> False | Some j \<Rightarrow> walkable s j css))"

text \<open>A path as components, each with the number of slashes behind it.\<close>

fun render :: "(u8 list \<times> nat) list \<Rightarrow> u8 list" where
  "render [] = [0]"
| "render ((cs, m) # ps) = cs @ replicate m 47 @ render ps"

fun path_text :: "(u8 list \<times> nat) list \<Rightarrow> bool" where
  "path_text [] \<longleftrightarrow> True"
| "path_text ((cs, m) # ps) \<longleftrightarrow> cs \<noteq> [] \<and> 0 \<notin> set cs \<and> 47 \<notin> set cs \<and> (m = 0 \<longrightarrow> ps = []) \<and> path_text ps"

lemma render_first: "path_text ps \<Longrightarrow> \<exists>e rest. render ps = e # rest \<and> e \<noteq> 47 \<and> (e = 0 \<longleftrightarrow> ps = []) \<and> length ps \<le> length rest"
proof (induction ps)
  case (Cons p ps)
  obtain cs m where p: "p = (cs, m)" by (cases p)
  obtain c cs' where c: "cs = c # cs'" using Cons.prems p by (cases cs) auto
  have "length ps < length (render ps)" using Cons p by force
  then show ?case using Cons.prems by (auto simp: p c)
qed simp

text \<open>What the walk keeps.\<close>

definition env :: "'a fil_scheme \<Rightarrow> 'a fil_scheme \<Rightarrow> bool" where
  "env s t \<longleftrightarrow> binv t {} \<and> cont t = cont s \<and> usable t = usable s \<and> mounts t = mounts s \<and> u_mem t = u_mem s \<and> u_uid t = u_uid s \<and> u_gid t = u_gid s \<and>
     mpxip t = mpxip s"

lemma env_fields [simp]:
  "env s (t\<lparr>u_dirp := a\<rparr>) = env s t" "env s (t\<lparr>u_dbuf := b\<rparr>) = env s t" "env s (t\<lparr>u_offset := o1\<rparr>) = env s t" "env s (t\<lparr>u_segflg := g\<rparr>) = env s t"
  "env s (t\<lparr>u_error := e\<rparr>) = env s t" "env s (t\<lparr>inodes := f\<rparr>) = env s t"
  by (simp_all add: env_def)

lemma searched_env:
  assumes "searched {} t u" "binv u {}" "env s t"
  shows "env s u" "u_dirp u = u_dirp t"
proof -
  have b: "bio_only (cleared t) (cleared u)" using assms(1) by (simp add: searched_def)
  have "u_mem u = u_mem t" "u_uid u = u_uid t" "u_gid u = u_gid t" "mpxip u = mpxip t" and d: "u_dirp u = u_dirp t"
    using b by (cases t; cases u; simp add: bio_only_def cleared_def)+
  then show "env s u" using assms(2,3) searched_same [OF assms(1)] by (simp add: env_def)
  show "u_dirp u = u_dirp t" by (rule d)
qed

definition held :: "inode \<Rightarrow> inode" where
  "held ip = ip\<lparr>i_count := i_count ip + 1, i_flag := insert ILOCK (i_flag ip)\<rparr>"

definition holding :: "'a ino_scheme \<Rightarrow> nat \<Rightarrow> nat \<Rightarrow> inode" where
  "holding s i = (inodes s)(i := held (inodes s i))"

lemma held_fields [simp]:
  "i_dev (held ip) = i_dev ip" "i_number (held ip) = i_number ip" "i_mode (held ip) = i_mode ip" "i_size (held ip) = i_size ip" "i_addr (held ip) = i_addr ip"
  "i_uid (held ip) = i_uid ip" "i_gid (held ip) = i_gid ip"
  by (simp_all add: held_def)

lemma iput_held:
  assumes "resident s i" "inodes t = holding s i"
  shows "iput strat i t = Ret () (t\<lparr>inodes := inodes s\<rparr>)"
proof -
  let ?ip = "inodes s i"
  have f: "ILOCK \<notin> i_flag ?ip" "IWANT \<notin> i_flag ?ip" "i_count ?ip \<noteq> 0" using assms(1) by (auto simp: resident_def)
  have c: "i_count (inodes t i) \<noteq> 1" "i_count (inodes t i) - 1 = i_count ?ip" using assms(2) f(3) by (simp_all add: holding_def held_def)
  have d: "insert ILOCK (i_flag ?ip) - {ILOCK} = i_flag ?ip" using f(1) by blast
  have "(inodes t)(i := (inodes t i)\<lparr>i_count := i_count (inodes t i) - 1, i_flag := i_flag (inodes t i) - {ILOCK}\<rparr>) = inodes s"
    using d by (auto simp: assms(2) holding_def held_def fun_eq_iff)
  then show ?thesis using c f(2) d by (simp add: iput_def prele_def Let_def i_upd_def assms(2)) (simp add: holding_def held_def)
qed

lemma iget_core:
  assumes "resident s j" "core s dev n = Some j" "inodes t = inodes s"
  shows "iget strat dev n t = Ret (Some j) (t\<lparr>inodes := holding s j\<rparr>)"
proof -
  have "ILOCK \<notin> i_flag (inodes s j)" "IMOUNT \<notin> i_flag (inodes s j)" using assms(1) by (auto simp: resident_def)
  then show ?thesis using assms(2) by (simp add: iget_def core_def assms(3) i_upd_def holding_def held_def numeral_eq_Suc)
qed
lemma entry_holding: "cont t = cont s \<Longrightarrow> inodes t = holding s i \<Longrightarrow> entry t i k = entry s i k"
  by (simp add: entry_def holding_def)

lemma named_holding:
  assumes "cont t = cont s" "inodes t = holding s i" "u_dbuf t = padded cs" "n = unat (i_size (inodes s i)) div 16"
  shows "map_option (\<lambda>m. d_ino (entry t i m)) (first_entry (\<lambda>d. d_ino d \<noteq> 0 \<and> d_name d = u_dbuf t) t i 0 n) = named s i cs"
  using entry_holding [OF assms(1,2)] by (simp add: named_def first_entry_def assms(3,4))

lemma seloop_step:
  assumes st: "sync_driver strat" and i: "resident s i" "searchable s i"
    and t: "env s t" "inodes t = holding s i" "u_error t = 0" "u_dbuf t = padded cs"
    and j: "\<And>n. named s i cs = Some n \<Longrightarrow> \<exists>j. core s (i_dev (inodes s i)) n = Some j \<and> resident s j"
  shows "fpost (seloop (Suc k) strat 0 i c t) (\<lambda>r u. env s u \<and> u_dirp u = u_dirp t \<and>
    (case named s i cs of
       None \<Rightarrow> r = Done None \<and> inodes u = inodes s \<and> u_error u = ENOENT
     | Some n \<Rightarrow> (\<exists>j. core s (i_dev (inodes s i)) n = Some j \<and> r = To_cloop j \<and> inodes u = holding s j \<and> u_error u = 0)))"
proof -
  let ?ip = "inodes s i"
  define n where "n = unat (i_size ?ip) div 16"
  have ti: "inodes t i = held ?ip" by (simp add: t(2) holding_def)
  have S: "i_mode ?ip AND IFMT = IFDIR" "usable s (i_dev ?ip)" "u_uid s = 0 \<or> access_mode (u_uid s) (u_gid s) ?ip IEXEC" "unat (i_size ?ip) = 16 * n" "16 * n < 2 ^ 31"
    "16 * n \<le> 512 * max_blocks" "\<And>k. k < n \<Longrightarrow> file_block (cont s (i_dev ?ip)) (i_addr ?ip) (16 * k div 512) \<noteq> 0"
    "i_number ?ip = ROOTINO \<longrightarrow> mounted_on s (i_dev ?ip) = None"
    using i(2) by (simp_all add: searchable_def Let_def n_def)
  have E: "binv t {}" "cont t = cont s" "usable t = usable s" "mounts t = mounts s" "u_uid t = u_uid s" "u_gid t = u_gid s" using t(1) by (simp_all add: env_def)
  have "IEXEC \<noteq> IWRITE" by (simp add: IEXEC_def IWRITE_def)
  then have ac: "access strat i IEXEC t = Ret False t"
    using S(3) by (auto simp: access_def E ti access_mode_def Let_def)
  define v where "v = t\<lparr>u_offset := 0, u_segflg := 1\<rparr>"
  have v: "binv v {}" "cont v = cont s" "inodes v = holding s i" "u_dbuf v = padded cs" "u_error v = 0" "env s v" "u_offset v = 0" "u_dirp v = u_dirp t" "usable v = usable s"
    using t E by (simp_all add: v_def)
  have vi: "inodes v i = held ?ip" by (simp add: v(3) holding_def)
  have e: "namei_comp strat 0 i c t = fbind (dir_loop (dir_fuel i v) strat i 0 None v) (\<lambda>r s.
         case r of
           Dir_end eo \<Rightarrow> namei_end strat 0 i c eo s
         | Dir_hit \<Rightarrow> namei_hit strat 0 i c s
         | Dir_error \<Rightarrow> namei_out strat i s)"
    using S(1) ac t(3) by (simp add: namei_comp_def ti v_def dir_fuel_def)
  have F: "fpost (dir_loop (dir_fuel i v) strat i 0 None v) (\<lambda>r u. binv u {} \<and> searched {} v u \<and>
    (case first_entry (\<lambda>d. d_ino d \<noteq> 0 \<and> d_name d = u_dbuf v) v i 0 n of
       Some m \<Rightarrow> r = Dir_hit \<and> u_dent u = entry v i m \<and> unat (u_offset u) = 16 * m + 16
     | None \<Rightarrow> unat (u_offset u) = 16 * n \<and>
         r = Dir_end (case first_entry (\<lambda>d. d_ino d = 0) v i 0 n of Some m \<Rightarrow> of_nat (16 * m + 16) | None \<Rightarrow> 0)))"
    by (rule search_finds [OF st v(1) _ _ _ _ S(5,6) _ v(7)]) (use S demo_bio(4) in \<open>simp_all add: vi v(2,9)\<close>)
  note N = named_holding [OF v(2-4) n_def]
  let ?Q = "\<lambda>r u. env s u \<and> u_dirp u = u_dirp t \<and>
    (case named s i cs of
       None \<Rightarrow> r = Done None \<and> inodes u = inodes s \<and> u_error u = ENOENT
     | Some n \<Rightarrow> (\<exists>j. core s (i_dev ?ip) n = Some j \<and> r = To_cloop j \<and> inodes u = holding s j \<and> u_error u = 0))"
  have nQ: "?Q r u \<Longrightarrow> \<forall>mp. r \<noteq> To_seloop mp" for r u by (auto split: option.splits)
  have "fpost (namei_comp strat 0 i c t) ?Q"
    unfolding e
  proof (rule fpost_bind, rule fpost_mono [OF F], elim conjE)
    fix r u
    assume u: "binv u {}" "searched {} v u" and r: "case first_entry (\<lambda>d. d_ino d \<noteq> 0 \<and> d_name d = u_dbuf v) v i 0 n of
       Some m \<Rightarrow> r = Dir_hit \<and> u_dent u = entry v i m \<and> unat (u_offset u) = 16 * m + 16
     | None \<Rightarrow> unat (u_offset u) = 16 * n \<and>
         r = Dir_end (case first_entry (\<lambda>d. d_ino d = 0) v i 0 n of Some m \<Rightarrow> of_nat (16 * m + 16) | None \<Rightarrow> 0)"
    note U = searched_env [OF u(2,1) v(6)] and W = searched_same [OF u(2)]
    have iu: "inodes u = holding s i" using W(1) v(3) by simp
    show "fpost (case r of
           Dir_end eo \<Rightarrow> namei_end strat 0 i c eo u
         | Dir_hit \<Rightarrow> namei_hit strat 0 i c u
         | Dir_error \<Rightarrow> namei_out strat i u) ?Q"
    proof (cases "first_entry (\<lambda>d. d_ino d \<noteq> 0 \<and> d_name d = u_dbuf v) v i 0 n")
      case None
      then obtain eo where re: "r = Dir_end eo" using r by auto
      have "iput strat i (set_err ENOENT u) = Ret () (set_err ENOENT u\<lparr>inodes := inodes s\<rparr>)"
        by (rule iput_held [OF i(1)]) (simp add: set_err_def iu)
      then show ?thesis using None N U v(8) re by (simp add: namei_end_def namei_out_def) (simp add: set_err_def)
    next
      case (Some m)
      then have rm: "r = Dir_hit" "u_dent u = entry v i m" using r by simp_all
      have nm: "named s i cs = Some (d_ino (u_dent u))" using N Some rm(2) by simp
      obtain j where j: "core s (i_dev ?ip) (d_ino (u_dent u)) = Some j" "resident s j" using j [OF nm] by blast
      have di: "i_dev (inodes u i) = i_dev ?ip" "i_number (inodes u i) = i_number ?ip" by (simp_all add: iu holding_def)
      have "mounted_on u (i_dev ?ip) = mounted_on s (i_dev ?ip)" using U(1) by (simp add: mounted_on_def env_def)
      then have mo: "(if d_ino (u_dent u) = ROOTINO \<and> i_number (inodes u i) = ROOTINO \<and> d_name (u_dent u) ! 1 = 46 then mounted_on u (i_dev (inodes u i)) else None) = None"
        using S(8) di by auto
      have p: "iput strat i u = Ret () (u\<lparr>inodes := inodes s\<rparr>)" by (rule iput_held [OF i(1) iu])
      have g: "iget strat (i_dev ?ip) (d_ino (u_dent u)) (u\<lparr>inodes := inodes s\<rparr>) = Ret (Some j) (u\<lparr>inodes := inodes s\<rparr>\<lparr>inodes := holding s j\<rparr>)"
        by (rule iget_core [OF j(2,1)]) simp
      have "namei_hit strat 0 i c u = Ret (To_cloop j) (u\<lparr>inodes := holding s j\<rparr>)"
        unfolding namei_hit_def Let_def mo using p g di by simp
      then show ?thesis using nm j(1) U v(5,8) rm(1) W(4) by simp
    qed
  qed
  then show ?thesis
    by (simp, intro fpost_bind, elim fpost_mono) (auto split: step.splits option.splits)
qed
lemma fbind_assoc: "fbind (fbind m f) g = fbind m (\<lambda>x s. fbind (f x s) g)"
  by (cases m) simp_all

lemma walkable_resident: "walkable s i css \<Longrightarrow> resident s i"
  by (cases css) simp_all

lemma cloop_walks:
  assumes st: "sync_driver strat" and mp: "mpxip s = None"
  shows "path_text ps \<Longrightarrow> walkable s i (map fst ps) \<Longrightarrow> env s t \<Longrightarrow> inodes t = holding s i \<Longrightarrow> u_error t = 0 \<Longrightarrow> render ps = x # bs \<Longrightarrow>
    name_at (u_dirp t) bs t \<Longrightarrow> length (render ps) \<le> 2 ^ 16 \<Longrightarrow> length ps < k \<Longrightarrow>
    fpost (cloop k strat uchar 0 i (ucast x) t) (\<lambda>r u. env s u \<and> r = walk s i (map fst ps) \<and>
      inodes u = (case r of Some j \<Rightarrow> holding s j | None \<Rightarrow> inodes s) \<and> u_error u = (case r of Some j \<Rightarrow> 0 | None \<Rightarrow> ENOENT))"
proof (induction ps arbitrary: i t x bs k)
  case Nil
  then obtain k' where "k = Suc k'" by (cases k) auto
  then show ?case using Nil by simp
next
  case (Cons p ps)
  obtain cs m where p: "p = (cs, m)" by (cases p)
  obtain k' where k: "k = Suc k'" "length ps < k'" using Cons.prems(9) by (cases k) auto
  have pt: "cs \<noteq> []" "0 \<notin> set cs" "47 \<notin> set cs" "m = 0 \<longrightarrow> ps = []" "path_text ps" using Cons.prems(1) by (simp_all add: p)
  obtain e rest where e: "render ps = e # rest" "e \<noteq> 47" "e = 0 \<longleftrightarrow> ps = []" using render_first [OF pt(5)] by blast
  have xb: "x # bs = (cs @ replicate m 47) @ e # rest" using Cons.prems(6) by (simp add: p e(1))
  have x0: "x \<noteq> 0" using xb pt(1,2) by (cases cs) auto
  have len: "length cs + m \<le> 2 ^ 16" "length (render ps) \<le> 2 ^ 16" using Cons.prems(8) by (simp_all add: p)
  have mt: "mpxip t = None" using mp Cons.prems(3) by (simp add: env_def)
  define t' where "t' = t\<lparr>u_dirp := u_dirp t + of_nat (length cs + m), u_dbuf := padded cs\<rparr>"
  have nc: "fbind (gather name_fuel uchar (ucast x) [] t) (skip_slashes name_fuel uchar) = Ret (ucast e) t'"
    unfolding t'_def by (rule next_component [OF Cons.prems(7) _ pt(2,3) e(2)]) (use xb pt(4) e(3) Cons.prems(5) mt len in auto)
  have t': "env s t'" "inodes t' = holding s i" "u_error t' = 0" "u_dbuf t' = padded cs" "mpxip t' = None" "u_mem t' = u_mem t" "u_dirp t' = u_dirp t + of_nat (length cs + m)"
    using Cons.prems(3-5) mt by (simp_all add: t'_def)
  have w: "resident s i" "searchable s i" using Cons.prems(2) by (simp_all add: p)
  have wj: "\<exists>j. core s (i_dev (inodes s i)) n = Some j \<and> resident s j" if "named s i cs = Some n" for n
    using Cons.prems(2) that walkable_resident by (auto simp: p split: option.splits)
  have "cloop k strat uchar 0 i (ucast x) t = fbind (fbind (gather name_fuel uchar (ucast x) [] t) (skip_slashes name_fuel uchar)) (\<lambda>c s.
          case (if c = bang then mpxip s else None) of
            Some mp \<Rightarrow>
              fbind (iput strat i s) (\<lambda>_ s.
              fbind (plock mp s) (\<lambda>_ s. Ret (Some mp) (i_upd mp (\<lambda>ip. ip\<lparr>i_count := i_count ip + 1\<rparr>) s)))
          | None \<Rightarrow>
              fbind (seloop (NMOUNT + 1) strat 0 i c s) (\<lambda>r s.
                case r of
                  Done x \<Rightarrow> Ret x s
                | To_cloop ip \<Rightarrow> cloop k' strat uchar 0 ip c s
                | To_seloop ip \<Rightarrow> Endless))"
    using x0 Cons.prems(5) by (simp add: k(1) fbind_assoc)
  also have "\<dots> = fbind (seloop (Suc NMOUNT) strat 0 i (ucast e) t') (\<lambda>r s.
                case r of
                  Done x \<Rightarrow> Ret x s
                | To_cloop ip \<Rightarrow> cloop k' strat uchar 0 ip (ucast e) s
                | To_seloop ip \<Rightarrow> Endless)"
    unfolding nc by (simp add: t'(5) del: seloop.simps)
  finally have step: "cloop k strat uchar 0 i (ucast x) t = fbind (seloop (Suc NMOUNT) strat 0 i (ucast e) t') (\<lambda>r s.
                case r of
                  Done x \<Rightarrow> Ret x s
                | To_cloop ip \<Rightarrow> cloop k' strat uchar 0 ip (ucast e) s
                | To_seloop ip \<Rightarrow> Endless)" .
  show ?case
    unfolding step
  proof (rule fpost_bind, rule fpost_mono [OF seloop_step [OF st w t'(1-4) wj]], assumption, elim conjE)
    fix r u
    assume u: "env s u" "u_dirp u = u_dirp t'" and r: "case named s i cs of
       None \<Rightarrow> r = Done None \<and> inodes u = inodes s \<and> u_error u = ENOENT
     | Some n \<Rightarrow> (\<exists>j. core s (i_dev (inodes s i)) n = Some j \<and> r = To_cloop j \<and> inodes u = holding s j \<and> u_error u = 0)"
    show "fpost (case r of
                  Done x \<Rightarrow> Ret x u
                | To_cloop ip \<Rightarrow> cloop k' strat uchar 0 ip (ucast e) u
                | To_seloop ip \<Rightarrow> Endless) (\<lambda>r u. env s u \<and> r = walk s i (map fst (p # ps)) \<and>
      inodes u = (case r of Some j \<Rightarrow> holding s j | None \<Rightarrow> inodes s) \<and> u_error u = (case r of Some j \<Rightarrow> 0 | None \<Rightarrow> ENOENT))"
    proof (cases "named s i cs")
      case None
      then show ?thesis using r u(1) by (simp add: p)
    next
      case (Some n)
      then obtain j where j: "core s (i_dev (inodes s i)) n = Some j" "r = To_cloop j" "inodes u = holding s j" "u_error u = 0" using r by auto
      have wj: "walkable s j (map fst ps)" using Cons.prems(2) Some j(1) by (simp add: p)
      have "name_at (u_dirp t') rest t" using name_at_suffix [OF Cons.prems(7) xb] t'(7) by simp
      then have na: "name_at (u_dirp u) rest u" using u Cons.prems(3) by (simp add: name_at_def env_def)
      have wk: "walk s i (map fst (p # ps)) = walk s j (map fst ps)" using Some j(1) by (simp add: p)
      show ?thesis unfolding j(2) wk using Cons.IH [OF pt(5) wj u(1) j(3,4) e(1) na len(2) k(2)] by simp
    qed
  qed
qed

text \<open>
  C6. The walk of a path. Let every i-node on the way be in core, unlocked and in use by somebody, its directories searchable by the process and without
  holes, no mount point crossed. Then \<open>namei\<close>, called to look a name up, returns the i-node to which the reference walk leads: from the root
  directory of the process when the name begins with a slash, otherwise from the current directory, through the entries with the
  components of the name, each cut to 14 characters, however many slashes stand between and behind them. That i-node is locked and counted
  once more and every other i-node of the table is as it was, those the walk has held in between included; when a component is missing,
  the error is \<open>ENOENT\<close>, nothing is returned and nothing stays held. No block of any device changes.
\<close>

theorem namei_walks:
  assumes st: "sync_driver strat" and s: "binv s {}" "u_error s = 0" "mpxip s = None"
    and ps: "path_text ps" "name_at (u_dirp s) (replicate m 47 @ render ps) s" "m + length (render ps) \<le> 2 ^ 16"
    and i: "i = (if m = 0 then u_cdir s else case u_rdir s of Some r \<Rightarrow> r | None \<Rightarrow> rootdir s)" "walkable s i (map fst ps)"
  shows "fpost (namei strat uchar 0 s) (\<lambda>r u. r = walk s i (map fst ps) \<and> binv u {} \<and> cont u = cont s \<and>
    inodes u = (case r of Some j \<Rightarrow> (inodes s)(j := (inodes s j)\<lparr>i_count := i_count (inodes s j) + 1, i_flag := insert ILOCK (i_flag (inodes s j))\<rparr>) | None \<Rightarrow> inodes s) \<and>
    u_error u = (case r of Some j \<Rightarrow> 0 | None \<Rightarrow> ENOENT))"
proof -
  obtain e rest where e: "render ps = e # rest" "e \<noteq> 47" "length ps \<le> length rest" using render_first [OF ps(1)] by blast
  obtain x bs where xb: "replicate m 47 @ e # rest = x # bs" "x = 47 \<longleftrightarrow> 0 < m" using e(2) by (cases m) auto
  define t where "t = s\<lparr>u_dirp := u_dirp s + 1\<rparr>"
  have nx: "u_mem s 0 (u_dirp s) = Some x" "name_at (u_dirp t) bs t"
    using ps(2) by (simp_all add: e(1) xb(1) name_at_cons) (simp add: name_at_def t_def)
  have u: "uchar s = (ucast x, t)" unfolding t_def by (rule uchar_next [OF nx(1)])
  have ri: "resident s i" by (rule walkable_resident [OF i(2)])
  have dp: "(if (ucast x :: u16) = slash then case u_rdir t of Some r \<Rightarrow> r | None \<Rightarrow> rootdir t else u_cdir t) = i"
    using xb(2) i(1) by (cases "u_rdir s") (auto simp: t_def)
  define v where "v = t\<lparr>inodes := holding s i\<rparr>"
  have it: "inodes t = inodes s" by (simp add: t_def)
  have c: "core s (i_dev (inodes s i)) (i_number (inodes s i)) = Some i" using ri by (simp add: resident_def)
  have g: "iget strat (i_dev (inodes t i)) (i_number (inodes t i)) t = Ret (Some i) v"
    unfolding v_def it by (rule iget_core [OF ri c it])
  have "name_at (u_dirp v) bs v" using nx(2) by (simp add: v_def name_at_def)
  note sk = skip_slashes_run [OF this, of x m e rest name_fuel]
  define w where "w = v\<lparr>u_dirp := u_dirp v + of_nat m\<rparr>"
  have sw: "skip_slashes name_fuel uchar (ucast x) v = Ret (ucast e) w"
    unfolding w_def by (rule sk) (use xb(1) e(2) ps(3) in \<open>simp_all add: name_fuel_def\<close>)
  have "env s s" using s(1) by (simp add: env_def)
  then have ew: "env s w" "inodes w = holding s i" "u_error w = 0" using s(2) by (simp_all add: w_def v_def t_def)
  have "name_at (u_dirp w) rest v"
    using name_at_suffix [of "u_dirp v" bs v x "replicate m 47" e rest] \<open>name_at (u_dirp v) bs v\<close> xb(1) by (simp add: w_def)
  then have nw: "name_at (u_dirp w) rest w" by (simp add: w_def name_at_def)
  have "length ps < name_fuel" using e(1,3) ps(3) by (simp add: name_fuel_def)
  then have "fpost (cloop name_fuel strat uchar 0 i (ucast e) w) (\<lambda>r u. env s u \<and> r = walk s i (map fst ps) \<and>
      inodes u = (case r of Some j \<Rightarrow> holding s j | None \<Rightarrow> inodes s) \<and> u_error u = (case r of Some j \<Rightarrow> 0 | None \<Rightarrow> ENOENT))"
    using ps(3) by (intro cloop_walks [OF st s(3) ps(1) i(2) ew e(1) nw]) simp_all
  then show ?thesis
    unfolding namei_def u Let_def prod.case dp g fbind.simps sw
    by (simp, elim fpost_mono) (auto simp: env_def holding_def held_def split: option.splits)
qed
text \<open>
  The directory of the demonstration before as the root directory, in the slot 0, and in the slot 1 the file whose name is 14 bytes 7; the path name
  is that name behind two slashes.
\<close>

definition demo_walk :: fil where
  "demo_walk = demo_fil\<lparr>inodes := \<lambda>i.
       if i = 0 then demo_inode\<lparr>i_flag := {}, i_number := ROOTINO, i_mode := IFDIR OR 1, i_size := 1536, i_addr := [7, 256, 8] @ replicate 10 0\<rparr>
       else if i = 1 then demo_inode\<lparr>i_flag := {}, i_number := 0x707\<rparr>
       else demo_inode\<lparr>i_flag := {}, i_number := 0, i_count := 0\<rparr>,
     u_dirp := 100, u_mem := \<lambda>_ a. if a < 102 then Some 47 else if a < 116 then Some 7 else Some 0\<rparr>"

lemma demo_walk_fields:
  "binv demo_walk {}" "usable demo_walk 0" "cont demo_walk = cont demo_bio" "u_error demo_walk = 0" "mpxip demo_walk = None" "u_uid demo_walk = 7" "u_gid demo_walk = 3" "u_rdir demo_walk = None"
  "rootdir demo_walk = 0" "mounts demo_walk = mounts demo_fil" "u_dirp demo_walk = 100" "inodes demo_walk 0 = demo_inode\<lparr>i_flag := {}, i_number := ROOTINO, i_mode := IFDIR OR 1, i_size := 1536, i_addr := [7, 256, 8] @ replicate 10 0\<rparr>"
  "inodes demo_walk 1 = demo_inode\<lparr>i_flag := {}, i_number := 0x707\<rparr>"
  by (simp_all add: demo_walk_def demo_fil_bio) (simp_all add: demo_fil_def ino.extend_def fil.fields_def)

lemma demo_walk_entry: "entry demo_walk 0 = entry (demo_dir b) 0"
  by (simp add: entry_def demo_walk_fields demo_dir_bio demo_inode_def fun_eq_iff)

lemma demo_walk_resident: "resident demo_walk 0" "resident demo_walk 1" "core demo_walk 0 0x707 = Some 1"
proof -
  have u: "[0..<NINODE] = 0 # 1 # [2..<NINODE]" by (simp add: NINODE_def upt_conv_Cons)
  have c: "core demo_walk 0 ROOTINO = Some 0" "core demo_walk 0 0x707 = Some 1"
    unfolding core_def u by (simp_all add: demo_walk_def demo_inode_def ROOTINO_def)
  then show "resident demo_walk 0" "resident demo_walk 1" "core demo_walk 0 0x707 = Some 1"
    by (simp_all add: resident_def demo_walk_fields demo_inode_def del: One_nat_def)
qed

lemma demo_walk_walk: "walkable demo_walk 0 [replicate 14 7]" "walk demo_walk 0 [replicate 14 7] = Some 1"
proof -
  have k: "unat (i_size (inodes demo_walk 0)) div 16 = 96" by (simp add: demo_walk_fields)
  have f: "first_entry P demo_walk 0 0 96 = first_entry P (demo_dir 7) 0 0 96" for P by (simp add: first_entry_def demo_walk_entry [of 7])
  have p: "padded (replicate 14 7) = replicate 14 7" by (simp add: padded_def DIRSIZ_def)
  have "bytes_int [7, 7] = 0x707" by code_simp
  then have "d_ino (entry demo_walk 0 0) = 0x707" using demo_dir_entry [of 0 7 0] by (simp add: demo_walk_entry [of 7])
  then have n: "named demo_walk 0 (replicate 14 7) = Some 0x707"
    unfolding named_def k f p demo_dir_search by simp
  have b: "file_block c ([7, 256, 8] @ replicate 10 0) (16 * j div 512) \<noteq> 0" if "j < 96" for c j
    using demo_dir_block [OF that, of c 7 0] by (simp add: demo_dir_bio split: if_splits)
  have mt: "mounted_on demo_walk 0 = None"
    by (simp add: mounted_on_def demo_walk_fields find_None_iff)
      (simp add: demo_fil_def ino.extend_def fil.fields_def demo_file_def alc.extend_def alc.truncate_def demo_alc_def bio.extend_def bio.truncate_def)
  have "(IFDIR OR 1) AND IFMT = IFDIR" "(IFDIR OR 1) AND drop_bit 3 (drop_bit 3 IEXEC) \<noteq> 0" by code_simp+
  then have "searchable demo_walk 0"
    using b mt by (simp add: searchable_def demo_walk_fields demo_inode_def access_mode_def max_blocks_def)
  then show "walkable demo_walk 0 [replicate 14 7]" "walk demo_walk 0 [replicate 14 7] = Some 1"
    using demo_walk_resident n by (simp_all add: demo_walk_fields demo_inode_def)
qed

theorem namei_walks_witness:
  "fpost (namei demo_driver uchar 0 demo_walk) (\<lambda>r u. r = Some 1 \<and> i_count (inodes u 1) = 2 \<and> ILOCK \<in> i_flag (inodes u 1) \<and> inodes u 0 = inodes demo_walk 0 \<and>
     u_error u = 0)"
proof -
  have "render [(replicate 14 7, 0)] = replicate 14 7 @ [0]" by simp
  moreover have "u_mem demo_walk 0 (100 + of_nat k) = Some ((replicate 2 47 @ replicate 14 7 @ [0]) ! k)" if "k < 17" for k
  proof -
    have "unat (100 + of_nat k :: u16) = 100 + k" using that by (simp add: unat_word_ariths(1) unat_of_nat take_bit_nat_eq_self)
    then have "(100 + of_nat k :: u16) < 102 \<longleftrightarrow> k < 2" "(100 + of_nat k :: u16) < 116 \<longleftrightarrow> k < 16" by (simp_all add: word_less_nat_alt)
    then show ?thesis using that by (auto simp: demo_walk_def nth_append)
  qed
  ultimately have n: "name_at (u_dirp demo_walk) (replicate 2 47 @ render [(replicate 14 7, 0)]) demo_walk"
    unfolding name_at_def by (simp add: demo_walk_fields)
  have p: "path_text [(replicate 14 7, 0)]" by simp
  note W = namei_walks [OF demo_driver_sync demo_walk_fields(1,4,5) p n, of 0]
  show ?thesis
    by (rule fpost_mono [OF W]) (use demo_walk_walk in \<open>simp_all add: demo_walk_fields demo_inode_def del: One_nat_def walk.simps walkable.simps\<close>)
qed

end
