(* ===== verification/Pipe.thy ===== *)
theory Pipe
  imports File_Write Fio
begin

text \<open>
  Pipes (\<open>sys/pipe.c\<close>): a file of at most ten direct blocks, its reader and its writer, each as passes from one \<open>plock\<close> to the return or the sleep.
  The properties are that a pipe is a queue and that its two ends do not wait for each other, for writes of at most 1024 bytes.
\<close>

unbundle bit_operations_syntax

section \<open>The program\<close>

definition PIPSIZ :: nat where "PIPSIZ = 4096"
definition PPIPE :: int where "PPIPE = 26"
definition SIGPIPE :: u8 where "SIGPIPE = 13"
definition EPIPE :: u8 where "EPIPE = 32"

definition pipe :: "'a devsw \<Rightarrow> 'a fil_scheme \<Rightarrow> (unit, 'a fil_scheme) fres" where
  "pipe sw s =
     fbind (ialloc (d_strat sw) (pipedev s) s) (\<lambda>r s.
       case r of
         None \<Rightarrow> Ret () s
       | Some i \<Rightarrow>
           (case falloc s of
              (None, s) \<Rightarrow> iput (d_strat sw) i s
            | (Some fr, s) \<Rightarrow>
                let r = u_rval1 s in
                (case falloc s of
                   (None, s) \<Rightarrow>
                     iput (d_strat sw) i ((f_upd fr (\<lambda>fp. fp\<lparr>f_count := 0\<rparr>) s)\<lparr>u_ofile := (u_ofile s)[unat r := None]\<rparr>)
                 | (Some fw, s) \<Rightarrow>
                     let s = s\<lparr>u_rval2 := u_rval1 s, u_rval1 := r\<rparr>;
                         s = f_upd fw (\<lambda>fp. fp\<lparr>f_flag := FWRITE OR FPIPE, f_inode := i\<rparr>) s;
                         s = f_upd fr (\<lambda>fp. fp\<lparr>f_flag := FREAD OR FPIPE, f_inode := i\<rparr>) s
                     in Ret () (i_upd i (\<lambda>ip. ip\<lparr>i_count := 2, i_mode := IFREG, i_flag := {IACC, IUPD, ICHG}\<rparr>) s))))"

text \<open>\<open>readp\<close>: one pass from \<open>loop\<close> to its return or its sleep, after which the pass is begun again.\<close>

definition readp :: "'a devsw \<Rightarrow> nat \<Rightarrow> 'a fil_scheme \<Rightarrow> (unit, 'a fil_scheme) fres" where
  "readp sw f s =
     (let i = f_inode (files s f) in
      fbind (plock i s) (\<lambda>_ s.
        if i_size (inodes s i) = 0 then
          let s = prele i s in
          if sint (i_count (inodes s i)) < 2 then Ret () s
          else Asleep (Ch_pipe i 2) PPIPE (i_upd i (\<lambda>ip. ip\<lparr>i_mode := i_mode ip OR IREAD\<rparr>) s)
        else
          fbind (readi (d_strat sw) (c_read sw) i (s\<lparr>u_offset := f_offset (files s f)\<rparr>)) (\<lambda>_ s.
            let s = f_upd f (\<lambda>fp. fp\<lparr>f_offset := u_offset s\<rparr>) s;
                s = (if f_offset (files s f) = i_size (inodes s i) then
                       let s = i_upd i (\<lambda>ip. ip\<lparr>i_size := 0\<rparr>) (f_upd f (\<lambda>fp. fp\<lparr>f_offset := 0\<rparr>) s) in
                       if i_mode (inodes s i) AND IWRITE \<noteq> 0
                       then awaken (Ch_pipe i 1) (i_upd i (\<lambda>ip. ip\<lparr>i_mode := i_mode ip AND NOT IWRITE\<rparr>) s) else s
                     else s)
            in Ret () (prele i s))))"

text \<open>
  \<open>writep\<close>: one pass from \<open>loop\<close>, with \<open>c\<close> bytes still to be written. It returns (None), or goes on with \<open>c\<close> (Some), or sleeps, after
  which the pass is begun again with the same \<open>c\<close>. Every pass that goes on has made \<open>c\<close> smaller.
\<close>

definition writep_pass :: "'a devsw \<Rightarrow> nat \<Rightarrow> u16 \<Rightarrow> 'a fil_scheme \<Rightarrow> (u16 option, 'a fil_scheme) fres" where
  "writep_pass sw f c s =
     (let i = f_inode (files s f) in
      fbind (plock i s) (\<lambda>_ s.
        if c = 0 then Ret None ((prele i s)\<lparr>u_count := 0\<rparr>)
        else if sint (i_count (inodes s i)) < 2 then
          let s = set_err EPIPE (prele i s) in Ret None (s\<lparr>posted := SIGPIPE # posted s\<rparr>)
        else if int PIPSIZ \<le> sint (i_size (inodes s i)) then
          Asleep (Ch_pipe i 1) PPIPE (prele i (i_upd i (\<lambda>ip. ip\<lparr>i_mode := i_mode ip OR IWRITE\<rparr>) s))
        else
          let n = umin c (of_nat PIPSIZ) in
          fbind (writei (d_strat sw) (c_write sw) i (s\<lparr>u_offset := i_size (inodes s i), u_count := n\<rparr>)) (\<lambda>_ s.
            let s = prele i s;
                s = (if i_mode (inodes s i) AND IREAD \<noteq> 0
                     then awaken (Ch_pipe i 2) (i_upd i (\<lambda>ip. ip\<lparr>i_mode := i_mode ip AND NOT IREAD\<rparr>) s) else s)
            in Ret (Some (c - n)) s)))"

fun writep_loop :: "nat \<Rightarrow> 'a devsw \<Rightarrow> nat \<Rightarrow> u16 \<Rightarrow> 'a fil_scheme \<Rightarrow> (unit, 'a fil_scheme) fres" where
  "writep_loop 0 sw f c s = Endless"
| "writep_loop (Suc k) sw f c s =
     fbind (writep_pass sw f c s) (\<lambda>r s. case r of None \<Rightarrow> Ret () s | Some c \<Rightarrow> writep_loop k sw f c s)"

definition writep :: "'a devsw \<Rightarrow> nat \<Rightarrow> 'a fil_scheme \<Rightarrow> (unit, 'a fil_scheme) fres" where
  "writep sw f s = writep_loop (unat (u_count s) + 1) sw f (u_count s) s"

section \<open>A pipe as a queue\<close>

text \<open>
  A pipe with both ends open: \<open>i\<close> is its i-node, \<open>fr\<close> and \<open>fw\<close> its files. What is in it are the bytes of the file from the offset of the
  reader to the size.
\<close>

definition pipe_ok :: "u16 \<Rightarrow> bnode \<Rightarrow> nat \<Rightarrow> nat \<Rightarrow> nat \<Rightarrow> 'a fil_scheme \<Rightarrow> bool" where
  "pipe_ok dev fp i fr fw s \<longleftrightarrow>
     (\<exists>L. wfile dev fp {} i L s \<and> holes (i_addr (inodes s i)) \<le> length L) \<and> drop 10 (i_addr (inodes s i)) = [0, 0, 0] \<and>
     ILOCK \<notin> i_flag (inodes s i) \<and> 2 \<le> sint (i_count (inodes s i)) \<and> f_inode (files s fr) = i \<and> f_inode (files s fw) = i \<and>
     unat (f_offset (files s fr)) \<le> unat (i_size (inodes s i)) \<and> (i_size (inodes s i) \<noteq> 0 \<longrightarrow> unat (f_offset (files s fr)) < unat (i_size (inodes s i))) \<and>
     unat (i_size (inodes s i)) \<le> 5120"

definition in_pipe :: "nat \<Rightarrow> nat \<Rightarrow> 'a fil_scheme \<Rightarrow> u8 list" where
  "in_pipe i fr s = map (fbyte s i) [unat (f_offset (files s fr))..<unat (i_size (inodes s i))]"

lemma prele_run:
  obtains F w where "prele i s = s\<lparr>inodes := (inodes s)(i := (inodes s i)\<lparr>i_flag := F\<rparr>), wakeups := w\<rparr>" "ILOCK \<notin> F" "set (wakeups s) \<subseteq> set w"
proof (cases "IWANT \<in> i_flag (inodes s i)")
  case True
  then have "prele i s = s\<lparr>inodes := (inodes s)(i := (inodes s i)\<lparr>i_flag := i_flag (inodes s i) - {ILOCK} - {IWANT}\<rparr>), wakeups := Ch_inode i # wakeups s\<rparr>"
    by (simp add: prele_def Let_def i_upd_def awaken_def)
  then show thesis by (rule that) auto
next
  case False
  then have "prele i s = s\<lparr>inodes := (inodes s)(i := (inodes s i)\<lparr>i_flag := i_flag (inodes s i) - {ILOCK}\<rparr>), wakeups := wakeups s\<rparr>"
    by (simp add: prele_def Let_def i_upd_def)
  then show thesis by (rule that) auto
qed

text \<open>Changes that a pipe does not notice.\<close>

lemma wfile_fields:
  assumes "wfile dev fp {} i L s" "i_dev ip = i_dev (inodes s i)" "i_mode ip AND IFMT = IFREG" "i_addr ip = i_addr (inodes s i)"
  shows "wfile dev fp {} i L (s\<lparr>inodes := (inodes s)(i := ip), wakeups := w\<rparr>)"
proof -
  have "cont (s\<lparr>inodes := (inodes s)(i := ip), wakeups := w\<rparr>) = cont s" by simp
  then show ?thesis using assms by (simp add: wfile_def fs_free_def fs_at_def)
qed

lemma mode_bits:
  "i_mode ip AND IFMT = IFREG \<Longrightarrow> (i_mode ip AND NOT IREAD) AND IFMT = IFREG" "i_mode ip AND IFMT = IFREG \<Longrightarrow> (i_mode ip AND NOT IWRITE) AND IFMT = IFREG"
  "i_mode ip AND IFMT = IFREG \<Longrightarrow> (i_mode ip OR IREAD) AND IFMT = IFREG" "i_mode ip AND IFMT = IFREG \<Longrightarrow> (i_mode ip OR IWRITE) AND IFMT = IFREG"
proof -
  have "NOT IREAD AND IFMT = IFMT" "NOT IWRITE AND IFMT = IFMT" "IREAD AND IFMT = 0" "IWRITE AND IFMT = 0" by code_simp+
  then show "i_mode ip AND IFMT = IFREG \<Longrightarrow> (i_mode ip AND NOT IREAD) AND IFMT = IFREG" "i_mode ip AND IFMT = IFREG \<Longrightarrow> (i_mode ip AND NOT IWRITE) AND IFMT = IFREG"
    "i_mode ip AND IFMT = IFREG \<Longrightarrow> (i_mode ip OR IREAD) AND IFMT = IFREG" "i_mode ip AND IFMT = IFREG \<Longrightarrow> (i_mode ip OR IWRITE) AND IFMT = IFREG"
    by (simp_all add: and.assoc bit.conj_disj_distrib2)
qed

lemma wake_run:
  assumes "NOT m AND IFMT = IFMT"
  obtains M w where "(if i_mode (inodes s i) AND m \<noteq> 0 then awaken (Ch_pipe i k) (i_upd i (\<lambda>ip. ip\<lparr>i_mode := i_mode ip AND NOT m\<rparr>) s) else s) =
      s\<lparr>inodes := (inodes s)(i := (inodes s i)\<lparr>i_mode := M\<rparr>), wakeups := w\<rparr>"
    "M AND IFMT = i_mode (inodes s i) AND IFMT" "i_mode (inodes s i) AND m \<noteq> 0 \<longrightarrow> Ch_pipe i k \<in> set w" "set (wakeups s) \<subseteq> set w"
proof (cases "i_mode (inodes s i) AND m = 0")
  case True
  then have "(if i_mode (inodes s i) AND m \<noteq> 0 then awaken (Ch_pipe i k) (i_upd i (\<lambda>ip. ip\<lparr>i_mode := i_mode ip AND NOT m\<rparr>) s) else s) =
      s\<lparr>inodes := (inodes s)(i := (inodes s i)\<lparr>i_mode := i_mode (inodes s i)\<rparr>), wakeups := wakeups s\<rparr>" by simp
  then show thesis by (rule that) (use True in simp_all)
next
  case False
  have "(if i_mode (inodes s i) AND m \<noteq> 0 then awaken (Ch_pipe i k) (i_upd i (\<lambda>ip. ip\<lparr>i_mode := i_mode ip AND NOT m\<rparr>) s) else s) =
      s\<lparr>inodes := (inodes s)(i := (inodes s i)\<lparr>i_mode := i_mode (inodes s i) AND NOT m\<rparr>), wakeups := Ch_pipe i k # wakeups s\<rparr>"
    using False by (simp add: awaken_def i_upd_def)
  then show thesis by (rule that) (use assms in \<open>auto simp: and.assoc\<close>)
qed

lemma more_files: "ino.more t = ino.more s \<Longrightarrow> files t = files s \<and> u_ofile t = u_ofile s" for s t :: "'a fil_scheme"
  by (cases s; cases t) simp

lemma writep_pass_appends:
  assumes st: "sync_driver (d_strat sw)" and p: "pipe_ok dev fp i fr fw s"
    and u: "u_error s = 0" "n = unat c" "0 < n" "n \<le> 1024" "accessible (u_base s) n s"
  shows "if PIPSIZ \<le> unat (i_size (inodes s i))
    then \<exists>t. writep_pass sw fw c s = Asleep (Ch_pipe i 1) PPIPE t \<and> pipe_ok dev fp i fr fw t \<and> in_pipe i fr t = in_pipe i fr s
    else fpost (writep_pass sw fw c s) (\<lambda>r t. r = Some 0 \<and> pipe_ok dev fp i fr fw t \<and> in_pipe i fr t = in_pipe i fr s @ user_bytes (u_base s) n s \<and>
      (i_mode (inodes s i) AND IREAD \<noteq> 0 \<longrightarrow> Ch_pipe i 2 \<in> set (wakeups t)))"
proof -
  let ?ip = "inodes s i"
  let ?off = "unat (f_offset (files s fr))" and ?sz = "unat (i_size ?ip)"
  obtain L where L: "wfile dev fp {} i L s" "holes (i_addr ?ip) \<le> length L" using p by (auto simp: pipe_ok_def)
  have q: "drop 10 (i_addr ?ip) = [0, 0, 0]" "ILOCK \<notin> i_flag ?ip" "2 \<le> sint (i_count ?ip)" "f_inode (files s fr) = i" "f_inode (files s fw) = i" "?off \<le> ?sz"
    "i_size ?ip \<noteq> 0 \<longrightarrow> ?off < ?sz" "?sz \<le> 5120" using p by (simp_all add: pipe_ok_def)
  have ft: "i_mode ?ip AND IFMT = IFREG" using L(1) by (simp add: wfile_def)
  define v where "v = i_upd i (\<lambda>ip. ip\<lparr>i_flag := insert ILOCK (i_flag ip)\<rparr>) s"
  have pl: "plock i s = Ret () v" using q(2) by (simp add: plock_def v_def)
  have iv: "inodes v i = ?ip\<lparr>i_flag := insert ILOCK (i_flag ?ip)\<rparr>" "files v = files s" "\<And>j. j \<noteq> i \<Longrightarrow> inodes v j = inodes s j" by (simp_all add: v_def i_upd_def)
  have wv: "wfile dev fp {} i L v"
    using wfile_fields [OF L(1), of "?ip\<lparr>i_flag := insert ILOCK (i_flag ?ip)\<rparr>" "wakeups s"] ft by (simp add: v_def i_upd_def)
  have c0: "c \<noteq> 0" using u(2,3) by auto
  have ss: "sint (i_size ?ip) = int ?sz" by (rule sint_unat32) (use q(8) in simp)
  have szv: "i_size (inodes v i) = i_size ?ip" using iv(1) by simp
  show ?thesis
  proof (cases "PIPSIZ \<le> ?sz")
    case True
    then have full: "int PIPSIZ \<le> sint (i_size (inodes v i))" unfolding szv ss by (simp only: of_nat_le_iff)
    obtain F w where pr: "prele i (i_upd i (\<lambda>ip. ip\<lparr>i_mode := i_mode ip OR IWRITE\<rparr>) v) =
        (i_upd i (\<lambda>ip. ip\<lparr>i_mode := i_mode ip OR IWRITE\<rparr>) v)\<lparr>inodes := (inodes (i_upd i (\<lambda>ip. ip\<lparr>i_mode := i_mode ip OR IWRITE\<rparr>) v))
          (i := (inodes (i_upd i (\<lambda>ip. ip\<lparr>i_mode := i_mode ip OR IWRITE\<rparr>) v) i)\<lparr>i_flag := F\<rparr>), wakeups := w\<rparr>" "ILOCK \<notin> F"
      by (rule prele_run)
    define t where "t = s\<lparr>inodes := (inodes s)(i := ?ip\<lparr>i_mode := i_mode ?ip OR IWRITE, i_flag := F\<rparr>), wakeups := w\<rparr>"
    have "prele i (i_upd i (\<lambda>ip. ip\<lparr>i_mode := i_mode ip OR IWRITE\<rparr>) v) = t" unfolding pr(1) by (simp add: t_def v_def i_upd_def)
    then have "writep_pass sw fw c s = Asleep (Ch_pipe i 1) PPIPE t"
      using full c0 q(3) iv by (simp add: writep_pass_def Let_def q(5) pl)
    moreover have "wfile dev fp {} i L t" unfolding t_def by (rule wfile_fields [OF L(1)]) (simp_all add: ft mode_bits)
    then have "pipe_ok dev fp i fr fw t" using L(2) q pr(2) by (auto simp: pipe_ok_def t_def)
    moreover have "in_pipe i fr t = in_pipe i fr s" by (simp add: in_pipe_def t_def fbyte_def)
    ultimately show ?thesis using True by auto
  next
    case False
    then have nf: "\<not> int PIPSIZ \<le> sint (i_size (inodes v i))" unfolding szv ss by (simp only: of_nat_le_iff not_False_eq_True)
    have un: "umin c (of_nat PIPSIZ) = c"
    proof -
      have "unat c < unat (4096 :: u16)" using u(2,4) by simp
      then show ?thesis by (simp add: umin_def PIPSIZ_def word_less_nat_alt)
    qed
    define x where "x = v\<lparr>u_offset := i_size (inodes v i), u_count := c\<rparr>"
    have wx: "wfile dev fp {} i L x" using wv by (simp add: x_def wfile_def fs_free_def fs_at_def)
    have ux: "u_error x = 0" "n = unat (u_count x)" "accessible (u_base x) n x" "unat (u_offset x) = ?sz" "unat (i_size (inodes x i)) < 2 ^ 31"
      using u iv q(8) by (simp_all add: x_def v_def i_upd_def accessible_def)
    have lim: "unat (u_offset x) + n \<le> 5120" using False u(4) ux(4) by (simp add: PIPSIZ_def)
    have hx: "holes (i_addr (inodes x i)) \<le> length L" using L(2) iv(1) by (simp add: x_def)
    have bx: "user_bytes (u_base x) n x = user_bytes (u_base s) n s" by (simp add: x_def v_def i_upd_def user_bytes_def)
    define bs where "bs = user_bytes (u_base s) n s"
    have lb: "length bs = n" by (simp add: bs_def user_bytes_def)
    define G where "G = (\<lambda>s. let s = prele i s in if i_mode (inodes s i) AND IREAD \<noteq> 0
         then awaken (Ch_pipe i 2) (i_upd i (\<lambda>ip. ip\<lparr>i_mode := i_mode ip AND NOT IREAD\<rparr>) s) else s :: 'a fil_scheme)"
    have e: "writep_pass sw fw c s = fbind (writei (d_strat sw) (c_write sw) i x) (\<lambda>_ s. Ret (Some (c - c)) (G s))"
      using nf c0 q(3) iv by (simp add: writep_pass_def Let_def q(5) pl un x_def G_def)
    have "fpost (writei (d_strat sw) (c_write sw) i x) (\<lambda>_ t. pipe_ok dev fp i fr fw (G t) \<and> in_pipe i fr (G t) = in_pipe i fr s @ bs \<and>
      (i_mode (inodes s i) AND IREAD \<noteq> 0 \<longrightarrow> Ch_pipe i 2 \<in> set (wakeups (G t))))"
    proof (rule fpost_mono [OF writei_stores_all [OF st wx _ hx ux(1,2) u(3) ux(3) lim ux(5)]])
      fix y :: unit and t
      assume "stored dev fp {} i L (user_bytes (u_base x) n x) x t"
      then have t: "stored dev fp {} i L bs x t" by (simp add: bx bs_def)
      then obtain L' where L': "wfile dev fp {} i L' t" "holes (i_addr (inodes t i)) \<le> length L'" unfolding stored_def by blast
      have rt: "files t = files s" "i_mode (inodes t i) = i_mode ?ip" "i_count (inodes t i) = i_count ?ip" "drop 10 (i_addr (inodes t i)) = [0, 0, 0]"
        using same_rest_fields [OF storedD(3) [OF t]] storedD(5) [OF t] q(1) iv more_files [of t x] by (simp_all add: x_def)
      have ot: "unat (u_offset t) = ?sz + n"
      proof -
        have "u_offset t = u_offset (moved n x)" using t lb by (simp add: stored_def uio_same_def)
        then show ?thesis using moved_offset(1) [of x n] lim ux(2,4) by simp
      qed
      have so: "sint (u_offset t) = int (?sz + n)" unfolding ot [symmetric] by (rule sint_unat32) (use ot lim ux(4) in simp)
      have "sint (i_size (inodes x i)) < sint (u_offset t)" using u(3) iv(1) by (simp add: x_def so ss del: of_nat_unat)
      moreover have "bs \<noteq> []" using lb u(3) by auto
      ultimately have sz: "i_size (inodes t i) = u_offset t" using t unfolding stored_def by simp
      obtain F w where pr: "prele i t = t\<lparr>inodes := (inodes t)(i := (inodes t i)\<lparr>i_flag := F\<rparr>), wakeups := w\<rparr>" "ILOCK \<notin> F" by (rule prele_run)
      have mk: "NOT IREAD AND IFMT = IFMT" by code_simp
      obtain M w' where wk: "(if i_mode (inodes (prele i t) i) AND IREAD \<noteq> 0 then awaken (Ch_pipe i 2) (i_upd i (\<lambda>ip. ip\<lparr>i_mode := i_mode ip AND NOT IREAD\<rparr>) (prele i t))
            else prele i t) = (prele i t)\<lparr>inodes := (inodes (prele i t))(i := (inodes (prele i t) i)\<lparr>i_mode := M\<rparr>), wakeups := w'\<rparr>"
        "M AND IFMT = i_mode (inodes (prele i t) i) AND IFMT" "i_mode (inodes (prele i t) i) AND IREAD \<noteq> 0 \<longrightarrow> Ch_pipe i 2 \<in> set w'"
        by (rule wake_run [OF mk])
      have G: "G t = t\<lparr>inodes := (inodes t)(i := (inodes t i)\<lparr>i_flag := F, i_mode := M\<rparr>), wakeups := w'\<rparr>" "M AND IFMT = IFREG"
        "i_mode ?ip AND IREAD \<noteq> 0 \<longrightarrow> Ch_pipe i 2 \<in> set w'"
        using wk(2,3) rt(2) ft unfolding G_def Let_def wk(1) by (simp_all add: pr(1))
      have "wfile dev fp {} i L' (G t)" unfolding G(1) by (rule wfile_fields [OF L'(1)]) (simp_all add: G(2))
      moreover have g: "inodes (G t) i = (inodes t i)\<lparr>i_flag := F, i_mode := M\<rparr>" "files (G t) = files s" unfolding G(1) by (simp_all add: rt(1))
      moreover have "unat (i_size (inodes t i)) = ?sz + n" unfolding sz ot ..
      moreover have "i_size (inodes t i) \<noteq> 0" using ot u(3) unfolding sz by auto
      ultimately have "pipe_ok dev fp i fr fw (G t)"
        using L'(2) rt(3,4) q(3-6) pr(2) lim ux(4) u(3) unfolding pipe_ok_def by auto
      moreover have "in_pipe i fr (G t) = in_pipe i fr s @ bs"
      proof (rule nth_equalityI)
        show "length (in_pipe i fr (G t)) = length (in_pipe i fr s @ bs)" using q(6) by (simp add: in_pipe_def G(1) rt sz ot lb)
        fix j assume "j < length (in_pipe i fr (G t))"
        then have j: "?off + j < ?sz + n" using q(6) by (simp add: in_pipe_def G(1) rt sz ot)
        have "in_pipe i fr (G t) ! j = fbyte t i (?off + j)" using j by (simp add: in_pipe_def G(1) rt sz ot fbyte_def)
        also have "\<dots> = (if ?sz \<le> ?off + j then bs ! (?off + j - ?sz) else fbyte x i (?off + j))"
          using t j lim ux(4) lb unfolding stored_def by simp
        also have "\<dots> = (in_pipe i fr s @ bs) ! j"
          using q(6) j by (auto simp: in_pipe_def nth_append fbyte_def x_def iv v_def i_upd_def not_less add.commute)
        finally show "in_pipe i fr (G t) ! j = (in_pipe i fr s @ bs) ! j" .
      qed
      ultimately show "pipe_ok dev fp i fr fw (G t) \<and> in_pipe i fr (G t) = in_pipe i fr s @ bs \<and>
        (i_mode (inodes s i) AND IREAD \<noteq> 0 \<longrightarrow> Ch_pipe i 2 \<in> set (wakeups (G t)))" using G(1,3) by simp
    qed (use demo_bio(4) in simp)
    then show ?thesis using False unfolding e by (simp, intro fpost_bind, elim fpost_mono) (simp add: bs_def)
  qed
qed

lemma readp_takes:
  assumes st: "sync_driver (d_strat sw)" and p: "pipe_ok dev fp i fr fw s"
    and u: "u_error s = 0" "u_count s \<noteq> 0" "accessible (u_base s) (unat (u_count s)) s"
    and n: "n = min (unat (u_count s)) (length (in_pipe i fr s))"
  shows "if in_pipe i fr s = []
    then \<exists>t. readp sw fr s = Asleep (Ch_pipe i 2) PPIPE t \<and> pipe_ok dev fp i fr fw t \<and> in_pipe i fr t = []
    else fpost (readp sw fr s) (\<lambda>_ t. pipe_ok dev fp i fr fw t \<and> in_pipe i fr t = drop n (in_pipe i fr s) \<and>
      u_mem t = (u_mem s)(u_segflg s := put_mem (u_base s) (take n (in_pipe i fr s)) (u_mem s (u_segflg s))) \<and> u_error t = 0 \<and> u_segflg t = u_segflg s \<and>
      unat (u_count t) = unat (u_count s) - n \<and>
      (drop n (in_pipe i fr s) = [] \<and> i_mode (inodes s i) AND IWRITE \<noteq> 0 \<longrightarrow> Ch_pipe i 1 \<in> set (wakeups t)))"
proof -
  let ?ip = "inodes s i"
  let ?off = "unat (f_offset (files s fr))" and ?sz = "unat (i_size ?ip)"
  obtain L where L: "wfile dev fp {} i L s" "holes (i_addr ?ip) \<le> length L" using p by (auto simp: pipe_ok_def)
  have q: "drop 10 (i_addr ?ip) = [0, 0, 0]" "ILOCK \<notin> i_flag ?ip" "2 \<le> sint (i_count ?ip)" "f_inode (files s fr) = i" "f_inode (files s fw) = i" "?off \<le> ?sz"
    "i_size ?ip \<noteq> 0 \<longrightarrow> ?off < ?sz" "?sz \<le> 5120" using p by (simp_all add: pipe_ok_def)
  have ft: "i_mode ?ip AND IFMT = IFREG" using L(1) by (simp add: wfile_def)
  define v where "v = i_upd i (\<lambda>ip. ip\<lparr>i_flag := insert ILOCK (i_flag ip)\<rparr>) s"
  have pl: "plock i s = Ret () v" using q(2) by (simp add: plock_def v_def)
  have iv: "inodes v i = ?ip\<lparr>i_flag := insert ILOCK (i_flag ?ip)\<rparr>" "files v = files s" "\<And>j. j \<noteq> i \<Longrightarrow> inodes v j = inodes s j" by (simp_all add: v_def i_upd_def)
  have wv: "wfile dev fp {} i L v"
    using wfile_fields [OF L(1), of "?ip\<lparr>i_flag := insert ILOCK (i_flag ?ip)\<rparr>" "wakeups s"] ft by (simp add: v_def i_upd_def)
  have em: "in_pipe i fr s = [] \<longleftrightarrow> i_size ?ip = 0" "length (in_pipe i fr s) = ?sz - ?off" using q(7) by (auto simp: in_pipe_def)
  show ?thesis
  proof (cases "i_size ?ip = 0")
    case True
    obtain F w where pr: "prele i v = v\<lparr>inodes := (inodes v)(i := (inodes v i)\<lparr>i_flag := F\<rparr>), wakeups := w\<rparr>" "ILOCK \<notin> F" by (rule prele_run)
    define t where "t = s\<lparr>inodes := (inodes s)(i := ?ip\<lparr>i_flag := F, i_mode := i_mode ?ip OR IREAD\<rparr>), wakeups := w\<rparr>"
    have "i_upd i (\<lambda>ip. ip\<lparr>i_mode := i_mode ip OR IREAD\<rparr>) (prele i v) = t" unfolding pr(1) by (cases s) (simp add: t_def v_def i_upd_def)
    then have "readp sw fr s = Asleep (Ch_pipe i 2) PPIPE t"
      using True q(3) iv pr(1) by (simp add: readp_def Let_def q(4) pl)
    moreover have "wfile dev fp {} i L t" unfolding t_def by (rule wfile_fields [OF L(1)]) (simp_all add: ft mode_bits)
    then have "pipe_ok dev fp i fr fw t" using L(2) q pr(2) by (auto simp: pipe_ok_def t_def)
    moreover have "in_pipe i fr t = []" using True by (simp add: in_pipe_def t_def)
    ultimately show ?thesis using True em by auto
  next
    case False
    define x where "x = v\<lparr>u_offset := f_offset (files s fr)\<rparr>"
    have wx: "wfile dev fp {} i L x" using wv by (simp add: x_def wfile_def fs_free_def fs_at_def)
    have ix: "inodes x i = inodes v i" "cont x = cont s" "files x = files s" by (simp_all add: x_def v_def i_upd_def)
    have ty: "\<not> is_block_dev (inodes x i)" "\<not> is_char_dev (inodes x i)" using wx file_type by (auto simp: wfile_def)
    have dx: "i_dev (inodes x i) = dev" "direct_ok (i_addr (inodes x i)) (set L)" "binv x {}" "usable x dev" using wx by (simp_all add: wfile_def)
    have dp: "i_dev ?ip = dev" "i_addr (inodes x i) = i_addr ?ip" "i_size (inodes x i) = i_size ?ip" "i_mode (inodes x i) = i_mode ?ip" "i_count (inodes x i) = i_count ?ip"
      using dx(1) iv(1) ix(1) by simp_all
    have bk: "blocks_ok (cont x (i_dev (inodes x i))) (i_addr (inodes x i))" by (rule blocks_ok_small [OF dx(2)]) (use q(1) dp in simp)
    have N: "n = min (unat (u_count x)) (unat (i_size (inodes x i)) - unat (u_offset x))"
      unfolding n em(2) dp(3) by (simp add: x_def v_def i_upd_def)
    have so: "sint (f_offset (files s fr)) = int ?off" by (rule sint_unat32) (use q(6,8) in simp)
    have o0: "0 \<le> sint (u_offset x)" unfolding x_def by (simp add: so del: of_nat_unat)
    have qb: "file_bytes (cont x (i_dev (inodes x i))) (i_addr (inodes x i)) (unat (u_offset x)) n = take n (in_pipe i fr s)"
    proof (rule nth_equalityI)
      show "length (file_bytes (cont x (i_dev (inodes x i))) (i_addr (inodes x i)) (unat (u_offset x)) n) = length (take n (in_pipe i fr s))" using n by simp
      fix j assume "j < length (file_bytes (cont x (i_dev (inodes x i))) (i_addr (inodes x i)) (unat (u_offset x)) n)"
      then have j: "j < n" by simp
      then have "j < ?sz - ?off" using n em(2) by simp
      then have "?off + j < ?sz" by linarith
      with j show "file_bytes (cont x (i_dev (inodes x i))) (i_addr (inodes x i)) (unat (u_offset x)) n ! j = take n (in_pipe i fr s) ! j"
        by (simp add: file_bytes_def in_pipe_def fbyte_def dp dx(1) ix(2)) (simp add: x_def)
    qed
    define G where "G = (\<lambda>s. let s = f_upd fr (\<lambda>fp. fp\<lparr>f_offset := u_offset s\<rparr>) s;
                s = (if f_offset (files s fr) = i_size (inodes s i) then
                       let s = i_upd i (\<lambda>ip. ip\<lparr>i_size := 0\<rparr>) (f_upd fr (\<lambda>fp. fp\<lparr>f_offset := 0\<rparr>) s) in
                       if i_mode (inodes s i) AND IWRITE \<noteq> 0
                       then awaken (Ch_pipe i 1) (i_upd i (\<lambda>ip. ip\<lparr>i_mode := i_mode ip AND NOT IWRITE\<rparr>) s) else s
                     else s)
            in prele i s :: 'a fil_scheme)"
    have e: "readp sw fr s = fbind (readi (d_strat sw) (c_read sw) i x) (\<lambda>_ s. Ret () (G s))"
      using False iv(1,2) unfolding readp_def Let_def q(4) pl G_def by (simp add: x_def q(4))
    have "fpost (readi (d_strat sw) (c_read sw) i x) (\<lambda>_ t. delivered (take n (in_pipe i fr s)) x t \<and> binv t {} \<and> cont t = cont x \<and>
      (\<exists>l. inodes t i = (inodes x i)\<lparr>i_flag := insert IACC (i_flag (inodes x i)), i_lastr := l\<rparr>) \<and> usable t = usable x \<and> kept x t)"
    proof (rule fpost_mono [OF readi_reads [where s = x and i = i and N = n and H = "{}" and drd = "c_read sw", OF st _ _]])
      show "binv x {}" "usable x (i_dev (inodes x i))" "0 \<le> sint (u_offset x)" "n = min (unat (u_count x)) (unat (i_size (inodes x i)) - unat (u_offset x))"
        "\<not> is_block_dev (inodes x i)" "\<not> is_char_dev (inodes x i)" "blocks_ok (cont x (i_dev (inodes x i))) (i_addr (inodes x i))"
        using dx ty bk o0 N by simp_all
      show "card ({} :: bnode set) + 1 < NBUF" "\<forall>c \<in> {}. b_dev x c \<noteq> i_dev (inodes x i)" by (simp_all add: NBUF_def)
      show "unat (i_size (inodes x i)) \<le> 512 * max_blocks" using dp(3) q(8) by (simp add: max_blocks_def)
      show "u_error x = 0" "u_count x \<noteq> 0" "accessible (u_base x) n x" using u n by (simp_all add: x_def v_def i_upd_def accessible_def)
    qed (unfold qb, blast)
    moreover have "pipe_ok dev fp i fr fw (G t) \<and> in_pipe i fr (G t) = drop n (in_pipe i fr s) \<and>
      u_mem (G t) = (u_mem s)(u_segflg s := put_mem (u_base s) (take n (in_pipe i fr s)) (u_mem s (u_segflg s))) \<and> u_error (G t) = 0 \<and> u_segflg (G t) = u_segflg s \<and>
      unat (u_count (G t)) = unat (u_count s) - n \<and>
      (drop n (in_pipe i fr s) = [] \<and> i_mode ?ip AND IWRITE \<noteq> 0 \<longrightarrow> Ch_pipe i 1 \<in> set (wakeups (G t)))"
      if t: "delivered (take n (in_pipe i fr s)) x t \<and> binv t {} \<and> cont t = cont x \<and>
        (\<exists>l. inodes t i = (inodes x i)\<lparr>i_flag := insert IACC (i_flag (inodes x i)), i_lastr := l\<rparr>) \<and> usable t = usable x \<and> kept x t" for t
    proof -
      have nl: "n \<le> ?sz - ?off" "length (take n (in_pipe i fr s)) = n" using n em(2) by simp_all
      have it: "i_dev (inodes t i) = dev" "i_mode (inodes t i) = i_mode ?ip" "i_addr (inodes t i) = i_addr ?ip" "i_count (inodes t i) = i_count ?ip"
        "i_size (inodes t i) = i_size ?ip" "files t = files s"
        using t dx(1) dp(2-5) ix(3) more_files [of t x] by (auto simp: kept_def)
      have ct: "cont t = cont s" using t ix(2) by simp
      have "fs_free t dev fp L" by (rule fs_free_cong [of x]) (use wx t in \<open>simp_all add: wfile_def kept_def\<close>)
      then have wt: "wfile dev fp {} i L t" using wx t it dp(2) by (simp add: wfile_def dp(4))
      have ut: "u_offset t = u_offset x + of_nat n" "u_count t = u_count s - of_nat n" "u_error t = 0" "u_segflg t = u_segflg s"
        "u_mem t = (u_mem s)(u_segflg s := put_mem (u_base s) (take n (in_pipe i fr s)) (u_mem s (u_segflg s)))"
        using t u(1) nl(2) by (simp_all add: delivered_def x_def v_def i_upd_def)
      have uc: "unat (u_count t) = unat (u_count s) - n"
        using n unsigned_less [of "u_count s", where 'a = nat] unfolding ut(2) by (simp add: unat_sub_if' unat_of_nat take_bit_nat_eq_self)
      have ot: "unat (u_offset t) = ?off + n"
        using nl(1) q(6,8) unfolding ut(1) x_def by (simp add: unat_word_ariths(1) unat_of_nat take_bit_nat_eq_self)
      have ef: "u_offset t = i_size ?ip \<longleftrightarrow> ?off + n = ?sz" unfolding word_unat_eq_iff ot ..
      have fin: "pipe_ok dev fp i fr fw g \<and> in_pipe i fr g = drop n (in_pipe i fr s)"
        if g: "wfile dev fp {} i L g" "ILOCK \<notin> i_flag (inodes g i)" "i_addr (inodes g i) = i_addr ?ip" "i_count (inodes g i) = i_count ?ip"
          "f_inode (files g fr) = i" "f_inode (files g fw) = i" "cont g = cont s"
          "if ?off + n = ?sz then i_size (inodes g i) = 0 \<and> f_offset (files g fr) = 0
           else i_size (inodes g i) = i_size ?ip \<and> unat (f_offset (files g fr)) = ?off + n" for g
      proof
        have "i_dev (inodes g i) = dev" using g(1) by (simp add: wfile_def)
        then have "fbyte g i = fbyte s i" using g(3,7) dp(1) by (intro ext) (simp add: fbyte_def)
        then show "in_pipe i fr g = drop n (in_pipe i fr s)" using g(8) by (auto simp: in_pipe_def drop_map split: if_splits)
        have "unat (f_offset (files g fr)) \<le> unat (i_size (inodes g i)) \<and> unat (i_size (inodes g i)) \<le> 5120 \<and>
          (i_size (inodes g i) \<noteq> 0 \<longrightarrow> unat (f_offset (files g fr)) < unat (i_size (inodes g i)))"
          using g(8) nl(1) q(6,8) by (auto split: if_splits)
        then show "pipe_ok dev fp i fr fw g" using g(1-6) L(2) q unfolding pipe_ok_def by auto
      qed
      show ?thesis
      proof (cases "?off + n = ?sz")
        case neq: False
        define y where "y = f_upd fr (\<lambda>fp. fp\<lparr>f_offset := u_offset t\<rparr>) t"
        have y: "wfile dev fp {} i L y" "inodes y = inodes t" "cont y = cont t" "u_mem y = u_mem t" "u_error y = u_error t" "u_count y = u_count t" "u_segflg y = u_segflg t"
          "files y = (files s)(fr := (files s fr)\<lparr>f_offset := u_offset t\<rparr>)"
          using wt it(6) by (simp_all add: y_def f_upd_def wfile_def fs_free_def fs_at_def)
        obtain F w where pr: "prele i y = y\<lparr>inodes := (inodes y)(i := (inodes y i)\<lparr>i_flag := F\<rparr>), wakeups := w\<rparr>" "ILOCK \<notin> F" by (rule prele_run)
        have "G t = prele i y" using neq ef y(2,8) it by (simp add: G_def y_def [symmetric] Let_def)
        moreover have "wfile dev fp {} i L (prele i y)" unfolding pr(1) by (rule wfile_fields [OF y(1)]) (use it y(2) ft in simp_all)
        ultimately show ?thesis
          using fin [of "G t"] neq pr y it ct ut uc ot q em nl(1) by (auto simp: in_pipe_def)
      next
        case eq: True
        define z where "z = i_upd i (\<lambda>ip. ip\<lparr>i_size := 0\<rparr>) (f_upd fr (\<lambda>fp. fp\<lparr>f_offset := 0\<rparr>) (f_upd fr (\<lambda>fp. fp\<lparr>f_offset := u_offset t\<rparr>) t))"
        have "wfile dev fp {} i L (t\<lparr>files := (files s)(fr := (files s fr)\<lparr>f_offset := 0\<rparr>)\<rparr>)"
          using wt by (simp add: wfile_def fs_free_def fs_at_def)
        from wfile_fields [OF this, of "(inodes t i)\<lparr>i_size := 0\<rparr>" "wakeups t"] have wz: "wfile dev fp {} i L z"
          using it ft by (simp add: z_def i_upd_def f_upd_def)
        have z: "inodes z i = (inodes t i)\<lparr>i_size := 0\<rparr>" "cont z = cont t" "u_mem z = u_mem t" "u_error z = u_error t" "u_count z = u_count t" "u_segflg z = u_segflg t"
          "files z = (files s)(fr := (files s fr)\<lparr>f_offset := 0\<rparr>)"
          using it(6) by (simp_all add: z_def f_upd_def i_upd_def)
        have mk: "NOT IWRITE AND IFMT = IFMT" by code_simp
        obtain M w' where wk: "(if i_mode (inodes z i) AND IWRITE \<noteq> 0 then awaken (Ch_pipe i 1) (i_upd i (\<lambda>ip. ip\<lparr>i_mode := i_mode ip AND NOT IWRITE\<rparr>) z)
            else z) = z\<lparr>inodes := (inodes z)(i := (inodes z i)\<lparr>i_mode := M\<rparr>), wakeups := w'\<rparr>"
          "M AND IFMT = i_mode (inodes z i) AND IFMT" "i_mode (inodes z i) AND IWRITE \<noteq> 0 \<longrightarrow> Ch_pipe i 1 \<in> set w'"
          by (rule wake_run [OF mk])
        define y where "y = z\<lparr>inodes := (inodes z)(i := (inodes z i)\<lparr>i_mode := M\<rparr>), wakeups := w'\<rparr>"
        have wy: "wfile dev fp {} i L y" unfolding y_def by (rule wfile_fields [OF wz]) (use wk(2) z(1) it ft in simp_all)
        obtain F w where pr: "prele i y = y\<lparr>inodes := (inodes y)(i := (inodes y i)\<lparr>i_flag := F\<rparr>), wakeups := w\<rparr>" "ILOCK \<notin> F" "set (wakeups y) \<subseteq> set w"
          by (rule prele_run)
        have y: "inodes y i = (inodes t i)\<lparr>i_size := 0, i_mode := M\<rparr>" "cont y = cont t" "u_mem y = u_mem t" "u_error y = u_error t" "u_count y = u_count t" "u_segflg y = u_segflg t"
          "files y = (files s)(fr := (files s fr)\<lparr>f_offset := 0\<rparr>)" "wakeups y = w'"
          using z by (simp_all add: y_def)
        have "f_offset (files (f_upd fr (\<lambda>fp. fp\<lparr>f_offset := u_offset t\<rparr>) t) fr) = i_size (inodes (f_upd fr (\<lambda>fp. fp\<lparr>f_offset := u_offset t\<rparr>) t) i)"
          using eq ef it(5) by (simp add: f_upd_def)
        then have "G t = prele i y" unfolding G_def Let_def z_def [symmetric] wk(1) by (simp add: y_def)
        moreover have "wfile dev fp {} i L (prele i y)" unfolding pr(1) by (rule wfile_fields [OF wy]) (use wy in \<open>simp_all add: wfile_def\<close>)
        moreover have "Ch_pipe i 1 \<in> set w" if "i_mode ?ip AND IWRITE \<noteq> 0" using that wk(3) z(1) it(2) pr(3) y(8) by auto
        ultimately show ?thesis
          using fin [of "G t"] eq pr(1,2) y it ct ut uc ot q em by (auto simp: in_pipe_def)
      qed
    qed
    ultimately show ?thesis using False em(1) unfolding e by (simp, intro fpost_bind, elim fpost_mono) simp
  qed
qed
text \<open>A process that reads or writes has memory and arguments of its own.\<close>

definition user_area :: "u16 \<Rightarrow> u16 \<Rightarrow> (u8 \<Rightarrow> u16 \<Rightarrow> u8 option) \<Rightarrow> 'a fil_scheme \<Rightarrow> 'a fil_scheme" where
  "user_area b c m s = s\<lparr>u_base := b, u_count := c, u_segflg := 0, u_error := 0, u_mem := m\<rparr>"

lemma user_area_pipe [simp]:
  "pipe_ok dev fp i fr fw (user_area b c m s) = pipe_ok dev fp i fr fw s" "in_pipe i fr (user_area b c m s) = in_pipe i fr s"
  "inodes (user_area b c m s) = inodes s" "u_base (user_area b c m s) = b" "u_count (user_area b c m s) = c" "u_error (user_area b c m s) = 0"
  "u_segflg (user_area b c m s) = 0" "u_mem (user_area b c m s) = m"
  by (simp_all add: user_area_def pipe_ok_def in_pipe_def wfile_def fs_free_def fs_at_def fbyte_def fun_eq_iff)

lemma put_mem_other: "(\<And>j. j < length bs \<Longrightarrow> x \<noteq> a + of_nat j) \<Longrightarrow> put_mem a bs f x = f x"
proof (induction bs arbitrary: a f)
  case (Cons c cs)
  have "put_mem (a + 1) cs (f(a \<mapsto> c)) x = (f(a \<mapsto> c)) x"
    by (rule Cons.IH) (use Cons.prems [of "Suc j" for j] in \<open>simp add: add.assoc\<close>)
  then show ?case using Cons.prems [of 0] by simp
qed simp

lemma put_mem_at: "j < length bs \<Longrightarrow> length bs \<le> 2 ^ 16 \<Longrightarrow> put_mem a bs f (a + of_nat j) = Some (bs ! j)"
proof (induction bs arbitrary: a f j)
  case (Cons c cs)
  show ?case
  proof (cases j)
    case 0
    have "put_mem (a + 1) cs (f(a \<mapsto> c)) a = (f(a \<mapsto> c)) a"
    proof (rule put_mem_other)
      fix k assume "k < length cs"
      then have "unat (of_nat (Suc k) :: u16) = Suc k" using Cons.prems(2) by (simp add: unat_of_nat take_bit_nat_eq_self del: of_nat_Suc)
      then have "of_nat (Suc k) \<noteq> (0 :: u16)" by (metis nat.distinct(1) unsigned_0)
      then show "a \<noteq> a + 1 + of_nat k" by (simp add: add.assoc)
    qed
    then show ?thesis using 0 by simp
  next
    case (Suc k)
    have "put_mem (a + 1) cs (f(a \<mapsto> c)) (a + 1 + of_nat k) = Some (cs ! k)" by (rule Cons.IH) (use Suc Cons.prems in simp_all)
    then show ?thesis by (simp only: Suc put_mem.simps of_nat_Suc nth_Cons_Suc add.assoc)
  qed
qed simp

text \<open>
  The calls of the processes at the two ends, in any order, each with a memory of its own: \<open>pipe_run sw fr fw s w r t\<close> when they have led from \<open>s\<close>
  to \<open>t\<close>, the bytes \<open>w\<close> have been written and the bytes \<open>r\<close> are what the readers found in their buffers. A call that sleeps is
  begun again later.
\<close>

inductive pipe_run :: "'a devsw \<Rightarrow> nat \<Rightarrow> nat \<Rightarrow> 'a fil_scheme \<Rightarrow> u8 list \<Rightarrow> u8 list \<Rightarrow> 'a fil_scheme \<Rightarrow> bool" for sw fr fw s where
  start: "pipe_run sw fr fw s [] [] s"
| write_pass: "pipe_run sw fr fw s w r t \<Longrightarrow> u = user_area b c m t \<Longrightarrow> 0 < unat c \<Longrightarrow> unat c \<le> 1024 \<Longrightarrow> accessible b (unat c) u \<Longrightarrow>
    writep_pass sw fw c u = Ret x v \<Longrightarrow> pipe_run sw fr fw s (w @ user_bytes b (unat c) u) r v"
| write_wait: "pipe_run sw fr fw s w r t \<Longrightarrow> u = user_area b c m t \<Longrightarrow> 0 < unat c \<Longrightarrow> unat c \<le> 1024 \<Longrightarrow> accessible b (unat c) u \<Longrightarrow>
    writep_pass sw fw c u = Asleep ch pri v \<Longrightarrow> pipe_run sw fr fw s w r v"
| read_pass: "pipe_run sw fr fw s w r t \<Longrightarrow> u = user_area b c m t \<Longrightarrow> c \<noteq> 0 \<Longrightarrow> accessible b (unat c) u \<Longrightarrow>
    readp sw fr u = Ret () v \<Longrightarrow> pipe_run sw fr fw s w (r @ user_bytes b (unat c - unat (u_count v)) v) v"
| read_wait: "pipe_run sw fr fw s w r t \<Longrightarrow> u = user_area b c m t \<Longrightarrow> c \<noteq> 0 \<Longrightarrow> accessible b (unat c) u \<Longrightarrow>
    readp sw fr u = Asleep ch pri v \<Longrightarrow> pipe_run sw fr fw s w r v"

lemma read_pass_takes:
  assumes st: "sync_driver (d_strat sw)" and p: "pipe_ok dev fp i fr fw t" and u: "u = user_area b c m t" "c \<noteq> 0" "accessible b (unat c) u"
    and e: "readp sw fr u = Ret () v"
  shows "pipe_ok dev fp i fr fw v" "in_pipe i fr t = user_bytes b (unat c - unat (u_count v)) v @ in_pipe i fr v"
proof -
  define n where "n = min (unat c) (length (in_pipe i fr t))"
  have pu: "pipe_ok dev fp i fr fw u" "u_error u = 0" "u_count u \<noteq> 0" "accessible (u_base u) (unat (u_count u)) u"
    "n = min (unat (u_count u)) (length (in_pipe i fr u))" using p u by (simp_all add: n_def)
  have v: "pipe_ok dev fp i fr fw v" "in_pipe i fr v = drop n (in_pipe i fr t)" "unat (u_count v) = unat c - n"
    "u_mem v 0 = put_mem b (take n (in_pipe i fr t)) (m 0)" "u_segflg v = 0"
    using readp_takes [OF st pu] e u(1) by (auto split: if_splits elim: fpostE)
  have n: "n \<le> unat c" "n \<le> length (in_pipe i fr t)" by (simp_all add: n_def)
  then have k: "unat c - unat (u_count v) = n" using v(3) by simp
  have "n \<le> 2 ^ 16" using n(1) unsigned_less [of c, where 'a = nat] by simp
  then have "user_bytes b n v = take n (in_pipe i fr t)"
    by (intro nth_equalityI) (use n put_mem_at [of _ "take n (in_pipe i fr t)" b "m 0"] in \<open>simp_all add: user_bytes_def v(4,5)\<close>)
  then show "pipe_ok dev fp i fr fw v" "in_pipe i fr t = user_bytes b (unat c - unat (u_count v)) v @ in_pipe i fr v"
    using v(1,2) k by simp_all
qed

section \<open>The properties\<close>

text \<open>
  C2. A pipe is a queue of bytes. Whatever passes of \<open>readp\<close> and \<open>writep\<close> the processes at its ends make, each from a memory of its own, in
  whatever order and with whatever sleeps between them: the bytes that were in the pipe at first, followed by those that were written,
  are the bytes the readers found in their buffers followed by those that are in the pipe now. None is lost, doubled, changed or
  overtaken, though the file that carries them is truncated and filled again, takes new blocks and goes through the cache. The
  writes are of at most 1024 bytes, with which the file stays within its direct blocks.
\<close>

theorem pipe_fifo:
  assumes "pipe_run sw fr fw s w r t" "sync_driver (d_strat sw)" "pipe_ok dev fp i fr fw s"
  shows "pipe_ok dev fp i fr fw t \<and> in_pipe i fr s @ w = r @ in_pipe i fr t"
  using assms(1)
proof induction
  case start
  then show ?case using assms(3) by simp
next
  case (write_pass w r t u b c m x v)
  have "pipe_ok dev fp i fr fw u" "u_error u = 0" "accessible (u_base u) (unat c) u" using write_pass by simp_all
  from writep_pass_appends [OF assms(2) this(1,2) refl write_pass.hyps(3,4) this(3)] show ?case
    using write_pass by (auto split: if_splits elim: fpostE)
next
  case (write_wait w r t u b c m ch pri v)
  have "pipe_ok dev fp i fr fw u" "u_error u = 0" "accessible (u_base u) (unat c) u" using write_wait by simp_all
  from writep_pass_appends [OF assms(2) this(1,2) refl write_wait.hyps(3,4) this(3)] show ?case
    using write_wait by (auto split: if_splits elim: fpostE)
next
  case (read_pass w r t u b c m v)
  then have p: "pipe_ok dev fp i fr fw t" by blast
  note v = read_pass_takes [OF assms(2) p read_pass.hyps(2-5)]
  show ?case using read_pass.IH unfolding v(2) by (simp add: v(1))
next
  case (read_wait w r t u b c m ch pri v)
  have "pipe_ok dev fp i fr fw u" "u_error u = 0" "u_count u \<noteq> 0" "accessible (u_base u) (unat (u_count u)) u" using read_wait by simp_all
  from readp_takes [OF assms(2) this refl] show ?case
    using read_wait by (auto split: if_splits elim: fpostE)
qed

text \<open>
  C20. The two ends never wait for each other. Whatever a process at one end and one at the other ask for, in any state of the pipe one of
  the two calls does not sleep: the reader's pass returns with bytes, or the writer's pass has written all it was to write.
  And a wait ends: a pass of the reader that empties the pipe wakes the writers that have slept because it was full, and a pass of the writer
  wakes the readers that have slept because it was empty.
\<close>

theorem pipe_never_stuck:
  assumes st: "sync_driver (d_strat sw)" and p: "pipe_ok dev fp i fr fw s"
    and w: "0 < unat c" "unat c \<le> 1024" "accessible b (unat c) (user_area b c m s)"
    and r: "c' \<noteq> 0" "accessible b' (unat c') (user_area b' c' m' s)"
  shows "(\<exists>t. readp sw fr (user_area b' c' m' s) = Ret () t \<and> unat (u_count t) < unat c' \<and>
        (in_pipe i fr t = [] \<and> i_mode (inodes s i) AND IWRITE \<noteq> 0 \<longrightarrow> Ch_pipe i 1 \<in> set (wakeups t))) \<or>
      (\<exists>t. writep_pass sw fw c (user_area b c m s) = Ret (Some 0) t \<and>
        (i_mode (inodes s i) AND IREAD \<noteq> 0 \<longrightarrow> Ch_pipe i 2 \<in> set (wakeups t)))"
proof (cases "in_pipe i fr s = []")
  case True
  have "i_size (inodes s i) = 0" using p True by (auto simp: pipe_ok_def in_pipe_def)
  then show ?thesis
    using writep_pass_appends [of sw dev fp i fr fw "user_area b c m s" "unat c" c] st p w by (auto simp: PIPSIZ_def elim!: fpostE)
next
  case False
  have "0 < unat c'" using r(1) by (simp add: unat_gt_0)
  moreover have "0 < length (in_pipe i fr s)" using False by simp
  ultimately show ?thesis
    using readp_takes [of sw dev fp i fr fw "user_area b' c' m' s"] st p r False by (auto elim!: fpostE)
qed

section \<open>Demonstration\<close>

text \<open>The file of the demonstration of \<open>writei\<close> as a pipe with five bytes in it, the file 0 its reader and the file 1 its writer.\<close>

definition demo_pipe :: fil where
  "demo_pipe = ino.extend (demo_write\<lparr>inodes := \<lambda>_. demo_inode\<lparr>i_flag := {}, i_count := 2, i_addr := [20, 21, 22, 23, 24, 25, 26, 27, 28, 0, 0, 0, 0], i_size := 8\<rparr>\<rparr>)
     (fil.fields 0 0 0 0 0 0 None [] 0 \<lparr>d_ino = 0, d_name = []\<rparr> 0 (replicate 20 None) (replicate 20 0) 0 0 0
       (\<lambda>f. if f = 0 then \<lparr>f_flag = 5, f_count = 1, f_inode = 0, f_offset = 3\<rparr> else \<lparr>f_flag = 6, f_count = 1, f_inode = 0, f_offset = 0\<rparr>)
       (\<lambda>_. \<lparr>x_daddr = 0, x_size = 0, x_iptr = None, x_count = 0, x_flag = {}\<rparr>) [] 0 None 0 0 0 [] None)"

lemma demo_pipe_files: "files demo_pipe f = (if f = 0 then \<lparr>f_flag = 5, f_count = 1, f_inode = 0, f_offset = 3\<rparr> else \<lparr>f_flag = 6, f_count = 1, f_inode = 0, f_offset = 0\<rparr>)"
  by (simp add: demo_pipe_def ino.extend_def fil.fields_def)

lemma demo_pipe_inode:
  "inodes demo_pipe i = demo_inode\<lparr>i_flag := {}, i_count := 2, i_addr := [20, 21, 22, 23, 24, 25, 26, 27, 28, 0, 0, 0, 0], i_size := 8\<rparr>"
  "cont demo_pipe = cont demo_bio"
  using demo_write_file(10) by (simp_all add: demo_pipe_def bio_extend)

lemma demo_pipe_ok:
  "pipe_ok 0 (Buf 0) 0 0 1 demo_pipe" "in_pipe 0 0 demo_pipe = replicate 5 20" "sync_driver (d_strat demo_sw)"
proof -
  note d = demo_pipe_inode demo_pipe_files
  have a: "i_addr (inodes demo_pipe 0) = i_addr (inodes demo_write 0)" by (simp add: d demo_write_def)
  have w: "wfile 0 (Buf 0) {} 0 [7, 5] demo_pipe"
    using demo_write_file(1) unfolding wfile_def fs_free_def fs_at_def a d(2) demo_write_file(10)
    by (simp add: d(1), simp add: demo_pipe_def bio_extend, simp add: demo_write_def demo_inode_def)
  show "sync_driver (d_strat demo_sw)" by (simp add: demo_sw_def demo_driver_sync)
  have "\<exists>L. wfile 0 (Buf 0) {} 0 L demo_pipe \<and> holes (i_addr (inodes demo_pipe 0)) \<le> length L"
    by (rule exI [of _ "[7, 5]"]) (use w demo_write_file(2) in \<open>simp add: a\<close>)
  then show "pipe_ok 0 (Buf 0) 0 0 1 demo_pipe" by (simp add: pipe_ok_def d(1,3))
  show "in_pipe 0 0 demo_pipe = replicate 5 20"
    by (rule nth_equalityI) (simp_all add: in_pipe_def d(1,3) fbyte_def d(2) file_byte_def file_block_def demo_bio(2) BSIZE_def del: upt_rec_numeral)
qed

theorem pipe_fifo_witness:
  "\<exists>t. pipe_run demo_sw 0 1 demo_pipe [65, 65, 65] [20, 20, 20, 20, 20, 65] t \<and> in_pipe 0 0 t = [65, 65]"
proof -
  define u where "u = user_area 100 3 (\<lambda>_ _. Some 65) demo_pipe"
  have a: "accessible b n (user_area c k (\<lambda>_ _. Some 65) s)" for b n c k and s :: fil by (simp add: accessible_def user_area_def)
  have wr: "user_bytes 100 (unat (3 :: u16)) u = [65, 65, 65]" by (simp add: user_bytes_def u_def upt_conv_Cons)
  have "fpost (writep_pass demo_sw 1 3 u) (\<lambda>r t. r = Some 0 \<and> pipe_ok 0 (Buf 0) 0 0 1 t \<and> in_pipe 0 0 t = replicate 5 20 @ [65, 65, 65])"
    using writep_pass_appends [OF demo_pipe_ok(3), of 0 "Buf 0" 0 0 1 u "unat (3 :: u16)" 3] wr
    by (simp add: u_def demo_pipe_ok a PIPSIZ_def demo_pipe_inode del: One_nat_def) (auto elim: fpost_mono)
  then obtain v where v: "writep_pass demo_sw 1 3 u = Ret (Some 0) v" "pipe_ok 0 (Buf 0) 0 0 1 v" "in_pipe 0 0 v = replicate 5 20 @ [65, 65, 65]"
    by (auto elim!: fpostE)
  have r1: "pipe_run demo_sw 0 1 demo_pipe ([] @ user_bytes 100 (unat (3 :: u16)) u) [] v"
    by (rule pipe_run.write_pass [OF pipe_run.start u_def _ _ _ v(1)]) (simp_all add: u_def a)
  define y where "y = user_area 500 6 (\<lambda>_ _. Some 65) v"
  have "fpost (readp demo_sw 0 y) (\<lambda>_ t. pipe_ok 0 (Buf 0) 0 0 1 t \<and> unat (u_count t) = 0)"
  proof -
    have y: "pipe_ok 0 (Buf 0) 0 0 1 y" "u_error y = 0" "u_count y = 6" "accessible (u_base y) (unat (u_count y)) y" "in_pipe 0 0 y \<noteq> []"
      "6 = min (unat (u_count y)) (length (in_pipe 0 0 y))"
      using v(2,3) by (simp_all add: y_def a del: One_nat_def)
    have "u_count y \<noteq> 0" using y(3) by simp
    note r = readp_takes [OF demo_pipe_ok(3) y(1,2) this y(4,6), unfolded if_not_P [OF y(5)]]
    show ?thesis by (rule fpost_mono [OF r]) (simp add: y(3))
  qed
  then obtain z where z: "readp demo_sw 0 y = Ret () z" "pipe_ok 0 (Buf 0) 0 0 1 z" "unat (u_count z) = 0" by (auto elim!: fpostE)
  have y6: "(6 :: u16) \<noteq> 0" by simp
  have r2: "pipe_run demo_sw 0 1 demo_pipe ([] @ user_bytes 100 (unat (3 :: u16)) u) ([] @ user_bytes 500 (unat (6 :: u16) - unat (u_count z)) z) z"
    by (rule pipe_run.read_pass [OF r1 y_def y6 _ z(1)]) (simp add: y_def a)
  have l: "length (user_bytes 500 (unat (6 :: u16) - unat (u_count z)) z) = 6" using z(3) by (simp add: user_bytes_def)
  have "replicate 5 20 @ [65, 65, 65] = user_bytes 500 (unat (6 :: u16) - unat (u_count z)) z @ in_pipe 0 0 z"
    using pipe_fifo [OF r2 demo_pipe_ok(3,1)] demo_pipe_ok(2) wr by simp
  then have "user_bytes 500 (unat (6 :: u16) - unat (u_count z)) z = take 6 (replicate 5 20 @ [65, 65, 65])" "in_pipe 0 0 z = drop 6 (replicate 5 20 @ [65, 65, 65])"
    using l by simp_all
  then show ?thesis using r2 wr by (auto simp: numeral_eq_Suc)
qed

theorem pipe_never_stuck_witness:
  "(\<exists>t. readp demo_sw 0 (user_area 500 6 (\<lambda>_ _. Some 65) demo_pipe) = Ret () t \<and> unat (u_count t) < 6) \<or>
   (\<exists>t. writep_pass demo_sw 1 3 (user_area 100 3 (\<lambda>_ _. Some 65) demo_pipe) = Ret (Some 0) t)"
proof -
  have a: "accessible b n (user_area c k (\<lambda>_ _. Some 65) s)" for b n c k and s :: fil by (simp add: accessible_def user_area_def)
  show ?thesis
    using pipe_never_stuck [OF demo_pipe_ok(3,1), of 3 100 "\<lambda>_ _. Some 65" 6 500 "\<lambda>_ _. Some 65"] by (auto simp: a)
qed

end
