(* ===== verification/Files.thy ===== *)
theory Files
  imports Nami Pipe
begin

text \<open>
  The system calls on files (\<open>sys/sys2.c\<close>, \<open>sys/sys3.c\<close>, \<open>unlink\<close> to \<open>utime\<close> of \<open>sys/sys4.c\<close>, \<open>sysacct\<close> and \<open>compress\<close> of \<open>sys/acct.c\<close>), on
  the i-nodes, the path names and the files of the theories before, and \<open>ioctl\<close> of \<open>dev/tty.c\<close>. The arguments of a call are arguments of its definition; the first
  path name is at \<open>u_dirp\<close>, where \<open>trap\<close> has put it.
\<close>

unbundle bit_operations_syntax

section \<open>The program: reading, writing, opening\<close>

definition EBUSY :: u8 where "EBUSY = 16"
definition EEXIST :: u8 where "EEXIST = 17"
definition EXDEV :: u8 where "EXDEV = 18"
definition EISDIR :: u8 where "EISDIR = 21"
definition ENOTBLK :: u8 where "ENOTBLK = 15"
definition ESPIPE :: u8 where "ESPIPE = 29"

text \<open>\<open>IFCHR&IFBLK\<close>, the bit that all the special files have.\<close>

definition special_bit :: u16 where "special_bit = IFCHR AND IFBLK"

definition rdwr :: "'a devsw \<Rightarrow> u8 \<Rightarrow> u16 \<Rightarrow> u16 \<Rightarrow> u16 \<Rightarrow> 'a fil_scheme \<Rightarrow> (unit, 'a fil_scheme) fres" where
  "rdwr sw mode fdes cbuf count s =
     (case getf fdes s of
        (None, s) \<Rightarrow> Ret () s
      | (Some f, s) \<Rightarrow>
          if f_flag (files s f) AND mode = 0 then Ret () (set_err EBADF s)
          else
            let s = s\<lparr>u_base := cbuf, u_count := count, u_segflg := 0\<rparr> in
            fbind (if f_flag (files s f) AND FPIPE \<noteq> 0 then (if mode = FREAD then readp sw f s else writep sw f s)
                   else
                     let i = f_inode (files s f);
                         s = s\<lparr>u_offset := (if f_flag (files s f) AND FMP \<noteq> 0 then 0 else f_offset (files s f))\<rparr>
                     in fbind (if i_mode (inodes s i) AND special_bit = 0 then plock i s else Ret () s) (\<lambda>_ s.
                        fbind (if mode = FREAD then readi (d_strat sw) (c_read sw) i s else writei (d_strat sw) (c_write sw) i s) (\<lambda>_ s.
                          let s = (if i_mode (inodes s i) AND special_bit = 0 then prele i s else s)
                          in Ret () (if f_flag (files s f) AND FMP = 0
                                     then f_upd f (\<lambda>fp. fp\<lparr>f_offset := f_offset fp + ucast (count - u_count s)\<rparr>) s else s)))) (\<lambda>_ s.
            Ret () (s\<lparr>u_rval1 := count - u_count s\<rparr>)))"

definition read_sys :: "'a devsw \<Rightarrow> u16 \<Rightarrow> u16 \<Rightarrow> u16 \<Rightarrow> 'a fil_scheme \<Rightarrow> (unit, 'a fil_scheme) fres" where
  "read_sys sw = rdwr sw FREAD"

definition write_sys :: "'a devsw \<Rightarrow> u16 \<Rightarrow> u16 \<Rightarrow> u16 \<Rightarrow> 'a fil_scheme \<Rightarrow> (unit, 'a fil_scheme) fres" where
  "write_sys sw = rdwr sw FWRITE"

text \<open>\<open>open1\<close>; \<open>trf\<close> is 0 for \<open>open\<close>, 1 and 2 for \<open>creat\<close> of an old and of a new file.\<close>

definition open1_checks :: "'a strat \<Rightarrow> nat \<Rightarrow> u16 \<Rightarrow> 'a fil_scheme \<Rightarrow> (unit, 'a fil_scheme) fres" where
  "open1_checks strat i mode s =
     fbind (if mode AND 1 \<noteq> 0 then access strat i IREAD s else Ret False s) (\<lambda>_ s.
       if mode AND 2 \<noteq> 0
       then fbind (access strat i IWRITE s) (\<lambda>_ s. Ret () (if i_mode (inodes s i) AND IFMT = IFDIR then set_err EISDIR s else s))
       else Ret () s)"

definition open1 :: "'a devsw \<Rightarrow> nat \<Rightarrow> u16 \<Rightarrow> nat \<Rightarrow> 'a fil_scheme \<Rightarrow> (unit, 'a fil_scheme) fres" where
  "open1 sw i mode trf s =
     fbind (if trf \<noteq> 2 then open1_checks (d_strat sw) i mode s else Ret () s) (\<lambda>_ s.
       if u_error s \<noteq> 0 then iput (d_strat sw) i s
       else fbind (if trf = 1 then itrunc (d_strat sw) i s else Ret () s) (\<lambda>_ s.
         case falloc (prele i s) of
           (None, s) \<Rightarrow> iput (d_strat sw) i s
         | (Some f, s) \<Rightarrow>
             let s = f_upd f (\<lambda>fp. fp\<lparr>f_flag := ucast (mode AND 3), f_inode := i\<rparr>) s; d = unat (u_rval1 s) in
             fbind (openi sw i (mode AND 2) s) (\<lambda>_ s.
               if u_error s = 0 then Ret () s
               else iput (d_strat sw) i (f_upd f (\<lambda>fp. fp\<lparr>f_count := f_count fp - 1\<rparr>) (s\<lparr>u_ofile := (u_ofile s)[d := None]\<rparr>)))))"

definition open_sys :: "'a devsw \<Rightarrow> u16 \<Rightarrow> 'a fil_scheme \<Rightarrow> (unit, 'a fil_scheme) fres" where
  "open_sys sw rwmode s =
     fbind (namei (d_strat sw) uchar 0 s) (\<lambda>r s. case r of None \<Rightarrow> Ret () s | Some i \<Rightarrow> open1 sw i (rwmode + 1) 0 s)"

text \<open>\<open>wdir\<close> and \<open>maknode\<close> of \<open>iget.c\<close>: the entry in the directory that \<open>namei\<close> has left in \<open>u_pdir\<close>, and a new file.\<close>

definition wdir :: "'a devsw \<Rightarrow> nat \<Rightarrow> 'a fil_scheme \<Rightarrow> (unit, 'a fil_scheme) fres" where
  "wdir sw i s =
     fbind (if sint (i_nlink (inodes s (u_pdir s))) \<le> 0 then Ret () (set_err ENOTDIR s)
            else
              let s = s\<lparr>u_dent := \<lparr>d_ino = i_number (inodes s i), d_name = u_dbuf s\<rparr>, u_segflg := 1\<rparr>
              in writei (d_strat sw) (c_write sw) (u_pdir s) (dent_to_io s)) (\<lambda>_ s.
       iput (d_strat sw) (u_pdir s) s)"

definition maknode :: "'a devsw \<Rightarrow> u16 \<Rightarrow> 'a fil_scheme \<Rightarrow> (nat option, 'a fil_scheme) fres" where
  "maknode sw mode s =
     fbind (ialloc (d_strat sw) (i_dev (inodes s (u_pdir s))) s) (\<lambda>r s.
       case r of
         None \<Rightarrow> fbind (iput (d_strat sw) (u_pdir s) s) (\<lambda>_ s. Ret None s)
       | Some i \<Rightarrow>
           let mode = (if mode AND IFMT = 0 then mode OR IFREG else mode);
               s = i_upd i (\<lambda>ip. ip\<lparr>i_flag := i_flag ip \<union> {IACC, IUPD, ICHG}, i_mode := mode AND NOT (u_cmask s), i_nlink := 1,
                     i_uid := u_uid s, i_gid := u_gid s\<rparr>) s
           in fbind (wdir sw i s) (\<lambda>_ s. Ret (Some i) s))"

definition creat :: "'a devsw \<Rightarrow> u16 \<Rightarrow> 'a fil_scheme \<Rightarrow> (unit, 'a fil_scheme) fres" where
  "creat sw fmode s =
     fbind (namei (d_strat sw) uchar 1 s) (\<lambda>r s.
       case r of
         None \<Rightarrow>
           if u_error s \<noteq> 0 then Ret () s
           else fbind (maknode sw (fmode AND 0xFFF AND NOT ISVTX) s) (\<lambda>r s.
             case r of None \<Rightarrow> Ret () s | Some i \<Rightarrow> open1 sw i 2 2 s)
       | Some i \<Rightarrow> open1 sw i 2 1 s)"

definition close :: "'a devsw \<Rightarrow> u16 \<Rightarrow> 'a fil_scheme \<Rightarrow> (unit, 'a fil_scheme) fres" where
  "close sw fdes s =
     (case getf fdes s of
        (None, s) \<Rightarrow> Ret () s
      | (Some f, s) \<Rightarrow> closef sw (Some f) (s\<lparr>u_ofile := (u_ofile s)[unat fdes := None]\<rparr>))"

definition ret_off :: "u32 \<Rightarrow> 'a fil_scheme \<Rightarrow> 'a fil_scheme" where
  "ret_off off s = s\<lparr>u_rval1 := ucast (drop_bit 16 off), u_rval2 := ucast off\<rparr>"

definition seek :: "u16 \<Rightarrow> u32 \<Rightarrow> u16 \<Rightarrow> 'a fil_scheme \<Rightarrow> 'a fil_scheme" where
  "seek fdes off sbase s =
     (case getf fdes s of
        (None, s) \<Rightarrow> s
      | (Some f, s) \<Rightarrow>
          if f_flag (files s f) AND (FPIPE OR FMP) \<noteq> 0 then set_err ESPIPE s
          else
            let off = (if sbase = 1 then off + f_offset (files s f)
                       else if sbase = 2 then off + i_size (inodes s (f_inode (files s f))) else off)
            in ret_off off (f_upd f (\<lambda>fp. fp\<lparr>f_offset := off\<rparr>) s))"

section \<open>The program: ioctl\<close>

text \<open>
  \<open>ioctl\<close> with \<open>stty\<close> and \<open>gtty\<close> (\<open>dev/tty.c\<close>): the close-on-exec bit of any descriptor, and the commands of a character device, which go
  to the routine of its driver.
\<close>

definition FIOCLEX :: u16 where "FIOCLEX = 0x6601"
definition FIONCLEX :: u16 where "FIONCLEX = 0x6602"
definition TIOCGETP :: u16 where "TIOCGETP = 0x7408"
definition TIOCSETP :: u16 where "TIOCSETP = 0x7409"
definition EXCLOSE :: u8 where "EXCLOSE = 1"
definition ENOTTY :: u8 where "ENOTTY = 25"

definition ioctl :: "'a devsw \<Rightarrow> u16 \<Rightarrow> u16 \<Rightarrow> u16 \<Rightarrow> 'a fil_scheme \<Rightarrow> (unit, 'a fil_scheme) fres" where
  "ioctl sw fdes cmd cmarg s =
     (case getf fdes s of
        (None, s) \<Rightarrow> Ret () s
      | (Some f, s) \<Rightarrow>
          if cmd = FIOCLEX then Ret () (s\<lparr>u_pofile := (u_pofile s)[unat fdes := u_pofile s ! unat fdes OR EXCLOSE]\<rparr>)
          else if cmd = FIONCLEX then Ret () (s\<lparr>u_pofile := (u_pofile s)[unat fdes := u_pofile s ! unat fdes AND NOT EXCLOSE]\<rparr>)
          else
            let i = f_inode (files s f); fmt = i_mode (inodes s i) AND IFMT in
            if fmt \<noteq> IFCHR \<and> fmt \<noteq> IFMPC then Ret () (set_err ENOTTY s)
            else c_ioctl sw (i_rdev (inodes s i)) cmd cmarg (f_flag (files s f)) s)"

definition stty :: "'a devsw \<Rightarrow> u16 \<Rightarrow> u16 \<Rightarrow> 'a fil_scheme \<Rightarrow> (unit, 'a fil_scheme) fres" where
  "stty sw fdes arg = ioctl sw fdes TIOCSETP arg"

definition gtty :: "'a devsw \<Rightarrow> u16 \<Rightarrow> u16 \<Rightarrow> 'a fil_scheme \<Rightarrow> (unit, 'a fil_scheme) fres" where
  "gtty sw fdes arg = ioctl sw fdes TIOCGETP arg"

section \<open>The program: links, nodes, access\<close>

definition link :: "'a devsw \<Rightarrow> u16 \<Rightarrow> 'a fil_scheme \<Rightarrow> (unit, 'a fil_scheme) fres" where
  "link sw linkname s =
     fbind (namei (d_strat sw) uchar 0 s) (\<lambda>r s.
       case r of
         None \<Rightarrow> Ret () s
       | Some i \<Rightarrow>
           (case (if i_mode (inodes s i) AND IFMT = IFDIR then suser s else (True, s)) of
              (False, s) \<Rightarrow> iput (d_strat sw) i s
            | (True, s) \<Rightarrow>
                fbind (namei (d_strat sw) uchar 1 ((prele i s)\<lparr>u_dirp := linkname\<rparr>)) (\<lambda>r s.
                fbind (case r of
                         Some x \<Rightarrow> iput (d_strat sw) x (set_err EEXIST s)
                       | None \<Rightarrow>
                           if u_error s \<noteq> 0 then Ret () s
                           else if i_dev (inodes s (u_pdir s)) \<noteq> i_dev (inodes s i)
                           then fbind (iput (d_strat sw) (u_pdir s) s) (\<lambda>_ s. Ret () (set_err EXDEV s))
                           else fbind (wdir sw i s) (\<lambda>_ s.
                             Ret () (if u_error s = 0
                                     then i_upd i (\<lambda>ip. ip\<lparr>i_nlink := i_nlink ip + 1, i_flag := insert ICHG (i_flag ip)\<rparr>) s else s))) (\<lambda>_ s.
                  iput (d_strat sw) i s))))"

text \<open>
  \<open>mknod\<close>. When the name exists, its i-node is given back; \<open>out\<close> is also the end of the way that makes the node.
\<close>

definition mknod_make :: "'a devsw \<Rightarrow> u16 \<Rightarrow> u16 \<Rightarrow> 'a fil_scheme \<Rightarrow> (unit, 'a fil_scheme) fres" where
  "mknod_make sw fmode dev s =
     (if u_error s \<noteq> 0 then Ret () s
      else fbind (maknode sw fmode s) (\<lambda>r s.
        case r of
          None \<Rightarrow> Ret () s
        | Some i \<Rightarrow> iput (d_strat sw) i (i_upd i (\<lambda>ip. ip\<lparr>i_addr := (i_addr ip)[0 := scast dev]\<rparr>) s)))"

definition mknod :: "'a devsw \<Rightarrow> u16 \<Rightarrow> u16 \<Rightarrow> 'a fil_scheme \<Rightarrow> (unit, 'a fil_scheme) fres" where
  "mknod sw fmode dev s =
     (case suser s of
        (False, s) \<Rightarrow> mknod_make sw fmode dev s
      | (True, s) \<Rightarrow>
          fbind (namei (d_strat sw) uchar 1 s) (\<lambda>r s.
            case r of
              Some i \<Rightarrow> iput (d_strat sw) i (set_err EEXIST s)
            | None \<Rightarrow> mknod_make sw fmode dev s))"

fun access_all :: "'a strat \<Rightarrow> nat \<Rightarrow> u16 list \<Rightarrow> 'a fil_scheme \<Rightarrow> (unit, 'a fil_scheme) fres" where
  "access_all strat i [] s = Ret () s"
| "access_all strat i (m # ms) s = fbind (access strat i m s) (\<lambda>_ s. access_all strat i ms s)"

definition saccess :: "'a devsw \<Rightarrow> u16 \<Rightarrow> 'a fil_scheme \<Rightarrow> (unit, 'a fil_scheme) fres" where
  "saccess sw fmode s =
     (let uid = u_uid s; gid = u_gid s in
      fbind (namei (d_strat sw) uchar 0 (s\<lparr>u_uid := u_ruid s, u_gid := u_rgid s\<rparr>)) (\<lambda>r s.
      fbind (case r of
               None \<Rightarrow> Ret () s
             | Some i \<Rightarrow>
                 fbind (access_all (d_strat sw) i (filter (\<lambda>m. fmode AND drop_bit 6 m \<noteq> 0) [IREAD, IWRITE, IEXEC]) s) (\<lambda>_ s. iput (d_strat sw) i s)) (\<lambda>_ s.
        Ret () (s\<lparr>u_uid := uid, u_gid := gid\<rparr>))))"

section \<open>The program: stat, dup\<close>

definition stat_bytes :: "inode \<Rightarrow> u32 \<Rightarrow> u8 list \<Rightarrow> u8 list" where
  "stat_bytes ip adj d =
     int_bytes (i_dev ip) @ int_bytes (i_number ip) @ int_bytes (i_mode ip) @ int_bytes (i_nlink ip) @ int_bytes (i_uid ip) @ int_bytes (i_gid ip) @
     int_bytes (i_rdev ip) @ long_bytes (i_size ip - adj) @ get_bytes 52 12 d"

definition stat1 :: "'a devsw \<Rightarrow> nat \<Rightarrow> u16 \<Rightarrow> u32 \<Rightarrow> 'a fil_scheme \<Rightarrow> (unit, 'a fil_scheme) fres" where
  "stat1 sw i ub adj s =
     fbind (iupdat (d_strat sw) i (time s) (time s) s) (\<lambda>_ s.
       let ip = inodes s i in
       fbind (bread (d_strat sw) (i_dev ip) (itod (i_number ip)) s) (\<lambda>bp s.
         let d = get_bytes (64 * itoo (i_number ip)) 64 (b_addr s bp) in
         case copyout 0 ub (stat_bytes ip adj d) (brelse bp s) of (t, s) \<Rightarrow> Ret () (if t < 0 then set_err EFAULT s else s)))"

definition fstat :: "'a devsw \<Rightarrow> u16 \<Rightarrow> u16 \<Rightarrow> 'a fil_scheme \<Rightarrow> (unit, 'a fil_scheme) fres" where
  "fstat sw fdes sb s =
     (case getf fdes s of
        (None, s) \<Rightarrow> Ret () s
      | (Some f, s) \<Rightarrow> stat1 sw (f_inode (files s f)) sb (if f_flag (files s f) AND FPIPE \<noteq> 0 then f_offset (files s f) else 0) s)"

definition stat :: "'a devsw \<Rightarrow> u16 \<Rightarrow> 'a fil_scheme \<Rightarrow> (unit, 'a fil_scheme) fres" where
  "stat sw sb s =
     fbind (namei (d_strat sw) uchar 0 s) (\<lambda>r s.
       case r of None \<Rightarrow> Ret () s | Some i \<Rightarrow> fbind (stat1 sw i sb 0 s) (\<lambda>_ s. iput (d_strat sw) i s))"

text \<open>\<open>dup\<close>: the bit 0100 of the descriptor makes it the \<open>dup2\<close> of the library.\<close>

definition dup_to :: "'a devsw \<Rightarrow> nat \<Rightarrow> nat \<Rightarrow> nat \<Rightarrow> 'a fil_scheme \<Rightarrow> (unit, 'a fil_scheme) fres" where
  "dup_to sw f d i s =
     (if i = d then Ret () s
      else fbind (closef sw (u_ofile s ! i) s) (\<lambda>_ s.
        Ret () (f_upd f (\<lambda>fp. fp\<lparr>f_count := f_count fp + 1\<rparr>) (s\<lparr>u_ofile := (u_ofile s)[i := Some f]\<rparr>))))"

definition dup :: "'a devsw \<Rightarrow> u16 \<Rightarrow> u16 \<Rightarrow> 'a fil_scheme \<Rightarrow> (unit, 'a fil_scheme) fres" where
  "dup sw fdes fdes2 s =
     (let m = fdes AND NOT 0x3F; fdes = fdes AND 0x3F in
      case getf fdes s of
        (None, s) \<Rightarrow> Ret () s
      | (Some f, s) \<Rightarrow>
          if m AND 0x40 = 0 then
            (case ufalloc s of
               (None, s) \<Rightarrow> Ret () s
             | (Some i, s) \<Rightarrow> dup_to sw f (unat fdes) i s)
          else if sint fdes2 < 0 \<or> int NOFILE \<le> sint fdes2 then Ret () (set_err EBADF s)
          else dup_to sw f (unat fdes) (unat fdes2) (s\<lparr>u_rval1 := fdes2\<rparr>))"

section \<open>The program: mounting\<close>

text \<open>The structure of a super block in its bytes.\<close>

definition bytes_filsys :: "u8 list \<Rightarrow> filsys" where
  "bytes_filsys b = \<lparr>s_isize = bytes_int (get_bytes 0 2 b), s_fsize = bytes_long (get_bytes 2 4 b), s_nfree = bytes_int (get_bytes 6 2 b),
     s_free = bytes_longs NICFREE (get_bytes 8 200 b), s_ninode = bytes_int (get_bytes 208 2 b), s_inode = bytes_ints NICINOD (get_bytes 210 200 b),
     s_flock = b ! 410, s_ilock = b ! 411, s_fmod = b ! 412, s_ronly = b ! 413, s_time = bytes_long (get_bytes 414 4 b), s_rest = drop 418 b\<rparr>"

definition getmdev :: "'a devsw \<Rightarrow> 'a fil_scheme \<Rightarrow> (u16, 'a fil_scheme) fres" where
  "getmdev sw s =
     fbind (namei (d_strat sw) uchar 0 s) (\<lambda>r s.
       case r of
         None \<Rightarrow> Ret NODEV s
       | Some i \<Rightarrow>
           let s = (if i_mode (inodes s i) AND IFMT \<noteq> IFBLK then set_err ENOTBLK s else s);
               dev = i_rdev (inodes s i);
               s = (if nblkdev s \<le> major dev then set_err ENXIO s else s)
           in fbind (iput (d_strat sw) i s) (\<lambda>_ s. Ret dev s))"

definition mount_slot :: "u16 \<Rightarrow> 'a fil_scheme \<Rightarrow> nat option" where
  "mount_slot dev s =
     (if \<exists>j \<in> set [0..<NMOUNT]. m_bufp (mounts s j) \<noteq> None \<and> dev = m_dev (mounts s j) then None
      else find (\<lambda>j. m_bufp (mounts s j) = None) [0..<NMOUNT])"

definition smount_at :: "'a devsw \<Rightarrow> u16 \<Rightarrow> nat \<Rightarrow> nat \<Rightarrow> u16 \<Rightarrow> 'a fil_scheme \<Rightarrow> (unit, 'a fil_scheme) fres" where
  "smount_at sw dev i j ronly s =
     fbind (bread (d_strat sw) dev SUPERB s) (\<lambda>bp s.
       if u_error s \<noteq> 0 then iput (d_strat sw) i (brelse bp s)
       else
         let s = s\<lparr>mounts := (mounts s)(j := (mounts s j)\<lparr>m_inodp := Some i, m_dev := dev\<rparr>)\<rparr> in
         fbind (geteblk (d_strat sw) s) (\<lambda>mb s.
           let s = s\<lparr>mounts := (mounts s)(j := (mounts s j)\<lparr>m_bufp := Some mb\<rparr>), b_addr := (b_addr s)(mb := b_addr s bp)\<rparr>;
               s = fs_upd mb (\<lambda>_. (bytes_filsys (b_addr s bp))\<lparr>s_ilock := 0, s_flock := 0, s_ronly := ucast (ronly AND 1)\<rparr>) s
           in Ret () (prele i (i_upd i (\<lambda>ip. ip\<lparr>i_flag := insert IMOUNT (i_flag ip)\<rparr>) (brelse bp s)))))"

definition smount :: "'a devsw \<Rightarrow> u16 \<Rightarrow> u16 \<Rightarrow> 'a fil_scheme \<Rightarrow> (unit, 'a fil_scheme) fres" where
  "smount sw freg ronly s =
     fbind (getmdev sw s) (\<lambda>dev s.
       if u_error s \<noteq> 0 then Ret () s
       else fbind (namei (d_strat sw) uchar 0 (s\<lparr>u_dirp := freg\<rparr>)) (\<lambda>r s.
         case r of
           None \<Rightarrow> Ret () s
         | Some i \<Rightarrow>
             (case (if i_count (inodes s i) \<noteq> 1 \<or> i_mode (inodes s i) AND special_bit \<noteq> 0 then None else mount_slot dev s) of
                None \<Rightarrow> iput (d_strat sw) i (set_err EBUSY s)
              | Some j \<Rightarrow>
                  fbind (b_open sw dev (if ronly = 0 then 1 else 0) s) (\<lambda>_ s.
                    if u_error s \<noteq> 0 then iput (d_strat sw) i (set_err EBUSY s) else smount_at sw dev i j ronly s))))"

definition sumount :: "'a devsw \<Rightarrow> 'a fil_scheme \<Rightarrow> (unit, 'a fil_scheme) fres" where
  "sumount sw s =
     fbind (getmdev sw s) (\<lambda>dev s.
       if u_error s \<noteq> 0 then Ret () s
       else
         fbind (xumount (d_strat sw) dev s) (\<lambda>_ s.
         fbind (update (d_strat sw) s) (\<lambda>_ s.
           case find (\<lambda>j. m_bufp (mounts s j) \<noteq> None \<and> dev = m_dev (mounts s j)) [0..<NMOUNT] of
             None \<Rightarrow> Ret () (set_err EINVAL s)
           | Some j \<Rightarrow>
               if \<exists>i \<in> set [0..<NINODE]. i_number (inodes s i) \<noteq> 0 \<and> dev = i_dev (inodes s i) then Ret () (set_err EBUSY s)
               else fbind (b_close sw dev 0 0 s) (\<lambda>_ s.
                 case (m_inodp (mounts s j), m_bufp (mounts s j)) of
                   (Some i, Some bp) \<Rightarrow>
                     fbind (plock i (i_upd i (\<lambda>ip. ip\<lparr>i_flag := i_flag ip - {IMOUNT}\<rparr>) s)) (\<lambda>_ s.
                     fbind (iput (d_strat sw) i s) (\<lambda>_ s.
                       Ret () (brelse bp (s\<lparr>mounts := (mounts s)(j := (mounts s j)\<lparr>m_bufp := None\<rparr>)\<rparr>))))
                 | _ \<Rightarrow> Wild))))"

section \<open>The program: unlink to utime\<close>

definition unlink :: "'a devsw \<Rightarrow> 'a fil_scheme \<Rightarrow> (unit, 'a fil_scheme) fres" where
  "unlink sw s =
     fbind (namei (d_strat sw) uchar 2 s) (\<lambda>r s.
       case r of
         None \<Rightarrow> Ret () s
       | Some p \<Rightarrow>
           fbind (if i_number (inodes s p) = d_ino (u_dent s) then Ret (Some p) (i_upd p (\<lambda>ip. ip\<lparr>i_count := i_count ip + 1\<rparr>) s)
                  else iget (d_strat sw) (i_dev (inodes s p)) (d_ino (u_dent s)) s) (\<lambda>r s.
           fbind (case r of
                    None \<Rightarrow> Ret () s
                  | Some i \<Rightarrow>
                      (case (if i_mode (inodes s i) AND IFMT = IFDIR then suser s else (True, s)) of
                         (False, s) \<Rightarrow> iput (d_strat sw) i s
                       | (True, s) \<Rightarrow>
                           if i_dev (inodes s i) \<noteq> i_dev (inodes s p) then iput (d_strat sw) i (set_err EBUSY s)
                           else fbind (if ITEXT \<in> i_flag (inodes s i) then xrele (d_strat sw) i s else Ret () s) (\<lambda>_ s.
                             if ITEXT \<in> i_flag (inodes s i) \<and> i_nlink (inodes s i) = 1 then iput (d_strat sw) i (set_err ETXTBSY s)
                             else
                               let s = dent_to_io (s\<lparr>u_offset := u_offset s - 16, u_dent := (u_dent s)\<lparr>d_ino := 0\<rparr>\<rparr>) in
                               fbind (writei (d_strat sw) (c_write sw) p s) (\<lambda>_ s.
                                 iput (d_strat sw) i (i_upd i (\<lambda>ip. ip\<lparr>i_nlink := i_nlink ip - 1, i_flag := insert ICHG (i_flag ip)\<rparr>) s))))) (\<lambda>_ s.
             iput (d_strat sw) p s)))"

text \<open>\<open>chdirec\<close> with \<open>root\<close> for \<open>&u.u_rdir\<close>, otherwise \<open>&u.u_cdir\<close>.\<close>

definition chdirec :: "'a devsw \<Rightarrow> bool \<Rightarrow> 'a fil_scheme \<Rightarrow> (unit, 'a fil_scheme) fres" where
  "chdirec sw root s =
     fbind (namei (d_strat sw) uchar 0 s) (\<lambda>r s.
       case r of
         None \<Rightarrow> Ret () s
       | Some i \<Rightarrow>
           if i_mode (inodes s i) AND IFMT \<noteq> IFDIR then iput (d_strat sw) i (set_err ENOTDIR s)
           else fbind (access (d_strat sw) i IEXEC s) (\<lambda>denied s.
             if denied then iput (d_strat sw) i s
             else
               let s = prele i s in
               fbind (case (if root then u_rdir s else Some (u_cdir s)) of
                        None \<Rightarrow> Ret () s
                      | Some d \<Rightarrow> fbind (plock d s) (\<lambda>_ s. iput (d_strat sw) d s)) (\<lambda>_ s.
                 Ret () (if root then s\<lparr>u_rdir := Some i\<rparr> else s\<lparr>u_cdir := i\<rparr>))))"

definition chdir :: "'a devsw \<Rightarrow> 'a fil_scheme \<Rightarrow> (unit, 'a fil_scheme) fres" where
  "chdir sw s = chdirec sw False s"

definition chroot :: "'a devsw \<Rightarrow> 'a fil_scheme \<Rightarrow> (unit, 'a fil_scheme) fres" where
  "chroot sw s = (case suser s of (p, s) \<Rightarrow> if p then chdirec sw True s else Ret () s)"

definition chmod :: "'a devsw \<Rightarrow> u16 \<Rightarrow> 'a fil_scheme \<Rightarrow> (unit, 'a fil_scheme) fres" where
  "chmod sw fmode s =
     fbind (owner (d_strat sw) s) (\<lambda>r s.
       case r of
         None \<Rightarrow> Ret () s
       | Some i \<Rightarrow>
           let fmode = (if u_uid s \<noteq> 0 then fmode AND NOT ISVTX else fmode);
               s = i_upd i (\<lambda>ip. ip\<lparr>i_mode := (i_mode ip AND NOT 0xFFF) OR (fmode AND 0xFFF), i_flag := insert ICHG (i_flag ip)\<rparr>) s
           in fbind (if ITEXT \<in> i_flag (inodes s i) \<and> i_mode (inodes s i) AND ISVTX = 0 then xrele (d_strat sw) i s else Ret () s) (\<lambda>_ s.
                iput (d_strat sw) i s))"

definition chown :: "'a devsw \<Rightarrow> u16 \<Rightarrow> u16 \<Rightarrow> 'a fil_scheme \<Rightarrow> (unit, 'a fil_scheme) fres" where
  "chown sw uid gid s =
     (case suser s of
        (False, s) \<Rightarrow> Ret () s
      | (True, s) \<Rightarrow>
          fbind (owner (d_strat sw) s) (\<lambda>r s.
            case r of
              None \<Rightarrow> Ret () s
            | Some i \<Rightarrow> iput (d_strat sw) i (i_upd i (\<lambda>ip. ip\<lparr>i_uid := uid, i_gid := gid, i_flag := insert ICHG (i_flag ip)\<rparr>) s)))"

text \<open>\<open>utime\<close>. When the times cannot be read the i-node is not given back.\<close>

definition utime :: "'a devsw \<Rightarrow> u16 \<Rightarrow> 'a fil_scheme \<Rightarrow> (unit, 'a fil_scheme) fres" where
  "utime sw tptr s =
     fbind (owner (d_strat sw) s) (\<lambda>r s.
       case r of
         None \<Rightarrow> Ret () s
       | Some i \<Rightarrow>
           (case copyin 0 tptr 0 8 s (replicate 8 0) of (t, tv) \<Rightarrow>
              if t \<noteq> 0 then Ret () (set_err EFAULT s)
              else fbind (iupdat (d_strat sw) i (bytes_long (take 4 tv)) (bytes_long (drop 4 tv))
                     (i_upd i (\<lambda>ip. ip\<lparr>i_flag := i_flag ip \<union> {IACC, IUPD, ICHG}\<rparr>) s)) (\<lambda>_ s. iput (d_strat sw) i s)))"

section \<open>The program: accounting\<close>

definition sysacct :: "'a devsw \<Rightarrow> u16 \<Rightarrow> 'a fil_scheme \<Rightarrow> (unit, 'a fil_scheme) fres" where
  "sysacct sw fname s =
     (case suser s of
        (False, s) \<Rightarrow> Ret () s
      | (True, s) \<Rightarrow>
          if fname = 0 then
            (case acctp s of
               None \<Rightarrow> Ret () s
             | Some i \<Rightarrow> fbind (plock i s) (\<lambda>_ s. fbind (iput (d_strat sw) i s) (\<lambda>_ s. Ret () (s\<lparr>acctp := None\<rparr>))))
          else if acctp s \<noteq> None then Ret () (set_err EBUSY s)
          else fbind (namei (d_strat sw) uchar 0 s) (\<lambda>r s.
            case r of
              None \<Rightarrow> Ret () s
            | Some i \<Rightarrow>
                if i_mode (inodes s i) AND IFMT \<noteq> IFREG then iput (d_strat sw) i (set_err EACCES s)
                else Ret () (prele i (s\<lparr>acctp := Some i\<rparr>))))"

text \<open>\<open>compress\<close>: the loop, then the rounding. The loop ends within six rounds.\<close>

function compress_loop :: "u16 \<Rightarrow> bool \<Rightarrow> u32 \<Rightarrow> u16 \<times> bool \<times> u32" where
  "compress_loop e r t = (if 8192 \<le> sint t then compress_loop (e + 1) (t AND 4 \<noteq> 0) (signed_drop_bit 3 t) else (e, r, t))"
  by pat_completeness auto
termination
proof (relation "measure (\<lambda>(e, r, t). nat (sint t))", simp)
  fix e :: u16 and r :: bool and t :: u32
  assume "8192 \<le> sint t"
  moreover have "sint (signed_drop_bit 3 t) = sint t div 8" by (simp add: sint_signed_drop_bit_eq drop_bit_eq_div)
  ultimately show "((e + 1, t AND 4 \<noteq> 0, signed_drop_bit 3 t), e, r, t) \<in> measure (\<lambda>(e, r, t). nat (sint t))" by simp
qed

declare compress_loop.simps [simp del]

definition compress :: "u32 \<Rightarrow> u16" where
  "compress t =
     (case compress_loop 0 False t of (e, r, t) \<Rightarrow>
        let (e, t) = (if r then let t = t + 1 in if 8192 \<le> sint t then (e + 1, signed_drop_bit 3 t) else (e, t) else (e, t))
        in push_bit 13 e + ucast t)"

text \<open>
  The record of \<open>struct acct\<close>, 31 bytes and one of padding. The name of the command, the times, the start and the terminal of the
  process are arguments, as is the address \<open>a\<close> of \<open>acctbuf\<close> in the kernel.
\<close>

definition acct_bytes :: "u8 list \<Rightarrow> u32 \<Rightarrow> u32 \<Rightarrow> u32 \<Rightarrow> u16 \<Rightarrow> 'a fil_scheme \<Rightarrow> u8 list" where
  "acct_bytes comm ut st start ttyd s =
     take 10 comm @ int_bytes (compress ut) @ int_bytes (compress st) @ int_bytes (compress (time s - start)) @ long_bytes start @
     int_bytes (u_ruid s) @ int_bytes (u_rgid s) @ int_bytes 0 @ int_bytes 0 @ int_bytes ttyd @ [u_acflag s, 0]"

definition acct :: "'a devsw \<Rightarrow> u16 \<Rightarrow> u8 list \<Rightarrow> u32 \<Rightarrow> u32 \<Rightarrow> u32 \<Rightarrow> u16 \<Rightarrow> 'a fil_scheme \<Rightarrow> (unit, 'a fil_scheme) fres" where
  "acct sw a comm ut st start ttyd s =
     (case acctp s of
        None \<Rightarrow> Ret () s
      | Some i \<Rightarrow>
          fbind (plock i s) (\<lambda>_ s.
            let buf = acct_bytes comm ut st start ttyd s; siz = i_size (inodes s i);
                s = s\<lparr>u_offset := siz, u_base := a, u_count := of_nat (length buf), u_segflg := 1, u_error := 0,
                      u_mem := (u_mem s)(1 := put_mem a buf (u_mem s 1))\<rparr>
            in fbind (writei (d_strat sw) (c_write sw) i s) (\<lambda>_ s.
                 Ret () (prele i (if u_error s \<noteq> 0 then i_upd i (\<lambda>ip. ip\<lparr>i_size := siz\<rparr>) s else s)))))"

section \<open>Reading and writing through a descriptor\<close>

text \<open>The descriptor \<open>fdes\<close> is the file \<open>f\<close>, open for reading and writing on the regular file \<open>i\<close> of direct blocks.\<close>

definition open_on :: "u16 \<Rightarrow> bnode \<Rightarrow> nat \<Rightarrow> nat \<Rightarrow> u16 \<Rightarrow> 'a fil_scheme \<Rightarrow> bool" where
  "open_on dev fp i f fdes s \<longleftrightarrow>
     (\<exists>L. wfile dev fp {} i L s \<and> holes (i_addr (inodes s i)) \<le> length L) \<and> drop 10 (i_addr (inodes s i)) = [0, 0, 0] \<and>
     ILOCK \<notin> i_flag (inodes s i) \<and> unat (i_size (inodes s i)) \<le> 5120 \<and> u_error s = 0 \<and>
     0 \<le> sint fdes \<and> sint fdes < int NOFILE \<and> u_ofile s ! unat fdes = Some f \<and> f_inode (files s f) = i \<and>
     f_flag (files s f) AND FPIPE = 0 \<and> f_flag (files s f) AND FMP = 0 \<and> f_flag (files s f) AND FREAD \<noteq> 0 \<and> f_flag (files s f) AND FWRITE \<noteq> 0"

lemma regular_not_special: "i_mode ip AND IFMT = IFREG \<Longrightarrow> i_mode ip AND special_bit = 0"
proof -
  assume m: "i_mode ip AND IFMT = IFREG"
  have "special_bit = IFMT AND special_bit" "IFREG AND special_bit = 0" by code_simp+
  then show ?thesis using m by (metis and.assoc)
qed

lemma getf_open: "open_on dev fp i f fdes s \<Longrightarrow> getf fdes s = (Some f, s)"
  by (simp add: open_on_def getf_def)

text \<open>The state in which \<open>readi\<close> or \<open>writei\<close> is called, and what is done behind it.\<close>

definition io_state :: "nat \<Rightarrow> nat \<Rightarrow> u16 \<Rightarrow> u16 \<Rightarrow> 'a fil_scheme \<Rightarrow> 'a fil_scheme" where
  "io_state i f a c s = s\<lparr>u_base := a, u_count := c, u_segflg := 0, u_offset := f_offset (files s f),
     inodes := (inodes s)(i := (inodes s i)\<lparr>i_flag := insert ILOCK (i_flag (inodes s i))\<rparr>)\<rparr>"

definition io_end :: "nat \<Rightarrow> nat \<Rightarrow> u16 \<Rightarrow> 'a fil_scheme \<Rightarrow> 'a fil_scheme" where
  "io_end i f c t = (let t = prele i t in (f_upd f (\<lambda>fp. fp\<lparr>f_offset := f_offset fp + ucast (c - u_count t)\<rparr>) t)\<lparr>u_rval1 := c - u_count t\<rparr>)"

lemma prele_same: "files (prele i t) = files t" "u_count (prele i t) = u_count t"
  by (simp_all add: prele_def Let_def i_upd_def awaken_def)

lemma rdwr_runs:
  assumes o: "open_on dev fp i f fdes s" and m: "mode = FREAD \<or> mode = FWRITE"
    and r: "fpost (if mode = FREAD then readi (d_strat sw) (c_read sw) i (io_state i f a c s) else writei (d_strat sw) (c_write sw) i (io_state i f a c s))
      (\<lambda>_ t. i_mode (inodes t i) = i_mode (inodes s i) \<and> files t = files s \<and> P (io_end i f c t))"
  shows "fpost (rdwr sw mode fdes a c s) (\<lambda>_ t. P t)"
proof -
  have q: "f_inode (files s f) = i" "ILOCK \<notin> i_flag (inodes s i)" "f_flag (files s f) AND FPIPE = 0" "f_flag (files s f) AND FMP = 0" "f_flag (files s f) AND mode \<noteq> 0"
    "i_mode (inodes s i) AND special_bit = 0"
    using o m regular_not_special by (auto simp: open_on_def wfile_def)
  have pl: "plock i (s\<lparr>u_base := a, u_count := c, u_segflg := 0, u_offset := f_offset (files s f)\<rparr>) = Ret () (io_state i f a c s)"
    using q(2) by (simp add: plock_def io_state_def i_upd_def)
  let ?r = "if mode = FREAD then readi (d_strat sw) (c_read sw) i (io_state i f a c s) else writei (d_strat sw) (c_write sw) i (io_state i f a c s)"
  have e: "rdwr sw mode fdes a c s = fbind (fbind ?r (\<lambda>_ t.
      let t = (if i_mode (inodes t i) AND special_bit = 0 then prele i t else t)
      in Ret () (if f_flag (files t f) AND FMP = 0 then f_upd f (\<lambda>fp. fp\<lparr>f_offset := f_offset fp + ucast (c - u_count t)\<rparr>) t else t)))
      (\<lambda>_ t. Ret () (t\<lparr>u_rval1 := c - u_count t\<rparr>))"
    using q by (simp add: rdwr_def getf_open [OF o] Let_def pl)
  show ?thesis
    unfolding e
  proof (intro fpost_bind, rule fpost_mono [OF r], elim conjE)
    fix y :: unit and t
    assume t: "i_mode (inodes t i) = i_mode (inodes s i)" "files t = files s" "P (io_end i f c t)"
    then show "fpost (let t = (if i_mode (inodes t i) AND special_bit = 0 then prele i t else t)
      in Ret () (if f_flag (files t f) AND FMP = 0 then f_upd f (\<lambda>fp. fp\<lparr>f_offset := f_offset fp + ucast (c - u_count t)\<rparr>) t else t))
      (\<lambda>_ t. fpost (Ret () (t\<lparr>u_rval1 := c - u_count t\<rparr>)) (\<lambda>_ t. P t))"
      using q by (simp add: Let_def prele_same io_end_def f_upd_def)
  qed
qed
lemma io_state_file:
  assumes "wfile dev fp {} i L s"
  shows "wfile dev fp {} i L (io_state i f a c s)"
proof -
  let ?x = "s\<lparr>u_base := a, u_count := c, u_segflg := 0, u_offset := f_offset (files s f)\<rparr>"
  have "wfile dev fp {} i L ?x" using assms by (simp add: wfile_def fs_free_def fs_at_def)
  from wfile_fields [OF this, of "(inodes s i)\<lparr>i_flag := insert ILOCK (i_flag (inodes s i))\<rparr>" "wakeups s"] assms
  show ?thesis by (simp add: io_state_def wfile_def)
qed

lemma io_state_simps [simp]:
  "inodes (io_state i f a c s) i = (inodes s i)\<lparr>i_flag := insert ILOCK (i_flag (inodes s i))\<rparr>" "u_base (io_state i f a c s) = a"
  "u_count (io_state i f a c s) = c" "u_segflg (io_state i f a c s) = 0" "u_offset (io_state i f a c s) = f_offset (files s f)"
  "u_error (io_state i f a c s) = u_error s" "u_mem (io_state i f a c s) = u_mem s" "files (io_state i f a c s) = files s"
  "u_ofile (io_state i f a c s) = u_ofile s" "cont (io_state i f a c s) = cont s" "accessible b n (io_state i f a c s) = accessible b n (s\<lparr>u_segflg := 0\<rparr>)"
  "user_bytes b n (io_state i f a c s) = user_bytes b n (s\<lparr>u_segflg := 0\<rparr>)"
  by (simp_all add: io_state_def accessible_def user_bytes_def)

lemma fbyte_io_state [simp]: "fbyte (io_state i f a c s) i = fbyte s i"
  by (intro ext) (simp add: fbyte_def)

text \<open>The end of a transfer of a file that has been found well formed.\<close>

lemma io_end_file:
  assumes w: "wfile dev fp {} i L t" "i_mode (inodes t i) AND IFMT = IFREG"
  shows "wfile dev fp {} i L (io_end i f c t)" "ILOCK \<notin> i_flag (inodes (io_end i f c t) i)" "i_addr (inodes (io_end i f c t) i) = i_addr (inodes t i)"
    "i_size (inodes (io_end i f c t) i) = i_size (inodes t i)" "files (io_end i f c t) = (files t)(f := (files t f)\<lparr>f_offset := f_offset (files t f) + ucast (c - u_count t)\<rparr>)"
    "u_ofile (io_end i f c t) = u_ofile t" "u_error (io_end i f c t) = u_error t" "u_mem (io_end i f c t) = u_mem t" "u_rval1 (io_end i f c t) = c - u_count t"
    "fbyte (io_end i f c t) i = fbyte t i"
proof -
  obtain F w where pr: "prele i t = t\<lparr>inodes := (inodes t)(i := (inodes t i)\<lparr>i_flag := F\<rparr>), wakeups := w\<rparr>" "ILOCK \<notin> F" by (rule prele_run)
  have "wfile dev fp {} i L (prele i t)" unfolding pr(1) by (rule wfile_fields [OF w(1)]) (use w(2) in simp_all)
  then show "wfile dev fp {} i L (io_end i f c t)" by (simp add: io_end_def Let_def f_upd_def wfile_def fs_free_def fs_at_def)
  show "ILOCK \<notin> i_flag (inodes (io_end i f c t) i)" "i_addr (inodes (io_end i f c t) i) = i_addr (inodes t i)"
    "i_size (inodes (io_end i f c t) i) = i_size (inodes t i)" "files (io_end i f c t) = (files t)(f := (files t f)\<lparr>f_offset := f_offset (files t f) + ucast (c - u_count t)\<rparr>)"
    "u_ofile (io_end i f c t) = u_ofile t" "u_error (io_end i f c t) = u_error t" "u_mem (io_end i f c t) = u_mem t" "u_rval1 (io_end i f c t) = c - u_count t"
    using pr(2) by (simp_all add: io_end_def Let_def f_upd_def pr(1))
  show "fbyte (io_end i f c t) i = fbyte t i" by (intro ext) (simp add: fbyte_def io_end_def Let_def f_upd_def pr(1))
qed

lemma size_less: "sint a < sint b \<longleftrightarrow> unat a < unat b" if "unat a \<le> 5120" "unat b \<le> 5120" for a b :: u32
proof -
  have "sint a = int (unat a)" "sint b = int (unat b)" by (rule sint_unat32, use that in simp)+
  then show ?thesis by (simp only: of_nat_less_iff)
qed

text \<open>A write through a descriptor.\<close>

definition wrote :: "nat \<Rightarrow> nat \<Rightarrow> u16 \<Rightarrow> u8 list \<Rightarrow> 'a fil_scheme \<Rightarrow> 'a fil_scheme \<Rightarrow> bool" where
  "wrote i f c bs s t \<longleftrightarrow>
     (let p = unat (f_offset (files s f)); n = length bs in
      (\<forall>k < 5120. fbyte t i k = (if p \<le> k \<and> k < p + n then bs ! (k - p) else fbyte s i k)) \<and>
      unat (i_size (inodes t i)) = max (unat (i_size (inodes s i))) (p + n) \<and>
      files t = (files s)(f := (files s f)\<lparr>f_offset := f_offset (files s f) + ucast c\<rparr>) \<and> u_mem t = u_mem s \<and> u_rval1 t = c)"

lemma write_sys_stores:
  assumes st: "sync_driver (d_strat sw)" and o: "open_on dev fp i f fdes s"
    and n: "n = unat c" "0 < n" "accessible a n (s\<lparr>u_segflg := 0\<rparr>)" "unat (f_offset (files s f)) + n \<le> 5120"
  shows "fpost (write_sys sw fdes a c s) (\<lambda>_ t. open_on dev fp i f fdes t \<and> wrote i f c (user_bytes a n (s\<lparr>u_segflg := 0\<rparr>)) s t)"
proof -
  obtain L where L: "wfile dev fp {} i L s" "holes (i_addr (inodes s i)) \<le> length L" using o by (auto simp: open_on_def)
  have q: "drop 10 (i_addr (inodes s i)) = [0, 0, 0]" "unat (i_size (inodes s i)) \<le> 5120" "u_error s = 0" "f_inode (files s f) = i" "i_mode (inodes s i) AND IFMT = IFREG"
    using o L(1) by (simp_all add: open_on_def wfile_def)
  let ?x = "io_state i f a c s" and ?bs = "user_bytes a n (s\<lparr>u_segflg := 0\<rparr>)"
  have lb: "length ?bs = n" "?bs \<noteq> []" using n(2) by (simp_all add: user_bytes_def)
  have "fpost (writei (d_strat sw) (c_write sw) i ?x) (\<lambda>_ t. stored dev fp {} i L ?bs ?x t)"
    using writei_stores_all [OF st io_state_file [OF L(1)] _ _ _ _ n(2), of f a c "c_write sw"] demo_bio(4) L(2) q n by simp
  then have "fpost (rdwr sw FWRITE fdes a c s) (\<lambda>_ t. open_on dev fp i f fdes t \<and> wrote i f c ?bs s t)"
  proof (intro rdwr_runs [OF o])
    assume "fpost (writei (d_strat sw) (c_write sw) i ?x) (\<lambda>_ t. stored dev fp {} i L ?bs ?x t)"
    moreover have "i_mode (inodes t i) = i_mode (inodes s i) \<and> files t = files s \<and> open_on dev fp i f fdes (io_end i f c t) \<and> wrote i f c ?bs s (io_end i f c t)"
      if t: "stored dev fp {} i L ?bs ?x t" for t
    proof -
      obtain L' where L': "wfile dev fp {} i L' t" "holes (i_addr (inodes t i)) \<le> length L'" using t unfolding stored_def by blast
      have rt: "i_mode (inodes t i) = i_mode (inodes s i)" "files t = files s" "u_ofile t = u_ofile s" "drop 10 (i_addr (inodes t i)) = [0, 0, 0]"
        using same_rest_fields [OF storedD(3) [OF t]] storedD(5) [OF t] q(1) more_files [of t ?x] by simp_all
      have ut: "uio_same (moved n ?x) t" using t lb(1) by (simp add: stored_def)
      have "unat (u_offset t) = unat (f_offset (files s f)) + n" "u_error t = 0" "u_mem t = u_mem s" "u_count t = 0"
        using moved_offset(1) [of ?x n] n(1,4) ut q(3) by (simp_all add: uio_same_def) (simp_all add: moved_def)
      note ut = this
      have "i_size (inodes t i) = (if sint (i_size (inodes ?x i)) < sint (u_offset t) \<and> ?bs \<noteq> [] then u_offset t else i_size (inodes ?x i))"
        using t unfolding stored_def by blast
      then have sz: "i_size (inodes t i) = (if unat (i_size (inodes s i)) < unat (u_offset t) then u_offset t else i_size (inodes s i))"
        using size_less [of "i_size (inodes s i)" "u_offset t"] q(2) ut(1) n(4) lb(2) by simp
      have "i_mode (inodes t i) AND IFMT = IFREG" using rt(1) q(5) by simp
      note E = io_end_file [OF L'(1) this, of f c]
      have szn: "unat (i_size (inodes t i)) = max (unat (i_size (inodes s i))) (unat (f_offset (files s f)) + n)" using sz ut(1) by simp
      have "open_on dev fp i f fdes (io_end i f c t)"
        using o L' E rt ut szn n(4) unfolding open_on_def by auto
      moreover have "wrote i f c ?bs s (io_end i f c t)"
        unfolding wrote_def Let_def E lb(1) using t szn rt(2) ut lb(1) unfolding stored_def by simp
      ultimately show ?thesis using rt by simp
    qed
    ultimately show "fpost (if FWRITE = FREAD then readi (d_strat sw) (c_read sw) i ?x else writei (d_strat sw) (c_write sw) i ?x)
      (\<lambda>_ t. i_mode (inodes t i) = i_mode (inodes s i) \<and> files t = files s \<and>
        (open_on dev fp i f fdes (io_end i f c t) \<and> wrote i f c ?bs s (io_end i f c t)))"
      by (simp add: FREAD_def FWRITE_def) (elim fpost_mono, simp)
  qed simp
  then show ?thesis by (simp add: write_sys_def)
qed

text \<open>A read through a descriptor.\<close>

lemma read_sys_delivers:
  assumes st: "sync_driver (d_strat sw)" and o: "open_on dev fp i f fdes s"
    and c: "c \<noteq> 0" "n = min (unat c) (unat (i_size (inodes s i)) - unat (f_offset (files s f)))" "accessible b n (s\<lparr>u_segflg := 0\<rparr>)"
      "unat (f_offset (files s f)) < 2 ^ 31"
  shows "fpost (read_sys sw fdes b c s) (\<lambda>_ t. open_on dev fp i f fdes t \<and> fbyte t i = fbyte s i \<and>
    files t = (files s)(f := (files s f)\<lparr>f_offset := f_offset (files s f) + of_nat n\<rparr>) \<and> u_rval1 t = of_nat n \<and>
    u_mem t = (u_mem s)(0 := put_mem b (map (fbyte s i) [unat (f_offset (files s f))..<unat (f_offset (files s f)) + n]) (u_mem s 0)))"
proof -
  obtain L where L: "wfile dev fp {} i L s" "holes (i_addr (inodes s i)) \<le> length L" using o by (auto simp: open_on_def)
  have q: "drop 10 (i_addr (inodes s i)) = [0, 0, 0]" "unat (i_size (inodes s i)) \<le> 5120" "u_error s = 0" "f_inode (files s f) = i" "i_mode (inodes s i) AND IFMT = IFREG"
    using o L(1) by (simp_all add: open_on_def wfile_def)
  let ?x = "io_state i f b c s" and ?p = "unat (f_offset (files s f))"
  let ?bs = "map (fbyte s i) [?p..<?p + n]"
  note wx = io_state_file [OF L(1), of f b c]
  have ty: "\<not> is_block_dev (inodes ?x i)" "\<not> is_char_dev (inodes ?x i)" using wx file_type by (auto simp: wfile_def)
  have dx: "i_dev (inodes ?x i) = dev" "direct_ok (i_addr (inodes ?x i)) (set L)" "binv ?x {}" "usable ?x dev" using wx by (simp_all add: wfile_def)
  have bk: "blocks_ok (cont ?x (i_dev (inodes ?x i))) (i_addr (inodes ?x i))" by (rule blocks_ok_small [OF dx(2)]) (use q(1) in simp)
  have o0: "0 \<le> sint (u_offset ?x)" unfolding io_state_simps sint_unat32 [OF c(4)] by simp
  have qb: "file_bytes (cont ?x (i_dev (inodes ?x i))) (i_addr (inodes ?x i)) (unat (u_offset ?x)) n = ?bs"
    by (simp add: file_bytes_def fbyte_def)
  have "fpost (readi (d_strat sw) (c_read sw) i ?x) (\<lambda>_ t. delivered ?bs ?x t \<and> binv t {} \<and> cont t = cont ?x \<and>
      (\<exists>l. inodes t i = (inodes ?x i)\<lparr>i_flag := insert IACC (i_flag (inodes ?x i)), i_lastr := l\<rparr>) \<and> usable t = usable ?x \<and> kept ?x t)"
  proof (rule fpost_mono [OF readi_reads [where s = ?x and i = i and N = n and H = "{}" and drd = "c_read sw", OF st _ _]])
    show "binv ?x {}" "usable ?x (i_dev (inodes ?x i))" "0 \<le> sint (u_offset ?x)" "n = min (unat (u_count ?x)) (unat (i_size (inodes ?x i)) - unat (u_offset ?x))"
      "\<not> is_block_dev (inodes ?x i)" "\<not> is_char_dev (inodes ?x i)" "blocks_ok (cont ?x (i_dev (inodes ?x i))) (i_addr (inodes ?x i))"
      using dx ty bk o0 c(2) by simp_all
    show "card ({} :: bnode set) + 1 < NBUF" "\<forall>c \<in> {}. b_dev ?x c \<noteq> i_dev (inodes ?x i)" by (simp_all add: NBUF_def)
    show "unat (i_size (inodes ?x i)) \<le> 512 * max_blocks" using q(2) by (simp add: max_blocks_def)
    show "u_error ?x = 0" "u_count ?x \<noteq> 0" "accessible (u_base ?x) n ?x" using q(3) c by simp_all
  qed (unfold qb, blast)
  then have "fpost (rdwr sw FREAD fdes b c s) (\<lambda>_ t. open_on dev fp i f fdes t \<and> fbyte t i = fbyte s i \<and>
    files t = (files s)(f := (files s f)\<lparr>f_offset := f_offset (files s f) + of_nat n\<rparr>) \<and> u_rval1 t = of_nat n \<and>
    u_mem t = (u_mem s)(0 := put_mem b ?bs (u_mem s 0)))"
  proof (intro rdwr_runs [OF o])
    assume r: "fpost (readi (d_strat sw) (c_read sw) i ?x) (\<lambda>_ t. delivered ?bs ?x t \<and> binv t {} \<and> cont t = cont ?x \<and>
      (\<exists>l. inodes t i = (inodes ?x i)\<lparr>i_flag := insert IACC (i_flag (inodes ?x i)), i_lastr := l\<rparr>) \<and> usable t = usable ?x \<and> kept ?x t)"
    have K: "i_mode (inodes t i) = i_mode (inodes s i) \<and> files t = files s \<and> open_on dev fp i f fdes (io_end i f c t) \<and> fbyte (io_end i f c t) i = fbyte s i \<and>
      files (io_end i f c t) = (files s)(f := (files s f)\<lparr>f_offset := f_offset (files s f) + of_nat n\<rparr>) \<and> u_rval1 (io_end i f c t) = of_nat n \<and>
      u_mem (io_end i f c t) = (u_mem s)(0 := put_mem b ?bs (u_mem s 0))"
      if t: "delivered ?bs ?x t \<and> binv t {} \<and> cont t = cont ?x \<and>
        (\<exists>l. inodes t i = (inodes ?x i)\<lparr>i_flag := insert IACC (i_flag (inodes ?x i)), i_lastr := l\<rparr>) \<and> usable t = usable ?x \<and> kept ?x t" for t
    proof -
      have it: "i_dev (inodes t i) = dev" "i_mode (inodes t i) = i_mode (inodes s i)" "i_addr (inodes t i) = i_addr (inodes s i)"
        "i_size (inodes t i) = i_size (inodes s i)" "files t = files s" "u_ofile t = u_ofile s" "cont t = cont s" "i_dev (inodes s i) = dev"
        using t dx(1) more_files [of t ?x] by (auto simp: kept_def)
      have "fs_free t dev fp L" by (rule fs_free_cong [of ?x]) (use wx t in \<open>simp_all add: wfile_def kept_def\<close>)
      then have wt: "wfile dev fp {} i L t" using wx t it by (simp add: wfile_def)
      have "i_mode (inodes t i) AND IFMT = IFREG" using it(2) q(5) by simp
      note E = io_end_file [OF wt this, of f c]
      have ut: "u_count t = c - of_nat n" "u_error t = 0" "u_mem t = (u_mem s)(0 := put_mem b ?bs (u_mem s 0))"
        using t q(3) by (simp_all add: delivered_def)
      have nu: "unat (of_nat n :: u16) = n" "n < 2 ^ 16"
        using c(2) unsigned_less [of c, where 'a = nat] by (simp_all add: unat_of_nat take_bit_nat_eq_self)
      have "unat (ucast (of_nat n :: u16) :: u32) = n" using nu by (simp add: unsigned_ucast_eq take_bit_nat_eq_self)
      then have un: "c - u_count t = of_nat n" "ucast (of_nat n :: u16) = (of_nat n :: u32)"
        unfolding ut(1) by (simp, elim of_nat_offset)
      have "fbyte t i = fbyte s i" using it by (intro ext) (simp add: fbyte_def)
      moreover have "open_on dev fp i f fdes (io_end i f c t)"
        using o wt L(2) E it ut q unfolding open_on_def by auto
      ultimately show ?thesis using E it(2,5) un ut(3) by simp
    qed
    show "fpost (if FREAD = FREAD then readi (d_strat sw) (c_read sw) i ?x else writei (d_strat sw) (c_write sw) i ?x)
      (\<lambda>_ t. i_mode (inodes t i) = i_mode (inodes s i) \<and> files t = files s \<and> open_on dev fp i f fdes (io_end i f c t) \<and> fbyte (io_end i f c t) i = fbyte s i \<and>
        files (io_end i f c t) = (files s)(f := (files s f)\<lparr>f_offset := f_offset (files s f) + of_nat n\<rparr>) \<and> u_rval1 (io_end i f c t) = of_nat n \<and>
        u_mem (io_end i f c t) = (u_mem s)(0 := put_mem b ?bs (u_mem s 0)))"
      by (simp only: refl if_True, rule fpost_mono [OF r]) (rule K)
  qed simp
  then show ?thesis by (simp add: read_sys_def)
qed
lemma ret_off_file: "wfile dev fp H i L (ret_off x s) = wfile dev fp H i L s"
  by (simp add: ret_off_def wfile_def fs_free_def fs_at_def)

lemma open_error: "open_on dev fp i f fdes s \<Longrightarrow> u_error s = 0"
  by (simp add: open_on_def)

lemma seek_open:
  assumes o: "open_on dev fp i f fdes s"
  shows "open_on dev fp i f fdes (seek fdes off 0 s)" "files (seek fdes off 0 s) = (files s)(f := (files s f)\<lparr>f_offset := off\<rparr>)"
    "inodes (seek fdes off 0 s) = inodes s" "u_mem (seek fdes off 0 s) = u_mem s" "fbyte (seek fdes off 0 s) = fbyte s"
proof -
  have "f_flag (files s f) AND (FPIPE OR FMP) = 0" using o by (simp add: open_on_def bit.conj_disj_distrib)
  then have e: "seek fdes off 0 s = ret_off off (f_upd f (\<lambda>fp. fp\<lparr>f_offset := off\<rparr>) s)" by (simp add: seek_def getf_open [OF o])
  have w: "wfile dev fp {} i L (seek fdes off 0 s) = wfile dev fp {} i L s" for L
    by (simp add: e ret_off_file) (simp add: f_upd_def wfile_def fs_free_def fs_at_def)
  show "files (seek fdes off 0 s) = (files s)(f := (files s f)\<lparr>f_offset := off\<rparr>)" "inodes (seek fdes off 0 s) = inodes s" "u_mem (seek fdes off 0 s) = u_mem s"
    by (simp_all add: e ret_off_def f_upd_def)
  then show "open_on dev fp i f fdes (seek fdes off 0 s)" using o by (auto simp: open_on_def w) (simp_all add: e ret_off_def f_upd_def)
  have "cont (seek fdes off 0 s) = cont s"
    by (simp add: e ret_off_def f_upd_def cont_def delayed_at_def fun_eq_iff split: option.split)
  then show "fbyte (seek fdes off 0 s) = fbyte s" by (intro ext) (simp add: fbyte_def e ret_off_def f_upd_def)
qed

section \<open>The properties\<close>

text \<open>
  C5. Writing and reading through a descriptor. On a descriptor that is open for both on a regular file of direct blocks, \<open>write\<close> of \<open>c\<close> bytes, \<open>seek\<close>
  back to where it began and \<open>read\<close> of as many bytes put the bytes that were at \<open>a\<close> in the user's memory at \<open>b\<close>; every other byte of the
  memory keeps its value, the call returns \<open>c\<close>, without error, and the descriptor stands behind the bytes again. The lock of the i-node,
  the table of files, the blocks and the buffers are afterwards as the next call needs them.
\<close>

theorem descriptor_round_trip:
  assumes st: "sync_driver (d_strat sw)" and o: "open_on dev fp i f fdes s"
    and n: "n = unat c" "0 < n" "unat (f_offset (files s f)) + n \<le> 5120"
    and u: "accessible a n (s\<lparr>u_segflg := 0\<rparr>)" "accessible b n (s\<lparr>u_segflg := 0\<rparr>)"
  shows "fpost (fbind (write_sys sw fdes a c s) (\<lambda>_ t. read_sys sw fdes b c (seek fdes (f_offset (files s f)) 0 t)))
    (\<lambda>_ t. open_on dev fp i f fdes t \<and> u_mem t = (u_mem s)(0 := put_mem b (user_bytes a n (s\<lparr>u_segflg := 0\<rparr>)) (u_mem s 0)) \<and> u_rval1 t = c \<and>
      u_error t = 0 \<and> unat (f_offset (files t f)) = unat (f_offset (files s f)) + n)"
proof (rule fpost_bind, rule fpost_mono [OF write_sys_stores [OF st o n(1,2) u(1) n(3)]], elim conjE)
  let ?bs = "user_bytes a n (s\<lparr>u_segflg := 0\<rparr>)" and ?p = "unat (f_offset (files s f))"
  fix x :: unit and t
  assume t: "open_on dev fp i f fdes t" "wrote i f c ?bs s t"
  define v where "v = seek fdes (f_offset (files s f)) 0 t"
  note S = seek_open [OF t(1), of "f_offset (files s f)", folded v_def]
  have lb: "length ?bs = n" by (simp add: user_bytes_def)
  have w: "\<And>k. k < 5120 \<Longrightarrow> fbyte t i k = (if ?p \<le> k \<and> k < ?p + n then ?bs ! (k - ?p) else fbyte s i k)"
    "unat (i_size (inodes t i)) = max (unat (i_size (inodes s i))) (?p + n)" "u_mem t = u_mem s" "files v = (files s)(f := files s f)"
    using t(2) lb by (simp_all add: wrote_def Let_def S(2))
  have c: "c \<noteq> 0" using n(1,2) by auto
  have N: "n = min (unat c) (unat (i_size (inodes v i)) - unat (f_offset (files v f)))" "unat (f_offset (files v f)) < 2 ^ 31" "accessible b n (v\<lparr>u_segflg := 0\<rparr>)"
    using n w(2,4) u(2) by (simp_all add: S accessible_def w(3))
  have nc: "of_nat n = c" using n(1) by simp
  have "map (fbyte v i) [?p..<?p + n] = ?bs" by (rule nth_equalityI) (use n(3) w(1) lb in \<open>simp_all add: S(5)\<close>)
  moreover have "unat (f_offset (files s f) + of_nat n) = ?p + n"
    using n(3) by (simp add: unat_word_ariths(1) unat_of_nat take_bit_nat_eq_self)
  ultimately show "fpost (read_sys sw fdes b c (seek fdes (f_offset (files s f)) 0 t)) (\<lambda>_ t. open_on dev fp i f fdes t \<and>
      u_mem t = (u_mem s)(0 := put_mem b ?bs (u_mem s 0)) \<and> u_rval1 t = c \<and> u_error t = 0 \<and> unat (f_offset (files t f)) = ?p + n)"
    unfolding v_def [symmetric] using S(4) w(3,4) nc
    by (intro fpost_mono [OF read_sys_delivers [OF st S(1) c N(1,3,2)]]) (auto dest: open_error)
qed

section \<open>Demonstration\<close>

text \<open>The file of the demonstrations before, open as the descriptor 5 at the offset 3.\<close>

definition demo_fd :: fil where
  "demo_fd = demo_pipe\<lparr>files := \<lambda>_. \<lparr>f_flag = 3, f_count = 1, f_inode = 0, f_offset = 3\<rparr>, u_ofile := (replicate 20 None)[5 := Some 0]\<rparr>"

lemma demo_fd_open: "open_on 0 (Buf 0) 0 0 5 demo_fd"
proof -
  have w: "wfile 0 (Buf 0) {} 0 L demo_fd = wfile 0 (Buf 0) {} 0 L demo_pipe" for L
    by (simp add: demo_fd_def wfile_def fs_free_def fs_at_def)
  have "inodes demo_fd = inodes demo_pipe" "u_error demo_fd = u_error demo_pipe" by (simp_all add: demo_fd_def)
  moreover have "u_error demo_pipe = 0" using demo_write_file(3) by (simp add: demo_pipe_def ino.extend_def)
  moreover have "pipe_ok 0 (Buf 0) 0 0 1 demo_pipe" by (rule demo_pipe_ok)
  moreover have "sint (5 :: u16) = 5" "unat (5 :: u16) = 5" by simp_all
  moreover have "u_ofile demo_fd ! 5 = Some 0" "files demo_fd = (\<lambda>_. \<lparr>f_flag = 3, f_count = 1, f_inode = 0, f_offset = 3\<rparr>)" by (simp_all add: demo_fd_def)
  ultimately show ?thesis by (auto simp: open_on_def pipe_ok_def w NOFILE_def FPIPE_def FMP_def FREAD_def FWRITE_def)
qed

theorem descriptor_round_trip_witness:
  "fpost (fbind (write_sys demo_sw 5 100 20 demo_fd) (\<lambda>_ t. read_sys demo_sw 5 3000 20 (seek 5 3 0 t)))
    (\<lambda>_ t. u_mem t = (u_mem demo_fd)(0 := put_mem 3000 (replicate 20 65) (u_mem demo_fd 0)) \<and> u_rval1 t = 20 \<and> unat (f_offset (files t 0)) = 23)"
proof -
  have m: "u_mem demo_fd = (\<lambda>_ _. Some 65)" using demo_write_file(9) by (simp add: demo_fd_def demo_pipe_def bio_extend)
  have ub: "user_bytes 100 20 (demo_fd\<lparr>u_segflg := 0\<rparr>) = replicate 20 65"
    by (rule nth_equalityI) (simp_all add: user_bytes_def m del: upt_rec_numeral)
  have o: "f_offset (files demo_fd 0) = 3" by (simp add: demo_fd_def)
  have a: "accessible b n (demo_fd\<lparr>u_segflg := 0\<rparr>)" for b n by (simp add: accessible_def m)
  show ?thesis
    by (rule fpost_mono [OF descriptor_round_trip [OF demo_pipe_ok(3) demo_fd_open, of 20 20 100 3000, unfolded o ub]]) (simp_all add: a)
qed

section \<open>Compressed times\<close>

lemma sint_8192: "8192 \<le> sint t \<longleftrightarrow> 8192 \<le> unat t" if "unat t < 2 ^ 31" for t :: u32
  unfolding sint_unat32 [OF that] by (metis of_nat_le_iff of_nat_numeral)

lemma shift_three:
  fixes t :: u32
  assumes "unat t < 2 ^ 31"
  shows "unat (signed_drop_bit 3 t) = unat t div 8" "t AND 4 \<noteq> 0 \<longleftrightarrow> 4 \<le> unat t mod 8"
proof -
  have "sint (signed_drop_bit 3 t) = int (unat t) div 2 ^ 3"
    using sint_unat32 [OF assms] by (simp only: sint_signed_drop_bit_eq drop_bit_eq_div)
  then have "sint (signed_drop_bit 3 t) = int (unat t div 8)" by (simp add: zdiv_int)
  then have "int (unat (signed_drop_bit 3 t)) = int (unat t div 8)" using unat_sint [of "signed_drop_bit 3 t"] by simp
  then show "unat (signed_drop_bit 3 t) = unat t div 8" by (simp only: of_nat_eq_iff)
  have "t AND 4 \<noteq> 0 \<longleftrightarrow> bit t 2" using bit_iff_and_push_bit_not_eq_0 [of t 2] by simp
  also have "\<dots> \<longleftrightarrow> bit (unat t) 2" by (simp add: bit_unsigned_iff)
  also have "\<dots> \<longleftrightarrow> odd (unat t div 4)" by (simp add: bit_iff_odd)
  also have "\<dots> \<longleftrightarrow> 4 \<le> unat t mod 8" by presburger
  finally show "t AND 4 \<noteq> 0 \<longleftrightarrow> 4 \<le> unat t mod 8" .
qed

lemma compress_loop_scales:
  "unat t < 2 ^ 31 \<Longrightarrow> \<exists>k r'. compress_loop e r t = (e + of_nat k, r', of_nat (unat t div 8 ^ k)) \<and> unat t div 8 ^ k < 8192 \<and>
     (if k = 0 then r' = r else 8192 \<le> unat t div 8 ^ (k - 1) \<and> r' = (4 \<le> unat t div 8 ^ (k - 1) mod 8))"
proof (induction e r t rule: compress_loop.induct)
  case (1 e r t)
  note s = sint_8192 [OF 1(2)]
  show ?case
  proof (cases "8192 \<le> unat t")
    case False
    then have "\<not> 8192 \<le> sint t" unfolding s by simp
    then show ?thesis using False by (intro exI [of _ 0] exI [of _ r]) (simp add: compress_loop.simps)
  next
    case True
    then have b: "8192 \<le> sint t" unfolding s by simp
    note T = shift_three [OF 1(2)]
    let ?t = "signed_drop_bit 3 t"
    have "unat ?t < 2 ^ 31" using T(1) 1(2) by simp
    from 1(1) [OF b this] obtain k r' where k:
      "compress_loop (e + 1) (t AND 4 \<noteq> 0) ?t = (e + 1 + of_nat k, r', of_nat (unat ?t div 8 ^ k))" "unat ?t div 8 ^ k < 8192"
      "if k = 0 then r' = (t AND 4 \<noteq> 0) else 8192 \<le> unat ?t div 8 ^ (k - 1) \<and> r' = (4 \<le> unat ?t div 8 ^ (k - 1) mod 8)" by blast
    have d: "unat ?t div 8 ^ k = unat t div 8 ^ Suc k" for k by (simp add: T(1) div_mult2_eq)
    have "compress_loop e r t = compress_loop (e + 1) (t AND 4 \<noteq> 0) ?t" using b by (subst compress_loop.simps) simp
    moreover have "8192 \<le> unat t div 8 ^ k \<and> r' = (4 \<le> unat t div 8 ^ k mod 8)"
    proof (cases k)
      case 0
      then show ?thesis using k(3) True T(2) by simp
    next
      case (Suc m)
      then show ?thesis using k(3) d [of m] by simp
    qed
    ultimately show ?thesis using k(1,2) unfolding d by (intro exI [of _ "Suc k"] exI [of _ r']) (simp add: add.assoc)
  qed
qed

lemma small_of_nat: "n < 2 ^ 31 \<Longrightarrow> unat (of_nat n :: u32) = n"
  by (simp add: unat_of_nat take_bit_nat_eq_self)

lemma pack:
  assumes "e < 8" "m < 8192"
  shows "unat (push_bit 13 (of_nat e) + ucast (of_nat m :: u32) :: u16) = e * 8192 + m"
proof -
  have "(ucast (of_nat m :: u32) :: u16) = of_nat m" using assms(2) by (simp add: unsigned_of_nat take_bit_nat_eq_self)
  moreover have "push_bit 13 (of_nat e :: u16) = of_nat (e * 8192)" by (simp add: push_bit_eq_mult)
  ultimately have "push_bit 13 (of_nat e) + ucast (of_nat m :: u32) = (of_nat (e * 8192 + m) :: u16)" by simp
  moreover have "e * 8192 + m < 2 ^ 16" using assms by simp
  ultimately show ?thesis by (simp only: unat_of_nat) (simp add: take_bit_nat_eq_self)
qed

text \<open>
  C22. The times of the accounting record. For a time that is not negative \<open>compress\<close> yields 3 bits of exponent and 13 of fraction; the number they
  stand for, the fraction times that power of eight, is the nearest to the time with that exponent: it differs by no more than half a unit
  of the last place. Times below 8192 are exact, and above them the fraction has at least 11 significant bits. The exponent does not overflow
  its three bits, not even when the rounding carries out of the fraction.
\<close>

theorem compress_nearest:
  assumes "0 \<le> sint t" "e = unat (compress t) div 8192" "m = unat (compress t) mod 8192"
  shows "2 * \<bar>int (m * 8 ^ e) - sint t\<bar> \<le> 8 ^ e \<and> (sint t < 8192 \<longrightarrow> int m = sint t \<and> e = 0) \<and> (8192 \<le> sint t \<longrightarrow> 1024 \<le> m \<and> 0 < e \<and> e \<le> 7)"
proof -
  let ?T = "unat t"
  have s: "sint t = int ?T" using unat_sint [OF assms(1)] by simp
  have T: "?T < 2 ^ 31"
  proof -
    have "sint t < 2 ^ (LENGTH(32) - 1)" by (rule sint_lt)
    then have "int ?T < int (2 ^ 31)" unfolding s by simp
    then show ?thesis by (simp only: of_nat_less_iff)
  qed
  obtain k r where k: "compress_loop 0 False t = (of_nat k, r, of_nat (?T div 8 ^ k))" "?T div 8 ^ k < 8192"
    "if k = 0 then r = False else 8192 \<le> ?T div 8 ^ (k - 1) \<and> r = (4 \<le> ?T div 8 ^ (k - 1) mod 8)"
    using compress_loop_scales [OF T, of 0 False] unfolding add_0 by blast
  let ?q = "?T div 8 ^ k"
  have k6: "k \<le> 6"
  proof (rule ccontr)
    assume "\<not> k \<le> 6"
    then have "8 ^ 6 \<le> (8 :: nat) ^ (k - 1)" by (intro power_increasing) simp_all
    then have "?T div 8 ^ (k - 1) \<le> ?T div 8 ^ 6" by (intro div_le_mono2) simp_all
    also have "\<dots> < 8192" using T by (simp add: less_mult_imp_div_less)
    finally show False using k(3) \<open>\<not> k \<le> 6\<close> by simp
  qed
  have nq: "unat (of_nat ?q :: u32) = ?q" using k(2) by (simp add: unat_of_nat take_bit_nat_eq_self)
  define q' where "q' = (if r then ?q + 1 else ?q)"
  define e' m' where "e' = (if q' = 8192 then k + 1 else k)" and "m' = (if q' = 8192 then 1024 else q')"
  have "compress t = push_bit 13 (of_nat e') + ucast (of_nat m' :: u32)"
  proof (cases r)
    case False
    then show ?thesis using k(2) by (simp add: compress_def k(1) e'_def m'_def q'_def)
  next
    case True
    have n: "unat (of_nat (?q + 1) :: u32) = ?q + 1" by (rule small_of_nat) (use k(2) in simp)
    have "8192 \<le> sint (of_nat (?q + 1) :: u32) \<longleftrightarrow> 8192 \<le> ?q + 1" using sint_8192 [of "of_nat (?q + 1)"] k(2) unfolding n by simp
    then have b: "8192 \<le> sint (of_nat ?q + 1 :: u32) \<longleftrightarrow> ?q + 1 = 8192" using k(2) by (auto simp: add.commute)
    have c: "compress t = (case (if 8192 \<le> sint (of_nat ?q + 1 :: u32) then (of_nat k + 1, signed_drop_bit 3 (of_nat ?q + 1 :: u32)) else (of_nat k, of_nat ?q + 1)) of
        (e, t) \<Rightarrow> push_bit 13 e + ucast t)"
      by (simp only: compress_def k(1) True prod.case if_True Let_def)
    show ?thesis
    proof (cases "?q + 1 = 8192")
      case full: True
      have "signed_drop_bit 3 (8192 :: u32) = 1024" by code_simp
      moreover have "of_nat ?q + 1 = (8192 :: u32)" using arg_cong [OF full, of "of_nat :: nat \<Rightarrow> u32"] by (simp add: add.commute)
      moreover have "e' = k + 1" "m' = 1024" using full True by (simp_all add: e'_def m'_def q'_def)
      ultimately show ?thesis unfolding c b using full by (simp only: if_True prod.case of_nat_add of_nat_1 of_nat_numeral simp_thms)
    next
      case nf: False
      then have "e' = k" "m' = ?q + 1" using True by (simp_all add: e'_def m'_def q'_def)
      then show ?thesis unfolding c b using nf by (simp only: if_False prod.case of_nat_add of_nat_1)
    qed
  qed
  then have c: "unat (compress t) = e' * 8192 + m'" using pack [of e' m'] k6 k(2) by (simp add: e'_def m'_def q'_def)
  have em: "e = e'" "m = m'" using assms(2,3) k(2) unfolding c by (auto simp: m'_def q'_def split: if_splits)
  have v: "m * 8 ^ e = q' * 8 ^ k" "(8 :: int) ^ k \<le> 8 ^ e" "e \<le> 7" using k6 by (auto simp: em m'_def e'_def)
  show ?thesis
  proof (cases k)
    case 0
    then have "q' = ?T" "?T < 8192" using k(2,3) by (simp_all add: q'_def)
    moreover from this have "sint t < 8192" unfolding s by (metis of_nat_less_iff of_nat_numeral)
    moreover have "e = 0" "m = ?T" using \<open>q' = ?T\<close> \<open>?T < 8192\<close> 0 by (simp_all add: em e'_def m'_def)
    ultimately show ?thesis unfolding s by simp
  next
    case (Suc j)
    let ?D = "8 ^ j :: nat"
    have w: "8192 \<le> ?T div ?D" "r = (4 \<le> ?T div ?D mod 8)" "?q = ?T div ?D div 8" using k(3) Suc by (simp_all add: div_mult2_eq [symmetric] mult.commute)
    define b where "b = ?T div ?D mod 8"
    define rm where "rm = ?T mod ?D"
    have "?T = (8 * ?q + b) * ?D + rm" unfolding w(3) b_def rm_def by (simp only: mult_div_mod_eq div_mult_mod_eq)
    moreover define Q where "Q = ?q"
    ultimately have T8: "?T = Q * 8 ^ k + b * ?D + rm" by (simp add: Suc algebra_simps)
    have qQ: "q' = (if r then Q + 1 else Q)" by (simp add: q'_def Q_def)
    define D B where "D = ?D" and "B = b * D"
    have k8: "8 ^ k = 8 * D" "(8 :: int) ^ k = 8 * int D" by (simp_all add: D_def Suc)
    have rm: "rm < D" "b < 8" by (simp_all add: rm_def b_def D_def)
    have rB: "if r then 4 * D \<le> B \<and> B \<le> 7 * D else B \<le> 3 * D"
      using w(2) rm(2) unfolding B_def b_def [symmetric] by (auto intro: mult_le_mono1)
    have TB: "?T = Q * (8 * D) + B + rm" using T8 unfolding k8(1) by (simp add: B_def D_def)
    have "2 * \<bar>int (q' * 8 ^ k) - int ?T\<bar> \<le> 8 ^ k"
    proof (cases r)
      case True
      have "int (q' * 8 ^ k) - int ?T = 8 * int D - int B - int rm" unfolding qQ TB k8(1) using True by (simp add: algebra_simps)
      then show ?thesis unfolding k8(2) using True rB rm(1) by simp
    next
      case False
      have "int (q' * 8 ^ k) - int ?T = - int B - int rm" unfolding qQ TB k8(1) using False by simp
      then show ?thesis unfolding k8(2) using False rB rm(1) by simp
    qed
    then have "2 * \<bar>int (m * 8 ^ e) - sint t\<bar> \<le> 8 ^ e" unfolding v(1) s using v(2) by linarith
    moreover have "8192 \<le> ?T" using w(1) div_le_dividend [of ?T ?D] by linarith
    then have "8192 \<le> sint t" unfolding sint_8192 [OF T] .
    moreover have "1024 \<le> m" "0 < e" using w(1,3) by (simp_all add: em m'_def q'_def e'_def Suc) linarith
    ultimately show ?thesis using v(3) by simp
  qed
qed

theorem compress_nearest_witness:
  "2 * \<bar>int (unat (compress 1000000) mod 8192 * 8 ^ (unat (compress 1000000) div 8192)) - 1000000\<bar> \<le> (8 :: int) ^ (unat (compress 1000000) div 8192) \<and>
   1024 \<le> unat (compress 1000000) mod 8192"
  using compress_nearest [OF _ refl refl, of 1000000] by simp

section \<open>The super block on the disk\<close>

lemma get_cons: "0 < a \<Longrightarrow> get_bytes a n (x # ys) = get_bytes (a - 1) n ys"
  by (cases a) (simp_all add: get_bytes_def)

text \<open>The bytes of a super block whose lists have their full length, read back, are the same super block.\<close>

lemma bytes_filsys_bytes:
  assumes "length (s_free f) = NICFREE" "length (s_inode f) = NICINOD"
  shows "bytes_filsys (filsys_bytes f) = f"
proof -
  have l: "length (longs_bytes (s_free f)) = 200" "length (ints_bytes (s_inode f)) = 200" using assms by (simp_all add: NICFREE_def NICINOD_def)
  have a: "bytes_longs NICFREE (longs_bytes (s_free f)) = s_free f" "bytes_ints NICINOD (ints_bytes (s_inode f)) = s_inode f"
    using bytes_longs_bytes [of "s_free f" "[]"] bytes_ints_bytes [of "s_inode f" "[]"] assms by simp_all
  show ?thesis
    by (cases f) (use l a in \<open>simp add: bytes_filsys_def filsys_bytes_def get_bytes_skip get_bytes_here get_cons nth_append\<close>)
qed

end
