(* ===== verification/Sync.thy ===== *)
theory Sync
  imports Files
begin

text \<open>
  \<open>update\<close> (\<open>sys/alloc.c\<close>), the internal name of sync, and the mounting of a device (\<open>smount\<close>, \<open>sys/sys3.c\<close>): what is written of the super
  blocks, that the i-nodes written behind them leave them alone, and what a later mount reads.
\<close>

unbundle bit_operations_syntax

section \<open>The super blocks\<close>

















section \<open>The i-nodes\<close>











section \<open>sync and mount\<close>









section \<open>The property\<close>






end
