(* ===== verification/Spec2Isabelle.thy ===== *)
theory Spec2Isabelle
  imports V7_Prelude Res_Map Callout Clist User_IO Tty Sched Swap Sig Seg Syscalls Crypt Layout Libc Qsort Ctime
    Bio Bflush Alloc Inode Rdwri File_Write Fio Nami Pipe Files Sync
begin

text \<open>
  The Seventh Edition of UNIX: the core of the kernel (\<open>usr/sys\<close>) and some routines of the C library (\<open>usr/src/libc/gen\<close>), one theory
  for each component. The definitions have the names of the functions and structures of the source; auxiliary ones stand for
  a loop or a branch of one function. A theory has the program first, then the lemmas, then the properties (a property is
  marked by its number, \<open>C1\<close> to \<open>C40\<close>), each with its witness.

  \<^bold>\<open>The parts and how they depend on each other.\<close>

  Foundations.
  \<^item> \<open>V7_Prelude\<close>: word widths, generic lemmas. \<open>Layout\<close>: how integers and structures lie in blocks of bytes.
  \<^item> \<open>Res_Map\<close>: the maps of free core and swap space (\<open>malloc\<close>, \<open>mfree\<close> of \<open>sys/malloc.c\<close>). Lemmas read a map as a set of free units;
    \<open>malloc\<close> is first fit, \<open>mfree\<close> keeps the map sorted and merged.
  \<^item> \<open>Callout\<close>: the callout table (\<open>timeout\<close> and the clock's part of \<open>sys/clock.c\<close>), read as a list of absolute times.
  \<^item> \<open>Clist\<close>: the character lists (\<open>sys/prim.c\<close>) over shared blocks, read as byte queues.
  \<^item> \<open>User_IO\<close>: \<open>passc\<close>, \<open>cpass\<close>, \<open>iomove\<close>, \<open>copyin\<close>, \<open>copyout\<close>: user memory is a partial map, an address outside it faults.

  Terminals and processes.
  \<^item> \<open>Tty\<close> (\<open>dev/tty.c\<close>, on \<open>Clist\<close> and \<open>User_IO\<close>): line editing, input, echo and output, reading and writing.
  \<^item> \<open>Sched\<close> (\<open>sys/slp.c\<close>): run queue and sleep queues as linked lists, \<open>wakeup\<close> with \<open>setrun\<close>, \<open>swtch\<close>. The lemmas give the effect of
    each operation on the queues as lists (\<open>queues\<close>); a \<open>wakeup\<close> that meets the swapper on its own chain loses waiters.
  \<^item> \<open>Swap\<close> (\<open>sys/slp.c\<close>, \<open>sys/text.c\<close>, on \<open>Sched\<close> and \<open>Res_Map\<close>): images in core and on the swap device, swapping, \<open>newproc\<close>, \<open>sched\<close>.
  \<^item> \<open>Sig\<close> (\<open>sys/sig.c\<close>, the whole of \<open>sleep\<close>, the clock's accounting): posting and finding signals, interrupted sleeps.
  \<^item> \<open>Seg\<close> (\<open>estabur\<close>, \<open>sureg\<close> of \<open>sys/ureg.c\<close>): the segmentation tables against the layout of an image.
  \<^item> \<open>Syscalls\<close> (\<open>sys/sys4.c\<close>, \<open>sys/sys1.c\<close>, on \<open>Sig\<close> and \<open>Seg\<close>): kill, wait, fork, break, identity and time.

  Files; the state of each theory extends the record of the one before (\<open>bio\<close>, \<open>alc\<close>, \<open>ino\<close>, \<open>fil\<close>).
  \<^item> \<open>Bio\<close> (\<open>dev/bio.c\<close>): the buffer cache with its rings. \<open>binv s H\<close> is its invariant when the buffers \<open>H\<close> are held; \<open>cont s\<close> is what
    the devices hold, the disk under the delayed writes. Every routine above is proved on these two.
  \<^item> \<open>Bflush\<close>: \<open>bflush\<close> with a driver that only queues.
  \<^item> \<open>Alloc\<close> (\<open>sys/alloc.c\<close>): super blocks and the list of free blocks, a stack whose lower part is on the disk.
  \<^item> \<open>Inode\<close> (\<open>sys/iget.c\<close>, \<open>bmap\<close> of \<open>sys/subr.c\<close>, \<open>ialloc\<close> and \<open>update\<close> of \<open>sys/alloc.c\<close>): the table of i-nodes, their form on the disk, the
    tree of blocks of a file, with a recursive reference definition for \<open>bmap\<close>.
  \<^item> \<open>Rdwri\<close>, \<open>File_Write\<close> (\<open>sys/rdwri.c\<close>): \<open>readi\<close> delivers the bytes that the tree stands for; \<open>writei\<close> stores into them and nowhere else.
  \<^item> \<open>Fio\<close> (\<open>sys/fio.c\<close>): open files, descriptors, permissions, the device switch. \<open>Nami\<close> (\<open>sys/nami.c\<close>): path names, against a reference walk.
  \<^item> \<open>Pipe\<close> (\<open>sys/pipe.c\<close>): a pipe as a queue. \<open>Files\<close> (\<open>sys/sys2.c\<close>, \<open>sys/sys3.c\<close>, \<open>sys/sys4.c\<close>, \<open>sys/acct.c\<close>, ioctl): the system calls on all these.
  \<^item> \<open>Sync\<close>: what \<open>update\<close> writes of the super blocks, and that \<open>smount\<close> reads it back.

  Library: \<open>Crypt\<close> (\<open>crypt.c\<close>), \<open>Libc\<close> (strings, numbers, \<open>l3.c\<close>), \<open>Qsort\<close> (\<open>qsort.c\<close>), \<open>Ctime\<close> (\<open>ctime.c\<close>).

  Interfaces that a client relies on are locales: \<open>space_allocator\<close> (\<open>Res_Map\<close>), \<open>byte_queue\<close> (\<open>Clist\<close>) and \<open>comparison\<close> (\<open>Qsort\<close>), each
  interpreted on the code's own operations.

  \<^bold>\<open>Outcomes.\<close> A routine returns, or goes to sleep (\<open>Sleeps\<close>, \<open>TSleep\<close>, \<open>Asleep\<close>), or panics, or ends with one of two marks: \<open>Stuck\<close> or
  \<open>Endless\<close> when a bounded loop of the model has used up its bound, \<open>Wild\<close> when the code follows a pointer or index that the source
  gives no meaning to. \<open>Asleep\<close> has the state that the other processes find; the routine is then begun again by the
  caller (as the code does with its \<open>goto loop\<close>), and nothing is said of a continuation in the middle. \<open>fpost m Q\<close> says that \<open>m\<close> returns,
  and with \<open>Q\<close>: the properties of the file system stated with it include that the routine ends. \<open>post\<close> in \<open>Swap\<close> is the weaker one, if it returns.

  \<^bold>\<open>Bounds.\<close> Where the source has a loop without a bound of its own, the model counts. The searches of the cache have \<open>NBUF + 1\<close>
  rounds: each round but the last takes one delayed write off the free list (\<open>backlog_bound\<close>). \<open>readi\<close>, \<open>writei\<close> and \<open>writep\<close> have one
  more than \<open>u_count\<close>: every round but the last moves a byte. \<open>iget\<close> and the walk over \<open>..\<close> have \<open>NMOUNT + 1\<close>: every round but the last crosses a mount. A path name
  has \<open>2\<^sup>1\<^sup>6 + 1\<close> characters, as many as there are addresses; a directory its size divided by 16 plus two. \<open>wakeup\<close> has \<open>2 * NPROC + 4\<close>, for a chain with one nested
  wakeup; \<open>newproc\<close> tries \<open>2 * NPROC + 2\<close> numbers, more than pids and groups can occupy. The loops over a character queue have its count plus one. The
  properties of the cache, of \<open>readi\<close> and \<open>writei\<close>, of path names and directories, of \<open>wakeup\<close>, \<open>newproc\<close> and the character queues show that these bounds suffice under their
  hypotheses; those of \<open>writep\<close> and of mounts suffice for the reason given, as long as the mounts make no circle. \<open>ialloc\<close> has \<open>2 * NICINOD + 2\<close> rounds, a plain cut-off; no property rests on it.

  \<^bold>\<open>Drivers.\<close> A driver is a parameter, its strategy routine. Most properties of the cache and of the file system suppose \<open>sync_driver\<close>: the routine has
  transferred the block and called \<open>iodone\<close> when it returns. No driver of \<open>usr/sys/dev\<close> is so; they start the transfer and its interrupt ends
  it. The supposition replaces the waiting in \<open>iowait\<close> by its result, and stands for executions in which no other process runs between the start of a transfer and
  its end. It says nothing about when a delayed or asynchronous write reaches the disk; for that, \<open>Bflush\<close> has drivers that only queue: what \<open>bflush\<close> hands over, and
  the disk once the driver has ended the transfers in any order.

  \<^bold>\<open>Scope of some properties.\<close> Writes and the round trip of a descriptor are within the ten direct blocks; passes of a pipe are of at most 1024 bytes;
  path names are looked up with every i-node in core and no mount crossed; the write behind the largest file is of less than a block.

  \<^bold>\<open>Not modelled.\<close> Interrupt priorities and true concurrency (a routine is one step, or the steps between its sleeps); \<open>exec\<close>, \<open>exit\<close>, core dumps and
  tracing; the allocation of texts (\<open>xalloc\<close>, \<open>xfree\<close>); raw I/O, the waiting for the swap buffer in \<open>swap\<close>; device drivers, multiplexed
  files, assembler; of the library, standard I/O and the storage allocator; the commands.
\<close>

end
